(* ===== verification/Prelude.thy ===== *)
theory Prelude
  imports Main
begin

text \<open>
  Shared vocabulary of the development: the exceptions of the C++ code as values, sequencing of
  fallible steps, and the standard-library containers and algorithms that the modelled
  components use (\<open>std::multimap\<close>, \<open>std::find_if\<close>, \<open>std::adjacent_find\<close>, \<open>std::sort\<close> with
  \<open>std::unique\<close>). Pointers of the C++ program are natural numbers, compared by \<open><\<close> as
  \<open>std::less\<close> compares addresses.
\<close>

named_theorems visr_defs \<open>definitional equations of small accessors, unfolded on demand\<close>

section \<open>Exceptions and fallible computations\<close>

text \<open>
  The standard exception classes thrown by the code, and \<open>char_array\<close> for a thrown string literal, which
  no handler of \<open>std::exception\<close> catches. \<open>undefined_behaviour\<close> is not an exception:
  it marks the places where the C++ program dereferences an end iterator or a null pointer,
  so that no branch of a model silently continues where the program has no meaning.
\<close>

datatype exn =
    invalid_argument | out_of_range | logic_error | runtime_error | bad_cast | bad_alloc | char_array
  | undefined_behaviour

text \<open>The exceptions that a handler of \<open>std::exception\<close> catches.\<close>

fun std_exception :: "exn \<Rightarrow> bool" where
  "std_exception char_array = False"
| "std_exception undefined_behaviour = False"
| "std_exception _ = True"

definition bindE :: "'e + 'a \<Rightarrow> ('a \<Rightarrow> 'e + 'b) \<Rightarrow> 'e + 'b" where
  "bindE m f = (case m of Inl e \<Rightarrow> Inl e | Inr x \<Rightarrow> f x)"

lemma bindE_simps [simp]:
  "bindE (Inl e) f = Inl e"
  "bindE (Inr x) f = f x"
  by (simp_all add: bindE_def)

lemma bindE_eq_Inr [simp]: "bindE m f = Inr y \<longleftrightarrow> (\<exists>x. m = Inr x \<and> f x = Inr y)"
  by (cases m) (auto simp: bindE_def)

lemma bindE_eq_Inl [simp]:
  "bindE m f = Inl e \<longleftrightarrow> m = Inl e \<or> (\<exists>x. m = Inr x \<and> f x = Inl e)"
  by (cases m) (auto simp: bindE_def)

text \<open>A loop whose body may throw: the first exception leaves the loop.\<close>

fun foldE :: "('s \<Rightarrow> 'a \<Rightarrow> 'e + 's) \<Rightarrow> 's \<Rightarrow> 'a list \<Rightarrow> 'e + 's" where
  "foldE f s [] = Inr s"
| "foldE f s (x # xs) = bindE (f s x) (\<lambda>s'. foldE f s' xs)"

lemma foldE_append: "foldE f s (xs @ ys) = bindE (foldE f s xs) (\<lambda>s'. foldE f s' ys)"
proof (induction xs arbitrary: s)
  case (Cons x xs)
  then show ?case by (cases "f s x") simp_all
qed simp

lemma foldE_cong [fundef_cong]:
  "\<lbrakk>s = s'; xs = ys; \<And>t x. x \<in> set ys \<Longrightarrow> f t x = g t x\<rbrakk> \<Longrightarrow> foldE f s xs = foldE g s' ys"
proof (induction ys arbitrary: s s' xs)
  case (Cons y ys)
  then show ?case by (cases "g s' y") simp_all
qed simp

text \<open>An invariant of a loop body that may throw holds where the loop ends normally.\<close>

lemma foldE_invariant:
  assumes "foldE f s xs = Inr t" and "P s"
    and "\<And>u x u'. x \<in> set xs \<Longrightarrow> P u \<Longrightarrow> f u x = Inr u' \<Longrightarrow> P u'"
  shows "P t"
  using assms
proof (induction xs arbitrary: s)
  case (Cons x xs)
  from Cons.prems(1) obtain u where u: "f s x = Inr u" "foldE f u xs = Inr t" by auto
  have "P u" using Cons.prems(2,3) u(1) by auto
  then show ?case using Cons.IH [OF u(2)] Cons.prems(3) by auto
qed simp

text \<open>A loop that never throws, given an invariant under which its body does not throw.\<close>

lemma foldE_total:
  assumes "P s" and "\<And>u x. x \<in> set xs \<Longrightarrow> P u \<Longrightarrow> \<exists>u'. f u x = Inr u' \<and> P u'"
  shows "\<exists>t. foldE f s xs = Inr t \<and> P t"
  using assms
proof (induction xs arbitrary: s)
  case (Cons x xs)
  from Cons.prems obtain u where u: "f s x = Inr u" "P u" by (meson list.set_intros(1))
  then show ?case using Cons.IH [OF u(2)] Cons.prems(2) by auto
qed simp

section \<open>Searching\<close>

text \<open>\<open>std::find_if\<close> is \<^const>\<open>List.find\<close>; the facts used about it.\<close>

lemma find_SomeD: "List.find P xs = Some x \<Longrightarrow> x \<in> set xs \<and> P x"
  by (auto simp: find_Some_iff)

lemma find_SomeI: "x \<in> set xs \<Longrightarrow> P x \<Longrightarrow> \<exists>y. List.find P xs = Some y"
  by (metis find_None_iff option.exhaust)

lemma find_unique:
  "\<lbrakk>x \<in> set xs; P x; \<And>y. y \<in> set xs \<Longrightarrow> P y \<Longrightarrow> y = x\<rbrakk> \<Longrightarrow> List.find P xs = Some x"
  by (metis find_SomeD find_SomeI)

text \<open>\<open>std::adjacent_find\<close>: the first position whose element and successor satisfy \<open>p\<close>.\<close>

fun adjacent_find :: "('a \<Rightarrow> 'a \<Rightarrow> bool) \<Rightarrow> 'a list \<Rightarrow> nat option" where
  "adjacent_find p (x # y # zs) =
     (if p x y then Some 0 else map_option Suc (adjacent_find p (y # zs)))"
| "adjacent_find p _ = None"

lemma adjacent_find_None:
  "adjacent_find p xs = None \<longleftrightarrow> (\<forall>i. Suc i < length xs \<longrightarrow> \<not> p (xs ! i) (xs ! Suc i))"
proof (induction p xs rule: adjacent_find.induct)
  case (1 p x y zs)
  have split: "(\<forall>i. Suc i < length (x # y # zs) \<longrightarrow> \<not> p ((x # y # zs) ! i) ((x # y # zs) ! Suc i))
    \<longleftrightarrow> \<not> p x y \<and> (\<forall>i. Suc i < length (y # zs) \<longrightarrow> \<not> p ((y # zs) ! i) ((y # zs) ! Suc i))"
    (is "?L = ?R")
  proof
    assume ?L
    then show ?R by (metis Suc_less_eq length_Cons nth_Cons_0 nth_Cons_Suc zero_less_Suc)
  next
    assume R: ?R
    show ?L
    proof (intro allI impI)
      fix i assume "Suc i < length (x # y # zs)"
      with R show "\<not> p ((x # y # zs) ! i) ((x # y # zs) ! Suc i)" by (cases i) auto
    qed
  qed
  show ?case using 1 by (simp only: split) auto
qed auto

section \<open>Ordered containers\<close>

text \<open>
  \<open>std::multimap\<close> and \<open>std::multiset\<close> keep their elements sorted by key; \<open>insert\<close> puts a new
  element after the elements with an equivalent key (C++11 [associative.reqmts]). Both are
  lists, in iteration order.
\<close>

fun ms_insert :: "('a \<Rightarrow> 'a \<Rightarrow> bool) \<Rightarrow> 'a \<Rightarrow> 'a list \<Rightarrow> 'a list" where
  "ms_insert lt e [] = [e]"
| "ms_insert lt e (x # xs) = (if lt e x then e # x # xs else x # ms_insert lt e xs)"

abbreviation mm_insert :: "'k::linorder \<times> 'v \<Rightarrow> ('k \<times> 'v) list \<Rightarrow> ('k \<times> 'v) list" where
  "mm_insert \<equiv> ms_insert (\<lambda>a b. fst a < fst b)"

definition mm_insert_all :: "('k::linorder \<times> 'v) list \<Rightarrow> ('k \<times> 'v) list \<Rightarrow> ('k \<times> 'v) list" where
  "mm_insert_all es m = fold mm_insert es m"

lemma set_ms_insert [simp]: "set (ms_insert lt e m) = insert e (set m)"
  by (induction m) auto

lemma length_ms_insert [simp]: "length (ms_insert lt e m) = Suc (length m)"
  by (induction m) auto

lemma distinct_ms_insert [simp]: "distinct (ms_insert lt e m) \<longleftrightarrow> e \<notin> set m \<and> distinct m"
  by (induction m) auto

lemma sorted_mm_insert: "sorted (map fst m) \<Longrightarrow> sorted (map fst (mm_insert e m))"
  by (induction m) auto

lemma length_filter_ms_insert [simp]:
  "length (filter P (ms_insert lt e m)) = (if P e then 1 else 0) + length (filter P m)"
  by (induction m) auto

lemma set_mm_insert_all [simp]: "set (mm_insert_all es m) = set es \<union> set m"
  unfolding mm_insert_all_def by (induction es arbitrary: m) auto

lemma sorted_mm_insert_all:
  "sorted (map fst m) \<Longrightarrow> sorted (map fst (mm_insert_all es m))"
  unfolding mm_insert_all_def by (induction es arbitrary: m) (auto simp: sorted_mm_insert)

lemma length_filter_mm_insert_all [simp]:
  "length (filter P (mm_insert_all es m)) = length (filter P es) + length (filter P m)"
  unfolding mm_insert_all_def by (induction es arbitrary: m) auto

text \<open>
  \<open>std::sort\<close> followed by \<open>erase( unique )\<close>: the sorted list of the distinct elements.
\<close>

definition sort_unique :: "'a::linorder list \<Rightarrow> 'a list" where
  "sort_unique xs = remdups_adj (sort xs)"

lemma set_sort_unique [simp]: "set (sort_unique xs) = set xs"
  by (simp add: sort_unique_def)

lemma sorted_distinct_remdups_adj: "sorted xs \<Longrightarrow> distinct (remdups_adj xs)"
  by (induction xs rule: remdups_adj.induct) (auto simp: order_antisym_conv)

lemma distinct_sort_unique [simp]: "distinct (sort_unique xs)"
  by (simp add: sort_unique_def sorted_distinct_remdups_adj)

lemma sorted_sort_unique [simp]: "sorted (sort_unique xs)"
  by (simp add: sort_unique_def)

section \<open>Sums over prefixes\<close>

lemma sum_list_take_mono:
  fixes ws :: "nat list"
  shows "i \<le> j \<Longrightarrow> sum_list (take i ws) \<le> sum_list (take j ws)"
  by (metis append_take_drop_id le_add1 sum_list_append take_take min.absorb_iff1)

lemma sum_list_take_less:
  fixes ws :: "nat list"
  shows "i < j \<Longrightarrow> i < length ws \<Longrightarrow> sum_list (take i ws) + ws ! i \<le> sum_list (take j ws)"
  using sum_list_take_mono [of "Suc i" j ws] by (simp add: take_Suc_conv_app_nth)

section \<open>Sets and maps\<close>

text \<open>
  A \<open>std::set\<close> is the sorted list of its elements (its iteration order), \<open>insert\<close> is
  \<^const>\<open>insort_insert\<close>. A \<open>std::map\<close> is the list of its entries in key order; its \<open>insert\<close> does
  not overwrite.
\<close>

abbreviation set_insert :: "'a::linorder \<Rightarrow> 'a list \<Rightarrow> 'a list" where
  "set_insert \<equiv> insort_insert"

definition set_insert_all :: "'a::linorder list \<Rightarrow> 'a list \<Rightarrow> 'a list" where
  "set_insert_all xs m = fold set_insert xs m"

lemma set_set_insert [simp]: "set (set_insert x m) = insert x (set m)"
  by (simp add: set_insort_insert)

lemma set_set_insert_all [simp]: "set (set_insert_all xs m) = set xs \<union> set m"
  unfolding set_insert_all_def by (induction xs arbitrary: m) auto

lemma set_fold_set_insert [simp]: "set (fold set_insert xs m) = set xs \<union> set m"
  by (induction xs arbitrary: m) auto

lemma sorted_distinct_set_insert [intro]:
  "sorted m \<Longrightarrow> sorted (set_insert x m)" "distinct m \<Longrightarrow> distinct (set_insert x m)"
  by (simp_all add: sorted_insort_insert distinct_insort_insert)

lemma sorted_distinct_set_insert_all [intro]:
  "sorted m \<Longrightarrow> sorted (set_insert_all xs m)" "distinct m \<Longrightarrow> distinct (set_insert_all xs m)"
  unfolding set_insert_all_def
  by (induction xs arbitrary: m) auto

fun map_insert :: "'k::linorder \<Rightarrow> 'v \<Rightarrow> ('k \<times> 'v) list \<Rightarrow> ('k \<times> 'v) list" where
  "map_insert k v [] = [(k, v)]"
| "map_insert k v ((k', v') # m) =
     (if k < k' then (k, v) # (k', v') # m
      else if k = k' then (k', v') # m
      else (k', v') # map_insert k v m)"

fun map_update :: "'k \<Rightarrow> ('v \<Rightarrow> 'v) \<Rightarrow> ('k \<times> 'v) list \<Rightarrow> ('k \<times> 'v) list" where
  "map_update k f [] = []"
| "map_update k f ((k', v) # m) = (if k = k' then (k', f v) # m else (k', v) # map_update k f m)"

lemma keys_map_insert [simp]: "fst ` set (map_insert k v m) = insert k (fst ` set m)"
  by (induction k v m rule: map_insert.induct) auto

lemma sorted_map_insert:
  "sorted_wrt (<) (map fst m) \<Longrightarrow> sorted_wrt (<) (map fst (map_insert k v m))"
proof (induction k v m rule: map_insert.induct)
  case (2 k v k' v' m)
  have "\<forall>x \<in> fst ` set (map_insert k v m). x = k \<or> x \<in> fst ` set m"
    unfolding keys_map_insert by blast
  with 2 show ?case by (auto simp: image_iff)
qed simp

lemma map_of_map_insert:
  "sorted_wrt (<) (map fst m) \<Longrightarrow>
   map_of (map_insert k v m) x = (if x = k \<and> map_of m k = None then Some v else map_of m x)"
proof (induction k v m rule: map_insert.induct)
  case (2 k v k' v' m)
  have "map_of m k = None" if "k < k'"
    using 2(2) that by (auto simp: map_of_eq_None_iff)
  with 2 show ?case by auto
qed simp

lemma map_fst_map_update [simp]: "map fst (map_update k f m) = map fst m"
  by (induction k f m rule: map_update.induct) auto

lemma map_of_map_update:
  "map_of (map_update k f m) x = (if x = k then map_option f (map_of m x) else map_of m x)"
  by (induction k f m rule: map_update.induct) auto

text \<open>\<open>operator[]\<close> with an assignment inserts or overwrites.\<close>

fun map_put :: "'k::linorder \<Rightarrow> 'v \<Rightarrow> ('k \<times> 'v) list \<Rightarrow> ('k \<times> 'v) list" where
  "map_put k v [] = [(k, v)]"
| "map_put k v ((k', v') # m) =
     (if k < k' then (k, v) # (k', v') # m
      else if k = k' then (k, v) # m
      else (k', v') # map_put k v m)"

lemma keys_map_put [simp]: "fst ` set (map_put k v m) = insert k (fst ` set m)"
  by (induction k v m rule: map_put.induct) auto

lemma sorted_map_put:
  "sorted_wrt (<) (map fst m) \<Longrightarrow> sorted_wrt (<) (map fst (map_put k v m))"
proof (induction k v m rule: map_put.induct)
  case (2 k v k' v' m)
  have "\<forall>x \<in> fst ` set (map_put k v m). x = k \<or> x \<in> fst ` set m"
    unfolding keys_map_put by blast
  with 2 show ?case by (auto simp: image_iff)
qed simp

lemma map_of_map_put:
  "sorted_wrt (<) (map fst m) \<Longrightarrow> map_of (map_put k v m) x = (if x = k then Some v else map_of m x)"
proof (induction k v m rule: map_put.induct)
  case (2 k v k' v' m)
  have "map_of m k = None" if "k < k'"
    using 2(2) that by (auto simp: map_of_eq_None_iff)
  with 2 show ?case by auto
qed simp

lemma map_of_sorted_iff:
  fixes m :: "('k::linorder \<times> 'v) list"
  shows "sorted_wrt (<) (map fst m) \<Longrightarrow> map_of m k = Some v \<longleftrightarrow> (k, v) \<in> set m"
  by (simp add: strict_sorted_iff)

end
