(* ===== verification/Channel_List.thy ===== *)
theory Channel_List
  imports Prelude "HOL-Library.Word" "HOL-Library.Signed_Division" "HOL-Library.Sublist"
begin

text \<open>
  Channel index lists (\<open>src/libvisr/channel_list.cpp\<close>): strided ranges of channel indices, their
  expansion into index lists, and the compact printed form. \<open>std::size_t\<close> and \<open>std::ptrdiff_t\<close>
  are 64-bit words; the arithmetic wraps as in the code. A channel list is the list of the
  values of its \<open>std::size_t\<close> elements.
\<close>

type_synonym size_t = "64 word"

type_synonym channel_list = "nat list"

section \<open>ChannelRange\<close>

record channel_range =
  mStart :: size_t
  mEnd :: size_t
  mStep :: size_t   \<comment> \<open>\<open>std::ptrdiff_t\<close>, read by \<^const>\<open>sint\<close>\<close>

definition range_isValid :: "size_t \<Rightarrow> size_t \<Rightarrow> size_t \<Rightarrow> bool" where
  "range_isValid start stop stride =
     (if sint stride = 0 then False
      else if 0 < sint stride then start \<le> stop else stop \<le> start)"

definition ChannelRange :: "size_t \<Rightarrow> size_t \<Rightarrow> size_t \<Rightarrow> exn + channel_range" where
  "ChannelRange start stop step =
     (if \<not> range_isValid start stop step then Inl invalid_argument
      else Inr \<lparr>mStart = start, mEnd = stop, mStep = step\<rparr>)"

definition range_set :: "channel_range \<Rightarrow> size_t \<Rightarrow> size_t \<Rightarrow> size_t \<Rightarrow> exn + channel_range" where
  "range_set r start stop step =
     (if \<not> range_isValid start stop step then Inl invalid_argument
      else Inr (r\<lparr>mStart := start, mEnd := stop, mStep := step\<rparr>))"

text \<open>
  \<open>diff / mStep\<close> and \<open>diff % mStep\<close> truncate towards zero; the quotient of the smallest
  \<open>ptrdiff_t\<close> by \<open>-1\<close> is the one case where the division itself is undefined.
\<close>

definition range_size :: "channel_range \<Rightarrow> exn + size_t" where
  "range_size r =
     (if \<not> range_isValid (mStart r) (mEnd r) (mStep r) then Inl invalid_argument
      else let diff = sint (mEnd r - mStart r); st = sint (mStep r)
           in if diff = - (2 ^ 63) \<and> st = -1 then Inl undefined_behaviour
              else Inr (word_of_int (diff sdiv st + (if diff smod st = 0 then 0 else 1))))"

definition range_nth :: "channel_range \<Rightarrow> size_t \<Rightarrow> size_t" where
  "range_nth r idx = mStep r * idx + mStart r"

definition range_at :: "channel_range \<Rightarrow> size_t \<Rightarrow> exn + size_t" where
  "range_at r idx =
     bindE (range_size r) (\<lambda>n. if n \<le> idx then Inl out_of_range else Inr (range_nth r idx))"

section \<open>ChannelList\<close>

text \<open>The loop of \<open>appendRange\<close>: \<open>n\<close> more indices, starting with \<open>run\<close>.\<close>

fun appendRange_loop :: "nat \<Rightarrow> size_t \<Rightarrow> size_t \<Rightarrow> channel_list" where
  "appendRange_loop 0 run step = []"
| "appendRange_loop (Suc n) run step = unat run # appendRange_loop n (run + step) step"

definition appendRange :: "channel_list \<Rightarrow> channel_range \<Rightarrow> exn + channel_list" where
  "appendRange chans r =
     bindE (range_size r) (\<lambda>sz. Inr (chans @ appendRange_loop (unat sz) (mStart r) (mStep r)))"

definition ChannelList_of_range :: "channel_range \<Rightarrow> exn + channel_list" where
  "ChannelList_of_range r = appendRange [] r"

definition ChannelList_of_ranges :: "channel_range list \<Rightarrow> exn + channel_list" where
  "ChannelList_of_ranges rs = foldE appendRange [] rs"

definition list_at :: "channel_list \<Rightarrow> nat \<Rightarrow> exn + nat" where
  "list_at chans idx = (if idx < length chans then Inr (chans ! idx) else Inl out_of_range)"

section \<open>Printing\<close>

text \<open>
  The stream operator splits the list greedily into single indices and arithmetic runs; a run is
  printed as \<open>first:last\<close>, or \<open>first:step:last\<close> when the step is not 1. The parts are kept as
  data here.
\<close>

datatype chunk = Single nat | Run nat int nat

definition sdiff :: "nat \<Rightarrow> nat \<Rightarrow> int" where
  "sdiff b a = sint (word_of_nat b - word_of_nat a :: size_t)"

text \<open>The \<open>while\<close> loop: how many elements of the rest continue the run that reached \<open>currVal\<close>.\<close>

fun run_length :: "int \<Rightarrow> nat \<Rightarrow> nat list \<Rightarrow> nat" where
  "run_length d currVal [] = 0"
| "run_length d currVal (z # zs) = (if sdiff z currVal = d then Suc (run_length d z zs) else 0)"

function chunks :: "nat list \<Rightarrow> exn + chunk list" where
  "chunks [] = Inl undefined_behaviour"   \<comment> \<open>\<open>++lookAheadIt\<close> moves past the end\<close>
| "chunks [x] = Inr [Single x]"
| "chunks (x # y # zs) =
     (let d = sdiff y x; k = run_length d y zs
      in if 1 \<le> k
         then (if drop k zs = [] then Inr [Run x d ((y # zs) ! k)]
               else bindE (chunks (drop k zs)) (\<lambda>cs. Inr (Run x d ((y # zs) ! k) # cs)))
         else bindE (chunks (y # zs)) (\<lambda>cs. Inr (Single x # cs)))"
  by pat_completeness auto
termination by (relation "measure length") auto

text \<open>What a reader of the printed form expands a part to.\<close>

definition expand :: "chunk \<Rightarrow> nat list" where
  "expand c = (case c of Single x \<Rightarrow> [x]
     | Run a d b \<Rightarrow> map (\<lambda>i. nat (int a + int i * d)) [0 ..< Suc (nat ((int b - int a) div d))])"

lemma expand_Single [simp]: "expand (Single x) = [x]"
  by (simp add: expand_def)

section \<open>Size and elements of a range\<close>

text \<open>The number of indices of \<open>[start, end)\<close> visited with a given step.\<close>

definition span_count :: "int \<Rightarrow> int \<Rightarrow> int \<Rightarrow> nat" where
  "span_count s e d = nat ((\<bar>e - s\<bar> + \<bar>d\<bar> - 1) div \<bar>d\<bar>)"

lemma ceil_div:
  fixes a b :: int
  assumes "0 \<le> a" and "0 < b"
  shows "(a + b - 1) div b = a div b + (if a mod b = 0 then 0 else 1)"
proof -
  have "a + b - 1 = (a mod b + b - 1) + (a div b) * b" by simp
  then have "(a + b - 1) div b = (a mod b + b - 1) div b + a div b"
    using assms by (metis add.commute div_mult_self1 less_irrefl)
  moreover have "(a mod b + b - 1) div b = (if a mod b = 0 then 0 else 1)"
  proof (cases "a mod b = 0")
    case True
    then show ?thesis using assms by simp
  next
    case False
    have "0 < a mod b" "a mod b < b"
      using False assms pos_mod_sign [of b a] pos_mod_bound [of b a] by linarith+
    then have "0 \<le> a mod b - 1" "a mod b - 1 < b" by auto
    then have "(a mod b - 1 + 1 * b) div b = 1 + (a mod b - 1) div b"
      using assms by (metis add.commute div_mult_self1 less_irrefl)
    with \<open>0 \<le> a mod b - 1\<close> \<open>a mod b - 1 < b\<close> False show ?thesis
      by (simp add: algebra_simps)
  qed
  ultimately show ?thesis by simp
qed

lemma trunc_ceil:
  fixes D d :: int
  assumes "d \<noteq> 0" and "0 < d \<longrightarrow> 0 \<le> D" and "d < 0 \<longrightarrow> D \<le> 0"
  shows "D sdiv d + (if D smod d = 0 then 0 else 1) = (\<bar>D\<bar> + \<bar>d\<bar> - 1) div \<bar>d\<bar>"
proof -
  have "D sdiv d = \<bar>D\<bar> div \<bar>d\<bar>"
    using assms by (auto simp: signed_divide_int_def sgn_if)
  moreover have "(D smod d = 0) = (\<bar>D\<bar> mod \<bar>d\<bar> = 0)"
    using assms by (auto simp: signed_modulo_int_def sgn_if mod_eq_0_iff_dvd)
  ultimately show ?thesis using ceil_div [of "\<bar>D\<bar>" "\<bar>d\<bar>"] assms by simp
qed

lemma sint_diff:
  fixes a b :: size_t
  assumes "\<bar>uint a - uint b\<bar> < 2 ^ 63"
  shows "sint (a - b) = uint a - uint b"
proof -
  have "a - b = word_of_int (uint a - uint b)" by simp
  then have "sint (a - b) = signed_take_bit 63 (uint a - uint b)"
    by (simp only: signed_of_int) simp
  also have "\<dots> = uint a - uint b"
    using assms by (intro signed_take_bit_int_eq_self) auto
  finally show ?thesis .
qed

text \<open>The index count of the code is the mathematical one, for spans below \<open>2 ^ 63\<close>.\<close>

lemma range_size_span:
  assumes "range_isValid (mStart r) (mEnd r) (mStep r)"
    and "\<bar>uint (mEnd r) - uint (mStart r)\<bar> < 2 ^ 63"
  shows "range_size r =
    Inr (word_of_nat (span_count (uint (mStart r)) (uint (mEnd r)) (sint (mStep r))))"
proof -
  let ?D = "uint (mEnd r) - uint (mStart r)" and ?d = "sint (mStep r)"
  have D: "sint (mEnd r - mStart r) = ?D" using assms(2) by (rule sint_diff)
  have s: "?d \<noteq> 0" "0 < ?d \<longrightarrow> 0 \<le> ?D" "?d < 0 \<longrightarrow> ?D \<le> 0"
    using assms(1) by (auto simp: range_isValid_def word_le_def split: if_splits)
  have "0 \<le> (\<bar>?D\<bar> + \<bar>?d\<bar> - 1) div \<bar>?d\<bar>" using s(1) by (intro pos_imp_zdiv_nonneg_iff [THEN iffD2]) auto
  then have "word_of_int ((\<bar>?D\<bar> + \<bar>?d\<bar> - 1) div \<bar>?d\<bar>) =
      (word_of_nat (nat ((\<bar>?D\<bar> + \<bar>?d\<bar> - 1) div \<bar>?d\<bar>)) :: size_t)"
    by simp
  moreover have "?D \<noteq> - (2 ^ 63)" using assms(2) by linarith
  ultimately show ?thesis using assms(1) D trunc_ceil [OF s]
    by (simp add: range_size_def span_count_def Let_def)
qed

lemma int_div_bounds:
  fixes a b :: int
  assumes "0 < b"
  shows "a div b * b \<le> a" and "a < a div b * b + b"
proof -
  have "a div b * b + a mod b = a" "0 \<le> a mod b" "a mod b < b" using assms by simp_all
  then show "a div b * b \<le> a" and "a < a div b * b + b" by linarith+
qed

lemma span_count_bounds:
  assumes "d \<noteq> 0"
  shows "\<bar>e - s\<bar> \<le> int (span_count s e d) * \<bar>d\<bar>"
    and "i < span_count s e d \<Longrightarrow> int i * \<bar>d\<bar> < \<bar>e - s\<bar>"
    and "span_count s e d \<le> nat \<bar>e - s\<bar>"
proof -
  let ?q = "(\<bar>e - s\<bar> + \<bar>d\<bar> - 1) div \<bar>d\<bar>"
  have d: "0 < \<bar>d\<bar>" using assms by simp
  have q0: "0 \<le> ?q" using d by (intro pos_imp_zdiv_nonneg_iff [THEN iffD2]) auto
  have lo: "?q * \<bar>d\<bar> \<le> \<bar>e - s\<bar> + \<bar>d\<bar> - 1"
    by (rule int_div_bounds(1) [OF d])
  have hi: "\<bar>e - s\<bar> + \<bar>d\<bar> - 1 < ?q * \<bar>d\<bar> + \<bar>d\<bar>"
    by (rule int_div_bounds(2) [OF d])
  show "\<bar>e - s\<bar> \<le> int (span_count s e d) * \<bar>d\<bar>"
    using hi q0 by (simp add: span_count_def)
  show "int i * \<bar>d\<bar> < \<bar>e - s\<bar>" if "i < span_count s e d"
  proof -
    have "int i + 1 \<le> ?q" using that by (simp add: span_count_def)
    then have "(int i + 1) * \<bar>d\<bar> \<le> ?q * \<bar>d\<bar>" using d by (intro mult_right_mono) auto
    with lo show ?thesis by (simp add: algebra_simps)
  qed
  have "?q \<le> \<bar>e - s\<bar>"
  proof (cases "\<bar>e - s\<bar> = 0")
    case True
    then show ?thesis using d by simp
  next
    case False
    have "\<bar>e - s\<bar> * 1 \<le> \<bar>e - s\<bar> * \<bar>d\<bar>" using d by (intro mult_left_mono) auto
    then have "\<bar>e - s\<bar> + \<bar>d\<bar> - 1 < (\<bar>e - s\<bar> + 1) * \<bar>d\<bar>"
      by (simp add: algebra_simps)
    with lo have "?q * \<bar>d\<bar> < (\<bar>e - s\<bar> + 1) * \<bar>d\<bar>" by (rule le_less_trans)
    then have "?q < \<bar>e - s\<bar> + 1" by (rule mult_right_less_imp_less) simp
    then show ?thesis by simp
  qed
  then show "span_count s e d \<le> nat \<bar>e - s\<bar>" unfolding span_count_def by (rule nat_mono)
qed

section \<open>The expansion of a range\<close>

lemma length_appendRange_loop [simp]: "length (appendRange_loop n run step) = n"
  by (induction n arbitrary: run) auto

lemma nth_appendRange_loop:
  "i < n \<Longrightarrow> appendRange_loop n run step ! i = unat (run + word_of_nat i * step)"
proof (induction n arbitrary: run i)
  case (Suc n)
  then show ?case by (cases i) (simp_all add: algebra_simps)
qed simp

lemma uint_stride:
  fixes s d :: size_t
  assumes "0 \<le> uint s + int i * sint d" and "uint s + int i * sint d < 2 ^ 64"
  shows "uint (s + word_of_nat i * d) = uint s + int i * sint d"
proof -
  have "s + word_of_nat i * d = word_of_int (uint s + int i * sint d)" by simp
  then have "uint (s + word_of_nat i * d) = take_bit 64 (uint s + int i * sint d)"
    by (simp only: uint_word_of_int_eq) simp
  with assms show ?thesis by (simp add: take_bit_int_eq_self)
qed

text \<open>
  The elements of a valid range: \<open>start + i * step\<close>, all on the inner side of \<open>end\<close>.
\<close>

lemma range_elements:
  assumes "range_isValid s e d" and "i < span_count (uint s) (uint e) (sint d)"
  shows "uint (s + word_of_nat i * d) = uint s + int i * sint d"
    and "if 0 < sint d then uint s + int i * sint d < uint e else uint e < uint s + int i * sint d"
proof -
  have d: "sint d \<noteq> 0" and o: "0 < sint d \<longrightarrow> uint s \<le> uint e" "sint d < 0 \<longrightarrow> uint e \<le> uint s"
    using assms(1) by (auto simp: range_isValid_def word_le_def split: if_splits)
  have lt: "int i * \<bar>sint d\<bar> < \<bar>uint e - uint s\<bar>"
    using span_count_bounds(2) [OF d assms(2)] .
  show inside: "if 0 < sint d then uint s + int i * sint d < uint e
      else uint e < uint s + int i * sint d"
    using lt d o by (cases "0 < sint d") (auto simp: abs_if split: if_splits)
  have sgn: "0 < sint d \<Longrightarrow> 0 \<le> int i * sint d" "sint d < 0 \<Longrightarrow> int i * sint d \<le> 0"
    by (auto intro: mult_nonneg_nonpos)
  have u: "0 \<le> uint e" "uint e < 2 ^ 64" "0 \<le> uint s" "uint s < 2 ^ 64"
    using uint_lt2p [of e] uint_lt2p [of s] by simp_all
  consider "0 < sint d" "uint s + int i * sint d < uint e" | "sint d < 0" "uint e < uint s + int i * sint d"
    using inside d by (auto split: if_splits)
  then have "0 \<le> uint s + int i * sint d \<and> uint s + int i * sint d < 2 ^ 64"
    by cases (use sgn u in linarith)+
  then have "0 \<le> uint s + int i * sint d" "uint s + int i * sint d < 2 ^ 64" by auto
  then show "uint (s + word_of_nat i * d) = uint s + int i * sint d" by (rule uint_stride)
qed

lemma unat_span_count:
  assumes "d \<noteq> 0" and "\<bar>uint (e::size_t) - uint (s::size_t)\<bar> < 2 ^ 63"
  shows "unat (word_of_nat (span_count (uint s) (uint e) d) :: size_t) = span_count (uint s) (uint e) d"
proof -
  have "span_count (uint s) (uint e) d \<le> nat \<bar>uint e - uint s\<bar>" by (rule span_count_bounds [OF assms(1)])
  also have "\<dots> < 2 ^ 64" using assms(2) by simp
  finally show ?thesis by (simp add: unat_of_nat)
qed

text \<open>
  Expanding a range: the list has exactly the indices \<open>start, start + step, \<dots>\<close> that lie before
  \<open>end\<close> (beyond it for negative steps), in this order.
\<close>

lemma ChannelList_of_range_spec:
  assumes r: "ChannelRange s e d = Inr r" and sp: "\<bar>uint e - uint s\<bar> < 2 ^ 63"
  shows "ChannelList_of_range r =
    Inr (map (\<lambda>i. nat (uint s + int i * sint d)) [0 ..< span_count (uint s) (uint e) (sint d)])"
proof -
  let ?n = "span_count (uint s) (uint e) (sint d)"
  have v: "range_isValid s e d" and rr: "mStart r = s" "mEnd r = e" "mStep r = d"
    using r by (auto simp: ChannelRange_def split: if_splits)
  have d: "sint d \<noteq> 0" using v by (auto simp: range_isValid_def)
  have size: "range_size r = Inr (word_of_nat ?n)"
    using range_size_span [of r] v sp by (simp add: rr)
  have "appendRange_loop ?n s d = map (\<lambda>i. nat (uint s + int i * sint d)) [0 ..< ?n]"
  proof (rule nth_equalityI)
    fix i assume "i < length (appendRange_loop ?n s d)"
    then show "appendRange_loop ?n s d ! i = map (\<lambda>i. nat (uint s + int i * sint d)) [0 ..< ?n] ! i"
      using range_elements(1) [OF v] by (simp add: nth_appendRange_loop unat_eq_nat_uint)
  qed simp
  then show ?thesis
    using size unat_span_count [OF d sp]
    by (simp add: ChannelList_of_range_def appendRange_def rr)
qed

section \<open>The printed form\<close>

lemma sdiff_eq: "a < 2 ^ 63 \<Longrightarrow> b < 2 ^ 63 \<Longrightarrow> sdiff b a = int b - int a"
proof -
  assume "a < 2 ^ 63" "b < 2 ^ 63"
  then have "uint (word_of_nat a :: size_t) = int a" "uint (word_of_nat b :: size_t) = int b"
    by (simp_all add: uint_nat unat_of_nat)
  with \<open>a < 2 ^ 63\<close> \<open>b < 2 ^ 63\<close> show ?thesis
    unfolding sdiff_def by (subst sint_diff) auto
qed

lemma run_length_le: "run_length d y zs \<le> length zs"
  by (induction d y zs rule: run_length.induct) auto

lemma run_length_nth:
  "\<lbrakk>\<forall>z \<in> set (y # zs). z < 2 ^ 63; i \<le> run_length d y zs\<rbrakk> \<Longrightarrow>
   int ((y # zs) ! i) = int y + int i * d"
proof (induction d y zs arbitrary: i rule: run_length.induct)
  case (2 d y z zs)
  show ?case
  proof (cases i)
    case (Suc j)
    with "2.prems"(2) have zy: "sdiff z y = d" and j: "j \<le> run_length d z zs"
      by (auto split: if_splits)
    have "int ((z # zs) ! j) = int z + int j * d"
      using "2.IH" [OF zy _ j] "2.prems"(1) by simp
    moreover have "int z = int y + d" using zy "2.prems"(1) by (simp add: sdiff_eq)
    moreover have "int (Suc j) * d = d + int j * d" by (simp add: distrib_right)
    ultimately show ?thesis using Suc by simp
  qed simp
qed simp

lemma expand_run:
  assumes b: "\<forall>z \<in> set (x # y # zs). z < 2 ^ 63" and ne: "x \<noteq> y"
    and k: "k = run_length (sdiff y x) y zs"
  shows "expand (Run x (sdiff y x) ((y # zs) ! k)) = x # take (Suc k) (y # zs)"
proof -
  let ?d = "sdiff y x"
  have d: "?d = int y - int x" using b by (simp add: sdiff_eq)
  have "run_length ?d y zs \<le> length zs" by (rule run_length_le)
  then have kl: "k \<le> length zs" using k by simp
  have nth: "int ((y # zs) ! i) = int x + int (Suc i) * ?d" if "i \<le> k" for i
  proof -
    have "int ((y # zs) ! i) = int y + int i * ?d"
      using run_length_nth [of y zs i ?d] b that k by simp
    moreover have "int (Suc i) * ?d = ?d + int i * ?d" by (simp add: distrib_right)
    ultimately show ?thesis using d by linarith
  qed
  have "(int ((y # zs) ! k) - int x) div ?d = int (Suc k)"
    using nth [of k] d ne by simp
  then have "expand (Run x ?d ((y # zs) ! k)) = map (\<lambda>i. nat (int x + int i * ?d)) [0 ..< Suc (Suc k)]"
    by (simp add: expand_def nat_add_distrib del: upt_Suc)
  also have "\<dots> = x # take (Suc k) (y # zs)"
  proof (rule nth_equalityI)
    show "length (map (\<lambda>i. nat (int x + int i * ?d)) [0 ..< Suc (Suc k)]) = length (x # take (Suc k) (y # zs))"
      using kl by simp
    fix i assume "i < length (map (\<lambda>i. nat (int x + int i * ?d)) [0 ..< Suc (Suc k)])"
    then have i: "i < Suc (Suc k)" by simp
    show "map (\<lambda>i. nat (int x + int i * ?d)) [0 ..< Suc (Suc k)] ! i = (x # take (Suc k) (y # zs)) ! i"
    proof (cases i)
      case (Suc j)
      with i have "j \<le> k" by simp
      from nth [OF this, symmetric] Suc i show ?thesis by (simp del: upt_Suc take_Suc_Cons)
    qed (simp del: upt_Suc)
  qed
  finally show ?thesis .
qed

lemma chunks_total: "xs \<noteq> [] \<Longrightarrow> \<exists>cs. chunks xs = Inr cs"
  by (induction xs rule: chunks.induct) (auto simp: Let_def)

text \<open>The parts of a list with at least two elements.\<close>

lemma chunks_cases:
  fixes x y :: nat
  defines "d \<equiv> sdiff y x"
  assumes "chunks (x # y # zs) = Inr cs" and "k = run_length d y zs"
  obtains (last) "1 \<le> k" "drop k zs = []" "cs = [Run x d ((y # zs) ! k)]"
  | (more) cs' where "1 \<le> k" "drop k zs \<noteq> []" "chunks (drop k zs) = Inr cs'" "cs = Run x d ((y # zs) ! k) # cs'"
  | (single) cs' where "\<not> 1 \<le> k" "chunks (y # zs) = Inr cs'" "cs = Single x # cs'"
  using assms by (auto simp: Let_def split: if_splits)

text \<open>
  A run of stride 0 stands for three or more equal indices, whose number it does not tell. It is expanded to one
  index; everything else is expanded to what it was made of.
\<close>

lemma expand_zero [simp]: "expand (Run x 0 b) = [x]"
  by (simp add: expand_def)

lemma sdiff_zero: "x < 2 ^ 63 \<Longrightarrow> y < 2 ^ 63 \<Longrightarrow> sdiff y x = 0 \<longleftrightarrow> x = y"
  by (auto simp: sdiff_eq)

lemma chunks_expand:
  "\<lbrakk>\<forall>x \<in> set xs. x < 2 ^ 63; chunks xs = Inr cs\<rbrakk> \<Longrightarrow>
   ((\<forall>a b. Run a 0 b \<notin> set cs) \<longrightarrow> concat (map expand cs) = xs) \<and>
   ((\<exists>a b. Run a 0 b \<in> set cs) \<longrightarrow> length (concat (map expand cs)) < length xs)"
proof (induction xs arbitrary: cs rule: chunks.induct)
  case (3 x y zs)
  define k where "k = run_length (sdiff y x) y zs"
  have b: "\<forall>z \<in> set (drop k zs). z < 2 ^ 63" "\<forall>z \<in> set (y # zs). z < 2 ^ 63"
    using "3.prems"(1) by (auto dest: in_set_dropD)
  have kl: "k \<le> length zs" unfolding k_def by (rule run_length_le)
  have run: "expand (Run x (sdiff y x) ((y # zs) ! k)) = x # take (Suc k) (y # zs)" if "sdiff y x \<noteq> 0"
    using expand_run [OF "3.prems"(1) _ k_def] that sdiff_zero [of x y] "3.prems"(1) by auto
  from "3.prems"(2) k_def show ?case
  proof (cases rule: chunks_cases)
    case last
    then show ?thesis using run by (cases "sdiff y x = 0") auto
  next
    case (more cs')
    note ih = "3.IH"(1) [OF refl k_def more(1,2) b(1) more(3)]
    show ?thesis
    proof (cases "sdiff y x = 0")
      case True
      have "length (concat (map expand cs')) \<le> length (drop k zs)" using ih by (cases "\<forall>a b. Run a 0 b \<notin> set cs'") auto
      then show ?thesis using True more(1,4) kl by auto
    next
      case False
      then show ?thesis using ih more(4) kl run by auto
    qed
  next
    case (single cs')
    then show ?thesis using "3.IH"(2) [OF refl k_def single(1) b(2) single(2)] by auto
  qed
qed auto

lemma chunks_zero_run:
  "\<lbrakk>\<forall>x \<in> set xs. x < 2 ^ 63; chunks xs = Inr cs; Run a 0 b \<in> set cs\<rbrakk> \<Longrightarrow> \<exists>c. sublist [c, c, c] xs"
proof (induction xs arbitrary: cs rule: chunks.induct)
  case (3 x y zs)
  define k where "k = run_length (sdiff y x) y zs"
  have b: "\<forall>z \<in> set (drop k zs). z < 2 ^ 63" "\<forall>z \<in> set (y # zs). z < 2 ^ 63"
    using "3.prems"(1) by (auto dest: in_set_dropD)
  have triple: "\<exists>c. sublist [c, c, c] (x # y # zs)" if "1 \<le> k" "sdiff y x = 0"
  proof -
    have k1: "1 \<le> run_length 0 y zs" using that by (simp add: k_def)
    obtain z zs' where z: "zs = z # zs'" "sdiff z y = 0"
      using k1 by (cases zs) (auto split: if_splits)
    then have "x = y" "y = z" using that(2) sdiff_zero [of x y] sdiff_zero [of y z] "3.prems"(1) by auto
    then show ?thesis unfolding z(1) by (intro exI [of _ x]) (simp add: prefix_imp_sublist)
  qed
  from "3.prems"(2) k_def show ?case
  proof (cases rule: chunks_cases)
    case last
    then show ?thesis using triple "3.prems"(3) by auto
  next
    case (more cs')
    show ?thesis
    proof (cases "Run a 0 b \<in> set cs'")
      case True
      obtain c where "sublist [c, c, c] (drop k zs)"
        using "3.IH"(1) [OF refl k_def more(1,2) b(1) more(3) True] by blast
      moreover have "suffix (drop k zs) (x # y # zs)" by (intro suffix_ConsI suffix_drop)
      ultimately show ?thesis by (meson sublist_order.order_trans suffix_imp_sublist)
    next
      case False
      then show ?thesis using triple more(1,4) "3.prems"(3) by auto
    qed
  next
    case (single cs')
    then obtain c where "sublist [c, c, c] (y # zs)"
      using "3.IH"(2) [OF refl k_def single(1) b(2) single(2)] "3.prems"(3) by auto
    then show ?thesis by (meson sublist_Cons_right)
  qed
qed auto

section \<open>Properties\<close>

text \<open>
  C31 (range_expansion): for a range that the constructor accepts, the channel list built from it
  holds the indices \<open>start, start + step, start + 2 * step, \<dots>\<close> that lie before the end of the
  range (beyond it for a negative step), in this order, and \<open>at()\<close> returns the entry of that list
  for every index inside it and throws \<open>std::out_of_range\<close> for every other one, provided that
  the span of the range is below \<open>2 ^ 63\<close>.
\<close>

theorem range_expansion:
  assumes "ChannelRange s e d = Inr r" and "\<bar>uint e - uint s\<bar> < 2 ^ 63"
  shows "\<exists>xs. ChannelList_of_range r = Inr xs \<and>
      xs = map (\<lambda>i. nat (uint s + int i * sint d)) [0 ..< span_count (uint s) (uint e) (sint d)] \<and>
      range_at r i = (if unat i < length xs then Inr (word_of_nat (xs ! unat i)) else Inl out_of_range)"
proof -
  let ?n = "span_count (uint s) (uint e) (sint d)"
  have v: "range_isValid s e d" and rr: "mStart r = s" "mEnd r = e" "mStep r = d"
    using assms(1) by (auto simp: ChannelRange_def split: if_splits)
  have d: "sint d \<noteq> 0" using v by (auto simp: range_isValid_def)
  have size: "range_size r = Inr (word_of_nat ?n)"
    using range_size_span [of r] v assms(2) by (simp add: rr)
  have n: "unat (word_of_nat ?n :: size_t) = ?n" by (rule unat_span_count [OF d assms(2)])
  have "range_nth r i = word_of_nat (nat (uint s + int (unat i) * sint d))" if "unat i < ?n"
  proof -
    have u: "uint (s + word_of_nat (unat i) * d) = uint s + int (unat i) * sint d"
      using range_elements(1) [OF v that] .
    have "word_of_nat (nat (uint s + int (unat i) * sint d)) = s + i * d"
      unfolding u [symmetric] by simp
    then show ?thesis by (simp add: range_nth_def rr algebra_simps)
  qed
  then have "range_at r i = (if unat i < ?n
      then Inr (word_of_nat (nat (uint s + int (unat i) * sint d))) else Inl out_of_range)"
    using size n by (auto simp: range_at_def word_le_nat_alt)
  then show ?thesis using ChannelList_of_range_spec [OF assms] by simp
qed

theorem range_expansion_witness:
  "\<exists>r. ChannelRange 9 2 (- 3) = Inr r \<and> ChannelList_of_range r = Inr [9, 6, 3] \<and>
     range_at r 2 = Inr 3 \<and> range_at r 3 = Inl out_of_range"
proof -
  have v: "ChannelRange 9 2 (- 3) = Inr \<lparr>mStart = 9, mEnd = 2, mStep = - 3\<rparr>" by code_simp
  have c: "map (\<lambda>i. nat (uint (9 :: size_t) + int i * sint (- 3 :: size_t)))
      [0 ..< span_count (uint (9 :: size_t)) (uint (2 :: size_t)) (sint (- 3 :: size_t))] = [9, 6, 3]"
    by code_simp
  show ?thesis using range_expansion [OF v, of 2] range_expansion [OF v, of 3] unfolding c by (simp add: v)
qed

text \<open>
  C32 (printed_list_roundtrip): the stream operator splits every list that is not empty into parts,
  and expanding the parts gives the list back exactly if no part is a run of stride 0, for indices below
  \<open>2 ^ 63\<close>. A list in which no index stands three times in a row has no such run; but
  \<open>{5,5,5}\<close> is printed as \<open>5:0:5\<close>, from which the number of its elements cannot be recovered.
\<close>

theorem printed_list_roundtrip:
  assumes "xs \<noteq> []" and "\<forall>x \<in> set xs. x < 2 ^ 63"
  shows "\<exists>cs. chunks xs = Inr cs \<and>
    (concat (map expand cs) = xs \<longleftrightarrow> (\<forall>a b. Run a 0 b \<notin> set cs)) \<and>
    ((\<nexists>a. sublist [a, a, a] xs) \<longrightarrow> concat (map expand cs) = xs)"
proof -
  obtain cs where cs: "chunks xs = Inr cs" using chunks_total [OF assms(1)] by blast
  show ?thesis using chunks_expand [OF assms(2) cs] chunks_zero_run [OF assms(2) cs] cs by fastforce
qed

theorem printed_list_roundtrip_witness:
  "(\<exists>cs. chunks [0, 1, 2, 7, 5, 3, 8] = Inr cs \<and> concat (map expand cs) = [0, 1, 2, 7, 5, 3, 8]) \<and>
   (\<exists>cs. chunks [5, 5, 5] = Inr cs \<and> concat (map expand cs) \<noteq> [5, 5, 5])"
proof -
  have c: "chunks [0, 1, 2, 7, 5, 3, 8] = Inr [Run 0 1 2, Run 7 (- 2) 3, Single 8]"
    "chunks [5, 5, 5] = Inr [Run 5 0 5]" by code_simp+
  show ?thesis using printed_list_roundtrip [of "[0, 1, 2, 7, 5, 3, 8]"] printed_list_roundtrip [of "[5, 5, 5]"]
    unfolding c by auto
qed

end
