(* ===== verification/Component_Model.thy ===== *)
theory Component_Model
  imports Channel_List
begin

text \<open>
  The component hierarchy of the core library (\<open>src/libvisr/impl\<close>): components, composite
  components, audio and parameter ports, and the connections registered in a composite. The
  program links these objects by raw pointers in both directions. The model keeps them in a
  store from addresses to records, and every operation takes and returns the store.
\<close>

section \<open>Objects\<close>

text \<open>\<open>src/libvisr/audio_sample_type.hpp\<close>; the sizes are those of the x86-64 System V ABI.\<close>

datatype sample_type =
    floatId | doubleId | longDoubleId | uint8Id | int8Id | uint16Id | int16Id | uint32Id
  | int32Id | complexFloatId | complexDoubleId

fun typeSize :: "sample_type \<Rightarrow> nat" where
  "typeSize floatId = 4"
| "typeSize doubleId = 8"
| "typeSize longDoubleId = 16"
| "typeSize uint8Id = 1"
| "typeSize int8Id = 1"
| "typeSize uint16Id = 2"
| "typeSize int16Id = 2"
| "typeSize uint32Id = 4"
| "typeSize int32Id = 4"
| "typeSize complexFloatId = 8"
| "typeSize complexDoubleId = 16"

datatype direction = Input | Output

text \<open>
  The parameter configurations (one constructor per class of the C++ code that is derived from
  \<open>ParameterConfigBase\<close>; all of them are in \<open>src/libpml\<close>).
\<close>

datatype param_config =
    EmptyParameterConfig
  | VectorParameterConfig nat
  | MatrixParameterConfig nat nat
  | TimeFrequencyParameterConfig nat nat nat
  | InterpolationParameterConfig nat

fun compare_Empty :: "param_config \<Rightarrow> exn + bool" where
  "compare_Empty EmptyParameterConfig = Inr True"
| "compare_Empty _ = Inl invalid_argument"

fun compare_Vector :: "nat \<Rightarrow> param_config \<Rightarrow> exn + bool" where
  "compare_Vector n (VectorParameterConfig m) = Inr (m = n)"
| "compare_Vector n _ = Inl invalid_argument"

fun compare_Matrix :: "nat \<Rightarrow> nat \<Rightarrow> param_config \<Rightarrow> exn + bool" where
  "compare_Matrix r c (MatrixParameterConfig r' c') = Inr (r' = r \<and> c' = c)"
| "compare_Matrix r c _ = Inl invalid_argument"

fun compare_TimeFrequency :: "nat \<Rightarrow> nat \<Rightarrow> nat \<Rightarrow> param_config \<Rightarrow> exn + bool" where
  "compare_TimeFrequency b f c (TimeFrequencyParameterConfig b' f' c') =
     Inr (b' = b \<and> c' = c \<and> f' = f)"
| "compare_TimeFrequency b f c _ = Inl invalid_argument"

text \<open>
  \<open>InterpolationParameterConfig::compare\<close> does not look at the other configuration: the cast, which would
  throw for another class, and the comparison are commented out.
\<close>

fun compare_Interpolation :: "nat \<Rightarrow> param_config \<Rightarrow> exn + bool" where
  "compare_Interpolation n _ = Inr True"

text \<open>The virtual call.\<close>

fun config_compare :: "param_config \<Rightarrow> param_config \<Rightarrow> exn + bool" where
  "config_compare EmptyParameterConfig = compare_Empty"
| "config_compare (VectorParameterConfig n) = compare_Vector n"
| "config_compare (MatrixParameterConfig r c) = compare_Matrix r c"
| "config_compare (TimeFrequencyParameterConfig b f c) = compare_TimeFrequency b f c"
| "config_compare (InterpolationParameterConfig n) = compare_Interpolation n"

record audio_port =
  ap_name :: string
  ap_parent :: "nat option"
  ap_direction :: direction
  ap_sampleType :: sample_type
  ap_width :: nat
  ap_base :: "nat option"
  ap_stride :: nat

record param_port =
  pp_name :: string
  pp_parent :: "nat option"
  pp_direction :: direction
  pp_parameterType :: size_t
  pp_protocolType :: size_t
  pp_config :: "param_config option"

record audio_connection =
  ac_sender :: nat
  ac_sendIndices :: channel_list
  ac_receiver :: nat
  ac_receiveIndices :: channel_list

record param_connection =
  pc_sender :: nat
  pc_receiver :: nat

record component =
  c_name :: string
  c_parent :: "nat option"
  c_composite :: bool
  c_audioPorts :: "nat list"
  c_parameterPorts :: "nat list"
  c_components :: "nat list"
  c_audioConnections :: "audio_connection list"
  c_parameterConnections :: "param_connection list"

record store =
  comps :: "nat \<Rightarrow> component option"
  aports :: "nat \<Rightarrow> audio_port option"
  pports :: "nat \<Rightarrow> param_port option"

text \<open>Dereferencing a pointer; a dangling pointer has no meaning.\<close>

abbreviation comp :: "store \<Rightarrow> nat \<Rightarrow> component" where "comp s c \<equiv> the (comps s c)"
abbreviation aport :: "store \<Rightarrow> nat \<Rightarrow> audio_port" where "aport s a \<equiv> the (aports s a)"
abbreviation pport :: "store \<Rightarrow> nat \<Rightarrow> param_port" where "pport s p \<equiv> the (pports s p)"

definition upd_comp :: "(component \<Rightarrow> component) \<Rightarrow> nat \<Rightarrow> store \<Rightarrow> store" where
  "upd_comp f c s = s\<lparr>comps := (comps s)(c \<mapsto> f (comp s c))\<rparr>"

section \<open>Components\<close>

definition isTopLevel :: "store \<Rightarrow> nat \<Rightarrow> bool" where
  "isTopLevel s c \<longleftrightarrow> c_parent (comp s c) = None"

text \<open>
  \<open>fullName()\<close> follows the parent pointers; \<open>None\<close> stands for not having reached the top level
  within the given number of steps.
\<close>

fun fullName :: "nat \<Rightarrow> store \<Rightarrow> nat \<Rightarrow> string option" where
  "fullName 0 s c = None"
| "fullName (Suc n) s c =
     (case c_parent (comp s c) of
        None \<Rightarrow> Some (c_name (comp s c))
      | Some p \<Rightarrow>
          if isTopLevel s p then Some (c_name (comp s c))
          else map_option (\<lambda>pn. pn @ '':'' @ c_name (comp s c)) (fullName n s p))"

definition findComponentEntry :: "store \<Rightarrow> nat \<Rightarrow> string \<Rightarrow> nat option" where
  "findComponentEntry s p nm = List.find (\<lambda>k. c_name (comp s k) = nm) (c_components (comp s p))"

text \<open>A null component name is \<open>None\<close>.\<close>

definition findComponent :: "store \<Rightarrow> nat \<Rightarrow> string option \<Rightarrow> nat option" where
  "findComponent s p nm =
     (case nm of None \<Rightarrow> Some p
      | Some n \<Rightarrow> if n = [] \<or> n = ''this'' then Some p else findComponentEntry s p n)"

definition registerChildComponent :: "store \<Rightarrow> nat \<Rightarrow> string \<Rightarrow> nat \<Rightarrow> exn + store" where
  "registerChildComponent s p nm child =
     (if findComponentEntry s p nm \<noteq> None then Inl invalid_argument
      else Inr (upd_comp (\<lambda>r. r\<lparr>c_components := c_components r @ [child]\<rparr>) p s))"

definition unregisterChildComponent :: "store \<Rightarrow> nat \<Rightarrow> nat \<Rightarrow> store" where
  "unregisterChildComponent s p child =
     (case findComponentEntry s p (c_name (comp s child)) of
        None \<Rightarrow> s   \<comment> \<open>message on standard output only\<close>
      | Some k \<Rightarrow> upd_comp (\<lambda>r. r\<lparr>c_components := remove1 k (c_components r)\<rparr>) p s)"

text \<open>
  The constructors of \<open>ComponentImplementation\<close> and \<open>CompositeComponentImplementation\<close>, for an
  object at the fresh address \<open>c\<close>.
\<close>

definition Component_ctor :: "store \<Rightarrow> nat \<Rightarrow> bool \<Rightarrow> string \<Rightarrow> nat option \<Rightarrow> exn + store" where
  "Component_ctor s c composite nm parent =
     (let s1 = s\<lparr>comps := (comps s)(c \<mapsto>
            \<lparr>c_name = nm, c_parent = parent, c_composite = composite, c_audioPorts = [],
             c_parameterPorts = [], c_components = [], c_audioConnections = [],
             c_parameterConnections = []\<rparr>)\<rparr>
      in case parent of None \<Rightarrow> Inr s1 | Some p \<Rightarrow> registerChildComponent s1 p nm c)"

definition setParent :: "nat option \<Rightarrow> nat \<Rightarrow> store \<Rightarrow> store" where
  "setParent q c s = upd_comp (\<lambda>r. r\<lparr>c_parent := q\<rparr>) c s"

text \<open>\<open>~CompositeComponentImplementation\<close> runs first, then \<open>~ComponentImplementation\<close>.\<close>

definition Composite_dtor :: "store \<Rightarrow> nat \<Rightarrow> store" where
  "Composite_dtor s c = fold (setParent None) (c_components (comp s c)) s"

definition Component_dtor :: "store \<Rightarrow> nat \<Rightarrow> store" where
  "Component_dtor s c =
     (let s1 = (if c_composite (comp s c) then Composite_dtor s c else s);
          s2 = (case c_parent (comp s1 c) of None \<Rightarrow> s1 | Some p \<Rightarrow> unregisterChildComponent s1 p c)
      in s2\<lparr>comps := (comps s2)(c := None)\<rparr>)"

section \<open>Ports\<close>

definition findAudioPortEntry :: "store \<Rightarrow> nat \<Rightarrow> string \<Rightarrow> nat option" where
  "findAudioPortEntry s c nm = List.find (\<lambda>a. ap_name (aport s a) = nm) (c_audioPorts (comp s c))"

definition findParameterPortEntry :: "store \<Rightarrow> nat \<Rightarrow> string \<Rightarrow> nat option" where
  "findParameterPortEntry s c nm =
     List.find (\<lambda>a. pp_name (pport s a) = nm) (c_parameterPorts (comp s c))"

definition registerAudioPort :: "store \<Rightarrow> nat \<Rightarrow> nat \<Rightarrow> exn + store" where
  "registerAudioPort s c a =
     (if findAudioPortEntry s c (ap_name (aport s a)) \<noteq> None then Inl invalid_argument
      else Inr (upd_comp (\<lambda>r. r\<lparr>c_audioPorts := c_audioPorts r @ [a]\<rparr>) c s))"

definition removeParent :: "nat \<Rightarrow> store \<Rightarrow> store" where
  "removeParent a s = s\<lparr>aports := (aports s)(a \<mapsto> (aport s a)\<lparr>ap_parent := None\<rparr>)\<rparr>"

definition unregisterAudioPort :: "store \<Rightarrow> nat \<Rightarrow> nat \<Rightarrow> store" where
  "unregisterAudioPort s c a =
     (if a \<in> set (c_audioPorts (comp s c))
      then upd_comp (\<lambda>r. r\<lparr>c_audioPorts := remove1 a (c_audioPorts r)\<rparr>) c (removeParent a s)
      else s)"   \<comment> \<open>message on the error stream only\<close>

definition registerParameterPort :: "store \<Rightarrow> nat \<Rightarrow> nat \<Rightarrow> exn + store" where
  "registerParameterPort s c a =
     (if findParameterPortEntry s c (pp_name (pport s a)) \<noteq> None then Inl invalid_argument
      else Inr (upd_comp (\<lambda>r. r\<lparr>c_parameterPorts := c_parameterPorts r @ [a]\<rparr>) c s))"

definition unregisterParameterPort :: "store \<Rightarrow> nat \<Rightarrow> nat \<Rightarrow> bool \<times> store" where
  "unregisterParameterPort s c a =
     (if a \<in> set (c_parameterPorts (comp s c))
      then (True, upd_comp (\<lambda>r. r\<lparr>c_parameterPorts := remove1 a (c_parameterPorts r)\<rparr>) c s)
      else (False, s))"

definition AudioPort_ctor ::
  "store \<Rightarrow> nat \<Rightarrow> string \<Rightarrow> nat option \<Rightarrow> sample_type \<Rightarrow> direction \<Rightarrow> nat \<Rightarrow> exn + store" where
  "AudioPort_ctor s a nm container ty dir w =
     (let s1 = s\<lparr>aports := (aports s)(a \<mapsto>
            \<lparr>ap_name = nm, ap_parent = container, ap_direction = dir, ap_sampleType = ty,
             ap_width = w, ap_base = None, ap_stride = 0\<rparr>)\<rparr>
      in case container of None \<Rightarrow> Inr s1 | Some c \<Rightarrow> registerAudioPort s1 c a)"

definition AudioPort_dtor :: "store \<Rightarrow> nat \<Rightarrow> store" where
  "AudioPort_dtor s a =
     (let s1 = (case ap_parent (aport s a) of None \<Rightarrow> s | Some c \<Rightarrow> unregisterAudioPort s c a)
      in s1\<lparr>aports := (aports s1)(a := None)\<rparr>)"

definition ParameterPort_ctor ::
  "store \<Rightarrow> nat \<Rightarrow> string \<Rightarrow> nat option \<Rightarrow> direction \<Rightarrow> size_t \<Rightarrow> size_t \<Rightarrow> param_config option
   \<Rightarrow> exn + store" where
  "ParameterPort_ctor s a nm parent dir pty proto cfg =
     (let s1 = s\<lparr>pports := (pports s)(a \<mapsto>
            \<lparr>pp_name = nm, pp_parent = parent, pp_direction = dir, pp_parameterType = pty,
             pp_protocolType = proto, pp_config = cfg\<rparr>)\<rparr>
      in case parent of None \<Rightarrow> Inl undefined_behaviour | Some c \<Rightarrow> registerParameterPort s1 c a)"

definition ParameterPort_dtor :: "store \<Rightarrow> nat \<Rightarrow> store" where
  "ParameterPort_dtor s a =
     (let s1 = (case pp_parent (pport s a) of None \<Rightarrow> s | Some c \<Rightarrow> snd (unregisterParameterPort s c a))
      in s1\<lparr>pports := (pports s1)(a := None)\<rparr>)"

definition initialised :: "audio_port \<Rightarrow> bool" where
  "initialised p \<longleftrightarrow> ap_base p \<noteq> None \<and> ap_stride p \<noteq> 0"

definition reset :: "audio_port \<Rightarrow> audio_port" where
  "reset p = p\<lparr>ap_base := None, ap_stride := 0\<rparr>"

definition setWidth :: "audio_port \<Rightarrow> nat \<Rightarrow> exn + audio_port" where
  "setWidth p w = (if initialised p then Inl logic_error else Inr (p\<lparr>ap_width := w\<rparr>))"

definition setBufferConfig :: "nat \<Rightarrow> nat \<Rightarrow> audio_port \<Rightarrow> audio_port" where
  "setBufferConfig base stride p = p\<lparr>ap_base := Some base, ap_stride := stride\<rparr>"

definition channelStrideBytes :: "audio_port \<Rightarrow> nat" where
  "channelStrideBytes p = ap_stride p * typeSize (ap_sampleType p)"

definition parameterConfig :: "param_port \<Rightarrow> exn + param_config" where
  "parameterConfig p = (case pp_config p of None \<Rightarrow> Inl logic_error | Some c \<Rightarrow> Inr c)"

definition setParameterConfig :: "param_config \<Rightarrow> param_port \<Rightarrow> param_port" where
  "setParameterConfig c p = p\<lparr>pp_config := Some c\<rparr>"

section \<open>Connections\<close>

definition ac_less :: "audio_connection \<Rightarrow> audio_connection \<Rightarrow> bool" where
  "ac_less l r =
     (if ac_sender l < ac_sender r then True
      else if ac_sender r < ac_sender l then False
      else ac_receiver l < ac_receiver r)"

definition pc_less :: "param_connection \<Rightarrow> param_connection \<Rightarrow> bool" where
  "pc_less l r =
     (if pc_sender l < pc_sender r then True
      else if pc_sender r < pc_sender l then False
      else pc_receiver l < pc_receiver r)"

definition insert_audio_connection :: "nat \<Rightarrow> audio_connection \<Rightarrow> store \<Rightarrow> store" where
  "insert_audio_connection c con s =
     upd_comp (\<lambda>r. r\<lparr>c_audioConnections := ms_insert ac_less con (c_audioConnections r)\<rparr>) c s"

definition insert_param_connection :: "nat \<Rightarrow> param_connection \<Rightarrow> store \<Rightarrow> store" where
  "insert_param_connection c con s =
     upd_comp (\<lambda>r. r\<lparr>c_parameterConnections := ms_insert pc_less con (c_parameterConnections r)\<rparr>) c s"

text \<open>
  The two-argument \<open>findAudioPort\<close> and \<open>findParameterPort\<close> of a composite.
\<close>

definition composite_findAudioPort :: "store \<Rightarrow> nat \<Rightarrow> string option \<Rightarrow> string \<Rightarrow> nat option" where
  "composite_findAudioPort s c compName portName =
     (case findComponent s c compName of None \<Rightarrow> None
      | Some k \<Rightarrow> findAudioPortEntry s k portName)"

definition composite_findParameterPort :: "store \<Rightarrow> nat \<Rightarrow> string option \<Rightarrow> string \<Rightarrow> nat option" where
  "composite_findParameterPort s c compName portName =
     (case findComponent s c compName of None \<Rightarrow> None
      | Some k \<Rightarrow> findParameterPortEntry s k portName)"

text \<open>
  \<open>checkPortParent\<close>, given the parent pointer of the port: the port belongs to the container or
  to a direct child of it.
\<close>

definition checkPortParent :: "store \<Rightarrow> nat option \<Rightarrow> nat \<Rightarrow> exn + unit" where
  "checkPortParent s parent container =
     (case parent of None \<Rightarrow> Inl logic_error
      | Some c \<Rightarrow> if c = container then Inr ()
                  else if c_parent (comp s c) \<noteq> Some container then Inl invalid_argument
                  else Inr ())"

definition registerParameterConnection_named ::
  "store \<Rightarrow> nat \<Rightarrow> string option \<Rightarrow> string \<Rightarrow> string option \<Rightarrow> string \<Rightarrow> exn + store" where
  "registerParameterConnection_named s c sendComponent sendPort receiveComponent receivePort =
     (case composite_findParameterPort s c sendComponent sendPort of
        None \<Rightarrow> Inl invalid_argument
      | Some sender \<Rightarrow>
          (case composite_findParameterPort s c receiveComponent receivePort of
             None \<Rightarrow> Inl invalid_argument
           | Some receiver \<Rightarrow>
               Inr (insert_param_connection c \<lparr>pc_sender = sender, pc_receiver = receiver\<rparr> s)))"

definition registerParameterConnection_ports :: "store \<Rightarrow> nat \<Rightarrow> nat \<Rightarrow> nat \<Rightarrow> exn + store" where
  "registerParameterConnection_ports s c sendPort receivePort =
     bindE (checkPortParent s (pp_parent (pport s sendPort)) c) (\<lambda>_.
     bindE (checkPortParent s (pp_parent (pport s receivePort)) c) (\<lambda>_.
     Inr (insert_param_connection c \<lparr>pc_sender = sendPort, pc_receiver = receivePort\<rparr> s)))"

text \<open>The overload by names checks nothing but the existence of the ports.\<close>

definition audioConnection_named ::
  "store \<Rightarrow> nat \<Rightarrow> string option \<Rightarrow> string \<Rightarrow> channel_list \<Rightarrow> string option \<Rightarrow> string \<Rightarrow> channel_list
   \<Rightarrow> exn + store" where
  "audioConnection_named s c sendComponent sendPort sendIndices receiveComponent receivePort
       receiveIndices =
     (case composite_findAudioPort s c sendComponent sendPort of
        None \<Rightarrow> Inl invalid_argument
      | Some sender \<Rightarrow>
          (case composite_findAudioPort s c receiveComponent receivePort of
             None \<Rightarrow> Inl invalid_argument
           | Some receiver \<Rightarrow>
               Inr (insert_audio_connection c
                 \<lparr>ac_sender = sender, ac_sendIndices = sendIndices,
                  ac_receiver = receiver, ac_receiveIndices = receiveIndices\<rparr> s)))"

definition maxChannelIndex :: "channel_list \<Rightarrow> nat" where
  "maxChannelIndex l = (if l = [] then 0 else Max (set l))"

definition audioConnection_ports ::
  "store \<Rightarrow> nat \<Rightarrow> nat \<Rightarrow> channel_list \<Rightarrow> nat \<Rightarrow> channel_list \<Rightarrow> exn + store" where
  "audioConnection_ports s c sendPort sendIndices receivePort receiveIndices =
     bindE (checkPortParent s (ap_parent (aport s sendPort)) c) (\<lambda>_.
     bindE (checkPortParent s (ap_parent (aport s receivePort)) c) (\<lambda>_.
     if length sendIndices \<noteq> length receiveIndices then Inl invalid_argument
     else if length sendIndices = 0 then Inr s
     else if ap_width (aport s sendPort) \<le> maxChannelIndex sendIndices then Inl invalid_argument
     else if ap_width (aport s receivePort) \<le> maxChannelIndex receiveIndices
     then Inl invalid_argument
     else Inr (insert_audio_connection c
            \<lparr>ac_sender = sendPort, ac_sendIndices = sendIndices,
             ac_receiver = receivePort, ac_receiveIndices = receiveIndices\<rparr> s)))"

text \<open>
  Connecting all channels of two ports: \<open>ChannelRange( 0, sendWidth )\<close> for both index lists. The
  error path of the width check reads the names of both parents.
\<close>

definition audioConnection_all :: "store \<Rightarrow> nat \<Rightarrow> nat \<Rightarrow> nat \<Rightarrow> exn + store" where
  "audioConnection_all s c sendPort receivePort =
     (let sendWidth = ap_width (aport s sendPort); receiveWidth = ap_width (aport s receivePort)
      in if sendWidth \<noteq> receiveWidth
         then (if ap_parent (aport s sendPort) = None \<or> ap_parent (aport s receivePort) = None
               then Inl logic_error else Inl invalid_argument)
         else bindE (ChannelRange 0 (word_of_nat sendWidth) 1) (\<lambda>r.
              bindE (ChannelList_of_range r) (\<lambda>indices.
              audioConnection_ports s c sendPort indices receivePort indices)))"

section \<open>Well-formed stores\<close>

text \<open>
  What the constructors and destructors keep of the pointer structure. The same relation holds
  three times, between components and their audio ports, components and their parameter ports,
  and composites and their subcomponents: the list of an owner holds exactly the objects that
  point back to it, under distinct names.
\<close>

definition owns ::
  "nat set \<Rightarrow> (nat \<Rightarrow> nat list) \<Rightarrow> nat set \<Rightarrow> (nat \<Rightarrow> nat option) \<Rightarrow> (nat \<Rightarrow> string) \<Rightarrow> bool" where
  "owns D lst E par nm \<longleftrightarrow>
     (\<forall>c \<in> D. distinct (map nm (lst c)) \<and> (\<forall>a \<in> set (lst c). a \<in> E \<and> par a = Some c)) \<and>
     (\<forall>a \<in> E. \<forall>c. par a = Some c \<longrightarrow> c \<in> D \<and> a \<in> set (lst c))"

definition wf_children :: "store \<Rightarrow> bool" where
  "wf_children s \<longleftrightarrow>
     owns (dom (comps s)) (\<lambda>c. c_components (comp s c)) (dom (comps s))
       (\<lambda>c. c_parent (comp s c)) (\<lambda>c. c_name (comp s c)) \<and>
     (\<forall>c \<in> dom (comps s). c_components (comp s c) \<noteq> [] \<longrightarrow> c_composite (comp s c))"

definition wf_aports :: "store \<Rightarrow> bool" where
  "wf_aports s \<longleftrightarrow>
     owns (dom (comps s)) (\<lambda>c. c_audioPorts (comp s c)) (dom (aports s))
       (\<lambda>a. ap_parent (aport s a)) (\<lambda>a. ap_name (aport s a))"

definition wf_pports :: "store \<Rightarrow> bool" where
  "wf_pports s \<longleftrightarrow>
     owns (dom (comps s)) (\<lambda>c. c_parameterPorts (comp s c)) (dom (pports s))
       (\<lambda>a. pp_parent (pport s a)) (\<lambda>a. pp_name (pport s a))"

definition parent_rel :: "store \<Rightarrow> (nat \<times> nat) set" where
  "parent_rel s = {(k, p). k \<in> dom (comps s) \<and> c_parent (comp s k) = Some p}"

definition wf_store :: "store \<Rightarrow> bool" where
  "wf_store s \<longleftrightarrow>
     wf_children s \<and> wf_aports s \<and> wf_pports s \<and> finite (dom (comps s)) \<and> acyclic (parent_rel s)"

end
