(* ===== verification/Component_Wf.thy ===== *)
theory Component_Wf
  imports Component_Model
begin

text \<open>
  The constructors, destructors and registration calls of \<open>src/libvisr/impl\<close> keep the store of
  components and ports well formed (\<^const>\<open>wf_store\<close>). The three pointer structures of a store
  are instances of one relation, \<^const>\<open>owns\<close>; its lemmas come first, then one preservation
  lemma per operation, and last the step relation of a program that builds a hierarchy.
\<close>

lemma upd_comp_simps [simp]:
  "comps (upd_comp f c s) = (comps s)(c \<mapsto> f (comp s c))"
  "aports (upd_comp f c s) = aports s"
  "pports (upd_comp f c s) = pports s"
  by (simp_all add: upd_comp_def)


section \<open>The ownership relation\<close>

lemma ownsD:
  assumes "owns D lst E par nm"
  shows "c \<in> D \<Longrightarrow> distinct (map nm (lst c))"
    and "c \<in> D \<Longrightarrow> a \<in> set (lst c) \<Longrightarrow> a \<in> E"
    and "c \<in> D \<Longrightarrow> a \<in> set (lst c) \<Longrightarrow> par a = Some c"
    and "a \<in> E \<Longrightarrow> par a = Some c \<Longrightarrow> c \<in> D"
    and "a \<in> E \<Longrightarrow> par a = Some c \<Longrightarrow> a \<in> set (lst c)"
    and "c \<in> D \<Longrightarrow> distinct (lst c)"
  using assms distinct_map [of nm "lst c"] unfolding owns_def by blast+

lemma owns_cong:
  assumes "\<And>c. c \<in> D \<Longrightarrow> lst' c = lst c"
    and "\<And>a. a \<in> E \<Longrightarrow> par' a = par a" and "\<And>a. a \<in> E \<Longrightarrow> nm' a = nm a"
    and o: "owns D lst E par nm"
  shows "owns D lst' E par' nm'"
proof -
  have "map nm' (lst c) = map nm (lst c)" if "c \<in> D" for c
    using assms(3) ownsD(2) [OF o that] by simp
  then show ?thesis using assms(1,2) o unfolding owns_def by metis
qed

lemmas owns_update = owns_cong [rotated -1]

text \<open>A new object, with an owner or without one, and a new owner.\<close>

lemma owns_new_owned:
  assumes o: "owns D lst E par nm" and "a \<notin> E" and "c \<in> D"
    and fresh: "nm' a \<notin> nm ` set (lst c)"
    and lst': "\<And>x. x \<in> D \<Longrightarrow> lst' x = (if x = c then lst c @ [a] else lst x)"
    and new: "par' a = Some c"
    and old: "\<And>x. x \<in> E \<Longrightarrow> par' x = par x" "\<And>x. x \<in> E \<Longrightarrow> nm' x = nm x"
  shows "owns D lst' (insert a E) par' nm'"
proof -
  have eq: "map nm' (lst x) = map nm (lst x)" if "x \<in> D" for x
    using old(2) ownsD(2) [OF o that] by simp
  have "distinct (map nm' (lst' x))" if "x \<in> D" for x
    using that eq [OF that] eq [OF \<open>c \<in> D\<close>] fresh ownsD(1) [OF o that] ownsD(2) [OF o \<open>c \<in> D\<close>] old(2)
    by (auto simp: lst' simp del: map_eq_conv)
  moreover have "y \<in> insert a E \<and> par' y = Some x" if "x \<in> D" "y \<in> set (lst' x)" for x y
    using that ownsD(2,3) [OF o \<open>x \<in> D\<close>] new old(1) by (auto simp: lst' split: if_splits)
  moreover have "x \<in> D \<and> y \<in> set (lst' x)" if "y \<in> insert a E" "par' y = Some x" for x y
  proof (cases "y = a")
    case True
    then show ?thesis using that new \<open>c \<in> D\<close> by (auto simp: lst')
  next
    case False
    then have "y \<in> E" "par y = Some x" using that old(1) by auto
    then show ?thesis using ownsD(4,5) [OF o] by (auto simp: lst')
  qed
  ultimately show ?thesis unfolding owns_def by blast
qed

lemma owns_new_orphan:
  assumes o: "owns D lst E par nm" and "a \<notin> E" and "par' a = None"
    and "\<And>x. x \<in> D \<Longrightarrow> lst' x = lst x"
    and "\<And>x. x \<in> E \<Longrightarrow> par' x = par x" and "\<And>x. x \<in> E \<Longrightarrow> nm' x = nm x"
  shows "owns D lst' (insert a E) par' nm'"
proof -
  have "owns D lst' E par' nm'"
  proof (rule owns_cong)
    show "owns D lst E par nm" by (rule o)
  qed (fact assms)+
  note n = ownsD [OF this]
  show ?thesis unfolding owns_def
  proof (intro conjI ballI allI impI)
    fix x c assume "x \<in> insert a E" "par' x = Some c"
    then have "x \<in> E" using assms(3) by auto
    then show "c \<in> D" "x \<in> set (lst' c)" using n(4,5) \<open>par' x = Some c\<close> by blast+
  qed (use n(1,2,3) in blast)+
qed

lemma owns_new_owner:
  assumes o: "owns D lst E par nm" and "d \<notin> D" and "lst' d = []"
    and "\<And>x. x \<in> D \<Longrightarrow> lst' x = lst x"
    and "\<And>x. x \<in> E \<Longrightarrow> par' x = par x" and "\<And>x. x \<in> E \<Longrightarrow> nm' x = nm x"
  shows "owns (insert d D) lst' E par' nm'"
proof -
  have "owns D lst' E par' nm'"
  proof (rule owns_cong)
    show "owns D lst E par nm" by (rule o)
  qed (fact assms)+
  note n = ownsD [OF this]
  show ?thesis unfolding owns_def
  proof (intro conjI ballI allI impI)
    fix c assume c: "c \<in> insert d D"
    then show "distinct (map nm' (lst' c))" using n(1) assms(3) by (cases "c = d") simp_all
    fix x assume "x \<in> set (lst' c)"
    then have "c \<in> D" using c assms(3) by auto
    then show "x \<in> E" "par' x = Some c" using n(2,3) \<open>x \<in> set (lst' c)\<close> by blast+
  qed (use n(4,5) in blast)+
qed

text \<open>An object that is removed, and an owner whose objects have been orphaned.\<close>

lemma owns_remove_owned:
  assumes o: "owns D lst E par nm"
    and lst': "\<And>x. x \<in> D \<Longrightarrow> lst' x = (if par a = Some x then remove1 a (lst x) else lst x)"
    and "a \<in> E" and "\<And>x. x \<in> E - {a} \<Longrightarrow> par' x = par x"
    and nm: "\<And>x. x \<in> E - {a} \<Longrightarrow> nm' x = nm x"
  shows "owns D lst' (E - {a}) par' nm'"
proof -
  have rm: "lst' x = remove1 a (lst x)" if "x \<in> D" for x
    using lst' [OF that] ownsD(3) [OF o that, of a]
    by (cases "a \<in> set (lst x)") (auto simp: remove1_idem)
  have sub: "set (lst' x) = set (lst x) - {a}" if "x \<in> D" for x
    using rm [OF that] ownsD(6) [OF o that] by simp
  have "distinct (map nm' (lst' x))" if "x \<in> D" for x
  proof -
    have "inj_on nm (set (lst x))" using ownsD(1) [OF o that] by (simp add: distinct_map)
    then have "inj_on nm (set (lst' x))" using sub [OF that] by (auto intro: inj_on_subset)
    moreover have "nm' y = nm y" if y: "y \<in> set (lst' x)" for y
      using y sub [OF \<open>x \<in> D\<close>] ownsD(2) [OF o \<open>x \<in> D\<close>] nm by auto
    ultimately have "inj_on nm' (set (lst' x))" by (auto simp: inj_on_def)
    then show ?thesis using ownsD(6) [OF o that] rm [OF that] by (simp add: distinct_map)
  qed
  moreover have "y \<in> E - {a} \<and> par' y = Some x" if "x \<in> D" "y \<in> set (lst' x)" for x y
    using that sub [OF that(1)] ownsD(2,3) [OF o that(1)] assms(4) by auto
  moreover have "x \<in> D \<and> y \<in> set (lst' x)" if "y \<in> E - {a}" "par' y = Some x" for x y
    using that assms(4) ownsD(4,5) [OF o, of y x] sub [of x] by auto
  ultimately show ?thesis unfolding owns_def by blast
qed

lemma owns_orphan_all:
  assumes o: "owns D lst E par nm"
    and "\<And>x. x \<in> E \<Longrightarrow> par' x = (if par x = Some d then None else par x)"
    and "\<And>x. x \<in> D - {d} \<Longrightarrow> lst' x = lst x" and "\<And>x. x \<in> E \<Longrightarrow> nm' x = nm x"
  shows "owns (D - {d}) lst' E par' nm'"
proof -
  have eq: "map nm' (lst x) = map nm (lst x)" if "x \<in> D" for x
    using assms(4) ownsD(2) [OF o that] by simp
  have "distinct (map nm' (lst' x))" if "x \<in> D - {d}" for x
    using that eq [of x] ownsD(1) [OF o, of x] assms(3) by (simp del: map_eq_conv)
  moreover have "y \<in> E \<and> par' y = Some x" if "x \<in> D - {d}" "y \<in> set (lst' x)" for x y
    using that assms(2,3) ownsD(2,3) [OF o, of x y] by auto
  moreover have "x \<in> D - {d} \<and> y \<in> set (lst' x)" if "y \<in> E" "par' y = Some x" for x y
  proof -
    have "par y = Some x" "x \<noteq> d" using that assms(2) [OF that(1)] by (auto split: if_splits)
    then show ?thesis using ownsD(4,5) [OF o that(1)] assms(3) by auto
  qed
  ultimately show ?thesis unfolding owns_def by blast
qed

section \<open>Operations that keep the pointers\<close>

definition same_links :: "store \<Rightarrow> store \<Rightarrow> bool" where
  "same_links s t \<longleftrightarrow>
     dom (comps t) = dom (comps s) \<and> dom (aports t) = dom (aports s) \<and> dom (pports t) = dom (pports s) \<and>
     (\<forall>c \<in> dom (comps s).
        c_name (comp t c) = c_name (comp s c) \<and> c_parent (comp t c) = c_parent (comp s c) \<and>
        c_composite (comp t c) = c_composite (comp s c) \<and>
        c_audioPorts (comp t c) = c_audioPorts (comp s c) \<and>
        c_parameterPorts (comp t c) = c_parameterPorts (comp s c) \<and>
        c_components (comp t c) = c_components (comp s c)) \<and>
     (\<forall>a \<in> dom (aports s). ap_name (aport t a) = ap_name (aport s a) \<and>
        ap_parent (aport t a) = ap_parent (aport s a)) \<and>
     (\<forall>a \<in> dom (pports s). pp_name (pport t a) = pp_name (pport s a) \<and>
        pp_parent (pport t a) = pp_parent (pport s a))"

lemma same_links_wf:
  assumes l: "same_links s t" and wf: "wf_store s"
  shows "wf_store t"
proof -
  have d: "dom (comps t) = dom (comps s)" "dom (aports t) = dom (aports s)" "dom (pports t) = dom (pports s)"
    using l by (auto simp: same_links_def)
  have c: "c_name (comp t c) = c_name (comp s c)" "c_parent (comp t c) = c_parent (comp s c)"
        "c_composite (comp t c) = c_composite (comp s c)"
        "c_audioPorts (comp t c) = c_audioPorts (comp s c)"
        "c_parameterPorts (comp t c) = c_parameterPorts (comp s c)"
        "c_components (comp t c) = c_components (comp s c)" if "c \<in> dom (comps s)" for c
    using l that unfolding same_links_def by blast+
  have a: "ap_name (aport t a) = ap_name (aport s a)" "ap_parent (aport t a) = ap_parent (aport s a)"
    if "a \<in> dom (aports s)" for a
    using l that unfolding same_links_def by blast+
  have p: "pp_name (pport t a) = pp_name (pport s a)" "pp_parent (pport t a) = pp_parent (pport s a)"
    if "a \<in> dom (pports s)" for a
    using l that unfolding same_links_def by blast+
  have "parent_rel t = parent_rel s" unfolding parent_rel_def d using c(2) by (auto cong: conj_cong)
  moreover have "wf_children t"
  proof -
    have "wf_children s" using wf by (simp add: wf_store_def)
    then show ?thesis unfolding wf_children_def d
      by (elim conjE, intro conjI, elim owns_update) (simp_all add: c)
  qed
  moreover have "wf_aports t"
  proof -
    have "wf_aports s" using wf by (simp add: wf_store_def)
    then show ?thesis unfolding wf_aports_def d by (rule owns_update) (simp_all add: c a)
  qed
  moreover have "wf_pports t"
  proof -
    have "wf_pports s" using wf by (simp add: wf_store_def)
    then show ?thesis unfolding wf_pports_def d by (rule owns_update) (simp_all add: c p)
  qed
  ultimately show ?thesis using wf d by (simp add: wf_store_def)
qed

lemma same_links_refl [simp]: "same_links s s"
  by (simp add: same_links_def)

lemma same_links_insert_connections:
  "c \<in> dom (comps s) \<Longrightarrow> same_links s (insert_audio_connection c con s)"
  "c \<in> dom (comps s) \<Longrightarrow> same_links s (insert_param_connection c pcon s)"
  by (auto simp: same_links_def insert_audio_connection_def insert_param_connection_def)

text \<open>The connection operations change nothing but the connection tables.\<close>

lemma same_links_connect:
  assumes "c \<in> dom (comps s)"
  shows "audioConnection_named s c n1 p1 i1 n2 p2 i2 = Inr s' \<Longrightarrow> same_links s s'"
    and "audioConnection_ports s c a1 i1 a2 i2 = Inr s' \<Longrightarrow> same_links s s'"
    and "audioConnection_all s c a1 a2 = Inr s' \<Longrightarrow> same_links s s'"
    and "registerParameterConnection_named s c n1 p1 n2 p2 = Inr s' \<Longrightarrow> same_links s s'"
    and "registerParameterConnection_ports s c a1 a2 = Inr s' \<Longrightarrow> same_links s s'"
proof -
  note ins = same_links_insert_connections [OF assms]
  show ports: "audioConnection_ports s c a1 i1 a2 i2 = Inr s' \<Longrightarrow> same_links s s'" for a1 i1 a2 i2 s'
    using ins by (auto simp: audioConnection_ports_def split: if_splits)
  then show "audioConnection_all s c a1 a2 = Inr s' \<Longrightarrow> same_links s s'"
    by (auto simp: audioConnection_all_def Let_def split: if_splits)
qed (use same_links_insert_connections [OF assms] in
      \<open>auto simp: audioConnection_named_def registerParameterConnection_named_def
         registerParameterConnection_ports_def split: option.splits\<close>)

section \<open>Ports\<close>

text \<open>Operations that touch the audio ports (parameter ports) only.\<close>

lemma wf_store_aports:
  assumes wf: "wf_store s" and D: "dom (comps t) = dom (comps s)" and P: "pports t = pports s"
    and eqs: "\<And>x. x \<in> dom (comps s) \<Longrightarrow> \<exists>l. comp t x = (comp s x)\<lparr>c_audioPorts := l\<rparr>"
    and A: "owns (dom (comps s)) (\<lambda>c. c_audioPorts (comp t c)) (dom (aports t))
       (\<lambda>a. ap_parent (aport t a)) (\<lambda>a. ap_name (aport t a))"
  shows "wf_store t"
proof -
  have w: "wf_children s" "wf_pports s" "finite (dom (comps s))" "acyclic (parent_rel s)"
    using wf by (auto simp: wf_store_def)
  have e: "c_name (comp t x) = c_name (comp s x)" "c_parent (comp t x) = c_parent (comp s x)"
      "c_composite (comp t x) = c_composite (comp s x)"
      "c_parameterPorts (comp t x) = c_parameterPorts (comp s x)"
      "c_components (comp t x) = c_components (comp s x)" if "x \<in> dom (comps s)" for x
    using eqs [OF that] by auto
  have "wf_children t"
    using w(1) unfolding wf_children_def D
    by (elim conjE, intro conjI, elim owns_update) (simp_all add: e)
  moreover have "wf_pports t"
    using w(2) unfolding wf_pports_def D P by (rule owns_update) (simp_all add: e)
  moreover have "parent_rel t = parent_rel s"
    unfolding parent_rel_def D using e(2) by (auto cong: conj_cong)
  ultimately show ?thesis using w A D by (simp add: wf_store_def wf_aports_def)
qed

lemma wf_store_pports:
  assumes wf: "wf_store s" and D: "dom (comps t) = dom (comps s)" and P: "aports t = aports s"
    and eqs: "\<And>x. x \<in> dom (comps s) \<Longrightarrow> \<exists>l. comp t x = (comp s x)\<lparr>c_parameterPorts := l\<rparr>"
    and A: "owns (dom (comps s)) (\<lambda>c. c_parameterPorts (comp t c)) (dom (pports t))
       (\<lambda>a. pp_parent (pport t a)) (\<lambda>a. pp_name (pport t a))"
  shows "wf_store t"
proof -
  have w: "wf_children s" "wf_aports s" "finite (dom (comps s))" "acyclic (parent_rel s)"
    using wf by (auto simp: wf_store_def)
  have e: "c_name (comp t x) = c_name (comp s x)" "c_parent (comp t x) = c_parent (comp s x)"
      "c_composite (comp t x) = c_composite (comp s x)"
      "c_audioPorts (comp t x) = c_audioPorts (comp s x)"
      "c_components (comp t x) = c_components (comp s x)" if "x \<in> dom (comps s)" for x
    using eqs [OF that] by auto
  have "wf_children t"
    using w(1) unfolding wf_children_def D
    by (elim conjE, intro conjI, elim owns_update) (simp_all add: e)
  moreover have "wf_aports t"
    using w(2) unfolding wf_aports_def D P by (rule owns_update) (simp_all add: e)
  moreover have "parent_rel t = parent_rel s"
    unfolding parent_rel_def D using e(2) by (auto cong: conj_cong)
  ultimately show ?thesis using w A D by (simp add: wf_store_def wf_pports_def)
qed

lemma wf_AudioPort_ctor:
  assumes wf: "wf_store s" and fresh: "a \<notin> dom (aports s)"
    and par: "\<And>c. container = Some c \<Longrightarrow> c \<in> dom (comps s)"
    and ok: "AudioPort_ctor s a nm container ty dir w = Inr s'"
  shows "wf_store s'"
proof (rule wf_store_aports [OF wf])
  have o: "owns (dom (comps s)) (\<lambda>c. c_audioPorts (comp s c)) (dom (aports s))
       (\<lambda>a. ap_parent (aport s a)) (\<lambda>a. ap_name (aport s a))"
    using wf by (simp add: wf_store_def wf_aports_def)
  have A: "aports s' = (aports s)(a \<mapsto> \<lparr>ap_name = nm, ap_parent = container, ap_direction = dir,
       ap_sampleType = ty, ap_width = w, ap_base = None, ap_stride = 0\<rparr>)"
    using ok by (auto simp: AudioPort_ctor_def Let_def registerAudioPort_def split: option.splits if_splits)
  show "owns (dom (comps s)) (\<lambda>c. c_audioPorts (comp s' c)) (dom (aports s'))
       (\<lambda>a. ap_parent (aport s' a)) (\<lambda>a. ap_name (aport s' a))"
  proof (cases container)
    case None
    then have "comps s' = comps s" using ok by (auto simp: AudioPort_ctor_def Let_def)
    then show ?thesis unfolding A dom_fun_upd
      using None fresh by (auto intro!: owns_new_orphan [OF o])
  next
    case (Some c)
    have "a \<notin> set (c_audioPorts (comp s c))" using ownsD(2) [OF o par [OF Some]] fresh by blast
    then have nf: "nm \<notin> (\<lambda>x. ap_name (aport s x)) ` set (c_audioPorts (comp s c))"
      using ok Some
      by (auto simp: AudioPort_ctor_def Let_def registerAudioPort_def findAudioPortEntry_def
          find_None_iff split: if_splits)
    have cs: "comps s' = (comps s)(c \<mapsto> (comp s c)\<lparr>c_audioPorts := c_audioPorts (comp s c) @ [a]\<rparr>)"
      using ok Some by (auto simp: AudioPort_ctor_def Let_def registerAudioPort_def split: if_splits)
    have "owns (dom (comps s)) (\<lambda>c. c_audioPorts (comp s' c)) (insert a (dom (aports s)))
       (\<lambda>a. ap_parent (aport s' a)) (\<lambda>a. ap_name (aport s' a))"
      by (rule owns_new_owned [OF o fresh par [OF Some]]) (use nf Some fresh in \<open>auto simp: A cs\<close>)
    then show ?thesis by (simp add: A)
  qed
  show "\<exists>l. comp s' x = (comp s x)\<lparr>c_audioPorts := l\<rparr>" if "x \<in> dom (comps s)" for x
    using ok by (cases "comp s x")
      (auto simp: AudioPort_ctor_def Let_def registerAudioPort_def split: option.splits if_splits)
qed (use ok par in \<open>auto simp: AudioPort_ctor_def Let_def registerAudioPort_def
       split: option.splits if_splits\<close>)

lemma wf_ParameterPort_ctor:
  assumes wf: "wf_store s" and fresh: "a \<notin> dom (pports s)"
    and par: "\<And>c. container = Some c \<Longrightarrow> c \<in> dom (comps s)"
    and ok: "ParameterPort_ctor s a nm container dir pty proto cfg = Inr s'"
  shows "wf_store s'"
proof (rule wf_store_pports [OF wf])
  have o: "owns (dom (comps s)) (\<lambda>c. c_parameterPorts (comp s c)) (dom (pports s))
       (\<lambda>a. pp_parent (pport s a)) (\<lambda>a. pp_name (pport s a))"
    using wf by (simp add: wf_store_def wf_pports_def)
  obtain c where Some: "container = Some c" using ok by (cases container) (auto simp: ParameterPort_ctor_def)
  have A: "pports s' = (pports s)(a \<mapsto> \<lparr>pp_name = nm, pp_parent = container, pp_direction = dir,
       pp_parameterType = pty, pp_protocolType = proto, pp_config = cfg\<rparr>)"
    using ok Some by (auto simp: ParameterPort_ctor_def Let_def registerParameterPort_def split: if_splits)
  have "a \<notin> set (c_parameterPorts (comp s c))" using ownsD(2) [OF o par [OF Some]] fresh by blast
  then have nf: "nm \<notin> (\<lambda>x. pp_name (pport s x)) ` set (c_parameterPorts (comp s c))"
    using ok Some
    by (auto simp: ParameterPort_ctor_def Let_def registerParameterPort_def findParameterPortEntry_def
        find_None_iff split: if_splits)
  have cs: "comps s' = (comps s)(c \<mapsto> (comp s c)\<lparr>c_parameterPorts := c_parameterPorts (comp s c) @ [a]\<rparr>)"
    using ok Some by (auto simp: ParameterPort_ctor_def Let_def registerParameterPort_def split: if_splits)
  have "owns (dom (comps s)) (\<lambda>c. c_parameterPorts (comp s' c)) (insert a (dom (pports s)))
     (\<lambda>a. pp_parent (pport s' a)) (\<lambda>a. pp_name (pport s' a))"
    by (rule owns_new_owned [OF o fresh par [OF Some]]) (use nf Some fresh in \<open>auto simp: A cs\<close>)
  then show "owns (dom (comps s)) (\<lambda>c. c_parameterPorts (comp s' c)) (dom (pports s'))
     (\<lambda>a. pp_parent (pport s' a)) (\<lambda>a. pp_name (pport s' a))" by (simp add: A)
  show "\<exists>l. comp s' x = (comp s x)\<lparr>c_parameterPorts := l\<rparr>" if "x \<in> dom (comps s)" for x
    by (cases "comp s x") (auto simp: cs)
  show "dom (comps s') = dom (comps s)" using par [OF Some] by (auto simp: cs)
  show "aports s' = aports s"
    using ok Some by (auto simp: ParameterPort_ctor_def Let_def registerParameterPort_def split: if_splits)
qed

text \<open>The destructors; a port whose parent is null has no entry to remove.\<close>

lemma wf_AudioPort_dtor:
  assumes wf: "wf_store s" and a: "a \<in> dom (aports s)"
  shows "wf_store (AudioPort_dtor s a)" (is "wf_store ?t")
proof (rule wf_store_aports [OF wf])
  have o: "owns (dom (comps s)) (\<lambda>c. c_audioPorts (comp s c)) (dom (aports s))
       (\<lambda>a. ap_parent (aport s a)) (\<lambda>a. ap_name (aport s a))"
    using wf by (simp add: wf_store_def wf_aports_def)
  note own = ownsD(4,5) [OF o a]
  have C: "comps ?t = (case ap_parent (aport s a) of None \<Rightarrow> comps s
      | Some c \<Rightarrow> (comps s)(c \<mapsto> (comp s c)\<lparr>c_audioPorts := remove1 a (c_audioPorts (comp s c))\<rparr>))"
    using own(2) by (auto simp: AudioPort_dtor_def unregisterAudioPort_def removeParent_def split: option.split)
  have A: "aports ?t x = (if x = a then None else aports s x)" for x
    by (auto simp: AudioPort_dtor_def unregisterAudioPort_def removeParent_def split: option.split)
  have dA: "dom (aports ?t) = dom (aports s) - {a}" by (auto simp: A split: if_splits)
  show "owns (dom (comps s)) (\<lambda>c. c_audioPorts (comp ?t c)) (dom (aports ?t))
       (\<lambda>a. ap_parent (aport ?t a)) (\<lambda>a. ap_name (aport ?t a))"
    unfolding dA by (rule owns_remove_owned [OF o _ a]) (auto simp: C A split: option.split)
  show "dom (comps ?t) = dom (comps s)" using own(1) by (auto simp: C split: option.splits if_splits)
  show "pports ?t = pports s"
    by (auto simp: AudioPort_dtor_def unregisterAudioPort_def removeParent_def split: option.split)
  show "\<exists>l. comp ?t x = (comp s x)\<lparr>c_audioPorts := l\<rparr>" for x
    by (cases "comp s x") (auto simp: C split: option.split)
qed

lemma wf_ParameterPort_dtor:
  assumes wf: "wf_store s" and a: "a \<in> dom (pports s)"
  shows "wf_store (ParameterPort_dtor s a)" (is "wf_store ?t")
proof (rule wf_store_pports [OF wf])
  have o: "owns (dom (comps s)) (\<lambda>c. c_parameterPorts (comp s c)) (dom (pports s))
       (\<lambda>a. pp_parent (pport s a)) (\<lambda>a. pp_name (pport s a))"
    using wf by (simp add: wf_store_def wf_pports_def)
  note own = ownsD(4,5) [OF o a]
  have C: "comps ?t = (case pp_parent (pport s a) of None \<Rightarrow> comps s
      | Some c \<Rightarrow> (comps s)(c \<mapsto> (comp s c)\<lparr>c_parameterPorts := remove1 a (c_parameterPorts (comp s c))\<rparr>))"
    using own(2) by (auto simp: ParameterPort_dtor_def unregisterParameterPort_def split: option.split)
  have A: "pports ?t x = (if x = a then None else pports s x)" for x
    by (auto simp: ParameterPort_dtor_def unregisterParameterPort_def split: option.split)
  have dA: "dom (pports ?t) = dom (pports s) - {a}" by (auto simp: A split: if_splits)
  show "owns (dom (comps s)) (\<lambda>c. c_parameterPorts (comp ?t c)) (dom (pports ?t))
       (\<lambda>a. pp_parent (pport ?t a)) (\<lambda>a. pp_name (pport ?t a))"
    unfolding dA by (rule owns_remove_owned [OF o _ a]) (auto simp: C A split: option.split)
  show "dom (comps ?t) = dom (comps s)" using own(1) by (auto simp: C split: option.splits if_splits)
  show "aports ?t = aports s"
    by (auto simp: ParameterPort_dtor_def unregisterParameterPort_def split: option.split)
  show "\<exists>l. comp ?t x = (comp s x)\<lparr>c_parameterPorts := l\<rparr>" for x
    by (cases "comp s x") (auto simp: C split: option.split)
qed

section \<open>Components\<close>

lemma wf_Component_ctor:
  assumes wf: "wf_store s" and fresh: "c \<notin> dom (comps s)"
    and par: "\<And>p. parent = Some p \<Longrightarrow> p \<in> dom (comps s) \<and> c_composite (comp s p)"
    and ok: "Component_ctor s c composite nm parent = Inr s'"
  shows "wf_store s'"
proof -
  have w: "wf_children s" "wf_aports s" "wf_pports s" "finite (dom (comps s))" "acyclic (parent_rel s)"
    using wf by (auto simp: wf_store_def)
  let ?R = "\<lparr>c_name = nm, c_parent = parent, c_composite = composite, c_audioPorts = [],
     c_parameterPorts = [], c_components = [], c_audioConnections = [], c_parameterConnections = []\<rparr>"
  have o: "owns (dom (comps s)) (\<lambda>c. c_components (comp s c)) (dom (comps s))
       (\<lambda>c. c_parent (comp s c)) (\<lambda>c. c_name (comp s c))"
    using w(1) by (simp add: wf_children_def)
  have ports: "aports s' = aports s" "pports s' = pports s"
    using ok by (auto simp: Component_ctor_def Let_def registerChildComponent_def split: option.splits if_splits)
  have pc: "p \<noteq> c" if "parent = Some p" for p using par [OF that] fresh by auto
  have C: "comps s' = (case parent of None \<Rightarrow> (comps s)(c \<mapsto> ?R) | Some p \<Rightarrow>
      (comps s)(c \<mapsto> ?R, p \<mapsto> (comp s p)\<lparr>c_components := c_components (comp s p) @ [c]\<rparr>))"
    using ok pc by (auto simp: Component_ctor_def Let_def registerChildComponent_def split: option.splits if_splits)
  have D: "dom (comps s') = insert c (dom (comps s))"
    using par by (auto simp: C split: option.splits)
  have c': "comp s' c = ?R" using pc by (auto simp: C split: option.split)
  have e: "\<exists>l. comp s' x = (comp s x)\<lparr>c_components := l\<rparr>" if "x \<in> dom (comps s)" for x
    using that fresh by (cases "comp s x") (auto simp: C split: option.split)
  have eqs: "c_name (comp s' x) = c_name (comp s x)" "c_parent (comp s' x) = c_parent (comp s x)"
      "c_composite (comp s' x) = c_composite (comp s x)"
      "c_audioPorts (comp s' x) = c_audioPorts (comp s x)"
      "c_parameterPorts (comp s' x) = c_parameterPorts (comp s x)" if "x \<in> dom (comps s)" for x
    using e [OF that] by auto
  have "wf_aports s'"
    unfolding wf_aports_def D ports
    by (rule owns_new_owner [OF w(2) [unfolded wf_aports_def] fresh]) (simp_all add: c' eqs)
  moreover have "wf_pports s'"
    unfolding wf_pports_def D ports
    by (rule owns_new_owner [OF w(3) [unfolded wf_pports_def] fresh]) (simp_all add: c' eqs)
  moreover have "wf_children s'"
  proof -
    let ?l = "\<lambda>x. if x = c then [] else c_components (comp s x)"
    have o1: "owns (insert c (dom (comps s))) ?l (dom (comps s))
       (\<lambda>c. c_parent (comp s c)) (\<lambda>c. c_name (comp s c))"
      by (rule owns_new_owner [OF o fresh]) (use fresh in auto)
    have "owns (insert c (dom (comps s))) (\<lambda>c. c_components (comp s' c)) (insert c (dom (comps s)))
       (\<lambda>c. c_parent (comp s' c)) (\<lambda>c. c_name (comp s' c))"
    proof (cases parent)
      case None
      show ?thesis
        by (rule owns_new_orphan [OF o1 fresh]) (use None fresh in \<open>auto simp: C\<close>)
    next
      case (Some p)
      have "c \<notin> set (c_components (comp s p))" using ownsD(2) [OF o] par [OF Some] fresh by blast
      then have nf: "nm \<notin> (\<lambda>x. c_name (comp s x)) ` set (c_components (comp s p))"
        using ok Some pc [OF Some]
        by (auto simp: Component_ctor_def Let_def registerChildComponent_def findComponentEntry_def
            find_None_iff split: if_splits)
      show ?thesis
        by (rule owns_new_owned [OF o1 fresh, of p])
          (use par [OF Some] pc [OF Some] nf Some fresh in \<open>auto simp: C eqs\<close>)
    qed
    moreover have "c_composite (comp s' x)" if "x \<in> insert c (dom (comps s))" "c_components (comp s' x) \<noteq> []" for x
      using that w(1) fresh par by (auto simp: wf_children_def C split: option.splits if_splits)
    ultimately show ?thesis unfolding wf_children_def D by blast
  qed
  moreover have "acyclic (parent_rel s')"
  proof -
    have sub: "parent_rel s' \<subseteq> parent_rel s \<union> {(c, p) | p. parent = Some p}"
    proof (rule subrelI)
      fix x y assume "(x, y) \<in> parent_rel s'"
      then have "x = c \<and> parent = Some y \<or> x \<in> dom (comps s) \<and> c_parent (comp s x) = Some y"
        using eqs(2) [of x] c' unfolding parent_rel_def D by (cases "x = c") (simp_all del: domIff)
      then show "(x, y) \<in> parent_rel s \<union> {(c, p) | p. parent = Some p}"
        unfolding parent_rel_def by blast
    qed
    have nc: "(p, c) \<notin> (parent_rel s)\<^sup>*" if pp: "parent = Some p" for p
    proof
      assume "(p, c) \<in> (parent_rel s)\<^sup>*"
      then obtain q where "(q, c) \<in> parent_rel s" using pc [OF pp] by (metis rtranclE)
      then show False using ownsD(4) [OF o] fresh by (auto simp: parent_rel_def)
    qed
    show ?thesis
    proof (cases parent)
      case None
      then show ?thesis using sub w(5) by (auto intro: acyclic_subset)
    next
      case (Some p)
      have "acyclic (insert (c, p) (parent_rel s))" using nc [OF Some] w(5) by (simp add: acyclic_insert)
      then show ?thesis by (rule acyclic_subset) (use sub Some in auto)
    qed
  qed
  ultimately show ?thesis using w(4) D by (simp add: wf_store_def)
qed

lemma fold_setParent:
  "comps (fold (setParent q) ks s) k =
     (if k \<in> set ks then Some ((comp s k)\<lparr>c_parent := q\<rparr>) else comps s k)"
  "aports (fold (setParent q) ks s) = aports s" "pports (fold (setParent q) ks s) = pports s"
  by (induction ks arbitrary: s) (auto simp: setParent_def)

text \<open>
  The member ports of a derived class are destroyed before its base class, so the destructor of
  a component runs when its port lists are empty.
\<close>

lemma wf_Component_dtor:
  assumes wf: "wf_store s" and c: "c \<in> dom (comps s)"
    and np: "c_audioPorts (comp s c) = []" "c_parameterPorts (comp s c) = []"
  shows "wf_store (Component_dtor s c)" (is "wf_store ?t")
proof -
  have w: "wf_children s" "wf_aports s" "wf_pports s" "finite (dom (comps s))" "acyclic (parent_rel s)"
    using wf by (auto simp: wf_store_def)
  have o: "owns (dom (comps s)) (\<lambda>c. c_components (comp s c)) (dom (comps s))
       (\<lambda>c. c_parent (comp s c)) (\<lambda>c. c_name (comp s c))"
    using w(1) by (simp add: wf_children_def)
  define s1 where "s1 = (if c_composite (comp s c) then Composite_dtor s c else s)"
  have kids: "k \<in> set (c_components (comp s c)) \<longleftrightarrow> k \<in> dom (comps s) \<and> c_parent (comp s k) = Some c" for k
    using ownsD(2,3) [OF o c] ownsD(5) [OF o] by blast
  have self: "c_parent (comp s c) \<noteq> Some c"
  proof
    assume "c_parent (comp s c) = Some c"
    then have "(c, c) \<in> parent_rel s" using c by (simp add: parent_rel_def)
    then show False using w(5) by (auto simp: acyclic_def)
  qed
  have leaf: "c_components (comp s c) = []" if "\<not> c_composite (comp s c)"
    using w(1) c that unfolding wf_children_def by blast
  have s1: "comps s1 k = (if k \<in> set (c_components (comp s c)) then Some ((comp s k)\<lparr>c_parent := None\<rparr>) else comps s k)"
      "aports s1 = aports s" "pports s1 = pports s" for k
    using leaf by (auto simp: s1_def Composite_dtor_def fold_setParent)
  have nmeq: "c_name (comp s1 k) = c_name (comp s k)" for k by (simp add: s1)
  have lseq: "c_components (comp s1 k) = c_components (comp s k)" for k by (simp add: s1)
  have pareq: "c_parent (comp s1 c) = c_parent (comp s c)" using kids self by (auto simp: s1)
  have find: "findComponentEntry s1 p (c_name (comp s1 c)) = Some c" if p: "c_parent (comp s c) = Some p" for p
    unfolding findComponentEntry_def
  proof (rule find_unique)
    show mem: "c \<in> set (c_components (comp s1 p))" using ownsD(5) [OF o c p] lseq by simp
    fix y assume y: "y \<in> set (c_components (comp s1 p))" "c_name (comp s1 y) = c_name (comp s1 c)"
    have "inj_on (\<lambda>k. c_name (comp s k)) (set (c_components (comp s p)))"
      using ownsD(1) [OF o ownsD(4) [OF o c p]] by (simp add: distinct_map)
    then show "y = c" using y mem by (simp add: inj_on_def nmeq lseq)
  qed simp
  have t: "?t = (case c_parent (comp s c) of None \<Rightarrow> s1\<lparr>comps := (comps s1)(c := None)\<rparr>
      | Some p \<Rightarrow> (let u = upd_comp (\<lambda>r. r\<lparr>c_components := remove1 c (c_components r)\<rparr>) p s1
                  in u\<lparr>comps := (comps u)(c := None)\<rparr>))"
    by (auto simp: Component_dtor_def Let_def s1_def [symmetric] pareq unregisterChildComponent_def find
        split: option.split)
  have ports: "aports ?t = aports s" "pports ?t = pports s"
    by (auto simp: t Let_def s1 split: option.split)
  have D: "dom (comps ?t) = dom (comps s) - {c}"
    using ownsD(4) [OF o c] kids by (auto simp: t Let_def s1 split: option.splits if_splits)
  have e: "c_name (comp ?t x) = c_name (comp s x)"
      "c_parent (comp ?t x) = (if c_parent (comp s x) = Some c then None else c_parent (comp s x))"
      "c_composite (comp ?t x) = c_composite (comp s x)"
      "c_audioPorts (comp ?t x) = c_audioPorts (comp s x)"
      "c_parameterPorts (comp ?t x) = c_parameterPorts (comp s x)"
      "c_components (comp ?t x) = (if c_parent (comp s c) = Some x then remove1 c (c_components (comp s x))
         else c_components (comp s x))"
    if "x \<in> dom (comps s) - {c}" for x
    using that kids [of x] by (auto simp: t Let_def s1 split: option.split)
  have "wf_aports ?t"
    unfolding wf_aports_def D ports
  proof (rule owns_orphan_all [OF w(2) [unfolded wf_aports_def]])
    fix a assume a: "a \<in> dom (aports s)"
    then have "ap_parent (aport s a) \<noteq> Some c"
      using ownsD(5) [OF w(2) [unfolded wf_aports_def] a, of c] np by auto
    then show "ap_parent (aport s a) = (if ap_parent (aport s a) = Some c then None else ap_parent (aport s a))"
      by simp
  qed (simp_all add: e)
  moreover have "wf_pports ?t"
    unfolding wf_pports_def D ports
  proof (rule owns_orphan_all [OF w(3) [unfolded wf_pports_def]])
    fix a assume a: "a \<in> dom (pports s)"
    then have "pp_parent (pport s a) \<noteq> Some c"
      using ownsD(5) [OF w(3) [unfolded wf_pports_def] a, of c] np by auto
    then show "pp_parent (pport s a) = (if pp_parent (pport s a) = Some c then None else pp_parent (pport s a))"
      by simp
  qed (simp_all add: e)
  moreover have "wf_children ?t"
  proof -
    let ?par = "\<lambda>x. if c_parent (comp s x) = Some c then None else c_parent (comp s x)"
    have o1: "owns (dom (comps s) - {c}) (\<lambda>x. c_components (comp s x)) (dom (comps s)) ?par
        (\<lambda>x. c_name (comp s x))"
      by (rule owns_orphan_all [OF o]) simp_all
    have "owns (dom (comps s) - {c}) (\<lambda>x. c_components (comp ?t x)) (dom (comps s) - {c})
        (\<lambda>x. c_parent (comp ?t x)) (\<lambda>x. c_name (comp ?t x))"
      by (rule owns_remove_owned [OF o1 _ c]) (use self in \<open>simp_all add: e\<close>)
    moreover have "c_composite (comp ?t x)" if "x \<in> dom (comps s) - {c}" "c_components (comp ?t x) \<noteq> []" for x
    proof -
      have "c_components (comp s x) \<noteq> []" using that e(6) [OF that(1)] by (auto split: if_splits)
      then show ?thesis using w(1) that(1) e(3) [OF that(1)] by (auto simp: wf_children_def)
    qed
    ultimately show ?thesis unfolding wf_children_def D by blast
  qed
  moreover have "parent_rel ?t \<subseteq> parent_rel s"
  proof (rule subrelI)
    fix x y assume "(x, y) \<in> parent_rel ?t"
    then have "x \<in> dom (comps s) - {c}" "c_parent (comp ?t x) = Some y" unfolding parent_rel_def D by auto
    then show "(x, y) \<in> parent_rel s"
      using e(2) [of x] unfolding parent_rel_def by (simp split: if_splits)
  qed
  ultimately show ?thesis using w(4,5) D by (auto simp: wf_store_def intro: acyclic_subset)
qed

section \<open>Programs that build a hierarchy\<close>

text \<open>
  One step of such a program. Every new object is at a fresh address; the container handed to a
  constructor exists, and a parent component is a composite (its static type says so).
\<close>

inductive build_step :: "store \<Rightarrow> store \<Rightarrow> bool" where
  component: "\<lbrakk>c \<notin> dom (comps s); \<And>p. parent = Some p \<Longrightarrow> p \<in> dom (comps s) \<and> c_composite (comp s p);
     Component_ctor s c composite nm parent = Inr s'\<rbrakk> \<Longrightarrow> build_step s s'"
| component_dtor: "\<lbrakk>c \<in> dom (comps s); c_audioPorts (comp s c) = []; c_parameterPorts (comp s c) = []\<rbrakk>
     \<Longrightarrow> build_step s (Component_dtor s c)"
| audio_port: "\<lbrakk>a \<notin> dom (aports s); \<And>c. container = Some c \<Longrightarrow> c \<in> dom (comps s);
     AudioPort_ctor s a nm container ty dir w = Inr s'\<rbrakk> \<Longrightarrow> build_step s s'"
| audio_port_dtor: "a \<in> dom (aports s) \<Longrightarrow> build_step s (AudioPort_dtor s a)"
| param_port: "\<lbrakk>a \<notin> dom (pports s); \<And>c. container = Some c \<Longrightarrow> c \<in> dom (comps s);
     ParameterPort_ctor s a nm container dir pty proto cfg = Inr s'\<rbrakk> \<Longrightarrow> build_step s s'"
| param_port_dtor: "a \<in> dom (pports s) \<Longrightarrow> build_step s (ParameterPort_dtor s a)"
| connect_named: "\<lbrakk>c \<in> dom (comps s); audioConnection_named s c n1 p1 i1 n2 p2 i2 = Inr s'\<rbrakk>
     \<Longrightarrow> build_step s s'"
| connect_ports: "\<lbrakk>c \<in> dom (comps s); audioConnection_ports s c a1 i1 a2 i2 = Inr s'\<rbrakk>
     \<Longrightarrow> build_step s s'"
| connect_all: "\<lbrakk>c \<in> dom (comps s); audioConnection_all s c a1 a2 = Inr s'\<rbrakk> \<Longrightarrow> build_step s s'"
| connect_param_named: "\<lbrakk>c \<in> dom (comps s); registerParameterConnection_named s c n1 p1 n2 p2 = Inr s'\<rbrakk>
     \<Longrightarrow> build_step s s'"
| connect_param: "\<lbrakk>c \<in> dom (comps s); registerParameterConnection_ports s c q1 q2 = Inr s'\<rbrakk>
     \<Longrightarrow> build_step s s'"
| set_width: "\<lbrakk>a \<in> dom (aports s); setWidth (aport s a) w = Inr q\<rbrakk>
     \<Longrightarrow> build_step s (s\<lparr>aports := (aports s)(a \<mapsto> q)\<rparr>)"
| set_buffer: "a \<in> dom (aports s)
     \<Longrightarrow> build_step s (s\<lparr>aports := (aports s)(a \<mapsto> setBufferConfig base stride (aport s a))\<rparr>)"
| set_config: "a \<in> dom (pports s)
     \<Longrightarrow> build_step s (s\<lparr>pports := (pports s)(a \<mapsto> setParameterConfig cfg (pport s a))\<rparr>)"

lemma same_links_port_update:
  "\<lbrakk>a \<in> dom (aports s); ap_name q = ap_name (aport s a); ap_parent q = ap_parent (aport s a)\<rbrakk>
     \<Longrightarrow> same_links s (s\<lparr>aports := (aports s)(a \<mapsto> q)\<rparr>)"
  "\<lbrakk>a \<in> dom (pports s); pp_name r = pp_name (pport s a); pp_parent r = pp_parent (pport s a)\<rbrakk>
     \<Longrightarrow> same_links s (s\<lparr>pports := (pports s)(a \<mapsto> r)\<rparr>)"
  by (auto simp: same_links_def)

lemma wf_build_step:
  assumes "build_step s s'" and "wf_store s"
  shows "wf_store s'"
  using assms
proof cases
  case component
  then show ?thesis using wf_Component_ctor [OF assms(2)] by blast
next
  case component_dtor
  then show ?thesis using wf_Component_dtor [OF assms(2)] by blast
next
  case audio_port
  then show ?thesis using wf_AudioPort_ctor [OF assms(2)] by blast
next
  case param_port
  then show ?thesis using wf_ParameterPort_ctor [OF assms(2)] by blast
next
  case (set_width a w q)
  then have "same_links s s'"
    using same_links_port_update(1) [of a s q] by (auto simp: setWidth_def split: if_splits)
  then show ?thesis using same_links_wf assms(2) by blast
next
  case (set_buffer a base stride)
  then have "same_links s s'"
    using same_links_port_update(1) [of a s "setBufferConfig base stride (aport s a)"]
    by (simp add: setBufferConfig_def)
  then show ?thesis using same_links_wf assms(2) by blast
next
  case (set_config a cfg)
  then have "same_links s s'"
    using same_links_port_update(2) [of a s "setParameterConfig cfg (pport s a)"]
    by (simp add: setParameterConfig_def)
  then show ?thesis using same_links_wf assms(2) by blast
qed (use assms(2) in \<open>blast intro: same_links_wf same_links_connect wf_AudioPort_dtor wf_ParameterPort_dtor\<close>)+

definition empty_store :: store where
  "empty_store = \<lparr>comps = Map.empty, aports = Map.empty, pports = Map.empty\<rparr>"

lemma wf_empty_store: "wf_store empty_store"
  by (simp add: empty_store_def wf_store_def wf_children_def wf_aports_def wf_pports_def owns_def
      parent_rel_def acyclic_def)

inductive reachable :: "store \<Rightarrow> bool" where
  init: "reachable empty_store"
| step: "reachable s \<Longrightarrow> build_step s s' \<Longrightarrow> reachable s'"

inductive_cases reachableE: "reachable s"

section \<open>Properties\<close>

text \<open>
  C26 (reachable_wf): in every store that a program can build with the constructors, destructors
  and connection calls of components and ports, children and parents, and ports and their owners,
  point at each other, names are unique among siblings and among the ports of a component, only
  composites have children, and no component contains itself.
\<close>

theorem reachable_wf:
  assumes "reachable s"
  shows "wf_store s"
  using assms by (induction rule: reachable.induct) (auto intro: wf_empty_store wf_build_step)

theorem reachable_wf_witness:
  "\<exists>s. wf_store s \<and> c_components (comp s 0) = [1] \<and> c_parent (comp s 1) = Some 0"
proof -
  define s1 where "s1 = projr (Component_ctor empty_store 0 True ''top'' None)"
  define s2 where "s2 = projr (Component_ctor s1 1 False ''child'' (Some 0))"
  have 1: "Component_ctor empty_store 0 True ''top'' None = Inr s1"
    by (simp add: s1_def Component_ctor_def)
  have 2: "Component_ctor s1 1 False ''child'' (Some 0) = Inr s2"
    by (simp add: s2_def s1_def Component_ctor_def empty_store_def registerChildComponent_def
        findComponentEntry_def Let_def)
  have c0: "comps s1 0 = Some \<lparr>c_name = ''top'', c_parent = None, c_composite = True, c_audioPorts = [],
     c_parameterPorts = [], c_components = [], c_audioConnections = [], c_parameterConnections = []\<rparr>"
    and c1: "1 \<notin> dom (comps s1)"
    by (simp_all add: s1_def Component_ctor_def empty_store_def)
  have "reachable s1" by (rule reachable.step [OF reachable.init build_step.component [OF _ _ 1]])
      (simp_all add: empty_store_def)
  then have "reachable s2"
    by (rule reachable.step [OF _ build_step.component [OF c1 _ 2]]) (simp add: c0 domI)
  then have "wf_store s2" by (rule reachable_wf)
  moreover have "c_components (comp s2 0) = [1] \<and> c_parent (comp s2 1) = Some 0"
    by (simp add: s2_def Component_ctor_def registerChildComponent_def findComponentEntry_def c0 Let_def)
  ultimately show ?thesis by blast
qed

definition ex_ports :: store where
  "ex_ports = \<lparr>comps = [0 \<mapsto> \<lparr>c_name = ''top'', c_parent = None, c_composite = True, c_audioPorts = [1, 2],
       c_parameterPorts = [], c_components = [], c_audioConnections = [], c_parameterConnections = []\<rparr>],
     aports = [1 \<mapsto> \<lparr>ap_name = ''in'', ap_parent = Some 0, ap_direction = Input, ap_sampleType = floatId,
                   ap_width = 2, ap_base = None, ap_stride = 0\<rparr>,
               2 \<mapsto> \<lparr>ap_name = ''out'', ap_parent = Some 0, ap_direction = Output, ap_sampleType = floatId,
                   ap_width = 1, ap_base = None, ap_stride = 0\<rparr>], pports = Map.empty\<rparr>"

lemma owns_find:
  assumes "owns D lst E par nm" "c \<in> D"
  shows "List.find (\<lambda>a. nm a = n) (lst c) = Some a \<longleftrightarrow> a \<in> set (lst c) \<and> nm a = n"
proof
  assume "a \<in> set (lst c) \<and> nm a = n"
  moreover have "inj_on nm (set (lst c))" using ownsD(1) [OF assms] by (simp add: distinct_map)
  ultimately show "List.find (\<lambda>a. nm a = n) (lst c) = Some a"
    by (intro find_unique) (auto simp: inj_on_def)
qed (auto dest: find_SomeD)

text \<open>
  C33 (lookup_by_name): in a well-formed store, the searches by name of a component return the
  subcomponent, audio port or parameter port of that name whenever there is one: the name
  determines the object.
\<close>

theorem lookup_by_name:
  assumes "wf_store s" and "c \<in> dom (comps s)"
  shows "((findComponentEntry s c n = Some k) = (k \<in> set (c_components (comp s c)) \<and> c_name (comp s k) = n)) \<and>
    ((findAudioPortEntry s c n = Some a) = (a \<in> set (c_audioPorts (comp s c)) \<and> ap_name (aport s a) = n)) \<and>
    ((findParameterPortEntry s c n = Some p) = (p \<in> set (c_parameterPorts (comp s c)) \<and> pp_name (pport s p) = n))"
proof -
  have w: "owns (dom (comps s)) (\<lambda>c. c_components (comp s c)) (dom (comps s)) (\<lambda>c. c_parent (comp s c)) (\<lambda>c. c_name (comp s c))"
    "owns (dom (comps s)) (\<lambda>c. c_audioPorts (comp s c)) (dom (aports s)) (\<lambda>a. ap_parent (aport s a)) (\<lambda>a. ap_name (aport s a))"
    "owns (dom (comps s)) (\<lambda>c. c_parameterPorts (comp s c)) (dom (pports s)) (\<lambda>a. pp_parent (pport s a)) (\<lambda>a. pp_name (pport s a))"
    using assms(1) by (simp_all add: wf_store_def wf_children_def wf_aports_def wf_pports_def)
  show ?thesis
    unfolding findComponentEntry_def findAudioPortEntry_def findParameterPortEntry_def
    by (intro conjI owns_find [OF w(1) assms(2)] owns_find [OF w(2) assms(2)] owns_find [OF w(3) assms(2)])
qed

lemma wf_ex_ports: "wf_store ex_ports"
proof -
  have "parent_rel ex_ports = {}" by (auto simp: parent_rel_def ex_ports_def)
  then show ?thesis
    by (auto simp: wf_store_def wf_children_def wf_aports_def wf_pports_def owns_def ex_ports_def acyclic_def
        split: if_splits)
qed

theorem lookup_by_name_witness:
  "findAudioPortEntry ex_ports 0 ''out'' = Some 2"
  using lookup_by_name [OF wf_ex_ports, of 0 "''out''" 0 2 0] by (simp add: ex_ports_def)

lemma maxChannelIndex_less:
  "l \<noteq> [] \<Longrightarrow> (w \<le> maxChannelIndex l) \<longleftrightarrow> \<not> (\<forall>i \<in> set l. i < w)"
  unfolding maxChannelIndex_def by (auto simp: Max_ge_iff not_less)

definition port_of_level :: "store \<Rightarrow> nat \<Rightarrow> nat \<Rightarrow> bool" where
  "port_of_level s c a \<longleftrightarrow>
     (\<exists>k. ap_parent (aport s a) = Some k \<and> (k = c \<or> c_parent (comp s k) = Some c))"

lemma checkPortParent_ok:
  "checkPortParent s (ap_parent (aport s a)) c = Inr () \<longleftrightarrow> port_of_level s c a"
  by (auto simp: checkPortParent_def port_of_level_def split: option.splits if_splits)

text \<open>
  C30 (audioConnection_exact): connecting channels of two ports succeeds exactly if both ports
  belong to the composite or to a direct child of it, the index lists have one length, and every
  index is within the width of its port; an empty connection changes nothing, any other one adds
  exactly the new connection to the table of the composite and leaves the rest of the store alone.
\<close>

theorem audioConnection_exact:
  "(audioConnection_ports s c a si b ri = Inr s') =
     (port_of_level s c a \<and> port_of_level s c b \<and> length si = length ri \<and>
      (\<forall>i \<in> set si. i < ap_width (aport s a)) \<and> (\<forall>i \<in> set ri. i < ap_width (aport s b)) \<and>
      s' = (if si = [] then s else insert_audio_connection c
        \<lparr>ac_sender = a, ac_sendIndices = si, ac_receiver = b, ac_receiveIndices = ri\<rparr> s))"
proof -
  have "audioConnection_ports s c a si b ri = Inr s' \<longleftrightarrow>
     port_of_level s c a \<and> port_of_level s c b \<and>
     (if length si \<noteq> length ri then False
      else if length si = 0 then s' = s
      else if ap_width (aport s a) \<le> maxChannelIndex si then False
      else if ap_width (aport s b) \<le> maxChannelIndex ri then False
      else s' = insert_audio_connection c
        \<lparr>ac_sender = a, ac_sendIndices = si, ac_receiver = b, ac_receiveIndices = ri\<rparr> s)"
    unfolding audioConnection_ports_def checkPortParent_ok [symmetric] by auto
  then show ?thesis
    using maxChannelIndex_less [of si] maxChannelIndex_less [of ri] by (cases "si = []") (auto simp: not_le)
qed

theorem audioConnection_exact_witness:
  "audioConnection_ports ex_ports 0 1 [1] 2 [0] = Inr (insert_audio_connection 0
        \<lparr>ac_sender = 1, ac_sendIndices = [1], ac_receiver = 2, ac_receiveIndices = [0]\<rparr> ex_ports)"
  using audioConnection_exact [of ex_ports 0 1 "[1]" 2 "[0]"] by (simp add: port_of_level_def ex_ports_def)

end
