(* ===== verification/Port_Lookup.thy ===== *)
theory Port_Lookup
  imports Component_Wf
begin

text \<open>
  The port tables of \<open>src/librrl/port_utilities.cpp\<close>: which ports of a signal flow are
  placeholders, concrete ports of atomic components, or external ports of the top level.
\<close>

section \<open>The hierarchy below a component\<close>

text \<open>
  The functions of \<open>librrl\<close> walk over a finished hierarchy that they do not change. The walk
  follows the subcomponent lists of the store; \<open>hier\<close> is the tree of that walk, and
  \<open>matches s t\<close> says that \<open>t\<close> is the tree of \<open>s\<close>. \<open>hier_of\<close> reads it off the store.
\<close>

datatype hier = Hier (root: nat) (subs: "hier list")

fun matches :: "store \<Rightarrow> hier \<Rightarrow> bool" where
  "matches s (Hier c ts) \<longleftrightarrow>
     map root ts = c_components (comp s c) \<and> (\<forall>t \<in> set ts. matches s t)"

fun hier_of :: "nat \<Rightarrow> store \<Rightarrow> nat \<Rightarrow> hier" where
  "hier_of 0 s c = Hier c []"
| "hier_of (Suc n) s c = Hier c (map (hier_of n s) (c_components (comp s c)))"

lemma root_hier_of [simp]: "root (hier_of n s c) = c"
  by (cases n) auto

fun nodes :: "hier \<Rightarrow> nat list" where
  "nodes (Hier c ts) = c # concat (map nodes ts)"

text \<open>
  The depth below a component of a well-formed store is bounded by the number of components, so
  that much fuel reaches every leaf.
\<close>

definition below :: "store \<Rightarrow> nat \<Rightarrow> nat set" where
  "below s c = {k. (k, c) \<in> (parent_rel s)\<^sup>+}"

lemma wf_child:
  assumes "wf_store s" "c \<in> dom (comps s)" "k \<in> set (c_components (comp s c))"
  shows "k \<in> dom (comps s)" "c_parent (comp s k) = Some c" "(k, c) \<in> parent_rel s"
proof -
  have o: "owns (dom (comps s)) (\<lambda>c. c_components (comp s c)) (dom (comps s))
       (\<lambda>c. c_parent (comp s c)) (\<lambda>c. c_name (comp s c))"
    using assms(1) by (simp add: wf_store_def wf_children_def)
  show "k \<in> dom (comps s)" "c_parent (comp s k) = Some c"
    using ownsD(2,3) [OF o assms(2,3)] by auto
  then show "(k, c) \<in> parent_rel s" unfolding parent_rel_def by simp
qed

lemma below_subset: "below s c \<subseteq> dom (comps s)"
proof
  fix k assume "k \<in> below s c"
  then have "(k, c) \<in> (parent_rel s)\<^sup>+" by (simp add: below_def)
  then obtain p where "(k, p) \<in> parent_rel s" by (meson tranclD)
  then show "k \<in> dom (comps s)" by (simp add: parent_rel_def)
qed

lemma below_child:
  assumes wf: "wf_store s" and e: "(k, c) \<in> parent_rel s"
  shows "card (below s k) < card (below s c)"
proof (rule psubset_card_mono)
  show "finite (below s c)"
    using below_subset wf by (auto simp: wf_store_def intro: finite_subset)
  have "below s k \<subseteq> below s c" using e by (auto simp: below_def intro: trancl_into_trancl)
  moreover have "k \<in> below s c" "k \<notin> below s k"
    using e wf by (auto simp: below_def wf_store_def acyclic_def)
  ultimately show "below s k \<subset> below s c" by blast
qed

lemma matches_hier_of_below:
  assumes "wf_store s" "c \<in> dom (comps s)" "card (below s c) < n"
  shows "matches s (hier_of n s c)"
  using assms(2,3)
proof (induction n arbitrary: c)
  case (Suc n)
  have "matches s (hier_of n s k)" if "k \<in> set (c_components (comp s c))" for k
    using Suc.IH [of k] wf_child [OF assms(1) Suc.prems(1) that] below_child [OF assms(1), of k c]
      Suc.prems(2) by linarith
  then show ?case by (auto simp: map_idI o_def)
qed simp

lemma matches_hier_of:
  assumes "wf_store s" "c \<in> dom (comps s)" "card (dom (comps s)) < n"
  shows "matches s (hier_of n s c)"
proof -
  have "card (below s c) \<le> card (dom (comps s))"
    using assms(1) by (intro card_mono below_subset) (simp add: wf_store_def)
  then show ?thesis using matches_hier_of_below assms by simp
qed

lemma nodes_in_store:
  "\<lbrakk>wf_store s; matches s t; root t \<in> dom (comps s); k \<in> set (nodes t)\<rbrakk> \<Longrightarrow> k \<in> dom (comps s)"
proof (induction s t rule: matches.induct)
  case (1 s c ts)
  show ?case
  proof (cases "k = c")
    case False
    then obtain t where t: "t \<in> set ts" "k \<in> set (nodes t)" using 1(5) by auto
    have "root t \<in> set (c_components (comp s c))"
      using t(1) 1(3) by (metis image_eqI list.set_map matches.simps)
    then have "root t \<in> dom (comps s)" using wf_child(1) [OF 1(2)] 1(4) by simp
    then show ?thesis using 1(1) [OF t(1)] 1(2,3) t by simp
  qed (use 1 in simp)
qed

section \<open>Placeholder and top-level ports\<close>

text \<open>
  Both functions take the port through its parent (\<open>port->parent()\<close>); every port of a
  well-formed store that is in a port list has one.
\<close>

definition isPlaceholderPort :: "store \<Rightarrow> nat option \<Rightarrow> bool" where
  "isPlaceholderPort s parent =
     (if \<not> c_composite (comp s (the parent)) then False
      else if isTopLevel s (the parent) then False
      else True)"

definition isToplevelPort :: "store \<Rightarrow> nat option \<Rightarrow> bool" where
  "isToplevelPort s parent = isTopLevel s (the parent)"

section \<open>Compatibility of parameter ports\<close>

text \<open>The messages written by the checks of \<open>librrl\<close>, in the order of the calls.\<close>

datatype message =
    ProtocolMismatch nat nat
  | ParameterTypeMismatch nat nat
  | ConfigIncompatible nat nat
  | ConfigTypesDiffer nat nat
  | SendPortNotFound nat nat
  | ReceivePortNotFound nat nat
  | IndexSizeMismatch nat nat
  | SendIndexExceedsWidth nat nat
  | ReceiveIndexExceedsWidth nat nat
  | MultipleSenders nat nat
  | SendChannelNotFound nat nat
  | ReceiveChannelNotFound nat nat
  | ReceiveNotConnected nat nat
  | SampleTypeMismatch nat nat
  | SendNotConnected nat nat
  | UnconnectedSendPorts nat "nat list"
  | NoSendingPort
  | NoReceivingPort
  | OutputNotConnected nat exn
  | InputNotConnected nat exn
  | InfrastructureError exn
  | UnconnectedReceivePorts nat "nat list"

text \<open>
  A missing configuration makes \<open>parameterConfig()\<close> throw; an exception of \<open>compare()\<close> is
  caught and counts as an incompatibility.
\<close>

definition checkParameterPortCompatibility ::
  "store \<Rightarrow> nat \<Rightarrow> nat \<Rightarrow> message list \<Rightarrow> exn + (bool \<times> message list)" where
  "checkParameterPortCompatibility s sendPort receivePort messages =
     (let sp = pport s sendPort; rp = pport s receivePort;
          (result1, msg1) = (if pp_protocolType sp \<noteq> pp_protocolType rp
             then (False, messages @ [ProtocolMismatch sendPort receivePort]) else (True, messages))
      in if pp_parameterType sp \<noteq> pp_parameterType rp
         then Inr (False, msg1 @ [ParameterTypeMismatch sendPort receivePort])
         else bindE (parameterConfig sp) (\<lambda>sc.
              bindE (parameterConfig rp) (\<lambda>rc.
              case config_compare sc rc of
                Inr True \<Rightarrow> Inr (result1, msg1)
              | Inr False \<Rightarrow> Inr (False, msg1 @ [ConfigIncompatible sendPort receivePort])
              | Inl _ \<Rightarrow> Inr (False, msg1 @ [ConfigTypesDiffer sendPort receivePort]))))"

text \<open>
  The configurations that a configuration accepts: an equal one, and for the sender of interpolation
  parameters every one.
\<close>

definition config_accepts :: "param_config \<Rightarrow> param_config \<Rightarrow> bool" where
  "config_accepts c d = (case c of InterpolationParameterConfig n \<Rightarrow> True | _ \<Rightarrow> c = d)"

definition compatible :: "store \<Rightarrow> nat \<Rightarrow> nat \<Rightarrow> bool" where
  "compatible s p q \<longleftrightarrow>
     pp_protocolType (pport s p) = pp_protocolType (pport s q) \<and>
     pp_parameterType (pport s p) = pp_parameterType (pport s q) \<and>
     (case pp_config (pport s p) of None \<Rightarrow> False
      | Some c \<Rightarrow> (case pp_config (pport s q) of None \<Rightarrow> False | Some d \<Rightarrow> config_accepts c d))"

lemma config_compare_refl [simp]: "config_compare a a = Inr True"
  by (cases a) auto

lemma config_compare_True: "config_compare a b = Inr True \<longleftrightarrow> config_accepts a b"
  by (cases a; cases b) (auto simp: config_accepts_def)

text \<open>The check succeeds exactly on compatible ports, and then it writes no message.\<close>

lemma checkParameterPortCompatibility_True:
  "checkParameterPortCompatibility s p q m = Inr (True, m') \<longleftrightarrow> compatible s p q \<and> m' = m"
  by (auto simp: checkParameterPortCompatibility_def compatible_def parameterConfig_def Let_def
      config_compare_True config_compare_True [THEN iffD2] split: option.splits sum.splits bool.splits)

lemma checkParameterPortCompatibility_throws:
  "(\<exists>e. checkParameterPortCompatibility s p q m = Inl e) \<longleftrightarrow>
   pp_parameterType (pport s p) = pp_parameterType (pport s q) \<and>
   (pp_config (pport s p) = None \<or> pp_config (pport s q) = None)"
  by (auto simp: checkParameterPortCompatibility_def parameterConfig_def Let_def
      split: option.splits sum.splits bool.splits)

lemma compatible_config:
  "compatible s p q \<Longrightarrow> pp_config (pport s q) = pp_config (pport s p) \<or>
     (\<exists>n. pp_config (pport s p) = Some (InterpolationParameterConfig n))"
  by (auto simp: compatible_def config_accepts_def split: option.splits param_config.splits)

text \<open>
  Two ports for interpolation parameters with different numbers of interpolants pass the check.
\<close>

lemma interpolants_unchecked:
  assumes "pp_protocolType (pport s p) = pp_protocolType (pport s q)" "pp_parameterType (pport s p) = pp_parameterType (pport s q)"
    and "pp_config (pport s p) = Some (InterpolationParameterConfig 2)" "pp_config (pport s q) = Some (InterpolationParameterConfig 3)"
  shows "checkParameterPortCompatibility s p q m = Inr (True, m)"
  using assms by (simp add: checkParameterPortCompatibility_True compatible_def config_accepts_def)

section \<open>Port tables\<close>

record port_lookup =
  mPlaceholderReceivePorts :: "nat list"
  mPlaceholderSendPorts :: "nat list"
  mConcreteSendPorts :: "nat list"
  mConcreteReceivePorts :: "nat list"
  mExternalCapturePorts :: "nat list"
  mExternalPlaybackPorts :: "nat list"
  mAllNonPlaceholderSendPorts :: "nat list"
  mAllNonPlaceholderReceivePorts :: "nat list"

definition empty_lookup :: port_lookup where
  "empty_lookup = \<lparr>mPlaceholderReceivePorts = [], mPlaceholderSendPorts = [], mConcreteSendPorts = [],
     mConcreteReceivePorts = [], mExternalCapturePorts = [], mExternalPlaybackPorts = [],
     mAllNonPlaceholderSendPorts = [], mAllNonPlaceholderReceivePorts = []\<rparr>"

definition add_external :: "(nat \<Rightarrow> direction) \<Rightarrow> nat \<Rightarrow> port_lookup \<Rightarrow> port_lookup" where
  "add_external dir p L =
     (if dir p = Input then L\<lparr>mExternalCapturePorts := set_insert p (mExternalCapturePorts L)\<rparr>
      else L\<lparr>mExternalPlaybackPorts := set_insert p (mExternalPlaybackPorts L)\<rparr>)"

definition add_placeholder :: "(nat \<Rightarrow> direction) \<Rightarrow> nat \<Rightarrow> port_lookup \<Rightarrow> port_lookup" where
  "add_placeholder dir p L =
     (if dir p = Input then L\<lparr>mPlaceholderReceivePorts := set_insert p (mPlaceholderReceivePorts L)\<rparr>
      else L\<lparr>mPlaceholderSendPorts := set_insert p (mPlaceholderSendPorts L)\<rparr>)"

definition add_concrete :: "(nat \<Rightarrow> direction) \<Rightarrow> nat \<Rightarrow> port_lookup \<Rightarrow> port_lookup" where
  "add_concrete dir p L =
     (if dir p = Input then L\<lparr>mConcreteReceivePorts := set_insert p (mConcreteReceivePorts L)\<rparr>
      else L\<lparr>mConcreteSendPorts := set_insert p (mConcreteSendPorts L)\<rparr>)"

text \<open>
  \<open>ports\<close> and \<open>dir\<close> are the port type of the template: the port list of a component and the
  direction of a port.
\<close>

fun traverseComponent ::
  "(nat \<Rightarrow> nat list) \<Rightarrow> (nat \<Rightarrow> direction) \<Rightarrow> (nat \<Rightarrow> bool) \<Rightarrow> hier \<Rightarrow> bool \<Rightarrow> bool
   \<Rightarrow> port_lookup \<Rightarrow> port_lookup" where
  "traverseComponent ports dir isComposite (Hier c ts) recurse topLevel L =
     (let L1 = (if topLevel then fold (add_external dir) (ports c) L
                else if isComposite c then fold (add_placeholder dir) (ports c) L
                else fold (add_concrete dir) (ports c) L)
      in if isComposite c
         then (if recurse
               then fold (\<lambda>t. traverseComponent ports dir isComposite t True False) ts L1
               else fold (\<lambda>t. fold (add_concrete dir) (ports (root t))) ts L1)
         else L1)"

definition PortLookup ::
  "(nat \<Rightarrow> nat list) \<Rightarrow> (nat \<Rightarrow> direction) \<Rightarrow> (nat \<Rightarrow> bool) \<Rightarrow> hier \<Rightarrow> bool \<Rightarrow> port_lookup" where
  "PortLookup ports dir isComposite t recurse =
     (let L = traverseComponent ports dir isComposite t recurse True empty_lookup
      in L\<lparr>mAllNonPlaceholderReceivePorts :=
              set_insert_all (mExternalPlaybackPorts L) (mConcreteReceivePorts L),
            mAllNonPlaceholderSendPorts :=
              set_insert_all (mExternalCapturePorts L) (mConcreteSendPorts L)\<rparr>)"

abbreviation audioPortLookup :: "store \<Rightarrow> hier \<Rightarrow> bool \<Rightarrow> port_lookup" where
  "audioPortLookup s \<equiv> PortLookup (\<lambda>c. c_audioPorts (comp s c)) (\<lambda>p. ap_direction (aport s p))
     (\<lambda>c. c_composite (comp s c))"

abbreviation parameterPortLookup :: "store \<Rightarrow> hier \<Rightarrow> bool \<Rightarrow> port_lookup" where
  "parameterPortLookup s \<equiv> PortLookup (\<lambda>c. c_parameterPorts (comp s c))
     (\<lambda>p. pp_direction (pport s p)) (\<lambda>c. c_composite (comp s c))"


text \<open>What a loop adds to a table, given what its body adds.\<close>

lemma set_fold_adds:
  assumes "\<And>x L. x \<in> set xs \<Longrightarrow> set (f (g x L)) = A x \<union> set (f L)"
  shows "set (f (fold g xs L)) = (\<Union>x \<in> set xs. A x) \<union> set (f L)"
  using assms by (induction xs arbitrary: L) auto

lemma set_add_external [simp]:
  "set (mExternalCapturePorts (add_external dir p L)) =
     (if dir p = Input then {p} else {}) \<union> set (mExternalCapturePorts L)"
  "set (mExternalPlaybackPorts (add_external dir p L)) =
     (if dir p = Input then {} else {p}) \<union> set (mExternalPlaybackPorts L)"
  "mConcreteReceivePorts (add_external dir p L) = mConcreteReceivePorts L"
  "mConcreteSendPorts (add_external dir p L) = mConcreteSendPorts L"
  "mPlaceholderReceivePorts (add_external dir p L) = mPlaceholderReceivePorts L"
  "mPlaceholderSendPorts (add_external dir p L) = mPlaceholderSendPorts L"
  by (auto simp: add_external_def)

lemma set_add_placeholder [simp]:
  "set (mPlaceholderReceivePorts (add_placeholder dir p L)) =
     (if dir p = Input then {p} else {}) \<union> set (mPlaceholderReceivePorts L)"
  "set (mPlaceholderSendPorts (add_placeholder dir p L)) =
     (if dir p = Input then {} else {p}) \<union> set (mPlaceholderSendPorts L)"
  "mConcreteReceivePorts (add_placeholder dir p L) = mConcreteReceivePorts L"
  "mConcreteSendPorts (add_placeholder dir p L) = mConcreteSendPorts L"
  "mExternalCapturePorts (add_placeholder dir p L) = mExternalCapturePorts L"
  "mExternalPlaybackPorts (add_placeholder dir p L) = mExternalPlaybackPorts L"
  by (auto simp: add_placeholder_def)

lemma set_add_concrete [simp]:
  "set (mConcreteReceivePorts (add_concrete dir p L)) =
     (if dir p = Input then {p} else {}) \<union> set (mConcreteReceivePorts L)"
  "set (mConcreteSendPorts (add_concrete dir p L)) =
     (if dir p = Input then {} else {p}) \<union> set (mConcreteSendPorts L)"
  "mPlaceholderReceivePorts (add_concrete dir p L) = mPlaceholderReceivePorts L"
  "mPlaceholderSendPorts (add_concrete dir p L) = mPlaceholderSendPorts L"
  "mExternalCapturePorts (add_concrete dir p L) = mExternalCapturePorts L"
  "mExternalPlaybackPorts (add_concrete dir p L) = mExternalPlaybackPorts L"
  by (auto simp: add_concrete_def)

text \<open>Components without the composite flag have no subcomponents.\<close>

fun atomic_leaves :: "(nat \<Rightarrow> bool) \<Rightarrow> hier \<Rightarrow> bool" where
  "atomic_leaves isComposite (Hier c ts) \<longleftrightarrow>
     (isComposite c \<or> ts = []) \<and> (\<forall>t \<in> set ts. atomic_leaves isComposite t)"

lemma atomic_leaves_matches:
  "\<lbrakk>wf_store s; matches s t; root t \<in> dom (comps s)\<rbrakk> \<Longrightarrow> atomic_leaves (\<lambda>c. c_composite (comp s c)) t"
proof (induction s t rule: matches.induct)
  case (1 s c ts)
  have "c_components (comp s c) = [] \<or> c_composite (comp s c)"
    using 1(2,4) by (auto simp: wf_store_def wf_children_def)
  moreover have "atomic_leaves (\<lambda>c. c_composite (comp s c)) t" if t: "t \<in> set ts" for t
  proof -
    have "root t \<in> set (c_components (comp s c))"
      using t 1(3) by (metis image_eqI list.set_map matches.simps)
    then have "root t \<in> dom (comps s)" using wf_child(1) [OF 1(2)] 1(4) by simp
    then show ?thesis using 1(1) [OF t] 1(2,3) t by simp
  qed
  moreover have "ts = [] \<longleftrightarrow> c_components (comp s c) = []" using 1(3) by (metis Nil_is_map_conv matches.simps)
  ultimately show ?case by auto
qed

definition ports_of :: "(nat \<Rightarrow> nat list) \<Rightarrow> (nat \<Rightarrow> direction) \<Rightarrow> direction \<Rightarrow> nat set \<Rightarrow> nat set" where
  "ports_of ports dir d C = {p. dir p = d \<and> (\<exists>c \<in> C. p \<in> set (ports c))}"

lemma ports_of_Un [simp]: "ports_of ports dir d (C \<union> D) = ports_of ports dir d C \<union> ports_of ports dir d D"
  by (auto simp: ports_of_def)

lemma ports_of_empty [simp]: "ports_of ports dir d {} = {}"
  by (auto simp: ports_of_def)

lemma set_fold_add:
  "set (mConcreteReceivePorts (fold (add_concrete dir) (ports c) L)) =
     ports_of ports dir Input {c} \<union> set (mConcreteReceivePorts L)" (is ?A)
  "set (mConcreteSendPorts (fold (add_concrete dir) (ports c) L)) =
     ports_of ports dir Output {c} \<union> set (mConcreteSendPorts L)" (is ?B)
  "set (mPlaceholderReceivePorts (fold (add_placeholder dir) (ports c) L)) =
     ports_of ports dir Input {c} \<union> set (mPlaceholderReceivePorts L)" (is ?C)
  "set (mPlaceholderSendPorts (fold (add_placeholder dir) (ports c) L)) =
     ports_of ports dir Output {c} \<union> set (mPlaceholderSendPorts L)" (is ?D)
  "set (mExternalCapturePorts (fold (add_external dir) (ports c) L)) =
     ports_of ports dir Input {c} \<union> set (mExternalCapturePorts L)" (is ?E)
  "set (mExternalPlaybackPorts (fold (add_external dir) (ports c) L)) =
     ports_of ports dir Output {c} \<union> set (mExternalPlaybackPorts L)" (is ?F)
proof -
  have neq: "dir p \<noteq> Input \<longleftrightarrow> dir p = Output" for p by (cases "dir p") auto
  show ?A by (subst set_fold_adds [where A = "\<lambda>p. if dir p = Input then {p} else {}"]) (auto simp: ports_of_def)
  show ?B by (subst set_fold_adds [where A = "\<lambda>p. if dir p = Input then {} else {p}"]) (auto simp: ports_of_def neq)
  show ?C by (subst set_fold_adds [where A = "\<lambda>p. if dir p = Input then {p} else {}"]) (auto simp: ports_of_def)
  show ?D by (subst set_fold_adds [where A = "\<lambda>p. if dir p = Input then {} else {p}"]) (auto simp: ports_of_def neq)
  show ?E by (subst set_fold_adds [where A = "\<lambda>p. if dir p = Input then {p} else {}"]) (auto simp: ports_of_def)
  show ?F by (subst set_fold_adds [where A = "\<lambda>p. if dir p = Input then {} else {p}"]) (auto simp: ports_of_def neq)
qed

lemma fold_keeps: "(\<And>x L. x \<in> set xs \<Longrightarrow> f (g x L) = f L) \<Longrightarrow> f (fold g xs L) = f L"
  by (induction xs arbitrary: L) auto

lemmas fold_keeps_add =
  fold_keeps [where g = "add_concrete dir" and f = mPlaceholderReceivePorts]
  fold_keeps [where g = "add_concrete dir" and f = mPlaceholderSendPorts]
  fold_keeps [where g = "add_concrete dir" and f = mExternalCapturePorts]
  fold_keeps [where g = "add_concrete dir" and f = mExternalPlaybackPorts]
  fold_keeps [where g = "add_placeholder dir" and f = mConcreteReceivePorts]
  fold_keeps [where g = "add_placeholder dir" and f = mConcreteSendPorts]
  fold_keeps [where g = "add_placeholder dir" and f = mExternalCapturePorts]
  fold_keeps [where g = "add_placeholder dir" and f = mExternalPlaybackPorts]
  fold_keeps [where g = "add_external dir" and f = mConcreteReceivePorts]
  fold_keeps [where g = "add_external dir" and f = mConcreteSendPorts]
  fold_keeps [where g = "add_external dir" and f = mPlaceholderReceivePorts]
  fold_keeps [where g = "add_external dir" and f = mPlaceholderSendPorts]
  for dir

text \<open>
  The walk below the top level: ports of composites are placeholders, ports of atomic
  components are concrete.
\<close>

lemma traverse_below_concrete:
  assumes "atomic_leaves isC t"
  shows "set (mConcreteReceivePorts (traverseComponent ports dir isC t True False L)) =
      ports_of ports dir Input {c \<in> set (nodes t). \<not> isC c} \<union> set (mConcreteReceivePorts L)" (is ?R)
    and "set (mConcreteSendPorts (traverseComponent ports dir isC t True False L)) =
      ports_of ports dir Output {c \<in> set (nodes t). \<not> isC c} \<union> set (mConcreteSendPorts L)" (is ?S)
proof -
  have U: "ports_of ports dir d (\<Union>t \<in> T. C t) = (\<Union>t \<in> T. ports_of ports dir d (C t))" for d T C
    by (auto simp: ports_of_def)
  have "?R \<and> ?S" using assms
  proof (induction t arbitrary: L)
    case (Hier c ts)
    show ?case
    proof (cases "isC c")
      case False
      then have "ts = []" using Hier.prems by auto
      moreover have e: "{k. k = c \<and> \<not> isC k} = {c}" using False by auto
      ultimately show ?thesis using False by (simp add: Let_def set_fold_add e)
    next
      case True
      have nodes: "{k \<in> set (nodes (Hier c ts)). \<not> isC k} = (\<Union>t \<in> set ts. {k \<in> set (nodes t). \<not> isC k})"
        using True by auto
      have IH: "set (mConcreteReceivePorts (traverseComponent ports dir isC t True False L)) =
            ports_of ports dir Input {c \<in> set (nodes t). \<not> isC c} \<union> set (mConcreteReceivePorts L)"
          "set (mConcreteSendPorts (traverseComponent ports dir isC t True False L)) =
            ports_of ports dir Output {c \<in> set (nodes t). \<not> isC c} \<union> set (mConcreteSendPorts L)"
        if "t \<in> set ts" for t L
        using Hier.IH [OF that] Hier.prems that by auto
      have "set (mConcreteReceivePorts (fold (\<lambda>t. traverseComponent ports dir isC t True False) ts M)) =
          (\<Union>t \<in> set ts. ports_of ports dir Input {c \<in> set (nodes t). \<not> isC c}) \<union>
          set (mConcreteReceivePorts M)" for M
        by (rule set_fold_adds) (simp add: IH)
      moreover have "set (mConcreteSendPorts (fold (\<lambda>t. traverseComponent ports dir isC t True False) ts M)) =
          (\<Union>t \<in> set ts. ports_of ports dir Output {c \<in> set (nodes t). \<not> isC c}) \<union>
          set (mConcreteSendPorts M)" for M
        by (rule set_fold_adds) (simp add: IH)
      ultimately show ?thesis
        using True unfolding nodes U by (simp add: Let_def fold_keeps_add)
    qed
  qed
  then show ?R ?S by auto
qed

lemma traverse_below_placeholder:
  assumes "atomic_leaves isC t"
  shows "set (mPlaceholderReceivePorts (traverseComponent ports dir isC t True False L)) =
      ports_of ports dir Input {c \<in> set (nodes t). isC c} \<union> set (mPlaceholderReceivePorts L)" (is ?R)
    and "set (mPlaceholderSendPorts (traverseComponent ports dir isC t True False L)) =
      ports_of ports dir Output {c \<in> set (nodes t). isC c} \<union> set (mPlaceholderSendPorts L)" (is ?S)
    and "mExternalCapturePorts (traverseComponent ports dir isC t True False L) = mExternalCapturePorts L" (is ?E)
    and "mExternalPlaybackPorts (traverseComponent ports dir isC t True False L) = mExternalPlaybackPorts L" (is ?P)
proof -
  have U: "ports_of ports dir d (insert c (\<Union>t \<in> T. C t)) = ports_of ports dir d {c} \<union> (\<Union>t \<in> T. ports_of ports dir d (C t))" for d T C c
    by (auto simp: ports_of_def)
  have "?R \<and> ?S \<and> ?E \<and> ?P" using assms
  proof (induction t arbitrary: L)
    case (Hier c ts)
    show ?case
    proof (cases "isC c")
      case False
      then have "ts = []" using Hier.prems by auto
      moreover have e: "{k. k = c \<and> isC k} = {}" using False by auto
      ultimately show ?thesis using False by (simp add: Let_def fold_keeps_add e)
    next
      case True
      have nodes: "{k \<in> set (nodes (Hier c ts)). isC k} = insert c (\<Union>t \<in> set ts. {k \<in> set (nodes t). isC k})"
        using True by auto
      let ?f = "\<lambda>t. traverseComponent ports dir isC t True False"
      have IH: "set (mPlaceholderReceivePorts (?f t L)) =
            ports_of ports dir Input {c \<in> set (nodes t). isC c} \<union> set (mPlaceholderReceivePorts L)"
          "set (mPlaceholderSendPorts (?f t L)) =
            ports_of ports dir Output {c \<in> set (nodes t). isC c} \<union> set (mPlaceholderSendPorts L)"
          "mExternalCapturePorts (?f t L) = mExternalCapturePorts L"
          "mExternalPlaybackPorts (?f t L) = mExternalPlaybackPorts L"
        if "t \<in> set ts" for t L
        using Hier.IH [OF that] Hier.prems that by auto
      have "set (mPlaceholderReceivePorts (fold ?f ts M)) =
          (\<Union>t \<in> set ts. ports_of ports dir Input {c \<in> set (nodes t). isC c}) \<union>
          set (mPlaceholderReceivePorts M)" for M
        by (rule set_fold_adds) (simp add: IH)
      moreover have "set (mPlaceholderSendPorts (fold ?f ts M)) =
          (\<Union>t \<in> set ts. ports_of ports dir Output {c \<in> set (nodes t). isC c}) \<union>
          set (mPlaceholderSendPorts M)" for M
        by (rule set_fold_adds) (simp add: IH)
      moreover have "mExternalCapturePorts (fold ?f ts M) = mExternalCapturePorts M"
          "mExternalPlaybackPorts (fold ?f ts M) = mExternalPlaybackPorts M" for M
        by (rule fold_keeps, simp add: IH)+
      ultimately show ?thesis
        using True unfolding nodes U by (simp add: Let_def set_fold_add fold_keeps_add Un_ac)
    qed
  qed
  then show ?R ?S ?E ?P by auto
qed


section \<open>Contents of the port tables\<close>

abbreviation inner :: "hier \<Rightarrow> nat set" where
  "inner t \<equiv> (\<Union>u \<in> set (subs t). set (nodes u))"

text \<open>
  The recursive tables: the receive ports are the external outputs and the inputs of atomic
  components, the send ports the external inputs and the outputs of atomic components.
\<close>

lemma set_PortLookup_recursive:
  assumes "atomic_leaves isC t"
  shows "set (mAllNonPlaceholderReceivePorts (PortLookup ports dir isC t True)) =
      ports_of ports dir Output {root t} \<union> ports_of ports dir Input {c \<in> inner t. \<not> isC c}" (is ?R)
    and "set (mAllNonPlaceholderSendPorts (PortLookup ports dir isC t True)) =
      ports_of ports dir Input {root t} \<union> ports_of ports dir Output {c \<in> inner t. \<not> isC c}" (is ?S)
    and "set (mPlaceholderReceivePorts (PortLookup ports dir isC t True)) =
      ports_of ports dir Input {c \<in> inner t. isC c}" (is ?PR)
    and "set (mPlaceholderSendPorts (PortLookup ports dir isC t True)) =
      ports_of ports dir Output {c \<in> inner t. isC c}" (is ?PS)
    and "set (mExternalCapturePorts (PortLookup ports dir isC t True)) = ports_of ports dir Input {root t}" (is ?EC)
    and "set (mExternalPlaybackPorts (PortLookup ports dir isC t True)) = ports_of ports dir Output {root t}" (is ?EP)
proof -
  obtain c ts where t: "t = Hier c ts" by (cases t)
  have leaf: "\<not> isC c \<Longrightarrow> ts = []" and al: "u \<in> set ts \<Longrightarrow> atomic_leaves isC u" for u
    using assms t by auto
  have U: "ports_of ports dir d {k \<in> (\<Union>u \<in> set ts. set (nodes u)). P k} =
      (\<Union>u \<in> set ts. ports_of ports dir d {k \<in> set (nodes u). P k})" for d P
    by (auto simp: ports_of_def)
  let ?f = "\<lambda>t. traverseComponent ports dir isC t True False"
  have f: "set (mConcreteReceivePorts (fold ?f ts M)) =
        (\<Union>u \<in> set ts. ports_of ports dir Input {c \<in> set (nodes u). \<not> isC c}) \<union> set (mConcreteReceivePorts M)"
      "set (mConcreteSendPorts (fold ?f ts M)) =
        (\<Union>u \<in> set ts. ports_of ports dir Output {c \<in> set (nodes u). \<not> isC c}) \<union> set (mConcreteSendPorts M)"
      "set (mPlaceholderReceivePorts (fold ?f ts M)) =
        (\<Union>u \<in> set ts. ports_of ports dir Input {c \<in> set (nodes u). isC c}) \<union> set (mPlaceholderReceivePorts M)"
      "set (mPlaceholderSendPorts (fold ?f ts M)) =
        (\<Union>u \<in> set ts. ports_of ports dir Output {c \<in> set (nodes u). isC c}) \<union> set (mPlaceholderSendPorts M)"
      for M
    by (rule set_fold_adds, simp add: traverse_below_concrete traverse_below_placeholder al)+
  have k: "mExternalCapturePorts (fold ?f ts M) = mExternalCapturePorts M"
      "mExternalPlaybackPorts (fold ?f ts M) = mExternalPlaybackPorts M" for M
    by (rule fold_keeps, simp add: traverse_below_placeholder al)+
  note sfa = set_fold_add [where ports = ports and dir = dir and c = c]
  note ss = PortLookup_def Let_def k sfa fold_keeps_add empty_lookup_def
  show ?R unfolding t hier.sel U by (cases "isC c") (simp_all add: ss f(1) leaf)
  show ?S unfolding t hier.sel U by (cases "isC c") (simp_all add: ss f(2) leaf)
  show ?PR unfolding t hier.sel U by (cases "isC c") (simp_all add: ss f(3) leaf)
  show ?PS unfolding t hier.sel U by (cases "isC c") (simp_all add: ss f(4) leaf)
  show ?EC unfolding t hier.sel by (cases "isC c") (simp_all add: ss)
  show ?EP unfolding t hier.sel by (cases "isC c") (simp_all add: ss)
qed

text \<open>
  The tables of one level: the ports of the component itself from the inside, and the ports of
  its direct children.
\<close>

lemma set_PortLookup_local:
  assumes "isC (root t)"
  shows "set (mAllNonPlaceholderReceivePorts (PortLookup ports dir isC t False)) =
      ports_of ports dir Output {root t} \<union> ports_of ports dir Input (root ` set (subs t))" (is ?R)
    and "set (mAllNonPlaceholderSendPorts (PortLookup ports dir isC t False)) =
      ports_of ports dir Input {root t} \<union> ports_of ports dir Output (root ` set (subs t))" (is ?S)
proof -
  obtain c ts where t: "t = Hier c ts" by (cases t)
  have U: "ports_of ports dir d (root ` set ts) = (\<Union>u \<in> set ts. ports_of ports dir d {root u})" for d
    by (auto simp: ports_of_def)
  let ?f = "\<lambda>t. fold (add_concrete dir) (ports (root t))"
  have f: "set (mConcreteReceivePorts (fold ?f ts M)) =
        (\<Union>u \<in> set ts. ports_of ports dir Input {root u}) \<union> set (mConcreteReceivePorts M)"
      "set (mConcreteSendPorts (fold ?f ts M)) =
        (\<Union>u \<in> set ts. ports_of ports dir Output {root u}) \<union> set (mConcreteSendPorts M)" for M
    by (rule set_fold_adds, rule set_fold_add)+
  have k: "mExternalCapturePorts (fold ?f ts M) = mExternalCapturePorts M"
      "mExternalPlaybackPorts (fold ?f ts M) = mExternalPlaybackPorts M" for M
    by (rule fold_keeps, simp add: fold_keeps_add)+
  have c: "isC c" using assms t by simp
  note sfa = set_fold_add [where ports = ports and dir = dir and c = c]
  show ?R unfolding t hier.sel U
    by (simp add: PortLookup_def Let_def f(1) k c sfa fold_keeps_add empty_lookup_def)
  show ?S unfolding t hier.sel U
    by (simp add: PortLookup_def Let_def f(2) k c sfa fold_keeps_add empty_lookup_def)
qed

text \<open>The composites of a hierarchy, in the order in which the walks of \<open>librrl\<close> visit them.\<close>

fun composites :: "store \<Rightarrow> hier \<Rightarrow> hier list" where
  "composites s (Hier c ts) =
     (if c_composite (comp s c) then Hier c ts # concat (map (composites s) ts) else [])"

end
