(* ===== verification/Example_Flow.thy ===== *)
theory Example_Flow
  imports Port_Lookup
begin

text \<open>
  A small signal flow for the examples of the development: a top-level composite with an inner
  composite that contains one atomic component. Every level has an audio input and an audio
  output of two channels and a parameter input, all connected.
\<close>

definition ex_audio_port :: "string \<Rightarrow> nat \<Rightarrow> direction \<Rightarrow> audio_port" where
  "ex_audio_port nm c d = \<lparr>ap_name = nm, ap_parent = Some c, ap_direction = d, ap_sampleType = floatId,
     ap_width = 2, ap_base = None, ap_stride = 0\<rparr>"

definition ex_param_port :: "string \<Rightarrow> nat \<Rightarrow> param_port" where
  "ex_param_port nm c = \<lparr>pp_name = nm, pp_parent = Some c, pp_direction = Input, pp_parameterType = 1,
     pp_protocolType = 2, pp_config = Some (VectorParameterConfig 4)\<rparr>"

definition ex_connection :: "nat \<Rightarrow> nat \<Rightarrow> audio_connection" where
  "ex_connection a b = \<lparr>ac_sender = a, ac_sendIndices = [0, 1], ac_receiver = b, ac_receiveIndices = [0, 1]\<rparr>"

definition ex_store :: store where
  "ex_store = \<lparr>
     comps = [0 \<mapsto> \<lparr>c_name = ''top'', c_parent = None, c_composite = True, c_audioPorts = [10, 11],
                   c_parameterPorts = [20], c_components = [1],
                   c_audioConnections = [ex_connection 10 12, ex_connection 13 11],
                   c_parameterConnections = [\<lparr>pc_sender = 20, pc_receiver = 21\<rparr>]\<rparr>,
              1 \<mapsto> \<lparr>c_name = ''inner'', c_parent = Some 0, c_composite = True, c_audioPorts = [12, 13],
                   c_parameterPorts = [21], c_components = [2],
                   c_audioConnections = [ex_connection 12 14, ex_connection 15 13],
                   c_parameterConnections = [\<lparr>pc_sender = 21, pc_receiver = 22\<rparr>]\<rparr>,
              2 \<mapsto> \<lparr>c_name = ''gain'', c_parent = Some 1, c_composite = False, c_audioPorts = [14, 15],
                   c_parameterPorts = [22], c_components = [], c_audioConnections = [],
                   c_parameterConnections = []\<rparr>],
     aports = [10 \<mapsto> ex_audio_port ''in'' 0 Input, 11 \<mapsto> ex_audio_port ''out'' 0 Output,
               12 \<mapsto> ex_audio_port ''in'' 1 Input, 13 \<mapsto> ex_audio_port ''out'' 1 Output,
               14 \<mapsto> ex_audio_port ''in'' 2 Input, 15 \<mapsto> ex_audio_port ''out'' 2 Output],
     pports = [20 \<mapsto> ex_param_port ''gainIn'' 0, 21 \<mapsto> ex_param_port ''gainIn'' 1,
               22 \<mapsto> ex_param_port ''gainIn'' 2]\<rparr>"

definition ex_tree :: hier where
  "ex_tree = Hier 0 [Hier 1 [Hier 2 []]]"

lemmas ex_defs = ex_store_def ex_audio_port_def ex_param_port_def ex_connection_def

lemma ex_matches: "matches ex_store ex_tree"
  by (simp add: ex_tree_def ex_store_def)

lemma ex_hier_of: "hier_of 4 ex_store 0 = ex_tree"
  by (simp add: ex_tree_def ex_store_def numeral_eq_Suc)

end
