(* ===== verification/Connection_Table.thy ===== *)
theory Connection_Table
  imports Prelude
begin

text \<open>
  What the audio and the parameter connections have in common: a table of (sender, receiver)
  pairs with a lookup of a sender by its receiver. Following the lookup through placeholders
  to the first concrete sender is the specification of both \<open>resolvePlaceholders\<close> functions.
\<close>

text \<open>
  \<open>feeds ph E a d\<close>: the signal of the concrete sender \<open>a\<close> reaches \<open>d\<close> over the connections \<open>E\<close>
  through placeholders only. \<open>source_of ph f a d n\<close>: following the sender function \<open>f\<close> from \<open>d\<close>
  passes \<open>n\<close> placeholders and ends at the concrete sender \<open>a\<close>.
\<close>

inductive feeds :: "('a \<Rightarrow> bool) \<Rightarrow> ('a \<times> 'a) set \<Rightarrow> 'a \<Rightarrow> 'a \<Rightarrow> bool"
  for ph :: "'a \<Rightarrow> bool" and E :: "('a \<times> 'a) set" where
  direct: "(a, d) \<in> E \<Longrightarrow> \<not> ph a \<Longrightarrow> feeds ph E a d"
| through: "(p, d) \<in> E \<Longrightarrow> ph p \<Longrightarrow> feeds ph E a p \<Longrightarrow> feeds ph E a d"

inductive source_of :: "('a \<Rightarrow> bool) \<Rightarrow> ('a \<Rightarrow> 'a option) \<Rightarrow> 'a \<Rightarrow> 'a \<Rightarrow> nat \<Rightarrow> bool"
  for ph :: "'a \<Rightarrow> bool" and f :: "'a \<Rightarrow> 'a option" where
  here: "f d = Some a \<Longrightarrow> \<not> ph a \<Longrightarrow> source_of ph f a d 0"
| later: "f d = Some p \<Longrightarrow> ph p \<Longrightarrow> source_of ph f a p n \<Longrightarrow> source_of ph f a d (Suc n)"

inductive_cases source_of_0E: "source_of ph f a d 0"
inductive_cases source_of_SucE: "source_of ph f a d (Suc n)"

lemma source_of_det: "source_of ph f a d n \<Longrightarrow> source_of ph f b d k \<Longrightarrow> a = b \<and> n = k"
proof (induction arbitrary: b k rule: source_of.induct)
  case (here d a)
  from here(3) show ?case using here(1,2) by cases auto
next
  case (later d p a n)
  from later(5) show ?case
  proof cases
    case (later p' k')
    then show ?thesis using later.hyps later.IH [of b k'] by (simp add: \<open>f d = Some p\<close>)
  qed (use later(1,2) in auto)
qed

definition unique_sender :: "('a \<times> 'a) set \<Rightarrow> bool" where
  "unique_sender E \<longleftrightarrow> (\<forall>a b d. (a, d) \<in> E \<longrightarrow> (b, d) \<in> E \<longrightarrow> a = b)"

text \<open>
  The placeholders passed on the way are all different, so a table with finitely many
  connections bounds the number of steps.
\<close>

fun follow :: "('a \<Rightarrow> 'a option) \<Rightarrow> 'a \<Rightarrow> nat \<Rightarrow> 'a list" where
  "follow f d 0 = [d]"
| "follow f d (Suc n) = (case f d of None \<Rightarrow> [d] | Some p \<Rightarrow> d # follow f p n)"

lemma follow_depths:
  "source_of ph f a d n \<Longrightarrow> x \<in> set (follow f d n) \<Longrightarrow> \<exists>k \<le> n. source_of ph f a x k"
  by (induction arbitrary: x rule: source_of.induct) (auto intro: source_of.intros le_SucI)

lemma follow_distinct:
  "source_of ph f a d n \<Longrightarrow> distinct (follow f d n) \<and> length (follow f d n) = Suc n"
proof (induction rule: source_of.induct)
  case (later d p a n)
  have "d \<notin> set (follow f p n)"
  proof
    assume "d \<in> set (follow f p n)"
    then obtain k where "k \<le> n" "source_of ph f a d k" using follow_depths later(3) by metis
    then have "k = Suc n" using source_of_det [OF _ source_of.later [OF later(1-3)]] by metis
    then show False using \<open>k \<le> n\<close> by simp
  qed
  then show ?case using later by simp
qed simp

lemma follow_dom:
  "source_of ph f a d n \<Longrightarrow> x \<in> set (follow f d n) \<Longrightarrow> \<exists>y. f x = Some y"
  by (induction arbitrary: x rule: source_of.induct) auto

locale connection_table =
  fixes edges :: "'m \<Rightarrow> ('a \<times> 'a) set"
    and sender_of :: "'m \<Rightarrow> 'a \<Rightarrow> 'a option"
  assumes sender_sound: "sender_of m r = Some a \<Longrightarrow> (a, r) \<in> edges m"
    and sender_complete: "(a, r) \<in> edges m \<Longrightarrow> \<exists>b. sender_of m r = Some b"
    and finite_edges: "finite (edges m)"
begin

lemma source_feeds: "source_of ph (sender_of m) a d n \<Longrightarrow> feeds ph (edges m) a d"
  by (induction rule: source_of.induct) (auto intro: feeds.intros dest: sender_sound)

lemma sender_of_unique: "unique_sender (edges m) \<Longrightarrow> sender_of m d = Some a \<longleftrightarrow> (a, d) \<in> edges m"
  using sender_sound sender_complete unfolding unique_sender_def by metis

lemma feeds_source:
  "feeds ph (edges m) a d \<Longrightarrow> unique_sender (edges m) \<Longrightarrow> \<exists>n. source_of ph (sender_of m) a d n"
proof (induction rule: feeds.induct)
  case (direct a d)
  then show ?case using source_of.here sender_of_unique by metis
next
  case (through p d a)
  then show ?case using source_of.later sender_of_unique by metis
qed

lemma feeds_iff_source:
  "unique_sender (edges m) \<Longrightarrow> feeds ph (edges m) a d \<longleftrightarrow> (\<exists>n. source_of ph (sender_of m) a d n)"
  using source_feeds feeds_source by metis

lemma feeds_unique:
  "\<lbrakk>unique_sender (edges m); feeds ph (edges m) a d; feeds ph (edges m) b d\<rbrakk> \<Longrightarrow> a = b"
  using feeds_source source_of_det by metis

text \<open>A table with \<open>k\<close> receivers is left after less than \<open>k\<close> placeholders.\<close>

lemma source_depth:
  assumes "source_of ph (sender_of m) a d n"
  shows "n < card (snd ` edges m)"
proof -
  have "set (follow (sender_of m) d n) \<subseteq> snd ` edges m"
  proof
    fix x assume "x \<in> set (follow (sender_of m) d n)"
    then obtain b where "sender_of m x = Some b" using follow_dom [OF assms] by metis
    then show "x \<in> snd ` edges m" using sender_sound by force
  qed
  then have "length (follow (sender_of m) d n) \<le> card (snd ` edges m)"
    using follow_distinct [OF assms] finite_edges by (metis card_mono distinct_card finite_imageI)
  then show ?thesis using follow_distinct [OF assms] by simp
qed

text \<open>
  The loop of both resolutions over the entries of the table: an entry that ends at a placeholder
  is dropped, any other one is replaced by the connection from its concrete sender, and the loop
  throws where there is none.
\<close>

lemma resolve_table:
  fixes mk :: "'a \<Rightarrow> 'a \<Rightarrow> 'k::linorder \<times> 'v"
  assumes u: "unique_sender (edges m)"
    and step: "\<And>r r' e. e \<in> set es \<Longrightarrow> f r e = Inr r' \<longleftrightarrow>
      (if ph (recv e) then r' = r
       else \<exists>a. feeds ph (edges m) a (recv e) \<and> r' = mm_insert (mk a (recv e)) r)"
  shows "foldE f r es = Inr r' \<Longrightarrow>
      set r' = {mk a d | a d. feeds ph (edges m) a d \<and> d \<in> recv ` set es \<and> \<not> ph d} \<union> set r \<and>
      (sorted (map fst r) \<longrightarrow> sorted (map fst r')) \<and>
      length r' = length (filter (\<lambda>e. \<not> ph (recv e)) es) + length r"
    and "(\<forall>e \<in> set es. \<not> ph (recv e) \<longrightarrow> (\<exists>a. feeds ph (edges m) a (recv e)))
      \<longleftrightarrow> (\<exists>r'. foldE f r es = Inr r')"
proof -
  show "foldE f r es = Inr r' \<Longrightarrow>
      set r' = {mk a d | a d. feeds ph (edges m) a d \<and> d \<in> recv ` set es \<and> \<not> ph d} \<union> set r \<and>
      (sorted (map fst r) \<longrightarrow> sorted (map fst r')) \<and>
      length r' = length (filter (\<lambda>e. \<not> ph (recv e)) es) + length r"
    using step
  proof (induction es arbitrary: r)
    case (Cons e es)
    from Cons.prems(1) obtain r1 where r1: "f r e = Inr r1" "foldE f r1 es = Inr r'" by auto
    let ?F = "\<lambda>es. {mk a d | a d. feeds ph (edges m) a d \<and> d \<in> recv ` set es \<and> \<not> ph d}"
    have I: "set r' = ?F es \<union> set r1" "sorted (map fst r1) \<longrightarrow> sorted (map fst r')"
        "length r' = length (filter (\<lambda>e. \<not> ph (recv e)) es) + length r1"
      using Cons.IH [OF r1(2)] Cons.prems(2) by simp_all
    show ?case
    proof (cases "ph (recv e)")
      case True
      then have "r1 = r" using Cons.prems(2) [of e r r1] r1(1) by simp
      moreover have "?F (e # es) = ?F es" using True by auto
      ultimately show ?thesis using I True by simp
    next
      case False
      then obtain a where a: "feeds ph (edges m) a (recv e)" "r1 = mm_insert (mk a (recv e)) r"
        using Cons.prems(2) [of e r r1] r1(1) by auto
      have uniq: "feeds ph (edges m) b (recv e) \<longleftrightarrow> b = a" for b
        using feeds_unique [OF u _ a(1)] a(1) by metis
      have F: "?F (e # es) = insert (mk a (recv e)) (?F es)"
      proof (intro equalityI subsetI)
        fix x assume "x \<in> ?F (e # es)"
        then obtain b d where "x = mk b d" "feeds ph (edges m) b d" "d = recv e \<or> d \<in> recv ` set es" "\<not> ph d"
          by auto
        then consider "d = recv e" "b = a" | "d \<in> recv ` set es" using uniq by blast
        then show "x \<in> insert (mk a (recv e)) (?F es)"
          by cases (use \<open>x = mk b d\<close> \<open>feeds ph (edges m) b d\<close> \<open>\<not> ph d\<close> in auto)
      next
        fix x assume "x \<in> insert (mk a (recv e)) (?F es)"
        then show "x \<in> ?F (e # es)" using False a(1) by auto
      qed
      have "set r' = ?F (e # es) \<union> set r" unfolding F I(1) a(2) by simp
      moreover have "sorted (map fst r) \<longrightarrow> sorted (map fst r')"
        using I(2) sorted_mm_insert unfolding a(2) by blast
      moreover have "length r' = length (filter (\<lambda>e. \<not> ph (recv e)) (e # es)) + length r"
        using I(3) False unfolding a(2) by simp
      ultimately show ?thesis by blast
    qed
  qed simp
  show "(\<forall>e \<in> set es. \<not> ph (recv e) \<longrightarrow> (\<exists>a. feeds ph (edges m) a (recv e)))
      \<longleftrightarrow> (\<exists>r'. foldE f r es = Inr r')"
    using step
  proof (induction es arbitrary: r)
    case (Cons e es)
    have "(\<not> ph (recv e) \<longrightarrow> (\<exists>a. feeds ph (edges m) a (recv e))) \<longleftrightarrow> (\<exists>r1. f r e = Inr r1)"
      using Cons.prems [of e r] by auto
    moreover have "(\<forall>e \<in> set es. \<not> ph (recv e) \<longrightarrow> (\<exists>a. feeds ph (edges m) a (recv e))) \<longleftrightarrow>
        (\<exists>r'. foldE f r1 es = Inr r')" for r1
      using Cons.IH [of r1] Cons.prems by simp
    ultimately show ?case by auto
  qed simp
qed

end

end
