(* ===== verification/Audio_Connections.thy ===== *)
theory Audio_Connections
  imports Example_Flow Connection_Table
begin

text \<open>
  The audio connections of a signal flow at channel level
  (\<open>src/librrl/audio_connection_map.cpp\<close>): collecting them from the composites of the
  hierarchy, and replacing the ports of inner composites by the concrete ports they stand for.
\<close>

section \<open>Audio channels\<close>

datatype audio_channel = AudioChannel (port: nat) (channel: nat)

instantiation audio_channel :: linorder
begin

definition less_audio_channel :: "audio_channel \<Rightarrow> audio_channel \<Rightarrow> bool" where
  "a < b \<longleftrightarrow> port a < port b \<or> port a = port b \<and> channel a < channel b"

definition less_eq_audio_channel :: "audio_channel \<Rightarrow> audio_channel \<Rightarrow> bool" where
  "a \<le> b \<longleftrightarrow> port a < port b \<or> port a = port b \<and> channel a \<le> channel b"

instance
  by intro_classes (auto simp: less_audio_channel_def less_eq_audio_channel_def intro: audio_channel.expand)

end

type_synonym acmap = "(audio_channel \<times> audio_channel) list"

section \<open>Collecting the connections\<close>

text \<open>The channel pairs of a connection between two ports.\<close>

definition channel_pairs :: "audio_connection \<Rightarrow> (audio_channel \<times> audio_channel) list" where
  "channel_pairs con =
     map (\<lambda>i. (AudioChannel (ac_sender con) (ac_sendIndices con ! i),
               AudioChannel (ac_receiver con) (ac_receiveIndices con ! i)))
       [0..<length (ac_receiveIndices con)]"

text \<open>The body of the loop over the connections of a composite.\<close>

fun fillConnection ::
  "store \<Rightarrow> port_lookup \<Rightarrow> audio_connection \<Rightarrow> bool \<times> message list \<times> acmap
   \<Rightarrow> bool \<times> message list \<times> acmap" where
  "fillConnection s localPorts con (result, messages, m) =
     (let snd_p = ac_sender con; rcv_p = ac_receiver con;
          sendIndices = ac_sendIndices con; receiveIndices = ac_receiveIndices con
      in if snd_p \<notin> set (mAllNonPlaceholderSendPorts localPorts)
         then (False, messages @ [SendPortNotFound snd_p rcv_p], m)
         else if rcv_p \<notin> set (mAllNonPlaceholderReceivePorts localPorts)
         then (False, messages @ [ReceivePortNotFound snd_p rcv_p], m)
         else if length receiveIndices \<noteq> length sendIndices
         then (False, messages @ [IndexSizeMismatch snd_p rcv_p], m)
         else if length receiveIndices > 0
         then (if ap_width (aport s snd_p) \<le> Max (set sendIndices)
               then (False, messages @ [SendIndexExceedsWidth snd_p rcv_p], m)
               else if ap_width (aport s rcv_p) \<le> Max (set receiveIndices)
               then (False, messages @ [ReceiveIndexExceedsWidth snd_p rcv_p], m)
               else (result, messages, mm_insert_all (channel_pairs con) m))
         else (result, messages, m))"

fun fillRecursive ::
  "store \<Rightarrow> hier \<Rightarrow> bool \<Rightarrow> bool \<times> message list \<times> acmap \<Rightarrow> bool \<times> message list \<times> acmap" where
  "fillRecursive s (Hier c ts) recursive (r0, messages, m) =
     (if \<not> c_composite (comp s c) then (True, messages, m)
      else let localPorts = audioPortLookup s (Hier c ts) False;
               st = fold (fillConnection s localPorts) (c_audioConnections (comp s c)) (True, messages, m)
           in if recursive
              then fold (\<lambda>t st. if fst st then fillRecursive s t True st else st) ts st
              else st)"

text \<open>\<open>fill\<close> clears the map first; the constructor turns a failure into an exception.\<close>

definition fill :: "store \<Rightarrow> hier \<Rightarrow> bool \<Rightarrow> message list \<Rightarrow> bool \<times> message list \<times> acmap" where
  "fill s t recursive messages = fillRecursive s t recursive (True, messages, [])"

definition AudioConnectionMap :: "store \<Rightarrow> hier \<Rightarrow> bool \<Rightarrow> exn + acmap" where
  "AudioConnectionMap s t recursive =
     (case fillRecursive s t recursive (True, [], []) of
        (result, messages, m) \<Rightarrow> if \<not> result then Inl invalid_argument else Inr m)"

section \<open>What the collected map contains\<close>

definition local_senders :: "store \<Rightarrow> hier \<Rightarrow> nat set" where
  "local_senders s t = {p. p \<in> set (c_audioPorts (comp s (root t))) \<and> ap_direction (aport s p) = Input} \<union>
     {p. \<exists>k \<in> root ` set (subs t). p \<in> set (c_audioPorts (comp s k)) \<and> ap_direction (aport s p) = Output}"

definition local_receivers :: "store \<Rightarrow> hier \<Rightarrow> nat set" where
  "local_receivers s t = {p. p \<in> set (c_audioPorts (comp s (root t))) \<and> ap_direction (aport s p) = Output} \<union>
     {p. \<exists>k \<in> root ` set (subs t). p \<in> set (c_audioPorts (comp s k)) \<and> ap_direction (aport s p) = Input}"

text \<open>
  A connection of the composite at the root of \<open>t\<close> makes sense: it leads from a sender to a
  receiver as seen inside the composite, and every index is a channel of its port.
\<close>

definition valid_connection :: "store \<Rightarrow> hier \<Rightarrow> audio_connection \<Rightarrow> bool" where
  "valid_connection s t con \<longleftrightarrow>
     ac_sender con \<in> local_senders s t \<and> ac_receiver con \<in> local_receivers s t \<and>
     length (ac_sendIndices con) = length (ac_receiveIndices con) \<and>
     (\<forall>i \<in> set (ac_sendIndices con). i < ap_width (aport s (ac_sender con))) \<and>
     (\<forall>i \<in> set (ac_receiveIndices con). i < ap_width (aport s (ac_receiver con)))"

definition connections_in :: "store \<Rightarrow> hier set \<Rightarrow> (audio_channel \<times> audio_channel) set" where
  "connections_in s U = (\<Union>u \<in> U. \<Union>con \<in> set (c_audioConnections (comp s (root u))). set (channel_pairs con))"

lemma local_tables:
  assumes "c_composite (comp s (root t))"
  shows "set (mAllNonPlaceholderSendPorts (audioPortLookup s t False)) = local_senders s t"
    and "set (mAllNonPlaceholderReceivePorts (audioPortLookup s t False)) = local_receivers s t"
  using assms by (auto simp: set_PortLookup_local local_senders_def local_receivers_def ports_of_def)

lemma all_less_Max:
  fixes xs :: "nat list"
  shows "xs \<noteq> [] \<Longrightarrow> (w \<le> Max (set xs)) \<longleftrightarrow> \<not> (\<forall>i \<in> set xs. i < w)"
  by (metis List.finite_set Max_less_iff linorder_not_less set_empty)

lemma fillConnection_spec:
  assumes "set (mAllNonPlaceholderSendPorts L) = local_senders s t"
    and "set (mAllNonPlaceholderReceivePorts L) = local_receivers s t"
  shows "fst (fillConnection s L con (r, msgs, m)) \<longleftrightarrow> r \<and> valid_connection s t con"
    and "valid_connection s t con \<Longrightarrow>
      fillConnection s L con (r, msgs, m) = (r, msgs, mm_insert_all (channel_pairs con) m)"
proof -
  have e: "mm_insert_all (channel_pairs con) m = m" if "ac_receiveIndices con = []"
    using that by (simp add: channel_pairs_def mm_insert_all_def)
  have mx: "ap_width (aport s (ac_sender con)) \<le> Max (set (ac_sendIndices con)) \<longleftrightarrow>
        \<not> (\<forall>i \<in> set (ac_sendIndices con). i < ap_width (aport s (ac_sender con)))"
      "ap_width (aport s (ac_receiver con)) \<le> Max (set (ac_receiveIndices con)) \<longleftrightarrow>
        \<not> (\<forall>i \<in> set (ac_receiveIndices con). i < ap_width (aport s (ac_receiver con)))"
    if "length (ac_receiveIndices con) = length (ac_sendIndices con)" "ac_receiveIndices con \<noteq> []"
    using that by (metis all_less_Max length_0_conv)+
  show "fst (fillConnection s L con (r, msgs, m)) \<longleftrightarrow> r \<and> valid_connection s t con"
    using assms mx by (cases "ac_receiveIndices con = []") (auto simp: Let_def valid_connection_def)
  show "fillConnection s L con (r, msgs, m) = (r, msgs, mm_insert_all (channel_pairs con) m)"
    if "valid_connection s t con"
    using that assms e mx by (cases "ac_receiveIndices con = []") (auto simp: Let_def valid_connection_def)
qed

text \<open>The loop over the connections of one composite.\<close>

lemma fold_fillConnection:
  assumes "set (mAllNonPlaceholderSendPorts L) = local_senders s t"
    and "set (mAllNonPlaceholderReceivePorts L) = local_receivers s t"
  shows "fst (fold (fillConnection s L) cs (r, msgs, m)) \<longleftrightarrow> r \<and> (\<forall>con \<in> set cs. valid_connection s t con)"
    and "\<forall>con \<in> set cs. valid_connection s t con \<Longrightarrow>
      fold (fillConnection s L) cs (r, msgs, m) =
        (r, msgs, fold (\<lambda>con. mm_insert_all (channel_pairs con)) cs m)"
proof -
  show "fst (fold (fillConnection s L) cs (r, msgs, m)) \<longleftrightarrow> r \<and> (\<forall>con \<in> set cs. valid_connection s t con)"
  proof (induction cs arbitrary: r msgs m)
    case (Cons c cs)
    obtain r' msgs' m' where f: "fillConnection s L c (r, msgs, m) = (r', msgs', m')" by (metis prod_cases3)
    have "r' \<longleftrightarrow> r \<and> valid_connection s t c"
      using fillConnection_spec(1) [OF assms, of c r msgs m] f by simp
    then show ?case using Cons.IH f by (auto simp del: fillConnection.simps)
  qed simp
  show "\<forall>con \<in> set cs. valid_connection s t con \<Longrightarrow>
      fold (fillConnection s L) cs (r, msgs, m) =
        (r, msgs, fold (\<lambda>con. mm_insert_all (channel_pairs con)) cs m)"
    by (induction cs arbitrary: m)
      (simp_all add: fillConnection_spec(2) [OF assms] del: fillConnection.simps)
qed

lemma set_fold_pairs:
  "set (fold (\<lambda>con. mm_insert_all (channel_pairs con)) cs m) =
     (\<Union>con \<in> set cs. set (channel_pairs con)) \<union> set m"
  by (induction cs arbitrary: m) auto

lemma sorted_fold_pairs:
  "sorted (map fst m) \<Longrightarrow>
   sorted (map fst (fold (\<lambda>con. mm_insert_all (channel_pairs con)) cs m))"
  by (induction cs arbitrary: m) (auto simp: sorted_mm_insert_all)

text \<open>
  Success of the collection: it returns true exactly if every connection of every visited
  composite is valid, writes no message then, and the map gains the channel pairs of all these
  connections.
\<close>

definition visited :: "store \<Rightarrow> hier \<Rightarrow> bool \<Rightarrow> hier list" where
  "visited s t recursive = (if recursive then composites s t
     else if c_composite (comp s (root t)) then [t] else [])"

definition valid_in :: "store \<Rightarrow> hier list \<Rightarrow> bool" where
  "valid_in s us \<longleftrightarrow> (\<forall>u \<in> set us. \<forall>con \<in> set (c_audioConnections (comp s (root u))). valid_connection s u con)"

lemma valid_in_simps [simp]:
  "valid_in s []"
  "valid_in s (us @ vs) \<longleftrightarrow> valid_in s us \<and> valid_in s vs"
  "valid_in s (u # us) \<longleftrightarrow>
     (\<forall>con \<in> set (c_audioConnections (comp s (root u))). valid_connection s u con) \<and> valid_in s us"
  "valid_in s (concat uss) \<longleftrightarrow> (\<forall>us \<in> set uss. valid_in s us)"
  by (auto simp: valid_in_def)

definition map_extends :: "store \<Rightarrow> hier list \<Rightarrow> message list \<Rightarrow> acmap \<Rightarrow> bool \<times> message list \<times> acmap \<Rightarrow> bool" where
  "map_extends s us msgs m st \<longleftrightarrow>
     fst st \<and> fst (snd st) = msgs \<and> set (snd (snd st)) = connections_in s (set us) \<union> set m \<and>
     (sorted (map fst m) \<longrightarrow> sorted (map fst (snd (snd st))))"

lemma map_extends_trans:
  "\<lbrakk>map_extends s us msgs m (r, msgs', m'); map_extends s vs msgs' m' st\<rbrakk> \<Longrightarrow>
   map_extends s (us @ vs) msgs m st"
  by (auto simp: map_extends_def connections_in_def)

lemma map_extends_fold:
  assumes "\<And>t r msgs m. t \<in> set ts \<Longrightarrow> map_extends s (f t) msgs m (g t (True, msgs, m))"
  shows "map_extends s (concat (map f ts)) msgs m
    (fold (\<lambda>t st. if fst st then g t st else st) ts (True, msgs, m))"
  using assms
proof (induction ts arbitrary: msgs m)
  case Nil
  show ?case by (simp add: map_extends_def connections_in_def)
next
  case (Cons t ts)
  obtain r' msgs' m' where f: "g t (True, msgs, m) = (r', msgs', m')" by (metis prod_cases3)
  have 1: "map_extends s (f t) msgs m (r', msgs', m')" using Cons.prems [of t] f by (metis list.set_intros(1))
  then have r: "r'" by (simp add: map_extends_def)
  have 2: "map_extends s (concat (map f ts)) msgs' m'
      (fold (\<lambda>t st. if fst st then g t st else st) ts (r', msgs', m'))"
    using Cons.IH Cons.prems r by simp
  show ?case using map_extends_trans [OF 1 2] f by simp
qed

lemma fold_and_fail:
  assumes "\<exists>t \<in> set ts. \<forall>st. fst st \<longrightarrow> \<not> fst (g t st)"
  shows "\<not> fst (fold (\<lambda>t st. if fst st then g t st else st) ts st)"
proof -
  have stay: "\<not> fst st \<Longrightarrow> fold (\<lambda>t st. if fst st then g t st else st) us st = st" for us st
    by (induction us) auto
  show ?thesis using assms
  proof (induction ts arbitrary: st)
    case (Cons t ts)
    show ?case
    proof (cases "fst st \<and> fst (g t st)")
      case True
      obtain u where u: "u \<in> set (t # ts)" "\<forall>st. fst st \<longrightarrow> \<not> fst (g u st)" using Cons.prems by blast
      then have "u \<noteq> t" using True by metis
      then have "\<exists>t \<in> set ts. \<forall>st. fst st \<longrightarrow> \<not> fst (g t st)" using u by (metis set_ConsD)
      then show ?thesis using Cons.IH by simp
    next
      case False
      then show ?thesis using stay [of st ts] stay [of "g t st" ts] by auto
    qed
  qed simp
qed


lemma fillRecursive_local:
  assumes "c_composite (comp s c)"
    and st_def: "st = fold (fillConnection s (audioPortLookup s (Hier c ts) False))
             (c_audioConnections (comp s c)) (True, msgs, m)"
  shows "fst st \<longleftrightarrow> valid_in s [Hier c ts]"
    and "valid_in s [Hier c ts] \<Longrightarrow> map_extends s [Hier c ts] msgs m st"
proof -
  have L: "set (mAllNonPlaceholderSendPorts (audioPortLookup s (Hier c ts) False)) = local_senders s (Hier c ts)"
      "set (mAllNonPlaceholderReceivePorts (audioPortLookup s (Hier c ts) False)) = local_receivers s (Hier c ts)"
    using local_tables [of s "Hier c ts"] assms(1) by simp_all
  show "fst st \<longleftrightarrow> valid_in s [Hier c ts]"
    unfolding st_def using fold_fillConnection(1) [OF L] by simp
  show "map_extends s [Hier c ts] msgs m st" if "valid_in s [Hier c ts]"
    unfolding st_def using that fold_fillConnection(2) [OF L]
    by (simp add: map_extends_def connections_in_def set_fold_pairs sorted_fold_pairs)
qed

lemma fillRecursive_valid:
  "valid_in s (visited s t recursive) \<Longrightarrow>
     map_extends s (visited s t recursive) msgs m (fillRecursive s t recursive (True, msgs, m))"
proof (induction t arbitrary: recursive msgs m)
  case (Hier c ts)
  show ?case
  proof (cases "c_composite (comp s c)")
    case False
    then show ?thesis by (simp add: visited_def map_extends_def connections_in_def)
  next
    case True
    define st where "st = fold (fillConnection s (audioPortLookup s (Hier c ts) False))
             (c_audioConnections (comp s c)) (True, msgs, m)"
    have "valid_in s [Hier c ts]" using Hier.prems True by (cases recursive) (simp_all add: visited_def)
    then have loc: "map_extends s [Hier c ts] msgs m st"
      by (rule fillRecursive_local(2) [OF True st_def])
    obtain r' msgs' m' where st: "st = (r', msgs', m')" by (metis prod_cases3)
    have r: "r'" using loc st by (simp add: map_extends_def)
    have unf: "fillRecursive s (Hier c ts) recursive (True, msgs, m) =
        (if recursive then fold (\<lambda>t st. if fst st then fillRecursive s t True st else st) ts st else st)"
      using True by (simp add: st_def Let_def)
    show ?thesis
    proof (cases recursive)
      case False
      then show ?thesis using unf loc True by (simp add: visited_def)
    next
      case rec: True
      have "map_extends s (concat (map (composites s) ts)) msgs' m'
          (fold (\<lambda>t st. if fst st then fillRecursive s t True st else st) ts (True, msgs', m'))"
      proof (rule map_extends_fold)
        fix t :: hier and q and k
        assume t: "t \<in> set ts"
        have "valid_in s (visited s t True)" using Hier.prems True rec t by (simp add: visited_def)
        then show "map_extends s (composites s t) q k (fillRecursive s t True (True, q, k))"
          using Hier.IH [OF t, of True q k] by (simp add: visited_def)
      qed
      then have "map_extends s ([Hier c ts] @ concat (map (composites s) ts)) msgs m
          (fold (\<lambda>t st. if fst st then fillRecursive s t True st else st) ts st)"
        using map_extends_trans [OF loc [unfolded st], of "concat (map (composites s) ts)"] st r by simp
      then show ?thesis using unf rec True by (simp add: visited_def)
    qed
  qed
qed

lemma fillRecursive_invalid:
  "\<not> valid_in s (visited s t recursive) \<Longrightarrow> \<not> fst (fillRecursive s t recursive (r, msgs, m))"
proof (induction t arbitrary: recursive r msgs m)
  case (Hier c ts)
  have True: "c_composite (comp s c)" using Hier.prems by (auto simp: visited_def split: if_splits)
  define st where "st = fold (fillConnection s (audioPortLookup s (Hier c ts) False))
             (c_audioConnections (comp s c)) (True, msgs, m)"
  have unf: "fillRecursive s (Hier c ts) recursive (r, msgs, m) =
      (if recursive then fold (\<lambda>t st. if fst st then fillRecursive s t True st else st) ts st else st)"
    using True by (simp add: st_def Let_def)
  have stay: "\<not> fst st \<Longrightarrow> fold (\<lambda>t st. if fst st then fillRecursive s t True st else st) us st = st" for us
    by (induction us) auto
  show ?case
  proof (cases "valid_in s [Hier c ts]")
    case False
    then have "\<not> fst st" using fillRecursive_local(1) [OF True st_def] by simp
    then show ?thesis using unf stay [of ts] by (cases recursive) simp_all
  next
    case loc: True
    then have rec: recursive and "\<not> valid_in s (concat (map (composites s) ts))"
      using Hier.prems True by (auto simp: visited_def split: if_splits)
    then obtain t where t: "t \<in> set ts" "\<not> valid_in s (visited s t True)" by (auto simp: visited_def)
    have "\<not> fst (fillRecursive s t True st')" for st'
      using Hier.IH [OF t] by (metis prod_cases3)
    then have "\<not> fst (fold (\<lambda>t st. if fst st then fillRecursive s t True st else st) ts st)"
      using t(1) by (intro fold_and_fail) blast
    then show ?thesis using unf rec by simp
  qed
qed

section \<open>Resolving placeholders\<close>

definition findReceiveChannel :: "acmap \<Rightarrow> audio_channel \<Rightarrow> (audio_channel \<times> audio_channel) option" where
  "findReceiveChannel m signal = List.find (\<lambda>entry. snd entry = signal) m"

text \<open>
  The loop that looks for the concrete sender. \<open>ph\<close> is \<open>isPlaceholderPort\<close> on channels, the
  trace holds the placeholder channels seen so far. The measure of its termination: the senders
  that are not in the trace, and whether the current one is.
\<close>

function resolve_loop ::
  "(audio_channel \<Rightarrow> bool) \<Rightarrow> acmap \<Rightarrow> audio_channel list \<Rightarrow> audio_channel \<times> audio_channel
   \<Rightarrow> exn + audio_channel" where
  "resolve_loop ph m connectionTrace findIt =
     (if \<not> ph (fst findIt) then Inr (fst findIt)
      else let trace' = connectionTrace @ [fst findIt]
           in case findReceiveChannel m (fst findIt) of
                None \<Rightarrow> Inl logic_error
              | Some e \<Rightarrow> if fst e \<in> set trace' then Inl invalid_argument
                          else resolve_loop ph m trace' e)"
  by pat_completeness auto

lemma findReceiveChannel_Some:
  "findReceiveChannel m ch = Some e \<Longrightarrow> e \<in> set m \<and> snd e = ch"
  by (auto simp: findReceiveChannel_def dest: find_SomeD)

termination resolve_loop
proof (relation "measure (\<lambda>(ph, m, trace, e).
      2 * card (insert (fst e) (fst ` set m) - set trace) + (if fst e \<in> set trace then 1 else 0))")
  fix ph :: "audio_channel \<Rightarrow> bool" and m :: acmap and trace trace' and e e' :: "audio_channel \<times> audio_channel"
  assume t: "trace' = trace @ [fst e]"
    and f: "findReceiveChannel m (fst e) = Some e'" and new: "fst e' \<notin> set trace'"
  let ?A = "insert (fst e) (fst ` set m) - set trace"
  let ?B = "insert (fst e') (fst ` set m) - set trace'"
  have "fst e' \<in> fst ` set m" using findReceiveChannel_Some [OF f] by blast
  then have B: "?B = fst ` set m - set trace'" by auto
  have sub: "?B \<subseteq> ?A" unfolding B unfolding t by auto
  have fin: "finite ?A" by simp
  have "2 * card ?B < 2 * card ?A + (if fst e \<in> set trace then 1 else 0)"
  proof (cases "fst e \<in> set trace")
    case True
    then show ?thesis using card_mono [OF fin sub] by simp
  next
    case False
    then have "?B \<subset> ?A" using sub t by auto
    then have "card ?B < card ?A" by (rule psubset_card_mono [OF fin])
    then show ?thesis by linarith
  qed
  then show "((ph, m, trace', e'), ph, m, trace, e) \<in> measure (\<lambda>(ph, m, trace, e).
      2 * card (insert (fst e) (fst ` set m) - set trace) + (if fst e \<in> set trace then 1 else 0))"
    using new by simp
qed simp

declare resolve_loop.simps [simp del]

definition placeholder_channel :: "store \<Rightarrow> audio_channel \<Rightarrow> bool" where
  "placeholder_channel s ch = isPlaceholderPort s (ap_parent (aport s (port ch)))"

definition resolve_entry ::
  "store \<Rightarrow> acmap \<Rightarrow> acmap \<Rightarrow> audio_channel \<times> audio_channel \<Rightarrow> exn + acmap" where
  "resolve_entry s m resolvedTable rawConnection =
     (if placeholder_channel s (snd rawConnection) then Inr resolvedTable
      else if \<not> placeholder_channel s (fst rawConnection)
      then Inr (mm_insert rawConnection resolvedTable)
      else case findReceiveChannel m (fst rawConnection) of
             None \<Rightarrow> Inl invalid_argument
           | Some e \<Rightarrow>
               bindE (resolve_loop (placeholder_channel s) m [fst rawConnection] e) (\<lambda>sender.
               Inr (mm_insert (sender, snd rawConnection) resolvedTable)))"

definition resolvePlaceholders :: "store \<Rightarrow> acmap \<Rightarrow> exn + acmap" where
  "resolvePlaceholders s m = foldE (resolve_entry s m) [] m"

section \<open>Correctness of the resolution\<close>

definition audio_sender_of :: "acmap \<Rightarrow> audio_channel \<Rightarrow> audio_channel option" where
  "audio_sender_of m ch = map_option fst (findReceiveChannel m ch)"

interpretation audio_table: connection_table "\<lambda>m :: acmap. set m" audio_sender_of
proof
  fix m :: acmap and r a
  show "audio_sender_of m r = Some a \<Longrightarrow> (a, r) \<in> set m"
    by (auto simp: audio_sender_of_def dest!: findReceiveChannel_Some)
  show "(a, r) \<in> set m \<Longrightarrow> \<exists>b. audio_sender_of m r = Some b"
    using find_SomeI [of "(a, r)" m "\<lambda>entry. snd entry = r"]
    by (auto simp: audio_sender_of_def findReceiveChannel_def)
qed simp

text \<open>The loop returns the concrete sender at the end of the chain.\<close>

lemma resolve_loop_sound:
  "resolve_loop ph m trace e = Inr a \<Longrightarrow> audio_sender_of m (snd e) = Some (fst e) \<Longrightarrow>
   \<exists>n. source_of ph (audio_sender_of m) a (snd e) n"
proof (induction ph m trace e rule: resolve_loop.induct)
  case (1 ph m trace e)
  show ?case
  proof (cases "ph (fst e)")
    case False
    then show ?thesis using 1(2,3) by (auto simp: resolve_loop.simps [of ph m trace e] intro: source_of.here)
  next
    case True
    with 1(2) obtain e' where e': "findReceiveChannel m (fst e) = Some e'"
      "fst e' \<notin> set (trace @ [fst e])" "resolve_loop ph m (trace @ [fst e]) e' = Inr a"
      by (auto simp: resolve_loop.simps [of ph m trace e] Let_def split: option.splits if_splits)
    have "snd e' = fst e" "audio_sender_of m (snd e') = Some (fst e')"
      using findReceiveChannel_Some [OF e'(1)] e'(1) by (auto simp: audio_sender_of_def)
    then have "\<exists>n. source_of ph (audio_sender_of m) a (fst e) n"
      using 1(1) [of "trace @ [fst e]" e'] True e' by auto
    then show ?thesis using 1(3) True by (auto intro: source_of.later)
  qed
qed

text \<open>
  There is no false alarm: where the chain ends at a concrete sender, the loop finds it. Every
  channel of the trace is a placeholder farther from the sender than the current one.
\<close>

lemma resolve_loop_complete:
  "\<lbrakk>source_of ph (audio_sender_of m) a (snd e) n; audio_sender_of m (snd e) = Some (fst e);
    \<forall>p \<in> set trace. ph p \<and> (\<exists>k \<ge> n. source_of ph (audio_sender_of m) a p k)\<rbrakk> \<Longrightarrow>
   resolve_loop ph m trace e = Inr a"
proof (induction n arbitrary: trace e)
  case 0
  from 0(1) show ?case
    by (rule source_of_0E) (use 0(2) in \<open>auto simp: resolve_loop.simps [of ph m trace e]\<close>)
next
  case (Suc n)
  from Suc(2) have p: "ph (fst e)" "source_of ph (audio_sender_of m) a (fst e) n"
    using Suc(3) by (auto elim: source_of_SucE)
  have "\<exists>b. audio_sender_of m (fst e) = Some b" using p(2) by cases auto
  then obtain e' where e': "findReceiveChannel m (fst e) = Some e'"
    by (auto simp: audio_sender_of_def)
  have s': "snd e' = fst e" "audio_sender_of m (snd e') = Some (fst e')"
    using findReceiveChannel_Some [OF e'] e' by (auto simp: audio_sender_of_def)
  have inv: "\<forall>p \<in> set (trace @ [fst e]). ph p \<and> (\<exists>k \<ge> n. source_of ph (audio_sender_of m) a p k)"
    using Suc(4) p by (auto dest: Suc_leD)
  have "fst e' \<notin> set (trace @ [fst e])"
  proof
    assume mem: "fst e' \<in> set (trace @ [fst e])"
    then obtain k where k: "k \<ge> n" "source_of ph (audio_sender_of m) a (fst e') k" "ph (fst e')"
      using inv by blast
    have "source_of ph (audio_sender_of m) a (fst e) (Suc k)"
      using source_of.later [of "audio_sender_of m" "fst e" "fst e'" ph a k] s' k by simp
    then show False using source_of_det [OF p(2)] k(1) by fastforce
  qed
  moreover have "resolve_loop ph m (trace @ [fst e]) e' = Inr a"
    using Suc.IH [of e' "trace @ [fst e]"] p(2) s' inv by simp
  ultimately show ?case using p(1) e' by (simp add: resolve_loop.simps [of ph m trace e] Let_def)
qed


text \<open>The whole table: no entry is lost, and each one ends at the channel it came from.\<close>

lemma resolve_entry_Inr:
  assumes e: "e \<in> set m" and u: "unique_sender (set m)"
  shows "resolve_entry s m r e = Inr r' \<longleftrightarrow>
    (if placeholder_channel s (snd e) then r' = r
     else \<exists>a. feeds (placeholder_channel s) (set m) a (snd e) \<and> r' = mm_insert (a, snd e) r)"
proof -
  let ?ph = "placeholder_channel s"
  have fs: "feeds ?ph (set m) a d \<longleftrightarrow> (\<exists>n. source_of ?ph (audio_sender_of m) a d n)" for a d
    by (rule audio_table.feeds_iff_source [OF u])
  have snd: "audio_sender_of m (snd e) = Some (fst e)"
    using audio_table.sender_of_unique [OF u] e by simp
  consider (ph) "?ph (snd e)" | (direct) "\<not> ?ph (snd e)" "\<not> ?ph (fst e)" | (chain) "\<not> ?ph (snd e)" "?ph (fst e)"
    by blast
  then show ?thesis
  proof cases
    case direct
    have "source_of ?ph (audio_sender_of m) (fst e) (snd e) 0" using snd direct by (intro source_of.here)
    then have "feeds ?ph (set m) a (snd e) \<longleftrightarrow> a = fst e" for a using fs source_of_det by metis
    then show ?thesis using direct by (auto simp: resolve_entry_def)
  next
    case chain
    have step: "feeds ?ph (set m) a (snd e) \<longleftrightarrow> feeds ?ph (set m) a (fst e)" for a
    proof
      assume "feeds ?ph (set m) a (snd e)"
      then obtain n where "source_of ?ph (audio_sender_of m) a (snd e) n" using fs by blast
      then show "feeds ?ph (set m) a (fst e)" using snd chain(2) fs by cases auto
    next
      assume "feeds ?ph (set m) a (fst e)"
      then show "feeds ?ph (set m) a (snd e)" using e chain(2) by (metis feeds.through prod.collapse)
    qed
    show ?thesis
    proof (cases "findReceiveChannel m (fst e)")
      case None
      then have "\<not> feeds ?ph (set m) a (fst e)" for a
        using fs by (auto simp: audio_sender_of_def elim: source_of.cases)
      then show ?thesis using chain None step by (simp add: resolve_entry_def)
    next
      case (Some e')
      have e': "snd e' = fst e" "audio_sender_of m (snd e') = Some (fst e')"
        using findReceiveChannel_Some [OF Some] Some by (auto simp: audio_sender_of_def)
      have "resolve_loop ?ph m [fst e] e' = Inr a \<longleftrightarrow> feeds ?ph (set m) a (fst e)" for a
      proof
        assume "resolve_loop ?ph m [fst e] e' = Inr a"
        then show "feeds ?ph (set m) a (fst e)" using resolve_loop_sound [OF _ e'(2)] fs e'(1) by auto
      next
        assume "feeds ?ph (set m) a (fst e)"
        then obtain n where n: "source_of ?ph (audio_sender_of m) a (snd e') n" using fs e'(1) by auto
        show "resolve_loop ?ph m [fst e] e' = Inr a"
          by (rule resolve_loop_complete [OF n e'(2)]) (use chain(2) n e'(1) in auto)
      qed
      then show ?thesis using chain Some step by (auto simp: resolve_entry_def)
    qed
  qed (auto simp: resolve_entry_def)
qed

section \<open>Properties\<close>

definition ex_raw :: acmap where
  "ex_raw = [(AudioChannel 10 0, AudioChannel 12 0), (AudioChannel 10 1, AudioChannel 12 1),
     (AudioChannel 12 0, AudioChannel 14 0), (AudioChannel 12 1, AudioChannel 14 1),
     (AudioChannel 13 0, AudioChannel 11 0), (AudioChannel 13 1, AudioChannel 11 1),
     (AudioChannel 15 0, AudioChannel 13 0), (AudioChannel 15 1, AudioChannel 13 1)]"

definition ex_resolved :: acmap where
  "ex_resolved = [(AudioChannel 10 0, AudioChannel 14 0), (AudioChannel 10 1, AudioChannel 14 1),
     (AudioChannel 15 0, AudioChannel 11 0), (AudioChannel 15 1, AudioChannel 11 1)]"

lemma ex_fill: "AudioConnectionMap ex_store ex_tree True = Inr ex_raw"
  by code_simp

lemma ex_resolve: "resolvePlaceholders ex_store ex_raw = Inr ex_resolved"
  by code_simp

lemma ex_raw_unique: "unique_sender (set ex_raw)"
  by (simp add: ex_raw_def unique_sender_def)

text \<open>
  C28 (AudioConnectionMap_spec): building the connection map of a signal flow succeeds exactly if
  every connection of every visited composite joins a sender to a receiver of that composite,
  with index lists of one length and within the widths of the ports; otherwise it throws
  \<open>std::invalid_argument\<close>. On success the map holds the channel pairs of exactly these
  connections, sorted by sender.
\<close>

theorem AudioConnectionMap_spec:
  "case AudioConnectionMap s t recursive of
     Inl e \<Rightarrow> e = invalid_argument \<and> \<not> valid_in s (visited s t recursive)
   | Inr m \<Rightarrow> valid_in s (visited s t recursive) \<and>
       set m = connections_in s (set (visited s t recursive)) \<and> sorted (map fst m)"
proof (cases "valid_in s (visited s t recursive)")
  case True
  obtain r msgs m where f: "fillRecursive s t recursive (True, [], []) = (r, msgs, m)" by (metis prod_cases3)
  show ?thesis
    using fillRecursive_valid [OF True, of "[]" "[]"] True f
    by (simp add: AudioConnectionMap_def map_extends_def)
next
  case False
  obtain r msgs m where f: "fillRecursive s t recursive (True, [], []) = (r, msgs, m)" by (metis prod_cases3)
  show ?thesis
    using fillRecursive_invalid [OF False, of True "[]" "[]"] False f by (simp add: AudioConnectionMap_def)
qed

text \<open>
  C17 (resolvePlaceholders_spec): if every channel of the map has at most one sender, resolving the
  placeholders succeeds exactly if every connection that ends at a concrete channel traces back to
  a concrete sender, and then the result connects a concrete sender to a concrete channel exactly
  if the full map does so through placeholders only; there is one entry for each connection that
  ends at a concrete channel.
\<close>

theorem resolvePlaceholders_spec:
  assumes "unique_sender (set m)"
  shows "case resolvePlaceholders s m of
      Inl _ \<Rightarrow> \<exists>e \<in> set m. \<not> placeholder_channel s (snd e) \<and>
                 (\<forall>a. \<not> feeds (placeholder_channel s) (set m) a (snd e))
    | Inr r \<Rightarrow> set r = {(a, d). feeds (placeholder_channel s) (set m) a d \<and> \<not> placeholder_channel s d} \<and>
        sorted (map fst r) \<and> length r = length (filter (\<lambda>e. \<not> placeholder_channel s (snd e)) m)"
proof (cases "resolvePlaceholders s m")
  case (Inl e)
  then show ?thesis
    using audio_table.resolve_table(2) [where f = "resolve_entry s m" and recv = snd and mk = Pair
        and ph = "placeholder_channel s" and es = m and r = "[]", OF assms resolve_entry_Inr [OF _ assms]]
    by (auto simp: resolvePlaceholders_def)
next
  case (Inr r)
  have "d \<in> snd ` set m" if "feeds (placeholder_channel s) (set m) a d" for a d
    using that by cases force+
  then show ?thesis
    using audio_table.resolve_table(1) [where f = "resolve_entry s m" and recv = snd and mk = Pair
        and ph = "placeholder_channel s" and es = m and r = "[]", OF assms resolve_entry_Inr [OF _ assms]] Inr
    by (auto simp: resolvePlaceholders_def)
qed

theorem resolvePlaceholders_spec_witness:
  "feeds (placeholder_channel ex_store) (set ex_raw) (AudioChannel 15 1) (AudioChannel 11 1)"
  using resolvePlaceholders_spec [OF ex_raw_unique, of ex_store] ex_resolve by (auto simp: ex_resolved_def)

end
