(* ===== verification/Parameter_Connections.thy ===== *)
theory Parameter_Connections
  imports Example_Flow Connection_Table
begin

text \<open>
  The parameter connections of a signal flow: collecting them from the hierarchy and resolving
  the placeholder ports (\<open>src/librrl/parameter_connection_map.cpp\<close>). The table is a multimap
  from the receiving to the sending port.
\<close>

type_synonym pcmap = "(nat \<times> nat) list"

section \<open>Collecting the connections\<close>

definition param_senders :: "store \<Rightarrow> hier \<Rightarrow> nat list" where
  "param_senders s t =
     fold (\<lambda>k acc. fold (\<lambda>p acc. if pp_direction (pport s p) = Input then acc else set_insert p acc)
                        (c_parameterPorts (comp s k)) acc)
       (map root (subs t))
       (fold (\<lambda>p acc. if pp_direction (pport s p) = Input then set_insert p acc else acc)
          (c_parameterPorts (comp s (root t))) [])"

definition param_receivers :: "store \<Rightarrow> hier \<Rightarrow> nat list" where
  "param_receivers s t =
     fold (\<lambda>k acc. fold (\<lambda>p acc. if pp_direction (pport s p) = Input then set_insert p acc else acc)
                        (c_parameterPorts (comp s k)) acc)
       (map root (subs t))
       (fold (\<lambda>p acc. if pp_direction (pport s p) = Input then acc else set_insert p acc)
          (c_parameterPorts (comp s (root t))) [])"

fun fillParameterConnection ::
  "store \<Rightarrow> nat list \<Rightarrow> nat list \<Rightarrow> bool \<times> message list \<times> pcmap \<Rightarrow> param_connection
   \<Rightarrow> exn + (bool \<times> message list \<times> pcmap)" where
  "fillParameterConnection s sendPorts receivePorts (result, messages, res) con =
     (if pc_sender con \<notin> set sendPorts
      then Inr (False, messages @ [SendPortNotFound (pc_sender con) (pc_receiver con)], res)
      else if pc_receiver con \<notin> set receivePorts
      then Inr (False, messages @ [ReceivePortNotFound (pc_sender con) (pc_receiver con)], res)
      else bindE (checkParameterPortCompatibility s (pc_sender con) (pc_receiver con) messages)
             (\<lambda>(ok, messages'). Inr (result \<and> ok, messages', mm_insert (pc_receiver con, pc_sender con) res)))"

fun fillParameterConnections ::
  "store \<Rightarrow> hier \<Rightarrow> bool \<times> message list \<times> pcmap \<Rightarrow> exn + (bool \<times> message list \<times> pcmap)" where
  "fillParameterConnections s (Hier c ts) (r0, messages, res) =
     (if \<not> c_composite (comp s c) then Inr (True, messages, res)
      else bindE (foldE (fillParameterConnection s (param_senders s (Hier c ts)) (param_receivers s (Hier c ts)))
                    (True, messages, res) (c_parameterConnections (comp s c)))
             (\<lambda>st. foldE (\<lambda>st t. if fst st then fillParameterConnections s t st else Inr st) st ts))"

definition valid_param_connection :: "store \<Rightarrow> hier \<Rightarrow> param_connection \<Rightarrow> bool" where
  "valid_param_connection s t con \<longleftrightarrow>
     pc_sender con \<in> set (param_senders s t) \<and> pc_receiver con \<in> set (param_receivers s t) \<and>
     compatible s (pc_sender con) (pc_receiver con)"

definition param_pairs :: "store \<Rightarrow> hier list \<Rightarrow> (nat \<times> nat) set" where
  "param_pairs s us = {(pc_receiver con, pc_sender con) | con u. u \<in> set us \<and> con \<in> set (c_parameterConnections (comp s (root u)))}"

definition valid_params :: "store \<Rightarrow> hier list \<Rightarrow> bool" where
  "valid_params s us \<longleftrightarrow> (\<forall>u \<in> set us. \<forall>con \<in> set (c_parameterConnections (comp s (root u))).
     valid_param_connection s u con)"

lemma valid_params_simps [simp]:
  "valid_params s []"
  "valid_params s (us @ vs) \<longleftrightarrow> valid_params s us \<and> valid_params s vs"
  "valid_params s (u # us) \<longleftrightarrow>
     (\<forall>con \<in> set (c_parameterConnections (comp s (root u))). valid_param_connection s u con) \<and> valid_params s us"
  "valid_params s (concat uss) \<longleftrightarrow> (\<forall>us \<in> set uss. valid_params s us)"
  by (auto simp: valid_params_def)

lemma set_param_senders:
  "set (param_senders s t) =
     {p \<in> set (c_parameterPorts (comp s (root t))). pp_direction (pport s p) = Input} \<union>
     {p. \<exists>u \<in> set (subs t). p \<in> set (c_parameterPorts (comp s (root u))) \<and> pp_direction (pport s p) = Output}"
proof -
  have neq: "pp_direction (pport s p) \<noteq> Input \<longleftrightarrow> pp_direction (pport s p) = Output" for p
    by (cases "pp_direction (pport s p)") auto
  have 1: "set (fold (\<lambda>p acc. if pp_direction (pport s p) = Input then set_insert p acc else acc) ps acc) =
      {p \<in> set ps. pp_direction (pport s p) = Input} \<union> set acc" for ps acc
    by (induction ps arbitrary: acc) auto
  have 2: "set (fold (\<lambda>p acc. if pp_direction (pport s p) = Input then acc else set_insert p acc) ps acc) =
      {p \<in> set ps. pp_direction (pport s p) = Output} \<union> set acc" for ps acc
    by (induction ps arbitrary: acc) (auto simp: neq)
  have 3: "set (fold (\<lambda>k acc. fold (\<lambda>p acc. if pp_direction (pport s p) = Input then acc else set_insert p acc)
                        (c_parameterPorts (comp s k)) acc) ks acc) =
      {p. \<exists>k \<in> set ks. p \<in> set (c_parameterPorts (comp s k)) \<and> pp_direction (pport s p) = Output} \<union> set acc" for ks acc
    by (induction ks arbitrary: acc) (auto simp: 2)
  show ?thesis unfolding param_senders_def 3 1 by auto
qed

text \<open>
  The result is true exactly if every connection met on the walk is valid; the walk throws only
  on a connection between existing ports whose configuration is missing.
\<close>

lemma fillParameterConnection_valid:
  "valid_param_connection s t con \<Longrightarrow>
   fillParameterConnection s (param_senders s t) (param_receivers s t) (r, msgs, m) con =
     Inr (r, msgs, mm_insert (pc_receiver con, pc_sender con) m)"
  using checkParameterPortCompatibility_True [of s "pc_sender con" "pc_receiver con" msgs msgs]
  by (auto simp: valid_param_connection_def)

lemma fillParameterConnection_invalid:
  "\<lbrakk>fillParameterConnection s (param_senders s t) (param_receivers s t) (r, msgs, m) con = Inr (r', msgs', m');
    r'\<rbrakk> \<Longrightarrow> r \<and> valid_param_connection s t con"
  using checkParameterPortCompatibility_True [of s "pc_sender con" "pc_receiver con" msgs, THEN iffD1]
  by (auto simp: valid_param_connection_def split: if_splits)

lemma foldE_fillParameterConnection_valid:
  "\<forall>con \<in> set cs. valid_param_connection s t con \<Longrightarrow>
   foldE (fillParameterConnection s (param_senders s t) (param_receivers s t)) (True, msgs, m) cs =
     Inr (True, msgs, mm_insert_all (map (\<lambda>con. (pc_receiver con, pc_sender con)) cs) m)"
  by (induction cs arbitrary: m)
    (simp_all add: fillParameterConnection_valid mm_insert_all_def del: fillParameterConnection.simps)

lemma foldE_fillParameterConnection_invalid:
  "\<lbrakk>foldE (fillParameterConnection s (param_senders s t) (param_receivers s t)) (r, msgs, m) cs = Inr (r', msgs', m');
    r'\<rbrakk> \<Longrightarrow> r \<and> (\<forall>con \<in> set cs. valid_param_connection s t con)"
proof (induction cs arbitrary: r msgs m)
  case (Cons con cs)
  then obtain st1 where
    1: "fillParameterConnection s (param_senders s t) (param_receivers s t) (r, msgs, m) con = Inr st1"
    and 2: "foldE (fillParameterConnection s (param_senders s t) (param_receivers s t)) st1 cs = Inr (r', msgs', m')"
    by (auto simp del: fillParameterConnection.simps)
  obtain r1 msgs1 m1 where st1: "st1 = (r1, msgs1, m1)" by (metis prod_cases3)
  then have "r1 \<and> (\<forall>con \<in> set cs. valid_param_connection s t con)" using Cons.IH 2 Cons.prems(2) by blast
  moreover have "r \<and> valid_param_connection s t con"
    using fillParameterConnection_invalid [OF 1 [unfolded st1]] calculation by simp
  ultimately show ?case by simp
qed simp

definition params_extend :: "store \<Rightarrow> hier list \<Rightarrow> message list \<Rightarrow> pcmap \<Rightarrow> exn + (bool \<times> message list \<times> pcmap) \<Rightarrow> bool" where
  "params_extend s us msgs m st \<longleftrightarrow> (\<exists>m'. st = Inr (True, msgs, m') \<and> set m' = param_pairs s us \<union> set m \<and>
     (sorted (map fst m) \<longrightarrow> sorted (map fst m')))"

lemma param_pairs_append [simp]: "param_pairs s (us @ vs) = param_pairs s us \<union> param_pairs s vs"
  by (auto simp: param_pairs_def)

lemma fillParameterConnections_valid:
  "valid_params s (composites s t) \<Longrightarrow>
   params_extend s (composites s t) msgs m (fillParameterConnections s t (True, msgs, m))"
proof (induction t arbitrary: m)
  case (Hier c ts)
  show ?case
  proof (cases "c_composite (comp s c)")
    case False
    then show ?thesis by (simp add: params_extend_def param_pairs_def)
  next
    case True
    let ?m1 = "mm_insert_all (map (\<lambda>con. (pc_receiver con, pc_sender con)) (c_parameterConnections (comp s c))) m"
    let ?g = "\<lambda>st t. if fst st then fillParameterConnections s t st else Inr st"
    have loc: "set ?m1 = param_pairs s [Hier c ts] \<union> set m"
      by (auto simp: param_pairs_def)
    have "params_extend s (concat (map (composites s) us)) msgs k (foldE ?g (True, msgs, k) us)"
      if "set us \<subseteq> set ts" for us k
      using that
    proof (induction us arbitrary: k)
      case Nil
      show ?case by (simp add: params_extend_def param_pairs_def)
    next
      case (Cons u us)
      have "u \<in> set ts" "valid_params s (composites s u)" using Cons.prems Hier.prems True by auto
      then obtain k' where k': "fillParameterConnections s u (True, msgs, k) = Inr (True, msgs, k')"
          "set k' = param_pairs s (composites s u) \<union> set k" "sorted (map fst k) \<longrightarrow> sorted (map fst k')"
        using Hier.IH [of u k] by (auto simp: params_extend_def)
      have "set us \<subseteq> set ts" using Cons.prems by simp
      from Cons.IH [OF this, of k'] obtain m' where m': "foldE ?g (True, msgs, k') us = Inr (True, msgs, m')"
          "set m' = param_pairs s (concat (map (composites s) us)) \<union> set k'"
          "sorted (map fst k') \<longrightarrow> sorted (map fst m')"
        unfolding params_extend_def by blast
      have "foldE ?g (True, msgs, k) (u # us) = Inr (True, msgs, m')" using k'(1) m'(1) by simp
      moreover have "set m' = param_pairs s (concat (map (composites s) (u # us))) \<union> set k"
        using m'(2) k'(2) by (simp add: Un_ac)
      ultimately show ?case using m'(3) k'(3) unfolding params_extend_def by blast
    qed
    from this [of ts ?m1] obtain m' where m': "foldE ?g (True, msgs, ?m1) ts = Inr (True, msgs, m')"
        "set m' = param_pairs s (concat (map (composites s) ts)) \<union> set ?m1"
        "sorted (map fst ?m1) \<longrightarrow> sorted (map fst m')"
      by (auto simp: params_extend_def)
    have "fillParameterConnections s (Hier c ts) (True, msgs, m) = Inr (True, msgs, m')"
      using True Hier.prems foldE_fillParameterConnection_valid [of "c_parameterConnections (comp s c)" s "Hier c ts" msgs m] m'(1)
      by (simp del: fillParameterConnection.simps)
    moreover have "set m' = param_pairs s (composites s (Hier c ts)) \<union> set m"
    proof -
      have "param_pairs s (composites s (Hier c ts)) =
          param_pairs s [Hier c ts] \<union> param_pairs s (concat (map (composites s) ts))"
        using True param_pairs_append [of s "[Hier c ts]" "concat (map (composites s) ts)"] by simp
      then show ?thesis unfolding m'(2) loc by blast
    qed
    moreover have "sorted (map fst m) \<longrightarrow> sorted (map fst m')"
      using m'(3) sorted_mm_insert_all by blast
    ultimately show ?thesis unfolding params_extend_def by blast
  qed
qed

lemma fillParameterConnections_invalid:
  "\<lbrakk>fillParameterConnections s t st = Inr (True, msgs', m')\<rbrakk> \<Longrightarrow> valid_params s (composites s t)"
proof (induction t arbitrary: st msgs' m')
  case (Hier c ts)
  show ?case
  proof (cases "c_composite (comp s c)")
    case True
    let ?g = "\<lambda>st t. if fst st then fillParameterConnections s t st else Inr st"
    obtain r msgs m where st: "st = (r, msgs, m)" by (metis prod_cases3)
    obtain st1 where 1: "foldE (fillParameterConnection s (param_senders s (Hier c ts)) (param_receivers s (Hier c ts)))
          (True, msgs, m) (c_parameterConnections (comp s c)) = Inr st1"
        and 2: "foldE ?g st1 ts = Inr (True, msgs', m')"
      using Hier.prems True st by (auto simp del: fillParameterConnection.simps)
    have stuck: "foldE ?g st us = Inr st" if "\<not> fst st" for st us using that by (induction us) auto
    have "fst st1 \<and> (\<forall>u \<in> set us. valid_params s (composites s u))"
      if "set us \<subseteq> set ts" "foldE ?g st1 us = Inr (True, msgs', m')" for us st1
      using that
    proof (induction us arbitrary: st1)
      case (Cons u us)
      show ?case
      proof (cases "fst st1")
        case False
        then show ?thesis using stuck [of st1 "u # us"] Cons.prems(2) by auto
      next
        case T: True
        then obtain st2 where st2: "fillParameterConnections s u st1 = Inr st2"
            "foldE ?g st2 us = Inr (True, msgs', m')" using Cons.prems(2) by auto
        have "fst st2 \<and> (\<forall>u \<in> set us. valid_params s (composites s u))"
          using Cons.IH Cons.prems(1) st2(2) by simp
        moreover have "valid_params s (composites s u)"
          using Hier.IH [of u st1 "fst (snd st2)" "snd (snd st2)"] Cons.prems(1) st2(1) calculation
          by (metis (full_types) list.set_intros(1) prod.collapse subsetD)
        ultimately show ?thesis using T by simp
      qed
    qed simp
    from this [of ts st1] have 3: "fst st1" "\<forall>u \<in> set ts. valid_params s (composites s u)" using 2 by auto
    have "\<forall>con \<in> set (c_parameterConnections (comp s c)). valid_param_connection s (Hier c ts) con"
      using foldE_fillParameterConnection_invalid [of s "Hier c ts" True msgs m
          "c_parameterConnections (comp s c)" "fst st1" "fst (snd st1)" "snd (snd st1)"] 1 3(1)
      by (cases st1) auto
    then show ?thesis using True 3(2) by simp
  qed simp
qed

section \<open>Resolving placeholders\<close>

text \<open>\<open>std::multimap::find\<close>; among equal keys, the first one in iteration order.\<close>

definition mm_find :: "pcmap \<Rightarrow> nat \<Rightarrow> (nat \<times> nat) option" where
  "mm_find m k = List.find (\<lambda>e. fst e = k) m"

text \<open>The counter is the second line of defence of the code against loops; here it ends the recursion.\<close>

function param_loop ::
  "(nat \<Rightarrow> bool) \<Rightarrow> pcmap \<Rightarrow> nat \<Rightarrow> nat \<Rightarrow> (nat \<times> nat) option \<Rightarrow> exn + nat" where
  "param_loop ph m recursionLimit recursionCount findIt =
     (case findIt of
        None \<Rightarrow> Inl invalid_argument
      | Some e \<Rightarrow>
          if \<not> ph (snd e) then Inr (snd e)
          else if Suc recursionCount \<ge> recursionLimit then Inl runtime_error
          else param_loop ph m recursionLimit (Suc recursionCount) (mm_find m (snd e)))"
  by pat_completeness auto

termination param_loop
  by (relation "measure (\<lambda>(ph, m, limit, count, e). limit - count)") auto

declare param_loop.simps [simp del]

definition placeholder_param :: "store \<Rightarrow> nat \<Rightarrow> bool" where
  "placeholder_param s p = isPlaceholderPort s (pp_parent (pport s p))"

definition resolve_param_entry :: "store \<Rightarrow> pcmap \<Rightarrow> pcmap \<Rightarrow> nat \<times> nat \<Rightarrow> exn + pcmap" where
  "resolve_param_entry s fullConnections flatConnections rawConnection =
     (if placeholder_param s (fst rawConnection) then Inr flatConnections
      else if \<not> placeholder_param s (snd rawConnection) then Inr (mm_insert rawConnection flatConnections)
      else bindE (param_loop (placeholder_param s) fullConnections (length fullConnections) 1
                    (mm_find fullConnections (snd rawConnection)))
             (\<lambda>snder. Inr (mm_insert (fst rawConnection, snder) flatConnections)))"

definition resolveParameterPlaceholders :: "store \<Rightarrow> pcmap \<Rightarrow> exn + pcmap" where
  "resolveParameterPlaceholders s fullConnections =
     foldE (resolve_param_entry s fullConnections) [] fullConnections"

definition param_sender_of :: "pcmap \<Rightarrow> nat \<Rightarrow> nat option" where
  "param_sender_of m p = map_option snd (mm_find m p)"

lemma mm_find_Some: "mm_find m k = Some e \<Longrightarrow> e \<in> set m \<and> fst e = k"
  by (auto simp: mm_find_def dest: find_SomeD)

interpretation param_table: connection_table "\<lambda>m :: pcmap. (set m)\<inverse>" param_sender_of
proof
  fix m :: pcmap and r a
  show "param_sender_of m r = Some a \<Longrightarrow> (a, r) \<in> (set m)\<inverse>"
    by (auto simp: param_sender_of_def dest!: mm_find_Some)
  show "(a, r) \<in> (set m)\<inverse> \<Longrightarrow> \<exists>b. param_sender_of m r = Some b"
    using find_SomeI [of "(r, a)" m "\<lambda>e. fst e = r"]
    by (auto simp: param_sender_of_def mm_find_def)
qed simp

lemma param_loop_sound:
  "param_loop ph m lim k (mm_find m d) = Inr a \<Longrightarrow> \<exists>n. source_of ph (param_sender_of m) a d n"
proof (induction "lim - k" arbitrary: k d rule: less_induct)
  case less
  then obtain e where e: "mm_find m d = Some e"
    by (auto simp: param_loop.simps [of ph m lim k] split: option.splits)
  then have s: "param_sender_of m d = Some (snd e)" by (simp add: param_sender_of_def)
  show ?case
  proof (cases "ph (snd e)")
    case False
    then show ?thesis using less(2) e s source_of.here [of "param_sender_of m" d a ph]
      by (auto simp: param_loop.simps [of ph m lim k])
  next
    case True
    then have "Suc k < lim" "param_loop ph m lim (Suc k) (mm_find m (snd e)) = Inr a"
      using less(2) e by (auto simp: param_loop.simps [of ph m lim k] split: if_splits)
    then have "\<exists>n. source_of ph (param_sender_of m) a (snd e) n" using less(1) [of "Suc k"] by simp
    then show ?thesis using source_of.later [of "param_sender_of m", OF s, of ph] True by blast
  qed
qed

lemma param_loop_complete:
  "source_of ph (param_sender_of m) a d n \<Longrightarrow> k + n < lim \<Longrightarrow>
   param_loop ph m lim k (mm_find m d) = Inr a"
proof (induction arbitrary: k rule: source_of.induct)
  case (here d a)
  then show ?case by (auto simp: param_sender_of_def param_loop.simps [of ph m lim k])
next
  case (later d p a n)
  then show ?case using later.IH [of "Suc k"]
    by (auto simp: param_sender_of_def param_loop.simps [of ph m lim k])
qed

text \<open>
  The limit of the code is never reached without a loop: the placeholders between a concrete
  receiver and its sender are the receivers of different entries, and the entry of the concrete
  receiver is one more.
\<close>

lemma param_depth_limit:
  assumes e: "(r, p) \<in> set m" "\<not> ph r" "ph p" and src: "source_of ph (param_sender_of m) a p n"
  shows "1 + n < length m"
proof -
  have sub: "set (follow (param_sender_of m) p n) \<subseteq> fst ` set m"
  proof
    fix x assume "x \<in> set (follow (param_sender_of m) p n)"
    then obtain b where "param_sender_of m x = Some b" using follow_dom [OF src] by metis
    then show "x \<in> fst ` set m" by (auto simp: param_sender_of_def dest!: mm_find_Some)
  qed
  have phs: "x \<in> set (follow (param_sender_of m) p n) \<Longrightarrow> ph x" for x
    using src e(3) by (induction arbitrary: x rule: source_of.induct) auto
  have "r \<in> fst ` set m" "r \<notin> set (follow (param_sender_of m) p n)" using e phs by force+
  then have "insert r (set (follow (param_sender_of m) p n)) \<subseteq> fst ` set m" using sub by auto
  then have "card (insert r (set (follow (param_sender_of m) p n))) \<le> card (fst ` set m)"
    by (intro card_mono) simp_all
  moreover have "card (set (follow (param_sender_of m) p n)) = Suc n"
    using follow_distinct [OF src] by (simp add: distinct_card)
  moreover have "card (fst ` set m) \<le> length m"
    by (metis card_length length_map list.set_map)
  ultimately show ?thesis using \<open>r \<notin> _\<close> by simp
qed

lemma resolve_param_entry_Inr:
  assumes e: "e \<in> set m" and u: "unique_sender ((set m)\<inverse>)"
  shows "resolve_param_entry s m r e = Inr r' \<longleftrightarrow>
    (if placeholder_param s (fst e) then r' = r
     else \<exists>a. feeds (placeholder_param s) ((set m)\<inverse>) a (fst e) \<and> r' = mm_insert (fst e, a) r)"
proof -
  let ?ph = "placeholder_param s"
  have fs: "feeds ?ph ((set m)\<inverse>) a d \<longleftrightarrow> (\<exists>n. source_of ?ph (param_sender_of m) a d n)" for a d
    by (rule param_table.feeds_iff_source [OF u])
  have snd: "param_sender_of m (fst e) = Some (snd e)"
    using param_table.sender_of_unique [OF u] e by simp
  consider (ph) "?ph (fst e)" | (direct) "\<not> ?ph (fst e)" "\<not> ?ph (snd e)" | (chain) "\<not> ?ph (fst e)" "?ph (snd e)"
    by blast
  then show ?thesis
  proof cases
    case direct
    have "source_of ?ph (param_sender_of m) (snd e) (fst e) 0" using snd direct by (intro source_of.here)
    then have "feeds ?ph ((set m)\<inverse>) a (fst e) \<longleftrightarrow> a = snd e" for a using fs source_of_det by metis
    then show ?thesis using direct by (auto simp: resolve_param_entry_def)
  next
    case chain
    have step: "feeds ?ph ((set m)\<inverse>) a (fst e) \<longleftrightarrow> (\<exists>n. source_of ?ph (param_sender_of m) a (snd e) n)" for a
    proof
      assume "feeds ?ph ((set m)\<inverse>) a (fst e)"
      then obtain n where "source_of ?ph (param_sender_of m) a (fst e) n" using fs by blast
      then show "\<exists>n. source_of ?ph (param_sender_of m) a (snd e) n" using snd chain(2) by cases auto
    next
      assume "\<exists>n. source_of ?ph (param_sender_of m) a (snd e) n"
      then show "feeds ?ph ((set m)\<inverse>) a (fst e)" using fs source_of.later [of "param_sender_of m", OF snd, of ?ph] chain(2) by blast
    qed
    have "param_loop ?ph m (length m) 1 (mm_find m (snd e)) = Inr a \<longleftrightarrow>
        (\<exists>n. source_of ?ph (param_sender_of m) a (snd e) n)" for a
    proof
      assume "\<exists>n. source_of ?ph (param_sender_of m) a (snd e) n"
      then obtain n where n: "source_of ?ph (param_sender_of m) a (snd e) n" by blast
      have "1 + n < length m" using param_depth_limit [of "fst e" "snd e" m ?ph] e chain n by simp
      then show "param_loop ?ph m (length m) 1 (mm_find m (snd e)) = Inr a"
        by (rule param_loop_complete [OF n])
    qed (rule param_loop_sound)
    then show ?thesis using chain step by (auto simp: resolve_param_entry_def)
  qed (auto simp: resolve_param_entry_def)
qed

section \<open>Properties\<close>

lemma set_param_receivers:
  "set (param_receivers s t) =
     {p \<in> set (c_parameterPorts (comp s (root t))). pp_direction (pport s p) = Output} \<union>
     {p. \<exists>u \<in> set (subs t). p \<in> set (c_parameterPorts (comp s (root u))) \<and> pp_direction (pport s p) = Input}"
proof -
  have neq: "pp_direction (pport s p) \<noteq> Input \<longleftrightarrow> pp_direction (pport s p) = Output" for p
    by (cases "pp_direction (pport s p)") auto
  have 1: "set (fold (\<lambda>p acc. if pp_direction (pport s p) = Input then set_insert p acc else acc) ps acc) =
      {p \<in> set ps. pp_direction (pport s p) = Input} \<union> set acc" for ps acc
    by (induction ps arbitrary: acc) auto
  have 2: "set (fold (\<lambda>p acc. if pp_direction (pport s p) = Input then acc else set_insert p acc) ps acc) =
      {p \<in> set ps. pp_direction (pport s p) = Output} \<union> set acc" for ps acc
    by (induction ps arbitrary: acc) (auto simp: neq)
  have 3: "set (fold (\<lambda>k acc. fold (\<lambda>p acc. if pp_direction (pport s p) = Input then set_insert p acc else acc)
                        (c_parameterPorts (comp s k)) acc) ks acc) =
      {p. \<exists>k \<in> set ks. p \<in> set (c_parameterPorts (comp s k)) \<and> pp_direction (pport s p) = Input} \<union> set acc" for ks acc
    by (induction ks arbitrary: acc) (auto simp: 1)
  show ?thesis unfolding param_receivers_def 3 2 by auto
qed

definition ex_params :: pcmap where "ex_params = [(21, 20), (22, 21)]"

lemma ex_fill_params: "fillParameterConnections ex_store ex_tree (True, [], []) = Inr (True, [], ex_params)"
  by code_simp

lemma ex_params_unique: "unique_sender ((set ex_params)\<inverse>)"
  by (simp add: ex_params_def unique_sender_def)

lemma ex_resolve_params: "resolveParameterPlaceholders ex_store ex_params = Inr [(22, 20)]"
  by code_simp

text \<open>
  C29 (fillParameterConnections_spec): collecting the parameter connections returns true exactly
  if every connection of every composite of the hierarchy leads from a parameter sender to a
  parameter receiver of that composite, the two ports agree in protocol and parameter type, and the
  configuration of the sender accepts that of the receiver (an equal one, or any one if the sender has a
  configuration for interpolation parameters); then no message is written and the table gains exactly these connections,
  sorted by receiver.
\<close>

theorem fillParameterConnections_spec:
  "(\<exists>msgs' m'. fillParameterConnections s t (True, msgs, m) = Inr (True, msgs', m')) =
     valid_params s (composites s t) \<and>
   (\<forall>msgs' m'. fillParameterConnections s t (True, msgs, m) = Inr (True, msgs', m') \<longrightarrow>
      msgs' = msgs \<and> set m' = param_pairs s (composites s t) \<union> set m \<and>
      (sorted (map fst m) \<longrightarrow> sorted (map fst m')))"
proof (cases "valid_params s (composites s t)")
  case True
  then obtain k where k: "fillParameterConnections s t (True, msgs, m) = Inr (True, msgs, k)"
      "set k = param_pairs s (composites s t) \<union> set m" "sorted (map fst m) \<longrightarrow> sorted (map fst k)"
    using fillParameterConnections_valid [OF True, of msgs m] unfolding params_extend_def by blast
  show ?thesis unfolding k(1) using k(2,3) True by simp
next
  case False
  then show ?thesis using fillParameterConnections_invalid [of s t "(True, msgs, m)"] by blast
qed

theorem fillParameterConnections_spec_witness:
  "set ex_params = param_pairs ex_store (composites ex_store ex_tree)"
  using fillParameterConnections_spec [of ex_store ex_tree "[]" "[]"] ex_fill_params by simp

text \<open>
  C27 (resolveParameterPlaceholders_spec): if every receiving port has one sender, the resolution
  of the parameter connections succeeds exactly if every connection to a concrete port traces
  back to a concrete sender, so its limit on the number of steps raises no false alarm, and the
  result holds exactly the pairs of a concrete receiver and the concrete sender that feeds it
  through placeholders.
\<close>

theorem resolveParameterPlaceholders_spec:
  assumes "unique_sender ((set m)\<inverse>)"
  shows "case resolveParameterPlaceholders s m of
      Inl _ \<Rightarrow> \<exists>e \<in> set m. \<not> placeholder_param s (fst e) \<and>
                 (\<forall>a. \<not> feeds (placeholder_param s) ((set m)\<inverse>) a (fst e))
    | Inr r \<Rightarrow> set r = {(d, a). feeds (placeholder_param s) ((set m)\<inverse>) a d \<and> \<not> placeholder_param s d} \<and>
        sorted (map fst r) \<and> length r = length (filter (\<lambda>e. \<not> placeholder_param s (fst e)) m)"
proof -
  note table = param_table.resolve_table [where f = "resolve_param_entry s m" and recv = fst
      and mk = "\<lambda>a d. (d, a)" and ph = "placeholder_param s" and es = m and r = "[]",
      OF assms resolve_param_entry_Inr [OF _ assms]]
  show ?thesis
  proof (cases "resolveParameterPlaceholders s m")
    case (Inl e)
    then show ?thesis using table(2) by (auto simp: resolveParameterPlaceholders_def)
  next
    case (Inr r)
    have "d \<in> fst ` set m" if "feeds (placeholder_param s) ((set m)\<inverse>) a d" for a d
      using that by cases force+
    then show ?thesis using table(1) [of r] Inr by (auto simp: resolveParameterPlaceholders_def)
  qed
qed

theorem resolveParameterPlaceholders_spec_witness:
  "feeds (placeholder_param ex_store) ((set ex_params)\<inverse>) 20 22"
  using resolveParameterPlaceholders_spec [OF ex_params_unique, of ex_store] ex_resolve_params by auto

end
