(* ===== verification/Scheduling.thy ===== *)
theory Scheduling
  imports Audio_Connections Parameter_Connections
begin

text \<open>
  The execution order of the atomic components (\<open>src/librrl/scheduling_graph.cpp\<close>): the graph of
  their dependencies, with an artificial source and an artificial sink, and its topological
  order. The graph algorithms of Boost are parameters of the model.
\<close>

section \<open>The dependency graph\<close>

datatype node_type = Source | Sink | Processor

datatype processing_node = ProcessingNode (n_type: node_type) (n_node: "nat option")

fun type_rank :: "node_type \<Rightarrow> nat" where
  "type_rank Source = 0"
| "type_rank Sink = 1"
| "type_rank Processor = 2"

text \<open>The order of \<open>std::tuple\<close>: by type, then by address, the null pointer first.\<close>

definition node_key :: "processing_node \<Rightarrow> nat \<times> nat" where
  "node_key n = (type_rank (n_type n), case n_node n of None \<Rightarrow> 0 | Some c \<Rightarrow> Suc c)"

lemma type_rank_inj: "type_rank a = type_rank b \<Longrightarrow> a = b"
  by (cases a; cases b) auto

lemma node_key_inj: "node_key a = node_key b \<Longrightarrow> a = b"
  by (cases a; cases b) (auto simp: node_key_def type_rank_inj split: option.splits)

instantiation processing_node :: linorder
begin

definition less_processing_node :: "processing_node \<Rightarrow> processing_node \<Rightarrow> bool" where
  "a < b \<longleftrightarrow> fst (node_key a) < fst (node_key b) \<or>
     fst (node_key a) = fst (node_key b) \<and> snd (node_key a) < snd (node_key b)"

definition less_eq_processing_node :: "processing_node \<Rightarrow> processing_node \<Rightarrow> bool" where
  "a \<le> b \<longleftrightarrow> fst (node_key a) < fst (node_key b) \<or>
     fst (node_key a) = fst (node_key b) \<and> snd (node_key a) \<le> snd (node_key b)"

instance
proof
  fix a b :: processing_node
  assume "a \<le> b" "b \<le> a"
  then have "node_key a = node_key b" by (auto simp: less_eq_processing_node_def prod_eq_iff)
  then show "a = b" by (rule node_key_inj)
qed (auto simp: less_processing_node_def less_eq_processing_node_def)

end

fun collectAllComponents :: "store \<Rightarrow> hier \<Rightarrow> nat list" where
  "collectAllComponents s (Hier c ts) =
     (if c_composite (comp s c) then concat (map (collectAllComponents s) ts) else [c])"

record sched_graph =
  mNodes :: "processing_node list"
  mEdges :: "(nat \<times> nat) list"
  mVertexLookup :: "(processing_node \<times> nat) list"
  mSourceVertex :: nat
  mSinkVertex :: nat

text \<open>\<open>add_vertex\<close>, the node of the vertex and its entry in the lookup table.\<close>

definition addNode :: "processing_node \<Rightarrow> sched_graph \<Rightarrow> sched_graph" where
  "addNode n g = g\<lparr>mNodes := mNodes g @ [n],
                   mVertexLookup := map_put n (length (mNodes g)) (mVertexLookup g)\<rparr>"

text \<open>
  The exception for a duplicated edge is constructed but not thrown in the source, so a
  duplicate is added as a parallel edge. \<open>add_edge\<close> on this graph type always succeeds.
\<close>

definition insertDependencyEdge :: "nat \<Rightarrow> nat \<Rightarrow> sched_graph \<Rightarrow> sched_graph" where
  "insertDependencyEdge u v g = g\<lparr>mEdges := mEdges g @ [(u, v)]\<rparr>"

definition audio_owner :: "store \<Rightarrow> audio_channel \<Rightarrow> nat" where
  "audio_owner s ch = the (ap_parent (aport s (port ch)))"

definition param_owner :: "store \<Rightarrow> nat \<Rightarrow> nat" where
  "param_owner s p = the (pp_parent (pport s p))"

definition neighbours :: "store \<Rightarrow> acmap \<Rightarrow> pcmap \<Rightarrow> nat \<Rightarrow> nat list \<times> nat list" where
  "neighbours s connections parameterConnections atom =
     (let step = (\<lambda>sender receiver (preds, succs).
            if c_composite (comp s sender) then (preds, succs)
            else (if receiver = atom then set_insert sender preds else preds,
                  if sender = atom then set_insert receiver succs else succs))
      in fold (\<lambda>conn. step (param_owner s (snd conn)) (param_owner s (fst conn))) parameterConnections
           (fold (\<lambda>conn. step (audio_owner s (fst conn)) (audio_owner s (snd conn))) connections ([], [])))"

text \<open>
  The edges of one vertex. A predecessor without a vertex makes the source dereference the end
  iterator of the lookup table (its exception is not thrown either).
\<close>

definition connectVertex ::
  "store \<Rightarrow> acmap \<Rightarrow> pcmap \<Rightarrow> sched_graph \<Rightarrow> processing_node \<times> nat \<Rightarrow> exn + sched_graph" where
  "connectVertex s connections parameterConnections g atomVertex =
     (if n_type (fst atomVertex) = Source then Inr g
      else let (predecessors, successors) =
                 neighbours s connections parameterConnections (the (n_node (fst atomVertex)))
           in bindE (if predecessors = []
                     then Inr (insertDependencyEdge (mSourceVertex g) (snd atomVertex) g)
                     else foldE (\<lambda>g precAtom.
                            case map_of (mVertexLookup g) (ProcessingNode Processor (Some precAtom)) of
                              None \<Rightarrow> Inl undefined_behaviour
                            | Some u \<Rightarrow> Inr (insertDependencyEdge u (snd atomVertex) g)) g predecessors)
              (\<lambda>g. Inr (if successors = [] \<and> n_type (fst atomVertex) \<noteq> Sink
                        then insertDependencyEdge (snd atomVertex) (mSinkVertex g) g else g)))"

definition initialNodes :: "store \<Rightarrow> hier \<Rightarrow> sched_graph" where
  "initialNodes s flow =
     fold (\<lambda>atom. addNode (ProcessingNode Processor (Some atom))) (collectAllComponents s flow)
       (addNode (ProcessingNode Sink (Some (root flow)))
         (addNode (ProcessingNode Source None)
           \<lparr>mNodes = [], mEdges = [], mVertexLookup = [], mSourceVertex = 0, mSinkVertex = 1\<rparr>))"

definition initialise :: "store \<Rightarrow> hier \<Rightarrow> acmap \<Rightarrow> pcmap \<Rightarrow> exn + sched_graph" where
  "initialise s flow connections parameterConnections =
     (let g = initialNodes s flow
      in foldE (connectVertex s connections parameterConnections) g (mVertexLookup g))"

section \<open>The schedule\<close>

text \<open>
  \<open>boost::depth_first_visit\<close> from a vertex, with the visitor that records the back edges, and
  \<open>boost::topological_sort\<close>, both given the number of vertices and the edges. The latter writes
  the vertices in reverse topological order and throws \<open>boost::not_a_dag\<close>, a
  \<open>std::invalid_argument\<close>, if it meets a back edge.
\<close>

definition checkAcyclicGraph ::
  "(nat \<Rightarrow> (nat \<times> nat) list \<Rightarrow> nat \<Rightarrow> (nat \<times> nat) list) \<Rightarrow> sched_graph \<Rightarrow> bool \<times> (nat \<times> nat) list" where
  "checkAcyclicGraph back_edges g =
     (let backEdges = back_edges (length (mNodes g)) (mEdges g) (mSourceVertex g)
      in (backEdges = [], backEdges))"

definition sequentialSchedule ::
  "(nat \<Rightarrow> (nat \<times> nat) list \<Rightarrow> nat \<Rightarrow> (nat \<times> nat) list) \<Rightarrow>
   (nat \<Rightarrow> (nat \<times> nat) list \<Rightarrow> exn + nat list) \<Rightarrow> sched_graph \<Rightarrow> exn + nat list" where
  "sequentialSchedule back_edges topological_sort g =
     (if \<not> fst (checkAcyclicGraph back_edges g) then Inl invalid_argument
      else bindE (topological_sort (length (mNodes g)) (mEdges g)) (\<lambda>topoSort.
           if length topoSort \<noteq> length (mVertexLookup g) then Inl logic_error
           else Inr (concat (map (\<lambda>v. let proc = mNodes g ! v
                  in if n_type proc = Processor then [the (n_node proc)] else []) (rev topoSort)))))"

section \<open>The edges of the graph\<close>

text \<open>
  \<open>a\<close> sends to \<open>b\<close> over an audio or a parameter connection; connections from a composite (the
  external inputs of the flow) do not count.
\<close>

definition dependency :: "store \<Rightarrow> acmap \<Rightarrow> pcmap \<Rightarrow> (nat \<times> nat) set" where
  "dependency s A P = {(a, b). \<not> c_composite (comp s a) \<and>
     ((\<exists>(x, y) \<in> set A. audio_owner s x = a \<and> audio_owner s y = b) \<or>
      (\<exists>(r, p) \<in> set P. param_owner s p = a \<and> param_owner s r = b))}"

lemma set_neighbours:
  "set (fst (neighbours s A P atom)) = {a. (a, atom) \<in> dependency s A P}"
  "set (snd (neighbours s A P atom)) = {b. (atom, b) \<in> dependency s A P}"
proof -
  let ?step = "\<lambda>sender receiver (preds, succs).
            if c_composite (comp s sender) then (preds, succs)
            else (if receiver = atom then set_insert sender preds else preds,
                  if sender = atom then set_insert receiver succs else succs)"
  have f: "set (fst (fold (\<lambda>c. ?step (g c) (h c)) cs acc)) =
        {a. \<not> c_composite (comp s a) \<and> (\<exists>c \<in> set cs. g c = a \<and> h c = atom)} \<union> set (fst acc) \<and>
      set (snd (fold (\<lambda>c. ?step (g c) (h c)) cs acc)) =
        {b. \<not> c_composite (comp s atom) \<and> (\<exists>c \<in> set cs. g c = atom \<and> h c = b)} \<union> set (snd acc)"
    for g h :: "'c \<Rightarrow> nat" and cs acc
    by (induction cs arbitrary: acc) (auto split: prod.splits)
  show "set (fst (neighbours s A P atom)) = {a. (a, atom) \<in> dependency s A P}"
    "set (snd (neighbours s A P atom)) = {b. (atom, b) \<in> dependency s A P}"
    unfolding neighbours_def Let_def
    by (auto simp: f [of "\<lambda>c. param_owner s (snd c)" "\<lambda>c. param_owner s (fst c)"]
        f [of "\<lambda>c. audio_owner s (fst c)" "\<lambda>c. audio_owner s (snd c)"] dependency_def; force)+
qed

definition new_edges :: "store \<Rightarrow> acmap \<Rightarrow> pcmap \<Rightarrow> sched_graph \<Rightarrow> processing_node \<times> nat \<Rightarrow> (nat \<times> nat) list" where
  "new_edges s A P g e =
     (if n_type (fst e) = Source then []
      else let (preds, succs) = neighbours s A P (the (n_node (fst e)))
           in (if preds = [] then [(mSourceVertex g, snd e)]
               else map (\<lambda>a. (the (map_of (mVertexLookup g) (ProcessingNode Processor (Some a))), snd e)) preds) @
              (if succs = [] \<and> n_type (fst e) \<noteq> Sink then [(snd e, mSinkVertex g)] else []))"

lemma add_edges_loop:
  assumes "\<And>a. a \<in> set preds \<Longrightarrow> map_of (mVertexLookup g) (ProcessingNode Processor (Some a)) \<noteq> None"
  shows "foldE (\<lambda>g precAtom. case map_of (mVertexLookup g) (ProcessingNode Processor (Some precAtom)) of
              None \<Rightarrow> Inl undefined_behaviour
            | Some u \<Rightarrow> Inr (insertDependencyEdge u v g)) g preds =
     Inr (g\<lparr>mEdges := mEdges g @
       map (\<lambda>a. (the (map_of (mVertexLookup g) (ProcessingNode Processor (Some a))), v)) preds\<rparr>)"
  using assms
proof (induction preds arbitrary: g)
  case (Cons a preds)
  obtain u where u: "map_of (mVertexLookup g) (ProcessingNode Processor (Some a)) = Some u"
    using Cons.prems [of a] by auto
  show ?case using Cons.IH [of "insertDependencyEdge u v g"] Cons.prems u
    by (simp add: insertDependencyEdge_def)
qed simp

lemma connectVertex_edges:
  assumes "\<And>a. (a, the (n_node (fst e))) \<in> dependency s A P \<Longrightarrow>
      map_of (mVertexLookup g) (ProcessingNode Processor (Some a)) \<noteq> None"
  shows "connectVertex s A P g e = Inr (g\<lparr>mEdges := mEdges g @ new_edges s A P g e\<rparr>)"
proof (cases "n_type (fst e) = Source")
  case True
  then show ?thesis by (simp add: connectVertex_def new_edges_def)
next
  case False
  obtain ps ss where n: "neighbours s A P (the (n_node (fst e))) = (ps, ss)" by fastforce
  have "a \<in> set ps \<Longrightarrow> map_of (mVertexLookup g) (ProcessingNode Processor (Some a)) \<noteq> None" for a
    using assms set_neighbours(1) [of s A P "the (n_node (fst e))"] n by auto
  note loop = add_edges_loop [of ps g "snd e", OF this]
  show ?thesis using False n
    by (simp add: connectVertex_def new_edges_def Let_def loop) (simp add: insertDependencyEdge_def)
qed

lemma new_edges_mEdges [simp]: "new_edges s A P (g\<lparr>mEdges := E\<rparr>) = new_edges s A P g"
  by (auto simp: new_edges_def fun_eq_iff split: prod.splits)

lemma connect_all:
  assumes "\<And>e a. e \<in> set es \<Longrightarrow> (a, the (n_node (fst e))) \<in> dependency s A P \<Longrightarrow>
      map_of (mVertexLookup g) (ProcessingNode Processor (Some a)) \<noteq> None"
  shows "foldE (connectVertex s A P) g es = Inr (g\<lparr>mEdges := mEdges g @ concat (map (new_edges s A P g) es)\<rparr>)"
  using assms
proof (induction es arbitrary: g)
  case (Cons e es)
  let ?g = "g\<lparr>mEdges := mEdges g @ new_edges s A P g e\<rparr>"
  have "connectVertex s A P g e = Inr ?g" by (rule connectVertex_edges) (rule Cons.prems, simp_all)
  moreover have "map_of (mVertexLookup ?g) (ProcessingNode Processor (Some a)) \<noteq> None"
    if "e' \<in> set es" "(a, the (n_node (fst e'))) \<in> dependency s A P" for e' a
    using Cons.prems [OF _ that(2)] that(1) by simp
  note Cons.IH [of ?g, OF this]
  ultimately show ?case by simp
qed simp

section \<open>The vertices\<close>

text \<open>The lookup table inverts the list of nodes.\<close>

definition lookup_ok :: "sched_graph \<Rightarrow> bool" where
  "lookup_ok g \<longleftrightarrow> distinct (mNodes g) \<and> sorted_wrt (<) (map fst (mVertexLookup g)) \<and>
     (\<forall>n v. map_of (mVertexLookup g) n = Some v \<longleftrightarrow> v < length (mNodes g) \<and> mNodes g ! v = n)"

lemma lookup_ok_addNode:
  assumes "lookup_ok g" "n \<notin> set (mNodes g)"
  shows "lookup_ok (addNode n g)"
proof -
  have "map_of (map_put n (length (mNodes g)) (mVertexLookup g)) k = Some v \<longleftrightarrow>
      v < length (mNodes g @ [n]) \<and> (mNodes g @ [n]) ! v = k" for k v
    using assms unfolding lookup_ok_def
    by (auto simp: map_of_map_put nth_append less_Suc_eq)
  then show ?thesis using assms by (simp add: lookup_ok_def addNode_def sorted_map_put)
qed

lemma lookup_ok_fold:
  "\<lbrakk>lookup_ok g; distinct ns; set ns \<inter> set (mNodes g) = {}\<rbrakk> \<Longrightarrow> lookup_ok (fold addNode ns g)"
proof (induction ns arbitrary: g)
  case (Cons n ns)
  have "lookup_ok (addNode n g)" using Cons.prems by (intro lookup_ok_addNode) auto
  moreover have "set ns \<inter> set (mNodes (addNode n g)) = {}" using Cons.prems by (auto simp: addNode_def)
  ultimately show ?case using Cons.IH [of "addNode n g"] Cons.prems by simp
qed simp

lemma fold_addNode_fields:
  "mNodes (fold addNode ns g) = mNodes g @ ns" "mEdges (fold addNode ns g) = mEdges g"
  "mSourceVertex (fold addNode ns g) = mSourceVertex g" "mSinkVertex (fold addNode ns g) = mSinkVertex g"
  by (induction ns arbitrary: g) (simp_all add: addNode_def)

abbreviation all_nodes :: "store \<Rightarrow> hier \<Rightarrow> processing_node list" where
  "all_nodes s flow \<equiv> ProcessingNode Source None # ProcessingNode Sink (Some (root flow)) #
     map (\<lambda>a. ProcessingNode Processor (Some a)) (collectAllComponents s flow)"

lemma initialNodes_fields:
  "mNodes (initialNodes s flow) = all_nodes s flow" "mEdges (initialNodes s flow) = []"
  "mSourceVertex (initialNodes s flow) = 0" "mSinkVertex (initialNodes s flow) = 1"
proof -
  have "initialNodes s flow = fold addNode (all_nodes s flow)
      \<lparr>mNodes = [], mEdges = [], mVertexLookup = [], mSourceVertex = 0, mSinkVertex = 1\<rparr>"
    by (simp add: initialNodes_def fold_map o_def)
  then show "mNodes (initialNodes s flow) = all_nodes s flow" "mEdges (initialNodes s flow) = []"
    "mSourceVertex (initialNodes s flow) = 0" "mSinkVertex (initialNodes s flow) = 1"
    by (simp_all add: fold_addNode_fields addNode_def)
qed

lemma lookup_ok_initialNodes:
  assumes "distinct (collectAllComponents s flow)"
  shows "lookup_ok (initialNodes s flow)"
proof -
  have i: "initialNodes s flow = fold addNode (all_nodes s flow)
      \<lparr>mNodes = [], mEdges = [], mVertexLookup = [], mSourceVertex = 0, mSinkVertex = 1\<rparr>"
    by (simp add: initialNodes_def fold_map o_def)
  show ?thesis unfolding i
    by (rule lookup_ok_fold) (use assms in \<open>auto simp: lookup_ok_def distinct_map inj_on_def\<close>)
qed

lemma length_lookup:
  assumes "lookup_ok g"
  shows "length (mVertexLookup g) = length (mNodes g)"
proof -
  have d: "distinct (map fst (mVertexLookup g))" using assms by (simp add: lookup_ok_def strict_sorted_iff)
  have "fst ` set (mVertexLookup g) = set (mNodes g)"
    using assms unfolding lookup_ok_def
    by (metis (no_types, lifting) dom_map_of_conv_image_fst domIff in_set_conv_nth not_None_eq set_eq_iff)
  then have "set (map fst (mVertexLookup g)) = set (mNodes g)" by simp
  then show ?thesis using d assms by (metis distinct_card length_map lookup_ok_def)
qed

section \<open>The graph and the dependencies\<close>

text \<open>
  The conditions under which the graph is built from a hierarchy: its atoms are different
  objects, and every sender of a connection is one of them or a composite.
\<close>

definition schedulable :: "store \<Rightarrow> hier \<Rightarrow> acmap \<Rightarrow> pcmap \<Rightarrow> bool" where
  "schedulable s flow A P \<longleftrightarrow> distinct (collectAllComponents s flow) \<and>
     (\<forall>(x, y) \<in> set A. c_composite (comp s (audio_owner s x)) \<or> audio_owner s x \<in> set (collectAllComponents s flow)) \<and>
     (\<forall>(r, p) \<in> set P. c_composite (comp s (param_owner s p)) \<or> param_owner s p \<in> set (collectAllComponents s flow))"

lemma schedulable_sender:
  "schedulable s flow A P \<Longrightarrow> (a, b) \<in> dependency s A P \<Longrightarrow> a \<in> set (collectAllComponents s flow)"
  by (auto simp: schedulable_def dependency_def)

lemma initialise_edges:
  assumes ok: "schedulable s flow A P"
  defines "g0 \<equiv> initialNodes s flow"
  shows "initialise s flow A P =
    Inr (g0\<lparr>mEdges := concat (map (new_edges s A P g0) (mVertexLookup g0))\<rparr>)"
proof -
  have d: "distinct (collectAllComponents s flow)" using ok by (simp add: schedulable_def)
  have "map_of (mVertexLookup g0) (ProcessingNode Processor (Some a)) \<noteq> None"
    if "(a, b) \<in> dependency s A P" for a b
  proof -
    have "ProcessingNode Processor (Some a) \<in> set (mNodes g0)"
      using schedulable_sender [OF ok that] by (auto simp: g0_def initialNodes_fields)
    then obtain v where "v < length (mNodes g0)" "mNodes g0 ! v = ProcessingNode Processor (Some a)"
      by (auto simp: in_set_conv_nth)
    then show ?thesis using lookup_ok_initialNodes [OF d] by (auto simp: lookup_ok_def g0_def)
  qed
  then have "foldE (connectVertex s A P) g0 (mVertexLookup g0) =
      Inr (g0\<lparr>mEdges := mEdges g0 @ concat (map (new_edges s A P g0) (mVertexLookup g0))\<rparr>)"
    by (intro connect_all) blast
  then show ?thesis by (simp add: initialise_def Let_def g0_def initialNodes_fields)
qed

definition built_graph :: "store \<Rightarrow> hier \<Rightarrow> acmap \<Rightarrow> pcmap \<Rightarrow> sched_graph \<Rightarrow> bool" where
  "built_graph s flow A P g \<longleftrightarrow> schedulable s flow A P \<and> initialise s flow A P = Inr g"

abbreviation vtx :: "sched_graph \<Rightarrow> nat \<Rightarrow> nat" where
  "vtx g a \<equiv> the (map_of (mVertexLookup g) (ProcessingNode Processor (Some a)))"

abbreviation atom_at :: "sched_graph \<Rightarrow> nat \<Rightarrow> nat" where "atom_at g v \<equiv> the (n_node (mNodes g ! v))"

lemma built_schedulable: "built_graph s flow A P g \<Longrightarrow> schedulable s flow A P"
  by (simp add: built_graph_def)

lemma g_fields:
  assumes bg: "built_graph s flow A P g"
  shows "mNodes g = all_nodes s flow" "mSourceVertex g = 0" "mSinkVertex g = 1"
  "mVertexLookup g = mVertexLookup (initialNodes s flow)"
  "mEdges g = concat (map (new_edges s A P (initialNodes s flow)) (mVertexLookup g))"
  using bg initialise_edges [OF built_schedulable [OF bg]] by (auto simp: built_graph_def initialNodes_fields)

lemma look:
  assumes bg: "built_graph s flow A P g"
  shows "map_of (mVertexLookup g) n = Some v \<longleftrightarrow> v < length (mNodes g) \<and> mNodes g ! v = n"
  "sorted_wrt (<) (map fst (mVertexLookup g))" "distinct (mNodes g)"
  using lookup_ok_initialNodes [of s flow] built_schedulable [OF bg]
  by (auto simp: schedulable_def lookup_ok_def g_fields(1,4) [OF bg] initialNodes_fields)

lemma entry_iff:
  assumes bg: "built_graph s flow A P g"
  shows "(n, v) \<in> set (mVertexLookup g) \<longleftrightarrow> v < length (mNodes g) \<and> mNodes g ! v = n"
  using look(1) [OF bg] map_of_sorted_iff [OF look(2) [OF bg]] by metis

lemma vtx_atom:
  assumes bg: "built_graph s flow A P g" and a: "a \<in> set (collectAllComponents s flow)"
  shows "vtx g a < length (mNodes g)" "mNodes g ! vtx g a = ProcessingNode Processor (Some a)" "2 \<le> vtx g a"
proof -
  note gf = g_fields [OF bg]
  have "ProcessingNode Processor (Some a) \<in> set (mNodes g)" using a by (simp add: gf)
  then obtain v where v: "v < length (mNodes g)" "mNodes g ! v = ProcessingNode Processor (Some a)"
    by (auto simp: in_set_conv_nth)
  then have "map_of (mVertexLookup g) (ProcessingNode Processor (Some a)) = Some v"
    using look(1) [OF bg] by blast
  then have e: "vtx g a = v" by simp
  have "v \<noteq> 0" using v by (intro notI) (simp add: gf)
  moreover have "v \<noteq> 1" using v by (intro notI) (simp add: gf)
  ultimately have "2 \<le> v" by simp
  then show "vtx g a < length (mNodes g)" "mNodes g ! vtx g a = ProcessingNode Processor (Some a)" "2 \<le> vtx g a"
    using v e by auto
qed

lemma node_cases:
  assumes bg: "built_graph s flow A P g" and v: "v < length (mNodes g)"
  shows "v = 0 \<longleftrightarrow> n_type (mNodes g ! v) = Source" "v = 1 \<longleftrightarrow> n_type (mNodes g ! v) = Sink"
    and "2 \<le> v \<Longrightarrow> n_type (mNodes g ! v) = Processor \<and> atom_at g v \<in> set (collectAllComponents s flow) \<and>
      mNodes g ! v = ProcessingNode Processor (Some (atom_at g v))"
proof -
  note gf = g_fields [OF bg]
  have big: "\<exists>a \<in> set (collectAllComponents s flow). mNodes g ! v = ProcessingNode Processor (Some a)"
    if "2 \<le> v"
  proof -
    from that obtain i where "v = Suc (Suc i)" by (metis add_2_eq_Suc le_Suc_ex)
    then show ?thesis using v by (auto simp: gf(1))
  qed
  have "v = 0 \<or> v = 1 \<or> 2 \<le> v" by arith
  then show "v = 0 \<longleftrightarrow> n_type (mNodes g ! v) = Source" "v = 1 \<longleftrightarrow> n_type (mNodes g ! v) = Sink"
    using big by (auto simp: gf(1))
  show "n_type (mNodes g ! v) = Processor \<and> atom_at g v \<in> set (collectAllComponents s flow) \<and>
      mNodes g ! v = ProcessingNode Processor (Some (atom_at g v))" if "2 \<le> v"
    using big [OF that] by auto
qed

text \<open>Edges between atoms are the dependencies; no edge enters the source or leaves the sink.\<close>

lemma edge_shape:
  assumes bg: "built_graph s flow A P g" and e: "(u, v) \<in> set (mEdges g)"
  shows "u < length (mNodes g)" "v < length (mNodes g)" "v \<noteq> 0" "u \<noteq> 1"
    and "u \<noteq> 0 \<Longrightarrow> v \<noteq> 1 \<Longrightarrow> (atom_at g u, atom_at g v) \<in> dependency s A P"
proof -
  note gf = g_fields [OF bg]
  obtain n w where n: "(n, w) \<in> set (mVertexLookup g)" "(u, v) \<in> set (new_edges s A P (initialNodes s flow) (n, w))"
    using e unfolding gf(5) by auto
  have w: "w < length (mNodes g)" "mNodes g ! w = n" using n(1) entry_iff [OF bg] by auto
  have ns: "n_type n \<noteq> Source" using n(2) by (auto simp: new_edges_def)
  obtain ps ss where nb: "neighbours s A P (the (n_node n)) = (ps, ss)" by fastforce
  have ps: "a \<in> set ps \<longleftrightarrow> (a, the (n_node n)) \<in> dependency s A P" for a
    using set_neighbours(1) [of s A P "the (n_node n)"] nb by auto
  consider (src) "u = 0" "v = w" | (dep) a where "a \<in> set ps" "u = vtx g a" "v = w"
    | (snk) "u = w" "v = 1" "n_type n \<noteq> Sink"
    using n(2) ns nb by (auto simp: new_edges_def initialNodes_fields gf(4) split: if_splits)
  then have "u < length (mNodes g) \<and> v < length (mNodes g) \<and> v \<noteq> 0 \<and> u \<noteq> 1 \<and>
      (u \<noteq> 0 \<longrightarrow> v \<noteq> 1 \<longrightarrow> (atom_at g u, atom_at g v) \<in> dependency s A P)"
  proof cases
    case src
    then show ?thesis using w ns node_cases(1) [OF bg w(1)] by (auto simp: gf(1))
  next
    case (dep a)
    have a: "a \<in> set (collectAllComponents s flow)" using dep(1) ps schedulable_sender [OF built_schedulable [OF bg]] by blast
    show ?thesis using vtx_atom [OF bg a] dep w ns node_cases(1) [OF bg w(1)] ps by auto
  next
    case snk
    then show ?thesis using w ns node_cases [OF bg w(1)] by (auto simp: gf(1))
  qed
  then show "u < length (mNodes g)" "v < length (mNodes g)" "v \<noteq> 0" "u \<noteq> 1"
    "u \<noteq> 0 \<Longrightarrow> v \<noteq> 1 \<Longrightarrow> (atom_at g u, atom_at g v) \<in> dependency s A P" by auto
qed

lemma dependency_edge:
  assumes bg: "built_graph s flow A P g" and d: "(a, b) \<in> dependency s A P" and b: "b \<in> set (collectAllComponents s flow)"
  shows "(vtx g a, vtx g b) \<in> set (mEdges g)"
proof -
  note gf = g_fields [OF bg]
  let ?n = "ProcessingNode Processor (Some b)"
  obtain ps ss where nb: "neighbours s A P b = (ps, ss)" by fastforce
  have a: "a \<in> set ps" using set_neighbours(1) [of s A P b] nb d by auto
  have "(vtx g a, vtx g b) \<in> set (new_edges s A P (initialNodes s flow) (?n, vtx g b))"
    using a nb by (auto simp: new_edges_def gf(4))
  moreover have "(?n, vtx g b) \<in> set (mVertexLookup g)" using vtx_atom [OF bg b] entry_iff [OF bg] by auto
  ultimately show ?thesis by (subst gf(5)) force
qed

lemma path_dependency:
  assumes bg: "built_graph s flow A P g" and xy: "(x, y) \<in> (set (mEdges g))\<^sup>+"
  shows "x \<noteq> 1 \<and> y \<noteq> 0 \<and> (x \<noteq> 0 \<longrightarrow> y \<noteq> 1 \<longrightarrow> (atom_at g x, atom_at g y) \<in> (dependency s A P)\<^sup>+)"
  using xy
proof (induction rule: trancl_induct)
  case (base y)
  then show ?case using edge_shape [OF bg] by blast
next
  case (step y z)
  note s = edge_shape [OF bg step(2)]
  have "(atom_at g x, atom_at g z) \<in> (dependency s A P)\<^sup>+" if "x \<noteq> 0" "z \<noteq> 1"
    using step(3) s(3,4) s(5) that by (meson trancl.trancl_into_trancl)
  then show ?case using step(3) s(3) by blast
qed

lemma acyclic_edges:
  assumes bg: "built_graph s flow A P g"
  shows "acyclic (set (mEdges g)) \<longleftrightarrow> acyclic (dependency s A P)"
proof
  assume ac: "acyclic (dependency s A P)"
  show "acyclic (set (mEdges g))"
  proof (rule acyclicI, intro allI notI)
    fix x assume "(x, x) \<in> (set (mEdges g))\<^sup>+"
    then have "(atom_at g x, atom_at g x) \<in> (dependency s A P)\<^sup>+" using path_dependency [OF bg] by blast
    then show False using ac by (simp add: acyclic_def)
  qed
next
  assume ac: "acyclic (set (mEdges g))"
  have path: "(a, b) \<in> (dependency s A P)\<^sup>+ \<Longrightarrow> b \<in> set (collectAllComponents s flow) \<Longrightarrow> (vtx g a, vtx g b) \<in> (set (mEdges g))\<^sup>+" for a b
  proof (induction rule: trancl_induct)
    case (step y z)
    have "y \<in> set (collectAllComponents s flow)" using step(2) schedulable_sender [OF built_schedulable [OF bg]] by blast
    then show ?case using step dependency_edge [OF bg] by (meson trancl.trancl_into_trancl)
  qed (use dependency_edge [OF bg] in blast)
  show "acyclic (dependency s A P)"
  proof (rule acyclicI, intro allI notI)
    fix a assume c: "(a, a) \<in> (dependency s A P)\<^sup>+"
    then obtain b where "(a, b) \<in> dependency s A P" by (meson tranclD)
    then have "a \<in> set (collectAllComponents s flow)" using schedulable_sender [OF built_schedulable [OF bg]] by blast
    then show False using path [OF c] ac by (simp add: acyclic_def)
  qed
qed

section \<open>The graph algorithms\<close>

text \<open>\<open>a\<close> comes before a later occurrence of \<open>b\<close>.\<close>

definition before :: "'a list \<Rightarrow> 'a \<Rightarrow> 'a \<Rightarrow> bool" where
  "before xs a b \<longleftrightarrow> (\<exists>ys zs. xs = ys @ a # zs \<and> b \<in> set zs)"

lemma before_rev: "before (rev xs) a b \<longleftrightarrow> before xs b a"
proof -
  have "before (rev xs) a b" if "before xs b a" for xs a b
  proof -
    from that obtain ys zs where "xs = ys @ b # zs" "a \<in> set zs" by (auto simp: before_def)
    then obtain us vs where "xs = ys @ b # us @ a # vs" by (auto simp: in_set_conv_decomp)
    then have "rev xs = rev vs @ a # (rev us @ b # rev ys)" by simp
    then show ?thesis unfolding before_def by fastforce
  qed
  from this [of xs b a] this [of "rev xs" a b] show ?thesis by auto
qed

lemma before_concat_map:
  assumes "before xs a b" and "f a = [x]" "f b = [y]"
  shows "before (concat (map f xs)) x y"
proof -
  from assms(1) obtain ys zs where "xs = ys @ a # zs" "b \<in> set zs" by (auto simp: before_def)
  then have "concat (map f xs) = concat (map f ys) @ x # concat (map f zs)" "y \<in> set (concat (map f zs))"
    using assms by (auto intro: bexI [of _ b])
  then show ?thesis unfolding before_def by blast
qed

lemma concat_map_if: "concat (map (\<lambda>x. if P x then [f x] else []) xs) = map f (filter P xs)"
  by (induction xs) auto

text \<open>
  What the Boost documentation says of the two algorithms: a depth-first visit from a vertex
  reports a back edge exactly if a cycle can be reached from it; the topological sort lists every
  vertex of an acyclic graph once, the target of each edge before its source, and throws on a
  graph with a cycle.
\<close>

locale graph_algorithms =
  fixes back_edges :: "nat \<Rightarrow> (nat \<times> nat) list \<Rightarrow> nat \<Rightarrow> (nat \<times> nat) list"
    and topological_sort :: "nat \<Rightarrow> (nat \<times> nat) list \<Rightarrow> exn + nat list"
  assumes back_edges: "\<lbrakk>set E \<subseteq> {..<n} \<times> {..<n}; v < n\<rbrakk> \<Longrightarrow>
      back_edges n E v = [] \<longleftrightarrow> acyclic {(x, y) \<in> set E. (v, x) \<in> (set E)\<^sup>*}"
    and topological_sort: "\<lbrakk>set E \<subseteq> {..<n} \<times> {..<n}; acyclic (set E)\<rbrakk> \<Longrightarrow>
      \<exists>xs. topological_sort n E = Inr xs \<and> distinct xs \<and> set xs = {..<n} \<and>
           (\<forall>(u, v) \<in> set E. before xs v u)"
    and not_a_dag: "\<lbrakk>set E \<subseteq> {..<n} \<times> {..<n}; \<not> acyclic (set E)\<rbrakk> \<Longrightarrow>
      topological_sort n E = Inl invalid_argument"
begin

lemma schedule_built:
  assumes bg: "built_graph s flow A P g"
  shows "case sequentialSchedule back_edges topological_sort g of
      Inl e \<Rightarrow> e = invalid_argument \<and> \<not> acyclic (dependency s A P)
    | Inr xs \<Rightarrow> acyclic (dependency s A P) \<and>
        distinct xs \<and> set xs = set (collectAllComponents s flow) \<and>
        (\<forall>a b. (a, b) \<in> dependency s A P \<and> b \<in> set (collectAllComponents s flow) \<longrightarrow> before xs a b)"
proof -
  let ?n = "length (mNodes g)" and ?E = "mEdges g" and ?atoms = "collectAllComponents s flow"
  note gf = g_fields [OF bg]
  have sub: "set ?E \<subseteq> {..<?n} \<times> {..<?n}" using edge_shape [OF bg] by auto
  have n: "0 < ?n" by (simp add: gf(1))
  have acy: "acyclic (set ?E) \<longleftrightarrow> acyclic (dependency s A P)" by (rule acyclic_edges [OF bg])
  show ?thesis
  proof (cases "acyclic (set ?E)")
    case False
    then have "topological_sort ?n ?E = Inl invalid_argument" using not_a_dag [OF sub] by blast
    then show ?thesis using False acy
      by (auto simp: sequentialSchedule_def)
  next
    case True
    obtain xs where xs: "topological_sort ?n ?E = Inr xs" "distinct xs" "set xs = {..<?n}"
        "\<forall>(u, v) \<in> set ?E. before xs v u"
      using topological_sort [OF sub True] by blast
    have "acyclic {(x, y) \<in> set ?E. (0, x) \<in> (set ?E)\<^sup>*}" using True by (rule acyclic_subset) auto
    then have be: "back_edges ?n ?E (mSourceVertex g) = []" using back_edges [OF sub n] gf(2) by simp
    have lk: "length (mVertexLookup g) = ?n"
      using length_lookup [of g] look [OF bg] by (auto simp: lookup_ok_def)
    have len: "length xs = ?n" using xs(2,3) by (metis card_lessThan distinct_card)
    let ?f = "\<lambda>v. let proc = mNodes g ! v in if n_type proc = Processor then [the (n_node proc)] else []"
    let ?out = "concat (map ?f (rev xs))"
    have res: "sequentialSchedule back_edges topological_sort g = Inr ?out"
      using be xs(1) lk len by (simp add: sequentialSchedule_def checkAcyclicGraph_def)
    have f: "?f (vtx g a) = [a]" if "a \<in> set ?atoms" for a
      using vtx_atom [OF bg that] by simp
    have out: "?out = map (atom_at g) (filter (\<lambda>v. n_type (mNodes g ! v) = Processor) (rev xs))"
      by (simp add: Let_def concat_map_if)
    have proc: "v \<in> set (filter (\<lambda>v. n_type (mNodes g ! v) = Processor) (rev xs)) \<longleftrightarrow> v < ?n \<and> 2 \<le> v" for v
    proof -
      have "v < ?n \<Longrightarrow> n_type (mNodes g ! v) = Processor \<longleftrightarrow> 2 \<le> v"
        using node_cases [OF bg, of v] by (cases "v = 0"; cases "v = 1") auto
      then show ?thesis using xs(3) by auto
    qed
    have "set ?out = set ?atoms"
    proof (intro equalityI subsetI)
      fix a assume "a \<in> set ?out"
      then obtain v where "v < ?n" "2 \<le> v" "a = atom_at g v" unfolding out set_map using proc by blast
      then show "a \<in> set ?atoms" using node_cases(3) [OF bg] by blast
    next
      fix a assume a: "a \<in> set ?atoms"
      have "vtx g a \<in> set (filter (\<lambda>v. n_type (mNodes g ! v) = Processor) (rev xs))"
        using vtx_atom [OF bg a] proc by blast
      moreover have "atom_at g (vtx g a) = a" using vtx_atom(2) [OF bg a] by simp
      ultimately show "a \<in> set ?out" unfolding out set_map by (metis image_eqI)
    qed
    moreover have "distinct ?out"
    proof -
      have "u = v" if "u < ?n" "2 \<le> u" "v < ?n" "2 \<le> v" "atom_at g u = atom_at g v" for u v
      proof -
        have "mNodes g ! u = mNodes g ! v" using node_cases(3) [OF bg] that by metis
        then show ?thesis using look(3) [OF bg] that by (simp add: nth_eq_iff_index_eq)
      qed
      then have "inj_on (atom_at g) (set (filter (\<lambda>v. n_type (mNodes g ! v) = Processor) (rev xs)))"
        using proc by (intro inj_onI) blast
      then show ?thesis unfolding out using xs(2) by (simp add: distinct_map)
    qed
    moreover have "before ?out a b" if "(a, b) \<in> dependency s A P" "b \<in> set ?atoms" for a b
    proof -
      have a: "a \<in> set ?atoms" using schedulable_sender [OF built_schedulable [OF bg] that(1)] .
      have "before (rev xs) (vtx g a) (vtx g b)"
        using xs(4) dependency_edge [OF bg that] by (auto simp: before_rev)
      then show ?thesis by (rule before_concat_map [where f = ?f, OF _ f [OF a] f [OF that(2)]])
    qed
    ultimately show ?thesis using res True acy by auto
  qed
qed

end

section \<open>Reference algorithms\<close>

text \<open>
  Executable algorithms that satisfy the contract, so that the contract is not empty and
  concrete flows can be scheduled by evaluation: the vertices reachable from a set, the edges on
  a reachable cycle, and a sort that repeatedly takes a vertex all of whose successors are taken.
\<close>

function reach_set :: "(nat \<times> nat) list \<Rightarrow> nat list \<Rightarrow> nat list" where
  "reach_set E acc =
     (let new = filter (\<lambda>y. y \<notin> set acc) (map snd (filter (\<lambda>(x, y). x \<in> set acc) E))
      in if new = [] then acc else reach_set E (new @ acc))"
  by pat_completeness auto

termination
proof (relation "measure (\<lambda>(E, acc). card (snd ` set E - set acc))")
  fix E :: "(nat \<times> nat) list" and acc new
  assume new: "new = filter (\<lambda>y. y \<notin> set acc) (map snd (filter (\<lambda>(x, y). x \<in> set acc) E))" "new \<noteq> []"
  then obtain y where "y \<in> set new" by (metis list.set_intros(1) neq_Nil_conv)
  then have "y \<in> snd ` set E - set acc" "y \<in> set new" using new(1) by auto
  then have "snd ` set E - set (new @ acc) \<subset> snd ` set E - set acc" by auto
  then show "((E, new @ acc), E, acc) \<in> measure (\<lambda>(E, acc). card (snd ` set E - set acc))"
    by (simp add: psubset_card_mono)
qed simp

declare reach_set.simps [simp del]

lemma set_reach_set: "set (reach_set E acc) = (set E)\<^sup>* `` set acc"
proof (induction E acc rule: reach_set.induct)
  case (1 E acc)
  define new where "new = filter (\<lambda>y. y \<notin> set acc) (map snd (filter (\<lambda>(x, y). x \<in> set acc) E))"
  show ?case
  proof (cases "new = []")
    case True
    have "y \<in> set acc" if "(x, y) \<in> (set E)\<^sup>*" "x \<in> set acc" for x y
      using that
    proof (induction rule: rtrancl_induct)
      case (step y z)
      then show ?case using True by (fastforce simp: new_def filter_empty_conv)
    qed simp
    then show ?thesis using True by (subst reach_set.simps) (auto simp: Let_def new_def [symmetric])
  next
    case False
    have sub: "set new \<subseteq> (set E)\<^sup>* `` set acc"
    proof
      fix y assume "y \<in> set new"
      then obtain x where "(x, y) \<in> set E" "x \<in> set acc" by (auto simp: new_def)
      then show "y \<in> (set E)\<^sup>* `` set acc" by blast
    qed
    have "set (reach_set E acc) = set (reach_set E (new @ acc))"
      using False by (subst reach_set.simps) (simp add: Let_def new_def [symmetric])
    also have "\<dots> = (set E)\<^sup>* `` set (new @ acc)"
      using 1 [OF new_def False] .
    also have "\<dots> = (set E)\<^sup>* `` set acc"
      using sub by (auto intro: rtrancl_trans)
    finally show ?thesis .
  qed
qed

definition back_edges_ref :: "nat \<Rightarrow> (nat \<times> nat) list \<Rightarrow> nat \<Rightarrow> (nat \<times> nat) list" where
  "back_edges_ref n E v = filter (\<lambda>(x, y). x \<in> set (reach_set E [v]) \<and> x \<in> set (reach_set E [y])) E"

fun topo_steps :: "nat \<Rightarrow> (nat \<times> nat) list \<Rightarrow> nat list \<Rightarrow> nat list \<Rightarrow> exn + nat list" where
  "topo_steps 0 E rem out = (if rem = [] then Inr out else Inl invalid_argument)"
| "topo_steps (Suc k) E rem out =
     (case List.find (\<lambda>v. list_all (\<lambda>(x, y). x = v \<longrightarrow> y \<in> set out) E) rem of
        None \<Rightarrow> if rem = [] then Inr out else Inl invalid_argument
      | Some v \<Rightarrow> topo_steps k E (remove1 v rem) (out @ [v]))"

definition topological_sort_ref :: "nat \<Rightarrow> (nat \<times> nat) list \<Rightarrow> exn + nat list" where
  "topological_sort_ref n E = topo_steps n E [0..<n] []"

lemma back_edges_ref_iff:
  "back_edges_ref n E v = [] \<longleftrightarrow> acyclic {(x, y) \<in> set E. (v, x) \<in> (set E)\<^sup>*}"
proof -
  let ?R = "{(x, y) \<in> set E. (v, x) \<in> (set E)\<^sup>*}"
  have sub: "?R\<^sup>* \<subseteq> (set E)\<^sup>*" by (rule rtrancl_mono) auto
  have lift: "(y, x) \<in> (set E)\<^sup>* \<Longrightarrow> (v, y) \<in> (set E)\<^sup>* \<Longrightarrow> (y, x) \<in> ?R\<^sup>*" for x y
  proof (induction rule: rtrancl_induct)
    case (step a b)
    then have "(v, a) \<in> (set E)\<^sup>*" by auto
    then show ?case using step by (auto intro: rtrancl_into_rtrancl)
  qed simp
  have "back_edges_ref n E v = [] \<longleftrightarrow> (\<forall>(x, y) \<in> ?R. (y, x) \<notin> (set E)\<^sup>*)"
    by (auto simp: back_edges_ref_def filter_empty_conv set_reach_set)
  also have "\<dots> \<longleftrightarrow> (\<forall>(x, y) \<in> ?R. (y, x) \<notin> ?R\<^sup>*)"
  proof -
    have "(y, x) \<in> (set E)\<^sup>* \<longleftrightarrow> (y, x) \<in> ?R\<^sup>*" if "(x, y) \<in> ?R" for x y
      using that lift [of y x] sub by (auto intro: rtrancl_into_rtrancl)
    then show ?thesis by blast
  qed
  also have "\<dots> \<longleftrightarrow> acyclic ?R"
    unfolding acyclic_def by (metis (no_types, lifting) case_prodI2 case_prod_conv rtrancl_into_trancl2 tranclD)
  finally show ?thesis .
qed

lemma topo_steps_sound:
  assumes "topo_steps k E rem out = Inr xs" "k = length rem"
    and "distinct (rem @ out)" and "\<forall>(u, v) \<in> set E. u \<in> set out \<longrightarrow> before out v u"
  shows "distinct xs \<and> set xs = set rem \<union> set out \<and> (\<forall>(u, v) \<in> set E. u \<in> set xs \<longrightarrow> before xs v u)"
  using assms
proof (induction k E rem out rule: topo_steps.induct)
  case (2 k E rem out)
  then have ne: "rem \<noteq> []" by auto
  then obtain v where v: "List.find (\<lambda>v. list_all (\<lambda>(x, y). x = v \<longrightarrow> y \<in> set out) E) rem = Some v"
    using 2(2) by (auto split: option.splits)
  have m: "v \<in> set rem" "\<And>y. (v, y) \<in> set E \<Longrightarrow> y \<in> set out"
    using find_SomeD [OF v] by (auto simp: list_all_iff)
  have ext: "before (out @ [v]) b a" if "before out b a" for a b
    using that by (fastforce simp: before_def)
  have new: "before (out @ [v]) b v" if "b \<in> set out" for b
  proof -
    from split_list [OF that] obtain ys zs where "out = ys @ b # zs" by blast
    then have "out @ [v] = ys @ b # (zs @ [v])" by simp
    then show ?thesis unfolding before_def by fastforce
  qed
  have dd: "distinct (remove1 v rem @ out @ [v])" using 2(4) m(1) by auto
  have ee: "\<forall>(a, b) \<in> set E. a \<in> set (out @ [v]) \<longrightarrow> before (out @ [v]) b a"
    using 2(5) ext new m(2) by fastforce
  have kk: "k = length (remove1 v rem)" using 2(3) m(1) by (simp add: length_remove1)
  have st: "topo_steps k E (remove1 v rem) (out @ [v]) = Inr xs" using 2(2) v by simp
  have fin: "distinct xs \<and> set xs = set (remove1 v rem) \<union> set (out @ [v]) \<and>
      (\<forall>(u, v) \<in> set E. u \<in> set xs \<longrightarrow> before xs v u)"
    by (rule 2(1) [OF v st kk dd ee])
  have "set (remove1 v rem) \<union> set (out @ [v]) = set rem \<union> set out" using m(1) 2(4) by auto
  with fin show ?case by metis
qed (simp split: if_splits)

lemma topo_steps_total:
  assumes "acyclic (set E)" and "k = length rem" and "\<forall>(u, v) \<in> set E. v \<in> set rem \<union> set out"
    and "distinct rem"
  shows "\<exists>xs. topo_steps k E rem out = Inr xs"
  using assms
proof (induction k E rem out rule: topo_steps.induct)
  case (2 k E rem out)
  then obtain r where r: "r \<in> set rem" by (cases rem) auto
  have "wf ((set E)\<inverse>)" using 2(2) by (intro finite_acyclic_wf_converse) simp
  from wfE_min [OF this r] obtain z where z: "z \<in> set rem" "\<And>y. (y, z) \<in> (set E)\<inverse> \<Longrightarrow> y \<notin> set rem"
    by blast
  then have "list_all (\<lambda>(x, y). x = z \<longrightarrow> y \<in> set out) E" using 2(4) by (fastforce simp: list_all_iff)
  then obtain v where v: "List.find (\<lambda>v. list_all (\<lambda>(x, y). x = v \<longrightarrow> y \<in> set out) E) rem = Some v"
    using find_SomeI [of z rem "\<lambda>v. list_all (\<lambda>(x, y). x = v \<longrightarrow> y \<in> set out) E"] z(1) by blast
  have m: "v \<in> set rem" using find_SomeD [OF v] by simp
  have "k = length (remove1 v rem)" using 2(3) m by (simp add: length_remove1)
  moreover have "\<forall>(a, b) \<in> set E. b \<in> set (remove1 v rem) \<union> set (out @ [v])"
    using 2(4,5) by (auto simp: set_remove1_eq)
  ultimately show ?case using 2(1) [OF v 2(2)] 2(5) v by simp
qed simp

lemma before_acyclic:
  assumes "distinct xs" and "\<forall>(u, v) \<in> R. before xs v u"
  shows "acyclic R"
proof -
  have "length (takeWhile (\<lambda>x. x \<noteq> v) xs) < length (takeWhile (\<lambda>x. x \<noteq> u) xs)" if "(u, v) \<in> R" for u v
  proof -
    have "before xs v u" using assms(2) that by blast
    then obtain ys zs where x: "xs = ys @ v # zs" "u \<in> set zs" unfolding before_def by blast
    then have n: "v \<notin> set ys" "u \<notin> set ys" "u \<noteq> v" using assms(1) by auto
    have tw: "takeWhile (\<lambda>x. x \<noteq> w) (ys @ w' # ws) = ys @ takeWhile (\<lambda>x. x \<noteq> w) (w' # ws)"
      if "w \<notin> set ys" for w w' ws
      using that by (intro takeWhile_append2) auto
    have "takeWhile (\<lambda>x. x \<noteq> v) xs = ys" using n by (simp add: x(1) tw)
    moreover have "takeWhile (\<lambda>x. x \<noteq> u) xs = ys @ v # takeWhile (\<lambda>x. x \<noteq> u) zs"
      using n by (simp add: x(1) tw)
    ultimately show ?thesis by simp
  qed
  then have "R\<inverse> \<subseteq> measure (\<lambda>v. length (takeWhile (\<lambda>x. x \<noteq> v) xs))" by auto
  then have "acyclic (R\<inverse>)" by (meson wf_acyclic wf_measure wf_subset)
  then show ?thesis by simp
qed

lemma topo_steps_Inl: "topo_steps k E rem out = Inl e \<Longrightarrow> e = invalid_argument"
  by (induction k E rem out rule: topo_steps.induct) (auto split: option.splits if_splits)

interpretation reference: graph_algorithms back_edges_ref topological_sort_ref
proof
  fix E :: "(nat \<times> nat) list" and n v
  show "back_edges_ref n E v = [] \<longleftrightarrow> acyclic {(x, y) \<in> set E. (v, x) \<in> (set E)\<^sup>*}"
    by (rule back_edges_ref_iff)
  assume sub: "set E \<subseteq> {..<n} \<times> {..<n}"
  {
    assume ac: "acyclic (set E)"
    then obtain xs where xs: "topological_sort_ref n E = Inr xs"
      using topo_steps_total [of E n "[0..<n]" "[]"] sub by (auto simp: topological_sort_ref_def)
    then have "distinct xs \<and> set xs = {..<n} \<and> (\<forall>(u, v) \<in> set E. u \<in> set xs \<longrightarrow> before xs v u)"
      using topo_steps_sound [of n E "[0..<n]" "[]" xs] by (auto simp: topological_sort_ref_def)
    then show "\<exists>xs. topological_sort_ref n E = Inr xs \<and> distinct xs \<and> set xs = {..<n} \<and>
        (\<forall>(u, v) \<in> set E. before xs v u)"
      using xs sub by fast
  }
  {
    assume nac: "\<not> acyclic (set E)"
    show "topological_sort_ref n E = Inl invalid_argument"
    proof (cases "topological_sort_ref n E")
      case (Inl e)
      then show ?thesis using topo_steps_Inl by (auto simp: topological_sort_ref_def)
    next
      case (Inr xs)
      then have "distinct xs \<and> set xs = {..<n} \<and> (\<forall>(u, v) \<in> set E. u \<in> set xs \<longrightarrow> before xs v u)"
        using topo_steps_sound [of n E "[0..<n]" "[]" xs] by (auto simp: topological_sort_ref_def)
      then have "acyclic (set E)" using before_acyclic [of xs "set E"] sub by fast
      then show ?thesis using nac by simp
    qed
  }
qed

section \<open>Properties\<close>

text \<open>In a well-formed store the hierarchy is a tree: no component occurs twice.\<close>

lemma nodes_below:
  "\<lbrakk>wf_store s; matches s t; root t \<in> dom (comps s); k \<in> set (nodes t)\<rbrakk> \<Longrightarrow> (k, root t) \<in> (parent_rel s)\<^sup>*"
proof (induction s t rule: matches.induct)
  case (1 s c ts)
  show ?case
  proof (cases "k = c")
    case False
    then obtain t where t: "t \<in> set ts" "k \<in> set (nodes t)" using 1(5) by auto
    have r: "root t \<in> set (c_components (comp s c))"
      using t(1) 1(3) by (metis image_eqI list.set_map matches.simps)
    note ch = wf_child [OF 1(2) _ r]
    have "(k, root t) \<in> (parent_rel s)\<^sup>*" using 1(1) [OF t(1)] 1(2,3,4) t ch(1) by simp
    then show ?thesis using ch(3) 1(4) by (auto intro: rtrancl_into_rtrancl)
  qed simp
qed

lemma parent_rel_det: "(k, p) \<in> parent_rel s \<Longrightarrow> (k, q) \<in> parent_rel s \<Longrightarrow> p = q"
  by (auto simp: parent_rel_def)

lemma ancestors_linear:
  "(k, a) \<in> (parent_rel s)\<^sup>* \<Longrightarrow> (k, b) \<in> (parent_rel s)\<^sup>* \<Longrightarrow>
   (a, b) \<in> (parent_rel s)\<^sup>* \<or> (b, a) \<in> (parent_rel s)\<^sup>*"
proof (induction rule: converse_rtrancl_induct)
  case (step k p)
  from step.prems show ?case
  proof (cases rule: converse_rtranclE)
    case base
    then show ?thesis using step.hyps by (meson converse_rtrancl_into_rtrancl)
  next
    case (step q)
    then show ?thesis using parent_rel_det [OF \<open>(k, p) \<in> parent_rel s\<close>] \<open>(k, q) \<in> parent_rel s\<close>
        step.IH step.hyps \<open>(q, b) \<in> (parent_rel s)\<^sup>*\<close> by blast
  qed
qed simp


lemma distinct_concat_map:
  "\<lbrakk>\<forall>x \<in> set xs. distinct (f x); sorted_wrt (\<lambda>x y. set (f x) \<inter> set (f y) = {}) xs\<rbrakk> \<Longrightarrow>
   distinct (concat (map f xs))"
  by (induction xs) auto

lemma sorted_wrt_mem: "\<lbrakk>sorted_wrt P xs; \<And>x y. x \<in> set xs \<Longrightarrow> y \<in> set xs \<Longrightarrow> P x y \<Longrightarrow> Q x y\<rbrakk> \<Longrightarrow> sorted_wrt Q xs"
  by (induction xs) auto

lemma distinct_nodes: "\<lbrakk>wf_store s; matches s t; root t \<in> dom (comps s)\<rbrakk> \<Longrightarrow> distinct (nodes t)"
proof (induction s t rule: matches.induct)
  case (1 s c ts)
  have m: "matches s t" "root t \<in> set (c_components (comp s c))" if "t \<in> set ts" for t
    using 1(3) that by (metis image_eqI list.set_map matches.simps)+
  have ch: "root t \<in> dom (comps s)" "(root t, c) \<in> parent_rel s" if "t \<in> set ts" for t
    using wf_child [OF 1(2) _ m(2) [OF that]] 1(4) by auto
  have ac: "acyclic (parent_rel s)" using 1(2) by (simp add: wf_store_def)
  have up: "(k, root t) \<in> (parent_rel s)\<^sup>*" if "t \<in> set ts" "k \<in> set (nodes t)" for t k
    by (rule nodes_below [OF 1(2) m(1) [OF that(1)] ch(1) [OF that(1)] that(2)])
  have no: "(c, root t) \<notin> (parent_rel s)\<^sup>*" if "t \<in> set ts" for t
  proof
    assume "(c, root t) \<in> (parent_rel s)\<^sup>*"
    then have "(c, c) \<in> (parent_rel s)\<^sup>+" using ch(2) [OF that] by (rule rtrancl_into_trancl1)
    then show False using ac by (simp add: acyclic_def)
  qed
  have one: "root t = root u" if "t \<in> set ts" "u \<in> set ts" "(root t, root u) \<in> (parent_rel s)\<^sup>*" for t u
    using that(3)
  proof (cases rule: converse_rtranclE)
    case (step q)
    then have "q = c" using parent_rel_det ch(2) [OF that(1)] by metis
    then show ?thesis using no [OF that(2)] step by simp
  qed simp
  have "distinct (map root ts)"
  proof -
    have "owns (dom (comps s)) (\<lambda>c. c_components (comp s c)) (dom (comps s))
       (\<lambda>c. c_parent (comp s c)) (\<lambda>c. c_name (comp s c))"
      using 1(2) by (simp add: wf_store_def wf_children_def)
    then have "distinct (c_components (comp s c))" using 1(4) by (intro ownsD(6)) auto
    then show ?thesis using 1(3) by simp
  qed
  then have "sorted_wrt (\<lambda>t u. root t \<noteq> root u) ts" by (simp add: distinct_conv_nth sorted_wrt_iff_nth_less)
  then have "sorted_wrt (\<lambda>t u. set (nodes t) \<inter> set (nodes u) = {}) ts"
  proof (rule sorted_wrt_mem)
    fix t u assume tu: "t \<in> set ts" "u \<in> set ts" "root t \<noteq> root u"
    show "set (nodes t) \<inter> set (nodes u) = {}"
    proof (rule ccontr)
      assume "set (nodes t) \<inter> set (nodes u) \<noteq> {}"
      then obtain k where "k \<in> set (nodes t)" "k \<in> set (nodes u)" by blast
      then have "(root t, root u) \<in> (parent_rel s)\<^sup>* \<or> (root u, root t) \<in> (parent_rel s)\<^sup>*"
        using ancestors_linear up tu by metis
      then show False using one tu by metis
    qed
  qed
  moreover have "distinct (nodes t)" if "t \<in> set ts" for t
    using 1(1) [OF that 1(2)] m [OF that] ch(1) [OF that] by simp
  ultimately have "distinct (concat (map nodes ts))" by (intro distinct_concat_map) auto
  moreover have "c \<notin> set (nodes t)" if "t \<in> set ts" for t
    using up [OF that, of c] no [OF that] by blast
  ultimately show ?case by auto
qed

lemma collectAllComponents_nodes:
  "atomic_leaves (\<lambda>c. c_composite (comp s c)) t \<Longrightarrow>
   collectAllComponents s t = filter (\<lambda>c. \<not> c_composite (comp s c)) (nodes t)"
proof (induction t)
  case (Hier c ts)
  then have "map (collectAllComponents s) ts = map (\<lambda>t. filter (\<lambda>c. \<not> c_composite (comp s c)) (nodes t)) ts"
    by auto
  then show ?case using Hier.prems by (auto simp: filter_concat o_def cong: map_cong)
qed

lemma distinct_atoms:
  assumes "wf_store s" "matches s t" "root t \<in> dom (comps s)"
  shows "distinct (collectAllComponents s t)"
  using collectAllComponents_nodes [OF atomic_leaves_matches [OF assms]] distinct_nodes [OF assms] by simp

text \<open>
  C16 (schedule_correct): for the dependency graph of a signal flow, and graph algorithms that do
  what their documentation says, the schedule exists exactly if the dependencies between the
  atomic components have no cycle; it then contains every atomic component once, and each sender
  of an audio or parameter connection before its receiver. A cycle is reported as
  \<open>std::invalid_argument\<close>, also where the preceding search from the source vertex misses it.
\<close>

theorem schedule_correct:
  assumes "graph_algorithms back_edges topological_sort"
    and "schedulable s flow A P"
  shows "case bindE (initialise s flow A P) (sequentialSchedule back_edges topological_sort) of
      Inl e \<Rightarrow> e = invalid_argument \<and> \<not> acyclic (dependency s A P)
    | Inr xs \<Rightarrow> acyclic (dependency s A P) \<and>
        distinct xs \<and> set xs = set (collectAllComponents s flow) \<and>
        (\<forall>a b. (a, b) \<in> dependency s A P \<and> b \<in> set (collectAllComponents s flow) \<longrightarrow> before xs a b)"
proof -
  obtain g where g: "initialise s flow A P = Inr g" using initialise_edges [OF assms(2)] by auto
  then have "built_graph s flow A P g" using assms(2) by (simp add: built_graph_def)
  from graph_algorithms.schedule_built [OF assms(1) this] show ?thesis using g by simp
qed

text \<open>Two atoms in a row, registered in the reverse order.\<close>

definition ex_chain :: store where
  "ex_chain = ex_store\<lparr>comps := [
     0 \<mapsto> \<lparr>c_name = ''top'', c_parent = None, c_composite = True, c_audioPorts = [10, 11],
           c_parameterPorts = [], c_components = [1, 2],
           c_audioConnections = [ex_connection 10 14, ex_connection 15 12, ex_connection 13 11],
           c_parameterConnections = []\<rparr>,
     1 \<mapsto> \<lparr>c_name = ''second'', c_parent = Some 0, c_composite = False, c_audioPorts = [12, 13],
           c_parameterPorts = [], c_components = [], c_audioConnections = [], c_parameterConnections = []\<rparr>,
     2 \<mapsto> \<lparr>c_name = ''first'', c_parent = Some 0, c_composite = False, c_audioPorts = [14, 15],
           c_parameterPorts = [], c_components = [], c_audioConnections = [], c_parameterConnections = []\<rparr>]\<rparr>"

definition ex_chain_tree :: hier where "ex_chain_tree = Hier 0 [Hier 1 [], Hier 2 []]"

definition ex_chain_map :: acmap where
  "ex_chain_map = [(AudioChannel 10 0, AudioChannel 14 0), (AudioChannel 10 1, AudioChannel 14 1),
     (AudioChannel 13 0, AudioChannel 11 0), (AudioChannel 13 1, AudioChannel 11 1),
     (AudioChannel 15 0, AudioChannel 12 0), (AudioChannel 15 1, AudioChannel 12 1)]"

lemma ex_chain_fill: "AudioConnectionMap ex_chain ex_chain_tree True = Inr ex_chain_map"
  by code_simp

lemma ex_chain_schedulable: "schedulable ex_chain ex_chain_tree ex_chain_map []"
  by (simp add: schedulable_def ex_chain_map_def ex_chain_tree_def ex_chain_def audio_owner_def ex_defs)

lemma ex_chain_schedule:
  "bindE (initialise ex_chain ex_chain_tree ex_chain_map [])
     (sequentialSchedule back_edges_ref topological_sort_ref) = Inr [2, 1]"
  by code_simp

theorem schedule_correct_witness:
  "acyclic (dependency ex_chain ex_chain_map []) \<and> set [2, 1] = set (collectAllComponents ex_chain ex_chain_tree)"
  using schedule_correct [OF reference.graph_algorithms_axioms ex_chain_schedulable] ex_chain_schedule
  by simp

end
