(* ===== verification/Buffer_Layout.thy ===== *)
theory Buffer_Layout
  imports Audio_Connections Scheduling
begin

text \<open>
  Where the audio samples of a signal flow live: \<open>AudioSignalFlow::initialiseAudioConnections\<close>
  (\<open>src/librrl/audio_signal_flow.cpp\<close>). Every sending port gets a range of channels in one
  memory pool, receiving ports are placed onto the channels of their senders, and where the
  senders of a port are not adjacent an internal routing component copies them next to each
  other. Sizes and offsets are natural numbers: the products computed here are sizes of memory
  blocks that exist.
\<close>

section \<open>Sample types\<close>

text \<open>The order of the enumerators, which is the order of a \<open>std::set\<close> of them.\<close>

fun type_id :: "sample_type \<Rightarrow> nat" where
  "type_id floatId = 0"
| "type_id doubleId = 1"
| "type_id longDoubleId = 2"
| "type_id uint8Id = 3"
| "type_id int8Id = 4"
| "type_id uint16Id = 5"
| "type_id int16Id = 6"
| "type_id uint32Id = 7"
| "type_id int32Id = 8"
| "type_id complexFloatId = 9"
| "type_id complexDoubleId = 10"

lemma type_id_inj: "type_id a = type_id b \<Longrightarrow> a = b"
  by (cases a; cases b) auto

instantiation sample_type :: linorder
begin

definition less_sample_type :: "sample_type \<Rightarrow> sample_type \<Rightarrow> bool" where
  "a < b \<longleftrightarrow> type_id a < type_id b"

definition less_eq_sample_type :: "sample_type \<Rightarrow> sample_type \<Rightarrow> bool" where
  "a \<le> b \<longleftrightarrow> type_id a \<le> type_id b"

instance
  by intro_classes (auto simp: less_sample_type_def less_eq_sample_type_def intro: type_id_inj)

end

section \<open>Sizes\<close>

definition nextAlignedSize :: "nat \<Rightarrow> nat \<Rightarrow> nat" where
  "nextAlignedSize n alignment =
     (if alignment = 0 then n
      else if n mod alignment = 0 then n
      else (n div alignment + 1) * alignment)"

definition cVectorAlignmentBytes :: nat where
  "cVectorAlignmentBytes = 64"

lemma nextAlignedSize_props:
  "n \<le> nextAlignedSize n a" "0 < a \<Longrightarrow> a dvd nextAlignedSize n a"
  "0 < a \<Longrightarrow> nextAlignedSize n a < n + a"
proof -
  have n: "n = a * (n div a) + n mod a" by simp
  have m: "n mod a < a" if "0 < a" using that by simp
  have "n < a * (n div a) + a" if "0 < a" using n m [OF that] by linarith
  then show "n \<le> nextAlignedSize n a"
    by (cases "a = 0") (auto simp: nextAlignedSize_def algebra_simps intro: less_imp_le)
  show "0 < a \<Longrightarrow> a dvd nextAlignedSize n a" by (auto simp: nextAlignedSize_def)
  have "a * (n div a) + a < n + a" if "n mod a \<noteq> 0" using n that by linarith
  then show "0 < a \<Longrightarrow> nextAlignedSize n a < n + a"
    by (auto simp: nextAlignedSize_def algebra_simps)
qed

lemma nextAlignedSize_least:
  assumes "0 < a" "a dvd m" "n \<le> m"
  shows "nextAlignedSize n a \<le> m"
proof (rule ccontr)
  assume "\<not> ?thesis"
  then have "m < nextAlignedSize n a" by simp
  moreover obtain k where k: "m = a * k" using assms(2) by blast
  moreover obtain l where l: "nextAlignedSize n a = a * l" using nextAlignedSize_props(2) [OF assms(1)] by blast
  ultimately have "k < l" using assms(1) by auto
  then have "a * (k + 1) \<le> a * l" by (intro mult_le_mono2) simp
  then have "m + a \<le> nextAlignedSize n a" using k l by simp
  then show False using nextAlignedSize_props(3) [OF assms(1), of n] assms(3) by simp
qed

text \<open>The size in bytes of one channel of the pool.\<close>

definition channelSize :: "nat \<Rightarrow> sample_type \<Rightarrow> nat" where
  "channelSize blockSize ty = nextAlignedSize (blockSize * typeSize ty) cVectorAlignmentBytes"

lemma typeSize_dvd: "typeSize ty dvd cVectorAlignmentBytes"
  by (cases ty) (simp_all add: cVectorAlignmentBytes_def)

lemma typeSize_pos: "0 < typeSize ty"
  by (cases ty) simp_all

lemma channelSize_props:
  "blockSize * typeSize ty \<le> channelSize blockSize ty"
  "cVectorAlignmentBytes dvd channelSize blockSize ty"
  "typeSize ty dvd channelSize blockSize ty"
proof -
  show "blockSize * typeSize ty \<le> channelSize blockSize ty"
    "cVectorAlignmentBytes dvd channelSize blockSize ty"
    unfolding channelSize_def
    by (rule nextAlignedSize_props, rule nextAlignedSize_props) (simp add: cVectorAlignmentBytes_def)
  then show "typeSize ty dvd channelSize blockSize ty" using typeSize_dvd dvd_trans by blast
qed

section \<open>The internal routing component\<close>

text \<open>
  \<open>src/librrl/signal_routing_internal.cpp\<close>. The address of the component and the addresses of
  its two ports are given; \<open>new\<close> chooses them.
\<close>

record routing_internal =
  ri_component :: nat
  ri_input :: nat
  ri_output :: nat
  ri_indices :: "nat list"

fun SignalRoutingInternal ::
  "store \<Rightarrow> nat \<times> nat \<times> nat \<Rightarrow> sample_type \<Rightarrow> string \<Rightarrow> nat \<Rightarrow> nat \<Rightarrow> nat list
   \<Rightarrow> exn + (routing_internal \<times> store)" where
  "SignalRoutingInternal s (c, i, out) ty nm parent inputWidth signalIndices =
     bindE (Component_ctor s c False nm (Some parent)) (\<lambda>s1.
     bindE (AudioPort_ctor s1 i ''in'' (Some c) ty Input inputWidth) (\<lambda>s2.
     bindE (AudioPort_ctor s2 out ''out'' (Some c) ty Output (length signalIndices)) (\<lambda>s3.
     let self = \<lparr>ri_component = c, ri_input = i, ri_output = out, ri_indices = signalIndices\<rparr>
     in if signalIndices = [] then Inr (self, s3)
        else if inputWidth \<le> Max (set signalIndices) then Inl invalid_argument
        else Inr (self, s3))))"

text \<open>The sample types for which the factory instantiates the class.\<close>

fun createSignalRoutingComponent ::
  "store \<Rightarrow> nat \<times> nat \<times> nat \<Rightarrow> sample_type \<Rightarrow> string \<Rightarrow> nat \<Rightarrow> nat \<Rightarrow> nat list
   \<Rightarrow> exn + (routing_internal \<times> store)" where
  "createSignalRoutingComponent s new complexFloatId nm parent w idx = Inl invalid_argument"
| "createSignalRoutingComponent s new complexDoubleId nm parent w idx = Inl invalid_argument"
| "createSignalRoutingComponent s new ty nm parent w idx = SignalRoutingInternal s new ty nm parent w idx"

section \<open>Names\<close>

text \<open>
  \<open>fullyQualifiedName\<close>; \<open>None\<close> as for \<^const>\<open>fullName\<close>. The number of steps is the number of
  levels of the hierarchy.
\<close>

definition qualifiedName :: "store \<Rightarrow> nat \<Rightarrow> string" where
  "qualifiedName s p = c_name (comp s (the (ap_parent (aport s p)))) @ '':'' @ ap_name (aport s p)"

definition fullyQualifiedName :: "nat \<Rightarrow> store \<Rightarrow> nat \<Rightarrow> string option" where
  "fullyQualifiedName n s p =
     map_option (\<lambda>f. f @ '':'' @ ap_name (aport s p)) (fullName n s (the (ap_parent (aport s p))))"

section \<open>The channels that feed a receiving port\<close>

type_synonym offsets = "(nat \<times> nat) list"

text \<open>\<open>std::map::at\<close>.\<close>

definition offset_at :: "offsets \<Rightarrow> nat \<Rightarrow> exn + nat" where
  "offset_at m p = (case map_of m p of None \<Rightarrow> Inl out_of_range | Some k \<Rightarrow> Inr k)"

fun contiguousRange :: "offsets \<Rightarrow> audio_channel list \<Rightarrow> exn + bool" where
  "contiguousRange m (a # b # cs) =
     bindE (offset_at m (port a)) (\<lambda>oa.
     bindE (offset_at m (port b)) (\<lambda>ob.
     if oa + channel a + 1 \<noteq> ob + channel b then Inr False else contiguousRange m (b # cs)))"
| "contiguousRange m _ = Inr True"

text \<open>
  \<open>sendRange\<close> starts as a vector of null channels (\<open>None\<close>). When all checks have passed no
  null entry is left (\<open>sendChannels_full\<close>), so the result is read as a list of channels.
\<close>

definition fillSendChannel ::
  "nat \<Rightarrow> audio_channel option list \<Rightarrow> audio_channel \<times> audio_channel \<Rightarrow> exn + audio_channel option list" where
  "fillSendChannel width sendRange conn =
     (let receiveChannel = channel (snd conn)
      in if width \<le> receiveChannel then Inl logic_error
         else if sendRange ! receiveChannel \<noteq> None then Inl logic_error
         else Inr (sendRange[receiveChannel := Some (fst conn)]))"

definition sendChannels :: "store \<Rightarrow> nat \<Rightarrow> acmap \<Rightarrow> exn + audio_channel list" where
  "sendChannels s receivePort flatConnections =
     (let receivingConnections = filter (\<lambda>conn. port (snd conn) = receivePort) flatConnections;
          width = ap_width (aport s receivePort)
      in if length receivingConnections \<noteq> width then Inl logic_error
         else bindE (foldE (fillSendChannel width) (replicate width None) receivingConnections)
                (\<lambda>sendRange. Inr (map the sendRange)))"

section \<open>Placing the ports of one sample type\<close>

record layout =
  ly_store :: store
  sendOffsets :: offsets
  receiveOffsets :: offsets
  sendPortOffset :: nat
  tmpConnections :: acmap
  mInfrastructureComponents :: "routing_internal list"

text \<open>
  The environment of the placement: the flow, the number of levels of its hierarchy, the
  addresses that \<open>new\<close> returns for the components created, and \<open>std::partition\<close>, which the
  standard specifies only up to the order inside the two groups.
\<close>

record placement =
  pl_flow :: nat
  pl_levels :: nat
  pl_new :: "nat \<Rightarrow> nat \<times> nat \<times> nat"
  pl_partition :: "(nat \<Rightarrow> bool) \<Rightarrow> nat list \<Rightarrow> nat list"

definition placeSendPort :: "layout \<Rightarrow> nat \<Rightarrow> layout" where
  "placeSendPort st p =
     st\<lparr>sendOffsets := map_insert p (sendPortOffset st) (sendOffsets st),
        sendPortOffset := sendPortOffset st + ap_width (aport (ly_store st) p)\<rparr>"

definition placeContiguous :: "layout \<Rightarrow> nat \<Rightarrow> audio_channel list \<Rightarrow> acmap \<Rightarrow> exn + layout" where
  "placeContiguous st p sends localConnections =
     (case map_of (sendOffsets st) (port (hd sends)) of
        None \<Rightarrow> Inl logic_error
      | Some k \<Rightarrow>
          Inr (st\<lparr>receiveOffsets := map_insert p (k + channel (hd sends)) (receiveOffsets st),
                  tmpConnections := mm_insert_all localConnections (tmpConnections st)\<rparr>))"

text \<open>The position of a sending channel in the channel sequence of the type.\<close>

definition sendIndex :: "offsets \<Rightarrow> nat list \<Rightarrow> audio_channel \<Rightarrow> exn + nat list" where
  "sendIndex m acc a =
     (case map_of m (port a) of None \<Rightarrow> Inl logic_error | Some k \<Rightarrow> Inr (acc @ [k + channel a]))"

text \<open>Connecting an input channel of the routing component, if the component uses it.\<close>

definition connectRoutingInput ::
  "store \<Rightarrow> offsets \<Rightarrow> nat \<Rightarrow> nat \<Rightarrow> nat list \<Rightarrow> acmap \<Rightarrow> nat \<Rightarrow> exn + acmap" where
  "connectRoutingInput s m routingIn minIndex sendIndices conns inputIdx =
     (let channelIndex = minIndex + inputIdx
      in case List.find (\<lambda>e. snd e \<le> channelIndex \<and> channelIndex < snd e + ap_width (aport s (fst e))) m of
           None \<Rightarrow> Inl logic_error
         | Some e \<Rightarrow>
             let finalSendIndex = channelIndex - snd e
             in if inputIdx \<in> set sendIndices
                then Inr (mm_insert (AudioChannel (fst e) finalSendIndex, AudioChannel routingIn inputIdx) conns)
                else Inr conns)"

definition placeRouted ::
  "placement \<Rightarrow> sample_type \<Rightarrow> layout \<Rightarrow> nat \<Rightarrow> audio_channel list \<Rightarrow> exn + layout" where
  "placeRouted pl ty st p sends =
     bindE (foldE (sendIndex (sendOffsets st)) [] sends) (\<lambda>indices.
     let s = ly_store st;
         receiveWidth = ap_width (aport s p);
         minIndex = Min (set indices);
         sendIndices = map (\<lambda>v. v - minIndex) indices;
         routingInputWidth = Max (set sendIndices) + 1
     in case fullyQualifiedName (pl_levels pl) s p of
          None \<Rightarrow> Inl undefined_behaviour
        | Some nm \<Rightarrow>
            bindE (createSignalRoutingComponent s (pl_new pl (length (mInfrastructureComponents st))) ty
                     (nm @ ''_inputrouting'') (pl_flow pl) routingInputWidth sendIndices) (\<lambda>(r, s').
            case (findAudioPortEntry s' (ri_component r) ''in'', findAudioPortEntry s' (ri_component r) ''out'') of
              (Some routingIn, Some routingOut) \<Rightarrow>
                bindE (foldE (connectRoutingInput s' (sendOffsets st) routingIn minIndex sendIndices)
                         (tmpConnections st) [0..<routingInputWidth]) (\<lambda>conns.
                Inr (st\<lparr>ly_store := s',
                        tmpConnections := fold (\<lambda>i. mm_insert (AudioChannel routingOut i, AudioChannel p i))
                          [0..<receiveWidth] conns,
                        sendOffsets := map_insert routingOut (sendPortOffset st) (sendOffsets st),
                        receiveOffsets := map_insert p (sendPortOffset st)
                          (map_insert routingIn minIndex (receiveOffsets st)),
                        sendPortOffset := sendPortOffset st + receiveWidth,
                        mInfrastructureComponents := mInfrastructureComponents st @ [r]\<rparr>))
            | _ \<Rightarrow> Inl undefined_behaviour))"

definition placeReceivePort ::
  "placement \<Rightarrow> sample_type \<Rightarrow> acmap \<Rightarrow> layout \<Rightarrow> nat \<Rightarrow> exn + layout" where
  "placeReceivePort pl ty typedConnections st p =
     (if ap_width (aport (ly_store st) p) = 0 then Inr st
      else let localConnections = filter (\<lambda>conn. port (snd conn) = p) typedConnections
           in bindE (sendChannels (ly_store st) p localConnections) (\<lambda>sends.
              bindE (contiguousRange (sendOffsets st) sends) (\<lambda>contiguous.
              if contiguous then placeContiguous st p sends localConnections
              else placeRouted pl ty st p sends)))"

text \<open>The ports that take part in a list of connections, without duplicates, external ports first.\<close>

definition partitioned_ports :: "placement \<Rightarrow> store \<Rightarrow> nat list \<Rightarrow> nat list" where
  "partitioned_ports pl s ps =
     pl_partition pl (\<lambda>p. isToplevelPort s (ap_parent (aport s p))) (sort_unique ps)"

definition placeComposite :: "placement \<Rightarrow> acmap \<Rightarrow> sample_type \<Rightarrow> layout \<Rightarrow> exn + layout" where
  "placeComposite pl originalConnections ty st0 =
     (let typedConnections =
            filter (\<lambda>conn. ap_sampleType (aport (ly_store st0) (port (fst conn))) = ty) originalConnections;
          allSendPorts = partitioned_ports pl (ly_store st0) (map (\<lambda>c. port (fst c)) typedConnections);
          st1 = fold (\<lambda>p st. placeSendPort st p) allSendPorts st0;
          allReceivePorts = partitioned_ports pl (ly_store st0) (map (\<lambda>c. port (snd c)) typedConnections)
      in foldE (placeReceivePort pl ty typedConnections) st1 allReceivePorts)"

text \<open>For an atomic flow every port gets a buffer of its own.\<close>

definition placeAtomic :: "placement \<Rightarrow> layout \<Rightarrow> layout" where
  "placeAtomic pl st0 =
     fold (\<lambda>p st. placeSendPort st p) (c_audioPorts (comp (ly_store st0) (pl_flow pl))) st0"

section \<open>The pool\<close>

definition usedSampleTypes :: "store \<Rightarrow> nat \<Rightarrow> acmap \<Rightarrow> sample_type list" where
  "usedSampleTypes s flow conns =
     (if c_composite (comp s flow)
      then sort_unique (map (\<lambda>c. ap_sampleType (aport s (port (fst c)))) conns)
      else sort_unique (map (\<lambda>p. ap_sampleType (aport s p)) (c_audioPorts (comp s flow))))"

type_synonym tables = "(sample_type \<times> offsets \<times> offsets) list"

text \<open>
  The first run of the loop over the sample types: each starts with empty offset tables.
\<close>

definition placeType ::
  "placement \<Rightarrow> nat \<Rightarrow> acmap \<Rightarrow> layout \<times> tables \<times> nat \<Rightarrow> sample_type \<Rightarrow> exn + (layout \<times> tables \<times> nat)" where
  "placeType pl blockSize conns acc ty =
     (case acc of (st, tables, totalAudioPoolSize) \<Rightarrow>
        let st0 = st\<lparr>sendOffsets := [], receiveOffsets := [], sendPortOffset := 0\<rparr>
        in bindE (if c_composite (comp (ly_store st0) (pl_flow pl)) then placeComposite pl conns ty st0
                  else Inr (placeAtomic pl st0)) (\<lambda>st'.
           Inr (st', tables @ [(ty, sendOffsets st', receiveOffsets st')],
                totalAudioPoolSize + sendPortOffset st' * channelSize blockSize ty)))"

definition configurePort :: "nat \<Rightarrow> nat \<Rightarrow> nat \<Rightarrow> nat \<times> nat \<Rightarrow> store \<Rightarrow> store" where
  "configurePort typeBase channelSizeBytes channelSizeSamples entry s =
     s\<lparr>aports := (aports s)(fst entry \<mapsto>
        setBufferConfig (typeBase + channelSizeBytes * snd entry) channelSizeSamples (aport s (fst entry)))\<rparr>"

text \<open>The second run: the buffers of one sample type, behind those of the previous ones.\<close>

definition assignBuffers ::
  "nat \<Rightarrow> nat \<Rightarrow> store \<times> nat \<Rightarrow> sample_type \<times> offsets \<times> offsets \<Rightarrow> exn + (store \<times> nat)" where
  "assignBuffers blockSize poolBase acc table =
     (case acc of (s, poolOffsetBytes) \<Rightarrow> case table of (ty, sends, receives) \<Rightarrow>
        let typeOffset = poolOffsetBytes;
            channelSizeBytes = channelSize blockSize ty
        in if channelSizeBytes mod typeSize ty \<noteq> 0 then Inl logic_error
           else let channelSizeSamples = channelSizeBytes div typeSize ty;
                    cfg = configurePort (poolBase + typeOffset) channelSizeBytes channelSizeSamples;
                    typedChannelCount = (\<Sum>e\<leftarrow>sends. ap_width (aport s (fst e)));
                    s1 = fold cfg sends s;
                    s2 = fold cfg receives s1
                in Inr (s2, poolOffsetBytes + typedChannelCount * channelSizeBytes))"

text \<open>The pointers to the channels of some top-level ports; a null base pointer is 0.\<close>

definition basePointer :: "audio_port \<Rightarrow> nat" where
  "basePointer p = (case ap_base p of None \<Rightarrow> 0 | Some b \<Rightarrow> b)"

definition channelPointers :: "store \<Rightarrow> nat list \<Rightarrow> nat list" where
  "channelPointers s ps =
     concat (map (\<lambda>p. map (\<lambda>chIdx. basePointer (aport s p) + chIdx * channelStrideBytes (aport s p))
       [0..<ap_width (aport s p)]) ps)"

record audio_setup =
  as_store :: store
  as_infrastructure :: "routing_internal list"
  as_poolSize :: nat
  mTopLevelAudioInputs :: "nat list"
  mTopLevelAudioOutputs :: "nat list"
  mCaptureChannels :: "nat list"
  mPlaybackChannels :: "nat list"
  finalConnections :: acmap

definition topLevelPorts :: "store \<Rightarrow> nat \<Rightarrow> direction \<Rightarrow> nat list" where
  "topLevelPorts s flow d = filter (\<lambda>p. ap_direction (aport s p) = d) (c_audioPorts (comp s flow))"

definition initialiseAudioConnections ::
  "placement \<Rightarrow> nat \<Rightarrow> nat \<Rightarrow> store \<Rightarrow> acmap \<Rightarrow> exn + audio_setup" where
  "initialiseAudioConnections pl blockSize poolBase s originalConnections =
     (let types = usedSampleTypes s (pl_flow pl) originalConnections;
          st0 = \<lparr>ly_store = s, sendOffsets = [], receiveOffsets = [], sendPortOffset = 0,
                 tmpConnections = [], mInfrastructureComponents = []\<rparr>
      in bindE (foldE (placeType pl blockSize originalConnections) (st0, [], 0) types)
           (\<lambda>(st, tables, totalAudioPoolSize).
         bindE (foldE (assignBuffers blockSize poolBase) (ly_store st, 0) tables)
           (\<lambda>(s', poolOffsetBytes).
         if poolOffsetBytes \<noteq> totalAudioPoolSize then Inl logic_error
         else let inputs = topLevelPorts s' (pl_flow pl) Input;
                  outputs = topLevelPorts s' (pl_flow pl) Output
              in Inr \<lparr>as_store = s', as_infrastructure = mInfrastructureComponents st,
                      as_poolSize = totalAudioPoolSize,
                      mTopLevelAudioInputs = inputs, mTopLevelAudioOutputs = outputs,
                      mCaptureChannels = channelPointers s' inputs,
                      mPlaybackChannels = channelPointers s' outputs,
                      finalConnections = tmpConnections st\<rparr>)))"

end
