(* ===== verification/Buffer_Placement.thy ===== *)
theory Buffer_Placement
  imports Buffer_Layout
begin

text \<open>
  The placement of the ports of a flow in the channel sequence of a sample type
  (\<open>src/librrl/audio_signal_flow.cpp\<close>): what the offset tables satisfy, and that every step of
  \<^const>\<open>placeReceivePort\<close> keeps it.
\<close>

section \<open>The channels that feed a port\<close>

text \<open>The state of the loop of \<^const>\<open>sendChannels\<close> after the connections \<open>done\<close>.\<close>

definition send_range :: "nat \<Rightarrow> nat \<Rightarrow> acmap \<Rightarrow> audio_channel option list \<Rightarrow> bool" where
  "send_range p width processed acc \<longleftrightarrow>
     length acc = width \<and>
     (\<forall>i < width. \<forall>a. acc ! i = Some a \<longleftrightarrow> (a, AudioChannel p i) \<in> set processed) \<and>
     (\<forall>c \<in> set processed. channel (snd c) < width) \<and>
     card {i. i < width \<and> acc ! i \<noteq> None} = length processed"

lemma send_range_step:
  assumes inv: "send_range p width processed acc" and p: "port (snd c) = p"
    and f: "fillSendChannel width acc c = Inr acc'"
  shows "send_range p width (processed @ [c]) acc'"
proof -
  obtain a r where c: "c = (a, AudioChannel p r)" using p by (metis audio_channel.collapse prod.collapse)
  have len: "length acc = width" and card: "card {i. i < width \<and> acc ! i \<noteq> None} = length processed"
    and ent: "\<And>i b. i < width \<Longrightarrow> acc ! i = Some b \<longleftrightarrow> (b, AudioChannel p i) \<in> set processed"
    and bd: "\<forall>c \<in> set processed. channel (snd c) < width"
    using inv by (auto simp: send_range_def)
  have r: "r < width" "acc ! r = None" "acc' = acc[r := Some a]"
    using f c by (auto simp: fillSendChannel_def Let_def split: if_splits)
  have "{i. i < width \<and> acc' ! i \<noteq> None} = insert r {i. i < width \<and> acc ! i \<noteq> None}"
    using r len by (auto simp: nth_list_update)
  then have "card {i. i < width \<and> acc' ! i \<noteq> None} = Suc (length processed)"
    using r(2) card by simp
  moreover have "acc' ! i = Some b \<longleftrightarrow> (b, AudioChannel p i) \<in> set (processed @ [c])" if "i < width" for i b
    using ent [OF that, of b] ent [OF r(1), of b] r len c that by (auto simp: nth_list_update)
  ultimately show ?thesis using len r bd c by (auto simp: send_range_def)
qed

lemma send_range_fold:
  "\<lbrakk>send_range p width processed acc; \<forall>c \<in> set cs. port (snd c) = p;
    foldE (fillSendChannel width) acc cs = Inr acc'\<rbrakk> \<Longrightarrow> send_range p width (processed @ cs) acc'"
proof (induction cs arbitrary: processed acc)
  case (Cons c cs)
  from Cons.prems(3) obtain u where
    u: "fillSendChannel width acc c = Inr u" "foldE (fillSendChannel width) u cs = Inr acc'" by auto
  have "send_range p width (processed @ [c]) u"
    using send_range_step [OF Cons.prems(1) _ u(1)] Cons.prems(2) by simp
  then show ?case using Cons.IH [OF _ _ u(2), of "processed @ [c]"] Cons.prems(2) by simp
qed simp

lemma send_range_init: "send_range p width [] (replicate width None)"
  by (auto simp: send_range_def)

lemma send_range_full:
  assumes "send_range p width cs acc" "length cs = width" "i < width"
  shows "\<exists>a. acc ! i = Some a"
proof -
  have "{j. j < width \<and> acc ! j \<noteq> None} = {..<width}"
    using assms by (intro card_subset_eq) (auto simp: send_range_def)
  then show ?thesis using assms(3) by auto
qed

lemma sendChannels_full:
  assumes "sendChannels s p conns = Inr sends"
  shows "length sends = ap_width (aport s p)"
    and "i < ap_width (aport s p) \<Longrightarrow> (a, AudioChannel p i) \<in> set conns \<longleftrightarrow> sends ! i = a"
    and "(a, b) \<in> set conns \<Longrightarrow> port b = p \<Longrightarrow> channel b < ap_width (aport s p)"
proof -
  let ?w = "ap_width (aport s p)" and ?cs = "filter (\<lambda>conn. port (snd conn) = p) conns"
  obtain acc where len: "length ?cs = ?w" and sends: "sends = map the acc"
    and f: "foldE (fillSendChannel ?w) (replicate ?w None) ?cs = Inr acc"
    using assms by (auto simp: sendChannels_def Let_def split: if_splits)
  have R: "send_range p ?w ?cs acc"
    using send_range_fold [OF send_range_init _ f] by simp
  have "length acc = ?w" using R by (simp add: send_range_def)
  then show "length sends = ?w" using sends by simp
  show "(a, b) \<in> set conns \<Longrightarrow> port b = p \<Longrightarrow> channel b < ?w"
    using R by (auto simp: send_range_def)
  show "(a, AudioChannel p i) \<in> set conns \<longleftrightarrow> sends ! i = a" if i: "i < ?w"
  proof -
    obtain a' where a': "acc ! i = Some a'" using send_range_full [OF R len i] by blast
    have "acc ! i = Some a \<longleftrightarrow> (a, AudioChannel p i) \<in> set ?cs" using R i by (simp add: send_range_def)
    then show ?thesis using a' sends i \<open>length acc = ?w\<close> by auto
  qed
qed

text \<open>
  The checks pass exactly if every channel of the port has one sender.
\<close>

definition fed_exactly :: "store \<Rightarrow> acmap \<Rightarrow> nat \<Rightarrow> bool" where
  "fed_exactly s conns p \<longleftrightarrow>
     (let channels = map (channel \<circ> snd) (filter (\<lambda>c. port (snd c) = p) conns)
      in distinct channels \<and> set channels = {..<ap_width (aport s p)})"

lemma fillSendChannel_total:
  "\<lbrakk>distinct (map (channel \<circ> snd) cs); \<forall>c \<in> set cs. channel (snd c) < width; length acc = width;
    \<forall>c \<in> set cs. acc ! channel (snd c) = None\<rbrakk> \<Longrightarrow> \<exists>acc'. foldE (fillSendChannel width) acc cs = Inr acc'"
proof (induction cs arbitrary: acc)
  case (Cons c cs)
  let ?acc = "acc[channel (snd c) := Some (fst c)]"
  have "fillSendChannel width acc c = Inr ?acc"
    using Cons.prems by (simp add: fillSendChannel_def Let_def)
  moreover have "\<forall>c' \<in> set cs. ?acc ! channel (snd c') = None"
    using Cons.prems by (auto simp: nth_list_update image_iff)
  ultimately show ?case using Cons.IH [of ?acc] Cons.prems by simp
qed simp

lemma sendChannels_total:
  "(\<exists>sends. sendChannels s p conns = Inr sends) \<longleftrightarrow> fed_exactly s conns p"
proof
  let ?w = "ap_width (aport s p)" and ?cs = "filter (\<lambda>conn. port (snd conn) = p) conns"
  let ?f = "map (channel \<circ> snd) ?cs"
  {
    assume "fed_exactly s conns p"
    then have d: "distinct ?f" and s: "set ?f = {..<?w}" by (simp_all add: fed_exactly_def Let_def)
    have "length ?cs = ?w" using distinct_card [OF d] s by simp
    moreover note d
    moreover have "\<forall>c \<in> set ?cs. channel (snd c) < ?w"
    proof
      fix c assume "c \<in> set ?cs"
      then have "(channel \<circ> snd) c \<in> set ?f" by (metis image_eqI list.set_map)
      then show "channel (snd c) < ?w" using s by simp
    qed
    moreover from this have "\<forall>c \<in> set ?cs. replicate ?w None ! channel (snd c) = None" by (metis nth_replicate)
    ultimately obtain acc where "foldE (fillSendChannel ?w) (replicate ?w None) ?cs = Inr acc"
      using fillSendChannel_total [of ?cs ?w "replicate ?w None"] by auto
    then show "\<exists>sends. sendChannels s p conns = Inr sends"
      using \<open>length ?cs = ?w\<close> by (simp add: sendChannels_def Let_def)
  next
    assume "\<exists>sends. sendChannels s p conns = Inr sends"
    then obtain acc where len: "length ?cs = ?w"
      and f: "foldE (fillSendChannel ?w) (replicate ?w None) ?cs = Inr acc"
      by (auto simp: sendChannels_def Let_def split: if_splits)
    have R: "send_range p ?w ?cs acc" using send_range_fold [OF send_range_init _ f] by simp
    have "set ?f = {..<?w}"
    proof
      show "set ?f \<subseteq> {..<?w}" using R by (auto simp: send_range_def)
      show "{..<?w} \<subseteq> set ?f"
      proof
        fix i assume "i \<in> {..<?w}"
        then have i: "i < ?w" by simp
        obtain a where "acc ! i = Some a" using send_range_full [OF R len i] by blast
        then have "(a, AudioChannel p i) \<in> set ?cs" using R i by (simp add: send_range_def)
        then have "(channel \<circ> snd) (a, AudioChannel p i) \<in> set ?f" by (metis image_eqI list.set_map)
        then show "i \<in> set ?f" by simp
      qed
    qed
    then have "distinct ?f" using len by (intro card_distinct) simp
    then show "fed_exactly s conns p"
      using \<open>set ?f = {..<?w}\<close> by (simp add: fed_exactly_def Let_def)
  }
qed

section \<open>Contiguous ranges\<close>

definition loc :: "offsets \<Rightarrow> audio_channel \<Rightarrow> nat" where
  "loc m a = the (map_of m (port a)) + channel a"

lemma contiguousRange_total:
  "\<forall>a \<in> set cs. port a \<in> fst ` set m \<Longrightarrow>
   contiguousRange m cs = Inr (\<forall>i. Suc i < length cs \<longrightarrow> loc m (cs ! Suc i) = Suc (loc m (cs ! i)))"
proof (induction m cs rule: contiguousRange.induct)
  case (1 m a b cs)
  obtain oa ob where o: "map_of m (port a) = Some oa" "map_of m (port b) = Some ob"
    using 1(2) by (metis list.set_intros map_of_eq_None_iff not_None_eq set_subset_Cons subsetD)
  have split: "(\<forall>i. Suc i < length (a # b # cs) \<longrightarrow> loc m ((a # b # cs) ! Suc i) = Suc (loc m ((a # b # cs) ! i)))
     \<longleftrightarrow> loc m b = Suc (loc m a) \<and> (\<forall>i. Suc i < length (b # cs) \<longrightarrow> loc m ((b # cs) ! Suc i) = Suc (loc m ((b # cs) ! i)))"
    (is "?L \<longleftrightarrow> ?R")
  proof
    assume ?L
    then show ?R by (metis Suc_less_eq length_Cons nth_Cons_0 nth_Cons_Suc zero_less_Suc)
  next
    assume R: ?R
    show ?L
    proof (intro allI impI)
      fix i assume "Suc i < length (a # b # cs)"
      with R show "loc m ((a # b # cs) ! Suc i) = Suc (loc m ((a # b # cs) ! i))" by (cases i) auto
    qed
  qed
  show ?case
  proof (cases "loc m b = Suc (loc m a)")
    case True
    then have "contiguousRange m (a # b # cs) = contiguousRange m (b # cs)"
      using o by (simp add: offset_at_def loc_def)
    then show ?thesis using 1(1) [of oa ob] 1(2) o True by (simp only: split) (simp add: loc_def)
  next
    case False
    then show ?thesis using o by (simp only: split) (simp add: offset_at_def loc_def)
  qed
qed simp_all

lemma contiguous_loc:
  "\<forall>i. Suc i < length cs \<longrightarrow> loc m (cs ! Suc i) = Suc (loc m (cs ! i)) \<Longrightarrow>
   i < length cs \<Longrightarrow> loc m (cs ! i) = loc m (cs ! 0) + i"
  by (induction i) auto

section \<open>Channel ranges that do not overlap\<close>

text \<open>
  \<open>packed w m n\<close>: the ports of the table \<open>m\<close>, of widths \<open>w\<close>, fill the channels below \<open>n\<close>
  without overlap and without gaps.
\<close>

definition packed :: "(nat \<Rightarrow> nat) \<Rightarrow> offsets \<Rightarrow> nat \<Rightarrow> bool" where
  "packed w m n \<longleftrightarrow>
     sorted_wrt (<) (map fst m) \<and>
     (\<Sum>e\<leftarrow>m. w (fst e)) = n \<and>
     (\<forall>(p, k) \<in> set m. k + w p \<le> n) \<and>
     (\<forall>(p, k) \<in> set m. \<forall>(q, l) \<in> set m. p \<noteq> q \<longrightarrow> k + w p \<le> l \<or> l + w q \<le> k) \<and>
     (\<forall>x < n. \<exists>(p, k) \<in> set m. k \<le> x \<and> x < k + w p)"

lemma packed_empty: "packed w [] 0"
  by (simp add: packed_def)

lemma map_insert_new:
  "sorted_wrt (<) (map fst m) \<Longrightarrow> k \<notin> fst ` set m \<Longrightarrow> set (map_insert k v m) = insert (k, v) (set m)"
  by (induction k v m rule: map_insert.induct) auto

lemma sum_map_insert_new:
  fixes g :: "'k::linorder \<times> 'v \<Rightarrow> nat"
  shows "k \<notin> fst ` set m \<Longrightarrow> (\<Sum>e\<leftarrow>map_insert k v m. g e) = g (k, v) + (\<Sum>e\<leftarrow>m. g e)"
  by (induction k v m rule: map_insert.induct) auto

lemma packedD:
  assumes "packed w m n"
  shows "sorted_wrt (<) (map fst m)" and "(\<Sum>e\<leftarrow>m. w (fst e)) = n"
    and "(p, k) \<in> set m \<Longrightarrow> k + w p \<le> n"
    and "(p, k) \<in> set m \<Longrightarrow> (q, l) \<in> set m \<Longrightarrow> p \<noteq> q \<Longrightarrow> k + w p \<le> l \<or> l + w q \<le> k"
    and "x < n \<Longrightarrow> \<exists>p k. (p, k) \<in> set m \<and> k \<le> x \<and> x < k + w p"
  using assms unfolding packed_def by blast+

lemma packedI:
  assumes "sorted_wrt (<) (map fst m)" and "(\<Sum>e\<leftarrow>m. w (fst e)) = n"
    and "\<And>p k. (p, k) \<in> set m \<Longrightarrow> k + w p \<le> n"
    and "\<And>p k q l. (p, k) \<in> set m \<Longrightarrow> (q, l) \<in> set m \<Longrightarrow> p \<noteq> q \<Longrightarrow> k + w p \<le> l \<or> l + w q \<le> k"
    and "\<And>x. x < n \<Longrightarrow> \<exists>p k. (p, k) \<in> set m \<and> k \<le> x \<and> x < k + w p"
  shows "packed w m n"
  unfolding packed_def using assms by blast

lemma packed_insert:
  assumes P: "packed w m n" and new: "p \<notin> fst ` set m"
  shows "packed w (map_insert p n m) (n + w p)"
proof (rule packedI)
  note s = packedD(1) [OF P]
  have set: "set (map_insert p n m) = insert (p, n) (set m)" using map_insert_new [OF s new] .
  show "sorted_wrt (<) (map fst (map_insert p n m))" by (rule sorted_map_insert [OF s])
  show "(\<Sum>e\<leftarrow>map_insert p n m. w (fst e)) = n + w p"
    using sum_map_insert_new [OF new, of "\<lambda>e. w (fst e)" n] packedD(2) [OF P] by simp
  show "k + w q \<le> n + w p" if "(q, k) \<in> set (map_insert p n m)" for q k
    using that packedD(3) [OF P] unfolding set by fastforce
  show "k + w q \<le> l \<or> l + w r \<le> k"
    if "(q, k) \<in> set (map_insert p n m)" "(r, l) \<in> set (map_insert p n m)" "q \<noteq> r" for q k r l
    using packedD(3) [OF P, of q k] packedD(3) [OF P, of r l] packedD(4) [OF P, of q k r l] that
    unfolding set by auto
  show "\<exists>q k. (q, k) \<in> set (map_insert p n m) \<and> k \<le> x \<and> x < k + w q" if x: "x < n + w p" for x
  proof (cases "x < n")
    case True
    then show ?thesis using packedD(5) [OF P] unfolding set by blast
  next
    case False
    then show ?thesis unfolding set using x by (intro exI [of _ p] exI [of _ n]) simp
  qed
qed

lemma packed_cong:
  assumes P: "packed w m n" and eq: "\<And>p k. (p, k) \<in> set m \<Longrightarrow> w' p = w p"
  shows "packed w' m n"
proof (rule packedI)
  have "map (\<lambda>e. w' (fst e)) m = map (\<lambda>e. w (fst e)) m" using eq by auto
  then show "(\<Sum>e\<leftarrow>m. w' (fst e)) = n" using packedD(2) [OF P] by metis
  show "k + w' p \<le> n" if "(p, k) \<in> set m" for p k
    using packedD(3) [OF P that] eq [OF that] by simp
  show "k + w' p \<le> l \<or> l + w' q \<le> k" if "(p, k) \<in> set m" "(q, l) \<in> set m" "p \<noteq> q" for p k q l
    using packedD(4) [OF P that] eq [OF that(1)] eq [OF that(2)] by simp
  show "\<exists>p k. (p, k) \<in> set m \<and> k \<le> x \<and> x < k + w' p" if "x < n" for x
    using packedD(5) [OF P that] eq by metis
qed (rule packedD(1) [OF P])

lemma packed_find:
  assumes "packed w m n" "x < n"
  shows "\<exists>p k. List.find (\<lambda>e. snd e \<le> x \<and> x < snd e + w (fst e)) m = Some (p, k) \<and>
    (p, k) \<in> set m \<and> k \<le> x \<and> x < k + w p"
proof -
  obtain e where "e \<in> set m" "snd e \<le> x \<and> x < snd e + w (fst e)"
    using assms by (force simp: packed_def)
  then obtain e' where "List.find (\<lambda>e. snd e \<le> x \<and> x < snd e + w (fst e)) m = Some e'"
    using find_SomeI [of e m "\<lambda>e. snd e \<le> x \<and> x < snd e + w (fst e)"] by blast
  then show ?thesis using find_SomeD [of _ m e'] by (cases e') fastforce
qed

text \<open>Two channels of packed ports at the same position are the same channel.\<close>

lemma packed_inj:
  assumes "packed w m n" "port a \<in> fst ` set m" "port b \<in> fst ` set m"
    and "channel a < w (port a)" "channel b < w (port b)" "loc m a = loc m b"
  shows "a = b"
proof -
  have s: "sorted_wrt (<) (map fst m)" using assms(1) by (simp add: packed_def)
  obtain k l where kl: "(port a, k) \<in> set m" "(port b, l) \<in> set m" using assms(2,3) by auto
  then have m: "map_of m (port a) = Some k" "map_of m (port b) = Some l"
    using map_of_sorted_iff [OF s] by auto
  have "port a = port b"
  proof (rule ccontr)
    assume "port a \<noteq> port b"
    then have "k + w (port a) \<le> l \<or> l + w (port b) \<le> k"
      using assms(1) kl unfolding packed_def by blast
    then show False using assms(4-6) m by (auto simp: loc_def)
  qed
  then show ?thesis using assms(6) m by (auto simp: loc_def intro: audio_channel.expand)
qed

lemma packed_bound:
  assumes "packed w m n" "port a \<in> fst ` set m" "channel a < w (port a)"
  shows "loc m a < n"
proof -
  have s: "sorted_wrt (<) (map fst m)" using assms(1) by (simp add: packed_def)
  obtain k where k: "(port a, k) \<in> set m" using assms(2) by auto
  then have "map_of m (port a) = Some k" "k + w (port a) \<le> n"
    using map_of_sorted_iff [OF s] assms(1) by (auto simp: packed_def)
  then show ?thesis using assms(3) by (simp add: loc_def)
qed

lemma map_of_map_insert_new:
  "sorted_wrt (<) (map fst m) \<Longrightarrow> k \<notin> fst ` set m \<Longrightarrow>
   map_of (map_insert k v m) x = (if x = k then Some v else map_of m x)"
  by (simp add: map_of_map_insert map_of_eq_None_iff)

lemma loc_map_insert:
  "sorted_wrt (<) (map fst m) \<Longrightarrow> k \<notin> fst ` set m \<Longrightarrow>
   loc (map_insert k v m) a = (if port a = k then v + channel a else loc m a)"
  by (simp add: loc_def map_of_map_insert_new)

section \<open>Placing the sending ports\<close>

definition widths :: "store \<Rightarrow> nat \<Rightarrow> nat" where
  "widths s p = ap_width (aport s p)"

lemma placeSendPort_simps [simp]:
  "ly_store (placeSendPort st p) = ly_store st"
  "receiveOffsets (placeSendPort st p) = receiveOffsets st"
  "tmpConnections (placeSendPort st p) = tmpConnections st"
  "mInfrastructureComponents (placeSendPort st p) = mInfrastructureComponents st"
  by (simp_all add: placeSendPort_def)

lemma fold_placeSendPort_all:
  "\<lbrakk>distinct ps; set ps \<inter> fst ` set (sendOffsets st) = {};
    packed (widths (ly_store st)) (sendOffsets st) (sendPortOffset st);
    st' = fold (\<lambda>p st. placeSendPort st p) ps st\<rbrakk> \<Longrightarrow>
   packed (widths (ly_store st)) (sendOffsets st') (sendPortOffset st') \<and>
   fst ` set (sendOffsets st') = set ps \<union> fst ` set (sendOffsets st) \<and>
   ly_store st' = ly_store st \<and> receiveOffsets st' = receiveOffsets st \<and>
   tmpConnections st' = tmpConnections st \<and>
   mInfrastructureComponents st' = mInfrastructureComponents st"
proof (induction ps arbitrary: st)
  case (Cons p ps)
  let ?st = "placeSendPort st p"
  have "packed (widths (ly_store st)) (sendOffsets ?st) (sendPortOffset ?st)"
    using packed_insert [OF Cons.prems(3), of p] Cons.prems(2)
    by (simp add: placeSendPort_def) (simp add: widths_def)
  moreover have k: "fst ` set (sendOffsets ?st) = insert p (fst ` set (sendOffsets st))"
    by (simp add: placeSendPort_def)
  ultimately show ?case using Cons.IH [of ?st] Cons.prems by auto
qed simp

lemmas fold_placeSendPort =
  fold_placeSendPort_all [THEN conjunct1]
  fold_placeSendPort_all [THEN conjunct2, THEN conjunct1]
  fold_placeSendPort_all [THEN conjunct2, THEN conjunct2]

section \<open>The routing component in the store\<close>

lemma createSignalRoutingComponent_eq:
  "createSignalRoutingComponent s new ty nm parent w idx =
     (if ty = complexFloatId \<or> ty = complexDoubleId then Inl invalid_argument
      else SignalRoutingInternal s new ty nm parent w idx)"
  by (cases ty) simp_all

lemma create_routing:
  assumes "createSignalRoutingComponent s (c, i, out) ty nm fl w idx = Inr (r, s')"
    and "comps s c = None" "i \<noteq> out" "fl \<noteq> c"
  shows "r = \<lparr>ri_component = c, ri_input = i, ri_output = out, ri_indices = idx\<rparr>"
    and "aports s' = (aports s)(
       i \<mapsto> \<lparr>ap_name = ''in'', ap_parent = Some c, ap_direction = Input, ap_sampleType = ty,
            ap_width = w, ap_base = None, ap_stride = 0\<rparr>,
       out \<mapsto> \<lparr>ap_name = ''out'', ap_parent = Some c, ap_direction = Output, ap_sampleType = ty,
            ap_width = length idx, ap_base = None, ap_stride = 0\<rparr>)"
    and "comps s' = (comps s)(
       fl \<mapsto> (comp s fl)\<lparr>c_components := c_components (comp s fl) @ [c]\<rparr>,
       c \<mapsto> \<lparr>c_name = nm, c_parent = Some fl, c_composite = False, c_audioPorts = [i, out],
            c_parameterPorts = [], c_components = [], c_audioConnections = [],
            c_parameterConnections = []\<rparr>)"
    and "pports s' = pports s"
    and "idx \<noteq> [] \<Longrightarrow> Max (set idx) < w"
    and "findAudioPortEntry s' c ''in'' = Some i" "findAudioPortEntry s' c ''out'' = Some out"
proof -
  have eq: "SignalRoutingInternal s (c, i, out) ty nm fl w idx = Inr (r, s')"
    using assms(1) by (auto simp: createSignalRoutingComponent_eq split: if_splits)
  note defs = Component_ctor_def registerChildComponent_def AudioPort_ctor_def
    registerAudioPort_def findAudioPortEntry_def upd_comp_def Let_def
  show "r = \<lparr>ri_component = c, ri_input = i, ri_output = out, ri_indices = idx\<rparr>"
    using eq by (auto simp: Let_def split: if_splits)
  show a: "aports s' = (aports s)(
       i \<mapsto> \<lparr>ap_name = ''in'', ap_parent = Some c, ap_direction = Input, ap_sampleType = ty,
            ap_width = w, ap_base = None, ap_stride = 0\<rparr>,
       out \<mapsto> \<lparr>ap_name = ''out'', ap_parent = Some c, ap_direction = Output, ap_sampleType = ty,
            ap_width = length idx, ap_base = None, ap_stride = 0\<rparr>)"
    using eq assms(2-4) by (auto simp: defs split: if_splits)
  show p: "comps s' = (comps s)(
       fl \<mapsto> (comp s fl)\<lparr>c_components := c_components (comp s fl) @ [c]\<rparr>,
       c \<mapsto> \<lparr>c_name = nm, c_parent = Some fl, c_composite = False, c_audioPorts = [i, out],
            c_parameterPorts = [], c_components = [], c_audioConnections = [],
            c_parameterConnections = []\<rparr>)"
    using eq assms(2-4) by (auto simp: defs fun_eq_iff split: if_splits)
  show "pports s' = pports s"
    using eq assms(2-4) by (auto simp: defs split: if_splits)
  show "idx \<noteq> [] \<Longrightarrow> Max (set idx) < w"
    using eq by (auto simp: Let_def not_le simp del: Max_less_iff split: if_splits)
  show "findAudioPortEntry s' c ''in'' = Some i" "findAudioPortEntry s' c ''out'' = Some out"
    using assms(3,4) by (simp_all add: findAudioPortEntry_def a p)
qed

text \<open>When the creation succeeds.\<close>

lemma create_routing_total:
  assumes "ty \<noteq> complexFloatId" "ty \<noteq> complexDoubleId" "fl \<noteq> c" "i \<noteq> out"
    and "nm \<notin> (\<lambda>k. c_name (comp s k)) ` set (c_components (comp s fl))" "c \<notin> set (c_components (comp s fl))"
    and "idx \<noteq> []" "Max (set idx) < w"
  shows "\<exists>r s'. createSignalRoutingComponent s (c, i, out) ty nm fl w idx = Inr (r, s')"
proof -
  have "List.find (\<lambda>k. (if k = c then nm else c_name (comp s k)) = nm) (c_components (comp s fl)) = None"
    using assms(5,6) by (auto simp: find_None_iff)
  then have "List.find (\<lambda>k. c_name (the (((comps s)(c \<mapsto> \<lparr>c_name = nm, c_parent = Some fl, c_composite = False,
      c_audioPorts = [], c_parameterPorts = [], c_components = [], c_audioConnections = [],
      c_parameterConnections = []\<rparr>)) k)) = nm) (c_components (comp s fl)) = None"
    using assms(5,6) by (auto simp: find_None_iff)
  then show ?thesis using assms
    by (auto simp: createSignalRoutingComponent_eq Component_ctor_def registerChildComponent_def
        findComponentEntry_def AudioPort_ctor_def registerAudioPort_def findAudioPortEntry_def upd_comp_def Let_def
        simp del: Max_less_iff)
qed

section \<open>What the placement of the ports maintains\<close>

abbreviation keys :: "offsets \<Rightarrow> nat set" where "keys m \<equiv> fst ` set m"

text \<open>The offset tables of one sample type.\<close>

definition table_ok :: "store \<Rightarrow> sample_type \<Rightarrow> offsets \<Rightarrow> offsets \<Rightarrow> nat \<Rightarrow> bool" where
  "table_ok s ty snds rcvs n \<longleftrightarrow>
     packed (widths s) snds n \<and> sorted_wrt (<) (map fst rcvs) \<and> keys snds \<inter> keys rcvs = {} \<and>
     (\<forall>p \<in> keys snds \<union> keys rcvs. aports s p \<noteq> None \<and> ap_sampleType (aport s p) = ty)"

text \<open>A connection leads from a channel of the first table to the same position of the second.\<close>

definition placed :: "store \<Rightarrow> offsets \<Rightarrow> offsets \<Rightarrow> audio_channel \<times> audio_channel \<Rightarrow> bool" where
  "placed s snds rcvs c \<longleftrightarrow>
     port (fst c) \<in> keys snds \<and> channel (fst c) < widths s (port (fst c)) \<and>
     port (snd c) \<in> keys rcvs \<and> channel (snd c) < widths s (port (snd c)) \<and>
     loc snds (fst c) = loc rcvs (snd c)"

text \<open>The audio ports that exist stay as they are.\<close>

definition ports_extend :: "store \<Rightarrow> store \<Rightarrow> bool" where
  "ports_extend s s' \<longleftrightarrow> (\<forall>p. aports s p \<noteq> None \<longrightarrow> aports s' p = aports s p)"

lemma ports_extendD: "ports_extend s s' \<Longrightarrow> aports s p \<noteq> None \<Longrightarrow> aports s' p = aports s p"
  by (simp add: ports_extend_def)

lemma ports_extend_refl [simp]: "ports_extend s s"
  by (simp add: ports_extend_def)

lemma ports_extend_trans: "ports_extend s t \<Longrightarrow> ports_extend t u \<Longrightarrow> ports_extend s u"
  unfolding ports_extend_def by metis

lemma table_ok_extend:
  assumes "table_ok s ty snds rcvs n" "ports_extend s s'"
  shows "table_ok s' ty snds rcvs n"
proof -
  have eq: "aports s' p = aports s p" if "p \<in> keys snds \<union> keys rcvs" for p
    using assms that unfolding table_ok_def ports_extend_def by metis
  have "packed (widths s) snds n" using assms(1) by (simp add: table_ok_def)
  then have "packed (widths s') snds n"
    by (rule packed_cong) (use eq in \<open>force simp: widths_def\<close>)
  moreover have "\<forall>p \<in> keys snds \<union> keys rcvs. aports s' p \<noteq> None \<and> ap_sampleType (aport s' p) = ty"
    using eq assms(1) unfolding table_ok_def by metis
  ultimately show ?thesis using assms(1) unfolding table_ok_def by blast
qed

lemma placed_extend:
  assumes "placed s snds rcvs c" "table_ok s ty snds rcvs n" "ports_extend s s'"
  shows "placed s' snds rcvs c"
proof -
  have "widths s' p = widths s p" if "p \<in> keys snds \<union> keys rcvs" for p
    using assms(2,3) that unfolding widths_def table_ok_def ports_extend_def by metis
  then show ?thesis using assms(1) by (simp add: placed_def)
qed

text \<open>
  The connections that a set of channel connections realises: directly, or through one routing
  component.
\<close>

definition delivers ::
  "(audio_channel \<times> audio_channel) set \<Rightarrow> routing_internal set \<Rightarrow> (audio_channel \<times> audio_channel) set" where
  "delivers C I =
     {(a, b). (a, b) \<in> C \<and> port a \<notin> ri_output ` I \<and> port b \<notin> ri_input ` I} \<union>
     {(a, b). \<exists>r \<in> I. \<exists>j < length (ri_indices r).
        (a, AudioChannel (ri_input r) (ri_indices r ! j)) \<in> C \<and> (AudioChannel (ri_output r) j, b) \<in> C}"

definition conn_ports :: "(audio_channel \<times> audio_channel) set \<Rightarrow> nat set" where
  "conn_ports C = port ` fst ` C \<union> port ` snd ` C"

definition routing_ports :: "routing_internal set \<Rightarrow> nat set" where
  "routing_ports I = ri_input ` I \<union> ri_output ` I"

lemma conn_portsI: "(a, b) \<in> C \<Longrightarrow> port a \<in> conn_ports C" "(a, b) \<in> C \<Longrightarrow> port b \<in> conn_ports C"
  unfolding conn_ports_def by force+

lemma conn_ports_Un: "conn_ports (C \<union> D) = conn_ports C \<union> conn_ports D"
  by (auto simp: conn_ports_def)

lemma routing_portsI: "r \<in> I \<Longrightarrow> ri_input r \<in> routing_ports I" "r \<in> I \<Longrightarrow> ri_output r \<in> routing_ports I"
  unfolding routing_ports_def by auto

lemma delivers_direct:
  assumes "conn_ports L \<inter> routing_ports I = {}"
  shows "delivers (C \<union> L) I = delivers C I \<union> L"
proof -
  have fresh: "port a \<noteq> ri_input r \<and> port a \<noteq> ri_output r \<and> port b \<noteq> ri_input r \<and> port b \<noteq> ri_output r"
    if "(a, b) \<in> L" "r \<in> I" for a b r
    using assms conn_portsI [OF that(1)] routing_portsI [OF that(2)] by auto
  have n: "(AudioChannel (ri_output r) j, b) \<notin> L" "(a, AudioChannel (ri_input r) j) \<notin> L" if "r \<in> I" for r a b j
    using fresh [OF _ that, of "AudioChannel (ri_output r) j" b]
      fresh [OF _ that, of a "AudioChannel (ri_input r) j"] by auto
  have "{(a, b). (a, b) \<in> C \<union> L \<and> port a \<notin> ri_output ` I \<and> port b \<notin> ri_input ` I} =
      {(a, b). (a, b) \<in> C \<and> port a \<notin> ri_output ` I \<and> port b \<notin> ri_input ` I} \<union> L"
    using fresh by auto
  moreover have "{(a, b). \<exists>r \<in> I. \<exists>j < length (ri_indices r).
        (a, AudioChannel (ri_input r) (ri_indices r ! j)) \<in> C \<union> L \<and> (AudioChannel (ri_output r) j, b) \<in> C \<union> L} =
      {(a, b). \<exists>r \<in> I. \<exists>j < length (ri_indices r).
        (a, AudioChannel (ri_input r) (ri_indices r ! j)) \<in> C \<and> (AudioChannel (ri_output r) j, b) \<in> C}"
    using n by (metis (no_types, lifting) UnE UnI1)
  ultimately show ?thesis unfolding delivers_def by blast
qed

text \<open>
  Adding a routing component: all its ports are new, its inputs are fed by \<open>sends\<close>, and its
  outputs feed the channels of one port.
\<close>

lemma delivers_routed:
  assumes C: "conn_ports C \<inter> {ri_input r, ri_output r} = {}"
    and I: "routing_ports I \<inter> {ri_input r, ri_output r} = {}" "ri_input r \<noteq> ri_output r"
    and p: "p \<notin> routing_ports (insert r I)"
    and s: "\<And>a. a \<in> set sends \<Longrightarrow> port a \<notin> routing_ports (insert r I)"
    and len: "length sends = length (ri_indices r)"
    and ins: "\<And>a i. (a, AudioChannel (ri_input r) i) \<in> A \<longleftrightarrow> (\<exists>j < length sends. a = sends ! j \<and> i = ri_indices r ! j)"
      "\<And>c. c \<in> A \<Longrightarrow> port (snd c) = ri_input r"
    and eq: "\<And>j k. j < length sends \<Longrightarrow> k < length sends \<Longrightarrow>
      (sends ! j = sends ! k) = (ri_indices r ! j = ri_indices r ! k)"
    and B: "B = (\<lambda>j. (AudioChannel (ri_output r) j, AudioChannel p j)) ` {..<length sends}"
  shows "delivers (C \<union> A \<union> B) (insert r I) =
    delivers C I \<union> (\<lambda>j. (sends ! j, AudioChannel p j)) ` {..<length sends}"
proof -
  have A: "port a \<notin> ri_output ` insert r I" "port b = ri_input r" if "(a, b) \<in> A" for a b
  proof -
    show "port b = ri_input r" using ins(2) [OF that] by simp
    then have "(a, AudioChannel (ri_input r) (channel b)) \<in> A" using that by (metis audio_channel.collapse)
    then have "a \<in> set sends" using ins(1) by auto
    then show "port a \<notin> ri_output ` insert r I" using s unfolding routing_ports_def by blast
  qed
  have nC: "port a \<noteq> ri_input r" "port a \<noteq> ri_output r" "port b \<noteq> ri_input r" "port b \<noteq> ri_output r"
    if "(a, b) \<in> C" for a b
    using C conn_portsI [OF that] by auto
  have d: "{(a, b). (a, b) \<in> C \<union> A \<union> B \<and> port a \<notin> ri_output ` insert r I \<and> port b \<notin> ri_input ` insert r I} =
      {(a, b). (a, b) \<in> C \<and> port a \<notin> ri_output ` I \<and> port b \<notin> ri_input ` I}"
    using nC A(2) B by auto
  have old: "(a, AudioChannel (ri_input q) i) \<in> C \<union> A \<union> B \<longleftrightarrow> (a, AudioChannel (ri_input q) i) \<in> C"
      "(AudioChannel (ri_output q) j, b) \<in> C \<union> A \<union> B \<longleftrightarrow> (AudioChannel (ri_output q) j, b) \<in> C"
    if "q \<in> I" for q a b i j
  proof -
    have q: "ri_input q \<noteq> ri_input r" "ri_output q \<noteq> ri_output r" "ri_output q \<noteq> ri_input r" "ri_input q \<noteq> p"
      using I(1) p that unfolding routing_ports_def by (metis IntI UnCI empty_iff imageI insertCI insertI1)+
    then show "(a, AudioChannel (ri_input q) i) \<in> C \<union> A \<union> B \<longleftrightarrow> (a, AudioChannel (ri_input q) i) \<in> C"
      using A(2) B by fastforce
    have "(AudioChannel (ri_output q) j, b) \<notin> A"
      using A(1) [of "AudioChannel (ri_output q) j" b] that by auto
    then show "(AudioChannel (ri_output q) j, b) \<in> C \<union> A \<union> B \<longleftrightarrow> (AudioChannel (ri_output q) j, b) \<in> C"
      using q B by auto
  qed
  have new1: "(a, AudioChannel (ri_input r) i) \<in> C \<union> A \<union> B \<longleftrightarrow> (\<exists>j < length sends. a = sends ! j \<and> i = ri_indices r ! j)"
    for a i
    using ins(1) nC(3) [of a "AudioChannel (ri_input r) i"] B p unfolding routing_ports_def by auto
  have new2: "(AudioChannel (ri_output r) j, b) \<in> C \<union> A \<union> B \<longleftrightarrow> j < length sends \<and> b = AudioChannel p j" for j b
    using A(1) [of "AudioChannel (ri_output r) j" b] nC(2) [of "AudioChannel (ri_output r) j" b] B by auto
  define P where "P X q a b \<longleftrightarrow> (\<exists>j < length (ri_indices q).
      (a, AudioChannel (ri_input q) (ri_indices q ! j)) \<in> X \<and> (AudioChannel (ri_output q) j, b) \<in> X)" for X and q :: routing_internal and a b
  have "P (C \<union> A \<union> B) r a b \<longleftrightarrow> (a, b) \<in> (\<lambda>j. (sends ! j, AudioChannel p j)) ` {..<length sends}" for a b
    unfolding P_def new1 new2 using len eq by (auto simp: image_iff)
  moreover have "P (C \<union> A \<union> B) q a b \<longleftrightarrow> P C q a b" if "q \<in> I" for q a b
    unfolding P_def old [OF that] ..
  ultimately have routed: "{(a, b). \<exists>q \<in> insert r I. P (C \<union> A \<union> B) q a b} =
      {(a, b). \<exists>q \<in> I. P C q a b} \<union> (\<lambda>j. (sends ! j, AudioChannel p j)) ` {..<length sends}"
    by blast
  have del: "delivers X J = {(a, b). (a, b) \<in> X \<and> port a \<notin> ri_output ` J \<and> port b \<notin> ri_input ` J} \<union>
      {(a, b). \<exists>q \<in> J. P X q a b}" for X and J :: "routing_internal set"
    unfolding delivers_def P_def ..
  show ?thesis unfolding del d routed by (simp only: Un_assoc)
qed

section \<open>Connecting the inputs of a routing component\<close>

definition channel_at :: "store \<Rightarrow> offsets \<Rightarrow> nat \<Rightarrow> audio_channel" where
  "channel_at s m x =
     (case List.find (\<lambda>e. snd e \<le> x \<and> x < snd e + widths s (fst e)) m of
        None \<Rightarrow> AudioChannel 0 0
      | Some e \<Rightarrow> AudioChannel (fst e) (x - snd e))"

lemma channel_at_loc:
  assumes P: "packed (widths s) m n" and a: "port a \<in> keys m" "channel a < widths s (port a)"
  shows "channel_at s m (loc m a) = a"
proof -
  have lt: "loc m a < n" using packed_bound [OF P a] .
  obtain p k where f: "List.find (\<lambda>e. snd e \<le> loc m a \<and> loc m a < snd e + widths s (fst e)) m = Some (p, k)"
    and pk: "(p, k) \<in> set m" "k \<le> loc m a" "loc m a < k + widths s p"
    using packed_find [OF P lt] by blast
  have m: "map_of m p = Some k" using pk(1) map_of_sorted_iff [OF packedD(1) [OF P]] by simp
  have "AudioChannel p (loc m a - k) = a"
  proof (rule packed_inj [OF P])
    show "port (AudioChannel p (loc m a - k)) \<in> keys m" using pk(1) by force
  qed (use a pk m in \<open>auto simp: loc_def\<close>)
  then show ?thesis using f by (simp add: channel_at_def)
qed

lemma connectRoutingInput_eq:
  assumes "packed (widths s) m n" "mn + i < n"
  shows "connectRoutingInput s m rin mn idx conns i =
    Inr (if i \<in> set idx then mm_insert (channel_at s m (mn + i), AudioChannel rin i) conns else conns)"
  using packed_find [OF assms]
  by (auto simp: connectRoutingInput_def channel_at_def widths_def Let_def)

lemma fold_connectRoutingInput:
  assumes P: "packed (widths s) m n" and w: "\<forall>i \<in> set is. mn + i < n"
  shows "\<exists>conns'. foldE (connectRoutingInput s m rin mn idx) conns is = Inr conns' \<and>
    set conns' = set conns \<union> (\<lambda>i. (channel_at s m (mn + i), AudioChannel rin i)) ` (set is \<inter> set idx) \<and>
    (sorted (map fst conns) \<longrightarrow> sorted (map fst conns'))"
  using w
proof (induction "is" arbitrary: conns)
  case (Cons i "is")
  let ?c = "if i \<in> set idx then mm_insert (channel_at s m (mn + i), AudioChannel rin i) conns else conns"
  have step: "connectRoutingInput s m rin mn idx conns i = Inr ?c"
    using connectRoutingInput_eq [OF P] Cons.prems by simp
  obtain conns' where c: "foldE (connectRoutingInput s m rin mn idx) ?c is = Inr conns'"
      "set conns' = set ?c \<union> (\<lambda>i. (channel_at s m (mn + i), AudioChannel rin i)) ` (set is \<inter> set idx)"
      "sorted (map fst ?c) \<longrightarrow> sorted (map fst conns')"
    using Cons.IH [of ?c] Cons.prems by auto
  have "foldE (connectRoutingInput s m rin mn idx) conns (i # is) = Inr conns'" using step c(1) by simp
  moreover have "set conns' = set conns \<union>
      (\<lambda>i. (channel_at s m (mn + i), AudioChannel rin i)) ` (set (i # is) \<inter> set idx)"
    using c(2) by auto
  moreover have "sorted (map fst conns) \<longrightarrow> sorted (map fst conns')"
    using c(3) by (auto simp: sorted_mm_insert)
  ultimately show ?case by blast
qed simp

lemma fold_sendIndex:
  "\<forall>a \<in> set sends. port a \<in> keys m \<Longrightarrow> foldE (sendIndex m) acc sends = Inr (acc @ map (loc m) sends)"
proof (induction sends arbitrary: acc)
  case (Cons a as)
  then obtain k where "map_of m (port a) = Some k"
    by (metis list.set_intros(1) map_of_eq_None_iff not_None_eq)
  then show ?case using Cons by (simp add: sendIndex_def loc_def)
qed simp

text \<open>The input channels used are exactly those of the senders.\<close>

lemma routing_inputs:
  assumes P: "packed (widths s) m n"
    and sends: "\<forall>a \<in> set sends. port a \<in> keys m \<and> channel a < widths s (port a)"
    and ne: "sends \<noteq> []"
  defines "mn \<equiv> Min (set (map (loc m) sends))"
  defines "idx \<equiv> map (\<lambda>v. v - mn) (map (loc m) sends)"
  defines "w \<equiv> Max (set idx) + 1"
  shows "\<forall>i < w. mn + i < n"
    and "(\<lambda>i. (channel_at s m (mn + i), AudioChannel rin i)) ` (set [0..<w] \<inter> set idx) =
      (\<lambda>j. (sends ! j, AudioChannel rin (idx ! j))) ` {..<length sends}"
    and "\<And>j k. j < length sends \<Longrightarrow> k < length sends \<Longrightarrow> (sends ! j = sends ! k) = (idx ! j = idx ! k)"
    and "\<And>j. j < length sends \<Longrightarrow> mn + idx ! j = loc m (sends ! j)"
    and "\<And>j. j < length sends \<Longrightarrow> idx ! j < w"
proof -
  have mn: "mn \<le> loc m (sends ! j)" if "j < length sends" for j
    unfolding mn_def using that by (intro Min_le) auto
  show l: "mn + idx ! j = loc m (sends ! j)" if "j < length sends" for j
    using mn [OF that] that by (simp add: idx_def)
  show lt: "idx ! j < w" if "j < length sends" for j
  proof -
    have "idx ! j \<in> set idx" using that by (simp add: idx_def)
    then have "idx ! j \<le> Max (set idx)" by simp
    then show ?thesis by (simp add: w_def)
  qed
  have ch: "channel_at s m (mn + idx ! j) = sends ! j" if "j < length sends" for j
    using channel_at_loc [OF P] sends that l by simp
  show "(\<lambda>i. (channel_at s m (mn + i), AudioChannel rin i)) ` (set [0..<w] \<inter> set idx) =
      (\<lambda>j. (sends ! j, AudioChannel rin (idx ! j))) ` {..<length sends}"
  proof -
    have len: "length idx = length sends" by (simp add: idx_def)
    have i: "set idx = (\<lambda>j. idx ! j) ` {..<length sends}"
      unfolding len [symmetric] by (auto simp: in_set_conv_nth image_iff)
    then have "set [0..<w] \<inter> set idx = (\<lambda>j. idx ! j) ` {..<length sends}"
      using lt by auto
    then show ?thesis using ch by (simp add: image_image)
  qed
  show "(sends ! j = sends ! k) = (idx ! j = idx ! k)" if "j < length sends" "k < length sends" for j k
    using ch [OF that(1)] ch [OF that(2)] l [OF that(1)] l [OF that(2)] by (metis add_left_cancel)
  show "\<forall>i < w. mn + i < n"
  proof (intro allI impI)
    fix i assume "i < w"
    have "idx \<noteq> []" using ne by (simp add: idx_def)
    then have "Max (set idx) \<in> set idx" by simp
    then obtain j where j: "j < length sends" "Max (set idx) = idx ! j"
      by (metis idx_def in_set_conv_nth length_map)
    have "loc m (sends ! j) < n" using packed_bound [OF P] sends j(1) by simp
    then show "mn + i < n" using \<open>i < w\<close> j l [OF j(1)] by (simp add: w_def)
  qed
qed

section \<open>The invariant of the placement\<close>

text \<open>The addresses that \<open>new\<close> returns are unused, and never the same twice.\<close>

definition fresh_addresses :: "placement \<Rightarrow> store \<Rightarrow> bool" where
  "fresh_addresses pl s \<longleftrightarrow>
     (\<forall>i. case pl_new pl i of (c, x, y) \<Rightarrow>
        comps s c = None \<and> aports s x = None \<and> aports s y = None \<and> x \<noteq> y \<and>
        (\<forall>j < i. case pl_new pl j of (c', x', y') \<Rightarrow> c' \<noteq> c \<and> {x', y'} \<inter> {x, y} = {}))"

lemma fresh_addressesD:
  assumes "fresh_addresses pl s" "pl_new pl i = (c, x, y)"
  shows "comps s c = None" "aports s x = None" "aports s y = None" "x \<noteq> y"
    and "j < i \<Longrightarrow> pl_new pl j = (c', x', y') \<Longrightarrow> c' \<noteq> c \<and> {x', y'} \<inter> {x, y} = {}"
proof -
  note at_i = spec [OF assms(1) [unfolded fresh_addresses_def], of i]
  have *: "comps s c = None \<and> aports s x = None \<and> aports s y = None \<and> x \<noteq> y \<and>
        (\<forall>j < i. case pl_new pl j of (c', x', y') \<Rightarrow> c' \<noteq> c \<and> {x', y'} \<inter> {x, y} = {})"
    using at_i assms(2) by simp
  then show "comps s c = None" "aports s x = None" "aports s y = None" "x \<noteq> y" by auto
  show "c' \<noteq> c \<and> {x', y'} \<inter> {x, y} = {}" if "j < i" "pl_new pl j = (c', x', y')"
    using mp [OF spec [OF * [THEN conjunct2, THEN conjunct2, THEN conjunct2, THEN conjunct2], of j] that(1)] that(2)
    by simp
qed

text \<open>What is known of the components created so far.\<close>

definition routing_ok :: "placement \<Rightarrow> store \<Rightarrow> store \<Rightarrow> routing_internal list \<Rightarrow> bool" where
  "routing_ok pl s0 s rs \<longleftrightarrow>
     map (\<lambda>r. (ri_component r, ri_input r, ri_output r)) rs = map (pl_new pl) [0..<length rs] \<and>
     dom (aports s) = dom (aports s0) \<union> routing_ports (set rs) \<and>
     dom (comps s) = dom (comps s0) \<union> ri_component ` set rs \<and>
     (\<forall>r \<in> set rs. widths s (ri_output r) = length (ri_indices r) \<and>
        (\<forall>i \<in> set (ri_indices r). i < widths s (ri_input r)))"

definition comps_extend :: "store \<Rightarrow> store \<Rightarrow> bool" where
  "comps_extend s s' \<longleftrightarrow>
     (\<forall>c. comps s c \<noteq> None \<longrightarrow> comps s' c \<noteq> None \<and>
        (\<exists>l. comp s' c = (comp s c)\<lparr>c_components := l\<rparr>))"

text \<open>
  What the created components look like, and that exactly the channels they route are
  connected; nothing else of the components and of the parameter ports has changed.
\<close>

definition routing_object :: "nat \<Rightarrow> store \<Rightarrow> routing_internal \<Rightarrow> bool" where
  "routing_object fl s r \<longleftrightarrow>
     (\<exists>nm. comps s (ri_component r) = Some
        \<lparr>c_name = nm, c_parent = Some fl, c_composite = False, c_audioPorts = [ri_input r, ri_output r],
         c_parameterPorts = [], c_components = [], c_audioConnections = [], c_parameterConnections = []\<rparr>) \<and>
     aports s (ri_input r) \<noteq> None \<and> aports s (ri_output r) \<noteq> None \<and>
     ap_parent (aport s (ri_input r)) = Some (ri_component r) \<and> ap_direction (aport s (ri_input r)) = Input \<and>
     ap_parent (aport s (ri_output r)) = Some (ri_component r) \<and> ap_direction (aport s (ri_output r)) = Output \<and>
     ap_sampleType (aport s (ri_input r)) = ap_sampleType (aport s (ri_output r))"

definition routes_exactly :: "(audio_channel \<times> audio_channel) set \<Rightarrow> routing_internal \<Rightarrow> bool" where
  "routes_exactly C r \<longleftrightarrow>
     (\<forall>i. (\<exists>a. (a, AudioChannel (ri_input r) i) \<in> C) \<longleftrightarrow> i \<in> set (ri_indices r)) \<and>
     (\<forall>j. (\<exists>b. (AudioChannel (ri_output r) j, b) \<in> C) \<longleftrightarrow> j < length (ri_indices r))"

definition routing_built ::
  "nat \<Rightarrow> store \<Rightarrow> store \<Rightarrow> (audio_channel \<times> audio_channel) set \<Rightarrow> routing_internal list \<Rightarrow> bool" where
  "routing_built fl s0 s C rs \<longleftrightarrow>
     pports s = pports s0 \<and>
     (\<forall>c. c \<noteq> fl \<and> c \<notin> ri_component ` set rs \<longrightarrow> comps s c = comps s0 c) \<and>
     comps s fl = Some ((comp s0 fl)\<lparr>c_components := c_components (comp s0 fl) @ map ri_component rs\<rparr>) \<and>
     (\<forall>r \<in> set rs. routing_object fl s r \<and> routes_exactly C r)"

lemma routing_builtD:
  assumes "routing_built fl s0 s C rs"
  shows "pports s = pports s0"
    and "c \<noteq> fl \<Longrightarrow> c \<notin> ri_component ` set rs \<Longrightarrow> comps s c = comps s0 c"
    and "comps s fl = Some ((comp s0 fl)\<lparr>c_components := c_components (comp s0 fl) @ map ri_component rs\<rparr>)"
    and "r \<in> set rs \<Longrightarrow> routing_object fl s r" "r \<in> set rs \<Longrightarrow> routes_exactly C r"
  using assms unfolding routing_built_def by blast+

lemma routes_exactly_Un:
  assumes "routes_exactly C r" "conn_ports S \<inter> {ri_input r, ri_output r} = {}"
  shows "routes_exactly (C \<union> S) r"
proof -
  have "(a, AudioChannel (ri_input r) i) \<notin> S" for a i
    using assms(2) conn_portsI(2) [of a "AudioChannel (ri_input r) i" S] by auto
  moreover have "(AudioChannel (ri_output r) j, b) \<notin> S" for j b
    using assms(2) conn_portsI(1) [of "AudioChannel (ri_output r) j" b S] by auto
  ultimately show ?thesis using assms(1) unfolding routes_exactly_def by blast
qed

lemma routing_built_direct:
  assumes "routing_built fl s0 s C rs" "conn_ports S \<inter> routing_ports (set rs) = {}"
  shows "routing_built fl s0 s (C \<union> S) rs"
proof -
  have "routes_exactly (C \<union> S) r" if "r \<in> set rs" for r
    using routes_exactly_Un [OF routing_builtD(5) [OF assms(1) that]] assms(2) routing_portsI [OF that] by blast
  then show ?thesis using assms(1) unfolding routing_built_def by blast
qed

lemma routing_object_cong:
  assumes "routing_object fl s r" "comps s' (ri_component r) = comps s (ri_component r)"
    and "aports s' (ri_input r) = aports s (ri_input r)" "aports s' (ri_output r) = aports s (ri_output r)"
  shows "routing_object fl s' r"
  using assms unfolding routing_object_def by simp

lemma routing_built_new:
  assumes B: "routing_built fl s0 s C rs"
    and cr: "createSignalRoutingComponent s (c, x, y) ty nm fl w idx = Inr (r, s')"
    and new: "comps s c = None" "aports s x = None" "aports s y = None" "x \<noteq> y" "comps s fl \<noteq> None"
    and C: "conn_ports C \<inter> {x, y} = {}" and rp: "routing_ports (set rs) \<inter> {x, y} = {}"
    and S: "conn_ports S \<inter> routing_ports (set rs) = {}" and fl: "fl \<notin> ri_component ` set rs"
    and ins: "\<And>i. (\<exists>a. (a, AudioChannel x i) \<in> S) \<longleftrightarrow> i \<in> set idx"
    and outs: "\<And>j. (\<exists>b. (AudioChannel y j, b) \<in> S) \<longleftrightarrow> j < length idx"
  shows "routing_built fl s0 s' (C \<union> S) (rs @ [r])"
proof -
  have fc: "fl \<noteq> c" using new(1,5) by metis
  note X = create_routing [OF cr new(1,4) fc]
  note B' = routing_builtD [OF B]
  have cs: "c \<notin> ri_component ` set rs"
  proof
    assume "c \<in> ri_component ` set rs"
    then obtain q where "q \<in> set rs" "c = ri_component q" by blast
    then show False using B'(4) [of q] new(1) by (auto simp: routing_object_def)
  qed
  have old: "routing_object fl s' q" "routes_exactly (C \<union> S) q" if q: "q \<in> set rs" for q
  proof -
    have "ri_component q \<noteq> c" "ri_component q \<noteq> fl"
      using cs fl q by auto
    moreover have "ri_input q \<notin> {x, y}" "ri_output q \<notin> {x, y}" using rp routing_portsI [OF q] by auto
    ultimately show "routing_object fl s' q"
      using routing_object_cong [OF B'(4) [OF q], of s'] X(2,3) by simp
    show "routes_exactly (C \<union> S) q"
      using routes_exactly_Un [OF B'(5) [OF q]] S routing_portsI [OF q] by blast
  qed
  have none: "(a, AudioChannel x i) \<notin> C" "(AudioChannel y i, b) \<notin> C" for a b i
    using C conn_portsI(2) [of a "AudioChannel x i" C] conn_portsI(1) [of "AudioChannel y i" b C] by auto
  have "routes_exactly (C \<union> S) r"
    using none ins outs unfolding routes_exactly_def X(1) by auto
  moreover have "routing_object fl s' r" using X(2,3) new(4) unfolding routing_object_def X(1) by auto
  moreover have "comps s' d = comps s0 d" if "d \<noteq> fl" "d \<notin> ri_component ` set (rs @ [r])" for d
    using B'(2) [of d] that X(1,3) by auto
  moreover have "comps s' fl = Some ((comp s0 fl)\<lparr>c_components := c_components (comp s0 fl) @ map ri_component (rs @ [r])\<rparr>)"
    using B'(3) X(1,3) fc by simp
  ultimately show ?thesis using old B'(1) X(4) unfolding routing_built_def by auto
qed

definition layout_inv ::
  "placement \<Rightarrow> store \<Rightarrow> sample_type \<Rightarrow> (sample_type \<times> offsets \<times> offsets) set
   \<Rightarrow> (audio_channel \<times> audio_channel) set \<Rightarrow> layout \<Rightarrow> bool" where
  "layout_inv pl s0 ty tabs D st \<longleftrightarrow>
     ports_extend s0 (ly_store st) \<and> comps_extend s0 (ly_store st) \<and>
     routing_ok pl s0 (ly_store st) (mInfrastructureComponents st) \<and>
     conn_ports (set (tmpConnections st)) \<subseteq> dom (aports (ly_store st)) \<and>
     delivers (set (tmpConnections st)) (set (mInfrastructureComponents st)) = D \<and>
     routing_built (pl_flow pl) s0 (ly_store st) (set (tmpConnections st)) (mInfrastructureComponents st) \<and>
     table_ok (ly_store st) ty (sendOffsets st) (receiveOffsets st) (sendPortOffset st) \<and>
     (\<forall>(t, snds, rcvs) \<in> tabs. \<exists>n. table_ok (ly_store st) t snds rcvs n) \<and>
     (\<forall>c \<in> set (tmpConnections st).
        \<exists>(t, snds, rcvs) \<in> insert (ty, sendOffsets st, receiveOffsets st) tabs. placed (ly_store st) snds rcvs c)"

lemma new_is_fresh:
  assumes fresh: "fresh_addresses pl s0" and ok: "routing_ok pl s0 s rs"
    and new: "pl_new pl (length rs) = (c, x, y)"
  shows "comps s c = None" "aports s x = None" "aports s y = None" "x \<noteq> y"
    and "routing_ports (set rs) \<inter> {x, y} = {}"
proof -
  have old: "ri_component r \<noteq> c \<and> {ri_input r, ri_output r} \<inter> {x, y} = {}" if r: "r \<in> set rs" for r
  proof -
    obtain j where j: "j < length rs" "r = rs ! j" using r by (metis in_set_conv_nth)
    have "pl_new pl j = (ri_component r, ri_input r, ri_output r)"
      using ok j unfolding routing_ok_def
      by (metis (mono_tags, lifting) add.left_neutral diff_zero length_upt nth_map nth_upt)
    then show ?thesis using fresh_addressesD(5) [OF fresh new j(1)] by blast
  qed
  note f = fresh_addressesD(1-4) [OF fresh new]
  show "x \<noteq> y" by (rule f(4))
  have rp: "routing_ports (set rs) \<inter> {x, y} = {}"
  proof (rule ccontr)
    assume "routing_ports (set rs) \<inter> {x, y} \<noteq> {}"
    then obtain z where z: "z \<in> routing_ports (set rs)" "z \<in> {x, y}" by blast
    then obtain r where "r \<in> set rs" "z \<in> {ri_input r, ri_output r}" unfolding routing_ports_def by blast
    then show False using old z(2) by blast
  qed
  show "routing_ports (set rs) \<inter> {x, y} = {}" by (rule rp)
  have d: "dom (aports s) = dom (aports s0) \<union> routing_ports (set rs)"
      "dom (comps s) = dom (comps s0) \<union> ri_component ` set rs"
    using ok by (auto simp: routing_ok_def)
  have "c \<notin> dom (comps s)" unfolding d using f(1) old by force
  then show "comps s c = None" by (simp add: domIff)
  have "x \<notin> dom (aports s)" "y \<notin> dom (aports s)" unfolding d using f(2,3) rp by auto
  then show "aports s x = None" "aports s y = None" by (simp_all add: domIff)
qed

lemma placed_insert_receive:
  assumes "placed s snds rcvs c" "sorted_wrt (<) (map fst rcvs)" "p \<notin> keys rcvs"
  shows "placed s snds (map_insert p k rcvs) c"
  using assms loc_map_insert [OF assms(2,3), of k "snd c"] by (auto simp: placed_def)

lemma placed_insert_send:
  assumes "placed s snds rcvs c" "sorted_wrt (<) (map fst snds)" "p \<notin> keys snds"
  shows "placed s (map_insert p k snds) rcvs c"
  using assms loc_map_insert [OF assms(2,3), of k "fst c"] by (auto simp: placed_def)

section \<open>Placing one receiving port\<close>

text \<open>
  What is known about a receiving port before it is placed: the channels that feed it, and that
  it is not in the tables yet.
\<close>

definition to_place :: "store \<Rightarrow> layout \<Rightarrow> sample_type \<Rightarrow> nat \<Rightarrow> audio_channel list \<Rightarrow> bool" where
  "to_place s0 st ty p sends \<longleftrightarrow>
     aports s0 p \<noteq> None \<and> ap_sampleType (aport s0 p) = ty \<and>
     p \<notin> keys (sendOffsets st) \<and> p \<notin> keys (receiveOffsets st) \<and>
     sends \<noteq> [] \<and> length sends = widths s0 p \<and>
     (\<forall>a \<in> set sends. aports s0 (port a) \<noteq> None \<and> channel a < widths s0 (port a) \<and>
        port a \<in> keys (sendOffsets st))"

abbreviation sent_to :: "nat \<Rightarrow> audio_channel list \<Rightarrow> (audio_channel \<times> audio_channel) set" where
  "sent_to p sends \<equiv> (\<lambda>j. (sends ! j, AudioChannel p j)) ` {..<length sends}"

lemma layout_invD:
  assumes "layout_inv pl s0 ty tabs D st"
  shows "ports_extend s0 (ly_store st)" "comps_extend s0 (ly_store st)"
    and "routing_ok pl s0 (ly_store st) (mInfrastructureComponents st)"
    and "conn_ports (set (tmpConnections st)) \<subseteq> dom (aports (ly_store st))"
    and "delivers (set (tmpConnections st)) (set (mInfrastructureComponents st)) = D"
    and "table_ok (ly_store st) ty (sendOffsets st) (receiveOffsets st) (sendPortOffset st)"
    and "(t, snds, rcvs) \<in> tabs \<Longrightarrow> \<exists>n. table_ok (ly_store st) t snds rcvs n"
    and "c \<in> set (tmpConnections st) \<Longrightarrow>
      \<exists>(t, snds, rcvs) \<in> insert (ty, sendOffsets st, receiveOffsets st) tabs. placed (ly_store st) snds rcvs c"
    and "routing_built (pl_flow pl) s0 (ly_store st) (set (tmpConnections st)) (mInfrastructureComponents st)"
  using assms unfolding layout_inv_def by blast+

lemma layout_invI:
  assumes "ports_extend s0 (ly_store st)" "comps_extend s0 (ly_store st)"
    and "routing_ok pl s0 (ly_store st) (mInfrastructureComponents st)"
    and "conn_ports (set (tmpConnections st)) \<subseteq> dom (aports (ly_store st))"
    and "delivers (set (tmpConnections st)) (set (mInfrastructureComponents st)) = D"
    and "table_ok (ly_store st) ty (sendOffsets st) (receiveOffsets st) (sendPortOffset st)"
    and "\<And>t snds rcvs. (t, snds, rcvs) \<in> tabs \<Longrightarrow> \<exists>n. table_ok (ly_store st) t snds rcvs n"
    and "\<And>c. c \<in> set (tmpConnections st) \<Longrightarrow>
      placed (ly_store st) (sendOffsets st) (receiveOffsets st) c \<or>
      (\<exists>t snds rcvs. (t, snds, rcvs) \<in> tabs \<and> placed (ly_store st) snds rcvs c)"
    and "routing_built (pl_flow pl) s0 (ly_store st) (set (tmpConnections st)) (mInfrastructureComponents st)"
  shows "layout_inv pl s0 ty tabs D st"
  using assms unfolding layout_inv_def by blast

lemma layout_inv_placed:
  assumes "layout_inv pl s0 ty tabs D st" "c \<in> set (tmpConnections st)"
  shows "placed (ly_store st) (sendOffsets st) (receiveOffsets st) c \<or>
    (\<exists>t snds rcvs. (t, snds, rcvs) \<in> tabs \<and> placed (ly_store st) snds rcvs c)"
  using layout_invD(8) [OF assms] by blast

lemma old_port_not_routing:
  assumes "fresh_addresses pl s0" "routing_ok pl s0 s rs" "aports s0 p \<noteq> None"
  shows "p \<notin> routing_ports (set rs)"
proof
  assume "p \<in> routing_ports (set rs)"
  then obtain r where r: "r \<in> set rs" "p = ri_input r \<or> p = ri_output r" by (auto simp: routing_ports_def)
  obtain j where j: "j < length rs" "r = rs ! j" using r(1) by (metis in_set_conv_nth)
  have "pl_new pl j = (ri_component r, ri_input r, ri_output r)"
    using assms(2) j unfolding routing_ok_def
    by (metis (mono_tags, lifting) add.left_neutral diff_zero length_upt nth_map nth_upt)
  then show False using fresh_addressesD(2,3) [OF assms(1)] r(2) assms(3) by metis
qed

lemma old_component_not_routing:
  assumes "fresh_addresses pl s0" "routing_ok pl s0 s rs" "comps s0 c \<noteq> None"
  shows "c \<notin> ri_component ` set rs"
proof
  assume "c \<in> ri_component ` set rs"
  then obtain r where r: "r \<in> set rs" "c = ri_component r" by auto
  obtain j where j: "j < length rs" "r = rs ! j" using r(1) by (metis in_set_conv_nth)
  have "pl_new pl j = (ri_component r, ri_input r, ri_output r)"
    using assms(2) j unfolding routing_ok_def
    by (metis (mono_tags, lifting) add.left_neutral diff_zero length_upt nth_map nth_upt)
  then show False using fresh_addressesD(1) [OF assms(1)] r(2) assms(3) by metis
qed

lemma placeContiguous_inv:
  assumes fresh: "fresh_addresses pl s0" and inv: "layout_inv pl s0 ty tabs D st"
    and tp: "to_place s0 st ty p sends"
    and loc: "set localConnections = sent_to p sends"
    and cont: "\<And>i. i < length sends \<Longrightarrow> loc (sendOffsets st) (sends ! i) = loc (sendOffsets st) (sends ! 0) + i"
  shows "\<exists>st'. placeContiguous st p sends localConnections = Inr st' \<and>
    layout_inv pl s0 ty tabs (D \<union> sent_to p sends) st' \<and>
    ly_store st' = ly_store st \<and> sendOffsets st' = sendOffsets st \<and>
    keys (receiveOffsets st') = insert p (keys (receiveOffsets st)) \<and>
    mInfrastructureComponents st' = mInfrastructureComponents st"
proof -
  let ?s = "ly_store st" and ?snds = "sendOffsets st" and ?rcvs = "receiveOffsets st"
  note I = layout_invD [OF inv]
  have tp': "aports s0 p \<noteq> None" "ap_sampleType (aport s0 p) = ty" "p \<notin> keys ?snds" "p \<notin> keys ?rcvs"
      "sends \<noteq> []" "length sends = widths s0 p"
    and snd: "\<And>a. a \<in> set sends \<Longrightarrow> aports s0 (port a) \<noteq> None \<and> channel a < widths s0 (port a) \<and> port a \<in> keys ?snds"
    using tp by (auto simp: to_place_def)
  have old: "aports ?s q = aports s0 q" if "aports s0 q \<noteq> None" for q using ports_extendD [OF I(1) that] .
  have hd: "hd sends \<in> set sends" "hd sends = sends ! 0" using tp'(5) by (auto simp: hd_conv_nth)
  obtain k where k: "map_of ?snds (port (hd sends)) = Some k"
    using snd [OF hd(1)] by (metis map_of_eq_None_iff not_None_eq)
  define k0 where "k0 = k + channel (hd sends)"
  have k0: "k0 = loc ?snds (sends ! 0)" using k hd(2) by (simp add: k0_def loc_def)
  let ?st' = "st\<lparr>receiveOffsets := map_insert p k0 ?rcvs,
                  tmpConnections := mm_insert_all localConnections (tmpConnections st)\<rparr>"
  have sorted: "sorted_wrt (<) (map fst ?rcvs)" using I(6) by (simp add: table_ok_def)
  have keys: "keys (map_insert p k0 ?rcvs) = insert p (keys ?rcvs)" by (rule keys_map_insert)
  have tab: "table_ok ?s ty ?snds (map_insert p k0 ?rcvs) (sendPortOffset st)"
    using I(6) sorted_map_insert [OF sorted, of p k0] tp' old [OF tp'(1)]
    unfolding table_ok_def keys by auto
  have ports: "conn_ports (sent_to p sends) \<subseteq> {q. aports s0 q \<noteq> None}"
    using snd tp'(1) by (auto simp: conn_ports_def)
  have nr: "conn_ports (sent_to p sends) \<inter> routing_ports (set (mInfrastructureComponents st)) = {}"
    using ports old_port_not_routing [OF fresh I(3)] by blast
  have new: "placed ?s ?snds (map_insert p k0 ?rcvs) c" if c: "c \<in> sent_to p sends" for c
  proof -
    obtain j where j: "j < length sends" "c = (sends ! j, AudioChannel p j)" using c by blast
    have "sends ! j \<in> set sends" using j(1) by simp
    then have a: "aports s0 (port (sends ! j)) \<noteq> None" "channel (sends ! j) < widths s0 (port (sends ! j))"
        "port (sends ! j) \<in> keys ?snds" using snd by blast+
    have "loc (map_insert p k0 ?rcvs) (AudioChannel p j) = k0 + j"
      using loc_map_insert [OF sorted tp'(4)] by simp
    then show ?thesis using j a tp'(6) cont [OF j(1)] old [OF a(1)] old [OF tp'(1)] k0
      by (simp add: placed_def widths_def)
  qed
  have "layout_inv pl s0 ty tabs (D \<union> sent_to p sends) ?st'"
  proof (rule layout_invI)
    show "conn_ports (set (tmpConnections ?st')) \<subseteq> dom (aports (ly_store ?st'))"
      using I(4) ports old by (auto simp: conn_ports_Un loc domIff)
    show "delivers (set (tmpConnections ?st')) (set (mInfrastructureComponents ?st')) = D \<union> sent_to p sends"
      using delivers_direct [OF nr, of "set (tmpConnections st)"] I(5) by (simp add: Un_commute loc)
    show "placed (ly_store ?st') (sendOffsets ?st') (receiveOffsets ?st') c \<or>
        (\<exists>t snds rcvs. (t, snds, rcvs) \<in> tabs \<and> placed (ly_store ?st') snds rcvs c)"
      if c: "c \<in> set (tmpConnections ?st')" for c
    proof (cases "c \<in> sent_to p sends")
      case True
      then show ?thesis using new by simp
    next
      case False
      then have "c \<in> set (tmpConnections st)" using c loc by simp
      from layout_inv_placed [OF inv this] show ?thesis
        using placed_insert_receive [OF _ sorted tp'(4), of ?s ?snds c k0] by auto
    qed
    show "routing_built (pl_flow pl) s0 (ly_store ?st') (set (tmpConnections ?st')) (mInfrastructureComponents ?st')"
      using routing_built_direct [OF I(9) nr] by (simp add: loc Un_commute)
  qed (use I(1-3,7) tab in simp_all)
  moreover have "placeContiguous st p sends localConnections = Inr ?st'"
    using k by (simp add: placeContiguous_def k0_def)
  ultimately show ?thesis using keys by auto
qed

definition new_keys :: "store \<Rightarrow> nat \<Rightarrow> layout \<Rightarrow> layout \<Rightarrow> bool" where
  "new_keys s0 p st st' \<longleftrightarrow>
     ports_extend (ly_store st) (ly_store st') \<and> keys (sendOffsets st) \<subseteq> keys (sendOffsets st') \<and>
     (\<forall>q. aports s0 q \<noteq> None \<longrightarrow>
        (q \<in> keys (sendOffsets st') \<longleftrightarrow> q \<in> keys (sendOffsets st)) \<and>
        (q \<in> keys (receiveOffsets st') \<longrightarrow> q = p \<or> q \<in> keys (receiveOffsets st)))"

text \<open>The parts of a successful \<^const>\<open>placeRouted\<close>.\<close>

lemma placeRouted_cases:
  assumes res: "placeRouted pl ty st p sends = Inr st'"
    and keys: "\<forall>a \<in> set sends. port a \<in> keys (sendOffsets st)"
    and new: "pl_new pl (length (mInfrastructureComponents st)) = (c, x, y)"
    and "comps (ly_store st) c = None" "x \<noteq> y" "pl_flow pl \<noteq> c"
  obtains nm r s' conns where
    "createSignalRoutingComponent (ly_store st) (c, x, y) ty nm (pl_flow pl)
       (Max (set (map (\<lambda>v. v - Min (set (map (loc (sendOffsets st)) sends))) (map (loc (sendOffsets st)) sends))) + 1)
       (map (\<lambda>v. v - Min (set (map (loc (sendOffsets st)) sends))) (map (loc (sendOffsets st)) sends)) = Inr (r, s')"
    "foldE (connectRoutingInput s' (sendOffsets st) x (Min (set (map (loc (sendOffsets st)) sends)))
        (map (\<lambda>v. v - Min (set (map (loc (sendOffsets st)) sends))) (map (loc (sendOffsets st)) sends)))
       (tmpConnections st)
       [0..<Max (set (map (\<lambda>v. v - Min (set (map (loc (sendOffsets st)) sends))) (map (loc (sendOffsets st)) sends))) + 1]
       = Inr conns"
    "st' = st\<lparr>ly_store := s',
              tmpConnections := fold (\<lambda>i. mm_insert (AudioChannel y i, AudioChannel p i))
                [0..<ap_width (aport (ly_store st) p)] conns,
              sendOffsets := map_insert y (sendPortOffset st) (sendOffsets st),
              receiveOffsets := map_insert p (sendPortOffset st)
                (map_insert x (Min (set (map (loc (sendOffsets st)) sends))) (receiveOffsets st)),
              sendPortOffset := sendPortOffset st + ap_width (aport (ly_store st) p),
              mInfrastructureComponents := mInfrastructureComponents st @ [r]\<rparr>"
proof -
  define mn where "mn = Min (set (map (loc (sendOffsets st)) sends))"
  define idx where "idx = map (\<lambda>v. v - mn) (map (loc (sendOffsets st)) sends)"
  define w where "w = Max (set idx) + 1"
  have f: "foldE (sendIndex (sendOffsets st)) [] sends = Inr (map (loc (sendOffsets st)) sends)"
    using fold_sendIndex [OF keys, of "[]"] by simp
  obtain nm where nm: "fullyQualifiedName (pl_levels pl) (ly_store st) p = Some nm"
    using res f by (auto simp: placeRouted_def Let_def split: option.splits)
  obtain r s' where cr: "createSignalRoutingComponent (ly_store st) (c, x, y) ty (nm @ ''_inputrouting'')
       (pl_flow pl) w idx = Inr (r, s')"
  proof (cases "createSignalRoutingComponent (ly_store st) (c, x, y) ty (nm @ ''_inputrouting'') (pl_flow pl) w idx")
    case (Inl e)
    have "placeRouted pl ty st p sends = Inl e"
      unfolding placeRouted_def f bindE_simps Let_def mn_def [symmetric] idx_def [symmetric]
        w_def [symmetric] nm option.case new Inl ..
    then show ?thesis using res by simp
  next
    case (Inr q)
    then show ?thesis using that by (cases q) auto
  qed
  note cre = create_routing [OF cr assms(4,5) assms(6)]
  have rc: "ri_component r = c" "findAudioPortEntry s' c ''in'' = Some x" "findAudioPortEntry s' c ''out'' = Some y"
    using cre by simp_all
  have unf: "placeRouted pl ty st p sends =
      bindE (foldE (connectRoutingInput s' (sendOffsets st) x mn idx) (tmpConnections st) [0..<w]) (\<lambda>conns.
        Inr (st\<lparr>ly_store := s',
              tmpConnections := fold (\<lambda>i. mm_insert (AudioChannel y i, AudioChannel p i))
                [0..<ap_width (aport (ly_store st) p)] conns,
              sendOffsets := map_insert y (sendPortOffset st) (sendOffsets st),
              receiveOffsets := map_insert p (sendPortOffset st) (map_insert x mn (receiveOffsets st)),
              sendPortOffset := sendPortOffset st + ap_width (aport (ly_store st) p),
              mInfrastructureComponents := mInfrastructureComponents st @ [r]\<rparr>))"
    unfolding placeRouted_def f bindE_simps Let_def mn_def [symmetric] idx_def [symmetric]
      w_def [symmetric] nm option.case new cr case_prod_conv rc ..
  obtain conns where conns:
      "foldE (connectRoutingInput s' (sendOffsets st) x mn idx) (tmpConnections st) [0..<w] = Inr conns"
    using res unfolding unf by auto
  show thesis
    by (rule that [OF cr [unfolded w_def idx_def mn_def] conns [unfolded w_def idx_def mn_def]])
      (use res [unfolded unf conns] in \<open>simp add: mn_def\<close>)
qed

lemma set_fold_outputs:
  "set (fold (\<lambda>i. mm_insert (AudioChannel y i, AudioChannel p i)) is conns) =
     set conns \<union> (\<lambda>i. (AudioChannel y i, AudioChannel p i)) ` set is"
  by (induction "is" arbitrary: conns) auto

text \<open>What a successful creation of a routing component adds to the store.\<close>

lemma routing_ok_extend:
  assumes ok: "routing_ok pl s0 s rs" and fresh: "fresh_addresses pl s0"
    and new: "pl_new pl (length rs) = (c, x, y)"
    and cr: "createSignalRoutingComponent s (c, x, y) ty nm fl w idx = Inr (r, s')"
    and fl: "comps s0 fl \<noteq> None" and ne: "idx \<noteq> []" and ext: "comps_extend s0 s"
  shows "routing_ok pl s0 s' (rs @ [r])" and "ports_extend s s'" and "comps_extend s0 s'"
    and "widths s' x = w" "widths s' y = length idx"
    and "aports s' x \<noteq> None" "aports s' y \<noteq> None"
    and "ap_sampleType (aport s' x) = ty" "ap_sampleType (aport s' y) = ty"
    and "r = \<lparr>ri_component = c, ri_input = x, ri_output = y, ri_indices = idx\<rparr>"
proof -
  note nf = new_is_fresh [OF fresh ok new]
  have flc: "fl \<noteq> c" using fl fresh_addressesD(1) [OF fresh new] by metis
  note cre = create_routing [OF cr nf(1,4) flc]
  show r: "r = \<lparr>ri_component = c, ri_input = x, ri_output = y, ri_indices = idx\<rparr>" by (rule cre(1))
  show ext': "ports_extend s s'" using cre(2) nf(2,3) by (auto simp: ports_extend_def)
  show w: "widths s' x = w" "widths s' y = length idx" using cre(2) nf(4) by (simp_all add: widths_def)
  show "aports s' x \<noteq> None" "aports s' y \<noteq> None" using cre(2) by simp_all
  show "ap_sampleType (aport s' x) = ty" "ap_sampleType (aport s' y) = ty" using cre(2) nf(4) by simp_all
  show "comps_extend s0 s'"
    unfolding comps_extend_def
  proof (intro allI impI)
    fix d assume d: "comps s0 d \<noteq> None"
    have "d \<noteq> c" using d fresh_addressesD(1) [OF fresh new] by metis
    obtain l where l: "comps s d \<noteq> None" "comp s d = (comp s0 d)\<lparr>c_components := l\<rparr>"
      using ext d unfolding comps_extend_def by metis
    show "comps s' d \<noteq> None \<and> (\<exists>l. comp s' d = (comp s0 d)\<lparr>c_components := l\<rparr>)"
      using \<open>d \<noteq> c\<close> l cre(3) by (cases "d = fl") auto
  qed
  show "routing_ok pl s0 s' (rs @ [r])"
    unfolding routing_ok_def
  proof (intro conjI)
    show "map (\<lambda>r. (ri_component r, ri_input r, ri_output r)) (rs @ [r]) = map (pl_new pl) [0..<length (rs @ [r])]"
      using ok new r by (simp add: routing_ok_def)
    have "dom (aports s') = insert x (insert y (dom (aports s)))" using cre(2) by auto
    then show "dom (aports s') = dom (aports s0) \<union> routing_ports (set (rs @ [r]))"
      using ok r by (auto simp: routing_ok_def routing_ports_def)
    have "fl \<in> dom (comps s)" using ext fl unfolding comps_extend_def by blast
    then have "dom (comps s') = insert c (dom (comps s))" using cre(3) by auto
    then show "dom (comps s') = dom (comps s0) \<union> ri_component ` set (rs @ [r])"
      using ok r by (auto simp: routing_ok_def)
    have "widths s' q = widths s q" if "q \<in> routing_ports (set rs)" for q
    proof -
      have "aports s q \<noteq> None" using that ok by (auto simp: routing_ok_def)
      then show ?thesis using ports_extendD [OF ext'] by (simp add: widths_def)
    qed
    moreover have "\<forall>i \<in> set idx. i < w" using cre(5) ne by (metis List.finite_set Max_less_iff empty_iff set_empty2)
    ultimately show "\<forall>r \<in> set (rs @ [r]). widths s' (ri_output r) = length (ri_indices r) \<and>
        (\<forall>i \<in> set (ri_indices r). i < widths s' (ri_input r))"
      using ok w r routing_portsI by (auto simp: routing_ok_def)
  qed
qed

text \<open>The tables after a routing component with ports \<open>x\<close> and \<open>y\<close> in front of the port \<open>p\<close>.\<close>

lemma routed_tables:
  fixes mn :: nat
  assumes T: "table_ok s ty snds rcvs n"
    and new: "x \<notin> keys snds" "x \<notin> keys rcvs" "y \<notin> keys snds" "y \<notin> keys rcvs" "p \<notin> keys snds" "p \<notin> keys rcvs"
    and ne: "p \<noteq> x" "p \<noteq> y" "x \<noteq> y"
    and ty: "\<forall>q \<in> {x, y, p}. aports s q \<noteq> None \<and> ap_sampleType (aport s q) = ty"
  defines "snds' \<equiv> map_insert y n snds" and "rcvs' \<equiv> map_insert p n (map_insert x mn rcvs)"
  shows "table_ok s ty snds' rcvs' (n + widths s y)"
    and "loc rcvs' (AudioChannel x i) = mn + i" "loc rcvs' (AudioChannel p i) = n + i"
    and "loc snds' a = (if port a = y then n + channel a else loc snds a)"
    and "placed s snds rcvs c \<Longrightarrow> placed s snds' rcvs' c"
proof -
  have sorted: "sorted_wrt (<) (map fst rcvs)" "sorted_wrt (<) (map fst snds)" and P: "packed (widths s) snds n"
    using T packedD(1) by (auto simp: table_ok_def)
  have sx: "sorted_wrt (<) (map fst (map_insert x mn rcvs))" by (rule sorted_map_insert [OF sorted(1)])
  have px: "p \<notin> keys (map_insert x mn rcvs)" using new(6) ne(1) by simp
  show "loc rcvs' (AudioChannel x i) = mn + i" "loc rcvs' (AudioChannel p i) = n + i"
    unfolding rcvs'_def using loc_map_insert [OF sx px] loc_map_insert [OF sorted(1) new(2)] ne by simp_all
  show "loc snds' a = (if port a = y then n + channel a else loc snds a)"
    unfolding snds'_def by (rule loc_map_insert [OF sorted(2) new(3)])
  show "placed s snds rcvs c \<Longrightarrow> placed s snds' rcvs' c"
    unfolding snds'_def rcvs'_def
    by (intro placed_insert_send placed_insert_receive sorted sx px new(2,3))
  show "table_ok s ty snds' rcvs' (n + widths s y)"
    unfolding table_ok_def
  proof (intro conjI)
    show "packed (widths s) snds' (n + widths s y)" unfolding snds'_def by (rule packed_insert [OF P new(3)])
    show "sorted_wrt (<) (map fst rcvs')" unfolding rcvs'_def by (rule sorted_map_insert [OF sx])
    show "keys snds' \<inter> keys rcvs' = {}"
      using T new ne by (auto simp: table_ok_def snds'_def rcvs'_def)
    show "\<forall>q \<in> keys snds' \<union> keys rcvs'. aports s q \<noteq> None \<and> ap_sampleType (aport s q) = ty"
      using T ty unfolding table_ok_def snds'_def rcvs'_def keys_map_insert by blast
  qed
qed

lemma placeRouted_inv:
  assumes fresh: "fresh_addresses pl s0" and inv: "layout_inv pl s0 ty tabs D st"
    and tp: "to_place s0 st ty p sends" and fl: "comps s0 (pl_flow pl) \<noteq> None"
    and res: "placeRouted pl ty st p sends = Inr st'"
  shows "layout_inv pl s0 ty tabs (D \<union> sent_to p sends) st' \<and> new_keys s0 p st st'"
proof -
  let ?s = "ly_store st" and ?snds = "sendOffsets st" and ?rcvs = "receiveOffsets st" and ?n = "sendPortOffset st"
  let ?rs = "mInfrastructureComponents st" and ?C = "set (tmpConnections st)"
  note I = layout_invD [OF inv]
  have tp': "aports s0 p \<noteq> None" "ap_sampleType (aport s0 p) = ty" "p \<notin> keys ?snds" "p \<notin> keys ?rcvs"
      "sends \<noteq> []" "length sends = widths s0 p"
    and snd: "\<And>a. a \<in> set sends \<Longrightarrow> aports s0 (port a) \<noteq> None \<and> channel a < widths s0 (port a) \<and> port a \<in> keys ?snds"
    using tp by (auto simp: to_place_def)
  have old: "aports ?s q = aports s0 q" if "aports s0 q \<noteq> None" for q using ports_extendD [OF I(1) that] .
  obtain c x y where new: "pl_new pl (length ?rs) = (c, x, y)" by (metis prod_cases3)
  note nf = new_is_fresh [OF fresh I(3) new]
  have flc: "pl_flow pl \<noteq> c" using fl fresh_addressesD(1) [OF fresh new] by metis
  have sk: "\<forall>a \<in> set sends. port a \<in> keys ?snds" using snd by blast
  define mn where "mn = Min (set (map (loc ?snds) sends))"
  define idx where "idx = map (\<lambda>v. v - mn) (map (loc ?snds) sends)"
  define w where "w = Max (set idx) + 1"
  obtain nm r s' conns where
    cr: "createSignalRoutingComponent ?s (c, x, y) ty nm (pl_flow pl) w idx = Inr (r, s')"
    and conns: "foldE (connectRoutingInput s' ?snds x mn idx) (tmpConnections st) [0..<w] = Inr conns"
    and st': "st' = st\<lparr>ly_store := s',
              tmpConnections := fold (\<lambda>i. mm_insert (AudioChannel y i, AudioChannel p i))
                [0..<ap_width (aport ?s p)] conns,
              sendOffsets := map_insert y ?n ?snds,
              receiveOffsets := map_insert p ?n (map_insert x mn ?rcvs),
              sendPortOffset := ?n + ap_width (aport ?s p),
              mInfrastructureComponents := ?rs @ [r]\<rparr>"
    using placeRouted_cases [OF res sk new nf(1,4) flc] unfolding mn_def idx_def w_def by blast
  have idx_len: "length idx = length sends" by (simp add: idx_def)
  have ne: "idx \<noteq> []" using tp'(5) idx_len by auto
  note X = routing_ok_extend [OF I(3) fresh new cr fl ne I(2)]
  have indom: "keys ?snds \<union> keys ?rcvs \<subseteq> dom (aports ?s)"
    using I(6) unfolding table_ok_def by (metis domIff subsetI)
  have notin: "x \<notin> keys ?snds" "x \<notin> keys ?rcvs" "y \<notin> keys ?snds" "y \<notin> keys ?rcvs"
    using indom nf(2,3) by (auto simp: domIff)
  have pxy: "p \<noteq> x" "p \<noteq> y" using tp'(1) old nf(2,3) by metis+
  have P': "packed (widths s') ?snds ?n"
    using table_ok_extend [OF I(6) X(2)] by (simp add: table_ok_def)
  have P: "packed (widths ?s) ?snds ?n" using I(6) by (simp add: table_ok_def)
  have ws: "widths s' q = widths s0 q" if "aports s0 q \<noteq> None" for q
  proof -
    have "aports s' q = aports ?s q" using ports_extendD [OF X(2), of q] old [OF that] that by simp
    then show ?thesis using old [OF that] by (simp add: widths_def)
  qed
  have wp: "ap_width (aport ?s p) = length sends" using old [OF tp'(1)] tp'(6) by (simp add: widths_def)
  have s'k: "\<forall>a \<in> set sends. port a \<in> keys ?snds \<and> channel a < widths s' (port a)"
    using snd ws by auto
  note R = routing_inputs [OF P' s'k tp'(5), folded mn_def, folded idx_def, folded w_def]
  define A where "A = (\<lambda>j. (sends ! j, AudioChannel x (idx ! j))) ` {..<length sends}"
  define B where "B = (\<lambda>j. (AudioChannel y j, AudioChannel p j)) ` {..<length sends}"
  have "set conns = ?C \<union> A"
    using fold_connectRoutingInput [OF P', of "[0..<w]" mn x idx "tmpConnections st"] R(1,2) conns
    by (auto simp: A_def)
  then have C': "set (tmpConnections st') = ?C \<union> A \<union> B"
    unfolding st' B_def by (simp add: set_fold_outputs wp atLeast0LessThan)
  let ?I = "set ?rs"
  have xy: "routing_ports (insert r ?I) = routing_ports ?I \<union> {x, y}" using X(10) by (auto simp: routing_ports_def)
  have nr: "q \<notin> routing_ports (insert r ?I)" if "aports s0 q \<noteq> None" for q
    using old_port_not_routing [OF fresh I(3) that] old [OF that] nf(2,3) that xy by auto
  have D': "delivers (?C \<union> A \<union> B) (insert r ?I) = delivers ?C ?I \<union> sent_to p sends"
  proof (rule delivers_routed)
    show "conn_ports ?C \<inter> {ri_input r, ri_output r} = {}" using I(4) nf(2,3) X(10) by (auto simp: domIff)
    show "routing_ports ?I \<inter> {ri_input r, ri_output r} = {}" using nf(5) X(10) by simp
    show "ri_input r \<noteq> ri_output r" using nf(4) X(10) by simp
    show "p \<notin> routing_ports (insert r ?I)" by (rule nr [OF tp'(1)])
    show "\<And>a. a \<in> set sends \<Longrightarrow> port a \<notin> routing_ports (insert r ?I)" using nr snd by blast
    show "length sends = length (ri_indices r)" using X(10) idx_len by simp
    show "\<And>j k. j < length sends \<Longrightarrow> k < length sends \<Longrightarrow>
        (sends ! j = sends ! k) = (ri_indices r ! j = ri_indices r ! k)" using R(3) X(10) by simp
    show "B = (\<lambda>j. (AudioChannel (ri_output r) j, AudioChannel p j)) ` {..<length sends}"
      using X(10) by (simp add: B_def)
    show "\<And>a i. (a, AudioChannel (ri_input r) i) \<in> A \<longleftrightarrow> (\<exists>j < length sends. a = sends ! j \<and> i = ri_indices r ! j)"
      using X(10) by (auto simp: A_def)
    show "\<And>c. c \<in> A \<Longrightarrow> port (snd c) = ri_input r" using X(10) by (auto simp: A_def)
  qed
  have p': "aports s' p \<noteq> None" "ap_sampleType (aport s' p) = ty"
    using ports_extendD [OF X(2), of p] old [OF tp'(1)] tp'(1,2) by simp_all
  have ty3: "\<forall>q \<in> {x, y, p}. aports s' q \<noteq> None \<and> ap_sampleType (aport s' q) = ty"
    using X(6-9) p' by blast
  note T = routed_tables [OF table_ok_extend [OF I(6) X(2)] notin tp'(3,4) pxy nf(4) ty3]
  have placedA: "placed s' (map_insert y ?n ?snds) (map_insert p ?n (map_insert x mn ?rcvs)) c" if c: "c \<in> A" for c
  proof -
    obtain j where j: "j < length sends" "c = (sends ! j, AudioChannel x (idx ! j))" using c by (auto simp: A_def)
    have a: "port (sends ! j) \<in> keys ?snds" "channel (sends ! j) < widths s' (port (sends ! j))"
      using s'k j(1) by auto
    then have "port (sends ! j) \<noteq> y" using notin(3) by metis
    then show ?thesis using a j T(2,4) R(4,5) [OF j(1)] X(4) by (simp add: placed_def)
  qed
  have placedB: "placed s' (map_insert y ?n ?snds) (map_insert p ?n (map_insert x mn ?rcvs)) c" if "c \<in> B" for c
    using that T(3,4) X(5) ws [OF tp'(1)] tp'(6) idx_len by (auto simp: B_def placed_def)
  have "layout_inv pl s0 ty tabs (D \<union> sent_to p sends) st'"
  proof (rule layout_invI)
    show "ports_extend s0 (ly_store st')" using ports_extend_trans [OF I(1) X(2)] st' by simp
    show "conn_ports (set (tmpConnections st')) \<subseteq> dom (aports (ly_store st'))"
    proof -
      have "dom (aports ?s) \<subseteq> dom (aports s')" using X(2) by (auto simp: ports_extend_def)
      moreover have "conn_ports A \<subseteq> keys ?snds \<union> {x}" "conn_ports B \<subseteq> {y, p}"
        using s'k by (auto simp: A_def B_def conn_ports_def)
      moreover have "p \<in> dom (aports s')" "x \<in> dom (aports s')" "y \<in> dom (aports s')"
        using p' X(6,7) by (simp_all add: domIff)
      ultimately have "conn_ports (?C \<union> A \<union> B) \<subseteq> dom (aports s')"
        using I(4) indom unfolding conn_ports_Un by blast
      then show ?thesis using C' st' by simp
    qed
    show "delivers (set (tmpConnections st')) (set (mInfrastructureComponents st')) = D \<union> sent_to p sends"
      using D' I(5) C' st' by simp
    show "table_ok (ly_store st') ty (sendOffsets st') (receiveOffsets st') (sendPortOffset st')"
      using T(1) X(5) idx_len st' wp by simp
    show "\<exists>n. table_ok (ly_store st') t snds rcvs n" if "(t, snds, rcvs) \<in> tabs" for t snds rcvs
      using table_ok_extend [OF _ X(2)] I(7) [OF that] by (subst st') (simp, blast)
    show "placed (ly_store st') (sendOffsets st') (receiveOffsets st') c \<or>
        (\<exists>t snds rcvs. (t, snds, rcvs) \<in> tabs \<and> placed (ly_store st') snds rcvs c)"
      if "c \<in> set (tmpConnections st')" for c
    proof -
      have st'_simps: "ly_store st' = s'" "sendOffsets st' = map_insert y ?n ?snds"
          "receiveOffsets st' = map_insert p ?n (map_insert x mn ?rcvs)" using st' by simp_all
      consider "c \<in> A" | "c \<in> B" | "c \<in> ?C" using C' \<open>c \<in> set (tmpConnections st')\<close> by blast
      then show ?thesis
      proof cases
        case 3
        from layout_inv_placed [OF inv this] show ?thesis
        proof
          assume a: "placed ?s ?snds ?rcvs c"
          have "placed s' ?snds ?rcvs c" by (rule placed_extend [OF a I(6) X(2)])
          then show ?thesis using T(5) st'_simps by simp
        next
          assume "\<exists>t snds rcvs. (t, snds, rcvs) \<in> tabs \<and> placed ?s snds rcvs c"
          then show ?thesis using placed_extend [OF _ _ X(2)] I(7) st'_simps by metis
        qed
      qed (use placedA placedB st'_simps in simp_all)
    qed
    have flS: "comps ?s (pl_flow pl) \<noteq> None" using I(2) fl unfolding comps_extend_def by blast
    have "routing_built (pl_flow pl) s0 s' (?C \<union> (A \<union> B)) (?rs @ [r])"
    proof (rule routing_built_new [OF I(9) cr nf(1-4) flS _ nf(5)])
      show "conn_ports ?C \<inter> {x, y} = {}" using I(4) nf(2,3) by (auto simp: domIff)
      have "q \<notin> routing_ports ?I" if "q \<in> conn_ports (A \<union> B)" for q
      proof -
        consider j where "j < length sends" "q = port (sends ! j)" | "q \<in> {x, y, p}"
          using \<open>q \<in> conn_ports (A \<union> B)\<close> by (auto simp: A_def B_def conn_ports_def)
        then show ?thesis
        proof cases
          case (1 j)
          then show ?thesis using snd [of "sends ! j"] old_port_not_routing [OF fresh I(3), of q] by simp
        next
          case 2
          then show ?thesis using nf(5) old_port_not_routing [OF fresh I(3) tp'(1)] by blast
        qed
      qed
      then show "conn_ports (A \<union> B) \<inter> routing_ports ?I = {}" by blast
      show "(\<exists>a. (a, AudioChannel x i) \<in> A \<union> B) = (i \<in> set idx)" for i
        using idx_len pxy nf(4) by (auto simp: A_def B_def in_set_conv_nth)
      have "(AudioChannel y j, b) \<notin> A" for j b
      proof
        assume "(AudioChannel y j, b) \<in> A"
        then obtain k where k: "k < length sends" "AudioChannel y j = sends ! k" by (auto simp: A_def)
        then have "sends ! k \<in> set sends" by simp
        then have "port (sends ! k) \<in> keys ?snds" using s'k by blast
        then show False using k(2) [symmetric] notin(3) by simp
      qed
      then show "(\<exists>b. (AudioChannel y j, b) \<in> A \<union> B) = (j < length idx)" for j
        using idx_len by (auto simp: B_def)
      show "pl_flow pl \<notin> ri_component ` ?I" by (rule old_component_not_routing [OF fresh I(3) fl])
    qed
    then show "routing_built (pl_flow pl) s0 (ly_store st') (set (tmpConnections st')) (mInfrastructureComponents st')"
      using C' st' by (simp add: Un_assoc)
  qed (use X(1,3) st' in simp_all)
  moreover have "new_keys s0 p st st'"
  proof -
    have "q \<noteq> x \<and> q \<noteq> y" if "aports s0 q \<noteq> None" for q using that old nf(2,3) by metis
    then show ?thesis unfolding new_keys_def st' using X(2) by auto
  qed
  ultimately show ?thesis ..
qed

section \<open>All receiving ports of one sample type\<close>

text \<open>
  The connections handed to the placement: between channels of existing ports of the same
  sample type, where no port both sends and receives. This is what the resolved connection map
  of a flow contains (provided that the sample types agree, which the integrity check does not
  establish).
\<close>

definition layout_input :: "store \<Rightarrow> nat \<Rightarrow> acmap \<Rightarrow> bool" where
  "layout_input s fl conns \<longleftrightarrow>
     comps s fl \<noteq> None \<and> c_composite (comp s fl) \<and>
     (\<forall>(a, b) \<in> set conns.
        aports s (port a) \<noteq> None \<and> channel a < widths s (port a) \<and>
        aports s (port b) \<noteq> None \<and> channel b < widths s (port b) \<and>
        ap_sampleType (aport s (port a)) = ap_sampleType (aport s (port b))) \<and>
     port ` fst ` set conns \<inter> port ` snd ` set conns = {}"

lemma layout_inputD:
  assumes "layout_input s fl conns" "(a, b) \<in> set conns"
  shows "aports s (port a) \<noteq> None" "channel a < widths s (port a)"
    "aports s (port b) \<noteq> None" "channel b < widths s (port b)"
    "ap_sampleType (aport s (port a)) = ap_sampleType (aport s (port b))"
  using assms unfolding layout_input_def by fast+

definition of_type :: "store \<Rightarrow> sample_type \<Rightarrow> acmap \<Rightarrow> acmap" where
  "of_type s ty conns = filter (\<lambda>conn. ap_sampleType (aport s (port (fst conn))) = ty) conns"

definition into :: "acmap \<Rightarrow> nat set \<Rightarrow> (audio_channel \<times> audio_channel) set" where
  "into conns P = {c \<in> set conns. port (snd c) \<in> P}"

text \<open>What holds between two receiving ports: every sender is placed, no receiver is a sender.\<close>

definition senders_placed :: "store \<Rightarrow> acmap \<Rightarrow> layout \<Rightarrow> bool" where
  "senders_placed s0 typed st \<longleftrightarrow>
     (\<forall>c \<in> set typed. port (fst c) \<in> keys (sendOffsets st)) \<and>
     (\<forall>q \<in> keys (sendOffsets st). aports s0 q \<noteq> None \<longrightarrow> q \<in> port ` fst ` set typed)"

lemma sent_to_eq:
  assumes "sendChannels s p conns = Inr sends"
  shows "sent_to p sends = {c \<in> set conns. port (snd c) = p}"
proof -
  note F = sendChannels_full [OF assms]
  show ?thesis
  proof (intro equalityI subsetI)
    fix c assume "c \<in> sent_to p sends"
    then obtain j where "j < length sends" "c = (sends ! j, AudioChannel p j)" by auto
    then show "c \<in> {c \<in> set conns. port (snd c) = p}" using F(1) F(2) [of j "sends ! j"] by simp
  next
    fix c assume "c \<in> {c \<in> set conns. port (snd c) = p}"
    then obtain a b where c: "c = (a, b)" "(a, b) \<in> set conns" "port b = p" by (cases c) auto
    have b: "b = AudioChannel p (channel b)" using c(3) by (metis audio_channel.collapse)
    have lt: "channel b < ap_width (aport s p)" using F(3) [OF c(2,3)] .
    then have "sends ! channel b = a" using F(2) [of "channel b" a] c(2) b by simp
    then show "c \<in> sent_to p sends" using c(1) b lt F(1) by (auto simp: image_iff)
  qed
qed

lemma placeReceivePort_inv:
  assumes fresh: "fresh_addresses pl s0" and inp: "layout_input s0 (pl_flow pl) conns"
    and typed: "typed = of_type s0 ty conns"
    and inv: "layout_inv pl s0 ty tabs D st" and sp: "senders_placed s0 typed st"
    and p: "p \<in> port ` snd ` set typed" "p \<notin> keys (receiveOffsets st)"
    and res: "placeReceivePort pl ty typed st p = Inr st'"
  shows "layout_inv pl s0 ty tabs (D \<union> into typed {p}) st' \<and> new_keys s0 p st st'"
proof -
  obtain c where c: "c \<in> set conns" "ap_sampleType (aport s0 (port (fst c))) = ty" "p = port (snd c)"
    using p(1) typed by (auto simp: of_type_def)
  have pp: "aports s0 p \<noteq> None" "ap_sampleType (aport s0 p) = ty"
    using layout_inputD [OF inp, of "fst c" "snd c"] c by auto
  have ext: "ports_extend s0 (ly_store st)" by (rule layout_invD(1) [OF inv])
  have w: "ap_width (aport (ly_store st) p) = widths s0 p"
    using ports_extendD [OF ext pp(1)] by (simp add: widths_def)
  let ?local = "filter (\<lambda>conn. port (snd conn) = p) typed"
  show ?thesis
  proof (cases "widths s0 p = 0")
    case True
    have "into typed {p} = {}"
      using layout_inputD(4) [OF inp] True typed by (fastforce simp: into_def of_type_def)
    then show ?thesis using res w True inv by (auto simp: placeReceivePort_def new_keys_def)
  next
    case False
    obtain sends where sends: "sendChannels (ly_store st) p ?local = Inr sends"
      using res w False by (cases "sendChannels (ly_store st) p ?local") (auto simp: placeReceivePort_def Let_def)
    have len: "length sends = widths s0 p" using sendChannels_full(1) [OF sends] w by simp
    have st: "sent_to p sends = into typed {p}" "set ?local = sent_to p sends"
      using sent_to_eq [OF sends] by (auto simp: into_def)
    have senders: "aports s0 (port a) \<noteq> None \<and> channel a < widths s0 (port a) \<and> port a \<in> keys (sendOffsets st)"
      if "a \<in> set sends" for a
    proof -
      obtain j where "j < length sends" "a = sends ! j" using \<open>a \<in> set sends\<close> by (metis in_set_conv_nth)
      then have "(a, AudioChannel p j) \<in> sent_to p sends" by auto
      then have "(a, AudioChannel p j) \<in> set typed" using st(2) by auto
      moreover from this have "(a, AudioChannel p j) \<in> set conns" using typed by (simp add: of_type_def)
      ultimately show ?thesis using layout_inputD(1,2) [OF inp] sp by (force simp: senders_placed_def)
    qed
    have "p \<notin> keys (sendOffsets st)"
    proof
      assume "p \<in> keys (sendOffsets st)"
      then have "p \<in> port ` fst ` set typed" using sp pp(1) unfolding senders_placed_def by blast
      then have "p \<in> port ` fst ` set conns" using typed by (auto simp: of_type_def)
      moreover have "p \<in> port ` snd ` set conns" using c by auto
      ultimately show False using inp unfolding layout_input_def by blast
    qed
    then have tp: "to_place s0 st ty p sends"
      using pp p(2) len False senders unfolding to_place_def by fastforce
    have k: "\<forall>a \<in> set sends. port a \<in> keys (sendOffsets st)" using senders by blast
    let ?cont = "\<forall>i. Suc i < length sends \<longrightarrow> loc (sendOffsets st) (sends ! Suc i) = Suc (loc (sendOffsets st) (sends ! i))"
    have eq: "placeReceivePort pl ty typed st p =
        (if ?cont then placeContiguous st p sends ?local else placeRouted pl ty st p sends)"
      using w False sends contiguousRange_total [OF k] by (simp add: placeReceivePort_def Let_def)
    show ?thesis
    proof (cases ?cont)
      case True
      then have r: "placeContiguous st p sends ?local = Inr st'" using eq res by simp
      show ?thesis
        using placeContiguous_inv [OF fresh inv tp st(2) contiguous_loc [OF True]] r st(1)
        by (auto simp: new_keys_def)
    next
      case False
      then have "placeRouted pl ty st p sends = Inr st'" using eq [unfolded if_not_P [OF False]] res by metis
      then show ?thesis using placeRouted_inv [OF fresh inv tp] inp st(1) by (simp add: layout_input_def)
    qed
  qed
qed

lemma placeReceivePorts_inv:
  assumes fresh: "fresh_addresses pl s0" and inp: "layout_input s0 (pl_flow pl) conns"
    and typed: "typed = of_type s0 ty conns"
  shows "\<lbrakk>layout_inv pl s0 ty tabs D st; senders_placed s0 typed st; distinct ps;
      set ps \<subseteq> port ` snd ` set typed; set ps \<inter> keys (receiveOffsets st) = {};
      foldE (placeReceivePort pl ty typed) st ps = Inr st'\<rbrakk> \<Longrightarrow>
    layout_inv pl s0 ty tabs (D \<union> into typed (set ps)) st' \<and> ports_extend (ly_store st) (ly_store st')"
proof (induction ps arbitrary: st D)
  case Nil
  then show ?case by (simp add: into_def)
next
  case (Cons p ps)
  from Cons.prems(6) obtain u where
    u: "placeReceivePort pl ty typed st p = Inr u" "foldE (placeReceivePort pl ty typed) u ps = Inr st'" by auto
  have "p \<in> port ` snd ` set typed" "p \<notin> keys (receiveOffsets st)" using Cons.prems(4,5) by auto
  from placeReceivePort_inv [OF fresh inp typed Cons.prems(1,2) this u(1)]
  have inv: "layout_inv pl s0 ty tabs (D \<union> into typed {p}) u" and nk: "new_keys s0 p st u" by auto
  have in_s0: "aports s0 q \<noteq> None" if q: "q \<in> port ` snd ` set typed" for q
  proof -
    obtain a b where "(a, b) \<in> set typed" "q = port b" using q by force
    then show ?thesis using layout_inputD(3) [OF inp, of a b] typed by (simp add: of_type_def)
  qed
  have nk': "keys (sendOffsets st) \<subseteq> keys (sendOffsets u)"
    "\<And>q. aports s0 q \<noteq> None \<Longrightarrow> q \<in> keys (sendOffsets u) \<Longrightarrow> q \<in> keys (sendOffsets st)"
    "\<And>q. aports s0 q \<noteq> None \<Longrightarrow> q \<in> keys (receiveOffsets u) \<Longrightarrow> q = p \<or> q \<in> keys (receiveOffsets st)"
    using nk unfolding new_keys_def by blast+
  have "senders_placed s0 typed u"
    unfolding senders_placed_def
  proof (intro conjI ballI impI)
    show "port (fst c) \<in> keys (sendOffsets u)" if "c \<in> set typed" for c
      using Cons.prems(2) that nk'(1) unfolding senders_placed_def by (meson subsetD)
    show "q \<in> port ` fst ` set typed" if "q \<in> keys (sendOffsets u)" "aports s0 q \<noteq> None" for q
      using Cons.prems(2) nk'(2) [OF that(2,1)] that(2) unfolding senders_placed_def by blast
  qed
  moreover have "set ps \<inter> keys (receiveOffsets u) = {}"
  proof -
    have "q \<notin> keys (receiveOffsets u)" if "q \<in> set ps" for q
    proof
      assume k: "q \<in> keys (receiveOffsets u)"
      have "q \<in> port ` snd ` set typed" "q \<noteq> p" "q \<notin> keys (receiveOffsets st)"
        using Cons.prems(3-5) that by auto
      then show False using nk'(3) [OF in_s0 k] by blast
    qed
    then show ?thesis by blast
  qed
  ultimately have "layout_inv pl s0 ty tabs (D \<union> into typed {p} \<union> into typed (set ps)) st' \<and>
      ports_extend (ly_store u) (ly_store st')"
    using Cons.IH [OF inv _ _ _ _ u(2)] Cons.prems(3,4) by simp
  moreover have "ports_extend (ly_store st) (ly_store u)" using nk by (simp add: new_keys_def)
  moreover have "into typed {p} \<union> into typed (set ps) = into typed (set (p # ps))" by (auto simp: into_def)
  ultimately show ?case using ports_extend_trans by (metis Un_assoc)
qed

text \<open>What the standard says of \<open>std::partition\<close>.\<close>

definition partition_ok :: "((nat \<Rightarrow> bool) \<Rightarrow> nat list \<Rightarrow> nat list) \<Rightarrow> bool" where
  "partition_ok part \<longleftrightarrow>
     (\<forall>P xs. \<exists>ys zs. part P xs = ys @ zs \<and> list_all P ys \<and> list_all (\<lambda>x. \<not> P x) zs \<and>
        set ys \<union> set zs = set xs \<and> length ys + length zs = length xs)"

lemma partitioned_ports:
  assumes "partition_ok (pl_partition pl)"
  shows "set (partitioned_ports pl s ps) = set ps" "distinct (partitioned_ports pl s ps)"
proof -
  let ?P = "\<lambda>p. isToplevelPort s (ap_parent (aport s p))"
  obtain ys zs where p: "pl_partition pl ?P (sort_unique ps) = ys @ zs"
      "set ys \<union> set zs = set (sort_unique ps)" "length ys + length zs = length (sort_unique ps)"
    using assms unfolding partition_ok_def by meson
  then show s: "set (partitioned_ports pl s ps) = set ps" by (simp add: partitioned_ports_def)
  have "card (set (ys @ zs)) = length (ys @ zs)"
    using p(2,3) distinct_card [OF distinct_sort_unique, of ps] by simp
  then have "distinct (ys @ zs)" by (rule card_distinct)
  then show "distinct (partitioned_ports pl s ps)" using p(1) by (simp add: partitioned_ports_def)
qed

definition between :: "layout \<Rightarrow> layout" where
  "between st = st\<lparr>sendOffsets := [], receiveOffsets := [], sendPortOffset := 0\<rparr>"

lemma between_simps [simp]:
  "sendOffsets (between st) = []" "receiveOffsets (between st) = []" "sendPortOffset (between st) = 0"
  "ly_store (between st) = ly_store st" "tmpConnections (between st) = tmpConnections st"
  "mInfrastructureComponents (between st) = mInfrastructureComponents st"
  by (simp_all add: between_def)

lemma layout_inv_between:
  assumes "layout_inv pl s0 ty tabs D st"
  shows "layout_inv pl s0 ty' (insert (ty, sendOffsets st, receiveOffsets st) tabs) D (between st)"
proof (rule layout_invI)
  show "table_ok (ly_store (between st)) ty' (sendOffsets (between st)) (receiveOffsets (between st))
      (sendPortOffset (between st))" by (simp add: table_ok_def packed_empty)
  show "\<exists>n. table_ok (ly_store (between st)) t snds rcvs n"
    if "(t, snds, rcvs) \<in> insert (ty, sendOffsets st, receiveOffsets st) tabs" for t snds rcvs
    using that layout_invD(6,7) [OF assms] by auto
  show "placed (ly_store (between st)) (sendOffsets (between st)) (receiveOffsets (between st)) c \<or>
      (\<exists>t snds rcvs. (t, snds, rcvs) \<in> insert (ty, sendOffsets st, receiveOffsets st) tabs \<and>
        placed (ly_store (between st)) snds rcvs c)"
    if "c \<in> set (tmpConnections (between st))" for c
    using layout_inv_placed [OF assms, of c] that by auto
qed (use layout_invD(1-5,9) [OF assms] in simp_all)

lemma layout_inv_type: "layout_inv pl s0 ty tabs D (between st) \<Longrightarrow> layout_inv pl s0 ty' tabs D (between st)"
  unfolding layout_inv_def by (auto simp: table_ok_def placed_def)

text \<open>All ports of one type.\<close>

lemma placeComposite_inv:
  assumes fresh: "fresh_addresses pl s0" and inp: "layout_input s0 (pl_flow pl) conns"
    and part: "partition_ok (pl_partition pl)"
    and inv: "layout_inv pl s0 ty tabs D (between st)"
    and res: "placeComposite pl conns ty (between st) = Inr st'"
  shows "layout_inv pl s0 ty tabs (D \<union> set (of_type s0 ty conns)) st' \<and> ports_extend (ly_store st) (ly_store st')"
proof -
  let ?st = "between st" and ?typed = "of_type s0 ty conns"
  let ?snd = "partitioned_ports pl (ly_store ?st) (map (\<lambda>c. port (fst c)) ?typed)"
  let ?rcv = "partitioned_ports pl (ly_store ?st) (map (\<lambda>c. port (snd c)) ?typed)"
  let ?st1 = "fold (\<lambda>p st. placeSendPort st p) ?snd ?st"
  note I = layout_invD [OF inv]
  have old: "aports (ly_store st) q = aports s0 q" if "aports s0 q \<noteq> None" for q
    using ports_extendD [OF I(1) that] by simp
  have ty: "of_type (ly_store ?st) ty conns = ?typed"
    unfolding of_type_def using layout_inputD(1) [OF inp] old by (intro filter_cong) fastforce+
  have res': "foldE (placeReceivePort pl ty ?typed) ?st1 ?rcv = Inr st'"
    using res unfolding placeComposite_def Let_def of_type_def [symmetric] ty .
  have snd_set: "set ?snd = port ` fst ` set ?typed" "distinct ?snd"
    and rcv_set: "set ?rcv = port ` snd ` set ?typed" "distinct ?rcv"
    using partitioned_ports [OF part] by (auto simp: image_image)
  have pre: "packed (widths (ly_store ?st)) (sendOffsets ?st) (sendPortOffset ?st)" by (simp add: packed_empty)
  note F = fold_placeSendPort [OF snd_set(2) _ pre refl]
  have F': "packed (widths (ly_store st)) (sendOffsets ?st1) (sendPortOffset ?st1)"
      "keys (sendOffsets ?st1) = set ?snd"
      "ly_store ?st1 = ly_store st" "receiveOffsets ?st1 = []"
      "tmpConnections ?st1 = tmpConnections st"
      "mInfrastructureComponents ?st1 = mInfrastructureComponents st"
    using F by auto
  have typed_port: "aports s0 q \<noteq> None \<and> ap_sampleType (aport s0 q) = ty" if q: "q \<in> port ` fst ` set ?typed" for q
  proof -
    obtain a b where "(a, b) \<in> set ?typed" "q = port a" using q by force
    then show ?thesis using layout_inputD(1) [OF inp, of a b] by (simp add: of_type_def)
  qed
  have "layout_inv pl s0 ty tabs D ?st1"
  proof (rule layout_invI)
    show "table_ok (ly_store ?st1) ty (sendOffsets ?st1) (receiveOffsets ?st1) (sendPortOffset ?st1)"
      using F' snd_set(1) typed_port old by (auto simp: table_ok_def)
    show "placed (ly_store ?st1) (sendOffsets ?st1) (receiveOffsets ?st1) c \<or>
        (\<exists>t snds rcvs. (t, snds, rcvs) \<in> tabs \<and> placed (ly_store ?st1) snds rcvs c)"
      if "c \<in> set (tmpConnections ?st1)" for c
      using layout_inv_placed [OF inv, of c] that F' by (auto simp: placed_def)
  qed (use I(1-5,7,9) F' in simp_all)
  moreover have "senders_placed s0 ?typed ?st1"
    unfolding senders_placed_def using F'(2) snd_set(1) by auto
  ultimately have "layout_inv pl s0 ty tabs (D \<union> into ?typed (set ?rcv)) st' \<and>
      ports_extend (ly_store ?st1) (ly_store st')"
    by (rule placeReceivePorts_inv [OF fresh inp refl _ _ rcv_set(2) _ _ res']) (use rcv_set F' in auto)
  moreover have "into ?typed (set ?rcv) = set ?typed" using rcv_set(1) by (auto simp: into_def)
  ultimately show ?thesis using F'(3) by simp
qed

text \<open>The number of channels of a table, and the size of the pool of some tables.\<close>

definition table_channels :: "store \<Rightarrow> offsets \<Rightarrow> nat" where
  "table_channels s snds = (\<Sum>e\<leftarrow>snds. widths s (fst e))"

lemma table_ok_channels: "table_ok s ty snds rcvs n \<Longrightarrow> n = table_channels s snds"
  unfolding table_ok_def table_channels_def packed_def by metis

definition pool_size :: "nat \<Rightarrow> store \<Rightarrow> tables \<Rightarrow> nat" where
  "pool_size blockSize s tables = (\<Sum>(ty, snds, rcvs)\<leftarrow>tables. table_channels s snds * channelSize blockSize ty)"

lemma table_channels_extend:
  assumes "table_ok s ty snds rcvs n" "ports_extend s s'"
  shows "table_channels s' snds = table_channels s snds"
  using table_ok_channels [OF assms(1)] table_ok_channels [OF table_ok_extend [OF assms]] by simp

lemma pool_size_extend:
  assumes "\<forall>(t, snds, rcvs) \<in> set tables. \<exists>n. table_ok s t snds rcvs n" "ports_extend s s'"
  shows "pool_size bs s' tables = pool_size bs s tables"
  using assms(1)
proof (induction tables)
  case (Cons x tables)
  obtain t snds rcvs where x: "x = (t, snds, rcvs)" by (metis prod_cases3)
  obtain n where "table_ok s t snds rcvs n" using Cons.prems x by auto
  then show ?case using Cons x table_channels_extend [OF _ assms(2)] by (simp add: pool_size_def)
qed (simp add: pool_size_def)

text \<open>The first run over the sample types.\<close>

lemma placeTypes_inv:
  assumes fresh: "fresh_addresses pl s0" and inp: "layout_input s0 (pl_flow pl) conns"
    and part: "partition_ok (pl_partition pl)"
  shows "\<lbrakk>layout_inv pl s0 ty (set tables) D (between st);
      tot = pool_size bs (ly_store st) tables; distinct (map fst tables @ types);
      foldE (placeType pl bs conns) (st, tables, tot) types = Inr (st', tables', tot')\<rbrakk> \<Longrightarrow>
    layout_inv pl s0 ty (set tables') (D \<union> {c \<in> set conns. ap_sampleType (aport s0 (port (fst c))) \<in> set types}) (between st') \<and>
    tot' = pool_size bs (ly_store st') tables' \<and> distinct (map fst tables')"
proof (induction types arbitrary: st tables tot D)
  case Nil
  have "st = st'" "tables = tables'" "tot = tot'" using Nil.prems(4) by simp_all
  then show ?case using Nil.prems(1-3) by simp
next
  case (Cons t types)
  obtain acc where step: "placeType pl bs conns (st, tables, tot) t = Inr acc"
    and rest: "foldE (placeType pl bs conns) acc types = Inr (st', tables', tot')"
    using Cons.prems(4) by auto
  have "comps_extend s0 (ly_store st)" using layout_invD(2) [OF Cons.prems(1)] by simp
  then have comp: "c_composite (comp (ly_store st) (pl_flow pl))"
    using inp unfolding comps_extend_def layout_input_def by (metis component.select_convs(3) component.surjective component.update_convs(6))
  obtain u where u: "placeComposite pl conns t (between st) = Inr u"
    and acc: "acc = (u, tables @ [(t, sendOffsets u, receiveOffsets u)], tot + sendPortOffset u * channelSize bs t)"
    using step comp by (auto simp: placeType_def Let_def between_def)
  have inv: "layout_inv pl s0 t (set tables) (D \<union> set (of_type s0 t conns)) u"
    and ext: "ports_extend (ly_store st) (ly_store u)"
    using placeComposite_inv [OF fresh inp part layout_inv_type [OF Cons.prems(1)] u] by auto
  have inv': "layout_inv pl s0 ty (set (tables @ [(t, sendOffsets u, receiveOffsets u)])) (D \<union> set (of_type s0 t conns)) (between u)"
    using layout_inv_between [OF inv, of ty] by simp
  have tots: "tot + sendPortOffset u * channelSize bs t =
      pool_size bs (ly_store u) (tables @ [(t, sendOffsets u, receiveOffsets u)])"
  proof -
    have "\<forall>(t, snds, rcvs) \<in> set tables. \<exists>n. table_ok (ly_store st) t snds rcvs n"
      using layout_invD(7) [OF Cons.prems(1)] by auto
    then have "pool_size bs (ly_store u) tables = tot" using pool_size_extend [OF _ ext] Cons.prems(2) by simp
    then show ?thesis using table_ok_channels [OF layout_invD(6) [OF inv]] by (simp add: pool_size_def)
  qed
  have d: "distinct (map fst (tables @ [(t, sendOffsets u, receiveOffsets u)]) @ types)" using Cons.prems(3) by simp
  have eq: "D \<union> set (of_type s0 t conns) \<union> {c \<in> set conns. ap_sampleType (aport s0 (port (fst c))) \<in> set types} =
      D \<union> {c \<in> set conns. ap_sampleType (aport s0 (port (fst c))) \<in> set (t # types)}"
    by (auto simp: of_type_def)
  show ?case using Cons.IH [OF inv' tots d rest [unfolded acc]] unfolding eq .
qed

end
