(* ===== verification/Buffer_Assignment.thy ===== *)
theory Buffer_Assignment
  imports Buffer_Placement
begin

text \<open>
  From offsets to addresses: the buffers assigned by
  \<open>AudioSignalFlow::initialiseAudioConnections\<close>, and what they satisfy.
\<close>

section \<open>Assigning the buffers\<close>

definition configured :: "nat \<Rightarrow> nat \<Rightarrow> sample_type \<Rightarrow> nat \<Rightarrow> audio_port \<Rightarrow> audio_port" where
  "configured bs typeBase ty k p =
     setBufferConfig (typeBase + channelSize bs ty * k) (channelSize bs ty div typeSize ty) p"

lemma configured_simps [simp]:
  "ap_width (configured bs b ty k p) = ap_width p"
  "ap_sampleType (configured bs b ty k p) = ap_sampleType p"
  "ap_parent (configured bs b ty k p) = ap_parent p"
  "ap_direction (configured bs b ty k p) = ap_direction p"
  "ap_name (configured bs b ty k p) = ap_name p"
  "ap_base (configured bs b ty k p) = Some (b + channelSize bs ty * k)"
  "ap_stride (configured bs b ty k p) = channelSize bs ty div typeSize ty"
  by (simp_all add: configured_def setBufferConfig_def)

abbreviation configure :: "nat \<Rightarrow> nat \<Rightarrow> sample_type \<Rightarrow> nat \<times> nat \<Rightarrow> store \<Rightarrow> store" where
  "configure bs typeBase ty \<equiv> configurePort typeBase (channelSize bs ty) (channelSize bs ty div typeSize ty)"

lemma fold_configure:
  "distinct (map fst m) \<Longrightarrow>
     aports (fold (configure bs b ty) m s) p =
       (case map_of m p of None \<Rightarrow> aports s p | Some k \<Rightarrow> Some (configured bs b ty k (aport s p))) \<and>
     comps (fold (configure bs b ty) m s) = comps s \<and> pports (fold (configure bs b ty) m s) = pports s"
proof (induction m arbitrary: s)
  case (Cons e m)
  obtain q k where e: "e = (q, k)" by (cases e)
  have "map_of m q = None" using Cons.prems e by (auto simp: map_of_eq_None_iff)
  then show ?case using Cons.IH [of "configure bs b ty e s"] Cons.prems e
    by (auto simp: configurePort_def configured_def split: option.splits)
qed simp

text \<open>A table depends only on its ports.\<close>

lemma table_ok_cong:
  assumes tb: "table_ok s t snds rcvs n" and eq: "\<And>p. p \<in> keys snds \<union> keys rcvs \<Longrightarrow> aports u p = aports s p"
  shows "table_ok u t snds rcvs n"
proof -
  have "packed (widths s) snds n" using tb by (simp add: table_ok_def)
  then have "packed (widths u) snds n" by (rule packed_cong) (use eq in \<open>force simp: widths_def\<close>)
  moreover have "\<forall>p \<in> keys snds \<union> keys rcvs. aports u p \<noteq> None \<and> ap_sampleType (aport u p) = t"
    using tb eq unfolding table_ok_def by (metis (no_types, lifting))
  ultimately show ?thesis using tb unfolding table_ok_def by blast
qed

text \<open>The ports of a table after the assignment; \<open>T\<close> is where the buffers of a type start.\<close>

definition assigned :: "nat \<Rightarrow> nat \<Rightarrow> (sample_type \<Rightarrow> nat) \<Rightarrow> store \<Rightarrow> store \<Rightarrow> tables \<Rightarrow> bool" where
  "assigned bs base T s s' tables \<longleftrightarrow>
     (\<forall>(ty, snds, rcvs) \<in> set tables. \<forall>(p, k) \<in> set snds \<union> set rcvs.
        aports s' p = Some (configured bs (base + T ty) ty k (aport s p)))"

definition table_keys :: "tables \<Rightarrow> nat set" where
  "table_keys tables = (\<Union>(ty, snds, rcvs) \<in> set tables. keys snds \<union> keys rcvs)"

lemma in_table_keys:
  "p \<in> table_keys tables \<longleftrightarrow> (\<exists>t sn rc. (t, sn, rc) \<in> set tables \<and> p \<in> keys sn \<union> keys rc)"
  unfolding table_keys_def UN_iff Bex_def by (simp only: split_paired_Ex case_prod_conv)

text \<open>The parts of the pool for the types are disjoint.\<close>

definition parts_ok :: "nat \<Rightarrow> (sample_type \<Rightarrow> nat) \<Rightarrow> store \<Rightarrow> tables \<Rightarrow> nat \<Rightarrow> nat \<Rightarrow> bool" where
  "parts_ok bs T s tables lo hi \<longleftrightarrow>
     (\<forall>(ty, snds, rcvs) \<in> set tables. lo \<le> T ty \<and> T ty + table_channels s snds * channelSize bs ty \<le> hi \<and>
        cVectorAlignmentBytes dvd T ty - lo) \<and>
     (\<forall>(ty, snds, rcvs) \<in> set tables. \<forall>(ty', snds', rcvs') \<in> set tables. ty \<noteq> ty' \<longrightarrow>
        T ty + table_channels s snds * channelSize bs ty \<le> T ty' \<or>
        T ty' + table_channels s snds' * channelSize bs ty' \<le> T ty)"

lemma parts_okD:
  assumes "parts_ok bs T s tables lo hi" "(ty, snds, rcvs) \<in> set tables"
  shows "lo \<le> T ty" "T ty + table_channels s snds * channelSize bs ty \<le> hi"
    and "cVectorAlignmentBytes dvd T ty - lo"
    and "(ty', snds', rcvs') \<in> set tables \<Longrightarrow> ty \<noteq> ty' \<Longrightarrow>
      T ty + table_channels s snds * channelSize bs ty \<le> T ty' \<or>
      T ty' + table_channels s snds' * channelSize bs ty' \<le> T ty"
proof -
  note u = assms(1) [unfolded parts_ok_def]
  show "lo \<le> T ty" "T ty + table_channels s snds * channelSize bs ty \<le> hi" "cVectorAlignmentBytes dvd T ty - lo"
    using bspec [OF u [THEN conjunct1] assms(2)] by simp_all
  show "T ty + table_channels s snds * channelSize bs ty \<le> T ty' \<or>
      T ty' + table_channels s snds' * channelSize bs ty' \<le> T ty"
    if "(ty', snds', rcvs') \<in> set tables" "ty \<noteq> ty'"
    using bspec [OF bspec [OF u [THEN conjunct2] assms(2), simplified] that(1)] that(2) by simp
qed

lemma parts_okI:
  assumes "\<And>ty snds rcvs. (ty, snds, rcvs) \<in> set tables \<Longrightarrow>
      lo \<le> T ty \<and> T ty + table_channels s snds * channelSize bs ty \<le> hi \<and> cVectorAlignmentBytes dvd T ty - lo"
    and "\<And>ty snds rcvs ty' snds' rcvs'. (ty, snds, rcvs) \<in> set tables \<Longrightarrow> (ty', snds', rcvs') \<in> set tables \<Longrightarrow>
      ty \<noteq> ty' \<Longrightarrow>
      T ty + table_channels s snds * channelSize bs ty \<le> T ty' \<or>
      T ty' + table_channels s snds' * channelSize bs ty' \<le> T ty"
  shows "parts_ok bs T s tables lo hi"
  unfolding parts_ok_def
proof (intro conjI ballI)
  fix x assume "x \<in> set tables"
  then show "case x of (ty, snds, rcvs) \<Rightarrow> lo \<le> T ty \<and> T ty + table_channels s snds * channelSize bs ty \<le> hi \<and>
      cVectorAlignmentBytes dvd T ty - lo"
    using assms(1) [of "fst x" "fst (snd x)" "snd (snd x)"] by (simp add: case_prod_unfold)
next
  fix x assume "x \<in> set tables"
  then show "case x of (ty, snds, rcvs) \<Rightarrow> \<forall>(ty', snds', rcvs') \<in> set tables. ty \<noteq> ty' \<longrightarrow>
      T ty + table_channels s snds * channelSize bs ty \<le> T ty' \<or>
      T ty' + table_channels s snds' * channelSize bs ty' \<le> T ty"
    using assms(2) [of "fst x" "fst (snd x)" "snd (snd x)"] by (fastforce simp: case_prod_unfold)
qed

lemma assignBuffers_step:
  assumes tab: "table_ok s ty snds rcvs n"
  obtains s' where "assignBuffers bs base (s, off) (ty, snds, rcvs) = Inr (s', off + table_channels s snds * channelSize bs ty)"
    and "\<And>p k. (p, k) \<in> set snds \<union> set rcvs \<Longrightarrow> aports s' p = Some (configured bs (base + off) ty k (aport s p))"
    and "\<And>p. p \<notin> keys snds \<union> keys rcvs \<Longrightarrow> aports s' p = aports s p"
    and "comps s' = comps s" "pports s' = pports s"
proof -
  let ?cfg = "configure bs (base + off) ty"
  let ?s1 = "fold ?cfg snds s" and ?s2 = "fold ?cfg rcvs (fold ?cfg snds s)"
  have d: "sorted_wrt (<) (map fst snds)" "sorted_wrt (<) (map fst rcvs)" "keys snds \<inter> keys rcvs = {}"
    using tab packedD(1) by (auto simp: table_ok_def)
  then have ds: "distinct (map fst snds)" "distinct (map fst rcvs)" by (simp_all add: strict_sorted_iff)
  note S = fold_configure [OF ds(1), where bs = bs and b = "base + off" and ty = ty and s = s]
  note R = fold_configure [OF ds(2), where bs = bs and b = "base + off" and ty = ty and s = ?s1]
  have a: "assignBuffers bs base (s, off) (ty, snds, rcvs) = Inr (?s2, off + table_channels s snds * channelSize bs ty)"
    using channelSize_props(3) by (simp add: assignBuffers_def Let_def table_channels_def widths_def dvd_eq_mod_eq_0)
  show thesis
  proof (rule that [OF a])
    show "aports ?s2 p = Some (configured bs (base + off) ty k (aport s p))" if pk: "(p, k) \<in> set snds \<union> set rcvs" for p k
    proof (cases "(p, k) \<in> set snds")
      case True
      then have "p \<notin> keys rcvs" using d(3) by force
      then have "map_of rcvs p = None" by (simp add: map_of_eq_None_iff)
      moreover have "map_of snds p = Some k" using True map_of_sorted_iff [OF d(1)] by simp
      ultimately show ?thesis using S R by simp
    next
      case False
      then have "(p, k) \<in> set rcvs" using pk by simp
      moreover from this have "p \<notin> keys snds" using d(3) by force
      ultimately have "map_of rcvs p = Some k" "map_of snds p = None"
        using map_of_sorted_iff [OF d(2)] by (simp_all add: map_of_eq_None_iff)
      then show ?thesis using S R by simp
    qed
    show "aports ?s2 p = aports s p" if "p \<notin> keys snds \<union> keys rcvs" for p
    proof -
      have "map_of rcvs p = None" "map_of snds p = None" using that by (simp_all add: map_of_eq_None_iff)
      then show ?thesis using S R by simp
    qed
    show "comps ?s2 = comps s" "pports ?s2 = pports s" using S R by simp_all
  qed
qed

lemma assignBuffers_fold:
  "\<lbrakk>\<forall>(t, snds, rcvs) \<in> set tables. \<exists>n. table_ok s t snds rcvs n; distinct (map fst tables)\<rbrakk> \<Longrightarrow>
   \<exists>s' T. foldE (assignBuffers bs base) (s, off) tables = Inr (s', off + pool_size bs s tables) \<and>
     assigned bs base T s s' tables \<and> parts_ok bs T s tables off (off + pool_size bs s tables) \<and>
     (\<forall>p. p \<notin> table_keys tables \<longrightarrow> aports s' p = aports s p) \<and> comps s' = comps s \<and> pports s' = pports s"
proof (induction tables arbitrary: s off)
  case Nil
  show ?case by (simp add: pool_size_def assigned_def parts_ok_def)
next
  case (Cons x tables)
  obtain ty snds rcvs where x: "x = (ty, snds, rcvs)" by (metis prod_cases3)
  obtain n where tab: "table_ok s ty snds rcvs n" using Cons.prems(1) x by auto
  obtain u where u: "assignBuffers bs base (s, off) x = Inr (u, off + table_channels s snds * channelSize bs ty)"
    and new: "\<And>p k. (p, k) \<in> set snds \<union> set rcvs \<Longrightarrow> aports u p = Some (configured bs (base + off) ty k (aport s p))"
    and old: "\<And>p. p \<notin> keys snds \<union> keys rcvs \<Longrightarrow> aports u p = aports s p"
    and comps: "comps u = comps s" "pports u = pports s"
    using assignBuffers_step [OF tab] x by metis
  let ?off = "off + table_channels s snds * channelSize bs ty"
  have type: "ap_sampleType (aport s p) = t" "aports s p \<noteq> None"
    if i: "(t, sn, rc) \<in> set (x # tables)" "p \<in> keys sn \<union> keys rc" for t sn rc p
  proof -
    obtain n where "table_ok s t sn rc n" using Cons.prems(1) i(1) by blast
    then have "aports s p \<noteq> None \<and> ap_sampleType (aport s p) = t"
      using i(2) unfolding table_ok_def by blast
    then show "ap_sampleType (aport s p) = t" "aports s p \<noteq> None" by simp_all
  qed
  have disj: "p \<notin> keys snds \<union> keys rcvs" if "(t, sn, rc) \<in> set tables" "p \<in> keys sn \<union> keys rc" for t sn rc p
  proof
    assume "p \<in> keys snds \<union> keys rcvs"
    then have "ap_sampleType (aport s p) = ty" using type(1) [of ty snds rcvs p] x by simp
    moreover have "ap_sampleType (aport s p) = t" using type(1) [of t sn rc p] that by simp
    ultimately show False using Cons.prems(2) that(1) x by (auto simp: image_iff)
  qed
  have w: "widths u p = widths s p" if "aports s p \<noteq> None" for p
  proof (cases "p \<in> keys snds \<union> keys rcvs")
    case True
    then obtain k where "(p, k) \<in> set snds \<union> set rcvs" by fastforce
    then show ?thesis using new by (simp add: widths_def)
  qed (use old in \<open>simp add: widths_def\<close>)
  have tabs: "\<forall>(t, sn, rc) \<in> set tables. \<exists>n. table_ok u t sn rc n"
  proof (clarify)
    fix t sn rc assume i: "(t, sn, rc) \<in> set tables"
    obtain n where tb: "table_ok s t sn rc n" using Cons.prems(1) i by auto
    have "aports u p = aports s p" if "p \<in> keys sn \<union> keys rc" for p using old disj [OF i that] by simp
    then show "\<exists>n. table_ok u t sn rc n" using table_ok_cong [OF tb] by blast
  qed
  have ch: "table_channels u sn = table_channels s sn" if "(t, sn, rc) \<in> set (x # tables)" for t sn rc
  proof -
    have "widths u (fst e) = widths s (fst e)" if "e \<in> set sn" for e
      using w type(2) [OF \<open>(t, sn, rc) \<in> set (x # tables)\<close>, of "fst e"] that by simp
    then show ?thesis unfolding table_channels_def by (metis (no_types, lifting) map_cong)
  qed
  have ps: "pool_size bs u tables = pool_size bs s tables"
  proof -
    have "(\<lambda>(t, sn, rc). table_channels u sn * channelSize bs t) e = (\<lambda>(t, sn, rc). table_channels s sn * channelSize bs t) e"
      if "e \<in> set tables" for e
    proof -
      obtain t sn rc where e: "e = (t, sn, rc)" by (metis prod_cases3)
      then show ?thesis using ch [of t sn rc] that by simp
    qed
    then show ?thesis unfolding pool_size_def by (metis (no_types, lifting) map_cong)
  qed
  obtain s' T where IH: "foldE (assignBuffers bs base) (u, ?off) tables = Inr (s', ?off + pool_size bs u tables)"
      "assigned bs base T u s' tables" "parts_ok bs T u tables ?off (?off + pool_size bs u tables)"
      "\<forall>p. p \<notin> table_keys tables \<longrightarrow> aports s' p = aports u p" "comps s' = comps u" "pports s' = pports u"
    using Cons.IH [OF tabs, of ?off] Cons.prems(2) by auto
  define T' where "T' = T(ty := off)"
  have T': "T' t = T t" if "(t, sn, rc) \<in> set tables" for t sn rc
    using Cons.prems(2) that x by (auto simp: T'_def image_iff)
  have T'ty: "T' ty = off" by (simp add: T'_def)
  have hi: "?off + pool_size bs u tables = off + pool_size bs s (x # tables)"
    unfolding ps by (simp add: pool_size_def x)
  have fold: "foldE (assignBuffers bs base) (s, off) (x # tables) = Inr (s', off + pool_size bs s (x # tables))"
    using u IH(1) hi by simp
  have A: "aports s' p = Some (configured bs (base + T' t) t k (aport s p))"
    if i: "(t, sn, rc) \<in> set (x # tables)" and pk: "(p, k) \<in> set sn \<union> set rc" for t sn rc p k
  proof -
    have p: "p \<in> keys sn \<union> keys rc" using pk by force
    show ?thesis
    proof (cases "(t, sn, rc) = x")
      case e: True
      have "p \<notin> table_keys tables" using p disj e x unfolding in_table_keys by blast
      then show ?thesis using IH(4) new [of p k] pk e x T'ty by simp
    next
      case False
      then have e: "(t, sn, rc) \<in> set tables" using i by simp
      then have "aports s' p = Some (configured bs (base + T t) t k (aport u p))"
        using IH(2) pk unfolding assigned_def by fast
      then show ?thesis using old disj [OF e p] T' [OF e] by simp
    qed
  qed
  then have "assigned bs base T' s s' (x # tables)" unfolding assigned_def by fast
  moreover have "parts_ok bs T' s (x # tables) off (off + pool_size bs s (x # tables))"
  proof (rule parts_okI)
    have up: "?off \<le> off + pool_size bs s (x # tables)" using hi by simp
    have IH3: "?off \<le> T t" "T t + table_channels s sn * channelSize bs t \<le> off + pool_size bs s (x # tables)"
        "cVectorAlignmentBytes dvd T t - ?off" if "(t, sn, rc) \<in> set tables" for t sn rc
      using parts_okD(1-3) [OF IH(3) that] ch [of t sn rc] that unfolding hi by auto
    show "off \<le> T' t \<and> T' t + table_channels s sn * channelSize bs t \<le> off + pool_size bs s (x # tables) \<and>
        cVectorAlignmentBytes dvd T' t - off" if i: "(t, sn, rc) \<in> set (x # tables)" for t sn rc
    proof (cases "(t, sn, rc) = x")
      case True
      then show ?thesis using x T'ty up by simp
    next
      case False
      then have e: "(t, sn, rc) \<in> set tables" using i by simp
      have "T t - off = (T t - ?off) + table_channels s snds * channelSize bs ty" using IH3(1) [OF e] by simp
      then have "cVectorAlignmentBytes dvd T t - off"
        using IH3(3) [OF e] channelSize_props(2) by (metis dvd_add dvd_mult)
      then show ?thesis using IH3(1,2) [OF e] T' [OF e] by simp
    qed
    show "T' t + table_channels s sn * channelSize bs t \<le> T' t' \<or>
        T' t' + table_channels s sn' * channelSize bs t' \<le> T' t"
      if i: "(t, sn, rc) \<in> set (x # tables)" "(t', sn', rc') \<in> set (x # tables)" "t \<noteq> t'" for t sn rc t' sn' rc'
    proof -
      consider "(t, sn, rc) = x" "(t', sn', rc') \<in> set tables" | "(t, sn, rc) \<in> set tables" "(t', sn', rc') = x"
        | "(t, sn, rc) \<in> set tables" "(t', sn', rc') \<in> set tables" using i x by auto
      then show ?thesis
      proof cases
        case 1
        then show ?thesis using IH3(1) [OF 1(2)] T' [OF 1(2)] T'ty x by auto
      next
        case 2
        then show ?thesis using IH3(1) [OF 2(1)] T' [OF 2(1)] T'ty x by auto
      next
        case 3
        then show ?thesis
          using parts_okD(4) [OF IH(3) 3 i(3)] ch [of t sn rc] ch [of t' sn' rc'] T' [OF 3(1)] T' [OF 3(2)] by simp
      qed
    qed
  qed
  moreover have "\<forall>p. p \<notin> table_keys (x # tables) \<longrightarrow> aports s' p = aports s p"
    using IH(4) old x by (auto simp: table_keys_def)
  ultimately show ?case using fold IH(5,6) comps by auto
qed

section \<open>What the buffers satisfy\<close>

definition channel_address :: "store \<Rightarrow> audio_channel \<Rightarrow> nat" where
  "channel_address s a =
     basePointer (aport s (port a)) + channel a * channelStrideBytes (aport s (port a))"

definition block_bytes :: "nat \<Rightarrow> store \<Rightarrow> audio_channel \<Rightarrow> nat" where
  "block_bytes blockSize s a = blockSize * typeSize (ap_sampleType (aport s (port a)))"

definition sending_ports :: "acmap \<Rightarrow> nat set" where
  "sending_ports conns = port ` fst ` set conns"

text \<open>A receiving channel reads the very samples that its sender writes.\<close>

definition buffers_shared :: "store \<Rightarrow> acmap \<Rightarrow> bool" where
  "buffers_shared s conns \<longleftrightarrow>
     (\<forall>(a, b) \<in> set conns. channel_address s a = channel_address s b \<and>
        ap_sampleType (aport s (port a)) = ap_sampleType (aport s (port b)))"

text \<open>Two channels of sending ports have no byte in common.\<close>

definition buffers_disjoint :: "nat \<Rightarrow> store \<Rightarrow> acmap \<Rightarrow> bool" where
  "buffers_disjoint blockSize s conns \<longleftrightarrow>
     (\<forall>a b. port a \<in> sending_ports conns \<and> port b \<in> sending_ports conns \<and>
        channel a < widths s (port a) \<and> channel b < widths s (port b) \<and> a \<noteq> b \<longrightarrow>
        channel_address s a + block_bytes blockSize s a \<le> channel_address s b \<or>
        channel_address s b + block_bytes blockSize s b \<le> channel_address s a)"

text \<open>Every channel of a sending port lies in the pool, at an aligned address.\<close>

definition buffers_in_pool :: "nat \<Rightarrow> nat \<Rightarrow> nat \<Rightarrow> store \<Rightarrow> acmap \<Rightarrow> bool" where
  "buffers_in_pool blockSize poolBase poolSize s conns \<longleftrightarrow>
     (\<forall>a. port a \<in> sending_ports conns \<and> channel a < widths s (port a) \<longrightarrow>
        poolBase \<le> channel_address s a \<and>
        channel_address s a + block_bytes blockSize s a \<le> poolBase + poolSize \<and>
        cVectorAlignmentBytes dvd channel_address s a - poolBase)"

text \<open>The address of a channel of a port of a table.\<close>

lemma address_assigned:
  assumes asg: "assigned bs base T s s' tables" and i: "(ty, snds, rcvs) \<in> set tables"
    and tab: "table_ok s ty snds rcvs n"
    and m: "m \<in> {snds, rcvs}" and a: "port a \<in> keys m"
  shows "channel_address s' a = base + T ty + channelSize bs ty * loc m a"
    and "widths s' (port a) = widths s (port a)"
    and "ap_sampleType (aport s' (port a)) = ty"
proof -
  have "sorted_wrt (<) (map fst m)" using tab m packedD(1) by (auto simp: table_ok_def)
  moreover obtain k where k: "(port a, k) \<in> set m" using a by force
  ultimately have mk: "map_of m (port a) = Some k" using map_of_sorted_iff by fast
  have p: "aports s' (port a) = Some (configured bs (base + T ty) ty k (aport s (port a)))"
    using asg i k m unfolding assigned_def by fast
  have ty: "ap_sampleType (aport s (port a)) = ty" using tab a m unfolding table_ok_def by blast
  show "ap_sampleType (aport s' (port a)) = ty" "widths s' (port a) = widths s (port a)"
    using p ty by (simp_all add: widths_def)
  have "channelSize bs ty div typeSize ty * typeSize ty = channelSize bs ty"
    using channelSize_props(3) by simp
  then show "channel_address s' a = base + T ty + channelSize bs ty * loc m a"
    using p ty mk by (simp add: channel_address_def basePointer_def channelStrideBytes_def loc_def algebra_simps)
qed

lemma blocks_apart:
  fixes c :: nat
  assumes "x < y" "b \<le> c"
  shows "c * x + b \<le> c * y"
proof -
  have "c * x + b \<le> c * x + c" using assms(2) by simp
  also have "\<dots> = c * Suc x" by simp
  also have "\<dots> \<le> c * y" using assms(1) by (intro mult_le_mono2) simp
  finally show ?thesis .
qed

lemma buffers_of_tables:
  assumes asg: "assigned bs base T s s' tables" and parts: "parts_ok bs T s tables 0 sz"
    and tabs: "\<And>t snds rcvs. (t, snds, rcvs) \<in> set tables \<Longrightarrow> \<exists>n. table_ok s t snds rcvs n"
    and placed: "\<And>c. c \<in> set conns \<Longrightarrow> \<exists>t snds rcvs. (t, snds, rcvs) \<in> set tables \<and> placed s snds rcvs c"
    and types: "distinct (map fst tables)"
  shows "buffers_shared s' conns" "buffers_disjoint bs s' conns" "buffers_in_pool bs base sz s' conns"
proof -
  have channel: "\<exists>t snds rcvs n. (t, snds, rcvs) \<in> set tables \<and> table_ok s t snds rcvs n \<and> port a \<in> keys snds \<and>
      channel a < widths s (port a) \<and> n = table_channels s snds \<and> loc snds a < n \<and>
      channel_address s' a = base + T t + channelSize bs t * loc snds a \<and> block_bytes bs s' a \<le> channelSize bs t"
    if a: "port a \<in> sending_ports conns" "channel a < widths s' (port a)" for a
  proof -
    obtain c where c: "c \<in> set conns" "port (fst c) = port a" using a(1) by (auto simp: sending_ports_def)
    obtain t snds rcvs where t: "(t, snds, rcvs) \<in> set tables" "placed s snds rcvs c" using placed [OF c(1)] by blast
    obtain n where n: "table_ok s t snds rcvs n" using tabs [OF t(1)] by blast
    have k: "port a \<in> keys snds" using t(2) c(2) by (simp add: placed_def)
    note A = address_assigned [OF asg t(1) n _ k]
    have "loc snds a < n"
      using packed_bound [of "widths s" snds n a] n k A(2) a(2) by (simp add: table_ok_def)
    moreover have "block_bytes bs s' a \<le> channelSize bs t"
      using A(3) channelSize_props(1) by (simp add: block_bytes_def)
    ultimately show ?thesis using t(1) n k A(1,2) a(2) table_ok_channels [OF n] by auto
  qed
  show "buffers_shared s' conns"
    unfolding buffers_shared_def
  proof (clarify)
    fix a b assume c: "(a, b) \<in> set conns"
    obtain t snds rcvs where t: "(t, snds, rcvs) \<in> set tables" "placed s snds rcvs (a, b)" using placed [OF c] by blast
    obtain n where n: "table_ok s t snds rcvs n" using tabs [OF t(1)] by blast
    have k: "port a \<in> keys snds" "port b \<in> keys rcvs" "loc snds a = loc rcvs b" using t(2) by (simp_all add: placed_def)
    show "channel_address s' a = channel_address s' b \<and>
        ap_sampleType (aport s' (port a)) = ap_sampleType (aport s' (port b))"
      using address_assigned [OF asg t(1) n _ k(1)] address_assigned [OF asg t(1) n _ k(2)] k(3) by simp
  qed
  show "buffers_in_pool bs base sz s' conns"
    unfolding buffers_in_pool_def
  proof (intro allI impI, elim conjE)
    fix a assume a: "port a \<in> sending_ports conns" "channel a < widths s' (port a)"
    obtain t snds rcvs n where A: "(t, snds, rcvs) \<in> set tables" "n = table_channels s snds" "loc snds a < n"
        "channel_address s' a = base + T t + channelSize bs t * loc snds a" "block_bytes bs s' a \<le> channelSize bs t"
      using channel [OF a] by metis
    note P = parts_okD(1-3) [OF parts A(1)]
    have "channelSize bs t * loc snds a + block_bytes bs s' a \<le> channelSize bs t * n"
      using blocks_apart [OF A(3,5)] .
    then show "base \<le> channel_address s' a \<and> channel_address s' a + block_bytes bs s' a \<le> base + sz \<and>
        cVectorAlignmentBytes dvd channel_address s' a - base"
      using A(2,4) P channelSize_props(2) [of bs t] by (simp add: mult.commute)
  qed
  show "buffers_disjoint bs s' conns"
    unfolding buffers_disjoint_def
  proof (intro allI impI, elim conjE)
    fix a b assume ab: "port a \<in> sending_ports conns" "port b \<in> sending_ports conns"
      "channel a < widths s' (port a)" "channel b < widths s' (port b)" "a \<noteq> b"
    obtain t snds rcvs n where A: "(t, snds, rcvs) \<in> set tables" "table_ok s t snds rcvs n" "port a \<in> keys snds"
        "channel a < widths s (port a)" "n = table_channels s snds" "loc snds a < n"
        "channel_address s' a = base + T t + channelSize bs t * loc snds a" "block_bytes bs s' a \<le> channelSize bs t"
      using channel [OF ab(1,3)] by metis
    obtain t' snds' rcvs' n' where B: "(t', snds', rcvs') \<in> set tables" "table_ok s t' snds' rcvs' n'" "port b \<in> keys snds'"
        "channel b < widths s (port b)" "n' = table_channels s snds'" "loc snds' b < n'"
        "channel_address s' b = base + T t' + channelSize bs t' * loc snds' b" "block_bytes bs s' b \<le> channelSize bs t'"
      using channel [OF ab(2,4)] by metis
    show "channel_address s' a + block_bytes bs s' a \<le> channel_address s' b \<or>
        channel_address s' b + block_bytes bs s' b \<le> channel_address s' a"
    proof (cases "t = t'")
      case True
      then have "snds' = snds" using A(1) B(1) types by (metis eq_key_imp_eq_value prod.inject)
      then have "loc snds a \<noteq> loc snds b"
        using packed_inj [of "widths s" snds n a b] A(2-4) B(3,4) ab(5) by (auto simp: table_ok_def)
      then show ?thesis
        using blocks_apart [of "loc snds a" "loc snds b" _ "channelSize bs t"]
          blocks_apart [of "loc snds b" "loc snds a" _ "channelSize bs t"] A(7,8) B(7,8) True \<open>snds' = snds\<close>
        by (cases "loc snds a < loc snds b") auto
    next
      case False
      have "channelSize bs t * loc snds a + block_bytes bs s' a \<le> table_channels s snds * channelSize bs t"
        using blocks_apart [OF A(6,8)] A(5) by (simp add: mult.commute)
      moreover have "channelSize bs t' * loc snds' b + block_bytes bs s' b \<le> table_channels s snds' * channelSize bs t'"
        using blocks_apart [OF B(6,8)] B(5) by (simp add: mult.commute)
      ultimately show ?thesis using parts_okD(4) [OF parts A(1) B(1) False] A(7) B(7) by auto
    qed
  qed
qed

definition start_layout :: "store \<Rightarrow> layout" where
  "start_layout s = \<lparr>ly_store = s, sendOffsets = [], receiveOffsets = [], sendPortOffset = 0,
     tmpConnections = [], mInfrastructureComponents = []\<rparr>"

lemma layout_inv_start:
  assumes "comps s (pl_flow pl) \<noteq> None"
  shows "layout_inv pl s ty {} {} (between (start_layout s))"
proof (rule layout_invI)
  show "routing_built (pl_flow pl) s (ly_store (between (start_layout s))) (set (tmpConnections (between (start_layout s))))
      (mInfrastructureComponents (between (start_layout s)))"
    using assms by (auto simp: routing_built_def start_layout_def)
  have "\<exists>l. comp s c = (comp s c)\<lparr>c_components := l\<rparr>" for c
    by (rule exI [of _ "c_components (comp s c)"]) simp
  then show "comps_extend s (ly_store (between (start_layout s)))"
    by (simp add: comps_extend_def start_layout_def)
qed (auto simp: start_layout_def routing_ok_def routing_ports_def conn_ports_def delivers_def table_ok_def
      packed_empty)

lemma between_start: "between (start_layout s) = start_layout s"
  by (simp add: between_def start_layout_def)

text \<open>The assignment changes nothing of a port but its buffer.\<close>

definition same_ports :: "store \<Rightarrow> store \<Rightarrow> bool" where
  "same_ports s s' \<longleftrightarrow> comps s' = comps s \<and> pports s' = pports s \<and>
     (\<forall>p. (aports s' p = None \<longleftrightarrow> aports s p = None) \<and> (aports s p \<noteq> None \<longrightarrow>
        ap_parent (aport s' p) = ap_parent (aport s p) \<and> ap_direction (aport s' p) = ap_direction (aport s p) \<and>
        ap_sampleType (aport s' p) = ap_sampleType (aport s p) \<and> ap_width (aport s' p) = ap_width (aport s p)))"

lemma same_portsD:
  assumes "same_ports s s'"
  shows "comps s' = comps s" "pports s' = pports s" "aports s' p = None \<longleftrightarrow> aports s p = None"
    and "aports s p \<noteq> None \<Longrightarrow> ap_parent (aport s' p) = ap_parent (aport s p)"
    and "aports s p \<noteq> None \<Longrightarrow> ap_direction (aport s' p) = ap_direction (aport s p)"
    and "aports s p \<noteq> None \<Longrightarrow> ap_sampleType (aport s' p) = ap_sampleType (aport s p)"
    and "aports s p \<noteq> None \<Longrightarrow> widths s' p = widths s p"
  using assms unfolding same_ports_def widths_def by blast+

lemma assigned_same_ports:
  assumes asg: "assigned bs base T s s' tables" and tabs: "\<forall>(t, snds, rcvs) \<in> set tables. \<exists>n. table_ok s t snds rcvs n"
    and old: "\<forall>p. p \<notin> table_keys tables \<longrightarrow> aports s' p = aports s p"
    and rest: "comps s' = comps s" "pports s' = pports s"
  shows "same_ports s s'"
proof -
  have "aports s p \<noteq> None \<and> (\<exists>b ty k. aports s' p = Some (configured bs b ty k (aport s p)))" if key: "p \<in> table_keys tables" for p
  proof -
    obtain t sn rc where i: "(t, sn, rc) \<in> set tables" "p \<in> keys sn \<union> keys rc" using in_table_keys [THEN iffD1, OF key] by blast
    then obtain k where "(p, k) \<in> set sn \<union> set rc" by fastforce
    then have "\<exists>b ty k. aports s' p = Some (configured bs b ty k (aport s p))"
      using asg i(1) unfolding assigned_def by fast
    moreover obtain n where "table_ok s t sn rc n" using tabs i(1) by blast
    then have "aports s p \<noteq> None" using i(2) unfolding table_ok_def by blast
    ultimately show ?thesis by blast
  qed
  then show ?thesis using old rest unfolding same_ports_def by (metis configured_simps(1-4) option.distinct(1) option.sel)
qed

text \<open>Both runs together.\<close>

lemma initialise_runs:
  assumes fresh: "fresh_addresses pl s" and inp: "layout_input s (pl_flow pl) conns"
    and part: "partition_ok (pl_partition pl)"
    and run: "foldE (placeType pl bs conns) (start_layout s, [], 0) (usedSampleTypes s (pl_flow pl) conns) =
      Inr (st, tables, tot)"
  obtains s' where "foldE (assignBuffers bs base) (ly_store st, 0) tables = Inr (s', tot)"
    and "delivers (set (tmpConnections st)) (set (mInfrastructureComponents st)) = set conns"
    and "buffers_shared s' (tmpConnections st)" "buffers_disjoint bs s' (tmpConnections st)"
    and "buffers_in_pool bs base tot s' (tmpConnections st)"
    and "layout_inv pl s floatId (set tables) (set conns) (between st)" "same_ports (ly_store st) s'"
proof -
  let ?types = "usedSampleTypes s (pl_flow pl) conns"
  have t: "?types = sort_unique (map (\<lambda>c. ap_sampleType (aport s (port (fst c)))) conns)"
    using inp by (simp add: usedSampleTypes_def layout_input_def)
  have d: "distinct (map fst [] @ ?types)" by (simp add: t)
  have z: "0 = pool_size bs (ly_store (start_layout s)) []" by (simp add: pool_size_def)
  have start: "layout_inv pl s floatId (set []) {} (between (start_layout s))"
    using layout_inv_start inp by (simp add: layout_input_def)
  note P = placeTypes_inv [OF fresh inp part start z d run]
  have all: "{c \<in> set conns. ap_sampleType (aport s (port (fst c))) \<in> set ?types} = set conns"
    by (auto simp: t)
  have inv: "layout_inv pl s floatId (set tables) (set conns) (between st)"
    and tot: "tot = pool_size bs (ly_store st) tables" and dt: "distinct (map fst tables)"
    using P all by auto
  have tabs: "\<forall>(t, snds, rcvs) \<in> set tables. \<exists>n. table_ok (ly_store st) t snds rcvs n"
    using layout_invD(7) [OF inv] by auto
  obtain s' T where B: "foldE (assignBuffers bs base) (ly_store st, 0) tables = Inr (s', pool_size bs (ly_store st) tables)"
      "assigned bs base T (ly_store st) s' tables" "parts_ok bs T (ly_store st) tables 0 (pool_size bs (ly_store st) tables)"
      "\<forall>p. p \<notin> table_keys tables \<longrightarrow> aports s' p = aports (ly_store st) p" "comps s' = comps (ly_store st)"
      "pports s' = pports (ly_store st)"
    using assignBuffers_fold [OF tabs dt, of bs base 0] by auto
  have pl: "\<exists>t snds rcvs. (t, snds, rcvs) \<in> set tables \<and> placed (ly_store st) snds rcvs c"
    if "c \<in> set (tmpConnections st)" for c
    using layout_inv_placed [OF inv, of c] that by (auto simp: placed_def)
  show thesis
  proof (rule that)
    show "foldE (assignBuffers bs base) (ly_store st, 0) tables = Inr (s', tot)" using B(1) tot by simp
    show "delivers (set (tmpConnections st)) (set (mInfrastructureComponents st)) = set conns"
      using layout_invD(5) [OF inv] by simp
    show "buffers_shared s' (tmpConnections st)" "buffers_disjoint bs s' (tmpConnections st)"
        "buffers_in_pool bs base tot s' (tmpConnections st)"
      unfolding tot by (rule buffers_of_tables [OF B(2,3) _ _ dt]; use tabs pl in blast)+
    show "layout_inv pl s floatId (set tables) (set conns) (between st)" by (rule inv)
    show "same_ports (ly_store st) s'" by (rule assigned_same_ports [OF B(2) tabs B(4-6)])
  qed
qed

definition ex_placement :: placement where
  "ex_placement = \<lparr>pl_flow = 0, pl_levels = 4, pl_new = (\<lambda>i. (100 + 3 * i, 101 + 3 * i, 102 + 3 * i)),
     pl_partition = (\<lambda>P xs. filter P xs @ filter (\<lambda>x. \<not> P x) xs)\<rparr>"

text \<open>Crossed channels, and one channel with two receivers: both receiving ports need routing.\<close>

definition ex_crossed :: acmap where
  "ex_crossed = [(AudioChannel 10 0, AudioChannel 14 0), (AudioChannel 10 0, AudioChannel 14 1),
     (AudioChannel 10 1, AudioChannel 11 1), (AudioChannel 15 1, AudioChannel 11 0)]"

lemma ex_fresh: "fresh_addresses ex_placement ex_store"
  by (auto simp: fresh_addresses_def ex_placement_def ex_store_def)

lemma ex_partition: "partition_ok (pl_partition ex_placement)"
  unfolding partition_ok_def
proof (intro allI)
  fix P and xs :: "nat list"
  show "\<exists>ys zs. pl_partition ex_placement P xs = ys @ zs \<and> list_all P ys \<and> list_all (\<lambda>x. \<not> P x) zs \<and>
      set ys \<union> set zs = set xs \<and> length ys + length zs = length xs"
    by (rule exI [of _ "filter P xs"], rule exI [of _ "filter (\<lambda>x. \<not> P x) xs"])
      (auto simp: ex_placement_def list_all_iff sum_length_filter_compl)
qed

lemma ex_layout_input: "layout_input ex_store 0 ex_crossed"
  by (auto simp: layout_input_def ex_crossed_def ex_defs widths_def)

definition ex_setup :: audio_setup where
  "ex_setup = (case initialiseAudioConnections ex_placement 32 4096 ex_store ex_crossed of Inr r \<Rightarrow> r)"

lemma ex_setup: "initialiseAudioConnections ex_placement 32 4096 ex_store ex_crossed = Inr ex_setup"
proof -
  have "case initialiseAudioConnections ex_placement 32 4096 ex_store ex_crossed of
      Inl e \<Rightarrow> False | Inr r \<Rightarrow> True" by code_simp
  then show ?thesis by (auto simp: ex_setup_def split: sum.splits)
qed

text \<open>
  C3 (initialiseAudioConnections_spec): when the audio connections of a flow can be initialised,
  the connections made realise exactly the given ones, directly or through one internal routing
  component each; every connected receiving channel has the address of its sending channel; the
  channels of all sending ports are disjoint blocks inside the pool, at aligned addresses.
  Relied upon: \<open>new\<close> returns unused addresses and \<open>std::partition\<close> permutes.
\<close>

theorem initialiseAudioConnections_spec:
  assumes "fresh_addresses pl s" and "partition_ok (pl_partition pl)"
    and "layout_input s (pl_flow pl) conns"
    and "initialiseAudioConnections pl blockSize poolBase s conns = Inr r"
  shows "delivers (set (finalConnections r)) (set (as_infrastructure r)) = set conns \<and>
    buffers_shared (as_store r) (finalConnections r) \<and>
    buffers_disjoint blockSize (as_store r) (finalConnections r) \<and>
    buffers_in_pool blockSize poolBase (as_poolSize r) (as_store r) (finalConnections r)"
proof -
  obtain st tables tot where run:
      "foldE (placeType pl blockSize conns) (start_layout s, [], 0) (usedSampleTypes s (pl_flow pl) conns) = Inr (st, tables, tot)"
    using assms(4) by (auto simp: initialiseAudioConnections_def start_layout_def Let_def)
  obtain s' where s': "foldE (assignBuffers blockSize poolBase) (ly_store st, 0) tables = Inr (s', tot)"
      "delivers (set (tmpConnections st)) (set (mInfrastructureComponents st)) = set conns"
      "buffers_shared s' (tmpConnections st)" "buffers_disjoint blockSize s' (tmpConnections st)"
      "buffers_in_pool blockSize poolBase tot s' (tmpConnections st)"
    by (rule initialise_runs [OF assms(1,3,2) run])
  have "as_store r = s'" "finalConnections r = tmpConnections st" "as_poolSize r = tot"
      "as_infrastructure r = mInfrastructureComponents st"
    using assms(4) run s'(1) by (auto simp: initialiseAudioConnections_def start_layout_def Let_def)
  then show ?thesis using s'(2-5) by simp
qed

theorem initialiseAudioConnections_spec_witness:
  "delivers (set (finalConnections ex_setup)) (set (as_infrastructure ex_setup)) = set ex_crossed \<and>
   buffers_shared (as_store ex_setup) (finalConnections ex_setup) \<and>
   buffers_disjoint 32 (as_store ex_setup) (finalConnections ex_setup) \<and>
   buffers_in_pool 32 4096 (as_poolSize ex_setup) (as_store ex_setup) (finalConnections ex_setup)"
  by (rule initialiseAudioConnections_spec [OF ex_fresh ex_partition _ ex_setup])
    (simp add: ex_placement_def ex_layout_input)

end
