(* ===== verification/Integrity_Checking.thy ===== *)
theory Integrity_Checking
  imports Audio_Connections Parameter_Connections
begin

text \<open>
  The integrity checks that run before a signal flow is instantiated
  (\<open>src/librrl/integrity_checking.cpp\<close>): on each level of the hierarchy, every receive channel
  has one sender, every send channel is used, and parameter ports are connected compatibly.
\<close>

section \<open>Audio connections\<close>

type_synonym count_table = "(audio_channel \<times> nat) list"

definition fillTable :: "store \<Rightarrow> nat list \<Rightarrow> count_table" where
  "fillTable s ports =
     fold (\<lambda>p table. fold (\<lambda>chIdx table. map_insert (AudioChannel p chIdx) 0 table)
                          [0..<ap_width (aport s p)] table) ports []"

fun countConnection ::
  "audio_channel \<times> audio_channel \<Rightarrow> bool \<times> message list \<times> count_table \<times> count_table
   \<Rightarrow> bool \<times> message list \<times> count_table \<times> count_table" where
  "countConnection (a, b) (result, messages, sendTable, receiveTable) =
     (case map_of sendTable a of
        None \<Rightarrow> (False, messages @ [SendChannelNotFound (port a) (channel a)], sendTable, receiveTable)
      | Some _ \<Rightarrow>
          (case map_of receiveTable b of
             None \<Rightarrow> (False, messages @ [ReceiveChannelNotFound (port b) (channel b)], sendTable, receiveTable)
           | Some n \<Rightarrow>
               if n > 0
               then (False, messages @ [MultipleSenders (port b) (channel b)],
                     map_update a Suc sendTable, map_update b Suc receiveTable)
               else (result, messages, map_update a Suc sendTable, map_update b Suc receiveTable)))"

text \<open>
  The comparison of the sample types in the last branch of the receive loop compares the port
  with itself, as the source does.
\<close>

fun checkReceiveEntry :: "store \<Rightarrow> audio_channel \<times> nat \<Rightarrow> bool \<times> message list \<Rightarrow> bool \<times> message list" where
  "checkReceiveEntry s (ch, numConnections) (result, messages) =
     (if numConnections = 0 then (False, messages @ [ReceiveNotConnected (port ch) (channel ch)])
      else if numConnections > 1 then (False, messages @ [MultipleSenders (port ch) (channel ch)])
      else if ap_sampleType (aport s (port ch)) \<noteq> ap_sampleType (aport s (port ch))
      then (False, messages @ [SampleTypeMismatch (port ch) (channel ch)])
      else (result, messages))"

fun checkSendEntry :: "audio_channel \<times> nat \<Rightarrow> bool \<times> message list \<Rightarrow> bool \<times> message list" where
  "checkSendEntry (ch, numConnections) (result, messages) =
     (if numConnections = 0 then (False, messages @ [SendNotConnected (port ch) (channel ch)])
      else (result, messages))"

definition checkAudioConnectionsLocal :: "store \<Rightarrow> hier \<Rightarrow> message list \<Rightarrow> bool \<times> message list" where
  "checkAudioConnectionsLocal s t messages =
     (let localPorts = audioPortLookup s t False;
          sendTable = fillTable s (mAllNonPlaceholderSendPorts localPorts);
          receiveTable = fillTable s (mAllNonPlaceholderReceivePorts localPorts);
          (filled, messages1, localConnections) = fill s t False messages
      in if \<not> filled then (False, messages1)
         else let (result, messages2, sendTable', receiveTable') =
                    fold countConnection localConnections (True, messages1, sendTable, receiveTable)
              in fold checkSendEntry sendTable'
                   (fold (checkReceiveEntry s) receiveTable' (result, messages2)))"

fun checkAudioConnectionIntegrity :: "store \<Rightarrow> hier \<Rightarrow> bool \<Rightarrow> message list \<Rightarrow> bool \<times> message list" where
  "checkAudioConnectionIntegrity s (Hier c ts) hierarchical messages =
     (if \<not> c_composite (comp s c) then (True, messages)
      else let st = checkAudioConnectionsLocal s (Hier c ts) messages
           in if hierarchical
              then fold (\<lambda>t (result, messages).
                     let (componentResult, messages') = checkAudioConnectionIntegrity s t True messages
                     in (result \<and> componentResult, messages')) ts st
              else st)"

section \<open>What the audio check guarantees\<close>

text \<open>
  The contract of one level, over the registered connections: they are valid, every receive
  channel is the target of exactly one of their channel pairs, and every send channel is the
  source of one.
\<close>

definition level_pairs :: "store \<Rightarrow> hier \<Rightarrow> (audio_channel \<times> audio_channel) list" where
  "level_pairs s t = concat (map channel_pairs (c_audioConnections (comp s (root t))))"

definition audio_level_ok :: "store \<Rightarrow> hier \<Rightarrow> bool" where
  "audio_level_ok s t \<longleftrightarrow>
     (\<forall>con \<in> set (c_audioConnections (comp s (root t))). valid_connection s t con) \<and>
     (\<forall>p \<in> local_receivers s t. \<forall>i < ap_width (aport s p).
        count_list (map snd (level_pairs s t)) (AudioChannel p i) = 1) \<and>
     (\<forall>p \<in> local_senders s t. \<forall>i < ap_width (aport s p).
        AudioChannel p i \<in> set (map fst (level_pairs s t)))"

definition channels_of :: "store \<Rightarrow> nat set \<Rightarrow> audio_channel set" where
  "channels_of s P = {AudioChannel p i | p i. p \<in> P \<and> i < ap_width (aport s p)}"

lemma map_of_fillTable:
  "map_of (fillTable s ps) ch = (if ch \<in> channels_of s (set ps) then Some 0 else None)"
  and sorted_fillTable: "sorted_wrt (<) (map fst (fillTable s ps))"
proof -
  let ?g = "\<lambda>p table. fold (\<lambda>chIdx table. map_insert (AudioChannel p chIdx) 0 table) [0..<ap_width (aport s p)] table"
  have inner: "sorted_wrt (<) (map fst m) \<Longrightarrow> sorted_wrt (<) (map fst (fold (\<lambda>i. map_insert (AudioChannel p i) 0) is m)) \<and>
      map_of (fold (\<lambda>i. map_insert (AudioChannel p i) (0::nat)) is m) ch =
        (if map_of m ch = None \<and> port ch = p \<and> channel ch \<in> set is then Some 0 else map_of m ch)" for p "is" ch and m :: count_table
  proof (induction "is" arbitrary: m)
    case (Cons i js)
    have "sorted_wrt (<) (map fst (map_insert (AudioChannel p i) (0::nat) m))"
      using Cons.prems by (rule sorted_map_insert)
    then show ?case using Cons.IH [of "map_insert (AudioChannel p i) 0 m"] Cons.prems
      by (cases ch) (auto simp: map_of_map_insert)
  qed simp
  have outer: "sorted_wrt (<) (map fst m) \<Longrightarrow> sorted_wrt (<) (map fst (fold ?g ps m)) \<and>
      map_of (fold ?g ps m) ch = (if map_of m ch = None \<and> ch \<in> channels_of s (set ps) then Some 0 else map_of m ch)" for ch and m :: count_table
  proof (induction ps arbitrary: m)
    case (Cons p ps)
    have 1: "sorted_wrt (<) (map fst (?g p m))" using inner [OF Cons.prems] by blast
    have 2: "map_of (?g p m) ch = (if map_of m ch = None \<and> port ch = p \<and> channel ch < ap_width (aport s p)
        then Some 0 else map_of m ch)"
      using inner [OF Cons.prems, of p "[0..<ap_width (aport s p)]" ch] by simp
    show ?case using Cons.IH [OF 1] 2 by (cases ch) (auto simp: channels_of_def)
  qed (simp add: channels_of_def)
  show "map_of (fillTable s ps) ch = (if ch \<in> channels_of s (set ps) then Some 0 else None)"
    "sorted_wrt (<) (map fst (fillTable s ps))"
    using outer [of "[]"] unfolding fillTable_def by auto
qed


text \<open>The counting loop, when every connection joins channels of the tables.\<close>

lemma count_loop:
  assumes "\<forall>(a, b) \<in> set es. map_of st a \<noteq> None \<and> map_of rt b \<noteq> None"
    and "fold countConnection es (r, msgs, st, rt) = (r', msgs', st', rt')"
  shows "map fst st' = map fst st" "map fst rt' = map fst rt"
    and "map_of st' ch = map_option (\<lambda>n. n + count_list (map fst es) ch) (map_of st ch)"
    and "map_of rt' ch = map_option (\<lambda>n. n + count_list (map snd es) ch) (map_of rt ch)"
    and "r' \<Longrightarrow> r"
    and "r \<Longrightarrow> \<forall>b n. map_of rt' b = Some n \<longrightarrow> n \<le> 1 \<Longrightarrow> r'"
proof -
  have dom_upd: "map_of (map_update k f m) x = None \<longleftrightarrow> map_of m x = None" for k f m and x :: audio_channel
    by (simp add: map_of_map_update)
  have "map fst st' = map fst st \<and> map fst rt' = map fst rt \<and>
      (\<forall>ch. map_of st' ch = map_option (\<lambda>n. n + count_list (map fst es) ch) (map_of st ch)) \<and>
      (\<forall>ch. map_of rt' ch = map_option (\<lambda>n. n + count_list (map snd es) ch) (map_of rt ch)) \<and>
      (r' \<longrightarrow> r) \<and> (r \<longrightarrow> (\<forall>b n. map_of rt' b = Some n \<longrightarrow> n \<le> 1) \<longrightarrow> r')"
    using assms
  proof (induction es arbitrary: r msgs st rt)
    case Nil
    then show ?case by (auto simp: option.map_ident)
  next
    case (Cons e es)
    obtain a b where e: "e = (a, b)" by (cases e)
    obtain k n where k: "map_of st a = Some k" "map_of rt b = Some n" using Cons.prems(1) e by auto
    define r1 where "r1 = (r \<and> n = 0)"
    define msgs1 where "msgs1 = (if n > 0 then msgs @ [MultipleSenders (port b) (channel b)] else msgs)"
    let ?st = "map_update a Suc st" and ?rt = "map_update b Suc rt"
    have step: "countConnection e (r, msgs, st, rt) = (r1, msgs1, ?st, ?rt)"
      using k by (simp add: e r1_def msgs1_def)
    have prem: "\<forall>(a, b) \<in> set es. map_of ?st a \<noteq> None \<and> map_of ?rt b \<noteq> None"
      using Cons.prems(1) by (auto simp: map_of_map_update)
    have run: "fold countConnection es (r1, msgs1, ?st, ?rt) = (r', msgs', st', rt')"
      using Cons.prems(2) step by simp
    note IH = Cons.IH [OF prem run]
    have "map_of rt' b = Some (Suc n + count_list (map snd es) b)"
      using IH k by (simp add: map_of_map_update)
    then have n0: "(\<forall>b n. map_of rt' b = Some n \<longrightarrow> n \<le> 1) \<Longrightarrow> n = 0" by fastforce
    have c1: "map_of st' ch = map_option (\<lambda>n. n + count_list (map fst (e # es)) ch) (map_of st ch)" for ch
      using IH by (cases "map_of st ch") (auto simp: map_of_map_update e)
    have c2: "map_of rt' ch = map_option (\<lambda>n. n + count_list (map snd (e # es)) ch) (map_of rt ch)" for ch
      using IH by (cases "map_of rt ch") (auto simp: map_of_map_update e)
    have "r' \<longrightarrow> r" "r \<longrightarrow> (\<forall>b n. map_of rt' b = Some n \<longrightarrow> n \<le> 1) \<longrightarrow> r'"
      using IH n0 unfolding r1_def by blast+
    moreover have "map fst st' = map fst st" "map fst rt' = map fst rt" using IH by simp_all
    ultimately show ?case using c1 c2 by blast
  qed
  then show "map fst st' = map fst st" "map fst rt' = map fst rt"
    "map_of st' ch = map_option (\<lambda>n. n + count_list (map fst es) ch) (map_of st ch)"
    "map_of rt' ch = map_option (\<lambda>n. n + count_list (map snd es) ch) (map_of rt ch)"
    "r' \<Longrightarrow> r" "r \<Longrightarrow> \<forall>b n. map_of rt' b = Some n \<longrightarrow> n \<le> 1 \<Longrightarrow> r'"
    by blast+
qed

lemma fold_checkReceiveEntry:
  "fst (fold (checkReceiveEntry s) es (r, msgs)) \<longleftrightarrow> r \<and> (\<forall>e \<in> set es. snd e = 1)"
proof (induction es arbitrary: r msgs)
  case (Cons e es)
  show ?case by (cases e) (auto simp: Cons.IH)
qed simp

lemma fold_checkSendEntry:
  "fst (fold checkSendEntry es (r, msgs)) \<longleftrightarrow> r \<and> (\<forall>e \<in> set es. snd e \<noteq> 0)"
proof (induction es arbitrary: r msgs)
  case (Cons e es)
  show ?case by (cases e) (auto simp: Cons.IH)
qed simp

lemma all_entries:
  fixes m :: count_table
  assumes "sorted_wrt (<) (map fst m)"
  shows "(\<forall>e \<in> set m. P (snd e)) \<longleftrightarrow> (\<forall>k n. map_of m k = Some n \<longrightarrow> P n)"
proof -
  have "distinct (map fst m)" using assms by (simp add: strict_sorted_iff)
  then have "map_of m k = Some n \<longleftrightarrow> (k, n) \<in> set m" for k n by simp
  then show ?thesis by force
qed

lemma count_list_mm_insert_all:
  "count_list (map f (mm_insert_all es m)) x = count_list (map f es) x + count_list (map f m) x"
proof -
  have c: "count_list (map f xs) x = length (filter (\<lambda>e. f e = x) xs)" for xs
    by (induction xs) auto
  show ?thesis unfolding c by simp
qed


lemma count_list_fold_pairs:
  "count_list (map f (fold (\<lambda>con. mm_insert_all (channel_pairs con)) cs m)) x =
     count_list (map f (concat (map channel_pairs cs))) x + count_list (map f m) x"
  by (induction cs arbitrary: m) (simp_all add: count_list_mm_insert_all)

lemma channel_pairs_channels:
  assumes "valid_connection s t con" and "(a, b) \<in> set (channel_pairs con)"
  shows "a \<in> channels_of s (local_senders s t)" "b \<in> channels_of s (local_receivers s t)"
  using assms by (auto simp: valid_connection_def channel_pairs_def channels_of_def)

text \<open>One level: the check succeeds exactly under the contract.\<close>

lemma checkAudioConnectionsLocal_iff:
  assumes comp: "c_composite (comp s (root t))"
  shows "fst (checkAudioConnectionsLocal s t msgs) \<longleftrightarrow> audio_level_ok s t"
proof -
  obtain c ts where t: "t = Hier c ts" by (cases t)
  let ?cs = "c_audioConnections (comp s c)"
  have L: "set (mAllNonPlaceholderSendPorts (audioPortLookup s t False)) = local_senders s t"
      "set (mAllNonPlaceholderReceivePorts (audioPortLookup s t False)) = local_receivers s t"
    by (rule local_tables [OF comp])+
  have fill: "fill s t False msgs = fold (fillConnection s (audioPortLookup s t False)) ?cs (True, msgs, [])"
    using comp t by (simp add: fill_def Let_def)
  let ?V = "\<forall>con \<in> set ?cs. valid_connection s t con"
  show ?thesis
  proof (cases ?V)
    case False
    then have "\<not> fst (fill s t False msgs)" unfolding fill using fold_fillConnection(1) [OF L] by simp
    then have "\<not> fst (checkAudioConnectionsLocal s t msgs)"
      by (auto simp: checkAudioConnectionsLocal_def Let_def split: prod.splits)
    then show ?thesis using False t by (simp add: audio_level_ok_def)
  next
    case True
    define m where "m = fold (\<lambda>con. mm_insert_all (channel_pairs con)) ?cs []"
    have f: "fill s t False msgs = (True, msgs, m)"
      unfolding fill m_def using fold_fillConnection(2) [OF L True] .
    define st0 where "st0 = fillTable s (mAllNonPlaceholderSendPorts (audioPortLookup s t False))"
    define rt0 where "rt0 = fillTable s (mAllNonPlaceholderReceivePorts (audioPortLookup s t False))"
    have tab: "map_of st0 ch = (if ch \<in> channels_of s (local_senders s t) then Some 0 else None)"
        "map_of rt0 ch = (if ch \<in> channels_of s (local_receivers s t) then Some 0 else None)" for ch
      unfolding st0_def rt0_def by (simp_all add: map_of_fillTable L)
    obtain r msgs1 st rt where cl: "fold countConnection m (True, msgs, st0, rt0) = (r, msgs1, st, rt)"
      by (metis prod_cases4)
    have mem: "\<forall>(a, b) \<in> set m. map_of st0 a \<noteq> None \<and> map_of rt0 b \<noteq> None"
      using True channel_pairs_channels by (auto simp: m_def set_fold_pairs tab)
    note C = count_loop [OF mem cl]
    have srt: "sorted_wrt (<) (map fst st)" "sorted_wrt (<) (map fst rt)"
      unfolding C(1,2) st0_def rt0_def by (rule sorted_fillTable)+
    have cnt: "count_list (map g m) x = count_list (map g (level_pairs s t)) x"
      for g :: "audio_channel \<times> audio_channel \<Rightarrow> audio_channel" and x
      by (simp add: m_def count_list_fold_pairs level_pairs_def t)
    have rall: "(\<forall>e \<in> set rt. snd e = 1) \<longleftrightarrow>
        (\<forall>ch \<in> channels_of s (local_receivers s t). count_list (map snd (level_pairs s t)) ch = 1)"
      unfolding all_entries [OF srt(2), of "\<lambda>n. n = 1"] C(4) cnt tab by auto
    have sall: "(\<forall>e \<in> set st. snd e \<noteq> 0) \<longleftrightarrow>
        (\<forall>ch \<in> channels_of s (local_senders s t). count_list (map fst (level_pairs s t)) ch \<noteq> 0)"
      unfolding all_entries [OF srt(1), of "\<lambda>n. n \<noteq> 0"] C(3) cnt tab by auto
    have r: "r" if "\<forall>e \<in> set rt. snd e = 1"
      using C(6) that unfolding all_entries [OF srt(2), of "\<lambda>n. n = 1"] by fastforce
    have "fst (checkAudioConnectionsLocal s t msgs) \<longleftrightarrow> r \<and> (\<forall>e \<in> set rt. snd e = 1) \<and> (\<forall>e \<in> set st. snd e \<noteq> 0)"
    proof -
      obtain r2 msgs2 where 2: "fold (checkReceiveEntry s) rt (r, msgs1) = (r2, msgs2)" by fastforce
      then have "r2 \<longleftrightarrow> r \<and> (\<forall>e \<in> set rt. snd e = 1)" using fold_checkReceiveEntry [of s rt r msgs1] by simp
      moreover have "checkAudioConnectionsLocal s t msgs = fold checkSendEntry st (r2, msgs2)"
        by (simp add: checkAudioConnectionsLocal_def Let_def f cl 2 st0_def [symmetric] rt0_def [symmetric])
      ultimately show ?thesis using fold_checkSendEntry [of st r2 msgs2] by simp
    qed
    also have "\<dots> \<longleftrightarrow> audio_level_ok s t"
      unfolding sall using r rall True t
      by (auto simp: audio_level_ok_def channels_of_def count_list_0_iff)
    finally show ?thesis .
  qed
qed

lemma fold_and:
  assumes "\<And>t m. t \<in> set ts \<Longrightarrow> fst (f t m) \<longleftrightarrow> P t"
  shows "fst (fold (\<lambda>t (r, m). let (c, m') = f t m in (r \<and> c, m')) ts (r, m)) \<longleftrightarrow> r \<and> (\<forall>t \<in> set ts. P t)"
  using assms
proof (induction ts arbitrary: r m)
  case (Cons t ts)
  obtain c m' where f: "f t m = (c, m')" by (cases "f t m")
  then have "c \<longleftrightarrow> P t" using Cons.prems [of t m] by simp
  then show ?case using Cons.IH [of "r \<and> c" m'] Cons.prems f by auto
qed simp

lemma checkAudioConnectionIntegrity_iff:
  "fst (checkAudioConnectionIntegrity s t hierarchical msgs) \<longleftrightarrow>
     (\<forall>u \<in> set (visited s t hierarchical). audio_level_ok s u)"
proof (induction t arbitrary: hierarchical msgs)
  case (Hier c ts)
  show ?case
  proof (cases "c_composite (comp s c)")
    case True
    obtain r m where rm: "checkAudioConnectionsLocal s (Hier c ts) msgs = (r, m)" by fastforce
    have r: "r \<longleftrightarrow> audio_level_ok s (Hier c ts)"
      using checkAudioConnectionsLocal_iff [of s "Hier c ts" msgs] True rm by simp
    have IH: "fst (checkAudioConnectionIntegrity s t True m) \<longleftrightarrow> (\<forall>u \<in> set (composites s t). audio_level_ok s u)"
      if "t \<in> set ts" for t m
      using Hier.IH [OF that, of True m] by (simp add: visited_def)
    show ?thesis
    proof (cases hierarchical)
      case h: True
      have "fst (checkAudioConnectionIntegrity s (Hier c ts) True msgs) \<longleftrightarrow>
          r \<and> (\<forall>t \<in> set ts. \<forall>u \<in> set (composites s t). audio_level_ok s u)"
        using fold_and [of ts "\<lambda>t m. checkAudioConnectionIntegrity s t True m"
            "\<lambda>t. \<forall>u \<in> set (composites s t). audio_level_ok s u" r m, OF IH] True rm
        by (simp add: Let_def)
      then show ?thesis using h True r by (simp add: visited_def)
    qed (use True r rm in \<open>simp add: visited_def\<close>)
  qed (simp add: visited_def)
qed

section \<open>Parameter connections\<close>

fun checkParameterConnection ::
  "store \<Rightarrow> port_lookup \<Rightarrow> bool \<times> message list \<times> nat list \<times> nat list \<Rightarrow> param_connection
   \<Rightarrow> exn + (bool \<times> message list \<times> nat list \<times> nat list)" where
  "checkParameterConnection s localPorts (result, messages, usedSend, usedReceive) con =
     (if pc_sender con \<notin> set (mAllNonPlaceholderSendPorts localPorts)
      then Inr (False, messages @ [SendPortNotFound (pc_sender con) (pc_receiver con)], usedSend, usedReceive)
      else let usedSend' = set_insert (pc_sender con) usedSend
           in if pc_receiver con \<notin> set (mAllNonPlaceholderReceivePorts localPorts)
              then Inr (False, messages @ [ReceivePortNotFound (pc_sender con) (pc_receiver con)],
                     usedSend', usedReceive)
              else let usedReceive' = set_insert (pc_receiver con) usedReceive
                   in bindE (checkParameterPortCompatibility s (pc_sender con) (pc_receiver con) messages)
                        (\<lambda>(compatCheck, messages'). Inr (result \<and> compatCheck, messages', usedSend', usedReceive')))"

definition checkParameterConnectionsLocal ::
  "store \<Rightarrow> hier \<Rightarrow> message list \<Rightarrow> exn + (bool \<times> message list)" where
  "checkParameterConnectionsLocal s t messages =
     (let localPorts = parameterPortLookup s t False;
          sends = mAllNonPlaceholderSendPorts localPorts;
          receives = mAllNonPlaceholderReceivePorts localPorts
      in bindE (foldE (checkParameterConnection s localPorts) (True, messages, [], [])
                  (c_parameterConnections (comp s (root t))))
         (\<lambda>(result, messages1, usedSend, usedReceive).
           let (result2, messages2) =
                 (if set usedSend \<noteq> set sends
                  then (False, messages1 @ [UnconnectedSendPorts (root t) (filter (\<lambda>p. p \<notin> set usedSend) sends)])
                  else (result, messages1));
               (result3, messages3) =
                 (if set usedReceive \<noteq> set receives
                  then (False, messages2 @ [UnconnectedReceivePorts (root t) (filter (\<lambda>p. p \<notin> set usedReceive) receives)])
                  else (result2, messages2))
           in Inr (result3, messages3)))"

fun checkParameterConnectionIntegrity ::
  "store \<Rightarrow> hier \<Rightarrow> bool \<Rightarrow> message list \<Rightarrow> exn + (bool \<times> message list)" where
  "checkParameterConnectionIntegrity s (Hier c ts) hierarchical messages =
     (if \<not> c_composite (comp s c) then Inr (True, messages)
      else bindE (checkParameterConnectionsLocal s (Hier c ts) messages) (\<lambda>st.
             if hierarchical
             then foldE (\<lambda>rm t.
                    bindE (checkParameterConnectionIntegrity s t True (snd rm))
                      (\<lambda>(componentResult, messages'). Inr (fst rm \<and> componentResult, messages'))) st ts
             else Inr st))"

text \<open>The parameter check runs only where the audio check has succeeded.\<close>

definition checkConnectionIntegrity :: "store \<Rightarrow> hier \<Rightarrow> bool \<Rightarrow> message list \<Rightarrow> exn + (bool \<times> message list)" where
  "checkConnectionIntegrity s t hierarchical messages =
     (let (audioResult, messages1) = checkAudioConnectionIntegrity s t hierarchical messages
      in if audioResult then checkParameterConnectionIntegrity s t hierarchical messages1
         else Inr (False, messages1))"

section \<open>What the parameter check guarantees\<close>

definition param_level_ok :: "store \<Rightarrow> hier \<Rightarrow> bool" where
  "param_level_ok s t \<longleftrightarrow>
     (\<forall>con \<in> set (c_parameterConnections (comp s (root t))). valid_param_connection s t con) \<and>
     pc_sender ` set (c_parameterConnections (comp s (root t))) = set (param_senders s t) \<and>
     pc_receiver ` set (c_parameterConnections (comp s (root t))) = set (param_receivers s t)"

lemma local_param_tables:
  assumes "c_composite (comp s (root t))"
  shows "set (mAllNonPlaceholderSendPorts (parameterPortLookup s t False)) = set (param_senders s t)"
    and "set (mAllNonPlaceholderReceivePorts (parameterPortLookup s t False)) = set (param_receivers s t)"
  using assms by (auto simp: set_PortLookup_local set_param_senders set_param_receivers ports_of_def)

lemma checkParameterConnection_True:
  assumes "set (mAllNonPlaceholderSendPorts L) = set (param_senders s t)"
    and "set (mAllNonPlaceholderReceivePorts L) = set (param_receivers s t)"
  shows "checkParameterConnection s L (r, msgs, us, ur) con = Inr (r', msgs', us', ur') \<Longrightarrow> r' \<Longrightarrow>
      r \<and> valid_param_connection s t con"
    and "valid_param_connection s t con \<Longrightarrow> checkParameterConnection s L (r, msgs, us, ur) con =
      Inr (r, msgs, set_insert (pc_sender con) us, set_insert (pc_receiver con) ur)"
proof -
  show "checkParameterConnection s L (r, msgs, us, ur) con = Inr (r', msgs', us', ur') \<Longrightarrow> r' \<Longrightarrow>
      r \<and> valid_param_connection s t con"
    using assms checkParameterPortCompatibility_True [of s "pc_sender con" "pc_receiver con" msgs, THEN iffD1]
    by (auto simp: valid_param_connection_def Let_def split: if_splits)
  show "valid_param_connection s t con \<Longrightarrow> checkParameterConnection s L (r, msgs, us, ur) con =
      Inr (r, msgs, set_insert (pc_sender con) us, set_insert (pc_receiver con) ur)"
    using assms checkParameterPortCompatibility_True [of s "pc_sender con" "pc_receiver con" msgs msgs]
    by (auto simp: valid_param_connection_def Let_def)
qed

lemma foldE_checkParameterConnection:
  assumes L: "set (mAllNonPlaceholderSendPorts L) = set (param_senders s t)"
    "set (mAllNonPlaceholderReceivePorts L) = set (param_receivers s t)"
  shows "foldE (checkParameterConnection s L) (r, msgs, us, ur) cs = Inr (r', msgs', us', ur') \<Longrightarrow> r' \<Longrightarrow>
      r \<and> (\<forall>con \<in> set cs. valid_param_connection s t con)"
    and "\<forall>con \<in> set cs. valid_param_connection s t con \<Longrightarrow>
      foldE (checkParameterConnection s L) (r, msgs, us, ur) cs =
        Inr (r, msgs, fold set_insert (map pc_sender cs) us, fold set_insert (map pc_receiver cs) ur)"
proof -
  show "foldE (checkParameterConnection s L) (r, msgs, us, ur) cs = Inr (r', msgs', us', ur') \<Longrightarrow> r' \<Longrightarrow>
      r \<and> (\<forall>con \<in> set cs. valid_param_connection s t con)"
  proof (induction cs arbitrary: r msgs us ur)
    case (Cons con cs)
    then obtain st1 where 1: "checkParameterConnection s L (r, msgs, us, ur) con = Inr st1"
      "foldE (checkParameterConnection s L) st1 cs = Inr (r', msgs', us', ur')"
      by (auto simp del: checkParameterConnection.simps)
    obtain r1 m1 us1 ur1 where st1: "st1 = (r1, m1, us1, ur1)" by (metis prod_cases4)
    have "r1 \<and> (\<forall>con \<in> set cs. valid_param_connection s t con)"
      using Cons.IH [of r1 m1 us1 ur1] 1(2) st1 Cons.prems(2) by simp
    then show ?case using checkParameterConnection_True(1) [OF L 1(1) [unfolded st1]] by simp
  qed simp
  show "\<forall>con \<in> set cs. valid_param_connection s t con \<Longrightarrow>
      foldE (checkParameterConnection s L) (r, msgs, us, ur) cs =
        Inr (r, msgs, fold set_insert (map pc_sender cs) us, fold set_insert (map pc_receiver cs) ur)"
    by (induction cs arbitrary: us ur)
      (simp_all add: checkParameterConnection_True(2) [OF L] del: checkParameterConnection.simps)
qed

lemma checkParameterConnectionsLocal_iff:
  assumes comp: "c_composite (comp s (root t))"
  shows "(\<exists>msgs'. checkParameterConnectionsLocal s t msgs = Inr (True, msgs')) \<longleftrightarrow> param_level_ok s t"
proof -
  let ?cs = "c_parameterConnections (comp s (root t))" and ?L = "parameterPortLookup s t False"
  note L = local_param_tables [OF comp]
  show ?thesis
  proof (cases "\<forall>con \<in> set ?cs. valid_param_connection s t con")
    case True
    show ?thesis
      using True by (auto simp: checkParameterConnectionsLocal_def Let_def param_level_ok_def L
          foldE_checkParameterConnection(2) [OF L True] set_set_insert_all split: if_splits)
  next
    case False
    have "checkParameterConnectionsLocal s t msgs \<noteq> Inr (True, msgs')" for msgs'
    proof
      assume "checkParameterConnectionsLocal s t msgs = Inr (True, msgs')"
      then obtain m1 us ur where "foldE (checkParameterConnection s ?L) (True, msgs, [], []) ?cs = Inr (True, m1, us, ur)"
        by (auto simp: checkParameterConnectionsLocal_def Let_def split: if_splits)
      then show False using foldE_checkParameterConnection(1) [OF L] False by blast
    qed
    then show ?thesis using False by (auto simp: param_level_ok_def)
  qed
qed

text \<open>A loop that conjoins the results of calls that may throw.\<close>

lemma foldE_and:
  fixes f :: "'t \<Rightarrow> 'm \<Rightarrow> exn + (bool \<times> 'm)"
  assumes "\<And>t m. t \<in> set ts \<Longrightarrow> (\<exists>m'. f t m = Inr (True, m')) \<longleftrightarrow> P t"
  shows "(\<exists>m'. foldE (\<lambda>rm t. bindE (f t (snd rm)) (\<lambda>(c, m'). Inr (fst rm \<and> c, m'))) (r, m) ts = Inr (True, m'))
    \<longleftrightarrow> (r \<and> (\<forall>t \<in> set ts. P t))"
  using assms
proof (induction ts arbitrary: r m)
  case (Cons t ts)
  show ?case
  proof (cases "f t m")
    case (Inl e)
    then have "\<not> P t" using Cons.prems [of t m] by simp
    then show ?thesis using Inl by simp
  next
    case (Inr cm)
    obtain c m' where cm: "cm = (c, m')" by (cases cm)
    then have "c \<longleftrightarrow> P t" using Cons.prems [of t m] Inr by simp
    then show ?thesis using Cons.IH [of "r \<and> c" m'] Cons.prems Inr cm by auto
  qed
qed simp

lemma checkParameterConnectionIntegrity_iff:
  "(\<exists>msgs'. checkParameterConnectionIntegrity s t hierarchical msgs = Inr (True, msgs')) \<longleftrightarrow>
     (\<forall>u \<in> set (visited s t hierarchical). param_level_ok s u)"
proof (induction t arbitrary: hierarchical msgs)
  case (Hier c ts)
  show ?case
  proof (cases "c_composite (comp s c)")
    case True
    note loc = checkParameterConnectionsLocal_iff [of s "Hier c ts" msgs, simplified, OF True]
    have IH: "(\<exists>m'. checkParameterConnectionIntegrity s t True m = Inr (True, m')) \<longleftrightarrow>
        (\<forall>u \<in> set (composites s t). param_level_ok s u)" if "t \<in> set ts" for t m
      using Hier.IH [OF that, of True m] by (simp add: visited_def)
    show ?thesis
    proof (cases "checkParameterConnectionsLocal s (Hier c ts) msgs")
      case (Inl e)
      then show ?thesis using loc True by (simp add: visited_def)
    next
      case (Inr rm)
      obtain r m where rm: "rm = (r, m)" by (cases rm)
      have r: "r \<longleftrightarrow> param_level_ok s (Hier c ts)" using loc Inr rm by simp
      show ?thesis
        using foldE_and [of ts "\<lambda>t m. checkParameterConnectionIntegrity s t True m"
            "\<lambda>t. \<forall>u \<in> set (composites s t). param_level_ok s u" r m, OF IH] True Inr rm r
        by (cases hierarchical) (simp_all add: visited_def)
    qed
  qed (simp add: visited_def)
qed

section \<open>Properties\<close>

text \<open>
  C9 (checkConnectionIntegrity_spec): the integrity check of a signal flow returns true exactly if
  on every visited level all audio connections are valid, every receive channel has exactly one
  incoming channel connection, every send channel has at least one outgoing one, all parameter
  connections are valid (their ports agree in protocol and parameter type, and the configuration of the sender
  accepts that of the receiver), and every parameter port of the level is used. A check that throws or
  returns false therefore means that one of these is violated, and a check that returns true that
  none is.
\<close>

theorem checkConnectionIntegrity_spec:
  "(\<exists>msgs'. checkConnectionIntegrity s t hierarchical msgs = Inr (True, msgs')) =
   (\<forall>u \<in> set (visited s t hierarchical). audio_level_ok s u \<and> param_level_ok s u)"
proof -
  obtain a m where am: "checkAudioConnectionIntegrity s t hierarchical msgs = (a, m)" by fastforce
  then have "a \<longleftrightarrow> (\<forall>u \<in> set (visited s t hierarchical). audio_level_ok s u)"
    using checkAudioConnectionIntegrity_iff [of s t hierarchical msgs] by simp
  then show ?thesis
    using checkParameterConnectionIntegrity_iff [of s t hierarchical m] am
    by (auto simp: checkConnectionIntegrity_def)
qed

lemma ex_integrity: "checkConnectionIntegrity ex_store ex_tree True [] = Inr (True, [])"
  by code_simp

theorem checkConnectionIntegrity_spec_witness:
  "audio_level_ok ex_store ex_tree \<and> audio_level_ok ex_store (Hier 1 [Hier 2 []]) \<and>
   param_level_ok ex_store ex_tree \<and> param_level_ok ex_store (Hier 1 [Hier 2 []])"
proof -
  have "visited ex_store ex_tree True = [ex_tree, Hier 1 [Hier 2 []]]"
    by (simp add: visited_def ex_tree_def ex_store_def)
  then show ?thesis
    using checkConnectionIntegrity_spec [of ex_store ex_tree True "[]"] ex_integrity by simp
qed

end
