(* ===== verification/Flow_Structure.thy ===== *)
theory Flow_Structure
  imports Integrity_Checking Scheduling
begin

text \<open>
  What the integrity check implies for the audio connections of a whole signal flow. On every
  level each receive channel has one sender and each send channel is used; hence, over the whole
  hierarchy, no channel has two senders, every concrete receiver is fed by a concrete sender once
  the placeholders are resolved, and every concrete sender feeds a concrete receiver.
\<close>

section \<open>The composites of a hierarchy\<close>

lemma matches_root_eq: "\<lbrakk>matches s u; matches s v; root u = root v\<rbrakk> \<Longrightarrow> u = v"
proof (induction s u arbitrary: v rule: matches.induct)
  case (1 s c ts)
  obtain us where v: "v = Hier c us" using 1(4) by (cases v) auto
  have m: "map root ts = map root us" using 1(2,3) v by simp
  then have "length ts = length us" by (metis length_map)
  moreover have "ts ! i = us ! i" if "i < length ts" for i
  proof -
    have "root (ts ! i) = root (us ! i)" using m that \<open>length ts = length us\<close> by (metis nth_map)
    then show ?thesis using 1(1) [of "ts ! i" "us ! i"] 1(2,3) v that \<open>length ts = length us\<close> by simp
  qed
  ultimately show ?case using v by (simp add: list_eq_iff_nth_eq)
qed

lemma child_of_match:
  assumes "wf_store s" "matches s (Hier c ts)" "c \<in> dom (comps s)" "t \<in> set ts"
  shows "matches s t" "root t \<in> dom (comps s)" "c_parent (comp s (root t)) = Some c"
proof -
  have "root t \<in> set (c_components (comp s c))" using assms(2,4) by (metis image_eqI list.set_map matches.simps)
  then show "root t \<in> dom (comps s)" "c_parent (comp s (root t)) = Some c"
    using wf_child [OF assms(1,3)] by auto
  show "matches s t" using assms(2,4) by simp
qed

lemma root_in_nodes [simp]: "root t \<in> set (nodes t)"
  by (cases t) simp

lemma node_children:
  "\<lbrakk>matches s t; c \<in> set (nodes t); k \<in> set (c_components (comp s c))\<rbrakk> \<Longrightarrow> k \<in> set (nodes t)"
proof (induction t)
  case (Hier d us)
  show ?case
  proof (cases "d = c")
    case True
    then have "k \<in> root ` set us" using Hier.prems(1,3) by (metis list.set_map matches.simps)
    then obtain v where "v \<in> set us" "k = root v" by blast
    then show ?thesis by (auto intro!: disjI2 bexI [of _ v])
  next
    case False
    then obtain v where "v \<in> set us" "c \<in> set (nodes v)" using Hier.prems(2) by auto
    then show ?thesis using Hier.IH Hier.prems(1,3) by auto
  qed
qed

lemma compositesD:
  "\<lbrakk>wf_store s; matches s t; root t \<in> dom (comps s); u \<in> set (composites s t)\<rbrakk> \<Longrightarrow>
   matches s u \<and> root u \<in> dom (comps s) \<and> c_composite (comp s (root u)) \<and> root u \<in> set (nodes t)"
proof (induction t)
  case (Hier c ts)
  show ?case
  proof (cases "u = Hier c ts")
    case False
    then obtain t where t: "t \<in> set ts" "u \<in> set (composites s t)" using Hier.prems(4) by (auto split: if_splits)
    have d: "c \<in> dom (comps s)" using Hier.prems(3) by simp
    note ch = child_of_match [OF Hier.prems(1,2) d t(1)]
    show ?thesis using Hier.IH [OF t(1) Hier.prems(1) ch(1,2) t(2)] t(1) by auto
  qed (use Hier.prems in \<open>auto split: if_splits\<close>)
qed

lemma composite_node:
  "\<lbrakk>atomic_leaves (\<lambda>c. c_composite (comp s c)) t; k \<in> set (nodes t); c_composite (comp s k)\<rbrakk> \<Longrightarrow>
   \<exists>u \<in> set (composites s t). root u = k"
proof (induction t)
  case (Hier c ts)
  show ?case
  proof (cases "k = c")
    case False
    then obtain t where t: "t \<in> set ts" "k \<in> set (nodes t)" using Hier.prems(2) by auto
    have "c_composite (comp s c)" using Hier.prems(1) t(1) by auto
    moreover obtain u where "u \<in> set (composites s t)" "root u = k"
      using Hier.IH [OF t(1)] Hier.prems(1,3) t by auto
    ultimately show ?thesis using t(1) by auto
  qed (use Hier.prems(3) in simp)
qed

lemma parent_node:
  "\<lbrakk>atomic_leaves (\<lambda>c. c_composite (comp s c)) t; k \<in> set (nodes t); k \<noteq> root t\<rbrakk> \<Longrightarrow>
   \<exists>u \<in> set (composites s t). k \<in> root ` set (subs u)"
proof (induction t)
  case (Hier c ts)
  then obtain t where t: "t \<in> set ts" "k \<in> set (nodes t)" by auto
  have c: "c_composite (comp s c)" using Hier.prems(1) t(1) by auto
  show ?case
  proof (cases "k = root t")
    case True
    then show ?thesis using t(1) c by (auto intro!: bexI [of _ "Hier c ts"])
  next
    case False
    then obtain u where "u \<in> set (composites s t)" "k \<in> root ` set (subs u)"
      using Hier.IH [OF t(1)] Hier.prems(1) t by auto
    then show ?thesis using t(1) c by auto
  qed
qed

section \<open>Checked flows\<close>

definition checked_flow :: "store \<Rightarrow> hier \<Rightarrow> bool" where
  "checked_flow s t \<longleftrightarrow> wf_store s \<and> matches s t \<and> root t \<in> dom (comps s) \<and>
     c_composite (comp s (root t)) \<and> c_parent (comp s (root t)) = None \<and>
     (\<forall>u \<in> set (composites s t). audio_level_ok s u)"

abbreviation flow_edges :: "store \<Rightarrow> hier \<Rightarrow> (audio_channel \<times> audio_channel) set" where
  "flow_edges s t \<equiv> connections_in s (set (composites s t))"

lemma checked_flowD:
  assumes "checked_flow s t"
  shows "wf_store s" "matches s t" "root t \<in> dom (comps s)" "c_composite (comp s (root t))"
    and "c_parent (comp s (root t)) = None" "u \<in> set (composites s t) \<Longrightarrow> audio_level_ok s u"
    and "atomic_leaves (\<lambda>c. c_composite (comp s c)) t"
  using assms atomic_leaves_matches [of s t] unfolding checked_flow_def by blast+

lemma audio_owner_port:
  assumes "wf_store s" "c \<in> dom (comps s)" "p \<in> set (c_audioPorts (comp s c))"
  shows "ap_parent (aport s p) = Some c" "aports s p \<noteq> None"
proof -
  have o: "owns (dom (comps s)) (\<lambda>c. c_audioPorts (comp s c)) (dom (aports s))
       (\<lambda>a. ap_parent (aport s a)) (\<lambda>a. ap_name (aport s a))"
    using assms(1) by (simp add: wf_store_def wf_aports_def)
  show "ap_parent (aport s p) = Some c" "aports s p \<noteq> None" using ownsD(2,3) [OF o assms(2,3)] by auto
qed

text \<open>Where a port sends or receives: in its own component or in the one above.\<close>

lemma local_port:
  assumes ck: "checked_flow s t" and u: "u \<in> set (composites s t)"
  shows "p \<in> local_receivers s u \<Longrightarrow> aports s p \<noteq> None \<and>
      (ap_parent (aport s p) = Some (root u) \<and> ap_direction (aport s p) = Output \<or>
       (\<exists>k. ap_parent (aport s p) = Some k \<and> k \<in> set (nodes t) \<and> c_parent (comp s k) = Some (root u) \<and>
         ap_direction (aport s p) = Input))"
    and "p \<in> local_senders s u \<Longrightarrow> aports s p \<noteq> None \<and>
      (ap_parent (aport s p) = Some (root u) \<and> ap_direction (aport s p) = Input \<or>
       (\<exists>k. ap_parent (aport s p) = Some k \<and> k \<in> set (nodes t) \<and> c_parent (comp s k) = Some (root u) \<and>
         ap_direction (aport s p) = Output))"
proof -
  note F = checked_flowD [OF ck]
  note U = compositesD [OF F(1-3) u]
  obtain c ts where cu: "u = Hier c ts" by (cases u)
  have nodes_sub: "k \<in> set (nodes t)" if "k \<in> root ` set ts" for k
  proof (rule node_children [OF F(2)])
    show "c \<in> set (nodes t)" using U cu by simp
    show "k \<in> set (c_components (comp s c))" using U cu that by (metis list.set_map matches.simps)
  qed
  have own: "ap_parent (aport s q) = Some (root u) \<and> aports s q \<noteq> None" if "q \<in> set (c_audioPorts (comp s (root u)))" for q
    using audio_owner_port [OF F(1) _ that] U by blast
  have sub: "\<exists>k. ap_parent (aport s q) = Some k \<and> k \<in> set (nodes t) \<and> c_parent (comp s k) = Some (root u) \<and> aports s q \<noteq> None"
    if k: "k \<in> root ` set (subs u)" and q: "q \<in> set (c_audioPorts (comp s k))" for q k
  proof -
    obtain v where v: "v \<in> set ts" "k = root v" using k cu by auto
    have M: "matches s (Hier c ts)" "c \<in> dom (comps s)" using U cu by auto
    note ch = child_of_match [OF F(1) M v(1)]
    show ?thesis using audio_owner_port [OF F(1) ch(2), of q] ch q v nodes_sub [of k] cu by auto
  qed
  show "p \<in> local_receivers s u \<Longrightarrow> aports s p \<noteq> None \<and>
      (ap_parent (aport s p) = Some (root u) \<and> ap_direction (aport s p) = Output \<or>
       (\<exists>k. ap_parent (aport s p) = Some k \<and> k \<in> set (nodes t) \<and> c_parent (comp s k) = Some (root u) \<and>
         ap_direction (aport s p) = Input))"
    unfolding local_receivers_def using own [of p] sub [of _ p] by blast
  show "p \<in> local_senders s u \<Longrightarrow> aports s p \<noteq> None \<and>
      (ap_parent (aport s p) = Some (root u) \<and> ap_direction (aport s p) = Input \<or>
       (\<exists>k. ap_parent (aport s p) = Some k \<and> k \<in> set (nodes t) \<and> c_parent (comp s k) = Some (root u) \<and>
         ap_direction (aport s p) = Output))"
    unfolding local_senders_def using own [of p] sub [of _ p] by blast
qed

lemma flow_edgesD:
  assumes ck: "checked_flow s t" and e: "(a, b) \<in> flow_edges s t"
  obtains u where "u \<in> set (composites s t)" "(a, b) \<in> set (level_pairs s u)"
    and "port a \<in> local_senders s u" "channel a < ap_width (aport s (port a))"
    and "port b \<in> local_receivers s u" "channel b < ap_width (aport s (port b))"
proof -
  obtain u con where u: "u \<in> set (composites s t)" "con \<in> set (c_audioConnections (comp s (root u)))"
      "(a, b) \<in> set (channel_pairs con)" using e by (auto simp: connections_in_def)
  have "valid_connection s u con"
    using checked_flowD(6) [OF ck u(1)] u(2) unfolding audio_level_ok_def by blast
  note ch = channel_pairs_channels [OF this u(3)]
  have "(a, b) \<in> set (level_pairs s u)" using u(2,3) by (auto simp: level_pairs_def)
  from that [OF u(1) this] show thesis using ch by (auto simp: channels_of_def)
qed

lemma level_pairs_edges: "u \<in> set (composites s t) \<Longrightarrow> set (level_pairs s u) \<subseteq> flow_edges s t"
  by (auto simp: level_pairs_def connections_in_def)

text \<open>The level on which a port receives.\<close>

lemma receivers_level:
  assumes ck: "checked_flow s t" and u: "u \<in> set (composites s t)" "v \<in> set (composites s t)"
    and p: "p \<in> local_receivers s u" "p \<in> local_receivers s v"
  shows "u = v"
proof -
  note F = checked_flowD [OF ck]
  have "root u = root v"
    using local_port(1) [OF ck u(1) p(1)] local_port(1) [OF ck u(2) p(2)] by auto
  then show ?thesis using matches_root_eq compositesD [OF F(1-3)] u by blast
qed

lemma count_one_unique:
  "\<lbrakk>count_list (map f xs) y = 1; x \<in> set xs; x' \<in> set xs; f x = y; f x' = y\<rbrakk> \<Longrightarrow> x = x'"
proof (induction xs)
  case (Cons z zs)
  have none: "count_list (map f zs) y = 0 \<Longrightarrow> w \<in> set zs \<Longrightarrow> f w \<noteq> y" for w
    by (auto simp: count_list_0_iff)
  show ?case
  proof (cases "f z = y")
    case True
    then have "count_list (map f zs) y = 0" using Cons.prems(1) by simp
    then show ?thesis using none Cons.prems by auto
  next
    case False
    then show ?thesis using Cons by auto
  qed
qed simp

lemma flow_unique_sender:
  assumes ck: "checked_flow s t"
  shows "unique_sender (flow_edges s t)"
  unfolding unique_sender_def
proof (intro allI impI)
  fix a b d assume ad: "(a, d) \<in> flow_edges s t" and bd: "(b, d) \<in> flow_edges s t"
  obtain u where u: "u \<in> set (composites s t)" "(a, d) \<in> set (level_pairs s u)"
    "port d \<in> local_receivers s u" "channel d < ap_width (aport s (port d))"
    by (rule flow_edgesD [OF ck ad])
  obtain v where v: "v \<in> set (composites s t)" "(b, d) \<in> set (level_pairs s v)" "port d \<in> local_receivers s v"
    by (rule flow_edgesD [OF ck bd])
  have uv: "u = v" by (rule receivers_level [OF ck u(1) v(1) u(3) v(3)])
  have "count_list (map snd (level_pairs s u)) (AudioChannel (port d) (channel d)) = 1"
    using checked_flowD(6) [OF ck u(1)] u(3,4) unfolding audio_level_ok_def by blast
  then have "(a, d) = (b, d)"
    using count_one_unique [of snd "level_pairs s u" d "(a, d)" "(b, d)"] u(2) v(2) uv by simp
  then show "a = b" by simp
qed

text \<open>Every receive channel of a level has a sender, every send channel a receiver.\<close>

lemma receiver_connected:
  assumes ck: "checked_flow s t" and u: "u \<in> set (composites s t)"
    and p: "port d \<in> local_receivers s u" "channel d < ap_width (aport s (port d))"
  shows "\<exists>a. (a, d) \<in> flow_edges s t"
proof -
  have "count_list (map snd (level_pairs s u)) (AudioChannel (port d) (channel d)) = 1"
    using checked_flowD(6) [OF ck u] p unfolding audio_level_ok_def by blast
  then have "d \<in> set (map snd (level_pairs s u))"
    using count_list_0_iff [of "map snd (level_pairs s u)" d] by (metis audio_channel.collapse zero_neq_one)
  then show ?thesis using level_pairs_edges [OF u] by force
qed

lemma sender_connected:
  assumes ck: "checked_flow s t" and u: "u \<in> set (composites s t)"
    and p: "port a \<in> local_senders s u" "channel a < ap_width (aport s (port a))"
  shows "\<exists>d. (a, d) \<in> flow_edges s t"
proof -
  have "AudioChannel (port a) (channel a) \<in> set (map fst (level_pairs s u))"
    using checked_flowD(6) [OF ck u] p unfolding audio_level_ok_def by blast
  then show ?thesis using level_pairs_edges [OF u] by force
qed

section \<open>Concrete senders and receivers\<close>

lemma composite_top:
  assumes ck: "checked_flow s t" and u: "u \<in> set (composites s t)"
  shows "c_composite (comp s (root u))" "root u \<in> set (nodes t)"
    and "c_parent (comp s (root u)) = None \<Longrightarrow> root u = root t"
proof -
  note F = checked_flowD [OF ck]
  show U: "c_composite (comp s (root u))" "root u \<in> set (nodes t)" using compositesD [OF F(1-3) u] by auto
  assume none: "c_parent (comp s (root u)) = None"
  show "root u = root t"
  proof (rule ccontr)
    assume "root u \<noteq> root t"
    then obtain v where v: "v \<in> set (composites s t)" "root u \<in> root ` set (subs v)"
      using parent_node [OF F(7) U(2)] by blast
    obtain c ts where cv: "v = Hier c ts" by (cases v)
    then obtain w where "w \<in> set ts" "root u = root w" using v(2) by auto
    then have "c_parent (comp s (root u)) = Some c"
      using child_of_match(3) [OF F(1), of c ts w] compositesD [OF F(1-3) v(1)] cv by auto
    then show False using none by simp
  qed
qed

lemma concrete_sender:
  assumes ck: "checked_flow s t" and u: "u \<in> set (composites s t)" and p: "p \<in> local_senders s u"
    and c: "\<not> isPlaceholderPort s (ap_parent (aport s p))"
  shows "ap_parent (aport s p) = Some (root t) \<and> ap_direction (aport s p) = Input \<or>
    (\<exists>k \<in> set (nodes t). \<not> c_composite (comp s k) \<and> ap_parent (aport s p) = Some k \<and> ap_direction (aport s p) = Output)"
proof -
  note F = checked_flowD [OF ck]
  note U = composite_top [OF ck u]
  show ?thesis
    using local_port(2) [OF ck u p] c U
    by (auto simp: isPlaceholderPort_def isTopLevel_def split: if_splits)
qed

lemma concrete_receiver:
  assumes ck: "checked_flow s t" and u: "u \<in> set (composites s t)" and p: "p \<in> local_receivers s u"
    and c: "\<not> isPlaceholderPort s (ap_parent (aport s p))"
  shows "ap_parent (aport s p) = Some (root t) \<and> ap_direction (aport s p) = Output \<or>
    (\<exists>k \<in> set (nodes t). \<not> c_composite (comp s k) \<and> ap_parent (aport s p) = Some k \<and> ap_direction (aport s p) = Input)"
proof -
  note F = checked_flowD [OF ck]
  note U = composite_top [OF ck u]
  show ?thesis
    using local_port(1) [OF ck u p] c U
    by (auto simp: isPlaceholderPort_def isTopLevel_def split: if_splits)
qed

text \<open>Every channel of an atomic component is one end of a connection on the level above.\<close>

lemma atom_level:
  assumes ck: "checked_flow s t" and k: "k \<in> set (nodes t)" "\<not> c_composite (comp s k)"
    and p: "p \<in> set (c_audioPorts (comp s k))"
  obtains u where "u \<in> set (composites s t)"
    and "ap_direction (aport s p) = Input \<Longrightarrow> p \<in> local_receivers s u"
    and "ap_direction (aport s p) = Output \<Longrightarrow> p \<in> local_senders s u"
proof -
  note F = checked_flowD [OF ck]
  have "k \<noteq> root t" using F(4) k(2) by auto
  then obtain u where "u \<in> set (composites s t)" "k \<in> root ` set (subs u)"
    using parent_node [OF F(7) k(1)] by blast
  then show thesis using that p by (auto simp: local_receivers_def local_senders_def)
qed

text \<open>
  A placeholder that receives on one level sends on another: an input of a composite sends
  inside it, an output of a composite sends on the level above.
\<close>

lemma placeholder_turns:
  assumes ck: "checked_flow s t" and u: "u \<in> set (composites s t)" and p: "p \<in> local_receivers s u"
    and c: "isPlaceholderPort s (ap_parent (aport s p))"
  obtains v where "v \<in> set (composites s t)" "p \<in> local_senders s v"
proof -
  note F = checked_flowD [OF ck]
  have port: "p \<in> set (c_audioPorts (comp s k))" if "ap_parent (aport s p) = Some k" for k
  proof -
    have "owns (dom (comps s)) (\<lambda>c. c_audioPorts (comp s c)) (dom (aports s))
       (\<lambda>a. ap_parent (aport s a)) (\<lambda>a. ap_name (aport s a))"
      using F(1) by (simp add: wf_store_def wf_aports_def)
    from ownsD(5) [OF this, of p k] show ?thesis using that local_port(1) [OF ck u p] by auto
  qed
  from local_port(1) [OF ck u p] show thesis
  proof (elim conjE disjE exE)
    fix k assume k: "ap_parent (aport s p) = Some k" "k \<in> set (nodes t)" "ap_direction (aport s p) = Input"
    then have "c_composite (comp s k)" using c by (auto simp: isPlaceholderPort_def split: if_splits)
    then obtain v where "v \<in> set (composites s t)" "root v = k" using composite_node [OF F(7) k(2)] by blast
    then show thesis using that k port by (auto simp: local_senders_def)
  next
    assume o: "ap_parent (aport s p) = Some (root u)" "ap_direction (aport s p) = Output"
    then have "root u \<noteq> root t" using c F(5) by (auto simp: isPlaceholderPort_def isTopLevel_def split: if_splits)
    moreover have "root u \<in> set (nodes t)" using compositesD [OF F(1-3) u] by auto
    ultimately obtain v where "v \<in> set (composites s t)" "root u \<in> root ` set (subs v)"
      using parent_node [OF F(7)] by blast
    moreover from this(2) have "p \<in> local_senders s v" using o port by (auto simp: local_senders_def)
    ultimately show thesis by (intro that)
  qed
qed

section \<open>The resolved connections\<close>

definition flat_edges :: "store \<Rightarrow> hier \<Rightarrow> (audio_channel \<times> audio_channel) set" where
  "flat_edges s t = {(a, d). feeds (placeholder_channel s) (flow_edges s t) a d \<and> \<not> placeholder_channel s d}"

lemma feeds_ends:
  "feeds ph E a d \<Longrightarrow> \<not> ph a \<and> (\<exists>b. (a, b) \<in> E) \<and> (\<exists>b. (b, d) \<in> E)"
  by (induction rule: feeds.induct) auto

lemma flat_edge_ends:
  assumes ck: "checked_flow s t" and e: "(a, d) \<in> flat_edges s t"
  shows "aports s (port a) \<noteq> None" "channel a < ap_width (aport s (port a))"
    and "aports s (port d) \<noteq> None" "channel d < ap_width (aport s (port d))"
    and "ap_parent (aport s (port a)) = Some (root t) \<and> ap_direction (aport s (port a)) = Input \<or>
      (\<exists>k \<in> set (nodes t). \<not> c_composite (comp s k) \<and> ap_parent (aport s (port a)) = Some k \<and>
         ap_direction (aport s (port a)) = Output)"
    and "ap_parent (aport s (port d)) = Some (root t) \<and> ap_direction (aport s (port d)) = Output \<or>
      (\<exists>k \<in> set (nodes t). \<not> c_composite (comp s k) \<and> ap_parent (aport s (port d)) = Some k \<and>
         ap_direction (aport s (port d)) = Input)"
proof -
  have F: "feeds (placeholder_channel s) (flow_edges s t) a d" and d: "\<not> placeholder_channel s d"
    using e by (auto simp: flat_edges_def)
  obtain b b' where b: "\<not> placeholder_channel s a" "(a, b) \<in> flow_edges s t" "(b', d) \<in> flow_edges s t"
    using feeds_ends [OF F] by auto
  obtain u where u: "u \<in> set (composites s t)" "port a \<in> local_senders s u" "channel a < ap_width (aport s (port a))"
    by (rule flow_edgesD [OF ck b(2)])
  obtain v where v: "v \<in> set (composites s t)" "port d \<in> local_receivers s v" "channel d < ap_width (aport s (port d))"
    by (rule flow_edgesD [OF ck b(3)])
  show "channel a < ap_width (aport s (port a))" "channel d < ap_width (aport s (port d))" by (fact u(3), fact v(3))
  show "aports s (port a) \<noteq> None" using local_port(2) [OF ck u(1,2)] by blast
  show "aports s (port d) \<noteq> None" using local_port(1) [OF ck v(1,2)] by blast
  show "ap_parent (aport s (port a)) = Some (root t) \<and> ap_direction (aport s (port a)) = Input \<or>
      (\<exists>k \<in> set (nodes t). \<not> c_composite (comp s k) \<and> ap_parent (aport s (port a)) = Some k \<and>
         ap_direction (aport s (port a)) = Output)"
    using concrete_sender [OF ck u(1,2)] b(1) unfolding placeholder_channel_def by blast
  show "ap_parent (aport s (port d)) = Some (root t) \<and> ap_direction (aport s (port d)) = Output \<or>
      (\<exists>k \<in> set (nodes t). \<not> c_composite (comp s k) \<and> ap_parent (aport s (port d)) = Some k \<and>
         ap_direction (aport s (port d)) = Input)"
    using concrete_receiver [OF ck v(1,2)] d unfolding placeholder_channel_def by blast
qed

lemma flat_directions:
  assumes ck: "checked_flow s t"
  shows "port ` fst ` flat_edges s t \<inter> port ` snd ` flat_edges s t = {}"
proof -
  have "\<not> (c_composite (comp s k) \<and> k \<noteq> root t)" if "(a, d) \<in> flat_edges s t"
      "ap_parent (aport s (port a)) = Some k \<or> ap_parent (aport s (port d)) = Some k" for a d k
    using flat_edge_ends(5,6) [OF ck that(1)] that(2) by auto
  have "port a \<noteq> port d'" if e: "(a, d) \<in> flat_edges s t" "(a', d') \<in> flat_edges s t" for a d a' d'
    using flat_edge_ends(5) [OF ck e(1)] flat_edge_ends(6) [OF ck e(2)] checked_flowD(4) [OF ck] by auto
  then show ?thesis by (auto simp: image_iff)
qed

text \<open>
  Following the channels forward from a concrete sender ends at a concrete receiver: no channel
  has two senders, so the placeholders passed on the way cannot form a loop.
\<close>

lemma forward_reach:
  fixes E :: "('a \<times> 'a) set"
  assumes fin: "finite E" and u: "unique_sender E" and a: "\<not> ph a" "(a, b) \<in> E"
    and next_edge: "\<And>d. feeds ph E a d \<Longrightarrow> ph d \<Longrightarrow> \<exists>e. (d, e) \<in> E"
  shows "\<exists>d. feeds ph E a d \<and> \<not> ph d"
proof (rule ccontr)
  assume "\<not> ?thesis"
  then have all: "ph d" if "feeds ph E a d" for d using that by blast
  define R where "R = {d. feeds ph E a d}"
  have "R \<subseteq> snd ` E" unfolding R_def using feeds_ends [of ph E a] by force
  then have finR: "finite R" using fin finite_subset by blast
  define f where "f d = (SOME x. (x, d) \<in> E)" for d
  have f: "f d = x" if "(x, d) \<in> E" for x d
    using u that someI [of "\<lambda>x. (x, d) \<in> E" x] unfolding f_def unique_sender_def by blast
  have "insert a R \<subseteq> f ` R"
  proof
    fix x assume "x \<in> insert a R"
    then consider "x = a" | "x \<in> R" by blast
    then show "x \<in> f ` R"
    proof cases
      case 1
      have "b \<in> R" using feeds.direct [where ph = ph, OF a(2) a(1)] by (simp add: R_def)
      then show ?thesis using f [OF a(2)] 1 by blast
    next
      case 2
      then have x: "feeds ph E a x" "ph x" using all by (auto simp: R_def)
      then obtain e where e: "(x, e) \<in> E" using next_edge by blast
      then have "e \<in> R" using feeds.through [where ph = ph, OF e x(2,1)] by (simp add: R_def)
      then show ?thesis using f [OF e] by blast
    qed
  qed
  then have "card (insert a R) \<le> card (f ` R)" using finR by (intro card_mono) auto
  moreover have "a \<notin> R" using all a(1) by (auto simp: R_def)
  ultimately show False using finR card_image_le [OF finR, of f] by simp
qed

lemma finite_flow_edges: "finite (flow_edges s t)"
  by (simp add: connections_in_def)

lemma sender_reaches:
  assumes ck: "checked_flow s t" and u: "u \<in> set (composites s t)"
    and p: "port a \<in> local_senders s u" "channel a < ap_width (aport s (port a))"
    and c: "\<not> placeholder_channel s a"
  shows "\<exists>d. (a, d) \<in> flat_edges s t"
proof -
  obtain b where b: "(a, b) \<in> flow_edges s t" using sender_connected [OF ck u p] by blast
  have "\<exists>d. feeds (placeholder_channel s) (flow_edges s t) a d \<and> \<not> placeholder_channel s d"
  proof (rule forward_reach [where ph = "placeholder_channel s", OF finite_flow_edges flow_unique_sender [OF ck] c b])
    fix d assume d: "feeds (placeholder_channel s) (flow_edges s t) a d" "placeholder_channel s d"
    then obtain x where x: "(x, d) \<in> flow_edges s t" using feeds_ends by metis
    obtain v where v: "v \<in> set (composites s t)" "port d \<in> local_receivers s v" "channel d < ap_width (aport s (port d))"
      by (rule flow_edgesD [OF ck x])
    obtain w where w: "w \<in> set (composites s t)" "port d \<in> local_senders s w"
      using placeholder_turns [OF ck v(1,2)] d(2) unfolding placeholder_channel_def by blast
    show "\<exists>e. (d, e) \<in> flow_edges s t" by (rule sender_connected [OF ck w v(3)])
  qed
  then show ?thesis by (auto simp: flat_edges_def)
qed

lemma resolved_edges:
  assumes ck: "checked_flow s t" and m: "set m = flow_edges s t" and r: "resolvePlaceholders s m = Inr r"
  shows "set r = flat_edges s t"
    and "(x, d) \<in> flow_edges s t \<Longrightarrow> \<not> placeholder_channel s d \<Longrightarrow> \<exists>a. (a, d) \<in> flat_edges s t"
proof -
  have u: "unique_sender (set m)" using flow_unique_sender [OF ck] m by simp
  have run: "foldE (resolve_entry s m) [] m = Inr r" using r by (simp add: resolvePlaceholders_def)
  note T = audio_table.resolve_table [where f = "resolve_entry s m" and recv = snd and mk = Pair
        and ph = "placeholder_channel s" and es = m and r = "[]", OF u resolve_entry_Inr [OF _ u]]
  have "d \<in> snd ` set m" if "feeds (placeholder_channel s) (set m) a d" for a d
    using feeds_ends [OF that] by force
  then show "set r = flat_edges s t" using T(1) [OF _ run] m by (auto simp: flat_edges_def)
  assume "(x, d) \<in> flow_edges s t" "\<not> placeholder_channel s d"
  then show "\<exists>a. (a, d) \<in> flat_edges s t" using T(2) run m by (force simp: flat_edges_def)
qed

end
