(* ===== verification/Flow_Store.thy ===== *)
theory Flow_Store
  imports Buffer_Assignment Flow_Structure
begin

text \<open>
  The store after the audio connections have been initialised: the hierarchy with the internal
  routing components below the top level, and the atomic components that are scheduled.
\<close>

section \<open>The result of the layout\<close>

definition laid_out :: "nat \<Rightarrow> store \<Rightarrow> nat \<Rightarrow> (audio_channel \<times> audio_channel) set \<Rightarrow> audio_setup \<Rightarrow> bool" where
  "laid_out blockSize s fl F r \<longleftrightarrow>
     (let s' = as_store r; I = as_infrastructure r; C = finalConnections r
      in delivers (set C) (set I) = F \<and> buffers_shared s' C \<and> buffers_disjoint blockSize s' C \<and>
         routing_built fl s s' (set C) I \<and> distinct (map ri_component I) \<and>
         (\<forall>q \<in> set I. comps s (ri_component q) = None \<and> aports s (ri_input q) = None \<and> aports s (ri_output q) = None \<and>
            widths s' (ri_output q) = length (ri_indices q) \<and> (\<forall>i \<in> set (ri_indices q). i < widths s' (ri_input q))) \<and>
         (\<forall>p. aports s p \<noteq> None \<longrightarrow> aports s' p \<noteq> None \<and> ap_parent (aport s' p) = ap_parent (aport s p) \<and>
            ap_direction (aport s' p) = ap_direction (aport s p) \<and>
            ap_sampleType (aport s' p) = ap_sampleType (aport s p) \<and> widths s' p = widths s p) \<and>
         (\<forall>(x, y) \<in> set C. channel x < widths s' (port x) \<and> channel y < widths s' (port y)))"

lemma laid_outD:
  assumes "laid_out blockSize s fl F r"
  shows "delivers (set (finalConnections r)) (set (as_infrastructure r)) = F"
    and "buffers_shared (as_store r) (finalConnections r)"
    and "buffers_disjoint blockSize (as_store r) (finalConnections r)"
    and "routing_built fl s (as_store r) (set (finalConnections r)) (as_infrastructure r)"
    and "distinct (map ri_component (as_infrastructure r))"
  using assms unfolding laid_out_def Let_def by blast+

lemma laid_out_routing:
  assumes "laid_out blockSize s fl F r" "q \<in> set (as_infrastructure r)"
  shows "comps s (ri_component q) = None" "aports s (ri_input q) = None" "aports s (ri_output q) = None"
    and "widths (as_store r) (ri_output q) = length (ri_indices q)"
    and "i \<in> set (ri_indices q) \<Longrightarrow> i < widths (as_store r) (ri_input q)"
    and "routing_object fl (as_store r) q" "routes_exactly (set (finalConnections r)) q"
  using assms routing_builtD(4,5) [OF laid_outD(4) [OF assms(1)] assms(2)] unfolding laid_out_def Let_def by blast+

lemma laid_out_ports:
  assumes "laid_out blockSize s fl F r" "aports s p \<noteq> None"
  shows "aports (as_store r) p \<noteq> None" "ap_parent (aport (as_store r) p) = ap_parent (aport s p)"
    and "ap_direction (aport (as_store r) p) = ap_direction (aport s p)"
    and "ap_sampleType (aport (as_store r) p) = ap_sampleType (aport s p)" "widths (as_store r) p = widths s p"
  using assms unfolding laid_out_def Let_def by blast+

lemma laid_out_channels:
  assumes "laid_out blockSize s fl F r" "(x, y) \<in> set (finalConnections r)"
  shows "channel x < widths (as_store r) (port x)" "channel y < widths (as_store r) (port y)"
proof -
  have "\<forall>(x, y) \<in> set (finalConnections r). channel x < widths (as_store r) (port x) \<and> channel y < widths (as_store r) (port y)"
    using assms(1) unfolding laid_out_def Let_def by blast
  then show "channel x < widths (as_store r) (port x)" "channel y < widths (as_store r) (port y)" using assms(2) by auto
qed

lemma same_ports_routing:
  assumes "routing_built fl s0 s C rs" "same_ports s s'"
  shows "routing_built fl s0 s' C rs"
proof -
  have "routing_object fl s' r" if "r \<in> set rs" for r
  proof -
    have o: "routing_object fl s r" by (rule routing_builtD(4) [OF assms(1) that])
    then have "aports s (ri_input r) \<noteq> None" "aports s (ri_output r) \<noteq> None" by (simp_all add: routing_object_def)
    then show ?thesis using o same_portsD(3-6) [OF assms(2), of "ri_input r"] same_portsD(3-6) [OF assms(2), of "ri_output r"]
        same_portsD(1) [OF assms(2)]
      unfolding routing_object_def by simp
  qed
  then show ?thesis using assms same_portsD(1,2) [OF assms(2)] unfolding routing_built_def by simp
qed

lemma initialised_laid_out:
  assumes fresh: "fresh_addresses pl s" and part: "partition_ok (pl_partition pl)"
    and inp: "layout_input s (pl_flow pl) conns"
    and init: "initialiseAudioConnections pl bs base s conns = Inr r"
  shows "laid_out bs s (pl_flow pl) (set conns) r"
    and "buffers_in_pool bs base (as_poolSize r) (as_store r) (finalConnections r)"
proof -
  obtain st tables tot where run:
      "foldE (placeType pl bs conns) (start_layout s, [], 0) (usedSampleTypes s (pl_flow pl) conns) = Inr (st, tables, tot)"
    using init by (auto simp: initialiseAudioConnections_def start_layout_def Let_def)
  obtain s' where s': "foldE (assignBuffers bs base) (ly_store st, 0) tables = Inr (s', tot)"
      "delivers (set (tmpConnections st)) (set (mInfrastructureComponents st)) = set conns"
      "buffers_shared s' (tmpConnections st)" "buffers_disjoint bs s' (tmpConnections st)"
      "buffers_in_pool bs base tot s' (tmpConnections st)"
      and inv: "layout_inv pl s floatId (set tables) (set conns) (between st)" and same: "same_ports (ly_store st) s'"
    by (rule initialise_runs [OF fresh inp part run])
  have r: "as_store r = s'" "finalConnections r = tmpConnections st" "as_infrastructure r = mInfrastructureComponents st"
      "as_poolSize r = tot"
    using init run s'(1) by (auto simp: initialiseAudioConnections_def start_layout_def Let_def)
  then show "buffers_in_pool bs base (as_poolSize r) (as_store r) (finalConnections r)" using s'(5) by simp
  note I = layout_invD [OF inv, simplified]
  note P = same_portsD [OF same]
  let ?rs = "mInfrastructureComponents st"
  have ok: "map (\<lambda>r. (ri_component r, ri_input r, ri_output r)) ?rs = map (pl_new pl) [0..<length ?rs]"
      "\<And>q. q \<in> set ?rs \<Longrightarrow> widths (ly_store st) (ri_output q) = length (ri_indices q) \<and>
          (\<forall>i \<in> set (ri_indices q). i < widths (ly_store st) (ri_input q))"
    using I(3) unfolding routing_ok_def by blast+
  have new: "pl_new pl j = (ri_component (?rs ! j), ri_input (?rs ! j), ri_output (?rs ! j))" if "j < length ?rs" for j
    using ok(1) that by (metis (mono_tags, lifting) add.left_neutral diff_zero length_upt nth_map nth_upt)
  have built: "routing_built (pl_flow pl) s s' (set (tmpConnections st)) ?rs"
    using same_ports_routing [OF I(9) same] by simp
  have "distinct (map ri_component ?rs)"
    unfolding distinct_conv_nth
  proof (intro allI impI)
    fix i j assume ij: "i < length (map ri_component ?rs)" "j < length (map ri_component ?rs)" "i \<noteq> j"
    have lt: "ri_component (?rs ! j) \<noteq> ri_component (?rs ! i)" if "j < i" "i < length ?rs" for i j
      using fresh_addressesD(5) [OF fresh new [OF that(2)] that(1) new [of j]] that by simp
    show "map ri_component ?rs ! i \<noteq> map ri_component ?rs ! j"
      using ij lt [of i j] lt [of j i] by (cases "i < j") auto
  qed
  moreover have "comps s (ri_component q) = None \<and> aports s (ri_input q) = None \<and> aports s (ri_output q) = None \<and>
      widths s' (ri_output q) = length (ri_indices q) \<and> (\<forall>i \<in> set (ri_indices q). i < widths s' (ri_input q))"
    if q: "q \<in> set ?rs" for q
  proof -
    obtain j where j: "j < length ?rs" "q = ?rs ! j" using q by (metis in_set_conv_nth)
    have o: "aports (ly_store st) (ri_input q) \<noteq> None" "aports (ly_store st) (ri_output q) \<noteq> None"
      using routing_builtD(4) [OF I(9) q] by (auto simp: routing_object_def)
    show ?thesis
      using fresh_addressesD(1-3) [OF fresh new [OF j(1)]] j(2) ok(2) [OF q] P(7) [OF o(1)] P(7) [OF o(2)] by simp
  qed
  moreover have "aports s' p \<noteq> None \<and> ap_parent (aport s' p) = ap_parent (aport s p) \<and>
            ap_direction (aport s' p) = ap_direction (aport s p) \<and>
            ap_sampleType (aport s' p) = ap_sampleType (aport s p) \<and> widths s' p = widths s p"
    if "aports s p \<noteq> None" for p
  proof -
    have "aports (ly_store st) p = aports s p" by (rule ports_extendD [OF I(1) that])
    then show ?thesis using that P(3-7) [of p] by (simp add: widths_def)
  qed
  moreover have "channel x < widths s' (port x) \<and> channel y < widths s' (port y)"
    if c: "(x, y) \<in> set (tmpConnections st)" for x y
  proof -
    have "(x, y) \<in> set (tmpConnections (between st))" using c by simp
    from layout_inv_placed [OF inv this] obtain t snds rcvs where t: "(t, snds, rcvs) \<in> set tables" "placed (ly_store st) snds rcvs (x, y)"
      by (auto simp: placed_def)
    obtain n where "table_ok (ly_store st) t snds rcvs n" using I(7) t(1) by blast
    then have "\<forall>q \<in> keys snds \<union> keys rcvs. aports (ly_store st) q \<noteq> None" by (simp add: table_ok_def)
    then have "aports (ly_store st) (port x) \<noteq> None" "aports (ly_store st) (port y) \<noteq> None"
      using t(2) by (auto simp: placed_def)
    then show ?thesis using t(2) P(7) [of "port x"] P(7) [of "port y"] by (simp add: placed_def)
  qed
  ultimately show "laid_out bs s (pl_flow pl) (set conns) r"
    unfolding laid_out_def Let_def r using s'(2-4) built by auto
qed

section \<open>The ends of the final connections\<close>

lemma final_sender:
  assumes lo: "laid_out bs s fl F r" and c: "(x, y) \<in> set (finalConnections r)"
  shows "(\<exists>d. (x, d) \<in> F) \<or> (\<exists>q \<in> set (as_infrastructure r). port x = ri_output q \<and> channel x < length (ri_indices q))"
proof (cases "port x \<in> ri_output ` set (as_infrastructure r)")
  case True
  then obtain q where q: "q \<in> set (as_infrastructure r)" "port x = ri_output q" by auto
  then have "(AudioChannel (ri_output q) (channel x), y) \<in> set (finalConnections r)"
    using c by (metis audio_channel.collapse)
  then have "channel x < length (ri_indices q)"
    using laid_out_routing(7) [OF lo q(1)] unfolding routes_exactly_def by blast
  then show ?thesis using q by blast
next
  case x: False
  note D = laid_outD(1) [OF lo, symmetric]
  show ?thesis
  proof (cases "port y \<in> ri_input ` set (as_infrastructure r)")
    case False
    then show ?thesis using x c unfolding D delivers_def by blast
  next
    case True
    then obtain q where q: "q \<in> set (as_infrastructure r)" "port y = ri_input q" by auto
    then have e: "(x, AudioChannel (ri_input q) (channel y)) \<in> set (finalConnections r)"
      using c by (metis audio_channel.collapse)
    note R = laid_out_routing(7) [OF lo q(1), unfolded routes_exactly_def]
    obtain j where j: "j < length (ri_indices q)" "channel y = ri_indices q ! j"
      using R e by (metis in_set_conv_nth)
    then obtain b where "(AudioChannel (ri_output q) j, b) \<in> set (finalConnections r)" using R by blast
    then have "(x, b) \<in> F" using e j q(1) unfolding D delivers_def by auto
    then show ?thesis by blast
  qed
qed

text \<open>The two ways a connection of the flow is realised.\<close>

lemma delivered_cases:
  assumes lo: "laid_out bs s fl F r" and e: "(a, b) \<in> F"
  obtains (direct) "(a, b) \<in> set (finalConnections r)"
  | (routed) q j where "q \<in> set (as_infrastructure r)" "j < length (ri_indices q)"
      "(a, AudioChannel (ri_input q) (ri_indices q ! j)) \<in> set (finalConnections r)"
      "(AudioChannel (ri_output q) j, b) \<in> set (finalConnections r)"
  using e unfolding laid_outD(1) [OF lo, symmetric] delivers_def by blast

lemma final_ends:
  assumes lo: "laid_out bs s fl F r" and e: "(a, b) \<in> F"
  shows "\<exists>y. (a, y) \<in> set (finalConnections r)" "\<exists>x. (x, b) \<in> set (finalConnections r)"
  by (rule delivered_cases [OF lo e]; blast)+

section \<open>The hierarchy with the internal components\<close>

definition flow_tree :: "placement \<Rightarrow> store \<Rightarrow> hier" where
  "flow_tree pl s = hier_of (Suc (pl_levels pl)) s (pl_flow pl)"

lemma root_flow_tree [simp]: "root (flow_tree pl s) = pl_flow pl"
  by (simp add: flow_tree_def)

lemma hier_of_cong:
  "(\<And>k. k \<in> set (nodes (hier_of n s c)) \<Longrightarrow> c_components (comp s' k) = c_components (comp s k)) \<Longrightarrow>
   hier_of n s' c = hier_of n s c"
proof (induction n arbitrary: c)
  case (Suc n)
  have c: "c_components (comp s' c) = c_components (comp s c)" using Suc.prems [of c] by simp
  have "hier_of n s' k = hier_of n s k" if "k \<in> set (c_components (comp s c))" for k
    using Suc.IH [of k] Suc.prems that by auto
  then show ?case using c by simp
qed simp

lemma collectAllComponents_cong:
  "(\<And>k. k \<in> set (nodes t) \<Longrightarrow> c_composite (comp s' k) = c_composite (comp s k)) \<Longrightarrow>
   collectAllComponents s' t = collectAllComponents s t"
proof (induction t)
  case (Hier c ts)
  have "map (collectAllComponents s') ts = map (collectAllComponents s) ts"
    using Hier.IH Hier.prems by auto
  then show ?case using Hier.prems [of c] by (simp cong: map_cong)
qed

lemma laid_out_comp:
  assumes lo: "laid_out bs s fl F r" and c: "c \<in> dom (comps s)" "c \<noteq> fl"
  shows "comps (as_store r) c = comps s c"
proof -
  have "c \<notin> ri_component ` set (as_infrastructure r)" using laid_out_routing(1) [OF lo] c(1) by force
  then show ?thesis using routing_builtD(2) [OF laid_outD(4) [OF lo] c(2)] by blast
qed

lemma laid_out_flow:
  assumes "laid_out bs s fl F r"
  shows "c_components (comp (as_store r) fl) = c_components (comp s fl) @ map ri_component (as_infrastructure r)"
    and "c_composite (comp (as_store r) fl) = c_composite (comp s fl)"
    and "c_audioPorts (comp (as_store r) fl) = c_audioPorts (comp s fl)"
    and "c_parent (comp (as_store r) fl) = c_parent (comp s fl)"
  using routing_builtD(3) [OF laid_outD(4) [OF assms]] by simp_all

lemma flow_tree_laid_out:
  assumes lo: "laid_out bs s (pl_flow pl) F r" and ck: "checked_flow s (flow_tree pl s)"
  shows "flow_tree pl (as_store r) =
      Hier (pl_flow pl) (subs (flow_tree pl s) @ map (\<lambda>q. Hier (ri_component q) []) (as_infrastructure r))"
    and "collectAllComponents (as_store r) (flow_tree pl (as_store r)) =
      collectAllComponents s (flow_tree pl s) @ map ri_component (as_infrastructure r)"
proof -
  let ?s' = "as_store r" and ?fl = "pl_flow pl" and ?n = "pl_levels pl"
  note F = checked_flowD [OF ck]
  have nd: "distinct (nodes (flow_tree pl s))" by (rule distinct_nodes [OF F(1-3)])
  have sub: "k \<in> dom (comps s) \<and> k \<noteq> ?fl" if "t \<in> set (subs (flow_tree pl s))" "k \<in> set (nodes t)" for t k
  proof -
    obtain ts where t: "flow_tree pl s = Hier ?fl ts" by (metis hier.collapse root_flow_tree)
    then show ?thesis using nodes_in_store [OF F(1-3), of k] nd that by auto
  qed
  have subs: "subs (flow_tree pl s) = map (hier_of ?n s) (c_components (comp s ?fl))" by (simp add: flow_tree_def)
  have old: "hier_of ?n ?s' k = hier_of ?n s k" if "k \<in> set (c_components (comp s ?fl))" for k
  proof (rule hier_of_cong)
    fix d assume "d \<in> set (nodes (hier_of ?n s k))"
    then have "d \<in> dom (comps s) \<and> d \<noteq> ?fl" using sub [of "hier_of ?n s k" d] that subs by auto
    then show "c_components (comp ?s' d) = c_components (comp s d)" using laid_out_comp [OF lo, of d] by simp
  qed
  have new: "hier_of m ?s' (ri_component q) = Hier (ri_component q) []" if "q \<in> set (as_infrastructure r)" for q m
    using laid_out_routing(6) [OF lo that] by (cases m) (auto simp: routing_object_def)
  show T: "flow_tree pl ?s' =
      Hier ?fl (subs (flow_tree pl s) @ map (\<lambda>q. Hier (ri_component q) []) (as_infrastructure r))"
    using old new unfolding flow_tree_def by (simp add: laid_out_flow(1) [OF lo])
  have at: "collectAllComponents ?s' t = collectAllComponents s t" if "t \<in> set (subs (flow_tree pl s))" for t
    using sub [OF that] laid_out_comp [OF lo] by (intro collectAllComponents_cong) auto
  have "\<not> c_composite (comp ?s' (ri_component q))" if "q \<in> set (as_infrastructure r)" for q
    using laid_out_routing(6) [OF lo that] by (auto simp: routing_object_def)
  then have atoms: "map (\<lambda>q. collectAllComponents ?s' (Hier (ri_component q) [])) (as_infrastructure r) =
      map (\<lambda>q. [ri_component q]) (as_infrastructure r)" by simp
  have "collectAllComponents s (flow_tree pl s) = concat (map (collectAllComponents s) (subs (flow_tree pl s)))"
    using F(4) by (cases "flow_tree pl s") simp
  moreover have "collectAllComponents ?s' (flow_tree pl ?s') =
      concat (map (collectAllComponents s) (subs (flow_tree pl s))) @ concat (map (\<lambda>q. [ri_component q]) (as_infrastructure r))"
    unfolding T using F(4) laid_out_flow(2) [OF lo] at atoms
    by (simp add: o_def cong: map_cong)
  ultimately show "collectAllComponents ?s' (flow_tree pl ?s') =
      collectAllComponents s (flow_tree pl s) @ map ri_component (as_infrastructure r)" by simp
qed

end
