(* ===== verification/Vector_Functions.thy ===== *)
theory Vector_Functions
  imports Complex_Main Channel_List
begin

text \<open>
  The vector primitives of \<open>src/libefl/reference/vector_functions_impl.hpp\<close>, the portable
  implementations of the functions that the components of the framework apply to blocks of
  samples.

  A pointer is the byte address of its first element, \<open>sz\<close> is the size of the element type, and
  the memory maps the address of an object to its value; two objects of one type never overlap
  in part. The element type is any type with the operations used: nothing is assumed about
  addition or multiplication, so the results hold for rounding arithmetic as well.
\<close>

unbundle bit_operations_syntax

section \<open>Alignment\<close>

datatype error_code = noError | alignmentError | arithmeticError | logicError

definition alignmentIsPowerOfTwo :: "size_t \<Rightarrow> bool" where
  "alignmentIsPowerOfTwo a \<longleftrightarrow> a \<noteq> 0 \<and> (a AND (NOT a + 1)) = a"

definition checkAlignment :: "nat \<Rightarrow> nat \<Rightarrow> nat \<Rightarrow> bool" where
  "checkAlignment sz ptr alignment =
     (if alignment = 0 then True
      else let actualAlignment = (word_of_nat alignment :: size_t) * word_of_nat sz
           in if \<not> alignmentIsPowerOfTwo (word_of_nat alignment) then False
              else (word_of_nat ptr AND (actualAlignment - 1)) = 0)"

lemma checkAlignment_0 [simp]: "checkAlignment sz p 0"
  by (simp add: checkAlignment_def)

section \<open>Loops over elements\<close>

type_synonym 'a memory = "nat \<Rightarrow> 'a"

text \<open>\<open>for( idx = 0; idx < n; ++idx ) dest[idx] = f idx\<close>, where \<open>f\<close> reads the memory of the moment.\<close>

definition for_each :: "nat \<Rightarrow> (nat \<Rightarrow> nat) \<Rightarrow> (nat \<Rightarrow> 'a memory \<Rightarrow> 'a) \<Rightarrow> 'a memory \<Rightarrow> 'a memory" where
  "for_each n dest f m = fold (\<lambda>i m. m(dest i := f i m)) [0..<n] m"

abbreviation elem :: "nat \<Rightarrow> nat \<Rightarrow> nat \<Rightarrow> nat" where
  "elem sz p i \<equiv> p + i * sz"

text \<open>The functions check their pointers in order and return at the first failure.\<close>

definition checked :: "nat \<Rightarrow> nat \<Rightarrow> nat list \<Rightarrow> 'a memory \<Rightarrow> 'a memory \<Rightarrow> error_code \<times> 'a memory" where
  "checked sz alignment ptrs m m' =
     (if \<forall>p \<in> set ptrs. checkAlignment sz p alignment then (noError, m') else (alignmentError, m))"

section \<open>The functions\<close>

definition vectorFill :: "nat \<Rightarrow> 'a \<Rightarrow> nat \<Rightarrow> nat \<Rightarrow> nat \<Rightarrow> 'a memory \<Rightarrow> error_code \<times> 'a memory" where
  "vectorFill sz val dest n alignment m =
     checked sz alignment [dest] m (for_each n (elem sz dest) (\<lambda>i m. val) m)"

definition vectorZero :: "nat \<Rightarrow> nat \<Rightarrow> nat \<Rightarrow> nat \<Rightarrow> 'a::zero memory \<Rightarrow> error_code \<times> 'a memory" where
  "vectorZero sz dest n alignment m =
     checked sz alignment [dest] m (for_each n (elem sz dest) (\<lambda>i m. 0) m)"

text \<open>
  \<open>std::copy\<close>. The standard excludes a destination inside the source, and with it the copy of a block onto itself,
  which compilers implement as doing nothing for sample types; so does the model.
\<close>

definition vectorCopy :: "nat \<Rightarrow> nat \<Rightarrow> nat \<Rightarrow> nat \<Rightarrow> nat \<Rightarrow> 'a memory \<Rightarrow> error_code \<times> 'a memory" where
  "vectorCopy sz source dest n alignment m =
     checked sz alignment [source, dest] m
       (for_each n (elem sz dest) (\<lambda>i m. m (elem sz source i)) m)"

definition vectorAdd ::
  "nat \<Rightarrow> nat \<Rightarrow> nat \<Rightarrow> nat \<Rightarrow> nat \<Rightarrow> nat \<Rightarrow> 'a::plus memory \<Rightarrow> error_code \<times> 'a memory" where
  "vectorAdd sz op1 op2 result n alignment m =
     checked sz alignment [op1, op2, result] m
       (for_each n (elem sz result) (\<lambda>i m. m (elem sz op1 i) + m (elem sz op2 i)) m)"

definition vectorAddInplace ::
  "nat \<Rightarrow> nat \<Rightarrow> nat \<Rightarrow> nat \<Rightarrow> nat \<Rightarrow> 'a::plus memory \<Rightarrow> error_code \<times> 'a memory" where
  "vectorAddInplace sz op1 op2Result n alignment m =
     checked sz alignment [op1, op2Result] m
       (for_each n (elem sz op2Result) (\<lambda>i m. m (elem sz op2Result i) + m (elem sz op1 i)) m)"

definition vectorAddConstant ::
  "nat \<Rightarrow> 'a::plus \<Rightarrow> nat \<Rightarrow> nat \<Rightarrow> nat \<Rightarrow> nat \<Rightarrow> 'a memory \<Rightarrow> error_code \<times> 'a memory" where
  "vectorAddConstant sz constantValue op result n alignment m =
     checked sz alignment [op, result] m
       (for_each n (elem sz result) (\<lambda>i m. m (elem sz op i) + constantValue) m)"

definition vectorAddConstantInplace ::
  "nat \<Rightarrow> 'a::plus \<Rightarrow> nat \<Rightarrow> nat \<Rightarrow> nat \<Rightarrow> 'a memory \<Rightarrow> error_code \<times> 'a memory" where
  "vectorAddConstantInplace sz constantValue opResult n alignment m =
     checked sz alignment [opResult] m
       (for_each n (elem sz opResult) (\<lambda>i m. m (elem sz opResult i) + constantValue) m)"

definition vectorSubtract ::
  "nat \<Rightarrow> nat \<Rightarrow> nat \<Rightarrow> nat \<Rightarrow> nat \<Rightarrow> nat \<Rightarrow> 'a::minus memory \<Rightarrow> error_code \<times> 'a memory" where
  "vectorSubtract sz subtrahend minuend result n alignment m =
     checked sz alignment [subtrahend, minuend, result] m
       (for_each n (elem sz result) (\<lambda>i m. m (elem sz subtrahend i) - m (elem sz minuend i)) m)"

definition vectorSubtractInplace ::
  "nat \<Rightarrow> nat \<Rightarrow> nat \<Rightarrow> nat \<Rightarrow> nat \<Rightarrow> 'a::minus memory \<Rightarrow> error_code \<times> 'a memory" where
  "vectorSubtractInplace sz minuend subtrahendResult n alignment m =
     checked sz alignment [minuend, subtrahendResult] m
       (for_each n (elem sz subtrahendResult)
          (\<lambda>i m. m (elem sz minuend i) - m (elem sz subtrahendResult i)) m)"

definition vectorSubtractConstant ::
  "nat \<Rightarrow> 'a::minus \<Rightarrow> nat \<Rightarrow> nat \<Rightarrow> nat \<Rightarrow> nat \<Rightarrow> 'a memory \<Rightarrow> error_code \<times> 'a memory" where
  "vectorSubtractConstant sz constantMinuend subtrahend result n alignment m =
     checked sz alignment [subtrahend, result] m
       (for_each n (elem sz result) (\<lambda>i m. m (elem sz subtrahend i) - constantMinuend) m)"

definition vectorSubtractConstantInplace ::
  "nat \<Rightarrow> 'a::minus \<Rightarrow> nat \<Rightarrow> nat \<Rightarrow> nat \<Rightarrow> 'a memory \<Rightarrow> error_code \<times> 'a memory" where
  "vectorSubtractConstantInplace sz constantMinuend subtrahendResult n alignment m =
     checked sz alignment [subtrahendResult] m
       (for_each n (elem sz subtrahendResult) (\<lambda>i m. m (elem sz subtrahendResult i) - constantMinuend) m)"

definition vectorMultiply ::
  "nat \<Rightarrow> nat \<Rightarrow> nat \<Rightarrow> nat \<Rightarrow> nat \<Rightarrow> nat \<Rightarrow> 'a::times memory \<Rightarrow> error_code \<times> 'a memory" where
  "vectorMultiply sz factor1 factor2 result n alignment m =
     checked sz alignment [factor1, factor2, result] m
       (for_each n (elem sz result) (\<lambda>i m. m (elem sz factor1 i) * m (elem sz factor2 i)) m)"

definition vectorMultiplyInplace ::
  "nat \<Rightarrow> nat \<Rightarrow> nat \<Rightarrow> nat \<Rightarrow> nat \<Rightarrow> 'a::times memory \<Rightarrow> error_code \<times> 'a memory" where
  "vectorMultiplyInplace sz factor1 factor2Result n alignment m =
     checked sz alignment [factor1, factor2Result] m
       (for_each n (elem sz factor2Result)
          (\<lambda>i m. m (elem sz factor2Result i) * m (elem sz factor1 i)) m)"

definition vectorMultiplyConstant ::
  "nat \<Rightarrow> 'a::times \<Rightarrow> nat \<Rightarrow> nat \<Rightarrow> nat \<Rightarrow> nat \<Rightarrow> 'a memory \<Rightarrow> error_code \<times> 'a memory" where
  "vectorMultiplyConstant sz constantValue factor result n alignment m =
     checked sz alignment [factor, result] m
       (for_each n (elem sz result) (\<lambda>i m. constantValue * m (elem sz factor i)) m)"

definition vectorMultiplyConstantInplace ::
  "nat \<Rightarrow> 'a::times \<Rightarrow> nat \<Rightarrow> nat \<Rightarrow> nat \<Rightarrow> 'a memory \<Rightarrow> error_code \<times> 'a memory" where
  "vectorMultiplyConstantInplace sz constantValue factorResult n alignment m =
     checked sz alignment [factorResult] m
       (for_each n (elem sz factorResult) (\<lambda>i m. m (elem sz factorResult i) * constantValue) m)"

definition vectorMultiplyAdd ::
  "nat \<Rightarrow> nat \<Rightarrow> nat \<Rightarrow> nat \<Rightarrow> nat \<Rightarrow> nat \<Rightarrow> nat \<Rightarrow> 'a::{plus,times} memory \<Rightarrow> error_code \<times> 'a memory" where
  "vectorMultiplyAdd sz factor1 factor2 addend result n alignment m =
     checked sz alignment [factor1, factor2, addend, result] m
       (for_each n (elem sz result)
          (\<lambda>i m. m (elem sz addend i) + m (elem sz factor1 i) * m (elem sz factor2 i)) m)"

definition vectorMultiplyAddInplace ::
  "nat \<Rightarrow> nat \<Rightarrow> nat \<Rightarrow> nat \<Rightarrow> nat \<Rightarrow> nat \<Rightarrow> 'a::{plus,times} memory \<Rightarrow> error_code \<times> 'a memory" where
  "vectorMultiplyAddInplace sz factor1 factor2 accumulator n alignment m =
     checked sz alignment [factor1, factor2, accumulator] m
       (for_each n (elem sz accumulator)
          (\<lambda>i m. m (elem sz accumulator i) + m (elem sz factor1 i) * m (elem sz factor2 i)) m)"

definition vectorMultiplyConstantAdd ::
  "nat \<Rightarrow> 'a::{plus,times} \<Rightarrow> nat \<Rightarrow> nat \<Rightarrow> nat \<Rightarrow> nat \<Rightarrow> nat \<Rightarrow> 'a memory \<Rightarrow> error_code \<times> 'a memory" where
  "vectorMultiplyConstantAdd sz constFactor factor addend result n alignment m =
     checked sz alignment [factor, addend, result] m
       (for_each n (elem sz result)
          (\<lambda>i m. m (elem sz addend i) + constFactor * m (elem sz factor i)) m)"

definition vectorMultiplyConstantAddInplace ::
  "nat \<Rightarrow> 'a::{plus,times} \<Rightarrow> nat \<Rightarrow> nat \<Rightarrow> nat \<Rightarrow> nat \<Rightarrow> 'a memory \<Rightarrow> error_code \<times> 'a memory" where
  "vectorMultiplyConstantAddInplace sz constFactor factor accumulator n alignment m =
     checked sz alignment [factor, accumulator] m
       (for_each n (elem sz accumulator)
          (\<lambda>i m. m (elem sz accumulator i) + constFactor * m (elem sz factor i)) m)"

definition vectorCopyStrided ::
  "nat \<Rightarrow> nat \<Rightarrow> nat \<Rightarrow> nat \<Rightarrow> nat \<Rightarrow> nat \<Rightarrow> nat \<Rightarrow> 'a memory \<Rightarrow> error_code \<times> 'a memory" where
  "vectorCopyStrided sz src dest srcStride destStride n alignment m =
     checked sz alignment [src, dest] m
       (for_each n (elem (destStride * sz) dest) (\<lambda>i m. m (elem (srcStride * sz) src i)) m)"

definition vectorFillStrided ::
  "nat \<Rightarrow> 'a \<Rightarrow> nat \<Rightarrow> nat \<Rightarrow> nat \<Rightarrow> nat \<Rightarrow> 'a memory \<Rightarrow> error_code \<times> 'a memory" where
  "vectorFillStrided sz val dest destStride n alignment m =
     checked sz alignment [dest] m (for_each n (elem (destStride * sz) dest) (\<lambda>i m. val) m)"

text \<open>With the alignment checks of a debug build.\<close>

definition vectorRampScaling ::
  "nat \<Rightarrow> nat \<Rightarrow> nat \<Rightarrow> nat \<Rightarrow> 'a \<Rightarrow> 'a \<Rightarrow> nat \<Rightarrow> bool \<Rightarrow> nat \<Rightarrow> 'a::{plus,times} memory
   \<Rightarrow> error_code \<times> 'a memory" where
  "vectorRampScaling sz input ramp result baseGain rampGain n accumulate alignment m =
     checked sz alignment [input, ramp, result] m
       (if accumulate
        then for_each n (elem sz result)
               (\<lambda>i m. m (elem sz result i) + (baseGain + rampGain * m (elem sz ramp i)) * m (elem sz input i)) m
        else for_each n (elem sz result)
               (\<lambda>i m. (baseGain + rampGain * m (elem sz ramp i)) * m (elem sz input i)) m)"

text \<open>
  A linear ramp. For one element the value in the middle is computed when both ends or none are
  included, but the following assignment overwrites it. \<open>ratio i k\<close> stands for the conversion of
  the index into the element type.
\<close>

definition vectorRamp ::
  "(nat \<Rightarrow> 'a) \<Rightarrow> 'a \<Rightarrow> nat \<Rightarrow> nat \<Rightarrow> nat \<Rightarrow> 'a \<Rightarrow> 'a \<Rightarrow> bool \<Rightarrow> bool \<Rightarrow> nat
   \<Rightarrow> 'a::{plus,minus,times,inverse} memory \<Rightarrow> error_code \<times> 'a memory" where
  "vectorRamp ofIndex half sz dest n startVal endVal startInclusive endInclusive alignment m =
     checked sz alignment [dest] m
       (if n = 0 then m
        else if n = 1
        then let m1 = (if startInclusive = endInclusive then m(dest := half * (startVal + endVal)) else m)
             in m1(dest := if startInclusive then startVal else endVal)
        else let numSteps = n + 1 - (if startInclusive then 1 else 0) - (if endInclusive then 1 else 0);
                 step = (endVal - startVal) / ofIndex numSteps;
                 calcIdx = (if startInclusive then 0 else 1)
             in for_each n (elem sz dest) (\<lambda>i m. startVal + ofIndex (calcIdx + i) * step) m)"

section \<open>What the loops compute\<close>

text \<open>
  A loop whose body never reads an element that an earlier iteration has written computes every
  element from the memory before the loop, and changes nothing else.
\<close>

definition reads_ahead :: "nat \<Rightarrow> (nat \<Rightarrow> nat) \<Rightarrow> (nat \<Rightarrow> 'a memory \<Rightarrow> 'a) \<Rightarrow> bool" where
  "reads_ahead n dest f \<longleftrightarrow>
     (\<forall>i < n. \<forall>m m'. (\<forall>a. a \<notin> dest ` {..<i} \<longrightarrow> m a = m' a) \<longrightarrow> f i m = f i m')"

lemma for_each_Suc: "for_each (Suc n) dest f m = (for_each n dest f m)(dest n := f n (for_each n dest f m))"
  by (simp add: for_each_def)

lemma for_each_other: "a \<notin> dest ` {..<n} \<Longrightarrow> for_each n dest f m a = m a"
  by (induction n) (simp_all add: for_each_Suc lessThan_Suc, simp add: for_each_def)

lemma for_each_element:
  assumes "reads_ahead n dest f" "inj_on dest {..<n}" "i < n"
  shows "for_each n dest f m (dest i) = f i m"
  using assms
proof (induction n)
  case (Suc n)
  have ra: "reads_ahead n dest f" using Suc.prems(1) by (auto simp: reads_ahead_def)
  have inj: "inj_on dest {..<n}" using Suc.prems(2) by (auto simp: inj_on_def)
  show ?case
  proof (cases "i = n")
    case True
    have "f n (for_each n dest f m) = f n m"
      using Suc.prems(1) for_each_other unfolding reads_ahead_def by (metis lessI)
    then show ?thesis using True by (simp add: for_each_Suc)
  next
    case False
    then have "i < n" using Suc.prems(3) by simp
    moreover have "dest i \<noteq> dest n" using Suc.prems(2,3) False by (auto simp: inj_on_def)
    ultimately show ?thesis using Suc.IH [OF ra inj] by (simp add: for_each_Suc)
  qed
qed simp

section \<open>Powers of two\<close>

lemma odd_decomposition: "0 < (n::nat) \<Longrightarrow> \<exists>k c. n = 2 ^ k * (2 * c + 1)"
proof (induction n rule: less_induct)
  case (less n)
  show ?case
  proof (cases "even n")
    case True
    then obtain q where q: "n = 2 * q" by blast
    then obtain k c where "q = 2 ^ k * (2 * c + 1)" using less by fastforce
    then have "n = 2 ^ Suc k * (2 * c + 1)" using q by simp
    then show ?thesis by blast
  next
    case False
    then obtain c where "n = 2 * c + 1" by (elim oddE)
    then have "n = 2 ^ 0 * (2 * c + 1)" by simp
    then show ?thesis by blast
  qed
qed

text \<open>Clearing the lowest set bit.\<close>

lemma and_pred: "(2 ^ k * (2 * c + 1)) AND (2 ^ k * (2 * c + 1) - 1) = (2 ^ k * (2 * c) :: nat)"
proof (rule bit_eqI)
  fix j
  have "2 ^ k * (2 * c + 1) - 1 = push_bit k (2 * c) + mask k"
    by (simp add: push_bit_eq_mult mask_eq_exp_minus_1 algebra_simps)
  also have "\<dots> = push_bit k (2 * c) OR mask k"
    by (rule disjunctive_add) (simp add: bit_simps)
  finally have p: "2 ^ k * (2 * c + 1) - 1 = push_bit k (2 * c) OR mask k" .
  have n: "2 ^ k * (2 * c + 1) = push_bit k (2 * c + 1)" and r: "2 ^ k * (2 * c) = push_bit k (2 * c)"
    by (simp_all add: push_bit_eq_mult algebra_simps)
  show "bit ((2 ^ k * (2 * c + 1)) AND (2 ^ k * (2 * c + 1) - 1)) j = bit (2 ^ k * (2 * c)) j"
    unfolding p unfolding n r by (cases "j - k") (auto simp: bit_simps bit_0 bit_Suc)
qed

lemma alignmentIsPowerOfTwo_iff: "alignmentIsPowerOfTwo a \<longleftrightarrow> (\<exists>k. unat a = 2 ^ k)"
proof (cases "a = 0")
  case False
  then have pos: "0 < unat a" by (simp add: unat_gt_0)
  have "NOT a + 1 = NOT (a - 1)" by (simp add: not_eq_complement)
  then have "alignmentIsPowerOfTwo a \<longleftrightarrow> (a AND NOT (a - 1)) = a" using False by (simp add: alignmentIsPowerOfTwo_def)
  also have "\<dots> \<longleftrightarrow> a AND (a - 1) = 0" by (auto simp: bit_eq_iff bit_simps)
  also have "\<dots> \<longleftrightarrow> unat a AND (unat a - 1) = 0"
  proof -
    have "unat (a AND (a - 1)) = unat a AND (unat a - 1)"
      using False by (simp add: unsigned_and_eq unat_minus_one)
    then show ?thesis by (metis unat_eq_zero)
  qed
  also have "\<dots> \<longleftrightarrow> (\<exists>k. unat a = 2 ^ k)"
  proof -
    obtain k c where kc: "unat a = 2 ^ k * (2 * c + 1)" using odd_decomposition [OF pos] by blast
    have "unat a AND (unat a - 1) = 0 \<longleftrightarrow> c = 0" unfolding kc and_pred by simp
    also have "\<dots> \<longleftrightarrow> (\<exists>l. unat a = 2 ^ l)"
    proof
      assume "c = 0"
      then show "\<exists>l. unat a = 2 ^ l" using kc by auto
    next
      assume "\<exists>l. unat a = 2 ^ l"
      then obtain l where l: "2 ^ k * (2 * c + 1) = (2 ^ l :: nat)" using kc by metis
      then have "(2 * c + 1) dvd (2 :: nat) ^ l" by (metis dvd_triv_right)
      moreover have "coprime (2 * c + 1) ((2 :: nat) ^ l)" by simp
      ultimately have "2 * c + 1 = 1" by (metis coprime_common_divisor_nat dvd_refl)
      then show "c = 0" by simp
    qed
    finally show ?thesis .
  qed
  finally show ?thesis .
qed (simp add: alignmentIsPowerOfTwo_def)


text \<open>
  The check of a pointer: for an alignment and an element size that are powers of two it holds
  exactly for the multiples of the aligned size.
\<close>

lemma checkAlignment_iff:
  assumes "sz = 2 ^ l" "alignment = 2 ^ k" "k + l < 64" "ptr < 2 ^ 64"
  shows "checkAlignment sz ptr alignment \<longleftrightarrow> alignment * sz dvd ptr"
proof -
  have a: "(word_of_nat alignment :: size_t) * word_of_nat sz = 2 ^ (k + l)"
    using assms by (simp add: power_add)
  have "(2 :: nat) ^ k < 2 ^ 64" using assms(3) by (intro power_strict_increasing) auto
  then have "unat (word_of_nat alignment :: size_t) = 2 ^ k"
    by (subst unat_of_nat) (use assms(2) in simp)
  then have pow: "alignmentIsPowerOfTwo (word_of_nat alignment)" using alignmentIsPowerOfTwo_iff by blast
  have "(word_of_nat ptr AND (2 ^ (k + l) - 1) :: size_t) = take_bit (k + l) (word_of_nat ptr)"
    by (simp add: take_bit_eq_mask mask_eq_exp_minus_1)
  also have "\<dots> = 0 \<longleftrightarrow> take_bit (k + l) ptr = 0"
  proof -
    have "unat (take_bit (k + l) (word_of_nat ptr :: size_t)) = take_bit (k + l) ptr"
      using assms(4) by (simp add: unsigned_take_bit_eq unat_of_nat)
    then show ?thesis by (metis unat_eq_zero)
  qed
  also have "\<dots> \<longleftrightarrow> alignment * sz dvd ptr"
    using assms(1,2) by (simp add: take_bit_eq_mod power_add dvd_eq_mod_eq_0)
  finally show ?thesis using assms(2) a pow by (simp add: checkAlignment_def Let_def)
qed

section \<open>The result of a vector function\<close>

definition stored :: "nat \<Rightarrow> (nat \<Rightarrow> nat) \<Rightarrow> (nat \<Rightarrow> 'a) \<Rightarrow> 'a memory \<Rightarrow> 'a memory \<Rightarrow> bool" where
  "stored n dest g m m' \<longleftrightarrow>
     (\<forall>i < n. m' (dest i) = g i) \<and> (\<forall>a. a \<notin> dest ` {..<n} \<longrightarrow> m' a = m a)"

text \<open>
  \<open>safe n src dest\<close>: no element of \<open>src\<close> is written before it is read. This is so when the
  blocks do not overlap, when they are the same, and when the source lies behind the destination.
\<close>

definition safe :: "nat \<Rightarrow> (nat \<Rightarrow> nat) \<Rightarrow> (nat \<Rightarrow> nat) \<Rightarrow> bool" where
  "safe n src dest \<longleftrightarrow> (\<forall>i < n. src i \<notin> dest ` {..<i})"

lemma safe_ahead: "dest \<le> src \<Longrightarrow> 0 < sz \<Longrightarrow> safe n (elem sz src) (elem sz dest)"
  by (auto simp: safe_def) (metis add_le_less_mono less_irrefl mult_less_cancel2)

lemma safe_disjoint: "src ` {..<n} \<inter> dest ` {..<n} = {} \<Longrightarrow> safe n src dest"
  by (force simp: safe_def)

lemma inj_elem: "0 < sz \<Longrightarrow> inj_on (elem sz p) A"
  by (auto simp: inj_on_def)

text \<open>An aligned call stores the results, any other call reports the error and changes nothing.\<close>

definition outcome ::
  "nat \<Rightarrow> nat \<Rightarrow> nat list \<Rightarrow> nat \<Rightarrow> (nat \<Rightarrow> nat) \<Rightarrow> (nat \<Rightarrow> 'a) \<Rightarrow> 'a memory \<Rightarrow> error_code \<times> 'a memory \<Rightarrow> bool" where
  "outcome sz alignment ptrs n dest g m r \<longleftrightarrow>
     (if \<forall>p \<in> set ptrs. checkAlignment sz p alignment
      then fst r = noError \<and> stored n dest g m (snd r) else r = (alignmentError, m))"

lemma checked_for_each:
  assumes "inj_on dest {..<n}"
    and "\<And>i m'. i < n \<Longrightarrow> (\<forall>a. a \<notin> dest ` {..<i} \<longrightarrow> m' a = m a) \<Longrightarrow> f i m' = g i"
  shows "outcome sz alignment ptrs n dest g m (checked sz alignment ptrs m (for_each n dest f m))"
proof -
  have "stored n dest g m (for_each n dest f m)"
    unfolding stored_def
  proof (intro conjI allI impI)
    show "for_each n dest f m (dest i) = g i" if "i < n" for i
      using that assms
    proof (induction n)
      case (Suc n)
      have inj: "inj_on dest {..<n}" using Suc.prems(2) by (auto simp: inj_on_def)
      show ?case
      proof (cases "i = n")
        case True
        have "\<forall>a. a \<notin> dest ` {..<n} \<longrightarrow> for_each n dest f m a = m a" using for_each_other by metis
        then show ?thesis using Suc.prems(3) [of n "for_each n dest f m"] True by (simp add: for_each_Suc)
      next
        case False
        then have "dest i \<noteq> dest n" using Suc.prems(1,2) by (auto simp: inj_on_def)
        then show ?thesis using Suc.IH [OF _ inj] Suc.prems(1,3) False by (simp add: for_each_Suc)
      qed
    qed simp
    show "for_each n dest f m a = m a" if "a \<notin> dest ` {..<n}" for a by (rule for_each_other [OF that])
  qed
  then show ?thesis by (simp add: outcome_def checked_def)
qed

text \<open>The ways in which a loop body reads the memory.\<close>

lemma read_safe:
  "safe n src dest \<Longrightarrow> i < n \<Longrightarrow> \<forall>a. a \<notin> dest ` {..<i} \<longrightarrow> m' a = m a \<Longrightarrow> m' (src i) = m (src i)"
  by (simp add: safe_def)

lemma read_own:
  "0 < sz \<Longrightarrow> \<forall>a. a \<notin> elem sz p ` {..<i} \<longrightarrow> m' a = m a \<Longrightarrow> m' (elem sz p i) = m (elem sz p i)"
  by (auto simp: image_iff)

text \<open>The values of a block of memory.\<close>

definition samples_at :: "nat \<Rightarrow> 'a memory \<Rightarrow> nat \<Rightarrow> nat \<Rightarrow> 'a list" where
  "samples_at sz m p n = map (\<lambda>i. m (elem sz p i)) [0..<n]"

lemma samples_at_Suc: "samples_at sz m p (Suc k) = samples_at sz m p k @ [m (elem sz p k)]"
  by (simp add: samples_at_def)

lemma length_samples_at [simp]: "length (samples_at sz m p n) = n"
  by (simp add: samples_at_def)

lemma nth_samples_at [simp]: "i < n \<Longrightarrow> samples_at sz m p n ! i = m (elem sz p i)"
  by (simp add: samples_at_def)

abbreviation block :: "nat \<Rightarrow> nat \<Rightarrow> nat \<Rightarrow> nat set" where
  "block sz p n \<equiv> elem sz p ` {..<n}"

lemmas vector_defs =
  vectorFill_def vectorZero_def vectorCopy_def vectorAdd_def vectorAddInplace_def
  vectorAddConstant_def vectorAddConstantInplace_def vectorSubtract_def vectorSubtractInplace_def
  vectorSubtractConstant_def vectorSubtractConstantInplace_def vectorMultiply_def
  vectorMultiplyInplace_def vectorMultiplyConstant_def vectorMultiplyConstantInplace_def
  vectorMultiplyAdd_def vectorMultiplyAddInplace_def vectorMultiplyConstantAdd_def
  vectorMultiplyConstantAddInplace_def vectorCopyStrided_def vectorFillStrided_def

text \<open>
  C6 (vector_functions_spec): every elementwise function, called with pointers that satisfy its
  alignment, stores the result of its operation on the old elements in every element of the
  destination and changes nothing else; called with any misaligned pointer it reports this and
  changes nothing. Sources may coincide with the destination or lie behind it.
\<close>

theorem vector_functions_spec:
  fixes m :: "nat \<Rightarrow> 'a::{plus,minus,times,zero}"
  assumes "0 < sz" and "safe n (elem sz p) (elem sz d)" and "safe n (elem sz q) (elem sz d)"
    and "safe n (elem sz r) (elem sz d)"
  shows
  "outcome sz al [d] n (elem sz d) (\<lambda>i. c) m (vectorFill sz c d n al m) \<and>
   outcome sz al [d] n (elem sz d) (\<lambda>i. 0) m (vectorZero sz d n al m) \<and>
   outcome sz al [p, d] n (elem sz d) (\<lambda>i. m (elem sz p i)) m (vectorCopy sz p d n al m) \<and>
   outcome sz al [p, q, d] n (elem sz d) (\<lambda>i. m (elem sz p i) + m (elem sz q i)) m
     (vectorAdd sz p q d n al m) \<and>
   outcome sz al [p, d] n (elem sz d) (\<lambda>i. m (elem sz d i) + m (elem sz p i)) m
     (vectorAddInplace sz p d n al m) \<and>
   outcome sz al [p, d] n (elem sz d) (\<lambda>i. m (elem sz p i) + c) m (vectorAddConstant sz c p d n al m) \<and>
   outcome sz al [d] n (elem sz d) (\<lambda>i. m (elem sz d i) + c) m (vectorAddConstantInplace sz c d n al m) \<and>
   outcome sz al [p, q, d] n (elem sz d) (\<lambda>i. m (elem sz p i) - m (elem sz q i)) m
     (vectorSubtract sz p q d n al m) \<and>
   outcome sz al [p, d] n (elem sz d) (\<lambda>i. m (elem sz p i) - m (elem sz d i)) m
     (vectorSubtractInplace sz p d n al m) \<and>
   outcome sz al [p, d] n (elem sz d) (\<lambda>i. m (elem sz p i) - c) m (vectorSubtractConstant sz c p d n al m) \<and>
   outcome sz al [d] n (elem sz d) (\<lambda>i. m (elem sz d i) - c) m (vectorSubtractConstantInplace sz c d n al m) \<and>
   outcome sz al [p, q, d] n (elem sz d) (\<lambda>i. m (elem sz p i) * m (elem sz q i)) m
     (vectorMultiply sz p q d n al m) \<and>
   outcome sz al [p, d] n (elem sz d) (\<lambda>i. m (elem sz d i) * m (elem sz p i)) m
     (vectorMultiplyInplace sz p d n al m) \<and>
   outcome sz al [p, d] n (elem sz d) (\<lambda>i. c * m (elem sz p i)) m (vectorMultiplyConstant sz c p d n al m) \<and>
   outcome sz al [d] n (elem sz d) (\<lambda>i. m (elem sz d i) * c) m (vectorMultiplyConstantInplace sz c d n al m) \<and>
   outcome sz al [p, q, r, d] n (elem sz d) (\<lambda>i. m (elem sz r i) + m (elem sz p i) * m (elem sz q i)) m
     (vectorMultiplyAdd sz p q r d n al m) \<and>
   outcome sz al [p, q, d] n (elem sz d) (\<lambda>i. m (elem sz d i) + m (elem sz p i) * m (elem sz q i)) m
     (vectorMultiplyAddInplace sz p q d n al m) \<and>
   outcome sz al [p, q, d] n (elem sz d) (\<lambda>i. m (elem sz q i) + c * m (elem sz p i)) m
     (vectorMultiplyConstantAdd sz c p q d n al m) \<and>
   outcome sz al [p, d] n (elem sz d) (\<lambda>i. m (elem sz d i) + c * m (elem sz p i)) m
     (vectorMultiplyConstantAddInplace sz c p d n al m)"
proof -
  note own = read_own [OF assms(1), of d]
  note rd = read_safe [OF assms(2)] read_safe [OF assms(3)] read_safe [OF assms(4)]
  show ?thesis
    unfolding vector_defs
    by (intro conjI; rule checked_for_each [OF inj_elem [OF assms(1)]]; simp only: rd own)
qed

theorem vector_functions_spec_witness:
  "outcome 4 0 [8, 16] 2 (elem 4 16) (\<lambda>i. (5::int)) (\<lambda>a. 5) (vectorCopy 4 8 16 2 0 (\<lambda>a. 5)) \<and>
   outcome 4 0 [16, 16, 16] 2 (elem 4 16) (\<lambda>i. (10::int)) (\<lambda>a. 5) (vectorAdd 4 16 16 16 2 0 (\<lambda>a. 5))"
proof -
  have s: "safe 2 (elem 4 8) (elem 4 16)" "safe 2 (elem 4 16) (elem 4 16)"
    by (auto simp: safe_def)
  have "outcome 4 0 [8, 16] 2 (elem 4 16) (\<lambda>i. (5::int)) (\<lambda>a. 5) (vectorCopy 4 8 16 2 0 (\<lambda>a. 5))"
    using vector_functions_spec [of 4 2 8 16 16 16 0 0 "\<lambda>a. 5::int"] s by simp
  moreover have "outcome 4 0 [16, 16, 16] 2 (elem 4 16) (\<lambda>i. (10::int)) (\<lambda>a. 5) (vectorAdd 4 16 16 16 2 0 (\<lambda>a. 5))"
    using vector_functions_spec [of 4 2 16 16 16 16 0 0 "\<lambda>a. 5::int"] s by simp
  ultimately show ?thesis by blast
qed

section \<open>Strides and ramps\<close>

lemma inj_strided: "0 < sz \<Longrightarrow> 0 < stride \<Longrightarrow> inj_on (elem (stride * sz) p) A"
  by (auto simp: inj_on_def)

lemma vectorCopyStrided_outcome:
  assumes "0 < sz" "0 < destStride" and "safe n (elem (srcStride * sz) src) (elem (destStride * sz) dest)"
  shows "outcome sz al [src, dest] n (elem (destStride * sz) dest) (\<lambda>i. m (elem (srcStride * sz) src i)) m
    (vectorCopyStrided sz src dest srcStride destStride n al m)"
  unfolding vectorCopyStrided_def
  by (rule checked_for_each [OF inj_strided [OF assms(1,2)]]) (rule read_safe [OF assms(3)])

lemma vectorCopy_outcome:
  assumes "0 < sz" "safe n (elem sz src) (elem sz dest)"
  shows "outcome sz al [src, dest] n (elem sz dest) (\<lambda>i. m (elem sz src i)) m (vectorCopy sz src dest n al m)"
  unfolding vectorCopy_def by (rule checked_for_each [OF inj_elem [OF assms(1)]]) (rule read_safe [OF assms(2)])

text \<open>
  C7 (vectorRamp_spec): a ramp of two or more elements has equidistant values; it starts with the
  start value when that is included and one step behind it otherwise, and ends with the end value
  when that is included and one step before it otherwise. A ramp of one element is the start
  value when that is included and the end value otherwise, also where the comment of the code
  asks for the value in the middle.
\<close>

theorem vectorRamp_spec:
  fixes startVal endVal :: "'a::field_char_0"
  assumes "0 < sz" and "0 < n" and "checkAlignment sz d al"
    and "vectorRamp of_nat (1 / 2) sz d n startVal endVal startIncl endIncl al m = (code, m')"
  shows "code = noError \<and>
    (n = 1 \<longrightarrow> m' d = (if startIncl then startVal else endVal)) \<and>
    (2 \<le> n \<longrightarrow>
      (\<exists>step. (\<forall>i < n. m' (elem sz d i) = (if startIncl then startVal else startVal + step) + of_nat i * step) \<and>
        m' (elem sz d (n - 1)) = (if endIncl then endVal else endVal - step))) \<and>
    (\<forall>a. a \<notin> elem sz d ` {..<n} \<longrightarrow> m' a = m a)"
proof -
  have c: "code = noError" using assms(3,4) by (simp add: vectorRamp_def checked_def)
  show ?thesis
  proof (cases "n = 1")
    case True
    then have "m' = m(d := if startIncl then startVal else endVal)"
      using assms(3,4) by (auto simp: vectorRamp_def checked_def Let_def split: if_splits)
    then show ?thesis using c True by simp
  next
    case False
    then have n: "2 \<le> n" using assms(2) by simp
    define steps where "steps = n + 1 - (if startIncl then 1 else 0) - (if endIncl then 1 else 0 :: nat)"
    define step where "step = (endVal - startVal) / of_nat steps"
    define idx where "idx = (if startIncl then 0 else 1 :: nat)"
    have m': "m' = for_each n (elem sz d) (\<lambda>i m. startVal + of_nat (idx + i) * step) m"
      using assms(3,4) n by (simp add: vectorRamp_def checked_def Let_def steps_def step_def idx_def)
    have pos: "0 < steps" using n by (auto simp: steps_def)
    have val: "m' (elem sz d i) = startVal + of_nat (idx + i) * step" if "i < n" for i
      unfolding m' by (rule for_each_element [OF _ inj_elem [OF assms(1)] that]) (simp add: reads_ahead_def)
    have other: "m' a = m a" if "a \<notin> elem sz d ` {..<n}" for a unfolding m' by (rule for_each_other [OF that])
    have first: "m' (elem sz d i) = (if startIncl then startVal else startVal + step) + of_nat i * step" if "i < n" for i
      using val [OF that] by (simp add: idx_def algebra_simps)
    have total: "of_nat steps * step = endVal - startVal" using pos by (simp add: step_def)
    have last: "m' (elem sz d (n - 1)) = (if endIncl then endVal else endVal - step)"
    proof -
      have "idx + (n - 1) + (if endIncl then 0 else 1) = steps" using n by (auto simp: idx_def steps_def)
      then have "of_nat (idx + (n - 1)) * step + (if endIncl then 0 else step) = endVal - startVal"
        unfolding total [symmetric] by (auto simp: distrib_right algebra_simps simp flip: of_nat_add)
      then show ?thesis using val [of "n - 1"] n by (auto simp: algebra_simps)
    qed
    show ?thesis using c n False first last other by blast
  qed
qed

theorem vectorRamp_spec_witness:
  "fst (vectorRamp of_nat (1 / 2) 4 8 3 (0::real) 1 True True 0 (\<lambda>a. 7)) = noError \<and>
   snd (vectorRamp of_nat (1 / 2) 4 8 3 (0::real) 1 True True 0 (\<lambda>a. 7)) 16 = 1"
proof -
  have "(\<exists>step. (\<forall>i < 3. snd (vectorRamp of_nat (1 / 2) 4 8 3 (0::real) 1 True True 0 (\<lambda>a. 7)) (elem 4 8 i) = 0 + of_nat i * step) \<and>
        snd (vectorRamp of_nat (1 / 2) 4 8 3 (0::real) 1 True True 0 (\<lambda>a. 7)) (elem 4 8 (3 - 1)) = 1) \<and>
    fst (vectorRamp of_nat (1 / 2) 4 8 3 (0::real) 1 True True 0 (\<lambda>a. 7)) = noError"
    using vectorRamp_spec [of 4 3 8 0 "0::real" 1 True True "\<lambda>a. 7"] by (auto simp: prod_eq_iff)
  then show ?thesis by auto
qed

text \<open>The value in the middle is never the result.\<close>

lemma vectorRamp_single_not_middle:
  "snd (vectorRamp of_nat (1 / 2) 4 8 1 (0::real) 1 True True 0 (\<lambda>a. 7)) 8 = 0"
  by (simp add: vectorRamp_def checked_def Let_def)

lemma vectorRampScaling_outcome:
  assumes "0 < sz" "safe n (elem sz input) (elem sz d)" "safe n (elem sz ramp) (elem sz d)"
  shows "outcome sz al [input, ramp, d] n (elem sz d)
    (\<lambda>i. if accumulate then m (elem sz d i) + (baseGain + rampGain * m (elem sz ramp i)) * m (elem sz input i)
         else (baseGain + rampGain * m (elem sz ramp i)) * m (elem sz input i)) m
    (vectorRampScaling sz input ramp d baseGain rampGain n accumulate al m)"
proof (cases accumulate)
  case True
  then show ?thesis unfolding vectorRampScaling_def if_P [OF True]
    by (intro checked_for_each [OF inj_elem [OF assms(1)]])
      (simp only: read_safe [OF assms(2)] read_safe [OF assms(3)] read_own [OF assms(1)] if_True)
next
  case False
  then show ?thesis unfolding vectorRampScaling_def if_not_P [OF False]
    by (intro checked_for_each [OF inj_elem [OF assms(1)]])
      (simp only: read_safe [OF assms(2)] read_safe [OF assms(3)] if_False)
qed

end
