(* ===== verification/Flow_Execution.thy ===== *)
theory Flow_Execution
  imports Buffer_Assignment Vector_Functions
begin

text \<open>
  Processing one block of samples (\<open>src/librrl/audio_signal_flow.cpp\<close>): copying the captured
  samples into the buffers of the flow, executing the components in the order of the schedule,
  and copying the results out; the block counter of \<open>src/libvisr/impl/time_implementation.cpp\<close>.

  The atomic components of an application are not part of the framework. Their \<open>process()\<close> is
  the parameter \<open>exec\<close>: given the address of a component, the state of all objects outside the
  sample buffers, and the memory, it returns both or throws.
\<close>

section \<open>Time\<close>

record time_impl =
  tm_period :: size_t
  tm_samplingFrequency :: nat
  mBlockCounter :: size_t

definition blockCount :: "time_impl \<Rightarrow> size_t" where
  "blockCount t = mBlockCounter t"

definition sampleCount :: "time_impl \<Rightarrow> size_t" where
  "sampleCount t = mBlockCounter t * tm_period t"

definition renderingTime :: "time_impl \<Rightarrow> real" where
  "renderingTime t = real (unat (sampleCount t)) * (1 / real (tm_samplingFrequency t))"

definition resetCounter :: "time_impl \<Rightarrow> time_impl" where
  "resetCounter t = t\<lparr>mBlockCounter := 0\<rparr>"

definition advanceBlockCounter :: "time_impl \<Rightarrow> time_impl" where
  "advanceBlockCounter t = t\<lparr>mBlockCounter := mBlockCounter t + 1\<rparr>"

section \<open>Executing the schedule\<close>

record flow_object =
  fo_store :: store
  fo_period :: nat
  fo_infrastructure :: "routing_internal list"
  fo_captureChannels :: "nat list"
  fo_playbackChannels :: "nat list"
  mProcessingSchedule :: "nat list"

definition cVectorAlignmentSamples :: nat where
  "cVectorAlignmentSamples = cVectorAlignmentBytes div typeSize floatId"

definition port_size :: "store \<Rightarrow> nat \<Rightarrow> nat" where
  "port_size s p = typeSize (ap_sampleType (aport s p))"

definition routing_process :: "store \<Rightarrow> nat \<Rightarrow> routing_internal \<Rightarrow> 'a memory \<Rightarrow> exn + 'a memory" where
  "routing_process s period r m =
     foldE (\<lambda>m chIdx.
        let res = vectorCopy (port_size s (ri_output r))
                    (channel_address s (AudioChannel (ri_input r) (ri_indices r ! chIdx)))
                    (channel_address s (AudioChannel (ri_output r) chIdx)) period cVectorAlignmentSamples m
        in if fst res \<noteq> noError then Inl runtime_error else Inr (snd res))
       m [0..<length (ri_indices r)]"

type_synonym ('s, 'a) exec = "nat \<Rightarrow> 's \<times> 'a memory \<Rightarrow> exn + ('s \<times> 'a memory)"

text \<open>The virtual call: a component is either internal or one of the application.\<close>

definition process_component :: "('s, 'a) exec \<Rightarrow> flow_object \<Rightarrow> 's \<times> 'a memory \<Rightarrow> nat \<Rightarrow> exn + ('s \<times> 'a memory)" where
  "process_component exec fo st c =
     (case List.find (\<lambda>r. ri_component r = c) (fo_infrastructure fo) of
        Some r \<Rightarrow> bindE (routing_process (fo_store fo) (fo_period fo) r (snd st)) (\<lambda>m. Inr (fst st, m))
      | None \<Rightarrow> exec c st)"

text \<open>
  Every \<open>std::exception\<close> of a component becomes a \<open>std::runtime_error\<close>, other exceptions pass through the
  handler; the counter then stays.
\<close>

definition executeComponents ::
  "('s, 'a) exec \<Rightarrow> flow_object \<Rightarrow> ('s \<times> 'a memory) \<times> time_impl \<Rightarrow> exn + (('s \<times> 'a memory) \<times> time_impl)" where
  "executeComponents exec fo st =
     (case foldE (process_component exec fo) (fst st) (mProcessingSchedule fo) of
        Inl e \<Rightarrow> Inl (if std_exception e then runtime_error else e)
      | Inr st' \<Rightarrow> Inr (st', advanceBlockCounter (snd st)))"

section \<open>Processing a block\<close>

text \<open>One channel copied by \<open>process\<close>; \<open>SampleType\<close> is \<open>float\<close>.\<close>

definition copy_channel :: "nat \<Rightarrow> nat \<Rightarrow> nat \<Rightarrow> nat \<Rightarrow> nat \<Rightarrow> 'a memory \<Rightarrow> exn + 'a memory" where
  "copy_channel period src srcStride dest destStride m =
     (let res = vectorCopyStrided (typeSize floatId) src dest srcStride destStride period 0 m
      in if fst res \<noteq> noError then Inl runtime_error else Inr (snd res))"

definition copy_contiguous :: "nat \<Rightarrow> nat \<Rightarrow> nat \<Rightarrow> 'a memory \<Rightarrow> exn + 'a memory" where
  "copy_contiguous period src dest m =
     (let res = vectorCopy (typeSize floatId) src dest period 0 m
      in if fst res \<noteq> noError then Inl runtime_error else Inr (snd res))"

text \<open>The overload with one pointer for each channel.\<close>

definition process_pointers ::
  "('s, 'a) exec \<Rightarrow> flow_object \<Rightarrow> nat list \<Rightarrow> nat list \<Rightarrow> nat \<Rightarrow> nat \<Rightarrow> ('s \<times> 'a memory) \<times> time_impl
   \<Rightarrow> exn + (bool \<times> ('s \<times> 'a memory) \<times> time_impl)" where
  "process_pointers exec fo captureSamples playbackSamples captureStride playbackStride st =
     bindE (foldE (\<lambda>m chIdx.
              if captureStride = 1
              then copy_contiguous (fo_period fo) (captureSamples ! chIdx) (fo_captureChannels fo ! chIdx) m
              else copy_channel (fo_period fo) (captureSamples ! chIdx) captureStride
                     (fo_captureChannels fo ! chIdx) 1 m)
            (snd (fst st)) [0..<length (fo_captureChannels fo)]) (\<lambda>m.
     case executeComponents exec fo ((fst (fst st), m), snd st) of
       Inl e \<Rightarrow> Inl (if std_exception e then invalid_argument else e)
     | Inr st' \<Rightarrow>
         bindE (foldE (\<lambda>m chIdx.
                  if playbackStride = 1
                  then copy_contiguous (fo_period fo) (fo_playbackChannels fo ! chIdx) (playbackSamples ! chIdx) m
                  else copy_channel (fo_period fo) (fo_playbackChannels fo ! chIdx) 1
                         (playbackSamples ! chIdx) playbackStride m)
                (snd (fst st')) [0..<length (fo_playbackChannels fo)]) (\<lambda>m.
         Inr (True, (fst (fst st'), m), snd st')))"

text \<open>The overload with one pointer and strides for channels and samples.\<close>

definition process_strided ::
  "('s, 'a) exec \<Rightarrow> flow_object \<Rightarrow> nat \<Rightarrow> nat \<Rightarrow> nat \<Rightarrow> nat \<Rightarrow> nat \<Rightarrow> nat \<Rightarrow> ('s \<times> 'a memory) \<times> time_impl
   \<Rightarrow> exn + (('s \<times> 'a memory) \<times> time_impl)" where
  "process_strided exec fo captureSamples captureChannelStride captureSampleStride
       playbackSamples playbackChannelStride playbackSampleStride st =
     bindE (foldE (\<lambda>m chIdx.
              copy_channel (fo_period fo) (captureSamples + chIdx * captureChannelStride * typeSize floatId)
                captureSampleStride (fo_captureChannels fo ! chIdx) 1 m)
            (snd (fst st)) [0..<length (fo_captureChannels fo)]) (\<lambda>m.
     case executeComponents exec fo ((fst (fst st), m), snd st) of
       Inl e \<Rightarrow> Inl (if std_exception e then runtime_error else e)
     | Inr st' \<Rightarrow>
         bindE (foldE (\<lambda>m chIdx.
                  copy_channel (fo_period fo) (fo_playbackChannels fo ! chIdx) 1
                    (playbackSamples + chIdx * playbackChannelStride * typeSize floatId) playbackSampleStride m)
                (snd (fst st')) [0..<length (fo_playbackChannels fo)]) (\<lambda>m.
         Inr ((fst (fst st'), m), snd st')))"

section \<open>The channels of the top level\<close>

definition numberOfAudioPorts :: "nat list \<Rightarrow> nat" where
  "numberOfAudioPorts ports = length ports"

definition audioPortName :: "store \<Rightarrow> nat list \<Rightarrow> nat \<Rightarrow> exn + string" where
  "audioPortName s ports idx =
     (if numberOfAudioPorts ports \<le> idx then Inl out_of_range else Inr (ap_name (aport s (ports ! idx))))"

definition audioPortWidth :: "store \<Rightarrow> nat list \<Rightarrow> nat \<Rightarrow> exn + nat" where
  "audioPortWidth s ports idx =
     (if numberOfAudioPorts ports \<le> idx then Inl out_of_range else Inr (ap_width (aport s (ports ! idx))))"

definition audioPortOffset :: "store \<Rightarrow> nat list \<Rightarrow> nat \<Rightarrow> exn + nat" where
  "audioPortOffset s ports idx =
     (if numberOfAudioPorts ports \<le> idx then Inl out_of_range
      else Inr (fold (\<lambda>p acc. acc + ap_width (aport s p)) (take idx ports) 0))"

definition audioPortSampleType :: "store \<Rightarrow> nat list \<Rightarrow> nat \<Rightarrow> exn + sample_type" where
  "audioPortSampleType s ports idx =
     (if numberOfAudioPorts ports \<le> idx then Inl out_of_range else Inr (ap_sampleType (aport s (ports ! idx))))"

fun audioPortIndex_from :: "store \<Rightarrow> nat list \<Rightarrow> string \<Rightarrow> nat \<Rightarrow> exn + nat" where
  "audioPortIndex_from s [] nm idx = Inl out_of_range"
| "audioPortIndex_from s (p # ports) nm idx =
     (if ap_name (aport s p) = nm then Inr idx else audioPortIndex_from s ports nm (idx + 1))"

definition audioPortIndex :: "store \<Rightarrow> nat list \<Rightarrow> string \<Rightarrow> exn + nat" where
  "audioPortIndex s ports nm = audioPortIndex_from s ports nm 0"

section \<open>The cells of the channels\<close>

definition cells :: "store \<Rightarrow> nat \<Rightarrow> audio_channel \<Rightarrow> nat set" where
  "cells s period a = (\<lambda>i. channel_address s a + i * port_size s (port a)) ` {..<period}"

definition channels :: "store \<Rightarrow> direction \<Rightarrow> nat \<Rightarrow> audio_channel set" where
  "channels s d c =
     {a. port a \<in> set (c_audioPorts (comp s c)) \<and> ap_direction (aport s (port a)) = d \<and>
        channel a < widths s (port a)}"

definition written_cells :: "store \<Rightarrow> nat \<Rightarrow> nat \<Rightarrow> nat set" where
  "written_cells s period c = \<Union> (cells s period ` channels s Output c)"

text \<open>The input channels a component reads: the internal ones read only those they route.\<close>

definition used_inputs :: "flow_object \<Rightarrow> nat \<Rightarrow> audio_channel set" where
  "used_inputs fo c =
     (case List.find (\<lambda>r. ri_component r = c) (fo_infrastructure fo) of
        Some r \<Rightarrow> AudioChannel (ri_input r) ` set (ri_indices r)
      | None \<Rightarrow> channels (fo_store fo) Input c)"

definition read_cells :: "flow_object \<Rightarrow> nat \<Rightarrow> nat set" where
  "read_cells fo c = \<Union> (cells (fo_store fo) (fo_period fo) ` used_inputs fo c)"

text \<open>
  A flow that is ready to run: the buffers are laid out as by
  \<^const>\<open>initialiseAudioConnections\<close>, the schedule lists atomic components once and puts senders
  before receivers, every channel that a scheduled component reads is its own and has a sender,
  and every output port of one sends.
\<close>

definition ready :: "flow_object \<Rightarrow> acmap \<Rightarrow> bool" where
  "ready fo conns \<longleftrightarrow>
     (let s = fo_store fo; sched = mProcessingSchedule fo
      in buffers_shared s conns \<and> buffers_disjoint (fo_period fo) s conns \<and> distinct sched \<and>
         (\<forall>c \<in> set sched. \<not> c_composite (comp s c) \<and>
            (\<forall>p \<in> set (c_audioPorts (comp s c)). ap_parent (aport s p) = Some c)) \<and>
         (\<forall>c \<in> set sched. \<forall>b \<in> used_inputs fo c. audio_owner s b = c \<and>
            (\<exists>a. (a, b) \<in> set conns \<and> channel a < widths s (port a))) \<and>
         (\<forall>c \<in> set sched. \<forall>a \<in> channels s Output c. port a \<in> sending_ports conns) \<and>
         (\<forall>d e. (d, e) \<in> dependency s conns [] \<and> e \<in> set sched \<longrightarrow> before sched d e))"

lemma readyD:
  assumes "ready fo conns"
  shows "buffers_shared (fo_store fo) conns" "buffers_disjoint (fo_period fo) (fo_store fo) conns"
    and "distinct (mProcessingSchedule fo)"
    and "c \<in> set (mProcessingSchedule fo) \<Longrightarrow> \<not> c_composite (comp (fo_store fo) c)"
    and "c \<in> set (mProcessingSchedule fo) \<Longrightarrow> p \<in> set (c_audioPorts (comp (fo_store fo) c)) \<Longrightarrow>
      ap_parent (aport (fo_store fo) p) = Some c"
    and "c \<in> set (mProcessingSchedule fo) \<Longrightarrow> b \<in> used_inputs fo c \<Longrightarrow> audio_owner (fo_store fo) b = c \<and>
      (\<exists>a. (a, b) \<in> set conns \<and> channel a < widths (fo_store fo) (port a))"
    and "c \<in> set (mProcessingSchedule fo) \<Longrightarrow> a \<in> channels (fo_store fo) Output c \<Longrightarrow> port a \<in> sending_ports conns"
    and "(d, e) \<in> dependency (fo_store fo) conns [] \<Longrightarrow> e \<in> set (mProcessingSchedule fo) \<Longrightarrow>
      before (mProcessingSchedule fo) d e"
  using assms unfolding ready_def Let_def by blast+

lemma cells_shared:
  assumes "buffers_shared s conns" "(a, b) \<in> set conns"
  shows "cells s period a = cells s period b"
  using assms unfolding buffers_shared_def cells_def port_size_def by fastforce

lemma cells_disjoint:
  assumes dj: "buffers_disjoint period s conns"
    and p: "port a \<in> sending_ports conns" "port b \<in> sending_ports conns"
    and ch: "channel a < widths s (port a)" "channel b < widths s (port b)"
    and x: "x \<in> cells s period a" "x \<in> cells s period b"
  shows "a = b"
proof (rule ccontr)
  assume "a \<noteq> b"
  then have d: "channel_address s a + block_bytes period s a \<le> channel_address s b \<or>
      channel_address s b + block_bytes period s b \<le> channel_address s a"
    using dj p ch unfolding buffers_disjoint_def by blast
  have in_block: "channel_address s c \<le> x \<and> x < channel_address s c + block_bytes period s c"
    if c: "x \<in> cells s period c" for c
  proof -
    obtain i where i: "i < period" "x = channel_address s c + i * port_size s (port c)" using c by (auto simp: cells_def)
    have "0 < port_size s (port c)" by (simp add: port_size_def typeSize_pos)
    then show ?thesis using i by (simp add: block_bytes_def port_size_def)
  qed
  show False using d in_block [OF x(1)] in_block [OF x(2)] by auto
qed

lemma before_distinct: "distinct xs \<Longrightarrow> xs = ys @ c # zs \<Longrightarrow> before xs d c \<Longrightarrow> d \<in> set ys"
proof -
  assume d: "distinct xs" and xs: "xs = ys @ c # zs" and "before xs d c"
  then obtain us vs where u: "xs = us @ d # vs" "c \<in> set vs" by (auto simp: before_def)
  have "c \<noteq> d" using u d by auto
  from xs u(1) have "ys @ c # zs = us @ d # vs" by simp
  then show "d \<in> set ys"
    unfolding append_eq_append_conv2
  proof (elim exE disjE conjE)
    fix w assume "ys = us @ w" "w @ c # zs = d # vs"
    then show ?thesis using \<open>c \<noteq> d\<close> by (cases w) auto
  next
    fix w assume w: "ys @ w = us" "c # zs = w @ d # vs"
    then obtain w' where "w = c # w'" using \<open>c \<noteq> d\<close> by (cases w) auto
    then show ?thesis using w(1) u d by auto
  qed
qed

text \<open>What a schedule leaves of a cell that the remaining components do not write.\<close>

lemma schedule_keeps:
  assumes "foldE step u zs = Inr v"
    and "\<And>d p q. d \<in> set zs \<Longrightarrow> step p d = Inr q \<Longrightarrow> snd q x = snd p x"
  shows "snd v x = snd u x"
  using assms
proof (induction zs arbitrary: u)
  case (Cons z zs)
  then obtain w where "step u z = Inr w" "foldE step w zs = Inr v" by auto
  then show ?case using Cons.IH [of w] Cons.prems(2) by (metis list.set_intros)
qed simp

text \<open>
  What the documentation asks of an atomic component: it writes to its own outputs only.
\<close>

definition writes_own :: "('s, 'a) exec \<Rightarrow> flow_object \<Rightarrow> bool" where
  "writes_own exec fo \<longleftrightarrow>
     (\<forall>c st st' x. exec c st = Inr st' \<and> x \<notin> written_cells (fo_store fo) (fo_period fo) c \<longrightarrow>
        snd st' x = snd st x)"

text \<open>The internal routing component does so, and copies the selected inputs.\<close>

definition routing_wired :: "flow_object \<Rightarrow> bool" where
  "routing_wired fo \<longleftrightarrow>
     (\<forall>r \<in> set (fo_infrastructure fo).
        ri_output r \<in> set (c_audioPorts (comp (fo_store fo) (ri_component r))) \<and>
        ap_direction (aport (fo_store fo) (ri_output r)) = Output \<and>
        length (ri_indices r) \<le> widths (fo_store fo) (ri_output r))"

lemma stored_other: "stored n dest g m m' \<Longrightarrow> x \<notin> dest ` {..<n} \<Longrightarrow> m' x = m x"
  by (simp add: stored_def)

lemma vectorCopy_other:
  assumes "vectorCopy sz src dest n al m = (code, m')" "x \<notin> (\<lambda>i. dest + i * sz) ` {..<n}"
  shows "m' x = m x"
  using assms for_each_other [OF assms(2)] by (auto simp: vectorCopy_def checked_def split: if_splits)

lemma routing_process_other:
  assumes "routing_process s period r m = Inr m'"
    and "\<And>j. j < length (ri_indices r) \<Longrightarrow> x \<notin> cells s period (AudioChannel (ri_output r) j)"
  shows "m' x = m x"
proof -
  let ?step = "\<lambda>m chIdx. let res = vectorCopy (port_size s (ri_output r))
                    (channel_address s (AudioChannel (ri_input r) (ri_indices r ! chIdx)))
                    (channel_address s (AudioChannel (ri_output r) chIdx)) period cVectorAlignmentSamples m
        in if fst res \<noteq> noError then Inl runtime_error else Inr (snd res)"
  have "foldE ?step m [0..<length (ri_indices r)] = Inr m'" using assms(1) by (simp add: routing_process_def)
  then show ?thesis
  proof (rule foldE_invariant [where P = "\<lambda>m'. m' x = m x"])
    fix u chIdx u' assume "chIdx \<in> set [0..<length (ri_indices r)]" "u x = m x" "?step u chIdx = Inr u'"
    then show "u' x = m x"
      using assms(2) [of chIdx] vectorCopy_other [of "port_size s (ri_output r)" _ _ period cVectorAlignmentSamples u _ u' x]
      by (auto simp: Let_def cells_def prod_eq_iff split: if_splits)
  qed simp
qed

lemma process_component_other:
  assumes own: "writes_own exec fo" and wired: "routing_wired fo"
    and step: "process_component exec fo st c = Inr st'"
    and x: "x \<notin> written_cells (fo_store fo) (fo_period fo) c"
  shows "snd st' x = snd st x"
proof (cases "List.find (\<lambda>r. ri_component r = c) (fo_infrastructure fo)")
  case None
  then have "exec c st = Inr st'" using step by (simp add: process_component_def)
  then show ?thesis using own x unfolding writes_own_def by blast
next
  case (Some r)
  then have r: "r \<in> set (fo_infrastructure fo)" "ri_component r = c" using find_SomeD by fast+
  obtain m where m: "routing_process (fo_store fo) (fo_period fo) r (snd st) = Inr m" "st' = (fst st, m)"
    using step Some by (auto simp: process_component_def)
  have "m x = snd st x"
  proof (rule routing_process_other [OF m(1)])
    fix j assume "j < length (ri_indices r)"
    then have "AudioChannel (ri_output r) j \<in> channels (fo_store fo) Output c"
      using wired r unfolding routing_wired_def channels_def by fastforce
    then show "x \<notin> cells (fo_store fo) (fo_period fo) (AudioChannel (ri_output r) j)"
      using x unfolding written_cells_def by blast
  qed
  then show ?thesis using m(2) by simp
qed

lemma no_later_writer:
  assumes rd: "ready fo conns" and sched: "mProcessingSchedule fo = ys @ c # zs"
    and x: "x \<in> read_cells fo c" and d: "d \<in> set (c # zs)"
  shows "x \<notin> written_cells (fo_store fo) (fo_period fo) d"
proof
  let ?s = "fo_store fo"
  note R = readyD [OF rd]
  have in_sched: "c \<in> set (mProcessingSchedule fo)" "d \<in> set (mProcessingSchedule fo)" using sched d by auto
  assume "x \<in> written_cells ?s (fo_period fo) d"
  then obtain w where w: "w \<in> channels ?s Output d" "x \<in> cells ?s (fo_period fo) w" by (auto simp: written_cells_def)
  obtain b where b: "b \<in> used_inputs fo c" "x \<in> cells ?s (fo_period fo) b" using x by (auto simp: read_cells_def)
  obtain a where a: "(a, b) \<in> set conns" "channel a < widths ?s (port a)" using R(6) [OF in_sched(1) b(1)] by blast
  have xa: "x \<in> cells ?s (fo_period fo) a" using cells_shared [OF R(1) a(1)] b(2) by simp
  have pa: "port a \<in> sending_ports conns" using a(1) by (force simp: sending_ports_def)
  have "channel w < widths ?s (port w)" using w(1) by (simp add: channels_def)
  then have "w = a" using cells_disjoint [OF R(2) R(7) [OF in_sched(2) w(1)] pa _ a(2) w(2) xa] by simp
  have "audio_owner ?s a = d" "audio_owner ?s b = c"
    using R(5) [OF in_sched(2)] R(6) [OF in_sched(1) b(1)] w(1) \<open>w = a\<close>
    by (auto simp: channels_def audio_owner_def)
  then have "(d, c) \<in> dependency ?s conns []" using a(1) R(4) [OF in_sched(2)] by (force simp: dependency_def)
  then have "d \<in> set ys" using R(8) in_sched(1) before_distinct [OF R(3) sched] by blast
  then show False using d R(3) sched by auto
qed

lemma disjoint_writers:
  assumes rd: "ready fo conns" and sched: "c \<in> set (mProcessingSchedule fo)" "d \<in> set (mProcessingSchedule fo)" "c \<noteq> d"
  shows "written_cells (fo_store fo) (fo_period fo) c \<inter> written_cells (fo_store fo) (fo_period fo) d = {}"
proof (rule ccontr)
  let ?s = "fo_store fo"
  note R = readyD [OF rd]
  assume "written_cells ?s (fo_period fo) c \<inter> written_cells ?s (fo_period fo) d \<noteq> {}"
  then obtain x v w where x: "v \<in> channels ?s Output c" "x \<in> cells ?s (fo_period fo) v"
      "w \<in> channels ?s Output d" "x \<in> cells ?s (fo_period fo) w" unfolding written_cells_def by blast
  have "v = w"
    using cells_disjoint [OF R(2) R(7) [OF sched(1) x(1)] R(7) [OF sched(2) x(3)] _ _ x(2,4)] x(1,3)
    by (simp add: channels_def)
  moreover have "ap_parent (aport ?s (port v)) = Some c" "ap_parent (aport ?s (port w)) = Some d"
    using R(5) [OF sched(1)] R(5) [OF sched(2)] x(1,3) by (simp_all add: channels_def)
  ultimately show False using sched(3) by simp
qed

text \<open>
  An example: the two components of \<^const>\<open>ex_chain\<close>, each adding 1 to its input.
\<close>

definition ex_flow :: flow_object where
  "ex_flow = \<lparr>fo_store = ex_chain\<lparr>aports := [
      10 \<mapsto> (ex_audio_port ''in'' 0 Input)\<lparr>ap_base := Some 64, ap_stride := 16\<rparr>,
      11 \<mapsto> (ex_audio_port ''out'' 0 Output)\<lparr>ap_base := Some 192, ap_stride := 16\<rparr>,
      12 \<mapsto> (ex_audio_port ''in'' 1 Input)\<lparr>ap_base := Some 320, ap_stride := 16\<rparr>,
      13 \<mapsto> (ex_audio_port ''out'' 1 Output)\<lparr>ap_base := Some 192, ap_stride := 16\<rparr>,
      14 \<mapsto> (ex_audio_port ''in'' 2 Input)\<lparr>ap_base := Some 64, ap_stride := 16\<rparr>,
      15 \<mapsto> (ex_audio_port ''out'' 2 Output)\<lparr>ap_base := Some 320, ap_stride := 16\<rparr>]\<rparr>,
    fo_period = 2, fo_infrastructure = [], fo_captureChannels = [64, 128],
    fo_playbackChannels = [192, 256], mProcessingSchedule = [2, 1]\<rparr>"

definition ex_exec :: "(unit, int) exec" where
  "ex_exec c st =
     (if c = 1 then Inr ((), (snd st)(192 := snd st 320 + 1, 196 := snd st 324 + 1,
                                      256 := snd st 384 + 1, 260 := snd st 388 + 1))
      else if c = 2 then Inr ((), (snd st)(320 := snd st 64 + 1, 324 := snd st 68 + 1,
                                           384 := snd st 128 + 1, 388 := snd st 132 + 1))
      else Inl logic_error)"


lemma ex_flow_layout:
  "case initialiseAudioConnections ex_placement 2 64 ex_chain ex_chain_map of
     Inl e \<Rightarrow> False
   | Inr r \<Rightarrow> mCaptureChannels r = fo_captureChannels ex_flow \<and> mPlaybackChannels r = fo_playbackChannels ex_flow \<and>
       finalConnections r = ex_chain_map \<and>
       map (aport (as_store r)) [10, 11, 12, 13, 14, 15] = map (aport (fo_store ex_flow)) [10, 11, 12, 13, 14, 15]"
  by code_simp

lemma ex_chain_cases: "(a, b) \<in> set ex_chain_map \<Longrightarrow>
    a = AudioChannel 10 0 \<and> b = AudioChannel 14 0 \<or> a = AudioChannel 10 1 \<and> b = AudioChannel 14 1 \<or>
    a = AudioChannel 13 0 \<and> b = AudioChannel 11 0 \<or> a = AudioChannel 13 1 \<and> b = AudioChannel 11 1 \<or>
    a = AudioChannel 15 0 \<and> b = AudioChannel 12 0 \<or> a = AudioChannel 15 1 \<and> b = AudioChannel 12 1"
  by (auto simp: ex_chain_map_def)

lemma ex_ready: "ready ex_flow ex_chain_map"
proof -
  let ?s = "fo_store ex_flow"
  have ports: "sending_ports ex_chain_map = {10, 13, 15}"
    by (auto simp: sending_ports_def ex_chain_map_def)
  have w: "widths ?s p = 2" if "p \<in> {10, 11, 12, 13, 14, 15}" for p
    using that by (auto simp: widths_def ex_flow_def ex_audio_port_def)
  have "buffers_shared ?s ex_chain_map"
    unfolding buffers_shared_def
    by (auto simp: ex_chain_map_def channel_address_def basePointer_def channelStrideBytes_def ex_flow_def ex_audio_port_def)
  moreover have "buffers_disjoint (fo_period ex_flow) ?s ex_chain_map"
    unfolding buffers_disjoint_def ports
  proof (intro allI impI, elim conjE)
    have addr: "channel_address ?s a = (if port a = 10 then 64 else if port a = 13 then 192 else 320) + 64 * channel a"
        "block_bytes (fo_period ex_flow) ?s a = 8" if "port a \<in> {10, 13, 15}" for a
      using that by (auto simp: channel_address_def block_bytes_def basePointer_def channelStrideBytes_def
          ex_flow_def ex_audio_port_def)
    fix a b assume ab: "port a \<in> {10, 13, 15}" "port b \<in> {10, 13, 15}"
      "channel a < widths ?s (port a)" "channel b < widths ?s (port b)" "a \<noteq> b"
    have "channel a < 2" "channel b < 2" using ab(1-4) w [of "port a"] w [of "port b"] by auto
    moreover have "port a \<noteq> port b \<or> channel a \<noteq> channel b" using ab(5) audio_channel.expand by blast
    ultimately show "channel_address ?s a + block_bytes (fo_period ex_flow) ?s a \<le> channel_address ?s b \<or>
        channel_address ?s b + block_bytes (fo_period ex_flow) ?s b \<le> channel_address ?s a"
      unfolding addr [OF ab(1)] addr [OF ab(2)] using ab(1,2) by auto
  qed
  moreover have "audio_owner ?s b = c \<and> (\<exists>a. (a, b) \<in> set ex_chain_map \<and> channel a < widths ?s (port a))"
    if "c \<in> set (mProcessingSchedule ex_flow)" "b \<in> used_inputs ex_flow c" for b c
  proof -
    have used: "used_inputs ex_flow d = channels ?s Input d" for d by (simp add: used_inputs_def ex_flow_def)
    have c: "c = 2 \<or> c = 1" using that(1) by (simp add: ex_flow_def)
    have p: "port b \<in> {12, 14}" "channel b < widths ?s (port b)" "audio_owner ?s b = c"
      using that(2) c unfolding used by (auto simp: channels_def audio_owner_def ex_flow_def ex_chain_def ex_audio_port_def)
    then have "channel b = 0 \<or> channel b = 1" using w [of "port b"] by auto
    then have "b \<in> {AudioChannel 12 0, AudioChannel 12 1, AudioChannel 14 0, AudioChannel 14 1}"
      using p(1) by (cases b) auto
    then have "\<exists>a. (a, b) \<in> set ex_chain_map \<and> channel a < widths ?s (port a)"
      by (elim insertE emptyE) (simp_all add: ex_chain_map_def w conj_disj_distribR ex_disj_distrib)
    then show ?thesis using p(3) by simp
  qed
  moreover have "port a \<in> sending_ports ex_chain_map"
    if "c \<in> set (mProcessingSchedule ex_flow)" "a \<in> channels ?s Output c" for a c
    using that unfolding ports by (auto simp: channels_def ex_flow_def ex_chain_def ex_audio_port_def)
  moreover have "before (mProcessingSchedule ex_flow) d e"
    if "(d, e) \<in> dependency ?s ex_chain_map []" "e \<in> set (mProcessingSchedule ex_flow)" for d e
  proof -
    have "d = 2" "e = 1"
      using that by (auto simp: dependency_def ex_chain_map_def audio_owner_def ex_flow_def ex_chain_def ex_audio_port_def)
    moreover have "before [2, 1] (2 :: nat) 1"
      unfolding before_def by (rule exI [of _ "[]"]) simp
    ultimately show ?thesis by (simp add: ex_flow_def)
  qed
  moreover have "distinct (mProcessingSchedule ex_flow)" by (simp add: ex_flow_def)
  moreover have "\<not> c_composite (comp ?s c) \<and> (\<forall>p \<in> set (c_audioPorts (comp ?s c)). ap_parent (aport ?s p) = Some c)"
    if "c \<in> set (mProcessingSchedule ex_flow)" for c
    using that by (auto simp: ex_flow_def ex_chain_def ex_audio_port_def)
  ultimately show ?thesis unfolding ready_def Let_def by blast
qed


lemma ex_writes_own: "writes_own ex_exec ex_flow"
proof -
  have ch: "channels (fo_store ex_flow) Output 1 = {AudioChannel 13 0, AudioChannel 13 1}"
      "channels (fo_store ex_flow) Output 2 = {AudioChannel 15 0, AudioChannel 15 1}"
    by (auto simp: channels_def ex_flow_def ex_chain_def ex_audio_port_def widths_def less_2_cases_iff
        split: if_splits intro: audio_channel.expand)
  have two: "{..<2} = {0, 1 :: nat}" by auto
  have "written_cells (fo_store ex_flow) (fo_period ex_flow) 1 = {192, 196, 256, 260}"
      "written_cells (fo_store ex_flow) (fo_period ex_flow) 2 = {320, 324, 384, 388}"
    unfolding written_cells_def ch
    by (auto simp: cells_def ex_flow_def channel_address_def basePointer_def channelStrideBytes_def
        port_size_def ex_audio_port_def two)
  then show ?thesis unfolding writes_own_def by (auto simp: ex_exec_def split: if_splits)
qed

lemma ex_routing_wired: "routing_wired ex_flow"
  by (simp add: routing_wired_def ex_flow_def)

definition ex_time :: time_impl where
  "ex_time = \<lparr>tm_period = 2, tm_samplingFrequency = 48000, mBlockCounter = 0\<rparr>"

definition ex_memory :: "int memory" where
  "ex_memory = (\<lambda>a. int a)"

definition ex_result :: "(unit \<times> int memory) \<times> time_impl" where
  "ex_result = (case executeComponents ex_exec ex_flow (((), ex_memory), ex_time) of Inr r \<Rightarrow> r)"

lemma ex_executes: "executeComponents ex_exec ex_flow (((), ex_memory), ex_time) = Inr ex_result"
  by (simp add: ex_result_def executeComponents_def ex_flow_def process_component_def ex_exec_def)

text \<open>The routing component copies the channels it routes.\<close>

lemma routing_process_copies:
  assumes run: "routing_process s period q m = Inr m'" and j: "j < length (ri_indices q)" and i: "i < period"
    and ty: "port_size s (ri_input q) = port_size s (ri_output q)"
    and apart: "\<And>k. k < length (ri_indices q) \<Longrightarrow>
      cells s period (AudioChannel (ri_input q) (ri_indices q ! j)) \<inter> cells s period (AudioChannel (ri_output q) k) = {}"
    and outs: "\<And>k. k < length (ri_indices q) \<Longrightarrow> k \<noteq> j \<Longrightarrow>
      cells s period (AudioChannel (ri_output q) j) \<inter> cells s period (AudioChannel (ri_output q) k) = {}"
  shows "m' (channel_address s (AudioChannel (ri_output q) j) + i * port_size s (ri_output q)) =
    m (channel_address s (AudioChannel (ri_input q) (ri_indices q ! j)) + i * port_size s (ri_input q))"
proof -
  let ?sz = "port_size s (ri_output q)" and ?n = "length (ri_indices q)"
  let ?src = "\<lambda>k. channel_address s (AudioChannel (ri_input q) (ri_indices q ! k))"
  let ?dst = "\<lambda>k. channel_address s (AudioChannel (ri_output q) k)"
  let ?step = "\<lambda>m chIdx. let res = vectorCopy ?sz (?src chIdx) (?dst chIdx) period cVectorAlignmentSamples m
        in if fst res \<noteq> noError then Inl runtime_error else Inr (snd res)"
  have out: "cells s period (AudioChannel (ri_output q) k) = (\<lambda>i. ?dst k + i * ?sz) ` {..<period}" for k
    by (simp add: cells_def)
  have keep: "w x = u x" if "foldE ?step u ks = Inr w" "set ks \<subseteq> {..<?n}"
      "\<And>k. k \<in> set ks \<Longrightarrow> x \<notin> cells s period (AudioChannel (ri_output q) k)" for u w ks x
    using that(1)
  proof (rule foldE_invariant [where P = "\<lambda>w. w x = u x"])
    fix u' k w' assume "k \<in> set ks" "u' x = u x" "?step u' k = Inr w'"
    then show "w' x = u x"
      using that(3) [of k] vectorCopy_other [of ?sz "?src k" "?dst k" period cVectorAlignmentSamples u' _ w' x]
      unfolding out by (auto simp: Let_def prod_eq_iff split: if_splits)
  qed simp
  have split: "[0..<?n] = [0..<j] @ j # [Suc j..<?n]" using j upt_add_eq_append [of 0 j "?n - j"] by (simp add: upt_conv_Cons)
  obtain u v where uv: "foldE ?step m [0..<j] = Inr u" "?step u j = Inr v" "foldE ?step v [Suc j..<?n] = Inr m'"
    using run unfolding routing_process_def split by (auto simp: foldE_append)
  let ?x = "?dst j + i * ?sz" and ?y = "?src j + i * port_size s (ri_input q)"
  have x: "?x \<in> cells s period (AudioChannel (ri_output q) j)" using i by (auto simp: cells_def)
  have y: "?y \<in> cells s period (AudioChannel (ri_input q) (ri_indices q ! j))" using i by (auto simp: cells_def)
  have outs': "?x \<notin> cells s period (AudioChannel (ri_output q) k)" if "k < ?n" "k \<noteq> j" for k
    using outs [OF that] x by blast
  have apart': "?y \<notin> cells s period (AudioChannel (ri_output q) k)" if "k < ?n" for k
    using apart [OF that] y by blast
  have "m' ?x = v ?x" by (rule keep [OF uv(3)]) (use outs' in auto)
  also have "v ?x = u ?y"
  proof -
    have "0 < ?sz" by (simp add: port_size_def typeSize_pos)
    moreover have "safe period (elem ?sz (?src j)) (elem ?sz (?dst j))"
      using apart [OF j] ty by (intro safe_disjoint) (simp add: cells_def)
    ultimately have "outcome ?sz cVectorAlignmentSamples [?src j, ?dst j] period (elem ?sz (?dst j)) (\<lambda>i. u (elem ?sz (?src j) i)) u
        (vectorCopy ?sz (?src j) (?dst j) period cVectorAlignmentSamples u)" by (rule vectorCopy_outcome)
    then show ?thesis using uv(2) i ty by (auto simp: outcome_def stored_def Let_def split: if_splits)
  qed
  also have "u ?y = m ?y" by (rule keep [OF uv(1)]) (use apart' j in auto)
  finally show ?thesis .
qed

text \<open>
  The run of a block, seen from one component: what it reads and what it writes is what the
  memory holds at the end.
\<close>

lemma block_trace:
  assumes "ready fo conns" and "writes_own exec fo" and "routing_wired fo"
    and "executeComponents exec fo (st, t) = Inr (st', t')"
    and "mProcessingSchedule fo = ys @ c # zs"
  shows "\<exists>u v. foldE (process_component exec fo) st ys = Inr u \<and> process_component exec fo u c = Inr v \<and>
    foldE (process_component exec fo) v zs = Inr st' \<and>
    (\<forall>x \<in> read_cells fo c. snd u x = snd st' x) \<and>
    (\<forall>x \<in> written_cells (fo_store fo) (fo_period fo) c. snd v x = snd st' x) \<and>
    t' = advanceBlockCounter t"
proof -
  let ?step = "process_component exec fo"
  have run: "foldE ?step st (ys @ c # zs) = Inr st'" and t': "t' = advanceBlockCounter t"
    using assms(4,5) by (auto simp: executeComponents_def split: sum.splits)
  then obtain u v where uv: "foldE ?step st ys = Inr u" "?step u c = Inr v" "foldE ?step v zs = Inr st'"
    by (auto simp: foldE_append)
  note keep = process_component_other [OF assms(2,3)]
  have "snd u x = snd st' x" if x: "x \<in> read_cells fo c" for x
  proof -
    have no: "x \<notin> written_cells (fo_store fo) (fo_period fo) d" if "d \<in> set (c # zs)" for d
      by (rule no_later_writer [OF assms(1,5) x that])
    have "snd st' x = snd v x" by (rule schedule_keeps [OF uv(3)]) (use keep no in auto)
    also have "\<dots> = snd u x" using keep [OF uv(2)] no by simp
    finally show ?thesis by simp
  qed
  moreover have "snd v x = snd st' x" if x: "x \<in> written_cells (fo_store fo) (fo_period fo) c" for x
  proof -
    have no: "x \<notin> written_cells (fo_store fo) (fo_period fo) d" if d: "d \<in> set zs" for d
    proof -
      have "c \<noteq> d" using readyD(3) [OF assms(1)] assms(5) d by auto
      then show ?thesis using disjoint_writers [OF assms(1), of c d] assms(5) d x by auto
    qed
    have "snd st' x = snd v x" by (rule schedule_keeps [OF uv(3)]) (use keep no in auto)
    then show ?thesis by simp
  qed
  ultimately show ?thesis using uv t' by blast
qed

text \<open>
  C4 (block_dataflow): when a block is processed, every component runs once, reads on each of its
  inputs the samples that its sender produces for this block (they are the samples found there at
  the end of the block), its own outputs are not touched by any other component, and the block
  counter advances by one. Relied upon: the components write to their own outputs only.
\<close>

theorem block_dataflow:
  assumes "ready fo conns" and "writes_own exec fo" and "routing_wired fo"
    and "executeComponents exec fo (st, t) = Inr (st', t')"
    and "mProcessingSchedule fo = ys @ c # zs"
  shows "\<exists>u v. foldE (process_component exec fo) st ys = Inr u \<and> process_component exec fo u c = Inr v \<and>
    foldE (process_component exec fo) v zs = Inr st' \<and>
    (\<forall>x \<in> read_cells fo c. snd u x = snd st' x) \<and>
    (\<forall>x \<in> written_cells (fo_store fo) (fo_period fo) c. snd v x = snd st' x) \<and>
    t' = advanceBlockCounter t"
  by (rule block_trace [OF assms])

theorem block_dataflow_witness:
  "snd (fst ex_result) 192 = snd (fst ex_result) 320 + 1 \<and> mBlockCounter (snd ex_result) = 1"
proof -
  have s: "mProcessingSchedule ex_flow = [2] @ 1 # []" by (simp add: ex_flow_def)
  have run: "executeComponents ex_exec ex_flow (((), ex_memory), ex_time) = Inr (fst ex_result, snd ex_result)"
    using ex_executes by simp
  obtain u v where uv: "process_component ex_exec ex_flow u 1 = Inr v"
      "\<forall>x \<in> read_cells ex_flow 1. snd u x = snd (fst ex_result) x"
      "\<forall>x \<in> written_cells (fo_store ex_flow) (fo_period ex_flow) 1. snd v x = snd (fst ex_result) x"
      "snd ex_result = advanceBlockCounter ex_time"
    using block_dataflow [OF ex_ready ex_writes_own ex_routing_wired run s] by blast
  have r: "AudioChannel 12 0 \<in> channels (fo_store ex_flow) Input 1" "AudioChannel 13 0 \<in> channels (fo_store ex_flow) Output 1"
    by (simp_all add: channels_def ex_flow_def ex_chain_def ex_audio_port_def widths_def)
  have "320 \<in> cells (fo_store ex_flow) (fo_period ex_flow) (AudioChannel 12 0)"
      "192 \<in> cells (fo_store ex_flow) (fo_period ex_flow) (AudioChannel 13 0)"
    by (auto simp: cells_def ex_flow_def channel_address_def basePointer_def ex_audio_port_def intro!: image_eqI [of _ _ 0])
  moreover have "used_inputs ex_flow 1 = channels (fo_store ex_flow) Input 1" by (simp add: used_inputs_def ex_flow_def)
  ultimately have "320 \<in> read_cells ex_flow 1"
      "192 \<in> written_cells (fo_store ex_flow) (fo_period ex_flow) 1"
    using r unfolding read_cells_def written_cells_def by blast+
  moreover have "snd v 192 = snd u 320 + 1"
    using uv(1) by (auto simp: process_component_def ex_flow_def ex_exec_def)
  ultimately show ?thesis using uv(2-4) by (simp add: advanceBlockCounter_def ex_time_def)
qed

end
