(* ===== verification/Parameter_Graph.thy ===== *)
theory Parameter_Graph
  imports Parameter_Connections
begin

text \<open>
  The groups of parameter ports that one protocol object has to connect
  (\<open>src/librrl/parameter_connection_graph.cpp\<close>): the connected components of the undirected graph
  whose edges are the parameter connections. The connections are those of
  \<^typ>\<open>pcmap\<close>, from the receiving to the sending port. The Boost function
  \<open>connected_components\<close> is a parameter with its documented contract.
\<close>

section \<open>The graph\<close>

record connected_ports =
  mSendPorts :: "nat list"
  mReceivePorts :: "nat list"

definition numSenders :: "connected_ports \<Rightarrow> nat" where
  "numSenders c = length (mSendPorts c)"

text \<open>As in the header: the function returns the number of senders.\<close>

definition numReceivers :: "connected_ports \<Rightarrow> nat" where
  "numReceivers c = length (mSendPorts c)"

record param_graph =
  pg_ports :: "nat list"
  mVertexLookup :: "(nat \<times> nat) list"
  pg_edges :: "(nat \<times> nat) list"

text \<open>The vertex of a port, which is added if the port has none.\<close>

definition lookupVertex :: "nat \<Rightarrow> param_graph \<Rightarrow> param_graph" where
  "lookupVertex p g =
     (case map_of (mVertexLookup g) p of
        Some v \<Rightarrow> g
      | None \<Rightarrow> g\<lparr>pg_ports := pg_ports g @ [p],
                  mVertexLookup := map_insert p (length (pg_ports g)) (mVertexLookup g)\<rparr>)"

definition addConnection :: "param_graph \<Rightarrow> nat \<times> nat \<Rightarrow> exn + param_graph" where
  "addConnection g connection =
     (let g' = lookupVertex (fst connection) (lookupVertex (snd connection) g);
          senderVertex = the (map_of (mVertexLookup g') (snd connection));
          receiverVertex = the (map_of (mVertexLookup g') (fst connection))
      in if (senderVertex, receiverVertex) \<in> set (pg_edges g') \<or> (receiverVertex, senderVertex) \<in> set (pg_edges g')
         then Inl logic_error
         else Inr (g'\<lparr>pg_edges := pg_edges g' @ [(senderVertex, receiverVertex)]\<rparr>))"

definition receiving_port :: "store \<Rightarrow> nat \<Rightarrow> bool" where
  "receiving_port s p \<longleftrightarrow>
     \<not> isToplevelPort s (pp_parent (pport s p)) \<and> pp_direction (pport s p) = Input \<or>
     isToplevelPort s (pp_parent (pport s p)) \<and> pp_direction (pport s p) = Output"

definition classifyPort :: "store \<Rightarrow> nat list \<Rightarrow> nat list \<Rightarrow> connected_ports list \<Rightarrow> nat \<Rightarrow> connected_ports list" where
  "classifyPort s ports graphComponents cs runIdx =
     (let compIdx = graphComponents ! runIdx;
          c = cs ! compIdx;
          p = ports ! runIdx
      in if receiving_port s p then cs[compIdx := c\<lparr>mReceivePorts := mReceivePorts c @ [p]\<rparr>]
         else cs[compIdx := c\<lparr>mSendPorts := mSendPorts c @ [p]\<rparr>])"

definition ParameterConnectionGraph ::
  "(nat \<Rightarrow> (nat \<times> nat) list \<Rightarrow> nat \<times> nat list) \<Rightarrow> store \<Rightarrow> pcmap \<Rightarrow> exn + connected_ports list" where
  "ParameterConnectionGraph connected_components s connections =
     bindE (foldE addConnection \<lparr>pg_ports = [], mVertexLookup = [], pg_edges = []\<rparr> connections) (\<lambda>g.
     let n = length (pg_ports g)
     in if n = 0 then Inr []
        else case connected_components n (pg_edges g) of (numComponents, graphComponents) \<Rightarrow>
          Inr (foldl (classifyPort s (pg_ports g) graphComponents)
                 (replicate numComponents \<lparr>mSendPorts = [], mReceivePorts = []\<rparr>) [0..<n]))"

section \<open>Vertices and ports\<close>

definition graph_of :: "pcmap \<Rightarrow> param_graph \<Rightarrow> bool" where
  "graph_of conns g \<longleftrightarrow>
     sorted_wrt (<) (map fst (mVertexLookup g)) \<and> distinct (pg_ports g) \<and>
     (\<forall>p v. map_of (mVertexLookup g) p = Some v \<longleftrightarrow> v < length (pg_ports g) \<and> pg_ports g ! v = p) \<and>
     set (pg_ports g) = fst ` set conns \<union> snd ` set conns \<and>
     list_all2 (\<lambda>c e. fst e < length (pg_ports g) \<and> snd e < length (pg_ports g) \<and>
        pg_ports g ! fst e = snd c \<and> pg_ports g ! snd e = fst c) conns (pg_edges g)"

definition vertices_ok :: "param_graph \<Rightarrow> bool" where
  "vertices_ok g \<longleftrightarrow> sorted_wrt (<) (map fst (mVertexLookup g)) \<and> distinct (pg_ports g) \<and>
     (\<forall>p v. map_of (mVertexLookup g) p = Some v \<longleftrightarrow> v < length (pg_ports g) \<and> pg_ports g ! v = p)"

lemma vertices_okD:
  "vertices_ok g \<Longrightarrow> map_of (mVertexLookup g) p = Some v \<longleftrightarrow> v < length (pg_ports g) \<and> pg_ports g ! v = p"
  by (simp add: vertices_ok_def)

lemma lookup_None: "vertices_ok g \<Longrightarrow> map_of (mVertexLookup g) p = None \<longleftrightarrow> p \<notin> set (pg_ports g)"
proof (cases "map_of (mVertexLookup g) p")
  case None
  then show "vertices_ok g \<Longrightarrow> ?thesis" using vertices_okD [of g p] by (auto simp: in_set_conv_nth)
next
  case (Some v)
  then show "vertices_ok g \<Longrightarrow> ?thesis" using vertices_okD [of g p v] by auto
qed

lemma lookupVertex_ok:
  assumes "vertices_ok g"
  shows "vertices_ok (lookupVertex p g)" "set (pg_ports (lookupVertex p g)) = insert p (set (pg_ports g))"
    "\<exists>xs. pg_ports (lookupVertex p g) = pg_ports g @ xs" "pg_edges (lookupVertex p g) = pg_edges g"
proof -
  note L = vertices_okD [OF assms]
  show "pg_edges (lookupVertex p g) = pg_edges g" "\<exists>xs. pg_ports (lookupVertex p g) = pg_ports g @ xs"
    by (auto simp: lookupVertex_def split: option.splits)
  show "set (pg_ports (lookupVertex p g)) = insert p (set (pg_ports g))"
  proof (cases "map_of (mVertexLookup g) p")
    case (Some v)
    then have "p \<in> set (pg_ports g)" using L [of p v] by auto
    then show ?thesis using Some by (simp add: lookupVertex_def insert_absorb)
  qed (simp add: lookupVertex_def)
  show "vertices_ok (lookupVertex p g)"
  proof (cases "map_of (mVertexLookup g) p")
    case None
    have p: "p \<notin> set (pg_ports g)" using None lookup_None [OF assms] by simp
    have so: "sorted_wrt (<) (map fst (mVertexLookup g))" using assms by (simp add: vertices_ok_def)
    have "(if q = p then Some (length (pg_ports g)) else map_of (mVertexLookup g) q) = Some v \<longleftrightarrow>
        v < length (pg_ports g @ [p]) \<and> (pg_ports g @ [p]) ! v = q" for q v
      using L [of q v] p by (auto simp: nth_append dest: nth_mem)
    then show ?thesis using assms None p so
      by (simp add: vertices_ok_def lookupVertex_def sorted_map_insert map_of_map_insert [OF so])
  qed (use assms in \<open>simp add: lookupVertex_def\<close>)
qed

definition edge_for :: "nat list \<Rightarrow> nat \<times> nat \<Rightarrow> nat \<times> nat \<Rightarrow> bool" where
  "edge_for ports c e \<longleftrightarrow> fst e < length ports \<and> snd e < length ports \<and> ports ! fst e = snd c \<and> ports ! snd e = fst c"

lemma edge_for_append: "edge_for ports c e \<Longrightarrow> edge_for (ports @ xs) c e"
  by (simp add: edge_for_def nth_append)

lemma edge_for_unique: "\<lbrakk>distinct ports; edge_for ports c e; edge_for ports c' e'\<rbrakk> \<Longrightarrow> c = c' \<longleftrightarrow> e = e'"
proof -
  assume d: "distinct ports" and e: "edge_for ports c e" "edge_for ports c' e'"
  have "ports ! fst e = ports ! fst e' \<longleftrightarrow> fst e = fst e'" "ports ! snd e = ports ! snd e' \<longleftrightarrow> snd e = snd e'"
    using e unfolding edge_for_def by (metis nth_eq_iff_index_eq [OF d])+
  then show ?thesis using e by (auto simp: edge_for_def prod_eq_iff)
qed

lemma edge_for_mem:
  assumes "distinct ports" "list_all2 (edge_for ports) cs es" "edge_for ports c e"
  shows "c \<in> set cs \<longleftrightarrow> e \<in> set es"
  using assms(2)
proof (induction rule: list_all2_induct)
  case (Cons c' cs e' es)
  then show ?case using edge_for_unique [OF assms(1,3) Cons(1)] by auto
qed simp

lemma edge_for_swap: "edge_for ports (a, b) (v, u) \<longleftrightarrow> edge_for ports (b, a) (u, v)"
  by (auto simp: edge_for_def)

lemma graph_of_iff:
  "graph_of conns g \<longleftrightarrow> vertices_ok g \<and> set (pg_ports g) = fst ` set conns \<union> snd ` set conns \<and>
     list_all2 (edge_for (pg_ports g)) conns (pg_edges g)"
  by (simp add: graph_of_def vertices_ok_def edge_for_def [abs_def] conj_ac)

text \<open>No port pair is connected twice, in whatever direction.\<close>

fun no_double :: "pcmap \<Rightarrow> bool" where
  "no_double [] \<longleftrightarrow> True"
| "no_double ((a, b) # cs) \<longleftrightarrow> (a, b) \<notin> set cs \<and> (b, a) \<notin> set cs \<and> no_double cs"

lemma no_double_snoc: "no_double (cs @ [(a, b)]) \<longleftrightarrow> no_double cs \<and> (a, b) \<notin> set cs \<and> (b, a) \<notin> set cs"
  by (induction cs rule: no_double.induct) auto

lemma addConnection_spec:
  assumes g: "graph_of cs g"
  shows "if (r, t) \<in> set cs \<or> (t, r) \<in> set cs then addConnection g (r, t) = Inl logic_error
    else \<exists>g'. addConnection g (r, t) = Inr g' \<and> graph_of (cs @ [(r, t)]) g'"
proof -
  define g1 where "g1 = lookupVertex r (lookupVertex t g)"
  note g = g [unfolded graph_of_iff]
  have ok0: "vertices_ok g" using g by simp
  note l0 = lookupVertex_ok [OF ok0, of t]
  note l1 = lookupVertex_ok [OF l0(1), of r]
  have ok: "vertices_ok g1" and ports: "set (pg_ports g1) = insert r (insert t (set (pg_ports g)))"
    and edges: "pg_edges g1 = pg_edges g" and dis: "distinct (pg_ports g1)"
    using l0 l1 by (auto simp: g1_def vertices_ok_def)
  obtain xs where "pg_ports g1 = pg_ports g @ xs" using l0(3) l1(3) unfolding g1_def by force
  then have E: "list_all2 (edge_for (pg_ports g1)) cs (pg_edges g)"
    using g edge_for_append by (auto elim!: list_all2_mono)
  obtain u v where u: "map_of (mVertexLookup g1) t = Some u" and v: "map_of (mVertexLookup g1) r = Some v"
    using lookup_None [OF ok, of t] lookup_None [OF ok, of r] ports by auto
  have uv: "edge_for (pg_ports g1) (r, t) (u, v)"
    using vertices_okD [OF ok, of t u] vertices_okD [OF ok, of r v] u v by (simp add: edge_for_def)
  have m: "(u, v) \<in> set (pg_edges g) \<longleftrightarrow> (r, t) \<in> set cs" "(v, u) \<in> set (pg_edges g) \<longleftrightarrow> (t, r) \<in> set cs"
    using edge_for_mem [OF dis E uv] edge_for_mem [OF dis E, of "(t, r)" "(v, u)"] uv by (auto simp: edge_for_swap)
  have a: "addConnection g (r, t) = (if (r, t) \<in> set cs \<or> (t, r) \<in> set cs then Inl logic_error
      else Inr (g1\<lparr>pg_edges := pg_edges g1 @ [(u, v)]\<rparr>))"
    by (simp add: addConnection_def Let_def g1_def [symmetric] u v edges m)
  have "graph_of (cs @ [(r, t)]) (g1\<lparr>pg_edges := pg_edges g1 @ [(u, v)]\<rparr>)"
    using ok ports E uv g by (auto simp: graph_of_iff vertices_ok_def edges list_all2_appendI)
  then show ?thesis using a by auto
qed

lemma addConnections_spec:
  assumes "graph_of cs g" "no_double cs"
  shows "if no_double (cs @ ds) then \<exists>g'. foldE addConnection g ds = Inr g' \<and> graph_of (cs @ ds) g'
    else foldE addConnection g ds = Inl logic_error"
  using assms
proof (induction ds arbitrary: g cs)
  case (Cons d ds)
  obtain r t where d: "d = (r, t)" by fastforce
  note a = addConnection_spec [OF Cons.prems(1), of r t]
  show ?case
  proof (cases "(r, t) \<in> set cs \<or> (t, r) \<in> set cs")
    case True
    have "\<not> no_double (cs @ d # ds)" using True unfolding d
      by (induction cs rule: no_double.induct) auto
    then show ?thesis using a True by (simp add: d)
  next
    case False
    then obtain g' where g': "addConnection g (r, t) = Inr g'" "graph_of (cs @ [(r, t)]) g'" using a by auto
    have "no_double (cs @ [(r, t)])" using False Cons.prems(2) by (simp add: no_double_snoc)
    from Cons.IH [OF g'(2) this] show ?thesis using g'(1) unfolding d append_assoc append_Cons append_Nil by simp
  qed
qed simp

section \<open>The groups\<close>

definition linked :: "(nat \<times> nat) list \<Rightarrow> (nat \<times> nat) set" where
  "linked E = (set E \<union> (set E)\<inverse>)\<^sup>*"

lemma classify_fold:
  assumes "\<forall>i < n. ls ! i < length cs0" "m \<le> n" "\<forall>c \<in> set cs0. c = \<lparr>mSendPorts = [], mReceivePorts = []\<rparr>"
  shows "length (foldl (classifyPort s ports ls) cs0 [0..<m]) = length cs0 \<and>
    (\<forall>j < length cs0. foldl (classifyPort s ports ls) cs0 [0..<m] ! j =
       \<lparr>mSendPorts = map ((!) ports) (filter (\<lambda>i. ls ! i = j \<and> \<not> receiving_port s (ports ! i)) [0..<m]),
        mReceivePorts = map ((!) ports) (filter (\<lambda>i. ls ! i = j \<and> receiving_port s (ports ! i)) [0..<m])\<rparr>)"
  using assms(2)
proof (induction m)
  case 0
  then show ?case using assms(3) by (auto dest: nth_mem)
next
  case (Suc m)
  let ?cs = "foldl (classifyPort s ports ls) cs0 [0..<m]"
  have ih: "length ?cs = length cs0"
    "\<And>j. j < length cs0 \<Longrightarrow> ?cs ! j =
       \<lparr>mSendPorts = map ((!) ports) (filter (\<lambda>i. ls ! i = j \<and> \<not> receiving_port s (ports ! i)) [0..<m]),
        mReceivePorts = map ((!) ports) (filter (\<lambda>i. ls ! i = j \<and> receiving_port s (ports ! i)) [0..<m])\<rparr>"
    using Suc.IH Suc.prems by auto
  have l: "ls ! m < length cs0" using assms(1) Suc.prems by simp
  have step: "foldl (classifyPort s ports ls) cs0 [0..<Suc m] = classifyPort s ports ls ?cs m" by simp
  show ?case unfolding step
    using l by (auto simp: classifyPort_def Let_def ih nth_list_update)
qed

lemma image_filter_nth: "set (map ((!) ports) (filter P [0..<n])) = {ports ! i | i. i < n \<and> P i}"
  by auto

text \<open>A path between vertices is a path between their ports.\<close>

lemma linked_ports:
  assumes "distinct ports" "list_all2 (edge_for ports) conns E" "u < length ports" "v < length ports"
  shows "(u, v) \<in> linked E \<longleftrightarrow> (ports ! u, ports ! v) \<in> linked conns"
proof
  have "\<exists>c \<in> set conns. edge_for ports c e" if "e \<in> set E" for e
    using assms(2) that unfolding list_all2_conv_all_nth in_set_conv_nth by (metis nth_mem)
  then have E: "(ports ! x, ports ! y) \<in> linked conns" if "(x, y) \<in> set E \<union> (set E)\<inverse>" for x y
    using that unfolding linked_def by (fastforce simp: edge_for_def)
  assume "(u, v) \<in> linked E"
  then show "(ports ! u, ports ! v) \<in> linked conns" unfolding linked_def
  proof (induction rule: rtrancl_induct)
    case (step y z)
    then show ?case using E [OF step(2)] by (simp add: linked_def)
  qed simp
next
  have C: "\<exists>e \<in> set E. edge_for ports c e" if "c \<in> set conns" for c
    using assms(2) that unfolding list_all2_conv_all_nth in_set_conv_nth by (metis nth_mem)
  have "\<exists>w < length ports. ports ! w = q \<and> (u, w) \<in> linked E" if "(ports ! u, q) \<in> linked conns" for q
    using that unfolding linked_def
  proof (induction rule: rtrancl_induct)
    case (step y z)
    then obtain w where w: "w < length ports" "ports ! w = y" "(u, w) \<in> (set E \<union> (set E)\<inverse>)\<^sup>*" by blast
    consider "(y, z) \<in> set conns" | "(z, y) \<in> set conns" using step(2) by auto
    then obtain w' where w': "w' < length ports" "ports ! w' = z" "(w, w') \<in> set E \<union> (set E)\<inverse>"
    proof cases
      case 1
      then obtain a b where e: "(a, b) \<in> set E" "edge_for ports (y, z) (a, b)" using C by fastforce
      then have "b = w" using w(1,2) assms(1) nth_eq_iff_index_eq by (fastforce simp: edge_for_def)
      then show ?thesis using e by (intro that [of a]) (auto simp: edge_for_def)
    next
      case 2
      then obtain a b where e: "(a, b) \<in> set E" "edge_for ports (z, y) (a, b)" using C by fastforce
      then have "a = w" using w(1,2) assms(1) nth_eq_iff_index_eq by (fastforce simp: edge_for_def)
      then show ?thesis using e by (intro that [of b]) (auto simp: edge_for_def)
    qed
    then show ?case using rtrancl_into_rtrancl [OF w(3) w'(3)] by blast
  qed (use assms(3) in auto)
  then show "(ports ! u, ports ! v) \<in> linked conns \<Longrightarrow> (u, v) \<in> linked E"
    using assms(1,4) nth_eq_iff_index_eq by blast
qed

definition group_ports :: "connected_ports \<Rightarrow> nat set" where
  "group_ports c = set (mSendPorts c) \<union> set (mReceivePorts c)"

text \<open>What Boost documents of \<open>connected_components\<close>: the number of components and their labels.\<close>

locale component_labelling =
  fixes connected_components :: "nat \<Rightarrow> (nat \<times> nat) list \<Rightarrow> nat \<times> nat list"
  assumes labels: "\<lbrakk>set E \<subseteq> {..<n} \<times> {..<n}; connected_components n E = (k, ls)\<rbrakk> \<Longrightarrow>
      length ls = n \<and> set ls = {..<k} \<and> (\<forall>u < n. \<forall>v < n. ls ! u = ls ! v \<longleftrightarrow> (u, v) \<in> linked E)"
begin

lemma graph_groups:
  assumes g: "graph_of conns g" and run: "foldE addConnection \<lparr>pg_ports = [], mVertexLookup = [], pg_edges = []\<rparr> conns = Inr g"
  shows "\<exists>cs. ParameterConnectionGraph connected_components s conns = Inr cs \<and>
    (\<forall>c \<in> set cs. group_ports c \<noteq> {} \<and> distinct (mSendPorts c @ mReceivePorts c) \<and>
       (\<forall>p \<in> set (mSendPorts c). \<not> receiving_port s p) \<and> (\<forall>p \<in> set (mReceivePorts c). receiving_port s p)) \<and>
    (\<Union>c \<in> set cs. group_ports c) = fst ` set conns \<union> snd ` set conns \<and>
    (\<forall>i < length cs. \<forall>j < length cs. \<forall>p \<in> group_ports (cs ! i). \<forall>q \<in> group_ports (cs ! j). i = j \<longleftrightarrow> (p, q) \<in> linked conns)"
proof (cases "pg_ports g = []")
  case True
  then have "conns = []" using g by (simp add: graph_of_iff)
  then show ?thesis using run True by (auto simp: ParameterConnectionGraph_def)
next
  case False
  note g = g [unfolded graph_of_iff]
  let ?n = "length (pg_ports g)" and ?ports = "pg_ports g"
  have dis: "distinct ?ports" using g by (simp add: vertices_ok_def)
  have sub: "set (pg_edges g) \<subseteq> {..<?n} \<times> {..<?n}"
    using g by (fastforce simp: list_all2_conv_all_nth in_set_conv_nth edge_for_def)
  obtain k ls where c: "connected_components ?n (pg_edges g) = (k, ls)" by fastforce
  note L = labels [OF sub c]
  define cs where "cs = foldl (classifyPort s ?ports ls) (replicate k \<lparr>mSendPorts = [], mReceivePorts = []\<rparr>) [0..<?n]"
  have P: "ParameterConnectionGraph connected_components s conns = Inr cs"
    using run False c by (simp add: ParameterConnectionGraph_def cs_def Let_def)
  have "\<forall>i < ?n. ls ! i < k" using L by (metis lessThan_iff nth_mem)
  then have F: "length cs = k"
    "\<And>j. j < k \<Longrightarrow> mSendPorts (cs ! j) = map ((!) ?ports) (filter (\<lambda>i. ls ! i = j \<and> \<not> receiving_port s (?ports ! i)) [0..<?n])"
    "\<And>j. j < k \<Longrightarrow> mReceivePorts (cs ! j) = map ((!) ?ports) (filter (\<lambda>i. ls ! i = j \<and> receiving_port s (?ports ! i)) [0..<?n])"
    using classify_fold [of ?n ls "replicate k \<lparr>mSendPorts = [], mReceivePorts = []\<rparr>" ?n s ?ports]
    by (simp_all add: cs_def)
  have grp: "group_ports (cs ! j) = {?ports ! i | i. i < ?n \<and> ls ! i = j}" if "j < k" for j
    unfolding group_ports_def F(2,3) [OF that] image_filter_nth by blast
  have inj: "inj_on ((!) ?ports) {..<?n}" using dis by (simp add: inj_on_nth)
  have "group_ports c \<noteq> {} \<and> distinct (mSendPorts c @ mReceivePorts c) \<and>
       (\<forall>p \<in> set (mSendPorts c). \<not> receiving_port s p) \<and> (\<forall>p \<in> set (mReceivePorts c). receiving_port s p)"
    if "c \<in> set cs" for c
  proof -
    obtain j where j: "j < k" "c = cs ! j" using \<open>c \<in> set cs\<close> F(1) by (auto simp: in_set_conv_nth)
    then obtain i where "i < ?n" "ls ! i = j" using L by (metis in_set_conv_nth lessThan_iff)
    then have ne: "group_ports c \<noteq> {}" using grp j by auto
    have d: "distinct (map ((!) ?ports) (filter Q [0..<?n]))" for Q
      using inj by (auto simp: distinct_map intro: inj_on_subset)
    have dj: "set (mSendPorts c) \<inter> set (mReceivePorts c) = {}" using F(2,3) [OF j(1)] j(2) by auto
    show ?thesis
      using ne dj d F(2,3) [OF j(1)] j(2) by auto
  qed
  moreover have "(\<Union>c \<in> set cs. group_ports c) = fst ` set conns \<union> snd ` set conns"
  proof -
    have "(\<Union>c \<in> set cs. group_ports c) = (\<Union>j \<in> {..<k}. {?ports ! i | i. i < ?n \<and> ls ! i = j})"
    proof -
      have "set cs = (!) cs ` {..<k}" using F(1) by (auto simp: in_set_conv_nth)
      then show ?thesis using grp by simp
    qed
    also have "\<dots> = set ?ports"
      using L by (auto simp: in_set_conv_nth) (metis lessThan_iff nth_mem)
    finally show ?thesis using g by simp
  qed
  moreover have "i = j \<longleftrightarrow> (p, q) \<in> linked conns"
    if i: "i < length cs" and j: "j < length cs" and p: "p \<in> group_ports (cs ! i)" and q: "q \<in> group_ports (cs ! j)" for i j p q
  proof -
    obtain u v where uv: "u < ?n" "ls ! u = i" "p = ?ports ! u" "v < ?n" "ls ! v = j" "q = ?ports ! v"
      using p q grp i j F(1) by auto
    have "ls ! u = ls ! v \<longleftrightarrow> (u, v) \<in> linked (pg_edges g)" using L uv(1,4) by simp
    then have "i = j \<longleftrightarrow> (u, v) \<in> linked (pg_edges g)" using uv(2,5) by simp
    also have "\<dots> \<longleftrightarrow> (p, q) \<in> linked conns" using linked_ports [OF dis _ uv(1,4)] g uv by simp
    finally show ?thesis .
  qed
  ultimately show ?thesis by (intro exI [of _ cs] conjI P ballI allI impI) simp_all
qed

end

section \<open>A labelling\<close>

text \<open>Merging the labels of the two ends of every edge satisfies the contract.\<close>

definition merge_labels :: "(nat \<times> nat) list \<Rightarrow> nat \<Rightarrow> nat" where
  "merge_labels E = foldl (\<lambda>f e x. if f x = f (fst e) then f (snd e) else f x) (\<lambda>x. x) E"

definition connected_components_ref :: "nat \<Rightarrow> (nat \<times> nat) list \<Rightarrow> nat \<times> nat list" where
  "connected_components_ref n E =
     (let f = map (merge_labels E) [0..<n];
          vals = remdups f
      in (length vals, map (\<lambda>l. length (takeWhile (\<lambda>v. v \<noteq> l) vals)) f))"

lemma linked_snoc: "linked E \<subseteq> linked (E @ [e])"
  unfolding linked_def by (rule rtrancl_mono) auto

lemma linked_trans: "(x, y) \<in> linked E \<Longrightarrow> (y, z) \<in> linked E \<Longrightarrow> (x, z) \<in> linked E"
  unfolding linked_def by (rule rtrancl_trans)

lemma linked_sym: "(x, y) \<in> linked E \<Longrightarrow> (y, x) \<in> linked E"
  unfolding linked_def by (rule symD [OF sym_rtrancl]) (auto simp: sym_def)

lemma linked_edge: "e \<in> set E \<Longrightarrow> (fst e, snd e) \<in> linked E"
  unfolding linked_def by (intro r_into_rtrancl) simp

lemma merge_labels_iff: "merge_labels E x = merge_labels E y \<longleftrightarrow> (x, y) \<in> linked E"
proof (induction E arbitrary: x y rule: rev_induct)
  case Nil
  then show ?case by (simp add: merge_labels_def linked_def)
next
  case (snoc e E)
  let ?f = "merge_labels E" and ?g = "merge_labels (E @ [e])"
  have g: "?g z = (if ?f z = ?f (fst e) then ?f (snd e) else ?f z)" for z by (simp add: merge_labels_def)
  have old: "(z, w) \<in> linked (E @ [e])" if "?f z = ?f w" for z w
    using that snoc linked_snoc by blast
  have e: "(fst e, snd e) \<in> linked (E @ [e])" by (rule linked_edge) simp
  have up: "\<exists>w. ?f w = ?g z \<and> (z, w) \<in> linked (E @ [e])" for z
  proof (cases "?f z = ?f (fst e)")
    case True
    then show ?thesis using g [of z] linked_trans [OF old e] by auto
  next
    case False
    then show ?thesis using g [of z] old by auto
  qed
  show ?case
  proof
    assume eq: "?g x = ?g y"
    obtain v where v: "?f v = ?g x" "(x, v) \<in> linked (E @ [e])" using up [of x] by blast
    obtain w where w: "?f w = ?g y" "(y, w) \<in> linked (E @ [e])" using up [of y] by blast
    have "(v, w) \<in> linked (E @ [e])" by (rule old) (simp add: v w eq)
    from linked_trans [OF linked_trans [OF v(2) this] linked_sym [OF w(2)]]
    show "(x, y) \<in> linked (E @ [e])" .
  next
    assume "(x, y) \<in> linked (E @ [e])"
    then show "?g x = ?g y" unfolding linked_def
    proof (induction rule: rtrancl_induct)
      case (step z w)
      have E: "?f a = ?f b" if "(a, b) \<in> set E" for a b using snoc linked_edge [OF that] by simp
      consider "(z, w) \<in> set E" | "(w, z) \<in> set E" | "e = (z, w)" | "e = (w, z)" using step(2) by auto
      then have "?g z = ?g w"
      proof cases
        case 1
        show ?thesis unfolding g E [OF 1] ..
      next
        case 2
        show ?thesis unfolding g E [OF 2] ..
      next
        case 3
        show ?thesis unfolding g by (simp add: 3)
      next
        case 4
        show ?thesis unfolding g by (simp add: 4)
      qed
      then show ?case using step(3) by simp
    qed simp
  qed
qed

lemma position:
  assumes "distinct vals" "l \<in> set vals"
  shows "length (takeWhile (\<lambda>v. v \<noteq> l) vals) < length vals" "vals ! length (takeWhile (\<lambda>v. v \<noteq> l) vals) = l"
  using assms by (induction vals) auto

lemma position_nth: "\<lbrakk>distinct vals; i < length vals\<rbrakk> \<Longrightarrow> length (takeWhile (\<lambda>v. v \<noteq> vals ! i) vals) = i"
  using position [of vals "vals ! i"] nth_eq_iff_index_eq [of vals] nth_mem [of i vals] by blast

interpretation merged: component_labelling connected_components_ref
proof
  fix E :: "(nat \<times> nat) list" and n k ls
  assume r: "connected_components_ref n E = (k, ls)"
  define f where "f = map (merge_labels E) [0..<n]"
  define pos where "pos l = length (takeWhile (\<lambda>v. v \<noteq> l) (remdups f))" for l
  have k: "k = length (remdups f)" and ls: "ls = map pos f"
    using r by (auto simp: connected_components_ref_def Let_def f_def pos_def)
  have lt: "pos l < k" and nth: "remdups f ! pos l = l" if "l \<in> set f" for l
    using position [of "remdups f" l] that by (simp_all add: pos_def k)
  have "i \<in> set ls" if "i < k" for i
  proof -
    have "remdups f ! i \<in> set f" using that nth_mem [of i "remdups f"] by (simp add: k)
    moreover have "pos (remdups f ! i) = i" using position_nth [of "remdups f" i] that by (simp add: pos_def k)
    ultimately show ?thesis unfolding ls set_map by (metis image_eqI)
  qed
  then have "set ls = {..<k}" using lt by (auto simp: ls)
  moreover have "ls ! u = ls ! v \<longleftrightarrow> (u, v) \<in> linked E" if "u < n" "v < n" for u v
  proof -
    have "ls ! u = pos (merge_labels E u)" "ls ! v = pos (merge_labels E v)"
      and "merge_labels E u \<in> set f" "merge_labels E v \<in> set f"
      using that by (auto simp: ls f_def)
    then have "ls ! u = ls ! v \<longleftrightarrow> merge_labels E u = merge_labels E v" using nth by metis
    then show ?thesis by (simp add: merge_labels_iff)
  qed
  ultimately show "length ls = n \<and> set ls = {..<k} \<and> (\<forall>u < n. \<forall>v < n. ls ! u = ls ! v \<longleftrightarrow> (u, v) \<in> linked E)"
    by (simp add: ls f_def)
qed

lemma graph_built:
  "if no_double conns
   then \<exists>g. foldE addConnection \<lparr>pg_ports = [], mVertexLookup = [], pg_edges = []\<rparr> conns = Inr g \<and> graph_of conns g
   else foldE addConnection \<lparr>pg_ports = [], mVertexLookup = [], pg_edges = []\<rparr> conns = Inl logic_error"
proof -
  have "graph_of [] \<lparr>pg_ports = [], mVertexLookup = [], pg_edges = []\<rparr>" by (simp add: graph_of_def)
  from addConnections_spec [OF this, of conns, unfolded append_Nil] show ?thesis by simp
qed

text \<open>
  C37 (parameter_groups): for a labelling that does what its documentation says, the ports of the
  connections are split into groups such that two ports share a group exactly if they are linked
  through connections; each port is in one group, once, on the sending or receiving side that
  its direction and level give. A connection given twice or also in the reverse direction is
  rejected with \<open>std::logic_error\<close>, and nothing else is.
\<close>

theorem parameter_groups:
  assumes "component_labelling connected_components"
  shows "case ParameterConnectionGraph connected_components s conns of
      Inl e \<Rightarrow> e = logic_error \<and> \<not> no_double conns
    | Inr cs \<Rightarrow> no_double conns \<and>
        (\<forall>c \<in> set cs. group_ports c \<noteq> {} \<and> distinct (mSendPorts c @ mReceivePorts c) \<and>
           (\<forall>p \<in> set (mSendPorts c). \<not> receiving_port s p) \<and> (\<forall>p \<in> set (mReceivePorts c). receiving_port s p)) \<and>
        (\<Union>c \<in> set cs. group_ports c) = fst ` set conns \<union> snd ` set conns \<and>
        (\<forall>i < length cs. \<forall>j < length cs. \<forall>p \<in> group_ports (cs ! i). \<forall>q \<in> group_ports (cs ! j).
           i = j \<longleftrightarrow> (p, q) \<in> linked conns)"
proof (cases "no_double conns")
  case True
  then obtain g where g: "foldE addConnection \<lparr>pg_ports = [], mVertexLookup = [], pg_edges = []\<rparr> conns = Inr g" "graph_of conns g"
    using graph_built [of conns] by auto
  show ?thesis using component_labelling.graph_groups [OF assms g(2,1), of s] True by (elim exE conjE) simp
next
  case False
  then show ?thesis using graph_built [of conns] by (simp add: ParameterConnectionGraph_def)
qed

definition ex_param_store :: store where
  "ex_param_store = \<lparr>comps = [0 \<mapsto> \<lparr>c_name = ''top'', c_parent = None, c_composite = True, c_audioPorts = [],
           c_parameterPorts = [], c_components = [1, 2], c_audioConnections = [], c_parameterConnections = []\<rparr>,
       1 \<mapsto> \<lparr>c_name = ''a'', c_parent = Some 0, c_composite = False, c_audioPorts = [],
           c_parameterPorts = [10, 13], c_components = [], c_audioConnections = [], c_parameterConnections = []\<rparr>,
       2 \<mapsto> \<lparr>c_name = ''b'', c_parent = Some 0, c_composite = False, c_audioPorts = [],
           c_parameterPorts = [11, 12, 14], c_components = [], c_audioConnections = [], c_parameterConnections = []\<rparr>],
     aports = Map.empty,
     pports = [10 \<mapsto> \<lparr>pp_name = ''o'', pp_parent = Some 1, pp_direction = Output, pp_parameterType = 1, pp_protocolType = 2, pp_config = Some EmptyParameterConfig\<rparr>,
       11 \<mapsto> \<lparr>pp_name = ''i'', pp_parent = Some 2, pp_direction = Input, pp_parameterType = 1, pp_protocolType = 2, pp_config = Some EmptyParameterConfig\<rparr>,
       12 \<mapsto> \<lparr>pp_name = ''j'', pp_parent = Some 2, pp_direction = Input, pp_parameterType = 1, pp_protocolType = 2, pp_config = Some EmptyParameterConfig\<rparr>,
       13 \<mapsto> \<lparr>pp_name = ''p'', pp_parent = Some 1, pp_direction = Output, pp_parameterType = 1, pp_protocolType = 3, pp_config = Some EmptyParameterConfig\<rparr>,
       14 \<mapsto> \<lparr>pp_name = ''k'', pp_parent = Some 2, pp_direction = Input, pp_parameterType = 1, pp_protocolType = 3, pp_config = Some EmptyParameterConfig\<rparr>]\<rparr>"

definition ex_param_map :: pcmap where "ex_param_map = [(11, 10), (12, 10), (14, 13)]"

lemma ex_param_groups:
  "ParameterConnectionGraph connected_components_ref ex_param_store ex_param_map =
     Inr [\<lparr>mSendPorts = [10], mReceivePorts = [11, 12]\<rparr>, \<lparr>mSendPorts = [13], mReceivePorts = [14]\<rparr>]"
  by code_simp

theorem parameter_groups_witness:
  "(10, 12) \<in> linked ex_param_map \<and> (10, 14) \<notin> linked ex_param_map \<and> no_double ex_param_map"
proof -
  note G = parameter_groups [OF merged.component_labelling_axioms, where s = ex_param_store and conns = ex_param_map,
      unfolded ex_param_groups sum.case]
  show ?thesis using G [THEN conjunct1] G [THEN conjunct2, THEN conjunct2, THEN conjunct2]
    by (auto simp: group_ports_def All_less_Suc numeral_2_eq_2)
qed

end
