(* ===== verification/Protocols.thy ===== *)
theory Protocols
  imports Component_Model
begin

text \<open>
  The communication protocols of \<open>src/libpml\<close>, which carry parameters between ports: a message
  queue, a double buffer and shared data. A protocol object and the protocol inputs and outputs
  of the ports point at each other; the model keeps them in a store. A parameter value is
  anything (\<open>'p\<close>) with a dynamic type.
\<close>

section \<open>Objects\<close>

datatype protocol_kind = MessageQueueKind | DoubleBufferingKind | SharedDataKind

record input_port =
  in_kind :: protocol_kind
  in_protocol :: "nat option"
  mChanged :: bool

record output_port =
  out_kind :: protocol_kind
  out_protocol :: "nat option"

record 'p message_queue =
  mq_parameterType :: size_t
  mq_config :: param_config
  mQueue :: "'p list"
  mq_input :: "nat option"
  mq_output :: "nat option"

record 'p double_buffering =
  db_parameterType :: size_t
  db_config :: param_config
  db_output :: "nat option"
  db_inputs :: "nat list"
  mBackData :: 'p
  mFrontData :: 'p

record 'p shared_data =
  sd_parameterType :: size_t
  sd_config :: param_config
  sd_data :: 'p
  sd_output :: "nat option"
  sd_inputs :: "nat list"

datatype 'p protocol =
    MessageQueue "'p message_queue"
  | DoubleBuffering "'p double_buffering"
  | SharedData "'p shared_data"

record 'p protocol_store =
  protocols :: "nat \<Rightarrow> 'p protocol option"
  inputs :: "nat \<Rightarrow> input_port option"
  outputs :: "nat \<Rightarrow> output_port option"

abbreviation inport :: "'p protocol_store \<Rightarrow> nat \<Rightarrow> input_port" where "inport s i \<equiv> the (inputs s i)"
abbreviation outport :: "'p protocol_store \<Rightarrow> nat \<Rightarrow> output_port" where "outport s i \<equiv> the (outputs s i)"

definition protocol_at :: "nat \<Rightarrow> 'p protocol \<Rightarrow> 'p protocol_store \<Rightarrow> 'p protocol_store" where
  "protocol_at q v s = s\<lparr>protocols := (protocols s)(q \<mapsto> v)\<rparr>"

text \<open>The overload that assigns the pointer, for the inputs and outputs of all protocols.\<close>

definition setInputProtocol :: "nat \<Rightarrow> nat option \<Rightarrow> 'p protocol_store \<Rightarrow> 'p protocol_store" where
  "setInputProtocol i p s = s\<lparr>inputs := (inputs s)(i \<mapsto> (inport s i)\<lparr>in_protocol := p\<rparr>)\<rparr>"

definition setOutputProtocol :: "nat \<Rightarrow> nat option \<Rightarrow> 'p protocol_store \<Rightarrow> 'p protocol_store" where
  "setOutputProtocol i p s = s\<lparr>outputs := (outputs s)(i \<mapsto> (outport s i)\<lparr>out_protocol := p\<rparr>)\<rparr>"

text \<open>\<open>dynamic_cast\<close> to the endpoint class of a protocol; the null pointer is \<open>None\<close>.\<close>

definition typed_input :: "'p protocol_store \<Rightarrow> protocol_kind \<Rightarrow> nat option \<Rightarrow> nat option" where
  "typed_input s k port = (case port of None \<Rightarrow> None | Some i \<Rightarrow> if in_kind (inport s i) = k then Some i else None)"

definition typed_output :: "'p protocol_store \<Rightarrow> protocol_kind \<Rightarrow> nat option \<Rightarrow> nat option" where
  "typed_output s k port = (case port of None \<Rightarrow> None | Some i \<Rightarrow> if out_kind (outport s i) = k then Some i else None)"

section \<open>Message queue\<close>

definition mq_new :: "size_t \<Rightarrow> param_config \<Rightarrow> 'p message_queue" where
  "mq_new ty cfg = \<lparr>mq_parameterType = ty, mq_config = cfg, mQueue = [], mq_input = None, mq_output = None\<rparr>"

definition mq_clear :: "'p message_queue \<Rightarrow> 'p message_queue" where
  "mq_clear q = q\<lparr>mQueue := []\<rparr>"

definition mq_empty :: "'p message_queue \<Rightarrow> bool" where
  "mq_empty q \<longleftrightarrow> mQueue q = []"

definition numberOfElements :: "'p message_queue \<Rightarrow> nat" where
  "numberOfElements q = length (mQueue q)"

definition mq_enqueue :: "'p \<Rightarrow> 'p message_queue \<Rightarrow> 'p message_queue" where
  "mq_enqueue v q = q\<lparr>mQueue := v # mQueue q\<rparr>"

definition nextElement :: "'p message_queue \<Rightarrow> exn + 'p" where
  "nextElement q = (if mq_empty q then Inl logic_error else Inr (last (mQueue q)))"

definition popNextElement :: "'p message_queue \<Rightarrow> exn + 'p message_queue" where
  "popNextElement q = (if mq_empty q then Inl logic_error else Inr (q\<lparr>mQueue := butlast (mQueue q)\<rparr>))"

definition mq_connectInput ::
  "nat \<Rightarrow> 'p message_queue \<Rightarrow> nat option \<Rightarrow> 'p protocol_store \<Rightarrow> exn + 'p protocol_store" where
  "mq_connectInput self q port s =
     (case typed_input s MessageQueueKind port of
        None \<Rightarrow> Inl invalid_argument
      | Some i \<Rightarrow>
          if mq_input q \<noteq> None then Inl invalid_argument
          else Inr (setInputProtocol i (Some self) (protocol_at self (MessageQueue (q\<lparr>mq_input := Some i\<rparr>)) s)))"

definition mq_connectOutput ::
  "nat \<Rightarrow> 'p message_queue \<Rightarrow> nat option \<Rightarrow> 'p protocol_store \<Rightarrow> exn + 'p protocol_store" where
  "mq_connectOutput self q port s =
     (case typed_output s MessageQueueKind port of
        None \<Rightarrow> Inl invalid_argument
      | Some i \<Rightarrow>
          if mq_output q \<noteq> None then Inl invalid_argument
          else Inr (setOutputProtocol i (Some self) (protocol_at self (MessageQueue (q\<lparr>mq_output := Some i\<rparr>)) s)))"

definition mq_disconnectInput ::
  "nat \<Rightarrow> 'p message_queue \<Rightarrow> nat option \<Rightarrow> 'p protocol_store \<Rightarrow> bool \<times> 'p protocol_store" where
  "mq_disconnectInput self q port s =
     (case typed_input s MessageQueueKind port of
        None \<Rightarrow> (False, s)
      | Some i \<Rightarrow>
          if Some i \<noteq> mq_input q then (False, s)
          else (True, protocol_at self (MessageQueue (q\<lparr>mq_input := None\<rparr>)) (setInputProtocol i None s)))"

definition mq_disconnectOutput ::
  "nat \<Rightarrow> 'p message_queue \<Rightarrow> nat option \<Rightarrow> 'p protocol_store \<Rightarrow> bool \<times> 'p protocol_store" where
  "mq_disconnectOutput self q port s =
     (case typed_output s MessageQueueKind port of
        None \<Rightarrow> (False, s)
      | Some i \<Rightarrow>
          if Some i \<noteq> mq_output q then (False, s)
          else (True, protocol_at self (MessageQueue (q\<lparr>mq_output := None\<rparr>)) (setOutputProtocol i None s)))"

section \<open>Double buffering\<close>

text \<open>The two buffers come from the parameter factory, the back buffer first.\<close>

definition db_new ::
  "(size_t \<Rightarrow> param_config \<Rightarrow> exn + 'p) \<Rightarrow> size_t \<Rightarrow> param_config \<Rightarrow> exn + 'p double_buffering" where
  "db_new create ty cfg =
     bindE (create ty cfg) (\<lambda>back. bindE (create ty cfg) (\<lambda>front.
     Inr \<lparr>db_parameterType = ty, db_config = cfg, db_output = None, db_inputs = [],
          mBackData = back, mFrontData = front\<rparr>))"

text \<open>\<open>ParameterBase::assign\<close> compares the dynamic types and copies the value.\<close>

definition assign :: "('p \<Rightarrow> size_t) \<Rightarrow> 'p \<Rightarrow> 'p \<Rightarrow> exn + 'p" where
  "assign ptype lhs rhs = (if ptype lhs \<noteq> ptype rhs then Inl invalid_argument else Inr rhs)"

definition markChanged :: "nat \<Rightarrow> 'p protocol_store \<Rightarrow> 'p protocol_store" where
  "markChanged i s = s\<lparr>inputs := (inputs s)(i \<mapsto> (inport s i)\<lparr>mChanged := True\<rparr>)\<rparr>"

definition swapBuffers ::
  "('p \<Rightarrow> size_t) \<Rightarrow> bool \<Rightarrow> nat \<Rightarrow> 'p double_buffering \<Rightarrow> 'p protocol_store \<Rightarrow> exn + 'p protocol_store" where
  "swapBuffers ptype copyValue self q s =
     bindE (if copyValue then assign ptype (mBackData q) (mFrontData q) else Inr (mBackData q)) (\<lambda>back.
     let s' = protocol_at self (DoubleBuffering (q\<lparr>mBackData := mFrontData q, mFrontData := back\<rparr>)) s
     in Inr (fold markChanged (db_inputs q) s'))"

definition db_connectInput ::
  "nat \<Rightarrow> 'p double_buffering \<Rightarrow> nat option \<Rightarrow> 'p protocol_store \<Rightarrow> exn + 'p protocol_store" where
  "db_connectInput self q port s =
     (case typed_input s DoubleBufferingKind port of
        None \<Rightarrow> Inl invalid_argument
      | Some i \<Rightarrow>
          let s' = if i \<notin> set (db_inputs q)
                   then protocol_at self (DoubleBuffering (q\<lparr>db_inputs := db_inputs q @ [i]\<rparr>)) s else s
          in Inr (setInputProtocol i (Some self) s'))"

definition db_connectOutput ::
  "nat \<Rightarrow> 'p double_buffering \<Rightarrow> nat option \<Rightarrow> 'p protocol_store \<Rightarrow> exn + 'p protocol_store" where
  "db_connectOutput self q port s =
     (case typed_output s DoubleBufferingKind port of
        None \<Rightarrow> Inl invalid_argument
      | Some i \<Rightarrow>
          if db_output q \<noteq> None then Inl invalid_argument
          else Inr (setOutputProtocol i (Some self) (protocol_at self (DoubleBuffering (q\<lparr>db_output := Some i\<rparr>)) s)))"

definition db_disconnectInput ::
  "nat \<Rightarrow> 'p double_buffering \<Rightarrow> nat option \<Rightarrow> 'p protocol_store \<Rightarrow> bool \<times> 'p protocol_store" where
  "db_disconnectInput self q port s =
     (case typed_input s DoubleBufferingKind port of
        None \<Rightarrow> (False, s)
      | Some i \<Rightarrow>
          if i \<notin> set (db_inputs q) then (False, s)
          else (True, protocol_at self (DoubleBuffering (q\<lparr>db_inputs := remove1 i (db_inputs q)\<rparr>))
                        (setInputProtocol i None s)))"

definition db_disconnectOutput ::
  "nat \<Rightarrow> 'p double_buffering \<Rightarrow> nat option \<Rightarrow> 'p protocol_store \<Rightarrow> bool \<times> 'p protocol_store" where
  "db_disconnectOutput self q port s =
     (case typed_output s DoubleBufferingKind port of
        None \<Rightarrow> (False, s)
      | Some i \<Rightarrow>
          if Some i \<noteq> db_output q then (False, s)
          else (True, protocol_at self (DoubleBuffering (q\<lparr>db_output := None\<rparr>)) (setOutputProtocol i None s)))"

section \<open>Shared data\<close>

definition sd_new ::
  "(size_t \<Rightarrow> param_config \<Rightarrow> exn + 'p) \<Rightarrow> size_t \<Rightarrow> param_config \<Rightarrow> exn + 'p shared_data" where
  "sd_new create ty cfg =
     bindE (create ty cfg) (\<lambda>d.
     Inr \<lparr>sd_parameterType = ty, sd_config = cfg, sd_data = d, sd_output = None, sd_inputs = []\<rparr>)"

text \<open>Unlike with a double buffer, the pointer of an input already connected is not set again.\<close>

definition sd_connectInput ::
  "nat \<Rightarrow> 'p shared_data \<Rightarrow> nat option \<Rightarrow> 'p protocol_store \<Rightarrow> exn + 'p protocol_store" where
  "sd_connectInput self q port s =
     (case typed_input s SharedDataKind port of
        None \<Rightarrow> Inl invalid_argument
      | Some i \<Rightarrow>
          if i \<notin> set (sd_inputs q)
          then Inr (setInputProtocol i (Some self)
                      (protocol_at self (SharedData (q\<lparr>sd_inputs := sd_inputs q @ [i]\<rparr>)) s))
          else Inr s)"

definition sd_connectOutput ::
  "nat \<Rightarrow> 'p shared_data \<Rightarrow> nat option \<Rightarrow> 'p protocol_store \<Rightarrow> exn + 'p protocol_store" where
  "sd_connectOutput self q port s =
     (case typed_output s SharedDataKind port of
        None \<Rightarrow> Inl invalid_argument
      | Some i \<Rightarrow>
          if sd_output q \<noteq> None then Inl invalid_argument
          else Inr (setOutputProtocol i (Some self) (protocol_at self (SharedData (q\<lparr>sd_output := Some i\<rparr>)) s)))"

definition sd_disconnectInput ::
  "nat \<Rightarrow> 'p shared_data \<Rightarrow> nat option \<Rightarrow> 'p protocol_store \<Rightarrow> bool \<times> 'p protocol_store" where
  "sd_disconnectInput self q port s =
     (case typed_input s SharedDataKind port of
        None \<Rightarrow> (False, s)
      | Some i \<Rightarrow>
          if i \<notin> set (sd_inputs q) then (False, s)
          else (True, protocol_at self (SharedData (q\<lparr>sd_inputs := remove1 i (sd_inputs q)\<rparr>))
                        (setInputProtocol i None s)))"

definition sd_disconnectOutput ::
  "nat \<Rightarrow> 'p shared_data \<Rightarrow> nat option \<Rightarrow> 'p protocol_store \<Rightarrow> bool \<times> 'p protocol_store" where
  "sd_disconnectOutput self q port s =
     (case typed_output s SharedDataKind port of
        None \<Rightarrow> (False, s)
      | Some i \<Rightarrow>
          if Some i \<noteq> sd_output q then (False, s)
          else (True, protocol_at self (SharedData (q\<lparr>sd_output := None\<rparr>)) (setOutputProtocol i None s)))"

section \<open>The virtual calls\<close>

definition connectInput :: "'p protocol_store \<Rightarrow> nat \<Rightarrow> nat option \<Rightarrow> exn + 'p protocol_store" where
  "connectInput s self port =
     (case the (protocols s self) of
        MessageQueue q \<Rightarrow> mq_connectInput self q port s
      | DoubleBuffering q \<Rightarrow> db_connectInput self q port s
      | SharedData q \<Rightarrow> sd_connectInput self q port s)"

definition connectOutput :: "'p protocol_store \<Rightarrow> nat \<Rightarrow> nat option \<Rightarrow> exn + 'p protocol_store" where
  "connectOutput s self port =
     (case the (protocols s self) of
        MessageQueue q \<Rightarrow> mq_connectOutput self q port s
      | DoubleBuffering q \<Rightarrow> db_connectOutput self q port s
      | SharedData q \<Rightarrow> sd_connectOutput self q port s)"

definition disconnectInput :: "'p protocol_store \<Rightarrow> nat \<Rightarrow> nat option \<Rightarrow> bool \<times> 'p protocol_store" where
  "disconnectInput s self port =
     (case the (protocols s self) of
        MessageQueue q \<Rightarrow> mq_disconnectInput self q port s
      | DoubleBuffering q \<Rightarrow> db_disconnectInput self q port s
      | SharedData q \<Rightarrow> sd_disconnectInput self q port s)"

definition disconnectOutput :: "'p protocol_store \<Rightarrow> nat \<Rightarrow> nat option \<Rightarrow> bool \<times> 'p protocol_store" where
  "disconnectOutput s self port =
     (case the (protocols s self) of
        MessageQueue q \<Rightarrow> mq_disconnectOutput self q port s
      | DoubleBuffering q \<Rightarrow> db_disconnectOutput self q port s
      | SharedData q \<Rightarrow> sd_disconnectOutput self q port s)"

text \<open>The public overload takes a protocol of any class and casts it.\<close>

fun kind_of :: "'p protocol \<Rightarrow> protocol_kind" where
  "kind_of (MessageQueue q) = MessageQueueKind"
| "kind_of (DoubleBuffering q) = DoubleBufferingKind"
| "kind_of (SharedData q) = SharedDataKind"

definition input_setProtocolInstance :: "nat \<Rightarrow> nat option \<Rightarrow> 'p protocol_store \<Rightarrow> exn + 'p protocol_store" where
  "input_setProtocolInstance i p s =
     (case p of
        None \<Rightarrow> Inl invalid_argument
      | Some q \<Rightarrow> if kind_of (the (protocols s q)) \<noteq> in_kind (inport s i) then Inl invalid_argument
                  else Inr (setInputProtocol i (Some q) s))"

definition output_setProtocolInstance :: "nat \<Rightarrow> nat option \<Rightarrow> 'p protocol_store \<Rightarrow> exn + 'p protocol_store" where
  "output_setProtocolInstance i p s =
     (case p of
        None \<Rightarrow> Inl invalid_argument
      | Some q \<Rightarrow> if kind_of (the (protocols s q)) \<noteq> out_kind (outport s i) then Inl invalid_argument
                  else Inr (setOutputProtocol i (Some q) s))"

section \<open>The calls of the ports\<close>

text \<open>An endpoint uses its protocol pointer unchecked.\<close>

definition queue_of :: "'p protocol_store \<Rightarrow> nat option \<Rightarrow> exn + (nat \<times> 'p message_queue)" where
  "queue_of s p =
     (case p of None \<Rightarrow> Inl undefined_behaviour
      | Some q \<Rightarrow> (case protocols s q of Some (MessageQueue m) \<Rightarrow> Inr (q, m) | _ \<Rightarrow> Inl undefined_behaviour))"

definition in_empty :: "'p protocol_store \<Rightarrow> nat \<Rightarrow> exn + bool" where
  "in_empty s i = bindE (queue_of s (in_protocol (inport s i))) (\<lambda>(q, m). Inr (mq_empty m))"

definition in_size :: "'p protocol_store \<Rightarrow> nat \<Rightarrow> exn + nat" where
  "in_size s i = bindE (queue_of s (in_protocol (inport s i))) (\<lambda>(q, m). Inr (numberOfElements m))"

definition in_front :: "'p protocol_store \<Rightarrow> nat \<Rightarrow> exn + 'p" where
  "in_front s i = bindE (queue_of s (in_protocol (inport s i))) (\<lambda>(q, m). nextElement m)"

definition in_pop :: "'p protocol_store \<Rightarrow> nat \<Rightarrow> exn + 'p protocol_store" where
  "in_pop s i =
     bindE (queue_of s (in_protocol (inport s i))) (\<lambda>(q, m).
     bindE (popNextElement m) (\<lambda>m'. Inr (protocol_at q (MessageQueue m') s)))"

definition in_clear :: "'p protocol_store \<Rightarrow> nat \<Rightarrow> exn + 'p protocol_store" where
  "in_clear s i =
     bindE (queue_of s (in_protocol (inport s i))) (\<lambda>(q, m). Inr (protocol_at q (MessageQueue (mq_clear m)) s))"

definition out_empty :: "'p protocol_store \<Rightarrow> nat \<Rightarrow> exn + bool" where
  "out_empty s i = bindE (queue_of s (out_protocol (outport s i))) (\<lambda>(q, m). Inr (mq_empty m))"

definition out_size :: "'p protocol_store \<Rightarrow> nat \<Rightarrow> exn + nat" where
  "out_size s i = bindE (queue_of s (out_protocol (outport s i))) (\<lambda>(q, m). Inr (numberOfElements m))"

definition out_enqueue :: "'p \<Rightarrow> 'p protocol_store \<Rightarrow> nat \<Rightarrow> exn + 'p protocol_store" where
  "out_enqueue v s i =
     bindE (queue_of s (out_protocol (outport s i))) (\<lambda>(q, m). Inr (protocol_at q (MessageQueue (mq_enqueue v m)) s))"

definition buffer_of :: "'p protocol_store \<Rightarrow> nat option \<Rightarrow> exn + (nat \<times> 'p double_buffering)" where
  "buffer_of s p =
     (case p of None \<Rightarrow> Inl undefined_behaviour
      | Some q \<Rightarrow> (case protocols s q of Some (DoubleBuffering m) \<Rightarrow> Inr (q, m) | _ \<Rightarrow> Inl undefined_behaviour))"

definition db_in_data :: "'p protocol_store \<Rightarrow> nat \<Rightarrow> exn + 'p" where
  "db_in_data s i = bindE (buffer_of s (in_protocol (inport s i))) (\<lambda>(q, m). Inr (mBackData m))"

definition in_changed :: "'p protocol_store \<Rightarrow> nat \<Rightarrow> bool" where
  "in_changed s i \<longleftrightarrow> mChanged (inport s i)"

definition resetChanged :: "nat \<Rightarrow> 'p protocol_store \<Rightarrow> 'p protocol_store" where
  "resetChanged i s = s\<lparr>inputs := (inputs s)(i \<mapsto> (inport s i)\<lparr>mChanged := False\<rparr>)\<rparr>"

text \<open>
  \<open>data()\<close> of an output returns a reference to the front buffer; the writer assigns through it.
\<close>

definition db_out_data :: "'p protocol_store \<Rightarrow> nat \<Rightarrow> exn + 'p" where
  "db_out_data s i = bindE (buffer_of s (out_protocol (outport s i))) (\<lambda>(q, m). Inr (mFrontData m))"

definition db_out_write :: "'p \<Rightarrow> 'p protocol_store \<Rightarrow> nat \<Rightarrow> exn + 'p protocol_store" where
  "db_out_write v s i =
     bindE (buffer_of s (out_protocol (outport s i))) (\<lambda>(q, m).
     Inr (protocol_at q (DoubleBuffering (m\<lparr>mFrontData := v\<rparr>)) s))"

definition out_swapBuffers :: "('p \<Rightarrow> size_t) \<Rightarrow> bool \<Rightarrow> 'p protocol_store \<Rightarrow> nat \<Rightarrow> exn + 'p protocol_store" where
  "out_swapBuffers ptype copyValue s i =
     bindE (buffer_of s (out_protocol (outport s i))) (\<lambda>(q, m). swapBuffers ptype copyValue q m s)"

definition shared_of :: "'p protocol_store \<Rightarrow> nat option \<Rightarrow> exn + (nat \<times> 'p shared_data)" where
  "shared_of s p =
     (case p of None \<Rightarrow> Inl undefined_behaviour
      | Some q \<Rightarrow> (case protocols s q of Some (SharedData m) \<Rightarrow> Inr (q, m) | _ \<Rightarrow> Inl undefined_behaviour))"

definition sd_in_data :: "'p protocol_store \<Rightarrow> nat \<Rightarrow> exn + 'p" where
  "sd_in_data s i = bindE (shared_of s (in_protocol (inport s i))) (\<lambda>(q, m). Inr (sd_data m))"

definition sd_out_data :: "'p protocol_store \<Rightarrow> nat \<Rightarrow> exn + 'p" where
  "sd_out_data s i = bindE (shared_of s (out_protocol (outport s i))) (\<lambda>(q, m). Inr (sd_data m))"

definition sd_out_write :: "'p \<Rightarrow> 'p protocol_store \<Rightarrow> nat \<Rightarrow> exn + 'p protocol_store" where
  "sd_out_write v s i =
     bindE (shared_of s (out_protocol (outport s i))) (\<lambda>(q, m).
     Inr (protocol_at q (SharedData (m\<lparr>sd_data := v\<rparr>)) s))"

section \<open>The contract of connecting and disconnecting\<close>

text \<open>
  The laws that \<open>connectInput\<close> with \<open>disconnectInput\<close> and \<open>connectOutput\<close> with
  \<open>disconnectOutput\<close> share for all protocols: \<open>attached\<close> are the endpoints a protocol lists,
  \<open>pointer\<close> is the protocol an endpoint refers to.
\<close>

locale endpoint_contract =
  fixes connect :: "'s \<Rightarrow> nat \<Rightarrow> nat option \<Rightarrow> exn + 's"
    and disconnect :: "'s \<Rightarrow> nat \<Rightarrow> nat option \<Rightarrow> bool \<times> 's"
    and live :: "'s \<Rightarrow> nat \<Rightarrow> bool"
    and attached :: "'s \<Rightarrow> nat \<Rightarrow> nat list"
    and pointer :: "'s \<Rightarrow> nat \<Rightarrow> nat option"
  assumes connect_attaches: "live s q \<Longrightarrow> connect s q p = Inr s' \<Longrightarrow>
      \<exists>i. p = Some i \<and> attached s' = (attached s)(q := if i \<in> set (attached s q) then attached s q else attached s q @ [i]) \<and>
          live s' = live s \<and>
          (pointer s' = (pointer s)(i := Some q) \<or> i \<in> set (attached s q) \<and> pointer s' = pointer s)"
    and disconnect_detaches: "live s q \<Longrightarrow> disconnect s q p = (b, s') \<Longrightarrow>
      (b \<longrightarrow> (\<exists>i. p = Some i \<and> i \<in> set (attached s q) \<and> attached s' = (attached s)(q := remove1 i (attached s q)) \<and>
          live s' = live s \<and> pointer s' = (pointer s)(i := None))) \<and> (\<not> b \<longrightarrow> s' = s)"
begin

definition wired :: "'s \<Rightarrow> bool" where
  "wired s \<longleftrightarrow> (\<forall>i q. pointer s i = Some q \<longrightarrow> i \<in> set (attached s q)) \<and> (\<forall>q. distinct (attached s q))"

lemma wiredD: "wired s \<Longrightarrow> pointer s i = Some q \<Longrightarrow> i \<in> set (attached s q)" "wired s \<Longrightarrow> distinct (attached s q)"
  by (simp_all add: wired_def)

lemma wired_connect:
  assumes "live s q" "connect s q p = Inr s'" "wired s"
  shows "wired s'"
proof -
  obtain i where i: "attached s' = (attached s)(q := if i \<in> set (attached s q) then attached s q else attached s q @ [i])"
      "pointer s' = (pointer s)(i := Some q) \<or> pointer s' = pointer s"
    using connect_attaches [OF assms(1,2)] by blast
  have "j \<in> set (attached s' r)" if "pointer s' j = Some r" for j r
    using that i wiredD(1) [OF assms(3), of j r] by (auto split: if_splits)
  moreover have "distinct (attached s' r)" for r
    using i wiredD(2) [OF assms(3), of r] by auto
  ultimately show ?thesis by (simp add: wired_def)
qed

lemma wired_disconnect:
  assumes "live s q" "disconnect s q p = (b, s')" "wired s"
  shows "wired s'"
proof (cases b)
  case True
  then obtain i where i: "attached s' = (attached s)(q := remove1 i (attached s q))" "pointer s' = (pointer s)(i := None)"
    using disconnect_detaches [OF assms(1,2)] by blast
  have "j \<in> set (attached s' r)" if "pointer s' j = Some r" for j r
    using that i wiredD [OF assms(3)] by (auto split: if_splits)
  moreover have "distinct (attached s' r)" for r
    using i wiredD(2) [OF assms(3), of r] by auto
  ultimately show ?thesis by (simp add: wired_def)
next
  case False
  then show ?thesis using disconnect_detaches [OF assms(1,2)] assms(3) by blast
qed

lemma disconnect_shrinks:
  assumes "live s q" "disconnect s q p = (b, s')"
  shows "\<exists>xs. attached s' = (attached s)(q := xs) \<and> set xs \<subseteq> set (attached s q) \<and> live s' = live s"
proof (cases b)
  case True
  then obtain i where "attached s' = (attached s)(q := remove1 i (attached s q))" "live s' = live s"
    using disconnect_detaches [OF assms] by blast
  then show ?thesis using set_remove1_subset [of i "attached s q"] by (intro exI [of _ "remove1 i (attached s q)"]) simp
next
  case False
  then have "s' = s" using disconnect_detaches [OF assms] by blast
  then show ?thesis by (intro exI [of _ "attached s q"]) simp
qed

text \<open>Disconnecting a freshly connected endpoint restores the list of the protocol.\<close>

lemma disconnect_connect:
  assumes "live s q" "connect s q (Some i) = Inr s'" "i \<notin> set (attached s q)" "disconnect s' q (Some i) = (True, s'')"
  shows "attached s'' = attached s" "pointer s'' i = None"
proof -
  have 1: "attached s' = (attached s)(q := attached s q @ [i])" "live s' q"
    using connect_attaches [OF assms(1,2)] assms(1,3) by auto
  have "attached s'' = (attached s')(q := remove1 i (attached s' q))" "pointer s'' i = None"
    using disconnect_detaches [OF 1(2) assms(4)] by auto
  then show "attached s'' = attached s" "pointer s'' i = None"
    using 1 assms(3) by (auto simp: remove1_append)
qed

end

definition live :: "'p protocol_store \<Rightarrow> nat \<Rightarrow> bool" where
  "live s q \<longleftrightarrow> protocols s q \<noteq> None"

definition attached_inputs :: "'p protocol_store \<Rightarrow> nat \<Rightarrow> nat list" where
  "attached_inputs s q =
     (case protocols s q of None \<Rightarrow> []
      | Some (MessageQueue m) \<Rightarrow> (case mq_input m of None \<Rightarrow> [] | Some i \<Rightarrow> [i])
      | Some (DoubleBuffering m) \<Rightarrow> db_inputs m
      | Some (SharedData m) \<Rightarrow> sd_inputs m)"

definition attached_outputs :: "'p protocol_store \<Rightarrow> nat \<Rightarrow> nat list" where
  "attached_outputs s q =
     (let out = (case protocols s q of None \<Rightarrow> None
                 | Some (MessageQueue m) \<Rightarrow> mq_output m
                 | Some (DoubleBuffering m) \<Rightarrow> db_output m
                 | Some (SharedData m) \<Rightarrow> sd_output m)
      in case out of None \<Rightarrow> [] | Some i \<Rightarrow> [i])"

definition input_pointer :: "'p protocol_store \<Rightarrow> nat \<Rightarrow> nat option" where
  "input_pointer s i = (case inputs s i of None \<Rightarrow> None | Some p \<Rightarrow> in_protocol p)"

definition output_pointer :: "'p protocol_store \<Rightarrow> nat \<Rightarrow> nat option" where
  "output_pointer s i = (case outputs s i of None \<Rightarrow> None | Some p \<Rightarrow> out_protocol p)"

lemma store_views [simp]:
  "live (protocol_at q v s) = (live s)(q := True)"
  "live (setInputProtocol i p s) = live s"
  "live (setOutputProtocol i p s) = live s"
  "attached_inputs (setInputProtocol i p s) = attached_inputs s"
  "attached_outputs (setOutputProtocol i p s) = attached_outputs s"
  "attached_inputs (setOutputProtocol i p s) = attached_inputs s"
  "attached_outputs (setInputProtocol i p s) = attached_outputs s"
  "input_pointer (protocol_at q v s) = input_pointer s"
  "output_pointer (protocol_at q v s) = output_pointer s"
  "input_pointer (setInputProtocol i p s) = (input_pointer s)(i := p)"
  "output_pointer (setOutputProtocol i p s) = (output_pointer s)(i := p)"
  "output_pointer (setInputProtocol i p s) = output_pointer s"
  "input_pointer (setOutputProtocol i p s) = input_pointer s"
  by (auto simp: fun_eq_iff live_def attached_inputs_def attached_outputs_def input_pointer_def output_pointer_def
      protocol_at_def setInputProtocol_def setOutputProtocol_def)

lemma attached_at [simp]:
  "attached_inputs (protocol_at q v s) =
     (attached_inputs s)(q := (case v of MessageQueue m \<Rightarrow> (case mq_input m of None \<Rightarrow> [] | Some i \<Rightarrow> [i])
        | DoubleBuffering m \<Rightarrow> db_inputs m | SharedData m \<Rightarrow> sd_inputs m))"
  "attached_outputs (protocol_at q v s) =
     (attached_outputs s)(q := (case (case v of MessageQueue m \<Rightarrow> mq_output m | DoubleBuffering m \<Rightarrow> db_output m
        | SharedData m \<Rightarrow> sd_output m) of None \<Rightarrow> [] | Some i \<Rightarrow> [i]))"
  by (auto simp: fun_eq_iff attached_inputs_def attached_outputs_def protocol_at_def split: protocol.splits)

lemmas input_calls =
  connectInput_def disconnectInput_def mq_connectInput_def mq_disconnectInput_def db_connectInput_def
  db_disconnectInput_def sd_connectInput_def sd_disconnectInput_def

lemmas output_calls =
  connectOutput_def disconnectOutput_def mq_connectOutput_def mq_disconnectOutput_def db_connectOutput_def
  db_disconnectOutput_def sd_connectOutput_def sd_disconnectOutput_def

lemma typed_eq_Some [simp]:
  "typed_input s k p = Some i \<longleftrightarrow> p = Some i \<and> in_kind (inport s i) = k"
  "typed_output s k p = Some i \<longleftrightarrow> p = Some i \<and> out_kind (outport s i) = k"
  by (auto simp: typed_input_def typed_output_def split: option.splits)

lemma live_upd: "live s q \<Longrightarrow> (live s)(q := True) = live s"
  by (simp add: fun_upd_idem)

text \<open>Connecting either fails or performs one of two changes of the store.\<close>

lemma attached_now:
  "protocols s q = Some (MessageQueue m) \<Longrightarrow> attached_inputs s q = (case mq_input m of None \<Rightarrow> [] | Some i \<Rightarrow> [i])"
  "protocols s q = Some (DoubleBuffering d) \<Longrightarrow> attached_inputs s q = db_inputs d"
  "protocols s q = Some (SharedData h) \<Longrightarrow> attached_inputs s q = sd_inputs h"
  "protocols s q = Some (MessageQueue m) \<Longrightarrow> attached_outputs s q = (case mq_output m of None \<Rightarrow> [] | Some i \<Rightarrow> [i])"
  "protocols s q = Some (DoubleBuffering d) \<Longrightarrow> attached_outputs s q = (case db_output d of None \<Rightarrow> [] | Some i \<Rightarrow> [i])"
  "protocols s q = Some (SharedData h) \<Longrightarrow> attached_outputs s q = (case sd_output h of None \<Rightarrow> [] | Some i \<Rightarrow> [i])"
  by (simp_all add: attached_inputs_def attached_outputs_def)

definition attaching :: "('p protocol_store \<Rightarrow> nat \<Rightarrow> nat list) \<Rightarrow> ('p protocol_store \<Rightarrow> nat \<Rightarrow> nat option)
    \<Rightarrow> 'p protocol_store \<Rightarrow> nat \<Rightarrow> nat option \<Rightarrow> 'p protocol_store \<Rightarrow> bool" where
  "attaching att ptr s q p s' \<longleftrightarrow> (\<exists>i. p = Some i \<and>
     att s' = (att s)(q := if i \<in> set (att s q) then att s q else att s q @ [i]) \<and> live s' = live s \<and>
     (ptr s' = (ptr s)(i := Some q) \<or> i \<in> set (att s q) \<and> ptr s' = ptr s))"

definition detaching :: "('p protocol_store \<Rightarrow> nat \<Rightarrow> nat list) \<Rightarrow> ('p protocol_store \<Rightarrow> nat \<Rightarrow> nat option)
    \<Rightarrow> 'p protocol_store \<Rightarrow> nat \<Rightarrow> nat option \<Rightarrow> 'p protocol_store \<Rightarrow> bool" where
  "detaching att ptr s q p s' \<longleftrightarrow> (\<exists>i. p = Some i \<and> i \<in> set (att s q) \<and>
     att s' = (att s)(q := remove1 i (att s q)) \<and> live s' = live s \<and> ptr s' = (ptr s)(i := None))"

lemma attachingI:
  "\<lbrakk>p = Some i; att s' = (att s)(q := if i \<in> set (att s q) then att s q else att s q @ [i]); live s' = live s;
    ptr s' = (ptr s)(i := Some q) \<or> i \<in> set (att s q) \<and> ptr s' = ptr s\<rbrakk> \<Longrightarrow> attaching att ptr s q p s'"
  by (auto simp: attaching_def)

lemma detachingI:
  "\<lbrakk>p = Some i; i \<in> set (att s q); att s' = (att s)(q := remove1 i (att s q)); live s' = live s;
    ptr s' = (ptr s)(i := None)\<rbrakk> \<Longrightarrow> detaching att ptr s q p s'"
  by (auto simp: detaching_def)

lemma connectInput_attaches:
  assumes q: "live s q" and c: "connectInput s q p = Inr s'"
  shows "attaching attached_inputs input_pointer s q p s'"
proof -
  obtain v where v: "protocols s q = Some v" using q by (auto simp: live_def)
  obtain i where p: "p = Some i"
    using c by (cases v; cases p) (simp_all add: v input_calls typed_input_def)
  show ?thesis
  proof (cases v)
    case (MessageQueue m)
    have a: "attached_inputs s q = []" and s': "s' = setInputProtocol i (Some q) (protocol_at q (MessageQueue (m\<lparr>mq_input := Some i\<rparr>)) s)"
      using c p by (auto simp: v MessageQueue input_calls attached_now(1) split: option.splits if_splits)
    show ?thesis by (rule attachingI [OF p]) (simp_all add: a s' live_upd [OF q])
  next
    case (DoubleBuffering d)
    have a: "attached_inputs s q = db_inputs d" using v DoubleBuffering by (simp add: attached_now)
    have s': "s' = setInputProtocol i (Some q) (if i \<notin> set (db_inputs d)
                   then protocol_at q (DoubleBuffering (d\<lparr>db_inputs := db_inputs d @ [i]\<rparr>)) s else s)"
      using c p by (auto simp: v DoubleBuffering input_calls split: option.splits)
    show ?thesis by (rule attachingI [OF p]) (simp_all add: a s' live_upd [OF q] fun_upd_idem)
  next
    case (SharedData h)
    have a: "attached_inputs s q = sd_inputs h" using v SharedData by (simp add: attached_now)
    have s': "s' = (if i \<notin> set (sd_inputs h)
                   then setInputProtocol i (Some q) (protocol_at q (SharedData (h\<lparr>sd_inputs := sd_inputs h @ [i]\<rparr>)) s) else s)"
      using c p by (auto simp: v SharedData input_calls split: option.splits if_splits)
    show ?thesis by (rule attachingI [OF p]) (simp_all add: a s' live_upd [OF q] fun_upd_idem)
  qed
qed

lemma disconnectInput_detaches:
  assumes q: "live s q" and c: "disconnectInput s q p = (b, s')"
  shows "(b \<longrightarrow> detaching attached_inputs input_pointer s q p s') \<and> (\<not> b \<longrightarrow> s' = s)"
proof -
  obtain v where v: "protocols s q = Some v" using q by (auto simp: live_def)
  show ?thesis
  proof (cases b)
    case False
    then show ?thesis using c by (cases v) (auto simp: v input_calls split: option.splits if_splits)
  next
    case True
    obtain i where p: "p = Some i"
      using c True by (cases v; cases p) (simp_all add: v input_calls typed_input_def)
    show ?thesis
    proof (cases v)
      case (MessageQueue m)
      have m: "Some i = mq_input m" and s': "s' = protocol_at q (MessageQueue (m\<lparr>mq_input := None\<rparr>)) (setInputProtocol i None s)"
        using c p True by (auto simp: v MessageQueue input_calls split: option.splits if_splits)
      have a: "attached_inputs s q = [i]" using v MessageQueue m [symmetric] by (simp add: attached_now)
      show ?thesis using True by (simp add: detachingI [OF p] a s' live_upd [OF q])
    next
      case (DoubleBuffering d)
      have a: "attached_inputs s q = db_inputs d" using v DoubleBuffering by (simp add: attached_now)
      have s': "i \<in> set (db_inputs d)" "s' = protocol_at q (DoubleBuffering (d\<lparr>db_inputs := remove1 i (db_inputs d)\<rparr>)) (setInputProtocol i None s)"
        using c p True by (auto simp: v DoubleBuffering input_calls split: option.splits if_splits)
      show ?thesis using True by (simp add: detachingI [OF p] a s' live_upd [OF q])
    next
      case (SharedData h)
      have a: "attached_inputs s q = sd_inputs h" using v SharedData by (simp add: attached_now)
      have s': "i \<in> set (sd_inputs h)" "s' = protocol_at q (SharedData (h\<lparr>sd_inputs := remove1 i (sd_inputs h)\<rparr>)) (setInputProtocol i None s)"
        using c p True by (auto simp: v SharedData input_calls split: option.splits if_splits)
      show ?thesis using True by (simp add: detachingI [OF p] a s' live_upd [OF q])
    qed
  qed
qed

text \<open>Every protocol has at most one output.\<close>

lemma connectOutput_attaches:
  assumes q: "live s q" and c: "connectOutput s q p = Inr s'"
  shows "attaching attached_outputs output_pointer s q p s'"
proof -
  obtain v where v: "protocols s q = Some v" using q by (auto simp: live_def)
  obtain i where p: "p = Some i"
    using c by (cases v; cases p) (simp_all add: v output_calls typed_output_def)
  obtain w where w: "(case w of MessageQueue m \<Rightarrow> mq_output m | DoubleBuffering m \<Rightarrow> db_output m | SharedData m \<Rightarrow> sd_output m) = Some i"
      "s' = setOutputProtocol i (Some q) (protocol_at q w s)" and a: "attached_outputs s q = []"
  proof (cases v)
    case (MessageQueue m)
    show thesis
      by (rule that [of "MessageQueue (m\<lparr>mq_output := Some i\<rparr>)"])
        (use c p in \<open>auto simp: v MessageQueue output_calls attached_now(4) split: option.splits if_splits\<close>)
  next
    case (DoubleBuffering m)
    show thesis
      by (rule that [of "DoubleBuffering (m\<lparr>db_output := Some i\<rparr>)"])
        (use c p in \<open>auto simp: v DoubleBuffering output_calls attached_now(5) split: option.splits if_splits\<close>)
  next
    case (SharedData m)
    show thesis
      by (rule that [of "SharedData (m\<lparr>sd_output := Some i\<rparr>)"])
        (use c p in \<open>auto simp: v SharedData output_calls attached_now(6) split: option.splits if_splits\<close>)
  qed
  show ?thesis by (rule attachingI [OF p]) (simp_all add: w a live_upd [OF q])
qed

lemma disconnectOutput_detaches:
  assumes q: "live s q" and c: "disconnectOutput s q p = (b, s')"
  shows "(b \<longrightarrow> detaching attached_outputs output_pointer s q p s') \<and> (\<not> b \<longrightarrow> s' = s)"
proof -
  obtain v where v: "protocols s q = Some v" using q by (auto simp: live_def)
  show ?thesis
  proof (cases b)
    case False
    then show ?thesis using c by (cases v) (auto simp: v output_calls split: option.splits if_splits)
  next
    case True
    obtain i where p: "p = Some i"
      using c True by (cases v; cases p) (simp_all add: v output_calls typed_output_def)
    obtain w where w: "(case w of MessageQueue m \<Rightarrow> mq_output m | DoubleBuffering m \<Rightarrow> db_output m | SharedData m \<Rightarrow> sd_output m) = None"
      "s' = protocol_at q w (setOutputProtocol i None s)" and a: "attached_outputs s q = [i]"
    proof (cases v)
      case (MessageQueue m)
      have m: "Some i = mq_output m" and s': "s' = protocol_at q (MessageQueue (m\<lparr>mq_output := None\<rparr>)) (setOutputProtocol i None s)"
        using c p True by (auto simp: v MessageQueue output_calls split: option.splits if_splits)
      have a: "attached_outputs s q = [i]" using v MessageQueue m [symmetric] by (simp add: attached_now)
      show thesis by (rule that [OF _ s' a]) simp
    next
      case (DoubleBuffering m)
      have m: "Some i = db_output m" and s': "s' = protocol_at q (DoubleBuffering (m\<lparr>db_output := None\<rparr>)) (setOutputProtocol i None s)"
        using c p True by (auto simp: v DoubleBuffering output_calls split: option.splits if_splits)
      have a: "attached_outputs s q = [i]" using v DoubleBuffering m [symmetric] by (simp add: attached_now)
      show thesis by (rule that [OF _ s' a]) simp
    next
      case (SharedData m)
      have m: "Some i = sd_output m" and s': "s' = protocol_at q (SharedData (m\<lparr>sd_output := None\<rparr>)) (setOutputProtocol i None s)"
        using c p True by (auto simp: v SharedData output_calls split: option.splits if_splits)
      have a: "attached_outputs s q = [i]" using v SharedData m [symmetric] by (simp add: attached_now)
      show thesis by (rule that [OF _ s' a]) simp
    qed
    show ?thesis using True by (simp add: detachingI [OF p] a w live_upd [OF q])
  qed
qed

interpretation input_side: endpoint_contract connectInput disconnectInput live attached_inputs input_pointer
  by unfold_locales
    (use connectInput_attaches in \<open>unfold attaching_def, blast\<close>, use disconnectInput_detaches in \<open>unfold detaching_def, blast\<close>)

interpretation output_side: endpoint_contract connectOutput disconnectOutput live attached_outputs output_pointer
  by unfold_locales
    (use connectOutput_attaches in \<open>unfold attaching_def, blast\<close>, use disconnectOutput_detaches in \<open>unfold detaching_def, blast\<close>)

section \<open>Sequences of calls\<close>

datatype wiring_call =
    ConnectInput nat nat | ConnectOutput nat nat | DisconnectInput nat nat | DisconnectOutput nat nat

fun call_target :: "wiring_call \<Rightarrow> nat" where
  "call_target (ConnectInput q i) = q"
| "call_target (ConnectOutput q i) = q"
| "call_target (DisconnectInput q i) = q"
| "call_target (DisconnectOutput q i) = q"

text \<open>A call that throws leaves the objects as they were.\<close>

fun run_call :: "wiring_call \<Rightarrow> 'p protocol_store \<Rightarrow> 'p protocol_store" where
  "run_call (ConnectInput q i) s = (case connectInput s q (Some i) of Inl e \<Rightarrow> s | Inr s' \<Rightarrow> s')"
| "run_call (ConnectOutput q i) s = (case connectOutput s q (Some i) of Inl e \<Rightarrow> s | Inr s' \<Rightarrow> s')"
| "run_call (DisconnectInput q i) s = snd (disconnectInput s q (Some i))"
| "run_call (DisconnectOutput q i) s = snd (disconnectOutput s q (Some i))"

text \<open>The classes of an endpoint and of a protocol.\<close>

definition kind_at :: "'p protocol_store \<Rightarrow> nat \<Rightarrow> protocol_kind" where
  "kind_at s q = kind_of (the (protocols s q))"

definition input_kind :: "'p protocol_store \<Rightarrow> nat \<Rightarrow> protocol_kind" where
  "input_kind s i = in_kind (inport s i)"

definition output_kind :: "'p protocol_store \<Rightarrow> nat \<Rightarrow> protocol_kind" where
  "output_kind s i = out_kind (outport s i)"

lemma kind_views [simp]:
  "kind_at (setInputProtocol i p s) = kind_at s" "kind_at (setOutputProtocol i p s) = kind_at s"
  "kind_at (protocol_at q v s) = (kind_at s)(q := kind_of v)"
  "input_kind (setInputProtocol i p s) = input_kind s" "input_kind (setOutputProtocol i p s) = input_kind s"
  "input_kind (protocol_at q v s) = input_kind s"
  "output_kind (setInputProtocol i p s) = output_kind s" "output_kind (setOutputProtocol i p s) = output_kind s"
  "output_kind (protocol_at q v s) = output_kind s"
  by (auto simp: fun_eq_iff kind_at_def input_kind_def output_kind_def setInputProtocol_def setOutputProtocol_def protocol_at_def)

text \<open>
  The wiring is consistent: an endpoint that refers to a protocol is listed by it, no endpoint is
  listed twice, and a protocol lists endpoints of its own class only.
\<close>

definition wiring :: "'p protocol_store \<Rightarrow> bool" where
  "wiring s \<longleftrightarrow>
     (\<forall>i q. input_pointer s i = Some q \<longrightarrow> i \<in> set (attached_inputs s q)) \<and>
     (\<forall>i q. output_pointer s i = Some q \<longrightarrow> i \<in> set (attached_outputs s q)) \<and>
     (\<forall>q. distinct (attached_inputs s q)) \<and> (\<forall>q. distinct (attached_outputs s q)) \<and>
     (\<forall>q i. i \<in> set (attached_inputs s q) \<longrightarrow> input_kind s i = kind_at s q) \<and>
     (\<forall>q i. i \<in> set (attached_outputs s q) \<longrightarrow> output_kind s i = kind_at s q)"

definition kinds_ok :: "'p protocol_store \<Rightarrow> bool" where
  "kinds_ok s \<longleftrightarrow>
     (\<forall>q i. i \<in> set (attached_inputs s q) \<longrightarrow> input_kind s i = kind_at s q) \<and>
     (\<forall>q i. i \<in> set (attached_outputs s q) \<longrightarrow> output_kind s i = kind_at s q)"

lemma wiring_iff: "wiring s \<longleftrightarrow> input_side.wired s \<and> output_side.wired s \<and> kinds_ok s"
  by (simp add: wiring_def input_side.wired_def output_side.wired_def kinds_ok_def) blast

definition outputs_same :: "'p protocol_store \<Rightarrow> 'p protocol_store \<Rightarrow> bool" where
  "outputs_same s s' \<longleftrightarrow> attached_outputs s' = attached_outputs s \<and> output_pointer s' = output_pointer s \<and>
     kind_at s' = kind_at s \<and> input_kind s' = input_kind s \<and> output_kind s' = output_kind s"

definition inputs_same :: "'p protocol_store \<Rightarrow> 'p protocol_store \<Rightarrow> bool" where
  "inputs_same s s' \<longleftrightarrow> attached_inputs s' = attached_inputs s \<and> input_pointer s' = input_pointer s \<and>
     kind_at s' = kind_at s \<and> input_kind s' = input_kind s \<and> output_kind s' = output_kind s"

lemma same_refl [simp]: "outputs_same s s" "inputs_same s s"
  by (simp_all add: outputs_same_def inputs_same_def)

text \<open>Replacing a protocol object by one with the same outputs, or with the same inputs.\<close>

lemma outputs_same_at:
  assumes "protocols s q = Some v" "kind_of w = kind_of v"
    and "(case w of MessageQueue m \<Rightarrow> mq_output m | DoubleBuffering m \<Rightarrow> db_output m | SharedData m \<Rightarrow> sd_output m) =
      (case v of MessageQueue m \<Rightarrow> mq_output m | DoubleBuffering m \<Rightarrow> db_output m | SharedData m \<Rightarrow> sd_output m)"
  shows "outputs_same s (setInputProtocol i p (protocol_at q w s))" "outputs_same s (protocol_at q w (setInputProtocol i p s))"
proof -
  have k: "(kind_at s)(q := kind_of w) = kind_at s" using assms(1,2) by (simp add: fun_upd_idem kind_at_def)
  have a: "(attached_outputs s)(q := (case (case w of MessageQueue m \<Rightarrow> mq_output m | DoubleBuffering m \<Rightarrow> db_output m
     | SharedData m \<Rightarrow> sd_output m) of None \<Rightarrow> [] | Some i \<Rightarrow> [i])) = attached_outputs s"
    unfolding assms(3) using assms(1) by (simp add: fun_upd_idem attached_outputs_def)
  show "outputs_same s (setInputProtocol i p (protocol_at q w s))" "outputs_same s (protocol_at q w (setInputProtocol i p s))"
    by (simp_all add: outputs_same_def k a)
qed

lemma inputs_same_at:
  assumes "protocols s q = Some v" "kind_of w = kind_of v"
    and "attached_inputs (protocol_at q w s) q = attached_inputs s q"
  shows "inputs_same s (setOutputProtocol i p (protocol_at q w s))" "inputs_same s (protocol_at q w (setOutputProtocol i p s))"
proof -
  have k: "(kind_at s)(q := kind_of w) = kind_at s" using assms(1,2) by (simp add: fun_upd_idem kind_at_def)
  have a: "(attached_inputs s)(q := (case w of MessageQueue m \<Rightarrow> (case mq_input m of None \<Rightarrow> [] | Some i \<Rightarrow> [i])
        | DoubleBuffering m \<Rightarrow> db_inputs m | SharedData m \<Rightarrow> sd_inputs m)) = attached_inputs s"
    using assms(3) by (simp add: fun_upd_idem)
  show "inputs_same s (setOutputProtocol i p (protocol_at q w s))" "inputs_same s (protocol_at q w (setOutputProtocol i p s))"
    by (simp_all add: inputs_same_def k a)
qed

lemma outputs_same_setInput: "outputs_same s (setInputProtocol i p s)"
  by (simp add: outputs_same_def)

lemma connectInput_outputs:
  assumes q: "live s q" and c: "connectInput s q p = Inr s'"
  shows "outputs_same s s'"
proof -
  obtain v where v: "protocols s q = Some v" using q by (auto simp: live_def)
  show ?thesis using c
    by (cases v) (auto simp: v input_calls Let_def intro: outputs_same_at [OF v] outputs_same_setInput
        split: option.splits if_splits)
qed

lemma disconnectInput_outputs:
  assumes q: "live s q" and c: "disconnectInput s q p = (b, s')"
  shows "outputs_same s s'"
proof -
  obtain v where v: "protocols s q = Some v" using q by (auto simp: live_def)
  show ?thesis using c
    by (cases v) (auto simp: v input_calls intro: outputs_same_at [OF v] split: option.splits if_splits)
qed

lemma connectOutput_inputs:
  assumes q: "live s q" and c: "connectOutput s q p = Inr s'"
  shows "inputs_same s s'"
proof -
  obtain v where v: "protocols s q = Some v" using q by (auto simp: live_def)
  show ?thesis using c
    by (cases v) (auto simp: v output_calls attached_now intro!: inputs_same_at [OF v] split: option.splits if_splits)
qed

lemma disconnectOutput_inputs:
  assumes q: "live s q" and c: "disconnectOutput s q p = (b, s')"
  shows "inputs_same s s'"
proof -
  obtain v where v: "protocols s q = Some v" using q by (auto simp: live_def)
  show ?thesis using c
    by (cases v) (auto simp: v output_calls attached_now intro!: inputs_same_at [OF v] split: option.splits if_splits)
qed

text \<open>The class of a connected endpoint was checked by the cast.\<close>

lemma connectInput_kind:
  assumes q: "live s q" and c: "connectInput s q (Some i) = Inr s'"
  shows "input_kind s i = kind_at s q"
proof -
  obtain v where v: "protocols s q = Some v" using q by (auto simp: live_def)
  show ?thesis using c
    by (cases v) (auto simp: v input_calls kind_at_def input_kind_def split: option.splits)
qed

lemma connectOutput_kind:
  assumes q: "live s q" and c: "connectOutput s q (Some i) = Inr s'"
  shows "output_kind s i = kind_at s q"
proof -
  obtain v where v: "protocols s q = Some v" using q by (auto simp: live_def)
  show ?thesis using c
    by (cases v) (auto simp: v output_calls kind_at_def output_kind_def split: option.splits)
qed

lemma kinds_ok_attach:
  assumes "kinds_ok s" "attached_inputs s' = (attached_inputs s)(q := xs)" "attached_outputs s' = (attached_outputs s)(q := ys)"
    and "kind_at s' = kind_at s" "input_kind s' = input_kind s" "output_kind s' = output_kind s"
    and "\<And>i. i \<in> set xs \<Longrightarrow> i \<in> set (attached_inputs s q) \<or> input_kind s i = kind_at s q"
    and "\<And>i. i \<in> set ys \<Longrightarrow> i \<in> set (attached_outputs s q) \<or> output_kind s i = kind_at s q"
  shows "kinds_ok s'"
  using assms unfolding kinds_ok_def by (simp split: if_splits) metis

lemma wiring_run_call:
  assumes w: "wiring s" and l: "live s (call_target c)"
  shows "wiring (run_call c s) \<and> live (run_call c s) = live s"
proof (cases c)
  case (ConnectInput q i)
  show ?thesis
  proof (cases "connectInput s q (Some i)")
    case (Inr s')
    have l: "live s q" using l ConnectInput by simp
    note o = connectInput_outputs [OF l Inr, unfolded outputs_same_def]
    have a: "attached_inputs s' = (attached_inputs s)(q := if i \<in> set (attached_inputs s q) then attached_inputs s q
       else attached_inputs s q @ [i])" "live s' = live s"
      using input_side.connect_attaches [OF l Inr] by auto
    have "input_side.wired s'" using input_side.wired_connect [OF l Inr] w by (simp add: wiring_iff)
    moreover have "output_side.wired s'" using w o by (simp add: wiring_iff output_side.wired_def)
    moreover have "kinds_ok s'"
      by (rule kinds_ok_attach [where s = s and q = q, OF _ a(1)])
        (use w o connectInput_kind [OF l Inr] in \<open>auto simp: wiring_iff split: if_splits\<close>)
    ultimately show ?thesis using a(2) ConnectInput Inr by (simp add: wiring_iff)
  qed (use w ConnectInput in simp)
next
  case (ConnectOutput q i)
  show ?thesis
  proof (cases "connectOutput s q (Some i)")
    case (Inr s')
    have l: "live s q" using l ConnectOutput by simp
    note o = connectOutput_inputs [OF l Inr, unfolded inputs_same_def]
    have a: "attached_outputs s' = (attached_outputs s)(q := if i \<in> set (attached_outputs s q) then attached_outputs s q
       else attached_outputs s q @ [i])" "live s' = live s"
      using output_side.connect_attaches [OF l Inr] by auto
    have "output_side.wired s'" using output_side.wired_connect [OF l Inr] w by (simp add: wiring_iff)
    moreover have "input_side.wired s'" using w o by (simp add: wiring_iff input_side.wired_def)
    moreover have "kinds_ok s'"
      by (rule kinds_ok_attach [where s = s and q = q, OF _ _ a(1)])
        (use w o connectOutput_kind [OF l Inr] in \<open>auto simp: wiring_iff split: if_splits\<close>)
    ultimately show ?thesis using a(2) ConnectOutput Inr by (simp add: wiring_iff)
  qed (use w ConnectOutput in simp)
next
  case (DisconnectInput q i)
  obtain b s' where d: "disconnectInput s q (Some i) = (b, s')" by fastforce
  have l: "live s q" using l DisconnectInput by simp
  note o = disconnectInput_outputs [OF l d, unfolded outputs_same_def]
  obtain xs where a: "attached_inputs s' = (attached_inputs s)(q := xs)" "live s' = live s"
      "set xs \<subseteq> set (attached_inputs s q)"
    using input_side.disconnect_shrinks [OF l d] by blast
  have "input_side.wired s'" using input_side.wired_disconnect [OF l d] w by (simp add: wiring_iff)
  moreover have "output_side.wired s'" using w o by (simp add: wiring_iff output_side.wired_def)
  moreover have "kinds_ok s'"
    by (rule kinds_ok_attach [where s = s and q = q, OF _ a(1)]) (use w o a(3) in \<open>auto simp: wiring_iff\<close>)
  ultimately show ?thesis using a(2) DisconnectInput d by (simp add: wiring_iff)
next
  case (DisconnectOutput q i)
  obtain b s' where d: "disconnectOutput s q (Some i) = (b, s')" by fastforce
  have l: "live s q" using l DisconnectOutput by simp
  note o = disconnectOutput_inputs [OF l d, unfolded inputs_same_def]
  obtain xs where a: "attached_outputs s' = (attached_outputs s)(q := xs)" "live s' = live s"
      "set xs \<subseteq> set (attached_outputs s q)"
    using output_side.disconnect_shrinks [OF l d] by blast
  have "output_side.wired s'" using output_side.wired_disconnect [OF l d] w by (simp add: wiring_iff)
  moreover have "input_side.wired s'" using w o by (simp add: wiring_iff input_side.wired_def)
  moreover have "kinds_ok s'"
    by (rule kinds_ok_attach [where s = s and q = q, OF _ _ a(1)]) (use w o a(3) in \<open>auto simp: wiring_iff\<close>)
  ultimately show ?thesis using a(2) DisconnectOutput d by (simp add: wiring_iff)
qed

text \<open>Two queues, a double buffer and shared data, with endpoints that are not connected.\<close>

definition ex_protocols :: "nat protocol_store" where
  "ex_protocols =
     \<lparr>protocols = [0 \<mapsto> MessageQueue (mq_new 7 EmptyParameterConfig),
                   1 \<mapsto> DoubleBuffering \<lparr>db_parameterType = 7, db_config = EmptyParameterConfig, db_output = None,
                          db_inputs = [], mBackData = 0, mFrontData = 0\<rparr>],
      inputs = [0 \<mapsto> \<lparr>in_kind = MessageQueueKind, in_protocol = None, mChanged = False\<rparr>,
                1 \<mapsto> \<lparr>in_kind = DoubleBufferingKind, in_protocol = None, mChanged = False\<rparr>,
                2 \<mapsto> \<lparr>in_kind = DoubleBufferingKind, in_protocol = None, mChanged = False\<rparr>],
      outputs = [0 \<mapsto> \<lparr>out_kind = MessageQueueKind, out_protocol = None\<rparr>,
                 1 \<mapsto> \<lparr>out_kind = DoubleBufferingKind, out_protocol = None\<rparr>]\<rparr>"

definition ex_wiring_calls :: "wiring_call list" where
  "ex_wiring_calls = [ConnectInput 0 0, ConnectOutput 0 0, ConnectInput 0 1, ConnectInput 1 1, ConnectInput 1 2,
     ConnectOutput 1 1, ConnectOutput 1 0]"

definition ex_wired :: "nat protocol_store" where
  "ex_wired = fold run_call ex_wiring_calls ex_protocols"

lemma ex_protocols_wiring: "wiring ex_protocols"
  unfolding wiring_def
  by (auto simp: ex_protocols_def attached_inputs_def attached_outputs_def input_pointer_def output_pointer_def
      mq_new_def split: option.splits if_splits)

lemma wiring_calls:
  "\<lbrakk>wiring s; list_all (\<lambda>c. live s (call_target c)) cs\<rbrakk> \<Longrightarrow> wiring (fold run_call cs s) \<and> live (fold run_call cs s) = live s"
proof (induction cs arbitrary: s)
  case (Cons c cs)
  have w: "wiring (run_call c s)" "live (run_call c s) = live s" using wiring_run_call [of s c] Cons.prems by auto
  have "list_all (\<lambda>d. live (run_call c s) (call_target d)) cs" using Cons.prems by (simp add: w)
  then show ?case using Cons.IH [OF w(1)] w(2) by simp
qed simp

lemma wiring_input:
  assumes "wiring s" "input_pointer s i = Some q"
  shows "\<exists>v. protocols s q = Some v \<and> kind_of v = in_kind (inport s i) \<and> i \<in> set (attached_inputs s q)"
proof -
  have i: "i \<in> set (attached_inputs s q)" and k: "input_kind s i = kind_at s q"
    using assms by (auto simp: wiring_def)
  then obtain v where "protocols s q = Some v" by (cases "protocols s q") (auto simp: attached_inputs_def)
  then show ?thesis using i k by (simp add: input_kind_def kind_at_def)
qed

lemma option_list: "i \<in> set (case x of None \<Rightarrow> [] | Some i \<Rightarrow> [i]) \<Longrightarrow> (case x of None \<Rightarrow> [] | Some i \<Rightarrow> [i]) = [i]"
  by (cases x) auto

lemma wiring_output:
  assumes "wiring s" "output_pointer s i = Some q"
  shows "\<exists>v. protocols s q = Some v \<and> kind_of v = out_kind (outport s i) \<and> attached_outputs s q = [i]"
proof -
  have i: "i \<in> set (attached_outputs s q)" and k: "output_kind s i = kind_at s q"
    using assms by (auto simp: wiring_def)
  then obtain v where v: "protocols s q = Some v" by (cases "protocols s q") (auto simp: attached_outputs_def)
  have "attached_outputs s q = [i]" using i unfolding attached_outputs_def Let_def by (rule option_list)
  then show ?thesis using k v by (simp add: output_kind_def kind_at_def)
qed

lemma kind_of_cases:
  "kind_of v = MessageQueueKind \<longleftrightarrow> (\<exists>m. v = MessageQueue m)"
  "kind_of v = DoubleBufferingKind \<longleftrightarrow> (\<exists>m. v = DoubleBuffering m)"
  "kind_of v = SharedDataKind \<longleftrightarrow> (\<exists>m. v = SharedData m)"
  by (cases v; simp)+

lemma pointer_of:
  "input_pointer s i = Some q \<Longrightarrow> in_protocol (inport s i) = Some q"
  "output_pointer s i = Some q \<Longrightarrow> out_protocol (outport s i) = Some q"
  by (auto simp: input_pointer_def output_pointer_def split: option.splits)

definition ok_call :: "exn + 'a \<Rightarrow> bool" where
  "ok_call r \<longleftrightarrow> r \<noteq> Inl undefined_behaviour"

text \<open>
  C34 (protocols_wired): whatever connect and disconnect calls are made, in any order and including
  those that throw, an endpoint refers only to a protocol that exists, is of its own class and
  lists it, and no endpoint is listed twice. So the calls of a connected endpoint, which use the
  pointer and the class unchecked, always have a meaning.
\<close>

theorem protocols_wired:
  fixes s :: "'p protocol_store"
  assumes "wiring s" and "list_all (\<lambda>c. live s (call_target c)) cs" and "t = fold run_call cs s"
  shows "wiring t \<and>
    (input_pointer t i = Some q \<and> in_kind (inport t i) = MessageQueueKind \<longrightarrow>
       ok_call (in_empty t i) \<and> ok_call (in_size t i) \<and> ok_call (in_front t i) \<and> ok_call (in_pop t i) \<and> ok_call (in_clear t i)) \<and>
    (output_pointer t i = Some q \<and> out_kind (outport t i) = MessageQueueKind \<longrightarrow>
       ok_call (out_empty t i) \<and> ok_call (out_size t i) \<and> ok_call (out_enqueue x t i)) \<and>
    (input_pointer t i = Some q \<and> in_kind (inport t i) = DoubleBufferingKind \<longrightarrow> ok_call (db_in_data t i)) \<and>
    (output_pointer t i = Some q \<and> out_kind (outport t i) = DoubleBufferingKind \<longrightarrow>
       ok_call (db_out_data t i) \<and> ok_call (db_out_write x t i) \<and> ok_call (out_swapBuffers ptype b t i)) \<and>
    (input_pointer t i = Some q \<and> in_kind (inport t i) = SharedDataKind \<longrightarrow> ok_call (sd_in_data t i)) \<and>
    (output_pointer t i = Some q \<and> out_kind (outport t i) = SharedDataKind \<longrightarrow>
       ok_call (sd_out_data t i) \<and> ok_call (sd_out_write x t i))"
proof -
  have w: "wiring t" using wiring_calls [OF assms(1,2)] assms(3) by simp
  note ptr = pointer_of [where s = t]
  have mi: "\<exists>m. queue_of t (in_protocol (inport t i)) = Inr (q, m)"
    if "input_pointer t i = Some q" "in_kind (inport t i) = MessageQueueKind"
    using wiring_input [OF w that(1)] that ptr by (auto simp: kind_of_cases queue_of_def)
  have mo: "\<exists>m. queue_of t (out_protocol (outport t i)) = Inr (q, m)"
    if "output_pointer t i = Some q" "out_kind (outport t i) = MessageQueueKind"
    using wiring_output [OF w that(1)] that ptr by (auto simp: kind_of_cases queue_of_def)
  have di: "\<exists>m. buffer_of t (in_protocol (inport t i)) = Inr (q, m)"
    if "input_pointer t i = Some q" "in_kind (inport t i) = DoubleBufferingKind"
    using wiring_input [OF w that(1)] that ptr by (auto simp: kind_of_cases buffer_of_def)
  have do: "\<exists>m. buffer_of t (out_protocol (outport t i)) = Inr (q, m)"
    if "output_pointer t i = Some q" "out_kind (outport t i) = DoubleBufferingKind"
    using wiring_output [OF w that(1)] that ptr by (auto simp: kind_of_cases buffer_of_def)
  have si: "\<exists>m. shared_of t (in_protocol (inport t i)) = Inr (q, m)"
    if "input_pointer t i = Some q" "in_kind (inport t i) = SharedDataKind"
    using wiring_input [OF w that(1)] that ptr by (auto simp: kind_of_cases shared_of_def)
  have so: "\<exists>m. shared_of t (out_protocol (outport t i)) = Inr (q, m)"
    if "output_pointer t i = Some q" "out_kind (outport t i) = SharedDataKind"
    using wiring_output [OF w that(1)] that ptr by (auto simp: kind_of_cases shared_of_def)
  show ?thesis
    by (intro conjI w impI; (elim conjE)?; (frule (1) mi)?; (frule (1) mo)?; (frule (1) di)?; (frule (1) do)?;
        (frule (1) si)?; (frule (1) so)?)
      (auto simp: ok_call_def in_empty_def in_size_def in_front_def in_pop_def in_clear_def out_empty_def
        out_size_def out_enqueue_def db_in_data_def db_out_data_def db_out_write_def out_swapBuffers_def
        swapBuffers_def assign_def sd_in_data_def sd_out_data_def sd_out_write_def nextElement_def popNextElement_def)
qed

theorem protocols_wired_witness:
  "wiring ex_wired \<and> ok_call (db_in_data ex_wired 1) \<and> input_pointer ex_wired 1 = Some 1"
proof -
  have l: "list_all (\<lambda>c. live ex_protocols (call_target c)) ex_wiring_calls"
    by (simp add: ex_wiring_calls_def live_def ex_protocols_def)
  have p: "input_pointer ex_wired 1 = Some 1 \<and> in_kind (inport ex_wired 1) = DoubleBufferingKind" by code_simp
  show ?thesis
    using protocols_wired [OF ex_protocols_wiring l ex_wired_def, of 1 1] p by blast
qed

section \<open>The message queue is first in, first out\<close>

datatype 'p queue_call = Enqueue 'p | Pop

text \<open>The sender enqueues at an output; the receiver takes the front element and pops it.\<close>

fun queue_run :: "nat \<Rightarrow> nat \<Rightarrow> 'p queue_call list \<Rightarrow> 'p protocol_store \<Rightarrow> exn + ('p list \<times> 'p protocol_store)" where
  "queue_run out i [] s = Inr ([], s)"
| "queue_run out i (Enqueue v # cs) s = bindE (out_enqueue v s out) (queue_run out i cs)"
| "queue_run out i (Pop # cs) s =
     bindE (in_empty s i) (\<lambda>e.
     if e then queue_run out i cs s
     else bindE (in_front s i) (\<lambda>v. bindE (in_pop s i) (\<lambda>s'.
          bindE (queue_run out i cs s') (\<lambda>(vs, s''). Inr (v # vs, s'')))))"

fun queue_spec :: "'p list \<Rightarrow> 'p queue_call list \<Rightarrow> 'p list \<times> 'p list" where
  "queue_spec xs [] = ([], xs)"
| "queue_spec xs (Enqueue v # cs) = queue_spec (xs @ [v]) cs"
| "queue_spec [] (Pop # cs) = queue_spec [] cs"
| "queue_spec (x # xs) (Pop # cs) = (let (vs, ys) = queue_spec xs cs in (x # vs, ys))"

fun sent :: "'p queue_call list \<Rightarrow> 'p list" where
  "sent [] = []"
| "sent (Enqueue v # cs) = v # sent cs"
| "sent (Pop # cs) = sent cs"

lemma queue_spec_order: "fst (queue_spec xs cs) @ snd (queue_spec xs cs) = xs @ sent cs"
  by (induction xs cs rule: queue_spec.induct) (auto split: prod.splits)

lemma queue_of_at [simp]:
  "queue_of (protocol_at q (MessageQueue m) s) (Some q) = Inr (q, m)"
  by (simp add: queue_of_def protocol_at_def)

lemma ports_at [simp]:
  "inputs (protocol_at q v s) = inputs s" "outputs (protocol_at q v s) = outputs s"
  "protocols (protocol_at q v s) = (protocols s)(q \<mapsto> v)"
  by (simp_all add: protocol_at_def)

lemma protocol_at_at [simp]: "protocol_at q v (protocol_at q w s) = protocol_at q v s"
  by (simp add: protocol_at_def)

lemma queue_run_spec:
  assumes "out_protocol (outport s out) = Some q" "in_protocol (inport s i) = Some q" "protocols s q = Some (MessageQueue m)"
  shows "\<exists>m'. queue_run out i cs s =
     Inr (fst (queue_spec (rev (mQueue m)) cs), protocol_at q (MessageQueue (m\<lparr>mQueue := m'\<rparr>)) s) \<and>
     rev m' = snd (queue_spec (rev (mQueue m)) cs)"
  using assms
proof (induction cs arbitrary: s m)
  case Nil
  have "protocol_at q (MessageQueue (m\<lparr>mQueue := mQueue m\<rparr>)) s = s"
    using Nil(3) by (simp add: protocol_at_def fun_upd_idem)
  then show ?case by (intro exI [of _ "mQueue m"]) simp
next
  case (Cons c cs)
  have q: "queue_of s (Some q) = Inr (q, m)" using Cons.prems(3) by (simp add: queue_of_def)
  show ?case
  proof (cases c)
    case (Enqueue v)
    let ?m = "mq_enqueue v m"
    obtain m' where "queue_run out i cs (protocol_at q (MessageQueue ?m) s) =
       Inr (fst (queue_spec (rev (mQueue ?m)) cs), protocol_at q (MessageQueue (?m\<lparr>mQueue := m'\<rparr>)) (protocol_at q (MessageQueue ?m) s))"
       "rev m' = snd (queue_spec (rev (mQueue ?m)) cs)"
      using Cons.IH [of "protocol_at q (MessageQueue ?m) s" ?m] Cons.prems by auto
    then show ?thesis using q Cons.prems
      by (intro exI [of _ m']) (simp add: Enqueue out_enqueue_def mq_enqueue_def)
  next
    case Pop
    show ?thesis
    proof (cases "mQueue m = []")
      case True
      then show ?thesis using Cons.IH [OF Cons.prems] q Cons.prems
        by (simp add: Pop in_empty_def mq_empty_def)
    next
      case False
      then obtain xs x where xs: "mQueue m = xs @ [x]" by (metis append_butlast_last_id)
      let ?m = "m\<lparr>mQueue := xs\<rparr>"
      obtain m' where "queue_run out i cs (protocol_at q (MessageQueue ?m) s) =
         Inr (fst (queue_spec (rev (mQueue ?m)) cs), protocol_at q (MessageQueue (?m\<lparr>mQueue := m'\<rparr>)) (protocol_at q (MessageQueue ?m) s))"
         "rev m' = snd (queue_spec (rev (mQueue ?m)) cs)"
        using Cons.IH [of "protocol_at q (MessageQueue ?m) s" ?m] Cons.prems by auto
      then show ?thesis using q Cons.prems
        by (intro exI [of _ m'])
          (simp add: Pop xs in_empty_def mq_empty_def in_front_def nextElement_def in_pop_def popNextElement_def split: prod.splits)
    qed
  qed
qed

text \<open>
  C35 (message_queue_fifo): the receiver of a message queue gets the messages in the order they were
  sent, none lost and none twice: whatever the interleaving of enqueue and pop calls, the messages
  received followed by those left in the queue are those that were in it followed by those sent,
  and a pop delivers a message whenever the queue is not empty. No other protocol is touched.
\<close>

theorem message_queue_fifo:
  assumes "wiring s" and "output_pointer s out = Some q" and "input_pointer s i = Some q"
    and "out_kind (outport s out) = MessageQueueKind" and "protocols s q = Some (MessageQueue m)"
  shows "\<exists>received s' m'. queue_run out i cs s = Inr (received, s') \<and>
    protocols s' = (protocols s)(q \<mapsto> MessageQueue m') \<and> inputs s' = inputs s \<and> outputs s' = outputs s \<and>
    received @ rev (mQueue m') = rev (mQueue m) @ sent cs \<and>
    (received, rev (mQueue m')) = queue_spec (rev (mQueue m)) cs"
proof -
  have p: "out_protocol (outport s out) = Some q" "in_protocol (inport s i) = Some q"
    using pointer_of assms(2,3) by auto
  obtain m' where m': "queue_run out i cs s =
     Inr (fst (queue_spec (rev (mQueue m)) cs), protocol_at q (MessageQueue (m\<lparr>mQueue := m'\<rparr>)) s)"
     "rev m' = snd (queue_spec (rev (mQueue m)) cs)"
    using queue_run_spec [OF p assms(5), of cs] by blast
  show ?thesis
    by (intro exI [of _ "fst (queue_spec (rev (mQueue m)) cs)"] exI [of _ "protocol_at q (MessageQueue (m\<lparr>mQueue := m'\<rparr>)) s"]
        exI [of _ "m\<lparr>mQueue := m'\<rparr>"]) (simp add: m' queue_spec_order)
qed

definition ex_queue_calls :: "nat queue_call list" where
  "ex_queue_calls = [Pop, Enqueue 5, Enqueue 6, Pop, Enqueue 7, Pop]"

theorem message_queue_fifo_witness:
  "\<exists>received s' m'. queue_run 0 0 ex_queue_calls ex_wired = Inr (received, s') \<and> protocols s' 0 = Some (MessageQueue m') \<and>
    received = [5, 6] \<and> mQueue m' = [7]"
proof -
  have l: "list_all (\<lambda>c. live ex_protocols (call_target c)) ex_wiring_calls"
    by (simp add: ex_wiring_calls_def live_def ex_protocols_def)
  have w: "wiring ex_wired" using wiring_calls [OF ex_protocols_wiring l] by (simp add: ex_wired_def)
  have p: "output_pointer ex_wired 0 = Some 0" "input_pointer ex_wired 0 = Some 0"
    "out_kind (outport ex_wired 0) = MessageQueueKind"
    "protocols ex_wired 0 = Some (MessageQueue \<lparr>mq_parameterType = 7, mq_config = EmptyParameterConfig, mQueue = [],
        mq_input = Some 0, mq_output = Some 0\<rparr>)"
    by code_simp+
  obtain received s' m' where r: "queue_run 0 0 ex_queue_calls ex_wired = Inr (received, s')"
      "protocols s' = (protocols ex_wired)(0 \<mapsto> MessageQueue m')" "(received, rev (mQueue m')) = queue_spec [] ex_queue_calls"
    using message_queue_fifo [OF w p, of ex_queue_calls] by auto
  have "queue_spec [] ex_queue_calls = ([5, 6], [7])" by (simp add: ex_queue_calls_def)
  then have "received = [5, 6]" "mQueue m' = [7]" using r(3) by (auto simp: rev_eq_Cons_iff)
  then show ?thesis using r(1,2) by auto
qed

section \<open>The double buffer\<close>

lemma buffer_of_at [simp]:
  "buffer_of (protocol_at q (DoubleBuffering m) s) (Some q) = Inr (q, m)"
  by (simp add: buffer_of_def protocol_at_def)

lemma markChanged_views [simp]:
  "protocols (markChanged i s) = protocols s" "outputs (markChanged i s) = outputs s"
  "in_protocol (inport (markChanged i s) j) = in_protocol (inport s j)"
  "in_changed (markChanged i s) j \<longleftrightarrow> i = j \<or> in_changed s j"
  by (simp_all add: markChanged_def in_changed_def)

lemma markChanged_all [simp]:
  "protocols (fold markChanged is s) = protocols s" "outputs (fold markChanged is s) = outputs s"
  "in_protocol (inport (fold markChanged is s) j) = in_protocol (inport s j)"
  "in_changed (fold markChanged is s) j \<longleftrightarrow> j \<in> set is \<or> in_changed s j"
  by (induction "is" arbitrary: s) auto

text \<open>
  C36 (double_buffering_exchange): what the writer stores stays invisible to all readers until it
  swaps the buffers; then every connected reader sees exactly that value and is marked as changed,
  no other reader is marked, and what the writer stores next is again invisible. With the copying
  swap the writer goes on from the value it published, otherwise from the value published before.
\<close>

theorem double_buffering_exchange:
  fixes s :: "'p protocol_store" and ptype :: "'p \<Rightarrow> size_t"
  assumes "wiring s" and "output_pointer s out = Some q" and "input_pointer s i = Some q"
    and "protocols s q = Some (DoubleBuffering d)" and "ptype (mBackData d) = ptype v"
  shows "\<exists>s1 s2 s3. db_out_write v s out = Inr s1 \<and> out_swapBuffers ptype copyValue s1 out = Inr s2 \<and>
    db_out_write w s2 out = Inr s3 \<and>
    db_in_data s1 i = db_in_data s i \<and> in_changed s1 j = in_changed s j \<and>
    db_in_data s2 i = Inr v \<and> (in_changed s2 j \<longleftrightarrow> j \<in> set (db_inputs d) \<or> in_changed s j) \<and> in_changed s2 i \<and>
    db_out_data s2 out = Inr (if copyValue then v else mBackData d) \<and> db_in_data s3 i = Inr v"
proof -
  have p: "out_protocol (outport s out) = Some q" "in_protocol (inport s i) = Some q"
    using pointer_of assms(2,3) by auto
  have b: "buffer_of s (Some q) = Inr (q, d)" using assms(4) by (simp add: buffer_of_def)
  have i: "i \<in> set (db_inputs d)" using wiring_input [OF assms(1,3)] assms(4) by (auto simp: attached_now(2))
  define s1 where "s1 = protocol_at q (DoubleBuffering (d\<lparr>mFrontData := v\<rparr>)) s"
  define d2 where "d2 = d\<lparr>mBackData := v, mFrontData := if copyValue then v else mBackData d\<rparr>"
  define s2 where "s2 = fold markChanged (db_inputs d) (protocol_at q (DoubleBuffering d2) s1)"
  define s3 where "s3 = protocol_at q (DoubleBuffering (d2\<lparr>mFrontData := w\<rparr>)) s2"
  have p1: "out_protocol (outport s1 out) = Some q" "in_protocol (inport s1 i) = Some q"
    "out_protocol (outport s2 out) = Some q" "in_protocol (inport s2 i) = Some q" "in_protocol (inport s3 i) = Some q"
    by (simp_all add: s1_def s2_def s3_def p)
  have b1: "buffer_of s1 (Some q) = Inr (q, d\<lparr>mFrontData := v\<rparr>)" "buffer_of s2 (Some q) = Inr (q, d2)"
    "buffer_of s3 (Some q) = Inr (q, d2\<lparr>mFrontData := w\<rparr>)"
    by (simp_all add: s1_def s2_def s3_def buffer_of_def)
  have w1: "db_out_write v s out = Inr s1" using p b by (simp add: db_out_write_def s1_def)
  have w2: "out_swapBuffers ptype copyValue s1 out = Inr s2"
    using p1 assms(5) by (simp add: out_swapBuffers_def b1 swapBuffers_def assign_def s2_def d2_def)
  have w3: "db_out_write w s2 out = Inr s3" using p1 by (simp add: db_out_write_def b1 s3_def)
  have c: "in_changed s1 j = in_changed s j" "in_changed s2 j \<longleftrightarrow> j \<in> set (db_inputs d) \<or> in_changed s j" "in_changed s2 i"
    using i by (simp_all add: s1_def s2_def) (simp_all add: in_changed_def)
  have r: "db_in_data s i = Inr (mBackData d)" "db_in_data s1 i = Inr (mBackData d)" "db_in_data s2 i = Inr v"
    "db_in_data s3 i = Inr v" "db_out_data s2 out = Inr (if copyValue then v else mBackData d)"
    using p p1 b b1 by (simp_all add: db_in_data_def db_out_data_def d2_def)
  show ?thesis
    by (rule exI [of _ s1], rule exI [of _ s2], rule exI [of _ s3]) (simp add: w1 w2 w3 c r)
qed

theorem double_buffering_exchange_witness:
  "\<exists>s1 s2. db_out_write 9 ex_wired 1 = Inr s1 \<and> out_swapBuffers (\<lambda>x. 7) True s1 1 = Inr s2 \<and>
    db_in_data s1 2 = Inr 0 \<and> db_in_data s2 2 = Inr 9 \<and> in_changed s2 2 \<and> db_out_data s2 1 = Inr 9"
proof -
  have l: "list_all (\<lambda>c. live ex_protocols (call_target c)) ex_wiring_calls"
    by (simp add: ex_wiring_calls_def live_def ex_protocols_def)
  have w: "wiring ex_wired" using wiring_calls [OF ex_protocols_wiring l] by (simp add: ex_wired_def)
  have p: "output_pointer ex_wired 1 = Some 1" "input_pointer ex_wired 2 = Some 1"
    "protocols ex_wired 1 = Some (DoubleBuffering \<lparr>db_parameterType = 7, db_config = EmptyParameterConfig,
        db_output = Some 1, db_inputs = [1, 2], mBackData = 0, mFrontData = 0\<rparr>)" "db_in_data ex_wired 2 = Inr 0"
    by code_simp+
  show ?thesis
    using double_buffering_exchange [OF w p(1-3), of "\<lambda>x. 7" 9 True 0 2] p(4) by auto
qed

end
