(* ===== verification/Protocol_Factory.thy ===== *)
theory Protocol_Factory
  imports Protocols
begin

text \<open>
  The factories of the core library: the table of communication protocols
  (\<open>src/libvisr/communication_protocol_factory.cpp\<close>), the table of parameter types
  (\<open>src/libvisr/parameter_factory.cpp\<close>) and the hash that turns the name of a protocol into its
  type id. A \<open>Creator\<close> of a protocol is its name and the protocol class that its three functions
  instantiate; a creator of a parameter is a function.
\<close>

unbundle bit_operations_syntax

section \<open>Type ids\<close>

text \<open>\<open>char\<close> is signed on the platforms the code supports, so a byte is extended with its sign.\<close>

fun fnv1 :: "size_t \<Rightarrow> string \<Rightarrow> size_t" where
  "fnv1 h [] = h"
| "fnv1 h (c # s) =
     (if c = CHR 0x00 then h else fnv1 ((h * 1099511628211) XOR signed_take_bit 7 (of_char c)) s)"

definition compileTimeHashFNV1 :: "string \<Rightarrow> size_t" where
  "compileTimeHashFNV1 s = fnv1 14695981039346656037 s"

definition communicationProtocolTypeFromString :: "string \<Rightarrow> size_t" where
  "communicationProtocolTypeFromString s = compileTimeHashFNV1 s"

section \<open>The table of protocols\<close>

record creator =
  cr_class :: protocol_kind
  cr_name :: string

type_synonym creator_table = "(size_t \<times> creator) list"

definition registerCommunicationProtocol :: "size_t \<Rightarrow> creator \<Rightarrow> creator_table \<Rightarrow> exn + creator_table" where
  "registerCommunicationProtocol ty c table =
     (if map_of table ty \<noteq> None then Inl invalid_argument
      else if List.find (\<lambda>e. cr_name (snd e) = cr_name c) table \<noteq> None then Inl invalid_argument
      else Inr (map_insert ty c table))"

definition unregisterCommunicationProtocol :: "size_t \<Rightarrow> creator_table \<Rightarrow> creator_table" where
  "unregisterCommunicationProtocol ty table =
     (if map_of table ty \<noteq> None then filter (\<lambda>e. fst e \<noteq> ty) table else table)"

fun construct ::
  "(size_t \<Rightarrow> param_config \<Rightarrow> exn + 'p) \<Rightarrow> protocol_kind \<Rightarrow> size_t \<Rightarrow> param_config \<Rightarrow> exn + 'p protocol" where
  "construct create MessageQueueKind ty cfg = Inr (MessageQueue (mq_new ty cfg))"
| "construct create DoubleBufferingKind ty cfg = bindE (db_new create ty cfg) (\<lambda>d. Inr (DoubleBuffering d))"
| "construct create SharedDataKind ty cfg = bindE (sd_new create ty cfg) (\<lambda>d. Inr (SharedData d))"

definition createProtocol ::
  "creator_table \<Rightarrow> (size_t \<Rightarrow> param_config \<Rightarrow> exn + 'p) \<Rightarrow> size_t \<Rightarrow> size_t \<Rightarrow> param_config \<Rightarrow> exn + 'p protocol" where
  "createProtocol table create protocolType parameterType cfg =
     (case map_of table protocolType of
        None \<Rightarrow> Inl out_of_range
      | Some c \<Rightarrow> construct create (cr_class c) parameterType cfg)"

definition createInput :: "creator_table \<Rightarrow> size_t \<Rightarrow> exn + input_port" where
  "createInput table protocolType =
     (case map_of table protocolType of
        None \<Rightarrow> Inl out_of_range
      | Some c \<Rightarrow> Inr \<lparr>in_kind = cr_class c, in_protocol = None, mChanged = False\<rparr>)"

definition createOutput :: "creator_table \<Rightarrow> size_t \<Rightarrow> exn + output_port" where
  "createOutput table protocolType =
     (case map_of table protocolType of
        None \<Rightarrow> Inl out_of_range
      | Some c \<Rightarrow> Inr \<lparr>out_kind = cr_class c, out_protocol = None\<rparr>)"

definition numberOfProtocols :: "creator_table \<Rightarrow> nat" where
  "numberOfProtocols table = length table"

definition typeFromName :: "creator_table \<Rightarrow> string \<Rightarrow> exn + size_t" where
  "typeFromName table nm =
     (case List.find (\<lambda>e. cr_name (snd e) = nm) table of None \<Rightarrow> Inl out_of_range | Some e \<Rightarrow> Inr (fst e))"

definition typeToName :: "creator_table \<Rightarrow> size_t \<Rightarrow> exn + string" where
  "typeToName table ty = (case map_of table ty of None \<Rightarrow> Inl out_of_range | Some c \<Rightarrow> Inr (cr_name c))"

definition typeExists :: "creator_table \<Rightarrow> size_t \<Rightarrow> bool" where
  "typeExists table ty \<longleftrightarrow> map_of table ty \<noteq> None"

text \<open>\<open>CommunicationProtocolRegistrar\<close>: the base class registers the tail of the list first.\<close>

fun CommunicationProtocolRegistrar :: "(size_t \<times> creator) list \<Rightarrow> creator_table \<Rightarrow> exn + creator_table" where
  "CommunicationProtocolRegistrar [] table = Inr table"
| "CommunicationProtocolRegistrar ((ty, c) # ps) table =
     bindE (CommunicationProtocolRegistrar ps table) (registerCommunicationProtocol ty c)"

definition protocol_entry :: "protocol_kind \<Rightarrow> string \<Rightarrow> size_t \<times> creator" where
  "protocol_entry k nm = (communicationProtocolTypeFromString nm, \<lparr>cr_class = k, cr_name = nm\<rparr>)"

definition initialiseParameterLibrary :: "creator_table \<Rightarrow> exn + creator_table" where
  "initialiseParameterLibrary =
     CommunicationProtocolRegistrar
       [protocol_entry DoubleBufferingKind ''DoubleBuffering'', protocol_entry MessageQueueKind ''MessageQueue'',
        protocol_entry SharedDataKind ''SharedData'']"

section \<open>The table of parameter types\<close>

type_synonym 'p parameter_table = "(size_t \<times> (param_config \<Rightarrow> exn + 'p)) list"

definition createParameter :: "'p parameter_table \<Rightarrow> size_t \<Rightarrow> param_config \<Rightarrow> exn + 'p" where
  "createParameter table ty cfg = (case map_of table ty of None \<Rightarrow> Inl invalid_argument | Some f \<Rightarrow> f cfg)"

definition registerParameterType :: "size_t \<Rightarrow> (param_config \<Rightarrow> exn + 'p) \<Rightarrow> 'p parameter_table \<Rightarrow> 'p parameter_table" where
  "registerParameterType ty f table = map_insert ty f table"

definition unregisterParameterType :: "size_t \<Rightarrow> 'p parameter_table \<Rightarrow> 'p parameter_table" where
  "unregisterParameterType ty table = (if map_of table ty \<noteq> None then filter (\<lambda>e. fst e \<noteq> ty) table else table)"

definition numberOfParameterTypes :: "'p parameter_table \<Rightarrow> nat" where
  "numberOfParameterTypes table = length table"

definition parameterTypeExists :: "'p parameter_table \<Rightarrow> size_t \<Rightarrow> bool" where
  "parameterTypeExists table ty \<longleftrightarrow> map_of table ty \<noteq> None"

section \<open>Names and types correspond\<close>

definition creators_ok :: "creator_table \<Rightarrow> bool" where
  "creators_ok table \<longleftrightarrow> sorted_wrt (<) (map fst table) \<and> distinct (map (\<lambda>e. cr_name (snd e)) table)"

datatype table_call = Register size_t creator | Unregister size_t

text \<open>A registration that throws leaves the table as it was.\<close>

fun run_table_call :: "table_call \<Rightarrow> creator_table \<Rightarrow> creator_table" where
  "run_table_call (Register ty c) table =
     (case registerCommunicationProtocol ty c table of Inl e \<Rightarrow> table | Inr table' \<Rightarrow> table')"
| "run_table_call (Unregister ty) table = unregisterCommunicationProtocol ty table"

lemma set_map_insert_new: "map_of m k = None \<Longrightarrow> set (map_insert k v m) = insert (k, v) (set m)"
  by (induction k v m rule: map_insert.induct) (auto split: if_splits)

lemma distinct_map_insert:
  "\<lbrakk>map_of m k = None; distinct (map f m); f (k, v) \<notin> f ` set m\<rbrakk> \<Longrightarrow> distinct (map f (map_insert k v m))"
proof (induction k v m rule: map_insert.induct)
  case (2 k v k' v' m)
  then show ?case by (auto simp: set_map_insert_new split: if_splits)
qed simp

lemma creators_ok_register:
  assumes "creators_ok table" "registerCommunicationProtocol ty c table = Inr table'"
  shows "creators_ok table'" "map_of table' = (map_of table)(ty \<mapsto> c)"
proof -
  have n: "map_of table ty = None" "List.find (\<lambda>e. cr_name (snd e) = cr_name c) table = None" and t: "table' = map_insert ty c table"
    using assms(2) unfolding registerCommunicationProtocol_def by (simp_all del: not_None_eq not_Some_eq split: if_splits)
  have "distinct (map (\<lambda>e. cr_name (snd e)) table')"
    unfolding t by (rule distinct_map_insert [OF n(1)]) (use assms(1) n(2) in \<open>force simp: creators_ok_def find_None_iff\<close>)+
  moreover have "sorted_wrt (<) (map fst table')"
    unfolding t using assms(1) by (intro sorted_map_insert) (simp add: creators_ok_def)
  ultimately show "creators_ok table'" by (simp add: creators_ok_def)
  show "map_of table' = (map_of table)(ty \<mapsto> c)"
    using assms(1) n(1) by (auto simp: t creators_ok_def map_of_map_insert)
qed

lemma creators_ok_unregister: "creators_ok table \<Longrightarrow> creators_ok (unregisterCommunicationProtocol ty table)"
  by (auto simp: creators_ok_def unregisterCommunicationProtocol_def sorted_wrt_map sorted_wrt_filter
      intro: distinct_map_filter)

lemma creators_ok_calls: "creators_ok table \<Longrightarrow> creators_ok (fold run_table_call cs table)"
proof (induction cs arbitrary: table)
  case (Cons c cs)
  have "creators_ok (run_table_call c table)"
    using Cons.prems creators_ok_register(1) creators_ok_unregister by (cases c) (auto split: sum.splits)
  then show ?case using Cons.IH by simp
qed simp

lemma table_keys: "creators_ok table \<Longrightarrow> distinct (map fst table)"
  by (simp add: creators_ok_def strict_sorted_iff)

lemma typeFromName_iff:
  assumes "creators_ok table"
  shows "typeFromName table nm = Inr ty \<longleftrightarrow> (\<exists>c. map_of table ty = Some c \<and> cr_name c = nm)"
proof
  assume "typeFromName table nm = Inr ty"
  then obtain e where e: "List.find (\<lambda>e. cr_name (snd e) = nm) table = Some e" "ty = fst e"
    by (auto simp: typeFromName_def split: option.splits)
  then have "e \<in> set table" "cr_name (snd e) = nm" using find_SomeD by fastforce+
  moreover have "map_of table (fst e) = Some (snd e)"
    using calculation(1) table_keys [OF assms] by (simp add: map_of_eq_Some_iff)
  ultimately show "\<exists>c. map_of table ty = Some c \<and> cr_name c = nm" using e(2) by blast
next
  assume "\<exists>c. map_of table ty = Some c \<and> cr_name c = nm"
  then obtain c where c: "(ty, c) \<in> set table" "cr_name c = nm" by (auto dest: map_of_SomeD)
  then obtain e where e: "List.find (\<lambda>e. cr_name (snd e) = nm) table = Some e"
    using find_SomeI [of "(ty, c)" table "\<lambda>e. cr_name (snd e) = nm"] by auto
  then have "e \<in> set table" "cr_name (snd e) = nm" using find_SomeD by fastforce+
  moreover have "inj_on (\<lambda>e. cr_name (snd e)) (set table)" using assms by (simp add: creators_ok_def distinct_map)
  ultimately have "e = (ty, c)" using c by (simp add: inj_on_eq_iff [of _ "set table", symmetric])
  then show "typeFromName table nm = Inr ty" using e by (simp add: typeFromName_def)
qed

lemma typeToName_iff:
  "typeToName table ty = Inr nm \<longleftrightarrow> (\<exists>c. map_of table ty = Some c \<and> cr_name c = nm)"
  by (auto simp: typeToName_def split: option.splits)

text \<open>
  C38 (protocol_table_spec): in every table of protocols built by registrations and removals, those
  that throw included, names and types correspond one to one: looking up the type of a name and
  the name of a type are inverse to each other, and each fails exactly for what is not registered.
  The endpoints created for a type belong to the class of the protocol objects created for it.
\<close>

theorem protocol_table_spec:
  assumes "table = fold run_table_call cs []"
  shows "(typeToName table ty = Inr nm \<longleftrightarrow> typeFromName table nm = Inr ty) \<and>
    ((\<exists>nm. typeToName table ty = Inr nm) \<longleftrightarrow> typeExists table ty) \<and>
    (typeExists table ty \<longleftrightarrow> (\<exists>i out. createInput table ty = Inr i \<and> createOutput table ty = Inr out)) \<and>
    (createProtocol table create ty parameterType cfg = Inr v \<longrightarrow>
       (\<exists>i out. createInput table ty = Inr i \<and> in_kind i = kind_of v \<and> in_protocol i = None \<and>
                createOutput table ty = Inr out \<and> out_kind out = kind_of v \<and> out_protocol out = None))"
proof -
  have ok: "creators_ok table" using creators_ok_calls [of "[]" cs] assms by (simp add: creators_ok_def)
  have k: "construct create k parameterType cfg = Inr v \<Longrightarrow> k = kind_of v" for k by (cases k) auto
  show ?thesis
    using typeFromName_iff [OF ok] typeToName_iff [of table] k
    by (auto simp: typeExists_def createInput_def createOutput_def createProtocol_def split: option.splits)
qed

definition ex_table_calls :: "table_call list" where
  "ex_table_calls = [Register 3 \<lparr>cr_class = SharedDataKind, cr_name = ''SharedData''\<rparr>,
     Register 2 \<lparr>cr_class = MessageQueueKind, cr_name = ''MessageQueue''\<rparr>,
     Register 5 \<lparr>cr_class = MessageQueueKind, cr_name = ''SharedData''\<rparr>, Unregister 2]"

theorem protocol_table_spec_witness:
  "typeFromName (fold run_table_call ex_table_calls []) ''SharedData'' = Inr 3 \<and>
   typeToName (fold run_table_call ex_table_calls []) 3 = Inr ''SharedData''"
proof -
  have "typeToName (fold run_table_call ex_table_calls []) 3 = Inr ''SharedData''" by code_simp
  then show ?thesis using protocol_table_spec [OF refl, of ex_table_calls 3 "''SharedData''"] by blast
qed

text \<open>The table that the parameter library sets up; the three hashes differ.\<close>

lemma initialised_table:
  "\<exists>table. initialiseParameterLibrary [] = Inr table \<and> numberOfProtocols table = 3 \<and>
     typeFromName table ''MessageQueue'' = Inr (communicationProtocolTypeFromString ''MessageQueue'')"
proof -
  have "(case initialiseParameterLibrary [] of Inl e \<Rightarrow> False | Inr table \<Rightarrow> numberOfProtocols table = 3 \<and>
     typeFromName table ''MessageQueue'' = Inr (communicationProtocolTypeFromString ''MessageQueue''))"
    by code_simp
  then show ?thesis by (auto split: sum.splits)
qed

end
