(* ===== verification/Parameter_Infrastructure.thy ===== *)
theory Parameter_Infrastructure
  imports Parameter_Graph Protocol_Factory
begin

text \<open>
  The parameter infrastructure of a signal flow (\<open>initialiseParameterInfrastructure\<close> in
  \<open>src/librrl/audio_signal_flow.cpp\<close>): one protocol object for every group of linked parameter
  ports, connected to the protocol inputs and outputs of the ports, and for every port of the top
  level an endpoint on the other side through which the caller exchanges parameters.
\<close>

section \<open>State\<close>

record 'p param_setup =
  su_store :: "'p protocol_store"
  su_messages :: "message list"
  su_result :: bool
  mCommunicationProtocols :: "nat list"
  mProtocolReceiveEndpoints :: "string \<Rightarrow> nat option"
  mProtocolSendEndpoints :: "string \<Rightarrow> nat option"

text \<open>
  The table of protocols, the parameter factory, and the addresses of the objects created: the
  protocol object of a group is created for its first sender, an endpoint for a port of the top
  level. The endpoint of a port itself has the address of the port: \<open>ParameterInput\<close> derives from
  the endpoint class, and \<open>PolymorphicParameterInput\<close> owns its endpoint.
\<close>

record 'p param_env =
  pe_table :: creator_table
  pe_create :: "size_t \<Rightarrow> param_config \<Rightarrow> exn + 'p"
  pe_protocol :: "nat \<Rightarrow> nat"
  pe_endpoint :: "nat \<Rightarrow> nat"

text \<open>\<open>std::map::insert\<close> keeps an existing entry.\<close>

definition insert_endpoint :: "string \<Rightarrow> nat \<Rightarrow> (string \<Rightarrow> nat option) \<Rightarrow> string \<Rightarrow> nat option" where
  "insert_endpoint nm a m = (if m nm = None then m(nm \<mapsto> a) else m)"

definition new_output :: "nat \<Rightarrow> output_port \<Rightarrow> 'p protocol_store \<Rightarrow> 'p protocol_store" where
  "new_output a ep s = s\<lparr>outputs := (outputs s)(a \<mapsto> ep)\<rparr>"

definition new_input :: "nat \<Rightarrow> input_port \<Rightarrow> 'p protocol_store \<Rightarrow> 'p protocol_store" where
  "new_input a ep s = s\<lparr>inputs := (inputs s)(a \<mapsto> ep)\<rparr>"

text \<open>
  The casts of the port object: a port of direction \<open>Output\<close> is a \<open>ParameterOutputBase\<close>, one of
  direction \<open>Input\<close> a \<open>ParameterInputBase\<close>.
\<close>

definition protocolOutput :: "store \<Rightarrow> nat \<Rightarrow> exn + nat" where
  "protocolOutput s p = (if pp_direction (pport s p) = Output then Inr p else Inl bad_cast)"

definition protocolInput :: "store \<Rightarrow> nat \<Rightarrow> exn + nat" where
  "protocolInput s p = (if pp_direction (pport s p) = Input then Inr p else Inl bad_cast)"

section \<open>Connecting a group\<close>

text \<open>
  A step yields the exception that leaves the enclosing \<open>try\<close> block, if any, with the state
  reached by then.
\<close>

fun foldT :: "('s \<Rightarrow> 'a \<Rightarrow> exn option \<times> 's) \<Rightarrow> 's \<Rightarrow> 'a list \<Rightarrow> exn option \<times> 's" where
  "foldT f s [] = (None, s)"
| "foldT f s (x # xs) = (case f s x of (Some e, s') \<Rightarrow> (Some e, s') | (None, s') \<Rightarrow> foldT f s' xs)"

definition connectSendPort ::
  "'p param_env \<Rightarrow> store \<Rightarrow> size_t \<Rightarrow> nat \<Rightarrow> 'p param_setup \<Rightarrow> nat \<Rightarrow> exn option \<times> 'p param_setup" where
  "connectSendPort env s protocol q st port =
     (if isTopLevel s (the (pp_parent (pport s port)))
      then case createOutput (pe_table env) protocol of
             Inl e \<Rightarrow> (Some e, st)
           | Inr ep \<Rightarrow>
               (case connectOutput (new_output (pe_endpoint env port) ep (su_store st)) q (Some (pe_endpoint env port)) of
                  Inl e \<Rightarrow> (Some e, st)
                | Inr ps \<Rightarrow> (None, st\<lparr>su_store := ps, mProtocolReceiveEndpoints :=
                    insert_endpoint (pp_name (pport s port)) (pe_endpoint env port) (mProtocolReceiveEndpoints st)\<rparr>))
      else case bindE (protocolOutput s port) (\<lambda>a. connectOutput (su_store st) q (Some a)) of
             Inl e \<Rightarrow> (None, st\<lparr>su_result := False, su_messages := su_messages st @ [OutputNotConnected port e]\<rparr>)
           | Inr ps \<Rightarrow> (None, st\<lparr>su_store := ps\<rparr>))"

definition connectReceivePort ::
  "'p param_env \<Rightarrow> store \<Rightarrow> size_t \<Rightarrow> nat \<Rightarrow> 'p param_setup \<Rightarrow> nat \<Rightarrow> exn option \<times> 'p param_setup" where
  "connectReceivePort env s protocol q st port =
     (if isTopLevel s (the (pp_parent (pport s port)))
      then case createInput (pe_table env) protocol of
             Inl e \<Rightarrow> (Some e, st)
           | Inr ep \<Rightarrow>
               let eps = insert_endpoint (pp_name (pport s port)) (pe_endpoint env port) (mProtocolSendEndpoints st);
                   st' = st\<lparr>su_store := new_input (pe_endpoint env port) ep (su_store st), mProtocolSendEndpoints := eps\<rparr>
               in case connectInput (su_store st') q (eps (pp_name (pport s port))) of
                    Inl e \<Rightarrow> (Some e, st')
                  | Inr ps \<Rightarrow> (None, st'\<lparr>su_store := ps\<rparr>)
      else case bindE (protocolInput s port) (\<lambda>a. connectInput (su_store st) q (Some a)) of
             Inl e \<Rightarrow> (None, st\<lparr>su_result := False, su_messages := su_messages st @ [InputNotConnected port e]\<rparr>)
           | Inr ps \<Rightarrow> (None, st\<lparr>su_store := ps\<rparr>))"

definition connectPorts ::
  "'p param_env \<Rightarrow> store \<Rightarrow> connected_ports \<Rightarrow> 'p param_setup \<Rightarrow> exn option \<times> 'p param_setup" where
  "connectPorts env s c st =
     (let refPort = hd (mSendPorts c);
          protocol = pp_protocolType (pport s refPort);
          q = pe_protocol env refPort
      in case bindE (parameterConfig (pport s refPort))
                (createProtocol (pe_table env) (pe_create env) protocol (pp_parameterType (pport s refPort))) of
           Inl e \<Rightarrow> (Some e, st)
         | Inr v \<Rightarrow>
             (case foldT (connectSendPort env s protocol q)
                     (st\<lparr>su_store := protocol_at q v (su_store st)\<rparr>) (mSendPorts c) of
                (Some e, st') \<Rightarrow> (Some e, st')
              | (None, st') \<Rightarrow>
                  (case foldT (connectReceivePort env s protocol q) st' (mReceivePorts c) of
                     (Some e, st'') \<Rightarrow> (Some e, st'')
                   | (None, st'') \<Rightarrow> (None, st''\<lparr>mCommunicationProtocols := mCommunicationProtocols st'' @ [q]\<rparr>))))"

definition checkAgainst :: "store \<Rightarrow> nat \<Rightarrow> 'p param_setup \<Rightarrow> nat \<Rightarrow> exn + 'p param_setup" where
  "checkAgainst s refPort st p =
     bindE (checkParameterPortCompatibility s refPort p (su_messages st)) (\<lambda>(ok, messages).
     Inr (st\<lparr>su_messages := messages, su_result := su_result st \<and> ok\<rparr>))"

definition connectGroup ::
  "'p param_env \<Rightarrow> store \<Rightarrow> 'p param_setup \<Rightarrow> connected_ports \<Rightarrow> exn + 'p param_setup" where
  "connectGroup env s st c =
     (let st1 = (if numSenders c < 1
                 then st\<lparr>su_messages := su_messages st @ [NoSendingPort], su_result := False\<rparr> else st);
          st2 = (if numReceivers c < 1
                 then st1\<lparr>su_messages := su_messages st1 @ [NoReceivingPort], su_result := False\<rparr> else st1)
      in if numSenders c < 1 then Inr st2
         else bindE (foldE (checkAgainst s (hd (mSendPorts c))) st2 (tl (mSendPorts c))) (\<lambda>st3.
              bindE (foldE (checkAgainst s (hd (mSendPorts c))) st3 (mReceivePorts c)) (\<lambda>st4.
              case connectPorts env s c st4 of
                (None, st5) \<Rightarrow> Inr st5
              | (Some e, st5) \<Rightarrow>
                  Inr (st5\<lparr>su_messages := su_messages st5 @ [InfrastructureError e], su_result := False\<rparr>))))"

section \<open>An atomic flow\<close>

definition connectAtomicPort :: "'p param_env \<Rightarrow> store \<Rightarrow> 'p param_setup \<Rightarrow> nat \<Rightarrow> exn + 'p param_setup" where
  "connectAtomicPort env s st port =
     (let p = pport s port; q = pe_protocol env port; a = pe_endpoint env port
      in bindE (parameterConfig p) (\<lambda>cfg.
         bindE (createProtocol (pe_table env) (pe_create env) (pp_protocolType p) (pp_parameterType p) cfg) (\<lambda>v.
         let ps = protocol_at q v (su_store st)
         in bindE (if pp_direction p = Input
                   then bindE (createOutput (pe_table env) (pp_protocolType p)) (\<lambda>ep.
                        bindE (protocolInput s port) (\<lambda>i.
                        bindE (connectInput (new_output a ep ps) q (Some i)) (\<lambda>ps1.
                        bindE (connectOutput ps1 q (Some a)) (\<lambda>ps2.
                        Inr (st\<lparr>su_store := ps2, mProtocolReceiveEndpoints :=
                               insert_endpoint (pp_name p) a (mProtocolReceiveEndpoints st)\<rparr>)))))
                   else bindE (createInput (pe_table env) (pp_protocolType p)) (\<lambda>ep.
                        bindE (protocolOutput s port) (\<lambda>out.
                        bindE (connectOutput (new_input a ep ps) q (Some out)) (\<lambda>ps1.
                        bindE (connectInput ps1 q (Some a)) (\<lambda>ps2.
                        Inr (st\<lparr>su_store := ps2, mProtocolSendEndpoints :=
                               insert_endpoint (pp_name p) a (mProtocolSendEndpoints st)\<rparr>))))))
               (\<lambda>st'. Inr (st'\<lparr>mCommunicationProtocols := mCommunicationProtocols st' @ [q]\<rparr>)))))"

section \<open>The initialisation\<close>

text \<open>
  The result with the connections of the flattened flow, which only a composite flow has.
\<close>

definition initialiseParameterInfrastructure ::
  "(nat \<Rightarrow> (nat \<times> nat) list \<Rightarrow> nat \<times> nat list) \<Rightarrow> 'p param_env \<Rightarrow> store \<Rightarrow> nat \<Rightarrow> message list \<Rightarrow> 'p protocol_store
   \<Rightarrow> pcmap \<Rightarrow> exn + ('p param_setup \<times> pcmap)" where
  "initialiseParameterInfrastructure connected_components env s flow messages ps originalConnections =
     (let st = \<lparr>su_store = ps, su_messages = messages, su_result = True, mCommunicationProtocols = [],
                mProtocolReceiveEndpoints = Map.empty, mProtocolSendEndpoints = Map.empty\<rparr>
      in if \<not> c_composite (comp s flow)
         then bindE (foldE (connectAtomicPort env s) st (c_parameterPorts (comp s flow))) (\<lambda>st'. Inr (st', []))
         else bindE (ParameterConnectionGraph connected_components s originalConnections) (\<lambda>groups.
              bindE (foldE (connectGroup env s) st groups) (\<lambda>st'. Inr (st', originalConnections))))"

definition externalParameterReceivePort :: "'p param_setup \<Rightarrow> string \<Rightarrow> exn + nat" where
  "externalParameterReceivePort st nm =
     (case mProtocolReceiveEndpoints st nm of None \<Rightarrow> Inl out_of_range | Some a \<Rightarrow> Inr a)"

definition externalParameterSendPort :: "'p param_setup \<Rightarrow> string \<Rightarrow> exn + nat" where
  "externalParameterSendPort st nm =
     (case mProtocolSendEndpoints st nm of None \<Rightarrow> Inl out_of_range | Some a \<Rightarrow> Inr a)"

definition numberCommunicationProtocols :: "'p param_setup \<Rightarrow> nat" where
  "numberCommunicationProtocols st = length (mCommunicationProtocols st)"

section \<open>What a step changes\<close>

fun proto_sig :: "'p protocol \<Rightarrow> protocol_kind \<times> size_t \<times> param_config" where
  "proto_sig (MessageQueue m) = (MessageQueueKind, mq_parameterType m, mq_config m)"
| "proto_sig (DoubleBuffering d) = (DoubleBufferingKind, db_parameterType d, db_config d)"
| "proto_sig (SharedData h) = (SharedDataKind, sd_parameterType h, sd_config h)"

lemma endpoint_views [simp]:
  "protocols (setInputProtocol i p s) = protocols s" "protocols (setOutputProtocol i p s) = protocols s"
  "outputs (setInputProtocol i p s) = outputs s" "inputs (setOutputProtocol i p s) = inputs s"
  "inputs (setInputProtocol i p s) = (inputs s)(i \<mapsto> (inport s i)\<lparr>in_protocol := p\<rparr>)"
  "outputs (setOutputProtocol i p s) = (outputs s)(i \<mapsto> (outport s i)\<lparr>out_protocol := p\<rparr>)"
  by (simp_all add: setInputProtocol_def setOutputProtocol_def)

definition local_change :: "nat \<Rightarrow> nat \<Rightarrow> 'p protocol_store \<Rightarrow> 'p protocol_store \<Rightarrow> bool" where
  "local_change q a s s' \<longleftrightarrow>
     (\<forall>r. r \<noteq> q \<longrightarrow> protocols s' r = protocols s r) \<and>
     (\<forall>b. b \<noteq> a \<longrightarrow> outputs s' b = outputs s b) \<and> (\<forall>b. b \<noteq> a \<longrightarrow> inputs s' b = inputs s b) \<and>
     proto_sig (the (protocols s' q)) = proto_sig (the (protocols s q))"

lemma local_changeI:
  assumes "protocols s q = Some v" "proto_sig w = proto_sig v"
  shows "local_change q a s (setOutputProtocol a p (protocol_at q w s))" "local_change q a s (setInputProtocol a p (protocol_at q w s))"
    "local_change q a s (setInputProtocol a p s)" "local_change q a s s"
  using assms by (simp_all add: local_change_def)

lemma local_change_refl [simp]: "local_change q a s s"
  by (simp add: local_change_def)

lemma connectOutput_local:
  assumes q: "live s q" and c: "connectOutput s q (Some a) = Inr s'"
  shows "local_change q a s s'"
proof -
  obtain v where v: "protocols s q = Some v" using q by (auto simp: live_def)
  show ?thesis using c
    by (cases v) (auto simp: v output_calls intro!: local_changeI [OF v] split: option.splits if_splits)
qed

lemma connectInput_local:
  assumes q: "live s q" and c: "connectInput s q (Some a) = Inr s'"
  shows "local_change q a s s'"
proof -
  obtain v where v: "protocols s q = Some v" using q by (auto simp: live_def)
  show ?thesis using c
    by (cases v) (auto simp: v input_calls Let_def intro!: local_changeI [OF v] split: option.splits if_splits)
qed

text \<open>The change of a whole step: one protocol, some endpoints, entries added to the two maps.\<close>

definition extends :: "(string \<Rightarrow> nat option) \<Rightarrow> (string \<Rightarrow> nat option) \<Rightarrow> bool" where
  "extends m m' \<longleftrightarrow> (\<forall>nm a. m nm = Some a \<longrightarrow> m' nm = Some a)"

definition frame :: "nat \<Rightarrow> nat set \<Rightarrow> 'p param_setup \<Rightarrow> 'p param_setup \<Rightarrow> bool" where
  "frame q A st st' \<longleftrightarrow>
     (\<forall>r. r \<noteq> q \<longrightarrow> protocols (su_store st') r = protocols (su_store st) r) \<and>
     (\<forall>b. b \<notin> A \<longrightarrow> outputs (su_store st') b = outputs (su_store st) b) \<and>
     (\<forall>b. b \<notin> A \<longrightarrow> inputs (su_store st') b = inputs (su_store st) b) \<and>
     extends (mProtocolReceiveEndpoints st) (mProtocolReceiveEndpoints st') \<and>
     extends (mProtocolSendEndpoints st) (mProtocolSendEndpoints st') \<and>
     set (mCommunicationProtocols st) \<subseteq> set (mCommunicationProtocols st') \<and>
     (su_result st' \<longrightarrow> su_result st)"

lemma extends_refl [simp]: "extends m m"
  and extends_trans: "extends m1 m2 \<Longrightarrow> extends m2 m3 \<Longrightarrow> extends m1 m3"
  and extends_insert [simp]: "extends m (insert_endpoint nm a m)"
  by (auto simp: extends_def insert_endpoint_def)

lemma frame_refl: "frame q A st st"
  by (simp add: frame_def)

lemma frame_trans: "frame q A st st' \<Longrightarrow> frame q A st' st'' \<Longrightarrow> frame q A st st''"
  unfolding frame_def by (auto intro: extends_trans)

lemma frame_mono: "frame q A st st' \<Longrightarrow> A \<subseteq> B \<Longrightarrow> frame q B st st'"
  unfolding frame_def by blast

lemma frame_fail: "frame q A st (st\<lparr>su_result := False, su_messages := ms\<rparr>)"
  by (simp add: frame_def)

lemma frame_foldT:
  assumes "\<And>st x e st'. x \<in> set xs \<Longrightarrow> f st x = (e, st') \<Longrightarrow> frame q A st st'"
  shows "foldT f st xs = (e, st') \<Longrightarrow> frame q A st st'"
  using assms
proof (induction xs arbitrary: st)
  case (Cons x xs)
  obtain e1 st1 where 1: "f st x = (e1, st1)" by fastforce
  have f1: "frame q A st st1" using Cons.prems(2) [OF _ 1] by simp
  show ?case
  proof (cases e1)
    case None
    then have "foldT f st1 xs = (e, st')" using Cons.prems(1) 1 by simp
    then show ?thesis using Cons.IH [of st1] Cons.prems(2) f1 frame_trans by (metis list.set_intros(2))
  qed (use Cons.prems(1) 1 f1 in simp)
qed (simp add: frame_refl)

definition ep :: "'p param_env \<Rightarrow> store \<Rightarrow> nat \<Rightarrow> nat" where
  "ep env s p = (if isTopLevel s (the (pp_parent (pport s p))) then pe_endpoint env p else p)"

lemma endpoint_new [simp]:
  "protocols (new_output a x ps) = protocols ps" "protocols (new_input a y ps) = protocols ps"
  "inputs (new_output a x ps) = inputs ps" "outputs (new_input a y ps) = outputs ps"
  "outputs (new_output a x ps) = (outputs ps)(a \<mapsto> x)" "inputs (new_input a y ps) = (inputs ps)(a \<mapsto> y)"
  "live (new_output a x ps) = live ps" "live (new_input a y ps) = live ps"
  "attached_outputs (new_output a x ps) = attached_outputs ps" "attached_inputs (new_output a x ps) = attached_inputs ps"
  "attached_outputs (new_input a y ps) = attached_outputs ps" "attached_inputs (new_input a y ps) = attached_inputs ps"
  "input_pointer (new_output a x ps) = input_pointer ps" "output_pointer (new_input a y ps) = output_pointer ps"
  by (auto simp: new_output_def new_input_def fun_eq_iff live_def attached_outputs_def attached_inputs_def
      input_pointer_def output_pointer_def)

text \<open>The sending ports.\<close>

lemma connectSendPort_frame:
  assumes "live (su_store st) q" "connectSendPort env s protocol q st p = (e, st')"
  shows "frame q {ep env s p} st st'"
proof (cases "isTopLevel s (the (pp_parent (pport s p)))")
  case True
  show ?thesis
  proof (cases "createOutput (pe_table env) protocol")
    case (Inr x)
    show ?thesis
    proof (cases "connectOutput (new_output (pe_endpoint env p) x (su_store st)) q (Some (pe_endpoint env p))")
      case (Inr ps)
      have "live (new_output (pe_endpoint env p) x (su_store st)) q" using assms(1) by simp
      note l = connectOutput_local [OF this Inr]
      show ?thesis using assms(2) l True \<open>createOutput _ _ = _\<close> Inr
        by (auto simp: connectSendPort_def frame_def ep_def local_change_def)
    qed (use assms(2) Inr True in \<open>simp add: connectSendPort_def frame_refl\<close>)
  qed (use assms(2) True in \<open>simp add: connectSendPort_def frame_refl\<close>)
next
  case False
  show ?thesis
  proof (cases "bindE (protocolOutput s p) (\<lambda>a. connectOutput (su_store st) q (Some a))")
    case (Inr ps)
    then have "connectOutput (su_store st) q (Some p) = Inr ps" by (auto simp: protocolOutput_def split: if_splits)
    note l = connectOutput_local [OF assms(1) this]
    show ?thesis using assms(2) l False Inr by (auto simp: connectSendPort_def frame_def ep_def local_change_def)
  next
    case (Inl x)
    show ?thesis using assms(2) unfolding connectSendPort_def if_not_P [OF False] Inl by (auto simp: frame_fail)
  qed
qed

lemma connectSendPort_ok:
  assumes "live (su_store st) q" "connectSendPort env s protocol q st p = (None, st')" "su_result st'"
    and "ep env s p \<notin> set (attached_outputs (su_store st) q)"
  shows "attached_outputs (su_store st') q = attached_outputs (su_store st) q @ [ep env s p]"
    "attached_inputs (su_store st') q = attached_inputs (su_store st) q"
    "output_pointer (su_store st') (ep env s p) = Some q" "live (su_store st') q"
    "proto_sig (the (protocols (su_store st') q)) = proto_sig (the (protocols (su_store st) q))"
    "mProtocolReceiveEndpoints st' = (if isTopLevel s (the (pp_parent (pport s p)))
       then insert_endpoint (pp_name (pport s p)) (ep env s p) (mProtocolReceiveEndpoints st) else mProtocolReceiveEndpoints st)"
    "mProtocolSendEndpoints st' = mProtocolSendEndpoints st"
proof -
  obtain ps where ps: "connectOutput ps q (Some (ep env s p)) = Inr (su_store st')" "live ps q"
      "attached_outputs ps = attached_outputs (su_store st)" "attached_inputs ps = attached_inputs (su_store st)"
      "protocols ps = protocols (su_store st)"
    and m: "mProtocolReceiveEndpoints st' = (if isTopLevel s (the (pp_parent (pport s p)))
       then insert_endpoint (pp_name (pport s p)) (ep env s p) (mProtocolReceiveEndpoints st) else mProtocolReceiveEndpoints st)"
      "mProtocolSendEndpoints st' = mProtocolSendEndpoints st"
  proof (cases "isTopLevel s (the (pp_parent (pport s p)))")
    case True
    then obtain x where "connectOutput (new_output (pe_endpoint env p) x (su_store st)) q (Some (pe_endpoint env p)) = Inr (su_store st')"
        "mProtocolReceiveEndpoints st' = insert_endpoint (pp_name (pport s p)) (pe_endpoint env p) (mProtocolReceiveEndpoints st)"
        "mProtocolSendEndpoints st' = mProtocolSendEndpoints st"
      using assms(2) by (auto simp: connectSendPort_def split: sum.splits)
    then show thesis using True assms(1) by (intro that [of "new_output (pe_endpoint env p) x (su_store st)"]) (simp_all add: ep_def)
  next
    case False
    then have "connectOutput (su_store st) q (Some p) = Inr (su_store st')"
        "mProtocolReceiveEndpoints st' = mProtocolReceiveEndpoints st" "mProtocolSendEndpoints st' = mProtocolSendEndpoints st"
      using assms(2,3) by (auto simp: connectSendPort_def protocolOutput_def split: sum.splits if_splits)
    then show thesis using False assms(1) by (intro that [of "su_store st"]) (simp_all add: ep_def)
  qed
  have a: "attached_outputs (su_store st') = (attached_outputs ps)(q := attached_outputs ps q @ [ep env s p])"
      "output_pointer (su_store st') = (output_pointer ps)(ep env s p := Some q)" "live (su_store st') = live ps"
    using output_side.connect_attaches [OF ps(2,1)] assms(4) ps(3) by auto
  show "attached_outputs (su_store st') q = attached_outputs (su_store st) q @ [ep env s p]"
    "output_pointer (su_store st') (ep env s p) = Some q" "live (su_store st') q"
    using a ps by simp_all
  show "attached_inputs (su_store st') q = attached_inputs (su_store st) q"
    using connectOutput_inputs [OF ps(2,1)] ps(4) by (simp add: inputs_same_def)
  show "proto_sig (the (protocols (su_store st') q)) = proto_sig (the (protocols (su_store st) q))"
    using connectOutput_local [OF ps(2,1)] ps(5) by (simp add: local_change_def)
  show "mProtocolReceiveEndpoints st' = (if isTopLevel s (the (pp_parent (pport s p)))
       then insert_endpoint (pp_name (pport s p)) (ep env s p) (mProtocolReceiveEndpoints st) else mProtocolReceiveEndpoints st)"
    "mProtocolSendEndpoints st' = mProtocolSendEndpoints st" by (rule m)+
qed

abbreviation top_port :: "store \<Rightarrow> nat \<Rightarrow> bool" where
  "top_port s p \<equiv> isTopLevel s (the (pp_parent (pport s p)))"

text \<open>The receiving ports; the name of a port of the top level must be new.\<close>

lemma connectReceivePort_ok:
  assumes "live (su_store st) q" "connectReceivePort env s protocol q st p = (None, st')" "su_result st'"
    and "ep env s p \<notin> set (attached_inputs (su_store st) q)"
    and "top_port s p \<longrightarrow> mProtocolSendEndpoints st (pp_name (pport s p)) = None"
  shows "attached_inputs (su_store st') q = attached_inputs (su_store st) q @ [ep env s p]"
    "attached_outputs (su_store st') q = attached_outputs (su_store st) q"
    "input_pointer (su_store st') (ep env s p) = Some q" "live (su_store st') q"
    "proto_sig (the (protocols (su_store st') q)) = proto_sig (the (protocols (su_store st) q))"
    "mProtocolSendEndpoints st' = (if top_port s p
       then (mProtocolSendEndpoints st)(pp_name (pport s p) \<mapsto> ep env s p) else mProtocolSendEndpoints st)"
    "mProtocolReceiveEndpoints st' = mProtocolReceiveEndpoints st" "frame q {ep env s p} st st'"
    "\<forall>a. output_pointer (su_store st') a = output_pointer (su_store st) a"
proof -
  obtain ps where ps: "connectInput ps q (Some (ep env s p)) = Inr (su_store st')" "live ps q"
      "attached_outputs ps = attached_outputs (su_store st)" "attached_inputs ps = attached_inputs (su_store st)"
      "protocols ps = protocols (su_store st)" "outputs ps = outputs (su_store st)"
      "\<forall>b. b \<noteq> ep env s p \<longrightarrow> inputs ps b = inputs (su_store st) b"
    and m: "mProtocolSendEndpoints st' = (if top_port s p
       then (mProtocolSendEndpoints st)(pp_name (pport s p) \<mapsto> ep env s p) else mProtocolSendEndpoints st)"
      "mProtocolReceiveEndpoints st' = mProtocolReceiveEndpoints st"
      "mCommunicationProtocols st' = mCommunicationProtocols st" "su_result st' = su_result st"
  proof (cases "top_port s p")
    case True
    note n = insert_endpoint_def [of "pp_name (pport s p)" "pe_endpoint env p" "mProtocolSendEndpoints st"]
    obtain x where x: "connectInput (new_input (pe_endpoint env p) x (su_store st)) q (Some (pe_endpoint env p)) = Inr (su_store st')"
        "mProtocolSendEndpoints st' = (mProtocolSendEndpoints st)(pp_name (pport s p) \<mapsto> pe_endpoint env p)"
        "mProtocolReceiveEndpoints st' = mProtocolReceiveEndpoints st"
        "mCommunicationProtocols st' = mCommunicationProtocols st" "su_result st' = su_result st"
      using assms(2,5) True by (auto simp: connectReceivePort_def Let_def n split: sum.splits)
    show thesis
      by (rule that [of "new_input (pe_endpoint env p) x (su_store st)"]) (use x True assms(1) in \<open>simp_all add: ep_def\<close>)
  next
    case False
    then have "connectInput (su_store st) q (Some p) = Inr (su_store st')"
        "mProtocolSendEndpoints st' = mProtocolSendEndpoints st" "mProtocolReceiveEndpoints st' = mProtocolReceiveEndpoints st"
        "mCommunicationProtocols st' = mCommunicationProtocols st" "su_result st' = su_result st"
      using assms(2,3) by (auto simp: connectReceivePort_def protocolInput_def split: sum.splits if_splits)
    then show thesis using False assms(1) by (intro that [of "su_store st"]) (simp_all add: ep_def)
  qed
  have a: "attached_inputs (su_store st') = (attached_inputs ps)(q := attached_inputs ps q @ [ep env s p])"
      "input_pointer (su_store st') = (input_pointer ps)(ep env s p := Some q)" "live (su_store st') = live ps"
    using input_side.connect_attaches [OF ps(2,1)] assms(4) ps(4) by auto
  note l = connectInput_local [OF ps(2,1)] and o = connectInput_outputs [OF ps(2,1)]
  show "attached_inputs (su_store st') q = attached_inputs (su_store st) q @ [ep env s p]"
    "input_pointer (su_store st') (ep env s p) = Some q" "live (su_store st') q"
    using a ps by simp_all
  show "attached_outputs (su_store st') q = attached_outputs (su_store st) q"
    using o ps(3) by (simp add: outputs_same_def)
  show "\<forall>a. output_pointer (su_store st') a = output_pointer (su_store st) a"
    using o ps(6) by (simp add: outputs_same_def output_pointer_def)
  show "proto_sig (the (protocols (su_store st') q)) = proto_sig (the (protocols (su_store st) q))"
    using l ps(5) by (simp add: local_change_def)
  show "mProtocolSendEndpoints st' = (if top_port s p
       then (mProtocolSendEndpoints st)(pp_name (pport s p) \<mapsto> ep env s p) else mProtocolSendEndpoints st)"
    "mProtocolReceiveEndpoints st' = mProtocolReceiveEndpoints st" by (rule m)+
  have "extends (mProtocolSendEndpoints st) (mProtocolSendEndpoints st')" using m(1) assms(5) by (auto simp: extends_def)
  then show "frame q {ep env s p} st st'"
    using l ps(5-7) m by (simp add: frame_def local_change_def)
qed

lemma connectPort_mono:
  "connectSendPort env s protocol q st p = (e, st') \<Longrightarrow> su_result st' \<Longrightarrow> su_result st"
  "connectReceivePort env s protocol q st p = (e, st') \<Longrightarrow> su_result st' \<Longrightarrow> su_result st"
  by (auto simp: connectSendPort_def connectReceivePort_def Let_def split: if_splits sum.splits)

lemma foldT_mono:
  assumes "\<And>st x e st'. f st x = (e, st') \<Longrightarrow> su_result st' \<Longrightarrow> su_result st"
  shows "foldT f st xs = (e, st') \<Longrightarrow> su_result st' \<Longrightarrow> su_result st"
proof (induction xs arbitrary: st)
  case (Cons x xs)
  obtain e1 st1 where 1: "f st x = (e1, st1)" by fastforce
  then have "su_result st1" using Cons by (cases e1) auto
  then show ?case using assms [OF 1] by simp
qed simp

lemma pointer_frame:
  "\<lbrakk>frame q A st st'; a \<notin> A\<rbrakk> \<Longrightarrow> output_pointer (su_store st') a = output_pointer (su_store st) a"
  "\<lbrakk>frame q A st st'; a \<notin> A\<rbrakk> \<Longrightarrow> input_pointer (su_store st') a = input_pointer (su_store st) a"
  by (simp_all add: frame_def output_pointer_def input_pointer_def)

definition sends_done :: "'p param_env \<Rightarrow> store \<Rightarrow> nat \<Rightarrow> 'p param_setup \<Rightarrow> nat list \<Rightarrow> 'p param_setup \<Rightarrow> bool" where
  "sends_done env s q st xs st' \<longleftrightarrow>
     attached_outputs (su_store st') q = attached_outputs (su_store st) q @ map (ep env s) xs \<and>
     attached_inputs (su_store st') q = attached_inputs (su_store st) q \<and> live (su_store st') q \<and>
     (\<forall>p \<in> set xs. output_pointer (su_store st') (ep env s p) = Some q) \<and>
     proto_sig (the (protocols (su_store st') q)) = proto_sig (the (protocols (su_store st) q)) \<and>
     (\<forall>p \<in> set xs. top_port s p \<longrightarrow> mProtocolReceiveEndpoints st' (pp_name (pport s p)) = Some (ep env s p)) \<and>
     dom (mProtocolReceiveEndpoints st') \<subseteq> dom (mProtocolReceiveEndpoints st) \<union>
       {pp_name (pport s p) | p. p \<in> set xs \<and> top_port s p} \<and>
     mProtocolSendEndpoints st' = mProtocolSendEndpoints st \<and> frame q (ep env s ` set xs) st st' \<and> su_result st"

lemma foldT_sends:
  assumes "foldT (connectSendPort env s protocol q) st xs = (None, st')" "su_result st'" "live (su_store st) q"
    and "distinct (map (ep env s) xs)" "set (map (ep env s) xs) \<inter> set (attached_outputs (su_store st) q) = {}"
    and "distinct (map (\<lambda>p. pp_name (pport s p)) (filter (top_port s) xs))"
    and "\<forall>p \<in> set xs. top_port s p \<longrightarrow> mProtocolReceiveEndpoints st (pp_name (pport s p)) = None"
  shows "sends_done env s q st xs st'"
  using assms
proof (induction xs arbitrary: st)
  case Nil
  then show ?case by (simp add: sends_done_def frame_refl)
next
  case (Cons x xs)
  obtain st1 where 1: "connectSendPort env s protocol q st x = (None, st1)"
      and 2: "foldT (connectSendPort env s protocol q) st1 xs = (None, st')"
    using Cons.prems(1) by (auto split: prod.splits option.splits)
  have r1: "su_result st1" by (rule foldT_mono [OF _ 2 Cons.prems(2)]) (rule connectPort_mono(1))
  have n: "ep env s x \<notin> set (attached_outputs (su_store st) q)" using Cons.prems(5) by auto
  note k = connectSendPort_ok [OF Cons.prems(3) 1 r1 n] and f = connectSendPort_frame [OF Cons.prems(3) 1]
  have nm: "pp_name (pport s p) \<noteq> pp_name (pport s x)" if "p \<in> set xs" "top_port s p" "top_port s x" for p
    using Cons.prems(6) that by (auto simp: image_iff)
  have names: "\<forall>p \<in> set xs. top_port s p \<longrightarrow> mProtocolReceiveEndpoints st1 (pp_name (pport s p)) = None"
    using Cons.prems(7) nm by (auto simp: k(6) insert_endpoint_def)
  have "sends_done env s q st1 xs st'"
    by (rule Cons.IH [OF 2 Cons.prems(2) k(4)])
      (use Cons.prems(4-6) names in \<open>auto simp: k(1) split: if_splits\<close>)
  then have D: "attached_outputs (su_store st') q = attached_outputs (su_store st1) q @ map (ep env s) xs"
     "attached_inputs (su_store st') q = attached_inputs (su_store st1) q" "live (su_store st') q"
     "\<forall>p \<in> set xs. output_pointer (su_store st') (ep env s p) = Some q"
     "proto_sig (the (protocols (su_store st') q)) = proto_sig (the (protocols (su_store st1) q))"
     "\<forall>p \<in> set xs. top_port s p \<longrightarrow> mProtocolReceiveEndpoints st' (pp_name (pport s p)) = Some (ep env s p)"
     "dom (mProtocolReceiveEndpoints st') \<subseteq> dom (mProtocolReceiveEndpoints st1) \<union>
       {pp_name (pport s p) | p. p \<in> set xs \<and> top_port s p}"
     "mProtocolSendEndpoints st' = mProtocolSendEndpoints st1" "frame q (ep env s ` set xs) st1 st'" "su_result st1"
    by (simp_all add: sends_done_def)
  have px: "output_pointer (su_store st') (ep env s x) = Some q"
    using pointer_frame(1) [OF D(9), of "ep env s x"] Cons.prems(4) k(3) by simp
  have mx: "mProtocolReceiveEndpoints st' (pp_name (pport s x)) = Some (ep env s x)" if "top_port s x"
  proof -
    have "mProtocolReceiveEndpoints st1 (pp_name (pport s x)) = Some (ep env s x)"
      using Cons.prems(7) that by (simp add: k(6) insert_endpoint_def)
    then show ?thesis using D(9) by (simp add: frame_def extends_def)
  qed
  have fr: "frame q (ep env s ` set (x # xs)) st st'"
    by (rule frame_trans [of _ _ _ st1]) (rule frame_mono [OF f], simp, rule frame_mono [OF D(9)], auto)
  have dm: "dom (mProtocolReceiveEndpoints st') \<subseteq> dom (mProtocolReceiveEndpoints st) \<union>
       {pp_name (pport s p) | p. p \<in> set (x # xs) \<and> top_port s p}"
    using D(7) by (auto simp: k(6) insert_endpoint_def split: if_splits)
  have "su_result st" by (rule connectPort_mono(1) [OF 1 r1])
  then show ?case
    unfolding sends_done_def using D px mx fr dm k(1,2,5,7) by (intro conjI) simp_all
qed

definition receives_done :: "'p param_env \<Rightarrow> store \<Rightarrow> nat \<Rightarrow> 'p param_setup \<Rightarrow> nat list \<Rightarrow> 'p param_setup \<Rightarrow> bool" where
  "receives_done env s q st xs st' \<longleftrightarrow>
     attached_inputs (su_store st') q = attached_inputs (su_store st) q @ map (ep env s) xs \<and>
     attached_outputs (su_store st') q = attached_outputs (su_store st) q \<and> live (su_store st') q \<and>
     (\<forall>p \<in> set xs. input_pointer (su_store st') (ep env s p) = Some q) \<and>
     proto_sig (the (protocols (su_store st') q)) = proto_sig (the (protocols (su_store st) q)) \<and>
     (\<forall>p \<in> set xs. top_port s p \<longrightarrow> mProtocolSendEndpoints st' (pp_name (pport s p)) = Some (ep env s p)) \<and>
     dom (mProtocolSendEndpoints st') \<subseteq> dom (mProtocolSendEndpoints st) \<union>
       {pp_name (pport s p) | p. p \<in> set xs \<and> top_port s p} \<and>
     mProtocolReceiveEndpoints st' = mProtocolReceiveEndpoints st \<and> frame q (ep env s ` set xs) st st' \<and> su_result st \<and>
     (\<forall>a. output_pointer (su_store st') a = output_pointer (su_store st) a)"

lemma foldT_receives:
  assumes "foldT (connectReceivePort env s protocol q) st xs = (None, st')" "su_result st'" "live (su_store st) q"
    and "distinct (map (ep env s) xs)" "set (map (ep env s) xs) \<inter> set (attached_inputs (su_store st) q) = {}"
    and "distinct (map (\<lambda>p. pp_name (pport s p)) (filter (top_port s) xs))"
    and "\<forall>p \<in> set xs. top_port s p \<longrightarrow> mProtocolSendEndpoints st (pp_name (pport s p)) = None"
  shows "receives_done env s q st xs st'"
  using assms
proof (induction xs arbitrary: st)
  case Nil
  then show ?case by (simp add: receives_done_def frame_refl)
next
  case (Cons x xs)
  obtain st1 where 1: "connectReceivePort env s protocol q st x = (None, st1)"
      and 2: "foldT (connectReceivePort env s protocol q) st1 xs = (None, st')"
    using Cons.prems(1) by (auto split: prod.splits option.splits)
  have r1: "su_result st1" by (rule foldT_mono [OF _ 2 Cons.prems(2)]) (rule connectPort_mono(2))
  have n: "ep env s x \<notin> set (attached_inputs (su_store st) q)" using Cons.prems(5) by auto
  have t: "top_port s x \<longrightarrow> mProtocolSendEndpoints st (pp_name (pport s x)) = None" using Cons.prems(7) by simp
  note k = connectReceivePort_ok [OF Cons.prems(3) 1 r1 n t]
  have nm: "pp_name (pport s p) \<noteq> pp_name (pport s x)" if "p \<in> set xs" "top_port s p" "top_port s x" for p
    using Cons.prems(6) that by (auto simp: image_iff)
  have names: "\<forall>p \<in> set xs. top_port s p \<longrightarrow> mProtocolSendEndpoints st1 (pp_name (pport s p)) = None"
    using Cons.prems(7) nm by (auto simp: k(6))
  have "receives_done env s q st1 xs st'"
    by (rule Cons.IH [OF 2 Cons.prems(2) k(4)])
      (use Cons.prems(4-6) names in \<open>auto simp: k(1) split: if_splits\<close>)
  then have D: "attached_inputs (su_store st') q = attached_inputs (su_store st1) q @ map (ep env s) xs"
     "attached_outputs (su_store st') q = attached_outputs (su_store st1) q" "live (su_store st') q"
     "\<forall>p \<in> set xs. input_pointer (su_store st') (ep env s p) = Some q"
     "proto_sig (the (protocols (su_store st') q)) = proto_sig (the (protocols (su_store st1) q))"
     "\<forall>p \<in> set xs. top_port s p \<longrightarrow> mProtocolSendEndpoints st' (pp_name (pport s p)) = Some (ep env s p)"
     "dom (mProtocolSendEndpoints st') \<subseteq> dom (mProtocolSendEndpoints st1) \<union>
       {pp_name (pport s p) | p. p \<in> set xs \<and> top_port s p}"
     "mProtocolReceiveEndpoints st' = mProtocolReceiveEndpoints st1" "frame q (ep env s ` set xs) st1 st'" "su_result st1"
     "\<forall>a. output_pointer (su_store st') a = output_pointer (su_store st1) a"
    by (simp_all add: receives_done_def)
  have px: "input_pointer (su_store st') (ep env s x) = Some q"
    using pointer_frame(2) [OF D(9), of "ep env s x"] Cons.prems(4) k(3) by simp
  have mx: "mProtocolSendEndpoints st' (pp_name (pport s x)) = Some (ep env s x)" if "top_port s x"
  proof -
    have "mProtocolSendEndpoints st1 (pp_name (pport s x)) = Some (ep env s x)"
      using that by (simp add: k(6))
    then show ?thesis using D(9) by (simp add: frame_def extends_def)
  qed
  have fr: "frame q (ep env s ` set (x # xs)) st st'"
    by (rule frame_trans [of _ _ _ st1]) (rule frame_mono [OF k(8)], simp, rule frame_mono [OF D(9)], auto)
  have dm: "dom (mProtocolSendEndpoints st') \<subseteq> dom (mProtocolSendEndpoints st) \<union>
       {pp_name (pport s p) | p. p \<in> set (x # xs) \<and> top_port s p}"
    using D(7) by (auto simp: k(6) split: if_splits)
  have "su_result st" by (rule connectPort_mono(2) [OF 1 r1])
  then show ?case
    unfolding receives_done_def using D px mx fr dm k(1,2,5,7,9) by (intro conjI) simp_all
qed

section \<open>A connected group\<close>

definition group_protocol :: "'p param_env \<Rightarrow> connected_ports \<Rightarrow> nat" where
  "group_protocol env c = pe_protocol env (hd (mSendPorts c))"

definition group_wired :: "'p param_env \<Rightarrow> store \<Rightarrow> connected_ports \<Rightarrow> 'p param_setup \<Rightarrow> bool" where
  "group_wired env s c st \<longleftrightarrow>
     (let q = group_protocol env c; ref = pport s (hd (mSendPorts c)); ps = su_store st
      in mSendPorts c \<noteq> [] \<and> live ps q \<and> q \<in> set (mCommunicationProtocols st) \<and>
         (\<exists>cr cfg. map_of (pe_table env) (pp_protocolType ref) = Some cr \<and> pp_config ref = Some cfg \<and>
            proto_sig (the (protocols ps q)) = (cr_class cr, pp_parameterType ref, cfg)) \<and>
         attached_outputs ps q = map (ep env s) (mSendPorts c) \<and>
         attached_inputs ps q = map (ep env s) (mReceivePorts c) \<and>
         (\<forall>p \<in> set (mSendPorts c). output_pointer ps (ep env s p) = Some q) \<and>
         (\<forall>p \<in> set (mReceivePorts c). input_pointer ps (ep env s p) = Some q) \<and>
         (\<forall>p \<in> set (mSendPorts c). top_port s p \<longrightarrow>
            mProtocolReceiveEndpoints st (pp_name (pport s p)) = Some (ep env s p)) \<and>
         (\<forall>p \<in> set (mReceivePorts c). top_port s p \<longrightarrow>
            mProtocolSendEndpoints st (pp_name (pport s p)) = Some (ep env s p)) \<and>
         (\<forall>p \<in> group_ports c. p = hd (mSendPorts c) \<or> compatible s (hd (mSendPorts c)) p))"

lemma construct_fresh:
  assumes "construct create k ty cfg = Inr v"
  shows "proto_sig v = (k, ty, cfg)" "attached_outputs (protocol_at q v ps) q = []" "attached_inputs (protocol_at q v ps) q = []"
  using assms
  by (cases k; auto simp: mq_new_def db_new_def sd_new_def)+

lemma foldE_check:
  assumes "foldE (checkAgainst s ref) st ps = Inr st'" "su_result st'"
  shows "su_result st \<and> (\<forall>p \<in> set ps. compatible s ref p) \<and> (\<exists>ms. st' = st\<lparr>su_messages := ms, su_result := True\<rparr>)"
  using assms
proof (induction ps arbitrary: st)
  case Nil
  then show ?case by (intro conjI exI [of _ "su_messages st"]) auto
next
  case (Cons p ps)
  obtain r where r: "checkParameterPortCompatibility s ref p (su_messages st) = Inr r"
    using Cons.prems(1) by (cases "checkParameterPortCompatibility s ref p (su_messages st)") (simp_all add: checkAgainst_def [of s ref st p])
  obtain ok ms where r': "r = (ok, ms)" by fastforce
  have 1: "checkParameterPortCompatibility s ref p (su_messages st) = Inr (ok, ms)" using r r' by simp
  have 2: "foldE (checkAgainst s ref) (st\<lparr>su_messages := ms, su_result := su_result st \<and> ok\<rparr>) ps = Inr st'"
    using Cons.prems(1) by (simp add: checkAgainst_def [of s ref st p] 1)
  note ih = Cons.IH [OF 2 Cons.prems(2)]
  then have ok: "ok" "su_result st" by auto
  then have "compatible s ref p" using 1 checkParameterPortCompatibility_True [of s ref p "su_messages st" ms] by simp
  moreover obtain ms' where "st' = st\<lparr>su_messages := ms', su_result := True\<rparr>" using ih by (elim conjE exE) simp
  ultimately show ?case using ih ok by (intro conjI exI [of _ ms']) simp_all
qed

text \<open>What a group needs: a new protocol address, endpoints and names of its own.\<close>

definition group_fresh :: "'p param_env \<Rightarrow> store \<Rightarrow> connected_ports \<Rightarrow> 'p param_setup \<Rightarrow> bool" where
  "group_fresh env s c st \<longleftrightarrow>
     distinct (map (ep env s) (mSendPorts c)) \<and> distinct (map (ep env s) (mReceivePorts c)) \<and>
     ep env s ` set (mSendPorts c) \<inter> ep env s ` set (mReceivePorts c) = {} \<and>
     distinct (map (\<lambda>p. pp_name (pport s p)) (filter (top_port s) (mSendPorts c))) \<and>
     distinct (map (\<lambda>p. pp_name (pport s p)) (filter (top_port s) (mReceivePorts c))) \<and>
     (\<forall>p \<in> set (mSendPorts c). top_port s p \<longrightarrow> mProtocolReceiveEndpoints st (pp_name (pport s p)) = None) \<and>
     (\<forall>p \<in> set (mReceivePorts c). top_port s p \<longrightarrow> mProtocolSendEndpoints st (pp_name (pport s p)) = None)"

definition names_added :: "store \<Rightarrow> connected_ports \<Rightarrow> 'p param_setup \<Rightarrow> 'p param_setup \<Rightarrow> bool" where
  "names_added s c st st' \<longleftrightarrow>
     dom (mProtocolReceiveEndpoints st') \<subseteq> dom (mProtocolReceiveEndpoints st) \<union>
       {pp_name (pport s p) | p. p \<in> set (mSendPorts c) \<and> top_port s p} \<and>
     dom (mProtocolSendEndpoints st') \<subseteq> dom (mProtocolSendEndpoints st) \<union>
       {pp_name (pport s p) | p. p \<in> set (mReceivePorts c) \<and> top_port s p}"

lemma connectPorts_ok:
  assumes "connectPorts env s c st = (None, st')" "su_result st'" "group_fresh env s c st" "mSendPorts c \<noteq> []"
    and "\<forall>p \<in> group_ports c. p = hd (mSendPorts c) \<or> compatible s (hd (mSendPorts c)) p"
  shows "group_wired env s c st' \<and> names_added s c st st' \<and> su_result st \<and>
    frame (group_protocol env c) (ep env s ` group_ports c) st st'"
proof -
  let ?ref = "hd (mSendPorts c)" and ?q = "group_protocol env c"
  let ?t = "pp_protocolType (pport s ?ref)"
  obtain cfg v st1 st2 where cfg: "pp_config (pport s ?ref) = Some cfg"
      and v: "createProtocol (pe_table env) (pe_create env) ?t (pp_parameterType (pport s ?ref)) cfg = Inr v"
      and 1: "foldT (connectSendPort env s ?t ?q) (st\<lparr>su_store := protocol_at ?q v (su_store st)\<rparr>) (mSendPorts c) = (None, st1)"
      and 2: "foldT (connectReceivePort env s ?t ?q) st1 (mReceivePorts c) = (None, st2)"
      and st': "st' = st2\<lparr>mCommunicationProtocols := mCommunicationProtocols st2 @ [?q]\<rparr>"
    using assms(1)
    by (auto simp: connectPorts_def Let_def group_protocol_def parameterConfig_def split: sum.splits prod.splits option.splits)
  let ?st0 = "st\<lparr>su_store := protocol_at ?q v (su_store st)\<rparr>"
  obtain cr where cr: "map_of (pe_table env) ?t = Some cr"
      "construct (pe_create env) (cr_class cr) (pp_parameterType (pport s ?ref)) cfg = Inr v"
    using v by (auto simp: createProtocol_def split: option.splits)
  note fresh = construct_fresh [OF cr(2)]
  have r2: "su_result st2" using assms(2) st' by simp
  have r1: "su_result st1" by (rule foldT_mono [OF _ 2 r2]) (rule connectPort_mono(2))
  have S: "sends_done env s ?q ?st0 (mSendPorts c) st1"
    by (rule foldT_sends [OF 1 r1]) (use assms(3) fresh(2) in \<open>auto simp: group_fresh_def\<close>)
  have S1: "attached_outputs (su_store st1) ?q = map (ep env s) (mSendPorts c)" "attached_inputs (su_store st1) ?q = []"
    "live (su_store st1) ?q" "mProtocolSendEndpoints st1 = mProtocolSendEndpoints st"
    "proto_sig (the (protocols (su_store st1) ?q)) = (cr_class cr, pp_parameterType (pport s ?ref), cfg)"
    "frame ?q (ep env s ` set (mSendPorts c)) ?st0 st1" "su_result st"
    using S fresh by (simp_all add: sends_done_def)
  have R: "receives_done env s ?q st1 (mReceivePorts c) st2"
    by (rule foldT_receives [OF 2 r2 S1(3)]) (use assms(3) S1(2,4) in \<open>auto simp: group_fresh_def\<close>)
  have fr1: "frame ?q (ep env s ` group_ports c) st ?st0" by (simp add: frame_def)
  have fr2: "frame ?q (ep env s ` group_ports c) ?st0 st1" by (rule frame_mono [OF S1(6)]) (auto simp: group_ports_def)
  have fr3: "frame ?q (ep env s ` group_ports c) st1 st2"
  proof (rule frame_mono)
    show "frame ?q (ep env s ` set (mReceivePorts c)) st1 st2" using R by (simp add: receives_done_def)
  qed (auto simp: group_ports_def)
  have fr4: "frame ?q (ep env s ` group_ports c) st2 st'" by (auto simp: frame_def st')
  have fr: "frame ?q (ep env s ` group_ports c) st st'"
    using fr1 fr2 fr3 fr4 frame_trans by blast
  have na: "names_added s c st st'" using S R by (simp add: names_added_def st' sends_done_def receives_done_def)
  have "group_wired env s c st'"
    unfolding group_wired_def Let_def
    using S S1 R cr(1) cfg assms(4,5) fresh by (simp add: st' sends_done_def receives_done_def)
  then show ?thesis using fr na S1(7) by blast
qed

lemma foldT_connect_mono:
  "foldT (connectSendPort env s protocol q) st xs = (e, st') \<Longrightarrow> su_result st' \<Longrightarrow> su_result st"
  "foldT (connectReceivePort env s protocol q) st xs = (e, st') \<Longrightarrow> su_result st' \<Longrightarrow> su_result st"
  by (rule foldT_mono [OF connectPort_mono(1)], assumption+) (rule foldT_mono [OF connectPort_mono(2)], assumption+)

lemma connectPorts_mono:
  assumes "connectPorts env s c st = (e, st')" "su_result st'"
  shows "su_result st"
proof -
  let ?ref = "hd (mSendPorts c)" and ?q = "group_protocol env c"
  let ?t = "pp_protocolType (pport s ?ref)"
  show ?thesis
  proof (cases "bindE (parameterConfig (pport s ?ref)) (createProtocol (pe_table env) (pe_create env) ?t (pp_parameterType (pport s ?ref)))")
    case (Inl x)
    then have "st' = st" using assms(1) unfolding connectPorts_def Let_def Inl by auto
    then show ?thesis using assms(2) by simp
  next
    case (Inr v)
    obtain e1 st1 where 1: "foldT (connectSendPort env s ?t ?q) (st\<lparr>su_store := protocol_at ?q v (su_store st)\<rparr>) (mSendPorts c) = (e1, st1)"
      by fastforce
    obtain e2 st2 where 2: "foldT (connectReceivePort env s ?t ?q) st1 (mReceivePorts c) = (e2, st2)" by fastforce
    have "su_result st1"
    proof (cases e1)
      case None
      then have "su_result st2" using assms 1 2 unfolding connectPorts_def Let_def Inr group_protocol_def
        by (auto split: option.splits)
      then show ?thesis using foldT_connect_mono(2) [OF 2] by blast
    next
      case (Some x)
      then have "st' = st1" using assms(1) 1 unfolding connectPorts_def Let_def Inr group_protocol_def by auto
      then show ?thesis using assms(2) by simp
    qed
    then show ?thesis using foldT_connect_mono(1) [OF 1] by simp
  qed
qed

lemma group_fresh_messages [simp]:
  "group_fresh env s c (st\<lparr>su_messages := ms, su_result := b\<rparr>) = group_fresh env s c st"
  "names_added s c (st\<lparr>su_messages := ms, su_result := b\<rparr>) st' = names_added s c st st'"
  by (simp_all add: group_fresh_def names_added_def)

lemma connectGroup_ok:
  assumes "connectGroup env s st c = Inr st'" "su_result st'" "group_fresh env s c st"
  shows "group_wired env s c st' \<and> names_added s c st st' \<and> su_result st \<and>
    frame (group_protocol env c) (ep env s ` group_ports c) st st'"
proof (cases "numSenders c < 1")
  case True
  then show ?thesis using assms(1,2) by (auto simp: connectGroup_def Let_def split: if_splits)
next
  case False
  then have ne: "mSendPorts c \<noteq> []" and nr: "\<not> numReceivers c < 1"
    by (auto simp: numSenders_def numReceivers_def)
  obtain st3 where 3: "foldE (checkAgainst s (hd (mSendPorts c))) st (tl (mSendPorts c)) = Inr st3"
    using assms(1) False nr
    by (cases "foldE (checkAgainst s (hd (mSendPorts c))) st (tl (mSendPorts c))") (simp_all add: connectGroup_def Let_def)
  obtain st4 where 4: "foldE (checkAgainst s (hd (mSendPorts c))) st3 (mReceivePorts c) = Inr st4"
    using assms(1) False nr 3
    by (cases "foldE (checkAgainst s (hd (mSendPorts c))) st3 (mReceivePorts c)") (simp_all add: connectGroup_def Let_def)
  obtain e st5 where 5: "connectPorts env s c st4 = (e, st5)" by fastforce
  have e: "st' = (case e of None \<Rightarrow> st5 | Some x \<Rightarrow> st5\<lparr>su_messages := su_messages st5 @ [InfrastructureError x], su_result := False\<rparr>)"
    using assms(1) False nr 3 4 5 by (simp add: connectGroup_def Let_def split: option.splits)
  then have e: "e = None" "st' = st5" using assms(2) by (auto split: option.splits)
  note 5 = 5 [unfolded e(1)]
  have r4: "su_result st4" using connectPorts_mono [OF 5] assms(2) e(2) by simp
  note c4 = foldE_check [OF 4 r4]
  have c3: "su_result st \<and> (\<forall>p \<in> set (tl (mSendPorts c)). compatible s (hd (mSendPorts c)) p) \<and>
      (\<exists>ms. st3 = st\<lparr>su_messages := ms, su_result := True\<rparr>)"
    by (rule foldE_check [OF 3]) (use c4 in blast)
  obtain ms where st4: "st4 = st\<lparr>su_messages := ms, su_result := True\<rparr>" using c3 c4 by auto
  have comp: "\<forall>p \<in> group_ports c. p = hd (mSendPorts c) \<or> compatible s (hd (mSendPorts c)) p"
    using c3 c4 ne by (cases "mSendPorts c") (auto simp: group_ports_def)
  have "group_fresh env s c st4" using assms(3) by (simp add: st4)
  from connectPorts_ok [OF 5 _ this ne comp] assms(2) e(2)
  have "group_wired env s c st'" "names_added s c st st'" "frame (group_protocol env c) (ep env s ` group_ports c) st4 st'"
    by (auto simp: st4)
  moreover have "frame (group_protocol env c) (ep env s ` group_ports c) st st4" using c3 by (simp add: frame_def st4)
  ultimately show ?thesis using c3 frame_trans by blast
qed

section \<open>All groups\<close>

definition apart :: "'p param_env \<Rightarrow> store \<Rightarrow> connected_ports \<Rightarrow> connected_ports \<Rightarrow> bool" where
  "apart env s c d \<longleftrightarrow> group_protocol env c \<noteq> group_protocol env d \<and>
     ep env s ` group_ports c \<inter> ep env s ` group_ports d = {}"

definition top_names :: "store \<Rightarrow> nat list \<Rightarrow> string set" where
  "top_names s ps = {pp_name (pport s p) | p. p \<in> set ps \<and> top_port s p}"

lemma group_wired_frame:
  assumes w: "group_wired env s c st" and f: "frame (group_protocol env d) (ep env s ` group_ports d) st st'" and a: "apart env s c d"
  shows "group_wired env s c st'"
proof -
  let ?q = "group_protocol env c"
  have p: "protocols (su_store st') ?q = protocols (su_store st) ?q" using f a by (simp add: frame_def apart_def)
  have out: "output_pointer (su_store st') (ep env s x) = output_pointer (su_store st) (ep env s x)" if "x \<in> group_ports c" for x
    by (rule pointer_frame(1) [OF f]) (use a that in \<open>auto simp: apart_def\<close>)
  have inp: "input_pointer (su_store st') (ep env s x) = input_pointer (su_store st) (ep env s x)" if "x \<in> group_ports c" for x
    by (rule pointer_frame(2) [OF f]) (use a that in \<open>auto simp: apart_def\<close>)
  have "live (su_store st') ?q = live (su_store st) ?q" "attached_outputs (su_store st') ?q = attached_outputs (su_store st) ?q"
    "attached_inputs (su_store st') ?q = attached_inputs (su_store st) ?q"
    by (simp_all add: live_def attached_outputs_def attached_inputs_def p)
  moreover have "extends (mProtocolReceiveEndpoints st) (mProtocolReceiveEndpoints st')"
    "extends (mProtocolSendEndpoints st) (mProtocolSendEndpoints st')"
    "set (mCommunicationProtocols st) \<subseteq> set (mCommunicationProtocols st')" using f by (simp_all add: frame_def)
  moreover have "\<forall>x \<in> set (mSendPorts c). x \<in> group_ports c" "\<forall>x \<in> set (mReceivePorts c). x \<in> group_ports c"
    by (simp_all add: group_ports_def)
  ultimately show ?thesis
    using w unfolding group_wired_def Let_def extends_def by (simp add: p out inp subset_iff)
qed

text \<open>What the environment has to provide for a list of groups.\<close>

fun groups_apart :: "'p param_env \<Rightarrow> store \<Rightarrow> connected_ports list \<Rightarrow> bool" where
  "groups_apart env s [] \<longleftrightarrow> True"
| "groups_apart env s (c # cs) \<longleftrightarrow>
     (\<forall>d \<in> set cs. apart env s c d \<and> top_names s (mSendPorts c) \<inter> top_names s (mSendPorts d) = {} \<and>
        top_names s (mReceivePorts c) \<inter> top_names s (mReceivePorts d) = {}) \<and>
     groups_apart env s cs"

lemma group_fresh_next:
  assumes "group_fresh env s d st" "names_added s c st st'"
    "top_names s (mSendPorts c) \<inter> top_names s (mSendPorts d) = {}" "top_names s (mReceivePorts c) \<inter> top_names s (mReceivePorts d) = {}"
  shows "group_fresh env s d st'"
proof -
  have 1: "mProtocolReceiveEndpoints st' (pp_name (pport s p)) = None" if p: "p \<in> set (mSendPorts d)" "top_port s p" for p
  proof -
    have "pp_name (pport s p) \<notin> top_names s (mSendPorts c)" using assms(3) p by (auto simp: top_names_def)
    moreover have "pp_name (pport s p) \<notin> dom (mProtocolReceiveEndpoints st)"
      using assms(1) p by (auto simp: group_fresh_def dom_def)
    ultimately have "pp_name (pport s p) \<notin> dom (mProtocolReceiveEndpoints st')"
      using assms(2) unfolding names_added_def top_names_def by blast
    then show ?thesis by (simp add: domIff)
  qed
  have 2: "mProtocolSendEndpoints st' (pp_name (pport s p)) = None" if p: "p \<in> set (mReceivePorts d)" "top_port s p" for p
  proof -
    have "pp_name (pport s p) \<notin> top_names s (mReceivePorts c)" using assms(4) p by (auto simp: top_names_def)
    moreover have "pp_name (pport s p) \<notin> dom (mProtocolSendEndpoints st)"
      using assms(1) p by (auto simp: group_fresh_def dom_def)
    ultimately have "pp_name (pport s p) \<notin> dom (mProtocolSendEndpoints st')"
      using assms(2) unfolding names_added_def top_names_def by blast
    then show ?thesis by (simp add: domIff)
  qed
  show ?thesis using assms(1) 1 2 by (simp add: group_fresh_def)
qed

lemma checkAgainst_mono: "foldE (checkAgainst s ref) st ps = Inr st' \<Longrightarrow> su_result st' \<Longrightarrow> su_result st"
  using foldE_check by blast

lemma connectGroup_mono:
  assumes "connectGroup env s st c = Inr st'" "su_result st'"
  shows "su_result st"
proof (cases "numSenders c < 1")
  case True
  then show ?thesis using assms by (auto simp: connectGroup_def Let_def split: if_splits)
next
  case False
  then have nr: "\<not> numReceivers c < 1" by (simp add: numSenders_def numReceivers_def)
  obtain st3 where 3: "foldE (checkAgainst s (hd (mSendPorts c))) st (tl (mSendPorts c)) = Inr st3"
    using assms(1) False nr
    by (cases "foldE (checkAgainst s (hd (mSendPorts c))) st (tl (mSendPorts c))") (simp_all add: connectGroup_def Let_def)
  obtain st4 where 4: "foldE (checkAgainst s (hd (mSendPorts c))) st3 (mReceivePorts c) = Inr st4"
    using assms(1) False nr 3
    by (cases "foldE (checkAgainst s (hd (mSendPorts c))) st3 (mReceivePorts c)") (simp_all add: connectGroup_def Let_def)
  obtain e st5 where 5: "connectPorts env s c st4 = (e, st5)" by fastforce
  have "st' = (case e of None \<Rightarrow> st5 | Some x \<Rightarrow> st5\<lparr>su_messages := su_messages st5 @ [InfrastructureError x], su_result := False\<rparr>)"
    using assms(1) False nr 3 4 5 by (simp add: connectGroup_def Let_def split: option.splits)
  then have "su_result st5" using assms(2) by (auto split: option.splits)
  then show ?thesis using connectPorts_mono [OF 5] checkAgainst_mono [OF 4] checkAgainst_mono [OF 3] by blast
qed

lemma foldE_group_mono:
  "foldE (connectGroup env s) st cs = Inr st' \<Longrightarrow> su_result st' \<Longrightarrow> su_result st"
proof (induction cs arbitrary: st)
  case (Cons c cs)
  then obtain st1 where "connectGroup env s st c = Inr st1" "foldE (connectGroup env s) st1 cs = Inr st'"
    by (cases "connectGroup env s st c") simp_all
  then show ?case using Cons.IH Cons.prems(2) connectGroup_mono by blast
qed simp

lemma foldE_groups:
  assumes "foldE (connectGroup env s) st cs = Inr st'" "su_result st'" "groups_apart env s cs"
    and "\<forall>c \<in> set cs. group_fresh env s c st"
  shows "(\<forall>c \<in> set cs. group_wired env s c st') \<and>
    (\<forall>c. group_wired env s c st \<and> (\<forall>d \<in> set cs. apart env s c d) \<longrightarrow> group_wired env s c st')"
  using assms
proof (induction cs arbitrary: st)
  case (Cons c cs)
  obtain st1 where 1: "connectGroup env s st c = Inr st1" and 2: "foldE (connectGroup env s) st1 cs = Inr st'"
    using Cons.prems(1) by (cases "connectGroup env s st c") simp_all
  have r1: "su_result st1" by (rule foldE_group_mono [OF 2 Cons.prems(2)])
  have fc: "group_fresh env s c st" using Cons.prems(4) by simp
  note ok = connectGroup_ok [OF 1 r1 fc]
  have "\<forall>d \<in> set cs. group_fresh env s d st1"
  proof
    fix d assume d: "d \<in> set cs"
    have n: "names_added s c st st1" by (rule ok [THEN conjunct2, THEN conjunct1])
    have f: "group_fresh env s d st" using Cons.prems(4) d by simp
    have a: "top_names s (mSendPorts c) \<inter> top_names s (mSendPorts d) = {}" "top_names s (mReceivePorts c) \<inter> top_names s (mReceivePorts d) = {}"
      using Cons.prems(3) d by simp_all
    show "group_fresh env s d st1" by (rule group_fresh_next [OF f n a])
  qed
  note ih = Cons.IH [OF 2 Cons.prems(2) _ this]
  have ap: "\<forall>d \<in> set cs. apart env s c d" and ga: "groups_apart env s cs" using Cons.prems(3) by simp_all
  have "group_wired env s c st'" using ih [OF ga] ok ap by blast
  moreover have "group_wired env s b st'" if b: "group_wired env s b st" "\<forall>d \<in> set (c # cs). apart env s b d" for b
  proof -
    have f: "frame (group_protocol env c) (ep env s ` group_ports c) st st1" by (rule ok [THEN conjunct2, THEN conjunct2, THEN conjunct2])
    have "group_wired env s b st1" by (rule group_wired_frame [OF b(1) f]) (use b(2) in simp)
    then show ?thesis using ih [OF ga] b(2) by simp
  qed
  ultimately show ?case using ih [OF ga] by auto
qed simp

section \<open>The initialisation connects exactly the linked ports\<close>

definition param_ports_of :: "pcmap \<Rightarrow> nat set" where
  "param_ports_of conns = fst ` set conns \<union> snd ` set conns"

text \<open>
  Addresses of new objects differ from each other and from those of existing endpoints, and the
  ports of the top level have different names.
\<close>

definition env_ok :: "'p param_env \<Rightarrow> store \<Rightarrow> pcmap \<Rightarrow> bool" where
  "env_ok env s conns \<longleftrightarrow> inj_on (ep env s) (param_ports_of conns) \<and> inj_on (pe_protocol env) (param_ports_of conns) \<and>
     inj_on (\<lambda>p. pp_name (pport s p)) {p \<in> param_ports_of conns. top_port s p}"

text \<open>The protocol object that a port has been connected to, and whether the caller reaches it.\<close>

definition protocol_of :: "'p param_env \<Rightarrow> store \<Rightarrow> 'p param_setup \<Rightarrow> nat \<Rightarrow> nat option" where
  "protocol_of env s st p =
     (if receiving_port s p then input_pointer (su_store st) (ep env s p) else output_pointer (su_store st) (ep env s p))"

lemma groups_apartI:
  assumes "env_ok env s conns" "(\<Union>c \<in> set cs. group_ports c) \<subseteq> param_ports_of conns"
    and "\<forall>c \<in> set cs. mSendPorts c \<noteq> []"
    and "sorted_wrt (\<lambda>c d. group_ports c \<inter> group_ports d = {}) cs"
  shows "groups_apart env s cs"
  using assms(2-4)
proof (induction cs)
  case (Cons c cs)
  note e = assms(1) [unfolded env_ok_def]
  have "apart env s c d \<and> top_names s (mSendPorts c) \<inter> top_names s (mSendPorts d) = {} \<and>
        top_names s (mReceivePorts c) \<inter> top_names s (mReceivePorts d) = {}" if d: "d \<in> set cs" for d
  proof -
    have sub: "group_ports c \<subseteq> param_ports_of conns" "group_ports d \<subseteq> param_ports_of conns"
      using Cons.prems(1) d by auto
    have dj: "group_ports c \<inter> group_ports d = {}" using Cons.prems(3) d by simp
    have h: "hd (mSendPorts c) \<in> group_ports c" "hd (mSendPorts d) \<in> group_ports d"
      using Cons.prems(2) d by (simp_all add: group_ports_def)
    have "group_protocol env c \<noteq> group_protocol env d"
    proof
      assume eq: "group_protocol env c = group_protocol env d"
      have i: "inj_on (pe_protocol env) (param_ports_of conns)" using e by simp
      have "hd (mSendPorts c) = hd (mSendPorts d)"
        by (rule inj_onD [OF i eq [unfolded group_protocol_def]]) (use h sub in blast)+
      then show False using h dj by auto
    qed
    moreover have "ep env s ` group_ports c \<inter> ep env s ` group_ports d = {}"
      using e sub dj inj_on_image_Int [of "ep env s" "param_ports_of conns" "group_ports c" "group_ports d"] by simp
    moreover have "top_names s xs \<inter> top_names s ys = {}"
      if sets: "set xs \<subseteq> group_ports c" "set ys \<subseteq> group_ports d" for xs ys
    proof -
      have "p = p'" if q: "p \<in> set xs" "top_port s p" "p' \<in> set ys" "top_port s p'" "pp_name (pport s p) = pp_name (pport s p')" for p p'
      proof -
        have i: "inj_on (\<lambda>p. pp_name (pport s p)) {p \<in> param_ports_of conns. top_port s p}" using e by simp
        show ?thesis by (rule inj_onD [OF i q(5)]) (use q sub sets in auto)
      qed
      then show ?thesis using dj sets unfolding top_names_def by blast
    qed
    ultimately show ?thesis by (simp add: apart_def group_ports_def)
  qed
  then show ?case using Cons by simp
qed simp

lemma group_freshI:
  assumes "env_ok env s conns" "group_ports c \<subseteq> param_ports_of conns" "distinct (mSendPorts c @ mReceivePorts c)"
    and "mProtocolReceiveEndpoints st = Map.empty" "mProtocolSendEndpoints st = Map.empty"
  shows "group_fresh env s c st"
proof -
  note e = assms(1) [unfolded env_ok_def]
  have i: "inj_on (ep env s) (group_ports c)" using e assms(2) inj_on_subset by blast
  have n: "inj_on (\<lambda>p. pp_name (pport s p)) {p \<in> group_ports c. top_port s p}"
    using e assms(2) by (elim conjE) (erule inj_on_subset, blast)
  have "distinct (map (ep env s) xs)" if "distinct xs" "set xs \<subseteq> group_ports c" for xs
    using that i by (simp add: distinct_map inj_on_subset)
  moreover have "distinct (map (\<lambda>p. pp_name (pport s p)) (filter (top_port s) xs))" if "distinct xs" "set xs \<subseteq> group_ports c" for xs
    using that n by (simp add: distinct_map) (erule inj_on_subset, blast)
  moreover have "ep env s ` set (mSendPorts c) \<inter> ep env s ` set (mReceivePorts c) = {}"
    using i assms(3) inj_on_image_Int [of "ep env s" "group_ports c" "set (mSendPorts c)" "set (mReceivePorts c)"]
    by (simp add: group_ports_def)
  ultimately show ?thesis using assms(3-5) by (simp add: group_fresh_def group_ports_def)
qed

lemma foldE_group_senders:
  "foldE (connectGroup env s) st cs = Inr st' \<Longrightarrow> su_result st' \<Longrightarrow> \<forall>c \<in> set cs. mSendPorts c \<noteq> []"
proof (induction cs arbitrary: st)
  case (Cons c cs)
  obtain st1 where 1: "connectGroup env s st c = Inr st1" "foldE (connectGroup env s) st1 cs = Inr st'"
    using Cons.prems(1) by (cases "connectGroup env s st c") simp_all
  then have "su_result st1" using foldE_group_mono Cons.prems(2) by blast
  then have "mSendPorts c \<noteq> []" using 1(1) by (auto simp: connectGroup_def Let_def numSenders_def split: if_splits)
  then show ?case using Cons.IH [OF 1(2) Cons.prems(2)] by simp
qed simp

definition groups_of :: "store \<Rightarrow> pcmap \<Rightarrow> connected_ports list \<Rightarrow> bool" where
  "groups_of s conns cs \<longleftrightarrow>
     (\<forall>c \<in> set cs. distinct (mSendPorts c @ mReceivePorts c) \<and>
        (\<forall>p \<in> set (mSendPorts c). \<not> receiving_port s p) \<and> (\<forall>p \<in> set (mReceivePorts c). receiving_port s p)) \<and>
     (\<Union>c \<in> set cs. group_ports c) = param_ports_of conns \<and>
     (\<forall>i < length cs. \<forall>j < length cs. \<forall>p \<in> group_ports (cs ! i). \<forall>q \<in> group_ports (cs ! j). i = j \<longleftrightarrow> (p, q) \<in> linked conns)"

lemma groups_ofI:
  assumes "component_labelling cc" "ParameterConnectionGraph cc s conns = Inr cs"
  shows "groups_of s conns cs"
proof (cases "no_double conns")
  case True
  then obtain g where g: "foldE addConnection \<lparr>pg_ports = [], mVertexLookup = [], pg_edges = []\<rparr> conns = Inr g" "graph_of conns g"
    using graph_built [of conns] by auto
  show ?thesis
    using component_labelling.graph_groups [OF assms(1) g(2,1), of s] assms(2) by (simp add: groups_of_def param_ports_of_def)
next
  case False
  then show ?thesis using graph_built [of conns] assms(2) by (simp add: ParameterConnectionGraph_def)
qed

lemma groups_ofD:
  assumes "groups_of s conns cs"
  shows "c \<in> set cs \<Longrightarrow> distinct (mSendPorts c @ mReceivePorts c)"
    "c \<in> set cs \<Longrightarrow> p \<in> set (mSendPorts c) \<Longrightarrow> \<not> receiving_port s p"
    "c \<in> set cs \<Longrightarrow> p \<in> set (mReceivePorts c) \<Longrightarrow> receiving_port s p"
    "(\<Union>c \<in> set cs. group_ports c) = param_ports_of conns"
    "\<lbrakk>i < length cs; j < length cs; p \<in> group_ports (cs ! i); q \<in> group_ports (cs ! j)\<rbrakk> \<Longrightarrow> i = j \<longleftrightarrow> (p, q) \<in> linked conns"
  using assms by (simp_all add: groups_of_def)

lemma groups_of_disjoint:
  assumes "groups_of s conns cs"
  shows "sorted_wrt (\<lambda>c d. group_ports c \<inter> group_ports d = {}) cs"
  unfolding sorted_wrt_iff_nth_less
proof (intro allI impI)
  fix i j assume ij: "i < j" "j < length cs"
  have "p \<notin> group_ports (cs ! j)" if "p \<in> group_ports (cs ! i)" for p
    using groups_ofD(5) [OF assms, of i j p p] ij that by (auto simp: linked_def)
  then show "group_ports (cs ! i) \<inter> group_ports (cs ! j) = {}" by blast
qed

lemma groups_of_group:
  assumes "groups_of s conns cs" "p \<in> param_ports_of conns"
  obtains i where "i < length cs" "p \<in> group_ports (cs ! i)"
  using assms unfolding groups_of_def by (metis UN_E in_set_conv_nth)

lemma wired_protocol_of:
  assumes "groups_of s conns cs" "i < length cs" "p \<in> group_ports (cs ! i)" "group_wired env s (cs ! i) st"
  shows "protocol_of env s st p = Some (group_protocol env (cs ! i))"
proof -
  have m: "cs ! i \<in> set cs" using assms(2) by simp
  have w: "x \<in> set (mSendPorts (cs ! i)) \<Longrightarrow> output_pointer (su_store st) (ep env s x) = Some (group_protocol env (cs ! i))"
    "x \<in> set (mReceivePorts (cs ! i)) \<Longrightarrow> input_pointer (su_store st) (ep env s x) = Some (group_protocol env (cs ! i))" for x
    using assms(4) by (simp_all add: group_wired_def Let_def)
  from assms(3) consider "p \<in> set (mSendPorts (cs ! i))" | "p \<in> set (mReceivePorts (cs ! i))"
    by (auto simp: group_ports_def)
  then show ?thesis
  proof cases
    case 1
    then show ?thesis using w(1) [OF 1] groups_ofD(2) [OF assms(1) m 1] by (simp add: protocol_of_def)
  next
    case 2
    then show ?thesis using w(2) [OF 2] groups_ofD(3) [OF assms(1) m 2] by (simp add: protocol_of_def)
  qed
qed

lemma one_sender:
  assumes "group_wired env s c st" "p \<in> set (mSendPorts c)"
  shows "mSendPorts c = [p]"
proof -
  have "length (attached_outputs (su_store st) q) \<le> 1" for q
    by (auto simp: attached_outputs_def Let_def split: option.splits)
  then have "length (mSendPorts c) \<le> 1" using assms(1) unfolding group_wired_def Let_def by (metis length_map)
  then show ?thesis using assms(2) by (cases "mSendPorts c") auto
qed

text \<open>
  C5 (parameter_infrastructure_spec): when the parameter infrastructure of a composite flow is
  reported to be initialised, every connected parameter port is attached to a protocol object that
  the flow owns, and two ports share a protocol object exactly if they are linked by connections;
  linked ports agree in protocol and parameter type, one of them, and no other, sends, and its configuration
  accepts those of the others; so their configurations are equal, unless the sender has one for interpolation
  parameters, which accepts everything. For each port of the top level the caller finds under its name the
  endpoint that is attached to the protocol object on its behalf.
\<close>

theorem parameter_infrastructure_spec:
  assumes "component_labelling connected_components" and "env_ok env s conns" and "c_composite (comp s flow)"
    and "initialiseParameterInfrastructure connected_components env s flow messages ps conns = Inr (st, conns')"
    and "su_result st"
  shows "conns' = conns \<and>
    (\<forall>p \<in> param_ports_of conns. \<exists>q. protocol_of env s st p = Some q \<and> live (su_store st) q \<and> q \<in> set (mCommunicationProtocols st)) \<and>
    (\<forall>p \<in> param_ports_of conns. \<forall>p' \<in> param_ports_of conns.
       (protocol_of env s st p = protocol_of env s st p' \<longleftrightarrow> (p, p') \<in> linked conns) \<and>
       ((p, p') \<in> linked conns \<longrightarrow>
          pp_protocolType (pport s p) = pp_protocolType (pport s p') \<and>
          pp_parameterType (pport s p) = pp_parameterType (pport s p')) \<and>
       ((p, p') \<in> linked conns \<and> \<not> receiving_port s p \<and> \<not> receiving_port s p' \<longrightarrow> p = p')) \<and>
    (\<forall>p \<in> param_ports_of conns. \<exists>r \<in> param_ports_of conns. (r, p) \<in> linked conns \<and> \<not> receiving_port s r \<and>
       (p = r \<or> compatible s r p) \<and>
       (pp_config (pport s p) = pp_config (pport s r) \<or> (\<exists>n. pp_config (pport s r) = Some (InterpolationParameterConfig n)))) \<and>
    (\<forall>p \<in> param_ports_of conns. top_port s p \<and> \<not> receiving_port s p \<longrightarrow>
       externalParameterReceivePort st (pp_name (pport s p)) = Inr (pe_endpoint env p) \<and>
       output_pointer (su_store st) (pe_endpoint env p) = protocol_of env s st p) \<and>
    (\<forall>p \<in> param_ports_of conns. top_port s p \<and> receiving_port s p \<longrightarrow>
       externalParameterSendPort st (pp_name (pport s p)) = Inr (pe_endpoint env p) \<and>
       input_pointer (su_store st) (pe_endpoint env p) = protocol_of env s st p)"
proof -
  define st0 where "st0 = \<lparr>su_store = ps, su_messages = messages, su_result = True, mCommunicationProtocols = [],
                mProtocolReceiveEndpoints = Map.empty, mProtocolSendEndpoints = Map.empty\<rparr>"
  obtain cs where cs: "ParameterConnectionGraph connected_components s conns = Inr cs"
      and run: "foldE (connectGroup env s) st0 cs = Inr st" and conns': "conns' = conns"
    using assms(3,4) by (auto simp: initialiseParameterInfrastructure_def Let_def st0_def)
  note G = groups_ofI [OF assms(1) cs]
  note ne = foldE_group_senders [OF run assms(5)]
  have U: "(\<Union>c \<in> set cs. group_ports c) = param_ports_of conns" using G by (simp add: groups_of_def)
  have ga: "groups_apart env s cs" by (rule groups_apartI [OF assms(2) _ ne groups_of_disjoint [OF G]]) (simp add: U)
  have gf: "\<forall>c \<in> set cs. group_fresh env s c st0"
    using G U by (intro ballI group_freshI [OF assms(2)]) (auto simp: groups_of_def st0_def)
  have W: "\<forall>c \<in> set cs. group_wired env s c st" using foldE_groups [OF run assms(5) ga gf] by blast
  have W': "group_wired env s (cs ! i) st" if "i < length cs" for i using W that by simp
  have L: "i = j \<longleftrightarrow> (p, p') \<in> linked conns" if "i < length cs" "j < length cs" "p \<in> group_ports (cs ! i)" "p' \<in> group_ports (cs ! j)" for i j p p'
    using G that unfolding groups_of_def by blast
  note P = wired_protocol_of [OF G]
  have gp: "group_protocol env (cs ! i) = group_protocol env (cs ! j) \<longleftrightarrow> i = j" if ij: "i < length cs" "j < length cs" for i j
  proof
    assume eq: "group_protocol env (cs ! i) = group_protocol env (cs ! j)"
    have h: "hd (mSendPorts (cs ! k)) \<in> group_ports (cs ! k)" if "k < length cs" for k
      using ne that by (simp add: group_ports_def)
    have "inj_on (pe_protocol env) (param_ports_of conns)" using assms(2) by (simp add: env_ok_def)
    moreover have "hd (mSendPorts (cs ! k)) \<in> param_ports_of conns" if "k < length cs" for k using h [OF that] U that nth_mem by blast
    ultimately have "hd (mSendPorts (cs ! i)) = hd (mSendPorts (cs ! j))" using eq ij unfolding group_protocol_def by (meson inj_onD)
    then show "i = j" using L [OF ij h [OF ij(1)]] h [OF ij(2)] by (simp add: linked_def)
  qed simp
  have own: "\<exists>q. protocol_of env s st p = Some q \<and> live (su_store st) q \<and> q \<in> set (mCommunicationProtocols st)" if p: "p \<in> param_ports_of conns" for p
  proof -
    obtain i where i: "i < length cs" "p \<in> group_ports (cs ! i)" by (rule groups_of_group [OF G p])
    then show ?thesis using P [OF i W' [OF i(1)]] W' [OF i(1)] by (simp add: group_wired_def Let_def)
  qed
  have pair: "(protocol_of env s st p = protocol_of env s st p' \<longleftrightarrow> (p, p') \<in> linked conns) \<and>
       ((p, p') \<in> linked conns \<longrightarrow>
          pp_protocolType (pport s p) = pp_protocolType (pport s p') \<and>
          pp_parameterType (pport s p) = pp_parameterType (pport s p')) \<and>
       ((p, p') \<in> linked conns \<and> \<not> receiving_port s p \<and> \<not> receiving_port s p' \<longrightarrow> p = p')"
    if p: "p \<in> param_ports_of conns" and p': "p' \<in> param_ports_of conns" for p p'
  proof -
    obtain i where i: "i < length cs" "p \<in> group_ports (cs ! i)" by (rule groups_of_group [OF G p])
    obtain j where j: "j < length cs" "p' \<in> group_ports (cs ! j)" by (rule groups_of_group [OF G p'])
    note l = L [OF i(1) j(1) i(2) j(2)]
    have pr: "protocol_of env s st p = protocol_of env s st p' \<longleftrightarrow> (p, p') \<in> linked conns"
      using P [OF i W' [OF i(1)]] P [OF j W' [OF j(1)]] gp [OF i(1) j(1)] l by simp
    have same: "j = i" if "(p, p') \<in> linked conns" using l that by simp
    have comp: "x = hd (mSendPorts (cs ! i)) \<or> compatible s (hd (mSendPorts (cs ! i))) x" if "x \<in> group_ports (cs ! i)" for x
      using W' [OF i(1)] that unfolding group_wired_def Let_def by blast
    have c: "pp_protocolType (pport s p) = pp_protocolType (pport s p') \<and>
          pp_parameterType (pport s p) = pp_parameterType (pport s p')"
      if "(p, p') \<in> linked conns"
      using comp [OF i(2)] comp [of p'] j(2) same [OF that] by (auto simp: compatible_def)
    have o: "p = p'" if "(p, p') \<in> linked conns" "\<not> receiving_port s p" "\<not> receiving_port s p'"
    proof -
      have "cs ! i \<in> set cs" using i(1) by simp
      then have "p \<in> set (mSendPorts (cs ! i))" "p' \<in> set (mSendPorts (cs ! i))"
        using G i(2) j(2) same [OF that(1)] that(2,3) unfolding groups_of_def group_ports_def by blast+
      then show ?thesis using one_sender [OF W' [OF i(1)]] by fastforce
    qed
    show ?thesis using pr c o by blast
  qed
  have send: "\<exists>r \<in> param_ports_of conns. (r, p) \<in> linked conns \<and> \<not> receiving_port s r \<and> (p = r \<or> compatible s r p) \<and>
       (pp_config (pport s p) = pp_config (pport s r) \<or> (\<exists>n. pp_config (pport s r) = Some (InterpolationParameterConfig n)))"
    if p: "p \<in> param_ports_of conns" for p
  proof -
    obtain i where i: "i < length cs" "p \<in> group_ports (cs ! i)" by (rule groups_of_group [OF G p])
    have m: "cs ! i \<in> set cs" using i(1) by simp
    let ?r = "hd (mSendPorts (cs ! i))"
    have r: "?r \<in> set (mSendPorts (cs ! i))" using ne m by simp
    then have "\<not> receiving_port s ?r" "?r \<in> group_ports (cs ! i)"
      using G m unfolding groups_of_def group_ports_def by blast+
    moreover have "?r \<in> param_ports_of conns" using U m calculation(2) by blast
    moreover have "(?r, p) \<in> linked conns" using L [OF i(1) i(1) calculation(2) i(2)] by simp
    moreover have c: "p = ?r \<or> compatible s ?r p" using W' [OF i(1)] i(2) unfolding group_wired_def Let_def by blast
    ultimately show ?thesis using compatible_config [of s ?r p] by blast
  qed
  have ext: "(\<not> receiving_port s p \<longrightarrow> externalParameterReceivePort st (pp_name (pport s p)) = Inr (pe_endpoint env p) \<and>
       output_pointer (su_store st) (pe_endpoint env p) = protocol_of env s st p) \<and>
       (receiving_port s p \<longrightarrow> externalParameterSendPort st (pp_name (pport s p)) = Inr (pe_endpoint env p) \<and>
       input_pointer (su_store st) (pe_endpoint env p) = protocol_of env s st p)"
    if p: "p \<in> param_ports_of conns" and t: "top_port s p" for p
  proof -
    obtain i where i: "i < length cs" "p \<in> group_ports (cs ! i)" by (rule groups_of_group [OF G p])
    have e: "ep env s p = pe_endpoint env p" using t by (simp add: ep_def)
    have m: "cs ! i \<in> set cs" using i(1) by simp
    have side: "(\<not> receiving_port s p \<longrightarrow> p \<in> set (mSendPorts (cs ! i))) \<and> (receiving_port s p \<longrightarrow> p \<in> set (mReceivePorts (cs ! i)))"
      using G m i(2) unfolding groups_of_def group_ports_def by blast
    have w: "(p \<in> set (mSendPorts (cs ! i)) \<longrightarrow> mProtocolReceiveEndpoints st (pp_name (pport s p)) = Some (ep env s p)) \<and>
       (p \<in> set (mReceivePorts (cs ! i)) \<longrightarrow> mProtocolSendEndpoints st (pp_name (pport s p)) = Some (ep env s p))"
      using W' [OF i(1)] t unfolding group_wired_def Let_def by blast
    show ?thesis using side w by (simp add: externalParameterReceivePort_def externalParameterSendPort_def e protocol_of_def)
  qed
  show ?thesis using conns' own pair send ext by (intro conjI ballI) blast+
qed

text \<open>Three groups: a double buffer with two readers, a queue, and a parameter of the caller.\<close>

definition ex_infra_store :: store where
  "ex_infra_store = ex_param_store\<lparr>pports := (pports ex_param_store)
     (15 \<mapsto> \<lparr>pp_name = ''ext'', pp_parent = Some 0, pp_direction = Input, pp_parameterType = 1, pp_protocolType = 2, pp_config = Some EmptyParameterConfig\<rparr>,
      16 \<mapsto> \<lparr>pp_name = ''l'', pp_parent = Some 2, pp_direction = Input, pp_parameterType = 1, pp_protocolType = 2, pp_config = Some EmptyParameterConfig\<rparr>)\<rparr>"

definition ex_infra_map :: pcmap where "ex_infra_map = [(11, 10), (12, 10), (14, 13), (16, 15)]"

definition ex_infra_env :: "nat param_env" where
  "ex_infra_env = \<lparr>pe_table = [(2, \<lparr>cr_class = DoubleBufferingKind, cr_name = ''D''\<rparr>), (3, \<lparr>cr_class = MessageQueueKind, cr_name = ''M''\<rparr>)],
     pe_create = (\<lambda>ty cfg. Inr 0), pe_protocol = (\<lambda>p. p + 100), pe_endpoint = (\<lambda>p. p + 200)\<rparr>"

definition ex_infra_endpoints :: "nat protocol_store" where
  "ex_infra_endpoints =
     \<lparr>protocols = Map.empty,
      inputs = [11 \<mapsto> \<lparr>in_kind = DoubleBufferingKind, in_protocol = None, mChanged = False\<rparr>,
                12 \<mapsto> \<lparr>in_kind = DoubleBufferingKind, in_protocol = None, mChanged = False\<rparr>,
                14 \<mapsto> \<lparr>in_kind = MessageQueueKind, in_protocol = None, mChanged = False\<rparr>,
                16 \<mapsto> \<lparr>in_kind = DoubleBufferingKind, in_protocol = None, mChanged = False\<rparr>],
      outputs = [10 \<mapsto> \<lparr>out_kind = DoubleBufferingKind, out_protocol = None\<rparr>,
                 13 \<mapsto> \<lparr>out_kind = MessageQueueKind, out_protocol = None\<rparr>]\<rparr>"

definition ex_infra :: "exn + (nat param_setup \<times> pcmap)" where
  "ex_infra = initialiseParameterInfrastructure connected_components_ref ex_infra_env ex_infra_store 0 []
     ex_infra_endpoints ex_infra_map"

lemma ex_infra_succeeds: "case ex_infra of Inl e \<Rightarrow> False | Inr r \<Rightarrow> su_result (fst r)"
  by code_simp

lemma ex_infra_env_ok: "env_ok ex_infra_env ex_infra_store ex_infra_map"
proof -
  have "param_ports_of ex_infra_map = {10, 11, 12, 13, 14, 15, 16}"
    by (auto simp: param_ports_of_def ex_infra_map_def)
  then show ?thesis
    by (auto simp: env_ok_def inj_on_def ep_def ex_infra_env_def ex_infra_store_def ex_param_store_def isTopLevel_def)
qed

theorem parameter_infrastructure_spec_witness:
  "\<exists>st. ex_infra = Inr (st, ex_infra_map) \<and> su_result st \<and>
    externalParameterReceivePort st ''ext'' = Inr 215 \<and>
    protocol_of ex_infra_env ex_infra_store st 15 = protocol_of ex_infra_env ex_infra_store st 16 \<and>
    protocol_of ex_infra_env ex_infra_store st 11 = protocol_of ex_infra_env ex_infra_store st 12"
proof -
  obtain st c where r: "ex_infra = Inr (st, c)" and ok: "su_result st"
    using ex_infra_succeeds by (auto split: sum.splits)
  have comp: "c_composite (comp ex_infra_store 0)" by (simp add: ex_infra_store_def ex_param_store_def)
  note T = parameter_infrastructure_spec [OF merged.component_labelling_axioms ex_infra_env_ok comp
      r [unfolded ex_infra_def] ok]
  have l: "(15, 16) \<in> linked ex_infra_map" "(11, 12) \<in> linked ex_infra_map"
    unfolding merge_labels_iff [symmetric] by (simp_all add: ex_infra_map_def merge_labels_def)
  have m: "15 \<in> param_ports_of ex_infra_map" "16 \<in> param_ports_of ex_infra_map" "11 \<in> param_ports_of ex_infra_map" "12 \<in> param_ports_of ex_infra_map"
    by (simp_all add: param_ports_of_def ex_infra_map_def)
  have t: "top_port ex_infra_store 15" "\<not> receiving_port ex_infra_store 15" "pp_name (pport ex_infra_store 15) = ''ext''"
    "pe_endpoint ex_infra_env 15 = 215"
    by (simp_all add: ex_infra_store_def ex_param_store_def isTopLevel_def receiving_port_def isToplevelPort_def ex_infra_env_def)
  have c: "c = ex_infra_map" by (rule T [THEN conjunct1])
  have p: "protocol_of ex_infra_env ex_infra_store st 15 = protocol_of ex_infra_env ex_infra_store st 16"
    "protocol_of ex_infra_env ex_infra_store st 11 = protocol_of ex_infra_env ex_infra_store st 12"
    using T [THEN conjunct2, THEN conjunct2, THEN conjunct1] m l by blast+
  have e: "externalParameterReceivePort st ''ext'' = Inr 215"
    using T [THEN conjunct2, THEN conjunct2, THEN conjunct2, THEN conjunct2, THEN conjunct1] m(1) t by auto
  show ?thesis using r ok c p e by blast
qed

end
