(* ===== verification/Audio_Signal_Flow.thy ===== *)
theory Audio_Signal_Flow
  imports Flow_Store Flow_Execution Parameter_Infrastructure
begin

text \<open>
  The construction of a runnable signal flow from a component hierarchy: the constructor of
  \<open>AudioSignalFlow\<close> (\<open>src/librrl/audio_signal_flow.cpp\<close>) composes the integrity check, the
  connection maps, the buffer layout, the parameter infrastructure and the schedule. This theory
  shows that what it constructs can be executed, and that executing it carries the samples of
  every connection of the hierarchy from the sender to the receiver.
\<close>

section \<open>The constructor\<close>

text \<open>
  The environment: what \<open>new\<close> and \<open>std::partition\<close> do during the layout, the graph algorithms of
  the Boost library, the address of the memory pool, and the tables of the parameter library.
\<close>

record 'p flow_env =
  fe_placement :: placement
  fe_back_edges :: "nat \<Rightarrow> (nat \<times> nat) list \<Rightarrow> nat \<Rightarrow> (nat \<times> nat) list"
  fe_topological_sort :: "nat \<Rightarrow> (nat \<times> nat) list \<Rightarrow> exn + nat list"
  fe_connected_components :: "nat \<Rightarrow> (nat \<times> nat) list \<Rightarrow> nat \<times> nat list"
  fe_poolBase :: nat
  fe_param :: "'p param_env"

definition initialiseSchedule :: "'p flow_env \<Rightarrow> store \<Rightarrow> acmap \<Rightarrow> pcmap \<Rightarrow> exn + nat list" where
  "initialiseSchedule env s audioConnections parameterConnections =
     (let flow = pl_flow (fe_placement env)
      in if \<not> c_composite (comp s flow) then Inr [flow]
         else bindE (initialise s (flow_tree (fe_placement env) s) audioConnections parameterConnections)
                (sequentialSchedule (fe_back_edges env) (fe_topological_sort env)))"

definition AudioSignalFlow ::
  "'p flow_env \<Rightarrow> store \<Rightarrow> nat \<Rightarrow> 'p protocol_store \<Rightarrow> time_impl
   \<Rightarrow> exn + (flow_object \<times> 'p param_setup \<times> time_impl)" where
  "AudioSignalFlow env s period ps t =
     (let pl = fe_placement env; flow = pl_flow pl; tree = flow_tree pl s
      in bindE (checkConnectionIntegrity s tree True []) (\<lambda>(checkResult, _).
         if \<not> checkResult then Inl runtime_error
         else bindE (AudioConnectionMap s tree True) (\<lambda>originalAudioConnections.
         bindE (resolvePlaceholders s originalAudioConnections) (\<lambda>flatAudioConnections.
         bindE (fillParameterConnections s tree (True, [], [])) (\<lambda>(filled, messages, originalParameterConnections).
         if \<not> filled then Inl runtime_error
         else bindE (resolveParameterPlaceholders s originalParameterConnections) (\<lambda>flatParameterConnections.
         bindE (initialiseAudioConnections pl period (fe_poolBase env) s flatAudioConnections) (\<lambda>setup.
         bindE (initialiseParameterInfrastructure (fe_connected_components env) (fe_param env) (as_store setup) flow
                  messages ps flatParameterConnections) (\<lambda>(params, adjustedParameterConnections).
         if \<not> su_result params then Inl runtime_error
         else bindE (initialiseSchedule env (as_store setup) (finalConnections setup) adjustedParameterConnections)
           (\<lambda>schedule.
         Inr (\<lparr>fo_store = as_store setup, fo_period = period, fo_infrastructure = as_infrastructure setup,
                fo_captureChannels = mCaptureChannels setup, fo_playbackChannels = mPlaybackChannels setup,
                mProcessingSchedule = schedule\<rparr>, params, resetCounter t))))))))))"

section \<open>The schedule of the flow\<close>

lemma schedule_success:
  assumes "graph_algorithms be ts" and "schedulable s t A P"
    and "bindE (initialise s t A P) (sequentialSchedule be ts) = Inr xs"
  shows "distinct xs" "set xs = set (collectAllComponents s t)"
    and "(a, b) \<in> dependency s A P \<Longrightarrow> b \<in> set (collectAllComponents s t) \<Longrightarrow> before xs a b"
proof -
  obtain g where g: "initialise s t A P = Inr g" using initialise_edges [OF assms(2)] by auto
  then have "built_graph s t A P g" using assms(2) by (simp add: built_graph_def)
  from graph_algorithms.schedule_built [OF assms(1) this]
  have *: "distinct xs \<and> set xs = set (collectAllComponents s t) \<and>
      (\<forall>a b. (a, b) \<in> dependency s A P \<and> b \<in> set (collectAllComponents s t) \<longrightarrow> before xs a b)"
    using g assms(3) by simp
  then show "distinct xs" "set xs = set (collectAllComponents s t)"
    and "(a, b) \<in> dependency s A P \<Longrightarrow> b \<in> set (collectAllComponents s t) \<Longrightarrow> before xs a b" by blast+
qed

lemma atoms_iff:
  assumes "checked_flow s t"
  shows "k \<in> set (collectAllComponents s t) \<longleftrightarrow> k \<in> set (nodes t) \<and> \<not> c_composite (comp s k)"
  using collectAllComponents_nodes [OF checked_flowD(7) [OF assms]] by auto

text \<open>Every sender of a parameter connection is a port of an atom or of a composite.\<close>

definition param_senders_ok :: "store \<Rightarrow> hier \<Rightarrow> pcmap \<Rightarrow> bool" where
  "param_senders_ok s t P \<longleftrightarrow>
     (\<forall>p \<in> snd ` set P. param_owner s p \<in> dom (comps s) \<and>
        (c_composite (comp s (param_owner s p)) \<or> param_owner s p \<in> set (collectAllComponents s t)))"

lemma laid_out_schedulable:
  assumes lo: "laid_out bs s (pl_flow pl) (flat_edges s (flow_tree pl s)) r" and ck: "checked_flow s (flow_tree pl s)"
    and P: "param_senders_ok s (flow_tree pl s) P"
  shows "schedulable (as_store r) (flow_tree pl (as_store r)) (finalConnections r) P"
proof -
  let ?s' = "as_store r" and ?t = "flow_tree pl s" and ?I = "as_infrastructure r"
  note F = checked_flowD [OF ck]
  note atoms = flow_tree_laid_out(2) [OF lo ck]
  have old: "c \<in> dom (comps s)" if "c \<in> set (collectAllComponents s ?t)" for c
    using nodes_in_store [OF F(1-3), of c] that atoms_iff [OF ck] by blast
  have comp: "c_composite (comp ?s' c) = c_composite (comp s c)" if "c \<in> dom (comps s)" for c
    using laid_out_comp [OF lo that] laid_out_flow(2) [OF lo] by (cases "c = pl_flow pl") simp_all
  have "distinct (collectAllComponents ?s' (flow_tree pl ?s'))"
    unfolding atoms using distinct_atoms [OF F(1-3)] laid_outD(5) [OF lo] old laid_out_routing(1) [OF lo] by fastforce
  moreover have "c_composite (comp ?s' (audio_owner ?s' x)) \<or> audio_owner ?s' x \<in> set (collectAllComponents ?s' (flow_tree pl ?s'))"
    if c: "(x, y) \<in> set (finalConnections r)" for x y
    using final_sender [OF lo c]
  proof (elim disjE exE bexE conjE)
    fix d assume e: "(x, d) \<in> flat_edges s ?t"
    note E = flat_edge_ends [OF ck e]
    have own: "audio_owner ?s' x = the (ap_parent (aport s (port x)))"
      using laid_out_ports(2) [OF lo E(1)] by (simp add: audio_owner_def)
    from E(5) show ?thesis
    proof (elim disjE bexE conjE)
      assume "ap_parent (aport s (port x)) = Some (hier.root ?t)"
      then show ?thesis using own F(3,4) comp by simp
    next
      fix k assume "k \<in> set (nodes ?t)" "\<not> c_composite (comp s k)" "ap_parent (aport s (port x)) = Some k"
      then show ?thesis using own atoms atoms_iff [OF ck] by simp
    qed
  next
    fix q assume q: "q \<in> set ?I" "port x = ri_output q"
    then have "audio_owner ?s' x = ri_component q"
      using laid_out_routing(6) [OF lo q(1)] by (simp add: routing_object_def audio_owner_def)
    then show ?thesis using q(1) atoms by simp
  qed
  moreover have "c_composite (comp ?s' (param_owner ?s' p)) \<or> param_owner ?s' p \<in> set (collectAllComponents ?s' (flow_tree pl ?s'))"
    if "(d, p) \<in> set P" for d p
  proof -
    have "param_owner ?s' p = param_owner s p"
      using routing_builtD(1) [OF laid_outD(4) [OF lo]] by (simp add: param_owner_def)
    moreover have "p \<in> snd ` set P" using that by force
    ultimately show ?thesis using P comp atoms unfolding param_senders_ok_def by auto
  qed
  ultimately show ?thesis unfolding schedulable_def by blast
qed

section \<open>The flow is ready to run\<close>

text \<open>What is known when the schedule has been computed.\<close>

definition scheduled_flow ::
  "placement \<Rightarrow> store \<Rightarrow> nat \<Rightarrow> audio_setup \<Rightarrow> pcmap \<Rightarrow> flow_object \<Rightarrow> bool" where
  "scheduled_flow pl s bs r P fo \<longleftrightarrow>
     checked_flow s (flow_tree pl s) \<and> laid_out bs s (pl_flow pl) (flat_edges s (flow_tree pl s)) r \<and>
     (\<forall>x d. (x, d) \<in> flow_edges s (flow_tree pl s) \<longrightarrow> \<not> placeholder_channel s d \<longrightarrow>
        (\<exists>a. (a, d) \<in> flat_edges s (flow_tree pl s))) \<and>
     fo_store fo = as_store r \<and> fo_period fo = bs \<and> fo_infrastructure fo = as_infrastructure r \<and>
     distinct (mProcessingSchedule fo) \<and>
     set (mProcessingSchedule fo) =
       set (collectAllComponents s (flow_tree pl s)) \<union> ri_component ` set (as_infrastructure r) \<and>
     (\<forall>a b. (a, b) \<in> dependency (as_store r) (finalConnections r) P \<and> b \<in> set (mProcessingSchedule fo) \<longrightarrow>
        before (mProcessingSchedule fo) a b)"

lemma scheduled_flowD:
  assumes "scheduled_flow pl s bs r P fo"
  shows "checked_flow s (flow_tree pl s)" "laid_out bs s (pl_flow pl) (flat_edges s (flow_tree pl s)) r"
    and "(x, d) \<in> flow_edges s (flow_tree pl s) \<Longrightarrow> \<not> placeholder_channel s d \<Longrightarrow>
        \<exists>a. (a, d) \<in> flat_edges s (flow_tree pl s)"
    and "fo_store fo = as_store r" "fo_period fo = bs" "fo_infrastructure fo = as_infrastructure r"
    and "distinct (mProcessingSchedule fo)"
    and "set (mProcessingSchedule fo) =
       set (collectAllComponents s (flow_tree pl s)) \<union> ri_component ` set (as_infrastructure r)"
    and "(a, b) \<in> dependency (as_store r) (finalConnections r) P \<Longrightarrow> b \<in> set (mProcessingSchedule fo) \<Longrightarrow>
        before (mProcessingSchedule fo) a b"
  using assms unfolding scheduled_flow_def by blast+

lemma find_component:
  assumes "distinct (map ri_component I)" "q \<in> set I"
  shows "List.find (\<lambda>r. ri_component r = ri_component q) I = Some q"
proof -
  obtain r where r: "List.find (\<lambda>r. ri_component r = ri_component q) I = Some r"
    using find_SomeI [OF assms(2), of "\<lambda>r. ri_component r = ri_component q"] by blast
  then have "r \<in> set I" "ri_component r = ri_component q" using find_SomeD by fast+
  then show ?thesis using assms r by (metis distinct_map inj_onD)
qed

text \<open>The two kinds of components in the schedule.\<close>

lemma scheduled_cases:
  assumes sf: "scheduled_flow pl s bs r P fo" and c: "c \<in> set (mProcessingSchedule fo)"
  obtains (atom) "c \<in> set (nodes (flow_tree pl s))" "\<not> c_composite (comp s c)" "c \<in> dom (comps s)"
      "comps (fo_store fo) c = comps s c" "List.find (\<lambda>q. ri_component q = c) (fo_infrastructure fo) = None"
  | (internal) q where "q \<in> set (as_infrastructure r)" "c = ri_component q" "routing_object (pl_flow pl) (fo_store fo) q"
      "List.find (\<lambda>q. ri_component q = c) (fo_infrastructure fo) = Some q"
proof -
  note S = scheduled_flowD [OF sf]
  note F = checked_flowD [OF S(1)]
  from c S(8) consider "c \<in> set (collectAllComponents s (flow_tree pl s))" | "c \<in> ri_component ` set (as_infrastructure r)"
    by blast
  then show thesis
  proof cases
    case 1
    then have n: "c \<in> set (nodes (flow_tree pl s))" "\<not> c_composite (comp s c)" using atoms_iff [OF S(1)] by auto
    have d: "c \<in> dom (comps s)" by (rule nodes_in_store [OF F(1-3) n(1)])
    have "c \<noteq> pl_flow pl" using n(2) F(4) by auto
    then have e: "comps (fo_store fo) c = comps s c" using laid_out_comp [OF S(2) d] S(4) by simp
    have "ri_component q \<noteq> c" if "q \<in> set (fo_infrastructure fo)" for q
      using laid_out_routing(1) [OF S(2), of q] that S(6) d by auto
    then have "List.find (\<lambda>q. ri_component q = c) (fo_infrastructure fo) = None" by (simp add: find_None_iff)
    then show ?thesis using atom n d e by blast
  next
    case 2
    then obtain q where q: "q \<in> set (as_infrastructure r)" "c = ri_component q" by blast
    then show ?thesis
      using internal [of q] laid_out_routing(6) [OF S(2) q(1)] find_component [OF laid_outD(5) [OF S(2)] q(1)] S(4,6) by simp
  qed
qed

lemma scheduled_input:
  assumes sf: "scheduled_flow pl s bs r P fo" and c: "c \<in> set (mProcessingSchedule fo)"
    and b: "b \<in> used_inputs fo c"
  shows "audio_owner (fo_store fo) b = c \<and>
    (\<exists>a. (a, b) \<in> set (finalConnections r) \<and> channel a < widths (fo_store fo) (port a))"
proof -
  note S = scheduled_flowD [OF sf]
  note F = checked_flowD [OF S(1)]
  have "audio_owner (fo_store fo) b = c \<and> (\<exists>a. (a, b) \<in> set (finalConnections r))"
  proof (cases rule: scheduled_cases [OF sf c])
    case 1
    have p: "port b \<in> set (c_audioPorts (comp s c))" "ap_direction (aport (fo_store fo) (port b)) = Input"
        "channel b < widths (fo_store fo) (port b)"
      using b 1(4,5) by (auto simp: used_inputs_def channels_def)
    note own = audio_owner_port [OF F(1) 1(3) p(1)]
    note L = laid_out_ports [OF S(2) own(2)]
    have d: "ap_direction (aport s (port b)) = Input" and w: "channel b < ap_width (aport s (port b))"
      using p(2,3) L(3,5) S(4) by (simp_all add: widths_def)
    obtain u where u: "u \<in> set (composites s (flow_tree pl s))" "port b \<in> local_receivers s u"
      using atom_level [OF S(1) 1(1,2) p(1)] d by blast
    obtain x where x: "(x, b) \<in> flow_edges s (flow_tree pl s)" using receiver_connected [OF S(1) u w] by blast
    have "\<not> placeholder_channel s b" using own 1(2) by (simp add: placeholder_channel_def isPlaceholderPort_def)
    then obtain a where "(a, b) \<in> flat_edges s (flow_tree pl s)" using S(3) [OF x] by blast
    then show ?thesis using final_ends(2) [OF S(2)] own(1) L(2) S(4) by (auto simp: audio_owner_def)
  next
    case (2 q)
    then obtain i where i: "b = AudioChannel (ri_input q) i" "i \<in> set (ri_indices q)"
      using b by (auto simp: used_inputs_def)
    then show ?thesis using laid_out_routing(7) [OF S(2) 2(1)] 2(2,3)
      by (auto simp: routes_exactly_def routing_object_def audio_owner_def)
  qed
  then show ?thesis using laid_out_channels(1) [OF S(2)] S(4) by auto
qed

lemma scheduled_output:
  assumes sf: "scheduled_flow pl s bs r P fo" and c: "c \<in> set (mProcessingSchedule fo)"
    and a: "a \<in> channels (fo_store fo) Output c"
  shows "port a \<in> sending_ports (finalConnections r)"
proof -
  note S = scheduled_flowD [OF sf]
  note F = checked_flowD [OF S(1)]
  have p': "port a \<in> set (c_audioPorts (comp (fo_store fo) c))" "ap_direction (aport (fo_store fo) (port a)) = Output"
        "channel a < widths (fo_store fo) (port a)"
    using a by (auto simp: channels_def)
  have "\<exists>y. (a, y) \<in> set (finalConnections r)"
  proof (cases rule: scheduled_cases [OF sf c])
    case 1
    have p: "port a \<in> set (c_audioPorts (comp s c))" using p'(1) 1(4) by simp
    note own = audio_owner_port [OF F(1) 1(3) p]
    note L = laid_out_ports [OF S(2) own(2)]
    have d: "ap_direction (aport s (port a)) = Output" and w: "channel a < ap_width (aport s (port a))"
      using p'(2,3) L(3,5) S(4) by (simp_all add: widths_def)
    obtain u where u: "u \<in> set (composites s (flow_tree pl s))" "port a \<in> local_senders s u"
      using atom_level [OF S(1) 1(1,2) p] d by blast
    have "\<not> placeholder_channel s a" using own 1(2) by (simp add: placeholder_channel_def isPlaceholderPort_def)
    then obtain d where "(a, d) \<in> flat_edges s (flow_tree pl s)" using sender_reaches [OF S(1) u w] by blast
    then show ?thesis using final_ends(1) [OF S(2)] by blast
  next
    case (2 q)
    then have "port a = ri_output q" using p'(1,2) by (auto simp: routing_object_def)
    moreover have "channel a < length (ri_indices q)"
      using p'(3) laid_out_routing(4) [OF S(2) 2(1)] calculation S(4) by simp
    ultimately show ?thesis using laid_out_routing(7) [OF S(2) 2(1)]
      unfolding routes_exactly_def by (metis audio_channel.collapse)
  qed
  then show ?thesis by (force simp: sending_ports_def)
qed

lemma scheduled_ready:
  assumes sf: "scheduled_flow pl s bs r P fo"
  shows "ready fo (finalConnections r)" "routing_wired fo"
proof -
  note S = scheduled_flowD [OF sf]
  note F = checked_flowD [OF S(1)]
  have atomic: "\<not> c_composite (comp (fo_store fo) c) \<and>
      (\<forall>p \<in> set (c_audioPorts (comp (fo_store fo) c)). ap_parent (aport (fo_store fo) p) = Some c)"
    if "c \<in> set (mProcessingSchedule fo)" for c
  proof (cases rule: scheduled_cases [OF sf that])
    case 1
    then show ?thesis using audio_owner_port [OF F(1) 1(3)] laid_out_ports(2) [OF S(2)] S(4) by auto
  qed (auto simp: routing_object_def)
  have dep: "before (mProcessingSchedule fo) d e"
    if "(d, e) \<in> dependency (fo_store fo) (finalConnections r) []" "e \<in> set (mProcessingSchedule fo)" for d e
  proof (rule S(9) [OF _ that(2)])
    show "(d, e) \<in> dependency (as_store r) (finalConnections r) P" using that(1) S(4) by (auto simp: dependency_def)
  qed
  show "ready fo (finalConnections r)"
  proof (unfold ready_def Let_def, intro conjI)
    show "buffers_shared (fo_store fo) (finalConnections r)"
      "buffers_disjoint (fo_period fo) (fo_store fo) (finalConnections r)"
      using laid_outD(2,3) [OF S(2)] S(4,5) by simp_all
    show "distinct (mProcessingSchedule fo)" by (rule S(7))
  qed (use atomic scheduled_input [OF sf] scheduled_output [OF sf] dep in blast)+
  show "routing_wired fo"
    unfolding routing_wired_def
  proof
    fix q assume "q \<in> set (fo_infrastructure fo)"
    then have q: "q \<in> set (as_infrastructure r)" using S(6) by simp
    show "ri_output q \<in> set (c_audioPorts (comp (fo_store fo) (ri_component q))) \<and>
        ap_direction (aport (fo_store fo) (ri_output q)) = Output \<and>
        length (ri_indices q) \<le> widths (fo_store fo) (ri_output q)"
      using laid_out_routing(4,6) [OF S(2) q] S(4) by (auto simp: routing_object_def)
  qed
qed

section \<open>The samples reach their receivers\<close>

definition sample_address :: "store \<Rightarrow> audio_channel \<Rightarrow> nat \<Rightarrow> nat" where
  "sample_address s a i = channel_address s a + i * port_size s (port a)"

lemma sample_in_cells: "i < period \<Longrightarrow> sample_address s a i \<in> cells s period a"
  by (auto simp: sample_address_def cells_def)

lemma sample_shared:
  "buffers_shared s conns \<Longrightarrow> (a, b) \<in> set conns \<Longrightarrow> sample_address s a i = sample_address s b i"
  unfolding buffers_shared_def sample_address_def port_size_def by fastforce

lemma routed_sample:
  assumes sf: "scheduled_flow pl s bs r P fo" and own: "writes_own exec fo"
    and run: "executeComponents exec fo (st, t) = Inr (st', t')"
    and q: "q \<in> set (as_infrastructure r)" "j < length (ri_indices q)" and i: "i < bs"
  shows "snd st' (sample_address (fo_store fo) (AudioChannel (ri_output q) j) i) =
    snd st' (sample_address (fo_store fo) (AudioChannel (ri_input q) (ri_indices q ! j)) i)"
proof -
  let ?s = "fo_store fo" and ?in = "AudioChannel (ri_input q) (ri_indices q ! j)"
  let ?out = "\<lambda>k. AudioChannel (ri_output q) k" and ?c = "ri_component q"
  note S = scheduled_flowD [OF sf]
  note R = scheduled_ready [OF sf]
  have c: "?c \<in> set (mProcessingSchedule fo)" using S(8) q(1) by auto
  then obtain ys zs where sched: "mProcessingSchedule fo = ys @ ?c # zs" by (auto simp: in_set_conv_decomp)
  obtain u v where u: "process_component exec fo u ?c = Inr v" and
      rd: "\<forall>x \<in> read_cells fo ?c. snd u x = snd st' x" and
      wr: "\<forall>x \<in> written_cells ?s (fo_period fo) ?c. snd v x = snd st' x"
    using block_trace [OF R(1) own R(2) run sched] by blast
  have f: "List.find (\<lambda>q. ri_component q = ?c) (fo_infrastructure fo) = Some q"
    using find_component [OF laid_outD(5) [OF S(2)] q(1)] S(6) by simp
  have ro: "routing_object (pl_flow pl) ?s q" using laid_out_routing(6) [OF S(2) q(1)] S(4) by simp
  have ran: "routing_process ?s bs q (snd u) = Inr (snd v)"
    using u f S(5) by (auto simp: process_component_def)
  have used: "?in \<in> used_inputs fo ?c" using f q(2) by (simp add: used_inputs_def)
  have out: "?out k \<in> channels ?s Output ?c" if "k < length (ri_indices q)" for k
    using ro that laid_out_routing(4) [OF S(2) q(1)] S(4) by (auto simp: channels_def routing_object_def)
  have in_read: "x \<in> read_cells fo ?c" if "x \<in> cells ?s bs ?in" for x
    using used that S(5) by (auto simp: read_cells_def)
  have in_written: "x \<in> written_cells ?s (fo_period fo) ?c" if "x \<in> cells ?s bs (?out k)" "k < length (ri_indices q)" for x k
    using out [OF that(2)] that(1) S(5) by (auto simp: written_cells_def)
  have apart: "cells ?s bs ?in \<inter> cells ?s bs (?out k) = {}" if "k < length (ri_indices q)" for k
    using no_later_writer [OF R(1) sched in_read, of _ ?c] in_written [OF _ that] by auto
  have outs: "cells ?s bs (?out j) \<inter> cells ?s bs (?out k) = {}" if "k < length (ri_indices q)" "k \<noteq> j" for k
  proof (rule ccontr)
    assume "cells ?s bs (?out j) \<inter> cells ?s bs (?out k) \<noteq> {}"
    then obtain x where x: "x \<in> cells ?s (fo_period fo) (?out j)" "x \<in> cells ?s (fo_period fo) (?out k)" using S(5) by auto
    have "port (?out j) \<in> sending_ports (finalConnections r)" by (rule scheduled_output [OF sf c out [OF q(2)]])
    then have "?out j = ?out k"
      using cells_disjoint [OF readyD(2) [OF R(1)] _ _ _ _ x] out [OF q(2)] out [OF that(1)] by (simp add: channels_def)
    then show False using that(2) by simp
  qed
  have ty: "port_size ?s (ri_input q) = port_size ?s (ri_output q)"
    using ro by (simp add: port_size_def routing_object_def)
  have "snd v (sample_address ?s (?out j) i) = snd u (sample_address ?s ?in i)"
    using routing_process_copies [OF ran q(2) i ty apart outs] by (simp add: sample_address_def)
  then show ?thesis
    using rd wr in_read [OF sample_in_cells [OF i]] in_written [OF sample_in_cells [OF i] q(2)] by simp
qed

lemma sample_transported:
  assumes sf: "scheduled_flow pl s bs r P fo" and own: "writes_own exec fo"
    and run: "executeComponents exec fo (st, t) = Inr (st', t')"
    and e: "(a, b) \<in> flat_edges s (flow_tree pl s)" and i: "i < bs"
  shows "snd st' (sample_address (fo_store fo) b i) = snd st' (sample_address (fo_store fo) a i)"
proof -
  note S = scheduled_flowD [OF sf]
  have sh: "buffers_shared (fo_store fo) (finalConnections r)" using laid_outD(2) [OF S(2)] S(4) by simp
  show ?thesis
  proof (cases rule: delivered_cases [OF S(2) e])
    case 1
    then show ?thesis using sample_shared [OF sh] by metis
  next
    case (2 q j)
    then show ?thesis
      using routed_sample [OF sf own run 2(1,2) i] sample_shared [OF sh 2(3)] sample_shared [OF sh 2(4)] by simp
  qed
qed

section \<open>What the constructor establishes\<close>

text \<open>
  The store handed to the constructor: a well-formed hierarchy with a composite at the top, all
  of whose levels are within the number of levels given, and audio connections between ports of
  the same sample type (which the integrity check means to establish and does not).
\<close>

definition flow_input :: "'p flow_env \<Rightarrow> store \<Rightarrow> bool" where
  "flow_input env s \<longleftrightarrow>
     (let pl = fe_placement env; t = flow_tree pl s
      in wf_store s \<and> pl_flow pl \<in> dom (comps s) \<and> c_composite (comp s (pl_flow pl)) \<and>
         c_parent (comp s (pl_flow pl)) = None \<and> matches s t \<and>
         (\<forall>u \<in> set (composites s t). \<forall>con \<in> set (c_audioConnections (comp s (hier.root u))).
            ap_sampleType (aport s (ac_sender con)) = ap_sampleType (aport s (ac_receiver con))))"

text \<open>The environment behaves as documented.\<close>

definition flow_env_ok :: "'p flow_env \<Rightarrow> store \<Rightarrow> bool" where
  "flow_env_ok env s \<longleftrightarrow> fresh_addresses (fe_placement env) s \<and> partition_ok (pl_partition (fe_placement env)) \<and>
     graph_algorithms (fe_back_edges env) (fe_topological_sort env)"

lemma flat_edge_type:
  assumes "\<And>con u. u \<in> set (composites s t) \<Longrightarrow> con \<in> set (c_audioConnections (comp s (hier.root u))) \<Longrightarrow>
      ap_sampleType (aport s (ac_sender con)) = ap_sampleType (aport s (ac_receiver con))"
    and "(a, b) \<in> flat_edges s t"
  shows "ap_sampleType (aport s (port a)) = ap_sampleType (aport s (port b))"
proof -
  have edge: "ap_sampleType (aport s (port x)) = ap_sampleType (aport s (port y))" if "(x, y) \<in> flow_edges s t" for x y
    using that assms(1) by (auto simp: connections_in_def channel_pairs_def)
  have "feeds (placeholder_channel s) (flow_edges s t) a b" using assms(2) by (simp add: flat_edges_def)
  then show ?thesis by (induction rule: feeds.induct) (use edge in auto)
qed

lemma collected_edges:
  assumes "\<forall>u \<in> set (composites s t). audio_level_ok s u" and "AudioConnectionMap s t True = Inr m"
  shows "set m = flow_edges s t"
proof -
  have v: "valid_in s (visited s t True)"
    using assms(1) by (auto simp: valid_in_def visited_def audio_level_ok_def)
  obtain r msgs m' where f: "fillRecursive s t True (True, [], []) = (r, msgs, m')" by (metis prod_cases3)
  have "map_extends s (visited s t True) [] [] (fillRecursive s t True (True, [], []))"
    by (rule fillRecursive_valid [OF v])
  then show ?thesis using assms(2) f by (simp add: map_extends_def AudioConnectionMap_def visited_def)
qed

lemma source_of_edge: "source_of ph f a d n \<Longrightarrow> \<not> ph a \<and> (\<exists>x. f x = Some a)"
  by (induction rule: source_of.induct) auto

lemma resolved_param_senders:
  assumes "resolveParameterPlaceholders s m = Inr r" "p \<in> snd ` set r"
  shows "\<not> placeholder_param s p \<and> p \<in> snd ` set m"
proof -
  have "\<forall>p \<in> snd ` set r. \<not> placeholder_param s p \<and> p \<in> snd ` set m"
    using assms(1) unfolding resolveParameterPlaceholders_def
  proof (rule foldE_invariant [where P = "\<lambda>r. \<forall>p \<in> snd ` set r. \<not> placeholder_param s p \<and> p \<in> snd ` set m"])
    fix u e u' assume e: "e \<in> set m" and u: "\<forall>p \<in> snd ` set u. \<not> placeholder_param s p \<and> p \<in> snd ` set m"
      and step: "resolve_param_entry s m u e = Inr u'"
    show "\<forall>p \<in> snd ` set u'. \<not> placeholder_param s p \<and> p \<in> snd ` set m"
    proof (cases "placeholder_param s (fst e) \<or> \<not> placeholder_param s (snd e)")
      case True
      then show ?thesis using step u e by (auto simp: resolve_param_entry_def split: if_splits)
    next
      case False
      then obtain a where a: "param_loop (placeholder_param s) m (length m) 1 (mm_find m (snd e)) = Inr a"
          "u' = mm_insert (fst e, a) u"
        using step by (auto simp: resolve_param_entry_def)
      obtain n where "source_of (placeholder_param s) (param_sender_of m) a (snd e) n" using param_loop_sound [OF a(1)] by blast
      then obtain x where x: "\<not> placeholder_param s a" "param_sender_of m x = Some a" using source_of_edge by metis
      then have "(x, a) \<in> set m" by (auto simp: param_sender_of_def dest!: mm_find_Some)
      then have "a \<in> snd ` set m" by force
      then show ?thesis using u x(1) a(2) by auto
    qed
  qed simp
  then show ?thesis using assms(2) by blast
qed

lemma param_owner_port:
  assumes "wf_store s" "c \<in> dom (comps s)" "p \<in> set (c_parameterPorts (comp s c))"
  shows "pp_parent (pport s p) = Some c"
proof -
  have "owns (dom (comps s)) (\<lambda>c. c_parameterPorts (comp s c)) (dom (pports s))
       (\<lambda>a. pp_parent (pport s a)) (\<lambda>a. pp_name (pport s a))"
    using assms(1) by (simp add: wf_store_def wf_pports_def)
  from ownsD(3) [OF this assms(2,3)] show ?thesis .
qed

lemma flat_param_senders_ok:
  assumes ck: "checked_flow s t" and fill: "fillParameterConnections s t (True, [], []) = Inr (True, msgs, m)"
    and res: "resolveParameterPlaceholders s m = Inr P"
  shows "param_senders_ok s t P"
  unfolding param_senders_ok_def
proof
  note F = checked_flowD [OF ck]
  fix p assume "p \<in> snd ` set P"
  then have p: "\<not> placeholder_param s p" "p \<in> snd ` set m" using resolved_param_senders [OF res] by auto
  have v: "valid_params s (composites s t)" by (rule fillParameterConnections_invalid [OF fill])
  have "set m = param_pairs s (composites s t)"
    using fillParameterConnections_valid [OF v, of "[]" "[]"] fill by (auto simp: params_extend_def)
  then obtain con u where u: "u \<in> set (composites s t)" "con \<in> set (c_parameterConnections (comp s (hier.root u)))"
      "p = pc_sender con" using p(2) by (auto simp: param_pairs_def)
  then have "p \<in> set (param_senders s u)" using v by (auto simp: valid_params_def valid_param_connection_def)
  note U = compositesD [OF F(1-3) u(1)]
  from \<open>p \<in> set (param_senders s u)\<close> consider "p \<in> set (c_parameterPorts (comp s (hier.root u)))"
    | w where "w \<in> set (subs u)" "p \<in> set (c_parameterPorts (comp s (hier.root w)))"
    unfolding set_param_senders by blast
  then show "param_owner s p \<in> dom (comps s) \<and>
      (c_composite (comp s (param_owner s p)) \<or> param_owner s p \<in> set (collectAllComponents s t))"
  proof cases
    case 1
    have "pp_parent (pport s p) = Some (hier.root u)" using param_owner_port [OF F(1) _ 1] U by blast
    then show ?thesis using U by (simp add: param_owner_def)
  next
    case (2 w)
    obtain c ts where c: "u = Hier c ts" by (cases u)
    have M: "matches s (Hier c ts)" "c \<in> dom (comps s)" "w \<in> set ts" using U 2(1) c by auto
    note ch = child_of_match [OF F(1) M]
    have own: "param_owner s p = hier.root w" using param_owner_port [OF F(1) ch(2) 2(2)] by (simp add: param_owner_def)
    have "hier.root w \<in> set (c_components (comp s c))" using M(1,3) by (metis image_eqI list.set_map matches.simps)
    moreover have "c \<in> set (nodes t)" using U c by simp
    ultimately have "hier.root w \<in> set (nodes t)" using node_children [OF F(2)] by blast
    then show ?thesis using own ch(2) atoms_iff [OF ck] by auto
  qed
qed

lemma constructed_flow:
  assumes inp: "flow_input env s" and env: "flow_env_ok env s"
    and con: "AudioSignalFlow env s period ps t = Inr (fo, params, tm)"
  shows "\<exists>r P. scheduled_flow (fe_placement env) s period r P fo \<and> tm = resetCounter t \<and>
    buffers_in_pool period (fe_poolBase env) (as_poolSize r) (as_store r) (finalConnections r)"
proof -
  let ?pl = "fe_placement env" and ?t = "flow_tree (fe_placement env) s"
  obtain msgs0 m F msgs mp P r where
    chk: "checkConnectionIntegrity s ?t True [] = Inr (True, msgs0)"
    and m: "AudioConnectionMap s ?t True = Inr m" and F: "resolvePlaceholders s m = Inr F"
    and mp: "fillParameterConnections s ?t (True, [], []) = Inr (True, msgs, mp)"
    and P: "resolveParameterPlaceholders s mp = Inr P"
    and r: "initialiseAudioConnections ?pl period (fe_poolBase env) s F = Inr r"
    and rest: "bindE (initialiseParameterInfrastructure (fe_connected_components env) (fe_param env) (as_store r) (pl_flow ?pl)
                  msgs ps P) (\<lambda>(params, adj). if \<not> su_result params then Inl runtime_error
         else bindE (initialiseSchedule env (as_store r) (finalConnections r) adj) (\<lambda>schedule.
         Inr (\<lparr>fo_store = as_store r, fo_period = period, fo_infrastructure = as_infrastructure r,
                fo_captureChannels = mCaptureChannels r, fo_playbackChannels = mPlaybackChannels r,
                mProcessingSchedule = schedule\<rparr>, params, resetCounter t))) = Inr (fo, params, tm)"
    using con unfolding AudioSignalFlow_def Let_def by (auto split: if_splits prod.splits)
  have "fst (checkAudioConnectionIntegrity s ?t True [])"
    using chk by (auto simp: checkConnectionIntegrity_def Let_def split: prod.splits if_splits)
  then have lvl: "\<forall>u \<in> set (composites s ?t). audio_level_ok s u"
    using checkAudioConnectionIntegrity_iff [of s ?t True "[]"] by (simp add: visited_def)
  have ck: "checked_flow s ?t" using inp lvl by (auto simp: flow_input_def Let_def checked_flow_def)
  have sm: "set m = flow_edges s ?t" by (rule collected_edges [OF lvl m])
  note RE = resolved_edges [OF ck sm F]
  have "layout_input s (pl_flow ?pl) F"
    unfolding layout_input_def
  proof (intro conjI)
    show "comps s (pl_flow ?pl) \<noteq> None" "c_composite (comp s (pl_flow ?pl))"
      using inp by (auto simp: flow_input_def Let_def)
    show "port ` fst ` set F \<inter> port ` snd ` set F = {}" using flat_directions [OF ck] RE(1) by simp
    have "ap_sampleType (aport s (port a)) = ap_sampleType (aport s (port b))" if "(a, b) \<in> set F" for a b
      using flat_edge_type [of s ?t a b] inp that RE(1) unfolding flow_input_def Let_def by blast
    then show "\<forall>(a, b) \<in> set F. aports s (port a) \<noteq> None \<and> channel a < widths s (port a) \<and>
        aports s (port b) \<noteq> None \<and> channel b < widths s (port b) \<and>
        ap_sampleType (aport s (port a)) = ap_sampleType (aport s (port b))"
      using flat_edge_ends(1-4) [OF ck] RE(1) by (auto simp: widths_def)
  qed
  then have lo: "laid_out period s (pl_flow ?pl) (flat_edges s ?t) r"
    and pool: "buffers_in_pool period (fe_poolBase env) (as_poolSize r) (as_store r) (finalConnections r)"
    using initialised_laid_out [OF _ _ _ r] env RE(1) by (simp_all add: flow_env_ok_def)
  have comp: "c_composite (comp (as_store r) (pl_flow ?pl))"
    using laid_out_flow(2) [OF lo] inp by (simp add: flow_input_def Let_def)
  obtain params' adj where pa: "initialiseParameterInfrastructure (fe_connected_components env) (fe_param env) (as_store r)
      (pl_flow ?pl) msgs ps P = Inr (params', adj)"
    using rest by (cases "initialiseParameterInfrastructure (fe_connected_components env) (fe_param env) (as_store r)
      (pl_flow ?pl) msgs ps P") auto
  have "adj = P" using pa comp by (auto simp: initialiseParameterInfrastructure_def Let_def)
  then obtain xs where xs: "initialiseSchedule env (as_store r) (finalConnections r) P = Inr xs"
    and fo: "fo = \<lparr>fo_store = as_store r, fo_period = period, fo_infrastructure = as_infrastructure r,
                fo_captureChannels = mCaptureChannels r, fo_playbackChannels = mPlaybackChannels r,
                mProcessingSchedule = xs\<rparr>" and tm: "tm = resetCounter t"
    using rest pa by (auto split: if_splits)
  have sch: "schedulable (as_store r) (flow_tree ?pl (as_store r)) (finalConnections r) P"
    by (rule laid_out_schedulable [OF lo ck flat_param_senders_ok [OF ck mp P]])
  have ga: "graph_algorithms (fe_back_edges env) (fe_topological_sort env)" using env by (simp add: flow_env_ok_def)
  have "bindE (initialise (as_store r) (flow_tree ?pl (as_store r)) (finalConnections r) P)
      (sequentialSchedule (fe_back_edges env) (fe_topological_sort env)) = Inr xs"
    using xs comp by (simp add: initialiseSchedule_def Let_def del: bindE_eq_Inr)
  note X = schedule_success [OF ga sch this]
  have "scheduled_flow ?pl s period r P fo"
    unfolding scheduled_flow_def
    using ck lo RE(2) fo X flow_tree_laid_out(2) [OF lo ck] by simp
  then show ?thesis using tm pool by blast
qed

section \<open>Execution succeeds\<close>

text \<open>
  The check of \<^const>\<open>vectorCopy\<close> in the routing components asks for a multiple of 16 elements.
  The addresses of the pool are multiples of 64 bytes, which is enough for elements of up to 4 bytes.
\<close>

lemma checkAlignment_dvd:
  assumes "sz = 2 ^ l" "l \<le> 2" "64 dvd ptr"
  shows "checkAlignment sz ptr cVectorAlignmentSamples"
proof -
  have c: "cVectorAlignmentSamples = 2 ^ 4" by (simp add: cVectorAlignmentSamples_def cVectorAlignmentBytes_def)
  have "unat (word_of_nat (2 ^ 4) :: size_t) = 2 ^ 4" by (subst unat_of_nat) simp
  then have p: "alignmentIsPowerOfTwo (word_of_nat (2 ^ 4))" using alignmentIsPowerOfTwo_iff by blast
  have "(word_of_nat (2 ^ 4) :: size_t) * word_of_nat sz = 2 ^ (4 + l)"
    using assms(1) by (simp add: power_add)
  then have m: "(word_of_nat (2 ^ 4) :: size_t) * word_of_nat sz - 1 = mask (4 + l)"
    by (simp only: mask_eq_decr_exp)
  have "2 ^ (4 + l) dvd (64 :: nat)" using le_imp_power_dvd [of "4 + l" 6 "2 :: nat"] assms(2) by simp
  then have d: "2 ^ (4 + l) dvd ptr" using assms(3) dvd_trans by blast
  have z: "take_bit (4 + l) ptr = 0" unfolding take_bit_eq_mod by (rule dvd_imp_mod_0 [OF d])
  have mn: "min (4 + l) 64 = 4 + l" using assms(2) by simp
  have "unat (take_bit (4 + l) (word_of_nat ptr :: size_t)) = take_bit (4 + l) (take_bit 64 ptr)"
    by (simp only: unsigned_take_bit_eq unsigned_of_nat len_bit0 len_num1) simp
  also have "\<dots> = 0" unfolding take_bit_take_bit mn z ..
  finally have "take_bit (4 + l) (word_of_nat ptr :: size_t) = 0" by (simp only: unat_eq_zero)
  then have a: "(word_of_nat ptr :: size_t) AND mask (4 + l) = 0" by (simp only: take_bit_eq_mask)
  show ?thesis unfolding checkAlignment_def Let_def c m a using p by simp
qed

lemma small_type: "typeSize ty \<le> 4 \<Longrightarrow> \<exists>l \<le> 2. typeSize ty = 2 ^ l"
  by (cases ty) (auto intro: exI [of _ 0] exI [of _ 1] exI [of _ 2])

lemma routing_process_total:
  assumes "\<And>j. j < length (ri_indices q) \<Longrightarrow>
      checkAlignment (port_size s (ri_output q)) (channel_address s (AudioChannel (ri_input q) (ri_indices q ! j))) cVectorAlignmentSamples \<and>
      checkAlignment (port_size s (ri_output q)) (channel_address s (AudioChannel (ri_output q) j)) cVectorAlignmentSamples"
  shows "\<exists>m'. routing_process s period q m = Inr m'"
proof -
  have "\<exists>m'. routing_process s period q m = Inr m' \<and> True"
    unfolding routing_process_def
    by (rule foldE_total) (use assms in \<open>simp_all add: vectorCopy_def checked_def Let_def\<close>)
  then show ?thesis by simp
qed

lemma pool_aligned:
  assumes "buffers_in_pool bs base sz s conns" "cVectorAlignmentBytes dvd base"
    and "port a \<in> sending_ports conns" "channel a < widths s (port a)"
  shows "64 dvd channel_address s a"
proof -
  have "cVectorAlignmentBytes dvd channel_address s a - base" "base \<le> channel_address s a"
    using assms(1,3,4) unfolding buffers_in_pool_def by auto
  then show ?thesis using assms(2) by (metis cVectorAlignmentBytes_def dvd_diffD)
qed

lemma routing_runs:
  assumes sf: "scheduled_flow pl s bs r P fo"
    and pool: "buffers_in_pool bs base sz (as_store r) (finalConnections r)" "cVectorAlignmentBytes dvd base"
    and small: "\<And>x y. (x, y) \<in> flow_edges s (flow_tree pl s) \<Longrightarrow> typeSize (ap_sampleType (aport s (port y))) \<le> 4"
    and q: "q \<in> set (as_infrastructure r)"
  shows "\<exists>m'. routing_process (fo_store fo) bs q m = Inr m'"
proof (rule routing_process_total)
  note S = scheduled_flowD [OF sf]
  let ?C = "finalConnections r"
  fix j assume j: "j < length (ri_indices q)"
  let ?in = "AudioChannel (ri_input q) (ri_indices q ! j)" and ?out = "AudioChannel (ri_output q) j"
  note R = laid_out_routing(7) [OF S(2) q, unfolded routes_exactly_def]
  obtain a b where ab: "(a, ?in) \<in> set ?C" "(?out, b) \<in> set ?C" using R j by (meson nth_mem)
  then have "(a, b) \<in> flat_edges s (flow_tree pl s)"
    using q j unfolding laid_outD(1) [OF S(2), symmetric] delivers_def by blast
  then have fd: "feeds (placeholder_channel s) (flow_edges s (flow_tree pl s)) a b" and b: "aports s (port b) \<noteq> None"
    using flat_edge_ends(3) [OF S(1)] by (auto simp: flat_edges_def)
  then have "typeSize (ap_sampleType (aport s (port b))) \<le> 4" using small feeds_ends [OF fd] by blast
  then have "typeSize (ap_sampleType (aport (as_store r) (port ?out))) \<le> 4"
    using laid_outD(2) [OF S(2)] ab(2) laid_out_ports(4) [OF S(2) b] unfolding buffers_shared_def by fastforce
  then obtain l where l: "l \<le> 2" "port_size (as_store r) (ri_output q) = 2 ^ l"
    using small_type by (auto simp: port_size_def)
  have addr_out: "64 dvd channel_address (as_store r) ?out"
    using pool_aligned [OF pool, of ?out] ab(2) laid_out_channels(1) [OF S(2) ab(2)] by (force simp: sending_ports_def)
  have "64 dvd channel_address (as_store r) a"
    using pool_aligned [OF pool, of a] ab(1) laid_out_channels(1) [OF S(2) ab(1)] by (force simp: sending_ports_def)
  moreover have "channel_address (as_store r) a = channel_address (as_store r) ?in"
    using laid_outD(2) [OF S(2)] ab(1) unfolding buffers_shared_def by fastforce
  ultimately show "checkAlignment (port_size (fo_store fo) (ri_output q)) (channel_address (fo_store fo) ?in) cVectorAlignmentSamples \<and>
      checkAlignment (port_size (fo_store fo) (ri_output q)) (channel_address (fo_store fo) ?out) cVectorAlignmentSamples"
    using checkAlignment_dvd [OF l(2,1)] addr_out S(4) by simp
qed

lemma flow_runs:
  assumes sf: "scheduled_flow pl s bs r P fo"
    and pool: "buffers_in_pool bs base sz (as_store r) (finalConnections r)" "cVectorAlignmentBytes dvd base"
    and small: "\<And>x y. (x, y) \<in> flow_edges s (flow_tree pl s) \<Longrightarrow> typeSize (ap_sampleType (aport s (port y))) \<le> 4"
    and exec: "\<And>c st. \<exists>st'. exec c st = Inr st'"
  shows "\<exists>st'. executeComponents exec fo (st, t) = Inr (st', advanceBlockCounter t)"
proof -
  note S = scheduled_flowD [OF sf]
  have "\<exists>st'. foldE (process_component exec fo) st (mProcessingSchedule fo) = Inr st' \<and> True"
  proof (rule foldE_total)
    fix u c assume c: "c \<in> set (mProcessingSchedule fo)"
    show "\<exists>u'. process_component exec fo u c = Inr u' \<and> True"
    proof (cases rule: scheduled_cases [OF sf c])
      case 1
      then show ?thesis using exec by (simp add: process_component_def)
    next
      case (2 q)
      then show ?thesis using routing_runs [OF sf pool small 2(1), where m = "snd u"] S(5) by (auto simp: process_component_def)
    qed
  qed simp
  then show ?thesis by (auto simp: executeComponents_def)
qed

section \<open>An example\<close>

text \<open>
  The hierarchy of \<^const>\<open>ex_store\<close> with its two input channels exchanged on the way into the
  inner composite, so that the layout needs an internal routing component.
\<close>

definition ex_swap :: store where
  "ex_swap = ex_store\<lparr>comps := (comps ex_store)(0 \<mapsto> (comp ex_store 0)\<lparr>c_audioConnections :=
     [\<lparr>ac_sender = 10, ac_sendIndices = [1, 0], ac_receiver = 12, ac_receiveIndices = [0, 1]\<rparr>, ex_connection 13 11]\<rparr>)\<rparr>"

definition ex_flow_env :: "nat flow_env" where
  "ex_flow_env = \<lparr>fe_placement = ex_placement, fe_back_edges = back_edges_ref,
     fe_topological_sort = topological_sort_ref, fe_connected_components = connected_components_ref,
     fe_poolBase = 4096, fe_param = ex_infra_env\<rparr>"

definition ex_endpoints :: "nat protocol_store" where
  "ex_endpoints = \<lparr>protocols = Map.empty,
     inputs = [22 \<mapsto> \<lparr>in_kind = DoubleBufferingKind, in_protocol = None, mChanged = False\<rparr>],
     outputs = Map.empty\<rparr>"

abbreviation ex_swap_tree :: hier where "ex_swap_tree \<equiv> flow_tree ex_placement ex_swap"

definition ex_swap_map :: acmap where
  "ex_swap_map = [(AudioChannel 10 0, AudioChannel 12 1), (AudioChannel 10 1, AudioChannel 12 0),
     (AudioChannel 12 0, AudioChannel 14 0), (AudioChannel 12 1, AudioChannel 14 1),
     (AudioChannel 13 0, AudioChannel 11 0), (AudioChannel 13 1, AudioChannel 11 1),
     (AudioChannel 15 0, AudioChannel 13 0), (AudioChannel 15 1, AudioChannel 13 1)]"

definition ex_swap_flat :: acmap where
  "ex_swap_flat = [(AudioChannel 10 0, AudioChannel 14 1), (AudioChannel 10 1, AudioChannel 14 0),
     (AudioChannel 15 0, AudioChannel 11 0), (AudioChannel 15 1, AudioChannel 11 1)]"

definition ex_swap_setup :: audio_setup where
  "ex_swap_setup = (case initialiseAudioConnections ex_placement 2 4096 ex_swap ex_swap_flat of Inr r \<Rightarrow> r)"

definition ex_swap_flow :: flow_object where
  "ex_swap_flow = \<lparr>fo_store = as_store ex_swap_setup, fo_period = 2, fo_infrastructure = as_infrastructure ex_swap_setup,
     fo_captureChannels = mCaptureChannels ex_swap_setup, fo_playbackChannels = mPlaybackChannels ex_swap_setup,
     mProcessingSchedule = [100, 2]\<rparr>"

text \<open>The stages of the construction.\<close>

lemma ex_swap_stages:
  "checkConnectionIntegrity ex_swap ex_swap_tree True [] = Inr (True, [])"
  "AudioConnectionMap ex_swap ex_swap_tree True = Inr ex_swap_map"
  "resolvePlaceholders ex_swap ex_swap_map = Inr ex_swap_flat"
  "fillParameterConnections ex_swap ex_swap_tree (True, [], []) = Inr (True, [], [(21, 20), (22, 21)])"
  "resolveParameterPlaceholders ex_swap [(21, 20), (22, 21)] = Inr [(22, 20)]"
  "initialiseSchedule ex_flow_env (as_store ex_swap_setup) (finalConnections ex_swap_setup) [(22, 20)] = Inr [100, 2]"
  by code_simp+

lemma ex_swap_setup: "initialiseAudioConnections ex_placement 2 4096 ex_swap ex_swap_flat = Inr ex_swap_setup"
proof -
  have "case initialiseAudioConnections ex_placement 2 4096 ex_swap ex_swap_flat of Inl e \<Rightarrow> False | Inr r \<Rightarrow> True" by code_simp
  then show ?thesis by (auto simp: ex_swap_setup_def split: sum.splits)
qed

lemma ex_swap_params:
  "case initialiseParameterInfrastructure connected_components_ref ex_infra_env (as_store ex_swap_setup) 0 [] ex_endpoints [(22, 20)] of
     Inl e \<Rightarrow> False | Inr r \<Rightarrow> su_result (fst r) \<and> snd r = [(22, 20)]"
  by code_simp

lemma ex_constructed:
  "\<exists>params. AudioSignalFlow ex_flow_env ex_swap 2 ex_endpoints ex_time = Inr (ex_swap_flow, params, resetCounter ex_time)"
proof -
  obtain params where p: "initialiseParameterInfrastructure connected_components_ref ex_infra_env (as_store ex_swap_setup) 0 []
      ex_endpoints [(22, 20)] = Inr (params, [(22, 20)])" "su_result params"
    using ex_swap_params by (auto split: sum.splits)
  have e: "fe_placement ex_flow_env = ex_placement" "pl_flow ex_placement = 0" "fe_poolBase ex_flow_env = 4096"
      "fe_connected_components ex_flow_env = connected_components_ref" "fe_param ex_flow_env = ex_infra_env"
    by (simp_all add: ex_flow_env_def ex_placement_def)
  show ?thesis
    unfolding AudioSignalFlow_def Let_def e ex_swap_flow_def
    unfolding ex_swap_stages ex_swap_setup bindE_simps prod.case p e simp_thms if_False using p(2) by simp
qed

lemma ex_swap_matches: "matches ex_swap ex_swap_tree"
  by (simp add: flow_tree_def ex_placement_def ex_swap_def ex_store_def numeral_eq_Suc)

lemma ex_swap_wf: "wf_store ex_swap"
proof -
  have d: "dom (comps ex_swap) = {0, 1, 2}" "dom (aports ex_swap) = {10, 11, 12, 13, 14, 15}" "dom (pports ex_swap) = {20, 21, 22}"
    by (auto simp: ex_swap_def ex_store_def split: if_splits)
  have "parent_rel ex_swap \<subseteq> {(k, p). p < k}"
    by (auto simp: parent_rel_def ex_swap_def ex_store_def split: if_splits)
  moreover have "acyclic {(k, p :: nat). p < k}"
  proof -
    have "{(k, p :: nat). p < k} = less_than\<inverse>" by (auto simp: less_than_iff)
    then show ?thesis by (simp add: acyclic_converse wf_acyclic)
  qed
  ultimately have "acyclic (parent_rel ex_swap)" by (rule acyclic_subset [rotated])
  moreover have "wf_children ex_swap" "wf_aports ex_swap" "wf_pports ex_swap"
    unfolding wf_children_def wf_aports_def wf_pports_def owns_def d
    by (simp_all add: ex_swap_def ex_defs)
  ultimately show ?thesis using d by (simp add: wf_store_def)
qed

lemma ex_swap_input: "flow_input ex_flow_env ex_swap"
proof -
  have pl: "fe_placement ex_flow_env = ex_placement" "pl_flow ex_placement = 0" by (simp_all add: ex_flow_env_def ex_placement_def)
  have comps: "composites ex_swap ex_swap_tree = [ex_swap_tree, Hier 1 [Hier 2 []]]"
    by (simp add: flow_tree_def ex_placement_def ex_swap_def ex_store_def numeral_eq_Suc)
  show ?thesis
    unfolding flow_input_def Let_def pl comps
    using ex_swap_wf ex_swap_matches by (simp add: pl) (simp add: ex_swap_def ex_defs)
qed

lemma ex_swap_env: "flow_env_ok ex_flow_env ex_swap"
proof -
  have "fresh_addresses ex_placement ex_swap"
    using ex_fresh by (auto simp: fresh_addresses_def ex_swap_def ex_placement_def split: prod.splits)
  then show ?thesis
    using ex_partition reference.graph_algorithms_axioms by (simp add: flow_env_ok_def ex_flow_env_def)
qed

lemma ex_swap_small:
  "\<forall>u \<in> set (composites ex_swap ex_swap_tree). \<forall>con \<in> set (c_audioConnections (comp ex_swap (hier.root u))).
     typeSize (ap_sampleType (aport ex_swap (ac_receiver con))) \<le> 4"
proof -
  have "composites ex_swap ex_swap_tree = [ex_swap_tree, Hier 1 [Hier 2 []]]"
    by (simp add: flow_tree_def ex_placement_def ex_swap_def ex_store_def numeral_eq_Suc)
  moreover have "pl_flow ex_placement = 0" by (simp add: ex_placement_def)
  ultimately show ?thesis by simp (simp add: ex_swap_def ex_defs)
qed

lemma ex_swap_runs:
  fixes st :: "'s \<times> 'a memory"
  assumes "\<And>c st. \<exists>st'. exec c st = Inr (st' :: 's \<times> 'a memory)"
  shows "\<exists>st'. executeComponents exec ex_swap_flow (st, t) = Inr (st', advanceBlockCounter t)"
proof -
  obtain params where "AudioSignalFlow ex_flow_env ex_swap 2 ex_endpoints ex_time = Inr (ex_swap_flow, params, resetCounter ex_time)"
    using ex_constructed by blast
  then obtain r P where sf: "scheduled_flow (fe_placement ex_flow_env) ex_swap 2 r P ex_swap_flow"
    and pool: "buffers_in_pool 2 (fe_poolBase ex_flow_env) (as_poolSize r) (as_store r) (finalConnections r)"
    using constructed_flow [OF ex_swap_input ex_swap_env] by blast
  have "cVectorAlignmentBytes dvd fe_poolBase ex_flow_env" by (simp add: ex_flow_env_def cVectorAlignmentBytes_def)
  moreover have "typeSize (ap_sampleType (aport ex_swap (port y))) \<le> 4"
    if "(x, y) \<in> flow_edges ex_swap (flow_tree (fe_placement ex_flow_env) ex_swap)" for x y
    using that ex_swap_small by (auto simp: connections_in_def channel_pairs_def ex_flow_env_def)
  ultimately show ?thesis by (intro flow_runs [OF sf pool, where exec = exec] assms)
qed

section \<open>Properties\<close>

text \<open>
  C2 (flow_construction): a signal flow that has been constructed is ready to run. Its schedule
  lists every atomic component of the hierarchy and every internal routing component once, each
  after the components that send to it; every channel that a scheduled component reads is fed by
  a connection, sender and receiver of every connection share their samples, different sending
  channels do not overlap, and the block counter starts at zero. Relied upon: a well-formed
  hierarchy whose connections agree in the sample type, and the documented behaviour of \<open>new\<close>,
  \<open>std::partition\<close> and the graph algorithms.
\<close>

theorem flow_construction:
  assumes "flow_input env s" and "flow_env_ok env s"
    and "AudioSignalFlow env s period ps t = Inr (fo, params, tm)"
  shows "(\<exists>conns. ready fo conns) \<and> routing_wired fo \<and>
    set (mProcessingSchedule fo) =
      set (collectAllComponents s (flow_tree (fe_placement env) s)) \<union> ri_component ` set (fo_infrastructure fo) \<and>
    mBlockCounter tm = 0"
proof -
  obtain r P where sf: "scheduled_flow (fe_placement env) s period r P fo" and tm: "tm = resetCounter t"
    using constructed_flow [OF assms] by blast
  then show ?thesis
    using scheduled_ready [OF sf] scheduled_flowD(6,8) [OF sf] by (auto simp: resetCounter_def)
qed

theorem flow_construction_witness:
  "(\<exists>conns. ready ex_swap_flow conns) \<and> {100, 2} = set (collectAllComponents ex_swap ex_swap_tree) \<union> {100}"
proof -
  obtain params where "AudioSignalFlow ex_flow_env ex_swap 2 ex_endpoints ex_time = Inr (ex_swap_flow, params, resetCounter ex_time)"
    using ex_constructed by blast
  note T = flow_construction [OF ex_swap_input ex_swap_env this]
  have "map ri_component (fo_infrastructure ex_swap_flow) = [100]" by code_simp
  then have "ri_component ` set (fo_infrastructure ex_swap_flow) = {100}" by (metis list.set_map list.simps(15) empty_set)
  then show ?thesis using T by (simp add: ex_swap_flow_def ex_flow_env_def)
qed

text \<open>
  C1 (flow_transports_samples): when a block of a constructed flow is executed, the receiver of
  every connection of the hierarchy, followed through all placeholder ports, finds on its input
  the samples of its sender: the buffers hold the same values at the end of the block, also where
  an internal routing component had to copy them. Relied upon: the components write to their own
  outputs only.
\<close>

theorem flow_transports_samples:
  assumes "flow_input env s" and "flow_env_ok env s"
    and "AudioSignalFlow env s period ps t = Inr (fo, params, tm)"
    and "writes_own exec fo" and "executeComponents exec fo (st, tm) = Inr (st', tm')"
    and "feeds (placeholder_channel s) (connections_in s (set (composites s (flow_tree (fe_placement env) s)))) a b"
    and "\<not> placeholder_channel s b" and "i < period"
  shows "snd st' (sample_address (fo_store fo) b i) = snd st' (sample_address (fo_store fo) a i)"
proof -
  obtain r P where sf: "scheduled_flow (fe_placement env) s period r P fo"
    using constructed_flow [OF assms(1-3)] by blast
  have "(a, b) \<in> flat_edges s (flow_tree (fe_placement env) s)" using assms(6,7) by (simp add: flat_edges_def)
  then show ?thesis using sample_transported [OF sf assms(4,5) _ assms(8)] by simp
qed

theorem flow_transports_samples_witness:
  "\<exists>st' tm'. executeComponents (\<lambda>c st. Inr st) ex_swap_flow (((), ex_memory), resetCounter ex_time) = Inr (st', tm') \<and>
     snd st' (sample_address (fo_store ex_swap_flow) (AudioChannel 14 0) 1) =
     snd st' (sample_address (fo_store ex_swap_flow) (AudioChannel 10 1) 1)"
proof -
  obtain params where c: "AudioSignalFlow ex_flow_env ex_swap 2 ex_endpoints ex_time = Inr (ex_swap_flow, params, resetCounter ex_time)"
    using ex_constructed by blast
  obtain st' tm' where e: "executeComponents (\<lambda>c st. Inr st) ex_swap_flow (((), ex_memory), resetCounter ex_time) = Inr (st', tm')"
    using ex_swap_runs [of "\<lambda>c st. Inr st"] by blast
  have w: "writes_own (\<lambda>c st. Inr st) ex_swap_flow" by (simp add: writes_own_def)
  have "set ex_swap_map = flow_edges ex_swap ex_swap_tree"
  proof (rule collected_edges [OF _ ex_swap_stages(2)])
    have "fst (checkAudioConnectionIntegrity ex_swap ex_swap_tree True [])" by code_simp
    then show "\<forall>u \<in> set (composites ex_swap ex_swap_tree). audio_level_ok ex_swap u"
      using checkAudioConnectionIntegrity_iff [of ex_swap ex_swap_tree True "[]"] by (simp add: visited_def)
  qed
  then have m: "(AudioChannel 10 1, AudioChannel 12 0) \<in> flow_edges ex_swap ex_swap_tree"
      "(AudioChannel 12 0, AudioChannel 14 0) \<in> flow_edges ex_swap ex_swap_tree"
    by (auto simp: ex_swap_map_def)
  have ph: "\<not> placeholder_channel ex_swap (AudioChannel 10 1)" "placeholder_channel ex_swap (AudioChannel 12 0)"
      "\<not> placeholder_channel ex_swap (AudioChannel 14 0)"
    by (simp_all add: placeholder_channel_def isPlaceholderPort_def isTopLevel_def ex_swap_def ex_defs)
  have "feeds (placeholder_channel ex_swap) (flow_edges ex_swap ex_swap_tree) (AudioChannel 10 1) (AudioChannel 14 0)"
    using m ph by (blast intro: feeds.intros)
  then show ?thesis
    using flow_transports_samples [OF ex_swap_input ex_swap_env c w e, of "AudioChannel 10 1" "AudioChannel 14 0" 1] ph(3) e
    by (simp add: ex_flow_env_def)
qed

text \<open>
  C8 (flow_executes): executing a constructed flow never fails by itself. If the components do
  not throw, the pool is aligned and the samples of the connected ports have at most four bytes,
  the block is processed to its end and the block counter advances; in particular the
  alignment checks of the internal routing components succeed.
\<close>

theorem flow_executes:
  assumes "flow_input env s" and "flow_env_ok env s"
    and "AudioSignalFlow env s period ps t = Inr (fo, params, tm)"
    and "cVectorAlignmentBytes dvd fe_poolBase env"
    and "\<forall>u \<in> set (composites s (flow_tree (fe_placement env) s)). \<forall>con \<in> set (c_audioConnections (comp s (hier.root u))).
      typeSize (ap_sampleType (aport s (ac_receiver con))) \<le> 4"
    and "\<And>c st. \<exists>st'. exec c st = Inr st'"
  shows "\<exists>st'. executeComponents exec fo (st, tm) = Inr (st', advanceBlockCounter tm)"
proof -
  obtain r P where sf: "scheduled_flow (fe_placement env) s period r P fo"
    and pool: "buffers_in_pool period (fe_poolBase env) (as_poolSize r) (as_store r) (finalConnections r)"
    using constructed_flow [OF assms(1-3)] by blast
  have "typeSize (ap_sampleType (aport s (port y))) \<le> 4"
    if "(x, y) \<in> flow_edges s (flow_tree (fe_placement env) s)" for x y
    using that assms(5) by (auto simp: connections_in_def channel_pairs_def)
  then show ?thesis by (intro flow_runs [OF sf pool assms(4), where exec = exec] assms(6))
qed

theorem flow_executes_witness:
  "\<exists>st'. executeComponents (\<lambda>c st. Inr st) ex_swap_flow (((), ex_memory), resetCounter ex_time) =
     Inr (st', advanceBlockCounter (resetCounter ex_time))"
proof -
  obtain params where c: "AudioSignalFlow ex_flow_env ex_swap 2 ex_endpoints ex_time = Inr (ex_swap_flow, params, resetCounter ex_time)"
    using ex_constructed by blast
  have e: "fe_placement ex_flow_env = ex_placement" "cVectorAlignmentBytes dvd fe_poolBase ex_flow_env"
    by (simp_all add: ex_flow_env_def cVectorAlignmentBytes_def)
  have "\<exists>st'. (\<lambda>(c :: nat) st. Inr st :: exn + (unit \<times> int memory)) d u = Inr st'" for d u by blast
  then show ?thesis by (rule flow_executes [OF ex_swap_input ex_swap_env c e(2), unfolded e(1), OF ex_swap_small])
qed

text \<open>
  The restriction to four bytes is needed: an address of the pool that is aligned to 64 bytes only
  does not pass the check for 16 elements of type \<open>double\<close>, and the routing component throws.
\<close>

lemma double_channel_misaligned:
  "cVectorAlignmentBytes dvd 4160" "\<not> checkAlignment (typeSize doubleId) 4160 cVectorAlignmentSamples"
proof -
  show "cVectorAlignmentBytes dvd 4160" by (simp add: cVectorAlignmentBytes_def)
  have "cVectorAlignmentSamples = 2 ^ 4" "typeSize doubleId = 2 ^ 3" "\<not> cVectorAlignmentSamples dvd 520"
    by (simp_all add: cVectorAlignmentSamples_def cVectorAlignmentBytes_def)
  then show "\<not> checkAlignment (typeSize doubleId) 4160 cVectorAlignmentSamples"
    using checkAlignment_iff [of "typeSize doubleId" 3 cVectorAlignmentSamples 4 4160] by simp
qed

end
