(* ===== verification/Lagrange.thy ===== *)
theory Lagrange
  imports Complex_Main
begin

text \<open>
  The computation of Lagrange interpolation coefficients
  (\<open>src/libefl/lagrange_coefficient_calculator.cpp\<close>). The recursion \<open>multiplyAndShuffle\<close> replaces
  every element of an array by the product of all the others with a logarithmic depth; it is
  shown to agree with that description, and the coefficients with the interpolation formula.
\<close>

section \<open>The product of all other elements\<close>

text \<open>One level of the recursion: the products of neighbours, and their distribution.\<close>

fun pair_products :: "'a::times list \<Rightarrow> 'a list" where
  "pair_products (x # y # coeffs) = x * y # pair_products coeffs"
| "pair_products coeffs = coeffs"

fun distribute :: "'a::times list \<Rightarrow> 'a list \<Rightarrow> 'a list" where
  "distribute (x # y # coeffs) (p # products) = y * p # x * p # distribute coeffs products"
| "distribute coeffs products = products"

lemma length_pair_products [simp]: "length (pair_products xs) = (length xs + 1) div 2"
  by (induction xs rule: pair_products.induct) auto

function multiplyAndShuffle :: "'a::{one,times} list \<Rightarrow> 'a list" where
  "multiplyAndShuffle coeffs =
     (if 2 < length coeffs then distribute coeffs (multiplyAndShuffle (pair_products coeffs))
      else if length coeffs = 2 then [coeffs ! 1, coeffs ! 0]
      else if length coeffs = 1 then [1]
      else coeffs)"
  by pat_completeness auto

termination
  by (relation "measure length") auto

declare multiplyAndShuffle.simps [simp del]

text \<open>\<open>other_products p xs\<close>: for each element, \<open>p\<close> times the product of the other elements.\<close>

fun other_products :: "'a::comm_monoid_mult \<Rightarrow> 'a list \<Rightarrow> 'a list" where
  "other_products p [] = []"
| "other_products p (x # xs) = p * prod_list xs # other_products (p * x) xs"

lemma prod_pair_products: "prod_list (pair_products xs) = prod_list (xs :: 'a::comm_monoid_mult list)"
  by (induction xs rule: pair_products.induct) (auto simp: mult.assoc)

lemma distribute_other_products:
  "distribute xs (other_products p (pair_products xs)) = other_products p (xs :: 'a::comm_monoid_mult list)"
  by (induction xs arbitrary: p rule: pair_products.induct) (auto simp: prod_pair_products ac_simps)

lemma multiplyAndShuffle_correct: "multiplyAndShuffle xs = other_products 1 (xs :: 'a::comm_monoid_mult list)"
proof (induction xs rule: multiplyAndShuffle.induct)
  case (1 xs)
  consider "2 < length xs" | a b where "xs = [a, b]" | a where "xs = [a]" | "xs = []"
    by (cases xs; cases "tl xs"; cases "tl (tl xs)") auto
  then show ?case
    using 1 by cases (simp_all add: multiplyAndShuffle.simps [of xs] multiplyAndShuffle.simps distribute_other_products)
qed

lemma length_other_products [simp]: "length (other_products p xs) = length xs"
  by (induction xs arbitrary: p) auto

lemma other_products_nth:
  "i < length xs \<Longrightarrow> other_products p xs ! i = p * (\<Prod>j\<in>{..<length xs} - {i}. xs ! j)"
proof (induction xs arbitrary: p i)
  case (Cons x xs)
  show ?case
  proof (cases i)
    case 0
    have "{..<length (x # xs)} - {0} = Suc ` {..<length xs}"
      unfolding list.size(4) add_Suc_right add_0_right lessThan_Suc_eq_insert_0 by blast
    then have "(\<Prod>j\<in>{..<length (x # xs)} - {0}. (x # xs) ! j) = (\<Prod>j<length xs. xs ! j)"
      by (simp add: prod.reindex)
    also have "\<dots> = prod_list xs" by (simp add: prod.list_conv_set_nth lessThan_atLeast0)
    finally show ?thesis using 0 by simp
  next
    case (Suc k)
    have "{..<length (x # xs)} - {Suc k} = insert 0 (Suc ` ({..<length xs} - {k}))"
      unfolding list.size(4) add_Suc_right add_0_right lessThan_Suc_eq_insert_0 by blast
    then have "(\<Prod>j\<in>{..<length (x # xs)} - {Suc k}. (x # xs) ! j) = x * (\<Prod>j\<in>{..<length xs} - {k}. xs ! j)"
      by (simp add: prod.reindex)
    then show ?thesis using Suc Cons by (simp add: mult.assoc)
  qed
qed simp

section \<open>The coefficient calculator\<close>

text \<open>\<open>N\<close> is the order and \<open>rc\<close> the template parameter \<open>reverseCoeffs\<close>.\<close>

definition offset :: "nat \<Rightarrow> bool \<Rightarrow> nat \<Rightarrow> 'a::field" where
  "offset N rc idx = (if rc then 1 / 2 * of_nat N - of_nat idx else of_nat idx - 1 / 2 * of_nat N)"

definition scaleFactor :: "nat \<Rightarrow> bool \<Rightarrow> nat \<Rightarrow> 'a::field" where
  "scaleFactor N rc idx =
     1 / fold (\<lambda>runIdx acc. if runIdx \<noteq> idx then acc * (offset N rc runIdx - offset N rc idx) else acc)
           [0..<N + 1] 1"

definition generateOffsets :: "nat \<Rightarrow> bool \<Rightarrow> 'a::field list" where
  "generateOffsets N rc = map (offset N rc) [0..<N + 1]"

definition generateScaleFactors :: "nat \<Rightarrow> bool \<Rightarrow> 'a::field list" where
  "generateScaleFactors N rc = map (scaleFactor N rc) [0..<N + 1]"

definition calculateCoefficients :: "nat \<Rightarrow> bool \<Rightarrow> 'a::field \<Rightarrow> 'a list" where
  "calculateCoefficients N rc mu =
     (let mInternalCoeffs = multiplyAndShuffle (map (\<lambda>val. val - mu) (generateOffsets N rc))
      in map2 (*) (generateScaleFactors N rc) mInternalCoeffs)"

lemma fold_prod_others:
  "fold (\<lambda>j acc. if j \<noteq> i then acc * (g j :: 'a::comm_monoid_mult) else acc) [0..<n] a = a * (\<Prod>j\<in>{..<n} - {i}. g j)"
proof (induction n)
  case (Suc n)
  show ?case
  proof (cases "n = i")
    case True
    then have "{..<Suc n} - {i} = {..<n} - {i}" by auto
    then show ?thesis using Suc True by simp
  next
    case False
    then have "{..<Suc n} - {i} = insert n ({..<n} - {i})" by auto
    then show ?thesis using Suc False by (simp add: ac_simps)
  qed
qed simp

lemma neg_diff_divide: "(a - b) / (c - d) = (b - a) / (d - c :: 'a::field)"
proof -
  have "a - b = - (b - a)" "c - d = - (d - c)" by simp_all
  then show ?thesis by (simp only: minus_divide_divide)
qed

text \<open>The basis polynomials of Lagrange.\<close>

definition lagrange_basis :: "(nat \<Rightarrow> 'a::field) \<Rightarrow> nat \<Rightarrow> nat \<Rightarrow> 'a \<Rightarrow> 'a" where
  "lagrange_basis node N i x = (\<Prod>j\<in>{..N} - {i}. (x - node j) / (node i - node j))"

lemma length_calculateCoefficients [simp]: "length (calculateCoefficients N rc mu) = Suc N"
  by (simp add: calculateCoefficients_def Let_def generateScaleFactors_def generateOffsets_def multiplyAndShuffle_correct)

lemma calculateCoefficients_nth:
  assumes "i \<le> N"
  shows "calculateCoefficients N rc mu ! i = lagrange_basis (offset N rc) N i mu"
proof -
  let ?o = "offset N rc :: nat \<Rightarrow> 'a"
  have set: "{..<N + 1} - {i} = {..N} - {i}" by auto
  let ?xs = "map (\<lambda>val. val - mu) (generateOffsets N rc)"
  have nth: "?xs ! j = ?o j - mu" if "j \<in> {..N} - {i}" for j
    using that nth_map_upt [of j "N + 1" 0 "?o"] by (simp add: generateOffsets_def del: upt_Suc)
  have len: "length ?xs = N + 1" by (simp add: generateOffsets_def)
  have a: "multiplyAndShuffle ?xs ! i = (\<Prod>j\<in>{..N} - {i}. ?o j - mu)"
    unfolding multiplyAndShuffle_correct using other_products_nth [of i ?xs 1] len assms set nth
    by simp
  have b: "scaleFactor N rc i = (1 :: 'a) / (\<Prod>j\<in>{..N} - {i}. ?o j - ?o i)"
    unfolding scaleFactor_def fold_prod_others set by simp
  have "calculateCoefficients N rc mu ! i = scaleFactor N rc i * multiplyAndShuffle ?xs ! i"
    using assms len by (simp add: calculateCoefficients_def Let_def generateScaleFactors_def multiplyAndShuffle_correct
        nth_map_upt del: upt_Suc)
  also have "\<dots> = (\<Prod>j\<in>{..N} - {i}. (?o j - mu) / (?o j - ?o i))"
    unfolding a b by (simp add: prod_dividef)
  also have "\<dots> = lagrange_basis ?o N i mu"
    unfolding lagrange_basis_def by (rule prod.cong [OF refl]) (rule neg_diff_divide)
  finally show ?thesis .
qed

section \<open>Interpolation of polynomials\<close>

definition polynomial :: "nat \<Rightarrow> (real \<Rightarrow> real) \<Rightarrow> bool" where
  "polynomial n f \<longleftrightarrow> (\<exists>c. \<forall>x. f x = (\<Sum>i\<le>n. c i * x ^ i))"

lemma polynomialI: "(\<And>x. f x = (\<Sum>i\<le>n. c i * x ^ i)) \<Longrightarrow> polynomial n f"
  unfolding polynomial_def by blast

lemma polynomial_const: "polynomial 0 (\<lambda>x. a)"
  unfolding polynomial_def by (rule exI [of _ "\<lambda>i. a"]) simp

lemma polynomial_add: "polynomial n f \<Longrightarrow> polynomial n g \<Longrightarrow> polynomial n (\<lambda>x. f x + g x)"
proof -
  assume "polynomial n f" "polynomial n g"
  then obtain c d where c: "\<And>x. f x = (\<Sum>i\<le>n. c i * x ^ i)" and d: "\<And>x. g x = (\<Sum>i\<le>n. d i * x ^ i)"
    unfolding polynomial_def by blast
  show ?thesis
    by (rule polynomialI [where c = "\<lambda>i. c i + d i"]) (simp add: c d sum.distrib distrib_right)
qed

lemma polynomial_scale: "polynomial n f \<Longrightarrow> polynomial n (\<lambda>x. a * f x)"
proof -
  assume "polynomial n f"
  then obtain c where c: "\<And>x. f x = (\<Sum>i\<le>n. c i * x ^ i)" unfolding polynomial_def by blast
  show ?thesis
    by (rule polynomialI [where c = "\<lambda>i. a * c i"]) (simp add: c sum_distrib_left mult.assoc)
qed

lemma polynomial_linear_factor:
  assumes "polynomial n f"
  shows "polynomial (Suc n) (\<lambda>x. (a + b * x) * f x)"
proof -
  obtain c where c: "\<And>x. f x = (\<Sum>i\<le>n. c i * x ^ i)" using assms unfolding polynomial_def by blast
  let ?d = "\<lambda>i. (if i \<le> n then a * c i else 0) + (if i = 0 then 0 else b * c (i - 1))"
  have "(a + b * x) * f x = (\<Sum>i\<le>Suc n. ?d i * x ^ i)" for x
  proof -
    have 1: "(\<Sum>i\<le>Suc n. (if i \<le> n then a * c i else 0) * x ^ i) = a * f x"
      unfolding c sum_distrib_left by (simp add: mult.assoc)
    have 2: "(\<Sum>i\<le>Suc n. (if i = 0 then 0 else b * c (i - 1)) * x ^ i) = b * x * f x"
      unfolding sum.atMost_Suc_shift c sum_distrib_left by (simp add: ac_simps)
    show ?thesis unfolding distrib_right sum.distrib 1 2 ..
  qed
  then show ?thesis by (rule polynomialI)
qed

lemma polynomial_sum: "finite A \<Longrightarrow> (\<And>i. i \<in> A \<Longrightarrow> polynomial n (f i)) \<Longrightarrow> polynomial n (\<lambda>x. \<Sum>i\<in>A. f i x)"
proof (induction A rule: finite_induct)
  case empty
  show ?case unfolding polynomial_def by (rule exI [of _ "\<lambda>i. 0"]) simp
next
  case (insert i A)
  then show ?case by (simp add: polynomial_add)
qed

lemma polynomial_basis:
  assumes "finite A"
  shows "polynomial (card A) (\<lambda>x. \<Prod>j\<in>A. (x - u j) / v j)"
  using assms
proof (induction A rule: finite_induct)
  case empty
  show ?case using polynomial_const [of 1] by simp
next
  case (insert j A)
  have "(\<lambda>x. \<Prod>j\<in>insert j A. (x - u j) / v j) = (\<lambda>x. (- u j / v j + 1 / v j * x) * (\<Prod>j\<in>A. (x - u j) / v j))"
    unfolding prod.insert [OF insert.hyps] by (simp add: fun_eq_iff diff_divide_distrib)
  moreover have "card (insert j A) = Suc (card A)" using insert.hyps by simp
  ultimately show ?case using polynomial_linear_factor [OF insert.IH] by (simp only:)
qed

lemma polynomial_zero:
  assumes "polynomial n f" "\<And>i. i \<le> n \<Longrightarrow> f (u i) = 0" "inj_on u {..n}"
  shows "f x = 0"
proof (rule ccontr)
  assume nz: "f x \<noteq> 0"
  obtain c where c: "\<And>x. f x = (\<Sum>i\<le>n. c i * x ^ i)" using assms(1) unfolding polynomial_def by blast
  obtain k where k: "k \<le> n" "c k \<noteq> 0"
  proof -
    have "\<exists>i\<le>n. c i \<noteq> 0"
    proof (rule ccontr)
      assume "\<not> (\<exists>i\<le>n. c i \<noteq> 0)"
      then have "(\<Sum>i\<le>n. c i * x ^ i) = 0" by (intro sum.neutral) auto
      then show False using nz c by simp
    qed
    then show ?thesis using that by blast
  qed
  have fin: "finite {z. (\<Sum>i\<le>n. c i * z ^ i) = 0}" "card {z. (\<Sum>i\<le>n. c i * z ^ i) = 0} \<le> n"
    using polyfun_rootbound [of c k n] k by auto
  have "u ` {..n} \<subseteq> {z. (\<Sum>i\<le>n. c i * z ^ i) = 0}" using assms(2) c by auto
  then have "card (u ` {..n}) \<le> n" using card_mono [OF fin(1)] fin(2) le_trans by blast
  then show False using card_image [OF assms(3)] by simp
qed

text \<open>Lagrange's formula reproduces every polynomial of degree at most \<open>N\<close>.\<close>

lemma lagrange_reproduces:
  assumes "polynomial N f" "inj_on node {..N}"
  shows "(\<Sum>i\<le>N. lagrange_basis node N i x * f (node i)) = f x"
proof -
  let ?g = "\<lambda>x. (\<Sum>i\<le>N. f (node i) * lagrange_basis node N i x) + -1 * f x"
  have "polynomial N (\<lambda>x. f (node i) * lagrange_basis node N i x)" if "i \<le> N" for i
  proof -
    have "card ({..N} - {i}) = N" using that by simp
    then show ?thesis
      using polynomial_basis [of "{..N} - {i}" node "\<lambda>j. node i - node j"] polynomial_scale
      unfolding lagrange_basis_def by auto
  qed
  then have "polynomial N (\<lambda>x. \<Sum>i\<le>N. f (node i) * lagrange_basis node N i x)" by (intro polynomial_sum) auto
  then have p: "polynomial N ?g" using polynomial_scale [OF assms(1)] by (rule polynomial_add)
  have basis: "lagrange_basis node N i (node k) = (if i = k then 1 else 0)" if "i \<le> N" "k \<le> N" for i k
  proof (cases "i = k")
    case True
    have "(node i - node j) / (node i - node j) = 1" if "j \<in> {..N} - {i}" for j
      using that \<open>i \<le> N\<close> inj_onD [OF assms(2), of i j] by auto
    then show ?thesis using True by (simp add: lagrange_basis_def)
  next
    case False
    then have "k \<in> {..N} - {i}" using that by simp
    then show ?thesis using False unfolding lagrange_basis_def by (auto intro: prod_zero)
  qed
  have "?g (node k) = 0" if "k \<le> N" for k
  proof -
    have "(\<Sum>i\<le>N. f (node i) * lagrange_basis node N i (node k)) = (\<Sum>i\<le>N. if i = k then f (node i) else 0)"
      by (rule sum.cong) (use basis that in auto)
    also have "\<dots> = f (node k)" using that by simp
    finally show ?thesis by simp
  qed
  then have "?g x = 0" by (rule polynomial_zero [OF p _ assms(2)])
  then show ?thesis by (simp add: mult.commute)
qed

lemma offset_inj: "inj_on (offset N rc :: nat \<Rightarrow> real) {..N}"
  by (rule inj_onI) (simp add: offset_def split: if_splits)

text \<open>
  C14 (lagrange_spec): the coefficients computed by the logarithmic product recursion are the
  values of Lagrange's basis polynomials at the intersample position; the weighted sum of the
  samples of any polynomial of degree at most \<open>N\<close> at the nodes is therefore the value of the
  polynomial at that position.
\<close>

theorem lagrange_spec:
  assumes "i \<le> N" and "polynomial N f"
  shows "calculateCoefficients N rc mu ! i
      = (\<Prod>j\<in>{..N} - {i}. (mu - offset N rc j) / (offset N rc i - offset N rc j :: real)) \<and>
    sum_list (map2 (*) (calculateCoefficients N rc mu) (map (\<lambda>j. f (offset N rc j)) [0..<N + 1])) = f mu"
proof
  show "calculateCoefficients N rc mu ! i
      = (\<Prod>j\<in>{..N} - {i}. (mu - offset N rc j) / (offset N rc i - offset N rc j :: real))"
    unfolding calculateCoefficients_nth [OF assms(1)] lagrange_basis_def ..
  have "sum_list (map2 (*) (calculateCoefficients N rc mu) (map (\<lambda>j. f (offset N rc j)) [0..<N + 1]))
      = (\<Sum>j = 0..<Suc N. calculateCoefficients N rc mu ! j * f (offset N rc j))"
    by (simp add: sum_list_sum_nth nth_map_upt del: upt_Suc)
  also have "\<dots> = (\<Sum>j\<le>N. lagrange_basis (offset N rc) N j mu * f (offset N rc j))"
    by (rule sum.cong) (auto simp: calculateCoefficients_nth)
  also have "\<dots> = f mu" by (rule lagrange_reproduces [OF assms(2) offset_inj])
  finally show "sum_list (map2 (*) (calculateCoefficients N rc mu) (map (\<lambda>j. f (offset N rc j)) [0..<N + 1])) = f mu" .
qed

theorem lagrange_spec_witness:
  "calculateCoefficients 1 True (1 / 4 :: real) ! 0 = 3 / 4 \<and>
   sum_list (map2 (*) (calculateCoefficients 1 True (1 / 4)) (map (\<lambda>j. 2 + 3 * offset 1 True j) [0..<2])) = (11 / 4 :: real)"
proof -
  have "polynomial 1 (\<lambda>x. 2 + 3 * x)"
    by (rule polynomialI [where c = "\<lambda>i. if i = 0 then 2 else 3"]) simp
  from lagrange_spec [OF _ this, of 0 True "1 / 4"] have
    a: "calculateCoefficients 1 True (1 / 4) ! 0
      = (\<Prod>j\<in>{..1} - {0}. (1 / 4 - offset 1 True j) / (offset 1 True 0 - offset 1 True j :: real))" and
    b: "sum_list (map2 (*) (calculateCoefficients 1 True (1 / 4)) (map (\<lambda>j. 2 + 3 * offset 1 True j) [0..<1 + 1]))
      = (2 + 3 * (1 / 4) :: real)" by simp_all
  have "{..1} - {0} = {1 :: nat}" by auto
  then have "calculateCoefficients 1 True (1 / 4 :: real) ! 0 = 3 / 4" using a by (simp add: offset_def)
  then show ?thesis using b by (simp add: numeral_2_eq_2)
qed

end
