(* ===== verification/Aligned_Storage.thy ===== *)
theory Aligned_Storage
  imports Vector_Functions Buffer_Layout
begin

text \<open>
  The containers of \<open>src/libefl\<close> that own the memory of samples: \<open>AlignedArray\<close>
  (\<open>aligned_array.hpp\<close>), \<open>BasicVector\<close> (\<open>basic_vector.hpp\<close>) and \<open>BasicMatrix\<close>
  (\<open>basic_matrix.hpp\<close>).

  The address \<open>raw\<close> that \<open>new ElementType[n]\<close> returns is an argument of the operations that
  allocate; \<open>fresh\<close> states what the language promises of it. \<open>sz\<close> is \<open>sizeof(ElementType)\<close>
  and \<open>ao\<close> is \<open>alignof(ElementType)\<close>. The null pointer is the address 0.
\<close>

section \<open>AlignedArray\<close>

record aligned_array =
  mAlignment :: nat
  mArrayLength :: nat
  mRawStorage :: nat
  mAlignedStorage :: nat

text \<open>\<open>std::align\<close>: the first suitable address, if the object still fits into the space.\<close>

definition std_align :: "nat \<Rightarrow> nat \<Rightarrow> nat \<Rightarrow> nat \<Rightarrow> nat option" where
  "std_align alignment n ptr space =
     (let p = (ptr + alignment - 1) div alignment * alignment
      in if n + (p - ptr) \<le> space then Some p else None)"

definition worstCaseLength :: "nat \<Rightarrow> nat \<Rightarrow> aligned_array \<Rightarrow> nat \<Rightarrow> nat" where
  "worstCaseLength sz ao a n = (if ao = sz then n + mAlignment a - 1 else n + mAlignment a)"

definition array_deallocate :: "aligned_array \<Rightarrow> aligned_array" where
  "array_deallocate a = a\<lparr>mRawStorage := 0, mAlignedStorage := 0, mArrayLength := 0\<rparr>"

text \<open>
  \<open>std::align\<close> leaves the pointer alone when it fails, so that the code's test for a null
  pointer is a test of the address that \<open>new\<close> returned.
\<close>

definition array_allocate :: "nat \<Rightarrow> nat \<Rightarrow> nat \<Rightarrow> aligned_array \<Rightarrow> nat \<Rightarrow> exn + aligned_array" where
  "array_allocate sz ao raw a n =
     (let worst = worstCaseLength sz ao a n;
          retPtr = (case std_align (mAlignment a * sz) (n * sz) raw (worst * sz) of
                      None \<Rightarrow> raw | Some p \<Rightarrow> p)
      in if retPtr = 0 then Inl bad_alloc
         else Inr (a\<lparr>mRawStorage := raw, mAlignedStorage := retPtr, mArrayLength := n\<rparr>))"

definition AlignedArray_empty :: "nat \<Rightarrow> exn + aligned_array" where
  "AlignedArray_empty alignmentElements =
     (let al = (if alignmentElements = 0 then 1 else alignmentElements)
      in if \<not> alignmentIsPowerOfTwo (word_of_nat al) then Inl invalid_argument
         else Inr \<lparr>mAlignment = al, mArrayLength = 0, mRawStorage = 0, mAlignedStorage = 0\<rparr>)"

definition AlignedArray :: "nat \<Rightarrow> nat \<Rightarrow> nat \<Rightarrow> nat \<Rightarrow> nat \<Rightarrow> exn + aligned_array" where
  "AlignedArray sz ao raw n alignmentElements =
     bindE (AlignedArray_empty alignmentElements) (\<lambda>a.
       if 0 < n then array_allocate sz ao raw a n
       else Inr (a\<lparr>mArrayLength := 0, mRawStorage := 0, mAlignedStorage := 0\<rparr>))"

definition array_resize :: "nat \<Rightarrow> nat \<Rightarrow> nat \<Rightarrow> aligned_array \<Rightarrow> nat \<Rightarrow> exn + aligned_array" where
  "array_resize sz ao raw a newLength =
     (let a = array_deallocate a
      in if 0 < newLength then array_allocate sz ao raw a newLength else Inr a)"

definition array_swap :: "aligned_array \<Rightarrow> aligned_array \<Rightarrow> exn + aligned_array \<times> aligned_array" where
  "array_swap a rhs =
     (if mAlignment a \<noteq> mAlignment rhs then Inl logic_error
      else Inr (a\<lparr>mArrayLength := mArrayLength rhs, mRawStorage := mRawStorage rhs,
                  mAlignedStorage := mAlignedStorage rhs\<rparr>,
                rhs\<lparr>mArrayLength := mArrayLength a, mRawStorage := mRawStorage a,
                  mAlignedStorage := mAlignedStorage a\<rparr>))"

definition AlignedArray_move :: "aligned_array \<Rightarrow> exn + aligned_array \<times> aligned_array" where
  "AlignedArray_move rhs = bindE (AlignedArray_empty (mAlignment rhs)) (\<lambda>a. array_swap a rhs)"

definition array_assign_move :: "aligned_array \<Rightarrow> aligned_array \<Rightarrow> exn + aligned_array \<times> aligned_array" where
  "array_assign_move a rhs =
     (if mAlignment a \<noteq> mAlignment rhs then Inl logic_error
      else bindE (array_swap a rhs) (\<lambda>(a, rhs). Inr (a, array_deallocate rhs)))"

text \<open>A reference to an element is its address.\<close>

definition array_at :: "nat \<Rightarrow> aligned_array \<Rightarrow> nat \<Rightarrow> exn + nat" where
  "array_at sz a i =
     (if mArrayLength a \<le> i then Inl out_of_range else Inr (elem sz (mAlignedStorage a) i))"

section \<open>BasicVector\<close>

text \<open>A vector is its array; its elements are in the memory.\<close>

definition vector_zeroFill :: "nat \<Rightarrow> aligned_array \<Rightarrow> 'a::zero memory \<Rightarrow> exn + 'a memory" where
  "vector_zeroFill sz v m =
     (case vectorZero sz (mAlignedStorage v) (mArrayLength v) 0 m of
        (res, m') \<Rightarrow> if res \<noteq> noError then Inl runtime_error else Inr m')"

definition vector_fillValue :: "nat \<Rightarrow> 'a \<Rightarrow> aligned_array \<Rightarrow> 'a memory \<Rightarrow> exn + 'a memory" where
  "vector_fillValue sz val v m =
     (case vectorFill sz val (mAlignedStorage v) (mArrayLength v) 0 m of
        (res, m') \<Rightarrow> if res \<noteq> noError then Inl runtime_error else Inr m')"

definition BasicVector ::
  "nat \<Rightarrow> nat \<Rightarrow> nat \<Rightarrow> nat \<Rightarrow> nat \<Rightarrow> 'a::zero memory \<Rightarrow> exn + aligned_array \<times> 'a memory" where
  "BasicVector sz ao raw n alignmentElements m =
     bindE (AlignedArray sz ao raw n alignmentElements) (\<lambda>v.
     bindE (vector_zeroFill sz v m) (\<lambda>m. Inr (v, m)))"

definition BasicVector_list ::
  "nat \<Rightarrow> nat \<Rightarrow> nat \<Rightarrow> 'a list \<Rightarrow> nat \<Rightarrow> 'a memory \<Rightarrow> exn + aligned_array \<times> 'a memory" where
  "BasicVector_list sz ao raw initialValues alignmentElements m =
     bindE (AlignedArray sz ao raw (length initialValues) alignmentElements) (\<lambda>v.
       Inr (v, for_each (length initialValues) (elem sz (mAlignedStorage v)) (\<lambda>i m. initialValues ! i) m))"

definition vector_resize ::
  "nat \<Rightarrow> nat \<Rightarrow> nat \<Rightarrow> aligned_array \<Rightarrow> nat \<Rightarrow> 'a::zero memory \<Rightarrow> exn + aligned_array \<times> 'a memory" where
  "vector_resize sz ao raw v newSize m =
     bindE (AlignedArray sz ao raw newSize (mAlignment v)) (\<lambda>newData.
       (case vectorZero sz (mAlignedStorage newData) newSize 0 m of
          (res, m') \<Rightarrow>
            if res \<noteq> noError then Inl runtime_error
            else bindE (array_swap v newData) (\<lambda>(v, _). Inr (v, m'))))"

definition vector_copy :: "nat \<Rightarrow> aligned_array \<Rightarrow> aligned_array \<Rightarrow> 'a memory \<Rightarrow> exn + 'a memory" where
  "vector_copy sz v rhs m =
     (let minAlignment = min (mAlignment v) (mAlignment rhs)
      in if mArrayLength v \<noteq> mArrayLength rhs then Inl invalid_argument
         else case vectorCopy sz (mAlignedStorage rhs) (mAlignedStorage v) (mArrayLength v) minAlignment m of
                (res, m') \<Rightarrow> if res \<noteq> noError then Inl runtime_error else Inr m')"

definition vector_assign ::
  "nat \<Rightarrow> nat \<Rightarrow> nat \<Rightarrow> aligned_array \<Rightarrow> aligned_array \<Rightarrow> 'a::zero memory \<Rightarrow> exn + aligned_array \<times> 'a memory" where
  "vector_assign sz ao raw v rhs m =
     bindE (if mArrayLength rhs \<noteq> mArrayLength v then vector_resize sz ao raw v (mArrayLength rhs) m
            else Inr (v, m)) (\<lambda>(v, m).
     bindE (vector_copy sz v rhs m) (\<lambda>m. Inr (v, m)))"

definition vector_swap :: "aligned_array \<Rightarrow> aligned_array \<Rightarrow> exn + aligned_array \<times> aligned_array" where
  "vector_swap v rhs =
     (if mArrayLength v \<noteq> mArrayLength rhs \<or> mAlignment v \<noteq> mAlignment rhs then Inl logic_error
      else array_swap v rhs)"

text \<open>The elements of a vector, in order.\<close>

definition vector_elements :: "nat \<Rightarrow> 'a memory \<Rightarrow> aligned_array \<Rightarrow> 'a list" where
  "vector_elements sz m v = map (\<lambda>i. m (elem sz (mAlignedStorage v) i)) [0..<mArrayLength v]"

section \<open>The invariant of an array\<close>

definition fresh :: "nat \<Rightarrow> nat \<Rightarrow> nat \<Rightarrow> bool" where
  "fresh ao raw bytes \<longleftrightarrow> 0 < raw \<and> ao dvd raw \<and> raw + bytes < 2 ^ 64"

definition array_inv :: "nat \<Rightarrow> nat \<Rightarrow> aligned_array \<Rightarrow> bool" where
  "array_inv sz ao a \<longleftrightarrow>
     (\<exists>k. mAlignment a = 2 ^ k \<and> 2 ^ k * sz < 2 ^ 64) \<and>
     (mArrayLength a = 0 \<longrightarrow> mRawStorage a = 0 \<and> mAlignedStorage a = 0) \<and>
     (0 < mArrayLength a \<longrightarrow>
        0 < mRawStorage a \<and> mRawStorage a \<le> mAlignedStorage a \<and>
        mAlignment a * sz dvd mAlignedStorage a \<and>
        mAlignedStorage a + mArrayLength a * sz \<le> mRawStorage a + worstCaseLength sz ao a (mArrayLength a) * sz \<and>
        mRawStorage a + worstCaseLength sz ao a (mArrayLength a) * sz < 2 ^ 64)"

lemma round_up:
  fixes a p :: nat
  assumes "0 < a"
  shows "a dvd (p + a - 1) div a * a" "p \<le> (p + a - 1) div a * a" "(p + a - 1) div a * a \<le> p + a - 1"
proof -
  have "(p + a - 1) div a * a + (p + a - 1) mod a = p + a - 1" by (rule div_mult_mod_eq)
  moreover have "(p + a - 1) mod a < a" using assms by simp
  ultimately show "p \<le> (p + a - 1) div a * a" "(p + a - 1) div a * a \<le> p + a - 1" by linarith+
qed simp

text \<open>Rounding up a multiple of \<open>d\<close> to a multiple of \<open>d * c\<close> skips less than \<open>d * c\<close>.\<close>

lemma round_up_multiple:
  fixes a d p :: nat
  assumes "0 < a" "d dvd a" "d dvd p"
  shows "(p + a - 1) div a * a + d \<le> p + a"
proof -
  let ?r = "(p + a - 1) div a * a"
  have le: "p \<le> ?r" "?r \<le> p + a - 1" using round_up [OF assms(1)] by auto
  have "d dvd ?r" using assms(2) by (simp add: dvd_mult)
  then have "d dvd p + a - ?r" using assms by (metis dvd_add dvd_diff_nat)
  moreover have "0 < p + a - ?r" using le assms(1) by linarith
  ultimately have "d \<le> p + a - ?r" by (rule dvd_imp_le)
  then show ?thesis using le assms(1) by linarith
qed

lemma array_allocate_inv:
  assumes al: "mAlignment a = 2 ^ k" "2 ^ k * sz < 2 ^ 64" and sz: "0 < sz" "ao dvd sz"
    and raw: "fresh ao raw (worstCaseLength sz ao a n * sz)" and n: "0 < n"
  shows "\<exists>b. array_allocate sz ao raw a n = Inr b \<and> array_inv sz ao b \<and>
    mArrayLength b = n \<and> mAlignment b = mAlignment a \<and> mRawStorage b = raw"
proof -
  let ?w = "worstCaseLength sz ao a n" and ?A = "mAlignment a * sz"
  define p where "p = (raw + ?A - 1) div ?A * ?A"
  have A: "0 < ?A" using al(1) sz(1) by simp
  have w: "?w * sz = (if ao = sz then n * sz + ?A - sz else n * sz + ?A)"
    using al(1) by (simp add: worstCaseLength_def algebra_simps diff_mult_distrib)
  have p: "?A dvd p" "raw \<le> p" unfolding p_def using round_up [OF A] by auto
  have fits: "n * sz + (p - raw) \<le> ?w * sz"
  proof (cases "ao = sz")
    case True
    then have "p + sz \<le> raw + ?A" unfolding p_def
      using raw round_up_multiple [OF A, of sz raw] by (simp add: fresh_def)
    then show ?thesis using p(2) True w by simp
  next
    case False
    have "p \<le> raw + ?A - 1" unfolding p_def by (rule round_up(3) [OF A])
    then show ?thesis using w False p(2) A by simp
  qed
  have al_eq: "std_align ?A (n * sz) raw (?w * sz) = Some p"
    using fits by (simp add: std_align_def p_def Let_def)
  let ?b = "a\<lparr>mRawStorage := raw, mAlignedStorage := p, mArrayLength := n\<rparr>"
  have "array_allocate sz ao raw a n = Inr ?b"
    using raw p(2) by (simp add: array_allocate_def al_eq fresh_def)
  moreover have "array_inv sz ao ?b"
  proof -
    have "worstCaseLength sz ao ?b n = ?w" by (simp add: worstCaseLength_def)
    then show ?thesis using al raw p fits n by (auto simp: array_inv_def fresh_def)
  qed
  ultimately show ?thesis by simp
qed

lemma AlignedArray_empty_cases:
  assumes "al < 2 ^ 64"
  shows "AlignedArray_empty al =
    (if al = 0 \<or> (\<exists>k. al = 2 ^ k)
     then Inr \<lparr>mAlignment = max 1 al, mArrayLength = 0, mRawStorage = 0, mAlignedStorage = 0\<rparr>
     else Inl invalid_argument)"
proof (cases "al = 0")
  case True
  have "alignmentIsPowerOfTwo 1" by (simp add: alignmentIsPowerOfTwo_iff) (rule exI [of _ 0], simp)
  then show ?thesis using True by (simp add: AlignedArray_empty_def)
next
  case False
  have "unat (word_of_nat al :: size_t) = al" using assms by (simp add: unat_of_nat)
  then show ?thesis using False
    by (auto simp: AlignedArray_empty_def Let_def alignmentIsPowerOfTwo_iff max_def)
qed

lemma array_empty_inv:
  "2 ^ k * sz < 2 ^ 64 \<Longrightarrow>
   array_inv sz ao \<lparr>mAlignment = 2 ^ k, mArrayLength = 0, mRawStorage = 0, mAlignedStorage = 0\<rparr>"
  by (auto simp: array_inv_def)

lemma array_swap_inv:
  "array_inv sz ao a \<Longrightarrow> array_inv sz ao b \<Longrightarrow> array_swap a b = Inr (a', b') \<Longrightarrow>
   array_inv sz ao a' \<and> array_inv sz ao b' \<and> a' = b \<and> b' = a"
  by (cases a; cases b) (auto simp: array_swap_def split: if_splits)

lemma fresh_mono: "fresh ao raw b \<Longrightarrow> c \<le> b \<Longrightarrow> fresh ao raw c"
  by (auto simp: fresh_def)

lemma AlignedArray_inv:
  assumes "al = 0 \<or> (\<exists>k. al = 2 ^ k)" and "max 1 al * sz < 2 ^ 64" and "0 < sz" "ao dvd sz"
    and "0 < n \<Longrightarrow> fresh ao raw ((n + max 1 al) * sz)"
  shows "\<exists>a. AlignedArray sz ao raw n al = Inr a \<and> array_inv sz ao a \<and> mArrayLength a = n \<and>
    mAlignment a = max 1 al \<and> mRawStorage a = (if n = 0 then 0 else raw)"
proof -
  obtain k where k: "max 1 al = 2 ^ k"
  proof (cases "al = 0")
    case True
    then show ?thesis using that [of 0] by simp
  next
    case False
    then obtain j where "al = 2 ^ j" using assms(1) by blast
    then show ?thesis using that [of j] by (simp add: max_absorb2)
  qed
  have "max 1 al * 1 \<le> max 1 al * sz" using assms(3) by (intro mult_le_mono2) simp
  then have al: "al < 2 ^ 64" using assms(2) by linarith
  let ?e = "\<lparr>mAlignment = max 1 al, mArrayLength = 0, mRawStorage = 0, mAlignedStorage = 0\<rparr>"
  have e: "AlignedArray_empty al = Inr ?e" using AlignedArray_empty_cases [OF al] assms(1) by simp
  show ?thesis
  proof (cases "n = 0")
    case True
    have "AlignedArray sz ao raw n al = Inr ?e" using e True by (simp add: AlignedArray_def)
    moreover have "array_inv sz ao ?e" using array_empty_inv [of k sz ao] assms(2) k by simp
    ultimately show ?thesis using True by simp
  next
    case False
    have "worstCaseLength sz ao ?e n \<le> n + max 1 al" by (simp add: worstCaseLength_def)
    then have "worstCaseLength sz ao ?e n * sz \<le> (n + max 1 al) * sz" by (rule mult_le_mono1)
    then have f: "fresh ao raw (worstCaseLength sz ao ?e n * sz)"
      using False fresh_mono [OF assms(5)] by simp
    have "\<exists>b. array_allocate sz ao raw ?e n = Inr b \<and> array_inv sz ao b \<and>
      mArrayLength b = n \<and> mAlignment b = mAlignment ?e \<and> mRawStorage b = raw"
      by (rule array_allocate_inv [OF _ _ assms(3,4) f]) (use k assms(2) False in simp_all)
    then show ?thesis using e False by (auto simp: AlignedArray_def)
  qed
qed

section \<open>The elements of a vector\<close>

definition array_cells :: "nat \<Rightarrow> aligned_array \<Rightarrow> nat set" where
  "array_cells sz a = elem sz (mAlignedStorage a) ` {..<mArrayLength a}"

definition same_outside :: "nat set \<Rightarrow> 'a memory \<Rightarrow> 'a memory \<Rightarrow> bool" where
  "same_outside A m m' \<longleftrightarrow> (\<forall>a. a \<notin> A \<longrightarrow> m' a = m a)"

lemma same_outside_mono: "same_outside A m m' \<Longrightarrow> A \<subseteq> B \<Longrightarrow> same_outside B m m'"
  by (auto simp: same_outside_def)

lemma same_outside_elements:
  "same_outside A m m' \<Longrightarrow> array_cells sz v \<inter> A = {} \<Longrightarrow> vector_elements sz m' v = vector_elements sz m v"
proof -
  assume A: "same_outside A m m'" "array_cells sz v \<inter> A = {}"
  have "m' (elem sz (mAlignedStorage v) i) = m (elem sz (mAlignedStorage v) i)" if "i < mArrayLength v" for i
  proof -
    have "elem sz (mAlignedStorage v) i \<in> array_cells sz v" using that unfolding array_cells_def by (intro imageI) simp
    then show ?thesis using A unfolding same_outside_def by blast
  qed
  then show ?thesis by (simp add: vector_elements_def)
qed

lemma stored_vector:
  assumes "stored (mArrayLength v) (elem sz (mAlignedStorage v)) g m m'"
  shows "vector_elements sz m' v = map g [0..<mArrayLength v]" "same_outside (array_cells sz v) m m'"
  using assms by (auto simp: stored_def vector_elements_def same_outside_def array_cells_def)

lemma outcome_unaligned:
  "outcome sz 0 ptrs n dest g m r \<Longrightarrow> fst r = noError \<and> stored n dest g m (snd r)"
  by (simp add: outcome_def)

lemma vector_fill_spec:
  assumes "0 < sz"
  shows "\<exists>m'. vector_fillValue sz c v m = Inr m' \<and> vector_elements sz m' v = replicate (mArrayLength v) c \<and>
    same_outside (array_cells sz v) m m'"
proof -
  let ?r = "vectorFill sz c (mAlignedStorage v) (mArrayLength v) 0 m"
  have "outcome sz 0 [mAlignedStorage v] (mArrayLength v) (elem sz (mAlignedStorage v)) (\<lambda>i. c) m ?r"
    unfolding vectorFill_def by (rule checked_for_each [OF inj_elem [OF assms]]) simp
  then have o: "fst ?r = noError" "stored (mArrayLength v) (elem sz (mAlignedStorage v)) (\<lambda>i. c) m (snd ?r)"
    by (auto dest: outcome_unaligned)
  then have "vector_fillValue sz c v m = Inr (snd ?r)" by (auto simp: vector_fillValue_def split_beta)
  then show ?thesis using stored_vector [OF o(2)] by (simp add: map_replicate_trivial)
qed

lemma vectorZero_fill: "vectorZero sz d n al m = vectorFill sz 0 d n al m"
  by (simp add: vectorZero_def vectorFill_def)

lemma vector_zero_fill: "vector_zeroFill sz v m = vector_fillValue sz 0 v m"
  by (simp add: vector_zeroFill_def vector_fillValue_def vectorZero_fill)

lemma array_inv_aligned:
  assumes "sz = 2 ^ l" "array_inv sz ao v" "a \<le> mAlignment v" "a = 2 ^ j"
  shows "checkAlignment sz (mAlignedStorage v) a"
proof -
  obtain k where k: "mAlignment v = 2 ^ k" "2 ^ k * sz < 2 ^ 64" using assms(2) by (auto simp: array_inv_def)
  have "j \<le> k" using assms(3,4) k(1) by (metis power_le_imp_le_exp one_less_numeral_iff semiring_norm(76))
  have "(2::nat) ^ (k + l) < 2 ^ 64" using k(2) assms(1) by (simp add: power_add)
  then have "k + l < 64" by (rule power_less_imp_less_exp [rotated]) simp
  have dvd: "a * sz dvd mAlignedStorage v"
  proof (cases "mArrayLength v = 0")
    case True
    then show ?thesis using assms(2) by (simp add: array_inv_def)
  next
    case False
    have "a * sz dvd mAlignment v * sz" using k(1) assms(4) \<open>j \<le> k\<close> by (simp add: le_imp_power_dvd mult_dvd_mono)
    also have "\<dots> dvd mAlignedStorage v" using False assms(2) by (simp add: array_inv_def)
    finally show ?thesis .
  qed
  have "mAlignedStorage v < 2 ^ 64"
    using assms(2) by (cases "mArrayLength v = 0") (auto simp: array_inv_def)
  then show ?thesis
    using checkAlignment_iff [OF assms(1,4)] dvd \<open>j \<le> k\<close> \<open>k + l < 64\<close> by auto
qed

lemma array_min_alignment:
  assumes "sz = 2 ^ l" "array_inv sz ao v" "array_inv sz ao w"
  shows "checkAlignment sz (mAlignedStorage v) (min (mAlignment v) (mAlignment w))"
    "checkAlignment sz (mAlignedStorage w) (min (mAlignment v) (mAlignment w))"
proof -
  obtain k k' where k: "mAlignment v = 2 ^ k" "mAlignment w = 2 ^ k'"
    using assms(2,3) by (auto simp: array_inv_def)
  obtain j where j: "min (mAlignment v) (mAlignment w) = 2 ^ j"
  proof (cases "mAlignment v \<le> mAlignment w")
    case True
    then show ?thesis using that [of k] k by (simp add: min_absorb1)
  next
    case False
    then show ?thesis using that [of k'] k by (simp add: min_absorb2)
  qed
  show "checkAlignment sz (mAlignedStorage v) (min (mAlignment v) (mAlignment w))"
    by (rule array_inv_aligned [OF assms(1,2) _ j]) simp
  show "checkAlignment sz (mAlignedStorage w) (min (mAlignment v) (mAlignment w))"
    by (rule array_inv_aligned [OF assms(1,3) _ j]) simp
qed

lemma vector_copy_spec:
  assumes sz: "sz = 2 ^ l" and inv: "array_inv sz ao v" "array_inv sz ao w"
    and disjoint_blocks: "array_cells sz v \<inter> array_cells sz w = {}"
  shows "if mArrayLength v \<noteq> mArrayLength w then vector_copy sz v w m = Inl invalid_argument
    else \<exists>m'. vector_copy sz v w m = Inr m' \<and> vector_elements sz m' v = vector_elements sz m w \<and>
      same_outside (array_cells sz v) m m'"
proof (cases "mArrayLength v = mArrayLength w")
  case True
  let ?al = "min (mAlignment v) (mAlignment w)" and ?n = "mArrayLength v"
  let ?r = "vectorCopy sz (mAlignedStorage w) (mAlignedStorage v) ?n ?al m"
  let ?g = "\<lambda>i. m (elem sz (mAlignedStorage w) i)"
  have "safe ?n (elem sz (mAlignedStorage w)) (elem sz (mAlignedStorage v))"
    by (rule safe_disjoint) (use disjoint_blocks True in \<open>auto simp: array_cells_def\<close>)
  then have "outcome sz ?al [mAlignedStorage w, mAlignedStorage v] ?n (elem sz (mAlignedStorage v)) ?g m ?r"
    using sz by (intro vectorCopy_outcome) auto
  then have o: "fst ?r = noError" "stored ?n (elem sz (mAlignedStorage v)) ?g m (snd ?r)"
    using array_min_alignment [OF sz inv] by (auto simp: outcome_def)
  then have "vector_copy sz v w m = Inr (snd ?r)" using True by (auto simp: vector_copy_def Let_def split_beta)
  moreover have "vector_elements sz m w = map ?g [0..<?n]" using True by (simp add: vector_elements_def)
  ultimately show ?thesis using stored_vector [OF o(2)] True by simp
qed (simp add: vector_copy_def)

lemma BasicVector_spec:
  assumes "al = 0 \<or> (\<exists>k. al = 2 ^ k)" "max 1 al * sz < 2 ^ 64" "0 < sz" "ao dvd sz"
    "0 < n \<Longrightarrow> fresh ao raw ((n + max 1 al) * sz)"
  shows "\<exists>v m'. BasicVector sz ao raw n al m = Inr (v, m') \<and> array_inv sz ao v \<and>
    mAlignment v = max 1 al \<and> mRawStorage v = (if n = 0 then 0 else raw) \<and>
    vector_elements sz m' v = replicate n 0 \<and> same_outside (array_cells sz v) m m'"
proof -
  obtain v where v: "AlignedArray sz ao raw n al = Inr v" "array_inv sz ao v" "mArrayLength v = n"
    "mAlignment v = max 1 al" "mRawStorage v = (if n = 0 then 0 else raw)"
    using AlignedArray_inv [OF assms] by blast
  obtain m' where "vector_fillValue sz 0 v m = Inr m'" "vector_elements sz m' v = replicate n 0"
    "same_outside (array_cells sz v) m m'"
    using vector_fill_spec [OF assms(3), of 0 v m] v(3) by auto
  then show ?thesis using v by (auto simp: BasicVector_def vector_zero_fill)
qed

lemma vector_resize_ctor:
  assumes "array_inv sz ao v" "0 < sz"
  shows "vector_resize sz ao raw v n m = BasicVector sz ao raw n (mAlignment v) m"
proof (cases "AlignedArray sz ao raw n (mAlignment v)")
  case (Inr w)
  have pos: "0 < mAlignment v" using assms(1) by (auto simp: array_inv_def)
  then have "mAlignment w = mAlignment v" "mArrayLength w = n"
    using Inr by (auto simp: AlignedArray_def AlignedArray_empty_def array_allocate_def Let_def
        split: if_splits option.splits)
  then show ?thesis using Inr
    by (cases v; cases w) (auto simp: vector_resize_def BasicVector_def vector_zeroFill_def array_swap_def split_beta)
qed (simp add: vector_resize_def BasicVector_def)

text \<open>The bytes of the block that an array got from the allocator.\<close>

definition raw_block :: "nat \<Rightarrow> nat \<Rightarrow> nat set" where
  "raw_block raw bytes = {raw..<raw + bytes}"

lemma cells_raw_block:
  assumes "array_inv sz ao v" "0 < sz" "mArrayLength v + mAlignment v \<le> n"
  shows "array_cells sz v \<subseteq> raw_block (mRawStorage v) (n * sz)"
proof
  fix a assume "a \<in> array_cells sz v"
  then obtain i where i: "i < mArrayLength v" "a = elem sz (mAlignedStorage v) i" by (auto simp: array_cells_def)
  have inv: "mRawStorage v \<le> mAlignedStorage v"
    "mAlignedStorage v + mArrayLength v * sz \<le> mRawStorage v + worstCaseLength sz ao v (mArrayLength v) * sz"
    using assms(1) i(1) by (auto simp: array_inv_def)
  have "worstCaseLength sz ao v (mArrayLength v) \<le> n" using assms(3) by (auto simp: worstCaseLength_def)
  then have w: "worstCaseLength sz ao v (mArrayLength v) * sz \<le> n * sz" by (rule mult_le_mono1)
  have "i * sz < mArrayLength v * sz" using i(1) assms(2) by simp
  then have "a < mRawStorage v + n * sz" using i(2) inv(2) w by linarith
  moreover have "mRawStorage v \<le> a" using i(2) inv(1) by simp
  ultimately show "a \<in> raw_block (mRawStorage v) (n * sz)" by (simp add: raw_block_def)
qed

lemma vector_resize_spec:
  assumes "array_inv sz ao v" "0 < sz" "ao dvd sz" "0 < n \<Longrightarrow> fresh ao raw ((n + mAlignment v) * sz)"
  shows "\<exists>v' m'. vector_resize sz ao raw v n m = Inr (v', m') \<and> array_inv sz ao v' \<and>
    mAlignment v' = mAlignment v \<and> vector_elements sz m' v' = replicate n 0 \<and>
    array_cells sz v' \<subseteq> raw_block raw ((n + mAlignment v) * sz) \<and>
    same_outside (raw_block raw ((n + mAlignment v) * sz)) m m'"
proof -
  obtain k where k: "mAlignment v = 2 ^ k" "2 ^ k * sz < 2 ^ 64" using assms(1) by (auto simp: array_inv_def)
  have mx: "max 1 (mAlignment v) = mAlignment v" using k by simp
  obtain v' m' where v': "BasicVector sz ao raw n (mAlignment v) m = Inr (v', m')" "array_inv sz ao v'"
    "mAlignment v' = mAlignment v" "mRawStorage v' = (if n = 0 then 0 else raw)"
    "vector_elements sz m' v' = replicate n 0" "same_outside (array_cells sz v') m m'"
    using BasicVector_spec [of "mAlignment v" sz ao n raw m] assms k mx by auto
  have len: "mArrayLength v' = n" using v'(5) by (metis length_map length_replicate length_upt diff_zero vector_elements_def)
  have "array_cells sz v' \<subseteq> raw_block raw ((n + mAlignment v) * sz)"
  proof (cases "n = 0")
    case True
    then show ?thesis using len by (simp add: array_cells_def)
  next
    case False
    then show ?thesis using cells_raw_block [OF v'(2) assms(2), of "n + mAlignment v"] v'(3,4) len by simp
  qed
  then have "array_cells sz v' \<subseteq> raw_block raw ((n + mAlignment v) * sz) \<and>
    same_outside (raw_block raw ((n + mAlignment v) * sz)) m m'"
    using same_outside_mono [OF v'(6)] by blast
  then show ?thesis using v'(1-3,5) unfolding vector_resize_ctor [OF assms(1,2)] by blast
qed

lemma vector_assign_spec:
  fixes m :: "'a::zero memory"
  assumes sz: "sz = 2 ^ l" and ao: "ao dvd sz" and inv: "array_inv sz ao v" "array_inv sz ao w"
    and disjoint_blocks: "array_cells sz v \<inter> array_cells sz w = {}"
    and fresh: "0 < mArrayLength w \<Longrightarrow> fresh ao raw ((mArrayLength w + mAlignment v) * sz)"
    and raw: "raw_block raw ((mArrayLength w + mAlignment v) * sz) \<inter> array_cells sz w = {}"
  shows "\<exists>v' m'. vector_assign sz ao raw v w m = Inr (v', m') \<and> array_inv sz ao v' \<and>
    mAlignment v' = mAlignment v \<and> vector_elements sz m' v' = vector_elements sz m w \<and>
    vector_elements sz m' w = vector_elements sz m w"
proof -
  have pos: "0 < sz" using sz by simp
  define step where "step = (if mArrayLength w \<noteq> mArrayLength v
    then vector_resize sz ao raw v (mArrayLength w) m else Inr (v, m))"
  have "\<exists>v' m'. step = Inr (v', m') \<and> array_inv sz ao v' \<and> mAlignment v' = mAlignment v \<and>
    mArrayLength v' = mArrayLength w \<and> array_cells sz v' \<inter> array_cells sz w = {} \<and>
    vector_elements sz m' w = vector_elements sz m w"
  proof (cases "mArrayLength w = mArrayLength v")
    case True
    then show ?thesis using inv disjoint_blocks by (simp add: step_def)
  next
    case False
    obtain v' m' where r: "vector_resize sz ao raw v (mArrayLength w) m = Inr (v', m')" "array_inv sz ao v'"
      "mAlignment v' = mAlignment v" "vector_elements sz m' v' = replicate (mArrayLength w) 0"
      "array_cells sz v' \<subseteq> raw_block raw ((mArrayLength w + mAlignment v) * sz)"
      "same_outside (raw_block raw ((mArrayLength w + mAlignment v) * sz)) m m'"
      using vector_resize_spec [OF inv(1) pos ao fresh] by blast
    have "mArrayLength v' = mArrayLength w"
      using r(4) by (metis length_map length_replicate length_upt diff_zero vector_elements_def)
    moreover have "array_cells sz v' \<inter> array_cells sz w = {}" using r(5) raw by blast
    moreover have "vector_elements sz m' w = vector_elements sz m w"
      using same_outside_elements [OF r(6)] raw by (simp add: Int_commute)
    ultimately show ?thesis using r False by (simp add: step_def)
  qed
  then obtain v' m' where s: "step = Inr (v', m')" "array_inv sz ao v'" "mAlignment v' = mAlignment v"
    "mArrayLength v' = mArrayLength w" "array_cells sz v' \<inter> array_cells sz w = {}"
    "vector_elements sz m' w = vector_elements sz m w" by blast
  obtain m2 where c: "vector_copy sz v' w m' = Inr m2" "vector_elements sz m2 v' = vector_elements sz m' w"
    "same_outside (array_cells sz v') m' m2"
    using vector_copy_spec [OF sz s(2) inv(2) s(5), of m'] s(4) by auto
  have "vector_elements sz m2 w = vector_elements sz m' w"
    using same_outside_elements [OF c(3)] s(5) by (simp add: Int_commute)
  then show ?thesis using s c unfolding vector_assign_def step_def [symmetric] by simp
qed

text \<open>
  C40 (vector_storage_spec): the storage of a vector. Resizing obtains aligned storage inside the
  new allocation, with the vector's alignment, filled with zeros, and touches nothing outside the
  allocation; copying from a vector of another size is an error that changes nothing, copying from
  one of the same size, of whatever alignment, makes the elements equal; assignment always makes
  the elements and the size equal and leaves the source as it is; element access is checked.
\<close>

theorem vector_storage_spec:
  fixes m :: "'a::zero memory"
  assumes "sz = 2 ^ l" and "ao dvd sz" and "array_inv sz ao v" and "array_inv sz ao w"
    and "array_cells sz v \<inter> array_cells sz w = {}"
    and "fresh ao raw ((max n (mArrayLength w) + mAlignment v) * sz)"
    and "raw_block raw ((max n (mArrayLength w) + mAlignment v) * sz) \<inter> array_cells sz w = {}"
  shows "(\<exists>v' m'. vector_resize sz ao raw v n m = Inr (v', m') \<and> array_inv sz ao v' \<and>
      mAlignment v' = mAlignment v \<and> vector_elements sz m' v' = replicate n 0 \<and>
      checkAlignment sz (mAlignedStorage v') (mAlignment v) \<and>
      array_cells sz v' \<subseteq> raw_block raw ((n + mAlignment v) * sz) \<and>
      same_outside (raw_block raw ((n + mAlignment v) * sz)) m m') \<and>
    (if mArrayLength v \<noteq> mArrayLength w then vector_copy sz v w m = Inl invalid_argument
     else \<exists>m'. vector_copy sz v w m = Inr m' \<and> vector_elements sz m' v = vector_elements sz m w \<and>
       same_outside (array_cells sz v) m m') \<and>
    (\<exists>v' m'. vector_assign sz ao raw v w m = Inr (v', m') \<and> array_inv sz ao v' \<and>
      mAlignment v' = mAlignment v \<and> vector_elements sz m' v' = vector_elements sz m w \<and>
      vector_elements sz m' w = vector_elements sz m w) \<and>
    array_at sz v i = (if i < mArrayLength v then Inr (elem sz (mAlignedStorage v) i) else Inl out_of_range)"
proof (intro conjI)
  have pos: "0 < sz" using assms(1) by simp
  have f: "fresh ao raw ((k + mAlignment v) * sz)" if "k \<le> max n (mArrayLength w)" for k
    by (rule fresh_mono [OF assms(6)]) (use that in \<open>intro mult_le_mono1, simp\<close>)
  have b: "raw_block raw ((mArrayLength w + mAlignment v) * sz)
      \<subseteq> raw_block raw ((max n (mArrayLength w) + mAlignment v) * sz)"
    by (simp add: raw_block_def)
  obtain v' m' where r: "vector_resize sz ao raw v n m = Inr (v', m')" "array_inv sz ao v'"
    "mAlignment v' = mAlignment v" "vector_elements sz m' v' = replicate n 0"
    "array_cells sz v' \<subseteq> raw_block raw ((n + mAlignment v) * sz)"
    "same_outside (raw_block raw ((n + mAlignment v) * sz)) m m'"
    using vector_resize_spec [OF assms(3) pos assms(2) f [OF max.cobounded1], of m] by blast
  obtain k where k: "mAlignment v' = 2 ^ k" using r(2) by (auto simp: array_inv_def)
  have "checkAlignment sz (mAlignedStorage v') (mAlignment v)"
    using array_inv_aligned [OF assms(1) r(2) order_refl k] r(3) by simp
  then show "\<exists>v' m'. vector_resize sz ao raw v n m = Inr (v', m') \<and> array_inv sz ao v' \<and>
      mAlignment v' = mAlignment v \<and> vector_elements sz m' v' = replicate n 0 \<and>
      checkAlignment sz (mAlignedStorage v') (mAlignment v) \<and>
      array_cells sz v' \<subseteq> raw_block raw ((n + mAlignment v) * sz) \<and>
      same_outside (raw_block raw ((n + mAlignment v) * sz)) m m'" using r by blast
  show "if mArrayLength v \<noteq> mArrayLength w then vector_copy sz v w m = Inl invalid_argument
     else \<exists>m'. vector_copy sz v w m = Inr m' \<and> vector_elements sz m' v = vector_elements sz m w \<and>
       same_outside (array_cells sz v) m m'"
    by (rule vector_copy_spec [OF assms(1,3,4,5)])
  show "\<exists>v' m'. vector_assign sz ao raw v w m = Inr (v', m') \<and> array_inv sz ao v' \<and>
      mAlignment v' = mAlignment v \<and> vector_elements sz m' v' = vector_elements sz m w \<and>
      vector_elements sz m' w = vector_elements sz m w"
    by (rule vector_assign_spec [OF assms(1-5) f]) (use b assms(7) in auto)
  show "array_at sz v i = (if i < mArrayLength v then Inr (elem sz (mAlignedStorage v) i) else Inl out_of_range)"
    by (simp add: array_at_def)
qed

text \<open>A vector of two floats at 128 and one of three floats at 64; the allocator returns 1004.\<close>

theorem vector_storage_spec_witness:
  "\<exists>v' m'. vector_assign 4 4 1004
      \<lparr>mAlignment = 4, mArrayLength = 2, mRawStorage = 120, mAlignedStorage = 128\<rparr>
      \<lparr>mAlignment = 1, mArrayLength = 3, mRawStorage = 64, mAlignedStorage = 64\<rparr> int = Inr (v', m') \<and>
    vector_elements 4 m' v' = [64, 68, 72]"
proof -
  let ?v = "\<lparr>mAlignment = 4, mArrayLength = 2, mRawStorage = 120, mAlignedStorage = 128\<rparr>"
  let ?w = "\<lparr>mAlignment = 1, mArrayLength = 3, mRawStorage = 64, mAlignedStorage = 64\<rparr>"
  have e: "(4::nat) = 2 ^ 2" "(1::nat) = 2 ^ 0" by simp_all
  have pow: "\<exists>k. 4 = (2::nat) ^ k \<and> (2::nat) ^ k * 4 < 2 ^ 64" "\<exists>k. 1 = (2::nat) ^ k \<and> (2::nat) ^ k * 4 < 2 ^ 64"
    by (rule exI [of _ 2], simp) (rule exI [of _ 0], simp)
  have v: "array_inv 4 4 ?v" using pow(1) by (simp add: array_inv_def worstCaseLength_def)
  have w: "array_inv 4 4 ?w" using pow(2) by (simp add: array_inv_def worstCaseLength_def)
  have cv: "array_cells 4 ?v = {128, 132}" and cw: "array_cells 4 ?w = {64, 68, 72}"
    by (simp_all add: array_cells_def numeral_2_eq_2 numeral_3_eq_3 lessThan_Suc insert_commute)
  have d: "array_cells 4 ?v \<inter> array_cells 4 ?w = {}" unfolding cv cw by simp
  have f: "fresh 4 1004 ((max 3 (mArrayLength ?w) + mAlignment ?v) * 4)" by (simp add: fresh_def)
  have r: "raw_block 1004 ((max 3 (mArrayLength ?w) + mAlignment ?v) * 4) \<inter> array_cells 4 ?w = {}"
    unfolding cw by (simp add: raw_block_def)
  have "vector_elements 4 int ?w = [64, 68, 72]" by (simp add: vector_elements_def upt_rec)
  then show ?thesis
    using vector_storage_spec [OF e(1) dvd_refl v w d f r, of int 0] unfolding \<open>vector_elements 4 int ?w = [64, 68, 72]\<close> by blast
qed

end
