(* ===== verification/Basic_Matrix.thy ===== *)
theory Basic_Matrix
  imports Aligned_Storage
begin

text \<open>
  \<open>BasicMatrix\<close> (\<open>src/libefl/basic_matrix.hpp\<close>): a matrix stored by rows in one aligned array,
  each row padded to the alignment. The elements are in the memory, as for vectors.
\<close>

record basic_matrix =
  mStride :: nat
  mNumberOfRows :: nat
  mNumberOfColumns :: nat
  mData :: aligned_array

definition matrix_row :: "nat \<Rightarrow> basic_matrix \<Rightarrow> nat \<Rightarrow> nat" where
  "matrix_row sz M rowIdx = elem sz (mAlignedStorage (mData M)) (rowIdx * mStride M)"

definition matrix_element :: "nat \<Rightarrow> basic_matrix \<Rightarrow> nat \<Rightarrow> nat \<Rightarrow> nat" where
  "matrix_element sz M rowIdx colIdx = elem sz (mAlignedStorage (mData M)) (rowIdx * mStride M + colIdx)"

definition matrix_at :: "nat \<Rightarrow> basic_matrix \<Rightarrow> nat \<Rightarrow> nat \<Rightarrow> exn + nat" where
  "matrix_at sz M rowIdx colIdx =
     (if mNumberOfRows M \<le> rowIdx \<or> mNumberOfColumns M \<le> colIdx then Inl out_of_range
      else Inr (matrix_element sz M rowIdx colIdx))"

definition matrix_zeroFill :: "nat \<Rightarrow> basic_matrix \<Rightarrow> 'a::zero memory \<Rightarrow> exn + 'a memory" where
  "matrix_zeroFill sz M m =
     (case vectorZero sz (mAlignedStorage (mData M)) (mStride M * mNumberOfRows M) 0 m of
        (res, m') \<Rightarrow> if res \<noteq> noError then Inl runtime_error else Inr m')"

definition matrix_fillValue :: "nat \<Rightarrow> 'a \<Rightarrow> basic_matrix \<Rightarrow> 'a memory \<Rightarrow> exn + 'a memory" where
  "matrix_fillValue sz val M m =
     (case vectorFill sz val (mAlignedStorage (mData M)) (mStride M * mNumberOfRows M) 0 m of
        (res, m') \<Rightarrow> if res \<noteq> noError then Inl runtime_error else Inr m')"

definition BasicMatrix_empty :: "nat \<Rightarrow> exn + basic_matrix" where
  "BasicMatrix_empty alignmentElements =
     bindE (AlignedArray_empty alignmentElements) (\<lambda>a.
       Inr \<lparr>mStride = 0, mNumberOfRows = 0, mNumberOfColumns = 0, mData = a\<rparr>)"

definition BasicMatrix ::
  "nat \<Rightarrow> nat \<Rightarrow> nat \<Rightarrow> nat \<Rightarrow> nat \<Rightarrow> nat \<Rightarrow> 'a::zero memory \<Rightarrow> exn + basic_matrix \<times> 'a memory" where
  "BasicMatrix sz ao raw numberOfRows numberOfColumns alignmentElements m =
     (let stride = nextAlignedSize numberOfColumns alignmentElements
      in bindE (AlignedArray sz ao raw (stride * numberOfRows) alignmentElements) (\<lambda>a.
         let M = \<lparr>mStride = stride, mNumberOfRows = numberOfRows, mNumberOfColumns = numberOfColumns,
                  mData = a\<rparr>
         in bindE (matrix_zeroFill sz M m) (\<lambda>m. Inr (M, m))))"

text \<open>\<open>std::copy\<close> of one row of the initialiser list.\<close>

definition copy_row :: "nat \<Rightarrow> basic_matrix \<Rightarrow> nat \<Rightarrow> 'a list \<Rightarrow> 'a memory \<Rightarrow> 'a memory" where
  "copy_row sz M rowIdx vs m = for_each (length vs) (elem sz (matrix_row sz M rowIdx)) (\<lambda>i m. vs ! i) m"

fun copy_rows :: "nat \<Rightarrow> basic_matrix \<Rightarrow> nat \<Rightarrow> 'a list list \<Rightarrow> 'a memory \<Rightarrow> exn + 'a memory" where
  "copy_rows sz M rowIdx [] m = Inr m"
| "copy_rows sz M rowIdx (colInitialiser # rows) m =
     (if length colInitialiser \<noteq> mNumberOfColumns M then Inl invalid_argument
      else copy_rows sz M (Suc rowIdx) rows (copy_row sz M rowIdx colInitialiser m))"

definition BasicMatrix_list ::
  "nat \<Rightarrow> nat \<Rightarrow> nat \<Rightarrow> nat \<Rightarrow> nat \<Rightarrow> 'a list list \<Rightarrow> nat \<Rightarrow> 'a memory \<Rightarrow> exn + basic_matrix \<times> 'a memory" where
  "BasicMatrix_list sz ao raw numberOfRows numberOfColumns initialValues alignmentElements m =
     (let stride = nextAlignedSize numberOfColumns alignmentElements
      in bindE (AlignedArray sz ao raw (stride * numberOfRows) alignmentElements) (\<lambda>a.
         let M = \<lparr>mStride = stride, mNumberOfRows = numberOfRows, mNumberOfColumns = numberOfColumns,
                  mData = a\<rparr>
         in if length initialValues \<noteq> numberOfRows then Inl invalid_argument
            else bindE (copy_rows sz M 0 initialValues m) (\<lambda>m. Inr (M, m))))"

definition matrix_resize ::
  "nat \<Rightarrow> nat \<Rightarrow> nat \<Rightarrow> basic_matrix \<Rightarrow> nat \<Rightarrow> nat \<Rightarrow> 'a::zero memory \<Rightarrow> exn + basic_matrix \<times> 'a memory" where
  "matrix_resize sz ao raw M newNumberOfRows newNumberOfColumns m =
     (let newStride = nextAlignedSize newNumberOfColumns (mAlignment (mData M))
      in bindE (AlignedArray sz ao raw (newStride * newNumberOfRows) (mAlignment (mData M))) (\<lambda>newData.
           (case vectorZero sz (mAlignedStorage newData) (newStride * newNumberOfRows) 0 m of
              (res, m') \<Rightarrow>
                if res \<noteq> noError then Inl runtime_error
                else bindE (array_swap (mData M) newData) (\<lambda>(d, _).
                  Inr (\<lparr>mStride = newStride, mNumberOfRows = newNumberOfRows,
                        mNumberOfColumns = newNumberOfColumns, mData = d\<rparr>, m')))))"

definition matrix_swap :: "basic_matrix \<Rightarrow> basic_matrix \<Rightarrow> exn + basic_matrix \<times> basic_matrix" where
  "matrix_swap M rhs =
     (if mNumberOfRows M \<noteq> mNumberOfRows rhs \<or> mNumberOfColumns M \<noteq> mNumberOfColumns rhs \<or>
         mStride M \<noteq> mStride rhs \<or> mAlignment (mData M) \<noteq> mAlignment (mData rhs)
      then Inl logic_error
      else bindE (array_swap (mData M) (mData rhs)) (\<lambda>(d, d'). Inr (M\<lparr>mData := d\<rparr>, rhs\<lparr>mData := d'\<rparr>)))"

definition copy_step :: "nat \<Rightarrow> basic_matrix \<Rightarrow> basic_matrix \<Rightarrow> nat \<Rightarrow> 'a memory \<Rightarrow> nat \<Rightarrow> exn + 'a memory" where
  "copy_step sz M rhs minAlignment m rowIdx =
     (case vectorCopy sz (matrix_row sz rhs rowIdx) (matrix_row sz M rowIdx) (mNumberOfColumns M) minAlignment m of
        (res, m') \<Rightarrow> if res \<noteq> noError then Inl runtime_error else Inr m')"

definition matrix_copy :: "nat \<Rightarrow> basic_matrix \<Rightarrow> basic_matrix \<Rightarrow> 'a memory \<Rightarrow> exn + 'a memory" where
  "matrix_copy sz M rhs m =
     (let minAlignment = min (mAlignment (mData M)) (mAlignment (mData rhs))
      in if mNumberOfRows M \<noteq> mNumberOfRows rhs \<or> mNumberOfColumns M \<noteq> mNumberOfColumns rhs
         then Inl invalid_argument
         else if mStride rhs = mStride M
         then (case vectorCopy sz (mAlignedStorage (mData rhs)) (mAlignedStorage (mData M))
                      (mNumberOfRows M * mStride M) minAlignment m of
                 (res, m') \<Rightarrow> if res \<noteq> noError then Inl runtime_error else Inr m')
         else foldE (copy_step sz M rhs minAlignment) m [0..<mNumberOfRows M])"

definition matrix_setRow :: "nat \<Rightarrow> basic_matrix \<Rightarrow> nat \<Rightarrow> nat \<Rightarrow> 'a memory \<Rightarrow> 'a memory" where
  "matrix_setRow sz M rowIdx values m = snd (vectorCopy sz values (matrix_row sz M rowIdx) (mNumberOfColumns M) 0 m)"

definition matrix_setColumn :: "nat \<Rightarrow> basic_matrix \<Rightarrow> nat \<Rightarrow> nat \<Rightarrow> 'a memory \<Rightarrow> 'a memory" where
  "matrix_setColumn sz M colIdx values m =
     for_each (mNumberOfRows M) (\<lambda>rowIdx. matrix_element sz M rowIdx colIdx) (\<lambda>rowIdx m. m (elem sz values rowIdx)) m"

section \<open>The layout of a matrix\<close>

definition matrix_inv :: "nat \<Rightarrow> nat \<Rightarrow> basic_matrix \<Rightarrow> bool" where
  "matrix_inv sz ao M \<longleftrightarrow>
     array_inv sz ao (mData M) \<and>
     mStride M = nextAlignedSize (mNumberOfColumns M) (mAlignment (mData M)) \<and>
     mArrayLength (mData M) = mStride M * mNumberOfRows M"

lemma matrix_columns: "matrix_inv sz ao M \<Longrightarrow> mNumberOfColumns M \<le> mStride M"
  by (simp add: matrix_inv_def nextAlignedSize_props)

text \<open>The contents: the values of the elements, without the padding.\<close>

definition matrix_values :: "nat \<Rightarrow> 'a memory \<Rightarrow> basic_matrix \<Rightarrow> 'a list list" where
  "matrix_values sz m M =
     map (\<lambda>i. map (\<lambda>j. m (matrix_element sz M i j)) [0..<mNumberOfColumns M]) [0..<mNumberOfRows M]"

lemma matrix_values_cong:
  assumes "mNumberOfRows M = mNumberOfRows M'" "mNumberOfColumns M = mNumberOfColumns M'"
    "\<And>i j. i < mNumberOfRows M \<Longrightarrow> j < mNumberOfColumns M \<Longrightarrow>
      m (matrix_element sz M i j) = m' (matrix_element sz M' i j)"
  shows "matrix_values sz m M = matrix_values sz m' M'"
  using assms by (auto simp: matrix_values_def)

lemma matrix_row_element: "elem sz (matrix_row sz M i) j = matrix_element sz M i j"
  by (simp add: matrix_row_def matrix_element_def algebra_simps)

lemma index_in_rows:
  fixes i j s r c :: nat
  assumes "i < r" "j < c" "c \<le> s"
  shows "i * s + j < s * r"
proof -
  have "i * s + j < i * s + s" using assms by simp
  also have "\<dots> = s * Suc i" by simp
  also have "\<dots> \<le> s * r" using assms(1) by (intro mult_le_mono2) simp
  finally show ?thesis .
qed

lemma element_in_cells:
  assumes "matrix_inv sz ao M" "i < mNumberOfRows M" "j < mNumberOfColumns M"
  shows "matrix_element sz M i j \<in> array_cells sz (mData M)"
proof -
  have "i * mStride M + j < mStride M * mNumberOfRows M"
    by (rule index_in_rows [OF assms(2,3) matrix_columns [OF assms(1)]])
  then show ?thesis using assms(1) by (auto simp: array_cells_def matrix_element_def matrix_inv_def)
qed

lemma row_index_inj:
  fixes i j i' j' s :: nat
  assumes "j < s" "j' < s" "i * s + j = i' * s + j'"
  shows "i = i' \<and> j = j'"
proof -
  have "(i * s + j) div s = i" "(i' * s + j') div s = i'" using assms(1,2) by (simp_all add: div_add1_eq)
  then show ?thesis using assms(3) by (metis add_left_imp_eq)
qed

lemma element_inj:
  assumes "matrix_inv sz ao M" "0 < sz" "j < mNumberOfColumns M" "j' < mNumberOfColumns M"
    "matrix_element sz M i j = matrix_element sz M i' j'"
  shows "i = i' \<and> j = j'"
proof (rule row_index_inj)
  show "j < mStride M" "j' < mStride M" using assms(3,4) matrix_columns [OF assms(1)] by simp_all
  show "i * mStride M + j = i' * mStride M + j'" using assms(2,5) by (simp add: matrix_element_def)
qed

text \<open>Every row is aligned as the whole matrix.\<close>

lemma row_aligned:
  assumes "sz = 2 ^ l" "matrix_inv sz ao M" "a \<le> mAlignment (mData M)" "a = 2 ^ j" "i < mNumberOfRows M"
  shows "checkAlignment sz (matrix_row sz M i) a"
proof -
  let ?A = "mData M"
  have arr: "array_inv sz ao ?A" using assms(2) by (simp add: matrix_inv_def)
  obtain k where k: "mAlignment ?A = 2 ^ k" "2 ^ k * sz < 2 ^ 64" using arr by (auto simp: array_inv_def)
  have jk: "j \<le> k" using assms(3,4) k(1) by (metis power_le_imp_le_exp one_less_numeral_iff semiring_norm(76))
  have "(2::nat) ^ (k + l) < 2 ^ 64" using k(2) assms(1) by (simp add: power_add)
  then have kl: "k + l < 64" by (rule power_less_imp_less_exp [rotated]) simp
  have ad: "a dvd mAlignment ?A" using k(1) assms(4) jk by (simp add: le_imp_power_dvd)
  have st: "mAlignment ?A dvd mStride M" using assms(2) k(1) by (simp add: matrix_inv_def nextAlignedSize_props)
  have len: "mArrayLength ?A = mStride M * mNumberOfRows M" using assms(2) by (simp add: matrix_inv_def)
  show ?thesis
  proof (cases "mStride M = 0")
    case True
    then have "matrix_row sz M i = mAlignedStorage ?A" by (simp add: matrix_row_def)
    then show ?thesis using array_inv_aligned [OF assms(1) arr assms(3,4)] by simp
  next
    case False
    then have n: "0 < mArrayLength ?A" using len assms(5) by simp
    have base: "mAlignment ?A * sz dvd mAlignedStorage ?A"
      "mAlignedStorage ?A + mArrayLength ?A * sz < 2 ^ 64"
      using arr n by (auto simp: array_inv_def)
    have "a * sz dvd mAlignment ?A * sz" using ad by (simp add: mult_dvd_mono)
    then have "a * sz dvd mAlignedStorage ?A" using base(1) dvd_trans by blast
    moreover have "a * sz dvd i * mStride M * sz"
      using dvd_trans [OF ad st] by (simp add: mult_dvd_mono dvd_mult)
    ultimately have dvd: "a * sz dvd matrix_row sz M i" by (simp add: matrix_row_def)
    have "i * mStride M \<le> mArrayLength ?A" unfolding len using assms(5) by (simp add: mult.commute)
    then have "i * mStride M * sz \<le> mArrayLength ?A * sz" by (rule mult_le_mono1)
    then have "matrix_row sz M i < 2 ^ 64" using base(2) unfolding matrix_row_def by linarith
    then show ?thesis using checkAlignment_iff [OF assms(1,4)] dvd jk kl by auto
  qed
qed

section \<open>The operations\<close>

lemma stored_outside:
  "stored n dest g m m' \<Longrightarrow> dest ` {..<n} \<subseteq> A \<Longrightarrow> same_outside A m m'"
  unfolding stored_def same_outside_def by blast

lemma same_outside_trans: "same_outside A m m' \<Longrightarrow> same_outside A m' m'' \<Longrightarrow> same_outside A m m''"
  by (simp add: same_outside_def)

text \<open>Filling reaches the padding as well.\<close>

lemma matrix_fill_spec:
  assumes "matrix_inv sz ao M" "0 < sz"
  shows "\<exists>m'. matrix_fillValue sz c M m = Inr m' \<and>
    matrix_values sz m' M = replicate (mNumberOfRows M) (replicate (mNumberOfColumns M) c) \<and>
    same_outside (array_cells sz (mData M)) m m'"
proof -
  let ?d = "mAlignedStorage (mData M)" and ?n = "mStride M * mNumberOfRows M"
  let ?r = "vectorFill sz c ?d ?n 0 m"
  have "outcome sz 0 [?d] ?n (elem sz ?d) (\<lambda>i. c) m ?r"
    unfolding vectorFill_def by (rule checked_for_each [OF inj_elem [OF assms(2)]]) simp
  then have o: "fst ?r = noError" "stored ?n (elem sz ?d) (\<lambda>i. c) m (snd ?r)" by (auto dest: outcome_unaligned)
  have v: "snd ?r (matrix_element sz M i j) = c" if "i < mNumberOfRows M" "j < mNumberOfColumns M" for i j
  proof -
    have "i * mStride M + j < ?n" by (rule index_in_rows [OF that matrix_columns [OF assms(1)]])
    then show ?thesis using o(2) by (simp add: stored_def matrix_element_def)
  qed
  have row: "map (\<lambda>j. snd ?r (matrix_element sz M i j)) [0..<mNumberOfColumns M] = replicate (mNumberOfColumns M) c"
    if "i < mNumberOfRows M" for i
    by (rule nth_equalityI) (use v [OF that] in simp_all)
  have "matrix_values sz (snd ?r) M = replicate (mNumberOfRows M) (replicate (mNumberOfColumns M) c)"
    by (intro nth_equalityI) (simp_all add: matrix_values_def row)
  moreover have "same_outside (array_cells sz (mData M)) m (snd ?r)"
    by (rule stored_outside [OF o(2)]) (use assms(1) in \<open>simp add: array_cells_def matrix_inv_def\<close>)
  moreover have "matrix_fillValue sz c M m = Inr (snd ?r)" using o(1) by (simp add: matrix_fillValue_def split_beta)
  ultimately show ?thesis by blast
qed

lemma matrix_zero_fill: "matrix_zeroFill sz M m = matrix_fillValue sz 0 M m"
  by (simp add: matrix_zeroFill_def matrix_fillValue_def vectorZero_fill)

lemma nextAlignedSize_max: "nextAlignedSize n (max 1 a) = nextAlignedSize n a"
  by (cases "a = 0") (simp_all add: nextAlignedSize_def max_absorb2)

lemma BasicMatrix_spec:
  fixes m :: "'a::zero memory"
  assumes "al = 0 \<or> (\<exists>k. al = 2 ^ k)" "max 1 al * sz < 2 ^ 64" "0 < sz" "ao dvd sz"
    "fresh ao raw ((nextAlignedSize columns al * rows + max 1 al) * sz)"
  shows "\<exists>M m'. BasicMatrix sz ao raw rows columns al m = Inr (M, m') \<and> matrix_inv sz ao M \<and>
    mNumberOfRows M = rows \<and> mNumberOfColumns M = columns \<and> mAlignment (mData M) = max 1 al \<and>
    matrix_values sz m' M = replicate rows (replicate columns 0) \<and> same_outside (array_cells sz (mData M)) m m'"
proof -
  let ?s = "nextAlignedSize columns al"
  obtain a where a: "AlignedArray sz ao raw (?s * rows) al = Inr a" "array_inv sz ao a"
    "mArrayLength a = ?s * rows" "mAlignment a = max 1 al"
    using AlignedArray_inv [OF assms] by blast
  let ?M = "\<lparr>mStride = ?s, mNumberOfRows = rows, mNumberOfColumns = columns, mData = a\<rparr>"
  have inv: "matrix_inv sz ao ?M" using a(2-4) nextAlignedSize_max [of columns al] by (simp add: matrix_inv_def)
  obtain m' where "matrix_fillValue sz 0 ?M m = Inr m'"
    "matrix_values sz m' ?M = replicate rows (replicate columns 0)" "same_outside (array_cells sz a) m m'"
    using matrix_fill_spec [OF inv assms(3), of 0 m] by auto
  then show ?thesis using a inv by (simp add: BasicMatrix_def Let_def matrix_zero_fill)
qed

lemma matrix_resize_ctor:
  assumes "matrix_inv sz ao M"
  shows "matrix_resize sz ao raw M rows columns m = BasicMatrix sz ao raw rows columns (mAlignment (mData M)) m"
proof (cases "AlignedArray sz ao raw (nextAlignedSize columns (mAlignment (mData M)) * rows) (mAlignment (mData M))")
  case (Inr w)
  have "0 < mAlignment (mData M)" using assms by (auto simp: array_inv_def matrix_inv_def)
  then have "mAlignment w = mAlignment (mData M)"
    using Inr by (auto simp: AlignedArray_def AlignedArray_empty_def array_allocate_def Let_def
        split: if_splits option.splits)
  then show ?thesis using Inr
    by (cases "mData M"; cases w)
      (auto simp: matrix_resize_def BasicMatrix_def matrix_zeroFill_def array_swap_def split_beta Let_def)
qed (simp add: matrix_resize_def BasicMatrix_def Let_def)

text \<open>Copying one row.\<close>

lemma row_cells:
  assumes "matrix_inv sz ao M" "i < mNumberOfRows M"
  shows "elem sz (matrix_row sz M i) ` {..<mNumberOfColumns M} \<subseteq> array_cells sz (mData M)"
  using element_in_cells [OF assms] by (auto simp: matrix_row_element)

lemma copy_step_spec:
  assumes sz: "sz = 2 ^ l" and inv: "matrix_inv sz ao M" "matrix_inv sz ao R"
    and disjoint_blocks: "array_cells sz (mData M) \<inter> array_cells sz (mData R) = {}"
    and al: "a \<le> mAlignment (mData M)" "a \<le> mAlignment (mData R)" "a = 2 ^ j"
    and dims: "mNumberOfRows M = mNumberOfRows R" "mNumberOfColumns M = mNumberOfColumns R"
    and i: "i < mNumberOfRows M"
  shows "\<exists>m'. copy_step sz M R a m i = Inr m' \<and> same_outside (array_cells sz (mData M)) m m' \<and>
    (\<forall>c < mNumberOfColumns M. m' (matrix_element sz M i c) = m (matrix_element sz R i c)) \<and>
    (\<forall>i' c. i' \<noteq> i \<longrightarrow> c < mNumberOfColumns M \<longrightarrow> m' (matrix_element sz M i' c) = m (matrix_element sz M i' c))"
proof -
  have pos: "0 < sz" using sz by simp
  let ?n = "mNumberOfColumns M" and ?d = "matrix_row sz M i" and ?s = "matrix_row sz R i"
  let ?r = "vectorCopy sz ?s ?d ?n a m"
  have ri: "i < mNumberOfRows R" using i dims by simp
  have "safe ?n (elem sz ?s) (elem sz ?d)"
    by (rule safe_disjoint) (use row_cells [OF inv(1) i] row_cells [OF inv(2) ri] disjoint_blocks dims in auto)
  then have "outcome sz a [?s, ?d] ?n (elem sz ?d) (\<lambda>c. m (elem sz ?s c)) m ?r"
    by (rule vectorCopy_outcome [OF pos])
  then have o: "fst ?r = noError" "stored ?n (elem sz ?d) (\<lambda>c. m (elem sz ?s c)) m (snd ?r)"
    using row_aligned [OF sz inv(1) al(1,3) i] row_aligned [OF sz inv(2) al(2,3) ri] by (auto simp: outcome_def)
  have "copy_step sz M R a m i = Inr (snd ?r)" using o(1) by (simp add: copy_step_def split_beta)
  moreover have "same_outside (array_cells sz (mData M)) m (snd ?r)" by (rule stored_outside [OF o(2) row_cells [OF inv(1) i]])
  moreover have "\<forall>c < ?n. snd ?r (matrix_element sz M i c) = m (matrix_element sz R i c)"
    using o(2) by (simp add: stored_def matrix_row_element)
  moreover have "snd ?r (matrix_element sz M i' c) = m (matrix_element sz M i' c)" if "i' \<noteq> i" "c < ?n" for i' c
  proof -
    have "matrix_element sz M i' c \<notin> elem sz ?d ` {..<?n}"
      using element_inj [OF inv(1) pos that(2)] that(1) by (auto simp: matrix_row_element)
    then show ?thesis using o(2) by (simp add: stored_def)
  qed
  ultimately show ?thesis by blast
qed

lemma copy_rows_spec:
  assumes sz: "sz = 2 ^ l" and inv: "matrix_inv sz ao M" "matrix_inv sz ao R"
    and disjoint_blocks: "array_cells sz (mData M) \<inter> array_cells sz (mData R) = {}"
    and al: "a \<le> mAlignment (mData M)" "a \<le> mAlignment (mData R)" "a = 2 ^ j"
    and dims: "mNumberOfRows M = mNumberOfRows R" "mNumberOfColumns M = mNumberOfColumns R"
    and k: "k \<le> mNumberOfRows M"
  shows "\<exists>m'. foldE (copy_step sz M R a) m [0..<k] = Inr m' \<and> same_outside (array_cells sz (mData M)) m m' \<and>
    (\<forall>i < k. \<forall>c < mNumberOfColumns M. m' (matrix_element sz M i c) = m (matrix_element sz R i c))"
  using k
proof (induction k)
  case 0
  then show ?case by (simp add: same_outside_def)
next
  case (Suc k)
  then obtain m1 where m1: "foldE (copy_step sz M R a) m [0..<k] = Inr m1" "same_outside (array_cells sz (mData M)) m m1"
    "\<forall>i < k. \<forall>c < mNumberOfColumns M. m1 (matrix_element sz M i c) = m (matrix_element sz R i c)" by auto
  have k': "k < mNumberOfRows M" using Suc.prems by simp
  obtain m2 where m2: "copy_step sz M R a m1 k = Inr m2" "same_outside (array_cells sz (mData M)) m1 m2"
    "\<forall>c < mNumberOfColumns M. m2 (matrix_element sz M k c) = m1 (matrix_element sz R k c)"
    "\<forall>i' c. i' \<noteq> k \<longrightarrow> c < mNumberOfColumns M \<longrightarrow> m2 (matrix_element sz M i' c) = m1 (matrix_element sz M i' c)"
    using copy_step_spec [OF sz inv disjoint_blocks al dims k', of m1] by blast
  have src: "m1 (matrix_element sz R k c) = m (matrix_element sz R k c)" if "c < mNumberOfColumns M" for c
  proof -
    have "matrix_element sz R k c \<in> array_cells sz (mData R)" using element_in_cells [OF inv(2)] k' dims that by simp
    then show ?thesis using m1(2) disjoint_blocks by (auto simp: same_outside_def)
  qed
  have "m2 (matrix_element sz M i c) = m (matrix_element sz R i c)"
    if "i < Suc k" "c < mNumberOfColumns M" for i c
  proof (cases "i = k")
    case True
    then show ?thesis using m2(3) src that by simp
  next
    case False
    then have "i < k" using that by simp
    then show ?thesis using m2(4) m1(3) that False by simp
  qed
  moreover have "same_outside (array_cells sz (mData M)) m m2" by (rule same_outside_trans [OF m1(2) m2(2)])
  moreover have "foldE (copy_step sz M R a) m [0..<Suc k] = Inr m2"
    using m1(1) m2(1) by (simp add: foldE_append)
  ultimately show ?case by blast
qed

text \<open>Matrices of equal size are copied whatever their alignments and strides.\<close>

lemma matrix_copy_spec:
  assumes sz: "sz = 2 ^ l" and inv: "matrix_inv sz ao M" "matrix_inv sz ao R"
    and disjoint_blocks: "array_cells sz (mData M) \<inter> array_cells sz (mData R) = {}"
  shows "if mNumberOfRows M \<noteq> mNumberOfRows R \<or> mNumberOfColumns M \<noteq> mNumberOfColumns R
    then matrix_copy sz M R m = Inl invalid_argument
    else \<exists>m'. matrix_copy sz M R m = Inr m' \<and> matrix_values sz m' M = matrix_values sz m R \<and>
      same_outside (array_cells sz (mData M)) m m'"
proof (cases "mNumberOfRows M \<noteq> mNumberOfRows R \<or> mNumberOfColumns M \<noteq> mNumberOfColumns R")
  case False
  then have dims: "mNumberOfRows M = mNumberOfRows R" "mNumberOfColumns M = mNumberOfColumns R" by auto
  have pos: "0 < sz" using sz by simp
  have arr: "array_inv sz ao (mData M)" "array_inv sz ao (mData R)" using inv by (auto simp: matrix_inv_def)
  define a where "a = min (mAlignment (mData M)) (mAlignment (mData R))"
  have "mAlignment (mData M) \<in> range (\<lambda>k. 2 ^ k)" "mAlignment (mData R) \<in> range (\<lambda>k. 2 ^ k)"
    using arr by (auto simp: array_inv_def)
  then have "a \<in> range (\<lambda>k. 2 ^ k)" unfolding a_def min_def by presburger
  then obtain j where j: "a = 2 ^ j" by blast
  have al: "a \<le> mAlignment (mData M)" "a \<le> mAlignment (mData R)" by (simp_all add: a_def)
  have "\<exists>m'. matrix_copy sz M R m = Inr m' \<and> same_outside (array_cells sz (mData M)) m m' \<and>
    (\<forall>i < mNumberOfRows M. \<forall>c < mNumberOfColumns M. m' (matrix_element sz M i c) = m (matrix_element sz R i c))"
  proof (cases "mStride R = mStride M")
    case True
    let ?d = "mAlignedStorage (mData M)" and ?s = "mAlignedStorage (mData R)"
    let ?n = "mNumberOfRows M * mStride M"
    let ?r = "vectorCopy sz ?s ?d ?n a m"
    have len: "?n = mArrayLength (mData M)" "?n = mArrayLength (mData R)"
      using inv dims True by (auto simp: matrix_inv_def)
    have "safe ?n (elem sz ?s) (elem sz ?d)"
      by (rule safe_disjoint) (use disjoint_blocks in \<open>auto simp: array_cells_def len(1) [symmetric] len(2) [symmetric]\<close>)
    then have "outcome sz a [?s, ?d] ?n (elem sz ?d) (\<lambda>i. m (elem sz ?s i)) m ?r"
      by (rule vectorCopy_outcome [OF pos])
    then have o: "fst ?r = noError" "stored ?n (elem sz ?d) (\<lambda>i. m (elem sz ?s i)) m (snd ?r)"
      using array_inv_aligned [OF sz arr(1) al(1) j] array_inv_aligned [OF sz arr(2) al(2) j]
      by (auto simp: outcome_def)
    have "matrix_copy sz M R m = Inr (snd ?r)"
      using dims True o(1) by (simp add: matrix_copy_def Let_def split_beta a_def [symmetric])
    moreover have "same_outside (array_cells sz (mData M)) m (snd ?r)"
      by (rule stored_outside [OF o(2)]) (simp add: array_cells_def len(1))
    moreover have "snd ?r (matrix_element sz M i c) = m (matrix_element sz R i c)"
      if "i < mNumberOfRows M" "c < mNumberOfColumns M" for i c
    proof -
      have "i * mStride M + c < mStride M * mNumberOfRows M"
        by (rule index_in_rows [OF that matrix_columns [OF inv(1)]])
      then have lt: "i * mStride M + c < ?n" by (simp add: mult.commute)
      have "snd ?r (elem sz ?d (i * mStride M + c)) = m (elem sz ?s (i * mStride M + c))"
        using o(2) lt unfolding stored_def by blast
      then show ?thesis by (simp add: matrix_element_def True)
    qed
    ultimately show ?thesis by blast
  next
    case False
    have "matrix_copy sz M R m = foldE (copy_step sz M R a) m [0..<mNumberOfRows M]"
      using dims False by (simp add: matrix_copy_def Let_def a_def [symmetric])
    then show ?thesis
      using copy_rows_spec [OF sz inv disjoint_blocks al j dims order_refl, of m] by auto
  qed
  then obtain m' where m': "matrix_copy sz M R m = Inr m'" "same_outside (array_cells sz (mData M)) m m'"
    "\<forall>i < mNumberOfRows M. \<forall>c < mNumberOfColumns M. m' (matrix_element sz M i c) = m (matrix_element sz R i c)"
    by blast
  have "matrix_values sz m' M = matrix_values sz m R" by (rule matrix_values_cong) (use dims m'(3) in auto)
  then show ?thesis using m' False by auto
qed (auto simp: matrix_copy_def Let_def)

lemma matrix_setColumn_spec:
  assumes "matrix_inv sz ao M" "0 < sz" "c < mNumberOfColumns M"
    and "elem sz values ` {..<mNumberOfRows M} \<inter> array_cells sz (mData M) = {}"
  shows "stored (mNumberOfRows M) (\<lambda>i. matrix_element sz M i c) (\<lambda>i. m (elem sz values i)) m
    (matrix_setColumn sz M c values m)"
proof -
  have sub: "(\<lambda>i. matrix_element sz M i c) ` {..<i} \<subseteq> array_cells sz (mData M)" if "i \<le> mNumberOfRows M" for i
    using element_in_cells [OF assms(1) _ assms(3)] that by auto
  have "outcome sz 0 [] (mNumberOfRows M) (\<lambda>i. matrix_element sz M i c) (\<lambda>i. m (elem sz values i)) m
    (checked sz 0 [] m (matrix_setColumn sz M c values m))"
    unfolding matrix_setColumn_def
  proof (rule checked_for_each)
    show "inj_on (\<lambda>i. matrix_element sz M i c) {..<mNumberOfRows M}"
      using element_inj [OF assms(1,2,3,3)] by (auto simp: inj_on_def)
    fix i m' assume i: "i < mNumberOfRows M"
      and m': "\<forall>a. a \<notin> (\<lambda>i. matrix_element sz M i c) ` {..<i} \<longrightarrow> m' a = m a"
    have "elem sz values i \<in> elem sz values ` {..<mNumberOfRows M}" by (rule imageI) (use i in simp)
    then have "elem sz values i \<notin> array_cells sz (mData M)" using assms(4) by blast
    then show "m' (elem sz values i) = m (elem sz values i)" using m' sub [of i] i by auto
  qed
  then show ?thesis by (auto dest: outcome_unaligned simp: checked_def)
qed

lemma matrix_setRow_spec:
  assumes "matrix_inv sz ao M" "0 < sz" "i < mNumberOfRows M"
    and "elem sz values ` {..<mNumberOfColumns M} \<inter> array_cells sz (mData M) = {}"
  shows "stored (mNumberOfColumns M) (matrix_element sz M i) (\<lambda>c. m (elem sz values c)) m
    (matrix_setRow sz M i values m)"
proof -
  have "safe (mNumberOfColumns M) (elem sz values) (elem sz (matrix_row sz M i))"
    by (rule safe_disjoint) (use row_cells [OF assms(1,3)] assms(4) in auto)
  from outcome_unaligned [OF vectorCopy_outcome [OF assms(2) this]]
  show ?thesis unfolding matrix_setRow_def matrix_row_element by blast
qed

text \<open>
  C39 (matrix_spec): a matrix whose layout is correct is resized to an all-zero matrix of correct
  layout, every row of which has the alignment of the matrix; copying from a matrix of other
  dimensions is an error, copying from one of the same dimensions makes all elements equal,
  whether the padding of the rows agrees or not, and touches nothing outside the destination;
  element access is checked, and different elements have different addresses.
\<close>

theorem matrix_spec:
  fixes m :: "'a::zero memory"
  assumes "sz = 2 ^ l" and "ao dvd sz" and "matrix_inv sz ao M" and "matrix_inv sz ao R"
    and "array_cells sz (mData M) \<inter> array_cells sz (mData R) = {}"
    and "fresh ao raw ((nextAlignedSize columns (mAlignment (mData M)) * rows + mAlignment (mData M)) * sz)"
  shows "(\<exists>M' m'. matrix_resize sz ao raw M rows columns m = Inr (M', m') \<and> matrix_inv sz ao M' \<and>
      mNumberOfRows M' = rows \<and> mNumberOfColumns M' = columns \<and>
      matrix_values sz m' M' = replicate rows (replicate columns 0) \<and>
      (\<forall>i < rows. checkAlignment sz (matrix_row sz M' i) (mAlignment (mData M)))) \<and>
    (if mNumberOfRows M \<noteq> mNumberOfRows R \<or> mNumberOfColumns M \<noteq> mNumberOfColumns R
     then matrix_copy sz M R m = Inl invalid_argument
     else \<exists>m'. matrix_copy sz M R m = Inr m' \<and> matrix_values sz m' M = matrix_values sz m R \<and>
       same_outside (array_cells sz (mData M)) m m') \<and>
    (matrix_at sz M i j = (if i < mNumberOfRows M \<and> j < mNumberOfColumns M
       then Inr (matrix_element sz M i j) else Inl out_of_range)) \<and>
    inj_on (\<lambda>(i, j). matrix_element sz M i j) (UNIV \<times> {..<mNumberOfColumns M})"
proof (intro conjI)
  have pos: "0 < sz" using assms(1) by simp
  obtain k where k: "mAlignment (mData M) = 2 ^ k" "2 ^ k * sz < 2 ^ 64"
    using assms(3) by (auto simp: array_inv_def matrix_inv_def)
  have mx: "max 1 (mAlignment (mData M)) = mAlignment (mData M)" using k by simp
  obtain M' m' where r: "BasicMatrix sz ao raw rows columns (mAlignment (mData M)) m = Inr (M', m')"
    "matrix_inv sz ao M'" "mNumberOfRows M' = rows" "mNumberOfColumns M' = columns"
    "mAlignment (mData M') = mAlignment (mData M)" "matrix_values sz m' M' = replicate rows (replicate columns 0)"
    using BasicMatrix_spec [of "mAlignment (mData M)" sz ao raw columns rows m] assms k mx pos by auto
  have "checkAlignment sz (matrix_row sz M' i) (mAlignment (mData M))" if "i < rows" for i
    using row_aligned [OF assms(1) r(2) _ k(1)] r(3,5) that by simp
  then show "\<exists>M' m'. matrix_resize sz ao raw M rows columns m = Inr (M', m') \<and> matrix_inv sz ao M' \<and>
      mNumberOfRows M' = rows \<and> mNumberOfColumns M' = columns \<and>
      matrix_values sz m' M' = replicate rows (replicate columns 0) \<and>
      (\<forall>i < rows. checkAlignment sz (matrix_row sz M' i) (mAlignment (mData M)))"
    using r unfolding matrix_resize_ctor [OF assms(3)] by blast
  show "if mNumberOfRows M \<noteq> mNumberOfRows R \<or> mNumberOfColumns M \<noteq> mNumberOfColumns R
     then matrix_copy sz M R m = Inl invalid_argument
     else \<exists>m'. matrix_copy sz M R m = Inr m' \<and> matrix_values sz m' M = matrix_values sz m R \<and>
       same_outside (array_cells sz (mData M)) m m'"
    by (rule matrix_copy_spec [OF assms(1,3,4,5)])
  show "matrix_at sz M i j = (if i < mNumberOfRows M \<and> j < mNumberOfColumns M
       then Inr (matrix_element sz M i j) else Inl out_of_range)"
    by (auto simp: matrix_at_def)
  show "inj_on (\<lambda>(i, j). matrix_element sz M i j) (UNIV \<times> {..<mNumberOfColumns M})"
  proof (rule inj_onI)
    fix x y assume "x \<in> UNIV \<times> {..<mNumberOfColumns M}" "y \<in> UNIV \<times> {..<mNumberOfColumns M}"
      "(case x of (i, j) \<Rightarrow> matrix_element sz M i j) = (case y of (i, j) \<Rightarrow> matrix_element sz M i j)"
    then show "x = y"
      using element_inj [OF assms(3) pos, of "snd x" "snd y" "fst x" "fst y"]
      by (simp add: mem_Times_iff split_beta prod_eq_iff)
  qed
qed

text \<open>A padded matrix of two rows and three columns is copied from one without padding.\<close>

theorem matrix_spec_witness:
  "\<exists>m'. matrix_copy 4
      \<lparr>mStride = 4, mNumberOfRows = 2, mNumberOfColumns = 3,
       mData = \<lparr>mAlignment = 4, mArrayLength = 8, mRawStorage = 120, mAlignedStorage = 128\<rparr>\<rparr>
      \<lparr>mStride = 3, mNumberOfRows = 2, mNumberOfColumns = 3,
       mData = \<lparr>mAlignment = 1, mArrayLength = 6, mRawStorage = 64, mAlignedStorage = 64\<rparr>\<rparr> int = Inr m' \<and>
    matrix_values 4 m' \<lparr>mStride = 4, mNumberOfRows = 2, mNumberOfColumns = 3,
       mData = \<lparr>mAlignment = 4, mArrayLength = 8, mRawStorage = 120, mAlignedStorage = 128\<rparr>\<rparr>
     = [[64, 68, 72], [76, 80, 84]]"
proof -
  let ?v = "\<lparr>mAlignment = 4, mArrayLength = 8, mRawStorage = 120, mAlignedStorage = 128\<rparr>"
  let ?w = "\<lparr>mAlignment = 1, mArrayLength = 6, mRawStorage = 64, mAlignedStorage = 64\<rparr>"
  let ?M = "\<lparr>mStride = 4, mNumberOfRows = 2, mNumberOfColumns = 3, mData = ?v\<rparr>"
  let ?R = "\<lparr>mStride = 3, mNumberOfRows = 2, mNumberOfColumns = 3, mData = ?w\<rparr>"
  have e: "(4::nat) = 2 ^ 2" by simp
  have pow: "\<exists>k. 4 = (2::nat) ^ k \<and> (2::nat) ^ k * 4 < 2 ^ 64" "\<exists>k. 1 = (2::nat) ^ k \<and> (2::nat) ^ k * 4 < 2 ^ 64"
    by (rule exI [of _ 2], simp) (rule exI [of _ 0], simp)
  have v: "matrix_inv 4 4 ?M" using pow(1) by (simp add: matrix_inv_def array_inv_def worstCaseLength_def nextAlignedSize_def)
  have w: "matrix_inv 4 4 ?R" using pow(2) by (simp add: matrix_inv_def array_inv_def worstCaseLength_def nextAlignedSize_def)
  have "a \<ge> 128" if "a \<in> array_cells 4 ?v" for a using that by (auto simp: array_cells_def)
  moreover have "a < 128" if "a \<in> array_cells 4 ?w" for a using that by (auto simp: array_cells_def)
  ultimately have d: "array_cells 4 (mData ?M) \<inter> array_cells 4 (mData ?R) = {}" by force
  have f: "fresh 4 1004 ((nextAlignedSize 0 (mAlignment (mData ?M)) * 0 + mAlignment (mData ?M)) * 4)"
    by (simp add: fresh_def)
  have "matrix_values 4 int ?R = [[64, 68, 72], [76, 80, 84]]"
    by (simp add: matrix_values_def matrix_element_def upt_rec)
  moreover have "\<exists>m'. matrix_copy 4 ?M ?R int = Inr m' \<and> matrix_values 4 m' ?M = matrix_values 4 int ?R \<and>
      same_outside (array_cells 4 (mData ?M)) int m'"
    using matrix_spec [OF e dvd_refl v w d f, of int 0 0, THEN conjunct2, THEN conjunct1] by simp
  ultimately show ?thesis by auto
qed

end
