(* ===== verification/Circular_Buffer.thy ===== *)
theory Circular_Buffer
  imports Basic_Matrix
begin

text \<open>
  The ring buffer of \<open>src/librbbl/circular_buffer.cpp\<close>. Every sample is kept twice, at a distance
  of the allocated length, so that any window of past samples can be read without wrap-around.
  \<open>copyChannels\<close> is the loop over the channels that the operations share: a \<open>vectorCopy\<close> per
  channel, whose error ends it.
\<close>

record circular_buffer =
  cbBuffer :: basic_matrix
  cbImplLength :: nat
  cbLength :: nat
  cbAllocatedLength :: nat
  cbStride :: nat
  cbNumberOfChannels :: nat
  cbBasePointer :: nat
  cbWriteHeadIndex :: nat

definition copyChannels ::
  "nat \<Rightarrow> nat \<Rightarrow> (nat \<Rightarrow> nat) \<Rightarrow> (nat \<Rightarrow> nat) \<Rightarrow> nat \<Rightarrow> nat \<Rightarrow> 'a memory \<Rightarrow> exn + 'a memory" where
  "copyChannels sz numChannels src dest n alignment m =
     foldE (\<lambda>m chIdx. case vectorCopy sz (src chIdx) (dest chIdx) n alignment m of
              (res, m') \<Rightarrow> if res \<noteq> noError then Inl invalid_argument else Inr m')
       m [0..<numChannels]"

definition CircularBuffer ::
  "nat \<Rightarrow> nat \<Rightarrow> nat \<Rightarrow> nat \<Rightarrow> nat \<Rightarrow> nat \<Rightarrow> 'a::zero memory \<Rightarrow> exn + circular_buffer \<times> 'a memory" where
  "CircularBuffer sz ao raw numberOfChannels len alignment m =
     (let implLength = nextAlignedSize len alignment
      in bindE (BasicMatrix sz ao raw numberOfChannels (2 * implLength) alignment m) (\<lambda>(buf, m).
           Inr (\<lparr>cbBuffer = buf, cbImplLength = implLength, cbLength = len,
                 cbAllocatedLength = mNumberOfColumns buf div 2, cbStride = mStride buf,
                 cbNumberOfChannels = numberOfChannels, cbBasePointer = mAlignedStorage (mData buf),
                 cbWriteHeadIndex = 0\<rparr>, m)))"

definition advanceWriteIndex :: "nat \<Rightarrow> circular_buffer \<Rightarrow> nat \<Rightarrow> nat \<Rightarrow> 'a memory \<Rightarrow> exn + nat \<times> 'a memory" where
  "advanceWriteIndex sz cb currentWriteIndex advanceSamples m =
     (let numChannels = mNumberOfRows (cbBuffer cb);
          row = matrix_row sz (cbBuffer cb);
          firstBlockEnd = min (currentWriteIndex + advanceSamples) (cbImplLength cb);
          samplesInFirstBlock = firstBlockEnd - currentWriteIndex
      in bindE (copyChannels sz numChannels (\<lambda>ch. elem sz (row ch) currentWriteIndex)
                  (\<lambda>ch. elem sz (row ch) (currentWriteIndex + cbImplLength cb)) samplesInFirstBlock 1 m) (\<lambda>m.
         bindE (if samplesInFirstBlock < advanceSamples
                then let remainingSamples = advanceSamples - samplesInFirstBlock
                     in copyChannels sz numChannels (\<lambda>ch. elem sz (row ch) (cbImplLength cb)) row
                          remainingSamples 1 m
                else Inr m) (\<lambda>m.
         Inr ((currentWriteIndex + advanceSamples) mod cbImplLength cb, m))))"

text \<open>The position of the next write in each channel.\<close>

definition getWritePointers :: "nat \<Rightarrow> circular_buffer \<Rightarrow> nat \<Rightarrow> nat" where
  "getWritePointers sz cb chIdx = elem sz (cbBasePointer cb) (chIdx * cbStride cb + cbWriteHeadIndex cb)"

definition getFirstWritePointer :: "nat \<Rightarrow> circular_buffer \<Rightarrow> nat" where
  "getFirstWritePointer sz cb = elem sz (cbBasePointer cb) (cbWriteHeadIndex cb)"

text \<open>The three overloads of \<open>write\<close>.\<close>

definition write_pointers ::
  "nat \<Rightarrow> circular_buffer \<Rightarrow> (nat \<Rightarrow> nat) \<Rightarrow> nat \<Rightarrow> nat \<Rightarrow> nat \<Rightarrow> 'a memory \<Rightarrow> exn + circular_buffer \<times> 'a memory" where
  "write_pointers sz cb writeData numberOfChannels numberOfSamples alignmentElements m =
     (let minAlignment = min alignmentElements 1
      in if numberOfChannels \<noteq> cbNumberOfChannels cb then Inl invalid_argument
         else if cbLength cb < numberOfSamples then Inl invalid_argument
         else bindE (copyChannels sz (cbNumberOfChannels cb) writeData (getWritePointers sz cb)
                       numberOfSamples minAlignment m) (\<lambda>m.
              bindE (advanceWriteIndex sz cb (cbWriteHeadIndex cb) numberOfSamples m) (\<lambda>(w, m).
              Inr (cb\<lparr>cbWriteHeadIndex := w\<rparr>, m))))"

definition write_strided ::
  "nat \<Rightarrow> circular_buffer \<Rightarrow> nat \<Rightarrow> nat \<Rightarrow> nat \<Rightarrow> nat \<Rightarrow> nat \<Rightarrow> 'a memory \<Rightarrow> exn + circular_buffer \<times> 'a memory" where
  "write_strided sz cb writeData channelStrideElements numberOfChannels numberOfSamples alignmentElements m =
     (let minAlignment = min alignmentElements 1
      in if numberOfChannels \<noteq> cbNumberOfChannels cb then Inl invalid_argument
         else if cbLength cb < numberOfSamples then Inl invalid_argument
         else bindE (copyChannels sz (cbNumberOfChannels cb)
                       (\<lambda>chIdx. elem sz writeData (chIdx * channelStrideElements)) (getWritePointers sz cb)
                       numberOfSamples minAlignment m) (\<lambda>m.
              bindE (advanceWriteIndex sz cb (cbWriteHeadIndex cb) numberOfSamples m) (\<lambda>(w, m).
              Inr (cb\<lparr>cbWriteHeadIndex := w\<rparr>, m))))"

definition write_matrix ::
  "nat \<Rightarrow> circular_buffer \<Rightarrow> basic_matrix \<Rightarrow> 'a memory \<Rightarrow> exn + circular_buffer \<times> 'a memory" where
  "write_matrix sz cb writeData m =
     (let minAlignment = min (mAlignment (mData writeData)) 1;
          numberOfElements = mNumberOfColumns writeData
      in if mNumberOfRows writeData \<noteq> cbNumberOfChannels cb then Inl invalid_argument
         else if cbLength cb < numberOfElements then Inl invalid_argument
         else bindE (copyChannels sz (cbNumberOfChannels cb) (matrix_row sz writeData) (getWritePointers sz cb)
                       numberOfElements minAlignment m) (\<lambda>m.
              bindE (advanceWriteIndex sz cb (cbWriteHeadIndex cb) numberOfElements m) (\<lambda>(w, m).
              Inr (cb\<lparr>cbWriteHeadIndex := w\<rparr>, m))))"

definition commitWrite :: "nat \<Rightarrow> circular_buffer \<Rightarrow> nat \<Rightarrow> 'a memory \<Rightarrow> exn + circular_buffer \<times> 'a memory" where
  "commitWrite sz cb numberOfElementsWritten m =
     (if cbLength cb < numberOfElementsWritten then Inl invalid_argument
      else bindE (advanceWriteIndex sz cb (cbWriteHeadIndex cb) numberOfElementsWritten m) (\<lambda>(w, m).
           Inr (cb\<lparr>cbWriteHeadIndex := w\<rparr>, m)))"

definition getReadPointer :: "nat \<Rightarrow> circular_buffer \<Rightarrow> nat \<Rightarrow> nat \<Rightarrow> nat" where
  "getReadPointer sz cb channelIndex delay =
     elem sz (cbBasePointer cb) (channelIndex * cbStride cb + cbAllocatedLength cb + cbWriteHeadIndex cb)
       - delay * sz"

definition getReadPointers :: "nat \<Rightarrow> circular_buffer \<Rightarrow> nat \<Rightarrow> exn + nat list" where
  "getReadPointers sz cb delay =
     (if cbLength cb \<le> delay then Inl invalid_argument
      else Inr (map (\<lambda>chIdx. elem sz (cbBasePointer cb)
             (chIdx * cbStride cb + cbAllocatedLength cb + cbWriteHeadIndex cb) - delay * sz)
           [0..<cbNumberOfChannels cb]))"

definition getReadPointers_each :: "nat \<Rightarrow> circular_buffer \<Rightarrow> (nat \<Rightarrow> nat) \<Rightarrow> exn + nat list" where
  "getReadPointers_each sz cb delay =
     foldE (\<lambda>readPointers chIdx.
       if cbLength cb \<le> delay chIdx then Inl invalid_argument
       else Inr (readPointers @
         [elem sz (cbBasePointer cb) (chIdx * cbStride cb + cbAllocatedLength cb + cbWriteHeadIndex cb)
            - delay chIdx * sz]))
       [] [0..<cbNumberOfChannels cb]"

section \<open>The loop over the channels\<close>

lemma checkAlignment_min1:
  assumes "sz = 2 ^ l" "l < 64" "sz dvd p" "p < 2 ^ 64"
  shows "checkAlignment sz p (min a 1)"
proof (cases "a = 0")
  case False
  then have "min a 1 = 2 ^ 0" by simp
  then show ?thesis using checkAlignment_iff [OF assms(1), of "min a 1" 0 p] assms by simp
qed simp

definition disjoint_blocks :: "nat \<Rightarrow> nat \<Rightarrow> nat \<Rightarrow> nat \<Rightarrow> bool" where
  "disjoint_blocks sz n p q \<longleftrightarrow> elem sz p ` {..<n} \<inter> elem sz q ` {..<n} = {}"

lemma copyChannels_spec:
  assumes sz: "0 < sz"
    and al: "\<And>ch. ch < k \<Longrightarrow> checkAlignment sz (S ch) a \<and> checkAlignment sz (D ch) a"
    and safe: "\<And>ch. ch < k \<Longrightarrow> safe n (elem sz (S ch)) (elem sz (D ch))"
    and src: "\<And>ch ch'. ch < k \<Longrightarrow> ch' < ch \<Longrightarrow> disjoint_blocks sz n (S ch) (D ch')"
    and dst: "\<And>ch ch'. ch < k \<Longrightarrow> ch' < ch \<Longrightarrow> disjoint_blocks sz n (D ch) (D ch')"
  shows "\<exists>m'. copyChannels sz k S D n a m = Inr m' \<and>
    (\<forall>ch < k. \<forall>i < n. m' (elem sz (D ch) i) = m (elem sz (S ch) i)) \<and>
    same_outside (\<Union>ch<k. elem sz (D ch) ` {..<n}) m m'"
  using assms(2-5)
proof (induction k)
  case 0
  then show ?case by (simp add: copyChannels_def same_outside_def)
next
  case (Suc k)
  obtain m1 where m1: "copyChannels sz k S D n a m = Inr m1"
    "\<forall>ch < k. \<forall>i < n. m1 (elem sz (D ch) i) = m (elem sz (S ch) i)"
    "same_outside (\<Union>ch<k. elem sz (D ch) ` {..<n}) m m1"
    using Suc.IH [OF Suc.prems] by auto
  let ?r = "vectorCopy sz (S k) (D k) n a m1"
  have "outcome sz a [S k, D k] n (elem sz (D k)) (\<lambda>i. m1 (elem sz (S k) i)) m1 ?r"
    by (rule vectorCopy_outcome [OF sz Suc.prems(2)]) simp
  then have o: "fst ?r = noError" "stored n (elem sz (D k)) (\<lambda>i. m1 (elem sz (S k) i)) m1 (snd ?r)"
    using Suc.prems(1) [of k] by (auto simp: outcome_def)
  have step: "copyChannels sz (Suc k) S D n a m = Inr (snd ?r)"
    using m1(1) o(1) by (simp add: copyChannels_def foldE_append split_beta)
  have val: "snd ?r (elem sz (D ch) i) = m (elem sz (S ch) i)" if ch: "ch < Suc k" and i: "i < n" for ch i
  proof (cases "ch = k")
    case True
    have "elem sz (S k) i \<notin> elem sz (D c) ` {..<n}" if "c < k" for c
      using Suc.prems(3) [of k c] that i by (auto simp: disjoint_blocks_def)
    then have "m1 (elem sz (S k) i) = m (elem sz (S k) i)" using m1(3) by (simp add: same_outside_def)
    then show ?thesis using o(2) i True by (simp add: stored_def)
  next
    case False
    then have ck: "ch < k" using ch by simp
    have "elem sz (D ch) i \<notin> elem sz (D k) ` {..<n}"
      using Suc.prems(4) [of k ch] ck i by (auto simp: disjoint_blocks_def)
    then show ?thesis using o(2) m1(2) ck i by (simp add: stored_def)
  qed
  have "same_outside (\<Union>ch<Suc k. elem sz (D ch) ` {..<n}) m (snd ?r)"
  proof (rule same_outside_trans)
    show "same_outside (\<Union>ch<Suc k. elem sz (D ch) ` {..<n}) m m1"
      by (rule same_outside_mono [OF m1(3)]) (auto simp: lessThan_Suc)
    show "same_outside (\<Union>ch<Suc k. elem sz (D ch) ` {..<n}) m1 (snd ?r)"
      by (rule stored_outside [OF o(2)]) (auto simp: lessThan_Suc)
  qed
  then show ?case using step val by blast
qed

section \<open>The history that the buffer represents\<close>

definition circular_inv :: "nat \<Rightarrow> nat \<Rightarrow> circular_buffer \<Rightarrow> bool" where
  "circular_inv sz ao cb \<longleftrightarrow>
     matrix_inv sz ao (cbBuffer cb) \<and> mNumberOfRows (cbBuffer cb) = cbNumberOfChannels cb \<and>
     mNumberOfColumns (cbBuffer cb) = 2 * cbImplLength cb \<and> cbAllocatedLength cb = cbImplLength cb \<and>
     cbStride cb = mStride (cbBuffer cb) \<and> cbBasePointer cb = mAlignedStorage (mData (cbBuffer cb)) \<and>
     cbLength cb \<le> cbImplLength cb \<and> cbWriteHeadIndex cb < cbImplLength cb"

text \<open>How many samples ago position \<open>q\<close> was written, counting from 0, for the write position \<open>w\<close>.\<close>

definition age :: "nat \<Rightarrow> nat \<Rightarrow> nat \<Rightarrow> nat" where
  "age L w q = (if q < w then w - 1 - q else w + L - 1 - q)"

text \<open>\<open>H ch k\<close> is the \<open>k\<close>-th last sample of channel \<open>ch\<close>; both copies hold it.\<close>

definition history :: "nat \<Rightarrow> 'a memory \<Rightarrow> circular_buffer \<Rightarrow> (nat \<Rightarrow> nat \<Rightarrow> 'a) \<Rightarrow> bool" where
  "history sz m cb H \<longleftrightarrow>
     (\<forall>ch < cbNumberOfChannels cb. \<forall>p < 2 * cbImplLength cb.
        m (matrix_element sz (cbBuffer cb) ch p)
        = H ch (age (cbImplLength cb) (cbWriteHeadIndex cb) (p mod cbImplLength cb)))"

definition appended :: "nat \<Rightarrow> (nat \<Rightarrow> 'a) \<Rightarrow> (nat \<Rightarrow> 'a) \<Rightarrow> nat \<Rightarrow> 'a" where
  "appended n x H k = (if k < n then x (n - 1 - k) else H (k - n))"

lemma appended_cong: "(\<And>i. i < n \<Longrightarrow> x i = y i) \<Longrightarrow> appended n x H = appended n y H"
  by (rule ext) (simp add: appended_def)

lemma ring_write:
  fixes c :: "nat \<Rightarrow> 'a"
  assumes "w < L" "n \<le> L" "p < 2 * L" and q: "q = p mod L"
    and f: "f = min (w + n) L - w"
    and c: "\<And>p. p < 2 * L \<Longrightarrow> \<not> (w \<le> p \<and> p < w + n) \<Longrightarrow> c p = H (age L w (p mod L))"
    and c1: "\<And>p. p < 2 * L \<Longrightarrow> c1 p = (if w + L \<le> p \<and> p < w + L + f then c (p - L) else c p)"
    and c2: "c2 = (if f < n then (if p < n - f then c1 (L + p) else c1 p) else c1 p)"
  shows "c2 = appended n (\<lambda>i. c (w + i)) H (age L ((w + n) mod L) q)"
proof -
  have f': "f = (if w + n < L then n else L - w)" using assms(1) f by (auto simp: min_def)
  have w': "(w + n) mod L = (if w + n < L then w + n else w + n - L)" using assms(1,2) by (simp add: mod_if)
  have mod_L: "x mod L = (if x < L then x else x - L)" if "x < 2 * L" for x using that by (simp add: mod_if)
  have old: "c x = H (age L w (if x < L then x else x - L))" if "x < 2 * L" "x < w \<or> w + n \<le> x" for x
    using c [of x] that mod_L by auto
  have q': "q = (if p < L then p else p - L)" using q mod_L assms(3) by simp
  show ?thesis
  proof (cases "w + n < L")
    case True
    then have c2': "c2 = (if w + L \<le> p \<and> p < w + L + n then c (p - L) else c p)" using c1 assms(3) f' c2 by simp
    show ?thesis
    proof (cases "w \<le> q \<and> q < w + n")
      case True
      then have "c2 = c q" using c2' q' \<open>w + n < L\<close> by (auto split: if_splits)
      then show ?thesis using True w' \<open>w + n < L\<close> by (auto simp: appended_def age_def)
    next
      case False
      then have "p < w \<or> w + n \<le> p" "\<not> (w + L \<le> p \<and> p < w + L + n)" using q' \<open>w + n < L\<close> by (auto split: if_splits)
      then have "c2 = c p" "p < w \<or> w + n \<le> p" using c2' by auto
      then have "c2 = H (age L w q)" using old [OF assms(3)] q' by simp
      moreover have "age L w q + n = age L (w + n) q" using False assms(1) q' \<open>p < 2 * L\<close> by (auto simp: age_def)
      ultimately show ?thesis using w' \<open>w + n < L\<close> by (simp add: appended_def) (metis add_diff_cancel_right' not_add_less2)
    qed
  next
    case False
    then have ff: "f = L - w" using f' by simp
    have fn: "n - f = w + n - L" using ff assms(1) False by simp
    have c2': "c2 = (if p < w + n - L then c1 (L + p) else c1 p)" using c2 ff fn False assms(1) by auto
    show ?thesis
    proof (cases "w \<le> q")
      case True
      have "\<not> p < w + n - L" using True q' assms(1,2) by (auto split: if_splits)
      then have "c2 = c q" using c2' c1 [OF assms(3)] q' True ff assms(1,3) by (auto split: if_splits)
      moreover have "age L (w + n - L) q < n" "n - 1 - age L (w + n - L) q = q - w"
        using True q' assms(1-3) False by (auto simp: age_def split: if_splits)
      ultimately show ?thesis using w' False True by (simp add: appended_def)
    next
      case not: False
      show ?thesis
      proof (cases "q < w + n - L")
        case True
        have "c2 = c (q + L)" using c2' c1 [of p] c1 [of "L + p"] q' True not ff assms(1-3) False
          by (auto simp: add.commute split: if_splits)
        moreover have "age L (w + n - L) q < n" "n - 1 - age L (w + n - L) q = q + L - w"
          using True assms(1-3) False by (auto simp: age_def split: if_splits)
        moreover have "w + (q + L - w) = q + L" using assms(1) by simp
        ultimately show ?thesis using w' False not by (simp add: appended_def)
      next
        case ge: False
        have pL: "\<not> p < w + n - L" using ge q' assms(1,2) False by (auto split: if_splits)
        then have "c2 = c p" using c2' c1 [OF assms(3)] q' not ff by (auto split: if_splits)
        moreover have "p < w \<or> w + n \<le> p" using ge not q' by (auto split: if_splits)
        ultimately have "c2 = H (age L w q)" using old [OF assms(3)] q' by simp
        moreover have "age L w q + n = age L (w + n - L) q" using ge not assms(1,2) False by (auto simp: age_def)
        ultimately show ?thesis using w' False by (simp add: appended_def) (metis add_diff_cancel_right' not_add_less2)
      qed
    qed
  qed
qed

section \<open>Advancing the write position\<close>

lemma element_offset: "elem sz (elem sz (matrix_row sz M ch) p) i = matrix_element sz M ch (p + i)"
  by (simp add: matrix_row_def matrix_element_def algebra_simps)

lemma offset_pointer:
  assumes sz: "sz = 2 ^ l" and inv: "matrix_inv sz ao M" and ch: "ch < mNumberOfRows M"
    and p: "p \<le> mNumberOfColumns M" "0 < mNumberOfColumns M"
  shows "checkAlignment sz (elem sz (matrix_row sz M ch) p) (min a 1)"
proof (rule checkAlignment_min1 [OF sz])
  have arr: "array_inv sz ao (mData M)" and len: "mArrayLength (mData M) = mStride M * mNumberOfRows M"
    using inv by (simp_all add: matrix_inv_def)
  obtain k where k: "mAlignment (mData M) = 2 ^ k" "2 ^ k * sz < 2 ^ 64" using arr by (auto simp: array_inv_def)
  have "(2::nat) ^ (k + l) < 2 ^ 64" using k(2) sz by (simp add: power_add)
  then have "k + l < 64" by (rule power_less_imp_less_exp [rotated]) simp
  then show "l < 64" by simp
  have st: "mNumberOfColumns M \<le> mStride M" by (rule matrix_columns [OF inv])
  have pos: "0 < mArrayLength (mData M)" using len st p(2) ch by simp
  have base: "sz dvd mAlignedStorage (mData M)" "mAlignedStorage (mData M) + mArrayLength (mData M) * sz < 2 ^ 64"
    using arr pos by (auto simp: array_inv_def intro: dvd_trans)
  show "sz dvd elem sz (matrix_row sz M ch) p" using base(1) by (simp add: matrix_row_def)
  have "ch * mStride M + p \<le> ch * mStride M + mStride M" using p(1) st by simp
  also have "\<dots> = mStride M * Suc ch" by simp
  also have "\<dots> \<le> mArrayLength (mData M)" unfolding len using ch by (intro mult_le_mono2) simp
  finally have "(ch * mStride M + p) * sz \<le> mArrayLength (mData M) * sz" by (rule mult_le_mono1)
  then show "elem sz (matrix_row sz M ch) p < 2 ^ 64"
    using base(2) by (simp add: matrix_row_def add_mult_distrib)
qed

text \<open>Copying within the rows: from column \<open>s\<close> to column \<open>d\<close>, in every row.\<close>

lemma shift_rows:
  assumes sz: "sz = 2 ^ l" and inv: "matrix_inv sz ao M"
    and s: "s + n \<le> mNumberOfColumns M" and d: "d + n \<le> mNumberOfColumns M" and pos: "0 < mNumberOfColumns M"
    and away: "s + n \<le> d \<or> d + n \<le> s"
  shows "\<exists>m'. copyChannels sz (mNumberOfRows M) (\<lambda>ch. elem sz (matrix_row sz M ch) s)
        (\<lambda>ch. elem sz (matrix_row sz M ch) d) n 1 m = Inr m' \<and>
    (\<forall>ch < mNumberOfRows M. \<forall>p < mNumberOfColumns M. m' (matrix_element sz M ch p) =
       (if d \<le> p \<and> p < d + n then m (matrix_element sz M ch (s + (p - d))) else m (matrix_element sz M ch p))) \<and>
    same_outside (array_cells sz (mData M)) m m'"
proof -
  have sz0: "0 < sz" using sz by simp
  let ?S = "\<lambda>ch. elem sz (matrix_row sz M ch) s" and ?D = "\<lambda>ch. elem sz (matrix_row sz M ch) d"
  let ?k = "mNumberOfRows M"
  have disjoint_blocks: "disjoint_blocks sz n (elem sz (matrix_row sz M ch) x) (elem sz (matrix_row sz M ch') y)"
    if "x + n \<le> mNumberOfColumns M" "y + n \<le> mNumberOfColumns M" "ch' \<noteq> ch \<or> x + n \<le> y \<or> y + n \<le> x" for ch ch' x y
  proof -
    have False if i: "i < n" "j < n" and eq: "matrix_element sz M ch (x + i) = matrix_element sz M ch' (y + j)" for i j
      using element_inj [OF inv sz0 _ _ eq] i \<open>x + n \<le> mNumberOfColumns M\<close> \<open>y + n \<le> mNumberOfColumns M\<close>
        \<open>ch' \<noteq> ch \<or> x + n \<le> y \<or> y + n \<le> x\<close> by linarith
    then show ?thesis by (auto simp: disjoint_blocks_def element_offset)
  qed
  obtain m' where m': "copyChannels sz ?k ?S ?D n 1 m = Inr m'"
    "\<forall>ch < ?k. \<forall>i < n. m' (elem sz (?D ch) i) = m (elem sz (?S ch) i)"
    "same_outside (\<Union>ch<?k. elem sz (?D ch) ` {..<n}) m m'"
  proof -
    have "\<exists>m'. copyChannels sz ?k ?S ?D n 1 m = Inr m' \<and>
      (\<forall>ch < ?k. \<forall>i < n. m' (elem sz (?D ch) i) = m (elem sz (?S ch) i)) \<and>
      same_outside (\<Union>ch<?k. elem sz (?D ch) ` {..<n}) m m'"
    proof (rule copyChannels_spec [OF sz0])
      fix ch assume ch: "ch < ?k"
      have "checkAlignment sz (elem sz (matrix_row sz M ch) q) 1" if "q \<le> mNumberOfColumns M" for q
        using offset_pointer [OF sz inv ch that pos, of 1] by simp
      then show "checkAlignment sz (?S ch) 1 \<and> checkAlignment sz (?D ch) 1" using s d by simp
      show "safe n (elem sz (?S ch)) (elem sz (?D ch))"
        by (rule safe_disjoint) (use disjoint_blocks [OF s d, of ch ch] away in \<open>simp add: disjoint_blocks_def\<close>)
      fix ch' assume "ch' < ch"
      then show "disjoint_blocks sz n (?S ch) (?D ch')" "disjoint_blocks sz n (?D ch) (?D ch')"
        using disjoint_blocks [OF s d, of ch' ch] disjoint_blocks [OF d d, of ch' ch] by auto
    qed
    then show ?thesis using that by blast
  qed
  have img: "elem sz (?D ch) ` {..<n} = matrix_element sz M ch ` {d..<d + n}" for ch
  proof -
    have "{d..<d + n} = (+) d ` {..<n}" by (simp add: lessThan_atLeast0 add.commute)
    then show ?thesis by (simp add: element_offset image_image)
  qed
  have val: "m' (matrix_element sz M ch p) =
       (if d \<le> p \<and> p < d + n then m (matrix_element sz M ch (s + (p - d))) else m (matrix_element sz M ch p))"
    if ch: "ch < ?k" and p: "p < mNumberOfColumns M" for ch p
  proof (cases "d \<le> p \<and> p < d + n")
    case True
    then have "p - d < n" by auto
    then have "m' (elem sz (?D ch) (p - d)) = m (elem sz (?S ch) (p - d))" using m'(2) ch by blast
    then have "m' (matrix_element sz M ch (d + (p - d))) = m (matrix_element sz M ch (s + (p - d)))"
      unfolding element_offset .
    then show ?thesis using True by simp
  next
    case False
    have "matrix_element sz M ch p \<notin> matrix_element sz M c ` {d..<d + n}" for c
    proof
      assume "matrix_element sz M ch p \<in> matrix_element sz M c ` {d..<d + n}"
      then obtain q where q: "d \<le> q" "q < d + n" "matrix_element sz M ch p = matrix_element sz M c q" by auto
      then show False using element_inj [OF inv sz0 p _ q(3)] d False by simp
    qed
    then have "matrix_element sz M ch p \<notin> (\<Union>c<?k. elem sz (?D c) ` {..<n})" unfolding img by blast
    then have "m' (matrix_element sz M ch p) = m (matrix_element sz M ch p)" using m'(3) by (simp add: same_outside_def)
    then show ?thesis unfolding if_not_P [OF False] .
  qed
  have "(\<Union>c<?k. elem sz (?D c) ` {..<n}) \<subseteq> array_cells sz (mData M)"
    unfolding img using element_in_cells [OF inv] d by auto
  then show ?thesis using m'(1) val same_outside_mono [OF m'(3)] by blast
qed

lemma advance_spec:
  assumes sz: "sz = 2 ^ l" and inv: "circular_inv sz ao cb" and n: "n \<le> cbImplLength cb"
    and H: "\<And>ch p. ch < cbNumberOfChannels cb \<Longrightarrow> p < 2 * cbImplLength cb \<Longrightarrow>
      \<not> (cbWriteHeadIndex cb \<le> p \<and> p < cbWriteHeadIndex cb + n) \<Longrightarrow>
      m (matrix_element sz (cbBuffer cb) ch p)
      = H ch (age (cbImplLength cb) (cbWriteHeadIndex cb) (p mod cbImplLength cb))"
  shows "\<exists>m'. advanceWriteIndex sz cb (cbWriteHeadIndex cb) n m
      = Inr ((cbWriteHeadIndex cb + n) mod cbImplLength cb, m') \<and>
    history sz m' (cb\<lparr>cbWriteHeadIndex := (cbWriteHeadIndex cb + n) mod cbImplLength cb\<rparr>)
      (\<lambda>ch. appended n (\<lambda>i. m (matrix_element sz (cbBuffer cb) ch (cbWriteHeadIndex cb + i))) (H ch)) \<and>
    same_outside (array_cells sz (mData (cbBuffer cb))) m m'"
proof -
  let ?M = "cbBuffer cb" and ?L = "cbImplLength cb" and ?w = "cbWriteHeadIndex cb"
  define f where "f = min (?w + n) ?L - ?w"
  have w: "?w < ?L" and cols: "mNumberOfColumns ?M = 2 * ?L" and minv: "matrix_inv sz ao ?M"
    and rows: "mNumberOfRows ?M = cbNumberOfChannels cb"
    using inv by (auto simp: circular_inv_def)
  have fL: "f \<le> ?L - ?w" "f \<le> n" by (auto simp: f_def)
  obtain m1 where m1: "copyChannels sz (mNumberOfRows ?M) (\<lambda>ch. elem sz (matrix_row sz ?M ch) ?w)
        (\<lambda>ch. elem sz (matrix_row sz ?M ch) (?w + ?L)) f 1 m = Inr m1"
    "\<forall>ch < mNumberOfRows ?M. \<forall>p < mNumberOfColumns ?M. m1 (matrix_element sz ?M ch p) =
       (if ?w + ?L \<le> p \<and> p < ?w + ?L + f then m (matrix_element sz ?M ch (?w + (p - (?w + ?L))))
        else m (matrix_element sz ?M ch p))"
    "same_outside (array_cells sz (mData ?M)) m m1"
  proof -
    have "?w + f \<le> mNumberOfColumns ?M" "?w + ?L + f \<le> mNumberOfColumns ?M" "0 < mNumberOfColumns ?M"
      "?w + f \<le> ?w + ?L \<or> ?w + ?L + f \<le> ?w" using fL w cols by auto
    from shift_rows [OF sz minv this, of m] show ?thesis using that by blast
  qed
  define m2 where "m2 = (if f < n then copyChannels sz (mNumberOfRows ?M)
      (\<lambda>ch. elem sz (matrix_row sz ?M ch) ?L) (matrix_row sz ?M) (n - f) 1 m1 else Inr m1)"
  have "\<exists>m'. m2 = Inr m' \<and> (\<forall>ch < mNumberOfRows ?M. \<forall>p < mNumberOfColumns ?M. m' (matrix_element sz ?M ch p) =
      (if f < n then if p < n - f then m1 (matrix_element sz ?M ch (?L + p)) else m1 (matrix_element sz ?M ch p)
       else m1 (matrix_element sz ?M ch p))) \<and> same_outside (array_cells sz (mData ?M)) m1 m'"
  proof (cases "f < n")
    case True
    have base: "(\<lambda>ch. elem sz (matrix_row sz ?M ch) 0) = matrix_row sz ?M" by auto
    have "?L + (n - f) \<le> mNumberOfColumns ?M" "0 + (n - f) \<le> mNumberOfColumns ?M"
      "0 < mNumberOfColumns ?M" "?L + (n - f) \<le> 0 \<or> 0 + (n - f) \<le> ?L" using n w cols by auto
    from shift_rows [OF sz minv this, of m1] show ?thesis
      unfolding m2_def if_P [OF True] base diff_zero plus_nat.add_0 by (simp only: zero_le simp_thms)
  qed (simp add: m2_def same_outside_def)
  then obtain m' where m': "m2 = Inr m'"
    "\<forall>ch < mNumberOfRows ?M. \<forall>p < mNumberOfColumns ?M. m' (matrix_element sz ?M ch p) =
      (if f < n then if p < n - f then m1 (matrix_element sz ?M ch (?L + p)) else m1 (matrix_element sz ?M ch p)
       else m1 (matrix_element sz ?M ch p))" "same_outside (array_cells sz (mData ?M)) m1 m'" by blast
  have res: "advanceWriteIndex sz cb ?w n m = Inr ((?w + n) mod ?L, m')"
    using m1(1) m'(1) unfolding m2_def advanceWriteIndex_def Let_def f_def [symmetric] by simp
  have hist: "m' (matrix_element sz ?M ch p) = appended n (\<lambda>i. m (matrix_element sz ?M ch (?w + i))) (H ch)
      (age ?L ((?w + n) mod ?L) (p mod ?L))"
    if ch: "ch < cbNumberOfChannels cb" and p: "p < 2 * ?L" for ch p
  proof (rule ring_write [OF w n p refl f_def])
    show "m (matrix_element sz ?M ch q) = H ch (age ?L ?w (q mod ?L))"
      if "q < 2 * ?L" "\<not> (?w \<le> q \<and> q < ?w + n)" for q by (rule H [OF ch that])
    show "m1 (matrix_element sz ?M ch q) = (if ?w + ?L \<le> q \<and> q < ?w + ?L + f
        then m (matrix_element sz ?M ch (q - ?L)) else m (matrix_element sz ?M ch q))" if "q < 2 * ?L" for q
      using m1(2) ch rows cols that by auto
    show "m' (matrix_element sz ?M ch p) = (if f < n then if p < n - f then m1 (matrix_element sz ?M ch (?L + p))
        else m1 (matrix_element sz ?M ch p) else m1 (matrix_element sz ?M ch p))"
      using m'(2) ch p rows cols by simp
  qed
  show ?thesis using res hist same_outside_trans [OF m1(3) m'(3)] by (auto simp: history_def)
qed

section \<open>Writing and reading\<close>

text \<open>What the three overloads of \<open>write\<close> have in common.\<close>

definition write_from ::
  "nat \<Rightarrow> circular_buffer \<Rightarrow> (nat \<Rightarrow> nat) \<Rightarrow> nat \<Rightarrow> nat \<Rightarrow> 'a memory \<Rightarrow> exn + circular_buffer \<times> 'a memory" where
  "write_from sz cb src n a m =
     bindE (copyChannels sz (cbNumberOfChannels cb) src (getWritePointers sz cb) n (min a 1) m) (\<lambda>m.
     bindE (advanceWriteIndex sz cb (cbWriteHeadIndex cb) n m) (\<lambda>(w, m).
     Inr (cb\<lparr>cbWriteHeadIndex := w\<rparr>, m)))"

lemma write_overloads:
  "write_pointers sz cb src channels n a m =
    (if channels \<noteq> cbNumberOfChannels cb \<or> cbLength cb < n then Inl invalid_argument
     else write_from sz cb src n a m)"
  "write_strided sz cb p stride channels n a m =
    (if channels \<noteq> cbNumberOfChannels cb \<or> cbLength cb < n then Inl invalid_argument
     else write_from sz cb (\<lambda>ch. elem sz p (ch * stride)) n a m)"
  "write_matrix sz cb R m =
    (if mNumberOfRows R \<noteq> cbNumberOfChannels cb \<or> cbLength cb < mNumberOfColumns R then Inl invalid_argument
     else write_from sz cb (matrix_row sz R) (mNumberOfColumns R) (mAlignment (mData R)) m)"
  by (simp_all add: write_pointers_def write_strided_def write_matrix_def write_from_def Let_def)

lemma write_pointer_row:
  "circular_inv sz ao cb \<Longrightarrow>
   getWritePointers sz cb ch = elem sz (matrix_row sz (cbBuffer cb) ch) (cbWriteHeadIndex cb)"
  by (simp add: getWritePointers_def matrix_row_def circular_inv_def algebra_simps)

text \<open>A source that the caller may pass: aligned to its element type, outside the buffer.\<close>

definition readable :: "nat \<Rightarrow> circular_buffer \<Rightarrow> (nat \<Rightarrow> nat) \<Rightarrow> nat \<Rightarrow> bool" where
  "readable sz cb src n \<longleftrightarrow>
     (\<forall>ch < cbNumberOfChannels cb. sz dvd src ch \<and> src ch < 2 ^ 64 \<and>
        (\<forall>i < n. elem sz (src ch) i \<notin> array_cells sz (mData (cbBuffer cb))))"

lemma write_from_spec:
  assumes sz: "sz = 2 ^ l" and l: "l < 64" and inv: "circular_inv sz ao cb" and H: "history sz m cb H"
    and src: "readable sz cb src n" and n: "n \<le> cbLength cb"
  shows "\<exists>m'. write_from sz cb src n a m
      = Inr (cb\<lparr>cbWriteHeadIndex := (cbWriteHeadIndex cb + n) mod cbImplLength cb\<rparr>, m') \<and>
    history sz m' (cb\<lparr>cbWriteHeadIndex := (cbWriteHeadIndex cb + n) mod cbImplLength cb\<rparr>)
      (\<lambda>ch. appended n (\<lambda>i. m (elem sz (src ch) i)) (H ch)) \<and>
    same_outside (array_cells sz (mData (cbBuffer cb))) m m'"
proof -
  let ?M = "cbBuffer cb" and ?L = "cbImplLength cb" and ?w = "cbWriteHeadIndex cb" and ?N = "cbNumberOfChannels cb"
  have sz0: "0 < sz" using sz by simp
  have minv: "matrix_inv sz ao ?M" and w: "?w < ?L" and nL: "n \<le> ?L" and cols: "mNumberOfColumns ?M = 2 * ?L"
    and rows: "mNumberOfRows ?M = ?N" using inv n by (auto simp: circular_inv_def)
  note ptr = write_pointer_row [OF inv]
  have wpos: "?w + i < mNumberOfColumns ?M" if "i < n" for i using that w nL cols by simp
  have dst: "elem sz (getWritePointers sz cb ch) i = matrix_element sz ?M ch (?w + i)" for ch i
    unfolding ptr element_offset ..
  have in_cells: "matrix_element sz ?M ch (?w + i) \<in> array_cells sz (mData ?M)" if "ch < ?N" "i < n" for ch i
    by (rule element_in_cells [OF minv]) (use that rows wpos in auto)
  have sa: "sz dvd src ch" "src ch < 2 ^ 64" "\<And>i. i < n \<Longrightarrow> elem sz (src ch) i \<notin> array_cells sz (mData ?M)"
    if "ch < ?N" for ch using src that by (auto simp: readable_def)
  have ap: "disjoint_blocks sz n (src ch) (getWritePointers sz cb ch')" if "ch < ?N" "ch' < ?N" for ch ch'
  proof -
    have "elem sz (src ch) ` {..<n} \<inter> array_cells sz (mData ?M) = {}" using sa(3) [OF that(1)] by blast
    moreover have "elem sz (getWritePointers sz cb ch') ` {..<n} \<subseteq> array_cells sz (mData ?M)"
      unfolding dst using in_cells [OF that(2)] by blast
    ultimately show ?thesis unfolding disjoint_blocks_def by blast
  qed
  obtain m1 where m1: "copyChannels sz ?N src (getWritePointers sz cb) n (min a 1) m = Inr m1"
    "\<forall>ch < ?N. \<forall>i < n. m1 (elem sz (getWritePointers sz cb ch) i) = m (elem sz (src ch) i)"
    "same_outside (\<Union>ch<?N. elem sz (getWritePointers sz cb ch) ` {..<n}) m m1"
  proof -
    have "\<exists>m'. copyChannels sz ?N src (getWritePointers sz cb) n (min a 1) m = Inr m' \<and>
      (\<forall>ch < ?N. \<forall>i < n. m' (elem sz (getWritePointers sz cb ch) i) = m (elem sz (src ch) i)) \<and>
      same_outside (\<Union>ch<?N. elem sz (getWritePointers sz cb ch) ` {..<n}) m m'"
    proof (rule copyChannels_spec [OF sz0])
      fix ch assume ch: "ch < ?N"
      have "checkAlignment sz (getWritePointers sz cb ch) (min a 1)"
        unfolding ptr by (rule offset_pointer [OF sz minv]) (use ch rows w cols in auto)
      then show "checkAlignment sz (src ch) (min a 1) \<and> checkAlignment sz (getWritePointers sz cb ch) (min a 1)"
        using checkAlignment_min1 [OF sz l sa(1,2) [OF ch]] by simp
      show "safe n (elem sz (src ch)) (elem sz (getWritePointers sz cb ch))"
        using ap [OF ch ch] unfolding disjoint_blocks_def by (rule safe_disjoint)
      fix ch' assume ch': "ch' < ch"
      then show "disjoint_blocks sz n (src ch) (getWritePointers sz cb ch')" using ap [OF ch] ch by simp
      have False if "i < n" "j < n" "matrix_element sz ?M ch (?w + i) = matrix_element sz ?M ch' (?w + j)" for i j
        using element_inj [OF minv sz0 wpos [OF that(1)] wpos [OF that(2)] that(3)] ch' by simp
      then show "disjoint_blocks sz n (getWritePointers sz cb ch) (getWritePointers sz cb ch')" unfolding disjoint_blocks_def dst by auto
    qed
    then show ?thesis using that by blast
  qed
  have img: "(\<Union>ch<?N. elem sz (getWritePointers sz cb ch) ` {..<n}) \<subseteq> array_cells sz (mData ?M)"
    unfolding dst using in_cells by blast
  have old: "m1 (matrix_element sz ?M ch p) = H ch (age ?L ?w (p mod ?L))"
    if ch: "ch < ?N" and p: "p < 2 * ?L" and out: "\<not> (?w \<le> p \<and> p < ?w + n)" for ch p
  proof -
    have "matrix_element sz ?M ch p \<noteq> matrix_element sz ?M c (?w + i)" if "i < n" for c i
      using element_inj [OF minv sz0 _ wpos [OF that], of p ch c] p cols out that by auto
    then have "matrix_element sz ?M ch p \<notin> (\<Union>c<?N. elem sz (getWritePointers sz cb c) ` {..<n})"
      unfolding dst by blast
    then have "m1 (matrix_element sz ?M ch p) = m (matrix_element sz ?M ch p)" using m1(3) by (simp add: same_outside_def)
    then show ?thesis using H ch p by (simp add: history_def)
  qed
  let ?cb = "cb\<lparr>cbWriteHeadIndex := (?w + n) mod ?L\<rparr>"
  obtain m' where m': "advanceWriteIndex sz cb ?w n m1 = Inr ((?w + n) mod ?L, m')"
    "history sz m' ?cb (\<lambda>ch. appended n (\<lambda>i. m1 (matrix_element sz ?M ch (?w + i))) (H ch))"
    "same_outside (array_cells sz (mData ?M)) m1 m'"
    using advance_spec [OF sz inv nL, of m1 H] old by blast
  have "history sz m' ?cb (\<lambda>ch. appended n (\<lambda>i. m (elem sz (src ch) i)) (H ch))"
    unfolding history_def
  proof (intro allI impI)
    fix ch p assume ch: "ch < cbNumberOfChannels ?cb" and p: "p < 2 * cbImplLength ?cb"
    have "m1 (matrix_element sz ?M ch (?w + i)) = m (elem sz (src ch) i)" if "i < n" for i
      using m1(2) [unfolded dst] ch that by simp
    then have "appended n (\<lambda>i. m1 (matrix_element sz ?M ch (?w + i))) (H ch)
        = appended n (\<lambda>i. m (elem sz (src ch) i)) (H ch)"
      by (rule appended_cong)
    then show "m' (matrix_element sz (cbBuffer ?cb) ch p) = appended n (\<lambda>i. m (elem sz (src ch) i)) (H ch)
        (age (cbImplLength ?cb) (cbWriteHeadIndex ?cb) (p mod cbImplLength ?cb))"
      using m'(2) ch p unfolding history_def by metis
  qed
  moreover have "same_outside (array_cells sz (mData ?M)) m m'"
    by (rule same_outside_trans [OF same_outside_mono [OF m1(3) img] m'(3)])
  moreover have "write_from sz cb src n a m = Inr (?cb, m')"
    unfolding write_from_def using m1(1) m'(1) by simp
  ultimately show ?thesis by blast
qed

text \<open>The window that a read pointer opens: the last \<open>d\<close> samples, oldest first.\<close>

lemma read_window:
  assumes inv: "circular_inv sz ao cb" and H: "history sz m cb H" and ch: "ch < cbNumberOfChannels cb"
    and d: "d \<le> cbImplLength cb" and j: "j < d"
  shows "m (elem sz (getReadPointer sz cb ch d) j) = H ch (d - 1 - j)"
proof -
  let ?L = "cbImplLength cb" and ?w = "cbWriteHeadIndex cb" and ?M = "cbBuffer cb"
  have w: "?w < ?L" using inv by (simp add: circular_inv_def)
  let ?p = "?L + ?w - d + j"
  have p: "?p < 2 * ?L" using w d j by simp
  have split: "ch * mStride ?M + ?L + ?w = (ch * mStride ?M + (?L + ?w - d)) + d" using d by simp
  have "getReadPointer sz cb ch d = mAlignedStorage (mData ?M) + (ch * mStride ?M + ?L + ?w) * sz - d * sz"
    using inv by (simp add: getReadPointer_def circular_inv_def)
  also have "\<dots> = elem sz (mAlignedStorage (mData ?M)) (ch * mStride ?M + (?L + ?w - d))"
    unfolding split add_mult_distrib by simp
  also have "\<dots> = elem sz (matrix_row sz ?M ch) (?L + ?w - d)" by (simp add: matrix_row_def algebra_simps)
  finally have "elem sz (getReadPointer sz cb ch d) j = matrix_element sz ?M ch ?p" by (simp only: element_offset)
  then have "m (elem sz (getReadPointer sz cb ch d) j) = H ch (age ?L ?w (?p mod ?L))"
    using H ch p by (simp add: history_def)
  moreover have "age ?L ?w (?p mod ?L) = d - 1 - j"
  proof -
    have "?p mod ?L = (if ?p < ?L then ?p else ?p - ?L)" using p by (simp add: mod_if)
    then show ?thesis using w d j by (auto simp: age_def)
  qed
  ultimately show ?thesis by simp
qed

text \<open>A new buffer represents a history of zeros.\<close>

lemma CircularBuffer_spec:
  fixes m :: "'a::zero memory"
  assumes "al = 0 \<or> (\<exists>k. al = 2 ^ k)" "max 1 al * sz < 2 ^ 64" "0 < sz" "ao dvd sz" "0 < len"
    "fresh ao raw ((nextAlignedSize (2 * nextAlignedSize len al) al * channels + max 1 al) * sz)"
  shows "\<exists>cb m'. CircularBuffer sz ao raw channels len al m = Inr (cb, m') \<and> circular_inv sz ao cb \<and>
    cbNumberOfChannels cb = channels \<and> cbLength cb = len \<and> history sz m' cb (\<lambda>ch k. 0) \<and>
    same_outside (array_cells sz (mData (cbBuffer cb))) m m'"
proof -
  let ?L = "nextAlignedSize len al"
  obtain M m' where M: "BasicMatrix sz ao raw channels (2 * ?L) al m = Inr (M, m')" "matrix_inv sz ao M"
    "mNumberOfRows M = channels" "mNumberOfColumns M = 2 * ?L"
    "matrix_values sz m' M = replicate channels (replicate (2 * ?L) 0)" "same_outside (array_cells sz (mData M)) m m'"
    using BasicMatrix_spec [OF assms(1-4,6), of m] by blast
  have "len \<le> ?L" by (rule nextAlignedSize_props)
  moreover have "m' (matrix_element sz M ch p) = 0" if "ch < channels" "p < 2 * ?L" for ch p
  proof -
    have "matrix_values sz m' M ! ch ! p = m' (matrix_element sz M ch p)"
      using that M(3,4) by (simp add: matrix_values_def)
    then show ?thesis using M(5) that by simp
  qed
  ultimately show ?thesis using M assms(5)
    by (auto simp: CircularBuffer_def circular_inv_def history_def Let_def)
qed

text \<open>
  C13 (circular_buffer_spec): a ring buffer that represents a history of samples, after a write of
  any admissible number of samples, represents the history with the samples appended, wherever
  the write position is and whether or not the write wraps around; for every delay up to the
  allocated length the read pointer opens a window without wrap-around on exactly the last
  samples of the channel, oldest first. A write of too many samples or with another number of
  channels is refused, and so are the read pointers for a delay of the whole length or more.
\<close>

theorem circular_buffer_spec:
  assumes "sz = 2 ^ l" and "l < 64" and "circular_inv sz ao cb" and "history sz m cb H"
    and "readable sz cb (\<lambda>ch. elem sz p (ch * stride)) n"
  shows "(if channels \<noteq> cbNumberOfChannels cb \<or> cbLength cb < n
      then write_strided sz cb p stride channels n a m = Inl invalid_argument
      else \<exists>cb' m'. write_strided sz cb p stride channels n a m = Inr (cb', m') \<and>
        circular_inv sz ao cb' \<and> cbLength cb' = cbLength cb \<and>
        history sz m' cb' (\<lambda>ch. appended n (\<lambda>i. m (elem sz p (ch * stride + i))) (H ch)) \<and>
        same_outside (array_cells sz (mData (cbBuffer cb))) m m') \<and>
    (\<forall>ch < cbNumberOfChannels cb. \<forall>d \<le> cbAllocatedLength cb. \<forall>j < d.
       m (elem sz (getReadPointer sz cb ch d) j) = H ch (d - 1 - j)) \<and>
    (getReadPointers sz cb delay = (if cbLength cb \<le> delay then Inl invalid_argument
       else Inr (map (\<lambda>ch. getReadPointer sz cb ch delay) [0..<cbNumberOfChannels cb])))"
proof (intro conjI)
  have L: "cbAllocatedLength cb = cbImplLength cb" "cbWriteHeadIndex cb < cbImplLength cb"
    using assms(3) by (simp_all add: circular_inv_def)
  show "if channels \<noteq> cbNumberOfChannels cb \<or> cbLength cb < n
      then write_strided sz cb p stride channels n a m = Inl invalid_argument
      else \<exists>cb' m'. write_strided sz cb p stride channels n a m = Inr (cb', m') \<and>
        circular_inv sz ao cb' \<and> cbLength cb' = cbLength cb \<and>
        history sz m' cb' (\<lambda>ch. appended n (\<lambda>i. m (elem sz p (ch * stride + i))) (H ch)) \<and>
        same_outside (array_cells sz (mData (cbBuffer cb))) m m'"
  proof (cases "channels \<noteq> cbNumberOfChannels cb \<or> cbLength cb < n")
    case False
    let ?cb = "cb\<lparr>cbWriteHeadIndex := (cbWriteHeadIndex cb + n) mod cbImplLength cb\<rparr>"
    have src: "elem sz (elem sz p (ch * stride)) i = elem sz p (ch * stride + i)" for ch i
      by (simp add: algebra_simps)
    have "circular_inv sz ao ?cb" using assms(3) L by (simp add: circular_inv_def)
    moreover have "cbLength ?cb = cbLength cb" by simp
    ultimately show ?thesis
      using write_from_spec [OF assms(1-5), of a] False unfolding write_overloads if_not_P [OF False] src by auto
  qed (simp add: write_overloads)
  show "\<forall>ch < cbNumberOfChannels cb. \<forall>d \<le> cbAllocatedLength cb. \<forall>j < d.
       m (elem sz (getReadPointer sz cb ch d) j) = H ch (d - 1 - j)"
    using read_window [OF assms(3,4)] L(1) by simp
  show "getReadPointers sz cb delay = (if cbLength cb \<le> delay then Inl invalid_argument
       else Inr (map (\<lambda>ch. getReadPointer sz cb ch delay) [0..<cbNumberOfChannels cb]))"
    by (simp add: getReadPointers_def getReadPointer_def)
qed

text \<open>
  One channel of length 4, with the write position at 3 and the samples 10, 20, 30, 40 in it, is
  extended by the samples 7 and 8 that are at 1000.
\<close>

definition ex_ring :: circular_buffer where
  "ex_ring =
     \<lparr>cbBuffer = \<lparr>mStride = 8, mNumberOfRows = 1, mNumberOfColumns = 8,
        mData = \<lparr>mAlignment = 1, mArrayLength = 8, mRawStorage = 64, mAlignedStorage = 64\<rparr>\<rparr>,
      cbImplLength = 4, cbLength = 4, cbAllocatedLength = 4, cbStride = 8, cbNumberOfChannels = 1,
      cbBasePointer = 64, cbWriteHeadIndex = 3\<rparr>"

definition ex_samples :: "int memory" where
  "ex_samples a = (if a < 1000 then [10, 20, 30, 40, 10, 20, 30, 40] ! ((a - 64) div 4) else if a = 1000 then 7 else 8)"

lemma ex_ring_ok:
  "circular_inv 4 4 ex_ring"
  "history 4 ex_samples ex_ring (\<lambda>ch k. [30, 20, 10, 40] ! k)"
  "readable 4 ex_ring (\<lambda>ch. elem 4 1000 (ch * 2)) 2"
proof -
  have "\<exists>k. 1 = (2::nat) ^ k \<and> (2::nat) ^ k * 4 < 2 ^ 64" by (rule exI [of _ 0]) simp
  then show "circular_inv 4 4 ex_ring"
    by (simp add: ex_ring_def circular_inv_def matrix_inv_def array_inv_def worstCaseLength_def nextAlignedSize_def)
  show "history 4 ex_samples ex_ring (\<lambda>ch k. [30, 20, 10, 40] ! k)"
  proof -
    have "\<forall>p \<in> set [0..<8]. ex_samples (matrix_element 4 (cbBuffer ex_ring) 0 p) = [30, 20, 10, 40] ! age 4 3 (p mod 4)"
      by code_simp
    then show ?thesis by (simp add: history_def ex_ring_def)
  qed
  show "readable 4 ex_ring (\<lambda>ch. elem 4 1000 (ch * 2)) 2"
    by (auto simp: readable_def ex_ring_def array_cells_def)
qed

theorem circular_buffer_spec_witness:
  "\<exists>cb' m'. write_strided 4 ex_ring 1000 2 1 2 0 ex_samples = Inr (cb', m') \<and>
     history 4 m' cb' (\<lambda>ch. appended 2 (\<lambda>i. ex_samples (elem 4 1000 (ch * 2 + i))) (\<lambda>k. [30, 20, 10, 40] ! k))"
proof -
  have "(4::nat) = 2 ^ 2" "(2::nat) < 64" by simp_all
  note w = circular_buffer_spec [OF this ex_ring_ok, of 1 0 0, THEN conjunct1]
  have "\<not> (1 \<noteq> cbNumberOfChannels ex_ring \<or> cbLength ex_ring < 2)" by (simp add: ex_ring_def)
  then show ?thesis using w unfolding if_not_P [OF \<open>\<not> (1 \<noteq> cbNumberOfChannels ex_ring \<or> cbLength ex_ring < 2)\<close>] by blast
qed

end
