(* ===== verification/Delay_Line.thy ===== *)
theory Delay_Line
  imports Lagrange Circular_Buffer
begin

text \<open>
  The multichannel delay line (\<open>src/librbbl/multichannel_delay_line.cpp\<close>) over the ring buffer,
  with its fractional-delay interpolators (\<open>lagrange_interpolator.cpp\<close>) and the table of them
  (\<open>fractional_delay_factory.cpp\<close>). Samples, delays and gains are elements of an ordered field
  with floor and ceiling; rounding of floating-point numbers is not modelled.
\<close>

section \<open>The interpolator\<close>

record lagrange_interpolator =
  liOrder :: nat
  liDelays :: aligned_array
  liGains :: aligned_array

definition LagrangeInterpolator ::
  "nat \<Rightarrow> nat \<Rightarrow> nat \<Rightarrow> nat \<Rightarrow> nat \<Rightarrow> nat \<Rightarrow> nat \<Rightarrow> 'a::zero memory \<Rightarrow> exn + lagrange_interpolator \<times> 'a memory" where
  "LagrangeInterpolator sz ao raw1 raw2 order maxNumSamples alignmentElements m =
     bindE (BasicVector sz ao raw1 maxNumSamples alignmentElements m) (\<lambda>(delays, m).
     bindE (BasicVector sz ao raw2 maxNumSamples alignmentElements m) (\<lambda>(gains, m).
     Inr (\<lparr>liOrder = order, liDelays = delays, liGains = gains\<rparr>, m)))"

definition methodDelay :: "lagrange_interpolator \<Rightarrow> 'a::field" where
  "methodDelay li = 1 / 2 * of_nat (liOrder li)"

text \<open>Conversion to an integer truncates towards zero.\<close>

definition baseOffset :: "'a::floor_ceiling \<Rightarrow> int" where
  "baseOffset delay = (if delay > 0 then \<lfloor>delay + 1 / 2\<rfloor> else \<lceil>delay - 1 / 2\<rceil>)"

definition back_address :: "nat \<Rightarrow> nat \<Rightarrow> int \<Rightarrow> nat" where
  "back_address sz base off = nat (int base + off * int sz)"

text \<open>\<open>std::inner_product\<close> of the reversed coefficients with the samples from the base offset on.\<close>

definition interpolated_sample :: "nat \<Rightarrow> nat \<Rightarrow> nat \<Rightarrow> 'a memory \<Rightarrow> 'a::floor_ceiling \<Rightarrow> 'a" where
  "interpolated_sample sz order base m delay =
     (let off = baseOffset delay;
          intersamplePosition = delay - of_int off;
          lagrangeCoefficients = calculateCoefficients order True intersamplePosition
      in foldl (+) 0 (map (\<lambda>k. rev lagrangeCoefficients ! k * m (back_address sz base (off + int k)))
                        [0..<order + 1]))"

definition interpolate ::
  "nat \<Rightarrow> lagrange_interpolator \<Rightarrow> nat \<Rightarrow> nat \<Rightarrow> nat \<Rightarrow> 'a \<Rightarrow> 'a \<Rightarrow> 'a \<Rightarrow> 'a \<Rightarrow> 'a::floor_ceiling memory
   \<Rightarrow> exn + 'a memory" where
  "interpolate sz li base result numSamples startDelay endDelay startGain endGain m =
     (if mArrayLength (liDelays li) < numSamples then Inl invalid_argument
      else case vectorRamp of_nat (1 / 2) sz (mAlignedStorage (liGains li)) numSamples startGain endGain
                  False True (mAlignment (liGains li)) m of
        (res, m) \<Rightarrow>
          if res \<noteq> noError then Inl runtime_error
          else
            let adjustedStartTimeOffset = - of_nat (numSamples + liOrder li) - startDelay;
                adjustedEndTimeOffset = - of_nat (liOrder li) - endDelay
            in case vectorRamp of_nat (1 / 2) sz (mAlignedStorage (liDelays li)) numSamples
                      adjustedStartTimeOffset adjustedEndTimeOffset False True (mAlignment (liDelays li)) m of
                 (res, m) \<Rightarrow>
                   if res \<noteq> noError then Inl runtime_error
                   else Inr (for_each numSamples (elem sz result)
                     (\<lambda>s m. m (elem sz (mAlignedStorage (liGains li)) s) *
                        interpolated_sample sz (liOrder li) base m
                          (m (elem sz (mAlignedStorage (liDelays li)) s))) m))"

section \<open>The table of interpolators\<close>

text \<open>
  The static object that fills the table exists for \<open>float\<close> only: the table for \<open>double\<close> stays
  empty.
\<close>

datatype element_type = floatType | doubleType

definition creatorTable :: "element_type \<Rightarrow> string \<Rightarrow> nat option" where
  "creatorTable t =
     (case t of
        floatType \<Rightarrow> map_of [(''nearestSample'', 0), (''lagrangeOrder0'', 0), (''lagrangeOrder1'', 1),
                 (''lagrangeOrder2'', 2), (''lagrangeOrder3'', 3), (''lagrangeOrder4'', 4),
                 (''lagrangeOrder5'', 5), (''lagrangeOrder6'', 6), (''lagrangeOrder7'', 7),
                 (''lagrangeOrder8'', 8), (''lagrangeOrder9'', 9)]
      | doubleType \<Rightarrow> Map.empty)"

definition fractional_delay_create ::
  "element_type \<Rightarrow> nat \<Rightarrow> nat \<Rightarrow> nat \<Rightarrow> nat \<Rightarrow> string \<Rightarrow> nat \<Rightarrow> 'a::zero memory
   \<Rightarrow> (exn + lagrange_interpolator \<times> 'a memory) option" where
  "fractional_delay_create t sz ao raw1 raw2 name maxNumSamples m =
     (case creatorTable t name of
        None \<Rightarrow> None
      | Some order \<Rightarrow> Some (LagrangeInterpolator sz ao raw1 raw2 order maxNumSamples 0 m))"

section \<open>The delay line\<close>

datatype method_delay_policy = AddMethodDelay | LimitMethodDelay | RejectMethodDelay

record 'a delay_line =
  cBlockLength :: nat
  cSamplingFrequency :: 'a
  cMaxDelaySamples :: 'a
  cMethodDelayPolicy :: method_delay_policy
  mRingbuffer :: circular_buffer
  mInterpolator :: lagrange_interpolator
  cMethodDelay :: 'a

definition MultichannelDelayLine ::
  "element_type \<Rightarrow> nat \<Rightarrow> nat \<Rightarrow> nat \<Rightarrow> nat \<Rightarrow> nat \<Rightarrow> nat \<Rightarrow> nat \<Rightarrow> nat \<Rightarrow> 'a \<Rightarrow> string \<Rightarrow> method_delay_policy \<Rightarrow> nat
   \<Rightarrow> 'a::floor_ceiling memory \<Rightarrow> exn + 'a delay_line \<times> 'a memory" where
  "MultichannelDelayLine t sz ao raw raw1 raw2 numberOfChannels samplingFrequency blockLength
       maxDelaySeconds interpolationMethod methodDelayPolicy alignment m =
     (let maxDelay = of_int \<lceil>maxDelaySeconds * of_nat samplingFrequency\<rceil>
      in bindE (CircularBuffer sz ao raw numberOfChannels (nat \<lfloor>maxDelay\<rfloor> + blockLength) alignment m)
           (\<lambda>(ringbuffer, m).
         case fractional_delay_create t sz ao raw1 raw2 interpolationMethod blockLength m of
           None \<Rightarrow> Inl invalid_argument
         | Some r \<Rightarrow> bindE r (\<lambda>(interpolator, m).
             Inr (\<lparr>cBlockLength = blockLength, cSamplingFrequency = of_nat samplingFrequency,
                   cMaxDelaySamples = maxDelay, cMethodDelayPolicy = methodDelayPolicy,
                   mRingbuffer = ringbuffer, mInterpolator = interpolator,
                   cMethodDelay = methodDelay interpolator\<rparr>, m))))"

definition methodDelaySeconds :: "'a::field delay_line \<Rightarrow> 'a" where
  "methodDelaySeconds dl = cMaxDelaySamples dl / cSamplingFrequency dl"

definition methodDelaySamples :: "'a delay_line \<Rightarrow> 'a" where
  "methodDelaySamples dl = cMaxDelaySamples dl"

text \<open>\<open>eps\<close> is \<open>std::numeric_limits<SampleType>::epsilon()\<close>.\<close>

definition adjustDelay :: "'a \<Rightarrow> 'a::linordered_field delay_line \<Rightarrow> 'a \<Rightarrow> exn + 'a" where
  "adjustDelay eps dl rawDelay =
     (let rawDelay = rawDelay * cSamplingFrequency dl
      in if rawDelay > cMaxDelaySamples dl then Inl out_of_range
         else case cMethodDelayPolicy dl of
           AddMethodDelay \<Rightarrow> if rawDelay < - eps then Inl out_of_range else Inr rawDelay
         | LimitMethodDelay \<Rightarrow> Inr (max (rawDelay - cMethodDelay dl) 0)
         | RejectMethodDelay \<Rightarrow> if rawDelay < cMethodDelay dl then Inl out_of_range
                              else Inr (rawDelay - cMethodDelay dl))"

definition delay_line_write ::
  "nat \<Rightarrow> 'a delay_line \<Rightarrow> nat \<Rightarrow> nat \<Rightarrow> nat \<Rightarrow> nat \<Rightarrow> 'a memory \<Rightarrow> exn + 'a delay_line \<times> 'a memory" where
  "delay_line_write sz dl input channelStride numberOfChannels alignment m =
     (if numberOfChannels \<noteq> cbNumberOfChannels (mRingbuffer dl) then Inl invalid_argument
      else bindE (write_strided sz (mRingbuffer dl) input channelStride numberOfChannels (cBlockLength dl)
                    alignment m) (\<lambda>(ring, m).
           Inr (dl\<lparr>mRingbuffer := ring\<rparr>, m)))"

definition delay_line_interpolate ::
  "'a \<Rightarrow> nat \<Rightarrow> 'a delay_line \<Rightarrow> nat \<Rightarrow> nat \<Rightarrow> nat \<Rightarrow> 'a \<Rightarrow> 'a \<Rightarrow> 'a \<Rightarrow> 'a \<Rightarrow> 'a::floor_ceiling memory
   \<Rightarrow> exn + 'a memory" where
  "delay_line_interpolate eps sz dl result channelIdx numberOfSamples startDelay endDelay startGain endGain m =
     (if cbNumberOfChannels (mRingbuffer dl) \<le> channelIdx then Inl invalid_argument
      else bindE (adjustDelay eps dl startDelay) (\<lambda>d0.
           bindE (adjustDelay eps dl endDelay) (\<lambda>d1.
           interpolate sz (mInterpolator dl) (getReadPointer sz (mRingbuffer dl) channelIdx 1) result
             numberOfSamples d0 d1 startGain endGain m)))"

section \<open>The ramps\<close>

lemma for_each_stored:
  assumes "inj_on dest {..<n}"
    and "\<And>i m'. i < n \<Longrightarrow> (\<forall>a. a \<notin> dest ` {..<i} \<longrightarrow> m' a = m a) \<Longrightarrow> f i m' = g i"
  shows "stored n dest g m (for_each n dest f m)"
proof -
  have "outcome 1 0 [] n dest g m (checked 1 0 [] m (for_each n dest f m))"
    by (rule checked_for_each [OF assms])
  then show ?thesis by (auto dest: outcome_unaligned simp: checked_def)
qed

text \<open>A ramp without the start value and with the end value.\<close>

lemma ramp_stored:
  fixes x y :: "'a::field_char_0"
  assumes "0 < sz" "checkAlignment sz d al"
  shows "\<exists>m'. vectorRamp of_nat (1 / 2) sz d n x y False True al m = (noError, m') \<and>
    stored n (elem sz d) (\<lambda>i. x + of_nat (i + 1) * ((y - x) / of_nat n)) m m'"
proof -
  consider "n = 0" | "n = 1" | "2 \<le> n" by linarith
  then show ?thesis
  proof cases
    case 1
    then show ?thesis using assms(2) by (simp add: vectorRamp_def checked_def stored_def)
  next
    case 2
    then show ?thesis using assms(2) by (auto simp: vectorRamp_def checked_def stored_def Let_def)
  next
    case 3
    let ?f = "\<lambda>i m. x + of_nat (1 + i) * ((y - x) / of_nat n)"
    have "vectorRamp of_nat (1 / 2) sz d n x y False True al m = (noError, for_each n (elem sz d) ?f m)"
      using 3 assms(2) by (simp add: vectorRamp_def checked_def Let_def)
    moreover have "stored n (elem sz d) (\<lambda>i. x + of_nat (i + 1) * ((y - x) / of_nat n)) m (for_each n (elem sz d) ?f m)"
      by (rule for_each_stored [OF inj_elem [OF assms(1)]]) (simp add: add.commute)
    ultimately show ?thesis by blast
  qed
qed

lemma array_own_alignment:
  assumes "sz = 2 ^ l" "array_inv sz ao v"
  shows "checkAlignment sz (mAlignedStorage v) (mAlignment v)"
proof -
  obtain k where "mAlignment v = 2 ^ k" using assms(2) by (auto simp: array_inv_def)
  then show ?thesis by (rule array_inv_aligned [OF assms order_refl])
qed

section \<open>Interpolation\<close>

definition ramp :: "nat \<Rightarrow> 'a \<Rightarrow> 'a \<Rightarrow> nat \<Rightarrow> 'a::field" where
  "ramp n x y s = x + of_nat (s + 1) * ((y - x) / of_nat n)"

lemma interpolated_sample_cong:
  assumes "\<And>k. k \<le> order \<Longrightarrow> m (back_address sz base (baseOffset delay + int k))
    = m' (back_address sz base (baseOffset delay + int k))"
  shows "interpolated_sample sz order base m delay = interpolated_sample sz order base m' delay"
proof -
  have "map (\<lambda>k. c ! k * m (back_address sz base (baseOffset delay + int k))) [0..<order + 1]
      = map (\<lambda>k. c ! k * m' (back_address sz base (baseOffset delay + int k))) [0..<order + 1]" for c
    using assms by (intro map_cong) auto
  then show ?thesis unfolding interpolated_sample_def Let_def by (simp only:)
qed

lemma interpolate_spec:
  fixes m :: "'a::floor_ceiling memory" and startDelay endDelay startGain endGain :: 'a
  assumes sz: "sz = 2 ^ l"
    and arr: "array_inv sz ao (liDelays li)" "array_inv sz ao (liGains li)"
    and len: "n \<le> mArrayLength (liDelays li)" "n \<le> mArrayLength (liGains li)"
    and disjoint_blocks: "array_cells sz (liDelays li) \<inter> array_cells sz (liGains li) = {}"
    and res: "elem sz result ` {..<n} \<inter> (array_cells sz (liDelays li) \<union> array_cells sz (liGains li)) = {}"
    and A: "A \<inter> (elem sz result ` {..<n} \<union> array_cells sz (liDelays li) \<union> array_cells sz (liGains li)) = {}"
    and delay: "delay = ramp n (- of_nat (n + liOrder li) - startDelay) (- of_nat (liOrder li) - endDelay)"
    and src: "\<And>s k. s < n \<Longrightarrow> k \<le> liOrder li \<Longrightarrow> back_address sz base (baseOffset (delay s) + int k) \<in> A"
  shows "\<exists>m'. interpolate sz li base result n startDelay endDelay startGain endGain m = Inr m' \<and>
    (\<forall>s < n. m' (elem sz result s) = ramp n startGain endGain s * interpolated_sample sz (liOrder li) base m (delay s)) \<and>
    same_outside (elem sz result ` {..<n} \<union> array_cells sz (liDelays li) \<union> array_cells sz (liGains li)) m m'"
proof -
  let ?N = "liOrder li" and ?D = "mAlignedStorage (liDelays li)" and ?G = "mAlignedStorage (liGains li)"
  let ?a = "- of_nat (n + ?N) - startDelay" and ?b = "- of_nat ?N - endDelay"
  have sz0: "0 < sz" using sz by simp
  have GD: "elem sz ?D ` {..<n} \<subseteq> array_cells sz (liDelays li)" "elem sz ?G ` {..<n} \<subseteq> array_cells sz (liGains li)"
    using len unfolding array_cells_def by (auto intro!: image_mono)
  obtain m1 where m1: "vectorRamp of_nat (1 / 2) sz ?G n startGain endGain False True (mAlignment (liGains li)) m = (noError, m1)"
    "stored n (elem sz ?G) (ramp n startGain endGain) m m1"
    using ramp_stored [OF sz0 array_own_alignment [OF sz arr(2)], of n startGain endGain m] unfolding ramp_def by blast
  obtain m2 where m2: "vectorRamp of_nat (1 / 2) sz ?D n ?a ?b False True (mAlignment (liDelays li)) m1 = (noError, m2)"
    "stored n (elem sz ?D) delay m1 m2"
    using ramp_stored [OF sz0 array_own_alignment [OF sz arr(1)], of n ?a ?b m1] unfolding ramp_def delay by blast
  have o1: "same_outside (array_cells sz (liGains li)) m m1" by (rule stored_outside [OF m1(2) GD(2)])
  have o2: "same_outside (array_cells sz (liDelays li)) m1 m2" by (rule stored_outside [OF m2(2) GD(1)])
  have gain: "m2 (elem sz ?G s) = ramp n startGain endGain s" if "s < n" for s
  proof -
    have "elem sz ?G s \<in> elem sz ?G ` {..<n}" by (rule imageI) (use that in simp)
    then have "elem sz ?G s \<in> array_cells sz (liGains li)" using GD(2) by blast
    then have "m2 (elem sz ?G s) = m1 (elem sz ?G s)" using o2 disjoint_blocks unfolding same_outside_def by blast
    then show ?thesis using m1(2) that by (simp add: stored_def)
  qed
  have del: "m2 (elem sz ?D s) = delay s" if "s < n" for s using m2(2) that by (simp add: stored_def)
  have src2: "m2 x = m x" if "x \<in> A" for x
  proof -
    have "x \<notin> array_cells sz (liDelays li)" "x \<notin> array_cells sz (liGains li)" using that A by blast+
    then show ?thesis using o1 o2 by (simp add: same_outside_def)
  qed
  let ?f = "\<lambda>s m. m (elem sz ?G s) * interpolated_sample sz ?N base m (m (elem sz ?D s))"
  let ?g = "\<lambda>s. ramp n startGain endGain s * interpolated_sample sz ?N base m (delay s)"
  have st: "stored n (elem sz result) ?g m2 (for_each n (elem sz result) ?f m2)"
  proof (rule for_each_stored [OF inj_elem [OF sz0]])
    fix s m' assume s: "s < n" and eq: "\<forall>a. a \<notin> elem sz result ` {..<s} \<longrightarrow> m' a = m2 a"
    have sub: "elem sz result ` {..<s} \<subseteq> elem sz result ` {..<n}" using s by (intro image_mono) auto
    have "elem sz ?G s \<in> elem sz ?G ` {..<n}" "elem sz ?D s \<in> elem sz ?D ` {..<n}"
      by (rule imageI, use s in simp)+
    then have "elem sz ?G s \<in> array_cells sz (liGains li)" "elem sz ?D s \<in> array_cells sz (liDelays li)"
      using GD by blast+
    then have "elem sz ?G s \<notin> elem sz result ` {..<s}" "elem sz ?D s \<notin> elem sz result ` {..<s}"
      using sub res by blast+
    then have gd: "m' (elem sz ?G s) = m2 (elem sz ?G s)" "m' (elem sz ?D s) = m2 (elem sz ?D s)"
      using eq by simp_all
    have "interpolated_sample sz ?N base m' (delay s) = interpolated_sample sz ?N base m (delay s)"
    proof (rule interpolated_sample_cong)
      fix k assume "k \<le> ?N"
      then have mem: "back_address sz base (baseOffset (delay s) + int k) \<in> A" using src s by blast
      then have "back_address sz base (baseOffset (delay s) + int k) \<notin> elem sz result ` {..<s}"
        using sub A by blast
      then have "m' (back_address sz base (baseOffset (delay s) + int k)) = m2 (back_address sz base (baseOffset (delay s) + int k))"
        using eq by simp
      then show "m' (back_address sz base (baseOffset (delay s) + int k)) = m (back_address sz base (baseOffset (delay s) + int k))"
        using src2 [OF mem] by simp
    qed
    then show "?f s m' = ?g s" using gd gain [OF s] del [OF s] by simp
  qed
  have "interpolate sz li base result n startDelay endDelay startGain endGain m
      = Inr (for_each n (elem sz result) ?f m2)"
    using len(1) m1(1) m2(1) by (simp add: interpolate_def)
  moreover have "same_outside (elem sz result ` {..<n} \<union> array_cells sz (liDelays li) \<union> array_cells sz (liGains li)) m
      (for_each n (elem sz result) ?f m2)"
  proof -
    have o3: "same_outside (elem sz result ` {..<n}) m2 (for_each n (elem sz result) ?f m2)"
      by (rule stored_outside [OF st order_refl])
    show ?thesis
      by (rule same_outside_trans [OF same_outside_mono [OF o1]
            same_outside_trans [OF same_outside_mono [OF o2] same_outside_mono [OF o3]]]) blast+
  qed
  ultimately show ?thesis using st by (auto simp: stored_def)
qed

section \<open>Where the interpolator reads\<close>

lemma baseOffset_bounds:
  fixes x :: real
  shows "real_of_int (baseOffset x) \<le> x + 1 / 2" "x - 1 / 2 \<le> real_of_int (baseOffset x)"
    "x < - real k + 1 / 2 \<Longrightarrow> baseOffset x \<le> - int k"
proof -
  show "real_of_int (baseOffset x) \<le> x + 1 / 2" "x - 1 / 2 \<le> real_of_int (baseOffset x)"
    unfolding baseOffset_def by (cases "x > 0"; simp; linarith)+
  assume x: "x < - real k + 1 / 2"
  show "baseOffset x \<le> - int k"
  proof (cases "x > 0")
    case True
    then have "k = 0" using x by (cases k) auto
    moreover have "\<lfloor>x + 1 / 2\<rfloor> \<le> 0" using x True by linarith
    ultimately show ?thesis using True by (simp add: baseOffset_def)
  next
    case False
    then show ?thesis unfolding baseOffset_def using x by simp linarith
  qed
qed

text \<open>Reading \<open>j\<close> samples before the latest one.\<close>

lemma sample_address_back:
  assumes inv: "circular_inv sz ao cb" and H: "history sz m cb H" and ch: "ch < cbNumberOfChannels cb"
    and j: "j < cbImplLength cb"
  shows "m (back_address sz (getReadPointer sz cb ch 1) (- int j)) = H ch j"
    "back_address sz (getReadPointer sz cb ch 1) (- int j) \<in> array_cells sz (mData (cbBuffer cb))"
proof -
  let ?L = "cbImplLength cb" and ?w = "cbWriteHeadIndex cb" and ?M = "cbBuffer cb"
  have w: "?w < ?L" and minv: "matrix_inv sz ao ?M" and rows: "mNumberOfRows ?M = cbNumberOfChannels cb"
    and cols: "mNumberOfColumns ?M = 2 * ?L"
    using inv by (auto simp: circular_inv_def)
  have ptr: "getReadPointer sz cb ch d = matrix_element sz ?M ch (?L + ?w - d)" if "d \<le> ?L" for d
  proof -
    have split: "ch * mStride ?M + ?L + ?w = (ch * mStride ?M + (?L + ?w - d)) + d" using that by simp
    have "getReadPointer sz cb ch d = mAlignedStorage (mData ?M) + (ch * mStride ?M + ?L + ?w) * sz - d * sz"
      using inv by (simp add: getReadPointer_def circular_inv_def)
    also have "\<dots> = matrix_element sz ?M ch (?L + ?w - d)"
      unfolding split add_mult_distrib matrix_element_def by simp
    finally show ?thesis .
  qed
  have eq: "matrix_element sz ?M ch (?L + ?w - 1) = matrix_element sz ?M ch (?L + ?w - (j + 1)) + j * sz"
  proof -
    have s: "ch * mStride ?M + (?L + ?w - 1) = (ch * mStride ?M + (?L + ?w - (j + 1))) + j" using j by simp
    show ?thesis unfolding matrix_element_def s add_mult_distrib by simp
  qed
  have addr: "back_address sz (getReadPointer sz cb ch 1) (- int j) = getReadPointer sz cb ch (j + 1)"
    using eq ptr [of 1] ptr [of "j + 1"] j by (simp add: back_address_def nat_minus_as_int)
  show "m (back_address sz (getReadPointer sz cb ch 1) (- int j)) = H ch j"
    using read_window [OF inv H ch, of "j + 1" 0] j addr by simp
  show "back_address sz (getReadPointer sz cb ch 1) (- int j) \<in> array_cells sz (mData (cbBuffer cb))"
    unfolding addr using ptr [of "j + 1"] j element_in_cells [OF minv, of ch "?L + ?w - (j + 1)"] ch rows cols w by simp
qed

section \<open>Delaying polynomials\<close>

lemma polynomial_mono: "polynomial k f \<Longrightarrow> k \<le> n \<Longrightarrow> polynomial n f"
proof -
  assume "polynomial k f" and k: "k \<le> n"
  then obtain c where c: "\<And>x. f x = (\<Sum>i\<le>k. c i * x ^ i)" unfolding polynomial_def by blast
  have "f x = (\<Sum>i\<le>n. (if i \<le> k then c i else 0) * x ^ i)" for x
    unfolding c by (rule sum.mono_neutral_cong_left) (use k in auto)
  then show ?thesis by (rule polynomialI)
qed

lemma polynomial_shift:
  assumes "polynomial n f"
  shows "polynomial n (\<lambda>x. f (a + x))"
proof -
  obtain c where c: "\<And>x. f x = (\<Sum>i\<le>n. c i * x ^ i)" using assms unfolding polynomial_def by blast
  have pow: "polynomial i (\<lambda>x. (a + x) ^ i)" for i
  proof (induction i)
    case 0
    show ?case using polynomial_const [of 1] by simp
  next
    case (Suc i)
    show ?case using polynomial_linear_factor [OF Suc, of a 1] by simp
  qed
  have "polynomial n (\<lambda>x. c i * (a + x) ^ i)" if "i \<le> n" for i
    by (rule polynomial_scale [OF polynomial_mono [OF pow that]])
  then show ?thesis unfolding c by (intro polynomial_sum) auto
qed

lemma foldl_plus: "foldl (+) a xs = a + sum_list (xs :: 'a::monoid_add list)"
  by (induction xs arbitrary: a) (simp_all add: add.assoc)

text \<open>
  The interpolated sample of a polynomial history: the position of the window and the
  intersample position add up to the delay, less half the order.
\<close>

lemma interpolated_polynomial:
  fixes m :: "real memory"
  assumes P: "polynomial N P"
    and src: "\<And>k. k \<le> N \<Longrightarrow> m (back_address sz base (baseOffset delay + int k)) = P (of_int (baseOffset delay) + real k)"
  shows "interpolated_sample sz N base m delay = P (delay + real N / 2)"
proof -
  let ?off = "baseOffset delay"
  let ?mu = "delay - of_int ?off"
  let ?c = "calculateCoefficients N True ?mu"
  let ?f = "\<lambda>u. P ((of_int ?off + real N / 2) + u)"
  have "interpolated_sample sz N base m delay
      = sum_list (map (\<lambda>k. rev ?c ! k * m (back_address sz base (?off + int k))) [0..<N + 1])"
    unfolding interpolated_sample_def Let_def foldl_plus by simp
  also have "\<dots> = (\<Sum>k = 0..<Suc N. rev ?c ! k * m (back_address sz base (?off + int k)))"
    by (simp add: sum_list_sum_nth nth_map_upt del: upt_Suc)
  also have "\<dots> = (\<Sum>k = 0..<Suc N. ?c ! (N - k) * P (of_int ?off + real k))"
    by (rule sum.cong) (use src in \<open>auto simp: rev_nth\<close>)
  also have "\<dots> = (\<Sum>i = 0..<Suc N. ?c ! i * P (of_int ?off + real (N - i)))"
    using sum.nat_diff_reindex [of "\<lambda>i. ?c ! i * P (of_int ?off + real (N - i))" "Suc N"]
    by (simp add: atLeast0LessThan)
  also have "\<dots> = (\<Sum>i\<le>N. lagrange_basis (offset N True) N i ?mu * ?f (offset N True i))"
  proof (rule sum.cong)
    fix i assume i: "i \<in> {..N}"
    then have "of_int ?off + real (N - i) = (of_int ?off + real N / 2) + offset N True i"
      by (simp add: offset_def of_nat_diff)
    then show "?c ! i * P (of_int ?off + real (N - i)) = lagrange_basis (offset N True) N i ?mu * ?f (offset N True i)"
      using i by (simp only: calculateCoefficients_nth atMost_iff)
  qed auto
  also have "\<dots> = ?f ?mu" by (rule lagrange_reproduces [OF polynomial_shift [OF P] offset_inj])
  finally show ?thesis by (simp add: algebra_simps)
qed

lemma ramp_between:
  fixes x y :: real
  assumes "s < n"
  shows "min x y \<le> ramp n x y s" "ramp n x y s \<le> max x y"
proof -
  define t where "t = real (s + 1) / real n"
  have t: "0 \<le> t" "t \<le> 1" using assms by (auto simp: t_def)
  have r: "ramp n x y s = x + t * (y - x)" by (simp add: ramp_def t_def)
  have "min x y \<le> ramp n x y s \<and> ramp n x y s \<le> max x y"
  proof (cases "x \<le> y")
    case True
    have "0 \<le> t * (y - x)" "t * (y - x) \<le> y - x"
      using t True by (auto intro: mult_nonneg_nonneg mult_left_le_one_le)
    then show ?thesis using True r by auto
  next
    case False
    have "0 \<le> t * (x - y)" "t * (x - y) \<le> x - y"
      using t False by (auto intro: mult_nonneg_nonneg mult_left_le_one_le)
    then show ?thesis using False r by (auto simp: algebra_simps)
  qed
  then show "min x y \<le> ramp n x y s" "ramp n x y s \<le> max x y" by blast+
qed

lemma delay_ramp:
  fixes x y :: real
  assumes "s < n"
  shows "ramp n (- of_nat (n + N) - x) (- of_nat N - y) s = - real (n - 1 - s) - real N - ramp n x y s"
proof -
  have n: "real n \<noteq> 0" using assms by simp
  have "real (n - 1 - s) = real n - 1 - real s" using assms by (simp add: of_nat_diff)
  then show ?thesis using n by (simp add: ramp_def field_simps)
qed

definition delay_line_inv :: "nat \<Rightarrow> nat \<Rightarrow> real delay_line \<Rightarrow> bool" where
  "delay_line_inv sz ao dl \<longleftrightarrow>
     circular_inv sz ao (mRingbuffer dl) \<and>
     array_inv sz ao (liDelays (mInterpolator dl)) \<and> array_inv sz ao (liGains (mInterpolator dl)) \<and>
     mArrayLength (liDelays (mInterpolator dl)) = cBlockLength dl \<and>
     mArrayLength (liGains (mInterpolator dl)) = cBlockLength dl \<and>
     array_cells sz (liDelays (mInterpolator dl)) \<inter> array_cells sz (liGains (mInterpolator dl)) = {} \<and>
     array_cells sz (mData (cbBuffer (mRingbuffer dl))) \<inter>
       (array_cells sz (liDelays (mInterpolator dl)) \<union> array_cells sz (liGains (mInterpolator dl))) = {} \<and>
     cMethodDelay dl = methodDelay (mInterpolator dl)"

lemma adjustDelay_range:
  assumes "adjustDelay eps dl x = Inr d" "0 \<le> eps"
  shows "- eps \<le> (d :: real)"
  using assms by (auto simp: adjustDelay_def Let_def split: if_splits method_delay_policy.splits)

lemma adjustDelay_Inr:
  assumes "adjustDelay eps dl delay = Inr d"
  shows "d = (case cMethodDelayPolicy dl of
        AddMethodDelay \<Rightarrow> delay * cSamplingFrequency dl
      | LimitMethodDelay \<Rightarrow> max (delay * cSamplingFrequency dl - cMethodDelay dl) 0
      | RejectMethodDelay \<Rightarrow> delay * cSamplingFrequency dl - cMethodDelay dl)"
  using assms by (auto simp: adjustDelay_def Let_def split: if_splits method_delay_policy.splits)

lemma adjustDelay_Inl:
  "adjustDelay eps dl delay = Inl out_of_range \<longleftrightarrow>
     cMaxDelaySamples dl < delay * cSamplingFrequency dl \<or>
     (case cMethodDelayPolicy dl of
        AddMethodDelay \<Rightarrow> delay * cSamplingFrequency dl < - eps
      | LimitMethodDelay \<Rightarrow> False
      | RejectMethodDelay \<Rightarrow> delay * cSamplingFrequency dl < cMethodDelay dl)"
  by (auto simp: adjustDelay_def Let_def split: if_splits method_delay_policy.splits)

definition window_cells :: "nat \<Rightarrow> circular_buffer \<Rightarrow> nat \<Rightarrow> nat \<Rightarrow> nat set" where
  "window_cells sz cb ch L = (\<lambda>j. back_address sz (getReadPointer sz cb ch 1) (- int j)) ` {..<L}"

text \<open>
  When the reads of the interpolator for one sample stay within the window of the ring buffer.
\<close>

lemma baseOffset_greater:
  fixes x :: real
  assumes "x < 1 / 2"
  shows "- int L < baseOffset x \<longleftrightarrow> - real L + 1 / 2 < x"
proof (cases "x > 0")
  case True
  then have "baseOffset x = 0" using assms unfolding baseOffset_def by (simp add: floor_eq_iff)
  then show ?thesis using True assms by (cases L) auto
next
  case False
  then show ?thesis unfolding baseOffset_def by (simp add: less_ceiling_iff) linarith
qed

lemma reads_in_window:
  fixes d :: real
  assumes "- 1 / 2 < d" and "s < n" and x: "x = - real (n - 1 - s) - real N - d"
  shows "(\<forall>k \<le> N. \<exists>j < L. baseOffset x + int k = - int j) \<longleftrightarrow> real (n - 1 - s) + real N + d + 1 / 2 < real L"
proof -
  have "x < - real N + 1 / 2" using x assms(1) by simp
  then have hi: "baseOffset x \<le> - int N" by (rule baseOffset_bounds(3))
  have "x < 1 / 2" using x assms(1) by simp
  from baseOffset_greater [OF this, of L]
  have lo: "- int L < baseOffset x \<longleftrightarrow> real (n - 1 - s) + real N + d + 1 / 2 < real L" unfolding x by linarith
  have "\<exists>j < L. baseOffset x + int k = - int j" if "- int L < baseOffset x" "k \<le> N" for k
  proof -
    let ?j = "nat (- (baseOffset x + int k))"
    have "0 \<le> - (baseOffset x + int k)" "- (baseOffset x + int k) < int L" using hi that by linarith+
    then show ?thesis by (intro exI [of _ ?j]) auto
  qed
  moreover have "- int L < baseOffset x" if "\<forall>k \<le> N. \<exists>j < L. baseOffset x + int k = - int j"
    using that [rule_format, of 0] by auto
  ultimately show ?thesis using lo by blast
qed

text \<open>
  C11 (delay_line_spec): for admissible delays, the reads for sample \<open>s\<close> of a block stay among the \<open>L\<close> places of
  the ring buffer exactly if the delay, the order, and the distance to the end of the block together stay below
  \<open>L\<close> (by half a sample). If they do for every sample, and the past samples of a channel are the values of a polynomial
  of at most the order of the interpolator, the interpolated block is, sample by sample, the ramp of the
  gain times the value of the polynomial at the time delayed by the ramp of the adjusted delays
  plus the delay of the method, exactly. The
  adjusted delay is the requested one in samples for the additive policy and is reduced by the
  method delay for the other two; a delay is refused exactly above the maximum and, but for the limiting
  policy, below the minimum. In a ring buffer that is as long as the maximum delay and the block, which is what
  the constructor makes, the first sample is read from outside the buffer for a constant delay that exceeds the
  maximum less the order by half a sample or more, although it is not refused.
\<close>

theorem delay_line_spec:
  fixes m :: "real memory"
  assumes "sz = 2 ^ l" and "delay_line_inv sz ao dl" and "ch < cbNumberOfChannels (mRingbuffer dl)"
    and "history sz m (mRingbuffer dl) H" and "n \<le> cBlockLength dl"
    and "N = liOrder (mInterpolator dl)" and "L = cbImplLength (mRingbuffer dl)"
    and "0 \<le> eps" and "eps < 1 / 2"
    and "adjustDelay eps dl startDelay = Inr d0" and "adjustDelay eps dl endDelay = Inr d1"
    and "polynomial N P" and "\<And>j. j < L \<Longrightarrow> H ch j = P (- real j)"
    and "elem sz result ` {..<n} \<inter> (array_cells sz (mData (cbBuffer (mRingbuffer dl))) \<union>
      array_cells sz (liDelays (mInterpolator dl)) \<union> array_cells sz (liGains (mInterpolator dl))) = {}"
  shows "(\<forall>s < n. (\<forall>k \<le> N. \<exists>j < L. baseOffset (ramp n (- real (n + N) - d0) (- real N - d1) s) + int k = - int j) \<longleftrightarrow>
       real (n - 1 - s) + real N + ramp n d0 d1 s + 1 / 2 < real L) \<and>
    ((\<forall>s < n. real (n - 1 - s) + real N + ramp n d0 d1 s + 1 / 2 < real L) \<longrightarrow>
      (\<exists>m'. delay_line_interpolate eps sz dl result ch n startDelay endDelay startGain endGain m = Inr m' \<and>
        (\<forall>s < n. m' (elem sz result s) = ramp n startGain endGain s *
           P (- real (n - 1 - s) - (ramp n d0 d1 s + real N / 2))))) \<and>
    (0 < n \<and> d0 = d1 \<and> real L = cMaxDelaySamples dl + real n \<and> cMaxDelaySamples dl - real N + 1 / 2 \<le> d0 \<longrightarrow>
      \<not> (\<forall>k \<le> N. \<exists>j < L. baseOffset (ramp n (- real (n + N) - d0) (- real N - d1) 0) + int k = - int j)) \<and>
    (\<forall>delay. adjustDelay eps dl delay = Inl out_of_range \<longleftrightarrow>
       cMaxDelaySamples dl < delay * cSamplingFrequency dl \<or>
       (case cMethodDelayPolicy dl of
          AddMethodDelay \<Rightarrow> delay * cSamplingFrequency dl < - eps
        | LimitMethodDelay \<Rightarrow> False
        | RejectMethodDelay \<Rightarrow> delay * cSamplingFrequency dl < real N / 2)) \<and>
    (\<forall>(delay, d) \<in> {(startDelay, d0), (endDelay, d1)}. d = (case cMethodDelayPolicy dl of
        AddMethodDelay \<Rightarrow> delay * cSamplingFrequency dl
      | LimitMethodDelay \<Rightarrow> max (delay * cSamplingFrequency dl - real N / 2) 0
      | RejectMethodDelay \<Rightarrow> delay * cSamplingFrequency dl - real N / 2))"
proof -
  let ?li = "mInterpolator dl" and ?cb = "mRingbuffer dl"
  let ?base = "getReadPointer sz ?cb ch 1"
  let ?delay = "ramp n (- of_nat (n + N) - d0) (- of_nat N - d1)"
  have inv: "circular_inv sz ao ?cb" "array_inv sz ao (liDelays ?li)" "array_inv sz ao (liGains ?li)"
    "mArrayLength (liDelays ?li) = cBlockLength dl" "mArrayLength (liGains ?li) = cBlockLength dl"
    "array_cells sz (liDelays ?li) \<inter> array_cells sz (liGains ?li) = {}"
    "array_cells sz (mData (cbBuffer ?cb)) \<inter> (array_cells sz (liDelays ?li) \<union> array_cells sz (liGains ?li)) = {}"
    "cMethodDelay dl = real N / 2"
    using assms(2,6) by (auto simp: delay_line_inv_def methodDelay_def)
  have win_iff: "(\<forall>k \<le> N. \<exists>j < L. baseOffset (?delay s) + int k = - int j) \<longleftrightarrow>
      real (n - 1 - s) + real N + ramp n d0 d1 s + 1 / 2 < real L" if s: "s < n" for s
  proof (rule reads_in_window [OF _ s delay_ramp [OF s]])
    have "- eps \<le> d0" "- eps \<le> d1" using adjustDelay_range assms(8,10,11) by blast+
    then show "- 1 / 2 < ramp n d0 d1 s" using ramp_between(1) [OF s, of d0 d1] assms(9) by linarith
  qed
  have exact: "\<exists>m'. delay_line_interpolate eps sz dl result ch n startDelay endDelay startGain endGain m = Inr m' \<and>
        (\<forall>s < n. m' (elem sz result s) = ramp n startGain endGain s *
           P (- real (n - 1 - s) - (ramp n d0 d1 s + real N / 2)))"
    if room: "\<forall>s < n. real (n - 1 - s) + real N + ramp n d0 d1 s + 1 / 2 < real L"
  proof -
    have win: "\<exists>j < L. baseOffset (?delay s) + int k = - int j" if s: "s < n" and k: "k \<le> N" for s k
      using win_iff [OF s] room s k by blast
    have window: "back_address sz ?base (baseOffset (?delay s) + int k) \<in> window_cells sz (mRingbuffer dl) ch L"
      if sk: "s < n" "k \<le> N" for s k
    proof -
      obtain j where j: "j < L" "baseOffset (?delay s) + int k = - int j" using win [OF sk] by blast
      show ?thesis unfolding window_cells_def j(2) by (rule imageI) (use j(1) in simp)
    qed
    have sub: "window_cells sz (mRingbuffer dl) ch L \<subseteq> array_cells sz (mData (cbBuffer ?cb))"
      unfolding window_cells_def using sample_address_back(2) [OF inv(1) assms(4,3)] assms(7) by auto
    obtain m' where m': "interpolate sz ?li ?base result n d0 d1 startGain endGain m = Inr m'"
      "\<forall>s < n. m' (elem sz result s) = ramp n startGain endGain s * interpolated_sample sz N ?base m (?delay s)"
    proof -
      have "\<exists>m'. interpolate sz ?li ?base result n d0 d1 startGain endGain m = Inr m' \<and>
        (\<forall>s < n. m' (elem sz result s) = ramp n startGain endGain s * interpolated_sample sz (liOrder ?li) ?base m (?delay s)) \<and>
        same_outside (elem sz result ` {..<n} \<union> array_cells sz (liDelays ?li) \<union> array_cells sz (liGains ?li)) m m'"
      proof (rule interpolate_spec [OF assms(1) inv(2,3) _ _ inv(6)])
        show "n \<le> mArrayLength (liDelays ?li)" "n \<le> mArrayLength (liGains ?li)" using inv(4,5) assms(5) by simp_all
        show "elem sz result ` {..<n} \<inter> (array_cells sz (liDelays ?li) \<union> array_cells sz (liGains ?li)) = {}"
          using assms(14) by blast
        show "window_cells sz (mRingbuffer dl) ch L \<inter> (elem sz result ` {..<n} \<union> array_cells sz (liDelays ?li) \<union> array_cells sz (liGains ?li)) = {}"
          using sub inv(7) assms(14) by blast
        show "?delay = ramp n (- of_nat (n + liOrder ?li) - d0) (- of_nat (liOrder ?li) - d1)" using assms(6) by simp
        show "back_address sz ?base (baseOffset (?delay s) + int k) \<in> window_cells sz (mRingbuffer dl) ch L"
          if "s < n" "k \<le> liOrder ?li" for s k using window that assms(6) by simp
      qed
      then show ?thesis using that assms(6) by auto
    qed
    have val: "interpolated_sample sz N ?base m (?delay s) = P (- real (n - 1 - s) - (ramp n d0 d1 s + real N / 2))"
      if s: "s < n" for s
    proof -
      have "interpolated_sample sz N ?base m (?delay s) = P (?delay s + real N / 2)"
      proof (rule interpolated_polynomial [OF assms(12)])
        fix k assume k: "k \<le> N"
        obtain j where j: "j < L" "baseOffset (?delay s) + int k = - int j" using win [OF s k] by blast
        have "m (back_address sz ?base (- int j)) = P (- real j)"
          using sample_address_back(1) [OF inv(1) assms(4,3)] assms(7,13) j(1) by simp
        moreover have "- real j = of_int (baseOffset (?delay s)) + real k"
          using j(2) by (metis of_int_add of_int_minus of_int_of_nat_eq)
        ultimately show "m (back_address sz ?base (baseOffset (?delay s) + int k)) = P (of_int (baseOffset (?delay s)) + real k)"
          unfolding j(2) by simp
      qed
      moreover have "?delay s + real N / 2 = - real (n - 1 - s) - (ramp n d0 d1 s + real N / 2)"
        unfolding delay_ramp [OF s] by simp
      ultimately show ?thesis by (simp only:)
    qed
    have "delay_line_interpolate eps sz dl result ch n startDelay endDelay startGain endGain m = Inr m'"
      using assms(3,10,11) m'(1) by (simp add: delay_line_interpolate_def)
    then show ?thesis using m'(2) val by auto
  qed
  note adj = adjustDelay_Inr [OF assms(10), unfolded inv(8)] adjustDelay_Inr [OF assms(11), unfolded inv(8)]
  have refused: "adjustDelay eps dl delay = Inl out_of_range \<longleftrightarrow>
       cMaxDelaySamples dl < delay * cSamplingFrequency dl \<or>
       (case cMethodDelayPolicy dl of
          AddMethodDelay \<Rightarrow> delay * cSamplingFrequency dl < - eps
        | LimitMethodDelay \<Rightarrow> False
        | RejectMethodDelay \<Rightarrow> delay * cSamplingFrequency dl < real N / 2)" for delay
    unfolding adjustDelay_Inl inv(8) by (rule refl)
  have outside: "\<not> (\<forall>k \<le> N. \<exists>j < L. baseOffset (?delay 0) + int k = - int j)"
    if "0 < n" "d0 = d1" "real L = cMaxDelaySamples dl + real n" "cMaxDelaySamples dl - real N + 1 / 2 \<le> d0"
  proof -
    have "ramp n d0 d1 0 = d0" using that(2) by (simp add: ramp_def)
    moreover have "real (n - 1 - 0) = real n - 1" using that(1) by (simp add: of_nat_diff)
    ultimately show ?thesis unfolding win_iff [OF that(1)] using that(3,4) by linarith
  qed
  show ?thesis using win_iff exact outside refused adj by (intro conjI) auto
qed

text \<open>
  A channel of length 4 with the history \<open>0, -1, -2, -3\<close>, read with linear interpolation and a
  delay of one sample.
\<close>

definition ex_delay_line :: "real delay_line" where
  "ex_delay_line =
     \<lparr>cBlockLength = 1, cSamplingFrequency = 1, cMaxDelaySamples = 3, cMethodDelayPolicy = AddMethodDelay,
      mRingbuffer = ex_ring,
      mInterpolator = \<lparr>liOrder = 1,
        liDelays = \<lparr>mAlignment = 1, mArrayLength = 1, mRawStorage = 1000, mAlignedStorage = 1000\<rparr>,
        liGains = \<lparr>mAlignment = 1, mArrayLength = 1, mRawStorage = 1100, mAlignedStorage = 1100\<rparr>\<rparr>,
      cMethodDelay = 1 / 2\<rparr>"

definition ex_line_memory :: "real memory" where
  "ex_line_memory a = (if a = 64 \<or> a = 80 then - 2 else if a = 68 \<or> a = 84 then - 1
     else if a = 72 \<or> a = 88 then 0 else - 3)"

lemma ex_cells: "array_cells 4 (mData (cbBuffer ex_ring)) \<subseteq> {64..<96}"
  by (auto simp: ex_ring_def array_cells_def)

lemma ex_line_history: "history 4 ex_line_memory ex_ring (\<lambda>ch j. - real j)"
proof -
  have "ex_line_memory (64 + p * 4) = - real (age 4 3 (p mod 4))" if "p < 8" for p
  proof -
    have "p \<in> {0, 1, 2, 3, 4, 5, 6, 7}" using that by auto
    then show ?thesis by (auto simp: ex_line_memory_def age_def)
  qed
  then show ?thesis by (simp add: history_def ex_ring_def matrix_element_def)
qed

lemma ex_delay_line_ok: "delay_line_inv 4 4 ex_delay_line"
proof -
  have one: "\<exists>k. 1 = (2::nat) ^ k \<and> (2::nat) ^ k * 4 < 2 ^ 64" by (rule exI [of _ 0]) simp
  have arr: "array_inv 4 4 \<lparr>mAlignment = 1, mArrayLength = 1, mRawStorage = p, mAlignedStorage = p\<rparr>"
    if "p \<in> {1000, 1100}" for p using one that by (auto simp: array_inv_def worstCaseLength_def)
  have c: "array_cells 4 \<lparr>mAlignment = 1, mArrayLength = 1, mRawStorage = p, mAlignedStorage = p\<rparr> = {p}" for p
    by (simp add: array_cells_def lessThan_Suc)
  have "1000 \<notin> array_cells 4 (mData (cbBuffer ex_ring))" "1100 \<notin> array_cells 4 (mData (cbBuffer ex_ring))"
    using ex_cells by auto
  then show ?thesis using ex_ring_ok(1) arr c by (simp add: delay_line_inv_def ex_delay_line_def methodDelay_def)
qed

theorem delay_line_spec_witness:
  "\<exists>m'. delay_line_interpolate (1 / 8) 4 ex_delay_line 1200 0 1 1 1 2 2 ex_line_memory = Inr m' \<and> m' 1200 = - 3"
proof -
  let ?dl = ex_delay_line
  have ring: "mRingbuffer ?dl = ex_ring" "cBlockLength ?dl = 1" "liOrder (mInterpolator ?dl) = 1"
    "cbImplLength ex_ring = 4" "cbNumberOfChannels ex_ring = 1"
    by (simp_all add: ex_delay_line_def ex_ring_def)
  have adj: "adjustDelay (1 / 8) ?dl 1 = Inr 1" by (simp add: adjustDelay_def ex_delay_line_def)
  have poly: "polynomial 1 (\<lambda>x. x)" by (rule polynomialI [where c = "\<lambda>i. if i = 0 then 0 else 1"]) simp
  have "array_cells 4 (liDelays (mInterpolator ?dl)) = {1000}" "array_cells 4 (liGains (mInterpolator ?dl)) = {1100}"
    by (simp_all add: ex_delay_line_def array_cells_def lessThan_Suc)
  then have res: "elem 4 1200 ` {..<1} \<inter> (array_cells 4 (mData (cbBuffer (mRingbuffer ?dl))) \<union>
      array_cells 4 (liDelays (mInterpolator ?dl)) \<union> array_cells 4 (liGains (mInterpolator ?dl))) = {}"
    using ex_cells ring(1) by auto
  have pow: "(4::nat) = 2 ^ 2" by simp
  have "(\<exists>m'. delay_line_interpolate (1 / 8) 4 ?dl 1200 0 1 1 1 2 2 ex_line_memory = Inr m' \<and>
      (\<forall>s < 1. m' (elem 4 1200 s) = ramp 1 2 2 s * (- real (1 - 1 - s) - (ramp 1 1 1 s + real 1 / 2))))"
    by (rule delay_line_spec [OF pow ex_delay_line_ok _ _ _ _ _ _ _ adj adj poly _ res,
          where H = "\<lambda>ch j. - real j" and L = 4, THEN conjunct2, THEN conjunct1, THEN mp])
      (use ring ex_line_history in \<open>simp_all add: ramp_def\<close>)
  then show ?thesis by (auto simp: ramp_def)
qed

section \<open>The maximum delay\<close>

lemma baseOffset_int: "baseOffset (of_int i :: real) = i"
  unfolding baseOffset_def by (cases "i > 0") (simp_all, linarith+)

text \<open>
  The constructor makes the ring buffer as long as the maximum delay plus the block, with no room
  for the order. For an admissible delay equal to a maximum of a whole number of samples the
  first sample is read \<open>N\<close> places before the oldest one; with the write position at the start of
  the buffer, this is before its first element.
\<close>

lemma delay_line_reads_before_buffer:
  assumes inv: "circular_inv sz ao cb" and "0 < sz" and "cbNumberOfChannels cb = 1" and "0 < n" and "0 < N"
    and "cbImplLength cb = D + n" and "cbWriteHeadIndex cb = 0"
    and "N * sz \<le> cbBasePointer cb"
  shows "back_address sz (getReadPointer sz cb 0 1)
      (baseOffset (ramp n (- real (n + N) - real D) (- real N - real D) 0)) = cbBasePointer cb - N * sz"
    "cbBasePointer cb - N * sz < cbBasePointer cb"
proof -
  have "ramp n (- of_nat (n + N) - real D) (- of_nat N - real D) 0 = - real (n - 1 - 0) - real N - ramp n (real D) (real D) 0"
    by (rule delay_ramp [OF assms(4)])
  also have "\<dots> = of_int (- int (n - 1 + N + D))" by (simp add: ramp_def)
  finally have off: "baseOffset (ramp n (- real (n + N) - real D) (- real N - real D) 0) = - int (n - 1 + N + D)"
    by (simp only: baseOffset_int)
  have "getReadPointer sz cb 0 1 = cbBasePointer cb + (D + n) * sz - sz"
    using assms inv by (simp add: getReadPointer_def circular_inv_def)
  also have "\<dots> = cbBasePointer cb + (n - 1 + D) * sz" using assms(4) by (cases n) auto
  finally have eq: "int (getReadPointer sz cb 0 1) + - int (n - 1 + N + D) * int sz = int (cbBasePointer cb) - int (N * sz)"
    using assms(4) by (cases n) (simp_all add: algebra_simps)
  show "back_address sz (getReadPointer sz cb 0 1)
      (baseOffset (ramp n (- real (n + N) - real D) (- real N - real D) 0)) = cbBasePointer cb - N * sz"
    unfolding back_address_def off eq by (simp only: nat_minus_as_int)
  show "cbBasePointer cb - N * sz < cbBasePointer cb" using assms(2,5,8)
    by (metis diff_less gr_zeroI le_0_eq mult_is_0 less_numeral_extra(3))
qed

text \<open>With a table for \<open>float\<close> only, no delay line of \<open>double\<close> samples can be made.\<close>

lemma no_double_delay_line:
  assumes "CircularBuffer sz ao raw channels (nat \<lfloor>of_int \<lceil>s * of_nat fs\<rceil> :: real\<rfloor> + n) al m = Inr r"
  shows "MultichannelDelayLine doubleType sz ao raw raw1 raw2 channels fs n s name policy al m = Inl invalid_argument"
  using assms by (cases r) (simp add: MultichannelDelayLine_def fractional_delay_create_def creatorTable_def Let_def)

end
