(* ===== verification/Channel_Allocator.thy ===== *)
theory Channel_Allocator
  imports Prelude "HOL-Library.Multiset"
begin

text \<open>
  The allocation of rendering channels to audio objects
  (\<open>src/librbbl/object_channel_allocator.cpp\<close>). The \<open>std::map\<close> from object ids to channels is
  the list of its entries in ascending order of the ids; an iterator into it is the id of the
  entry it points to, or \<open>None\<close> for \<open>end()\<close>. Operations that may throw return the exception, if
  any, together with the state they leave behind.
\<close>

section \<open>State and operations\<close>

record channel_allocator =
  mMaxChannels :: nat
  mLookup :: "(nat \<times> nat) list"
  mUnusedChannels :: "nat list"
  mSortedIds :: "nat list"

definition ObjectChannelAllocator :: "nat \<Rightarrow> channel_allocator" where
  "ObjectChannelAllocator numChannels =
     \<lparr>mMaxChannels = numChannels, mLookup = [],
      mUnusedChannels = map (\<lambda>idx. numChannels - 1 - idx) [0..<numChannels],
      mSortedIds = replicate numChannels 0\<rparr>"

definition numberUsedChannels :: "channel_allocator \<Rightarrow> nat" where
  "numberUsedChannels s = length (mLookup s)"

definition getUnusedChannel :: "channel_allocator \<Rightarrow> exn + nat \<times> channel_allocator" where
  "getUnusedChannel s =
     (if mUnusedChannels s = [] then Inl runtime_error
      else Inr (last (mUnusedChannels s), s\<lparr>mUnusedChannels := butlast (mUnusedChannels s)\<rparr>))"

definition releaseChannel :: "nat \<Rightarrow> nat list \<Rightarrow> nat list" where
  "releaseChannel channel unused = unused @ [channel]"

text \<open>First pass: the entries from the iterator on that are kept, and the released channels.\<close>

fun removeStale :: "nat list \<Rightarrow> (nat \<times> nat) list \<Rightarrow> nat list \<Rightarrow> (nat \<times> nat) list \<times> nat list" where
  "removeStale ids [] unused = ([], unused)"
| "removeStale [] ((k, channelId) # lookup) unused = removeStale [] lookup (releaseChannel channelId unused)"
| "removeStale (i # ids) ((k, channelId) # lookup) unused =
     (if i < k then removeStale ids ((k, channelId) # lookup) unused
      else if i = k then
        (case removeStale ids lookup unused of (l, u) \<Rightarrow> ((k, channelId) # l, u))
      else removeStale (i # ids) lookup (releaseChannel channelId unused))"

definition lookup_begin :: "(nat \<times> nat) list \<Rightarrow> nat option" where
  "lookup_begin l = map_option fst (find (\<lambda>e. True) l)"

definition lookup_next :: "nat \<Rightarrow> (nat \<times> nat) list \<Rightarrow> nat option" where
  "lookup_next k l = map_option fst (find (\<lambda>e. k < fst e) l)"

text \<open>Second pass.\<close>

fun allocateNew :: "nat list \<Rightarrow> nat option \<Rightarrow> channel_allocator \<Rightarrow> exn option \<times> channel_allocator" where
  "allocateNew [] lookupIt s = (None, s)"
| "allocateNew (i # ids) lookupIt s =
     (case lookupIt of
        Some k \<Rightarrow>
          if i < k then
            (case getUnusedChannel s of
               Inl e \<Rightarrow> (Some e, s)
             | Inr (newChannelId, s) \<Rightarrow>
                 if i \<in> fst ` set (mLookup s) then (Some logic_error, s)
                 else allocateNew ids lookupIt (s\<lparr>mLookup := map_insert i newChannelId (mLookup s)\<rparr>))
          else allocateNew ids (lookup_next k (mLookup s)) s
      | None \<Rightarrow>
          (case getUnusedChannel s of
             Inl e \<Rightarrow> (Some e, s)
           | Inr (newChannelId, s) \<Rightarrow>
               if i \<in> fst ` set (mLookup s) then (Some logic_error, s)
               else allocateNew ids None (s\<lparr>mLookup := map_insert i newChannelId (mLookup s)\<rparr>)))"

definition setObjects :: "nat list \<Rightarrow> channel_allocator \<Rightarrow> exn option \<times> channel_allocator" where
  "setObjects objectIds s =
     (if mMaxChannels s < length objectIds then (Some invalid_argument, s)
      else
        let ids = sort objectIds;
            (lookup, unused) = removeStale ids (mLookup s) (mUnusedChannels s);
            s = s\<lparr>mSortedIds := ids @ drop (length ids) (mSortedIds s), mLookup := lookup, mUnusedChannels := unused\<rparr>
        in allocateNew ids (lookup_begin lookup) s)"

text \<open>\<open>invalid\<close> is \<open>Object::cInvalidObjectId\<close>.\<close>

definition getObjectForChannel :: "nat \<Rightarrow> channel_allocator \<Rightarrow> nat \<Rightarrow> nat" where
  "getObjectForChannel invalid s channelId =
     (case find (\<lambda>v. snd v = channelId) (mLookup s) of None \<Rightarrow> invalid | Some v \<Rightarrow> fst v)"

section \<open>The invariant\<close>

abbreviation ids_of :: "channel_allocator \<Rightarrow> nat set" where
  "ids_of s \<equiv> fst ` set (mLookup s)"

definition ascending :: "(nat \<times> nat) list \<Rightarrow> bool" where
  "ascending l \<longleftrightarrow> sorted_wrt (<) (map fst l)"

definition allocator_inv :: "channel_allocator \<Rightarrow> bool" where
  "allocator_inv s \<longleftrightarrow>
     ascending (mLookup s) \<and> distinct (map snd (mLookup s) @ mUnusedChannels s) \<and>
     set (map snd (mLookup s) @ mUnusedChannels s) = {..<mMaxChannels s} \<and>
     length (mSortedIds s) = mMaxChannels s"

lemma ascending_Cons: "ascending (e # l) \<longleftrightarrow> (\<forall>e' \<in> set l. fst e < fst e') \<and> ascending l"
  by (auto simp: ascending_def)

lemma strict_sorted_distinct: "sorted_wrt (<) xs \<Longrightarrow> distinct (xs :: nat list)"
  by (induction xs) auto

lemma removeStale_eq:
  assumes "sorted ids" "ascending lookup"
  shows "removeStale ids lookup unused =
    (filter (\<lambda>e. fst e \<in> set ids) lookup, unused @ map snd (filter (\<lambda>e. fst e \<notin> set ids) lookup))"
  using assms
proof (induction ids lookup unused rule: removeStale.induct)
  case (2 k c lookup unused)
  then show ?case by (simp add: releaseChannel_def ascending_Cons)
next
  case (3 i ids k c lookup unused)
  have asc: "ascending lookup" "\<forall>e \<in> set lookup. k < fst e" and srt: "sorted ids" "\<forall>j \<in> set ids. i \<le> j"
    using 3(4,5) by (auto simp: ascending_Cons)
  consider "i < k" | "i = k" | "k < i" by linarith
  then show ?case
  proof cases
    case 1
    have ne: "\<forall>e \<in> set ((k, c) # lookup). fst e \<noteq> i" using asc(2) 1 by auto
    then have "filter (\<lambda>e. fst e \<in> set (i # ids)) ((k, c) # lookup) = filter (\<lambda>e. fst e \<in> set ids) ((k, c) # lookup)"
      "filter (\<lambda>e. fst e \<notin> set (i # ids)) ((k, c) # lookup) = filter (\<lambda>e. fst e \<notin> set ids) ((k, c) # lookup)"
      by (intro conjI filter_cong refl; use ne in auto)+
    then show ?thesis using 3(1) [OF 1 srt(1) 3(5)] 1 by (simp del: filter.simps)
  next
    case 2
    have "fst e \<noteq> i" if "e \<in> set lookup" for e using that asc(2) 2 by auto
    then have "filter (\<lambda>e. fst e \<in> set (i # ids)) lookup = filter (\<lambda>e. fst e \<in> set ids) lookup"
      "filter (\<lambda>e. fst e \<notin> set (i # ids)) lookup = filter (\<lambda>e. fst e \<notin> set ids) lookup"
      by (auto intro!: filter_cong)
    then show ?thesis using 3(2) [OF _ 2 srt(1) asc(1)] 2 by simp
  next
    case 3
    have "k \<notin> set (i # ids)" using srt(2) 3 by auto
    then show ?thesis using "3.IH"(3) 3 "3.prems"(1) asc(1) by (simp add: releaseChannel_def)
  qed
qed simp

lemma ascending_map_insert: "ascending l \<Longrightarrow> ascending (map_insert k v l)"
  unfolding ascending_def by (rule sorted_map_insert)

lemma insert_new: "ascending l \<Longrightarrow> k \<notin> fst ` set l \<Longrightarrow>
  mset (map_insert k v l) = add_mset (k, v) (mset l)"
  by (induction l) (auto simp: ascending_Cons add_mset_commute)

section \<open>The second pass\<close>

lemma lookup_next_spec:
  assumes "ascending l"
  shows "case lookup_next k l of
      None \<Rightarrow> \<forall>k' \<in> fst ` set l. k' \<le> k
    | Some n \<Rightarrow> n \<in> fst ` set l \<and> k < n \<and> (\<forall>k' \<in> fst ` set l. k < k' \<longrightarrow> n \<le> k')"
  using assms
proof (induction l)
  case (Cons e l)
  show ?case
  proof (cases "k < fst e")
    case True
    then show ?thesis using Cons.prems by (auto simp: lookup_next_def ascending_Cons intro: less_imp_le)
  next
    case False
    then have eq: "lookup_next k (e # l) = lookup_next k l" by (simp add: lookup_next_def)
    have "case lookup_next k l of
        None \<Rightarrow> \<forall>k' \<in> fst ` set l. k' \<le> k
      | Some n \<Rightarrow> n \<in> fst ` set l \<and> k < n \<and> (\<forall>k' \<in> fst ` set l. k < k' \<longrightarrow> n \<le> k')"
      using Cons by (simp add: ascending_Cons)
    then show ?thesis unfolding eq using False by (cases "lookup_next k l") auto
  qed
qed (simp add: lookup_next_def)

lemma lookup_begin_spec:
  assumes "ascending l"
  shows "case lookup_begin l of
      None \<Rightarrow> l = []
    | Some n \<Rightarrow> n \<in> fst ` set l \<and> (\<forall>k' \<in> fst ` set l. n \<le> k')"
  using assms by (cases l) (auto simp: lookup_begin_def ascending_Cons)

text \<open>
  The iterator points to the first entry whose id is not below the next id, and only entries for
  the remaining ids follow.
\<close>

definition pointer_ok :: "nat \<Rightarrow> nat list \<Rightarrow> nat option \<Rightarrow> channel_allocator \<Rightarrow> bool" where
  "pointer_ok i R it s \<longleftrightarrow>
     (\<forall>k \<in> ids_of s. i \<le> k \<longrightarrow> k \<in> set R) \<and>
     (case it of
        None \<Rightarrow> \<forall>k \<in> ids_of s. k < i
      | Some n \<Rightarrow> n \<in> ids_of s \<and> i \<le> n \<and> (\<forall>k \<in> ids_of s. i \<le> k \<longrightarrow> n \<le> k))"

definition channel_pool :: "channel_allocator \<Rightarrow> nat multiset" where
  "channel_pool s = mset (map snd (mLookup s) @ mUnusedChannels s)"

lemma size_channels: "size (channel_pool s) = length (mLookup s) + length (mUnusedChannels s)"
  by (simp add: channel_pool_def)

definition allocator_frame :: "channel_allocator \<Rightarrow> channel_allocator \<Rightarrow> bool" where
  "allocator_frame s s' \<longleftrightarrow> mMaxChannels s' = mMaxChannels s \<and> mSortedIds s' = mSortedIds s \<and> ascending (mLookup s')"

text \<open>Allocating a channel to a new id.\<close>

definition allocate_one :: "nat \<Rightarrow> channel_allocator \<Rightarrow> channel_allocator" where
  "allocate_one i s = s\<lparr>mUnusedChannels := butlast (mUnusedChannels s),
     mLookup := map_insert i (last (mUnusedChannels s)) (mLookup s)\<rparr>"

lemma allocate_one_props:
  assumes "ascending (mLookup s)" "mUnusedChannels s \<noteq> []" "i \<notin> ids_of s"
  shows "channel_pool (allocate_one i s) = channel_pool s" "ids_of (allocate_one i s) = insert i (ids_of s)"
    "set (mLookup s) \<subseteq> set (mLookup (allocate_one i s))" "allocator_frame s (allocate_one i s)"
proof -
  let ?u = "mUnusedChannels s"
  have u: "mset ?u = add_mset (last ?u) (mset (butlast ?u))"
    using arg_cong [OF append_butlast_last_id [OF assms(2)], of mset] by simp
  have m: "mset (map_insert i (last ?u) (mLookup s)) = add_mset (i, last ?u) (mset (mLookup s))"
    by (rule insert_new [OF assms(1,3)])
  show "channel_pool (allocate_one i s) = channel_pool s"
    using u m by (simp add: channel_pool_def allocate_one_def)
  show "ids_of (allocate_one i s) = insert i (ids_of s)" by (simp add: allocate_one_def)
  show "set (mLookup s) \<subseteq> set (mLookup (allocate_one i s))"
    using arg_cong [OF m, of set_mset] by (auto simp: allocate_one_def)
  show "allocator_frame s (allocate_one i s)" using ascending_map_insert [OF assms(1)] by (simp add: allocator_frame_def allocate_one_def)
qed

lemma allocateNew_step:
  "mUnusedChannels s \<noteq> [] \<Longrightarrow> (case it of None \<Rightarrow> True | Some n \<Rightarrow> i < n) \<Longrightarrow>
   allocateNew (i # R) it s =
     (if i \<in> ids_of s then (Some logic_error, s\<lparr>mUnusedChannels := butlast (mUnusedChannels s)\<rparr>)
      else allocateNew R it (allocate_one i s))"
  by (auto simp: getUnusedChannel_def allocate_one_def split: option.splits)

lemma allocateNew_skip:
  "i = n \<Longrightarrow> allocateNew (i # R) (Some n) s = allocateNew R (lookup_next n (mLookup s)) s"
  by simp

lemma pointer_advance:
  assumes p: "pointer_ok i R it s" and R: "R = i # j # R'" and ij: "i < j" and j: "\<forall>r \<in> set R'. j \<le> r"
    and asc: "ascending (mLookup s)"
  shows "it = Some i \<Longrightarrow> pointer_ok j (j # R') (lookup_next i (mLookup s)) s"
    and "it \<noteq> Some i \<Longrightarrow> allocator_frame s s' \<Longrightarrow> ids_of s' = insert i (ids_of s) \<Longrightarrow> pointer_ok j (j # R') it s'"
proof -
  have in_R: "k \<in> set (j # R')" if "k \<in> ids_of s" "j \<le> k" for k
    using p that R ij by (auto simp: pointer_ok_def)
  have gap: "j \<le> k" if "k \<in> ids_of s" "i < k" for k
    using p that R ij j by (fastforce simp: pointer_ok_def)
  show "pointer_ok j (j # R') (lookup_next i (mLookup s)) s" if "it = Some i"
  proof (cases "lookup_next i (mLookup s)")
    case None
    then have "\<forall>k \<in> ids_of s. k \<le> i" using lookup_next_spec [OF asc, of i] by simp
    then show ?thesis unfolding pointer_ok_def None using in_R ij by auto
  next
    case (Some n)
    then have n: "n \<in> ids_of s" "i < n" "\<forall>k' \<in> ids_of s. i < k' \<longrightarrow> n \<le> k'"
      using lookup_next_spec [OF asc, of i] by auto
    then show ?thesis unfolding pointer_ok_def Some option.case using in_R ij gap by auto
  qed
  show "pointer_ok j (j # R') it s'" if it: "it \<noteq> Some i" and f: "allocator_frame s s'" and ids: "ids_of s' = insert i (ids_of s)"
  proof (cases it)
    case None
    then have "\<forall>k \<in> ids_of s. k < i" using p by (simp add: pointer_ok_def)
    then show ?thesis unfolding pointer_ok_def None ids using in_R ij by auto
  next
    case (Some n)
    then have n: "n \<in> ids_of s" "i \<le> n" "\<forall>k \<in> ids_of s. i \<le> k \<longrightarrow> n \<le> k" using p by (auto simp: pointer_ok_def)
    have "i < n" using n(2) it Some by (cases "i = n") auto
    then show ?thesis unfolding pointer_ok_def Some option.case ids using in_R ij gap n by auto
  qed
qed

lemma allocateNew_spec:
  assumes "sorted R" "R \<noteq> [] \<Longrightarrow> pointer_ok (hd R) R it s" "ascending (mLookup s)"
    "card (ids_of s \<union> set R) + (if distinct R then 0 else 1) \<le> size (channel_pool s)"
    "card (ids_of s) = length (mLookup s)" "allocateNew R it s = (e, s')"
  shows "allocator_frame s s' \<and> (if distinct R
      then e = None \<and> channel_pool s' = channel_pool s \<and> ids_of s' = ids_of s \<union> set R \<and> set (mLookup s) \<subseteq> set (mLookup s')
      else e = Some logic_error \<and> size (channel_pool s') + 1 = size (channel_pool s))"
  using assms
proof (induction R arbitrary: it s)
  case Nil
  then show ?case by (simp add: allocator_frame_def)
next
  case (Cons i R)
  note asc = Cons.prems(3)
  have p: "pointer_ok i (i # R) it s" using Cons.prems(2) by simp
  have fin: "finite (ids_of s \<union> set (i # R))" by simp
  have unused: "mUnusedChannels s \<noteq> []" if "i \<notin> ids_of s"
  proof -
    have "ids_of s \<subset> ids_of s \<union> set (i # R)" using that by auto
    then have "card (ids_of s) < card (ids_of s \<union> set (i # R))" by (intro psubset_card_mono) auto
    then show ?thesis using Cons.prems(4,5) by (auto simp: size_channels)
  qed
  have member: "it = Some i \<longleftrightarrow> i \<in> ids_of s"
    using p by (auto simp: pointer_ok_def split: option.splits)
  have before: "case it of None \<Rightarrow> True | Some n \<Rightarrow> i < n" if "it \<noteq> Some i"
    using p that by (auto simp: pointer_ok_def le_less split: option.splits)
  define t where "t = (if i \<in> ids_of s then s else allocate_one i s)"
  define it' where "it' = (if i \<in> ids_of s then lookup_next i (mLookup s) else it)"
  have step: "allocateNew (i # R) it s = allocateNew R it' t"
  proof (cases "i \<in> ids_of s")
    case True
    then have "it = Some i" using member by blast
    then show ?thesis using True by (simp add: t_def it'_def)
  next
    case False
    then show ?thesis using allocateNew_step [OF unused before] member by (simp add: t_def it'_def)
  qed
  have t: "channel_pool t = channel_pool s" "ids_of t = insert i (ids_of s)" "set (mLookup s) \<subseteq> set (mLookup t)" "allocator_frame s t"
  proof -
    have "channel_pool t = channel_pool s \<and> ids_of t = insert i (ids_of s) \<and> set (mLookup s) \<subseteq> set (mLookup t) \<and> allocator_frame s t"
    proof (cases "i \<in> ids_of s")
      case True
      then show ?thesis using asc by (auto simp: t_def allocator_frame_def)
    next
      case False
      then show ?thesis using allocate_one_props [OF asc unused False] by (simp add: t_def)
    qed
    then show "channel_pool t = channel_pool s" "ids_of t = insert i (ids_of s)" "set (mLookup s) \<subseteq> set (mLookup t)" "allocator_frame s t"
      by blast+
  qed
  have asct: "ascending (mLookup t)" using t(4) by (simp add: allocator_frame_def)
  have cardt: "card (ids_of t) = length (mLookup t)"
  proof -
    have "distinct (map fst (mLookup t))" using asct unfolding ascending_def by (rule strict_sorted_distinct)
    from distinct_card [OF this] show ?thesis by simp
  qed
  have ids: "ids_of t \<union> set R = ids_of s \<union> set (i # R)" using t(2) by auto
  show ?case
  proof (cases "R \<noteq> [] \<and> hd R = i")
    case True
    then obtain R' where R: "R = i # R'" by (cases R) auto
    have it': "case it' of None \<Rightarrow> True | Some n \<Rightarrow> i < n"
    proof (cases "i \<in> ids_of s")
      case True
      then show ?thesis using lookup_next_spec [OF asc, of i] by (auto simp: it'_def split: option.splits)
    next
      case False
      then show ?thesis using before member by (simp add: it'_def)
    qed
    have nd: "\<not> distinct (i # R)" using R by simp
    have "card (ids_of t) + 1 \<le> size (channel_pool t)"
    proof -
      have "card (ids_of t) \<le> card (ids_of s \<union> set (i # R))" unfolding ids [symmetric] by (intro card_mono) auto
      then show ?thesis using Cons.prems(4) unfolding t(1) if_not_P [OF nd] by linarith
    qed
    then have ut: "mUnusedChannels t \<noteq> []" using cardt by (auto simp: size_channels)
    have "allocateNew R it' t = (Some logic_error, t\<lparr>mUnusedChannels := butlast (mUnusedChannels t)\<rparr>)"
      unfolding R using allocateNew_step [OF ut it'] t(2) by simp
    then have res: "e = Some logic_error" "s' = t\<lparr>mUnusedChannels := butlast (mUnusedChannels t)\<rparr>"
      using Cons.prems(6) step by simp_all
    have "size (channel_pool s') + 1 = size (channel_pool t)" using ut by (cases "mUnusedChannels t" rule: rev_cases) (simp_all add: size_channels res(2))
    moreover have "allocator_frame s s'" using t(4) res(2) by (simp add: allocator_frame_def)
    ultimately show ?thesis using nd res(1) t(1) by simp
  next
    case False
    have dist: "distinct (i # R) \<longleftrightarrow> distinct R"
    proof (cases R)
      case (Cons j R')
      then have "i < j" using False Cons.prems(1) by (auto simp: le_less)
      then have "i \<notin> set R" using Cons Cons.prems(1) by auto
      then show ?thesis by simp
    qed simp
    have "allocator_frame t s' \<and> (if distinct R
      then e = None \<and> channel_pool s' = channel_pool t \<and> ids_of s' = ids_of t \<union> set R \<and> set (mLookup t) \<subseteq> set (mLookup s')
      else e = Some logic_error \<and> size (channel_pool s') + 1 = size (channel_pool t))"
    proof (rule Cons.IH [OF _ _ asct _ cardt])
      show "sorted R" using Cons.prems(1) by simp
      show "card (ids_of t \<union> set R) + (if distinct R then 0 else 1) \<le> size (channel_pool t)"
        using Cons.prems(4) unfolding ids dist t(1) .
      show "allocateNew R it' t = (e, s')" using step Cons.prems(6) by simp
      show "pointer_ok (hd R) R it' t" if ne: "R \<noteq> []"
      proof -
        obtain j R' where R: "R = j # R'" using ne by (cases R) auto
        have ij: "i < j" and jr: "\<forall>r \<in> set R'. j \<le> r" using False Cons.prems(1) R by (auto simp: le_less)
        note adv = pointer_advance [OF p [unfolded R] refl ij jr asc]
        show ?thesis
        proof (cases "i \<in> ids_of s")
          case True
          then show ?thesis using adv(1) member R by (simp add: t_def it'_def)
        next
          case not: False
          then show ?thesis using adv(2) [OF _ t(4) t(2)] member R by (simp add: it'_def)
        qed
      qed
    qed
    then show ?thesis using t dist ids unfolding allocator_frame_def by (auto split: if_splits)
  qed
qed

section \<open>Setting the objects\<close>

lemma ascending_filter: "ascending l \<Longrightarrow> ascending (filter P l)"
proof (induction l)
  case (Cons e l)
  then show ?case by (auto simp: ascending_Cons)
qed simp

lemma ascending_card: "ascending l \<Longrightarrow> card (fst ` set l) = length l"
  unfolding ascending_def using distinct_card [of "map fst l"] strict_sorted_distinct by force

lemma filter_channels:
  "mset (map snd (filter P l) @ u @ map snd (filter (\<lambda>e. \<not> P e) l)) = mset (map snd l @ u)"
  by (induction l) auto

lemma first_pointer:
  assumes "ascending (mLookup s)" "ids_of s \<subseteq> set R" "sorted R" "R \<noteq> []"
  shows "pointer_ok (hd R) R (lookup_begin (mLookup s)) s"
proof -
  have hd: "hd R \<le> k" if "k \<in> ids_of s" for k using that assms(2-4) by (cases R) auto
  show ?thesis
    using lookup_begin_spec [OF assms(1)] assms(2) hd unfolding pointer_ok_def by (auto split: option.splits)
qed

lemma find_channel:
  assumes "distinct (map snd l)" "(k, c) \<in> set l"
  shows "find (\<lambda>v. snd v = c) l = Some (k, c)"
  using assms by (induction l) (auto simp: image_iff)

lemma allocator_size:
  assumes "allocator_inv s"
  shows "size (channel_pool s) = mMaxChannels s"
proof -
  have "card (set (map snd (mLookup s) @ mUnusedChannels s)) = length (map snd (mLookup s) @ mUnusedChannels s)"
    by (rule distinct_card) (use assms in \<open>simp add: allocator_inv_def\<close>)
  then show ?thesis using assms by (simp add: allocator_inv_def channel_pool_def)
qed

lemma inv_of_channels:
  assumes "allocator_inv s" "channel_pool s' = channel_pool s" "mMaxChannels s' = mMaxChannels s"
    "ascending (mLookup s')" "length (mSortedIds s') = mMaxChannels s"
  shows "allocator_inv s'"
proof -
  have "distinct (map snd (mLookup s') @ mUnusedChannels s') \<longleftrightarrow> distinct (map snd (mLookup s) @ mUnusedChannels s)"
    by (rule mset_eq_imp_distinct_iff) (use assms(2) in \<open>simp add: channel_pool_def\<close>)
  moreover have "set (map snd (mLookup s') @ mUnusedChannels s') = set (map snd (mLookup s) @ mUnusedChannels s)"
    by (rule mset_eq_setD) (use assms(2) in \<open>simp add: channel_pool_def\<close>)
  ultimately show ?thesis using assms by (simp only: allocator_inv_def simp_thms)
qed

lemma ObjectChannelAllocator_inv: "allocator_inv (ObjectChannelAllocator n)"
proof -
  have img: "(\<lambda>idx. n - Suc idx) ` {0..<n} = {..<n}"
  proof
    show "{..<n} \<subseteq> (\<lambda>idx. n - Suc idx) ` {0..<n}"
    proof
      fix x assume "x \<in> {..<n}"
      then have "x = n - Suc (n - Suc x)" "n - Suc x \<in> {0..<n}" by auto
      then show "x \<in> (\<lambda>idx. n - Suc idx) ` {0..<n}" by (rule image_eqI)
    qed
  qed auto
  have "inj_on (\<lambda>idx. n - Suc idx) {0..<n}" by (auto simp: inj_on_def)
  then show ?thesis using img
    by (simp add: allocator_inv_def ObjectChannelAllocator_def ascending_def distinct_map)
qed

text \<open>
  C15 (object_channels_spec): setting a new collection of objects. A collection larger than the
  number of channels is refused. Different objects get different channels: afterwards exactly
  the given objects have a channel, those that had one before keep it, no channel is lost, and the
  object of every used channel can be looked up. A collection with a repeated id, which the
  documentation does not forbid, ends in another exception after a channel has been taken from
  the unused ones without being given to an object, so that it is lost for good.
\<close>

theorem object_channels_spec:
  assumes "allocator_inv s"
  shows "if mMaxChannels s < length objectIds then setObjects objectIds s = (Some invalid_argument, s)
    else \<exists>e s'. setObjects objectIds s = (e, s') \<and> mMaxChannels s' = mMaxChannels s \<and>
      (if distinct objectIds
       then e = None \<and> allocator_inv s' \<and> ids_of s' = set objectIds \<and>
         (\<forall>entry \<in> set (mLookup s). fst entry \<in> set objectIds \<longrightarrow> entry \<in> set (mLookup s')) \<and>
         (\<forall>(k, c) \<in> set (mLookup s'). getObjectForChannel invalid s' c = k)
       else e = Some logic_error \<and> numberUsedChannels s' + length (mUnusedChannels s') + 1 = mMaxChannels s)"
proof (cases "mMaxChannels s < length objectIds")
  case False
  let ?R = "sort objectIds"
  let ?keep = "filter (\<lambda>e. fst e \<in> set ?R) (mLookup s)"
  define t where "t = s\<lparr>mSortedIds := ?R @ drop (length ?R) (mSortedIds s), mLookup := ?keep,
    mUnusedChannels := mUnusedChannels s @ map snd (filter (\<lambda>e. fst e \<notin> set ?R) (mLookup s))\<rparr>"
  have inv: "ascending (mLookup s)" "length (mSortedIds s) = mMaxChannels s"
    using assms by (simp_all add: allocator_inv_def)
  obtain e s' where run: "allocateNew ?R (lookup_begin ?keep) t = (e, s')" by (cases "allocateNew ?R (lookup_begin ?keep) t")
  have set_eq: "setObjects objectIds s = (e, s')"
    using False run removeStale_eq [OF sorted_sort inv(1)] by (simp add: setObjects_def t_def Let_def)
  have asc: "ascending (mLookup t)" using ascending_filter [OF inv(1)] by (simp add: t_def)
  have ch: "channel_pool t = channel_pool s"
    using filter_channels [of "\<lambda>e. fst e \<in> set ?R" "mLookup s" "mUnusedChannels s"] by (simp add: channel_pool_def t_def)
  have sub: "ids_of t \<subseteq> set ?R" by (auto simp: t_def)
  have "card (ids_of t \<union> set ?R) + (if distinct ?R then 0 else 1) \<le> size (channel_pool t)"
  proof -
    have "ids_of t \<union> set ?R = set objectIds" using sub by auto
    moreover have "card (set objectIds) + (if distinct objectIds then 0 else 1) \<le> length objectIds"
      using card_length [of objectIds] distinct_card [of objectIds] card_distinct [of objectIds] by (auto simp: le_less)
    ultimately show ?thesis using False ch allocator_size [OF assms] by simp
  qed
  note card = this
  have keep: "lookup_begin ?keep = lookup_begin (mLookup t)" by (simp add: t_def)
  have r: "allocator_frame t s'" "if distinct ?R
      then e = None \<and> channel_pool s' = channel_pool t \<and> ids_of s' = ids_of t \<union> set ?R \<and> set (mLookup t) \<subseteq> set (mLookup s')
      else e = Some logic_error \<and> size (channel_pool s') + 1 = size (channel_pool t)"
    using allocateNew_spec [OF sorted_sort first_pointer [OF asc sub sorted_sort] asc card ascending_card [OF asc]
        run [unfolded keep]] by blast+
  have fr: "mMaxChannels s' = mMaxChannels s" "ascending (mLookup s')" "length (mSortedIds s') = mMaxChannels s"
    using r(1) inv(2) False by (simp_all add: allocator_frame_def t_def)
  have "if distinct objectIds
       then e = None \<and> allocator_inv s' \<and> ids_of s' = set objectIds \<and>
         (\<forall>entry \<in> set (mLookup s). fst entry \<in> set objectIds \<longrightarrow> entry \<in> set (mLookup s')) \<and>
         (\<forall>(k, c) \<in> set (mLookup s'). getObjectForChannel invalid s' c = k)
       else e = Some logic_error \<and> numberUsedChannels s' + length (mUnusedChannels s') + 1 = mMaxChannels s"
  proof (cases "distinct objectIds")
    case True
    have inv': "allocator_inv s'" using inv_of_channels [OF assms _ fr] r(2) True ch by simp
    have "distinct (map snd (mLookup s'))" using inv' by (simp add: allocator_inv_def)
    then have "getObjectForChannel invalid s' c = k" if "(k, c) \<in> set (mLookup s')" for k c
      using find_channel [OF \<open>distinct (map snd (mLookup s'))\<close> that] by (simp add: getObjectForChannel_def)
    moreover have "entry \<in> set (mLookup s')" if "entry \<in> set (mLookup s)" "fst entry \<in> set objectIds" for entry
    proof -
      have "entry \<in> set (mLookup t)" using that by (simp add: t_def)
      then show ?thesis using r(2) True by auto
    qed
    moreover have "ids_of s' = set objectIds" using r(2) True sub by auto
    ultimately show ?thesis using True inv' r(2) by auto
  next
    case dup: False
    then show ?thesis using r(2) ch allocator_size [OF assms] by (simp add: size_channels numberUsedChannels_def)
  qed
  then show ?thesis using set_eq fr(1) False by auto
qed (simp add: setObjects_def)

theorem object_channels_spec_witness:
  "fst (setObjects [7, 3] (ObjectChannelAllocator 2)) = None \<and>
   fst (setObjects [7, 7] (ObjectChannelAllocator 2)) = Some logic_error"
  using object_channels_spec [OF ObjectChannelAllocator_inv, of 2 "[7, 3]" 0]
    object_channels_spec [OF ObjectChannelAllocator_inv, of 2 "[7, 7]" 0]
  by (auto simp: ObjectChannelAllocator_def split: if_splits)

text \<open>After such an exception, as many objects as there are channels can no longer be rendered.\<close>

lemma repeated_id_leaks:
  "fst (setObjects [3, 7] (snd (setObjects [7, 7] (ObjectChannelAllocator 2)))) = Some runtime_error"
  by code_simp

end
