(* ===== verification/Biquad_Filter.thy ===== *)
theory Biquad_Filter
  imports Basic_Matrix
begin

text \<open>
  Recursive filters of second order (\<open>src/libefl/reference/filter_functions_impl.hpp\<close>): a cascade
  of sections, each computed in the transposed direct form II with two state variables. It is
  compared with the difference equation that defines such a filter. The samples are elements of
  a commutative ring; rounding is not modelled.
\<close>

section \<open>The code\<close>

text \<open>One step: the new state variables and the memory with the output stored.\<close>

definition biquad_step ::
  "nat \<Rightarrow> nat \<Rightarrow> nat \<Rightarrow> nat \<Rightarrow> nat \<Rightarrow> 'a::ring \<times> 'a \<times> 'a memory \<Rightarrow> 'a \<times> 'a \<times> 'a memory" where
  "biquad_step sz input output coeffs idx = (\<lambda>(v1, v2, m).
     let x = m (elem sz input idx);
         y = m (elem sz coeffs 0) * x + v1;
         v1' = v2 + m (elem sz coeffs 1) * x - m (elem sz coeffs 3) * y;
         v2' = m (elem sz coeffs 2) * x - m (elem sz coeffs 4) * y
     in (v1', v2', m(elem sz output idx := y)))"

definition iirBiquadInternal ::
  "nat \<Rightarrow> nat \<Rightarrow> nat \<Rightarrow> nat \<Rightarrow> nat \<Rightarrow> nat \<Rightarrow> 'a::ring memory \<Rightarrow> 'a memory" where
  "iirBiquadInternal sz input output states coeffs numElements m =
     (case fold (biquad_step sz input output coeffs) [0..<numElements]
              (m (elem sz states 0), m (elem sz states 1), m) of
        (v1, v2, m) \<Rightarrow> m(elem sz states 0 := v1, elem sz states 1 := v2))"

definition iirBiquadInternalInplace :: "nat \<Rightarrow> nat \<Rightarrow> nat \<Rightarrow> nat \<Rightarrow> nat \<Rightarrow> 'a::ring memory \<Rightarrow> 'a memory" where
  "iirBiquadInternalInplace sz inout states coeffs numElements m =
     (case fold (biquad_step sz inout inout coeffs) [0..<numElements]
              (m (elem sz states 0), m (elem sz states 1), m) of
        (v1, v2, m) \<Rightarrow> m(elem sz states 0 := v1, elem sz states 1 := v2))"

definition iirFilterBiquadsSingleChannel ::
  "nat \<Rightarrow> nat \<Rightarrow> nat \<Rightarrow> nat \<Rightarrow> nat \<Rightarrow> nat \<Rightarrow> nat \<Rightarrow> nat \<Rightarrow> nat \<Rightarrow> nat \<Rightarrow> 'a::ring memory \<Rightarrow> error_code \<times> 'a memory" where
  "iirFilterBiquadsSingleChannel sz input output states coeffs numElements numSections stateStride
       coeffStride alignment m =
     (if \<not> checkAlignment sz input alignment then (alignmentError, m)
      else if \<not> checkAlignment sz output alignment then (alignmentError, m)
      else if numSections = 0 then vectorCopy sz input output numElements alignment m
      else (noError,
        fold (\<lambda>secIdx m. iirBiquadInternalInplace sz output (elem sz states (secIdx * stateStride))
                (elem sz coeffs (secIdx * coeffStride)) numElements m)
          [1..<numSections] (iirBiquadInternal sz input output states coeffs numElements m)))"

section \<open>The difference equation\<close>

text \<open>
  \<open>y[n] = b0 x[n] + b1 x[n-1] + b2 x[n-2] - a1 y[n-1] - a2 y[n-2]\<close>, with the last two inputs and
  outputs of the past.
\<close>

type_synonym 'a coefficients = "'a \<times> 'a \<times> 'a \<times> 'a \<times> 'a"
type_synonym 'a past = "'a \<times> 'a \<times> 'a \<times> 'a"

fun difference_step :: "'a::ring coefficients \<Rightarrow> 'a past \<Rightarrow> 'a \<Rightarrow> 'a" where
  "difference_step (b0, b1, b2, a1, a2) (x1, x2, y1, y2) x = b0 * x + b1 * x1 + b2 * x2 - a1 * y1 - a2 * y2"

fun shift_past :: "'a past \<Rightarrow> 'a \<Rightarrow> 'a \<Rightarrow> 'a past" where
  "shift_past (x1, x2, y1, y2) x y = (x, x1, y, y1)"

fun difference_equation :: "'a::ring coefficients \<Rightarrow> 'a past \<Rightarrow> 'a list \<Rightarrow> 'a list \<times> 'a past" where
  "difference_equation c p [] = ([], p)"
| "difference_equation c p (x # xs) =
     (let y = difference_step c p x; (ys, p') = difference_equation c (shift_past p x y) xs in (y # ys, p'))"

text \<open>A cascade: the output of each section is the input of the next.\<close>

fun cascade :: "('a::ring coefficients \<times> 'a past) list \<Rightarrow> 'a list \<Rightarrow> 'a list \<times> 'a past list" where
  "cascade [] xs = (xs, [])"
| "cascade ((c, p) # cs) xs =
     (let (ys, p') = difference_equation c p xs; (zs, ps) = cascade cs ys in (zs, p' # ps))"

section \<open>One section\<close>

text \<open>What the state variables stand for.\<close>

fun represents :: "'a::ring coefficients \<Rightarrow> 'a past \<Rightarrow> 'a \<Rightarrow> 'a \<Rightarrow> bool" where
  "represents (b0, b1, b2, a1, a2) (x1, x2, y1, y2) v1 v2 \<longleftrightarrow>
     v1 = b1 * x1 + b2 * x2 - a1 * y1 - a2 * y2 \<and> v2 = b2 * x1 - a2 * y1"

definition coefficients_at :: "nat \<Rightarrow> 'a memory \<Rightarrow> nat \<Rightarrow> 'a coefficients" where
  "coefficients_at sz m p = (m (elem sz p 0), m (elem sz p 1), m (elem sz p 2), m (elem sz p 3), m (elem sz p 4))"

lemma represents_step:
  assumes "represents (b0, b1, b2, a1, a2) p v1 v2"
  shows "b0 * x + v1 = difference_step (b0, b1, b2, a1, a2) p x"
    "represents (b0, b1, b2, a1, a2) (shift_past p x (b0 * x + v1))
       (v2 + b1 * x - a1 * (b0 * x + v1)) (b2 * x - a2 * (b0 * x + v1))"
  using assms by (cases p; simp)+

lemma difference_snoc:
  "difference_equation c p (xs @ [x]) =
     (case difference_equation c p xs of (ys, p') \<Rightarrow>
        (ys @ [difference_step c p' x], shift_past p' x (difference_step c p' x)))"
  by (induction xs arbitrary: p) (simp_all add: Let_def split_beta)

lemma length_difference [simp]: "length (fst (difference_equation c p xs)) = length xs"
  by (induction xs arbitrary: p) (simp_all add: Let_def split_beta)

text \<open>
  The loop of one section computes the difference equation, for a source that lies apart from
  the output, coincides with it or lies behind it.
\<close>

lemma biquad_loop:
  assumes sz: "0 < sz" and coeffs: "block sz coeffs 5 \<inter> block sz output n = {}"
    and safe: "safe n (elem sz input) (elem sz output)"
    and rep: "represents (coefficients_at sz m coeffs) p v1 v2" and k: "k \<le> n"
  shows "case fold (biquad_step sz input output coeffs) [0..<k] (v1, v2, m) of (w1, w2, m') \<Rightarrow>
    (case difference_equation (coefficients_at sz m coeffs) p (samples_at sz m input k) of (ys, p') \<Rightarrow>
       samples_at sz m' output k = ys \<and> represents (coefficients_at sz m coeffs) p' w1 w2) \<and>
    same_outside (block sz output k) m m'"
  using k
proof (induction k)
  case 0
  then show ?case using rep by (simp add: samples_at_def same_outside_def)
next
  case (Suc k)
  let ?c = "coefficients_at sz m coeffs"
  obtain w1 w2 m' where f: "fold (biquad_step sz input output coeffs) [0..<k] (v1, v2, m) = (w1, w2, m')"
    by (metis prod_cases3)
  obtain ys p' where d: "difference_equation ?c p (samples_at sz m input k) = (ys, p')" by (metis surj_pair)
  have IH: "samples_at sz m' output k = ys" "represents ?c p' w1 w2" "same_outside (block sz output k) m m'"
    using Suc f d by auto
  have sub: "block sz output k \<subseteq> block sz output n" using Suc.prems by (intro image_mono) auto
  have co: "m' (elem sz coeffs j) = m (elem sz coeffs j)" if "j < 5" for j
  proof -
    have "elem sz coeffs j \<in> block sz coeffs 5" by (rule imageI) (use that in simp)
    then have "elem sz coeffs j \<notin> block sz output k" using coeffs sub by blast
    then show ?thesis using IH(3) by (simp add: same_outside_def)
  qed
  let ?x = "m (elem sz input k)"
  have x: "m' (elem sz input k) = ?x"
    using safe IH(3) Suc.prems by (simp add: safe_def same_outside_def)
  obtain b0 b1 b2 a1 a2 where c: "?c = (b0, b1, b2, a1, a2)" by (metis prod_cases5)
  have cm: "m' (elem sz coeffs 0) = b0" "m' (elem sz coeffs 1) = b1" "m' (elem sz coeffs 2) = b2"
    "m' (elem sz coeffs 3) = a1" "m' (elem sz coeffs 4) = a2"
    using co [of 0] co [of 1] co [of 2] co [of 3] co [of 4] c by (auto simp: coefficients_at_def)
  define y where "y = b0 * ?x + w1"
  have y: "y = difference_step ?c p' ?x" using represents_step(1) IH(2) c by (metis y_def)
  have st: "biquad_step sz input output coeffs k (w1, w2, m')
      = (w2 + b1 * ?x - a1 * y, b2 * ?x - a2 * y, m'(elem sz output k := y))"
    unfolding biquad_step_def Let_def prod.case cm x y_def by simp
  have xs: "samples_at sz m input (Suc k) = samples_at sz m input k @ [?x]" by (simp add: samples_at_def)
  have old: "(m'(elem sz output k := y)) (elem sz output i) = m' (elem sz output i)" if "i < k" for i
    using that sz by simp
  have out: "samples_at sz (m'(elem sz output k := y)) output (Suc k) = ys @ [y]"
  proof -
    have "samples_at sz (m'(elem sz output k := y)) output k = samples_at sz m' output k"
      unfolding samples_at_def using old by (intro map_cong) auto
    then show ?thesis unfolding samples_at_Suc using IH(1) by simp
  qed
  have r: "represents ?c (shift_past p' ?x y) (w2 + b1 * ?x - a1 * y) (b2 * ?x - a2 * y)"
    using represents_step(2) IH(2) c unfolding y_def by metis
  have o: "same_outside (block sz output (Suc k)) m (m'(elem sz output k := y))"
    using IH(3) by (auto simp: same_outside_def lessThan_Suc)
  show ?case using f st d xs out r o y difference_snoc [of ?c p "samples_at sz m input k" ?x] by simp
qed

lemma iirBiquadInternalInplace_eq:
  "iirBiquadInternalInplace sz inout states coeffs n = iirBiquadInternal sz inout inout states coeffs n"
  by (rule ext) (simp add: iirBiquadInternalInplace_def iirBiquadInternal_def)

lemma section_spec:
  assumes sz: "0 < sz" and coeffs: "block sz coeffs 5 \<inter> block sz output n = {}"
    and states: "block sz states 2 \<inter> block sz output n = {}"
    and safe: "safe n (elem sz input) (elem sz output)"
    and rep: "represents (coefficients_at sz m coeffs) p (m (elem sz states 0)) (m (elem sz states 1))"
    and d: "difference_equation (coefficients_at sz m coeffs) p (samples_at sz m input n) = (ys, p')"
    and m': "m' = iirBiquadInternal sz input output states coeffs n m"
  shows "samples_at sz m' output n = ys"
    "represents (coefficients_at sz m coeffs) p' (m' (elem sz states 0)) (m' (elem sz states 1))"
    "same_outside (block sz output n \<union> block sz states 2) m m'"
proof -
  obtain w1 w2 m1 where f: "fold (biquad_step sz input output coeffs) [0..<n]
      (m (elem sz states 0), m (elem sz states 1), m) = (w1, w2, m1)" by (metis prod_cases3)
  have l: "samples_at sz m1 output n = ys" "represents (coefficients_at sz m coeffs) p' w1 w2"
    "same_outside (block sz output n) m m1"
    using biquad_loop [OF sz coeffs safe rep order_refl] unfolding f d by auto
  have m1: "m' = m1(elem sz states 0 := w1, elem sz states 1 := w2)"
    unfolding m' iirBiquadInternal_def f by simp
  have st: "elem sz states i \<notin> block sz output n" "elem sz states i \<in> block sz states 2" if "i < 2" for i
  proof -
    show i: "elem sz states i \<in> block sz states 2" by (rule imageI) (use that in simp)
    then show "elem sz states i \<notin> block sz output n" using states by blast
  qed
  have "m' (elem sz output i) = m1 (elem sz output i)" if "i < n" for i
  proof -
    have "elem sz output i \<in> block sz output n" by (rule imageI) (use that in simp)
    then have "elem sz output i \<noteq> elem sz states 0" "elem sz output i \<noteq> elem sz states 1"
      using st(1) [of 0] st(1) [of 1] by auto
    then show ?thesis unfolding m1 by simp
  qed
  then have "samples_at sz m' output n = samples_at sz m1 output n" by (simp add: samples_at_def)
  then show "samples_at sz m' output n = ys" using l(1) by simp
  have "m' (elem sz states 0) = w1" "m' (elem sz states 1) = w2" unfolding m1 using sz by simp_all
  then show "represents (coefficients_at sz m coeffs) p' (m' (elem sz states 0)) (m' (elem sz states 1))"
    using l(2) by simp
  have s2: "same_outside (block sz states 2) m1 m'"
    using st(2) [of 0] st(2) [of 1] unfolding m1 same_outside_def by auto
  show "same_outside (block sz output n \<union> block sz states 2) m m'"
    by (rule same_outside_trans [OF same_outside_mono [OF l(3)] same_outside_mono [OF s2]]) auto
qed

section \<open>The cascade\<close>

lemma cascade_snoc:
  "cascade (cs @ [(c, p)]) xs =
     (case cascade cs xs of (ys, ps) \<Rightarrow> case difference_equation c p ys of (zs, p') \<Rightarrow> (zs, ps @ [p']))"
proof (induction cs arbitrary: xs)
  case (Cons e cs)
  then show ?case by (cases e) (simp add: Let_def split_beta)
qed (simp add: Let_def split_beta)

lemma length_cascade [simp]: "length (snd (cascade cs xs)) = length cs"
proof (induction cs arbitrary: xs)
  case (Cons e cs)
  then show ?case by (cases e) (simp add: Let_def split_beta)
qed simp

definition sections_apart :: "nat \<Rightarrow> nat \<Rightarrow> (nat \<Rightarrow> nat) \<Rightarrow> (nat \<Rightarrow> nat) \<Rightarrow> nat \<Rightarrow> nat \<Rightarrow> bool" where
  "sections_apart sz output st co n S \<longleftrightarrow>
     (\<forall>s < S. block sz (st s) 2 \<inter> block sz output n = {} \<and> block sz (co s) 5 \<inter> block sz output n = {} \<and>
        (\<forall>t < S. block sz (st s) 2 \<inter> block sz (co t) 5 = {} \<and>
           (s \<noteq> t \<longrightarrow> block sz (st s) 2 \<inter> block sz (st t) 2 = {})))"

definition run_sections ::
  "nat \<Rightarrow> nat \<Rightarrow> nat \<Rightarrow> (nat \<Rightarrow> nat) \<Rightarrow> (nat \<Rightarrow> nat) \<Rightarrow> nat \<Rightarrow> nat \<Rightarrow> 'a::ring memory \<Rightarrow> 'a memory" where
  "run_sections sz input output st co n k m =
     fold (\<lambda>s m. iirBiquadInternal sz output output (st s) (co s) n m) [1..<Suc k]
       (iirBiquadInternal sz input output (st 0) (co 0) n m)"

lemma run_sections_Suc:
  "run_sections sz input output st co n (Suc k) m =
     iirBiquadInternal sz output output (st (Suc k)) (co (Suc k)) n (run_sections sz input output st co n k m)"
  by (simp add: run_sections_def)

lemma coefficients_cong:
  assumes "same_outside A m m'" "block sz q 5 \<inter> A = {}"
  shows "coefficients_at sz m' q = coefficients_at sz m q"
proof -
  have "m' (elem sz q j) = m (elem sz q j)" if "j < 5" for j
  proof -
    have "elem sz q j \<in> block sz q 5" by (rule imageI) (use that in simp)
    then show ?thesis using assms by (auto simp: same_outside_def)
  qed
  from this [of 0] this [of 1] this [of 2] this [of 3] this [of 4] show ?thesis
    by (simp add: coefficients_at_def)
qed

lemma states_cong:
  assumes "same_outside A m m'" "block sz q 2 \<inter> A = {}"
  shows "m' (elem sz q 0) = m (elem sz q 0)" "m' (elem sz q 1) = m (elem sz q 1)"
proof -
  have "elem sz q 0 \<in> block sz q 2" "elem sz q 1 \<in> block sz q 2" by (rule imageI, simp)+
  then show "m' (elem sz q 0) = m (elem sz q 0)" "m' (elem sz q 1) = m (elem sz q 1)"
    using assms by (auto simp: same_outside_def)
qed

lemma run_sections_spec:
  assumes sz: "0 < sz" and lay: "sections_apart sz output st co n S"
    and safe: "safe n (elem sz input) (elem sz output)"
    and rep: "\<And>s. s < S \<Longrightarrow> represents (coefficients_at sz m (co s)) (past s) (m (elem sz (st s) 0)) (m (elem sz (st s) 1))"
    and k: "k < S"
  shows "case cascade (map (\<lambda>s. (coefficients_at sz m (co s), past s)) [0..<Suc k]) (samples_at sz m input n) of (ys, ps) \<Rightarrow>
    samples_at sz (run_sections sz input output st co n k m) output n = ys \<and>
    (\<forall>s \<le> k. represents (coefficients_at sz m (co s)) (ps ! s)
       (run_sections sz input output st co n k m (elem sz (st s) 0))
       (run_sections sz input output st co n k m (elem sz (st s) 1))) \<and>
    same_outside (block sz output n \<union> (\<Union>s\<le>k. block sz (st s) 2)) m (run_sections sz input output st co n k m)"
  using k
proof (induction k)
  case 0
  obtain ys p' where d: "difference_equation (coefficients_at sz m (co 0)) (past 0) (samples_at sz m input n) = (ys, p')"
    by (metis surj_pair)
  have a: "block sz (co 0) 5 \<inter> block sz output n = {}" "block sz (st 0) 2 \<inter> block sz output n = {}"
    using lay 0 by (auto simp: sections_apart_def)
  show ?case using section_spec [OF sz a safe rep [OF 0] d refl] d by (simp add: run_sections_def)
next
  case (Suc k)
  let ?m = "run_sections sz input output st co n k m" and ?c = "\<lambda>s. coefficients_at sz m (co s)"
  let ?n = "Suc k"
  obtain ys ps where ca: "cascade (map (\<lambda>s. (?c s, past s)) [0..<Suc k]) (samples_at sz m input n) = (ys, ps)"
    by (rule prod.exhaust)
  note ih = Suc.IH [OF Suc_lessD [OF Suc.prems], unfolded ca prod.case]
  note IH = conjunct1 [OF ih] conjunct1 [OF conjunct2 [OF ih]] conjunct2 [OF conjunct2 [OF ih]]
  have ap: "block sz (co ?n) 5 \<inter> block sz output n = {}" "block sz (st ?n) 2 \<inter> block sz output n = {}"
    "\<And>s. s \<le> k \<Longrightarrow> block sz (st s) 2 \<inter> block sz (st ?n) 2 = {}"
    "\<And>s. s \<le> k \<Longrightarrow> block sz (st s) 2 \<inter> block sz (co ?n) 5 = {}"
    "\<And>s. s \<le> k \<Longrightarrow> block sz (st s) 2 \<inter> block sz output n = {}"
    using lay Suc.prems unfolding sections_apart_def by auto
  have away: "block sz (co ?n) 5 \<inter> (block sz output n \<union> (\<Union>s\<le>k. block sz (st s) 2)) = {}"
    "block sz (st ?n) 2 \<inter> (block sz output n \<union> (\<Union>s\<le>k. block sz (st s) 2)) = {}"
    unfolding Int_Un_distrib Int_UN_distrib using ap by (simp_all add: Int_commute)
  have co: "coefficients_at sz ?m (co ?n) = ?c ?n" by (rule coefficients_cong [OF IH(3) away(1)])
  have rep': "represents (coefficients_at sz ?m (co ?n)) (past ?n) (?m (elem sz (st ?n) 0)) (?m (elem sz (st ?n) 1))"
    unfolding co states_cong [OF IH(3) away(2)] by (rule rep [OF Suc.prems])
  obtain zs p' where d: "difference_equation (coefficients_at sz ?m (co ?n)) (past ?n) (samples_at sz ?m output n) = (zs, p')"
    by (metis surj_pair)
  have safe': "safe n (elem sz output) (elem sz output)" using sz by (auto simp: safe_def)
  define m2 where "m2 = run_sections sz input output st co n ?n m"
  have m2: "m2 = iirBiquadInternal sz output output (st ?n) (co ?n) n ?m" by (simp add: m2_def run_sections_Suc)
  note sec = section_spec [OF sz ap(1,2) safe' rep' d m2]
  have lps: "length ps = Suc k"
    using length_cascade [of "map (\<lambda>s. (?c s, past s)) [0..<Suc k]" "samples_at sz m input n"]
    unfolding ca by (simp del: upt_Suc)
  have ca2: "cascade (map (\<lambda>s. (?c s, past s)) [0..<Suc ?n]) (samples_at sz m input n) = (zs, ps @ [p'])"
    using cascade_snoc [of "map (\<lambda>s. (?c s, past s)) [0..<Suc k]" "?c ?n" "past ?n" "samples_at sz m input n"] ca d co IH(1)
    by simp
  have keep: "represents (?c s) ((ps @ [p']) ! s) (m2 (elem sz (st s) 0)) (m2 (elem sz (st s) 1))" if "s \<le> ?n" for s
  proof (cases "s = ?n")
    case True
    then show ?thesis using sec(2) lps co by (simp add: nth_append)
  next
    case False
    then have s: "s \<le> k" using that by simp
    have "block sz (st s) 2 \<inter> (block sz output n \<union> block sz (st ?n) 2) = {}" using ap(3,5) [OF s] by blast
    from states_cong [OF sec(3) this] show ?thesis using IH(2) s lps by (simp add: nth_append)
  qed
  have "same_outside (block sz output n \<union> (\<Union>s\<le>?n. block sz (st s) 2)) m m2"
    by (rule same_outside_trans [OF same_outside_mono [OF IH(3)] same_outside_mono [OF sec(3)]]) (unfold atMost_Suc, blast+)
  then show ?case unfolding ca2 m2_def [symmetric] using sec(1) keep by simp
qed

text \<open>
  C20 (biquad_cascade_spec): filtering a block with a cascade of sections whose state variables
  stand for the past of the signals leaves in the output exactly what the difference equations of
  the sections, applied one after the other, give for the input, and state variables that stand
  for the new past, so that consecutive blocks are filtered like one signal; nothing else is
  changed. Without sections the input is copied.
\<close>

theorem biquad_cascade_spec:
  fixes m :: "'a::ring memory"
  assumes "0 < sz" and "checkAlignment sz input al" and "checkAlignment sz output al"
    and "safe n (elem sz input) (elem sz output)"
    and "sections_apart sz output (\<lambda>s. elem sz states (s * stateStride)) (\<lambda>s. elem sz coeffs (s * coeffStride)) n S"
    and "\<And>s. s < S \<Longrightarrow> represents (coefficients_at sz m (elem sz coeffs (s * coeffStride))) (past s)
      (m (elem sz states (s * stateStride))) (m (elem sz states (s * stateStride + 1)))"
    and "cascade (map (\<lambda>s. (coefficients_at sz m (elem sz coeffs (s * coeffStride)), past s)) [0..<S])
      (samples_at sz m input n) = (ys, past')"
    and "iirFilterBiquadsSingleChannel sz input output states coeffs n S stateStride coeffStride al m = (code, m')"
  shows "code = noError \<and> samples_at sz m' output n = ys \<and>
    (\<forall>s < S. represents (coefficients_at sz m (elem sz coeffs (s * coeffStride))) (past' ! s)
      (m' (elem sz states (s * stateStride))) (m' (elem sz states (s * stateStride + 1)))) \<and>
    same_outside (block sz output n \<union> (\<Union>s<S. block sz (elem sz states (s * stateStride)) 2)) m m'"
proof (cases "S = 0")
  case True
  let ?r = "vectorCopy sz input output n al m"
  have r: "?r = (code, m')" using assms(2,3,8) True by (simp add: iirFilterBiquadsSingleChannel_def)
  have "outcome sz al [input, output] n (elem sz output) (\<lambda>i. m (elem sz input i)) m ?r"
    by (rule vectorCopy_outcome [OF assms(1,4)])
  then have o: "code = noError" "stored n (elem sz output) (\<lambda>i. m (elem sz input i)) m m'"
    using assms(2,3) unfolding r by (auto simp: outcome_def)
  then have "samples_at sz m' output n = samples_at sz m input n" by (simp add: samples_at_def stored_def)
  moreover have "same_outside (block sz output n) m m'" using o(2) by (simp add: stored_def same_outside_def)
  ultimately show ?thesis using True assms(7) o(1) by simp
next
  case False
  let ?st = "\<lambda>s. elem sz states (s * stateStride)" and ?co = "\<lambda>s. elem sz coeffs (s * coeffStride)"
  let ?k = "S - 1"
  have S: "S = Suc ?k" "?k < S" using False by simp_all
  have m': "m' = run_sections sz input output ?st ?co n ?k m" "code = noError"
    using assms(2,3,8) False S(1)
    by (auto simp: iirFilterBiquadsSingleChannel_def run_sections_def iirBiquadInternalInplace_eq)
  have rep: "represents (coefficients_at sz m (?co s)) (past s) (m (elem sz (?st s) 0)) (m (elem sz (?st s) 1))"
    if "s < S" for s using assms(6) [OF that] by (simp add: algebra_simps)
  have eqs: "(\<Union>s\<le>?k. block sz (?st s) 2) = (\<Union>s<S. block sz (?st s) 2)" using S(1) by (metis lessThan_Suc_atMost)
  have off: "elem sz states (s * stateStride + 1) = elem sz (?st s) 1" "?st s = elem sz (?st s) 0" for s
    by (simp_all add: algebra_simps)
  from run_sections_spec [OF assms(1,5,4) rep S(2)] assms(7) S(1)
  have "samples_at sz m' output n = ys \<and>
    (\<forall>s \<le> ?k. represents (coefficients_at sz m (?co s)) (past' ! s) (m' (elem sz (?st s) 0)) (m' (elem sz (?st s) 1))) \<and>
    same_outside (block sz output n \<union> (\<Union>s\<le>?k. block sz (?st s) 2)) m m'"
    unfolding m'(1) by simp
  then show ?thesis unfolding eqs off(1) using m'(2) S(1) by (auto simp: less_Suc_eq_le)
qed

text \<open>
  Two integrators, \<open>y[n] = x[n] + y[n-1]\<close>, in a row, starting from silence, on the block \<open>1, 2, 3\<close>.
  The input lies at the addresses 0 to 2, the output at 10 to 12, the state variables at 20 to 23 and the
  coefficients at 30 to 39.
\<close>

definition integrators :: "int memory" where
  "integrators a = (if a < 3 then int a + 1 else if a = 30 \<or> a = 35 then 1 else if a = 33 \<or> a = 38 then - 1 else 0)"

lemma block_range: "block 1 p n = {p..<p + n}"
proof -
  have "block 1 p n = (\<lambda>i. i + p) ` {0..<n}" by (simp add: lessThan_atLeast0 add.commute)
  then show ?thesis by (simp add: add.commute)
qed

lemma integrators_apart: "sections_apart 1 10 (\<lambda>s. elem 1 20 (s * 2)) (\<lambda>s. elem 1 30 (s * 5)) 3 2"
  unfolding sections_apart_def block_range by (simp add: less_2_cases_iff)

lemma integrators_cascade:
  "cascade (map (\<lambda>s. (coefficients_at 1 integrators (elem 1 30 (s * 5)), (0, 0, 0, 0))) [0..<2])
     (samples_at 1 integrators 0 3) = ([1, 4, 10], [(3, 2, 6, 3), (6, 3, 10, 4)])"
  by (simp add: coefficients_at_def samples_at_def integrators_def upt_rec)

theorem biquad_cascade_spec_witness:
  "samples_at 1 (snd (iirFilterBiquadsSingleChannel 1 0 10 20 30 3 2 2 5 1 integrators)) 10 3 = [1, 4, 10]"
proof -
  obtain code m' where r: "iirFilterBiquadsSingleChannel 1 0 10 20 30 3 2 2 5 1 integrators = (code, m')"
    by (rule prod.exhaust)
  have al: "checkAlignment 1 0 1" "checkAlignment 1 10 1" by (simp_all add: checkAlignment_def alignmentIsPowerOfTwo_def)
  have safe: "safe 3 (elem 1 0) (elem 1 10)" by (auto simp: safe_def)
  have rep: "represents (coefficients_at 1 integrators (elem 1 30 (s * 5))) (0, 0, 0, 0)
      (integrators (elem 1 20 (s * 2))) (integrators (elem 1 20 (s * 2 + 1)))" if "s < 2" for s
    using that by (auto simp: coefficients_at_def integrators_def less_2_cases_iff)
  show ?thesis
    using biquad_cascade_spec [OF zero_less_one al safe integrators_apart rep integrators_cascade r] r by simp
qed

end
