(* ===== verification/Core_Convolver.thy ===== *)
theory Core_Convolver
  imports Circular_Buffer
begin

text \<open>
  Fast convolution in uniform partitions (\<open>src/librbbl/core_convolver_uniform.hpp\<close> and \<open>.cpp\<close>). The
  inputs go into a ring buffer; every block, the last two blocks of each input are transformed into
  the frequency-domain delay line, a ring of spectra; a filter is a row of spectra of its
  partitions; a filter is applied by multiplying the spectra of the same age and adding up.

  There are two memories, one of samples and one of complex values, whose objects are allocated
  separately; a complex value is twice as large as a sample. The FFT library is an argument, as is
  \<open>ofReal\<close>, the conversion of a gain into a complex value. Samples are elements of a field, complex
  values of a commutative ring; rounding is not modelled. The error codes of the FFT wrapper are
  ignored by the code and not modelled.
\<close>

section \<open>The state\<close>

record ('a, 'c) fft_wrapper =
  fftForward :: "'a list \<Rightarrow> 'c list"
  fftInverse :: "'c list \<Rightarrow> 'a list"
  forwardScalingFactor :: 'a
  inverseScalingFactor :: 'a

record 'a core_convolver =
  ccAlignment :: nat
  ccComplexAlignment :: nat
  ccNumberOfInputs :: nat
  ccNumberOfOutputs :: nat
  ccBlockLength :: nat
  ccMaxFilterLength :: nat
  ccNumberOfFilterPartitions :: nat
  ccDftSize :: nat
  ccDftRepresentationSizePadded :: nat
  ccInputBuffers :: circular_buffer
  ccInputFDL :: basic_matrix
  ccFdlCycleOffset :: nat
  ccTimeDomainTransformBuffer :: aligned_array
  ccFilterPartitionsFrequencyDomain :: basic_matrix
  ccFrequencyDomainAccumulator :: aligned_array
  ccFilterScalingFactor :: 'a

text \<open>The results of a transform are stored from an address on.\<close>

definition store_list :: "nat \<Rightarrow> nat \<Rightarrow> 'a list \<Rightarrow> 'a memory \<Rightarrow> 'a memory" where
  "store_list sz p xs m = for_each (length xs) (elem sz p) (\<lambda>i m. xs ! i) m"

definition forwardTransform ::
  "('a, 'c) fft_wrapper \<Rightarrow> nat \<Rightarrow> nat \<Rightarrow> nat \<Rightarrow> nat \<Rightarrow> 'a memory \<Rightarrow> 'c memory \<Rightarrow> 'c memory" where
  "forwardTransform fft sz n inp out m c = store_list (2 * sz) out (fftForward fft (samples_at sz m inp n)) c"

definition inverseTransform ::
  "('a, 'c) fft_wrapper \<Rightarrow> nat \<Rightarrow> nat \<Rightarrow> nat \<Rightarrow> nat \<Rightarrow> 'c memory \<Rightarrow> 'a memory \<Rightarrow> 'a memory" where
  "inverseTransform fft sz n inp out c m =
     store_list sz out (fftInverse fft (samples_at (2 * sz) c inp (n div 2 + 1))) m"

section \<open>Sizes\<close>

text \<open>The quotient is rounded up after a division of \<open>double\<close>s, which is exact enough for lengths below \<open>2 ^ 52\<close>.\<close>

definition calculateNumberOfPartitions :: "nat \<Rightarrow> nat \<Rightarrow> nat" where
  "calculateNumberOfPartitions filterLength blockLength = (filterLength + blockLength - 1) div blockLength"

definition calculateDftSize :: "nat \<Rightarrow> nat" where
  "calculateDftSize blockLength = 2 * blockLength"

definition calculateDftRepresentationSize :: "nat \<Rightarrow> exn + nat" where
  "calculateDftRepresentationSize blockLength =
     (let dftSize = calculateDftSize blockLength
      in if dftSize mod 2 \<noteq> 0 then Inl invalid_argument else Inr (dftSize div 2 + 1))"

definition calculateDftRepresentationSizePadded :: "nat \<Rightarrow> nat \<Rightarrow> exn + nat" where
  "calculateDftRepresentationSizePadded blockLength alignment =
     bindE (calculateDftRepresentationSize blockLength) (\<lambda>n. Inr (nextAlignedSize n alignment))"

definition calculateFilterScalingFactor :: "('a::field, 'c) fft_wrapper \<Rightarrow> nat \<Rightarrow> 'a" where
  "calculateFilterScalingFactor fft dftSize =
     1 / (forwardScalingFactor fft * inverseScalingFactor fft * of_nat dftSize)"

section \<open>The delay line of spectra\<close>

definition getFdlBlock :: "nat \<Rightarrow> 'a core_convolver \<Rightarrow> nat \<Rightarrow> nat \<Rightarrow> nat" where
  "getFdlBlock sz cc inputIdx blockIdx =
     (let columnIdx = (ccFdlCycleOffset cc + blockIdx) mod ccNumberOfFilterPartitions cc * ccDftRepresentationSizePadded cc
      in elem (2 * sz) (matrix_row (2 * sz) (ccInputFDL cc) inputIdx) columnIdx)"

definition getFdFilterPartition :: "nat \<Rightarrow> 'a core_convolver \<Rightarrow> nat \<Rightarrow> nat \<Rightarrow> nat" where
  "getFdFilterPartition sz cc filterIdx blockIdx =
     (let columnIdx = blockIdx * ccDftRepresentationSizePadded cc
      in elem (2 * sz) (matrix_row (2 * sz) (ccFilterPartitionsFrequencyDomain cc) filterIdx) columnIdx)"

definition advanceFDL :: "'a core_convolver \<Rightarrow> 'a core_convolver" where
  "advanceFDL cc =
     cc\<lparr>ccFdlCycleOffset :=
       (ccFdlCycleOffset cc + ccNumberOfFilterPartitions cc - 1) mod ccNumberOfFilterPartitions cc\<rparr>"

definition processInputs ::
  "('a, 'c) fft_wrapper \<Rightarrow> nat \<Rightarrow> 'a core_convolver \<Rightarrow> nat \<Rightarrow> nat \<Rightarrow> nat \<Rightarrow> 'a memory \<Rightarrow> 'c memory
   \<Rightarrow> exn + 'a core_convolver \<times> 'a memory \<times> 'c memory" where
  "processInputs fft sz cc input channelStride alignment m c =
     bindE (write_strided sz (ccInputBuffers cc) input channelStride (ccNumberOfInputs cc) (ccBlockLength cc) alignment m)
       (\<lambda>(buf, m).
         let cc = advanceFDL (cc\<lparr>ccInputBuffers := buf\<rparr>)
         in Inr (cc, m,
              fold (\<lambda>chIdx c. forwardTransform fft sz (ccDftSize cc)
                      (getReadPointer sz (ccInputBuffers cc) chIdx (ccDftSize cc)) (getFdlBlock sz cc chIdx 0) m c)
                [0..<ccNumberOfInputs cc] c))"

section \<open>Applying a filter\<close>

text \<open>A vector function whose error is thrown.\<close>

definition or_throw :: "exn \<Rightarrow> error_code \<times> 'a \<Rightarrow> exn + 'a" where
  "or_throw e r = (case r of (res, m) \<Rightarrow> if res \<noteq> noError then Inl e else Inr m)"

definition processFilter ::
  "('a \<Rightarrow> 'c) \<Rightarrow> nat \<Rightarrow> 'a core_convolver \<Rightarrow> nat \<Rightarrow> nat \<Rightarrow> 'a \<Rightarrow> nat \<Rightarrow> bool \<Rightarrow> 'c::{plus,times} memory \<Rightarrow> exn + 'c memory" where
  "processFilter ofReal sz cc inputIndex filterIndex gain result addFlag c =
     (let acc = mAlignedStorage (ccFrequencyDomainAccumulator cc);
          n = ccDftRepresentationSizePadded cc; al = ccComplexAlignment cc
      in bindE (or_throw runtime_error (vectorMultiply (2 * sz) (getFdlBlock sz cc inputIndex 0)
                  (getFdFilterPartition sz cc filterIndex 0) acc n al c)) (\<lambda>c.
         bindE (foldE (\<lambda>c blockIndex.
                   or_throw runtime_error (vectorMultiplyAddInplace (2 * sz) (getFdlBlock sz cc inputIndex blockIndex)
                     (getFdFilterPartition sz cc filterIndex blockIndex) acc n al c))
                 c [1..<ccNumberOfFilterPartitions cc]) (\<lambda>c.
         or_throw runtime_error
           (if addFlag then vectorMultiplyConstantAddInplace (2 * sz) (ofReal gain) acc result n al c
            else vectorMultiplyConstant (2 * sz) (ofReal gain) acc result n al c))))"

definition transformOutput ::
  "('a, 'c) fft_wrapper \<Rightarrow> nat \<Rightarrow> 'a core_convolver \<Rightarrow> nat \<Rightarrow> nat \<Rightarrow> 'c memory \<Rightarrow> 'a memory \<Rightarrow> exn + 'a memory" where
  "transformOutput fft sz cc fdBlock tdResult c m =
     (let buf = mAlignedStorage (ccTimeDomainTransformBuffer cc)
      in or_throw runtime_error
           (vectorCopy sz (elem sz buf (ccBlockLength cc)) tdResult (ccDftSize cc - ccBlockLength cc) 0
             (inverseTransform fft sz (ccDftSize cc) fdBlock buf c m)))"

section \<open>Filters\<close>

abbreviation maxNumberOfFilterEntries :: "'a core_convolver \<Rightarrow> nat" where
  "maxNumberOfFilterEntries cc \<equiv> mNumberOfRows (ccFilterPartitionsFrequencyDomain cc)"

definition clearFilters :: "nat \<Rightarrow> 'a core_convolver \<Rightarrow> 'c::zero memory \<Rightarrow> exn + 'c memory" where
  "clearFilters sz cc c = matrix_zeroFill (2 * sz) (ccFilterPartitionsFrequencyDomain cc) c"

text \<open>
  One partition. The error of the scaling is composed but not thrown, so that the result of the
  function does not depend on it.
\<close>

definition transformPartition ::
  "('a, 'c) fft_wrapper \<Rightarrow> nat \<Rightarrow> 'a core_convolver \<Rightarrow> nat \<Rightarrow> nat \<Rightarrow> nat \<Rightarrow> nat \<Rightarrow> 'a::{zero,times} memory \<times> 'c memory
   \<Rightarrow> nat \<Rightarrow> exn + 'a memory \<times> 'c memory" where
  "transformPartition fft sz cc ir irLength result alignment = (\<lambda>(m, c) partitionIdx.
     bindE (vector_zeroFill sz (ccTimeDomainTransformBuffer cc) m) (\<lambda>m.
       let startIdx = partitionIdx * ccBlockLength cc;
           endIdx = min ((partitionIdx + 1) * ccBlockLength cc) irLength;
           buf = mAlignedStorage (ccTimeDomainTransformBuffer cc);
           m = (if startIdx < endIdx
                then snd (vectorMultiplyConstant sz (ccFilterScalingFactor cc) (elem sz ir startIdx) buf (endIdx - startIdx)
                       (min (ccAlignment cc) alignment) m)
                else m);
           blockResult = elem (2 * sz) result (partitionIdx * ccDftRepresentationSizePadded cc)
       in Inr (m, forwardTransform fft sz (ccDftSize cc) buf blockResult m c)))"

definition transformImpulseResponse ::
  "('a, 'c) fft_wrapper \<Rightarrow> nat \<Rightarrow> 'a core_convolver \<Rightarrow> nat \<Rightarrow> nat \<Rightarrow> nat \<Rightarrow> nat \<Rightarrow> 'a::{zero,times} memory \<times> 'c memory
   \<Rightarrow> exn + 'a memory \<times> 'c memory" where
  "transformImpulseResponse fft sz cc ir irLength result alignment mc =
     (if ccMaxFilterLength cc < irLength then Inl invalid_argument
      else foldE (transformPartition fft sz cc ir irLength result alignment) mc [0..<ccNumberOfFilterPartitions cc])"

definition setImpulseResponse ::
  "('a, 'c) fft_wrapper \<Rightarrow> nat \<Rightarrow> 'a core_convolver \<Rightarrow> nat \<Rightarrow> nat \<Rightarrow> nat \<Rightarrow> nat \<Rightarrow> 'a::{zero,times} memory \<times> 'c memory
   \<Rightarrow> exn + 'a memory \<times> 'c memory" where
  "setImpulseResponse fft sz cc ir filterLength filterIdx alignment mc =
     (if maxNumberOfFilterEntries cc \<le> filterIdx then Inl invalid_argument
      else transformImpulseResponse fft sz cc ir filterLength
             (matrix_row (2 * sz) (ccFilterPartitionsFrequencyDomain cc) filterIdx) (min (ccAlignment cc) alignment) mc)"

text \<open>The error of the copy is ignored.\<close>

definition setFilter :: "nat \<Rightarrow> 'a core_convolver \<Rightarrow> nat \<Rightarrow> nat \<Rightarrow> nat \<Rightarrow> 'c memory \<Rightarrow> exn + 'c memory" where
  "setFilter sz cc transformedFilter filterIdx alignment c =
     (let M = ccFilterPartitionsFrequencyDomain cc
      in if mNumberOfRows M \<le> filterIdx then Inl invalid_argument
         else Inr (snd (vectorCopy (2 * sz) transformedFilter (matrix_row (2 * sz) M filterIdx) (mNumberOfColumns M)
                (min alignment (ccComplexAlignment cc)) c)))"

definition initFilters ::
  "('a, 'c) fft_wrapper \<Rightarrow> nat \<Rightarrow> 'a core_convolver \<Rightarrow> basic_matrix \<Rightarrow> 'a::{zero,times} memory \<times> 'c::zero memory
   \<Rightarrow> exn + 'a memory \<times> 'c memory" where
  "initFilters fft sz cc newFilters = (\<lambda>(m, c).
     bindE (clearFilters sz cc c) (\<lambda>c.
       let numFilters = mNumberOfRows newFilters; filterLength = mNumberOfColumns newFilters;
           M = ccFilterPartitionsFrequencyDomain cc
       in if maxNumberOfFilterEntries cc < numFilters then Inl invalid_argument
          else if ccMaxFilterLength cc < filterLength then Inl invalid_argument
          else bindE (foldE (\<lambda>mc filterIdx. setImpulseResponse fft sz cc (matrix_row sz newFilters filterIdx) filterLength
                        filterIdx (mAlignment (mData newFilters)) mc) (m, c) [0..<numFilters]) (\<lambda>(m, c).
               bindE (foldE (\<lambda>c filterIdx. or_throw runtime_error (vectorZero (2 * sz) (matrix_row (2 * sz) M filterIdx)
                        (mNumberOfColumns M) (ccComplexAlignment cc) c)) c [numFilters..<maxNumberOfFilterEntries cc])
                 (\<lambda>c. Inr (m, c)))))"

section \<open>Construction\<close>

text \<open>The addresses that the allocator returns for the five members, in their order.\<close>

definition CoreConvolverUniform ::
  "('a, 'c) fft_wrapper \<Rightarrow> nat \<Rightarrow> nat \<Rightarrow> nat \<Rightarrow> nat \<times> nat \<times> nat \<times> nat \<times> nat \<Rightarrow> nat \<Rightarrow> nat \<Rightarrow> nat \<Rightarrow> nat \<Rightarrow> nat
   \<Rightarrow> basic_matrix \<Rightarrow> nat \<Rightarrow> 'a::field memory \<Rightarrow> 'c::zero memory
   \<Rightarrow> exn + 'a core_convolver \<times> 'a memory \<times> 'c memory" where
  "CoreConvolverUniform fft sz ao cao = (\<lambda>(raw1, raw2, raw3, raw4, raw5)
       numberOfInputs numberOfOutputs blockLength maxFilterLength maxFilterEntries initialFilters alignment m c.
     let calign = alignment div 2;
         P = calculateNumberOfPartitions maxFilterLength blockLength;
         dftSize = calculateDftSize blockLength
     in bindE (calculateDftRepresentationSizePadded blockLength calign) (\<lambda>padded.
        bindE (CircularBuffer sz ao raw1 numberOfInputs dftSize alignment m) (\<lambda>(inputBuffers, m).
        bindE (BasicMatrix (2 * sz) cao raw2 numberOfInputs (padded * P) calign c) (\<lambda>(fdl, c).
        bindE (BasicVector sz ao raw3 dftSize alignment m) (\<lambda>(transformBuffer, m).
        bindE (BasicMatrix (2 * sz) cao raw4 maxFilterEntries (padded * P) calign c) (\<lambda>(filters, c).
        bindE (BasicVector (2 * sz) cao raw5 padded calign c) (\<lambda>(accumulator, c).
        let cc = \<lparr>ccAlignment = alignment, ccComplexAlignment = calign, ccNumberOfInputs = numberOfInputs,
                  ccNumberOfOutputs = numberOfOutputs, ccBlockLength = blockLength, ccMaxFilterLength = maxFilterLength,
                  ccNumberOfFilterPartitions = P, ccDftSize = dftSize, ccDftRepresentationSizePadded = padded,
                  ccInputBuffers = inputBuffers, ccInputFDL = fdl, ccFdlCycleOffset = 0,
                  ccTimeDomainTransformBuffer = transformBuffer, ccFilterPartitionsFrequencyDomain = filters,
                  ccFrequencyDomainAccumulator = accumulator,
                  ccFilterScalingFactor = calculateFilterScalingFactor fft dftSize\<rparr>
        in bindE (initFilters fft sz cc initialFilters (m, c)) (\<lambda>(m, c). Inr (cc, m, c)))))))))"

section \<open>What the FFT library promises\<close>

text \<open>
  For transforms of size \<open>N\<close>: the sizes, that the inverse transform is linear, and that the inverse
  transform of the product of two spectra is the circular convolution, scaled by what the library
  says of its transforms (the input passes two forward transforms and one inverse, and a library
  without any scaling multiplies by \<open>N\<close>).
\<close>

definition circular :: "nat \<Rightarrow> 'a::comm_ring_1 list \<Rightarrow> 'a list \<Rightarrow> nat \<Rightarrow> 'a" where
  "circular N x y t = (\<Sum>k<N. x ! ((t + N - k) mod N) * y ! k)"

definition fft_laws :: "('a::field, 'c::comm_ring_1) fft_wrapper \<Rightarrow> ('a \<Rightarrow> 'c) \<Rightarrow> nat \<Rightarrow> bool" where
  "fft_laws fft ofReal N \<longleftrightarrow>
     (\<forall>x. length x = N \<longrightarrow> length (fftForward fft x) = N div 2 + 1) \<and>
     (\<forall>X. length X = N div 2 + 1 \<longrightarrow> length (fftInverse fft X) = N) \<and>
     fftForward fft (replicate N 0) = replicate (N div 2 + 1) 0 \<and>
     (\<forall>X Y. length X = N div 2 + 1 \<longrightarrow> length Y = N div 2 + 1 \<longrightarrow>
        fftInverse fft (map2 (+) X Y) = map2 (+) (fftInverse fft X) (fftInverse fft Y)) \<and>
     (\<forall>g X. length X = N div 2 + 1 \<longrightarrow>
        fftInverse fft (map ((*) (ofReal g)) X) = map ((*) g) (fftInverse fft X)) \<and>
     (\<forall>x y. length x = N \<longrightarrow> length y = N \<longrightarrow>
        fftInverse fft (map2 (*) (fftForward fft x) (fftForward fft y)) =
        map (\<lambda>t. forwardScalingFactor fft * forwardScalingFactor fft * inverseScalingFactor fft * of_nat N * circular N x y t)
          [0..<N]) \<and>
     forwardScalingFactor fft * inverseScalingFactor fft * of_nat N \<noteq> 0"

definition spectrum :: "nat \<Rightarrow> (nat \<Rightarrow> 'c) \<Rightarrow> 'c list" where
  "spectrum N X = map X [0..<N div 2 + 1]"

lemma length_spectrum [simp]: "length (spectrum N X) = N div 2 + 1"
  by (simp add: spectrum_def)

lemma spectrum_cong: "(\<And>j. j < N div 2 + 1 \<Longrightarrow> X j = Y j) \<Longrightarrow> spectrum N X = spectrum N Y"
  by (simp add: spectrum_def)

lemma inverse_length: "fft_laws fft ofReal N \<Longrightarrow> length (fftInverse fft (spectrum N X)) = N"
  by (simp add: fft_laws_def)

lemma inverse_add:
  assumes "fft_laws fft ofReal N" "t < N"
  shows "fftInverse fft (spectrum N (\<lambda>j. X j + Y j)) ! t = fftInverse fft (spectrum N X) ! t + fftInverse fft (spectrum N Y) ! t"
proof -
  have "spectrum N (\<lambda>j. X j + Y j) = map2 (+) (spectrum N X) (spectrum N Y)"
    by (rule nth_equalityI) (simp_all add: spectrum_def del: upt_Suc)
  moreover have "fftInverse fft (map2 (+) (spectrum N X) (spectrum N Y)) = map2 (+) (fftInverse fft (spectrum N X)) (fftInverse fft (spectrum N Y))"
    using assms(1) unfolding fft_laws_def by (metis length_spectrum)
  ultimately show ?thesis using assms(2) inverse_length [OF assms(1)] by simp
qed

lemma inverse_scale:
  assumes "fft_laws fft ofReal N" "t < N"
  shows "fftInverse fft (spectrum N (\<lambda>j. ofReal g * X j)) ! t = g * fftInverse fft (spectrum N X) ! t"
proof -
  have "spectrum N (\<lambda>j. ofReal g * X j) = map ((*) (ofReal g)) (spectrum N X)" by (simp add: spectrum_def)
  moreover have "fftInverse fft (map ((*) (ofReal g)) (spectrum N X)) = map ((*) g) (fftInverse fft (spectrum N X))"
    using assms(1) unfolding fft_laws_def by (metis length_spectrum)
  ultimately show ?thesis using assms(2) inverse_length [OF assms(1)] by simp
qed

lemma inverse_zero:
  assumes "fft_laws fft ofReal N" "t < N"
  shows "fftInverse fft (spectrum N (\<lambda>j. 0)) ! t = 0"
proof -
  let ?z = "fftInverse fft (spectrum N (\<lambda>j. 0)) ! t"
  have "?z = ?z + ?z" using inverse_add [OF assms, of "\<lambda>j. 0" "\<lambda>j. 0"] by (simp only: add_0)
  then show ?thesis by (simp only: add_cancel_right_right)
qed

lemma inverse_sum:
  assumes "fft_laws fft ofReal N" "t < N"
  shows "fftInverse fft (spectrum N (\<lambda>j. \<Sum>b<P. X b j)) ! t = (\<Sum>b<P::nat. fftInverse fft (spectrum N (X b)) ! t)"
  by (induction P) (simp_all add: inverse_zero [OF assms] inverse_add [OF assms])

lemma inverse_sum_list:
  assumes "fft_laws fft ofReal N" "t < N"
  shows "fftInverse fft (spectrum N (\<lambda>j. \<Sum>r\<leftarrow>rs. X r j)) ! t = (\<Sum>r\<leftarrow>rs. fftInverse fft (spectrum N (X r)) ! t)"
  by (induction rs) (simp_all add: inverse_zero [OF assms] inverse_add [OF assms])

lemma inverse_product:
  assumes "fft_laws fft ofReal N" "length x = N" "length y = N" "t < N"
  shows "fftInverse fft (spectrum N (\<lambda>j. fftForward fft x ! j * fftForward fft y ! j)) ! t =
    forwardScalingFactor fft * forwardScalingFactor fft * inverseScalingFactor fft * of_nat N * circular N x y t"
proof -
  have len: "length (fftForward fft x) = N div 2 + 1" "length (fftForward fft y) = N div 2 + 1"
    using assms by (auto simp: fft_laws_def)
  have "spectrum N (\<lambda>j. fftForward fft x ! j * fftForward fft y ! j) = map2 (*) (fftForward fft x) (fftForward fft y)"
    by (rule nth_equalityI) (simp_all add: spectrum_def len del: upt_Suc)
  moreover have "fftInverse fft (map2 (*) (fftForward fft x) (fftForward fft y)) =
      map (\<lambda>t. forwardScalingFactor fft * forwardScalingFactor fft * inverseScalingFactor fft * of_nat N * circular N x y t) [0..<N]"
    using assms(1-3) unfolding fft_laws_def by blast
  ultimately show ?thesis using assms(4) by simp
qed

section \<open>Partitioned convolution\<close>

text \<open>
  The window of partition \<open>b\<close>: two blocks of the history \<open>H\<close>, where \<open>H k\<close> is the sample \<open>k\<close> samples ago,
  and the partition of a filter \<open>h\<close>, scaled and extended by a block of zeros.
\<close>

definition input_window :: "nat \<Rightarrow> (nat \<Rightarrow> 'a) \<Rightarrow> nat \<Rightarrow> 'a list" where
  "input_window B H b = map (\<lambda>k. H (b * B + 2 * B - 1 - k)) [0..<2 * B]"

definition filter_window :: "nat \<Rightarrow> 'a::{zero,times} \<Rightarrow> (nat \<Rightarrow> 'a) \<Rightarrow> nat \<Rightarrow> 'a list" where
  "filter_window B scale h p = map (\<lambda>k. if k < B then scale * h (p * B + k) else 0) [0..<2 * B]"

lemma length_windows [simp]: "length (input_window B H b) = 2 * B" "length (filter_window B scale h p) = 2 * B"
  by (simp_all add: input_window_def filter_window_def)

text \<open>In the second half of a circular convolution nothing is wrapped around.\<close>

lemma circular_window:
  fixes H h :: "nat \<Rightarrow> 'a::comm_ring_1"
  assumes "s < B"
  shows "circular (2 * B) (input_window B H b) (filter_window B scale h b) (B + s) =
    scale * (\<Sum>n \<in> {b * B..<b * B + B}. h n * H (n + (B - 1 - s)))"
proof -
  let ?x = "input_window B H b" and ?y = "filter_window B scale h b"
  have "?x ! ((B + s + 2 * B - k) mod (2 * B)) * ?y ! k
      = (if k < B then scale * (h (b * B + k) * H (b * B + k + (B - 1 - s))) else 0)" if k: "k < 2 * B" for k
  proof (cases "k < B")
    case True
    have e: "B + s + 2 * B - k = (B + s - k) + 2 * B" using True by simp
    have m: "(B + s + 2 * B - k) mod (2 * B) = B + s - k" unfolding e mod_add_self2 using True assms by simp
    have lt: "B + s - k < 2 * B" using True assms by linarith
    have "b * B + 2 * B - 1 - (B + s - k) = b * B + k + (B - 1 - s)" using True assms by linarith
    then have "?x ! (B + s - k) = H (b * B + k + (B - 1 - s))"
      unfolding input_window_def by (simp only: nth_map nth_upt length_upt lt diff_zero add_0)
    then show ?thesis unfolding m using True k by (simp add: filter_window_def algebra_simps)
  next
    case False
    then show ?thesis using k by (simp add: filter_window_def)
  qed
  then have "circular (2 * B) ?x ?y (B + s)
      = (\<Sum>k<2 * B. if k < B then scale * (h (b * B + k) * H (b * B + k + (B - 1 - s))) else 0)"
    unfolding circular_def by (intro sum.cong) simp_all
  also have "\<dots> = (\<Sum>k<B. scale * (h (b * B + k) * H (b * B + k + (B - 1 - s))))"
    by (rule sum.mono_neutral_cong_right) auto
  also have "\<dots> = scale * (\<Sum>k<B. h (b * B + k) * H (b * B + k + (B - 1 - s)))" by (simp add: sum_distrib_left)
  also have "(\<Sum>k<B. h (b * B + k) * H (b * B + k + (B - 1 - s))) = (\<Sum>n \<in> {b * B..<b * B + B}. h n * H (n + (B - 1 - s)))"
    using sum.shift_bounds_nat_ivl [of "\<lambda>n. h n * H (n + (B - 1 - s))" 0 "b * B" B]
    by (simp add: lessThan_atLeast0 add.commute)
  finally show ?thesis .
qed

text \<open>The output of a filter: \<open>s\<close> samples into the block.\<close>

definition convolved :: "nat \<Rightarrow> nat \<Rightarrow> (nat \<Rightarrow> 'a::comm_ring_1) \<Rightarrow> (nat \<Rightarrow> 'a) \<Rightarrow> nat \<Rightarrow> 'a" where
  "convolved L B h H s = (\<Sum>n<L. h n * H (n + (B - 1 - s)))"

lemma partitioned_convolution:
  assumes laws: "fft_laws fft ofReal (2 * B)" and s: "s < B"
    and scale: "scale = calculateFilterScalingFactor fft (2 * B)"
  shows "fftInverse fft (spectrum (2 * B) (\<lambda>j. \<Sum>b<P. fftForward fft (input_window B H b) ! j *
      fftForward fft (filter_window B scale h b) ! j)) ! (B + s)
    = forwardScalingFactor fft * convolved (P * B) B h H s"
proof -
  let ?F = "forwardScalingFactor fft" and ?I = "inverseScalingFactor fft" and ?N = "of_nat (2 * B)"
  have nz: "?F * ?I * ?N \<noteq> 0" using laws by (simp add: fft_laws_def)
  have t: "B + s < 2 * B" using s by simp
  have c: "?F * ?F * ?I * ?N * (scale * z) = ?F * z" for z
    using nz unfolding scale calculateFilterScalingFactor_def by (simp add: field_simps)
  have "fftInverse fft (spectrum (2 * B) (\<lambda>j. \<Sum>b<P. fftForward fft (input_window B H b) ! j *
      fftForward fft (filter_window B scale h b) ! j)) ! (B + s)
    = (\<Sum>b<P. ?F * ?F * ?I * ?N * circular (2 * B) (input_window B H b) (filter_window B scale h b) (B + s))"
    unfolding inverse_sum [OF laws t] using inverse_product [OF laws _ _ t] by simp
  also have "\<dots> = (\<Sum>b<P. ?F * (\<Sum>n \<in> {b * B..<b * B + B}. h n * H (n + (B - 1 - s))))"
    unfolding circular_window [OF s] c ..
  also have "\<dots> = ?F * (\<Sum>b<P. \<Sum>n \<in> {b * B..<b * B + B}. h n * H (n + (B - 1 - s)))" by (simp add: sum_distrib_left)
  also have "(\<Sum>b<P. \<Sum>n \<in> {b * B..<b * B + B}. h n * H (n + (B - 1 - s))) = convolved (P * B) B h H s"
    unfolding convolved_def by (rule sum.nat_group)
  finally show ?thesis .
qed

section \<open>The invariant of the convolver\<close>

definition convolver_inv :: "('a::field, 'c) fft_wrapper \<Rightarrow> nat \<Rightarrow> nat \<Rightarrow> nat \<Rightarrow> 'a core_convolver \<Rightarrow> bool" where
  "convolver_inv fft sz ao cao cc \<longleftrightarrow>
     0 < ccBlockLength cc \<and> ccDftSize cc = 2 * ccBlockLength cc \<and> 0 < ccNumberOfFilterPartitions cc \<and>
     ccMaxFilterLength cc \<le> ccNumberOfFilterPartitions cc * ccBlockLength cc \<and>
     ccDftRepresentationSizePadded cc = nextAlignedSize (ccBlockLength cc + 1) (ccComplexAlignment cc) \<and>
     (ccComplexAlignment cc = 0 \<or> (\<exists>k. ccComplexAlignment cc = 2 ^ k)) \<and>
     ccFdlCycleOffset cc < ccNumberOfFilterPartitions cc \<and>
     ccFilterScalingFactor cc = calculateFilterScalingFactor fft (ccDftSize cc) \<and>
     circular_inv sz ao (ccInputBuffers cc) \<and> cbNumberOfChannels (ccInputBuffers cc) = ccNumberOfInputs cc \<and>
     cbLength (ccInputBuffers cc) = ccDftSize cc \<and>
     array_inv sz ao (ccTimeDomainTransformBuffer cc) \<and> mArrayLength (ccTimeDomainTransformBuffer cc) = ccDftSize cc \<and>
     mAlignment (ccTimeDomainTransformBuffer cc) = max 1 (ccAlignment cc) \<and>
     (ccAlignment cc = 0 \<or> (\<exists>k. ccAlignment cc = 2 ^ k)) \<and>
     matrix_inv (2 * sz) cao (ccInputFDL cc) \<and> mNumberOfRows (ccInputFDL cc) = ccNumberOfInputs cc \<and>
     mNumberOfColumns (ccInputFDL cc) = ccDftRepresentationSizePadded cc * ccNumberOfFilterPartitions cc \<and>
     mAlignment (mData (ccInputFDL cc)) = max 1 (ccComplexAlignment cc) \<and>
     matrix_inv (2 * sz) cao (ccFilterPartitionsFrequencyDomain cc) \<and>
     mNumberOfColumns (ccFilterPartitionsFrequencyDomain cc)
       = ccDftRepresentationSizePadded cc * ccNumberOfFilterPartitions cc \<and>
     mAlignment (mData (ccFilterPartitionsFrequencyDomain cc)) = max 1 (ccComplexAlignment cc) \<and>
     array_inv (2 * sz) cao (ccFrequencyDomainAccumulator cc) \<and>
     mArrayLength (ccFrequencyDomainAccumulator cc) = ccDftRepresentationSizePadded cc \<and>
     mAlignment (ccFrequencyDomainAccumulator cc) = max 1 (ccComplexAlignment cc)"

lemma convolver_invD:
  assumes "convolver_inv fft sz ao cao cc"
  shows "0 < ccBlockLength cc" "ccDftSize cc = 2 * ccBlockLength cc" "0 < ccNumberOfFilterPartitions cc"
    "ccMaxFilterLength cc \<le> ccNumberOfFilterPartitions cc * ccBlockLength cc"
    "ccComplexAlignment cc = 0 \<or> (\<exists>k. ccComplexAlignment cc = 2 ^ k)"
    "ccFdlCycleOffset cc < ccNumberOfFilterPartitions cc"
    "ccFilterScalingFactor cc = calculateFilterScalingFactor fft (ccDftSize cc)"
    "ccDftRepresentationSizePadded cc = nextAlignedSize (ccBlockLength cc + 1) (ccComplexAlignment cc)"
  using assms unfolding convolver_inv_def by blast+

lemma convolver_inv_ring:
  assumes "convolver_inv fft sz ao cao cc"
  shows "circular_inv sz ao (ccInputBuffers cc)" "cbNumberOfChannels (ccInputBuffers cc) = ccNumberOfInputs cc"
    "cbLength (ccInputBuffers cc) = ccDftSize cc" "array_inv sz ao (ccTimeDomainTransformBuffer cc)"
    "mArrayLength (ccTimeDomainTransformBuffer cc) = ccDftSize cc"
    "mAlignment (ccTimeDomainTransformBuffer cc) = max 1 (ccAlignment cc)"
    "ccAlignment cc = 0 \<or> (\<exists>k. ccAlignment cc = 2 ^ k)"
  using assms unfolding convolver_inv_def by blast+

lemma convolver_inv_fdl:
  assumes "convolver_inv fft sz ao cao cc"
  shows "matrix_inv (2 * sz) cao (ccInputFDL cc)" "mNumberOfRows (ccInputFDL cc) = ccNumberOfInputs cc"
    "mNumberOfColumns (ccInputFDL cc) = ccDftRepresentationSizePadded cc * ccNumberOfFilterPartitions cc"
    "mAlignment (mData (ccInputFDL cc)) = max 1 (ccComplexAlignment cc)"
  using assms unfolding convolver_inv_def by blast+

lemma convolver_inv_filters:
  assumes "convolver_inv fft sz ao cao cc"
  shows "matrix_inv (2 * sz) cao (ccFilterPartitionsFrequencyDomain cc)"
    "mNumberOfColumns (ccFilterPartitionsFrequencyDomain cc)
      = ccDftRepresentationSizePadded cc * ccNumberOfFilterPartitions cc"
    "mAlignment (mData (ccFilterPartitionsFrequencyDomain cc)) = max 1 (ccComplexAlignment cc)"
    "array_inv (2 * sz) cao (ccFrequencyDomainAccumulator cc)"
    "mArrayLength (ccFrequencyDomainAccumulator cc) = ccDftRepresentationSizePadded cc"
    "mAlignment (ccFrequencyDomainAccumulator cc) = max 1 (ccComplexAlignment cc)"
  using assms unfolding convolver_inv_def by blast+

abbreviation fdl_cells :: "nat \<Rightarrow> 'a core_convolver \<Rightarrow> nat set" where
  "fdl_cells sz cc \<equiv> array_cells (2 * sz) (mData (ccInputFDL cc))"

abbreviation filter_cells :: "nat \<Rightarrow> 'a core_convolver \<Rightarrow> nat set" where
  "filter_cells sz cc \<equiv> array_cells (2 * sz) (mData (ccFilterPartitionsFrequencyDomain cc))"

abbreviation accumulator_cells :: "nat \<Rightarrow> 'a core_convolver \<Rightarrow> nat set" where
  "accumulator_cells sz cc \<equiv> array_cells (2 * sz) (ccFrequencyDomainAccumulator cc)"

abbreviation ring_cells :: "nat \<Rightarrow> 'a core_convolver \<Rightarrow> nat set" where
  "ring_cells sz cc \<equiv> array_cells sz (mData (cbBuffer (ccInputBuffers cc)))"

abbreviation buffer_cells :: "nat \<Rightarrow> 'a core_convolver \<Rightarrow> nat set" where
  "buffer_cells sz cc \<equiv> array_cells sz (ccTimeDomainTransformBuffer cc)"

definition members_disjoint :: "nat \<Rightarrow> 'a core_convolver \<Rightarrow> bool" where
  "members_disjoint sz cc \<longleftrightarrow>
     fdl_cells sz cc \<inter> filter_cells sz cc = {} \<and> fdl_cells sz cc \<inter> accumulator_cells sz cc = {} \<and>
     filter_cells sz cc \<inter> accumulator_cells sz cc = {} \<and> ring_cells sz cc \<inter> buffer_cells sz cc = {}"

lemma cells_bound: "array_inv sz ao v \<Longrightarrow> 0 < sz \<Longrightarrow> a \<in> array_cells sz v \<Longrightarrow> a < 2 ^ 64"
proof -
  assume inv: "array_inv sz ao v" and sz: "0 < sz" and a: "a \<in> array_cells sz v"
  obtain i where i: "i < mArrayLength v" "a = elem sz (mAlignedStorage v) i" using a by (auto simp: array_cells_def)
  then have "mAlignedStorage v + mArrayLength v * sz < 2 ^ 64" using inv by (auto simp: array_inv_def)
  moreover have "i * sz < mArrayLength v * sz" using i(1) sz by simp
  ultimately show ?thesis using i(2) by linarith
qed

text \<open>A block of a row that starts at a multiple of a padded size is aligned.\<close>

lemma block_aligned:
  assumes sz: "sz = 2 ^ l" and inv: "matrix_inv sz ao M" and al: "mAlignment (mData M) = max 1 a"
    and pow: "a = 0 \<or> (\<exists>k. a = 2 ^ k)" and i: "i < mNumberOfRows M" and n: "0 < n" "a = 0 \<or> a dvd n"
    and cols: "mNumberOfColumns M = n * P" and q: "q < P"
  shows "checkAlignment sz (elem sz (matrix_row sz M i) (q * n)) a"
proof (cases "a = 0")
  case False
  then obtain k where k: "a = 2 ^ k" using pow by blast
  have arr: "array_inv sz ao (mData M)" using inv by (simp add: matrix_inv_def)
  have am: "mAlignment (mData M) = a" using al False by (simp add: max_absorb2)
  obtain k' where "a = 2 ^ k'" "2 ^ k' * sz < 2 ^ 64" using arr am by (auto simp: array_inv_def)
  then have "(2::nat) ^ (k + l) < 2 ^ 64" using k sz by (simp add: power_add)
  then have kl: "k + l < 64" by (rule power_less_imp_less_exp [rotated]) simp
  have sz0: "0 < sz" using sz by simp
  have cell: "matrix_element sz M i j \<in> array_cells sz (mData M)" if "j < n * P" for j
    by (rule element_in_cells [OF inv i]) (use that cols in simp)
  have "q * n + 0 < n * P" by (rule index_in_rows [OF q n(1)]) simp
  then have p: "elem sz (matrix_row sz M i) (q * n) < 2 ^ 64" "matrix_row sz M i < 2 ^ 64"
    using cells_bound [OF arr sz0 cell [of "q * n"]] cells_bound [OF arr sz0 cell [of 0]] n(1) q
    by (simp_all add: matrix_row_element [symmetric])
  have "checkAlignment sz (matrix_row sz M i) a" by (rule row_aligned [OF sz inv _ k i]) (simp add: am)
  then have "a * sz dvd matrix_row sz M i" using checkAlignment_iff [OF sz k kl p(2)] by simp
  moreover have "a * sz dvd q * n * sz" using n(2) False by (simp add: mult_dvd_mono)
  ultimately have "a * sz dvd elem sz (matrix_row sz M i) (q * n)" by simp
  then show ?thesis using checkAlignment_iff [OF sz k kl p(1)] by simp
qed simp

text \<open>The blocks of the delay line and of the filters.\<close>

lemma padded_props:
  assumes "convolver_inv fft sz ao cao cc"
  shows "ccBlockLength cc + 1 \<le> ccDftRepresentationSizePadded cc" "0 < ccDftRepresentationSizePadded cc"
    "ccComplexAlignment cc = 0 \<or> ccComplexAlignment cc dvd ccDftRepresentationSizePadded cc"
proof -
  note n = nextAlignedSize_props [where n = "ccBlockLength cc + 1" and a = "ccComplexAlignment cc", folded convolver_invD(8) [OF assms]]
  show "ccBlockLength cc + 1 \<le> ccDftRepresentationSizePadded cc" by (rule n(1))
  then show "0 < ccDftRepresentationSizePadded cc" by linarith
  show "ccComplexAlignment cc = 0 \<or> ccComplexAlignment cc dvd ccDftRepresentationSizePadded cc" using n(2) by blast
qed

lemma fdl_element:
  "elem (2 * sz) (getFdlBlock sz cc i b) j = matrix_element (2 * sz) (ccInputFDL cc) i
     ((ccFdlCycleOffset cc + b) mod ccNumberOfFilterPartitions cc * ccDftRepresentationSizePadded cc + j)"
  unfolding getFdlBlock_def Let_def element_offset ..

lemma filter_element:
  "elem (2 * sz) (getFdFilterPartition sz cc f b) j = matrix_element (2 * sz) (ccFilterPartitionsFrequencyDomain cc) f
     (b * ccDftRepresentationSizePadded cc + j)"
  unfolding getFdFilterPartition_def Let_def element_offset ..

lemma fdl_in_cells:
  assumes inv: "convolver_inv fft sz ao cao cc" and "i < ccNumberOfInputs cc" "j < ccDftRepresentationSizePadded cc"
  shows "elem (2 * sz) (getFdlBlock sz cc i b) j \<in> fdl_cells sz cc"
proof -
  let ?q = "(ccFdlCycleOffset cc + b) mod ccNumberOfFilterPartitions cc"
  have "?q < ccNumberOfFilterPartitions cc" using convolver_invD(3) [OF inv] by simp
  then have "?q * ccDftRepresentationSizePadded cc + j < ccDftRepresentationSizePadded cc * ccNumberOfFilterPartitions cc"
    by (rule index_in_rows [OF _ assms(3) order_refl])
  then show ?thesis unfolding fdl_element
    using element_in_cells [OF convolver_inv_fdl(1) [OF inv]] convolver_inv_fdl(2,3) [OF inv] assms(2) by simp
qed

lemma filter_in_cells:
  assumes inv: "convolver_inv fft sz ao cao cc" and "f < maxNumberOfFilterEntries cc"
    "b < ccNumberOfFilterPartitions cc" "j < ccDftRepresentationSizePadded cc"
  shows "elem (2 * sz) (getFdFilterPartition sz cc f b) j \<in> filter_cells sz cc"
proof -
  have "b * ccDftRepresentationSizePadded cc + j < ccDftRepresentationSizePadded cc * ccNumberOfFilterPartitions cc"
    by (rule index_in_rows [OF assms(3,4) order_refl])
  then show ?thesis unfolding filter_element
    using element_in_cells [OF convolver_inv_filters(1) [OF inv]] convolver_inv_filters(2) [OF inv] assms(2) by simp
qed

lemma pointers_aligned:
  assumes sz: "sz = 2 ^ l" and inv: "convolver_inv fft sz ao cao cc"
  shows "i < ccNumberOfInputs cc \<Longrightarrow> checkAlignment (2 * sz) (getFdlBlock sz cc i b) (ccComplexAlignment cc)"
    "f < maxNumberOfFilterEntries cc \<Longrightarrow> q < ccNumberOfFilterPartitions cc \<Longrightarrow>
       checkAlignment (2 * sz) (getFdFilterPartition sz cc f q) (ccComplexAlignment cc)"
    "checkAlignment (2 * sz) (mAlignedStorage (ccFrequencyDomainAccumulator cc)) (ccComplexAlignment cc)"
proof -
  have csz: "2 * sz = 2 ^ Suc l" using sz by simp
  note pad = padded_props [OF inv] and al = convolver_invD(5) [OF inv]
  have q: "(ccFdlCycleOffset cc + b) mod ccNumberOfFilterPartitions cc < ccNumberOfFilterPartitions cc"
    using convolver_invD(3) [OF inv] by simp
  note fdl = convolver_inv_fdl [OF inv] and fil = convolver_inv_filters [OF inv]
  show "checkAlignment (2 * sz) (getFdlBlock sz cc i b) (ccComplexAlignment cc)" if "i < ccNumberOfInputs cc"
    unfolding getFdlBlock_def Let_def
    by (rule block_aligned [OF csz fdl(1,4) al _ pad(2,3) fdl(3) q]) (simp add: fdl(2) that)
  show "checkAlignment (2 * sz) (getFdFilterPartition sz cc f q) (ccComplexAlignment cc)"
    if "f < maxNumberOfFilterEntries cc" "q < ccNumberOfFilterPartitions cc"
    unfolding getFdFilterPartition_def Let_def
    by (rule block_aligned [OF csz fil(1,3) al that(1) pad(2,3) fil(2) that(2)])
  show "checkAlignment (2 * sz) (mAlignedStorage (ccFrequencyDomainAccumulator cc)) (ccComplexAlignment cc)"
  proof (cases "ccComplexAlignment cc = 0")
    case False
    then have "\<exists>k. ccComplexAlignment cc = 2 ^ k" using al by simp
    then obtain k where "ccComplexAlignment cc = 2 ^ k" ..
    moreover have "ccComplexAlignment cc \<le> mAlignment (ccFrequencyDomainAccumulator cc)" using fil(6) by simp
    ultimately show ?thesis using array_inv_aligned [OF csz fil(4)] by blast
  qed simp
qed

section \<open>The vector functions on spectra\<close>

lemma vector_products_outcome:
  fixes m :: "'c::{plus,times} memory"
  assumes sz: "0 < sz" and "safe n (elem sz p) (elem sz d)" "safe n (elem sz q) (elem sz d)"
  shows
    "outcome sz al [p, q, d] n (elem sz d) (\<lambda>i. m (elem sz p i) * m (elem sz q i)) m (vectorMultiply sz p q d n al m)"
    "outcome sz al [p, q, d] n (elem sz d) (\<lambda>i. m (elem sz d i) + m (elem sz p i) * m (elem sz q i)) m
       (vectorMultiplyAddInplace sz p q d n al m)"
    "outcome sz al [p, d] n (elem sz d) (\<lambda>i. k * m (elem sz p i)) m (vectorMultiplyConstant sz k p d n al m)"
    "outcome sz al [p, d] n (elem sz d) (\<lambda>i. m (elem sz d i) + k * m (elem sz p i)) m
       (vectorMultiplyConstantAddInplace sz k p d n al m)"
proof -
  note own = read_own [OF sz, of d]
  note rd = read_safe [OF assms(2)] read_safe [OF assms(3)]
  show
    "outcome sz al [p, q, d] n (elem sz d) (\<lambda>i. m (elem sz p i) * m (elem sz q i)) m (vectorMultiply sz p q d n al m)"
    "outcome sz al [p, q, d] n (elem sz d) (\<lambda>i. m (elem sz d i) + m (elem sz p i) * m (elem sz q i)) m
       (vectorMultiplyAddInplace sz p q d n al m)"
    "outcome sz al [p, d] n (elem sz d) (\<lambda>i. k * m (elem sz p i)) m (vectorMultiplyConstant sz k p d n al m)"
    "outcome sz al [p, d] n (elem sz d) (\<lambda>i. m (elem sz d i) + k * m (elem sz p i)) m
       (vectorMultiplyConstantAddInplace sz k p d n al m)"
    unfolding vector_defs by (rule checked_for_each [OF inj_elem [OF sz]]; simp only: rd own)+
qed

lemma throw_stored:
  assumes "outcome sz al ptrs n dest g m r" "\<forall>p \<in> set ptrs. checkAlignment sz p al"
  shows "\<exists>m'. or_throw e r = Inr m' \<and> stored n dest g m m'"
  using assms by (auto simp: outcome_def or_throw_def split_beta)

lemma store_list_stored: "0 < sz \<Longrightarrow> stored (length xs) (elem sz p) ((!) xs) m (store_list sz p xs m)"
proof -
  assume "0 < sz"
  then have "outcome sz 0 [] (length xs) (elem sz p) ((!) xs) m (checked sz 0 [] m (store_list sz p xs m))"
    unfolding store_list_def by (intro checked_for_each inj_elem) simp_all
  then show ?thesis by (simp add: outcome_def checked_def)
qed

lemma stored_block: "stored n (elem sz p) g m m' \<Longrightarrow> same_outside (block sz p n) m m'"
  by (simp add: stored_def same_outside_def)

lemma unchanged: "same_outside A m m' \<Longrightarrow> a \<in> B \<Longrightarrow> A \<inter> B = {} \<Longrightarrow> m' a = m a"
  by (auto simp: same_outside_def)

section \<open>Applying a filter\<close>

lemma accumulate_spec:
  fixes c :: "'c::comm_ring_1 memory"
  assumes sz: "sz = 2 ^ l" and inv: "convolver_inv fft sz ao cao cc" and dis: "members_disjoint sz cc"
    and i: "i < ccNumberOfInputs cc" and f: "f < maxNumberOfFilterEntries cc"
    and c1: "\<forall>j < ccDftRepresentationSizePadded cc. c1 (elem (2 * sz) (mAlignedStorage (ccFrequencyDomainAccumulator cc)) j)
      = c (elem (2 * sz) (getFdlBlock sz cc i 0) j) * c (elem (2 * sz) (getFdFilterPartition sz cc f 0) j)"
      "same_outside (accumulator_cells sz cc) c c1"
    and k: "Suc k \<le> ccNumberOfFilterPartitions cc"
  shows "\<exists>c'. foldE (\<lambda>c b. or_throw runtime_error (vectorMultiplyAddInplace (2 * sz) (getFdlBlock sz cc i b)
        (getFdFilterPartition sz cc f b) (mAlignedStorage (ccFrequencyDomainAccumulator cc))
        (ccDftRepresentationSizePadded cc) (ccComplexAlignment cc) c)) c1 [1..<Suc k] = Inr c' \<and>
    (\<forall>j < ccDftRepresentationSizePadded cc. c' (elem (2 * sz) (mAlignedStorage (ccFrequencyDomainAccumulator cc)) j)
      = (\<Sum>b<Suc k. c (elem (2 * sz) (getFdlBlock sz cc i b) j) * c (elem (2 * sz) (getFdFilterPartition sz cc f b) j))) \<and>
    same_outside (accumulator_cells sz cc) c c'"
  using k
proof (induction k)
  case 0
  then show ?case using c1 by simp
next
  case (Suc k)
  let ?n = "ccDftRepresentationSizePadded cc" and ?acc = "mAlignedStorage (ccFrequencyDomainAccumulator cc)"
  let ?b = "Suc k" and ?X = "getFdlBlock sz cc i" and ?Y = "getFdFilterPartition sz cc f"
  have P: "?b < ccNumberOfFilterPartitions cc" using Suc.prems by simp
  obtain c' where c': "foldE (\<lambda>c b. or_throw runtime_error (vectorMultiplyAddInplace (2 * sz) (?X b) (?Y b) ?acc ?n
      (ccComplexAlignment cc) c)) c1 [1..<Suc k] = Inr c'"
    "\<forall>j < ?n. c' (elem (2 * sz) ?acc j) = (\<Sum>b<Suc k. c (elem (2 * sz) (?X b) j) * c (elem (2 * sz) (?Y b) j))"
    "same_outside (accumulator_cells sz cc) c c'"
    using Suc.IH [OF Suc_leD [OF Suc.prems]] by blast
  have acc: "accumulator_cells sz cc = block (2 * sz) ?acc ?n"
    using convolver_inv_filters(5) [OF inv] by (simp add: array_cells_def)
  have sz2: "0 < 2 * sz" using sz by simp
  have away: "accumulator_cells sz cc \<inter> fdl_cells sz cc = {}" "accumulator_cells sz cc \<inter> filter_cells sz cc = {}"
    using dis by (auto simp: members_disjoint_def)
  note X = fdl_in_cells [OF inv i, of _ ?b] and Y = filter_in_cells [OF inv f P]
  have safe: "safe ?n (elem (2 * sz) (?X ?b)) (elem (2 * sz) ?acc)" "safe ?n (elem (2 * sz) (?Y ?b)) (elem (2 * sz) ?acc)"
    by (rule safe_disjoint, use X Y away acc in blast)+
  have al: "\<forall>p \<in> set [?X ?b, ?Y ?b, ?acc]. checkAlignment (2 * sz) p (ccComplexAlignment cc)"
    using pointers_aligned(1) [OF sz inv i] pointers_aligned(2) [OF sz inv f P] pointers_aligned(3) [OF sz inv] by simp
  obtain c2 where c2: "or_throw runtime_error (vectorMultiplyAddInplace (2 * sz) (?X ?b) (?Y ?b) ?acc ?n
      (ccComplexAlignment cc) c') = Inr c2"
    "stored ?n (elem (2 * sz) ?acc) (\<lambda>j. c' (elem (2 * sz) ?acc j) + c' (elem (2 * sz) (?X ?b) j) * c' (elem (2 * sz) (?Y ?b) j)) c' c2"
    using throw_stored [OF vector_products_outcome(2) [OF sz2 safe] al] by blast
  have old: "c' (elem (2 * sz) (?X ?b) j) = c (elem (2 * sz) (?X ?b) j)" "c' (elem (2 * sz) (?Y ?b) j) = c (elem (2 * sz) (?Y ?b) j)"
    if "j < ?n" for j
    using unchanged [OF c'(3) X [OF that] away(1)] unchanged [OF c'(3) Y [OF that] away(2)] by auto
  have "foldE (\<lambda>c b. or_throw runtime_error (vectorMultiplyAddInplace (2 * sz) (?X b) (?Y b) ?acc ?n
      (ccComplexAlignment cc) c)) c1 [1..<Suc (Suc k)] = Inr c2"
    using c'(1) c2(1) by (simp add: foldE_append)
  moreover have "c2 (elem (2 * sz) ?acc j) = (\<Sum>b<Suc (Suc k). c (elem (2 * sz) (?X b) j) * c (elem (2 * sz) (?Y b) j))"
    if "j < ?n" for j
  proof -
    have "c2 (elem (2 * sz) ?acc j) = c' (elem (2 * sz) ?acc j) + c' (elem (2 * sz) (?X ?b) j) * c' (elem (2 * sz) (?Y ?b) j)"
      using c2(2) that by (simp add: stored_def)
    then show ?thesis using c'(2) that old [OF that] by simp
  qed
  moreover have "same_outside (accumulator_cells sz cc) c c2"
    using same_outside_trans [OF c'(3) stored_block [OF c2(2), folded acc]] .
  ultimately show ?case by blast
qed

lemma processFilter_spec:
  fixes c :: "'c::comm_ring_1 memory"
  assumes sz: "sz = 2 ^ l" and inv: "convolver_inv fft sz ao cao cc" and dis: "members_disjoint sz cc"
    and i: "i < ccNumberOfInputs cc" and f: "f < maxNumberOfFilterEntries cc"
    and al: "checkAlignment (2 * sz) result (ccComplexAlignment cc)"
    and away: "block (2 * sz) result (ccDftRepresentationSizePadded cc) \<inter> accumulator_cells sz cc = {}"
  shows "\<exists>c'. processFilter ofReal sz cc i f gain result addFlag c = Inr c' \<and>
    (\<forall>j < ccDftRepresentationSizePadded cc. c' (elem (2 * sz) result j) =
      (if addFlag then c (elem (2 * sz) result j) else 0) + ofReal gain *
        (\<Sum>b<ccNumberOfFilterPartitions cc. c (elem (2 * sz) (getFdlBlock sz cc i b) j) *
           c (elem (2 * sz) (getFdFilterPartition sz cc f b) j))) \<and>
    same_outside (block (2 * sz) result (ccDftRepresentationSizePadded cc) \<union> accumulator_cells sz cc) c c'"
proof -
  let ?n = "ccDftRepresentationSizePadded cc" and ?acc = "mAlignedStorage (ccFrequencyDomainAccumulator cc)"
  let ?X = "getFdlBlock sz cc i" and ?Y = "getFdFilterPartition sz cc f" and ?P = "ccNumberOfFilterPartitions cc"
  let ?al = "ccComplexAlignment cc"
  have acc: "accumulator_cells sz cc = block (2 * sz) ?acc ?n"
    using convolver_inv_filters(5) [OF inv] by (simp add: array_cells_def)
  have sz2: "0 < 2 * sz" using sz by simp
  have P: "0 < ?P" using convolver_invD(3) [OF inv] .
  have awy: "accumulator_cells sz cc \<inter> fdl_cells sz cc = {}" "accumulator_cells sz cc \<inter> filter_cells sz cc = {}"
    using dis by (auto simp: members_disjoint_def)
  note X = fdl_in_cells [OF inv i, of _ 0] and Y = filter_in_cells [OF inv f P]
  have safe: "safe ?n (elem (2 * sz) (?X 0)) (elem (2 * sz) ?acc)" "safe ?n (elem (2 * sz) (?Y 0)) (elem (2 * sz) ?acc)"
    by (rule safe_disjoint, use X Y awy acc in blast)+
  have als: "\<forall>p \<in> set [?X 0, ?Y 0, ?acc]. checkAlignment (2 * sz) p ?al"
    using pointers_aligned(1) [OF sz inv i] pointers_aligned(2) [OF sz inv f P] pointers_aligned(3) [OF sz inv] by simp
  obtain c1 where c1: "or_throw runtime_error (vectorMultiply (2 * sz) (?X 0) (?Y 0) ?acc ?n ?al c) = Inr c1"
    "stored ?n (elem (2 * sz) ?acc) (\<lambda>j. c (elem (2 * sz) (?X 0) j) * c (elem (2 * sz) (?Y 0) j)) c c1"
    using throw_stored [OF vector_products_outcome(1) [OF sz2 safe] als] by blast
  have v1: "\<forall>j < ?n. c1 (elem (2 * sz) ?acc j) = c (elem (2 * sz) (?X 0) j) * c (elem (2 * sz) (?Y 0) j)"
    using c1(2) by (simp add: stored_def)
  have Pk: "Suc (?P - 1) \<le> ?P" "Suc (?P - 1) = ?P" using P by simp_all
  obtain c2 where c2: "foldE (\<lambda>c b. or_throw runtime_error (vectorMultiplyAddInplace (2 * sz) (?X b) (?Y b) ?acc ?n ?al c))
      c1 [1..<?P] = Inr c2"
    "\<forall>j < ?n. c2 (elem (2 * sz) ?acc j) = (\<Sum>b<?P. c (elem (2 * sz) (?X b) j) * c (elem (2 * sz) (?Y b) j))"
    "same_outside (accumulator_cells sz cc) c c2"
    using accumulate_spec [OF sz inv dis i f v1 stored_block [OF c1(2), folded acc] Pk(1), unfolded Pk(2)] by blast
  have safe2: "safe ?n (elem (2 * sz) ?acc) (elem (2 * sz) result)"
    by (rule safe_disjoint) (use away acc in blast)
  have al2: "\<forall>p \<in> set [?acc, result]. checkAlignment (2 * sz) p ?al" using pointers_aligned(3) [OF sz inv] al by simp
  let ?g = "\<lambda>j. (if addFlag then c2 (elem (2 * sz) result j) else 0) + ofReal gain * c2 (elem (2 * sz) ?acc j)"
  have "\<exists>c3. or_throw runtime_error (if addFlag then vectorMultiplyConstantAddInplace (2 * sz) (ofReal gain) ?acc result ?n ?al c2
      else vectorMultiplyConstant (2 * sz) (ofReal gain) ?acc result ?n ?al c2) = Inr c3 \<and> stored ?n (elem (2 * sz) result) ?g c2 c3"
    using throw_stored [OF vector_products_outcome(4) [OF sz2 safe2 safe2] al2]
      throw_stored [OF vector_products_outcome(3) [OF sz2 safe2 safe2] al2] by (cases addFlag) simp_all
  then obtain c3 where c3: "or_throw runtime_error (if addFlag then vectorMultiplyConstantAddInplace (2 * sz) (ofReal gain) ?acc result ?n ?al c2
      else vectorMultiplyConstant (2 * sz) (ofReal gain) ?acc result ?n ?al c2) = Inr c3"
    "stored ?n (elem (2 * sz) result) ?g c2 c3" by blast
  have "processFilter ofReal sz cc i f gain result addFlag c = Inr c3"
    unfolding processFilter_def Let_def c1(1) bindE_simps c2(1) c3(1) ..
  moreover have "c3 (elem (2 * sz) result j) = (if addFlag then c (elem (2 * sz) result j) else 0) + ofReal gain *
        (\<Sum>b<?P. c (elem (2 * sz) (?X b) j) * c (elem (2 * sz) (?Y b) j))" if j: "j < ?n" for j
  proof -
    have "elem (2 * sz) result j \<in> block (2 * sz) result ?n" by (rule imageI) (use j in simp)
    then have "c2 (elem (2 * sz) result j) = c (elem (2 * sz) result j)"
      using unchanged [OF c2(3)] away by (metis inf_commute)
    then show ?thesis using c3(2) c2(2) j by (simp add: stored_def)
  qed
  moreover have "same_outside (block (2 * sz) result ?n \<union> accumulator_cells sz cc) c c3"
    by (rule same_outside_trans [OF same_outside_mono [OF c2(3)] same_outside_mono [OF stored_block [OF c3(2)]]]) auto
  ultimately show ?thesis by blast
qed

section \<open>Taking in a block of samples\<close>

text \<open>The delay line holds the spectra of the windows of the history, up to the age that it reaches.\<close>

definition fdl_holds :: "('a, 'c) fft_wrapper \<Rightarrow> nat \<Rightarrow> 'a core_convolver \<Rightarrow> 'c memory \<Rightarrow> (nat \<Rightarrow> nat \<Rightarrow> 'a) \<Rightarrow> bool" where
  "fdl_holds fft sz cc c H \<longleftrightarrow>
     (\<forall>i < ccNumberOfInputs cc. \<forall>b < ccNumberOfFilterPartitions cc.
        samples_at (2 * sz) c (getFdlBlock sz cc i b) (ccBlockLength cc + 1)
          = fftForward fft (input_window (ccBlockLength cc) (H i) b))"

lemma cyclic_inj:
  fixes q b b' P :: nat
  assumes "q < P" "b < P" "b' < P" "(q + b) mod P = (q + b') mod P"
  shows "b = b'"
proof -
  have "(q + x) mod P = (if q + x < P then q + x else q + x - P)" if "x < P" for x
    using assms(1) that by (simp add: mod_if)
  then show ?thesis using assms by (auto split: if_splits)
qed

lemma fdl_disjoint:
  assumes sz: "0 < sz" and inv: "convolver_inv fft sz ao cao cc"
    and "i \<noteq> i' \<or> b \<noteq> b'" "i < ccNumberOfInputs cc" "i' < ccNumberOfInputs cc"
    "b < ccNumberOfFilterPartitions cc" "b' < ccNumberOfFilterPartitions cc"
  shows "block (2 * sz) (getFdlBlock sz cc i b) (ccDftRepresentationSizePadded cc)
    \<inter> block (2 * sz) (getFdlBlock sz cc i' b') (ccDftRepresentationSizePadded cc) = {}"
proof -
  let ?P = "ccNumberOfFilterPartitions cc" and ?n = "ccDftRepresentationSizePadded cc" and ?o = "ccFdlCycleOffset cc"
  have False if j: "j < ?n" "j' < ?n" and eq: "elem (2 * sz) (getFdlBlock sz cc i b) j = elem (2 * sz) (getFdlBlock sz cc i' b') j'"
    for j j'
  proof -
    have q: "(?o + x) mod ?P < ?P" for x using convolver_invD(3) [OF inv] by simp
    have cols: "(?o + x) mod ?P * ?n + y < mNumberOfColumns (ccInputFDL cc)" if "y < ?n" for x y
      unfolding convolver_inv_fdl(3) [OF inv] by (rule index_in_rows [OF q that order_refl])
    have sz2: "0 < 2 * sz" using sz by simp
    have "i = i' \<and> (?o + b) mod ?P * ?n + j = (?o + b') mod ?P * ?n + j'"
      by (rule element_inj [OF convolver_inv_fdl(1) [OF inv] sz2 cols [OF j(1)] cols [OF j(2)]])
        (use eq fdl_element in metis)
    moreover from this have "(?o + b) mod ?P = (?o + b') mod ?P" using row_index_inj [OF j] by blast
    then have "b = b'" by (rule cyclic_inj [OF convolver_invD(6) [OF inv] assms(6,7)])
    ultimately show False using assms(3) by simp
  qed
  then show ?thesis by blast
qed

text \<open>Advancing: block \<open>b\<close> is afterwards block \<open>b + 1\<close>.\<close>

lemma advanced_block:
  assumes "ccFdlCycleOffset cc < ccNumberOfFilterPartitions cc"
  shows "getFdlBlock sz (advanceFDL cc) i (Suc b) = getFdlBlock sz cc i b"
proof -
  let ?P = "ccNumberOfFilterPartitions cc" and ?o = "ccFdlCycleOffset cc"
  have "((?o + ?P - 1) mod ?P + Suc b) mod ?P = (?o + ?P - 1 + Suc b) mod ?P" by (simp only: mod_add_left_eq)
  also have "?o + ?P - 1 + Suc b = (?o + b) + ?P" using assms by simp
  finally show ?thesis by (simp add: getFdlBlock_def advanceFDL_def)
qed

lemma advanceFDL_inv:
  assumes "convolver_inv fft sz ao cao cc" "circular_inv sz ao buf" "cbNumberOfChannels buf = ccNumberOfInputs cc"
    "cbLength buf = ccDftSize cc"
  shows "convolver_inv fft sz ao cao (advanceFDL (cc\<lparr>ccInputBuffers := buf\<rparr>))"
  using assms unfolding convolver_inv_def advanceFDL_def by simp

text \<open>Transforming the newest window of every input.\<close>

lemma forward_loop:
  assumes sz: "0 < sz" and inv: "convolver_inv fft sz ao cao cc" and laws: "fft_laws fft ofReal (ccDftSize cc)"
    and win: "\<And>i. i < ccNumberOfInputs cc \<Longrightarrow> samples_at sz m (R i) (ccDftSize cc) = w i"
    and k: "k \<le> ccNumberOfInputs cc"
  shows "(\<forall>i < k. samples_at (2 * sz) (fold (\<lambda>i c. forwardTransform fft sz (ccDftSize cc) (R i) (getFdlBlock sz cc i 0) m c) [0..<k] c)
      (getFdlBlock sz cc i 0) (ccBlockLength cc + 1) = fftForward fft (w i)) \<and>
    same_outside (\<Union>i<k. block (2 * sz) (getFdlBlock sz cc i 0) (ccDftRepresentationSizePadded cc)) c
      (fold (\<lambda>i c. forwardTransform fft sz (ccDftSize cc) (R i) (getFdlBlock sz cc i 0) m c) [0..<k] c)"
  using k
proof (induction k)
  case 0
  then show ?case by (simp add: same_outside_def)
next
  case (Suc k)
  let ?c = "fold (\<lambda>i c. forwardTransform fft sz (ccDftSize cc) (R i) (getFdlBlock sz cc i 0) m c) [0..<k] c"
  let ?c' = "forwardTransform fft sz (ccDftSize cc) (R k) (getFdlBlock sz cc k 0) m ?c"
  let ?n = "ccDftRepresentationSizePadded cc" and ?B = "ccBlockLength cc" and ?blk = "\<lambda>i. getFdlBlock sz cc i 0"
  have kI: "k < ccNumberOfInputs cc" using Suc.prems by simp
  have step: "fold (\<lambda>i c. forwardTransform fft sz (ccDftSize cc) (R i) (getFdlBlock sz cc i 0) m c) [0..<Suc k] c = ?c'" by simp
  have IH: "\<forall>i < k. samples_at (2 * sz) ?c (?blk i) (?B + 1) = fftForward fft (w i)"
    "same_outside (\<Union>i<k. block (2 * sz) (?blk i) ?n) c ?c" using Suc by auto
  have "length (w k) = ccDftSize cc" using win [OF kI] by (metis length_samples_at)
  then have len: "length (fftForward fft (w k)) = ?B + 1"
    using laws convolver_invD(2) [OF inv] by (simp add: fft_laws_def)
  have sz2: "0 < 2 * sz" using sz by simp
  have st: "stored (?B + 1) (elem (2 * sz) (?blk k)) ((!) (fftForward fft (w k))) ?c ?c'"
    using store_list_stored [OF sz2, of "fftForward fft (w k)" "?blk k" ?c] len
    by (simp add: forwardTransform_def win [OF kI])
  have sub: "block (2 * sz) (?blk i) (?B + 1) \<subseteq> block (2 * sz) (?blk i) ?n" for i
    using padded_props(1) [OF inv] by (intro image_mono) auto
  have new: "samples_at (2 * sz) ?c' (?blk k) (?B + 1) = fftForward fft (w k)"
    by (rule nth_equalityI) (use st len in \<open>simp_all add: stored_def\<close>)
  have other: "samples_at (2 * sz) ?c' (?blk i) (?B + 1) = samples_at (2 * sz) ?c (?blk i) (?B + 1)" if i: "i < k" for i
  proof (rule nth_equalityI)
    fix j assume "j < length (samples_at (2 * sz) ?c' (?blk i) (?B + 1))"
    then have j: "j < ?B + 1" by simp
    have P: "0 < ccNumberOfFilterPartitions cc" by (rule convolver_invD(3) [OF inv])
    have "block (2 * sz) (?blk i) ?n \<inter> block (2 * sz) (?blk k) ?n = {}"
      by (rule fdl_disjoint [OF sz inv _ _ kI P P]) (use i kI in simp_all)
    moreover have "elem (2 * sz) (?blk i) j \<in> block (2 * sz) (?blk i) (?B + 1)" by (rule imageI) (use j in simp)
    ultimately have "elem (2 * sz) (?blk i) j \<notin> block (2 * sz) (?blk k) (?B + 1)"
      using sub [of i] sub [of k] by blast
    then show "samples_at (2 * sz) ?c' (?blk i) (?B + 1) ! j = samples_at (2 * sz) ?c (?blk i) (?B + 1) ! j"
      using st j by (simp add: stored_def)
  qed simp
  have out: "same_outside (\<Union>i<Suc k. block (2 * sz) (?blk i) ?n) c ?c'"
  proof (rule same_outside_trans)
    show "same_outside (\<Union>i<Suc k. block (2 * sz) (?blk i) ?n) c ?c"
      by (rule same_outside_mono [OF IH(2)]) (auto simp: lessThan_Suc)
    show "same_outside (\<Union>i<Suc k. block (2 * sz) (?blk i) ?n) ?c ?c'"
      by (rule same_outside_mono [OF stored_block [OF st]]) (use sub [of k] in \<open>simp add: lessThan_Suc, blast\<close>)
  qed
  have val: "samples_at (2 * sz) ?c' (?blk i) (?B + 1) = fftForward fft (w i)" if "i < Suc k" for i
  proof (cases "i = k")
    case True
    then show ?thesis using new by simp
  next
    case False
    then have ik: "i < k" using that by simp
    then show ?thesis using other [OF ik] IH(1) by simp
  qed
  have "\<forall>i < Suc k. samples_at (2 * sz) ?c' (?blk i) (?B + 1) = fftForward fft (w i)" using val by blast
  then show ?case unfolding step using out by (rule conjI)
qed

text \<open>The window of a partition one block later.\<close>

lemma window_later: "input_window B (appended B x H) (Suc b) = input_window B H b"
proof (rule nth_equalityI)
  fix k assume "k < length (input_window B (appended B x H) (Suc b))"
  then have k: "k < 2 * B" by simp
  have "Suc b * B + 2 * B - 1 - k = (b * B + 2 * B - 1 - k) + B" using k by (simp add: algebra_simps)
  moreover have "appended B x H (q + B) = H q" for q by (simp add: appended_def)
  ultimately have "appended B x H (Suc b * B + 2 * B - 1 - k) = H (b * B + 2 * B - 1 - k)" by simp
  then show "input_window B (appended B x H) (Suc b) ! k = input_window B H b ! k"
    unfolding input_window_def using k by (simp only: nth_map nth_upt length_upt diff_zero add_0)
qed simp

lemma processInputs_spec:
  assumes sz: "sz = 2 ^ l" "l < 64" and inv: "convolver_inv fft sz ao cao cc" and laws: "fft_laws fft ofReal (ccDftSize cc)"
    and hist: "history sz m (ccInputBuffers cc) H" and fdl: "fdl_holds fft sz cc c H"
    and src: "readable sz (ccInputBuffers cc) (\<lambda>i. elem sz input (i * stride)) (ccBlockLength cc)"
    and H': "H' = (\<lambda>i. appended (ccBlockLength cc) (\<lambda>k. m (elem sz input (i * stride + k))) (H i))"
  shows "\<exists>buf m' c'. let cc' = advanceFDL (cc\<lparr>ccInputBuffers := buf\<rparr>) in
    processInputs fft sz cc input stride al m c = Inr (cc', m', c') \<and>
    convolver_inv fft sz ao cao cc' \<and> history sz m' buf H' \<and> fdl_holds fft sz cc' c' H' \<and>
    cbBuffer buf = cbBuffer (ccInputBuffers cc) \<and>
    same_outside (ring_cells sz cc) m m' \<and> same_outside (fdl_cells sz cc) c c'"
proof -
  let ?cb = "ccInputBuffers cc" and ?B = "ccBlockLength cc" and ?N = "ccDftSize cc" and ?I = "ccNumberOfInputs cc"
  let ?P = "ccNumberOfFilterPartitions cc"
  note D = convolver_invD [OF inv] and R = convolver_inv_ring [OF inv]
  let ?buf = "?cb\<lparr>cbWriteHeadIndex := (cbWriteHeadIndex ?cb + ?B) mod cbImplLength ?cb\<rparr>"
  define cc' where "cc' = advanceFDL (cc\<lparr>ccInputBuffers := ?buf\<rparr>)"
  have n: "?B \<le> cbLength ?cb" using R(3) D(2) by simp
  obtain m' where m': "write_from sz ?cb (\<lambda>i. elem sz input (i * stride)) ?B al m = Inr (?buf, m')"
    "history sz m' ?buf (\<lambda>i. appended ?B (\<lambda>k. m (elem sz (elem sz input (i * stride)) k)) (H i))"
    "same_outside (ring_cells sz cc) m m'"
    using write_from_spec [OF sz R(1) hist src n] by blast
  have w: "write_strided sz ?cb input stride ?I ?B al m = Inr (?buf, m')"
    using m'(1) n R(2) by (simp add: write_overloads)
  have hist': "history sz m' ?buf H'" using m'(2) unfolding H' by (simp add: algebra_simps)
  have cb: "circular_inv sz ao ?buf" using R(1) by (simp add: circular_inv_def)
  have inv': "convolver_inv fft sz ao cao cc'"
    unfolding cc'_def by (rule advanceFDL_inv [OF inv cb]) (simp_all add: R)
  have sel: "ccNumberOfInputs cc' = ?I" "ccDftSize cc' = ?N" "ccBlockLength cc' = ?B" "ccInputBuffers cc' = ?buf"
    "ccNumberOfFilterPartitions cc' = ?P" "ccDftRepresentationSizePadded cc' = ccDftRepresentationSizePadded cc"
    "ccInputFDL cc' = ccInputFDL cc" by (simp_all add: cc'_def advanceFDL_def)
  let ?R = "\<lambda>i. getReadPointer sz ?buf i ?N"
  have win: "samples_at sz m' (?R i) (ccDftSize cc') = input_window ?B (H' i) 0" if i: "i < ccNumberOfInputs cc'" for i
  proof (rule nth_equalityI)
    fix j assume "j < length (samples_at sz m' (?R i) (ccDftSize cc'))"
    then have j: "j < ?N" by (simp add: sel)
    have ch: "i < cbNumberOfChannels ?buf" using i R(2) by (simp add: sel)
    have d: "?N \<le> cbImplLength ?buf" using R(1,3) by (simp add: circular_inv_def)
    have "m' (elem sz (?R i) j) = H' i (?N - 1 - j)" by (rule read_window [OF cb hist' ch d j])
    then show "samples_at sz m' (?R i) (ccDftSize cc') ! j = input_window ?B (H' i) 0 ! j"
      using j D(2) by (simp add: sel input_window_def)
  qed (simp add: sel D(2))
  define c' where "c' = fold (\<lambda>i c. forwardTransform fft sz (ccDftSize cc') (?R i) (getFdlBlock sz cc' i 0) m' c)
    [0..<ccNumberOfInputs cc'] c"
  have sz0: "0 < sz" using sz by simp
  have laws': "fft_laws fft ofReal (ccDftSize cc')" using laws by (simp add: sel)
  note loop0 = forward_loop [where R = ?R and w = "\<lambda>i. input_window ?B (H' i) 0", OF sz0 inv' laws' win order_refl,
      where c = c, folded c'_def]
  note loop = conjunct1 [OF loop0, unfolded sel] conjunct2 [OF loop0, unfolded sel]
  have "fdl_holds fft sz cc' c' H'"
    unfolding fdl_holds_def sel
  proof (intro allI impI)
    fix i b assume i: "i < ?I" and b: "b < ?P"
    show "samples_at (2 * sz) c' (getFdlBlock sz cc' i b) (?B + 1) = fftForward fft (input_window ?B (H' i) b)"
    proof (cases b)
      case 0
      then show ?thesis using loop(1) i by simp
    next
      case (Suc b')
      have old: "samples_at (2 * sz) c (getFdlBlock sz cc i b') (?B + 1) = fftForward fft (input_window ?B (H i) b')"
        using fdl i b Suc by (simp add: fdl_holds_def)
      have blk: "getFdlBlock sz cc' i b = getFdlBlock sz cc i b'"
        using advanced_block [of "cc\<lparr>ccInputBuffers := ?buf\<rparr>" sz i b'] D(6) Suc by (simp add: cc'_def getFdlBlock_def)
      have "samples_at (2 * sz) c' (getFdlBlock sz cc' i b) (?B + 1) = samples_at (2 * sz) c (getFdlBlock sz cc' i b) (?B + 1)"
      proof (rule nth_equalityI)
        fix j assume "j < length (samples_at (2 * sz) c' (getFdlBlock sz cc' i b) (?B + 1))"
        then have j: "j < ?B + 1" by simp
        have jn: "elem (2 * sz) (getFdlBlock sz cc' i b) j \<in> block (2 * sz) (getFdlBlock sz cc' i b) (ccDftRepresentationSizePadded cc)"
          by (rule imageI) (use j padded_props(1) [OF inv] in simp)
        have "block (2 * sz) (getFdlBlock sz cc' i b) (ccDftRepresentationSizePadded cc) \<inter>
            block (2 * sz) (getFdlBlock sz cc' i' 0) (ccDftRepresentationSizePadded cc) = {}" if "i' < ?I" for i'
          using fdl_disjoint [OF sz0 inv', of i i' b 0] that i b Suc D(3) by (simp add: sel)
        then have "(\<Union>i'<?I. block (2 * sz) (getFdlBlock sz cc' i' 0) (ccDftRepresentationSizePadded cc)) \<inter>
            block (2 * sz) (getFdlBlock sz cc' i b) (ccDftRepresentationSizePadded cc) = {}" by blast
        from unchanged [OF loop(2) jn this]
        show "samples_at (2 * sz) c' (getFdlBlock sz cc' i b) (?B + 1) ! j
          = samples_at (2 * sz) c (getFdlBlock sz cc' i b) (?B + 1) ! j" using j by simp
      qed simp
      then show ?thesis using old blk Suc by (simp add: H' window_later)
    qed
  qed
  moreover have "same_outside (fdl_cells sz cc) c c'"
  proof (rule same_outside_mono [OF loop(2)])
    show "(\<Union>i<?I. block (2 * sz) (getFdlBlock sz cc' i 0) (ccDftRepresentationSizePadded cc)) \<subseteq> fdl_cells sz cc"
      using fdl_in_cells [OF inv'] unfolding sel by blast
  qed
  moreover have "processInputs fft sz cc input stride al m c = Inr (cc', m', c')"
    unfolding processInputs_def w c'_def cc'_def by (simp add: Let_def advanceFDL_def)
  ultimately show ?thesis using inv' hist' m'(3) by (intro exI [of _ ?buf] exI [of _ m'] exI [of _ c']) (simp add: Let_def cc'_def [symmetric])
qed

section \<open>Giving out a block of samples\<close>

lemma transformOutput_spec:
  assumes sz: "0 < sz" and inv: "convolver_inv fft sz ao cao cc" and laws: "fft_laws fft ofReal (ccDftSize cc)"
    and away: "block sz out (ccBlockLength cc) \<inter> buffer_cells sz cc = {}"
  shows "\<exists>m'. transformOutput fft sz cc fd out c m = Inr m' \<and>
    (\<forall>s < ccBlockLength cc. m' (elem sz out s) =
      fftInverse fft (spectrum (ccDftSize cc) (\<lambda>j. c (elem (2 * sz) fd j))) ! (ccBlockLength cc + s)) \<and>
    same_outside (block sz out (ccBlockLength cc) \<union> buffer_cells sz cc) m m'"
proof -
  let ?buf = "mAlignedStorage (ccTimeDomainTransformBuffer cc)" and ?B = "ccBlockLength cc" and ?N = "ccDftSize cc"
  let ?y = "fftInverse fft (spectrum ?N (\<lambda>j. c (elem (2 * sz) fd j)))"
  let ?m1 = "inverseTransform fft sz ?N fd ?buf c m"
  have N: "?N = 2 * ?B" "?N - ?B = ?B" using convolver_invD(2) [OF inv] by simp_all
  have cells: "buffer_cells sz cc = block sz ?buf ?N" using convolver_inv_ring(5) [OF inv] by (simp add: array_cells_def)
  have len: "length ?y = ?N" by (rule inverse_length [OF laws])
  have st: "stored ?N (elem sz ?buf) ((!) ?y) m ?m1"
    using store_list_stored [OF sz, of ?y ?buf m] len by (simp add: inverseTransform_def samples_at_def spectrum_def)
  let ?src = "elem sz ?buf ?B"
  have src: "elem sz ?src s = elem sz ?buf (?B + s)" for s by (simp add: algebra_simps)
  have in_buf: "elem sz ?src s \<in> buffer_cells sz cc" if "s < ?B" for s
    unfolding src cells by (rule imageI) (use that N in simp)
  have "safe ?B (elem sz ?src) (elem sz out)" by (rule safe_disjoint) (use in_buf away in blast)
  from throw_stored [OF vectorCopy_outcome [OF sz this]]
  obtain m' where m': "or_throw runtime_error (vectorCopy sz ?src out ?B 0 ?m1) = Inr m'"
    "stored ?B (elem sz out) (\<lambda>s. ?m1 (elem sz ?src s)) ?m1 m'" by (metis checkAlignment_0)
  have "transformOutput fft sz cc fd out c m = Inr m'" unfolding transformOutput_def Let_def N(2) by (rule m'(1))
  moreover have "m' (elem sz out s) = ?y ! (?B + s)" if s: "s < ?B" for s
  proof -
    have "?m1 (elem sz ?buf (?B + s)) = ?y ! (?B + s)" using st s N by (simp add: stored_def)
    then show ?thesis using m'(2) s unfolding stored_def src by simp
  qed
  moreover have "same_outside (block sz out ?B \<union> buffer_cells sz cc) m m'"
    by (rule same_outside_trans [OF same_outside_mono [OF stored_block [OF st, folded cells]]
          same_outside_mono [OF stored_block [OF m'(2)]]]) auto
  ultimately show ?thesis by blast
qed

section \<open>Loading a filter\<close>

definition filters_hold :: "('a::field, 'c) fft_wrapper \<Rightarrow> nat \<Rightarrow> 'a core_convolver \<Rightarrow> 'c memory \<Rightarrow> (nat \<Rightarrow> nat \<Rightarrow> 'a) \<Rightarrow> bool" where
  "filters_hold fft sz cc c h \<longleftrightarrow>
     (\<forall>f < maxNumberOfFilterEntries cc. \<forall>p < ccNumberOfFilterPartitions cc.
        samples_at (2 * sz) c (getFdFilterPartition sz cc f p) (ccBlockLength cc + 1)
          = fftForward fft (filter_window (ccBlockLength cc) (ccFilterScalingFactor cc) (h f) p))"

text \<open>
  The impulse response that a filter really gets: a partition whose first coefficient is not
  aligned as promised is lost, since the error of the scaling is not thrown.
\<close>

definition loaded :: "nat \<Rightarrow> nat \<Rightarrow> nat \<Rightarrow> 'a::zero memory \<Rightarrow> nat \<Rightarrow> nat \<Rightarrow> nat \<Rightarrow> 'a" where
  "loaded sz B al m ir L n =
     (if n < L \<and> checkAlignment sz (elem sz ir (n div B * B)) al then m (elem sz ir n) else 0)"

lemma transformPartition_spec:
  fixes m :: "'a::field memory"
  assumes sz: "sz = 2 ^ l" and inv: "convolver_inv fft sz ao cao cc" and laws: "fft_laws fft ofReal (ccDftSize cc)"
    and al: "a = 0 \<or> (\<exists>k. a = 2 ^ k)" and away: "block sz ir L \<inter> buffer_cells sz cc = {}"
  shows "\<exists>m' c'. transformPartition fft sz cc ir L result a (m, c) p = Inr (m', c') \<and>
    stored (ccBlockLength cc + 1) (elem (2 * sz) (elem (2 * sz) result (p * ccDftRepresentationSizePadded cc)))
      ((!) (fftForward fft (filter_window (ccBlockLength cc) (ccFilterScalingFactor cc)
         (loaded sz (ccBlockLength cc) (min (ccAlignment cc) a) m ir L) p))) c c' \<and>
    same_outside (buffer_cells sz cc) m m'"
proof -
  let ?v = "ccTimeDomainTransformBuffer cc" and ?B = "ccBlockLength cc" and ?N = "ccDftSize cc" and ?s = "ccFilterScalingFactor cc"
  let ?buf = "mAlignedStorage ?v" and ?al = "min (ccAlignment cc) a" and ?st = "p * ?B" and ?en = "min ((p + 1) * ?B) L"
  have sz0: "0 < sz" using sz by simp
  note R = convolver_inv_ring [OF inv]
  have N: "?N = 2 * ?B" using convolver_invD(2) [OF inv] .
  have cells: "buffer_cells sz cc = block sz ?buf ?N" using R(5) by (simp add: array_cells_def)
  obtain m1 where m1: "vector_zeroFill sz ?v m = Inr m1" "vector_elements sz m1 ?v = replicate ?N 0"
    "same_outside (buffer_cells sz cc) m m1"
    using vector_fill_spec [OF sz0, of 0 ?v m] R(5) by (auto simp: vector_zero_fill)
  have zero: "m1 (elem sz ?buf k) = 0" if "k < ?N" for k
  proof -
    have "vector_elements sz m1 ?v ! k = m1 (elem sz ?buf k)" using that R(5) by (simp add: vector_elements_def)
    then show ?thesis using m1(2) that by simp
  qed
  have ir1: "m1 (elem sz ir n) = m (elem sz ir n)" if "n < L" for n
  proof -
    have "elem sz ir n \<in> block sz ir L" by (rule imageI) (use that in simp)
    then show ?thesis using unchanged [OF m1(3)] away by (metis inf_commute)
  qed
  have pow: "?al = 0 \<or> (\<exists>k. ?al = 2 ^ k)" using al R(7) by (auto simp: min_def)
  have bal: "checkAlignment sz ?buf ?al"
  proof (cases "?al = 0")
    case True
    then show ?thesis by (metis checkAlignment_0)
  next
    case False
    have "\<exists>k. ?al = 2 ^ k" using False pow by (simp only: simp_thms)
    then obtain k where k: "?al = 2 ^ k" ..
    have "?al \<le> mAlignment ?v" using R(6) by simp
    then show ?thesis using array_inv_aligned [OF sz R(4) _ k] by simp
  qed
  define m2 where "m2 = (if ?st < ?en then snd (vectorMultiplyConstant sz ?s (elem sz ir ?st) ?buf (?en - ?st) ?al m1) else m1)"
  let ?h = "loaded sz ?B ?al m ir L"
  have m2: "(\<forall>k < ?N. m2 (elem sz ?buf k) = filter_window ?B ?s ?h p ! k) \<and> same_outside (buffer_cells sz cc) m1 m2"
  proof -
    have idx: "(p * ?B + k) div ?B = p" if "k < ?B" for k using that by simp
    have val: "filter_window ?B ?s ?h p ! k
      = (if k < ?B \<and> ?st + k < L \<and> checkAlignment sz (elem sz ir ?st) ?al then ?s * m (elem sz ir (?st + k)) else 0)"
      if "k < ?N" for k
      using that N idx by (simp add: filter_window_def loaded_def)
    show ?thesis
    proof (cases "?st < ?en \<and> checkAlignment sz (elem sz ir ?st) ?al")
      case False
      have "m2 = m1"
      proof (cases "?st < ?en")
        case True
        then have "\<not> checkAlignment sz (elem sz ir ?st) ?al" using False by blast
        then show ?thesis using True by (simp add: m2_def vectorMultiplyConstant_def checked_def)
      next
        case False
        then show ?thesis unfolding m2_def by (rule if_not_P)
      qed
      moreover have "filter_window ?B ?s ?h p ! k = 0" if "k < ?N" for k
        unfolding val [OF that] using False by auto
      ultimately show ?thesis using zero by (simp add: same_outside_def)
    next
      case True
      let ?n = "?en - ?st"
      have n: "?n \<le> ?B" "k < ?n \<longleftrightarrow> k < ?B \<and> ?st + k < L" for k using True by auto
      have src: "elem sz (elem sz ir ?st) k = elem sz ir (?st + k)" for k by (simp add: algebra_simps)
      have sub: "block sz ?buf ?n \<subseteq> buffer_cells sz cc" unfolding cells using n(1) N by (intro image_mono) auto
      have "elem sz (elem sz ir ?st) k \<in> block sz ir L" if "k < ?n" for k
        unfolding src by (rule imageI) (use n(2) that in simp)
      then have sf: "safe ?n (elem sz (elem sz ir ?st)) (elem sz ?buf)"
        by (intro safe_disjoint) (use sub away in blast)
      have "\<forall>q \<in> set [elem sz ir ?st, ?buf]. checkAlignment sz q ?al" using True bal by simp
      then have st: "stored ?n (elem sz ?buf) (\<lambda>k. ?s * m1 (elem sz ir (?st + k))) m1 m2"
        using vector_products_outcome(3) [OF sz0 sf sf, where al = ?al and m = m1 and k = ?s] True unfolding outcome_def m2_def src by simp
      have "m2 (elem sz ?buf k) = filter_window ?B ?s ?h p ! k" if k: "k < ?N" for k
      proof (cases "k < ?n")
        case kn: True
        then show ?thesis unfolding val [OF k] using st True n(2) [of k] ir1 by (simp add: stored_def)
      next
        case False
        then have "elem sz ?buf k \<notin> block sz ?buf ?n" using sz0 by auto
        then have "m2 (elem sz ?buf k) = 0" using st zero [OF k] by (simp add: stored_def)
        then show ?thesis unfolding val [OF k] using False n(2) [of k] by auto
      qed
      then show ?thesis using same_outside_mono [OF stored_block [OF st] sub] by blast
    qed
  qed
  have win: "samples_at sz m2 ?buf ?N = filter_window ?B ?s ?h p"
    by (rule nth_equalityI) (use m2 N in simp_all)
  let ?c' = "forwardTransform fft sz ?N ?buf (elem (2 * sz) result (p * ccDftRepresentationSizePadded cc)) m2 c"
  have sz2: "0 < 2 * sz" using sz by simp
  have len: "length (fftForward fft (filter_window ?B ?s ?h p)) = ?B + 1" using laws N by (simp add: fft_laws_def)
  have "stored (?B + 1) (elem (2 * sz) (elem (2 * sz) result (p * ccDftRepresentationSizePadded cc)))
      ((!) (fftForward fft (filter_window ?B ?s ?h p))) c ?c'"
    using store_list_stored [OF sz2, of "fftForward fft (filter_window ?B ?s ?h p)"] len
    unfolding forwardTransform_def win by metis
  moreover have "transformPartition fft sz cc ir L result a (m, c) p = Inr (m2, ?c')"
    unfolding transformPartition_def prod.case m1(1) bindE_simps Let_def m2_def [symmetric] ..
  moreover have "same_outside (buffer_cells sz cc) m m2" using same_outside_trans [OF m1(3) conjunct2 [OF m2]] .
  ultimately show ?thesis by blast
qed

lemma filter_blocks_disjoint:
  assumes sz: "0 < sz" and inv: "convolver_inv fft sz ao cao cc"
    and "f \<noteq> f' \<or> p \<noteq> p'" "p < ccNumberOfFilterPartitions cc" "p' < ccNumberOfFilterPartitions cc"
  shows "block (2 * sz) (getFdFilterPartition sz cc f p) (ccDftRepresentationSizePadded cc)
    \<inter> block (2 * sz) (getFdFilterPartition sz cc f' p') (ccDftRepresentationSizePadded cc) = {}"
proof -
  let ?n = "ccDftRepresentationSizePadded cc"
  have False if j: "j < ?n" "j' < ?n"
    and eq: "elem (2 * sz) (getFdFilterPartition sz cc f p) j = elem (2 * sz) (getFdFilterPartition sz cc f' p') j'" for j j'
  proof -
    have cols: "x * ?n + y < mNumberOfColumns (ccFilterPartitionsFrequencyDomain cc)"
      if "x < ccNumberOfFilterPartitions cc" "y < ?n" for x y
      unfolding convolver_inv_filters(2) [OF inv] by (rule index_in_rows [OF that order_refl])
    have sz2: "0 < 2 * sz" using sz by simp
    have "f = f' \<and> p * ?n + j = p' * ?n + j'"
      by (rule element_inj [OF convolver_inv_filters(1) [OF inv] sz2 cols [OF assms(4) j(1)] cols [OF assms(5) j(2)]])
        (use eq filter_element in metis)
    then show False using row_index_inj [OF j] assms(3) by blast
  qed
  then show ?thesis by blast
qed

text \<open>Loading the first \<open>k\<close> partitions of a filter.\<close>

lemma load_loop:
  fixes m :: "'a::field memory"
  assumes sz: "sz = 2 ^ l" and inv: "convolver_inv fft sz ao cao cc" and laws: "fft_laws fft ofReal (ccDftSize cc)"
    and al: "a = 0 \<or> (\<exists>k. a = 2 ^ k)" and away: "block sz ir L \<inter> buffer_cells sz cc = {}"
    and f: "f < maxNumberOfFilterEntries cc" and k: "k \<le> ccNumberOfFilterPartitions cc"
  shows "\<exists>m' c'. foldE (transformPartition fft sz cc ir L (matrix_row (2 * sz) (ccFilterPartitionsFrequencyDomain cc) f) a)
      (m, c) [0..<k] = Inr (m', c') \<and>
    (\<forall>p < k. samples_at (2 * sz) c' (getFdFilterPartition sz cc f p) (ccBlockLength cc + 1) = fftForward fft
       (filter_window (ccBlockLength cc) (ccFilterScalingFactor cc)
         (loaded sz (ccBlockLength cc) (min (ccAlignment cc) a) m ir L) p)) \<and>
    same_outside (buffer_cells sz cc) m m' \<and>
    same_outside (\<Union>p<k. block (2 * sz) (getFdFilterPartition sz cc f p) (ccDftRepresentationSizePadded cc)) c c'"
  using k
proof (induction k)
  case 0
  then show ?case by (simp add: same_outside_def)
next
  case (Suc k)
  let ?B = "ccBlockLength cc" and ?n = "ccDftRepresentationSizePadded cc" and ?row = "matrix_row (2 * sz) (ccFilterPartitionsFrequencyDomain cc) f"
  let ?blk = "getFdFilterPartition sz cc f" and ?h = "\<lambda>m. loaded sz (ccBlockLength cc) (min (ccAlignment cc) a) m ir L"
  let ?S = "\<lambda>h p. fftForward fft (filter_window ?B (ccFilterScalingFactor cc) h p)"
  obtain m1 c1 where IH: "foldE (transformPartition fft sz cc ir L ?row a) (m, c) [0..<k] = Inr (m1, c1)"
    "\<forall>p < k. samples_at (2 * sz) c1 (?blk p) (?B + 1) = ?S (?h m) p"
    "same_outside (buffer_cells sz cc) m m1" "same_outside (\<Union>p<k. block (2 * sz) (?blk p) ?n) c c1"
    using Suc.IH [OF Suc_leD [OF Suc.prems]] by blast
  have kP: "k < ccNumberOfFilterPartitions cc" using Suc.prems by simp
  have sz0: "0 < sz" using sz by simp
  have h: "?h m1 = ?h m"
  proof (rule ext)
    fix n
    show "?h m1 n = ?h m n"
    proof (cases "n < L")
      case True
      have "elem sz ir n \<in> block sz ir L" by (rule imageI) (use True in simp)
      then have "m1 (elem sz ir n) = m (elem sz ir n)" using unchanged [OF IH(3)] away by (metis inf_commute)
      then show ?thesis by (simp add: loaded_def)
    qed (simp add: loaded_def)
  qed
  have blk: "elem (2 * sz) ?row (k * ?n) = ?blk k" by (simp add: getFdFilterPartition_def)
  obtain m2 c2 where st: "transformPartition fft sz cc ir L ?row a (m1, c1) k = Inr (m2, c2)"
    "stored (?B + 1) (elem (2 * sz) (?blk k)) ((!) (?S (?h m) k)) c1 c2" "same_outside (buffer_cells sz cc) m1 m2"
    using transformPartition_spec [OF sz inv laws al away, of ?row m1 c1 k] unfolding blk h by blast
  have sub: "block (2 * sz) (?blk p) (?B + 1) \<subseteq> block (2 * sz) (?blk p) ?n" for p
    using padded_props(1) [OF inv] by (intro image_mono) auto
  have val: "samples_at (2 * sz) c2 (?blk p) (?B + 1) = ?S (?h m) p" if "p < Suc k" for p
  proof (cases "p = k")
    case True
    have "length (?S (?h m) k) = ?B + 1" using laws convolver_invD(2) [OF inv] by (simp add: fft_laws_def)
    then show ?thesis unfolding True by (intro nth_equalityI) (use st(2) in \<open>simp_all add: stored_def\<close>)
  next
    case False
    then have pk: "p < k" using that by simp
    then have pP: "p < ccNumberOfFilterPartitions cc" using kP by simp
    have d: "block (2 * sz) (?blk k) ?n \<inter> block (2 * sz) (?blk p) ?n = {}"
      by (rule filter_blocks_disjoint [OF sz0 inv _ kP pP]) (use pk in simp)
    have "samples_at (2 * sz) c2 (?blk p) (?B + 1) = samples_at (2 * sz) c1 (?blk p) (?B + 1)"
    proof (rule nth_equalityI)
      fix j assume "j < length (samples_at (2 * sz) c2 (?blk p) (?B + 1))"
      then have j: "j < ?B + 1" by simp
      have "elem (2 * sz) (?blk p) j \<in> block (2 * sz) (?blk p) (?B + 1)" by (rule imageI) (use j in simp)
      moreover have "block (2 * sz) (?blk k) (?B + 1) \<inter> block (2 * sz) (?blk p) (?B + 1) = {}"
        using d sub [of k] sub [of p] by blast
      ultimately show "samples_at (2 * sz) c2 (?blk p) (?B + 1) ! j = samples_at (2 * sz) c1 (?blk p) (?B + 1) ! j"
        using unchanged [OF stored_block [OF st(2)]] j by simp
    qed simp
    then show ?thesis using IH(2) pk by simp
  qed
  have "same_outside (\<Union>p<Suc k. block (2 * sz) (?blk p) ?n) c c2"
  proof (rule same_outside_trans)
    show "same_outside (\<Union>p<Suc k. block (2 * sz) (?blk p) ?n) c c1"
      by (rule same_outside_mono [OF IH(4)]) (auto simp: lessThan_Suc)
    show "same_outside (\<Union>p<Suc k. block (2 * sz) (?blk p) ?n) c1 c2"
      by (rule same_outside_mono [OF stored_block [OF st(2)]]) (use sub [of k] in \<open>simp add: lessThan_Suc, blast\<close>)
  qed
  moreover have "foldE (transformPartition fft sz cc ir L ?row a) (m, c) [0..<Suc k] = Inr (m2, c2)"
    using IH(1) st(1) by (simp add: foldE_append)
  moreover have "same_outside (buffer_cells sz cc) m m2" by (rule same_outside_trans [OF IH(3) st(3)])
  ultimately show ?case using val by blast
qed

lemma setImpulseResponse_spec:
  fixes m :: "'a::field memory"
  assumes sz: "sz = 2 ^ l" and inv: "convolver_inv fft sz ao cao cc" and laws: "fft_laws fft ofReal (ccDftSize cc)"
    and hold: "filters_hold fft sz cc c h"
    and al: "al = 0 \<or> (\<exists>k. al = 2 ^ k)" and away: "block sz ir L \<inter> buffer_cells sz cc = {}"
  shows "if maxNumberOfFilterEntries cc \<le> f \<or> ccMaxFilterLength cc < L
    then setImpulseResponse fft sz cc ir L f al (m, c) = Inl invalid_argument
    else \<exists>m' c'. setImpulseResponse fft sz cc ir L f al (m, c) = Inr (m', c') \<and>
      filters_hold fft sz cc c' (h(f := loaded sz (ccBlockLength cc) (min (ccAlignment cc) al) m ir L)) \<and>
      same_outside (buffer_cells sz cc) m m' \<and> same_outside (filter_cells sz cc) c c'"
proof (cases "maxNumberOfFilterEntries cc \<le> f \<or> ccMaxFilterLength cc < L")
  case True
  then show ?thesis by (auto simp: setImpulseResponse_def transformImpulseResponse_def)
next
  case False
  let ?a = "min (ccAlignment cc) al" and ?row = "matrix_row (2 * sz) (ccFilterPartitionsFrequencyDomain cc) f"
  let ?P = "ccNumberOfFilterPartitions cc" and ?n = "ccDftRepresentationSizePadded cc" and ?B = "ccBlockLength cc"
  have f: "f < maxNumberOfFilterEntries cc" and L: "\<not> ccMaxFilterLength cc < L" using False by auto
  have pow: "?a = 0 \<or> (\<exists>k. ?a = 2 ^ k)" using al convolver_inv_ring(7) [OF inv] by (auto simp: min_def)
  have aa: "min (ccAlignment cc) ?a = ?a" by simp
  obtain m' c' where r: "foldE (transformPartition fft sz cc ir L ?row ?a) (m, c) [0..<?P] = Inr (m', c')"
    "\<forall>p < ?P. samples_at (2 * sz) c' (getFdFilterPartition sz cc f p) (?B + 1) = fftForward fft
       (filter_window ?B (ccFilterScalingFactor cc) (loaded sz ?B ?a m ir L) p)"
    "same_outside (buffer_cells sz cc) m m'"
    "same_outside (\<Union>p<?P. block (2 * sz) (getFdFilterPartition sz cc f p) ?n) c c'"
    using load_loop [OF sz inv laws pow away f order_refl, of m c] unfolding aa by blast
  have "setImpulseResponse fft sz cc ir L f al (m, c) = Inr (m', c')"
    using f L r(1) by (simp add: setImpulseResponse_def transformImpulseResponse_def)
  moreover have "same_outside (filter_cells sz cc) c c'"
    by (rule same_outside_mono [OF r(4)]) (use filter_in_cells [OF inv f] in blast)
  moreover have "filters_hold fft sz cc c' (h(f := loaded sz ?B ?a m ir L))"
    unfolding filters_hold_def
  proof (intro allI impI)
    fix g p assume g: "g < maxNumberOfFilterEntries cc" and p: "p < ?P"
    show "samples_at (2 * sz) c' (getFdFilterPartition sz cc g p) (?B + 1) =
      fftForward fft (filter_window ?B (ccFilterScalingFactor cc) ((h(f := loaded sz ?B ?a m ir L)) g) p)"
    proof (cases "g = f")
      case True
      then show ?thesis using r(2) p by simp
    next
      case False
      have "samples_at (2 * sz) c' (getFdFilterPartition sz cc g p) (?B + 1) = samples_at (2 * sz) c (getFdFilterPartition sz cc g p) (?B + 1)"
      proof (rule nth_equalityI)
        fix j assume "j < length (samples_at (2 * sz) c' (getFdFilterPartition sz cc g p) (?B + 1))"
        then have j: "j < ?B + 1" by simp
        have jn: "elem (2 * sz) (getFdFilterPartition sz cc g p) j \<in> block (2 * sz) (getFdFilterPartition sz cc g p) ?n"
          by (rule imageI) (use j padded_props(1) [OF inv] in simp)
        have sz0: "0 < sz" using sz by simp
        have "block (2 * sz) (getFdFilterPartition sz cc f q) ?n \<inter> block (2 * sz) (getFdFilterPartition sz cc g p) ?n = {}"
          if "q < ?P" for q by (rule filter_blocks_disjoint [OF sz0 inv _ that p]) (use False in simp)
        then have "(\<Union>q<?P. block (2 * sz) (getFdFilterPartition sz cc f q) ?n) \<inter> block (2 * sz) (getFdFilterPartition sz cc g p) ?n = {}"
          by blast
        from unchanged [OF r(4) jn this]
        show "samples_at (2 * sz) c' (getFdFilterPartition sz cc g p) (?B + 1) ! j
          = samples_at (2 * sz) c (getFdFilterPartition sz cc g p) (?B + 1) ! j" using j by simp
      qed simp
      then show ?thesis using hold g p False by (simp add: filters_hold_def)
    qed
  qed
  ultimately show ?thesis using False r(3) by auto
qed

end
