(* ===== verification/Index_Sequence.thy ===== *)
theory Index_Sequence
  imports Prelude
begin

text \<open>
  Index lists given as text (\<open>src/librbbl/index_sequence.cpp\<close>), such as \<open>0,1,3:7,8:-2:0\<close>. The
  grammar is recognised by Boost.Spirit, which calls \<open>push\<close> for every integer and \<open>finish\<close> at the end
  of every group of integers separated by colons. What Spirit recognises is an argument: the groups
  for which it calls \<open>finish\<close>, in order, and whether it consumed the whole text. An index is a
  \<open>size_t\<close>, the integers are 32 bits wide.
\<close>

definition INT_MAX :: int where
  "INT_MAX = 2 ^ 31 - 1"

section \<open>The loops over a range\<close>

text \<open>
  \<open>while( val <= end ) { push_back( val ); val += inc; }\<close> and the loop in the other direction. The
  addition must not leave the range of \<open>int\<close>.
\<close>

function count_up :: "int \<Rightarrow> int \<Rightarrow> int \<Rightarrow> exn + nat list" where
  "count_up inc stop val =
     (if 0 < inc \<and> val \<le> stop
      then if INT_MAX < val + inc then Inl undefined_behaviour
           else bindE (count_up inc stop (val + inc)) (\<lambda>vs. Inr (nat val # vs))
      else Inr [])"
  by pat_completeness auto
termination by (relation "measure (\<lambda>(inc, stop, val). nat (stop - val + 1))") auto

function count_down :: "int \<Rightarrow> int \<Rightarrow> int \<Rightarrow> exn + nat list" where
  "count_down inc stop val =
     (if inc < 0 \<and> stop \<le> val
      then if val + inc < - INT_MAX - 1 then Inl undefined_behaviour
           else bindE (count_down inc stop (val + inc)) (\<lambda>vs. Inr (nat val # vs))
      else Inr [])"
  by pat_completeness auto
termination by (relation "measure (\<lambda>(inc, stop, val). nat (val - stop + 1))") auto

declare count_up.simps [simp del] count_down.simps [simp del]

section \<open>The parser state\<close>

text \<open>\<open>finish\<close>: what a group of pushed integers adds to the contents.\<close>

definition finish_single :: "int \<Rightarrow> exn + nat list" where
  "finish_single val = (if val < 0 then Inl char_array else Inr [nat val])"

definition finish_range :: "int \<Rightarrow> int \<Rightarrow> exn + nat list" where
  "finish_range start stop =
     (if start < 0 \<or> stop < 0 then Inl char_array else Inr [nat start..<Suc (nat stop)])"

definition finish_stepped :: "int \<Rightarrow> int \<Rightarrow> int \<Rightarrow> exn + nat list" where
  "finish_stepped start inc stop =
     (if start < 0 \<or> stop < 0 then Inl char_array
      else if inc = 0 then Inl char_array
      else if 0 < inc then count_up inc stop start
      else count_down inc stop start)"

fun finish :: "int list \<Rightarrow> exn + nat list" where
  "finish [] = Inl invalid_argument"
| "finish [val] = finish_single val"
| "finish [start, stop] = finish_range start stop"
| "finish [start, inc, stop] = finish_stepped start inc stop"
| "finish _ = Inl invalid_argument"

definition IndexSequence :: "int list list \<Rightarrow> bool \<Rightarrow> exn + nat list" where
  "IndexSequence groups complete =
     bindE (foldE (\<lambda>contents group. bindE (finish group) (\<lambda>vs. Inr (contents @ vs))) [] groups)
       (\<lambda>contents. if complete then Inr contents else Inl invalid_argument)"

definition index_clear :: "nat list \<Rightarrow> nat list" where
  "index_clear mIndices = []"

definition index_at :: "nat list \<Rightarrow> nat \<Rightarrow> exn + nat" where
  "index_at mIndices idx = (if idx < length mIndices then Inr (mIndices ! idx) else Inl out_of_range)"

section \<open>Ranges in closed form\<close>

definition progression :: "int \<Rightarrow> int \<Rightarrow> int \<Rightarrow> int list" where
  "progression start inc stop = map (\<lambda>k. start + int k * inc) [0..<nat ((stop - start) div inc + 1)]"

lemma progression_Nil:
  assumes "inc \<noteq> 0" "if 0 < inc then stop < start else start < stop"
  shows "progression start inc stop = []"
proof -
  have "(stop - start) div inc < 0"
    using assms pos_imp_zdiv_neg_iff [of inc "stop - start"] neg_imp_zdiv_neg_iff [of inc "stop - start"]
    by (cases "0 < inc") auto
  then show ?thesis by (simp add: progression_def)
qed

lemma progression_Cons:
  assumes "inc \<noteq> 0" "if 0 < inc then start \<le> stop else stop \<le> start"
  shows "progression start inc stop = start # progression (start + inc) inc stop"
proof -
  have pos: "0 \<le> (stop - start) div inc"
    using assms pos_imp_zdiv_nonneg_iff [of inc "stop - start"] neg_imp_zdiv_nonneg_iff [of inc "stop - start"]
    by (cases "0 < inc") auto
  have e: "stop - (start + inc) = (stop - start) + (- 1) * inc" by simp
  have "(stop - (start + inc)) div inc = (stop - start) div inc - 1"
    unfolding e div_mult_self1 [OF assms(1)] by simp
  then have n: "nat ((stop - start) div inc + 1) = Suc (nat ((stop - (start + inc)) div inc + 1))" using pos by simp
  have "map (\<lambda>k. start + int k * inc) [0..<Suc n] = start # map (\<lambda>k. start + inc + int k * inc) [0..<n]" for n
    by (simp add: map_upt_Suc algebra_simps del: upt_Suc)
  then show ?thesis unfolding progression_def n .
qed

lemma count_up_progression:
  "0 < inc \<Longrightarrow> stop + inc \<le> INT_MAX \<Longrightarrow> count_up inc stop val = Inr (map nat (progression val inc stop))"
proof (induction inc stop val rule: count_up.induct)
  case (1 inc stop val)
  then show ?case
    using progression_Cons [of inc val stop] progression_Nil [of inc stop val]
    by (cases "val \<le> stop") (simp_all add: count_up.simps [of inc stop val])
qed

lemma count_down_progression:
  "inc < 0 \<Longrightarrow> - INT_MAX - 1 \<le> stop + inc \<Longrightarrow> count_down inc stop val = Inr (map nat (progression val inc stop))"
proof (induction inc stop val rule: count_down.induct)
  case (1 inc stop val)
  then show ?case
    using progression_Cons [of inc val stop] progression_Nil [of inc stop val]
    by (cases "stop \<le> val") (simp_all add: count_down.simps [of inc stop val])
qed

section \<open>What a list of groups denotes\<close>

text \<open>The values of a group, and the groups whose processing is defined and succeeds.\<close>

fun group_values :: "int list \<Rightarrow> int list" where
  "group_values [val] = [val]"
| "group_values [start, stop] = progression start 1 stop"
| "group_values [start, inc, stop] = progression start inc stop"
| "group_values _ = []"

fun valid_group :: "int list \<Rightarrow> bool" where
  "valid_group [val] \<longleftrightarrow> 0 \<le> val"
| "valid_group [start, stop] \<longleftrightarrow> 0 \<le> start \<and> 0 \<le> stop"
| "valid_group [start, inc, stop] \<longleftrightarrow> 0 \<le> start \<and> 0 \<le> stop \<and> inc \<noteq> 0 \<and> stop + inc \<le> INT_MAX \<and> - INT_MAX - 1 \<le> inc"
| "valid_group _ \<longleftrightarrow> False"

lemma progression_1: "0 \<le> start \<Longrightarrow> 0 \<le> stop \<Longrightarrow> map nat (progression start 1 stop) = [nat start..<Suc (nat stop)]"
  by (rule nth_equalityI) (auto simp: progression_def nat_diff_distrib nat_add_distrib simp del: upt_Suc)

lemma finish_valid: "valid_group g \<Longrightarrow> finish g = Inr (map nat (group_values g))"
proof (induction g rule: valid_group.induct)
  case (3 start inc stop)
  then show ?case
    by (cases "0 < inc") (auto simp: finish_stepped_def count_up_progression count_down_progression)
qed (auto simp: finish_single_def finish_range_def progression_1 simp del: upt_Suc)

lemma finish_invalid:
  "finish g = Inl e \<Longrightarrow> \<not> valid_group g"
  using finish_valid by fastforce

text \<open>
  C25 (index_sequence_spec): a text whose groups are all valid denotes the values of the groups, in
  order, where \<open>a:b\<close> stands for the numbers from \<open>a\<close> to \<open>b\<close> and \<open>a:i:b\<close> for the arithmetic progression
  from \<open>a\<close> in steps of \<open>i\<close>, upwards or downwards, that does not pass \<open>b\<close>, and is refused when the text
  goes on behind the groups. A negative index, start or end, or an increment of zero throws a string
  literal, whatever follows, and groups of no or more than three integers are refused.
\<close>

theorem index_sequence_spec:
  assumes "\<forall>g \<in> set groups. valid_group g"
  shows "IndexSequence groups complete =
      (if complete then Inr (map nat (concat (map group_values groups))) else Inl invalid_argument) \<and>
    (\<forall>e. finish g = Inl e \<longrightarrow> IndexSequence (groups @ g # rest) complete' = Inl e) \<and>
    (length g = 1 \<and> hd g < 0 \<or> length g \<in> {2, 3} \<and> (hd g < 0 \<or> last g < 0) \<or>
       length g = 3 \<and> g ! 1 = 0 \<longrightarrow> finish g = Inl char_array) \<and>
    (length g \<notin> {1, 2, 3} \<longrightarrow> finish g = Inl invalid_argument)"
proof (intro conjI)
  let ?step = "\<lambda>contents group. bindE (finish group) (\<lambda>vs. Inr (contents @ vs))"
  have f: "foldE ?step c groups = Inr (c @ map nat (concat (map group_values groups)))" for c
    using assms by (induction groups arbitrary: c) (auto simp: finish_valid)
  then show "IndexSequence groups complete =
      (if complete then Inr (map nat (concat (map group_values groups))) else Inl invalid_argument)"
    by (simp add: IndexSequence_def)
  show "(\<forall>e. finish g = Inl e \<longrightarrow> IndexSequence (groups @ g # rest) complete' = Inl e)"
    by (simp add: IndexSequence_def foldE_append f)
  show "length g = 1 \<and> hd g < 0 \<or> length g \<in> {2, 3} \<and> (hd g < 0 \<or> last g < 0) \<or>
       length g = 3 \<and> g ! 1 = 0 \<longrightarrow> finish g = Inl char_array"
    by (cases g rule: finish.cases) (auto simp: finish_single_def finish_range_def finish_stepped_def)
  show "length g \<notin> {1, 2, 3} \<longrightarrow> finish g = Inl invalid_argument"
    by (cases g rule: finish.cases) auto
qed

text \<open>The text \<open>2,7:-2:0,3:5\<close>.\<close>

theorem index_sequence_spec_witness:
  "IndexSequence [[2], [7, - 2, 0], [3, 5]] True = Inr [2, 7, 5, 3, 1, 3, 4, 5]"
proof -
  have "\<forall>g \<in> set [[2], [7, - 2, 0], [3, 5]]. valid_group g" by (simp add: INT_MAX_def)
  from index_sequence_spec [OF this, of True] show ?thesis by (simp add: progression_def upt_rec)
qed

text \<open>
  A range that ends close to the largest integer overflows: \<open>2147483646:2:2147483647\<close>.
\<close>

lemma range_overflow: "IndexSequence [[2147483646, 2, 2147483647]] True = Inl undefined_behaviour"
  by (simp add: IndexSequence_def finish_stepped_def count_up.simps INT_MAX_def)

end
