(* ===== verification/Filter_Routing.thy ===== *)
theory Filter_Routing
  imports Index_Sequence
begin

text \<open>
  Routing lists (\<open>src/librbbl/filter_routing.hpp\<close> and \<open>.cpp\<close>, \<open>sparse_gain_routing.hpp\<close> and
  \<open>.cpp\<close>). Both are a \<open>std::set\<close> ordered by a comparator that looks at a part of the entry, so that
  the set is a map from that part to the entry. The facts about such sets are proved once, in a
  locale on the requirements that the standard has for a comparator.
\<close>

section \<open>Sets ordered by a comparator\<close>

text \<open>
  The set is the list of its elements in order. \<open>find\<close> looks for an element that the comparator
  does not distinguish from the key, \<open>insert\<close> refuses an element when there is such a one.
\<close>

definition equivalent :: "('a \<Rightarrow> 'a \<Rightarrow> bool) \<Rightarrow> 'a \<Rightarrow> 'a \<Rightarrow> bool" where
  "equivalent lt a b \<longleftrightarrow> \<not> lt a b \<and> \<not> lt b a"

definition oset_find :: "('a \<Rightarrow> 'a \<Rightarrow> bool) \<Rightarrow> 'a \<Rightarrow> 'a list \<Rightarrow> 'a option" where
  "oset_find lt k xs = List.find (equivalent lt k) xs"

definition oset_insert :: "('a \<Rightarrow> 'a \<Rightarrow> bool) \<Rightarrow> 'a \<Rightarrow> 'a list \<Rightarrow> 'a list \<times> bool" where
  "oset_insert lt e xs = (if oset_find lt e xs = None then (ms_insert lt e xs, True) else (xs, False))"

locale weak_order =
  fixes lt :: "'a \<Rightarrow> 'a \<Rightarrow> bool"
  assumes irrefl: "\<not> lt a a"
    and trans: "lt a b \<Longrightarrow> lt b c \<Longrightarrow> lt a c"
    and equiv_trans: "equivalent lt a b \<Longrightarrow> equivalent lt b c \<Longrightarrow> equivalent lt a c"
begin

lemma equiv_sym: "equivalent lt a b \<longleftrightarrow> equivalent lt b a"
  by (auto simp: equivalent_def)

lemma equiv_refl: "equivalent lt a a"
  by (simp add: equivalent_def irrefl)

lemma lt_equiv: "lt a b \<Longrightarrow> equivalent lt b c \<Longrightarrow> lt a c"
  using trans equiv_trans by (metis equivalent_def)

lemma find_iff:
  assumes "sorted_wrt lt xs"
  shows "oset_find lt k xs = Some x \<longleftrightarrow> x \<in> set xs \<and> equivalent lt k x"
proof
  assume "x \<in> set xs \<and> equivalent lt k x"
  moreover have "y = x" if "y \<in> set xs" "equivalent lt k y" "x \<in> set xs" "equivalent lt k x" for y
  proof (rule ccontr)
    assume "y \<noteq> x"
    then have "lt x y \<or> lt y x" using assms that(1,3)
      by (induction xs) auto
    moreover have "equivalent lt x y" using that(2,4) equiv_sym equiv_trans by blast
    ultimately show False by (auto simp: equivalent_def)
  qed
  ultimately show "oset_find lt k xs = Some x" unfolding oset_find_def by (blast intro: find_unique)
qed (auto simp: oset_find_def dest: find_SomeD)

lemma find_None: "oset_find lt k xs = None \<longleftrightarrow> (\<forall>x \<in> set xs. \<not> equivalent lt k x)"
  by (auto simp: oset_find_def find_None_iff)

lemma sorted_insert:
  "sorted_wrt lt xs \<Longrightarrow> oset_find lt e xs = None \<Longrightarrow> sorted_wrt lt (ms_insert lt e xs)"
proof (induction xs)
  case (Cons x xs)
  have ne: "\<not> equivalent lt e x" "oset_find lt e xs = None" using Cons.prems(2) by (simp_all add: find_None)
  show ?case
  proof (cases "lt e x")
    case True
    then show ?thesis using Cons.prems(1) trans by auto
  next
    case False
    then have "lt x e" using ne(1) by (auto simp: equivalent_def)
    then show ?thesis using Cons False ne(2) by auto
  qed
qed simp

lemma find_eqI: "\<lbrakk>sorted_wrt lt xs; sorted_wrt lt ys; \<And>x. x \<in> set xs \<and> equivalent lt k x \<longleftrightarrow> x \<in> set ys \<and> equivalent lt k x\<rbrakk>
  \<Longrightarrow> oset_find lt k xs = oset_find lt k ys"
  by (metis find_iff not_None_eq)

lemma find_insert:
  assumes "sorted_wrt lt xs" "oset_find lt e xs = None"
  shows "oset_find lt k (ms_insert lt e xs) = (if equivalent lt k e then Some e else oset_find lt k xs)"
proof (cases "equivalent lt k e")
  case True
  then show ?thesis using find_iff [OF sorted_insert [OF assms]] by simp
next
  case False
  then show ?thesis using find_eqI [OF sorted_insert [OF assms] assms(1)] by auto
qed

lemma sorted_erase: "sorted_wrt lt xs \<Longrightarrow> sorted_wrt lt (remove1 x xs)"
  by (induction xs) (use set_remove1_subset in \<open>fastforce+\<close>)

lemma sorted_distinct: "sorted_wrt lt xs \<Longrightarrow> distinct xs"
  by (induction xs) (auto simp: irrefl)

lemma find_erase:
  assumes "sorted_wrt lt xs" "x \<in> set xs"
  shows "oset_find lt k (remove1 x xs) = (if equivalent lt k x then None else oset_find lt k xs)"
proof -
  have set: "set (remove1 x xs) = set xs - {x}" using sorted_distinct [OF assms(1)] by (rule set_remove1_eq)
  show ?thesis
  proof (cases "equivalent lt k x")
    case True
    have "y = x" if "y \<in> set xs" "equivalent lt k y" for y
    proof -
      have "oset_find lt k xs = Some y" "oset_find lt k xs = Some x"
        using find_iff [OF assms(1)] that assms(2) True by blast+
      then show ?thesis by simp
    qed
    then show ?thesis using True by (auto simp: find_None set)
  next
    case False
    then show ?thesis using find_eqI [OF sorted_erase [OF assms(1)] assms(1)] set by auto
  qed
qed

text \<open>Erasing the element with the key of the new one, when there is one, and inserting it.\<close>

lemma replace:
  fixes e k :: 'a
  assumes "sorted_wrt lt xs"
  defines "ys \<equiv> (case oset_find lt e xs of None \<Rightarrow> xs | Some x \<Rightarrow> remove1 x xs)"
  shows "oset_insert lt e ys = (ms_insert lt e ys, True)" "sorted_wrt lt (ms_insert lt e ys)"
    "oset_find lt k (ms_insert lt e ys) = (if equivalent lt k e then Some e else oset_find lt k xs)"
proof -
  have s: "sorted_wrt lt ys" using assms(1) sorted_erase by (auto simp: ys_def split: option.split)
  have n: "oset_find lt e ys = None" and o: "\<not> equivalent lt k e \<Longrightarrow> oset_find lt k ys = oset_find lt k xs"
  proof -
    have "oset_find lt e ys = None \<and> (\<not> equivalent lt k e \<longrightarrow> oset_find lt k ys = oset_find lt k xs)"
    proof (cases "oset_find lt e xs")
      case (Some x)
      then have x: "x \<in> set xs" "equivalent lt e x" using find_iff [OF assms(1)] by auto
      have "\<not> equivalent lt k x" if "\<not> equivalent lt k e" using that x(2) equiv_sym equiv_trans by blast
      then show ?thesis using find_erase [OF assms(1) x(1)] x(2) Some by (simp add: ys_def)
    qed (simp add: ys_def)
    then show "oset_find lt e ys = None" "\<not> equivalent lt k e \<Longrightarrow> oset_find lt k ys = oset_find lt k xs" by auto
  qed
  show "oset_insert lt e ys = (ms_insert lt e ys, True)" using n by (simp add: oset_insert_def)
  show "sorted_wrt lt (ms_insert lt e ys)" by (rule sorted_insert [OF s n])
  show "oset_find lt k (ms_insert lt e ys) = (if equivalent lt k e then Some e else oset_find lt k xs)"
    using find_insert [OF s n] o by simp
qed

end

section \<open>Filter routings\<close>

record 'g filter_routing =
  inputIndex :: nat
  outputIndex :: nat
  filterIndex :: nat
  gainLinear :: 'g

definition cInvalidIndex :: nat where
  "cInvalidIndex = 2 ^ 32 - 1"

definition FilterRouting :: "'g::zero filter_routing" where
  "FilterRouting = \<lparr>inputIndex = cInvalidIndex, outputIndex = cInvalidIndex, filterIndex = cInvalidIndex, gainLinear = 0\<rparr>"

definition compareEntries :: "'g filter_routing \<Rightarrow> 'g filter_routing \<Rightarrow> bool" where
  "compareEntries lhs rhs =
     (if inputIndex lhs < inputIndex rhs then True
      else if inputIndex rhs < inputIndex lhs then False
      else outputIndex lhs < outputIndex rhs)"

definition insert_routing :: "'g filter_routing list \<Rightarrow> 'g filter_routing \<Rightarrow> exn + 'g filter_routing list" where
  "insert_routing mRoutings e =
     (case oset_insert compareEntries e mRoutings of
        (mRoutings, result) \<Rightarrow> if \<not> result then Inl invalid_argument else Inr mRoutings)"

definition FilterRoutingList :: "'g filter_routing list \<Rightarrow> exn + 'g filter_routing list" where
  "FilterRoutingList entries = foldE insert_routing [] entries"

definition addRouting_entry :: "'g filter_routing \<Rightarrow> 'g filter_routing list \<Rightarrow> exn + 'g filter_routing list" where
  "addRouting_entry newEntry mRoutings =
     (let mRoutings = (case oset_find compareEntries newEntry mRoutings of
                         Some x \<Rightarrow> remove1 x mRoutings | None \<Rightarrow> mRoutings);
          (mRoutings, res) = oset_insert compareEntries newEntry mRoutings
      in if \<not> res then Inl logic_error else Inr mRoutings)"

definition addRouting :: "nat \<Rightarrow> nat \<Rightarrow> nat \<Rightarrow> 'g \<Rightarrow> 'g filter_routing list \<Rightarrow> exn + 'g filter_routing list" where
  "addRouting inputIdx outputIdx filterIdx gain =
     addRouting_entry \<lparr>inputIndex = inputIdx, outputIndex = outputIdx, filterIndex = filterIdx, gainLinear = gain\<rparr>"

definition removeRouting_entry :: "'g filter_routing \<Rightarrow> 'g filter_routing list \<Rightarrow> 'g filter_routing list \<times> bool" where
  "removeRouting_entry entry mRoutings =
     (case oset_find compareEntries entry mRoutings of
        Some x \<Rightarrow> (remove1 x mRoutings, True) | None \<Rightarrow> (mRoutings, False))"

text \<open>The key: an entry with the two indices, an invalid filter index and the gain 1.\<close>

definition routing_key :: "nat \<Rightarrow> nat \<Rightarrow> 'g::one filter_routing" where
  "routing_key inputIdx outputIdx =
     \<lparr>inputIndex = inputIdx, outputIndex = outputIdx, filterIndex = cInvalidIndex, gainLinear = 1\<rparr>"

definition removeRouting :: "nat \<Rightarrow> nat \<Rightarrow> 'g::one filter_routing list \<Rightarrow> 'g filter_routing list \<times> bool" where
  "removeRouting inputIdx outputIdx mRoutings =
     (case oset_find compareEntries (routing_key inputIdx outputIdx) mRoutings of
        Some x \<Rightarrow> (remove1 x mRoutings, True) | None \<Rightarrow> (mRoutings, False))"

definition getEntry :: "nat \<Rightarrow> nat \<Rightarrow> 'g::{zero,one} filter_routing list \<Rightarrow> 'g filter_routing" where
  "getEntry inputIdx outputIdx mRoutings =
     (case oset_find compareEntries (routing_key inputIdx outputIdx) mRoutings of
        None \<Rightarrow> FilterRouting | Some x \<Rightarrow> x)"

section \<open>The map that a list stands for\<close>

lemma equivalent_entries:
  "equivalent compareEntries a b \<longleftrightarrow> inputIndex a = inputIndex b \<and> outputIndex a = outputIndex b"
  by (auto simp: equivalent_def compareEntries_def)

interpretation entry_order: weak_order compareEntries
proof
  fix a b c :: "'g filter_routing"
  show "\<not> compareEntries a a" by (simp add: compareEntries_def)
  show "compareEntries a b \<Longrightarrow> compareEntries b c \<Longrightarrow> compareEntries a c"
    by (auto simp: compareEntries_def split: if_splits)
  show "equivalent compareEntries a b \<Longrightarrow> equivalent compareEntries b c \<Longrightarrow> equivalent compareEntries a c"
    by (simp add: equivalent_entries)
qed

definition routing_list :: "'g filter_routing list \<Rightarrow> bool" where
  "routing_list rs \<longleftrightarrow> sorted_wrt compareEntries rs"

definition routing_map :: "'g::one filter_routing list \<Rightarrow> nat \<times> nat \<rightharpoonup> 'g filter_routing" where
  "routing_map rs = (\<lambda>(i, k). oset_find compareEntries (routing_key i k) rs)"

abbreviation routing_of :: "'g filter_routing \<Rightarrow> nat \<times> nat" where
  "routing_of e \<equiv> (inputIndex e, outputIndex e)"

lemma key_of_entry: "oset_find compareEntries e rs = oset_find compareEntries (routing_key (inputIndex e) (outputIndex e)) rs"
proof -
  have "equivalent compareEntries e = equivalent compareEntries (routing_key (inputIndex e) (outputIndex e))"
    by (rule ext) (simp add: equivalent_entries routing_key_def)
  then show ?thesis by (simp add: oset_find_def)
qed

lemma routing_map_iff:
  "routing_list rs \<Longrightarrow> routing_map rs (i, k) = Some x \<longleftrightarrow> x \<in> set rs \<and> routing_of x = (i, k)"
  unfolding routing_map_def routing_list_def
  by (auto simp: entry_order.find_iff equivalent_entries routing_key_def)

lemma addRouting_entry_spec:
  assumes "routing_list rs"
  shows "\<exists>rs'. addRouting_entry e rs = Inr rs' \<and> routing_list rs' \<and> routing_map rs' = (routing_map rs)(routing_of e \<mapsto> e)"
proof -
  let ?r = "case oset_find compareEntries e rs of None \<Rightarrow> rs | Some x \<Rightarrow> remove1 x rs"
  note r = entry_order.replace [OF assms [unfolded routing_list_def], where e = e]
  have "routing_map (ms_insert compareEntries e ?r) = (routing_map rs)(routing_of e \<mapsto> e)"
    by (rule ext) (auto simp: routing_map_def r(3) equivalent_entries routing_key_def split: if_splits)
  moreover have "addRouting_entry e rs = Inr (ms_insert compareEntries e ?r)"
    using r(1) by (simp add: addRouting_entry_def Let_def split: option.splits)
  ultimately show ?thesis using r(2) by (simp add: routing_list_def)
qed

lemma remove_found:
  assumes "routing_list rs" "routing_map rs ik = Some x"
  shows "routing_list (remove1 x rs)" "routing_map (remove1 x rs) = (routing_map rs)(ik := None)"
proof -
  obtain i k where ik: "ik = (i, k)" by (metis surj_pair)
  have x: "x \<in> set rs" "routing_of x = ik" using assms routing_map_iff ik by auto
  show "routing_list (remove1 x rs)" using assms(1) entry_order.sorted_erase by (simp add: routing_list_def)
  show "routing_map (remove1 x rs) = (routing_map rs)(ik := None)"
    using entry_order.find_erase [OF assms(1) [unfolded routing_list_def] x(1)] x(2)
    by (auto simp: routing_map_def equivalent_entries routing_key_def fun_eq_iff)
qed

lemma removeRouting_spec:
  assumes "routing_list rs" "removeRouting i k rs = (rs', removed)"
  shows "routing_list rs'" "routing_map rs' = (routing_map rs)((i, k) := None)"
    "removed \<longleftrightarrow> (i, k) \<in> dom (routing_map rs)"
proof -
  have m: "oset_find compareEntries (routing_key i k) rs = routing_map rs (i, k)" by (simp add: routing_map_def)
  have "routing_list rs' \<and> routing_map rs' = (routing_map rs)((i, k) := None) \<and> (removed \<longleftrightarrow> (i, k) \<in> dom (routing_map rs))"
  proof (cases "routing_map rs (i, k)")
    case None
    then show ?thesis using assms by (auto simp: removeRouting_def m)
  next
    case (Some x)
    then show ?thesis using assms remove_found [OF assms(1) Some] by (auto simp: removeRouting_def m)
  qed
  then show "routing_list rs'" "routing_map rs' = (routing_map rs)((i, k) := None)"
    "removed \<longleftrightarrow> (i, k) \<in> dom (routing_map rs)" by blast+
qed

lemma removeRouting_entry_eq: "removeRouting_entry e rs = removeRouting (inputIndex e) (outputIndex e) rs"
  unfolding removeRouting_entry_def removeRouting_def using key_of_entry [of e rs] by simp

lemma insert_routing_eq:
  "insert_routing rs e
    = (if routing_of e \<in> routing_of ` set rs then Inl invalid_argument else Inr (ms_insert compareEntries e rs))"
proof -
  have "oset_find compareEntries e rs = None \<longleftrightarrow> routing_of e \<notin> routing_of ` set rs"
    by (auto simp: entry_order.find_None equivalent_entries)
  then show ?thesis by (auto simp: insert_routing_def oset_insert_def)
qed

lemma FilterRoutingList_loop:
  assumes "routing_list rs"
  shows "if distinct (map routing_of es) \<and> routing_of ` set es \<inter> routing_of ` set rs = {}
    then \<exists>rs'. foldE insert_routing rs es = Inr rs' \<and> routing_list rs' \<and> set rs' = set es \<union> set rs
    else foldE insert_routing rs es = Inl invalid_argument"
  using assms
proof (induction es arbitrary: rs)
  case (Cons e es)
  show ?case
  proof (cases "routing_of e \<in> routing_of ` set rs")
    case True
    then show ?thesis by (simp add: insert_routing_eq)
  next
    case False
    let ?rs = "ms_insert compareEntries e rs"
    have "oset_find compareEntries e rs = None"
      using False by (auto simp: entry_order.find_None equivalent_entries)
    then have "routing_list ?rs" using entry_order.sorted_insert Cons.prems by (simp add: routing_list_def)
    note ih = Cons.IH [OF this]
    have "distinct (map routing_of (e # es)) \<and> routing_of ` set (e # es) \<inter> routing_of ` set rs = {}
      \<longleftrightarrow> distinct (map routing_of es) \<and> routing_of ` set es \<inter> routing_of ` set ?rs = {}"
      using False by auto
    moreover have "foldE insert_routing rs (e # es) = foldE insert_routing ?rs es"
      using False by (simp add: insert_routing_eq)
    moreover have "set (e # es) \<union> set rs = set es \<union> set ?rs" by auto
    ultimately show ?thesis using ih by (simp only:)
  qed
qed simp

text \<open>
  C21 (filter_routing_spec): a filter routing list is a map from pairs of an input and an output to
  entries, kept in the order of inputs and outputs. Adding an entry overwrites, removing one
  reports whether there was one, a look-up of a missing entry gives the entry with invalid
  indices, and the constructor refuses duplicated pairs and otherwise keeps all entries.
\<close>

theorem filter_routing_spec:
  fixes rs es :: "'g::{zero,one} filter_routing list"
  assumes "routing_list rs"
  shows "(\<exists>rs'. addRouting i k f g rs = Inr rs' \<and> routing_list rs' \<and>
      routing_map rs' = (routing_map rs)((i, k) \<mapsto> \<lparr>inputIndex = i, outputIndex = k, filterIndex = f, gainLinear = g\<rparr>)) \<and>
    (case removeRouting i k rs of (rs', removed) \<Rightarrow>
       routing_list rs' \<and> routing_map rs' = (routing_map rs)((i, k) := None) \<and>
       (removed \<longleftrightarrow> (i, k) \<in> dom (routing_map rs))) \<and>
    getEntry i k rs = (case routing_map rs (i, k) of Some e \<Rightarrow> e | None \<Rightarrow> FilterRouting) \<and>
    (if distinct (map routing_of es)
     then \<exists>rs'. FilterRoutingList es = Inr rs' \<and> routing_list rs' \<and> set rs' = set es
     else FilterRoutingList es = Inl invalid_argument)"
proof (intro conjI)
  show "\<exists>rs'. addRouting i k f g rs = Inr rs' \<and> routing_list rs' \<and>
      routing_map rs' = (routing_map rs)((i, k) \<mapsto> \<lparr>inputIndex = i, outputIndex = k, filterIndex = f, gainLinear = g\<rparr>)"
    using addRouting_entry_spec [OF assms] unfolding addRouting_def by fastforce
  show "case removeRouting i k rs of (rs', removed) \<Rightarrow>
       routing_list rs' \<and> routing_map rs' = (routing_map rs)((i, k) := None) \<and>
       (removed \<longleftrightarrow> (i, k) \<in> dom (routing_map rs))"
    using removeRouting_spec [OF assms] by (cases "removeRouting i k rs") auto
  show "getEntry i k rs = (case routing_map rs (i, k) of Some e \<Rightarrow> e | None \<Rightarrow> FilterRouting)"
    by (simp add: getEntry_def routing_map_def)
  show "if distinct (map routing_of es)
     then \<exists>rs'. FilterRoutingList es = Inr rs' \<and> routing_list rs' \<and> set rs' = set es
     else FilterRoutingList es = Inl invalid_argument"
  proof -
    have "routing_list ([] :: 'g filter_routing list)" by (simp add: routing_list_def)
    from FilterRoutingList_loop [OF this, of es] show ?thesis
      unfolding FilterRoutingList_def by (cases "distinct (map routing_of es)") simp_all
  qed
qed

definition ex_routings :: "int filter_routing list" where
  "ex_routings = [\<lparr>inputIndex = 0, outputIndex = 1, filterIndex = 4, gainLinear = 2\<rparr>,
                  \<lparr>inputIndex = 3, outputIndex = 0, filterIndex = 5, gainLinear = 1\<rparr>]"

theorem filter_routing_spec_witness:
  "fst (removeRouting 0 1 ex_routings) = [\<lparr>inputIndex = 3, outputIndex = 0, filterIndex = 5, gainLinear = 1\<rparr>] \<and>
   routing_map (fst (removeRouting 0 1 ex_routings)) (0, 1) = None"
proof -
  have "routing_list ex_routings" by (simp add: routing_list_def ex_routings_def compareEntries_def)
  from filter_routing_spec [OF this, of 0 1 0 0 "[]"]
  have "routing_map (fst (removeRouting 0 1 ex_routings)) (0, 1) = None" by (auto simp: split_beta)
  moreover have "fst (removeRouting 0 1 ex_routings) = [\<lparr>inputIndex = 3, outputIndex = 0, filterIndex = 5, gainLinear = 1\<rparr>]"
    by (simp add: removeRouting_def ex_routings_def oset_find_def equivalent_entries routing_key_def)
  ultimately show ?thesis by blast
qed

section \<open>Routings given as JSON\<close>

text \<open>
  Boost parses the document into nodes; a document that it cannot parse is \<open>None\<close>. Of a node, the
  texts of the index sequences are given by what Spirit recognises in them, \<open>None\<close> when the child
  is missing (\<open>ptree_bad_path\<close>, a \<open>runtime_error\<close>). The gains are those of the constructor
  of \<open>FloatSequence\<close>, for which Spirit reads the numbers; the default text is \<open>1.0\<close>.
\<close>

type_synonym sequence_text = "int list list \<times> bool"

record 'g routing_node =
  nodeInput :: "sequence_text option"
  nodeOutput :: "sequence_text option"
  nodeFilter :: "sequence_text option"
  nodeGain :: "(exn + 'g list) option"

definition child :: "'a option \<Rightarrow> exn + 'a" where
  "child c = (case c of None \<Rightarrow> Inl runtime_error | Some t \<Rightarrow> Inr t)"

type_synonym 'g sequences = "nat list \<times> nat list \<times> nat list \<times> 'g list"

definition node_sequences :: "'g::one routing_node \<Rightarrow> exn + 'g sequences" where
  "node_sequences n =
     bindE (child (nodeInput n)) (\<lambda>inIdxStr.
     bindE (child (nodeOutput n)) (\<lambda>outIdxStr.
     bindE (child (nodeFilter n)) (\<lambda>filterIdxStr.
     bindE (IndexSequence (fst inIdxStr) (snd inIdxStr)) (\<lambda>inIndices.
     bindE (IndexSequence (fst outIdxStr) (snd outIdxStr)) (\<lambda>outIndices.
     bindE (IndexSequence (fst filterIdxStr) (snd filterIdxStr)) (\<lambda>filterIndices.
     bindE (case nodeGain n of None \<Rightarrow> Inr [1] | Some g \<Rightarrow> g) (\<lambda>gainVector.
     Inr (inIndices, outIndices, filterIndices, gainVector))))))))"

text \<open>\<open>operator[]\<close> does not check the index.\<close>

definition sequence_element :: "'a list \<Rightarrow> nat \<Rightarrow> exn + 'a" where
  "sequence_element xs i = (if i < length xs then Inr (xs ! i) else Inl undefined_behaviour)"

definition scalar_or_element :: "'a list \<Rightarrow> nat \<Rightarrow> exn + 'a" where
  "scalar_or_element xs i = (if length xs = 1 then sequence_element xs 0 else sequence_element xs i)"

definition numberOfEntries :: "'g sequences \<Rightarrow> exn + nat" where
  "numberOfEntries = (\<lambda>(inIndices, outIndices, filterIndices, gainVector).
     let numEntries = length inIndices
     in bindE (if length outIndices \<noteq> numEntries
               then if numEntries = 1 then Inr (length outIndices)
                    else if length outIndices \<noteq> 1 then Inl invalid_argument
                    else Inr numEntries
               else Inr numEntries) (\<lambda>numEntries.
        if length filterIndices \<noteq> numEntries \<and> numEntries = 1 \<and> length filterIndices \<noteq> 1
        then Inl invalid_argument
        else if length gainVector \<noteq> 1 \<and> length gainVector \<noteq> numEntries then Inl invalid_argument
        else Inr numEntries))"

definition add_entry ::
  "'g sequences \<Rightarrow> 'g filter_routing list \<Rightarrow> nat \<Rightarrow> exn + 'g filter_routing list" where
  "add_entry = (\<lambda>(inIndices, outIndices, filterIndices, gainVector) newList entryIdx.
     bindE (scalar_or_element inIndices entryIdx) (\<lambda>inIdx.
     bindE (scalar_or_element outIndices entryIdx) (\<lambda>outIdx.
     bindE (scalar_or_element filterIndices entryIdx) (\<lambda>filterIdx.
     bindE (scalar_or_element gainVector entryIdx) (\<lambda>gain.
     addRouting inIdx outIdx filterIdx gain newList)))))"

definition add_node :: "'g::one filter_routing list \<Rightarrow> 'g routing_node \<Rightarrow> exn + 'g filter_routing list" where
  "add_node newList n =
     bindE (node_sequences n) (\<lambda>s.
     bindE (numberOfEntries s) (\<lambda>numEntries. foldE (add_entry s) newList [0..<numEntries]))"

definition fromJson :: "'g::one routing_node list option \<Rightarrow> exn + 'g filter_routing list" where
  "fromJson doc = (case doc of None \<Rightarrow> Inl invalid_argument | Some nodes \<Rightarrow> foldE add_node [] nodes)"

definition routing_swap ::
  "'g filter_routing list \<Rightarrow> 'g filter_routing list \<Rightarrow> 'g filter_routing list \<times> 'g filter_routing list" where
  "routing_swap mRoutings rhs = (rhs, mRoutings)"

text \<open>\<open>parseJson\<close>: the list afterwards, and the exception that leaves it.\<close>

definition parseJson ::
  "'g::one routing_node list option \<Rightarrow> 'g filter_routing list \<Rightarrow> 'g filter_routing list \<times> exn option" where
  "parseJson doc mRoutings =
     (case fromJson doc of
        Inl e \<Rightarrow> (mRoutings, Some e) | Inr newList \<Rightarrow> (fst (routing_swap mRoutings newList), None))"

text \<open>
  What a node means: entry \<open>i\<close> has the \<open>i\<close>-th element of every sequence, a sequence of one element
  standing for its repetition.
\<close>

definition broadcast :: "'a list \<Rightarrow> nat \<Rightarrow> 'a" where
  "broadcast xs i = (if length xs = 1 then xs ! 0 else xs ! i)"

fun node_size :: "'g sequences \<Rightarrow> nat" where
  "node_size (ins, outs, fs, gs) = (if length ins = 1 then length outs else length ins)"

text \<open>
  The nodes that are refused, those whose filter sequence ends too early, and the others. A sequence of filters
  that is longer than the node is none of the first two.
\<close>

fun refused :: "'g sequences \<Rightarrow> bool" where
  "refused (ins, outs, fs, gs) \<longleftrightarrow>
     length ins \<noteq> length outs \<and> length ins \<noteq> 1 \<and> length outs \<noteq> 1 \<or>
     length gs \<noteq> 1 \<and> length gs \<noteq> node_size (ins, outs, fs, gs) \<or>
     node_size (ins, outs, fs, gs) = 1 \<and> length fs \<noteq> 1"

fun too_few_filters :: "'g sequences \<Rightarrow> bool" where
  "too_few_filters (ins, outs, fs, gs) \<longleftrightarrow> length fs \<noteq> 1 \<and> length fs < node_size (ins, outs, fs, gs)"

definition usable :: "'g sequences \<Rightarrow> bool" where
  "usable s \<longleftrightarrow> \<not> refused s \<and> \<not> too_few_filters s"

fun node_entries :: "'g sequences \<Rightarrow> 'g filter_routing list" where
  "node_entries (ins, outs, fs, gs) =
     map (\<lambda>i. \<lparr>inputIndex = broadcast ins i, outputIndex = broadcast outs i, filterIndex = broadcast fs i,
               gainLinear = broadcast gs i\<rparr>) [0..<node_size (ins, outs, fs, gs)]"

lemma scalar_or_element_eq:
  "scalar_or_element xs i = (if length xs = 1 \<or> i < length xs then Inr (broadcast xs i) else Inl undefined_behaviour)"
  by (auto simp: scalar_or_element_def sequence_element_def broadcast_def)

lemma numberOfEntries_eq: "numberOfEntries s = (if refused s then Inl invalid_argument else Inr (node_size s))"
  by (cases s) (auto simp: numberOfEntries_def Let_def split: if_splits)

definition overwrite ::
  "'g filter_routing list \<Rightarrow> (nat \<times> nat \<rightharpoonup> 'g filter_routing) \<Rightarrow> nat \<times> nat \<rightharpoonup> 'g filter_routing" where
  "overwrite es m = fold (\<lambda>e m. m(routing_of e \<mapsto> e)) es m"

lemma overwrite_simps:
  "overwrite [] m = m"
  "overwrite (e # es) m = overwrite es (m(routing_of e \<mapsto> e))"
  "overwrite (es @ es') m = overwrite es' (overwrite es m)"
  by (simp_all add: overwrite_def)

lemma add_entries:
  assumes "\<And>i xs. i < n \<Longrightarrow> routing_list xs \<Longrightarrow> \<exists>xs'. f xs i = Inr xs' \<and> routing_list xs' \<and>
      routing_map xs' = (routing_map xs)(routing_of (E i) \<mapsto> E i)"
    and "routing_list rs" and "k \<le> n"
  shows "\<exists>rs'. foldE f rs [0..<k] = Inr rs' \<and> routing_list rs' \<and>
    routing_map rs' = overwrite (map E [0..<k]) (routing_map rs)"
  using assms(3)
proof (induction k)
  case 0
  then show ?case using assms(2) by (simp add: overwrite_simps)
next
  case (Suc k)
  then obtain rs' where "foldE f rs [0..<k] = Inr rs'" "routing_list rs'"
    "routing_map rs' = overwrite (map E [0..<k]) (routing_map rs)" by auto
  then show ?case using assms(1) [of k rs'] Suc.prems by (auto simp: foldE_append overwrite_simps)
qed

lemma add_entry_eq:
  assumes "\<not> refused (ins, outs, fs, gs)" and "i < node_size (ins, outs, fs, gs)"
  shows "add_entry (ins, outs, fs, gs) xs i = (if length fs = 1 \<or> i < length fs
    then addRouting (broadcast ins i) (broadcast outs i) (broadcast fs i) (broadcast gs i) xs else Inl undefined_behaviour)"
proof -
  have "length ins = 1 \<or> i < length ins" "length outs = 1 \<or> i < length outs" "length gs = 1 \<or> i < length gs"
    using assms by (auto split: if_splits)
  then show ?thesis by (simp add: add_entry_def scalar_or_element_eq)
qed

lemma add_entry_prefix:
  fixes ins outs fs gs
  defines "E \<equiv> \<lambda>i. \<lparr>inputIndex = broadcast ins i, outputIndex = broadcast outs i, filterIndex = broadcast fs i,
               gainLinear = broadcast gs i\<rparr>"
  assumes "\<not> refused (ins, outs, fs, gs)" and "k \<le> node_size (ins, outs, fs, gs)" and "length fs = 1 \<or> k \<le> length fs"
    and "routing_list rs"
  shows "\<exists>rs'. foldE (add_entry (ins, outs, fs, gs)) rs [0..<k] = Inr rs' \<and> routing_list rs' \<and>
    routing_map rs' = overwrite (map E [0..<k]) (routing_map rs)"
proof (rule add_entries [OF _ assms(5) order_refl])
  fix i xs assume i: "i < k" and xs: "routing_list (xs :: 'a filter_routing list)"
  have "i < node_size (ins, outs, fs, gs)" "length fs = 1 \<or> i < length fs" using i assms(3,4) by auto
  then have "add_entry (ins, outs, fs, gs) xs i = addRouting (broadcast ins i) (broadcast outs i) (broadcast fs i) (broadcast gs i) xs"
    by (simp only: add_entry_eq [OF assms(2)] if_True)
  then show "\<exists>xs'. add_entry (ins, outs, fs, gs) xs i = Inr xs' \<and> routing_list xs' \<and>
      routing_map xs' = (routing_map xs)(routing_of (E i) \<mapsto> E i)"
    using addRouting_entry_spec [OF xs, of "E i"] by (simp add: E_def addRouting_def)
qed

lemma add_node_spec:
  assumes "node_sequences n = Inr s" and "routing_list rs"
  shows "usable s \<Longrightarrow> \<exists>rs'. add_node rs n = Inr rs' \<and> routing_list rs' \<and>
      routing_map rs' = overwrite (node_entries s) (routing_map rs)"
    and "refused s \<Longrightarrow> add_node rs n = Inl invalid_argument"
    and "\<not> refused s \<Longrightarrow> too_few_filters s \<Longrightarrow> add_node rs n = Inl undefined_behaviour"
proof -
  obtain ins outs fs gs where s: "s = (ins, outs, fs, gs)" by (metis prod_cases4)
  let ?n = "node_size s"
  have add: "add_node rs n = foldE (add_entry s) rs [0..<?n]" if "\<not> refused s"
    using that by (simp add: add_node_def assms(1) numberOfEntries_eq)
  show "\<exists>rs'. add_node rs n = Inr rs' \<and> routing_list rs' \<and> routing_map rs' = overwrite (node_entries s) (routing_map rs)"
    if "usable s"
  proof -
    have u: "\<not> refused s" "length fs = 1 \<or> ?n \<le> length fs" using that by (auto simp: usable_def s)
    show ?thesis using add_entry_prefix [OF u(1) [unfolded s] order_refl u(2) [unfolded s] assms(2)]
      unfolding add [OF u(1)] s by simp
  qed
  show "add_node rs n = Inl invalid_argument" if "refused s" using that by (simp add: add_node_def assms(1) numberOfEntries_eq)
  show "add_node rs n = Inl undefined_behaviour" if r: "\<not> refused s" and f: "too_few_filters s"
  proof -
    have k: "length fs \<noteq> 1" "length fs < ?n" using f by (auto simp: s)
    then have split: "[0..<?n] = [0..<length fs] @ length fs # [Suc (length fs)..<?n]"
      by (metis le_add_diff_inverse less_imp_le upt_add_eq_append upt_conv_Cons zero_le)
    obtain rs' where rs': "foldE (add_entry s) rs [0..<length fs] = Inr rs'"
      using add_entry_prefix [OF r [unfolded s] _ _ assms(2), of "length fs"] k unfolding s by auto
    have "add_entry s rs' (length fs) = Inl undefined_behaviour"
      using add_entry_eq [OF r [unfolded s] k(2) [unfolded s], of rs'] k(1) unfolding s by simp
    then show ?thesis unfolding add [OF r] split by (simp add: foldE_append rs')
  qed
qed

lemma add_nodes:
  assumes "map node_sequences nodes = map Inr seqs" "\<forall>s \<in> set seqs. usable s" "routing_list rs"
  shows "\<exists>rs'. foldE add_node rs nodes = Inr rs' \<and> routing_list rs' \<and>
    routing_map rs' = overwrite (concat (map node_entries seqs)) (routing_map rs)"
  using assms
proof (induction nodes arbitrary: seqs rs)
  case (Cons n nodes)
  then obtain s ss where ss: "seqs = s # ss" "node_sequences n = Inr s" "map node_sequences nodes = map Inr ss" by auto
  have "usable s" using Cons.prems(2) ss(1) by simp
  from add_node_spec(1) [OF ss(2) Cons.prems(3) this] obtain rs' where rs': "add_node rs n = Inr rs'" "routing_list rs'"
    "routing_map rs' = overwrite (node_entries s) (routing_map rs)" by blast
  then show ?case using Cons.IH [OF ss(3) _ rs'(2)] Cons.prems(2) ss(1) by (simp add: overwrite_simps)
qed (simp add: overwrite_simps)

text \<open>
  C23 (routing_json_spec): a document in which every node is usable (its inputs, outputs and gains agree in
  number, up to repetition of single values, and there is a filter for every entry) becomes the map of its
  entries in the order of the nodes, later entries replacing earlier ones of the same pair of input and output.
  After such nodes, a node whose sequences cannot be read makes the document fail with the same exception, and
  one whose inputs, outputs and gains do not agree in number, or that has one entry and not one filter, makes it
  be refused; but the number of filters of a node with several entries is not checked: surplus filters are
  ignored, and a sequence of filters that is too short is read behind its end. Parsing into an existing list
  replaces it as a whole, and leaves it as it was when the document is refused.
\<close>

theorem routing_json_spec:
  fixes nodes :: "'g::one routing_node list"
  assumes "map node_sequences nodes = map Inr seqs" and "\<forall>s \<in> set seqs. usable s"
  shows "(\<exists>rs. fromJson (Some nodes) = Inr rs \<and> parseJson (Some nodes) old = (rs, None) \<and> routing_list rs \<and>
      routing_map rs = overwrite (concat (map node_entries seqs)) Map.empty) \<and>
    (\<forall>doc e. fromJson doc = Inl e \<longrightarrow> parseJson doc old = (old, Some e)) \<and>
    (case node_sequences n of
       Inl e \<Rightarrow> fromJson (Some (nodes @ n # rest)) = Inl e
     | Inr s \<Rightarrow> if refused s then fromJson (Some (nodes @ n # rest)) = Inl invalid_argument
                else too_few_filters s \<longrightarrow> fromJson (Some (nodes @ n # rest)) = Inl undefined_behaviour)"
proof (intro conjI)
  have e: "routing_list ([] :: 'g filter_routing list)" "routing_map ([] :: 'g filter_routing list) = Map.empty"
    by (auto simp: routing_list_def routing_map_def oset_find_def fun_eq_iff)
  obtain rs where rs: "foldE add_node [] nodes = Inr rs" "routing_list rs"
    "routing_map rs = overwrite (concat (map node_entries seqs)) Map.empty"
    using add_nodes [OF assms e(1)] unfolding e(2) by blast
  then show "\<exists>rs. fromJson (Some nodes) = Inr rs \<and> parseJson (Some nodes) old = (rs, None) \<and> routing_list rs \<and>
      routing_map rs = overwrite (concat (map node_entries seqs)) Map.empty"
    by (simp add: fromJson_def parseJson_def routing_swap_def)
  show "\<forall>doc e. fromJson doc = Inl e \<longrightarrow> parseJson doc old = (old, Some e)" by (simp add: parseJson_def)
  have fail: "fromJson (Some (nodes @ n # rest)) = Inl e" if "add_node rs n = Inl e" for e
    using rs(1) that by (simp add: fromJson_def foldE_append)
  show "case node_sequences n of
       Inl e \<Rightarrow> fromJson (Some (nodes @ n # rest)) = Inl e
     | Inr s \<Rightarrow> if refused s then fromJson (Some (nodes @ n # rest)) = Inl invalid_argument
                else too_few_filters s \<longrightarrow> fromJson (Some (nodes @ n # rest)) = Inl undefined_behaviour"
  proof (cases "node_sequences n")
    case (Inl e)
    then show ?thesis using fail [of e] by (simp add: add_node_def)
  next
    case (Inr s)
    then show ?thesis using fail add_node_spec(2,3) [OF Inr rs(2)] by simp
  qed
qed

text \<open>The inputs 0 and 1, each to the output with its own number, through the filter 7.\<close>

definition ex_node :: "int routing_node" where
  "ex_node = \<lparr>nodeInput = Some ([[0, 1]], True), nodeOutput = Some ([[0], [1]], True),
              nodeFilter = Some ([[7]], True), nodeGain = None\<rparr>"

theorem routing_json_spec_witness:
  "\<exists>rs. fromJson (Some [ex_node]) = Inr rs \<and>
     routing_map rs (1, 1) = Some \<lparr>inputIndex = 1, outputIndex = 1, filterIndex = 7, gainLinear = 1\<rparr>"
proof -
  have s: "map node_sequences [ex_node] = map Inr [([0, 1], [0, 1], [7], [1])]"
    by (simp add: node_sequences_def ex_node_def child_def IndexSequence_def finish_single_def finish_range_def upt_rec)
  have "\<forall>s \<in> set [([0, 1], [0, 1], [7], [1 :: int])]. usable s" by (simp add: usable_def)
  note t = routing_json_spec [OF s this, where old = "[]", THEN conjunct1]
  have e: "concat (map node_entries [([0, 1], [0, 1], [7], [1 :: int])])
    = [\<lparr>inputIndex = 0, outputIndex = 0, filterIndex = 7, gainLinear = 1\<rparr>,
       \<lparr>inputIndex = 1, outputIndex = 1, filterIndex = 7, gainLinear = 1\<rparr>]"
    by (simp add: upt_rec broadcast_def)
  show ?thesis using t unfolding e overwrite_simps by auto
qed

text \<open>
  The filter sequence is not compared with several entries: two inputs and outputs with three
  filters are accepted and the third filter is ignored; three inputs and outputs with two filters
  read behind the end of the sequence.
\<close>

lemma filter_sequence_unchecked:
  "numberOfEntries ([0, 1], [0, 1], [5, 6, 7], [1]) = Inr 2"
  "numberOfEntries ([0, 1, 2], [0, 1, 2], [5, 6], [1]) = Inr 3 \<and>
   add_entry ([0, 1, 2], [0, 1, 2], [5, 6], [1]) rs 2 = Inl undefined_behaviour"
  by (simp_all add: numberOfEntries_def add_entry_def scalar_or_element_def sequence_element_def)

section \<open>Sparse gain routings\<close>

text \<open>The entries of a sparse gain matrix, identified by their own index.\<close>

record 'g sparse_gain_routing =
  entryIndex :: nat
  rowIndex :: nat
  columnIndex :: nat
  gain :: 'g

definition SparseGainRouting :: "'g::zero sparse_gain_routing" where
  "SparseGainRouting = \<lparr>entryIndex = cInvalidIndex, rowIndex = cInvalidIndex, columnIndex = cInvalidIndex, gain = 0\<rparr>"

definition compareSparse :: "'g sparse_gain_routing \<Rightarrow> 'g sparse_gain_routing \<Rightarrow> bool" where
  "compareSparse lhs rhs \<longleftrightarrow> entryIndex lhs < entryIndex rhs"

definition insert_sparse :: "'g sparse_gain_routing list \<Rightarrow> 'g sparse_gain_routing \<Rightarrow> exn + 'g sparse_gain_routing list" where
  "insert_sparse mRoutings e =
     (case oset_insert compareSparse e mRoutings of
        (mRoutings, result) \<Rightarrow> if \<not> result then Inl invalid_argument else Inr mRoutings)"

definition SparseGainRoutingList :: "'g sparse_gain_routing list \<Rightarrow> exn + 'g sparse_gain_routing list" where
  "SparseGainRoutingList entries = foldE insert_sparse [] entries"

definition sparse_addRouting_entry ::
  "'g sparse_gain_routing \<Rightarrow> 'g sparse_gain_routing list \<Rightarrow> exn + 'g sparse_gain_routing list" where
  "sparse_addRouting_entry newEntry mRoutings =
     (let mRoutings = (case oset_find compareSparse newEntry mRoutings of
                         Some x \<Rightarrow> remove1 x mRoutings | None \<Rightarrow> mRoutings);
          (mRoutings, res) = oset_insert compareSparse newEntry mRoutings
      in if \<not> res then Inl logic_error else Inr mRoutings)"

definition sparse_addRouting ::
  "nat \<Rightarrow> nat \<Rightarrow> nat \<Rightarrow> 'g \<Rightarrow> 'g sparse_gain_routing list \<Rightarrow> exn + 'g sparse_gain_routing list" where
  "sparse_addRouting entryIdx rowIdx columnIdx g =
     sparse_addRouting_entry \<lparr>entryIndex = entryIdx, rowIndex = rowIdx, columnIndex = columnIdx, gain = g\<rparr>"

definition sparse_removeRouting_entry ::
  "'g sparse_gain_routing \<Rightarrow> 'g sparse_gain_routing list \<Rightarrow> 'g sparse_gain_routing list \<times> bool" where
  "sparse_removeRouting_entry entry mRoutings =
     (case oset_find compareSparse entry mRoutings of
        Some x \<Rightarrow> (remove1 x mRoutings, True) | None \<Rightarrow> (mRoutings, False))"

text \<open>The overload with two indices, which come to lie in the entry index and the row index of the key.\<close>

definition sparse_removeRouting ::
  "nat \<Rightarrow> nat \<Rightarrow> 'g::one sparse_gain_routing list \<Rightarrow> 'g sparse_gain_routing list \<times> bool" where
  "sparse_removeRouting inputIdx outputIdx mRoutings =
     (case oset_find compareSparse
             \<lparr>entryIndex = inputIdx, rowIndex = outputIdx, columnIndex = cInvalidIndex, gain = 1\<rparr> mRoutings of
        Some x \<Rightarrow> (remove1 x mRoutings, True) | None \<Rightarrow> (mRoutings, False))"

definition sparse_getEntry :: "nat \<Rightarrow> 'g::{zero,one} sparse_gain_routing list \<Rightarrow> 'g sparse_gain_routing" where
  "sparse_getEntry entryIdx mRoutings =
     (case oset_find compareSparse
             \<lparr>entryIndex = entryIdx, rowIndex = cInvalidIndex, columnIndex = cInvalidIndex, gain = 1\<rparr> mRoutings of
        None \<Rightarrow> SparseGainRouting | Some x \<Rightarrow> x)"

text \<open>The number of entries of a JSON node, whose sequences are the indices, the rows, the columns and the gains.\<close>

definition sparse_numberOfEntries :: "'g sequences \<Rightarrow> exn + nat" where
  "sparse_numberOfEntries = (\<lambda>(entryIndices, rowIndices, columnIndices, gainVector).
     let numEntries = length entryIndices
     in bindE (if length rowIndices \<noteq> numEntries
               then if numEntries = 1 then Inr (length entryIndices)
                    else if length rowIndices \<noteq> 1 then Inl invalid_argument
                    else Inr numEntries
               else Inr numEntries) (\<lambda>numEntries.
        if length columnIndices \<noteq> numEntries \<and> numEntries = 1 \<and> length columnIndices \<noteq> 1
        then Inl invalid_argument
        else if length gainVector \<noteq> 1 \<and> length gainVector \<noteq> numEntries then Inl invalid_argument
        else Inr numEntries))"

definition sparse_add_entry ::
  "'g sequences \<Rightarrow> 'g sparse_gain_routing list \<Rightarrow> nat \<Rightarrow> exn + 'g sparse_gain_routing list" where
  "sparse_add_entry = (\<lambda>(entryIndices, rowIndices, columnIndices, gainVector) newList entryIdx.
     bindE (sequence_element entryIndices entryIdx) (\<lambda>entryId.
     bindE (scalar_or_element rowIndices entryIdx) (\<lambda>rowIdx.
     bindE (scalar_or_element columnIndices entryIdx) (\<lambda>columnIdx.
     bindE (scalar_or_element gainVector entryIdx) (\<lambda>g.
     sparse_addRouting entryId rowIdx columnIdx g newList)))))"

text \<open>The children \<open>index\<close>, \<open>row\<close> and \<open>column\<close> of a node take the places of a filter node's; \<open>gain\<close> has no default.\<close>

definition sparse_node_sequences :: "'g routing_node \<Rightarrow> exn + 'g sequences" where
  "sparse_node_sequences n =
     bindE (child (nodeInput n)) (\<lambda>entryIdxStr.
     bindE (child (nodeOutput n)) (\<lambda>rowIdxStr.
     bindE (child (nodeFilter n)) (\<lambda>columnIdxStr.
     bindE (child (nodeGain n)) (\<lambda>gainStr.
     bindE (IndexSequence (fst entryIdxStr) (snd entryIdxStr)) (\<lambda>entryIndices.
     bindE (IndexSequence (fst rowIdxStr) (snd rowIdxStr)) (\<lambda>rowIndices.
     bindE (IndexSequence (fst columnIdxStr) (snd columnIdxStr)) (\<lambda>columnIndices.
     bindE gainStr (\<lambda>gainVector.
     Inr (entryIndices, rowIndices, columnIndices, gainVector)))))))))"

definition sparse_add_sequences ::
  "'g sparse_gain_routing list \<Rightarrow> 'g sequences \<Rightarrow> exn + 'g sparse_gain_routing list" where
  "sparse_add_sequences newList s =
     bindE (sparse_numberOfEntries s) (\<lambda>numEntries. foldE (sparse_add_entry s) newList [0..<numEntries])"

definition sparse_fromJson :: "'g routing_node list option \<Rightarrow> exn + 'g sparse_gain_routing list" where
  "sparse_fromJson doc =
     (case doc of None \<Rightarrow> Inl invalid_argument
      | Some nodes \<Rightarrow> foldE (\<lambda>newList n. bindE (sparse_node_sequences n) (sparse_add_sequences newList)) [] nodes)"

definition sparse_clear :: "'g sparse_gain_routing list \<Rightarrow> 'g sparse_gain_routing list" where
  "sparse_clear mRoutings = []"

definition sparse_swap ::
  "'g sparse_gain_routing list \<Rightarrow> 'g sparse_gain_routing list \<Rightarrow> 'g sparse_gain_routing list \<times> 'g sparse_gain_routing list" where
  "sparse_swap mRoutings rhs = (rhs, mRoutings)"

definition sparse_parseJson ::
  "'g routing_node list option \<Rightarrow> 'g sparse_gain_routing list \<Rightarrow> 'g sparse_gain_routing list \<times> exn option" where
  "sparse_parseJson doc mRoutings =
     (case sparse_fromJson doc of
        Inl e \<Rightarrow> (mRoutings, Some e) | Inr newList \<Rightarrow> (fst (sparse_swap mRoutings newList), None))"

lemma equivalent_sparse: "equivalent compareSparse a b \<longleftrightarrow> entryIndex a = entryIndex b"
  by (auto simp: equivalent_def compareSparse_def)

interpretation sparse_order: weak_order compareSparse
  by unfold_locales (auto simp: compareSparse_def equivalent_sparse)

definition sparse_map :: "'g sparse_gain_routing list \<Rightarrow> nat \<rightharpoonup> 'g sparse_gain_routing" where
  "sparse_map rs i = List.find (\<lambda>x. entryIndex x = i) rs"

lemma sparse_find: "oset_find compareSparse k rs = sparse_map rs (entryIndex k)"
  by (simp add: oset_find_def sparse_map_def equivalent_sparse [abs_def] eq_commute)

text \<open>
  C24 (sparse_routing_spec): a sparse routing list is a map from entry indices to entries, kept in
  the order of the indices. Adding overwrites, removing an entry reports whether there was one,
  the overload for two indices removes by the first one alone, whatever the second one, and a
  look-up of a missing entry gives the entry with invalid indices. Parsing replaces the list, and
  leaves it as it is when it throws.
\<close>

theorem sparse_routing_spec:
  fixes rs :: "'g::{zero,one} sparse_gain_routing list"
  assumes "sorted_wrt compareSparse rs"
  shows "(\<exists>rs'. sparse_addRouting i r c g rs = Inr rs' \<and> sorted_wrt compareSparse rs' \<and>
      sparse_map rs' = (sparse_map rs)(i \<mapsto> \<lparr>entryIndex = i, rowIndex = r, columnIndex = c, gain = g\<rparr>)) \<and>
    (case sparse_removeRouting_entry e rs of (rs', removed) \<Rightarrow>
       sorted_wrt compareSparse rs' \<and> sparse_map rs' = (sparse_map rs)(entryIndex e := None) \<and>
       (removed \<longleftrightarrow> entryIndex e \<in> dom (sparse_map rs))) \<and>
    sparse_removeRouting (entryIndex e) k rs = sparse_removeRouting_entry e rs \<and>
    sparse_getEntry i rs = (case sparse_map rs i of Some e \<Rightarrow> e | None \<Rightarrow> SparseGainRouting) \<and>
    sparse_parseJson doc rs = (case sparse_fromJson doc of Inl e \<Rightarrow> (rs, Some e) | Inr new \<Rightarrow> (new, None)) \<and>
    sparse_map (sparse_clear rs) = Map.empty"
proof (intro conjI)
  let ?e = "\<lparr>entryIndex = i, rowIndex = r, columnIndex = c, gain = g\<rparr>"
  let ?r = "case oset_find compareSparse ?e rs of None \<Rightarrow> rs | Some x \<Rightarrow> remove1 x rs"
  note rep = sparse_order.replace [OF assms, where e = ?e]
  have "sparse_map (ms_insert compareSparse ?e ?r) j = ((sparse_map rs)(i \<mapsto> ?e)) j" for j
    using rep(3) [of "?e\<lparr>entryIndex := j\<rparr>"] by (simp add: sparse_find equivalent_sparse)
  then have "sparse_map (ms_insert compareSparse ?e ?r) = (sparse_map rs)(i \<mapsto> ?e)" by (rule ext)
  moreover have "sparse_addRouting i r c g rs = Inr (ms_insert compareSparse ?e ?r)"
    using rep(1) by (simp add: sparse_addRouting_def sparse_addRouting_entry_def Let_def split: option.splits)
  ultimately show "\<exists>rs'. sparse_addRouting i r c g rs = Inr rs' \<and> sorted_wrt compareSparse rs' \<and>
      sparse_map rs' = (sparse_map rs)(i \<mapsto> ?e)" using rep(2) by blast
  show "case sparse_removeRouting_entry e rs of (rs', removed) \<Rightarrow>
       sorted_wrt compareSparse rs' \<and> sparse_map rs' = (sparse_map rs)(entryIndex e := None) \<and>
       (removed \<longleftrightarrow> entryIndex e \<in> dom (sparse_map rs))"
  proof (cases "oset_find compareSparse e rs")
    case None
    then show ?thesis using assms by (auto simp: sparse_removeRouting_entry_def sparse_find)
  next
    case (Some x)
    then have x: "x \<in> set rs" "entryIndex x = entryIndex e"
      using sparse_order.find_iff [OF assms] by (auto simp: equivalent_sparse)
    have "sparse_map (remove1 x rs) j = ((sparse_map rs)(entryIndex e := None)) j" for j
      using sparse_order.find_erase [OF assms x(1), of "e\<lparr>entryIndex := j\<rparr>"] x(2)
      by (simp add: sparse_find equivalent_sparse)
    then have "sparse_map (remove1 x rs) = (sparse_map rs)(entryIndex e := None)" by (rule ext)
    then show ?thesis using Some sparse_order.sorted_erase [OF assms, of x]
      by (auto simp: sparse_removeRouting_entry_def sparse_find)
  qed
  show "sparse_removeRouting (entryIndex e) k rs = sparse_removeRouting_entry e rs"
    by (simp add: sparse_removeRouting_def sparse_removeRouting_entry_def sparse_find)
  show "sparse_getEntry i rs = (case sparse_map rs i of Some e \<Rightarrow> e | None \<Rightarrow> SparseGainRouting)"
    by (simp add: sparse_getEntry_def sparse_find split: option.split)
  show "sparse_parseJson doc rs = (case sparse_fromJson doc of Inl e \<Rightarrow> (rs, Some e) | Inr new \<Rightarrow> (new, None))"
    by (simp add: sparse_parseJson_def sparse_swap_def split: sum.split)
  show "sparse_map (sparse_clear rs) = Map.empty" by (simp add: fun_eq_iff sparse_map_def sparse_clear_def)
qed

theorem sparse_routing_spec_witness:
  "\<exists>rs'. sparse_addRouting 2 5 6 3 [\<lparr>entryIndex = 2, rowIndex = 0, columnIndex = 0, gain = (1::int)\<rparr>] = Inr rs' \<and>
     sparse_map rs' 2 = Some \<lparr>entryIndex = 2, rowIndex = 5, columnIndex = 6, gain = 3\<rparr>"
proof -
  have "sorted_wrt compareSparse [\<lparr>entryIndex = 2, rowIndex = 0, columnIndex = 0, gain = (1::int)\<rparr>]" by simp
  from sparse_routing_spec [OF this, of 2 5 6 3, THEN conjunct1] show ?thesis by auto
qed

text \<open>
  In a node the size of the rows is not taken over for a single entry index: of three rows only the
  first one is used.
\<close>

lemma sparse_rows_ignored:
  "sparse_add_sequences [] ([0], [3, 4, 5], [7], [1])
     = Inr [\<lparr>entryIndex = 0, rowIndex = 3, columnIndex = 7, gain = (1::int)\<rparr>]"
  by (simp add: sparse_add_sequences_def sparse_numberOfEntries_def sparse_add_entry_def sparse_addRouting_def
      sparse_addRouting_entry_def scalar_or_element_def sequence_element_def oset_insert_def oset_find_def)

end
