(* ===== verification/Multichannel_Convolver.thy ===== *)
theory Multichannel_Convolver
  imports Core_Convolver Filter_Routing
begin

text \<open>
  The multichannel convolver (\<open>src/librbbl/multichannel_convolver_uniform.hpp\<close> and \<open>.cpp\<close>): a
  routing table says which inputs are filtered with which filters into which outputs. The
  filtering of a block is the convolution of the whole history of the inputs.
\<close>

section \<open>The routing table\<close>

record 'a routing_entry =
  reInput :: nat
  reOutput :: nat
  reFilter :: nat
  reGain :: 'a

definition compareRoutings :: "'a routing_entry \<Rightarrow> 'a routing_entry \<Rightarrow> bool" where
  "compareRoutings lhs rhs =
     (if reOutput lhs = reOutput rhs then reInput lhs < reInput rhs else reOutput lhs < reOutput rhs)"

record 'a multichannel_convolver =
  mcCoreConvolver :: "'a core_convolver"
  mcRoutingTable :: "'a routing_entry list"
  mcMaxNumberOfRoutingPoints :: nat
  mcFrequencyDomainOutput :: basic_matrix

definition clearRoutingTable :: "'a multichannel_convolver \<Rightarrow> 'a multichannel_convolver" where
  "clearRoutingTable mc = mc\<lparr>mcRoutingTable := []\<rparr>"

definition setRoutingEntry ::
  "nat \<Rightarrow> nat \<Rightarrow> nat \<Rightarrow> 'a \<Rightarrow> 'a multichannel_convolver \<Rightarrow> exn + 'a multichannel_convolver" where
  "setRoutingEntry inputIdx outputIdx filterIdx g mc =
     (let core = mcCoreConvolver mc
      in if ccNumberOfInputs core \<le> inputIdx then Inl invalid_argument
         else if ccNumberOfOutputs core \<le> outputIdx then Inl invalid_argument
         else if maxNumberOfFilterEntries core \<le> filterIdx then Inl invalid_argument
         else let newEntry = \<lparr>reInput = inputIdx, reOutput = outputIdx, reFilter = filterIdx, reGain = g\<rparr>;
                  table = (case oset_find compareRoutings newEntry (mcRoutingTable mc) of
                             Some x \<Rightarrow> remove1 x (mcRoutingTable mc) | None \<Rightarrow> mcRoutingTable mc)
              in if mcMaxNumberOfRoutingPoints mc \<le> length table then Inl invalid_argument
                 else Inr (mc\<lparr>mcRoutingTable := ms_insert compareRoutings newEntry table\<rparr>))"

text \<open>\<open>toSample\<close> is the conversion of a gain, a \<open>double\<close>, to the sample type.\<close>

definition setRoutingEntry_routing ::
  "('g \<Rightarrow> 'a) \<Rightarrow> 'g filter_routing \<Rightarrow> 'a multichannel_convolver \<Rightarrow> exn + 'a multichannel_convolver" where
  "setRoutingEntry_routing toSample routing =
     setRoutingEntry (inputIndex routing) (outputIndex routing) (filterIndex routing) (toSample (gainLinear routing))"

text \<open>The table is cleared before the size is checked: the convolver afterwards, and the exception that is thrown.\<close>

fun setRoutings ::
  "('g \<Rightarrow> 'a) \<Rightarrow> 'g filter_routing list \<Rightarrow> 'a multichannel_convolver \<Rightarrow> 'a multichannel_convolver \<times> exn option" where
  "setRoutings toSample [] mc = (mc, None)"
| "setRoutings toSample (v # vs) mc =
     (case setRoutingEntry_routing toSample v mc of
        Inl e \<Rightarrow> (mc, Some e) | Inr mc' \<Rightarrow> setRoutings toSample vs mc')"

definition initRoutingTable ::
  "('g \<Rightarrow> 'a) \<Rightarrow> 'g filter_routing list \<Rightarrow> 'a multichannel_convolver \<Rightarrow> 'a multichannel_convolver \<times> exn option" where
  "initRoutingTable toSample routings mc =
     (let mc = clearRoutingTable mc
      in if mcMaxNumberOfRoutingPoints mc < length routings then (mc, Some invalid_argument)
         else setRoutings toSample routings mc)"

text \<open>
  The entries with the key are erased, and the first of them, or the place where it would be, is
  compared with the end of the table. When there was an entry, this iterator is no longer valid.
\<close>

definition removeRoutingEntry ::
  "nat \<Rightarrow> nat \<Rightarrow> 'a::zero multichannel_convolver \<Rightarrow> 'a multichannel_convolver \<times> (exn + bool)" where
  "removeRoutingEntry inputIdx outputIdx mc =
     (let testEntry = \<lparr>reInput = inputIdx, reOutput = outputIdx, reFilter = 0, reGain = 0\<rparr>;
          eraseRange = filter (equivalent compareRoutings testEntry) (mcRoutingTable mc);
          lowerBound = dropWhile (\<lambda>x. compareRoutings x testEntry) (mcRoutingTable mc);
          mc = mc\<lparr>mcRoutingTable := filter (\<lambda>x. \<not> equivalent compareRoutings testEntry x) (mcRoutingTable mc)\<rparr>
      in (mc, if eraseRange \<noteq> [] then Inl undefined_behaviour else Inr (lowerBound \<noteq> [])))"

lemma equivalent_routings:
  "equivalent compareRoutings a b \<longleftrightarrow> reInput a = reInput b \<and> reOutput a = reOutput b"
  by (auto simp: equivalent_def compareRoutings_def)

interpretation table_order: weak_order compareRoutings
proof
  fix a b c :: "'a routing_entry"
  show "\<not> compareRoutings a a" by (simp add: compareRoutings_def)
  show "compareRoutings a b \<Longrightarrow> compareRoutings b c \<Longrightarrow> compareRoutings a c"
    by (auto simp: compareRoutings_def split: if_splits)
  show "equivalent compareRoutings a b \<Longrightarrow> equivalent compareRoutings b c \<Longrightarrow> equivalent compareRoutings a c"
    by (simp add: equivalent_routings)
qed

text \<open>A valid table: ordered, without duplicates, within its limit, with indices in range.\<close>

definition valid_table :: "'a multichannel_convolver \<Rightarrow> bool" where
  "valid_table mc \<longleftrightarrow>
     sorted_wrt compareRoutings (mcRoutingTable mc) \<and> length (mcRoutingTable mc) \<le> mcMaxNumberOfRoutingPoints mc \<and>
     (\<forall>r \<in> set (mcRoutingTable mc). reInput r < ccNumberOfInputs (mcCoreConvolver mc) \<and>
        reOutput r < ccNumberOfOutputs (mcCoreConvolver mc) \<and>
        reFilter r < maxNumberOfFilterEntries (mcCoreConvolver mc))"

definition table_map :: "'a multichannel_convolver \<Rightarrow> nat \<times> nat \<rightharpoonup> nat \<times> 'a" where
  "table_map mc = (\<lambda>(i, k). map_option (\<lambda>r. (reFilter r, reGain r))
     (List.find (\<lambda>r. reInput r = i \<and> reOutput r = k) (mcRoutingTable mc)))"

lemma table_find:
  "oset_find compareRoutings e rs = List.find (\<lambda>r. reInput r = reInput e \<and> reOutput r = reOutput e) rs"
  unfolding oset_find_def by (rule arg_cong [of _ _ "\<lambda>P. List.find P rs"]) (auto simp: fun_eq_iff equivalent_routings)

lemma setRoutingEntry_spec:
  assumes "valid_table mc"
  shows "if ccNumberOfInputs (mcCoreConvolver mc) \<le> i \<or> ccNumberOfOutputs (mcCoreConvolver mc) \<le> k \<or>
      maxNumberOfFilterEntries (mcCoreConvolver mc) \<le> f \<or>
      (i, k) \<notin> dom (table_map mc) \<and> length (mcRoutingTable mc) = mcMaxNumberOfRoutingPoints mc
    then setRoutingEntry i k f g mc = Inl invalid_argument
    else \<exists>rs. setRoutingEntry i k f g mc = Inr (mc\<lparr>mcRoutingTable := rs\<rparr>) \<and> valid_table (mc\<lparr>mcRoutingTable := rs\<rparr>) \<and>
      table_map (mc\<lparr>mcRoutingTable := rs\<rparr>) = (table_map mc)((i, k) \<mapsto> (f, g))"
proof -
  let ?e = "\<lparr>reInput = i, reOutput = k, reFilter = f, reGain = g\<rparr>" and ?rs = "mcRoutingTable mc"
  let ?t = "case oset_find compareRoutings ?e ?rs of None \<Rightarrow> ?rs | Some x \<Rightarrow> remove1 x ?rs"
  have s: "sorted_wrt compareRoutings ?rs" "length ?rs \<le> mcMaxNumberOfRoutingPoints mc"
    using assms by (auto simp: valid_table_def)
  note rep = table_order.replace [OF s(1), where e = ?e]
  have dom: "(i, k) \<in> dom (table_map mc) \<longleftrightarrow> oset_find compareRoutings ?e ?rs \<noteq> None"
    by (simp add: table_map_def table_find dom_def)
  have full: "mcMaxNumberOfRoutingPoints mc \<le> length ?t
      \<longleftrightarrow> (i, k) \<notin> dom (table_map mc) \<and> length ?rs = mcMaxNumberOfRoutingPoints mc"
  proof (cases "oset_find compareRoutings ?e ?rs")
    case (Some x)
    then have "x \<in> set ?rs" using table_order.find_iff [OF s(1)] by blast
    then have "length ?t = length ?rs - 1" "0 < length ?rs" using Some by (auto simp: length_remove1 length_pos_if_in_set)
    then have "\<not> mcMaxNumberOfRoutingPoints mc \<le> length ?t" using s(2) by linarith
    moreover have "(i, k) \<in> dom (table_map mc)" using dom Some by simp
    ultimately show ?thesis by blast
  next
    case None
    then show ?thesis using s(2) dom by auto
  qed
  show ?thesis
  proof (cases "ccNumberOfInputs (mcCoreConvolver mc) \<le> i \<or> ccNumberOfOutputs (mcCoreConvolver mc) \<le> k \<or>
      maxNumberOfFilterEntries (mcCoreConvolver mc) \<le> f \<or>
      (i, k) \<notin> dom (table_map mc) \<and> length ?rs = mcMaxNumberOfRoutingPoints mc")
    case True
    then have "setRoutingEntry i k f g mc = Inl invalid_argument"
      unfolding setRoutingEntry_def Let_def full by auto
    then show ?thesis using True by simp
  next
    case False
    let ?rs' = "ms_insert compareRoutings ?e ?t"
    have nf: "\<not> mcMaxNumberOfRoutingPoints mc \<le> length ?t" unfolding full using False by blast
    have "setRoutingEntry i k f g mc = Inr (mc\<lparr>mcRoutingTable := ?rs'\<rparr>)"
      unfolding setRoutingEntry_def Let_def using False nf by simp
    moreover have "table_map (mc\<lparr>mcRoutingTable := ?rs'\<rparr>) (a, b) = ((table_map mc)((i, k) \<mapsto> (f, g))) (a, b)" for a b
      using rep(3) [of "?e\<lparr>reInput := a, reOutput := b\<rparr>"]
      by (simp add: table_map_def table_find equivalent_routings)
    moreover have "valid_table (mc\<lparr>mcRoutingTable := ?rs'\<rparr>)"
    proof -
      have sub: "set ?t \<subseteq> set ?rs" by (cases "oset_find compareRoutings ?e ?rs") (simp_all add: set_remove1_subset)
      then have "\<forall>r \<in> set ?t. reInput r < ccNumberOfInputs (mcCoreConvolver mc) \<and>
        reOutput r < ccNumberOfOutputs (mcCoreConvolver mc) \<and> reFilter r < maxNumberOfFilterEntries (mcCoreConvolver mc)"
        using assms unfolding valid_table_def by blast
      then show ?thesis using rep(2) nf False by (simp add: valid_table_def)
    qed
    ultimately show ?thesis using False by (auto simp: fun_eq_iff)
  qed
qed

lemma sorted_filter: "sorted_wrt lt xs \<Longrightarrow> sorted_wrt lt (filter P xs)"
  by (induction xs) auto

lemma filter_find: "List.find Q (filter P xs) = List.find (\<lambda>x. P x \<and> Q x) xs"
  by (induction xs) auto

text \<open>The lower bound is the end exactly when all entries come before the key.\<close>

lemma lower_bound_end: "dropWhile P xs = [] \<longleftrightarrow> (\<forall>x \<in> set xs. P x)"
  by (simp add: dropWhile_eq_Nil_conv)

lemma removeRoutingEntry_spec:
  fixes mc :: "'a::zero multichannel_convolver"
  assumes "valid_table mc" "removeRoutingEntry i k mc = (mc', r)"
  shows "valid_table mc'" "table_map mc' = (table_map mc)((i, k) := None)"
    "r = (if (i, k) \<in> dom (table_map mc) then Inl undefined_behaviour
          else Inr (\<exists>x \<in> set (mcRoutingTable mc). k < reOutput x \<or> k = reOutput x \<and> i < reInput x))"
proof -
  let ?key = "\<lparr>reInput = i, reOutput = k, reFilter = 0, reGain = 0 :: 'a\<rparr>" and ?rs = "mcRoutingTable mc"
  have mc': "mc' = mc\<lparr>mcRoutingTable := filter (\<lambda>x. \<not> (reInput x = i \<and> reOutput x = k)) ?rs\<rparr>"
    using assms(2) by (auto simp: removeRoutingEntry_def Let_def equivalent_routings eq_commute)
  show "valid_table mc'"
    using assms(1) unfolding mc' valid_table_def by (auto simp: sorted_filter intro: le_trans [OF length_filter_le])
  have "table_map mc' (a, b) = ((table_map mc)((i, k) := None)) (a, b)" for a b
  proof (cases "a = i \<and> b = k")
    case True
    then show ?thesis by (auto simp: table_map_def mc' filter_find find_None_iff)
  next
    case False
    then have "(\<lambda>x. \<not> (reInput x = i \<and> reOutput x = k) \<and> reInput x = a \<and> reOutput x = b)
      = (\<lambda>x :: 'a routing_entry. reInput x = a \<and> reOutput x = b)" by auto
    then show ?thesis using False by (auto simp: table_map_def mc' filter_find)
  qed
  then show "table_map mc' = (table_map mc)((i, k) := None)" by (simp add: fun_eq_iff)
  have dom: "(i, k) \<in> dom (table_map mc) \<longleftrightarrow> (\<exists>x \<in> set ?rs. reInput x = i \<and> reOutput x = k)"
    by (auto simp: table_map_def dom_def find_None_iff dest: find_SomeD)
      (metis (mono_tags, lifting) find_None_iff not_None_eq option.exhaust)
  have r: "r = (if filter (equivalent compareRoutings ?key) ?rs \<noteq> [] then Inl undefined_behaviour
      else Inr (dropWhile (\<lambda>x. compareRoutings x ?key) ?rs \<noteq> []))"
    using assms(2) by (auto simp: removeRoutingEntry_def Let_def)
  have "filter (equivalent compareRoutings ?key) ?rs \<noteq> [] \<longleftrightarrow> (i, k) \<in> dom (table_map mc)"
    unfolding dom by (auto simp: filter_empty_conv equivalent_routings)
  moreover have "dropWhile (\<lambda>x. compareRoutings x ?key) ?rs \<noteq> [] \<longleftrightarrow>
      (\<exists>x \<in> set ?rs. k < reOutput x \<or> k = reOutput x \<and> i < reInput x)" if "(i, k) \<notin> dom (table_map mc)"
  proof -
    have "\<not> compareRoutings x ?key \<longleftrightarrow> k < reOutput x \<or> k = reOutput x \<and> i < reInput x" if "x \<in> set ?rs" for x
      using that \<open>(i, k) \<notin> dom (table_map mc)\<close> unfolding dom by (auto simp: compareRoutings_def)
    then show ?thesis unfolding lower_bound_end by blast
  qed
  ultimately show "r = (if (i, k) \<in> dom (table_map mc) then Inl undefined_behaviour
          else Inr (\<exists>x \<in> set (mcRoutingTable mc). k < reOutput x \<or> k = reOutput x \<and> i < reInput x))"
    unfolding r by auto
qed

lemma setRoutings_valid:
  "valid_table mc \<Longrightarrow> setRoutings toSample vs mc = (mc', e) \<Longrightarrow>
   valid_table mc' \<and> mc' = mc\<lparr>mcRoutingTable := mcRoutingTable mc'\<rparr>"
proof (induction vs arbitrary: mc)
  case (Cons v vs)
  let ?r = "setRoutingEntry_routing toSample v mc"
  have s: "\<exists>rs. ?r = Inr (mc\<lparr>mcRoutingTable := rs\<rparr>) \<and> valid_table (mc\<lparr>mcRoutingTable := rs\<rparr>)" if "?r = Inr x" for x
    using setRoutingEntry_spec [OF Cons.prems(1), of "inputIndex v" "outputIndex v" "filterIndex v" "toSample (gainLinear v)"]
      that unfolding setRoutingEntry_routing_def by (auto split: if_splits)
  show ?case
  proof (cases ?r)
    case (Inl e)
    then show ?thesis using Cons.prems by auto
  next
    case (Inr x)
    from s [OF this] obtain rs where rs: "x = mc\<lparr>mcRoutingTable := rs\<rparr>" "valid_table x" using Inr by auto
    then show ?thesis using Cons.IH [OF rs(2)] Cons.prems(2) Inr by simp
  qed
qed auto

text \<open>
  C22 (routing_table_spec): the routing table of a convolver stays ordered, without duplicates,
  within its limit and its indices within the convolver's sizes. Setting an entry replaces the one
  of the same input and output; it is refused, without any change, when an index is out of range
  or the table is full and has no such entry. Initialising clears the table in any case. Removing
  removes, but its answer is wrong: it compares an iterator to an erased entry when there was one,
  and otherwise says that an entry was removed whenever a later one exists.
\<close>

theorem routing_table_spec:
  fixes mc :: "'a::zero multichannel_convolver"
  assumes "valid_table mc"
  shows "(if ccNumberOfInputs (mcCoreConvolver mc) \<le> i \<or> ccNumberOfOutputs (mcCoreConvolver mc) \<le> k \<or>
        maxNumberOfFilterEntries (mcCoreConvolver mc) \<le> f \<or>
        (i, k) \<notin> dom (table_map mc) \<and> length (mcRoutingTable mc) = mcMaxNumberOfRoutingPoints mc
      then setRoutingEntry i k f g mc = Inl invalid_argument
      else \<exists>rs. setRoutingEntry i k f g mc = Inr (mc\<lparr>mcRoutingTable := rs\<rparr>) \<and> valid_table (mc\<lparr>mcRoutingTable := rs\<rparr>) \<and>
        table_map (mc\<lparr>mcRoutingTable := rs\<rparr>) = (table_map mc)((i, k) \<mapsto> (f, g))) \<and>
    (case removeRoutingEntry i k mc of (mc', r) \<Rightarrow>
       valid_table mc' \<and> table_map mc' = (table_map mc)((i, k) := None) \<and>
       r = (if (i, k) \<in> dom (table_map mc) then Inl undefined_behaviour
            else Inr (\<exists>x \<in> set (mcRoutingTable mc). k < reOutput x \<or> k = reOutput x \<and> i < reInput x))) \<and>
    valid_table (fst (initRoutingTable toSample routings mc)) \<and>
    (mcMaxNumberOfRoutingPoints mc < length routings \<longrightarrow>
       initRoutingTable toSample routings mc = (mc\<lparr>mcRoutingTable := []\<rparr>, Some invalid_argument))"
proof (intro conjI)
  show "if ccNumberOfInputs (mcCoreConvolver mc) \<le> i \<or> ccNumberOfOutputs (mcCoreConvolver mc) \<le> k \<or>
        maxNumberOfFilterEntries (mcCoreConvolver mc) \<le> f \<or>
        (i, k) \<notin> dom (table_map mc) \<and> length (mcRoutingTable mc) = mcMaxNumberOfRoutingPoints mc
      then setRoutingEntry i k f g mc = Inl invalid_argument
      else \<exists>rs. setRoutingEntry i k f g mc = Inr (mc\<lparr>mcRoutingTable := rs\<rparr>) \<and> valid_table (mc\<lparr>mcRoutingTable := rs\<rparr>) \<and>
        table_map (mc\<lparr>mcRoutingTable := rs\<rparr>) = (table_map mc)((i, k) \<mapsto> (f, g))"
    by (rule setRoutingEntry_spec [OF assms])
  show "case removeRoutingEntry i k mc of (mc', r) \<Rightarrow>
       valid_table mc' \<and> table_map mc' = (table_map mc)((i, k) := None) \<and>
       r = (if (i, k) \<in> dom (table_map mc) then Inl undefined_behaviour
            else Inr (\<exists>x \<in> set (mcRoutingTable mc). k < reOutput x \<or> k = reOutput x \<and> i < reInput x))"
    by (cases "removeRoutingEntry i k mc") (use removeRoutingEntry_spec [OF assms] in simp)
  have e: "valid_table (mc\<lparr>mcRoutingTable := []\<rparr>)" by (simp add: valid_table_def)
  show "valid_table (fst (initRoutingTable toSample routings mc))"
    using setRoutings_valid [OF e, of toSample routings] e
    by (cases "setRoutings toSample routings (mc\<lparr>mcRoutingTable := []\<rparr>)") (simp add: initRoutingTable_def clearRoutingTable_def Let_def)
  show "mcMaxNumberOfRoutingPoints mc < length routings \<longrightarrow>
       initRoutingTable toSample routings mc = (mc\<lparr>mcRoutingTable := []\<rparr>, Some invalid_argument)"
    by (simp add: initRoutingTable_def clearRoutingTable_def Let_def)
qed

section \<open>Processing a block\<close>

definition processOutputs ::
  "('a, 'c) fft_wrapper \<Rightarrow> ('a \<Rightarrow> 'c) \<Rightarrow> nat \<Rightarrow> 'a multichannel_convolver \<Rightarrow> nat \<Rightarrow> nat \<Rightarrow> 'a memory
   \<Rightarrow> 'c::{zero,plus,times} memory \<Rightarrow> exn + 'a memory \<times> 'c memory" where
  "processOutputs fft ofReal sz mc output outputChannelStride m c =
     (let M = mcFrequencyDomainOutput mc; core = mcCoreConvolver mc
      in bindE (matrix_zeroFill (2 * sz) M c) (\<lambda>c.
         bindE (foldE (\<lambda>c r. processFilter ofReal sz core (reInput r) (reFilter r) (reGain r)
                    (matrix_row (2 * sz) M (reOutput r)) True c) c (mcRoutingTable mc)) (\<lambda>c.
         bindE (foldE (\<lambda>m outputIdx. transformOutput fft sz core (matrix_row (2 * sz) M outputIdx)
                    (elem sz output (outputIdx * outputChannelStride)) c m) m [0..<ccNumberOfOutputs core])
           (\<lambda>m. Inr (m, c)))))"

definition process_block ::
  "('a, 'c) fft_wrapper \<Rightarrow> ('a \<Rightarrow> 'c) \<Rightarrow> nat \<Rightarrow> 'a multichannel_convolver \<Rightarrow> nat \<Rightarrow> nat \<Rightarrow> nat \<Rightarrow> nat \<Rightarrow> nat
   \<Rightarrow> 'a memory \<Rightarrow> 'c::{zero,plus,times} memory \<Rightarrow> exn + 'a multichannel_convolver \<times> 'a memory \<times> 'c memory" where
  "process_block fft ofReal sz mc input inputChannelStride output outputChannelStride alignment m c =
     bindE (processInputs fft sz (mcCoreConvolver mc) input inputChannelStride alignment m c) (\<lambda>(core, m, c).
       let mc = mc\<lparr>mcCoreConvolver := core\<rparr>
       in bindE (processOutputs fft ofReal sz mc output outputChannelStride m c) (\<lambda>(m, c). Inr (mc, m, c)))"

text \<open>The filters are those of the core.\<close>

definition mc_clearFilters :: "nat \<Rightarrow> 'a multichannel_convolver \<Rightarrow> 'c::zero memory \<Rightarrow> exn + 'c memory" where
  "mc_clearFilters sz mc c = clearFilters sz (mcCoreConvolver mc) c"

definition mc_initFilters ::
  "('a, 'c) fft_wrapper \<Rightarrow> nat \<Rightarrow> 'a multichannel_convolver \<Rightarrow> basic_matrix \<Rightarrow> 'a::{zero,times} memory \<times> 'c::zero memory
   \<Rightarrow> exn + 'a memory \<times> 'c memory" where
  "mc_initFilters fft sz mc newFilters mem = initFilters fft sz (mcCoreConvolver mc) newFilters mem"

definition mc_setImpulseResponse ::
  "('a, 'c) fft_wrapper \<Rightarrow> nat \<Rightarrow> 'a multichannel_convolver \<Rightarrow> nat \<Rightarrow> nat \<Rightarrow> nat \<Rightarrow> nat \<Rightarrow> 'a::{zero,times} memory \<times> 'c memory
   \<Rightarrow> exn + 'a memory \<times> 'c memory" where
  "mc_setImpulseResponse fft sz mc ir filterLength filterIdx alignment mem =
     setImpulseResponse fft sz (mcCoreConvolver mc) ir filterLength filterIdx alignment mem"

section \<open>The state of a convolver\<close>

abbreviation output_cells :: "nat \<Rightarrow> 'a multichannel_convolver \<Rightarrow> nat set" where
  "output_cells sz mc \<equiv> array_cells (2 * sz) (mData (mcFrequencyDomainOutput mc))"

text \<open>
  The convolver stands for the history \<open>H\<close> of its inputs and the impulse responses \<open>h\<close> of its filters.
\<close>

definition convolver_layout ::
  "('a::field, 'c) fft_wrapper \<Rightarrow> nat \<Rightarrow> nat \<Rightarrow> nat \<Rightarrow> 'a multichannel_convolver \<Rightarrow> bool" where
  "convolver_layout fft sz ao cao mc \<longleftrightarrow>
     (let cc = mcCoreConvolver mc; M = mcFrequencyDomainOutput mc
      in convolver_inv fft sz ao cao cc \<and> members_disjoint sz cc \<and>
         matrix_inv (2 * sz) cao M \<and> mNumberOfRows M = ccNumberOfOutputs cc \<and>
         mNumberOfColumns M = ccDftRepresentationSizePadded cc \<and> mAlignment (mData M) = max 1 (ccComplexAlignment cc) \<and>
         output_cells sz mc \<inter> (fdl_cells sz cc \<union> filter_cells sz cc \<union> accumulator_cells sz cc) = {})"

definition convolver_state ::
  "('a::field, 'c) fft_wrapper \<Rightarrow> nat \<Rightarrow> nat \<Rightarrow> nat \<Rightarrow> 'a multichannel_convolver \<Rightarrow> 'a memory \<Rightarrow> 'c memory
   \<Rightarrow> (nat \<Rightarrow> nat \<Rightarrow> 'a) \<Rightarrow> (nat \<Rightarrow> nat \<Rightarrow> 'a) \<Rightarrow> bool" where
  "convolver_state fft sz ao cao mc m c H h \<longleftrightarrow>
     convolver_layout fft sz ao cao mc \<and> valid_table mc \<and>
     history sz m (ccInputBuffers (mcCoreConvolver mc)) H \<and>
     fdl_holds fft sz (mcCoreConvolver mc) c H \<and> filters_hold fft sz (mcCoreConvolver mc) c h"

lemma convolver_layoutD:
  assumes "convolver_layout fft sz ao cao mc"
  shows "convolver_inv fft sz ao cao (mcCoreConvolver mc)" "members_disjoint sz (mcCoreConvolver mc)"
    "matrix_inv (2 * sz) cao (mcFrequencyDomainOutput mc)"
    "mNumberOfRows (mcFrequencyDomainOutput mc) = ccNumberOfOutputs (mcCoreConvolver mc)"
    "mNumberOfColumns (mcFrequencyDomainOutput mc) = ccDftRepresentationSizePadded (mcCoreConvolver mc)"
    "mAlignment (mData (mcFrequencyDomainOutput mc)) = max 1 (ccComplexAlignment (mcCoreConvolver mc))"
    "output_cells sz mc \<inter> fdl_cells sz (mcCoreConvolver mc) = {}"
    "output_cells sz mc \<inter> filter_cells sz (mcCoreConvolver mc) = {}"
    "output_cells sz mc \<inter> accumulator_cells sz (mcCoreConvolver mc) = {}"
  using assms unfolding convolver_layout_def Let_def by blast+

text \<open>The rows of the output matrix.\<close>

lemma output_row:
  assumes sz: "sz = 2 ^ l" and lay: "convolver_layout fft sz ao cao mc" and o: "o' < ccNumberOfOutputs (mcCoreConvolver mc)"
  shows "checkAlignment (2 * sz) (matrix_row (2 * sz) (mcFrequencyDomainOutput mc) o') (ccComplexAlignment (mcCoreConvolver mc))"
    "block (2 * sz) (matrix_row (2 * sz) (mcFrequencyDomainOutput mc) o') (ccDftRepresentationSizePadded (mcCoreConvolver mc))
      \<subseteq> output_cells sz mc"
proof -
  let ?M = "mcFrequencyDomainOutput mc" and ?cc = "mcCoreConvolver mc"
  note L = convolver_layoutD [OF lay]
  have csz: "2 * sz = 2 ^ Suc l" using sz by simp
  have r: "o' < mNumberOfRows ?M" using o L(4) by simp
  have "checkAlignment (2 * sz) (elem (2 * sz) (matrix_row (2 * sz) ?M o') (0 * ccDftRepresentationSizePadded ?cc)) (ccComplexAlignment ?cc)"
    by (rule block_aligned [OF csz L(3,6) convolver_invD(5) [OF L(1)] r padded_props(2,3) [OF L(1)], where P = 1])
      (simp_all add: L(5))
  then show "checkAlignment (2 * sz) (matrix_row (2 * sz) ?M o') (ccComplexAlignment ?cc)" by simp
  show "block (2 * sz) (matrix_row (2 * sz) ?M o') (ccDftRepresentationSizePadded ?cc) \<subseteq> output_cells sz mc"
    using row_cells [OF L(3) r] unfolding L(5) .
qed

lemma output_rows_disjoint:
  assumes sz: "0 < sz" and lay: "convolver_layout fft sz ao cao mc" and "o1 \<noteq> o2"
  shows "block (2 * sz) (matrix_row (2 * sz) (mcFrequencyDomainOutput mc) o1) (ccDftRepresentationSizePadded (mcCoreConvolver mc))
    \<inter> block (2 * sz) (matrix_row (2 * sz) (mcFrequencyDomainOutput mc) o2) (ccDftRepresentationSizePadded (mcCoreConvolver mc)) = {}"
proof -
  let ?M = "mcFrequencyDomainOutput mc"
  note L = convolver_layoutD [OF lay]
  have sz2: "0 < 2 * sz" using sz by simp
  have False if "i < mNumberOfColumns ?M" "j < mNumberOfColumns ?M" "matrix_element (2 * sz) ?M o1 i = matrix_element (2 * sz) ?M o2 j" for i j
    using element_inj [OF L(3) sz2 that] assms(3) by simp
  then show ?thesis unfolding matrix_row_element L(5) [symmetric] by blast
qed

section \<open>The routings\<close>

text \<open>What one routing adds to its output, in the frequency domain, for the contents of the memory \<open>c\<close>.\<close>

definition contribution :: "('a \<Rightarrow> 'c) \<Rightarrow> nat \<Rightarrow> 'a core_convolver \<Rightarrow> 'c::comm_ring_1 memory \<Rightarrow> nat \<Rightarrow> 'a routing_entry \<Rightarrow> 'c" where
  "contribution ofReal sz cc c j r = ofReal (reGain r) *
     (\<Sum>b<ccNumberOfFilterPartitions cc. c (elem (2 * sz) (getFdlBlock sz cc (reInput r) b) j) *
        c (elem (2 * sz) (getFdFilterPartition sz cc (reFilter r) b) j))"

lemma contribution_cong:
  assumes inv: "convolver_inv fft sz ao cao cc" and same: "same_outside A c c'"
    and away: "A \<inter> fdl_cells sz cc = {}" "A \<inter> filter_cells sz cc = {}"
    and r: "reInput r < ccNumberOfInputs cc" "reFilter r < maxNumberOfFilterEntries cc"
    and j: "j < ccDftRepresentationSizePadded cc"
  shows "contribution ofReal sz cc c' j r = contribution ofReal sz cc c j r"
proof -
  have "c' (elem (2 * sz) (getFdlBlock sz cc (reInput r) b) j) = c (elem (2 * sz) (getFdlBlock sz cc (reInput r) b) j)" for b
    using unchanged [OF same fdl_in_cells [OF inv r(1) j] away(1)] .
  moreover have "c' (elem (2 * sz) (getFdFilterPartition sz cc (reFilter r) b) j)
      = c (elem (2 * sz) (getFdFilterPartition sz cc (reFilter r) b) j)" if "b < ccNumberOfFilterPartitions cc" for b
    using unchanged [OF same filter_in_cells [OF inv r(2) that j] away(2)] .
  ultimately show ?thesis unfolding contribution_def by simp
qed

lemma routing_loop:
  fixes c :: "'c::comm_ring_1 memory"
  assumes sz: "sz = 2 ^ l" and lay: "convolver_layout fft sz ao cao mc"
    and rs: "\<forall>r \<in> set rs. reInput r < ccNumberOfInputs (mcCoreConvolver mc) \<and>
        reOutput r < ccNumberOfOutputs (mcCoreConvolver mc) \<and> reFilter r < maxNumberOfFilterEntries (mcCoreConvolver mc)"
  shows "\<exists>c'. foldE (\<lambda>c r. processFilter ofReal sz (mcCoreConvolver mc) (reInput r) (reFilter r) (reGain r)
      (matrix_row (2 * sz) (mcFrequencyDomainOutput mc) (reOutput r)) True c) c rs = Inr c' \<and>
    (\<forall>k < ccNumberOfOutputs (mcCoreConvolver mc). \<forall>j < ccDftRepresentationSizePadded (mcCoreConvolver mc).
       c' (elem (2 * sz) (matrix_row (2 * sz) (mcFrequencyDomainOutput mc) k) j) =
       c (elem (2 * sz) (matrix_row (2 * sz) (mcFrequencyDomainOutput mc) k) j) +
       (\<Sum>r\<leftarrow>filter (\<lambda>r. reOutput r = k) rs. contribution ofReal sz (mcCoreConvolver mc) c j r)) \<and>
    same_outside (output_cells sz mc \<union> accumulator_cells sz (mcCoreConvolver mc)) c c'"
  using rs
proof (induction rs arbitrary: c)
  case Nil
  then show ?case by (simp add: same_outside_def)
next
  case (Cons r rs)
  let ?cc = "mcCoreConvolver mc" and ?M = "mcFrequencyDomainOutput mc" and ?n = "ccDftRepresentationSizePadded (mcCoreConvolver mc)"
  let ?row = "matrix_row (2 * sz) ?M" and ?A = "output_cells sz mc \<union> accumulator_cells sz (mcCoreConvolver mc)"
  note L = convolver_layoutD [OF lay]
  have r: "reInput r < ccNumberOfInputs ?cc" "reOutput r < ccNumberOfOutputs ?cc" "reFilter r < maxNumberOfFilterEntries ?cc"
    using Cons.prems by auto
  note row = output_row [OF sz lay r(2)]
  have away: "block (2 * sz) (?row (reOutput r)) ?n \<inter> accumulator_cells sz ?cc = {}" using row(2) L(9) by blast
  obtain c1 where c1: "processFilter ofReal sz ?cc (reInput r) (reFilter r) (reGain r) (?row (reOutput r)) True c = Inr c1"
    "\<forall>j < ?n. c1 (elem (2 * sz) (?row (reOutput r)) j) = c (elem (2 * sz) (?row (reOutput r)) j) + contribution ofReal sz ?cc c j r"
    "same_outside (block (2 * sz) (?row (reOutput r)) ?n \<union> accumulator_cells sz ?cc) c c1"
    using processFilter_spec [OF sz L(1,2) r(1,3) row(1) away, of ofReal "reGain r" True c]
    unfolding contribution_def by auto
  have c1A: "same_outside ?A c c1" by (rule same_outside_mono [OF c1(3)]) (use row(2) in blast)
  have awayA: "?A \<inter> fdl_cells sz ?cc = {}" "?A \<inter> filter_cells sz ?cc = {}"
    using L(2,7,8) unfolding members_disjoint_def by blast+
  have rs: "\<forall>r \<in> set rs. reInput r < ccNumberOfInputs ?cc \<and> reOutput r < ccNumberOfOutputs ?cc \<and>
      reFilter r < maxNumberOfFilterEntries ?cc" using Cons.prems by simp
  obtain c2 where c2: "foldE (\<lambda>c r. processFilter ofReal sz ?cc (reInput r) (reFilter r) (reGain r) (?row (reOutput r)) True c) c1 rs = Inr c2"
    "\<forall>k < ccNumberOfOutputs ?cc. \<forall>j < ?n. c2 (elem (2 * sz) (?row k) j) = c1 (elem (2 * sz) (?row k) j) +
       (\<Sum>r\<leftarrow>filter (\<lambda>r. reOutput r = k) rs. contribution ofReal sz ?cc c1 j r)"
    "same_outside ?A c1 c2" using Cons.IH [OF rs, of c1] by blast
  have val: "c2 (elem (2 * sz) (?row k) j) = c (elem (2 * sz) (?row k) j) +
       (\<Sum>r\<leftarrow>filter (\<lambda>r. reOutput r = k) (r # rs). contribution ofReal sz ?cc c j r)"
    if k: "k < ccNumberOfOutputs ?cc" and j: "j < ?n" for k j
  proof -
    have "contribution ofReal sz ?cc c1 j q = contribution ofReal sz ?cc c j q" if "q \<in> set rs" for q
      by (rule contribution_cong [OF L(1) c1A awayA _ _ j]) (use rs that in blast)+
    then have sum: "(\<Sum>r\<leftarrow>filter (\<lambda>r. reOutput r = k) rs. contribution ofReal sz ?cc c1 j r)
        = (\<Sum>r\<leftarrow>filter (\<lambda>r. reOutput r = k) rs. contribution ofReal sz ?cc c j r)"
      by (intro arg_cong [where f = sum_list] map_cong) auto
    have c2k: "c2 (elem (2 * sz) (?row k) j) = c1 (elem (2 * sz) (?row k) j) +
        (\<Sum>r\<leftarrow>filter (\<lambda>r. reOutput r = k) rs. contribution ofReal sz ?cc c j r)"
      using c2(2) k j sum by simp
    show ?thesis
    proof (cases "reOutput r = k")
      case True
      then show ?thesis using c2k c1(2) j by (simp add: add.assoc)
    next
      case False
      have sz0: "0 < sz" using sz by simp
      have e: "elem (2 * sz) (?row k) j \<in> block (2 * sz) (?row k) ?n" by (rule imageI) (use j in simp)
      have "(block (2 * sz) (?row (reOutput r)) ?n \<union> accumulator_cells sz ?cc) \<inter> block (2 * sz) (?row k) ?n = {}"
        using output_rows_disjoint [OF sz0 lay False] output_row(2) [OF sz lay k] L(9) by blast
      then have "c1 (elem (2 * sz) (?row k) j) = c (elem (2 * sz) (?row k) j)" by (rule unchanged [OF c1(3) e])
      then show ?thesis using c2k False by simp
    qed
  qed
  have "same_outside ?A c c2" by (rule same_outside_trans [OF c1A c2(3)])
  then show ?case using c1(1) c2(1) val by auto
qed

section \<open>The outputs\<close>

abbreviation output_blocks :: "nat \<Rightarrow> nat \<Rightarrow> nat \<Rightarrow> nat \<Rightarrow> nat \<Rightarrow> nat set" where
  "output_blocks sz output stride n B \<equiv> (\<Union>k<n. block sz (elem sz output (k * stride)) B)"

lemma strided_disjoint:
  assumes "0 < sz" "B \<le> stride" "k \<noteq> k'"
  shows "block sz (elem sz output (k * stride)) B \<inter> block sz (elem sz output (k' * stride)) B = {}"
proof -
  have False if "i < B" "j < B" "elem sz (elem sz output (k * stride)) i = elem sz (elem sz output (k' * stride)) j" for i j
  proof -
    have "k * stride + i = k' * stride + j" using that(3) assms(1) by (simp add: add_mult_distrib [symmetric])
    then show False using row_index_inj [of i stride j k k'] that(1,2) assms(2,3) by simp
  qed
  then show ?thesis by blast
qed

lemma output_loop:
  fixes m :: "'a::field memory"
  assumes sz: "0 < sz" and inv: "convolver_inv fft sz ao cao cc" and laws: "fft_laws fft ofReal (ccDftSize cc)"
    and stride: "ccBlockLength cc \<le> stride"
    and away: "output_blocks sz output stride n (ccBlockLength cc) \<inter> buffer_cells sz cc = {}" and k: "k \<le> n"
  shows "\<exists>m'. foldE (\<lambda>m i. transformOutput fft sz cc (R i) (elem sz output (i * stride)) c m) m [0..<k] = Inr m' \<and>
    (\<forall>i < k. \<forall>s < ccBlockLength cc. m' (elem sz output (i * stride + s)) =
       fftInverse fft (spectrum (ccDftSize cc) (\<lambda>j. c (elem (2 * sz) (R i) j))) ! (ccBlockLength cc + s)) \<and>
    same_outside (output_blocks sz output stride k (ccBlockLength cc) \<union> buffer_cells sz cc) m m'"
  using k
proof (induction k)
  case 0
  then show ?case by (simp add: same_outside_def)
next
  case (Suc k)
  let ?B = "ccBlockLength cc" and ?out = "\<lambda>i. elem sz output (i * stride)"
  let ?f = "\<lambda>m i. transformOutput fft sz cc (R i) (?out i) c m"
  let ?y = "\<lambda>i s. fftInverse fft (spectrum (ccDftSize cc) (\<lambda>j. c (elem (2 * sz) (R i) j))) ! (?B + s)"
  have out: "elem sz (?out i) s = elem sz output (i * stride + s)" for i s by (simp add: algebra_simps)
  obtain m1 where IH: "foldE ?f m [0..<k] = Inr m1" "\<forall>i < k. \<forall>s < ?B. m1 (elem sz output (i * stride + s)) = ?y i s"
    "same_outside (output_blocks sz output stride k ?B \<union> buffer_cells sz cc) m m1"
    using Suc.IH [OF Suc_leD [OF Suc.prems]] by blast
  have kn: "k < n" using Suc.prems by simp
  have aw: "block sz (?out i) ?B \<inter> buffer_cells sz cc = {}" if "i < n" for i using away that by blast
  obtain m2 where m2: "?f m1 k = Inr m2" "\<forall>s < ?B. m2 (elem sz (?out k) s) = ?y k s"
    "same_outside (block sz (?out k) ?B \<union> buffer_cells sz cc) m1 m2"
    using transformOutput_spec [OF sz inv laws aw [OF kn], of "R k" c m1] by blast
  have val: "m2 (elem sz output (i * stride + s)) = ?y i s" if "i < Suc k" "s < ?B" for i s
  proof (cases "i = k")
    case True
    then show ?thesis using m2(2) that(2) unfolding out by simp
  next
    case False
    then have ik: "i < k" using that(1) by simp
    have e: "elem sz output (i * stride + s) \<in> block sz (?out i) ?B" unfolding out [symmetric] by (rule imageI) (use that(2) in simp)
    have "(block sz (?out k) ?B \<union> buffer_cells sz cc) \<inter> block sz (?out i) ?B = {}"
      using strided_disjoint [OF sz stride, of k i] aw [of i] ik kn by (simp add: Int_Un_distrib Int_Un_distrib2 Int_commute)
    then have "m2 (elem sz output (i * stride + s)) = m1 (elem sz output (i * stride + s))" by (rule unchanged [OF m2(3) e])
    then show ?thesis using IH(2) ik that(2) by simp
  qed
  have "same_outside (output_blocks sz output stride (Suc k) ?B \<union> buffer_cells sz cc) m m2"
    by (rule same_outside_trans [OF same_outside_mono [OF IH(3)] same_outside_mono [OF m2(3)]])
      (auto simp: lessThan_Suc)
  moreover have "foldE ?f m [0..<Suc k] = Inr m2" using IH(1) m2(1) by (simp add: foldE_append)
  ultimately show ?case using val by blast
qed

lemma matrix_zero_cells:
  assumes "matrix_inv sz ao M" "0 < sz"
  shows "\<exists>c'. matrix_zeroFill sz M c = Inr c' \<and> same_outside (array_cells sz (mData M)) c c' \<and>
    (\<forall>i < mNumberOfRows M. \<forall>j < mNumberOfColumns M. c' (matrix_element sz M i j) = 0)"
proof -
  obtain c' where c': "matrix_fillValue sz 0 M c = Inr c'"
    "matrix_values sz c' M = replicate (mNumberOfRows M) (replicate (mNumberOfColumns M) 0)"
    "same_outside (array_cells sz (mData M)) c c'" using matrix_fill_spec [OF assms, of 0 c] by blast
  have "c' (matrix_element sz M i j) = 0" if "i < mNumberOfRows M" "j < mNumberOfColumns M" for i j
  proof -
    have "matrix_values sz c' M ! i ! j = c' (matrix_element sz M i j)" using that by (simp add: matrix_values_def)
    then show ?thesis using c'(2) that by simp
  qed
  then show ?thesis using c'(1,3) by (auto simp: matrix_zero_fill)
qed

lemma history_cong:
  assumes "circular_inv sz ao cb" "history sz m cb H" "same_outside A m m'"
    "A \<inter> array_cells sz (mData (cbBuffer cb)) = {}"
  shows "history sz m' cb H"
  unfolding history_def
proof (intro allI impI)
  fix ch p assume ch: "ch < cbNumberOfChannels cb" and p: "p < 2 * cbImplLength cb"
  have inv: "matrix_inv sz ao (cbBuffer cb)" "mNumberOfRows (cbBuffer cb) = cbNumberOfChannels cb"
    "mNumberOfColumns (cbBuffer cb) = 2 * cbImplLength cb" using assms(1) by (auto simp: circular_inv_def)
  have "matrix_element sz (cbBuffer cb) ch p \<in> array_cells sz (mData (cbBuffer cb))"
    by (rule element_in_cells [OF inv(1)]) (use ch p inv(2,3) in simp_all)
  from unchanged [OF assms(3) this assms(4)]
  show "m' (matrix_element sz (cbBuffer cb) ch p) = H ch (age (cbImplLength cb) (cbWriteHeadIndex cb) (p mod cbImplLength cb))"
    using assms(2) ch p by (simp add: history_def)
qed

lemma fdl_holds_cong:
  assumes inv: "convolver_inv fft sz ao cao cc" and "fdl_holds fft sz cc c H" "same_outside A c c'" "A \<inter> fdl_cells sz cc = {}"
  shows "fdl_holds fft sz cc c' H"
  unfolding fdl_holds_def
proof (intro allI impI)
  fix i b assume i: "i < ccNumberOfInputs cc" and b: "b < ccNumberOfFilterPartitions cc"
  have "samples_at (2 * sz) c' (getFdlBlock sz cc i b) (ccBlockLength cc + 1) = samples_at (2 * sz) c (getFdlBlock sz cc i b) (ccBlockLength cc + 1)"
  proof (rule nth_equalityI)
    fix j assume "j < length (samples_at (2 * sz) c' (getFdlBlock sz cc i b) (ccBlockLength cc + 1))"
    then have j: "j < ccBlockLength cc + 1" by simp
    then have "j < ccDftRepresentationSizePadded cc" using padded_props(1) [OF inv] by linarith
    from unchanged [OF assms(3) fdl_in_cells [OF inv i this] assms(4)]
    show "samples_at (2 * sz) c' (getFdlBlock sz cc i b) (ccBlockLength cc + 1) ! j
      = samples_at (2 * sz) c (getFdlBlock sz cc i b) (ccBlockLength cc + 1) ! j" using j by simp
  qed simp
  then show "samples_at (2 * sz) c' (getFdlBlock sz cc i b) (ccBlockLength cc + 1) = fftForward fft (input_window (ccBlockLength cc) (H i) b)"
    using assms(2) i b by (simp add: fdl_holds_def)
qed

lemma filters_hold_cong:
  assumes inv: "convolver_inv fft sz ao cao cc" and "filters_hold fft sz cc c h" "same_outside A c c'" "A \<inter> filter_cells sz cc = {}"
  shows "filters_hold fft sz cc c' h"
  unfolding filters_hold_def
proof (intro allI impI)
  fix f p assume f: "f < maxNumberOfFilterEntries cc" and p: "p < ccNumberOfFilterPartitions cc"
  have "samples_at (2 * sz) c' (getFdFilterPartition sz cc f p) (ccBlockLength cc + 1) = samples_at (2 * sz) c (getFdFilterPartition sz cc f p) (ccBlockLength cc + 1)"
  proof (rule nth_equalityI)
    fix j assume "j < length (samples_at (2 * sz) c' (getFdFilterPartition sz cc f p) (ccBlockLength cc + 1))"
    then have j: "j < ccBlockLength cc + 1" by simp
    then have "j < ccDftRepresentationSizePadded cc" using padded_props(1) [OF inv] by linarith
    from unchanged [OF assms(3) filter_in_cells [OF inv f p this] assms(4)]
    show "samples_at (2 * sz) c' (getFdFilterPartition sz cc f p) (ccBlockLength cc + 1) ! j
      = samples_at (2 * sz) c (getFdFilterPartition sz cc f p) (ccBlockLength cc + 1) ! j" using j by simp
  qed simp
  then show "samples_at (2 * sz) c' (getFdFilterPartition sz cc f p) (ccBlockLength cc + 1)
      = fftForward fft (filter_window (ccBlockLength cc) (ccFilterScalingFactor cc) (h f) p)"
    using assms(2) f p by (simp add: filters_hold_def)
qed

text \<open>The spectrum of an output is that of the sum of its convolutions.\<close>

lemma output_value:
  fixes c :: "'c::comm_ring_1 memory"
  assumes inv: "convolver_inv fft sz ao cao cc" and laws: "fft_laws fft ofReal (ccDftSize cc)"
    and fdl: "fdl_holds fft sz cc c H" and fil: "filters_hold fft sz cc c h"
    and rs: "\<forall>r \<in> set rs. reInput r < ccNumberOfInputs cc \<and> reFilter r < maxNumberOfFilterEntries cc"
    and s: "s < ccBlockLength cc"
  shows "fftInverse fft (spectrum (ccDftSize cc) (\<lambda>j. \<Sum>r\<leftarrow>rs. contribution ofReal sz cc c j r)) ! (ccBlockLength cc + s) =
    forwardScalingFactor fft * (\<Sum>r\<leftarrow>rs. reGain r *
      convolved (ccNumberOfFilterPartitions cc * ccBlockLength cc) (ccBlockLength cc) (h (reFilter r)) (H (reInput r)) s)"
proof -
  let ?B = "ccBlockLength cc" and ?P = "ccNumberOfFilterPartitions cc" and ?S = "ccFilterScalingFactor cc"
  note D = convolver_invD [OF inv]
  have t: "?B + s < ccDftSize cc" using s D(2) by simp
  have one: "fftInverse fft (spectrum (ccDftSize cc) (\<lambda>j. contribution ofReal sz cc c j r)) ! (?B + s)
    = forwardScalingFactor fft * (reGain r * convolved (?P * ?B) ?B (h (reFilter r)) (H (reInput r)) s)" if r: "r \<in> set rs" for r
  proof -
    have ri: "reInput r < ccNumberOfInputs cc" "reFilter r < maxNumberOfFilterEntries cc" using rs r by auto
    let ?X = "\<lambda>b. fftForward fft (input_window ?B (H (reInput r)) b)" and ?Y = "\<lambda>b. fftForward fft (filter_window ?B ?S (h (reFilter r)) b)"
    have c: "c (elem (2 * sz) (getFdlBlock sz cc (reInput r) b) j) = ?X b ! j"
      "c (elem (2 * sz) (getFdFilterPartition sz cc (reFilter r) b) j) = ?Y b ! j" if "b < ?P" "j < ?B + 1" for b j
    proof -
      have "samples_at (2 * sz) c (getFdlBlock sz cc (reInput r) b) (?B + 1) ! j = ?X b ! j"
        using fdl ri(1) that(1) by (simp add: fdl_holds_def)
      then show "c (elem (2 * sz) (getFdlBlock sz cc (reInput r) b) j) = ?X b ! j" using that(2) by simp
      have "samples_at (2 * sz) c (getFdFilterPartition sz cc (reFilter r) b) (?B + 1) ! j = ?Y b ! j"
        using fil ri(2) that(1) by (simp add: filters_hold_def)
      then show "c (elem (2 * sz) (getFdFilterPartition sz cc (reFilter r) b) j) = ?Y b ! j" using that(2) by simp
    qed
    have "spectrum (ccDftSize cc) (\<lambda>j. contribution ofReal sz cc c j r)
      = spectrum (ccDftSize cc) (\<lambda>j. ofReal (reGain r) * (\<Sum>b<?P. ?X b ! j * ?Y b ! j))"
    proof (rule spectrum_cong)
      fix j assume "j < ccDftSize cc div 2 + 1"
      then have j: "j < ?B + 1" using D(2) by simp
      show "contribution ofReal sz cc c j r = ofReal (reGain r) * (\<Sum>b<?P. ?X b ! j * ?Y b ! j)"
        unfolding contribution_def using c [OF _ j] by simp
    qed
    then have "fftInverse fft (spectrum (ccDftSize cc) (\<lambda>j. contribution ofReal sz cc c j r)) ! (?B + s)
      = reGain r * fftInverse fft (spectrum (ccDftSize cc) (\<lambda>j. \<Sum>b<?P. ?X b ! j * ?Y b ! j)) ! (?B + s)"
      using inverse_scale [OF laws t] by simp
    also have "fftInverse fft (spectrum (ccDftSize cc) (\<lambda>j. \<Sum>b<?P. ?X b ! j * ?Y b ! j)) ! (?B + s)
      = forwardScalingFactor fft * convolved (?P * ?B) ?B (h (reFilter r)) (H (reInput r)) s"
      unfolding D(2) by (rule partitioned_convolution [OF _ s]) (use laws D(2,7) in simp_all)
    finally show ?thesis by (simp add: mult.left_commute)
  qed
  have "fftInverse fft (spectrum (ccDftSize cc) (\<lambda>j. \<Sum>r\<leftarrow>rs. contribution ofReal sz cc c j r)) ! (?B + s)
    = (\<Sum>r\<leftarrow>rs. forwardScalingFactor fft * (reGain r * convolved (?P * ?B) ?B (h (reFilter r)) (H (reInput r)) s))"
    unfolding inverse_sum_list [OF laws t] using one by (intro arg_cong [where f = sum_list] map_cong) auto
  also have "\<dots> = forwardScalingFactor fft * (\<Sum>r\<leftarrow>rs. reGain r * convolved (?P * ?B) ?B (h (reFilter r)) (H (reInput r)) s)"
    by (simp add: sum_list_const_mult)
  finally show ?thesis .
qed

section \<open>Fast convolution\<close>

text \<open>
  The memory that the caller passes: the inputs are aligned to samples and lie apart from the ring
  buffer, the outputs lie apart from the ring buffer and the transform buffer.
\<close>

definition caller_memory :: "nat \<Rightarrow> 'a core_convolver \<Rightarrow> nat \<Rightarrow> nat \<Rightarrow> nat \<Rightarrow> nat \<Rightarrow> bool" where
  "caller_memory sz cc input inputStride output outputStride \<longleftrightarrow>
     readable sz (ccInputBuffers cc) (\<lambda>i. elem sz input (i * inputStride)) (ccBlockLength cc) \<and>
     ccBlockLength cc \<le> outputStride \<and>
     output_blocks sz output outputStride (ccNumberOfOutputs cc) (ccBlockLength cc) \<inter>
       (ring_cells sz cc \<union> buffer_cells sz cc) = {}"

lemma process_block_spec:
  fixes m :: "'a::field memory" and c :: "'c::comm_ring_1 memory"
  assumes sz: "sz = 2 ^ l" "l < 64" and laws: "fft_laws fft ofReal (ccDftSize (mcCoreConvolver mc))"
    and st: "convolver_state fft sz ao cao mc m c H h"
    and mem: "caller_memory sz (mcCoreConvolver mc) input inputStride output outputStride"
    and H': "H' = (\<lambda>i. appended (ccBlockLength (mcCoreConvolver mc)) (\<lambda>k. m (elem sz input (i * inputStride + k))) (H i))"
    and B: "B = ccBlockLength (mcCoreConvolver mc)" and P: "P = ccNumberOfFilterPartitions (mcCoreConvolver mc)"
    and nOut: "nOut = ccNumberOfOutputs (mcCoreConvolver mc)"
  shows "\<exists>core m' c'. process_block fft ofReal sz mc input inputStride output outputStride al m c
      = Inr (mc\<lparr>mcCoreConvolver := core\<rparr>, m', c') \<and>
    convolver_state fft sz ao cao (mc\<lparr>mcCoreConvolver := core\<rparr>) m' c' H' h \<and>
    (\<forall>k < nOut. \<forall>s < B. m' (elem sz output (k * outputStride + s)) = forwardScalingFactor fft *
       (\<Sum>r\<leftarrow>filter (\<lambda>r. reOutput r = k) (mcRoutingTable mc).
          reGain r * convolved (P * B) B (h (reFilter r)) (H' (reInput r)) s)) \<and>
    same_outside (output_blocks sz output outputStride nOut B \<union> ring_cells sz (mcCoreConvolver mc)
      \<union> buffer_cells sz (mcCoreConvolver mc)) m m'"
proof -
  let ?cc = "mcCoreConvolver mc" and ?M = "mcFrequencyDomainOutput mc" and ?rs = "mcRoutingTable mc"
  have lay: "convolver_layout fft sz ao cao mc" and tab: "valid_table mc" and hist: "history sz m (ccInputBuffers ?cc) H"
    and fdl: "fdl_holds fft sz ?cc c H" and fil: "filters_hold fft sz ?cc c h"
    using st by (simp_all add: convolver_state_def)
  note L = convolver_layoutD [OF lay]
  have sz0: "0 < sz" "0 < 2 * sz" using sz by simp_all
  obtain buf m1 c1 where p: "processInputs fft sz ?cc input inputStride al m c
      = Inr (advanceFDL (?cc\<lparr>ccInputBuffers := buf\<rparr>), m1, c1)"
    "convolver_inv fft sz ao cao (advanceFDL (?cc\<lparr>ccInputBuffers := buf\<rparr>))" "history sz m1 buf H'"
    "fdl_holds fft sz (advanceFDL (?cc\<lparr>ccInputBuffers := buf\<rparr>)) c1 H'"
    "cbBuffer buf = cbBuffer (ccInputBuffers ?cc)"
    "same_outside (ring_cells sz ?cc) m m1" "same_outside (fdl_cells sz ?cc) c c1"
    using processInputs_spec [OF sz L(1) laws hist fdl conjunct1 [OF mem [unfolded caller_memory_def]] H', of al]
    unfolding Let_def by blast
  define core where "core = advanceFDL (?cc\<lparr>ccInputBuffers := buf\<rparr>)"
  let ?mc = "mc\<lparr>mcCoreConvolver := core\<rparr>"
  have sel: "ccNumberOfInputs core = ccNumberOfInputs ?cc" "ccNumberOfOutputs core = nOut"
    "ccBlockLength core = B" "ccNumberOfFilterPartitions core = P" "ccDftSize core = ccDftSize ?cc"
    "ccDftRepresentationSizePadded core = ccDftRepresentationSizePadded ?cc" "ccComplexAlignment core = ccComplexAlignment ?cc"
    "ccInputFDL core = ccInputFDL ?cc" "ccFilterPartitionsFrequencyDomain core = ccFilterPartitionsFrequencyDomain ?cc"
    "ccFrequencyDomainAccumulator core = ccFrequencyDomainAccumulator ?cc"
    "ccTimeDomainTransformBuffer core = ccTimeDomainTransformBuffer ?cc" "ccInputBuffers core = buf"
    "ccFilterScalingFactor core = ccFilterScalingFactor ?cc"
    unfolding core_def B P nOut by (simp_all add: advanceFDL_def)
  have inv': "convolver_inv fft sz ao cao core" using p(2) by (simp add: core_def)
  have dis': "members_disjoint sz core" using L(2) by (simp add: members_disjoint_def sel p(5))
  have lay': "convolver_layout fft sz ao cao ?mc"
    using lay inv' dis' by (simp add: convolver_layout_def Let_def sel nOut)
  have tab': "valid_table ?mc" using tab by (simp add: valid_table_def sel nOut)
  have laws': "fft_laws fft ofReal (ccDftSize core)" using laws by (simp add: sel)
  have fil1: "filters_hold fft sz core c1 h"
  proof -
    have "filters_hold fft sz ?cc c1 h"
      by (rule filters_hold_cong [OF L(1) fil p(7)]) (use L(2) in \<open>simp add: members_disjoint_def\<close>)
    then show ?thesis by (simp add: filters_hold_def sel getFdFilterPartition_def B [symmetric] P [symmetric])
  qed
  have fdl1: "fdl_holds fft sz core c1 H'" using p(4) by (simp add: core_def)
  note L' = convolver_layoutD [OF lay', simplified]
  obtain c2 where c2: "matrix_zeroFill (2 * sz) ?M c1 = Inr c2" "same_outside (output_cells sz mc) c1 c2"
    "\<forall>i < mNumberOfRows ?M. \<forall>j < mNumberOfColumns ?M. c2 (matrix_element (2 * sz) ?M i j) = 0"
    using matrix_zero_cells [OF L(3) sz0(2), of c1] by blast
  have fdl2: "fdl_holds fft sz core c2 H'" by (rule fdl_holds_cong [OF inv' fdl1 c2(2) L'(7)])
  have fil2: "filters_hold fft sz core c2 h" by (rule filters_hold_cong [OF inv' fil1 c2(2) L'(8)])
  have rs: "\<forall>r \<in> set ?rs. reInput r < ccNumberOfInputs core \<and> reOutput r < ccNumberOfOutputs core \<and>
      reFilter r < maxNumberOfFilterEntries core" using tab' by (simp add: valid_table_def)
  let ?row = "matrix_row (2 * sz) ?M" and ?n = "ccDftRepresentationSizePadded core"
  obtain c3 where c3: "foldE (\<lambda>c r. processFilter ofReal sz core (reInput r) (reFilter r) (reGain r) (?row (reOutput r)) True c) c2 ?rs = Inr c3"
    "\<forall>k < ccNumberOfOutputs core. \<forall>j < ?n. c3 (elem (2 * sz) (?row k) j) = c2 (elem (2 * sz) (?row k) j) +
       (\<Sum>r\<leftarrow>filter (\<lambda>r. reOutput r = k) ?rs. contribution ofReal sz core c2 j r)"
    "same_outside (output_cells sz mc \<union> accumulator_cells sz core) c2 c3"
    using routing_loop [OF sz(1) lay', of ?rs ofReal c2] rs by auto
  have away3: "(output_cells sz mc \<union> accumulator_cells sz core) \<inter> fdl_cells sz core = {}"
    "(output_cells sz mc \<union> accumulator_cells sz core) \<inter> filter_cells sz core = {}"
    using L'(7,8) dis' unfolding members_disjoint_def by blast+
  have fdl3: "fdl_holds fft sz core c3 H'" by (rule fdl_holds_cong [OF inv' fdl2 c3(3) away3(1)])
  have fil3: "filters_hold fft sz core c3 h" by (rule filters_hold_cong [OF inv' fil2 c3(3) away3(2)])
  have outs: "output_blocks sz output outputStride nOut B \<inter> buffer_cells sz core = {}" "B \<le> outputStride"
    "output_blocks sz output outputStride nOut B \<inter> ring_cells sz ?cc = {}"
    using mem unfolding caller_memory_def B nOut sel(11) by blast+
  obtain m2 where m2: "foldE (\<lambda>m i. transformOutput fft sz core (?row i) (elem sz output (i * outputStride)) c3 m) m1 [0..<nOut] = Inr m2"
    "\<forall>i < nOut. \<forall>s < B. m2 (elem sz output (i * outputStride + s)) =
       fftInverse fft (spectrum (ccDftSize core) (\<lambda>j. c3 (elem (2 * sz) (?row i) j))) ! (B + s)"
    "same_outside (output_blocks sz output outputStride nOut B \<union> buffer_cells sz core) m1 m2"
    using output_loop [OF sz0(1) inv' laws', unfolded sel(3), OF outs(2,1) order_refl, of ?row c3 m1] by blast
  have val: "m2 (elem sz output (k * outputStride + s)) = forwardScalingFactor fft *
       (\<Sum>r\<leftarrow>filter (\<lambda>r. reOutput r = k) ?rs. reGain r * convolved (P * B) B (h (reFilter r)) (H' (reInput r)) s)"
    if k: "k < nOut" and s: "s < B" for k s
  proof -
    let ?f = "filter (\<lambda>r. reOutput r = k) ?rs"
    have "spectrum (ccDftSize core) (\<lambda>j. c3 (elem (2 * sz) (?row k) j))
      = spectrum (ccDftSize core) (\<lambda>j. \<Sum>r\<leftarrow>?f. contribution ofReal sz core c2 j r)"
    proof (rule spectrum_cong)
      fix j assume "j < ccDftSize core div 2 + 1"
      then have "j < B + 1" using convolver_invD(2) [OF inv'] by (simp add: sel)
      then have j: "j < ?n" using padded_props(1) [OF inv'] by (simp add: sel)
      have "c2 (matrix_element (2 * sz) ?M k j) = 0" using c2(3) k j L'(4,5) sel(2) by simp
      then show "c3 (elem (2 * sz) (?row k) j) = (\<Sum>r\<leftarrow>?f. contribution ofReal sz core c2 j r)"
        using c3(2) k j sel(2) by (simp add: matrix_row_element)
    qed
    then have "m2 (elem sz output (k * outputStride + s))
      = fftInverse fft (spectrum (ccDftSize core) (\<lambda>j. \<Sum>r\<leftarrow>?f. contribution ofReal sz core c2 j r)) ! (B + s)"
      using m2(2) k s by simp
    also have "\<dots> = forwardScalingFactor fft *
       (\<Sum>r\<leftarrow>?f. reGain r * convolved (P * B) B (h (reFilter r)) (H' (reInput r)) s)"
      using output_value [OF inv' laws' fdl2 fil2, of ?f s] rs s by (simp add: sel)
    finally show ?thesis .
  qed
  have hist2: "history sz m2 buf H'"
  proof (rule history_cong [OF _ p(3) m2(3)])
    show "circular_inv sz ao buf" using convolver_inv_ring(1) [OF inv'] by (simp add: sel)
    show "(output_blocks sz output outputStride nOut B \<union> buffer_cells sz core) \<inter> array_cells sz (mData (cbBuffer buf)) = {}"
      using outs(3) dis' p(5) unfolding members_disjoint_def sel(12) by auto
  qed
  have "process_block fft ofReal sz mc input inputStride output outputStride al m c = Inr (?mc, m2, c3)"
  proof -
    have "processOutputs fft ofReal sz ?mc output outputStride m1 c1 = Inr (m2, c3)"
      unfolding processOutputs_def Let_def using c2(1) c3(1) m2(1) by (simp add: sel(2))
    then show ?thesis unfolding process_block_def p(1) by (simp add: core_def [symmetric])
  qed
  moreover have "convolver_state fft sz ao cao ?mc m2 c3 H' h"
    using lay' tab' hist2 fdl3 fil3 by (simp add: convolver_state_def sel)
  moreover have "same_outside (output_blocks sz output outputStride nOut B \<union> ring_cells sz ?cc \<union> buffer_cells sz ?cc) m m2"
    by (rule same_outside_trans [OF same_outside_mono [OF p(6)] same_outside_mono [OF m2(3)]]) (auto simp: sel)
  ultimately show ?thesis using val by blast
qed

end
