(* ===== verification/Convolver_Construction.thy ===== *)
theory Convolver_Construction
  imports Multichannel_Convolver
begin

text \<open>
  The construction of a convolver (\<open>src/librbbl/core_convolver_uniform.cpp\<close> and
  \<open>multichannel_convolver_uniform.cpp\<close>): the sizes of its members, the loading of the initial filters
  and the initial routings give a convolver for a silent past.
\<close>

definition MultichannelConvolverUniform ::
  "('a, 'c) fft_wrapper \<Rightarrow> nat \<Rightarrow> nat \<Rightarrow> nat \<Rightarrow> nat \<times> nat \<times> nat \<times> nat \<times> nat \<Rightarrow> nat \<Rightarrow> ('g \<Rightarrow> 'a) \<Rightarrow> nat \<Rightarrow> nat \<Rightarrow> nat \<Rightarrow> nat \<Rightarrow> nat
   \<Rightarrow> nat \<Rightarrow> 'g filter_routing list \<Rightarrow> basic_matrix \<Rightarrow> nat \<Rightarrow> 'a::field memory \<Rightarrow> 'c::zero memory
   \<Rightarrow> exn + 'a multichannel_convolver \<times> 'a memory \<times> 'c memory" where
  "MultichannelConvolverUniform fft sz ao cao raws raw6 toSample numberOfInputs numberOfOutputs blockLength maxFilterLength
       maxRoutingPoints maxFilterEntries initialRoutings initialFilters alignment m c =
     bindE (CoreConvolverUniform fft sz ao cao raws numberOfInputs numberOfOutputs blockLength maxFilterLength
              maxFilterEntries initialFilters alignment m c) (\<lambda>(core, m, c).
     bindE (BasicMatrix (2 * sz) cao raw6 numberOfOutputs (ccDftRepresentationSizePadded core) (ccComplexAlignment core) c)
       (\<lambda>(M, c).
         case initRoutingTable toSample initialRoutings
                \<lparr>mcCoreConvolver = core, mcRoutingTable = [], mcMaxNumberOfRoutingPoints = maxRoutingPoints,
                 mcFrequencyDomainOutput = M\<rparr> of
           (mc, Some e) \<Rightarrow> Inl e
         | (mc, None) \<Rightarrow> Inr (mc, m, c)))"

section \<open>What the allocator returns\<close>

lemma BasicMatrix_cells:
  fixes m :: "'a::zero memory"
  assumes "BasicMatrix sz ao raw rows columns al m = Inr (M, m')"
    and "al = 0 \<or> (\<exists>k. al = 2 ^ k)" "max 1 al * sz < 2 ^ 64" "0 < sz" "ao dvd sz"
    and "fresh ao raw ((nextAlignedSize columns al * rows + max 1 al) * sz)"
  shows "array_cells sz (mData M) \<subseteq> raw_block raw ((nextAlignedSize columns al * rows + max 1 al) * sz)"
proof -
  let ?n = "nextAlignedSize columns al * rows"
  obtain a where a: "AlignedArray sz ao raw ?n al = Inr a" "array_inv sz ao a" "mArrayLength a = ?n"
    "mAlignment a = max 1 al" "mRawStorage a = (if ?n = 0 then 0 else raw)"
    using AlignedArray_inv [OF assms(2-6)] by blast
  have M: "mData M = a" using assms(1) a(1) by (auto simp: BasicMatrix_def Let_def)
  show ?thesis
  proof (cases "?n = 0")
    case True
    then show ?thesis unfolding M array_cells_def a(3) by (simp only: lessThan_0 image_empty empty_subsetI)
  next
    case False
    then show ?thesis using cells_raw_block [OF a(2) assms(4), of "?n + max 1 al"] a(3-5) M by simp
  qed
qed

lemma BasicVector_cells:
  fixes m :: "'a::zero memory"
  assumes "BasicVector sz ao raw n al m = Inr (v, m')"
    and "al = 0 \<or> (\<exists>k. al = 2 ^ k)" "max 1 al * sz < 2 ^ 64" "0 < sz" "ao dvd sz" "fresh ao raw ((n + max 1 al) * sz)"
  shows "array_cells sz v \<subseteq> raw_block raw ((n + max 1 al) * sz)" "mArrayLength v = n"
proof -
  obtain a where a: "AlignedArray sz ao raw n al = Inr a" "array_inv sz ao a" "mArrayLength a = n"
    "mAlignment a = max 1 al" "mRawStorage a = (if n = 0 then 0 else raw)"
    using AlignedArray_inv [OF assms(2-6)] by blast
  have v: "v = a" using assms(1) a(1) by (auto simp: BasicVector_def)
  show "mArrayLength v = n" using v a(3) by simp
  show "array_cells sz v \<subseteq> raw_block raw ((n + max 1 al) * sz)"
  proof (cases "n = 0")
    case True
    then show ?thesis using a(3) v by (simp add: array_cells_def)
  next
    case False
    then show ?thesis using cells_raw_block [OF a(2) assms(4), of "n + max 1 al"] a(3-5) v by simp
  qed
qed

lemma half_alignment:
  assumes "al = 0 \<or> (\<exists>k. al = (2::nat) ^ k)" "max 1 al * sz < 2 ^ 64" "2 * sz < 2 ^ 64"
  shows "al div 2 = 0 \<or> (\<exists>k. al div 2 = 2 ^ k)" "max 1 (al div 2) * (2 * sz) < 2 ^ 64"
proof -
  have "al div 2 = 0 \<or> (\<exists>k. al div 2 = 2 ^ k) \<and> max 1 (al div 2) * 2 = al"
  proof (cases "al = 0")
    case False
    then obtain k where k: "al = 2 ^ k" using assms(1) by blast
    show ?thesis
    proof (cases k)
      case 0
      then show ?thesis using k by simp
    next
      case (Suc j)
      then have "al div 2 = 2 ^ j" "max 1 (al div 2) * 2 = al" using k by (simp_all add: max_absorb2)
      then show ?thesis by blast
    qed
  qed simp
  then show "al div 2 = 0 \<or> (\<exists>k. al div 2 = 2 ^ k)" "max 1 (al div 2) * (2 * sz) < 2 ^ 64"
    using assms(2,3) by (auto simp: max_def split: if_splits) 
qed

text \<open>
  The allocations of a convolver with \<open>I\<close> inputs, \<open>O\<close> outputs, blocks of length \<open>B\<close>, \<open>P\<close> partitions and
  \<open>F\<close> filters: fresh blocks of memory that do not overlap.
\<close>

definition pairwise_disjoint :: "nat set list \<Rightarrow> bool" where
  "pairwise_disjoint As \<longleftrightarrow> (\<forall>i < length As. \<forall>j < length As. i \<noteq> j \<longrightarrow> As ! i \<inter> As ! j = {})"

lemma pairwise_disjointD:
  "pairwise_disjoint As \<Longrightarrow> i < length As \<Longrightarrow> j < length As \<Longrightarrow> i \<noteq> j \<Longrightarrow> As ! i \<inter> As ! j = {}"
  by (simp add: pairwise_disjoint_def)

definition row_bytes :: "nat \<Rightarrow> nat \<Rightarrow> nat \<Rightarrow> nat \<Rightarrow> nat" where
  "row_bytes sz columns rows al = (nextAlignedSize columns al * rows + max 1 al) * sz"

definition sample_allocations :: "nat \<Rightarrow> nat \<Rightarrow> nat \<times> nat \<times> nat \<times> nat \<times> nat \<Rightarrow> nat \<Rightarrow> nat \<Rightarrow> nat \<Rightarrow> nat set \<Rightarrow> bool" where
  "sample_allocations sz ao = (\<lambda>(raw1, raw2, raw3, raw4, raw5) I B al A.
     let s1 = row_bytes sz (2 * nextAlignedSize (2 * B) al) I al; s3 = (2 * B + max 1 al) * sz
     in fresh ao raw1 s1 \<and> fresh ao raw3 s3 \<and> pairwise_disjoint [raw_block raw1 s1, raw_block raw3 s3, A])"

definition complex_allocations ::
  "nat \<Rightarrow> nat \<Rightarrow> nat \<times> nat \<times> nat \<times> nat \<times> nat \<Rightarrow> nat \<Rightarrow> nat \<Rightarrow> nat \<Rightarrow> nat \<Rightarrow> nat \<Rightarrow> nat \<Rightarrow> nat \<Rightarrow> bool" where
  "complex_allocations sz cao = (\<lambda>(raw1, raw2, raw3, raw4, raw5) raw6 I nOut B P F al.
     let ca = al div 2; n = nextAlignedSize (B + 1) ca;
         s2 = row_bytes (2 * sz) (n * P) I ca; s4 = row_bytes (2 * sz) (n * P) F ca;
         s5 = (n + max 1 ca) * (2 * sz); s6 = row_bytes (2 * sz) n nOut ca
     in fresh cao raw2 s2 \<and> fresh cao raw4 s4 \<and> fresh cao raw5 s5 \<and> fresh cao raw6 s6 \<and>
        pairwise_disjoint [raw_block raw2 s2, raw_block raw4 s4, raw_block raw5 s5, raw_block raw6 s6])"

section \<open>Loading filters\<close>

lemma zero_spectrum:
  assumes "fft_laws fft ofReal N"
  shows "fftForward fft (map (\<lambda>k. 0) [0..<N]) = replicate (N div 2 + 1) 0"
proof -
  have "map (\<lambda>k. 0) [0..<N] = replicate N (0::'a::field)" by (simp add: map_replicate_const)
  then show ?thesis using assms by (simp add: fft_laws_def)
qed

lemma filter_window_zero: "filter_window B scale (\<lambda>n. 0 :: 'a::field) p = map (\<lambda>k. 0) [0..<2 * B]"
  by (simp add: filter_window_def)

lemma input_window_zero: "input_window B (\<lambda>k. 0) b = map (\<lambda>k. 0) [0..<2 * B]"
  by (simp add: input_window_def)

lemma zero_samples:
  "(\<And>j. j < n \<Longrightarrow> c (elem sz p j) = 0) \<Longrightarrow> samples_at sz c p n = replicate n 0"
  by (rule nth_equalityI) simp_all

lemma zero_row_spec:
  fixes c :: "'c::comm_ring_1 memory"
  assumes sz: "sz = 2 ^ l" and inv: "convolver_inv fft sz ao cao cc" and laws: "fft_laws fft ofReal (ccDftSize cc)"
    and hold: "filters_hold fft sz cc c h" and f: "f < maxNumberOfFilterEntries cc"
  defines "M \<equiv> ccFilterPartitionsFrequencyDomain cc"
  shows "\<exists>c'. or_throw runtime_error (vectorZero (2 * sz) (matrix_row (2 * sz) M f) (mNumberOfColumns M) (ccComplexAlignment cc) c)
      = Inr c' \<and> filters_hold fft sz cc c' (h(f := \<lambda>n. 0)) \<and> same_outside (filter_cells sz cc) c c'"
proof -
  let ?row = "matrix_row (2 * sz) M f" and ?n = "mNumberOfColumns M" and ?P = "ccNumberOfFilterPartitions cc"
  let ?pad = "ccDftRepresentationSizePadded cc" and ?B = "ccBlockLength cc"
  note F = convolver_inv_filters [OF inv, folded M_def] and D = convolver_invD [OF inv]
  have sz2: "0 < 2 * sz" using sz by simp
  have row: "?row = getFdFilterPartition sz cc f 0" by (simp add: getFdFilterPartition_def M_def)
  have al: "\<forall>p \<in> set [?row]. checkAlignment (2 * sz) p (ccComplexAlignment cc)"
    using pointers_aligned(2) [OF sz inv f D(3)] row by simp
  have "outcome (2 * sz) (ccComplexAlignment cc) [?row] ?n (elem (2 * sz) ?row) (\<lambda>i. 0) c
      (vectorZero (2 * sz) ?row ?n (ccComplexAlignment cc) c)"
    unfolding vectorZero_def by (rule checked_for_each [OF inj_elem [OF sz2]]) simp
  from throw_stored [OF this al] obtain c' where c': "or_throw runtime_error
      (vectorZero (2 * sz) ?row ?n (ccComplexAlignment cc) c) = Inr c'" "stored ?n (elem (2 * sz) ?row) (\<lambda>i. 0) c c'" by blast
  have blk: "elem (2 * sz) (getFdFilterPartition sz cc f p) j = elem (2 * sz) ?row (p * ?pad + j)" for p j
    unfolding filter_element matrix_row_element M_def ..
  have "filters_hold fft sz cc c' (h(f := \<lambda>n. 0))"
    unfolding filters_hold_def
  proof (intro allI impI)
    fix g p assume g: "g < maxNumberOfFilterEntries cc" and p: "p < ?P"
    have pj: "p * ?pad + j < ?n" if "j < ?pad" for j unfolding F(2) by (rule index_in_rows [OF p that order_refl])
    have jp: "j < ?pad" if "j < ?B + 1" for j using that padded_props(1) [OF inv] by linarith
    show "samples_at (2 * sz) c' (getFdFilterPartition sz cc g p) (?B + 1) =
      fftForward fft (filter_window ?B (ccFilterScalingFactor cc) ((h(f := \<lambda>n. 0)) g) p)"
    proof (cases "g = f")
      case True
      have "c' (elem (2 * sz) (getFdFilterPartition sz cc f p) j) = 0" if "j < ?B + 1" for j
        unfolding blk using c'(2) pj [OF jp [OF that]] by (simp add: stored_def)
      then have "samples_at (2 * sz) c' (getFdFilterPartition sz cc f p) (?B + 1) = replicate (?B + 1) 0" by (rule zero_samples)
      then show ?thesis using True zero_spectrum [OF laws] D(2) by (simp add: filter_window_zero)
    next
      case False
      have "samples_at (2 * sz) c' (getFdFilterPartition sz cc g p) (?B + 1) = samples_at (2 * sz) c (getFdFilterPartition sz cc g p) (?B + 1)"
      proof (rule nth_equalityI)
        fix j assume "j < length (samples_at (2 * sz) c' (getFdFilterPartition sz cc g p) (?B + 1))"
        then have j: "j < ?B + 1" by simp
        have "elem (2 * sz) (getFdFilterPartition sz cc g p) j \<noteq> elem (2 * sz) ?row i" if i: "i < ?n" for i
          using element_inj [OF F(1) sz2 pj [OF jp [OF j]] i, of g f] False
          unfolding filter_element matrix_row_element M_def by blast
        then have "elem (2 * sz) (getFdFilterPartition sz cc g p) j \<notin> block (2 * sz) ?row ?n" by blast
        then show "samples_at (2 * sz) c' (getFdFilterPartition sz cc g p) (?B + 1) ! j
          = samples_at (2 * sz) c (getFdFilterPartition sz cc g p) (?B + 1) ! j" using c'(2) j by (simp add: stored_def)
      qed simp
      then show ?thesis using hold g p False by (simp add: filters_hold_def)
    qed
  qed
  moreover have "same_outside (filter_cells sz cc) c c'"
    using same_outside_mono [OF stored_block [OF c'(2)] row_cells [OF F(1)]] f by (simp add: M_def)
  ultimately show ?thesis using c'(1) by blast
qed

text \<open>The filters of a matrix: its rows, and nothing for the others.\<close>

definition initial_filters :: "nat \<Rightarrow> nat \<Rightarrow> nat \<Rightarrow> 'a::zero memory \<Rightarrow> basic_matrix \<Rightarrow> nat \<Rightarrow> nat \<Rightarrow> nat \<Rightarrow> 'a" where
  "initial_filters sz B al m R k f =
     (if f < k then loaded sz B (min al (mAlignment (mData R))) m (matrix_row sz R f) (mNumberOfColumns R) else (\<lambda>n. 0))"

lemma initial_filters_Suc:
  "(initial_filters sz B al m R k)(k := loaded sz B (min al (mAlignment (mData R))) m (matrix_row sz R k) (mNumberOfColumns R))
    = initial_filters sz B al m R (Suc k)"
  by (rule ext) (simp add: initial_filters_def)

lemma filter_loop:
  fixes m :: "'a::field memory" and c :: "'c::comm_ring_1 memory"
  assumes sz: "sz = 2 ^ l" and inv: "convolver_inv fft sz ao cao cc" and laws: "fft_laws fft ofReal (ccDftSize cc)"
    and R: "matrix_inv sz aoR R" "mNumberOfColumns R \<le> ccMaxFilterLength cc"
    and away: "array_cells sz (mData R) \<inter> buffer_cells sz cc = {}"
    and hold: "filters_hold fft sz cc c (\<lambda>f n. 0)"
    and k: "k \<le> mNumberOfRows R" "k \<le> maxNumberOfFilterEntries cc"
  shows "\<exists>m' c'. foldE (\<lambda>mc f. setImpulseResponse fft sz cc (matrix_row sz R f) (mNumberOfColumns R) f (mAlignment (mData R)) mc)
      (m, c) [0..<k] = Inr (m', c') \<and>
    filters_hold fft sz cc c' (initial_filters sz (ccBlockLength cc) (ccAlignment cc) m R k) \<and>
    same_outside (buffer_cells sz cc) m m' \<and> same_outside (filter_cells sz cc) c c'"
  using k
proof (induction k)
  case 0
  then show ?case using hold by (simp add: same_outside_def initial_filters_def [abs_def])
next
  case (Suc k)
  let ?f = "\<lambda>mc f. setImpulseResponse fft sz cc (matrix_row sz R f) (mNumberOfColumns R) f (mAlignment (mData R)) mc"
  let ?B = "ccBlockLength cc" and ?al = "ccAlignment cc" and ?row = "matrix_row sz R k" and ?L = "mNumberOfColumns R"
  obtain m1 c1 where IH: "foldE ?f (m, c) [0..<k] = Inr (m1, c1)" "filters_hold fft sz cc c1 (initial_filters sz ?B ?al m R k)"
    "same_outside (buffer_cells sz cc) m m1" "same_outside (filter_cells sz cc) c c1"
    using Suc.IH [OF Suc_leD [OF Suc.prems(1)] Suc_leD [OF Suc.prems(2)]] by blast
  have kR: "k < mNumberOfRows R" using Suc.prems(1) by simp
  have row: "block sz ?row ?L \<subseteq> array_cells sz (mData R)" by (rule row_cells [OF R(1) kR])
  have aw: "block sz ?row ?L \<inter> buffer_cells sz cc = {}" using row away by blast
  have pow: "mAlignment (mData R) = 0 \<or> (\<exists>j. mAlignment (mData R) = 2 ^ j)"
    using R(1) by (auto simp: matrix_inv_def array_inv_def)
  have ok: "\<not> (maxNumberOfFilterEntries cc \<le> k \<or> ccMaxFilterLength cc < ?L)" using Suc.prems(2) R(2) by simp
  obtain m2 c2 where st: "?f (m1, c1) k = Inr (m2, c2)"
    "filters_hold fft sz cc c2 ((initial_filters sz ?B ?al m R k)(k := loaded sz ?B (min ?al (mAlignment (mData R))) m1 ?row ?L))"
    "same_outside (buffer_cells sz cc) m1 m2" "same_outside (filter_cells sz cc) c1 c2"
    using setImpulseResponse_spec [OF sz inv laws IH(2) pow aw, of k m1] unfolding if_not_P [OF ok] by blast
  have "loaded sz ?B (min ?al (mAlignment (mData R))) m1 ?row ?L = loaded sz ?B (min ?al (mAlignment (mData R))) m ?row ?L"
  proof (rule ext)
    fix n
    show "loaded sz ?B (min ?al (mAlignment (mData R))) m1 ?row ?L n = loaded sz ?B (min ?al (mAlignment (mData R))) m ?row ?L n"
    proof (cases "n < ?L")
      case True
      have "elem sz ?row n \<in> block sz ?row ?L" by (rule imageI) (use True in simp)
      then have "m1 (elem sz ?row n) = m (elem sz ?row n)" using unchanged [OF IH(3)] aw by (metis inf_commute)
      then show ?thesis by (simp add: loaded_def)
    qed (simp add: loaded_def)
  qed
  then have "filters_hold fft sz cc c2 (initial_filters sz ?B ?al m R (Suc k))"
    using st(2) unfolding initial_filters_Suc [symmetric] by simp
  moreover have "foldE ?f (m, c) [0..<Suc k] = Inr (m2, c2)" using IH(1) st(1) by (simp add: foldE_append)
  ultimately show ?case using same_outside_trans [OF IH(3) st(3)] same_outside_trans [OF IH(4) st(4)] by blast
qed

lemma excess_loop:
  fixes c :: "'c::comm_ring_1 memory"
  assumes sz: "sz = 2 ^ l" and inv: "convolver_inv fft sz ao cao cc" and laws: "fft_laws fft ofReal (ccDftSize cc)"
    and hold: "filters_hold fft sz cc c h" and zero: "\<And>f. f \<in> set fs \<Longrightarrow> h f = (\<lambda>n. 0) \<and> f < maxNumberOfFilterEntries cc"
  defines "M \<equiv> ccFilterPartitionsFrequencyDomain cc"
  shows "\<exists>c'. foldE (\<lambda>c f. or_throw runtime_error (vectorZero (2 * sz) (matrix_row (2 * sz) M f) (mNumberOfColumns M)
      (ccComplexAlignment cc) c)) c fs = Inr c' \<and> filters_hold fft sz cc c' h \<and> same_outside (filter_cells sz cc) c c'"
proof (rule foldE_total [where P = "\<lambda>c'. filters_hold fft sz cc c' h \<and> same_outside (filter_cells sz cc) c c'"])
  show "filters_hold fft sz cc c h \<and> same_outside (filter_cells sz cc) c c" using hold by (simp add: same_outside_def)
  fix c1 f assume f: "f \<in> set fs" and c1: "filters_hold fft sz cc c1 h \<and> same_outside (filter_cells sz cc) c c1"
  have h: "h(f := \<lambda>n. 0) = h" using zero [OF f] by (simp add: fun_upd_idem)
  obtain c2 where "or_throw runtime_error (vectorZero (2 * sz) (matrix_row (2 * sz) M f) (mNumberOfColumns M)
      (ccComplexAlignment cc) c1) = Inr c2" "filters_hold fft sz cc c2 h" "same_outside (filter_cells sz cc) c1 c2"
    using zero_row_spec [OF sz inv laws conjunct1 [OF c1] conjunct2 [OF zero [OF f]]] unfolding h M_def by blast
  then show "\<exists>c2. or_throw runtime_error (vectorZero (2 * sz) (matrix_row (2 * sz) M f) (mNumberOfColumns M)
      (ccComplexAlignment cc) c1) = Inr c2 \<and> filters_hold fft sz cc c2 h \<and> same_outside (filter_cells sz cc) c c2"
    using same_outside_trans [OF conjunct2 [OF c1]] by blast
qed

lemma clearFilters_spec:
  fixes c :: "'c::comm_ring_1 memory"
  assumes sz: "sz = 2 ^ l" and inv: "convolver_inv fft sz ao cao cc" and laws: "fft_laws fft ofReal (ccDftSize cc)"
  shows "\<exists>c'. clearFilters sz cc c = Inr c' \<and> filters_hold fft sz cc c' (\<lambda>f n. 0) \<and> same_outside (filter_cells sz cc) c c'"
proof -
  let ?M = "ccFilterPartitionsFrequencyDomain cc" and ?B = "ccBlockLength cc"
  note F = convolver_inv_filters [OF inv]
  have sz2: "0 < 2 * sz" using sz by simp
  obtain c1 where c1: "matrix_zeroFill (2 * sz) ?M c = Inr c1" "same_outside (filter_cells sz cc) c c1"
    "\<forall>i < mNumberOfRows ?M. \<forall>j < mNumberOfColumns ?M. c1 (matrix_element (2 * sz) ?M i j) = 0"
    using matrix_zero_cells [OF F(1) sz2, of c] by blast
  have "filters_hold fft sz cc c1 (\<lambda>f n. 0)"
    unfolding filters_hold_def
  proof (intro allI impI)
    fix f p assume f: "f < maxNumberOfFilterEntries cc" and p: "p < ccNumberOfFilterPartitions cc"
    have "c1 (elem (2 * sz) (getFdFilterPartition sz cc f p) j) = 0" if "j < ?B + 1" for j
    proof -
      have "j < ccDftRepresentationSizePadded cc" using that padded_props(1) [OF inv] by linarith
      then have "p * ccDftRepresentationSizePadded cc + j < mNumberOfColumns ?M"
        unfolding F(2) by (rule index_in_rows [OF p _ order_refl])
      then show ?thesis unfolding filter_element using c1(3) f by simp
    qed
    then have "samples_at (2 * sz) c1 (getFdFilterPartition sz cc f p) (?B + 1) = replicate (?B + 1) 0" by (rule zero_samples)
    then show "samples_at (2 * sz) c1 (getFdFilterPartition sz cc f p) (?B + 1) =
        fftForward fft (filter_window ?B (ccFilterScalingFactor cc) (\<lambda>n. 0) p)"
      using zero_spectrum [OF laws] convolver_invD(2) [OF inv] by (simp add: filter_window_zero)
  qed
  then show ?thesis using c1(1,2) unfolding clearFilters_def by blast
qed

lemma initFilters_spec:
  fixes m :: "'a::field memory" and c :: "'c::comm_ring_1 memory"
  assumes sz: "sz = 2 ^ l" and inv: "convolver_inv fft sz ao cao cc" and laws: "fft_laws fft ofReal (ccDftSize cc)"
    and R: "matrix_inv sz aoR R" and away: "array_cells sz (mData R) \<inter> buffer_cells sz cc = {}"
  shows "if maxNumberOfFilterEntries cc < mNumberOfRows R \<or> ccMaxFilterLength cc < mNumberOfColumns R
    then initFilters fft sz cc R (m, c) = Inl invalid_argument
    else \<exists>m' c'. initFilters fft sz cc R (m, c) = Inr (m', c') \<and>
      filters_hold fft sz cc c' (initial_filters sz (ccBlockLength cc) (ccAlignment cc) m R (mNumberOfRows R)) \<and>
      same_outside (buffer_cells sz cc) m m' \<and> same_outside (filter_cells sz cc) c c'"
proof -
  let ?M = "ccFilterPartitionsFrequencyDomain cc" and ?B = "ccBlockLength cc"
  let ?h = "initial_filters sz (ccBlockLength cc) (ccAlignment cc) m R (mNumberOfRows R)"
  obtain c1 where c1: "clearFilters sz cc c = Inr c1" "filters_hold fft sz cc c1 (\<lambda>f n. 0)"
    "same_outside (filter_cells sz cc) c c1"
    using clearFilters_spec [OF sz inv laws, of c] by blast
  show ?thesis
  proof (cases "maxNumberOfFilterEntries cc < mNumberOfRows R \<or> ccMaxFilterLength cc < mNumberOfColumns R")
    case True
    then show ?thesis using c1(1) by (auto simp: initFilters_def Let_def)
  next
    case False
    have le: "mNumberOfRows R \<le> maxNumberOfFilterEntries cc" "mNumberOfColumns R \<le> ccMaxFilterLength cc" using False by auto
    obtain m2 c2 where c2: "foldE (\<lambda>mc f. setImpulseResponse fft sz cc (matrix_row sz R f) (mNumberOfColumns R) f
        (mAlignment (mData R)) mc) (m, c1) [0..<mNumberOfRows R] = Inr (m2, c2)" "filters_hold fft sz cc c2 ?h"
      "same_outside (buffer_cells sz cc) m m2" "same_outside (filter_cells sz cc) c1 c2"
      using filter_loop [OF sz inv laws R le(2) away c1(2) order_refl le(1), of m] by blast
    have zero: "?h f = (\<lambda>n. 0) \<and> f < maxNumberOfFilterEntries cc" if "f \<in> set [mNumberOfRows R..<maxNumberOfFilterEntries cc]" for f
      using that by (simp add: initial_filters_def)
    obtain c3 where c3: "foldE (\<lambda>c f. or_throw runtime_error (vectorZero (2 * sz) (matrix_row (2 * sz) ?M f) (mNumberOfColumns ?M)
        (ccComplexAlignment cc) c)) c2 [mNumberOfRows R..<maxNumberOfFilterEntries cc] = Inr c3"
      "filters_hold fft sz cc c3 ?h" "same_outside (filter_cells sz cc) c2 c3"
      using excess_loop [OF sz inv laws c2(2) zero] by blast
    have nle: "\<not> maxNumberOfFilterEntries cc < mNumberOfRows R" "\<not> ccMaxFilterLength cc < mNumberOfColumns R" using le by simp_all
    have "initFilters fft sz cc R (m, c) = Inr (m2, c3)"
      unfolding initFilters_def prod.case c1(1) bindE_simps Let_def if_not_P [OF nle(1)] if_not_P [OF nle(2)]
        c2(1) c3(1) ..
    moreover have "same_outside (filter_cells sz cc) c c3"
      by (rule same_outside_trans [OF same_outside_trans [OF c1(3) c2(4)] c3(3)])
    ultimately show ?thesis using False c2(3) c3(2) by auto
  qed
qed

section \<open>The core\<close>

lemma initial_filters_cong:
  assumes "matrix_inv sz aoR R" "same_outside A m m'" "A \<inter> array_cells sz (mData R) = {}" "k \<le> mNumberOfRows R"
  shows "initial_filters sz B al m' R k = initial_filters sz B al m R k"
proof (intro ext)
  fix f n
  show "initial_filters sz B al m' R k f n = initial_filters sz B al m R k f n"
  proof (cases "f < k \<and> n < mNumberOfColumns R")
    case True
    have f: "f < mNumberOfRows R" using True assms(4) by simp
    have "elem sz (matrix_row sz R f) n \<in> array_cells sz (mData R)"
      unfolding matrix_row_element by (rule element_in_cells [OF assms(1) f]) (use True in simp)
    from unchanged [OF assms(2) this assms(3)] show ?thesis by (simp add: initial_filters_def loaded_def)
  next
    case False
    then show ?thesis by (auto simp: initial_filters_def loaded_def)
  qed
qed

lemma fdl_holds_silent:
  fixes c :: "'c::comm_ring_1 memory"
  assumes inv: "convolver_inv fft sz ao cao cc" and laws: "fft_laws fft ofReal (ccDftSize cc)"
    and zero: "\<forall>i < mNumberOfRows (ccInputFDL cc). \<forall>j < mNumberOfColumns (ccInputFDL cc).
      c (matrix_element (2 * sz) (ccInputFDL cc) i j) = 0"
  shows "fdl_holds fft sz cc c (\<lambda>i k. 0)"
  unfolding fdl_holds_def
proof (intro allI impI)
  fix i b assume i: "i < ccNumberOfInputs cc" and b: "b < ccNumberOfFilterPartitions cc"
  let ?B = "ccBlockLength cc" and ?q = "(ccFdlCycleOffset cc + b) mod ccNumberOfFilterPartitions cc"
  note L = convolver_inv_fdl [OF inv]
  have q: "?q < ccNumberOfFilterPartitions cc" using b by simp
  have "c (elem (2 * sz) (getFdlBlock sz cc i b) j) = 0" if "j < ?B + 1" for j
  proof -
    have "j < ccDftRepresentationSizePadded cc" using that padded_props(1) [OF inv] by linarith
    then have "?q * ccDftRepresentationSizePadded cc + j < mNumberOfColumns (ccInputFDL cc)"
      unfolding L(3) by (rule index_in_rows [OF q _ order_refl])
    then show ?thesis unfolding fdl_element using zero i L(2) by simp
  qed
  then have "samples_at (2 * sz) c (getFdlBlock sz cc i b) (?B + 1) = replicate (?B + 1) 0" by (rule zero_samples)
  then show "samples_at (2 * sz) c (getFdlBlock sz cc i b) (?B + 1) = fftForward fft (input_window ?B (\<lambda>k. 0) b)"
    using zero_spectrum [OF laws] convolver_invD(2) [OF inv] by (simp add: input_window_zero)
qed

lemma disjoint_subsets: "A \<subseteq> A' \<Longrightarrow> B \<subseteq> B' \<Longrightarrow> A' \<inter> B' = {} \<Longrightarrow> A \<inter> B = {}"
  by blast

lemma partitions_suffice: "0 < B \<Longrightarrow> L \<le> calculateNumberOfPartitions L B * B"
  unfolding calculateNumberOfPartitions_def using round_up(2) [of B L] by simp

lemma partitions_positive: "0 < B \<Longrightarrow> 0 < L \<Longrightarrow> 0 < calculateNumberOfPartitions L B"
  using partitions_suffice [of B L] by (cases "calculateNumberOfPartitions L B") simp_all

text \<open>The state directly after the members are constructed, before the filters are loaded.\<close>

definition new_core ::
  "('a::field, 'c) fft_wrapper \<Rightarrow> nat \<Rightarrow> nat \<Rightarrow> nat \<Rightarrow> nat \<Rightarrow> nat \<Rightarrow> circular_buffer \<Rightarrow> basic_matrix \<Rightarrow> aligned_array
   \<Rightarrow> basic_matrix \<Rightarrow> aligned_array \<Rightarrow> 'a core_convolver" where
  "new_core fft I nOut B L al ring fdl buf filters acc =
     \<lparr>ccAlignment = al, ccComplexAlignment = al div 2, ccNumberOfInputs = I, ccNumberOfOutputs = nOut, ccBlockLength = B,
      ccMaxFilterLength = L, ccNumberOfFilterPartitions = calculateNumberOfPartitions L B, ccDftSize = calculateDftSize B,
      ccDftRepresentationSizePadded = nextAlignedSize (B + 1) (al div 2), ccInputBuffers = ring, ccInputFDL = fdl,
      ccFdlCycleOffset = 0, ccTimeDomainTransformBuffer = buf, ccFilterPartitionsFrequencyDomain = filters,
      ccFrequencyDomainAccumulator = acc, ccFilterScalingFactor = calculateFilterScalingFactor fft (calculateDftSize B)\<rparr>"

lemma core_members:
  fixes m :: "'a::field memory" and c :: "'c::comm_ring_1 memory"
  assumes sz: "sz = 2 ^ l" "2 * sz < 2 ^ 64" "ao dvd sz" "cao dvd 2 * sz"
    and al: "al = 0 \<or> (\<exists>k. al = 2 ^ k)" "max 1 al * sz < 2 ^ 64"
    and pos: "0 < B" "0 < L"
    and P: "P = calculateNumberOfPartitions L B" and n: "n = nextAlignedSize (B + 1) (al div 2)"
    and s: "s1 = row_bytes sz (2 * nextAlignedSize (2 * B) al) I al" "s3 = (2 * B + max 1 al) * sz"
      "s2 = row_bytes (2 * sz) (n * P) I (al div 2)" "s4 = row_bytes (2 * sz) (n * P) F (al div 2)"
      "s5 = (n + max 1 (al div 2)) * (2 * sz)"
    and fresh: "fresh ao raw1 s1" "fresh ao raw3 s3" "fresh cao raw2 s2" "fresh cao raw4 s4" "fresh cao raw5 s5"
    and dis: "pairwise_disjoint [raw_block raw1 s1, raw_block raw3 s3, A]"
      "pairwise_disjoint [raw_block raw2 s2, raw_block raw4 s4, raw_block raw5 s5, D]"
  shows "\<exists>ring fdl buf filters acc m' c'.
    (let cc = new_core fft I nOut B L al ring fdl buf filters acc in
      (\<forall>R. CoreConvolverUniform fft sz ao cao (raw1, raw2, raw3, raw4, raw5) I nOut B L F R al m c =
        bindE (initFilters fft sz cc R (m', c')) (\<lambda>(m, c). Inr (cc, m, c))) \<and>
      convolver_inv fft sz ao cao cc \<and> members_disjoint sz cc \<and> maxNumberOfFilterEntries cc = F \<and>
      history sz m' ring (\<lambda>i k. 0) \<and>
      (\<forall>i < mNumberOfRows fdl. \<forall>j < mNumberOfColumns fdl. c' (matrix_element (2 * sz) fdl i j) = 0) \<and>
      ring_cells sz cc \<subseteq> raw_block raw1 s1 \<and> buffer_cells sz cc \<subseteq> raw_block raw3 s3 \<and>
      fdl_cells sz cc \<subseteq> raw_block raw2 s2 \<and> filter_cells sz cc \<subseteq> raw_block raw4 s4 \<and>
      accumulator_cells sz cc \<subseteq> raw_block raw5 s5 \<and>
      same_outside (raw_block raw1 s1 \<union> raw_block raw3 s3) m m')"
proof -
  have sz0: "0 < sz" "0 < 2 * sz" using sz(1) by simp_all
  note ca = half_alignment [OF al sz(2)]
  have d: "raw_block raw1 s1 \<inter> raw_block raw3 s3 = {}" "raw_block raw2 s2 \<inter> raw_block raw4 s4 = {}"
    "raw_block raw2 s2 \<inter> raw_block raw5 s5 = {}" "raw_block raw4 s4 \<inter> raw_block raw5 s5 = {}"
    using pairwise_disjointD [OF dis(1), of 0 1] pairwise_disjointD [OF dis(2), of 0 1]
      pairwise_disjointD [OF dis(2), of 0 2] pairwise_disjointD [OF dis(2), of 1 2] by simp_all
  have N: "calculateDftSize B = 2 * B" by (simp add: calculateDftSize_def)
  have B2: "0 < 2 * B" using pos(1) by simp
  obtain ring m1 where ring: "CircularBuffer sz ao raw1 I (2 * B) al m = Inr (ring, m1)" "circular_inv sz ao ring"
    "cbNumberOfChannels ring = I" "cbLength ring = 2 * B" "history sz m1 ring (\<lambda>ch k. 0)"
    "same_outside (array_cells sz (mData (cbBuffer ring))) m m1"
    using CircularBuffer_spec [OF al sz0(1) sz(3) B2 fresh(1) [unfolded s(1) row_bytes_def], of m] by blast
  have ring_cells: "array_cells sz (mData (cbBuffer ring)) \<subseteq> raw_block raw1 s1"
  proof -
    have "\<exists>m0. BasicMatrix sz ao raw1 I (2 * nextAlignedSize (2 * B) al) al m = Inr (cbBuffer ring, m0)"
      using ring(1) by (auto simp: CircularBuffer_def Let_def)
    then show ?thesis
      using BasicMatrix_cells [OF _ al sz0(1) sz(3) fresh(1) [unfolded s(1) row_bytes_def]] unfolding s(1) row_bytes_def by blast
  qed
  obtain fdl c1 where fdl: "BasicMatrix (2 * sz) cao raw2 I (n * P) (al div 2) c = Inr (fdl, c1)" "matrix_inv (2 * sz) cao fdl"
    "mNumberOfRows fdl = I" "mNumberOfColumns fdl = n * P" "mAlignment (mData fdl) = max 1 (al div 2)"
    "matrix_values (2 * sz) c1 fdl = replicate I (replicate (n * P) 0)" "same_outside (array_cells (2 * sz) (mData fdl)) c c1"
    using BasicMatrix_spec [OF ca sz0(2) sz(4) fresh(3) [unfolded s(3) row_bytes_def], of c] by blast
  have fdl_cells: "array_cells (2 * sz) (mData fdl) \<subseteq> raw_block raw2 s2"
    using BasicMatrix_cells [OF fdl(1) ca sz0(2) sz(4) fresh(3) [unfolded s(3) row_bytes_def]] unfolding s(3) row_bytes_def .
  obtain buf m2 where buf: "BasicVector sz ao raw3 (2 * B) al m1 = Inr (buf, m2)" "array_inv sz ao buf"
    "mAlignment buf = max 1 al" "same_outside (array_cells sz buf) m1 m2"
    using BasicVector_spec [OF al sz0(1) sz(3), of "2 * B" raw3 m1] fresh(2) unfolding s(2) by blast
  have buf_cells: "array_cells sz buf \<subseteq> raw_block raw3 s3" "mArrayLength buf = 2 * B"
    using BasicVector_cells [OF buf(1) al sz0(1) sz(3) fresh(2) [unfolded s(2)]] unfolding s(2) by blast+
  obtain filters c2 where fil: "BasicMatrix (2 * sz) cao raw4 F (n * P) (al div 2) c1 = Inr (filters, c2)"
    "matrix_inv (2 * sz) cao filters" "mNumberOfRows filters = F" "mNumberOfColumns filters = n * P"
    "mAlignment (mData filters) = max 1 (al div 2)" "same_outside (array_cells (2 * sz) (mData filters)) c1 c2"
    using BasicMatrix_spec [OF ca sz0(2) sz(4) fresh(4) [unfolded s(4) row_bytes_def], of c1] by blast
  have fil_cells: "array_cells (2 * sz) (mData filters) \<subseteq> raw_block raw4 s4"
    using BasicMatrix_cells [OF fil(1) ca sz0(2) sz(4) fresh(4) [unfolded s(4) row_bytes_def]] unfolding s(4) row_bytes_def .
  obtain acc c3 where acc: "BasicVector (2 * sz) cao raw5 n (al div 2) c2 = Inr (acc, c3)" "array_inv (2 * sz) cao acc"
    "mAlignment acc = max 1 (al div 2)" "same_outside (array_cells (2 * sz) acc) c2 c3"
    using BasicVector_spec [OF ca sz0(2) sz(4), of n raw5 c2] fresh(5) unfolding s(5) by blast
  have acc_cells: "array_cells (2 * sz) acc \<subseteq> raw_block raw5 s5" "mArrayLength acc = n"
    using BasicVector_cells [OF acc(1) ca sz0(2) sz(4) fresh(5) [unfolded s(5)]] unfolding s(5) by blast+
  define cc where "cc = new_core fft I nOut B L al ring fdl buf filters acc"
  have ctor: "CoreConvolverUniform fft sz ao cao (raw1, raw2, raw3, raw4, raw5) I nOut B L F R al m c =
      bindE (initFilters fft sz cc R (m2, c3)) (\<lambda>(m, c). Inr (cc, m, c))" for R
  proof -
    have "calculateDftRepresentationSizePadded B (al div 2) = Inr n"
      by (simp add: calculateDftRepresentationSizePadded_def calculateDftRepresentationSize_def N n)
    then show ?thesis
      unfolding CoreConvolverUniform_def prod.case Let_def P [symmetric] N cc_def new_core_def n [symmetric]
      by (simp add: ring(1) fdl(1) buf(1) fil(1) acc(1) del: bindE_eq_Inr)
  qed
  have inv: "convolver_inv fft sz ao cao cc"
    unfolding convolver_inv_def cc_def new_core_def core_convolver.simps N n [symmetric] P [symmetric]
    using pos(1) partitions_positive [OF pos] partitions_suffice [OF pos(1), of L] ca(1) ring(2-4) buf(2,3) buf_cells(2) al(1)
      fdl(2-5) fil(2-5) acc(2,3) acc_cells(2)
    unfolding P by (intro conjI) (assumption | rule refl)+
  have memb: "members_disjoint sz cc"
    unfolding members_disjoint_def cc_def new_core_def core_convolver.simps
    by (intro conjI disjoint_subsets [OF fdl_cells fil_cells d(2)] disjoint_subsets [OF fdl_cells acc_cells(1) d(3)]
        disjoint_subsets [OF fil_cells acc_cells(1) d(4)] disjoint_subsets [OF ring_cells buf_cells(1) d(1)])
  have hist: "history sz m2 ring (\<lambda>i k. 0)"
    by (rule history_cong [OF ring(2,5) buf(4)]) (rule disjoint_subsets [OF buf_cells(1) ring_cells], use d(1) in blast)
  have zero: "c3 (matrix_element (2 * sz) fdl i j) = 0" if "i < I" "j < n * P" for i j
  proof -
    have cell: "matrix_element (2 * sz) fdl i j \<in> array_cells (2 * sz) (mData fdl)"
      by (rule element_in_cells [OF fdl(2)]) (use that fdl(3,4) in simp_all)
    have "matrix_values (2 * sz) c1 fdl ! i ! j = c1 (matrix_element (2 * sz) fdl i j)"
      using that fdl(3,4) by (simp add: matrix_values_def)
    then have "c1 (matrix_element (2 * sz) fdl i j) = 0" using fdl(6) that by simp
    moreover have "c2 (matrix_element (2 * sz) fdl i j) = c1 (matrix_element (2 * sz) fdl i j)"
      by (rule unchanged [OF fil(6) cell]) (rule disjoint_subsets [OF fil_cells fdl_cells], use d(2) in blast)
    moreover have "c3 (matrix_element (2 * sz) fdl i j) = c2 (matrix_element (2 * sz) fdl i j)"
      by (rule unchanged [OF acc(4) cell]) (rule disjoint_subsets [OF acc_cells(1) fdl_cells], use d(3) in blast)
    ultimately show ?thesis by simp
  qed
  have out: "same_outside (raw_block raw1 s1 \<union> raw_block raw3 s3) m m2"
    by (rule same_outside_trans [OF same_outside_mono [OF ring(6)] same_outside_mono [OF buf(4)]])
      (use ring_cells buf_cells(1) in blast)+
  have sel: "ccInputBuffers cc = ring" "ccInputFDL cc = fdl" "ccTimeDomainTransformBuffer cc = buf"
    "ccFilterPartitionsFrequencyDomain cc = filters" "ccFrequencyDomainAccumulator cc = acc"
    by (simp_all add: cc_def new_core_def)
  have "let cc = new_core fft I nOut B L al ring fdl buf filters acc in
      (\<forall>R. CoreConvolverUniform fft sz ao cao (raw1, raw2, raw3, raw4, raw5) I nOut B L F R al m c =
        bindE (initFilters fft sz cc R (m2, c3)) (\<lambda>(m, c). Inr (cc, m, c))) \<and>
      convolver_inv fft sz ao cao cc \<and> members_disjoint sz cc \<and> maxNumberOfFilterEntries cc = F \<and>
      history sz m2 ring (\<lambda>i k. 0) \<and>
      (\<forall>i < mNumberOfRows fdl. \<forall>j < mNumberOfColumns fdl. c3 (matrix_element (2 * sz) fdl i j) = 0) \<and>
      ring_cells sz cc \<subseteq> raw_block raw1 s1 \<and> buffer_cells sz cc \<subseteq> raw_block raw3 s3 \<and>
      fdl_cells sz cc \<subseteq> raw_block raw2 s2 \<and> filter_cells sz cc \<subseteq> raw_block raw4 s4 \<and>
      accumulator_cells sz cc \<subseteq> raw_block raw5 s5 \<and>
      same_outside (raw_block raw1 s1 \<union> raw_block raw3 s3) m m2"
    unfolding Let_def cc_def [symmetric] sel
    using ctor inv memb fil(3) hist zero fdl(3,4) ring_cells buf_cells(1) fdl_cells fil_cells acc_cells(1) out
    by (intro conjI allI impI) simp_all
  then show ?thesis by blast
qed

lemma core_spec:
  fixes m :: "'a::field memory" and c :: "'c::comm_ring_1 memory"
  assumes sz: "sz = 2 ^ l" "2 * sz < 2 ^ 64" "ao dvd sz" "cao dvd 2 * sz"
    and al: "al = 0 \<or> (\<exists>k. al = 2 ^ k)" "max 1 al * sz < 2 ^ 64"
    and pos: "0 < B" "0 < L"
    and P: "P = calculateNumberOfPartitions L B" and n: "n = nextAlignedSize (B + 1) (al div 2)"
    and s: "s1 = row_bytes sz (2 * nextAlignedSize (2 * B) al) I al" "s3 = (2 * B + max 1 al) * sz"
      "s2 = row_bytes (2 * sz) (n * P) I (al div 2)" "s4 = row_bytes (2 * sz) (n * P) F (al div 2)"
      "s5 = (n + max 1 (al div 2)) * (2 * sz)"
    and fresh: "fresh ao raw1 s1" "fresh ao raw3 s3" "fresh cao raw2 s2" "fresh cao raw4 s4" "fresh cao raw5 s5"
    and dis: "pairwise_disjoint [raw_block raw1 s1, raw_block raw3 s3, array_cells sz (mData R)]"
      "pairwise_disjoint [raw_block raw2 s2, raw_block raw4 s4, raw_block raw5 s5, D]"
    and laws: "fft_laws fft ofReal (2 * B)" and R: "matrix_inv sz aoR R"
  shows "if F < mNumberOfRows R \<or> L < mNumberOfColumns R
    then CoreConvolverUniform fft sz ao cao (raw1, raw2, raw3, raw4, raw5) I nOut B L F R al m c = Inl invalid_argument
    else \<exists>cc m' c'. CoreConvolverUniform fft sz ao cao (raw1, raw2, raw3, raw4, raw5) I nOut B L F R al m c = Inr (cc, m', c') \<and>
      convolver_inv fft sz ao cao cc \<and> members_disjoint sz cc \<and> maxNumberOfFilterEntries cc = F \<and>
      ccNumberOfInputs cc = I \<and> ccNumberOfOutputs cc = nOut \<and> ccBlockLength cc = B \<and> ccNumberOfFilterPartitions cc = P \<and>
      ccComplexAlignment cc = al div 2 \<and> ccDftRepresentationSizePadded cc = n \<and> ccDftSize cc = 2 * B \<and>
      history sz m' (ccInputBuffers cc) (\<lambda>i k. 0) \<and> fdl_holds fft sz cc c' (\<lambda>i k. 0) \<and>
      filters_hold fft sz cc c' (initial_filters sz B al m R (mNumberOfRows R)) \<and>
      D \<inter> (fdl_cells sz cc \<union> filter_cells sz cc \<union> accumulator_cells sz cc) = {} \<and>
      same_outside (raw_block raw1 s1 \<union> raw_block raw3 s3) m m'"
proof -
  let ?new = "CoreConvolverUniform fft sz ao cao (raw1, raw2, raw3, raw4, raw5) I nOut B L F R al m c"
  obtain ring fdl buf filters acc m1 c1 where members:
    "let cc = new_core fft I nOut B L al ring fdl buf filters acc in
      (\<forall>R. CoreConvolverUniform fft sz ao cao (raw1, raw2, raw3, raw4, raw5) I nOut B L F R al m c =
        bindE (initFilters fft sz cc R (m1, c1)) (\<lambda>(m, c). Inr (cc, m, c))) \<and>
      convolver_inv fft sz ao cao cc \<and> members_disjoint sz cc \<and> maxNumberOfFilterEntries cc = F \<and>
      history sz m1 ring (\<lambda>i k. 0) \<and>
      (\<forall>i < mNumberOfRows fdl. \<forall>j < mNumberOfColumns fdl. c1 (matrix_element (2 * sz) fdl i j) = 0) \<and>
      ring_cells sz cc \<subseteq> raw_block raw1 s1 \<and> buffer_cells sz cc \<subseteq> raw_block raw3 s3 \<and>
      fdl_cells sz cc \<subseteq> raw_block raw2 s2 \<and> filter_cells sz cc \<subseteq> raw_block raw4 s4 \<and>
      accumulator_cells sz cc \<subseteq> raw_block raw5 s5 \<and>
      same_outside (raw_block raw1 s1 \<union> raw_block raw3 s3) m m1"
    using core_members [OF sz al pos P n s fresh dis, of fft nOut m c] by blast
  define cc where "cc = new_core fft I nOut B L al ring fdl buf filters acc"
  have sel: "ccNumberOfInputs cc = I" "ccNumberOfOutputs cc = nOut" "ccBlockLength cc = B" "ccNumberOfFilterPartitions cc = P"
    "ccComplexAlignment cc = al div 2" "ccDftRepresentationSizePadded cc = n" "ccDftSize cc = 2 * B" "ccMaxFilterLength cc = L"
    "ccAlignment cc = al" "ccInputBuffers cc = ring" "ccInputFDL cc = fdl"
    by (simp_all add: cc_def new_core_def n P calculateDftSize_def)
  have C: "?new = bindE (initFilters fft sz cc R (m1, c1)) (\<lambda>(m, c). Inr (cc, m, c))"
    "convolver_inv fft sz ao cao cc" "members_disjoint sz cc" "maxNumberOfFilterEntries cc = F" "history sz m1 ring (\<lambda>i k. 0)"
    "\<forall>i < mNumberOfRows (ccInputFDL cc). \<forall>j < mNumberOfColumns (ccInputFDL cc). c1 (matrix_element (2 * sz) (ccInputFDL cc) i j) = 0"
    "ring_cells sz cc \<subseteq> raw_block raw1 s1" "buffer_cells sz cc \<subseteq> raw_block raw3 s3"
    "fdl_cells sz cc \<subseteq> raw_block raw2 s2" "filter_cells sz cc \<subseteq> raw_block raw4 s4" "accumulator_cells sz cc \<subseteq> raw_block raw5 s5"
    "same_outside (raw_block raw1 s1 \<union> raw_block raw3 s3) m m1"
    using members unfolding Let_def cc_def [symmetric] sel(11) by blast+
  have lw: "fft_laws fft ofReal (ccDftSize cc)" using laws sel(7) by simp
  have apart: "array_cells sz (mData R) \<inter> buffer_cells sz cc = {}" "(raw_block raw1 s1 \<union> raw_block raw3 s3) \<inter> array_cells sz (mData R) = {}"
    using pairwise_disjointD [OF dis(1), of 0 2] pairwise_disjointD [OF dis(1), of 1 2] C(8) by (simp_all, blast+)
  have rows: "initial_filters sz B al m1 R (mNumberOfRows R) = initial_filters sz B al m R (mNumberOfRows R)"
    by (rule initial_filters_cong [OF R C(12) apart(2) order_refl])
  note init = initFilters_spec [OF sz(1) C(2) lw R apart(1), of m1 c1, unfolded sel C(4) rows]
  show ?thesis
  proof (cases "F < mNumberOfRows R \<or> L < mNumberOfColumns R")
    case True
    then show ?thesis using init unfolding C(1) by simp
  next
    case False
    obtain m2 c2 where c2: "initFilters fft sz cc R (m1, c1) = Inr (m2, c2)"
      "filters_hold fft sz cc c2 (initial_filters sz B al m R (mNumberOfRows R))"
      "same_outside (buffer_cells sz cc) m1 m2" "same_outside (filter_cells sz cc) c1 c2"
      using init unfolding if_not_P [OF False] by blast
    have hist: "history sz m2 ring (\<lambda>i k. 0)"
    proof (rule history_cong [OF _ C(5) c2(3)])
      show "circular_inv sz ao ring" using convolver_inv_ring(1) [OF C(2)] unfolding sel .
      show "buffer_cells sz cc \<inter> array_cells sz (mData (cbBuffer ring)) = {}"
        using C(3) unfolding members_disjoint_def sel by blast
    qed
    have fdl: "fdl_holds fft sz cc c2 (\<lambda>i k. 0)"
      by (rule fdl_holds_cong [OF C(2) fdl_holds_silent [OF C(2) lw C(6)] c2(4)])
        (use C(3) in \<open>simp add: members_disjoint_def inf_commute\<close>)
    have "D \<inter> (fdl_cells sz cc \<union> filter_cells sz cc \<union> accumulator_cells sz cc) = {}"
      using pairwise_disjointD [OF dis(2), of 0 3] pairwise_disjointD [OF dis(2), of 1 3] pairwise_disjointD [OF dis(2), of 2 3]
        C(9-11) by (simp, blast)
    moreover have "same_outside (raw_block raw1 s1 \<union> raw_block raw3 s3) m m2"
      by (rule same_outside_trans [OF C(12) same_outside_mono [OF c2(3)]]) (use C(8) in blast)
    moreover have "?new = Inr (cc, m2, c2)" unfolding C(1) c2(1) by simp
    ultimately show ?thesis unfolding if_not_P [OF False] using C(2-4) sel hist fdl c2(2) by blast
  qed
qed

section \<open>The initial routings\<close>

definition routing_in_range :: "nat \<Rightarrow> nat \<Rightarrow> nat \<Rightarrow> 'g filter_routing \<Rightarrow> bool" where
  "routing_in_range I nOut F v \<longleftrightarrow> inputIndex v < I \<and> outputIndex v < nOut \<and> filterIndex v < F"

definition routed :: "('g \<Rightarrow> 'a) \<Rightarrow> 'g filter_routing list \<Rightarrow> (nat \<times> nat \<rightharpoonup> nat \<times> 'a) \<Rightarrow> nat \<times> nat \<rightharpoonup> nat \<times> 'a" where
  "routed toSample = fold (\<lambda>v t. t((inputIndex v, outputIndex v) \<mapsto> (filterIndex v, toSample (gainLinear v))))"

lemma routed_Cons: "routed toSample (v # vs) t =
    routed toSample vs (t((inputIndex v, outputIndex v) \<mapsto> (filterIndex v, toSample (gainLinear v))))"
  by (simp add: routed_def)

lemma setRoutingEntry_length:
  "setRoutingEntry i k f g mc = Inr mc' \<Longrightarrow> length (mcRoutingTable mc') \<le> Suc (length (mcRoutingTable mc))"
  by (auto simp: setRoutingEntry_def Let_def length_remove1 split: if_splits option.splits)

lemma setRoutings_spec:
  assumes "valid_table mc" "length (mcRoutingTable mc) + length vs \<le> mcMaxNumberOfRoutingPoints mc"
    and "I = ccNumberOfInputs (mcCoreConvolver mc)" "nOut = ccNumberOfOutputs (mcCoreConvolver mc)"
      "F = maxNumberOfFilterEntries (mcCoreConvolver mc)"
  shows "if \<forall>v \<in> set vs. routing_in_range I nOut F v
    then \<exists>rs. setRoutings toSample vs mc = (mc\<lparr>mcRoutingTable := rs\<rparr>, None) \<and> valid_table (mc\<lparr>mcRoutingTable := rs\<rparr>) \<and>
      table_map (mc\<lparr>mcRoutingTable := rs\<rparr>) = routed toSample vs (table_map mc)
    else \<exists>mc'. setRoutings toSample vs mc = (mc', Some invalid_argument)"
  using assms
proof (induction vs arbitrary: mc)
  case Nil
  have "mc\<lparr>mcRoutingTable := mcRoutingTable mc\<rparr> = mc" by simp
  then show ?case using Nil.prems(1) by (auto simp: routed_def intro!: exI [of _ "mcRoutingTable mc"])
next
  case (Cons v vs)
  let ?set = "setRoutingEntry_routing toSample v mc" and ?ok = "routing_in_range I nOut F"
  note entry = setRoutingEntry_spec [OF Cons.prems(1), of "inputIndex v" "outputIndex v" "filterIndex v" "toSample (gainLinear v)",
      folded setRoutingEntry_routing_def Cons.prems(3-5)]
  have room: "\<not> ((inputIndex v, outputIndex v) \<notin> dom (table_map mc) \<and> length (mcRoutingTable mc) = mcMaxNumberOfRoutingPoints mc)"
    using Cons.prems(2) by simp
  show ?case
  proof (cases "?ok v")
    case False
    then have "?set = Inl invalid_argument" using entry by (auto simp: routing_in_range_def not_less)
    then show ?thesis using False by simp
  next
    case True
    then obtain rs where rs: "?set = Inr (mc\<lparr>mcRoutingTable := rs\<rparr>)" "valid_table (mc\<lparr>mcRoutingTable := rs\<rparr>)"
      "table_map (mc\<lparr>mcRoutingTable := rs\<rparr>) =
        (table_map mc)((inputIndex v, outputIndex v) \<mapsto> (filterIndex v, toSample (gainLinear v)))"
      using entry room by (auto simp: routing_in_range_def not_le split: if_splits)
    have "length rs + length vs \<le> mcMaxNumberOfRoutingPoints mc"
      using setRoutingEntry_length [OF rs(1) [unfolded setRoutingEntry_routing_def]] Cons.prems(2) by simp
    have upd: "mc\<lparr>mcRoutingTable := rs, mcRoutingTable := rs'\<rparr> = mc\<lparr>mcRoutingTable := rs'\<rparr>" for rs' by simp
    have IH: "if \<forall>v \<in> set vs. ?ok v
      then \<exists>rs'. setRoutings toSample vs (mc\<lparr>mcRoutingTable := rs\<rparr>) = (mc\<lparr>mcRoutingTable := rs'\<rparr>, None) \<and>
        valid_table (mc\<lparr>mcRoutingTable := rs'\<rparr>) \<and>
        table_map (mc\<lparr>mcRoutingTable := rs'\<rparr>) = routed toSample vs (table_map (mc\<lparr>mcRoutingTable := rs\<rparr>))
      else \<exists>mc'. setRoutings toSample vs (mc\<lparr>mcRoutingTable := rs\<rparr>) = (mc', Some invalid_argument)"
      by (rule Cons.IH [OF rs(2), unfolded upd]) (use \<open>length rs + length vs \<le> _\<close> Cons.prems(3-5) in simp_all)
    have step: "setRoutings toSample (v # vs) mc = setRoutings toSample vs (mc\<lparr>mcRoutingTable := rs\<rparr>)" using rs(1) by simp
    show ?thesis
    proof (cases "\<forall>v \<in> set vs. ?ok v")
      case all: True
      then have "\<forall>w \<in> set (v # vs). ?ok w" using True by simp
      then show ?thesis using IH all unfolding step rs(3) routed_Cons by presburger
    next
      case False
      then have "\<not> (\<forall>w \<in> set (v # vs). ?ok w)" by simp
      then show ?thesis using IH False unfolding step by presburger
    qed
  qed
qed

text \<open>The convolver before the routing table is filled.\<close>

definition new_convolver :: "'a core_convolver \<Rightarrow> nat \<Rightarrow> basic_matrix \<Rightarrow> 'a multichannel_convolver" where
  "new_convolver cc maxRoutings M =
     \<lparr>mcCoreConvolver = cc, mcRoutingTable = [], mcMaxNumberOfRoutingPoints = maxRoutings, mcFrequencyDomainOutput = M\<rparr>"

lemma new_convolver_spec:
  fixes c :: "'c::comm_ring_1 memory"
  assumes inv: "convolver_inv fft sz ao cao cc" "members_disjoint sz cc"
    and hold: "history sz m (ccInputBuffers cc) H" "fdl_holds fft sz cc c H" "filters_hold fft sz cc c h"
    and M: "matrix_inv (2 * sz) cao M" "mNumberOfRows M = nOut" "mNumberOfColumns M = n" "mAlignment (mData M) = max 1 ca"
      "same_outside (array_cells (2 * sz) (mData M)) c c'"
    and apart: "array_cells (2 * sz) (mData M) \<inter> (fdl_cells sz cc \<union> filter_cells sz cc \<union> accumulator_cells sz cc) = {}"
    and sel: "ccComplexAlignment cc = ca" "ccDftRepresentationSizePadded cc = n" "ccNumberOfInputs cc = I"
      "ccNumberOfOutputs cc = nOut" "maxNumberOfFilterEntries cc = F"
    and mc_def: "mc = new_convolver cc maxRoutings M"
  shows "if maxRoutings < length routings \<or> (\<exists>v \<in> set routings. \<not> routing_in_range I nOut F v)
    then \<exists>mc'. initRoutingTable toSample routings mc = (mc', Some invalid_argument)
    else \<exists>rs. initRoutingTable toSample routings mc = (mc\<lparr>mcRoutingTable := rs\<rparr>, None) \<and>
      convolver_state fft sz ao cao (mc\<lparr>mcRoutingTable := rs\<rparr>) m c' H h \<and>
      table_map (mc\<lparr>mcRoutingTable := rs\<rparr>) = routed toSample routings Map.empty"
proof (cases "maxRoutings < length routings")
  case True
  then show ?thesis by (simp add: initRoutingTable_def clearRoutingTable_def Let_def mc_def new_convolver_def)
next
  case few: False
  have new: "mcCoreConvolver mc = cc" "mcRoutingTable mc = []" "mcMaxNumberOfRoutingPoints mc = maxRoutings" "mcFrequencyDomainOutput mc = M"
    by (simp_all add: mc_def new_convolver_def)
  have empty: "valid_table mc" "table_map mc = Map.empty" by (auto simp: valid_table_def table_map_def new)
  have init: "initRoutingTable toSample routings mc = setRoutings toSample routings mc"
    using few by (simp add: initRoutingTable_def clearRoutingTable_def Let_def mc_def new_convolver_def)
  have set: "if \<forall>v \<in> set routings. routing_in_range I nOut F v
    then \<exists>rs. setRoutings toSample routings mc = (mc\<lparr>mcRoutingTable := rs\<rparr>, None) \<and>
      valid_table (mc\<lparr>mcRoutingTable := rs\<rparr>) \<and>
      table_map (mc\<lparr>mcRoutingTable := rs\<rparr>) = routed toSample routings (table_map mc)
    else \<exists>mc'. setRoutings toSample routings mc = (mc', Some invalid_argument)"
    by (rule setRoutings_spec [OF empty(1)]) (use few new sel in simp_all)
  show ?thesis
  proof (cases "\<forall>v \<in> set routings. routing_in_range I nOut F v")
    case False
    then have bad: "maxRoutings < length routings \<or> (\<exists>v \<in> set routings. \<not> routing_in_range I nOut F v)" by blast
    show ?thesis using set unfolding if_not_P [OF False] if_P [OF bad] init .
  next
    case True
    then have ok: "\<not> (maxRoutings < length routings \<or> (\<exists>v \<in> set routings. \<not> routing_in_range I nOut F v))" using few by blast
    obtain rs where rs: "setRoutings toSample routings mc = (mc\<lparr>mcRoutingTable := rs\<rparr>, None)"
      "valid_table (mc\<lparr>mcRoutingTable := rs\<rparr>)" "table_map (mc\<lparr>mcRoutingTable := rs\<rparr>) = routed toSample routings Map.empty"
      using set unfolding if_P [OF True] empty(2) by blast
    have "convolver_layout fft sz ao cao (mc\<lparr>mcRoutingTable := rs\<rparr>)"
      using inv M(1-4) apart sel by (simp add: convolver_layout_def new)
    moreover have "fdl_holds fft sz cc c' H" by (rule fdl_holds_cong [OF inv(1) hold(2) M(5)]) (use apart in blast)
    moreover have "filters_hold fft sz cc c' h" by (rule filters_hold_cong [OF inv(1) hold(3) M(5)]) (use apart in blast)
    ultimately have "convolver_state fft sz ao cao (mc\<lparr>mcRoutingTable := rs\<rparr>) m c' H h"
      using rs(2) hold(1) by (simp add: convolver_state_def new)
    then show ?thesis unfolding if_not_P [OF ok] init using rs(1,3) by blast
  qed
qed

section \<open>Construction\<close>

text \<open>
  C18 (convolver_construction_spec): when the allocations are fresh and do not overlap each other or
  the matrix of initial filters, and the FFT library keeps its laws, constructing a convolver throws
  \<open>std::invalid_argument\<close> when there are more filters or longer filters than it has room for, more
  routings than it may have, or a routing with an index out of range. Otherwise the convolver stands
  for a silent past, its filters are the initial ones, the remaining ones silent, its table maps every input and
  output to the filter and gain of the last routing between them, and no other memory of samples has changed.
\<close>

theorem convolver_construction_spec:
  fixes m :: "'a::field memory" and c :: "'c::comm_ring_1 memory" and fft :: "('a, 'c) fft_wrapper"
  assumes sz: "sz = 2 ^ l" "2 * sz < 2 ^ 64" "ao dvd sz" "cao dvd 2 * sz"
    and al: "al = 0 \<or> (\<exists>k. al = 2 ^ k)" "max 1 al * sz < 2 ^ 64"
    and pos: "0 < B" "0 < L"
    and laws: "fft_laws fft ofReal (2 * B)" and R: "matrix_inv sz aoR R"
    and samples: "sample_allocations sz ao (raw1, raw2, raw3, raw4, raw5) I B al (array_cells sz (mData R))"
    and complexes: "complex_allocations sz cao (raw1, raw2, raw3, raw4, raw5) raw6 I nOut B (calculateNumberOfPartitions L B) F al"
  shows "if F < mNumberOfRows R \<or> L < mNumberOfColumns R \<or> maxRoutings < length routings \<or>
      (\<exists>v \<in> set routings. \<not> routing_in_range I nOut F v)
    then MultichannelConvolverUniform fft sz ao cao (raw1, raw2, raw3, raw4, raw5) raw6 toSample I nOut B L maxRoutings F
      routings R al m c = Inl invalid_argument
    else \<exists>mc m' c'. MultichannelConvolverUniform fft sz ao cao (raw1, raw2, raw3, raw4, raw5) raw6 toSample I nOut B L
        maxRoutings F routings R al m c = Inr (mc, m', c') \<and>
      convolver_state fft sz ao cao mc m' c' (\<lambda>i k. 0) (initial_filters sz B al m R (mNumberOfRows R)) \<and>
      ccNumberOfInputs (mcCoreConvolver mc) = I \<and> ccNumberOfOutputs (mcCoreConvolver mc) = nOut \<and>
      ccBlockLength (mcCoreConvolver mc) = B \<and> ccNumberOfFilterPartitions (mcCoreConvolver mc) = calculateNumberOfPartitions L B \<and>
      maxNumberOfFilterEntries (mcCoreConvolver mc) = F \<and>
      table_map mc = routed toSample routings Map.empty \<and>
      same_outside (raw_block raw1 (row_bytes sz (2 * nextAlignedSize (2 * B) al) I al) \<union>
        raw_block raw3 ((2 * B + max 1 al) * sz)) m m'"
proof -
  define P n where "P = calculateNumberOfPartitions L B" and "n = nextAlignedSize (B + 1) (al div 2)"
  define s1 s2 s3 s4 s5 s6 where
    "s1 = row_bytes sz (2 * nextAlignedSize (2 * B) al) I al" and "s2 = row_bytes (2 * sz) (n * P) I (al div 2)" and
    "s3 = (2 * B + max 1 al) * sz" and "s4 = row_bytes (2 * sz) (n * P) F (al div 2)" and
    "s5 = (n + max 1 (al div 2)) * (2 * sz)" and "s6 = row_bytes (2 * sz) n nOut (al div 2)"
  note s = s1_def s2_def s3_def s4_def s5_def s6_def
  have S: "fresh ao raw1 s1" "fresh ao raw3 s3" "pairwise_disjoint [raw_block raw1 s1, raw_block raw3 s3, array_cells sz (mData R)]"
    using samples unfolding sample_allocations_def prod.case Let_def s by blast+
  have C: "fresh cao raw2 s2" "fresh cao raw4 s4" "fresh cao raw5 s5" "fresh cao raw6 s6"
    "pairwise_disjoint [raw_block raw2 s2, raw_block raw4 s4, raw_block raw5 s5, raw_block raw6 s6]"
    using complexes unfolding complex_allocations_def prod.case Let_def P_def [symmetric] n_def [symmetric] s by blast+
  let ?new = "MultichannelConvolverUniform fft sz ao cao (raw1, raw2, raw3, raw4, raw5) raw6 toSample I nOut B L maxRoutings F
      routings R al m c"
  note core = core_spec [OF sz al pos P_def n_def s1_def s3_def s2_def s4_def s5_def S(1,2) C(1-3) S(3) C(5) laws R, of nOut m c]
  show ?thesis
  proof (cases "F < mNumberOfRows R \<or> L < mNumberOfColumns R")
    case True
    then have "?new = Inl invalid_argument" using core unfolding MultichannelConvolverUniform_def by (simp del: bindE_eq_Inl)
    then show ?thesis using True by auto
  next
    case False
    obtain cc m1 c1 where cc: "CoreConvolverUniform fft sz ao cao (raw1, raw2, raw3, raw4, raw5) I nOut B L F R al m c = Inr (cc, m1, c1)"
      "convolver_inv fft sz ao cao cc" "members_disjoint sz cc" "maxNumberOfFilterEntries cc = F"
      "ccNumberOfInputs cc = I" "ccNumberOfOutputs cc = nOut" "ccBlockLength cc = B" "ccNumberOfFilterPartitions cc = P"
      "ccComplexAlignment cc = al div 2" "ccDftRepresentationSizePadded cc = n"
      "history sz m1 (ccInputBuffers cc) (\<lambda>i k. 0)" "fdl_holds fft sz cc c1 (\<lambda>i k. 0)"
      "filters_hold fft sz cc c1 (initial_filters sz B al m R (mNumberOfRows R))"
      "raw_block raw6 s6 \<inter> (fdl_cells sz cc \<union> filter_cells sz cc \<union> accumulator_cells sz cc) = {}"
      "same_outside (raw_block raw1 s1 \<union> raw_block raw3 s3) m m1"
      using core unfolding if_not_P [OF False] by blast
    note ca = half_alignment [OF al sz(2)]
    have sz2: "0 < 2 * sz" using sz(1) by simp
    obtain M c2 where M: "BasicMatrix (2 * sz) cao raw6 nOut n (al div 2) c1 = Inr (M, c2)" "matrix_inv (2 * sz) cao M"
      "mNumberOfRows M = nOut" "mNumberOfColumns M = n" "mAlignment (mData M) = max 1 (al div 2)"
      "same_outside (array_cells (2 * sz) (mData M)) c1 c2"
      using BasicMatrix_spec [OF ca sz2 sz(4) C(4) [unfolded s6_def row_bytes_def], of c1] by blast
    have "array_cells (2 * sz) (mData M) \<subseteq> raw_block raw6 s6"
      using BasicMatrix_cells [OF M(1) ca sz2 sz(4) C(4) [unfolded s6_def row_bytes_def]] unfolding s6_def row_bytes_def .
    then have apart: "array_cells (2 * sz) (mData M) \<inter> (fdl_cells sz cc \<union> filter_cells sz cc \<union> accumulator_cells sz cc) = {}"
      using cc(14) by blast
    let ?mc = "new_convolver cc maxRoutings M"
    have new: "?new = (case initRoutingTable toSample routings ?mc of
        (mc, Some e) \<Rightarrow> Inl e | (mc, None) \<Rightarrow> Inr (mc, m1, c2))"
      unfolding MultichannelConvolverUniform_def cc(1) bindE_simps prod.case cc(9,10) M(1) new_convolver_def ..
    note init = new_convolver_spec [OF cc(2,3,11-13) M(2-6) apart cc(9,10,5,6,4) refl, where maxRoutings = maxRoutings and routings = routings and toSample = toSample]
    show ?thesis
    proof (cases "maxRoutings < length routings \<or> (\<exists>v \<in> set routings. \<not> routing_in_range I nOut F v)")
      case True
      then obtain mc' where "initRoutingTable toSample routings ?mc = (mc', Some invalid_argument)"
        using init unfolding if_P [OF True] by blast
      then have "?new = Inl invalid_argument" unfolding new by simp
      then show ?thesis using True by simp
    next
      case ok: False
      obtain rs where rs: "initRoutingTable toSample routings ?mc = (?mc\<lparr>mcRoutingTable := rs\<rparr>, None)"
        "convolver_state fft sz ao cao (?mc\<lparr>mcRoutingTable := rs\<rparr>) m1 c2 (\<lambda>i k. 0) (initial_filters sz B al m R (mNumberOfRows R))"
        "table_map (?mc\<lparr>mcRoutingTable := rs\<rparr>) = routed toSample routings Map.empty"
        using init unfolding if_not_P [OF ok] by blast
      have "?new = Inr (?mc\<lparr>mcRoutingTable := rs\<rparr>, m1, c2)" unfolding new rs(1) by simp
      moreover have "mcCoreConvolver (?mc\<lparr>mcRoutingTable := rs\<rparr>) = cc" by (simp add: new_convolver_def)
      moreover have "\<not> (F < mNumberOfRows R \<or> L < mNumberOfColumns R \<or> maxRoutings < length routings \<or>
          (\<exists>v \<in> set routings. \<not> routing_in_range I nOut F v))" using False ok by blast
      ultimately show ?thesis
        using rs(2,3) cc(4-8,15) unfolding P_def [symmetric] s1_def [symmetric] s3_def [symmetric] by auto
    qed
  qed
qed

section \<open>Matrices in memory, for examples\<close>

text \<open>A matrix of one row in memory, without extra alignment.\<close>

definition ex_matrix :: "nat \<Rightarrow> nat \<Rightarrow> basic_matrix" where
  "ex_matrix n p = \<lparr>mStride = n, mNumberOfRows = 1, mNumberOfColumns = n,
     mData = \<lparr>mAlignment = 1, mArrayLength = n, mRawStorage = p, mAlignedStorage = p\<rparr>\<rparr>"

lemma ex_array_inv: "0 < p \<Longrightarrow> sz dvd p \<Longrightarrow> p + (n + 1) * sz < 2 ^ 64 \<Longrightarrow> 0 < n \<Longrightarrow> 0 < sz \<Longrightarrow>
    array_inv sz sz (mData (ex_matrix n p))"
  by (auto simp: array_inv_def ex_matrix_def worstCaseLength_def intro!: exI [of _ 0])


lemma ex_matrix_inv: "0 < p \<Longrightarrow> sz dvd p \<Longrightarrow> p + (n + 1) * sz < 2 ^ 64 \<Longrightarrow> 0 < n \<Longrightarrow> 0 < sz \<Longrightarrow>
    matrix_inv sz sz (ex_matrix n p)"
  using ex_array_inv [of p sz n] by (simp add: matrix_inv_def ex_matrix_def nextAlignedSize_def)

lemma ex_matrix_cells: "array_cells sz (mData (ex_matrix n p)) = elem sz p ` {..<n}"
  by (simp add: array_cells_def ex_matrix_def)

lemma ex_matrix_sel [simp]:
  "mNumberOfRows (ex_matrix n p) = 1" "mNumberOfColumns (ex_matrix n p) = n" "mAlignment (mData (ex_matrix n p)) = 1"
  "mArrayLength (mData (ex_matrix n p)) = n" "mStride (ex_matrix n p) = n" "mAlignedStorage (mData (ex_matrix n p)) = p"
  by (simp_all add: ex_matrix_def)

lemma pairwise_disjoint_Nil: "pairwise_disjoint []"
  by (simp add: pairwise_disjoint_def)

lemma pairwise_disjoint_Cons:
  assumes "\<forall>B \<in> set As. A \<inter> B = {}" "pairwise_disjoint As"
  shows "pairwise_disjoint (A # As)"
  unfolding pairwise_disjoint_def
proof (intro allI impI)
  fix i j assume "i < length (A # As)" "j < length (A # As)" "i \<noteq> j"
  then show "(A # As) ! i \<inter> (A # As) ! j = {}"
    using assms by (cases i; cases j) (auto simp: pairwise_disjoint_def Int_commute)
qed

end
