(* ===== verification/Fast_Convolution.thy ===== *)
theory Fast_Convolution
  imports Convolver_Construction
begin

text \<open>
  The processing of a block by a multichannel convolver
  (\<open>src/librbbl/multichannel_convolver_uniform.cpp\<close>) as the convolution of the whole past of its inputs,
  and a convolver with transforms of two samples on which the results about convolvers are tried.
\<close>

section \<open>Fast convolution\<close>

text \<open>
  C10 (fast_convolution_spec): a convolver that stands for the histories \<open>H\<close> of its inputs and
  the impulse responses \<open>h\<close> of its filters processes a block without an exception. Afterwards it stands
  for the histories with the block, and every sample of an output is the sum, over the routings to
  this output, of the gain times the convolution of the filter with the history of the input, whatever the block length, the
  number of partitions and the position in the delay line, scaled by the forward scaling factor of the
  FFT library. No memory of samples but the outputs, the ring buffer and the transform buffer changes.
\<close>

theorem fast_convolution_spec:
  fixes m :: "'a::field memory" and c :: "'c::comm_ring_1 memory"
  assumes "sz = 2 ^ l" "l < 64" and "fft_laws fft ofReal (ccDftSize (mcCoreConvolver mc))"
    and "convolver_state fft sz ao cao mc m c H h"
    and "caller_memory sz (mcCoreConvolver mc) input inputStride output outputStride"
    and "H' = (\<lambda>i. appended (ccBlockLength (mcCoreConvolver mc)) (\<lambda>k. m (elem sz input (i * inputStride + k))) (H i))"
    and "B = ccBlockLength (mcCoreConvolver mc)" and "P = ccNumberOfFilterPartitions (mcCoreConvolver mc)"
    and "nOut = ccNumberOfOutputs (mcCoreConvolver mc)"
  shows "\<exists>core m' c'. process_block fft ofReal sz mc input inputStride output outputStride al m c
      = Inr (mc\<lparr>mcCoreConvolver := core\<rparr>, m', c') \<and>
    convolver_state fft sz ao cao (mc\<lparr>mcCoreConvolver := core\<rparr>) m' c' H' h \<and>
    (\<forall>k < nOut. \<forall>s < B. m' (elem sz output (k * outputStride + s)) = forwardScalingFactor fft *
       (\<Sum>r\<leftarrow>filter (\<lambda>r. reOutput r = k) (mcRoutingTable mc).
          reGain r * (\<Sum>n<P * B. h (reFilter r) n * H' (reInput r) (n + (B - 1 - s))))) \<and>
    same_outside (output_blocks sz output outputStride nOut B \<union> ring_cells sz (mcCoreConvolver mc)
      \<union> buffer_cells sz (mcCoreConvolver mc)) m m'"
  using process_block_spec [OF assms] unfolding convolved_def .

section \<open>Changing filters\<close>

lemma if_mono: "(if b then P else Q) \<Longrightarrow> (Q \<Longrightarrow> Q') \<Longrightarrow> (if b then P else Q')"
  by simp

lemma convolver_state_filters:
  assumes st: "convolver_state fft sz ao cao mc m c H h" and fil: "filters_hold fft sz (mcCoreConvolver mc) c' h'"
    and same: "same_outside (buffer_cells sz (mcCoreConvolver mc)) m m'" "same_outside (filter_cells sz (mcCoreConvolver mc)) c c'"
  shows "convolver_state fft sz ao cao mc m' c' H h'"
proof -
  let ?cc = "mcCoreConvolver mc"
  have S: "convolver_layout fft sz ao cao mc" "valid_table mc" "history sz m (ccInputBuffers ?cc) H" "fdl_holds fft sz ?cc c H"
    using st by (simp_all add: convolver_state_def)
  note L = convolver_layoutD [OF S(1)]
  have apart: "buffer_cells sz ?cc \<inter> ring_cells sz ?cc = {}" "filter_cells sz ?cc \<inter> fdl_cells sz ?cc = {}"
    using L(2) unfolding members_disjoint_def by blast+
  have "history sz m' (ccInputBuffers ?cc) H" by (rule history_cong [OF convolver_inv_ring(1) [OF L(1)] S(3) same(1) apart(1)])
  moreover have "fdl_holds fft sz ?cc c' H" by (rule fdl_holds_cong [OF L(1) S(4) same(2) apart(2)])
  ultimately show ?thesis using S(1,2) fil by (simp add: convolver_state_def)
qed

text \<open>
  C19 (filter_change_spec): a running convolver can be given other filters. Setting an impulse response changes this
  filter only, and throws when the index or the length is out of range; initialising the filters replaces them all, and throws when there are too many or
  too long ones; clearing silences them all. The histories and the routings stay as they are, and of the
  memory of samples only the transform buffer changes. A partition of an impulse response that
  does not have the alignment that the caller promised is read as silence.
\<close>

theorem filter_change_spec:
  fixes m :: "'a::field memory" and c :: "'c::comm_ring_1 memory"
  assumes sz: "sz = 2 ^ l" and laws: "fft_laws fft ofReal (ccDftSize (mcCoreConvolver mc))"
    and st: "convolver_state fft sz ao cao mc m c H h"
    and ir: "al = 0 \<or> (\<exists>k. al = 2 ^ k)" "block sz ir L \<inter> buffer_cells sz (mcCoreConvolver mc) = {}"
    and R: "matrix_inv sz aoR R" "array_cells sz (mData R) \<inter> buffer_cells sz (mcCoreConvolver mc) = {}"
  shows "(if maxNumberOfFilterEntries (mcCoreConvolver mc) \<le> f \<or> ccMaxFilterLength (mcCoreConvolver mc) < L
      then mc_setImpulseResponse fft sz mc ir L f al (m, c) = Inl invalid_argument
      else \<exists>m' c'. mc_setImpulseResponse fft sz mc ir L f al (m, c) = Inr (m', c') \<and>
        convolver_state fft sz ao cao mc m' c' H
          (h(f := loaded sz (ccBlockLength (mcCoreConvolver mc)) (min (ccAlignment (mcCoreConvolver mc)) al) m ir L)) \<and>
        same_outside (buffer_cells sz (mcCoreConvolver mc)) m m') \<and>
    (if maxNumberOfFilterEntries (mcCoreConvolver mc) < mNumberOfRows R \<or> ccMaxFilterLength (mcCoreConvolver mc) < mNumberOfColumns R
      then mc_initFilters fft sz mc R (m, c) = Inl invalid_argument
      else \<exists>m' c'. mc_initFilters fft sz mc R (m, c) = Inr (m', c') \<and>
        convolver_state fft sz ao cao mc m' c' H
          (initial_filters sz (ccBlockLength (mcCoreConvolver mc)) (ccAlignment (mcCoreConvolver mc)) m R (mNumberOfRows R)) \<and>
        same_outside (buffer_cells sz (mcCoreConvolver mc)) m m') \<and>
    (\<exists>c'. mc_clearFilters sz mc c = Inr c' \<and> convolver_state fft sz ao cao mc m c' H (\<lambda>f n. 0))"
proof (intro conjI)
  let ?cc = "mcCoreConvolver mc"
  have inv: "convolver_inv fft sz ao cao ?cc" and fil: "filters_hold fft sz ?cc c h"
    using st by (simp_all add: convolver_state_def convolver_layoutD(1))
  note keep = convolver_state_filters [OF st]
  show "if maxNumberOfFilterEntries ?cc \<le> f \<or> ccMaxFilterLength ?cc < L
      then mc_setImpulseResponse fft sz mc ir L f al (m, c) = Inl invalid_argument
      else \<exists>m' c'. mc_setImpulseResponse fft sz mc ir L f al (m, c) = Inr (m', c') \<and>
        convolver_state fft sz ao cao mc m' c' H (h(f := loaded sz (ccBlockLength ?cc) (min (ccAlignment ?cc) al) m ir L)) \<and>
        same_outside (buffer_cells sz ?cc) m m'"
    unfolding mc_setImpulseResponse_def
    by (rule if_mono [OF setImpulseResponse_spec [OF sz inv laws fil ir, of f m]]) (use keep in blast)
  show "if maxNumberOfFilterEntries ?cc < mNumberOfRows R \<or> ccMaxFilterLength ?cc < mNumberOfColumns R
      then mc_initFilters fft sz mc R (m, c) = Inl invalid_argument
      else \<exists>m' c'. mc_initFilters fft sz mc R (m, c) = Inr (m', c') \<and>
        convolver_state fft sz ao cao mc m' c' H
          (initial_filters sz (ccBlockLength ?cc) (ccAlignment ?cc) m R (mNumberOfRows R)) \<and>
        same_outside (buffer_cells sz ?cc) m m'"
    unfolding mc_initFilters_def
    by (rule if_mono [OF initFilters_spec [OF sz inv laws R, of m c]]) (use keep in blast)
  show "\<exists>c'. mc_clearFilters sz mc c = Inr c' \<and> convolver_state fft sz ao cao mc m c' H (\<lambda>f n. 0)"
    unfolding mc_clearFilters_def using clearFilters_spec [OF sz inv laws, of c] keep [of _ _ m] by (auto simp: same_outside_def)
qed

section \<open>A convolver with transforms of two samples\<close>

definition fft2 :: "(rat, rat) fft_wrapper" where
  "fft2 = \<lparr>fftForward = (\<lambda>x. [x ! 0 + x ! 1, x ! 0 - x ! 1]), fftInverse = (\<lambda>X. [X ! 0 + X ! 1, X ! 0 - X ! 1]),
     forwardScalingFactor = 1, inverseScalingFactor = 1\<rparr>"

lemma fft2_laws: "fft_laws fft2 (\<lambda>x. x) 2"
proof -
  have two: "\<exists>a b. x = [a, b]" if "length x = 2" for x :: "rat list"
    using that by (auto simp: numeral_2_eq_2 length_Suc_conv)
  have circ: "circular 2 [a, b] [c, d] 0 = a * c + b * d" "circular 2 [a, b] [c, d] (Suc 0) = b * c + a * d" for a b c d :: rat
  proof -
    have "{..<2} = {0, 1 :: nat}" by auto
    then show "circular 2 [a, b] [c, d] 0 = a * c + b * d" "circular 2 [a, b] [c, d] (Suc 0) = b * c + a * d"
      by (simp_all add: circular_def)
  qed
  have u: "[0..<2] = [0, 1 :: nat]" by (simp add: numeral_2_eq_2)
  show ?thesis
    unfolding fft_laws_def
  proof (intro conjI allI impI)
    fix x y :: "rat list" assume x: "length x = 2" and y: "length y = 2"
    obtain a b where "x = [a, b]" using two [OF x] by blast
    moreover obtain c d where "y = [c, d]" using two [OF y] by blast
    ultimately show "fftInverse fft2 (map2 (*) (fftForward fft2 x) (fftForward fft2 y)) =
      map (\<lambda>t. forwardScalingFactor fft2 * forwardScalingFactor fft2 * inverseScalingFactor fft2 * of_nat 2 * circular 2 x y t) [0..<2]"
      by (simp add: fft2_def u circ algebra_simps)
  next
    fix X Y :: "rat list" assume "length X = 2 div 2 + 1" and "length Y = 2 div 2 + 1"
    then obtain a b c d where "X = [a, b]" "Y = [c, d]" using two by fastforce
    then show "fftInverse fft2 (map2 (+) X Y) = map2 (+) (fftInverse fft2 X) (fftInverse fft2 Y)" by (simp add: fft2_def)
  next
    fix g and X :: "rat list" assume "length X = 2 div 2 + 1"
    then obtain a b where "X = [a, b]" using two by fastforce
    then show "fftInverse fft2 (map ((*) g) X) = map ((*) g) (fftInverse fft2 X)" by (simp add: fft2_def algebra_simps)
  qed (simp_all add: fft2_def numeral_2_eq_2)
qed

definition ex_core :: "rat core_convolver" where
  "ex_core = \<lparr>ccAlignment = 0, ccComplexAlignment = 0, ccNumberOfInputs = 1, ccNumberOfOutputs = 1, ccBlockLength = 1,
     ccMaxFilterLength = 1, ccNumberOfFilterPartitions = 1, ccDftSize = 2, ccDftRepresentationSizePadded = 2,
     ccInputBuffers = \<lparr>cbBuffer = ex_matrix 4 64, cbImplLength = 2, cbLength = 2, cbAllocatedLength = 2, cbStride = 4,
       cbNumberOfChannels = 1, cbBasePointer = 64, cbWriteHeadIndex = 0\<rparr>,
     ccInputFDL = ex_matrix 2 1000, ccFdlCycleOffset = 0, ccTimeDomainTransformBuffer = mData (ex_matrix 2 128),
     ccFilterPartitionsFrequencyDomain = ex_matrix 2 1040, ccFrequencyDomainAccumulator = mData (ex_matrix 2 1080),
     ccFilterScalingFactor = 1 / 2\<rparr>"

definition ex_convolver :: "rat multichannel_convolver" where
  "ex_convolver = \<lparr>mcCoreConvolver = ex_core, mcRoutingTable = [\<lparr>reInput = 0, reOutput = 0, reFilter = 0, reGain = 2\<rparr>],
     mcMaxNumberOfRoutingPoints = 1, mcFrequencyDomainOutput = ex_matrix 2 1120\<rparr>"

lemma ex_core_sel [simp]:
  "ccAlignment ex_core = 0" "ccComplexAlignment ex_core = 0" "ccNumberOfInputs ex_core = 1" "ccNumberOfOutputs ex_core = 1"
  "ccBlockLength ex_core = 1" "ccMaxFilterLength ex_core = 1" "ccNumberOfFilterPartitions ex_core = 1" "ccDftSize ex_core = 2"
  "ccDftRepresentationSizePadded ex_core = 2" "cbBuffer (ccInputBuffers ex_core) = ex_matrix 4 64"
  "cbNumberOfChannels (ccInputBuffers ex_core) = 1" "cbImplLength (ccInputBuffers ex_core) = 2" "ccFdlCycleOffset ex_core = 0"
  "cbLength (ccInputBuffers ex_core) = 2"
  "ccInputFDL ex_core = ex_matrix 2 1000" "ccTimeDomainTransformBuffer ex_core = mData (ex_matrix 2 128)"
  "ccFilterPartitionsFrequencyDomain ex_core = ex_matrix 2 1040" "ccFrequencyDomainAccumulator ex_core = mData (ex_matrix 2 1080)"
  "ccFilterScalingFactor ex_core = 1 / 2"
  by (simp_all add: ex_core_def)

lemma ex_core_inv: "convolver_inv fft2 4 4 8 ex_core"
proof -
  have "circular_inv 4 4 (ccInputBuffers ex_core)"
    using ex_matrix_inv [of 64 4 4] by (simp add: circular_inv_def ex_core_def)
  moreover have "array_inv 4 4 (mData (ex_matrix 2 128))" by (rule ex_array_inv) simp_all
  moreover have "matrix_inv 8 8 (ex_matrix 2 1000)" "matrix_inv 8 8 (ex_matrix 2 1040)" by (rule ex_matrix_inv; simp)+
  moreover have "array_inv 8 8 (mData (ex_matrix 2 1080))" by (rule ex_array_inv) simp_all
  moreover have "nextAlignedSize (Suc (Suc 0)) 0 = 2" "calculateFilterScalingFactor fft2 2 = 1 / 2"
    by (simp_all add: nextAlignedSize_def calculateFilterScalingFactor_def fft2_def)
  ultimately show ?thesis unfolding convolver_inv_def ex_core_sel by simp
qed

text \<open>The memories: the sample 7 at the address 5000, the spectrum of the filter of the single coefficient 3.\<close>

definition ex_input :: "rat memory" where
  "ex_input a = (if a = 5000 then 7 else 0)"

definition ex_spectra :: "rat memory" where
  "ex_spectra a = (if a = 1040 \<or> a = 1048 then 3 / 2 else 0)"

definition ex_filter :: "nat \<Rightarrow> nat \<Rightarrow> rat" where
  "ex_filter f n = (if f = 0 \<and> n = 0 then 3 else 0)"

lemma ex_table: "valid_table ex_convolver" "mcCoreConvolver ex_convolver = ex_core"
  by (simp_all add: valid_table_def ex_convolver_def)

lemma ex_convolver_state: "convolver_state fft2 4 4 8 ex_convolver ex_input ex_spectra (\<lambda>i k. 0) ex_filter"
proof -
  have u: "[0..<2] = [0, 1 :: nat]" "{..<2} = {0, 1 :: nat}" "{..<4} = {0, 1, 2, 3 :: nat}" by (auto simp: numeral_2_eq_2)
  have M: "mcFrequencyDomainOutput ex_convolver = ex_matrix 2 1120" by (simp add: ex_convolver_def)
  have "matrix_inv 8 8 (ex_matrix 2 1120)" by (rule ex_matrix_inv) simp_all
  then have "convolver_layout fft2 4 4 8 ex_convolver"
    using ex_core_inv by (simp add: convolver_layout_def M ex_table(2) members_disjoint_def ex_matrix_cells u)
  moreover have "history 4 ex_input (ccInputBuffers ex_core) (\<lambda>i k. 0)"
    by (auto simp: history_def matrix_element_def ex_input_def)
  moreover have "fdl_holds fft2 4 ex_core ex_spectra (\<lambda>i k. 0)"
    by (simp add: fdl_holds_def getFdlBlock_def matrix_row_def samples_at_def input_window_def fft2_def ex_spectra_def u)
  moreover have "filters_hold fft2 4 ex_core ex_spectra ex_filter"
    by (simp add: filters_hold_def getFdFilterPartition_def matrix_row_def samples_at_def filter_window_def fft2_def
        ex_spectra_def ex_filter_def u)
  ultimately show ?thesis using ex_table by (simp add: convolver_state_def)
qed

theorem fast_convolution_spec_witness:
  "\<exists>core m' c'. process_block fft2 (\<lambda>x. x) 4 ex_convolver 5000 1 6000 1 0 ex_input ex_spectra
      = Inr (ex_convolver\<lparr>mcCoreConvolver := core\<rparr>, m', c') \<and> m' 6000 = 42"
proof -
  let ?H = "\<lambda>i. appended (ccBlockLength (mcCoreConvolver ex_convolver)) (\<lambda>k. ex_input (elem 4 5000 (i * 1 + k))) (\<lambda>k. 0)"
  have u: "{..<2} = {0, 1 :: nat}" "{..<4} = {0, 1, 2, 3 :: nat}" by auto
  have mem: "caller_memory 4 (mcCoreConvolver ex_convolver) 5000 1 6000 1"
    by (simp add: caller_memory_def readable_def ex_table(2) ex_matrix_cells u image_iff)
  have pow: "(4::nat) = 2 ^ 2" and le: "(2::nat) < 64" by simp_all
  have laws: "fft_laws fft2 (\<lambda>x. x) (ccDftSize (mcCoreConvolver ex_convolver))" using fft2_laws by (simp add: ex_table(2))
  obtain core m' c' where p: "process_block fft2 (\<lambda>x. x) 4 ex_convolver 5000 1 6000 1 0 ex_input ex_spectra
      = Inr (ex_convolver\<lparr>mcCoreConvolver := core\<rparr>, m', c')"
    "\<forall>k < ccNumberOfOutputs (mcCoreConvolver ex_convolver). \<forall>s < ccBlockLength (mcCoreConvolver ex_convolver).
      m' (elem 4 6000 (k * 1 + s)) = forwardScalingFactor fft2 *
       (\<Sum>r\<leftarrow>filter (\<lambda>r. reOutput r = k) (mcRoutingTable ex_convolver).
          reGain r * (\<Sum>n<ccNumberOfFilterPartitions (mcCoreConvolver ex_convolver) * ccBlockLength (mcCoreConvolver ex_convolver).
            ex_filter (reFilter r) n * ?H (reInput r) (n + (ccBlockLength (mcCoreConvolver ex_convolver) - 1 - s))))"
    using fast_convolution_spec [OF pow le laws ex_convolver_state mem refl refl refl refl, of 0] by blast
  have "m' 6000 = 42" using p(2) unfolding ex_table(2)
    by (simp add: ex_convolver_def fft2_def ex_filter_def appended_def ex_input_def)
  then show ?thesis using p(1) by blast
qed

theorem routing_table_spec_witness:
  "\<exists>rs. setRoutingEntry 0 0 0 5 ex_convolver = Inr (ex_convolver\<lparr>mcRoutingTable := rs\<rparr>) \<and>
    table_map (ex_convolver\<lparr>mcRoutingTable := rs\<rparr>) (0, 0) = Some (0, 5)"
proof -
  let ?core = "mcCoreConvolver ex_convolver"
  note spec = routing_table_spec [OF ex_table(1), where i = 0 and k = 0 and f = 0 and g = 5, THEN conjunct1]
  have "table_map ex_convolver (0, 0) = Some (0, 2)" by (simp add: table_map_def ex_convolver_def)
  then have ok: "\<not> (ccNumberOfInputs ?core \<le> 0 \<or> ccNumberOfOutputs ?core \<le> 0 \<or> maxNumberOfFilterEntries ?core \<le> 0 \<or>
      (0, 0) \<notin> dom (table_map ex_convolver) \<and> length (mcRoutingTable ex_convolver) = mcMaxNumberOfRoutingPoints ex_convolver)"
    by (simp add: ex_table(2) dom_def)
  obtain rs where "setRoutingEntry 0 0 0 5 ex_convolver = Inr (ex_convolver\<lparr>mcRoutingTable := rs\<rparr>)"
    "table_map (ex_convolver\<lparr>mcRoutingTable := rs\<rparr>) = (table_map ex_convolver)((0, 0) \<mapsto> (0, 5))"
    using spec unfolding if_not_P [OF ok] by blast
  then show ?thesis by auto
qed

text \<open>
  A convolver of one input, one output, one filter of one coefficient, 3, that lies at the address 2000,
  and one routing with the gain 2.
\<close>

definition ex_filters :: "rat memory" where
  "ex_filters a = (if a = 2000 then 3 else 0)"

definition ex_routing :: "rat filter_routing" where
  "ex_routing = \<lparr>inputIndex = 0, outputIndex = 0, filterIndex = 0, gainLinear = 2\<rparr>"

theorem convolver_construction_spec_witness:
  "\<exists>mc m' c'. MultichannelConvolverUniform fft2 4 4 8 (1000, 1000, 1104, 1104, 1200) 1304 (\<lambda>x. x) 1 1 1 1 1 1
      [ex_routing] (ex_matrix 1 2000) 0 ex_filters (\<lambda>a. 0) = Inr (mc, m', c') \<and>
    convolver_state fft2 4 4 8 mc m' c' (\<lambda>i k. 0) (initial_filters 4 1 0 ex_filters (ex_matrix 1 2000) 1) \<and>
    table_map mc (0, 0) = Some (0, 2)"
proof -
  have P: "calculateNumberOfPartitions 1 1 = 1" by (simp add: calculateNumberOfPartitions_def)
  have size: "nextAlignedSize k 0 = k" for k by (simp add: nextAlignedSize_def)
  have a: "sample_allocations 4 4 (1000, 1000, 1104, 1104, 1200) 1 1 0 (array_cells 4 (mData (ex_matrix 1 2000)))"
    unfolding sample_allocations_def Let_def row_bytes_def size prod.case
    by (intro conjI pairwise_disjoint_Cons pairwise_disjoint_Nil) (simp_all add: fresh_def raw_block_def ex_matrix_cells lessThan_Suc)
  have b: "complex_allocations 4 8 (1000, 1000, 1104, 1104, 1200) 1304 1 1 1 (calculateNumberOfPartitions 1 1) 1 0"
    unfolding complex_allocations_def Let_def row_bytes_def size prod.case P
    by (intro conjI pairwise_disjoint_Cons pairwise_disjoint_Nil) (simp_all add: size fresh_def raw_block_def)
  have R: "matrix_inv 4 4 (ex_matrix 1 2000)" by (rule ex_matrix_inv) simp_all
  have pre: "(4::nat) = 2 ^ 2" "2 * (4::nat) < 2 ^ 64" "(4::nat) dvd 4" "(8::nat) dvd 2 * 4"
    "(0::nat) = 0 \<or> (\<exists>k. (0::nat) = 2 ^ k)" "max 1 0 * (4::nat) < 2 ^ 64" "(0::nat) < 1" "(0::nat) < 1" by simp_all
  have laws: "fft_laws fft2 (\<lambda>x. x) (2 * 1)" using fft2_laws by simp
  note spec = convolver_construction_spec [OF pre laws R a b, where maxRoutings = 1 and routings = "[ex_routing]"
      and toSample = "\<lambda>x. x" and m = ex_filters and c = "\<lambda>a. 0", unfolded P]
  have ok: "\<not> (1 < mNumberOfRows (ex_matrix 1 2000) \<or> 1 < mNumberOfColumns (ex_matrix 1 2000) \<or> 1 < length [ex_routing] \<or>
      (\<exists>v \<in> set [ex_routing]. \<not> routing_in_range 1 1 1 v))"
    by (simp add: routing_in_range_def ex_routing_def)
  obtain mc m' c' where "MultichannelConvolverUniform fft2 4 4 8 (1000, 1000, 1104, 1104, 1200) 1304 (\<lambda>x. x) 1 1 1 1 1 1
      [ex_routing] (ex_matrix 1 2000) 0 ex_filters (\<lambda>a. 0) = Inr (mc, m', c')"
    "convolver_state fft2 4 4 8 mc m' c' (\<lambda>i k. 0) (initial_filters 4 1 0 ex_filters (ex_matrix 1 2000) (mNumberOfRows (ex_matrix 1 2000)))"
    "table_map mc = routed (\<lambda>x. x) [ex_routing] Map.empty"
    using spec unfolding if_not_P [OF ok] by blast
  then show ?thesis by (simp add: routed_def ex_routing_def) 
qed

theorem filter_change_spec_witness:
  "\<exists>m' c'. mc_setImpulseResponse fft2 4 ex_convolver 5000 1 0 0 (ex_input, ex_spectra) = Inr (m', c') \<and>
    convolver_state fft2 4 4 8 ex_convolver m' c' (\<lambda>i k. 0) (\<lambda>f n. if f = 0 \<and> n = 0 then 7 else 0)"
proof -
  let ?cc = "mcCoreConvolver ex_convolver"
  have pow: "(4::nat) = 2 ^ 2" "(0::nat) = 0 \<or> (\<exists>k. (0::nat) = 2 ^ k)" by simp_all
  have laws: "fft_laws fft2 (\<lambda>x. x) (ccDftSize ?cc)" using fft2_laws by (simp add: ex_table(2))
  have ir: "block 4 5000 1 \<inter> buffer_cells 4 ?cc = {}" by (auto simp: ex_table(2) ex_matrix_cells)
  have R: "matrix_inv 4 4 (ex_matrix 1 2000)" "array_cells 4 (mData (ex_matrix 1 2000)) \<inter> buffer_cells 4 ?cc = {}"
    using ex_matrix_inv [of 2000 4 1] by (auto simp: ex_table(2) ex_matrix_cells)
  have ok: "\<not> (maxNumberOfFilterEntries ?cc \<le> 0 \<or> ccMaxFilterLength ?cc < 1)" by (simp add: ex_table(2))
  let ?h = "ex_filter(0 := loaded 4 (ccBlockLength ?cc) (min (ccAlignment ?cc) 0) ex_input 5000 1)"
  have "?h f n = (if f = 0 \<and> n = 0 then 7 else 0)" for f n
    by (simp add: loaded_def ex_input_def ex_table(2) checkAlignment_def ex_filter_def)
  then have h: "?h = (\<lambda>f n. if f = 0 \<and> n = 0 then 7 else 0)" by (intro ext)
  show ?thesis
    using filter_change_spec [OF pow(1) laws ex_convolver_state pow(2) ir R, where f = 0, THEN conjunct1]
    unfolding if_not_P [OF ok] h by blast
qed

end
