(* ===== verification/Gain_Matrix.thy ===== *)
theory Gain_Matrix
  imports Convolver_Construction
begin

text \<open>
  Gains that change without clicks (\<open>src/librbbl/gain_fader.cpp\<close> and \<open>gain_matrix.cpp\<close>): a matrix of
  gains mixes the inputs into the outputs; when new gains are set, the gains move linearly, in a
  ramp over several blocks, from where they are. Samples are elements of an ordered field; the
  machine epsilon of the sample type is the argument \<open>eps\<close>. Pointers to channels are functions from
  channels to addresses.
\<close>

section \<open>Fading\<close>

record gain_fader =
  gfBlockSize :: nat
  gfInterpolationSamples :: nat
  gfInterpolationPeriods :: nat
  gfInterpolationRamp :: aligned_array
  gfTempBuffer :: aligned_array

definition setupRamp :: "nat \<Rightarrow> gain_fader \<Rightarrow> nat \<Rightarrow> 'a::linordered_field memory \<Rightarrow> exn + 'a memory" where
  "setupRamp sz gf interpolationSteps m =
     (let ramp = gfInterpolationRamp gf
      in bindE (if 0 < gfInterpolationPeriods gf
                then or_throw logic_error (vectorRamp of_nat (1 / 2) sz (mAlignedStorage ramp) interpolationSteps 0 1
                       False True (mAlignment ramp) m)
                else Inr m) (\<lambda>m.
         or_throw logic_error (vectorFill sz 1 (elem sz (mAlignedStorage ramp) interpolationSteps)
           (mArrayLength ramp - interpolationSteps) 0 m)))"

text \<open>A block size of zero is a division by zero.\<close>

definition GainFader ::
  "nat \<Rightarrow> nat \<Rightarrow> nat \<Rightarrow> nat \<Rightarrow> nat \<Rightarrow> nat \<Rightarrow> nat \<Rightarrow> 'a::linordered_field memory \<Rightarrow> exn + gain_fader \<times> 'a memory" where
  "GainFader sz ao raw1 raw2 blockSize interpolationSteps alignment m =
     (if blockSize = 0 then Inl undefined_behaviour
      else let periods = (interpolationSteps + blockSize - 1) div blockSize
           in bindE (AlignedArray sz ao raw1 ((periods + 1) * blockSize) alignment) (\<lambda>ramp.
              bindE (AlignedArray sz ao raw2 blockSize alignment) (\<lambda>temp.
              let gf = \<lparr>gfBlockSize = blockSize, gfInterpolationSamples = interpolationSteps,
                        gfInterpolationPeriods = periods, gfInterpolationRamp = ramp, gfTempBuffer = temp\<rparr>
              in bindE (setupRamp sz gf interpolationSteps m) (\<lambda>m. Inr (gf, m)))))"

definition fader_scale ::
  "nat \<Rightarrow> gain_fader \<Rightarrow> nat \<Rightarrow> nat \<Rightarrow> 'a \<Rightarrow> 'a \<Rightarrow> nat \<Rightarrow> 'a::linordered_field memory \<Rightarrow> exn + 'a memory" where
  "fader_scale sz gf input output startGain endGain blockIndex m =
     (let blockIndex = min blockIndex (gfInterpolationPeriods gf); ramp = gfInterpolationRamp gf
      in or_throw runtime_error
           (vectorRampScaling sz input (elem sz (mAlignedStorage ramp) (blockIndex * gfBlockSize gf)) output startGain
             (endGain - startGain) (gfBlockSize gf) False (mAlignment ramp) m))"

definition scaleAndAccumulate ::
  "nat \<Rightarrow> gain_fader \<Rightarrow> nat \<Rightarrow> nat \<Rightarrow> 'a \<Rightarrow> 'a \<Rightarrow> nat \<Rightarrow> 'a::linordered_field memory \<Rightarrow> exn + 'a memory" where
  "scaleAndAccumulate sz gf input outputAcc startGain endGain blockIndex m =
     (let blockIndex = min blockIndex (gfInterpolationPeriods gf); ramp = gfInterpolationRamp gf
      in or_throw runtime_error
           (vectorRampScaling sz input (elem sz (mAlignedStorage ramp) (blockIndex * gfBlockSize gf)) outputAcc startGain
             (endGain - startGain) (gfBlockSize gf) True (mAlignment ramp) m))"

section \<open>The matrix\<close>

record gain_matrix =
  gmPreviousGains :: basic_matrix
  gmNextGains :: basic_matrix
  gmBlockSize :: nat
  gmAlignment :: nat
  gmInterpolationCounter :: nat
  gmFader :: gain_fader

text \<open>The addresses that the allocator returns for the matrices and for the buffers of the fader.\<close>

definition GainMatrix ::
  "nat \<Rightarrow> nat \<Rightarrow> nat \<times> nat \<times> nat \<times> nat \<Rightarrow> nat \<Rightarrow> nat \<Rightarrow> nat \<Rightarrow> nat \<Rightarrow> 'a \<Rightarrow> nat \<Rightarrow> 'a::linordered_field memory
   \<Rightarrow> exn + gain_matrix \<times> 'a memory" where
  "GainMatrix sz ao = (\<lambda>(raw1, raw2, raw3, raw4) numberOfInputs numberOfOutputs blockLength interpolationSteps initialValue alignment m.
     bindE (BasicMatrix sz ao raw1 numberOfOutputs numberOfInputs alignment m) (\<lambda>(previousGains, m).
     bindE (BasicMatrix sz ao raw2 numberOfOutputs numberOfInputs alignment m) (\<lambda>(nextGains, m).
     bindE (GainFader sz ao raw3 raw4 blockLength interpolationSteps alignment m) (\<lambda>(gf, m).
     bindE (matrix_fillValue sz initialValue previousGains m) (\<lambda>m.
     bindE (matrix_copy sz nextGains previousGains m) (\<lambda>m.
     Inr (\<lparr>gmPreviousGains = previousGains, gmNextGains = nextGains, gmBlockSize = blockLength, gmAlignment = alignment,
           gmInterpolationCounter = 0, gmFader = gf\<rparr>, m)))))))"

definition GainMatrix_matrix ::
  "nat \<Rightarrow> nat \<Rightarrow> nat \<times> nat \<times> nat \<times> nat \<Rightarrow> nat \<Rightarrow> nat \<Rightarrow> nat \<Rightarrow> nat \<Rightarrow> basic_matrix \<Rightarrow> nat \<Rightarrow> 'a::linordered_field memory
   \<Rightarrow> exn + gain_matrix \<times> 'a memory" where
  "GainMatrix_matrix sz ao raws numberOfInputs numberOfOutputs blockLength interpolationSteps initialMatrix alignment m =
     bindE (GainMatrix sz ao raws numberOfInputs numberOfOutputs blockLength interpolationSteps 0 alignment m) (\<lambda>(gm, m).
       if mNumberOfRows initialMatrix \<noteq> numberOfOutputs \<or> mNumberOfColumns initialMatrix \<noteq> numberOfInputs
       then Inl invalid_argument
       else bindE (matrix_copy sz (gmPreviousGains gm) initialMatrix m) (\<lambda>m.
            bindE (matrix_copy sz (gmNextGains gm) initialMatrix m) (\<lambda>m. Inr (gm, m))))"

definition processAudio ::
  "nat \<Rightarrow> gain_matrix \<Rightarrow> (nat \<Rightarrow> nat) \<Rightarrow> (nat \<Rightarrow> nat) \<Rightarrow> 'a::linordered_field memory \<Rightarrow> exn + 'a memory" where
  "processAudio sz gm input output m =
     (let numInputs = mNumberOfColumns (gmPreviousGains gm); numOutputs = mNumberOfRows (gmPreviousGains gm);
          previous = \<lambda>m outputIdx inputIdx. m (matrix_element sz (gmPreviousGains gm) outputIdx inputIdx);
          nextGain = \<lambda>m outputIdx inputIdx. m (matrix_element sz (gmNextGains gm) outputIdx inputIdx)
      in if numInputs = 0
         then foldE (\<lambda>m outputIdx. or_throw runtime_error (vectorZero sz (output outputIdx) (gmBlockSize gm) (gmAlignment gm) m))
                m [0..<numOutputs]
         else foldE (\<lambda>m outputIdx.
                bindE (fader_scale sz (gmFader gm) (input 0) (output outputIdx) (previous m outputIdx 0) (nextGain m outputIdx 0)
                         (gmInterpolationCounter gm) m) (\<lambda>m.
                  foldE (\<lambda>m inputIdx. scaleAndAccumulate sz (gmFader gm) (input inputIdx) (output outputIdx)
                           (previous m outputIdx inputIdx) (nextGain m outputIdx inputIdx) (gmInterpolationCounter gm) m)
                    m [1..<numInputs]))
                m [0..<numOutputs])"

definition gains_process ::
  "nat \<Rightarrow> gain_matrix \<Rightarrow> (nat \<Rightarrow> nat) \<Rightarrow> (nat \<Rightarrow> nat) \<Rightarrow> 'a::linordered_field memory \<Rightarrow> exn + gain_matrix \<times> 'a memory" where
  "gains_process sz gm input output m =
     bindE (processAudio sz gm input output m) (\<lambda>m.
       Inr (if gmInterpolationCounter gm < gfInterpolationPeriods (gmFader gm)
            then gm\<lparr>gmInterpolationCounter := gmInterpolationCounter gm + 1\<rparr> else gm, m))"

text \<open>The gain that a transition has reached, or its target when it is too close to the start.\<close>

definition advance_gain :: "'a::linordered_field \<Rightarrow> 'a \<Rightarrow> nat \<Rightarrow> gain_matrix \<Rightarrow> nat \<Rightarrow> 'a memory \<Rightarrow> nat \<Rightarrow> 'a memory" where
  "advance_gain eps ratio sz gm outputIdx m inputIdx =
     (let previous = matrix_element sz (gmPreviousGains gm) outputIdx inputIdx;
          nextGain = matrix_element sz (gmNextGains gm) outputIdx inputIdx;
          newScale = ratio * (m nextGain - m previous)
      in if eps \<le> \<bar>newScale\<bar> then m(previous := m previous + newScale) else m(previous := m nextGain))"

definition setGainsInternal ::
  "'a::linordered_field \<Rightarrow> nat \<Rightarrow> gain_matrix \<Rightarrow> basic_matrix \<Rightarrow> 'a memory \<Rightarrow> exn + gain_matrix \<times> 'a memory" where
  "setGainsInternal eps sz gm newGains m =
     (let numInputs = mNumberOfColumns (gmPreviousGains gm); numOutputs = mNumberOfRows (gmPreviousGains gm);
          gf = gmFader gm; counter = gmInterpolationCounter gm
      in bindE (if gfInterpolationPeriods gf \<le> counter
                then bindE (matrix_swap (gmPreviousGains gm) (gmNextGains gm)) (\<lambda>(previous, nextGain).
                       Inr (gm\<lparr>gmPreviousGains := previous, gmNextGains := nextGain\<rparr>, m))
                else let ratio = min 1 (of_nat (counter * gmBlockSize gm) / of_nat (gfInterpolationSamples gf))
                     in Inr (gm, fold (\<lambda>outputIdx m. fold (\<lambda>inputIdx m. advance_gain eps ratio sz gm outputIdx m inputIdx)
                                   [0..<numInputs] m) [0..<numOutputs] m)) (\<lambda>(gm, m).
         bindE (matrix_copy sz (gmNextGains gm) newGains m) (\<lambda>m. Inr (gm\<lparr>gmInterpolationCounter := 0\<rparr>, m))))"

definition setNewGains ::
  "'a::linordered_field \<Rightarrow> nat \<Rightarrow> gain_matrix \<Rightarrow> basic_matrix \<Rightarrow> 'a memory \<Rightarrow> exn + gain_matrix \<times> 'a memory" where
  "setNewGains eps sz gm newGains m =
     (if mNumberOfRows newGains \<noteq> mNumberOfRows (gmPreviousGains gm) \<or>
         mNumberOfColumns newGains \<noteq> mNumberOfColumns (gmPreviousGains gm)
      then Inl invalid_argument else setGainsInternal eps sz gm newGains m)"

definition gains_process_new ::
  "'a::linordered_field \<Rightarrow> nat \<Rightarrow> gain_matrix \<Rightarrow> (nat \<Rightarrow> nat) \<Rightarrow> (nat \<Rightarrow> nat) \<Rightarrow> basic_matrix \<Rightarrow> 'a memory
   \<Rightarrow> exn + gain_matrix \<times> 'a memory" where
  "gains_process_new eps sz gm input output newGains m =
     (if mNumberOfRows newGains \<noteq> mNumberOfRows (gmPreviousGains gm) \<or>
         mNumberOfColumns newGains \<noteq> mNumberOfColumns (gmPreviousGains gm)
      then Inl invalid_argument
      else bindE (setGainsInternal eps sz gm newGains m) (\<lambda>(gm, m). gains_process sz gm input output m))"

section \<open>The state\<close>

text \<open>The gain for the sample \<open>t\<close> of a transition over \<open>S\<close> samples.\<close>

definition fade :: "nat \<Rightarrow> nat \<Rightarrow> 'a::linordered_field" where
  "fade S t = (if t < S then of_nat (t + 1) / of_nat S else 1)"

definition faded :: "nat \<Rightarrow> 'a::linordered_field \<Rightarrow> 'a \<Rightarrow> nat \<Rightarrow> 'a" where
  "faded S p q t = p + (q - p) * fade S t"

definition fader_inv :: "nat \<Rightarrow> nat \<Rightarrow> gain_fader \<Rightarrow> bool" where
  "fader_inv sz ao gf \<longleftrightarrow>
     0 < gfBlockSize gf \<and> gfInterpolationPeriods gf = (gfInterpolationSamples gf + gfBlockSize gf - 1) div gfBlockSize gf \<and>
     array_inv sz ao (gfInterpolationRamp gf) \<and>
     mArrayLength (gfInterpolationRamp gf) = (gfInterpolationPeriods gf + 1) * gfBlockSize gf \<and>
     mAlignment (gfInterpolationRamp gf) dvd gfBlockSize gf"

abbreviation ramp_cells :: "nat \<Rightarrow> gain_fader \<Rightarrow> nat set" where
  "ramp_cells sz gf \<equiv> array_cells sz (gfInterpolationRamp gf)"

definition ramp_holds :: "nat \<Rightarrow> 'a::linordered_field memory \<Rightarrow> gain_fader \<Rightarrow> bool" where
  "ramp_holds sz m gf \<longleftrightarrow>
     (\<forall>k < mArrayLength (gfInterpolationRamp gf).
        m (elem sz (mAlignedStorage (gfInterpolationRamp gf)) k) = fade (gfInterpolationSamples gf) k)"

lemma periods_bounds:
  assumes "0 < B" "P = (S + B - 1) div B"
  shows "S \<le> P * B" "0 < P \<longleftrightarrow> 0 < (S::nat)"
proof -
  show S: "S \<le> P * B" using round_up(2) [OF assms(1), of S] assms(2) by simp
  show "0 < P \<longleftrightarrow> 0 < S"
  proof (cases "S = 0")
    case True
    then show ?thesis using assms by simp
  next
    case False
    then show ?thesis using S by (cases P) simp_all
  qed
qed

lemma setupRamp_spec:
  fixes m :: "'a::linordered_field memory"
  assumes sz: "sz = 2 ^ l" and B: "0 < gfBlockSize gf"
    and P: "gfInterpolationPeriods gf = (gfInterpolationSamples gf + gfBlockSize gf - 1) div gfBlockSize gf"
    and ramp: "array_inv sz ao (gfInterpolationRamp gf)"
      "mArrayLength (gfInterpolationRamp gf) = (gfInterpolationPeriods gf + 1) * gfBlockSize gf"
  shows "\<exists>m'. setupRamp sz gf (gfInterpolationSamples gf) m = Inr m' \<and> ramp_holds sz m' gf \<and> same_outside (ramp_cells sz gf) m m'"
proof -
  let ?S = "gfInterpolationSamples gf" and ?d = "mAlignedStorage (gfInterpolationRamp gf)" and ?al = "mAlignment (gfInterpolationRamp gf)"
  let ?n = "mArrayLength (gfInterpolationRamp gf)"
  note S = periods_bounds [OF B P]
  have le: "?S \<le> ?n" using S(1) unfolding ramp(2) by simp
  have sz0: "0 < sz" using sz by simp
  obtain k where k: "?al = 2 ^ k" using ramp(1) by (auto simp: array_inv_def)
  have al: "checkAlignment sz ?d ?al" by (rule array_inv_aligned [OF sz ramp(1) order_refl k])
  define m1 where "m1 = snd (vectorRamp of_nat (1 / 2) sz ?d ?S 0 (1::'a) False True ?al m)"
  have m1: "or_throw logic_error (vectorRamp of_nat (1 / 2) sz ?d ?S 0 (1::'a) False True ?al m) = Inr m1"
    "\<forall>t < ?S. m1 (elem sz ?d t) = fade ?S t" "same_outside (block sz ?d ?S) m m1"
  proof -
    have "vectorRamp of_nat (1 / 2) sz ?d ?S 0 (1::'a) False True ?al m = (noError, m1)"
      using al by (simp add: vectorRamp_def checked_def m1_def)
    then show "or_throw logic_error (vectorRamp of_nat (1 / 2) sz ?d ?S 0 (1::'a) False True ?al m) = Inr m1"
      by (simp add: or_throw_def)
    have "(\<forall>t < ?S. m1 (elem sz ?d t) = fade ?S t) \<and> (\<forall>a. a \<notin> block sz ?d ?S \<longrightarrow> m1 a = m a)"
    proof (cases "?S \<le> 1")
      case True
      then consider "?S = 0" | "?S = 1" by linarith
      then show ?thesis
        by cases (use al in \<open>auto simp: m1_def vectorRamp_def checked_def Let_def fade_def\<close>)
    next
      case False
      have m1: "m1 = for_each ?S (elem sz ?d) (\<lambda>i m. of_nat (1 + i) * (1 / of_nat ?S)) m"
        using False al by (simp add: m1_def vectorRamp_def checked_def Let_def)
      have "m1 (elem sz ?d t) = of_nat (1 + t) * (1 / of_nat ?S)" if "t < ?S" for t
        unfolding m1 by (rule for_each_element [OF _ inj_elem [OF sz0] that]) (simp add: reads_ahead_def)
      then show ?thesis using for_each_other unfolding m1 by (auto simp: fade_def)
    qed
    then show "\<forall>t < ?S. m1 (elem sz ?d t) = fade ?S t" "same_outside (block sz ?d ?S) m m1"
      by (simp_all add: same_outside_def)
  qed
  let ?e = "elem sz ?d ?S"
  have "outcome sz 0 [?e] (?n - ?S) (elem sz ?e) (\<lambda>i. 1) (if 0 < gfInterpolationPeriods gf then m1 else m)
      (vectorFill sz 1 ?e (?n - ?S) 0 (if 0 < gfInterpolationPeriods gf then m1 else m))"
    unfolding vectorFill_def by (rule checked_for_each [OF inj_elem [OF sz0]]) simp
  from throw_stored [OF this, where e = logic_error] obtain m2 where
    m2: "or_throw logic_error (vectorFill sz 1 ?e (?n - ?S) 0 (if 0 < gfInterpolationPeriods gf then m1 else m)) = Inr m2"
    "stored (?n - ?S) (elem sz ?e) (\<lambda>i. 1) (if 0 < gfInterpolationPeriods gf then m1 else m) m2" by auto
  have shift: "elem sz ?e i = elem sz ?d (?S + i)" for i by (simp add: algebra_simps)
  have "m2 (elem sz ?d t) = fade ?S t" if t: "t < ?n" for t
  proof (cases "t < ?S")
    case True
    then have "0 < gfInterpolationPeriods gf" using S(2) by simp
    moreover have "elem sz ?d t \<notin> block sz ?e (?n - ?S)" unfolding shift using True sz0 by auto
    ultimately show ?thesis using m2(2) m1(2) True by (simp add: stored_def)
  next
    case False
    then have "m2 (elem sz ?e (t - ?S)) = 1" using m2(2) t by (simp add: stored_def)
    then show ?thesis unfolding shift using False by (simp add: fade_def)
  qed
  then have "ramp_holds sz m2 gf" by (simp add: ramp_holds_def)
  moreover have "setupRamp sz gf ?S m = Inr m2"
    using m1(1) m2(1) by (cases "0 < gfInterpolationPeriods gf") (simp_all add: setupRamp_def Let_def)
  moreover have "same_outside (ramp_cells sz gf) m m2"
  proof (rule same_outside_trans)
    show "same_outside (ramp_cells sz gf) m (if 0 < gfInterpolationPeriods gf then m1 else m)"
    proof -
      have "block sz ?d ?S \<subseteq> ramp_cells sz gf" unfolding array_cells_def using le by (intro image_mono) simp
      from same_outside_mono [OF m1(3) this] show ?thesis by (simp add: same_outside_def)
    qed
    show "same_outside (ramp_cells sz gf) (if 0 < gfInterpolationPeriods gf then m1 else m) m2"
    proof (rule same_outside_mono [OF stored_block [OF m2(2)]])
      show "block sz ?e (?n - ?S) \<subseteq> ramp_cells sz gf" unfolding shift array_cells_def using le by auto
    qed
  qed
  ultimately show ?thesis by blast
qed

text \<open>One call of the fader, whose pointers are aligned and whose blocks do not overlap.\<close>

definition fader_ok :: "nat \<Rightarrow> gain_fader \<Rightarrow> nat \<Rightarrow> nat \<Rightarrow> bool" where
  "fader_ok sz gf input output \<longleftrightarrow>
     checkAlignment sz input (mAlignment (gfInterpolationRamp gf)) \<and> checkAlignment sz output (mAlignment (gfInterpolationRamp gf)) \<and>
     block sz input (gfBlockSize gf) \<inter> block sz output (gfBlockSize gf) = {} \<and>
     ramp_cells sz gf \<inter> block sz output (gfBlockSize gf) = {}"

lemma ramp_block:
  assumes sz: "sz = 2 ^ l" and inv: "fader_inv sz ao gf" and c: "c \<le> gfInterpolationPeriods gf"
  defines "p \<equiv> elem sz (mAlignedStorage (gfInterpolationRamp gf)) (c * gfBlockSize gf)"
  shows "checkAlignment sz p (mAlignment (gfInterpolationRamp gf))" "block sz p (gfBlockSize gf) \<subseteq> ramp_cells sz gf"
    "s < gfBlockSize gf \<Longrightarrow> c * gfBlockSize gf + s < mArrayLength (gfInterpolationRamp gf)"
    "elem sz p s = elem sz (mAlignedStorage (gfInterpolationRamp gf)) (c * gfBlockSize gf + s)"
proof -
  let ?a = "gfInterpolationRamp gf" and ?B = "gfBlockSize gf"
  have arr: "array_inv sz ao ?a" and len: "mArrayLength ?a = (gfInterpolationPeriods gf + 1) * ?B" and B: "0 < ?B"
    and dvd: "mAlignment ?a dvd ?B"
    using inv by (simp_all add: fader_inv_def)
  show idx: "c * ?B + s < mArrayLength ?a" if "s < ?B" for s
  proof -
    have "c * ?B + s < ?B * (gfInterpolationPeriods gf + 1)" by (rule index_in_rows [OF _ that order_refl]) (use c in simp)
    then show ?thesis unfolding len by (simp add: mult.commute)
  qed
  show e: "elem sz p s = elem sz (mAlignedStorage ?a) (c * ?B + s)" for s by (simp add: p_def algebra_simps)
  show "block sz p ?B \<subseteq> ramp_cells sz gf" unfolding e array_cells_def using idx by auto
  obtain k where k: "mAlignment ?a = 2 ^ k" "2 ^ k * sz < 2 ^ 64" using arr by (auto simp: array_inv_def)
  have "(2::nat) ^ (k + l) < 2 ^ 64" using k(2) sz by (simp add: power_add)
  then have kl: "k + l < 64" by (rule power_less_imp_less_exp [rotated]) simp
  have pos: "0 < mArrayLength ?a" using idx [OF B] by simp
  have base: "mAlignment ?a * sz dvd mAlignedStorage ?a" using arr pos by (simp add: array_inv_def)
  have "mAlignment ?a * sz dvd c * ?B * sz" using dvd by (simp add: mult_dvd_mono dvd_mult)
  then have d: "mAlignment ?a * sz dvd p" using base by (simp add: p_def)
  have sz0: "0 < sz" using sz by simp
  have "elem sz p 0 \<in> ramp_cells sz gf" unfolding e array_cells_def by (rule imageI) (use idx [OF B] in simp)
  then have "p < 2 ^ 64" using cells_bound [OF arr sz0] by simp
  then show "checkAlignment sz p (mAlignment ?a)" using checkAlignment_iff [OF sz k(1) kl] d by simp
qed

definition fader_gain :: "gain_fader \<Rightarrow> nat \<Rightarrow> 'a::linordered_field \<Rightarrow> 'a \<Rightarrow> nat \<Rightarrow> 'a" where
  "fader_gain gf c p q s =
     faded (gfInterpolationSamples gf) p q (min c (gfInterpolationPeriods gf) * gfBlockSize gf + s)"

lemma fader_spec:
  fixes m :: "'a::linordered_field memory"
  assumes sz: "sz = 2 ^ l" and inv: "fader_inv sz ao gf" and ramp: "ramp_holds sz m gf" and ok: "fader_ok sz gf input output"
  shows "\<exists>m'. fader_scale sz gf input output p q c m = Inr m' \<and>
      stored (gfBlockSize gf) (elem sz output) (\<lambda>s. fader_gain gf c p q s * m (elem sz input s)) m m'"
    "\<exists>m'. scaleAndAccumulate sz gf input output p q c m = Inr m' \<and>
      stored (gfBlockSize gf) (elem sz output) (\<lambda>s. m (elem sz output s) + fader_gain gf c p q s * m (elem sz input s)) m m'"
proof -
  let ?B = "gfBlockSize gf" and ?c = "min c (gfInterpolationPeriods gf)" and ?al = "mAlignment (gfInterpolationRamp gf)"
  let ?r = "elem sz (mAlignedStorage (gfInterpolationRamp gf)) (?c * ?B)"
  have sz0: "0 < sz" using sz by simp
  note R = ramp_block [OF sz inv, of ?c, OF min.cobounded2]
  have al: "\<forall>x \<in> set [input, ?r, output]. checkAlignment sz x ?al" using ok R(1) by (simp add: fader_ok_def)
  have s1: "safe ?B (elem sz input) (elem sz output)" by (rule safe_disjoint) (use ok in \<open>simp add: fader_ok_def\<close>)
  have s2: "safe ?B (elem sz ?r) (elem sz output)"
    by (rule safe_disjoint) (use R(2) ok in \<open>unfold fader_ok_def, blast\<close>)
  have g: "p + (q - p) * m (elem sz ?r s) = fader_gain gf c p q s" if "s < ?B" for s
    using ramp R(3) [OF that] unfolding R(4) by (simp add: ramp_holds_def fader_gain_def faded_def)
  have cong: "stored ?B (elem sz output) f m m' \<Longrightarrow> (\<And>s. s < ?B \<Longrightarrow> f s = f' s) \<Longrightarrow> stored ?B (elem sz output) f' m m'"
    for f f' :: "nat \<Rightarrow> 'a" and m' by (simp add: stored_def)
  note out = vectorRampScaling_outcome [OF sz0 s1 s2, where baseGain = p and rampGain = "q - p" and m = m and al = ?al]
  obtain m1 where m1: "or_throw runtime_error (vectorRampScaling sz input ?r output p (q - p) ?B False ?al m) = Inr m1"
    "stored ?B (elem sz output) (\<lambda>s. (p + (q - p) * m (elem sz ?r s)) * m (elem sz input s)) m m1"
    using throw_stored [OF out [where accumulate = False] al] by auto
  obtain m2 where m2: "or_throw runtime_error (vectorRampScaling sz input ?r output p (q - p) ?B True ?al m) = Inr m2"
    "stored ?B (elem sz output) (\<lambda>s. m (elem sz output s) + (p + (q - p) * m (elem sz ?r s)) * m (elem sz input s)) m m2"
    using throw_stored [OF out [where accumulate = True] al] by auto
  show "\<exists>m'. fader_scale sz gf input output p q c m = Inr m' \<and>
      stored ?B (elem sz output) (\<lambda>s. fader_gain gf c p q s * m (elem sz input s)) m m'"
    unfolding fader_scale_def Let_def using m1(1) cong [OF m1(2)] g by simp
  show "\<exists>m'. scaleAndAccumulate sz gf input output p q c m = Inr m' \<and>
      stored ?B (elem sz output) (\<lambda>s. m (elem sz output s) + fader_gain gf c p q s * m (elem sz input s)) m m'"
    unfolding scaleAndAccumulate_def Let_def using m2(1) cong [OF m2(2)] g by simp
qed

section \<open>Mixing\<close>

definition gains_inv :: "nat \<Rightarrow> nat \<Rightarrow> gain_matrix \<Rightarrow> bool" where
  "gains_inv sz ao gm \<longleftrightarrow>
     (let p = gmPreviousGains gm; q = gmNextGains gm; gf = gmFader gm
      in matrix_inv sz ao p \<and> matrix_inv sz ao q \<and> mNumberOfRows p = mNumberOfRows q \<and>
         mNumberOfColumns p = mNumberOfColumns q \<and> mAlignment (mData p) = mAlignment (mData q) \<and>
         fader_inv sz ao gf \<and> gfBlockSize gf = gmBlockSize gm \<and> gmInterpolationCounter gm \<le> gfInterpolationPeriods gf \<and>
         array_cells sz (mData p) \<inter> array_cells sz (mData q) = {} \<and> array_cells sz (mData p) \<inter> ramp_cells sz gf = {} \<and>
         array_cells sz (mData q) \<inter> ramp_cells sz gf = {})"

lemma gains_invD:
  assumes "gains_inv sz ao gm"
  shows "matrix_inv sz ao (gmPreviousGains gm)" "matrix_inv sz ao (gmNextGains gm)"
    "mNumberOfRows (gmNextGains gm) = mNumberOfRows (gmPreviousGains gm)"
    "mNumberOfColumns (gmNextGains gm) = mNumberOfColumns (gmPreviousGains gm)"
    "mAlignment (mData (gmNextGains gm)) = mAlignment (mData (gmPreviousGains gm))"
    "fader_inv sz ao (gmFader gm)" "gfBlockSize (gmFader gm) = gmBlockSize gm"
    "gmInterpolationCounter gm \<le> gfInterpolationPeriods (gmFader gm)"
    "array_cells sz (mData (gmPreviousGains gm)) \<inter> array_cells sz (mData (gmNextGains gm)) = {}"
    "array_cells sz (mData (gmPreviousGains gm)) \<inter> ramp_cells sz (gmFader gm) = {}"
    "array_cells sz (mData (gmNextGains gm)) \<inter> ramp_cells sz (gmFader gm) = {}"
  using assms by (simp_all add: gains_inv_def Let_def)

text \<open>
  The memory of the caller: aligned, the outputs apart from each other, from the inputs and from the
  gain matrix.
\<close>

definition channels_ok :: "nat \<Rightarrow> gain_matrix \<Rightarrow> (nat \<Rightarrow> nat) \<Rightarrow> (nat \<Rightarrow> nat) \<Rightarrow> bool" where
  "channels_ok sz gm input output \<longleftrightarrow>
     (\<forall>k < mNumberOfRows (gmPreviousGains gm).
        checkAlignment sz (output k) (gmAlignment gm) \<and>
        checkAlignment sz (output k) (mAlignment (gfInterpolationRamp (gmFader gm))) \<and>
        block sz (output k) (gmBlockSize gm) \<inter> array_cells sz (mData (gmPreviousGains gm)) = {} \<and>
        block sz (output k) (gmBlockSize gm) \<inter> array_cells sz (mData (gmNextGains gm)) = {} \<and>
        block sz (output k) (gmBlockSize gm) \<inter> ramp_cells sz (gmFader gm) = {} \<and>
        (\<forall>k' < mNumberOfRows (gmPreviousGains gm). k' \<noteq> k \<longrightarrow>
           block sz (output k') (gmBlockSize gm) \<inter> block sz (output k) (gmBlockSize gm) = {}) \<and>
        (\<forall>i < mNumberOfColumns (gmPreviousGains gm).
           checkAlignment sz (input i) (mAlignment (gfInterpolationRamp (gmFader gm))) \<and>
           block sz (input i) (gmBlockSize gm) \<inter> block sz (output k) (gmBlockSize gm) = {}))"

lemma channels_okD:
  assumes "channels_ok sz gm input output" "k < mNumberOfRows (gmPreviousGains gm)"
  shows "checkAlignment sz (output k) (gmAlignment gm)"
    "block sz (output k) (gmBlockSize gm) \<inter> array_cells sz (mData (gmPreviousGains gm)) = {}"
    "block sz (output k) (gmBlockSize gm) \<inter> array_cells sz (mData (gmNextGains gm)) = {}"
    "block sz (output k) (gmBlockSize gm) \<inter> ramp_cells sz (gmFader gm) = {}"
    "k' < mNumberOfRows (gmPreviousGains gm) \<Longrightarrow> k' \<noteq> k \<Longrightarrow>
       block sz (output k') (gmBlockSize gm) \<inter> block sz (output k) (gmBlockSize gm) = {}"
    "i < mNumberOfColumns (gmPreviousGains gm) \<Longrightarrow>
       block sz (output k) (gmBlockSize gm) \<inter> block sz (input i) (gmBlockSize gm) = {}"
    "i < mNumberOfColumns (gmPreviousGains gm) \<Longrightarrow> gfBlockSize (gmFader gm) = gmBlockSize gm \<Longrightarrow>
       fader_ok sz (gmFader gm) (input i) (output k)"
  using assms unfolding channels_ok_def fader_ok_def by (simp_all add: Int_commute)

text \<open>What an output gets, from the memory \<open>m\<close>.\<close>

abbreviation previousGain :: "nat \<Rightarrow> gain_matrix \<Rightarrow> 'a memory \<Rightarrow> nat \<Rightarrow> nat \<Rightarrow> 'a" where
  "previousGain sz gm m k i \<equiv> m (matrix_element sz (gmPreviousGains gm) k i)"

abbreviation nextGain :: "nat \<Rightarrow> gain_matrix \<Rightarrow> 'a memory \<Rightarrow> nat \<Rightarrow> nat \<Rightarrow> 'a" where
  "nextGain sz gm m k i \<equiv> m (matrix_element sz (gmNextGains gm) k i)"

definition part :: "nat \<Rightarrow> gain_matrix \<Rightarrow> (nat \<Rightarrow> nat) \<Rightarrow> 'a::linordered_field memory \<Rightarrow> nat \<Rightarrow> nat \<Rightarrow> nat \<Rightarrow> 'a" where
  "part sz gm input m k s i = fader_gain (gmFader gm) (gmInterpolationCounter gm) (previousGain sz gm m k i) (nextGain sz gm m k i) s *
     m (elem sz (input i) s)"

lemma ramp_holds_cong:
  assumes "ramp_holds sz m gf" "same_outside A m m'" "A \<inter> ramp_cells sz gf = {}"
  shows "ramp_holds sz m' gf"
  unfolding ramp_holds_def
proof (intro allI impI)
  fix k assume k: "k < mArrayLength (gfInterpolationRamp gf)"
  have "elem sz (mAlignedStorage (gfInterpolationRamp gf)) k \<in> ramp_cells sz gf"
    unfolding array_cells_def by (rule imageI) (use k in simp)
  from unchanged [OF assms(2) this assms(3)]
  show "m' (elem sz (mAlignedStorage (gfInterpolationRamp gf)) k) = fade (gfInterpolationSamples gf) k"
    using assms(1) k by (simp add: ramp_holds_def)
qed

text \<open>The gains and the inputs do not change while an output is written.\<close>

lemma part_cong:
  assumes inv: "gains_inv sz ao gm" and ok: "channels_ok sz gm input output"
    and same: "same_outside (block sz (output k') (gmBlockSize gm)) m m'" and k': "k' < mNumberOfRows (gmPreviousGains gm)"
    and k: "k < mNumberOfRows (gmPreviousGains gm)" and i: "i < mNumberOfColumns (gmPreviousGains gm)" and s: "s < gmBlockSize gm"
  shows "previousGain sz gm m' k i = previousGain sz gm m k i" "nextGain sz gm m' k i = nextGain sz gm m k i"
    "m' (elem sz (input i) s) = m (elem sz (input i) s)" "part sz gm input m' k s i = part sz gm input m k s i"
proof -
  note D = gains_invD [OF inv] and C = channels_okD [OF ok k']
  show p: "previousGain sz gm m' k i = previousGain sz gm m k i"
    by (rule unchanged [OF same element_in_cells [OF D(1) k i] C(2)])
  show q: "nextGain sz gm m' k i = nextGain sz gm m k i"
    by (rule unchanged [OF same element_in_cells [OF D(2)] C(3)]) (use k i D(3,4) in simp_all)
  have "elem sz (input i) s \<in> block sz (input i) (gmBlockSize gm)" by (rule imageI) (use s in simp)
  from unchanged [OF same this C(6) [OF i]] show x: "m' (elem sz (input i) s) = m (elem sz (input i) s)" .
  show "part sz gm input m' k s i = part sz gm input m k s i" by (simp add: part_def p q x)
qed

lemma input_loop:
  fixes m :: "'a::linordered_field memory"
  assumes sz: "sz = 2 ^ l" and inv: "gains_inv sz ao gm" and ramp: "ramp_holds sz m (gmFader gm)"
    and ok: "channels_ok sz gm input output" and k: "k < mNumberOfRows (gmPreviousGains gm)"
    and n: "0 < n" "n \<le> mNumberOfColumns (gmPreviousGains gm)"
  shows "\<exists>m'. bindE (fader_scale sz (gmFader gm) (input 0) (output k) (previousGain sz gm m k 0) (nextGain sz gm m k 0)
        (gmInterpolationCounter gm) m)
      (\<lambda>m. foldE (\<lambda>m i. scaleAndAccumulate sz (gmFader gm) (input i) (output k) (previousGain sz gm m k i)
        (nextGain sz gm m k i) (gmInterpolationCounter gm) m) m [1..<n]) = Inr m' \<and>
    stored (gmBlockSize gm) (elem sz (output k)) (\<lambda>s. \<Sum>i<n. part sz gm input m k s i) m m'"
  using n
proof (induction n)
  case (Suc n)
  note D = gains_invD [OF inv] and C = channels_okD [OF ok k]
  let ?gf = "gmFader gm" and ?B = "gmBlockSize gm" and ?c = "gmInterpolationCounter gm"
  let ?step = "\<lambda>m i. scaleAndAccumulate sz ?gf (input i) (output k) (previousGain sz gm m k i) (nextGain sz gm m k i) ?c m"
  have fok: "fader_ok sz ?gf (input n) (output k)" by (rule C(7) [OF _ D(7)]) (use Suc.prems in simp)
  show ?case
  proof (cases "n = 0")
    case True
    have f0: "fader_ok sz ?gf (input 0) (output k)" using fok True by simp
    show ?thesis
      using fader_spec(1) [OF sz D(6) ramp f0, of "previousGain sz gm m k 0" "nextGain sz gm m k 0" ?c]
      unfolding True D(7) by (simp add: part_def)
  next
    case False
    then have n0: "0 < n" "n \<le> mNumberOfColumns (gmPreviousGains gm)" "n < mNumberOfColumns (gmPreviousGains gm)"
      using Suc.prems by simp_all
    obtain m1 where m1: "bindE (fader_scale sz ?gf (input 0) (output k) (previousGain sz gm m k 0) (nextGain sz gm m k 0) ?c m)
        (\<lambda>m. foldE ?step m [1..<n]) = Inr m1"
      "stored ?B (elem sz (output k)) (\<lambda>s. \<Sum>i<n. part sz gm input m k s i) m m1"
      using Suc.IH [OF n0(1,2)] by blast
    have same: "same_outside (block sz (output k) ?B) m m1" by (rule stored_block [OF m1(2)])
    have ramp1: "ramp_holds sz m1 ?gf" by (rule ramp_holds_cong [OF ramp same C(4)])
    obtain m2 where m2: "?step m1 n = Inr m2"
      "stored ?B (elem sz (output k)) (\<lambda>s. m1 (elem sz (output k) s) + part sz gm input m1 k s n) m1 m2"
      using fader_spec(2) [OF sz D(6) ramp1 fok, of "previousGain sz gm m1 k n" "nextGain sz gm m1 k n" ?c]
      unfolding D(7) part_def by blast
    have "stored ?B (elem sz (output k)) (\<lambda>s. \<Sum>i<Suc n. part sz gm input m k s i) m m2"
      using m1(2) m2(2) part_cong(4) [OF inv ok same k k n0(3)] by (simp add: stored_def)
    moreover have "bindE (fader_scale sz ?gf (input 0) (output k) (previousGain sz gm m k 0) (nextGain sz gm m k 0) ?c m)
        (\<lambda>m. foldE ?step m [1..<Suc n]) = Inr m2"
    proof -
      have "[1..<Suc n] = [1..<n] @ [n]" using n0(1) by simp
      then show ?thesis using m1(1) m2(1)
        by (cases "fader_scale sz ?gf (input 0) (output k) (previousGain sz gm m k 0) (nextGain sz gm m k 0) ?c m")
          (simp_all add: foldE_append del: upt_Suc)
    qed
    ultimately show ?thesis by blast
  qed
qed simp

lemma processAudio_spec:
  fixes m :: "'a::linordered_field memory"
  assumes sz: "sz = 2 ^ l" and inv: "gains_inv sz ao gm" and ramp: "ramp_holds sz m (gmFader gm)"
    and ok: "channels_ok sz gm input output"
  shows "\<exists>m'. processAudio sz gm input output m = Inr m' \<and>
    (\<forall>k < mNumberOfRows (gmPreviousGains gm). \<forall>s < gmBlockSize gm.
       m' (elem sz (output k) s) = (\<Sum>i<mNumberOfColumns (gmPreviousGains gm). part sz gm input m k s i)) \<and>
    same_outside (\<Union>k<mNumberOfRows (gmPreviousGains gm). block sz (output k) (gmBlockSize gm)) m m'"
proof -
  let ?B = "gmBlockSize gm" and ?n = "mNumberOfColumns (gmPreviousGains gm)" and ?N = "mNumberOfRows (gmPreviousGains gm)"
  define step where "step = (\<lambda>(m :: 'a memory) k. if ?n = 0 then or_throw runtime_error (vectorZero sz (output k) ?B (gmAlignment gm) m)
    else bindE (fader_scale sz (gmFader gm) (input 0) (output k) (previousGain sz gm m k 0) (nextGain sz gm m k 0)
        (gmInterpolationCounter gm) m)
      (\<lambda>m. foldE (\<lambda>m i. scaleAndAccumulate sz (gmFader gm) (input i) (output k) (previousGain sz gm m k i)
        (nextGain sz gm m k i) (gmInterpolationCounter gm) m) m [1..<?n]))"
  have audio: "processAudio sz gm input output m = foldE step m [0..<?N]"
    by (cases "?n = 0") (simp_all add: processAudio_def step_def)
  have sz0: "0 < sz" using sz by simp
  have one: "\<exists>m'. step m k = Inr m' \<and> stored ?B (elem sz (output k)) (\<lambda>s. \<Sum>i<?n. part sz gm input m k s i) m m'"
    if k: "k < ?N" and ramp: "ramp_holds sz m (gmFader gm)" for m k
  proof (cases "?n = 0")
    case True
    have "outcome sz (gmAlignment gm) [output k] ?B (elem sz (output k)) (\<lambda>s. 0) m (vectorZero sz (output k) ?B (gmAlignment gm) m)"
      unfolding vectorZero_def by (rule checked_for_each [OF inj_elem [OF sz0]]) simp
    from throw_stored [OF this] channels_okD(1) [OF ok k] show ?thesis using True by (simp add: step_def)
  next
    case False
    then show ?thesis unfolding step_def if_not_P [OF False] using input_loop [OF sz inv ramp ok k] by blast
  qed
  have "\<exists>m'. foldE step m [0..<K] = Inr m' \<and>
      (\<forall>k < K. \<forall>s < ?B. m' (elem sz (output k) s) = (\<Sum>i<?n. part sz gm input m k s i)) \<and>
      same_outside (\<Union>k<K. block sz (output k) ?B) m m' \<and> ramp_holds sz m' (gmFader gm) \<and>
      (\<forall>k < ?N. \<forall>s < ?B. \<forall>i < ?n. part sz gm input m' k s i = part sz gm input m k s i)" if "K \<le> ?N" for K
    using that
  proof (induction K)
    case 0
    then show ?case using ramp by (simp add: same_outside_def)
  next
    case (Suc K)
    have K: "K < ?N" using Suc.prems by simp
    obtain m1 where m1: "foldE step m [0..<K] = Inr m1"
      "\<forall>k < K. \<forall>s < ?B. m1 (elem sz (output k) s) = (\<Sum>i<?n. part sz gm input m k s i)"
      "same_outside (\<Union>k<K. block sz (output k) ?B) m m1" "ramp_holds sz m1 (gmFader gm)"
      "\<forall>k < ?N. \<forall>s < ?B. \<forall>i < ?n. part sz gm input m1 k s i = part sz gm input m k s i"
      using Suc.IH [OF Suc_leD [OF Suc.prems]] by blast
    obtain m2 where m2: "step m1 K = Inr m2" "stored ?B (elem sz (output K)) (\<lambda>s. \<Sum>i<?n. part sz gm input m1 K s i) m1 m2"
      using one [OF K m1(4)] by blast
    have same: "same_outside (block sz (output K) ?B) m1 m2" by (rule stored_block [OF m2(2)])
    have val: "m2 (elem sz (output k) s) = (\<Sum>i<?n. part sz gm input m k s i)" if ks: "k < Suc K" "s < ?B" for k s
    proof (cases "k = K")
      case True
      then show ?thesis using m2(2) m1(5) K ks(2) by (simp add: stored_def)
    next
      case False
      then have k: "k < K" "k < ?N" using ks(1) K by simp_all
      have e: "elem sz (output k) s \<in> block sz (output k) ?B" by (rule imageI) (use ks(2) in simp)
      have "block sz (output K) ?B \<inter> block sz (output k) ?B = {}" using channels_okD(5) [OF ok k(2) K] False by blast
      then have "m2 (elem sz (output k) s) = m1 (elem sz (output k) s)" by (rule unchanged [OF same e])
      then show ?thesis using m1(2) k(1) ks(2) by simp
    qed
    have "same_outside (\<Union>k<Suc K. block sz (output k) ?B) m m2"
      by (rule same_outside_trans [OF same_outside_mono [OF m1(3)] same_outside_mono [OF same]]) (auto simp: lessThan_Suc)
    moreover have "foldE step m [0..<Suc K] = Inr m2" using m1(1) m2(1) by (simp add: foldE_append)
    moreover have "ramp_holds sz m2 (gmFader gm)" by (rule ramp_holds_cong [OF m1(4) same channels_okD(4) [OF ok K]])
    moreover have "part sz gm input m2 k s i = part sz gm input m k s i" if "k < ?N" "s < ?B" "i < ?n" for k s i
      using part_cong(4) [OF inv ok same K that(1,3,2)] m1(5) that by simp
    ultimately show ?case using val by blast
  qed
  from this [OF order_refl] show ?thesis unfolding audio by blast
qed

section \<open>Transitions\<close>

text \<open>
  The gain matrix is in the block \<open>n\<close> of the transition from the gains \<open>p\<close> to the gains \<open>q\<close>; the
  counter stops when the transition is over.
\<close>

definition gains_state ::
  "nat \<Rightarrow> nat \<Rightarrow> gain_matrix \<Rightarrow> 'a::linordered_field memory \<Rightarrow> (nat \<Rightarrow> nat \<Rightarrow> 'a) \<Rightarrow> (nat \<Rightarrow> nat \<Rightarrow> 'a) \<Rightarrow> nat \<Rightarrow> bool" where
  "gains_state sz ao gm m p q n \<longleftrightarrow>
     gains_inv sz ao gm \<and> ramp_holds sz m (gmFader gm) \<and>
     gmInterpolationCounter gm = min n (gfInterpolationPeriods (gmFader gm)) \<and>
     (\<forall>k < mNumberOfRows (gmPreviousGains gm). \<forall>i < mNumberOfColumns (gmPreviousGains gm).
        previousGain sz gm m k i = p k i \<and> nextGain sz gm m k i = q k i)"

lemma fader_gain_faded:
  assumes "fader_inv sz ao gf"
  shows "fader_gain gf (min n (gfInterpolationPeriods gf)) p q s = faded (gfInterpolationSamples gf) p q (n * gfBlockSize gf + s)"
proof -
  let ?P = "gfInterpolationPeriods gf" and ?B = "gfBlockSize gf" and ?S = "gfInterpolationSamples gf"
  have S: "?S \<le> ?P * ?B" using assms periods_bounds(1) by (simp add: fader_inv_def)
  show ?thesis
  proof (cases "n \<le> ?P")
    case True
    then show ?thesis by (simp add: fader_gain_def)
  next
    case False
    then have "?P * ?B \<le> n * ?B" by simp
    then have "\<not> ?P * ?B + s < ?S" "\<not> n * ?B + s < ?S" using S by linarith+
    then show ?thesis using False by (simp add: fader_gain_def faded_def fade_def)
  qed
qed

lemma gains_process_spec:
  fixes m :: "'a::linordered_field memory"
  assumes sz: "sz = 2 ^ l" and st: "gains_state sz ao gm m p q n" and ok: "channels_ok sz gm input output"
  shows "\<exists>gm' m'. gains_process sz gm input output m = Inr (gm', m') \<and> gains_state sz ao gm' m' p q (Suc n) \<and>
    gm' = gm\<lparr>gmInterpolationCounter := gmInterpolationCounter gm'\<rparr> \<and>
    (\<forall>k < mNumberOfRows (gmPreviousGains gm). \<forall>s < gmBlockSize gm. m' (elem sz (output k) s) =
       (\<Sum>i<mNumberOfColumns (gmPreviousGains gm).
          faded (gfInterpolationSamples (gmFader gm)) (p k i) (q k i) (n * gmBlockSize gm + s) * m (elem sz (input i) s))) \<and>
    same_outside (\<Union>k<mNumberOfRows (gmPreviousGains gm). block sz (output k) (gmBlockSize gm)) m m'"
proof -
  let ?B = "gmBlockSize gm" and ?gf = "gmFader gm" and ?N = "mNumberOfRows (gmPreviousGains gm)" and ?n = "mNumberOfColumns (gmPreviousGains gm)"
  have S: "gains_inv sz ao gm" "ramp_holds sz m ?gf" "gmInterpolationCounter gm = min n (gfInterpolationPeriods ?gf)"
    "\<And>k i. k < ?N \<Longrightarrow> i < ?n \<Longrightarrow> previousGain sz gm m k i = p k i \<and> nextGain sz gm m k i = q k i"
    using st by (simp_all add: gains_state_def)
  note D = gains_invD [OF S(1)]
  obtain m' where m': "processAudio sz gm input output m = Inr m'"
    "\<forall>k < ?N. \<forall>s < ?B. m' (elem sz (output k) s) = (\<Sum>i<?n. part sz gm input m k s i)"
    "same_outside (\<Union>k<?N. block sz (output k) ?B) m m'"
    using processAudio_spec [OF sz S(1,2) ok] by blast
  define gm' where "gm' = (if gmInterpolationCounter gm < gfInterpolationPeriods ?gf
    then gm\<lparr>gmInterpolationCounter := gmInterpolationCounter gm + 1\<rparr> else gm)"
  have sel: "gmPreviousGains gm' = gmPreviousGains gm" "gmNextGains gm' = gmNextGains gm" "gmFader gm' = ?gf" "gmBlockSize gm' = ?B"
    "gm' = gm\<lparr>gmInterpolationCounter := gmInterpolationCounter gm'\<rparr>"
    by (simp_all add: gm'_def)
  have c: "gmInterpolationCounter gm' = min (Suc n) (gfInterpolationPeriods ?gf)" using S(3) by (auto simp: gm'_def)
  have inv': "gains_inv sz ao gm'" using S(1) by (simp add: gains_inv_def Let_def sel(1-4) c)
  have ramp': "ramp_holds sz m' ?gf" by (rule ramp_holds_cong [OF S(2) m'(3)]) (use channels_okD(4) [OF ok] in blast)
  have gain: "previousGain sz gm m' k i = p k i \<and> nextGain sz gm m' k i = q k i" if ki: "k < ?N" "i < ?n" for k i
  proof -
    have "matrix_element sz (gmPreviousGains gm) k i \<in> array_cells sz (mData (gmPreviousGains gm))"
      by (rule element_in_cells [OF D(1) ki])
    then have "previousGain sz gm m' k i = previousGain sz gm m k i"
      by (rule unchanged [OF m'(3)]) (use channels_okD(2) [OF ok] in blast)
    moreover have "matrix_element sz (gmNextGains gm) k i \<in> array_cells sz (mData (gmNextGains gm))"
      by (rule element_in_cells [OF D(2)]) (use ki D(3,4) in simp_all)
    then have "nextGain sz gm m' k i = nextGain sz gm m k i"
      by (rule unchanged [OF m'(3)]) (use channels_okD(3) [OF ok] in blast)
    ultimately show ?thesis using S(4) [OF ki] by simp
  qed
  have "gains_state sz ao gm' m' p q (Suc n)" unfolding gains_state_def sel(1-4) using inv' ramp' c gain by blast
  moreover have "m' (elem sz (output k) s) =
      (\<Sum>i<?n. faded (gfInterpolationSamples ?gf) (p k i) (q k i) (n * ?B + s) * m (elem sz (input i) s))" if ks: "k < ?N" "s < ?B" for k s
  proof -
    have "part sz gm input m k s i = faded (gfInterpolationSamples ?gf) (p k i) (q k i) (n * ?B + s) * m (elem sz (input i) s)"
      if i: "i < ?n" for i
      using S(4) [OF ks(1) i] fader_gain_faded [OF D(6), of n "p k i" "q k i" s] S(3) D(7) by (simp add: part_def)
    then show ?thesis using m'(2) ks by simp
  qed
  moreover have "gains_process sz gm input output m = Inr (gm', m')" unfolding gains_process_def m'(1) gm'_def by simp
  ultimately show ?thesis using m'(3) sel(5) by blast
qed

text \<open>Where a transition that is interrupted after \<open>n\<close> blocks has got to.\<close>

definition settled :: "'a::linordered_field \<Rightarrow> nat \<Rightarrow> nat \<Rightarrow> nat \<Rightarrow> 'a \<Rightarrow> 'a \<Rightarrow> 'a" where
  "settled eps S B n p q =
     (if (S + B - 1) div B \<le> n then q
      else let step = min 1 (of_nat (n * B) / of_nat S) * (q - p) in if eps \<le> \<bar>step\<bar> then p + step else q)"

text \<open>
  The gain of the last sample that was processed, at the start of block \<open>n\<close> of a transition; before the first
  block it is the gain from which the transition starts.
\<close>

definition last_gain :: "nat \<Rightarrow> nat \<Rightarrow> nat \<Rightarrow> 'a::linordered_field \<Rightarrow> 'a \<Rightarrow> 'a" where
  "last_gain S B n p q = (if n = 0 then p else faded S p q (n * B - 1))"

lemma last_gain_step:
  assumes "0 < n" "0 < B" "0 < S"
  shows "min 1 (of_nat (n * B) / of_nat S) * (q - p) = last_gain S B n p q - (p :: 'a::linordered_field)"
proof -
  have nB: "n * B - 1 + 1 = n * B" using assms(1,2) by simp
  have "min 1 (of_nat (n * B) / of_nat S) = (fade S (n * B - 1) :: 'a)"
  proof (cases "n * B \<le> S")
    case True
    then have "(of_nat (n * B) :: 'a) / of_nat S \<le> 1" using assms(3) by (simp del: of_nat_mult)
    moreover have "n * B - 1 < S" using True assms(3) by linarith
    ultimately show ?thesis unfolding fade_def nB by (simp add: min_def del: of_nat_mult)
  next
    case False
    then have "(1 :: 'a) \<le> of_nat (n * B) / of_nat S" using assms(3) by (simp del: of_nat_mult)
    moreover have "\<not> n * B - 1 < S" using False by linarith
    ultimately show ?thesis by (simp add: fade_def min_def)
  qed
  then show ?thesis using assms(1) by (simp add: last_gain_def faded_def)
qed

lemma last_gain_over:
  assumes "0 < n" "0 < B" "S \<le> n * B"
  shows "last_gain S B n p q = q"
proof -
  have "n * B - 1 + 1 = n * B" using assms(1,2) by simp
  moreover have "n * B = S" if "n * B - 1 < S" using that assms(3) calculation by linarith
  ultimately have "fade S (n * B - 1) = (1 :: 'a)" using assms(1,2) unfolding fade_def by (auto simp del: of_nat_mult)
  then show ?thesis using assms(1) by (simp add: last_gain_def faded_def)
qed

text \<open>
  New gains continue from there when the transition is over or has moved the gain by at least the machine epsilon;
  otherwise they start from the target of the transition.
\<close>

lemma settled_spec:
  assumes "0 < B" and "0 < eps"
  shows "0 < n \<and> (S \<le> n * B \<or> eps \<le> \<bar>last_gain S B n p q - p\<bar>) \<longrightarrow> settled eps S B n p q = last_gain S B n p q"
    and "\<bar>last_gain S B n p q - p\<bar> < eps \<longrightarrow> settled eps S B n p q = q"
proof -
  have over: "(S + B - 1) div B \<le> n \<longleftrightarrow> S \<le> n * B"
  proof
    assume "(S + B - 1) div B \<le> n"
    then have "(S + B - 1) div B * B \<le> n * B" by simp
    then show "S \<le> n * B" using periods_bounds(1) [OF assms(1) refl, of S] by linarith
  next
    assume "S \<le> n * B"
    then have "S + B - 1 < Suc n * B" using assms(1) by simp
    then show "(S + B - 1) div B \<le> n" by (simp add: less_mult_imp_div_less less_Suc_eq_le [symmetric])
  qed
  note s = settled_def [of eps S B n p q, unfolded over]
  show "0 < n \<and> (S \<le> n * B \<or> eps \<le> \<bar>last_gain S B n p q - p\<bar>) \<longrightarrow> settled eps S B n p q = last_gain S B n p q"
  proof (cases "S \<le> n * B")
    case True
    then show ?thesis using last_gain_over [OF _ assms(1) True, of p q] by (simp add: s)
  next
    case False
    then show ?thesis using last_gain_step [OF _ assms(1), of n S q p] by (auto simp: s Let_def simp del: of_nat_mult)
  qed
  show "\<bar>last_gain S B n p q - p\<bar> < eps \<longrightarrow> settled eps S B n p q = q"
  proof (cases "S \<le> n * B")
    case True
    then show ?thesis by (simp add: s)
  next
    case False
    then show ?thesis using last_gain_step [OF _ assms(1), of n S q p] assms(2)
      by (cases "n = 0") (simp add: settled_def Let_def, auto simp: s Let_def simp del: of_nat_mult)
  qed
qed

section \<open>New gains\<close>

lemma matrix_swap_whole:
  assumes "matrix_inv sz ao M" "matrix_inv sz ao R" "mNumberOfRows M = mNumberOfRows R" "mNumberOfColumns M = mNumberOfColumns R"
    "mAlignment (mData M) = mAlignment (mData R)"
  shows "matrix_swap M R = Inr (R, M)"
proof -
  have "mStride M = mStride R" using assms by (simp add: matrix_inv_def)
  then show ?thesis using assms(3-5) by (cases M; cases R; cases "mData M"; cases "mData R") (simp add: matrix_swap_def array_swap_def)
qed

lemma matrix_values_element:
  "matrix_values sz m M = matrix_values sz m' R \<Longrightarrow> i < mNumberOfRows M \<Longrightarrow> j < mNumberOfColumns M \<Longrightarrow>
   m (matrix_element sz M i j) = m' (matrix_element sz R i j)"
proof -
  assume eq: "matrix_values sz m M = matrix_values sz m' R" and i: "i < mNumberOfRows M" and j: "j < mNumberOfColumns M"
  have "mNumberOfRows M = mNumberOfRows R" using arg_cong [OF eq, of length] by (simp add: matrix_values_def)
  then have row: "map (\<lambda>j. m (matrix_element sz M i j)) [0..<mNumberOfColumns M] = map (\<lambda>j. m' (matrix_element sz R i j)) [0..<mNumberOfColumns R]"
    using arg_cong [OF eq, of "\<lambda>x. x ! i"] i by (simp add: matrix_values_def)
  then have "mNumberOfColumns M = mNumberOfColumns R" using map_eq_imp_length_eq [OF row] by simp
  then show ?thesis using arg_cong [OF row, of "\<lambda>x. x ! j"] j by simp
qed

definition advanced :: "'a::linordered_field \<Rightarrow> 'a \<Rightarrow> 'a \<Rightarrow> 'a \<Rightarrow> 'a" where
  "advanced eps ratio p q = (let step = ratio * (q - p) in if eps \<le> \<bar>step\<bar> then p + step else q)"

lemma advance_row:
  fixes m :: "'a::linordered_field memory"
  assumes sz: "0 < sz" and inv: "gains_inv sz ao gm" and k: "k < mNumberOfRows (gmPreviousGains gm)"
  shows "stored (mNumberOfColumns (gmPreviousGains gm)) (matrix_element sz (gmPreviousGains gm) k)
    (\<lambda>i. advanced eps r (previousGain sz gm m k i) (nextGain sz gm m k i)) m
    (fold (\<lambda>i m. advance_gain eps r sz gm k m i) [0..<mNumberOfColumns (gmPreviousGains gm)] m)"
proof -
  note D = gains_invD [OF inv]
  let ?n = "mNumberOfColumns (gmPreviousGains gm)" and ?pe = "matrix_element sz (gmPreviousGains gm) k"
  let ?f = "\<lambda>i m. advanced eps r (previousGain sz gm m k i) (nextGain sz gm m k i)"
  have step: "(\<lambda>i m. advance_gain eps r sz gm k m i) = (\<lambda>i m. m(?pe i := ?f i m))"
    unfolding advance_gain_def advanced_def Let_def if_distrib [where f = "fun_upd m x" for m x] ..
  have inj: "inj_on ?pe {..<?n}"
  proof (rule inj_onI)
    fix i j assume "i \<in> {..<?n}" "j \<in> {..<?n}" "?pe i = ?pe j"
    then show "i = j" using element_inj [OF D(1) sz, of i j k k] by simp
  qed
  have "outcome sz 0 [] ?n ?pe (\<lambda>i. ?f i m) m (checked sz 0 [] m (for_each ?n ?pe ?f m))"
  proof (rule checked_for_each [OF inj])
    fix i m' assume i: "i < ?n" and same: "\<forall>a. a \<notin> ?pe ` {..<i} \<longrightarrow> m' a = m a"
    have "?pe i \<notin> ?pe ` {..<i}"
    proof
      assume "?pe i \<in> ?pe ` {..<i}"
      then obtain j where "j < i" "?pe i = ?pe j" by blast
      then show False using inj_onD [OF inj, of i j] i by simp
    qed
    moreover have "matrix_element sz (gmNextGains gm) k i \<notin> ?pe ` {..<i}"
    proof -
      have "matrix_element sz (gmNextGains gm) k i \<in> array_cells sz (mData (gmNextGains gm))"
        by (rule element_in_cells [OF D(2)]) (use k i D(3,4) in simp_all)
      moreover have "?pe ` {..<i} \<subseteq> array_cells sz (mData (gmPreviousGains gm))" using element_in_cells [OF D(1) k] i by auto
      ultimately show ?thesis using D(9) by blast
    qed
    ultimately show "?f i m' = ?f i m" using same by simp
  qed
  then show ?thesis unfolding step by (simp add: outcome_def checked_def for_each_def)
qed

lemma advance_rows:
  fixes m :: "'a::linordered_field memory"
  assumes sz: "0 < sz" and inv: "gains_inv sz ao gm" and K: "K \<le> mNumberOfRows (gmPreviousGains gm)"
  shows "let m' = fold (\<lambda>k m. fold (\<lambda>i m. advance_gain eps r sz gm k m i) [0..<mNumberOfColumns (gmPreviousGains gm)] m) [0..<K] m
    in same_outside (array_cells sz (mData (gmPreviousGains gm))) m m' \<and>
    (\<forall>k < mNumberOfRows (gmPreviousGains gm). \<forall>i < mNumberOfColumns (gmPreviousGains gm). previousGain sz gm m' k i =
      (if k < K then advanced eps r (previousGain sz gm m k i) (nextGain sz gm m k i) else previousGain sz gm m k i))"
  using K unfolding Let_def
proof (induction K)
  case 0
  then show ?case by (simp add: same_outside_def)
next
  case (Suc K)
  note D = gains_invD [OF inv]
  let ?n = "mNumberOfColumns (gmPreviousGains gm)" and ?N = "mNumberOfRows (gmPreviousGains gm)"
  let ?row = "\<lambda>k m. fold (\<lambda>i m. advance_gain eps r sz gm k m i) [0..<?n] m" and ?cells = "array_cells sz (mData (gmPreviousGains gm))"
  define m1 where "m1 = fold ?row [0..<K] m"
  have K: "K < ?N" using Suc.prems by simp
  have m1: "same_outside ?cells m m1" "\<And>k i. k < ?N \<Longrightarrow> i < ?n \<Longrightarrow> previousGain sz gm m1 k i =
      (if k < K then advanced eps r (previousGain sz gm m k i) (nextGain sz gm m k i) else previousGain sz gm m k i)"
    using Suc.IH [OF Suc_leD [OF Suc.prems]] unfolding m1_def by blast+
  note st = advance_row [OF sz inv K, of eps r m1]
  have sub: "matrix_element sz (gmPreviousGains gm) K ` {..<?n} \<subseteq> ?cells" using element_in_cells [OF D(1) K] by auto
  have "previousGain sz gm (?row K m1) k i =
      (if k < Suc K then advanced eps r (previousGain sz gm m k i) (nextGain sz gm m k i) else previousGain sz gm m k i)"
    if ki: "k < ?N" "i < ?n" for k i
  proof (cases "k = K")
    case True
    have "matrix_element sz (gmNextGains gm) K i \<in> array_cells sz (mData (gmNextGains gm))"
      by (rule element_in_cells [OF D(2)]) (use K ki(2) D(3,4) in simp_all)
    from unchanged [OF m1(1) this D(9)] have "nextGain sz gm m1 K i = nextGain sz gm m K i" .
    then show ?thesis using st ki m1(2) [OF K ki(2)] True by (simp add: stored_def)
  next
    case False
    have "matrix_element sz (gmPreviousGains gm) k i \<noteq> matrix_element sz (gmPreviousGains gm) K j" if "j < ?n" for j
      using element_inj [OF D(1) sz ki(2) that] False by blast
    then have "matrix_element sz (gmPreviousGains gm) k i \<notin> matrix_element sz (gmPreviousGains gm) K ` {..<?n}" by blast
    then have "previousGain sz gm (?row K m1) k i = previousGain sz gm m1 k i" using st by (simp add: stored_def)
    then show ?thesis using m1(2) [OF ki] False by auto
  qed
  moreover have "same_outside ?cells m (?row K m1)" by (rule same_outside_trans [OF m1(1) stored_outside [OF st sub]])
  ultimately show ?case unfolding upt_Suc_append [OF le0] fold_append comp_def m1_def by simp
qed

lemma setNewGains_spec:
  fixes m :: "'a::linordered_field memory"
  assumes sz: "sz = 2 ^ l" and st: "gains_state sz ao gm m p q n"
    and R: "matrix_inv sz ao R" "array_cells sz (mData (gmPreviousGains gm)) \<inter> array_cells sz (mData R) = {}"
      "array_cells sz (mData (gmNextGains gm)) \<inter> array_cells sz (mData R) = {}"
  shows "if mNumberOfRows R \<noteq> mNumberOfRows (gmPreviousGains gm) \<or> mNumberOfColumns R \<noteq> mNumberOfColumns (gmPreviousGains gm)
    then setNewGains eps sz gm R m = Inl invalid_argument
    else \<exists>gm' m'. setNewGains eps sz gm R m = Inr (gm', m') \<and>
      gains_state sz ao gm' m'
        (\<lambda>k i. settled eps (gfInterpolationSamples (gmFader gm)) (gmBlockSize gm) n (p k i) (q k i))
        (\<lambda>k i. m (matrix_element sz R k i)) 0 \<and>
      same_outside (array_cells sz (mData (gmPreviousGains gm)) \<union> array_cells sz (mData (gmNextGains gm))) m m'"
proof (cases "mNumberOfRows R \<noteq> mNumberOfRows (gmPreviousGains gm) \<or> mNumberOfColumns R \<noteq> mNumberOfColumns (gmPreviousGains gm)")
  case True
  then show ?thesis by (simp add: setNewGains_def)
next
  case False
  let ?gf = "gmFader gm" and ?N = "mNumberOfRows (gmPreviousGains gm)" and ?n = "mNumberOfColumns (gmPreviousGains gm)"
  let ?p = "\<lambda>k i. settled eps (gfInterpolationSamples ?gf) (gmBlockSize gm) n (p k i) (q k i)"
  have S: "gains_inv sz ao gm" "ramp_holds sz m ?gf" "gmInterpolationCounter gm = min n (gfInterpolationPeriods ?gf)"
    "\<And>k i. k < ?N \<Longrightarrow> i < ?n \<Longrightarrow> previousGain sz gm m k i = p k i \<and> nextGain sz gm m k i = q k i"
    using st by (simp_all add: gains_state_def)
  note D = gains_invD [OF S(1)]
  have sz0: "0 < sz" using sz by simp
  have P: "gfInterpolationPeriods ?gf = (gfInterpolationSamples ?gf + gmBlockSize gm - 1) div gmBlockSize gm"
    using D(6,7) by (simp add: fader_inv_def)
  define first where "first = (if gfInterpolationPeriods ?gf \<le> gmInterpolationCounter gm
    then bindE (matrix_swap (gmPreviousGains gm) (gmNextGains gm)) (\<lambda>(previous, nextGain).
           Inr (gm\<lparr>gmPreviousGains := previous, gmNextGains := nextGain\<rparr>, m))
    else let ratio = min 1 (of_nat (gmInterpolationCounter gm * gmBlockSize gm) / of_nat (gfInterpolationSamples ?gf))
         in Inr (gm, fold (\<lambda>outputIdx m. fold (\<lambda>inputIdx m. advance_gain eps ratio sz gm outputIdx m inputIdx) [0..<?n] m) [0..<?N] m))"
  obtain gm1 m1 where one: "first = Inr (gm1, m1)" "gains_inv sz ao gm1" "gmFader gm1 = ?gf" "gmBlockSize gm1 = gmBlockSize gm"
    "mNumberOfRows (gmPreviousGains gm1) = ?N" "mNumberOfColumns (gmPreviousGains gm1) = ?n"
    "\<And>k i. k < ?N \<Longrightarrow> i < ?n \<Longrightarrow> previousGain sz gm1 m1 k i = ?p k i"
    "same_outside (array_cells sz (mData (gmPreviousGains gm))) m m1"
    "{mData (gmPreviousGains gm1), mData (gmNextGains gm1)} = {mData (gmPreviousGains gm), mData (gmNextGains gm)}"
  proof (cases "gfInterpolationPeriods ?gf \<le> gmInterpolationCounter gm")
    case True
    let ?gm = "gm\<lparr>gmPreviousGains := gmNextGains gm, gmNextGains := gmPreviousGains gm\<rparr>"
    have "gfInterpolationPeriods ?gf \<le> n" using True S(3) by simp
    then have p: "previousGain sz ?gm m k i = ?p k i" if "k < ?N" "i < ?n" for k i
      using S(4) [OF that] P by (simp add: settled_def)
    have "first = Inr (?gm, m)"
      unfolding first_def if_P [OF True] matrix_swap_whole [OF D(1,2) D(3,4,5) [symmetric]] by simp
    moreover have "gains_inv sz ao ?gm" using S(1) by (auto simp: gains_inv_def Let_def Int_commute)
    ultimately show thesis by (intro that [of ?gm m]) (use p D(3,4) in \<open>simp_all add: same_outside_def insert_commute\<close>)
  next
    case False
    let ?r = "min 1 (of_nat (gmInterpolationCounter gm * gmBlockSize gm) / of_nat (gfInterpolationSamples ?gf)) :: 'a"
    let ?m = "fold (\<lambda>k m. fold (\<lambda>i m. advance_gain eps ?r sz gm k m i) [0..<?n] m) [0..<?N] m"
    note A = advance_rows [OF sz0 S(1) order_refl, where m = m and eps = eps and r = ?r, unfolded Let_def]
    have c: "gmInterpolationCounter gm = n" "\<not> (gfInterpolationSamples ?gf + gmBlockSize gm - 1) div gmBlockSize gm \<le> n"
      using False S(3) P by auto
    have p: "previousGain sz gm ?m k i = ?p k i" if "k < ?N" "i < ?n" for k i
      using conjunct2 [OF A] that S(4) [OF that] unfolding advanced_def settled_def if_not_P [OF c(2)] c(1) Let_def by simp
    have "first = Inr (gm, ?m)" unfolding first_def if_not_P [OF False] Let_def ..
    then show thesis by (intro that [of gm ?m]) (use p S(1) A in simp_all)
  qed
  note D1 = gains_invD [OF one(2)]
  have apart: "array_cells sz (mData (gmNextGains gm1)) \<inter> array_cells sz (mData R) = {}"
    using one(9) R(2,3) by (metis insertCI insertE singletonD)
  have dims: "\<not> (mNumberOfRows (gmNextGains gm1) \<noteq> mNumberOfRows R \<or> mNumberOfColumns (gmNextGains gm1) \<noteq> mNumberOfColumns R)"
    using False one(5,6) D1(3,4) by simp
  obtain m2 where m2: "matrix_copy sz (gmNextGains gm1) R m1 = Inr m2" "matrix_values sz m2 (gmNextGains gm1) = matrix_values sz m1 R"
    "same_outside (array_cells sz (mData (gmNextGains gm1))) m1 m2"
    using matrix_copy_spec [OF sz D1(2) R(1) apart, of m1] unfolding if_not_P [OF dims] by blast
  have new: "nextGain sz gm1 m2 k i = m (matrix_element sz R k i)" if ki: "k < ?N" "i < ?n" for k i
  proof -
    have "nextGain sz gm1 m2 k i = m1 (matrix_element sz R k i)"
      by (rule matrix_values_element [OF m2(2)]) (use ki one(5,6) D1(3,4) in simp_all)
    moreover have "matrix_element sz R k i \<in> array_cells sz (mData R)"
      by (rule element_in_cells [OF R(1)]) (use ki False in simp_all)
    ultimately show ?thesis using unchanged [OF one(8) _ R(2)] by simp
  qed
  have old: "previousGain sz gm1 m2 k i = ?p k i" if ki: "k < ?N" "i < ?n" for k i
  proof -
    have "matrix_element sz (gmPreviousGains gm1) k i \<in> array_cells sz (mData (gmPreviousGains gm1))"
      by (rule element_in_cells [OF D1(1)]) (use ki one(5,6) in simp_all)
    then have "previousGain sz gm1 m2 k i = previousGain sz gm1 m1 k i"
      by (rule unchanged [OF m2(3)]) (use D1(9) in blast)
    then show ?thesis using one(7) [OF ki] by simp
  qed
  let ?gm = "gm1\<lparr>gmInterpolationCounter := 0\<rparr>"
  have ramp: "ramp_holds sz m2 ?gf"
  proof (rule ramp_holds_cong)
    show "ramp_holds sz m1 ?gf" by (rule ramp_holds_cong [OF S(2) one(8) D(10)])
    show "same_outside (array_cells sz (mData (gmNextGains gm1))) m1 m2" by (rule m2(3))
    show "array_cells sz (mData (gmNextGains gm1)) \<inter> ramp_cells sz ?gf = {}" using D1(11) one(3) by simp
  qed
  have "gains_inv sz ao ?gm" using one(2) by (simp add: gains_inv_def Let_def)
  then have "gains_state sz ao ?gm m2 ?p (\<lambda>k i. m (matrix_element sz R k i)) 0"
    using ramp old new one(3,5,6) by (simp add: gains_state_def)
  moreover have "setNewGains eps sz gm R m = Inr (?gm, m2)"
  proof -
    have "setNewGains eps sz gm R m = bindE first (\<lambda>(gm, m).
        bindE (matrix_copy sz (gmNextGains gm) R m) (\<lambda>m. Inr (gm\<lparr>gmInterpolationCounter := 0\<rparr>, m)))"
      unfolding setNewGains_def if_not_P [OF False] setGainsInternal_def Let_def first_def ..
    then show ?thesis unfolding one(1) using m2(1) by simp
  qed
  moreover have "same_outside (array_cells sz (mData (gmPreviousGains gm)) \<union> array_cells sz (mData (gmNextGains gm))) m m2"
  proof (rule same_outside_trans)
    show "same_outside (array_cells sz (mData (gmPreviousGains gm)) \<union> array_cells sz (mData (gmNextGains gm))) m m1"
      by (rule same_outside_mono [OF one(8)]) blast
    have "mData (gmNextGains gm1) \<in> {mData (gmPreviousGains gm), mData (gmNextGains gm)}" using one(9) by blast
    then show "same_outside (array_cells sz (mData (gmPreviousGains gm)) \<union> array_cells sz (mData (gmNextGains gm))) m1 m2"
      by (intro same_outside_mono [OF m2(3)]) auto
  qed
  ultimately show ?thesis unfolding if_not_P [OF False] by blast
qed

section \<open>Construction\<close>

lemma GainFader_spec:
  fixes m :: "'a::linordered_field memory"
  assumes sz: "sz = 2 ^ l" "ao dvd sz" and al: "al = 0 \<or> (\<exists>k. al = 2 ^ k)" "max 1 al * sz < 2 ^ 64"
    and B: "0 < B" "max 1 al dvd B" and P: "P = (S + B - 1) div B"
    and fresh: "fresh ao raw1 (((P + 1) * B + max 1 al) * sz)" "fresh ao raw2 ((B + max 1 al) * sz)"
  shows "\<exists>gf m'. GainFader sz ao raw1 raw2 B S al m = Inr (gf, m') \<and> fader_inv sz ao gf \<and> ramp_holds sz m' gf \<and>
    gfBlockSize gf = B \<and> gfInterpolationSamples gf = S \<and>
    ramp_cells sz gf \<subseteq> raw_block raw1 (((P + 1) * B + max 1 al) * sz) \<and> same_outside (ramp_cells sz gf) m m'"
proof -
  have sz0: "0 < sz" using sz(1) by simp
  obtain a where a: "AlignedArray sz ao raw1 ((P + 1) * B) al = Inr a" "array_inv sz ao a" "mArrayLength a = (P + 1) * B"
    "mAlignment a = max 1 al" "mRawStorage a = (if (P + 1) * B = 0 then 0 else raw1)"
    using AlignedArray_inv [OF al sz0 sz(2)] fresh(1) by blast
  obtain b where b: "AlignedArray sz ao raw2 B al = Inr b" using AlignedArray_inv [OF al sz0 sz(2)] fresh(2) by blast
  let ?gf = "\<lparr>gfBlockSize = B, gfInterpolationSamples = S, gfInterpolationPeriods = P, gfInterpolationRamp = a, gfTempBuffer = b\<rparr>"
  have inv: "fader_inv sz ao ?gf" using B P a(2-4) by (simp add: fader_inv_def)
  obtain m' where m': "setupRamp sz ?gf S m = Inr m'" "ramp_holds sz m' ?gf" "same_outside (ramp_cells sz ?gf) m m'"
    using setupRamp_spec [OF sz(1), of ?gf ao m] B P a(2,3) by auto
  have "array_cells sz a \<subseteq> raw_block raw1 (((P + 1) * B + max 1 al) * sz)"
    using cells_raw_block [OF a(2) sz0, of "(P + 1) * B + max 1 al"] a(3-5) B(1) by simp
  moreover have "GainFader sz ao raw1 raw2 B S al m = Inr (?gf, m')"
  proof -
    have nz: "B \<noteq> 0" using B(1) by simp
    show ?thesis unfolding GainFader_def if_not_P [OF nz] Let_def P [symmetric] a(1) b bindE_simps m'(1) ..
  qed
  ultimately show ?thesis using inv m'(2,3) by (intro exI [of _ ?gf] exI [of _ m']) simp
qed

lemma GainMatrix_spec:
  fixes m :: "'a::linordered_field memory"
  assumes sz: "sz = 2 ^ l" "ao dvd sz" and al: "al = 0 \<or> (\<exists>k. al = 2 ^ k)" "max 1 al * sz < 2 ^ 64"
    and B: "0 < B" "max 1 al dvd B" and P: "P = (S + B - 1) div B"
    and fresh: "fresh ao raw1 (row_bytes sz I nOut al)" "fresh ao raw2 (row_bytes sz I nOut al)"
      "fresh ao raw3 (((P + 1) * B + max 1 al) * sz)" "fresh ao raw4 ((B + max 1 al) * sz)"
    and dis: "pairwise_disjoint [raw_block raw1 (row_bytes sz I nOut al), raw_block raw2 (row_bytes sz I nOut al),
      raw_block raw3 (((P + 1) * B + max 1 al) * sz)]"
  shows "\<exists>gm m'. GainMatrix sz ao (raw1, raw2, raw3, raw4) I nOut B S v al m = Inr (gm, m') \<and>
    gains_state sz ao gm m' (\<lambda>k i. v) (\<lambda>k i. v) 0 \<and> mNumberOfRows (gmPreviousGains gm) = nOut \<and>
    mNumberOfColumns (gmPreviousGains gm) = I \<and> gmBlockSize gm = B \<and> gmAlignment gm = al \<and>
    gfInterpolationSamples (gmFader gm) = S"
proof -
  have sz0: "0 < sz" using sz(1) by simp
  obtain p m1 where p: "BasicMatrix sz ao raw1 nOut I al m = Inr (p, m1)" "matrix_inv sz ao p" "mNumberOfRows p = nOut"
    "mNumberOfColumns p = I" "mAlignment (mData p) = max 1 al"
    using BasicMatrix_spec [OF al sz0 sz(2) fresh(1) [unfolded row_bytes_def], of m] by blast
  obtain q m2 where q: "BasicMatrix sz ao raw2 nOut I al m1 = Inr (q, m2)" "matrix_inv sz ao q" "mNumberOfRows q = nOut"
    "mNumberOfColumns q = I" "mAlignment (mData q) = max 1 al"
    using BasicMatrix_spec [OF al sz0 sz(2) fresh(2) [unfolded row_bytes_def], of m1] by blast
  obtain gf m3 where gf: "GainFader sz ao raw3 raw4 B S al m2 = Inr (gf, m3)" "fader_inv sz ao gf" "ramp_holds sz m3 gf"
    "gfBlockSize gf = B" "gfInterpolationSamples gf = S" "ramp_cells sz gf \<subseteq> raw_block raw3 (((P + 1) * B + max 1 al) * sz)"
    using GainFader_spec [OF sz al B P fresh(3,4), of m2] by blast
  have cells: "array_cells sz (mData p) \<subseteq> raw_block raw1 (row_bytes sz I nOut al)" "array_cells sz (mData q) \<subseteq> raw_block raw2 (row_bytes sz I nOut al)"
    using BasicMatrix_cells [OF p(1) al sz0 sz(2) fresh(1) [unfolded row_bytes_def]]
      BasicMatrix_cells [OF q(1) al sz0 sz(2) fresh(2) [unfolded row_bytes_def]] unfolding row_bytes_def by simp_all
  have apart: "array_cells sz (mData p) \<inter> array_cells sz (mData q) = {}" "array_cells sz (mData p) \<inter> ramp_cells sz gf = {}"
    "array_cells sz (mData q) \<inter> ramp_cells sz gf = {}"
    using disjoint_subsets [OF cells(1) cells(2)] disjoint_subsets [OF cells(1) gf(6)] disjoint_subsets [OF cells(2) gf(6)]
      pairwise_disjointD [OF dis, of 0 1] pairwise_disjointD [OF dis, of 0 2] pairwise_disjointD [OF dis, of 1 2] by simp_all
  obtain m4 where m4: "matrix_fillValue sz v p m3 = Inr m4" "matrix_values sz m4 p = replicate nOut (replicate I v)"
    "same_outside (array_cells sz (mData p)) m3 m4"
    using matrix_fill_spec [OF p(2) sz0, of v m3] unfolding p(3,4) by blast
  have dims: "\<not> (mNumberOfRows q \<noteq> mNumberOfRows p \<or> mNumberOfColumns q \<noteq> mNumberOfColumns p)" by (simp add: p(3,4) q(3,4))
  have qp: "array_cells sz (mData q) \<inter> array_cells sz (mData p) = {}" using apart(1) by blast
  obtain m5 where m5: "matrix_copy sz q p m4 = Inr m5" "matrix_values sz m5 q = matrix_values sz m4 p"
    "same_outside (array_cells sz (mData q)) m4 m5"
    using matrix_copy_spec [OF sz(1) q(2) p(2) qp, of m4] unfolding if_not_P [OF dims] by blast
  let ?gm = "\<lparr>gmPreviousGains = p, gmNextGains = q, gmBlockSize = B, gmAlignment = al, gmInterpolationCounter = 0, gmFader = gf\<rparr>"
  have inv: "gains_inv sz ao ?gm" using p(2-5) q(2-5) gf(2,4) apart by (simp add: gains_inv_def)
  have ramp: "ramp_holds sz m5 gf"
    by (rule ramp_holds_cong [OF ramp_holds_cong [OF gf(3) m4(3) apart(2)] m5(3) apart(3)])
  have v: "m4 (matrix_element sz p k i) = v" "m5 (matrix_element sz q k i) = v" if "k < nOut" "i < I" for k i
  proof -
    have "matrix_values sz m4 p ! k ! i = m4 (matrix_element sz p k i)" using that p(3,4) by (simp add: matrix_values_def)
    then show v: "m4 (matrix_element sz p k i) = v" using m4(2) that by simp
    show "m5 (matrix_element sz q k i) = v" using matrix_values_element [OF m5(2), of k i] that q(3,4) v by simp
  qed
  have "m5 (matrix_element sz p k i) = v" if "k < nOut" "i < I" for k i
  proof -
    have "matrix_element sz p k i \<in> array_cells sz (mData p)" by (rule element_in_cells [OF p(2)]) (use that p(3,4) in simp_all)
    from unchanged [OF m5(3) this qp] show ?thesis using v(1) that by simp
  qed
  then have "gains_state sz ao ?gm m5 (\<lambda>k i. v) (\<lambda>k i. v) 0" using inv ramp v(2) p(3,4) by (simp add: gains_state_def)
  moreover have "GainMatrix sz ao (raw1, raw2, raw3, raw4) I nOut B S v al m = Inr (?gm, m5)"
    unfolding GainMatrix_def prod.case p(1) bindE_simps q(1) gf(1) m4(1) m5(1) ..
  ultimately show ?thesis using p(3,4) gf(5) by (intro exI [of _ ?gm] exI [of _ m5]) simp
qed

section \<open>Results\<close>

text \<open>
  C12 (gain_matrix_spec): in block \<open>n\<close> of a transition from the gains \<open>p\<close> to the gains \<open>q\<close>, a gain matrix
  mixes the inputs into every output with gains that move linearly from \<open>p\<close>, which is not included, to \<open>q\<close>, which is
  reached exactly with the last sample of the interpolation and kept from then on. New gains of other dimensions are refused;
  new gains of the same dimensions start a transition. It continues from the gain of the last sample where
  the running transition is over or has moved the gain by at least the machine epsilon; where it has moved it by
  less, which includes the case that no block has been processed since the last change, it starts from \<open>q\<close>, the
  target of the running transition, and the gain jumps there.
\<close>

theorem gain_matrix_spec:
  fixes m :: "'a::linordered_field memory"
  assumes "sz = 2 ^ l" and "gains_state sz ao gm m p q n" and "channels_ok sz gm input output"
    and "matrix_inv sz ao R" and "array_cells sz (mData (gmPreviousGains gm)) \<inter> array_cells sz (mData R) = {}"
    and "array_cells sz (mData (gmNextGains gm)) \<inter> array_cells sz (mData R) = {}" and "0 < eps"
  shows "(\<exists>gm' m'. gains_process sz gm input output m = Inr (gm', m') \<and> gains_state sz ao gm' m' p q (Suc n) \<and>
      (\<forall>k < mNumberOfRows (gmPreviousGains gm). \<forall>s < gmBlockSize gm. m' (elem sz (output k) s) =
         (\<Sum>i<mNumberOfColumns (gmPreviousGains gm).
            faded (gfInterpolationSamples (gmFader gm)) (p k i) (q k i) (n * gmBlockSize gm + s) * m (elem sz (input i) s))) \<and>
      same_outside (\<Union>k<mNumberOfRows (gmPreviousGains gm). block sz (output k) (gmBlockSize gm)) m m') \<and>
    (if mNumberOfRows R \<noteq> mNumberOfRows (gmPreviousGains gm) \<or> mNumberOfColumns R \<noteq> mNumberOfColumns (gmPreviousGains gm)
      then setNewGains eps sz gm R m = Inl invalid_argument
      else \<exists>gm' m' start. setNewGains eps sz gm R m = Inr (gm', m') \<and>
        gains_state sz ao gm' m' start (\<lambda>k i. m (matrix_element sz R k i)) 0 \<and>
        (\<forall>k i. let g = last_gain (gfInterpolationSamples (gmFader gm)) (gmBlockSize gm) n (p k i) (q k i)
          in (0 < n \<and> (gfInterpolationSamples (gmFader gm) \<le> n * gmBlockSize gm \<or> eps \<le> \<bar>g - p k i\<bar>) \<longrightarrow> start k i = g) \<and>
             (\<bar>g - p k i\<bar> < eps \<longrightarrow> start k i = q k i)))"
proof -
  have B: "0 < gmBlockSize gm" using assms(2) unfolding gains_state_def gains_inv_def fader_inv_def Let_def by (elim conjE) simp
  have start: "\<forall>k i. let g = last_gain (gfInterpolationSamples (gmFader gm)) (gmBlockSize gm) n (p k i) (q k i);
           P = settled eps (gfInterpolationSamples (gmFader gm)) (gmBlockSize gm) n (p k i) (q k i)
      in (0 < n \<and> (gfInterpolationSamples (gmFader gm) \<le> n * gmBlockSize gm \<or> eps \<le> \<bar>g - p k i\<bar>) \<longrightarrow> P = g) \<and>
         (\<bar>g - p k i\<bar> < eps \<longrightarrow> P = q k i)"
    unfolding Let_def by (intro allI conjI settled_spec [OF B assms(7)])
  show ?thesis
  proof (intro conjI)
    show "\<exists>gm' m'. gains_process sz gm input output m = Inr (gm', m') \<and> gains_state sz ao gm' m' p q (Suc n) \<and>
      (\<forall>k < mNumberOfRows (gmPreviousGains gm). \<forall>s < gmBlockSize gm. m' (elem sz (output k) s) =
         (\<Sum>i<mNumberOfColumns (gmPreviousGains gm).
            faded (gfInterpolationSamples (gmFader gm)) (p k i) (q k i) (n * gmBlockSize gm + s) * m (elem sz (input i) s))) \<and>
      same_outside (\<Union>k<mNumberOfRows (gmPreviousGains gm). block sz (output k) (gmBlockSize gm)) m m'"
      using gains_process_spec [OF assms(1-3)] by blast
    show "if mNumberOfRows R \<noteq> mNumberOfRows (gmPreviousGains gm) \<or> mNumberOfColumns R \<noteq> mNumberOfColumns (gmPreviousGains gm)
      then setNewGains eps sz gm R m = Inl invalid_argument
      else \<exists>gm' m' start. setNewGains eps sz gm R m = Inr (gm', m') \<and>
        gains_state sz ao gm' m' start (\<lambda>k i. m (matrix_element sz R k i)) 0 \<and>
        (\<forall>k i. let g = last_gain (gfInterpolationSamples (gmFader gm)) (gmBlockSize gm) n (p k i) (q k i)
          in (0 < n \<and> (gfInterpolationSamples (gmFader gm) \<le> n * gmBlockSize gm \<or> eps \<le> \<bar>g - p k i\<bar>) \<longrightarrow> start k i = g) \<and>
             (\<bar>g - p k i\<bar> < eps \<longrightarrow> start k i = q k i))"
      using setNewGains_spec [OF assms(1,2,4-6), of eps] start unfolding Let_def by (simp split: if_splits) blast
  qed
qed

text \<open>
  A second change of gains before a block has been processed does jump: the first ones are then taken as
  reached.
\<close>

lemma second_change_jumps: "0 < eps \<Longrightarrow> 0 < S \<Longrightarrow> 0 < B \<Longrightarrow> settled eps S B 0 p q = q"
  by (auto simp: settled_def Let_def)

text \<open>
  One gain in the second block of a transition from 0 to 8 over two blocks of two samples; the new gain 3 is at 400.
\<close>

definition ex_gains :: gain_matrix where
  "ex_gains = \<lparr>gmPreviousGains = ex_matrix 1 100, gmNextGains = ex_matrix 1 120, gmBlockSize = 2, gmAlignment = 0,
     gmInterpolationCounter = 1,
     gmFader = \<lparr>gfBlockSize = 2, gfInterpolationSamples = 4, gfInterpolationPeriods = 2,
       gfInterpolationRamp = mData (ex_matrix 6 200), gfTempBuffer = mData (ex_matrix 2 240)\<rparr>\<rparr>"

definition ex_gain_memory :: "rat memory" where
  "ex_gain_memory a = (if a = 120 then 8 else if a = 200 then 1 / 4 else if a = 204 then 1 / 2 else if a = 208 then 3 / 4
     else if 212 \<le> a \<and> a \<le> 220 then 1 else if a = 400 then 3 else if 300 \<le> a \<and> a \<le> 304 then 5 else 0)"

lemma ex_gains_state: "gains_state 4 4 ex_gains ex_gain_memory (\<lambda>k i. 0) (\<lambda>k i. 8) 1"
proof -
  have m: "matrix_inv 4 4 (ex_matrix 1 100)" "matrix_inv 4 4 (ex_matrix 1 120)" by (rule ex_matrix_inv; simp)+
  have a: "array_inv 4 4 (mData (ex_matrix 6 200))" by (rule ex_array_inv) simp_all
  have u: "{..<1} = {0 :: nat}" "{..<6} = {0, 1, 2, 3, 4, 5 :: nat}" by auto
  have "gains_inv 4 4 ex_gains"
    using m a by (simp add: gains_inv_def ex_gains_def fader_inv_def ex_matrix_cells u lessThan_Suc)
  moreover have "ramp_holds 4 ex_gain_memory (gmFader ex_gains)"
  proof -
    have "\<forall>k \<in> {0, 1, 2, 3, 4, 5 :: nat}. ex_gain_memory (elem 4 200 k) = fade 4 k"
      by (simp add: ex_gain_memory_def fade_def)
    then show ?thesis unfolding u(2) [symmetric] by (simp add: ramp_holds_def ex_gains_def)
  qed
  ultimately show ?thesis by (simp add: gains_state_def ex_gains_def matrix_element_def ex_gain_memory_def)
qed

theorem gain_matrix_spec_witness:
  "(\<exists>gm' m'. gains_process 4 ex_gains (\<lambda>i. 300) (\<lambda>k. 320) ex_gain_memory = Inr (gm', m') \<and> m' 320 = 30 \<and> m' 324 = 40) \<and>
   (\<exists>gm' m'. setNewGains (1 / 1000) 4 ex_gains (ex_matrix 1 400) ex_gain_memory = Inr (gm', m') \<and>
      (\<exists>start. gains_state 4 4 gm' m' start (\<lambda>k i. ex_gain_memory (matrix_element 4 (ex_matrix 1 400) k i)) 0 \<and> start 0 0 = 4))"
proof -
  have pow: "(4::nat) = 2 ^ 2" by simp
  have u: "{..<1} = {0 :: nat}" "{..<2} = {0, 1 :: nat}" "{..<6} = {0, 1, 2, 3, 4, 5 :: nat}" by auto
  have sel: "gmPreviousGains ex_gains = ex_matrix 1 100" "gmNextGains ex_gains = ex_matrix 1 120" "gmBlockSize ex_gains = 2"
    "gmAlignment ex_gains = 0" "gfInterpolationSamples (gmFader ex_gains) = 4" "gfInterpolationRamp (gmFader ex_gains) = mData (ex_matrix 6 200)"
    by (simp_all add: ex_gains_def)
  have al: "checkAlignment 4 300 1" "checkAlignment 4 320 1" by code_simp+
  have ok: "channels_ok 4 ex_gains (\<lambda>i. 300) (\<lambda>k. 320)"
    using al by (simp add: channels_ok_def sel ex_matrix_cells u lessThan_Suc)
  have R: "matrix_inv 4 4 (ex_matrix 1 400)" by (rule ex_matrix_inv) simp_all
  have apart: "array_cells 4 (mData (gmPreviousGains ex_gains)) \<inter> array_cells 4 (mData (ex_matrix 1 400)) = {}"
    "array_cells 4 (mData (gmNextGains ex_gains)) \<inter> array_cells 4 (mData (ex_matrix 1 400)) = {}"
    by (simp_all add: sel ex_matrix_cells lessThan_Suc)
  have eps: "0 < (1 / 1000 :: rat)" by simp
  note w = gain_matrix_spec [OF pow ex_gains_state ok R apart, where eps = "1 / 1000", OF eps, unfolded sel]
  obtain gm' m' where p: "gains_process 4 ex_gains (\<lambda>i. 300) (\<lambda>k. 320) ex_gain_memory = Inr (gm', m')"
    "\<forall>k < mNumberOfRows (ex_matrix 1 100). \<forall>s < 2. m' (elem 4 320 s) = (\<Sum>i<mNumberOfColumns (ex_matrix 1 100).
       faded 4 0 8 (1 * 2 + s) * ex_gain_memory (elem 4 300 s))"
    using conjunct1 [OF w] by blast
  have "\<forall>s < 2. m' (elem 4 320 s) = faded 4 0 8 (2 + s) * ex_gain_memory (elem 4 300 s)" using p(2) by simp
  from spec [OF this, of 0] spec [OF this, of 1] have "m' 320 = 30" "m' 324 = 40"
    by (simp_all add: faded_def fade_def ex_gain_memory_def)
  moreover have g: "last_gain 4 2 1 0 8 = (4 :: rat)" by (simp add: last_gain_def faded_def fade_def)
  obtain gm'' m'' start where "setNewGains (1 / 1000) 4 ex_gains (ex_matrix 1 400) ex_gain_memory = Inr (gm'', m'')"
      "gains_state 4 4 gm'' m'' start (\<lambda>k i. ex_gain_memory (matrix_element 4 (ex_matrix 1 400) k i)) 0"
      "let g = last_gain 4 2 1 0 8 in (0 < (1::nat) \<and> (4 \<le> 1 * (2::nat) \<or> 1 / 1000 \<le> \<bar>g - 0\<bar>) \<longrightarrow> start 0 0 = g) \<and>
             (\<bar>g - 0\<bar> < 1 / 1000 \<longrightarrow> start 0 0 = 8)"
    using conjunct2 [OF w] by auto
  moreover from this(3) have "start 0 0 = 4" unfolding g by (simp add: Let_def)
  ultimately show ?thesis using p(1) by blast
qed

end
