(* ===== verification/Spec2Isabelle.thy ===== *)
theory Spec2Isabelle
  imports Audio_Signal_Flow Delay_Line Channel_Allocator Biquad_Filter Fast_Convolution Gain_Matrix
begin

text \<open>
  A verification library for the core of VISR, a C++ framework for audio rendering. A signal flow
  is a hierarchy of components with audio and parameter ports; the runtime library checks it,
  flattens it, lays out the memory of its signals, connects its parameters, schedules the atomic
  components and executes them block by block. Below are the vector functions, containers and
  signal-processing classes that the components are made of.

  \<^bold>\<open>The parts of the program and their theories.\<close> All source paths are below \<open>src/src\<close>.

  \<^item> \<open>Prelude\<close>: exceptions as values (\<open>exn\<close>, results of type \<open>exn + 'a\<close>, \<open>bindE\<close>, \<open>foldE\<close>), and
    the containers of the standard library as sorted lists.
  \<^item> \<open>Channel_List\<close> (\<open>libvisr/channel_list.cpp\<close>): channel ranges over 64-bit words, their
    expansion, and the compact printed form.
  \<^item> \<open>Component_Model\<close>, \<open>Component_Wf\<close> (\<open>libvisr/impl\<close>): components, composites, ports and the
    connections registered in composites, in a store from addresses to records; every
    constructor, destructor and registration call; the invariant \<open>wf_store\<close> of all of them.
  \<^item> \<open>Port_Lookup\<close> (\<open>librrl/port_utilities.cpp\<close>), \<open>Connection_Table\<close>, \<open>Audio_Connections\<close>
    (\<open>librrl/audio_connection_map.cpp\<close>), \<open>Parameter_Connections\<close>
    (\<open>librrl/parameter_connection_map.cpp\<close>), \<open>Parameter_Graph\<close>
    (\<open>librrl/parameter_connection_graph.cpp\<close>): from the hierarchy to flat tables of connections.
    \<open>hier\<close> is the tree of a walk over a finished hierarchy, and \<open>matches s t\<close> says that \<open>t\<close> is the
    tree of the store \<open>s\<close>.
  \<^item> \<open>Integrity_Checking\<close> (\<open>librrl/integrity_checking.cpp\<close>) and \<open>Scheduling\<close>
    (\<open>librrl/scheduling_graph.cpp\<close>).
  \<^item> \<open>Buffer_Layout\<close>, \<open>Buffer_Placement\<close>, \<open>Buffer_Assignment\<close>: \<open>initialiseAudioConnections\<close> of
    \<open>librrl/audio_signal_flow.cpp\<close>, its placement of ports in the channel sequence, the
    insertion of internal routing components (\<open>librrl/signal_routing_internal.cpp\<close>), and the
    addresses of the buffers.
  \<^item> \<open>Protocols\<close> (the communication protocols of \<open>libpml\<close>), \<open>Protocol_Factory\<close> (the factories
    of \<open>libvisr\<close>), \<open>Parameter_Infrastructure\<close> (\<open>initialiseParameterInfrastructure\<close>).
  \<^item> \<open>Flow_Execution\<close>: processing a block, with the time object
    (\<open>libvisr/impl/time_implementation.cpp\<close>). \<open>Flow_Structure\<close>, \<open>Flow_Store\<close> and
    \<open>Audio_Signal_Flow\<close>: the constructor of \<open>AudioSignalFlow\<close> as the composition of all of this.
  \<^item> \<open>Vector_Functions\<close> (\<open>libefl/reference/vector_functions_impl.hpp\<close>, \<open>libefl/alignment.hpp\<close>),
    \<open>Aligned_Storage\<close> and \<open>Basic_Matrix\<close> (\<open>libefl\<close> containers), \<open>Lagrange\<close>
    (\<open>libefl/lagrange_coefficient_calculator.cpp\<close>), \<open>Biquad_Filter\<close>
    (\<open>libefl/reference/filter_functions_impl.hpp\<close>), \<open>Circular_Buffer\<close>, \<open>Delay_Line\<close> and
    \<open>Channel_Allocator\<close> (\<open>librbbl\<close>).
  \<^item> \<open>Index_Sequence\<close> and \<open>Filter_Routing\<close> (\<open>librbbl/index_sequence.cpp\<close>,
    \<open>filter_routing.cpp\<close>, \<open>sparse_gain_routing.cpp\<close>): ordered sets under an order that
    identifies elements with the same key (the locale \<open>weak_order\<close>), and their JSON form.
  \<^item> \<open>Core_Convolver\<close>, \<open>Multichannel_Convolver\<close>, \<open>Convolver_Construction\<close> and
    \<open>Fast_Convolution\<close> (\<open>librbbl/core_convolver_uniform.cpp\<close>,
    \<open>multichannel_convolver_uniform.cpp\<close>): partitioned fast convolution. \<open>convolver_state\<close> says
    which histories and impulse responses the ring buffer, the delay line of spectra and the
    stored filters stand for.
  \<^item> \<open>Gain_Matrix\<close> (\<open>librbbl/gain_fader.cpp\<close>, \<open>gain_matrix.cpp\<close>): matrices of gains that change
    over a number of blocks. \<open>gains_state\<close> says which transition a gain matrix is in.

  \<^bold>\<open>Correspondence.\<close> A class is a record with the source's members, an enumeration a datatype, and
  an operation a function that takes the state and returns the new one. Raw pointers between
  components and ports are addresses into the store. A pointer to samples is the byte address of
  its first element, and the memory maps the address of an element to its value. Every \<open>throw\<close> is a
  branch of type \<open>exn\<close>; places where the program would dereference an end iterator or a null
  pointer are \<open>undefined_behaviour\<close>. Sizes are natural numbers, and 64-bit words where wrap-around
  can happen (channel ranges, hashes, alignment masks, the block counter). What the program takes
  from elsewhere is an argument: the addresses that \<open>new\<close> returns, the graph algorithms of Boost
  (with their documented contracts as hypotheses), \<open>std::partition\<close>, the Fourier transforms (with
  the laws \<open>fft_laws\<close>), the parsers of JSON and of numbers (their results), and \<open>process()\<close> of the
  application's components.

  \<^bold>\<open>What the lemmas show.\<close> The construction of a flow succeeds exactly when the checks hold, and
  then every concrete receiving channel has the address of the one concrete sender that feeds it
  through any number of placeholders, either directly or over an internal routing component; the
  schedule puts senders before receivers; a block is executed to the end, and every receiver
  then reads what its sender wrote in the same block. Two parameter ports share a
  protocol object exactly if they are linked, and the configuration of the sender accepts those of the
  receivers; the message queue is first-in first-out under every
  interleaving, and the double buffer shows the reader nothing before the swap. The vector functions
  compute their elementwise operations for all admissible overlaps; the containers keep their
  alignment; the ring buffer represents the history of its samples; the delay line delays
  polynomials of the interpolation order exactly, for samples without rounding and delays that leave
  room in the ring buffer; a cascade of
  biquads is the composition of its difference equations; a convolver, from its construction on
  and over changes of its filters, outputs the convolution of the whole past of its inputs,
  whatever the partitioning; a gain matrix mixes its inputs with gains that move linearly
  from the old to the new ones. Where the code does not keep what its documentation promises (large delays,
  repeated changes of gains, sequences of filters, runs of equal channels), the theorems say what it
  does instead.

  \<^bold>\<open>Bounds and fuel.\<close> \<open>fullName\<close> and the walk that reads a hierarchy off the store take the number of
  components as the bound of the depth, which a well-formed store never exceeds. Resolving
  placeholders follows a table of connections for at most as many steps as it has entries,
  proved sufficient in \<open>Connection_Table\<close>; the step limits in the program's own loops are those
  of the source. All other recursion is structural or has a proved measure.

  \<^bold>\<open>Not modelled.\<close> The texts of messages, and the conversion of numbers to text. Rounding of
  floating-point numbers (the vector functions make no assumption about the arithmetic; the theories
  on filters and interpolation compute in a field). The SIMD variants of the vector
  functions, which repeat the portable ones for particular processors. The Fourier transforms, the
  convolvers that cross-fade or interpolate between filters, panning, object metadata, network and
  audio drivers, language bindings (and with them configurations of
  parameters that are classes of a Python program) and third-party code: they are listed in the manifest with the reason.
\<close>

end
